(* ===== verification/Prelude.thy ===== *)
theory Prelude
  imports Main "HOL-Library.Sublist" "HOL-Library.Char_ord" "HOL-Library.List_Lexorder"
begin

text \<open>
  What every component shares: bytes and the searches of \<open>std::string\<close>, the result type of
  code that can stop on a failed assertion, and generic lemmas on lists.

  A C++ \<open>std::string\<close> is a sequence of bytes, and a HOL \<open>char\<close> is exactly one byte, so a
  \<open>string\<close> here is the byte sequence and \<open>length\<close> is \<open>size()\<close>. The order of \<open>std::string\<close>
  is lexicographic on unsigned bytes; \<open>List_Lexorder\<close> over \<open>Char_ord\<close> is that order.
\<close>

named_theorems str_simps \<open>evaluation rules of the string searches\<close>
named_theorems inv_intros \<open>preservation lemmas of component invariants\<close>

text \<open>
  A failed assertion ends the program. \<open>Fail w\<close> is that branch with the reason, \<open>Ok x\<close> a
  normal return.
\<close>

datatype ('e, 'a) outcome = Fail 'e | Ok 'a

fun bind_ok :: "('e, 'a) outcome \<Rightarrow> ('a \<Rightarrow> ('e, 'b) outcome) \<Rightarrow> ('e, 'b) outcome" where
  "bind_ok (Fail e) f = Fail e"
| "bind_ok (Ok x) f = f x"

definition is_ok :: "('e, 'a) outcome \<Rightarrow> bool" where
  "is_ok r \<longleftrightarrow> (case r of Fail _ \<Rightarrow> False | Ok _ \<Rightarrow> True)"

lemma is_ok_simps [simp]: "is_ok (Ok x)" "\<not> is_ok (Fail e)"
  by (simp_all add: is_ok_def)

lemma bind_ok_Ok_iff: "bind_ok r f = Ok y \<longleftrightarrow> (\<exists>x. r = Ok x \<and> f x = Ok y)"
  by (cases r) auto

lemma bind_ok_Fail_iff: "bind_ok r f = Fail e \<longleftrightarrow> r = Fail e \<or> (\<exists>x. r = Ok x \<and> f x = Fail e)"
  by (cases r) auto

text \<open>Steps that can stop, one after the other.\<close>

fun fold_ok :: "('s \<Rightarrow> 'x \<Rightarrow> ('e, 's) outcome) \<Rightarrow> 's \<Rightarrow> 'x list \<Rightarrow> ('e, 's) outcome" where
  "fold_ok f s [] = Ok s"
| "fold_ok f s (x # xs) = bind_ok (f s x) (\<lambda>s'. fold_ok f s' xs)"

lemma fold_ok_append: "fold_ok f s (xs @ ys) = bind_ok (fold_ok f s xs) (\<lambda>s. fold_ok f s ys)"
proof (induction xs arbitrary: s)
  case (Cons x xs)
  then show ?case by (cases "f s x") simp_all
qed simp

lemma fold_ok_map: "fold_ok f s (map g xs) = fold_ok (\<lambda>s x. f s (g x)) s xs"
proof (induction xs arbitrary: s)
  case (Cons x xs)
  then show ?case by (cases "f s (g x)") simp_all
qed simp

lemma fold_ok_concat: "fold_ok f s (concat xss) = fold_ok (fold_ok f) s xss"
proof (induction xss arbitrary: s)
  case (Cons xs xss)
  then show ?case by (cases "fold_ok f s xs") (simp_all add: fold_ok_append)
qed simp

lemma fold_ok_related:
  assumes "\<And>s t x u. x \<in> set xs \<Longrightarrow> P s t \<Longrightarrow> f s x = Ok u \<Longrightarrow> \<exists>v. g t x = Ok v \<and> P u v" "P s t" "fold_ok f s xs = Ok u"
  shows "\<exists>v. fold_ok g t xs = Ok v \<and> P u v"
  using assms
proof (induction xs arbitrary: s t)
  case (Cons x xs)
  from Cons.prems(3) obtain s' where s': "f s x = Ok s'" "fold_ok f s' xs = Ok u" by (cases "f s x") auto
  from Cons.prems(1) [of x s t s'] Cons.prems(2) s'(1) obtain t' where t': "g t x = Ok t'" "P s' t'" by auto
  have "\<exists>v. fold_ok g t' xs = Ok v \<and> P u v"
    by (rule Cons.IH [OF _ t'(2) s'(2)]) (rule Cons.prems(1), simp_all)
  with t'(1) show ?case by simp
qed simp

text \<open>The rules for such a chain: an invariant, a fact that every step establishes for its own input and no step destroys,
  and a chain that cannot stop.\<close>

lemma fold_ok_invariant:
  assumes "\<And>s x t. x \<in> set xs \<Longrightarrow> P s \<Longrightarrow> f s x = Ok t \<Longrightarrow> P t" "P s" "fold_ok f s xs = Ok t"
  shows "P t"
  using assms
proof (induction xs arbitrary: s)
  case (Cons x xs)
  then obtain u where u: "f s x = Ok u" "fold_ok f u xs = Ok t" by (cases "f s x") auto
  have "P u" by (rule Cons.prems(1) [OF _ Cons.prems(2) u(1)]) simp
  show ?case
  proof (rule Cons.IH [OF _ \<open>P u\<close> u(2)])
    show "P t'" if "y \<in> set xs" "P s" "f s y = Ok t'" for s y t'
      using that Cons.prems(1) [of y s t'] by simp
  qed
qed simp

lemma fold_ok_establishes:
  assumes "\<And>s x t. x \<in> set xs \<Longrightarrow> P s \<Longrightarrow> f s x = Ok t \<Longrightarrow> P t \<and> Q x t"
    "\<And>s x t y. x \<in> set xs \<Longrightarrow> P s \<Longrightarrow> Q y s \<Longrightarrow> f s x = Ok t \<Longrightarrow> Q y t"
    "P s" "fold_ok f s xs = Ok t"
  shows "P t \<and> (\<forall>x\<in>set xs. Q x t)"
  using assms
proof (induction xs arbitrary: s)
  case (Cons x xs)
  from Cons.prems(4) obtain u where u: "f s x = Ok u" "fold_ok f u xs = Ok t" by (cases "f s x") auto
  have "P u \<and> Q x u" by (rule Cons.prems(1) [OF _ Cons.prems(3) u(1)]) simp
  then have P: "P u" and Q: "Q x u" by simp_all
  have *: "P t \<and> (\<forall>x\<in>set xs. Q x t)"
  proof (rule Cons.IH [OF _ _ P u(2)])
    show "P t' \<and> Q y t'" if "y \<in> set xs" "P s" "f s y = Ok t'" for s y t'
      using that Cons.prems(1) [of y s t'] by simp
    show "Q z t'" if "y \<in> set xs" "P s" "Q z s" "f s y = Ok t'" for s y z t'
      using that Cons.prems(2) [of y s z t'] by simp
  qed
  have "P t \<and> Q x t"
  proof (rule fold_ok_invariant [where P = "\<lambda>s. P s \<and> Q x s", OF _ _ u(2)])
    show "P t' \<and> Q x t'" if "y \<in> set xs" "P s \<and> Q x s" "f s y = Ok t'" for s y t'
      using that Cons.prems(1) [of y s t'] Cons.prems(2) [of y s x t'] by simp
  qed (use P Q in simp)
  with * show ?case by simp
next
  case Nil
  from Nil.prems(3,4) show ?case by simp
qed

lemma fold_ok_total:
  assumes "\<And>s x. x \<in> set xs \<Longrightarrow> P s \<Longrightarrow> \<exists>t. f s x = Ok t \<and> P t" "P s"
  shows "\<exists>t. fold_ok f s xs = Ok t \<and> P t"
  using assms
proof (induction xs arbitrary: s)
  case (Cons x xs)
  have "\<exists>t. f s x = Ok t \<and> P t" by (rule Cons.prems(1) [OF _ Cons.prems(2)]) simp
  then obtain t where t: "f s x = Ok t" "P t" by blast
  have "\<exists>t'. fold_ok f t xs = Ok t' \<and> P t'"
  proof (rule Cons.IH [OF _ t(2)])
    show "\<exists>t. f s y = Ok t \<and> P t" if "y \<in> set xs" "P s" for s y
      using that Cons.prems(1) [of y s] by simp
  qed
  with t(1) show ?case by simp
next
  case Nil
  from Nil.prems(2) show ?case by simp
qed

lemma fold_ok_error:
  assumes "\<And>s x e. x \<in> set xs \<Longrightarrow> f s x = Fail e \<Longrightarrow> Q e" "fold_ok f s xs = Fail e"
  shows "Q e"
  using assms
proof (induction xs arbitrary: s)
  case (Cons x xs)
  show ?case
  proof (cases "f s x")
    case (Fail e')
    then show ?thesis using Cons.prems(1) [of x s e'] Cons.prems(2) by simp
  next
    case (Ok t)
    then have "fold_ok f t xs = Fail e" using Cons.prems(2) by simp
    then show ?thesis
    proof (rule Cons.IH [rotated])
      show "Q e" if "y \<in> set xs" "f s y = Fail e" for s y e using that Cons.prems(1) [of y s e] by simp
    qed
  qed
qed simp

section \<open>Bytes\<close>

definition byte :: "char \<Rightarrow> nat" where
  "byte c = of_char c"

definition is_digit :: "char \<Rightarrow> bool" where
  "is_digit c \<longleftrightarrow> byte (CHR ''0'') \<le> byte c \<and> byte c \<le> byte (CHR ''9'')"

lemma byte_less_256 [simp]: "byte c < 256"
  using of_char_of [where 'a = nat, of 0] by (simp add: byte_def)

lemma byte_inject [simp]: "byte c = byte d \<longleftrightarrow> c = d"
  by (simp add: byte_def)

section \<open>Searching a string\<close>

text \<open>\<open>find_from s p i\<close> is \<open>s.find(p, i)\<close>: the least position from \<open>i\<close> on where \<open>p\<close> starts;
  \<open>None\<close> is \<open>npos\<close>.\<close>

function find_from :: "'a list \<Rightarrow> 'a list \<Rightarrow> nat \<Rightarrow> nat option" where
  "find_from s p i =
     (if length s < i + length p then None
      else if prefix p (drop i s) then Some i
      else find_from s p (Suc i))"
  by pat_completeness auto
termination
  by (relation "measure (\<lambda>(s, p, i). Suc (length s) - i)") auto

declare find_from.simps [simp del]

text \<open>\<open>find_first_of s P i\<close> is \<open>s.find_first_of(..., i)\<close> for the characters in \<open>P\<close>.\<close>

function find_first_of :: "'a list \<Rightarrow> ('a \<Rightarrow> bool) \<Rightarrow> nat \<Rightarrow> nat option" where
  "find_first_of s P i =
     (if length s \<le> i then None else if P (s ! i) then Some i else find_first_of s P (Suc i))"
  by pat_completeness auto
termination
  by (relation "measure (\<lambda>(s, P, i). length s - i)") auto

declare find_first_of.simps [simp del]

text \<open>\<open>substr s i n\<close> is \<open>s.substr(i, n)\<close> for \<open>i \<le> size()\<close>.\<close>

definition substr :: "'a list \<Rightarrow> nat \<Rightarrow> nat \<Rightarrow> 'a list" where
  "substr s i n = take n (drop i s)"

lemma find_from_Some:
  "find_from s p i = Some j \<Longrightarrow> i \<le> j \<and> j + length p \<le> length s \<and> prefix p (drop j s)"
proof (induction s p i rule: find_from.induct)
  case (1 s p i)
  then show ?case
    by (subst (asm) (2) find_from.simps) (auto split: if_splits)
qed

lemma find_from_least:
  "find_from s p i = Some j \<Longrightarrow> i \<le> k \<Longrightarrow> k < j \<Longrightarrow> \<not> prefix p (drop k s)"
proof (induction s p i rule: find_from.induct)
  case (1 s p i)
  show ?case
  proof (cases "k = i")
    case True
    with 1 show ?thesis
      by (subst (asm) (2) find_from.simps) (auto split: if_splits)
  next
    case False
    with "1.prems" have "Suc i \<le> k" by simp
    moreover from "1.prems" have "\<not> length s < i + length p" "\<not> prefix p (drop i s)"
      "find_from s p (Suc i) = Some j"
      by (subst (asm) find_from.simps; auto split: if_splits)+
    ultimately show ?thesis using "1.IH" "1.prems"(3) by blast
  qed
qed

lemma find_from_None:
  "find_from s p i = None \<Longrightarrow> i \<le> k \<Longrightarrow> k + length p \<le> length s \<Longrightarrow> \<not> prefix p (drop k s)"
proof (induction s p i rule: find_from.induct)
  case (1 s p i)
  from "1.prems" have gd: "\<not> length s < i + length p" by simp
  with "1.prems"(1) have *: "\<not> prefix p (drop i s)" "find_from s p (Suc i) = None"
    by (subst (asm) find_from.simps; auto split: if_splits)+
  show ?case
  proof (cases "k = i")
    case True
    with * show ?thesis by simp
  next
    case False
    with "1.prems"(2) have "Suc i \<le> k" by simp
    with "1.IH" gd * "1.prems"(3) show ?thesis by blast
  qed
qed

lemma find_first_of_Some:
  "find_first_of s P i = Some j \<Longrightarrow>
     i \<le> j \<and> j < length s \<and> P (s ! j) \<and> (\<forall>k. i \<le> k \<longrightarrow> k < j \<longrightarrow> \<not> P (s ! k))"
proof (induction s P i rule: find_first_of.induct)
  case (1 s P i)
  show ?case
  proof (cases "length s \<le> i \<or> P (s ! i)")
    case True
    with "1.prems" show ?thesis
      by (subst (asm) find_first_of.simps) (auto split: if_splits)
  next
    case False
    with "1.prems" have "find_first_of s P (Suc i) = Some j"
      by (subst (asm) find_first_of.simps) (auto split: if_splits)
    with "1.IH" False have IH: "Suc i \<le> j \<and> j < length s \<and> P (s ! j) \<and>
        (\<forall>k. Suc i \<le> k \<longrightarrow> k < j \<longrightarrow> \<not> P (s ! k))" by blast
    with False show ?thesis by (metis Suc_leD Suc_leI le_neq_implies_less)
  qed
qed

lemma find_first_of_None:
  "find_first_of s P i = None \<Longrightarrow> i \<le> k \<Longrightarrow> k < length s \<Longrightarrow> \<not> P (s ! k)"
proof (induction s P i rule: find_first_of.induct)
  case (1 s P i)
  then have *: "\<not> length s \<le> i" "\<not> P (s ! i)" "find_first_of s P (Suc i) = None"
    by (subst (asm) (2) find_first_of.simps; auto split: if_splits)+
  show ?case
  proof (cases "k = i")
    case True
    with * show ?thesis by simp
  next
    case False
    with "1.prems"(2) have "Suc i \<le> k" by simp
    with "1.IH" * "1.prems"(3) show ?thesis by blast
  qed
qed

lemma find_first_of_split:
  assumes "\<forall>x\<in>set xs. \<not> P x" and "ys \<noteq> [] \<Longrightarrow> P (hd ys)"
  shows "find_first_of (pre @ xs @ ys) P (length pre) =
     (if ys = [] then None else Some (length pre + length xs))"
proof (cases "find_first_of (pre @ xs @ ys) P (length pre)")
  case None
  from find_first_of_None [OF this, of "length pre + length xs"] assms(2)
  have "ys = []" by (cases ys) (auto simp: nth_append)
  with None show ?thesis by simp
next
  case (Some j)
  note sj = find_first_of_Some [OF Some]
  have "\<not> j < length pre + length xs"
  proof
    assume "j < length pre + length xs"
    with sj have "(pre @ xs @ ys) ! j \<in> set xs" by (auto simp: nth_append)
    with sj assms(1) show False by blast
  qed
  moreover from this sj have "ys \<noteq> []" by auto
  moreover have "\<not> length pre + length xs < j"
  proof
    assume "length pre + length xs < j"
    with sj have "\<not> P ((pre @ xs @ ys) ! (length pre + length xs))"
      by (simp del: nth_append_length_plus)
    moreover have "(pre @ xs @ ys) ! (length pre + length xs) = hd ys"
      using \<open>ys \<noteq> []\<close> by (simp add: nth_append hd_conv_nth)
    ultimately show False using assms(2) \<open>ys \<noteq> []\<close> by simp
  qed
  ultimately show ?thesis using Some by auto
qed

lemma prefix_key_iff:
  "c \<notin> set n \<Longrightarrow> c \<notin> set k \<Longrightarrow> prefix (n @ [c]) (k @ c # r) \<longleftrightarrow> n = k"
proof (induction n arbitrary: k)
  case Nil
  then show ?case by (cases k) auto
next
  case (Cons x n)
  then show ?case by (cases k) auto
qed

lemma dropWhile_split: "\<exists>a. s = a @ dropWhile P s \<and> (\<forall>x\<in>set a. P x)"
  by (rule exI [of _ "takeWhile P s"]) (auto dest: set_takeWhileD)

text \<open>A loop that builds a list and stops at the first error.\<close>

fun map_ok :: "('a \<Rightarrow> ('e, 'b) outcome) \<Rightarrow> 'a list \<Rightarrow> ('e, 'b list) outcome" where
  "map_ok f [] = Ok []"
| "map_ok f (x # xs) = bind_ok (f x) (\<lambda>y. bind_ok (map_ok f xs) (\<lambda>ys. Ok (y # ys)))"

lemma map_ok_all2: "map_ok f xs = Ok ys \<longleftrightarrow> list_all2 (\<lambda>x y. f x = Ok y) xs ys"
  by (induction xs arbitrary: ys) (auto simp: bind_ok_Ok_iff list_all2_Cons1)

lemma map_ok_length: "map_ok f xs = Ok ys \<Longrightarrow> length ys = length xs"
  by (simp add: map_ok_all2 list_all2_lengthD)

lemma map_ok_nth: "map_ok f xs = Ok ys \<Longrightarrow> i < length xs \<Longrightarrow> f (xs ! i) = Ok (ys ! i)"
  by (auto simp: map_ok_all2 dest: list_all2_nthD)

lemma map_ok_Ok: "(\<And>x. x \<in> set xs \<Longrightarrow> f x = Ok (g x)) \<Longrightarrow> map_ok f xs = Ok (map g xs)"
  by (induction xs) auto

lemma map_ok_error: "map_ok f xs = Fail e \<Longrightarrow> \<exists>x\<in>set xs. f x = Fail e"
  by (induction xs) (auto simp: bind_ok_Fail_iff)

text \<open>Where a chain stops.\<close>

lemma fold_ok_stops_at:
  "fold_ok f s xs = Fail e \<Longrightarrow> \<exists>ys x zs t. xs = ys @ x # zs \<and> fold_ok f s ys = Ok t \<and> f t x = Fail e"
proof (induction xs arbitrary: s)
  case (Cons x xs)
  show ?case
  proof (cases "f s x")
    case (Fail e')
    then show ?thesis using Cons.prems by (intro exI [of _ "[]"]) auto
  next
    case (Ok t)
    then have "fold_ok f t xs = Fail e" using Cons.prems by simp
    from Cons.IH [OF this] obtain ys y zs u where "xs = ys @ y # zs" "fold_ok f t ys = Ok u" "f u y = Fail e" by blast
    then show ?thesis using Ok by (intro exI [of _ "x # ys"]) auto
  qed
qed simp

lemma fold_ok_upt_stops:
  assumes "fold_ok f s [0..<n] = Fail e"
  shows "\<exists>i<n. \<exists>t. fold_ok f s [0..<i] = Ok t \<and> f t i = Fail e"
proof -
  from fold_ok_stops_at [OF assms] obtain ys x zs t where *: "[0..<n] = ys @ x # zs" "fold_ok f s ys = Ok t" "f t x = Fail e" by blast
  have i: "length ys < n" using arg_cong [OF *(1), of length] by simp
  have "ys = [0..<length ys]"
    using arg_cong [OF *(1), of "take (length ys)"] i by simp
  moreover have "x = length ys" using arg_cong [OF *(1), of "\<lambda>l. l ! length ys"] i by simp
  ultimately show ?thesis using * i by metis
qed

lemma map_ok_total:
  assumes "\<And>x. x \<in> set xs \<Longrightarrow> \<exists>y. f x = Ok y"
  shows "\<exists>ys. map_ok f xs = Ok ys"
  using assms
proof (induction xs)
  case (Cons x xs)
  from Cons.prems [of x] obtain y where "f x = Ok y" by auto
  moreover from Cons.IH Cons.prems obtain ys where "map_ok f xs = Ok ys" by auto
  ultimately show ?case by simp
qed simp

end
