(* ===== verification/Strutil.thy ===== *)
theory Strutil
  imports Prelude
begin

text \<open>
  The string helpers of the article exporter (\<open>app/gzh/src/strutil.hpp\<close>, namespace
  \<open>wxmd::str\<close>). Index loops over a string are recursion over the bytes that are left; a
  loop that carries a position into a changing string (\<open>replace_all\<close>, \<open>query_param\<close>)
  keeps its position.
\<close>

definition is_ascii_space :: "char \<Rightarrow> bool" where
  "is_ascii_space c \<longleftrightarrow>
     c = CHR '' '' \<or> c = CHR 0x09 \<or> c = CHR 0x0D \<or> c = CHR 0x0A \<or> c = CHR 0x0C \<or> c = CHR 0x0B"

section \<open>replace_all\<close>

text \<open>The loop of \<open>replace_all\<close>: find from \<open>pos\<close>, replace, continue behind the replacement.\<close>

function replace_loop :: "string \<Rightarrow> string \<Rightarrow> string \<Rightarrow> nat \<Rightarrow> string" where
  "replace_loop text frm to pos =
     (if frm = [] then text
      else case find_from text frm pos of
        None \<Rightarrow> text
      | Some p \<Rightarrow>
          replace_loop (take p text @ to @ drop (p + length frm) text) frm to (p + length to))"
  by pat_completeness auto
termination
proof (relation "measure (\<lambda>(text, frm, to, pos). length text - pos)", goal_cases)
  case 1
  show ?case by simp
next
  case (2 t frm rep pos p)
  from 2(1) obtain y ys where "frm = y # ys" by (cases frm) auto
  with find_from_Some [OF 2(2)] show ?case by auto
qed

declare replace_loop.simps [simp del]

definition replace_all :: "string \<Rightarrow> string \<Rightarrow> string \<Rightarrow> string" where
  "replace_all text frm to = (if frm = [] then text else replace_loop text frm to 0)"

definition replaced :: "string \<Rightarrow> string \<Rightarrow> string \<Rightarrow> string" where
  "replaced text frm to = replace_all text frm to"

text \<open>What \<open>replace_all\<close> means: the leftmost occurrences, from left to right, not
  overlapping, each replaced once; the replacement is not searched again.\<close>

function subst_all :: "string \<Rightarrow> string \<Rightarrow> string \<Rightarrow> string" where
  "subst_all [] frm to = []"
| "subst_all (x # xs) frm to =
     (if frm \<noteq> [] \<and> prefix frm (x # xs) then to @ subst_all (drop (length frm) (x # xs)) frm to
      else x # subst_all xs frm to)"
  by pat_completeness auto
termination
  by (relation "measure (\<lambda>(xs, frm, to). length xs)") auto

section \<open>Case, trimming, blanks\<close>

definition lower_char :: "char \<Rightarrow> char" where
  "lower_char c =
     (if byte (CHR ''A'') \<le> byte c \<and> byte c \<le> byte (CHR ''Z'')
      then char_of (byte c - byte (CHR ''A'') + byte (CHR ''a'')) else c)"

definition lowered :: "string \<Rightarrow> string" where
  "lowered text = map lower_char text"

text \<open>\<open>trim\<close> moves \<open>begin\<close> forward, then \<open>end\<close> backward but never below \<open>begin\<close>.\<close>

definition trim :: "string \<Rightarrow> string" where
  "trim text = rev (dropWhile is_ascii_space (rev (dropWhile is_ascii_space text)))"

fun strip_whitespace :: "string \<Rightarrow> string" where
  "strip_whitespace [] = []"
| "strip_whitespace (c # cs) =
     (if is_ascii_space c then strip_whitespace cs
      else case cs of
        d # ds \<Rightarrow> if c = CHR 0xC2 \<and> d = CHR 0xA0 then strip_whitespace ds
                  else c # strip_whitespace cs
      | [] \<Rightarrow> c # strip_whitespace cs)"

section \<open>HTML entities\<close>

definition escape_char :: "char \<Rightarrow> string" where
  "escape_char c =
     (if c = CHR ''&'' then ''&amp;''
      else if c = CHR ''<'' then ''&lt;''
      else if c = CHR ''>'' then ''&gt;''
      else if c = CHR 0x22 then ''&quot;''
      else [c])"

fun escape_html :: "string \<Rightarrow> string" where
  "escape_html [] = []"
| "escape_html (c # cs) = escape_char c @ escape_html cs"

definition kEntities :: "(string \<times> char) list" where
  "kEntities = [(''&amp;'', CHR ''&''), (''&lt;'', CHR ''<''), (''&gt;'', CHR ''>''),
     (''&quot;'', CHR 0x22), (''&#39;'', CHR 0x27)]"

text \<open>The inner \<open>for\<close>: the first entity of the table that starts here, with its length.\<close>

fun match_entity :: "(string \<times> char) list \<Rightarrow> string \<Rightarrow> (nat \<times> char) option" where
  "match_entity [] text = None"
| "match_entity ((e, d) # es) text =
     (if prefix e text then Some (length e, d) else match_entity es text)"

function unescape_html :: "string \<Rightarrow> string" where
  "unescape_html [] = []"
| "unescape_html (c # cs) =
     (case (if c = CHR ''&'' then match_entity kEntities (c # cs) else None) of
        Some (n, d) \<Rightarrow> d # unescape_html (drop (n - 1) cs)
      | None \<Rightarrow> c # unescape_html cs)"
  by pat_completeness auto
termination
  by (relation "measure length") auto

section \<open>URL queries\<close>

definition hex_value :: "char \<Rightarrow> nat option" where
  "hex_value c =
     (if byte (CHR ''0'') \<le> byte c \<and> byte c \<le> byte (CHR ''9'') then Some (byte c - byte (CHR ''0''))
      else if byte (CHR ''a'') \<le> byte c \<and> byte c \<le> byte (CHR ''f'')
      then Some (byte c - byte (CHR ''a'') + 10)
      else if byte (CHR ''A'') \<le> byte c \<and> byte c \<le> byte (CHR ''F'')
      then Some (byte c - byte (CHR ''A'') + 10)
      else None)"

fun percent_decode :: "string \<Rightarrow> string" where
  "percent_decode [] = []"
| "percent_decode (c # cs) =
     (if c = CHR ''+'' then CHR '' '' # percent_decode cs
      else if c = CHR ''%'' then
        (case cs of
           h # l # rest \<Rightarrow>
             (case (hex_value h, hex_value l) of
                (Some high, Some low) \<Rightarrow> char_of (high * 16 + low) # percent_decode rest
              | _ \<Rightarrow> c # percent_decode cs)
         | _ \<Rightarrow> c # percent_decode cs)
      else c # percent_decode cs)"

definition query_sep :: "char \<Rightarrow> bool" where
  "query_sep c \<longleftrightarrow> c = CHR ''&'' \<or> c = CHR ''#''"

text \<open>The loop of \<open>query_param\<close> over the parameters from \<open>pos\<close> on.\<close>

function query_loop :: "string \<Rightarrow> string \<Rightarrow> nat \<Rightarrow> string" where
  "query_loop url needle pos =
     (if length url \<le> pos then []
      else let en = (case find_first_of url query_sep pos of None \<Rightarrow> length url | Some e \<Rightarrow> e) in
        if prefix needle (drop pos url)
        then percent_decode (substr url (pos + length needle) (en - pos - length needle))
        else query_loop url needle (Suc en))"
  by pat_completeness auto
termination
proof (relation "measure (\<lambda>(url, needle, pos). length url - pos)", goal_cases)
  case 1
  show ?case by simp
next
  case (2 url needle pos en)
  have "pos \<le> en"
    using 2(1,2) find_first_of_Some [of url query_sep pos] by (auto split: option.splits)
  with 2(1) show ?case by auto
qed

declare query_loop.simps [simp del]

definition query_param :: "string \<Rightarrow> string \<Rightarrow> string" where
  "query_param url name =
     (case find_from url ''?'' 0 of
        None \<Rightarrow> []
      | Some q \<Rightarrow> query_loop url (name @ ''='') (Suc q))"

section \<open>replace_all refines the left-to-right substitution\<close>

lemma find_from_append:
  "find_from (a @ s) p (length a + i) = map_option ((+) (length a)) (find_from s p i)"
proof (induction s p i rule: find_from.induct)
  case (1 s p i)
  show ?case
    using "1.IH" by (subst (1 2) find_from.simps) auto
qed

lemma subst_all_none:
  "(\<And>k. k + length frm \<le> length s \<Longrightarrow> \<not> prefix frm (drop k s)) \<Longrightarrow> subst_all s frm to = s"
proof (induction s)
  case Nil
  show ?case by simp
next
  case (Cons x xs)
  have "\<not> prefix frm (x # xs)"
    using Cons.prems [of 0] prefix_length_le [of frm "x # xs"] by auto
  moreover have "subst_all xs frm to = xs"
    using Cons.prems [of "Suc k" for k] by (intro Cons.IH) simp
  ultimately show ?case by simp
qed

lemma subst_all_some:
  assumes "frm \<noteq> []"
  shows "(\<And>k. k < p \<Longrightarrow> \<not> prefix frm (drop k s)) \<Longrightarrow> prefix frm (drop p s) \<Longrightarrow>
     subst_all s frm to = take p s @ to @ subst_all (drop (p + length frm) s) frm to"
proof (induction p arbitrary: s)
  case 0
  with assms show ?case by (cases s) auto
next
  case (Suc p)
  from Suc.prems(2) assms obtain x xs where s: "s = x # xs" by (cases s) auto
  from Suc.prems(1) [of 0] s have "\<not> prefix frm (x # xs)" by simp
  moreover have "subst_all xs frm to = take p xs @ to @ subst_all (drop (p + length frm) xs) frm to"
    using Suc.prems(1) [of "Suc k" for k] Suc.prems(2) s by (intro Suc.IH) auto
  ultimately show ?case using s by simp
qed

lemma replace_loop_subst:
  assumes "frm \<noteq> []"
  shows "replace_loop (a @ s) frm to (length a) = a @ subst_all s frm to"
proof (induction "length s" arbitrary: a s rule: less_induct)
  case less
  note unf = replace_loop.simps [of "a @ s" frm to "length a"]
  have ff: "find_from (a @ s) frm (length a) = map_option ((+) (length a)) (find_from s frm 0)"
    using find_from_append [of a s frm 0] by simp
  show ?case
  proof (cases "find_from s frm 0")
    case None
    then have "subst_all s frm to = s"
      using find_from_None [OF None] by (intro subst_all_none) auto
    with None ff show ?thesis by (simp add: unf)
  next
    case (Some p)
    note sp = find_from_Some [OF Some]
    have "subst_all s frm to = take p s @ to @ subst_all (drop (p + length frm) s) frm to"
      using sp find_from_least [OF Some] by (intro subst_all_some assms) auto
    moreover have "replace_loop ((a @ take p s @ to) @ drop (p + length frm) s) frm to
        (length (a @ take p s @ to)) = (a @ take p s @ to) @ subst_all (drop (p + length frm) s) frm to"
      using sp assms by (intro less.hyps) (cases frm; auto)
    ultimately show ?thesis
      using sp assms by (simp add: unf ff Some min_absorb2 add.assoc)
  qed
qed

lemma replace_all_subst_all [simp]: "replace_all s frm to = subst_all s frm to"
proof (cases "frm = []")
  case True
  then show ?thesis
    by (simp add: replace_all_def) (induction s; simp)
next
  case False
  then show ?thesis
    using replace_loop_subst [of frm "[]" s to] by (simp add: replace_all_def)
qed

lemma subst_all_char [simp]:
  "subst_all s [c] to = concat (map (\<lambda>x. if x = c then to else [x]) s)"
  by (induction s) auto

section \<open>Entities and queries\<close>

lemma unescape_plain: "c \<noteq> CHR ''&'' \<Longrightarrow> unescape_html (c # cs) = c # unescape_html cs"
  by simp

lemma unescape_escape_char: "unescape_html (escape_char c @ s) = c # unescape_html s"
  by (simp add: escape_char_def kEntities_def)

lemma escape_html_no_markup:
  "set (escape_html s) \<inter> {CHR ''<'', CHR ''>'', CHR 0x22} = {}"
  by (induction s) (auto simp: escape_char_def)

section \<open>Properties\<close>

text \<open>Escaping then unescaping HTML gives the text back, for every byte string.\<close>

theorem unescape_escape_html: "unescape_html (escape_html s) = s"
  by (induction s) (simp_all add: unescape_escape_char del: unescape_html.simps(2))

text \<open>\<open>replace_all\<close> computes the left-to-right, non-overlapping substitution, although it
  restarts its search in the string it is rewriting.\<close>

theorem replace_all_refines: "replace_all = subst_all"
  by (intro ext) simp

text \<open>\<open>trim\<close> removes exactly the blanks at the two ends: what it cuts off is blank and what it
  keeps neither starts nor ends with a blank.\<close>

theorem trim_spec:
  "\<exists>a b. s = a @ trim s @ b \<and> list_all is_ascii_space (a @ b) \<and>
     takeWhile is_ascii_space (trim s) = [] \<and> takeWhile is_ascii_space (rev (trim s)) = []"
proof -
  let ?m = "dropWhile is_ascii_space s"
  obtain a where a: "s = a @ ?m" "\<forall>c\<in>set a. is_ascii_space c"
    using dropWhile_split [of s is_ascii_space] by blast
  have tr: "rev (trim s) = dropWhile is_ascii_space (rev ?m)" by (simp add: trim_def)
  obtain b where b: "rev ?m = b @ rev (trim s)" "\<forall>c\<in>set b. is_ascii_space c"
    using dropWhile_split [of "rev ?m" is_ascii_space] unfolding tr by blast
  from b(1) have m: "?m = trim s @ rev b" by (metis rev_append rev_rev_ident)
  have tw: "takeWhile is_ascii_space (dropWhile is_ascii_space xs) = []" for xs by (induction xs) auto
  have "takeWhile is_ascii_space (trim s) = []"
  proof (cases "trim s")
    case (Cons c t)
    with m have "?m \<noteq> []" "hd ?m = c" by auto
    with hd_dropWhile [of is_ascii_space s] Cons show ?thesis by simp
  qed simp
  moreover have "takeWhile is_ascii_space (rev (trim s)) = []" unfolding tr by (rule tw)
  moreover have "s = a @ trim s @ rev b" using a(1) m by simp
  moreover have "list_all is_ascii_space (a @ rev b)" using a(2) b(2) by (auto simp: list_all_iff)
  ultimately show ?thesis by blast
qed

text \<open>A query written out from its parameters, as the links of the history pages have it.\<close>

fun render_query :: "(string \<times> string) list \<Rightarrow> string" where
  "render_query [] = []"
| "render_query [(k, v)] = k @ CHR ''='' # v"
| "render_query ((k, v) # ps) = k @ CHR ''='' # v @ CHR ''&'' # render_query ps"

definition query_ok :: "(string \<times> string) list \<Rightarrow> bool" where
  "query_ok ps \<longleftrightarrow> (\<forall>(k, v)\<in>set ps. CHR ''='' \<notin> set k \<and> (\<forall>c\<in>set k \<union> set v. \<not> query_sep c))"

fun first_value :: "(string \<times> string) list \<Rightarrow> string \<Rightarrow> string" where
  "first_value [] name = []"
| "first_value ((k, v) # ps) name = (if k = name then percent_decode v else first_value ps name)"

lemma query_loop_step:
  assumes kv: "CHR ''='' \<notin> set k" "\<forall>c\<in>set k \<union> set v. \<not> query_sep c"
    and nm: "CHR ''='' \<notin> set name" and rest: "rest \<noteq> [] \<Longrightarrow> hd rest = CHR ''&''"
  shows "query_loop (pre @ (k @ CHR ''='' # v) @ rest) (name @ ''='') (length pre) =
    (if k = name then percent_decode v
     else query_loop (pre @ (k @ CHR ''='' # v) @ rest) (name @ ''='')
       (Suc (length pre + (length k + Suc (length v)))))"
proof -
  let ?kv = "k @ CHR ''='' # v"
  let ?u = "pre @ ?kv @ rest"
  have sep: "\<forall>x\<in>set ?kv. \<not> query_sep x" using kv(2) by (auto simp: query_sep_def)
  have ffo: "find_first_of ?u query_sep (length pre) =
      (if rest = [] then None else Some (length pre + length ?kv))"
    by (rule find_first_of_split) (use sep rest in \<open>auto simp: query_sep_def\<close>)
  have en: "(case find_first_of ?u query_sep (length pre) of None \<Rightarrow> length ?u | Some e \<Rightarrow> e)
      = length pre + length ?kv"
    by (subst ffo) (cases "rest = []"; simp)
  have pf: "prefix (name @ ''='') (drop (length pre) ?u) \<longleftrightarrow> name = k"
    using prefix_key_iff [of "CHR ''=''" name k "v @ rest"] nm kv(1) by simp
  show ?thesis
    by (subst query_loop.simps, subst en, subst pf) (auto simp: substr_def Let_def)
qed

lemma query_loop_render:
  assumes "query_ok ps" "CHR ''='' \<notin> set name"
  shows "query_loop (pre @ render_query ps) (name @ ''='') (length pre) = first_value ps name"
  using assms
proof (induction ps arbitrary: pre rule: render_query.induct)
  case 1
  then show ?case by (simp add: query_loop.simps)
next
  case (2 k v)
  then show ?case
    using query_loop_step [of k v name "[]" pre]
    by (auto simp: query_ok_def query_loop.simps [of _ _ "Suc _"])
next
  case (3 k v p ps)
  let ?r = "render_query (p # ps)"
  have IH: "query_loop ((pre @ k @ CHR ''='' # v @ ''&'') @ ?r) (name @ ''='')
      (length (pre @ k @ CHR ''='' # v @ ''&'')) = first_value (p # ps) name"
    by (rule "3.IH") (use "3.prems" in \<open>auto simp: query_ok_def\<close>)
  from "3.prems" IH show ?case
    using query_loop_step [of k v name "CHR ''&'' # ?r" pre]
    by (auto simp: query_ok_def)
qed

text \<open>\<open>query_param\<close> returns the percent-decoded value of the first parameter of that name, and
  the empty string when there is none, for every query whose names hold no separator.\<close>

theorem query_param_first_value:
  assumes "CHR ''?'' \<notin> set base" and "query_ok ps" and "CHR ''='' \<notin> set name"
  shows "query_param (base @ CHR ''?'' # render_query ps) name = first_value ps name"
proof -
  have "find_from (base @ CHR ''?'' # render_query ps) ''?'' 0 = Some (length base)"
  proof (cases "find_from (base @ CHR ''?'' # render_query ps) ''?'' 0")
    case None
    from find_from_None [OF this, of "length base"] show ?thesis by simp
  next
    case (Some j)
    have "\<not> length base < j" using find_from_least [OF Some, of "length base"] by auto
    moreover have "\<not> j < length base"
      using find_from_Some [OF Some] assms(1)
      by (auto simp: nth_append prefix_def Cons_nth_drop_Suc [symmetric])
        (metis nth_mem)
    ultimately show ?thesis using Some by simp
  qed
  then show ?thesis
    using query_loop_render [OF assms(2,3), of "base @ ''?''"] by (simp add: query_param_def)
qed

theorem query_param_first_value_witness:
  "query_param ''/s?__biz=A%3D&mid=22&idx=1'' ''mid'' = ''22'' \<and>
   query_param ''/s?__biz=A%3D&mid=22&idx=1'' ''__biz'' = ''A=''"
proof -
  let ?ps = "[(''__biz'', ''A%3D''), (''mid'', ''22''), (''idx'', ''1'')]"
  have ok: "query_ok ?ps" by (simp add: query_ok_def query_sep_def)
  have "query_param (''/s'' @ CHR ''?'' # render_query ?ps) n = first_value ?ps n"
    if "CHR ''='' \<notin> set n" for n
    by (rule query_param_first_value) (use ok that in simp_all)
  from this [of "''mid''"] this [of "''__biz''"] show ?thesis
    by (simp add: hex_value_def byte_def) code_simp
qed

end
