(* ===== verification/Dates.thy ===== *)
theory Dates
  imports Prelude
begin

text \<open>
  The date utilities (\<open>cpp/src/misc/date.cpp\<close>): dates are eight-digit strings
  \<open>YYYYMMDD\<close>, compared as strings all over the program, and converted to day numbers
  (\<open>std::chrono::sys_days\<close>, days since 1970-01-01) for arithmetic.

  The calendar of \<open>std::chrono\<close> is the proleptic Gregorian one; it is written out here by
  counting days (\<open>days_before_year\<close>, \<open>days_before_month\<close>) and inverting the count. An
  \<open>assert\<close>, an exception of \<open>std::stoi\<close> and a date \<open>sys_days\<close> leaves unspecified are
  \<open>Fail\<close>.
\<close>

type_synonym sys_days = int

datatype date_error = AssertFailed | InvalidArgument | UnspecifiedDate

section \<open>The calendar\<close>

definition leap :: "int \<Rightarrow> bool" where
  "leap y \<longleftrightarrow> y mod 4 = 0 \<and> (y mod 100 \<noteq> 0 \<or> y mod 400 = 0)"

definition days_before_year :: "int \<Rightarrow> int" where
  "days_before_year y = 365 * (y - 1) + (y - 1) div 4 - (y - 1) div 100 + (y - 1) div 400"

text \<open>Days of the year before month \<open>m\<close>; \<open>m = 13\<close> gives the length of the year.\<close>

definition days_before_month :: "bool \<Rightarrow> int \<Rightarrow> int" where
  "days_before_month lp m =
     (if m \<le> 1 then 0 else if m = 2 then 31 else
      (if lp then 1 else 0) +
      (if m = 3 then 59 else if m = 4 then 90 else if m = 5 then 120 else if m = 6 then 151
       else if m = 7 then 181 else if m = 8 then 212 else if m = 9 then 243
       else if m = 10 then 273 else if m = 11 then 304 else if m = 12 then 334 else 365))"

definition month_length :: "int \<Rightarrow> int \<Rightarrow> int" where
  "month_length y m = days_before_month (leap y) (m + 1) - days_before_month (leap y) m"

definition epoch_offset :: int where
  "epoch_offset = 719162"

definition valid_ymd :: "int \<Rightarrow> int \<Rightarrow> int \<Rightarrow> bool" where
  "valid_ymd y m d \<longleftrightarrow> 1 \<le> m \<and> m \<le> 12 \<and> 1 \<le> d \<and> d \<le> month_length y m"

definition day_number :: "int \<Rightarrow> int \<Rightarrow> int \<Rightarrow> sys_days" where
  "day_number y m d =
     days_before_year y + days_before_month (leap y) m + (d - 1) - epoch_offset"

definition year_of_day :: "sys_days \<Rightarrow> int" where
  "year_of_day z =
     (let n = z + epoch_offset; e = n div 146097; r = n mod 146097;
          c = min 3 (r div 36524); r1 = r - 36524 * c;
          q = r1 div 1461; r2 = r1 - 1461 * q; a = min 3 (r2 div 365)
      in 400 * e + 100 * c + 4 * q + a + 1)"

definition month_of_doy :: "bool \<Rightarrow> int \<Rightarrow> int" where
  "month_of_doy lp k =
     (if k < days_before_month lp 2 then 1 else if k < days_before_month lp 3 then 2
      else if k < days_before_month lp 4 then 3 else if k < days_before_month lp 5 then 4
      else if k < days_before_month lp 6 then 5 else if k < days_before_month lp 7 then 6
      else if k < days_before_month lp 8 then 7 else if k < days_before_month lp 9 then 8
      else if k < days_before_month lp 10 then 9 else if k < days_before_month lp 11 then 10
      else if k < days_before_month lp 12 then 11 else 12)"

definition ymd_of_day :: "sys_days \<Rightarrow> int \<times> int \<times> int" where
  "ymd_of_day z =
     (let y = year_of_day z; k = z + epoch_offset - days_before_year y;
          m = month_of_doy (leap y) k
      in (y, m, k - days_before_month (leap y) m + 1))"

section \<open>Decimal text\<close>

definition digit_char :: "nat \<Rightarrow> char" where
  "digit_char n = char_of (byte (CHR ''0'') + n)"

definition digit_val :: "char \<Rightarrow> nat" where
  "digit_val c = byte c - byte (CHR ''0'')"

text \<open>The last \<open>w\<close> decimal digits of \<open>n\<close>, and the digits a number needs.\<close>

fun fixed_digits :: "nat \<Rightarrow> nat \<Rightarrow> string" where
  "fixed_digits 0 n = []"
| "fixed_digits (Suc w) n = fixed_digits w (n div 10) @ [digit_char (n mod 10)]"

fun num_digits :: "nat \<Rightarrow> nat" where
  "num_digits n = (if n < 10 then 1 else Suc (num_digits (n div 10)))"

declare num_digits.simps [simp del]

text \<open>\<open>printf\<close> with \<open>%0wd\<close>: at least \<open>w\<close> characters, the sign counted.\<close>

definition pad_nat :: "nat \<Rightarrow> nat \<Rightarrow> string" where
  "pad_nat w n = fixed_digits (max w (num_digits n)) n"

definition pad_int :: "nat \<Rightarrow> int \<Rightarrow> string" where
  "pad_int w n = (if n < 0 then CHR ''-'' # pad_nat (w - 1) (nat (- n)) else pad_nat w (nat n))"

definition digits_value :: "string \<Rightarrow> nat" where
  "digits_value s = foldl (\<lambda>v c. v * 10 + digit_val c) 0 s"

text \<open>
  \<open>std::stoi\<close> on a short string: blanks of the C locale are skipped, one sign is taken, then
  the longest run of digits; no digit is \<open>std::invalid_argument\<close>.
\<close>

definition c_space :: "char \<Rightarrow> bool" where
  "c_space c \<longleftrightarrow> c = CHR '' '' \<or> (9 \<le> byte c \<and> byte c \<le> 13)"

definition stoi :: "string \<Rightarrow> int option" where
  "stoi s =
     (let t = dropWhile c_space s;
          neg = (case t of c # _ \<Rightarrow> c = CHR ''-'' | [] \<Rightarrow> False);
          u = (case t of c # r \<Rightarrow> (if c = CHR ''-'' \<or> c = CHR ''+'' then r else t) | [] \<Rightarrow> []);
          ds = takeWhile is_digit u
      in if ds = [] then None
         else Some (if neg then - int (digits_value ds) else int (digits_value ds)))"

section \<open>The operations of date.cpp\<close>

text \<open>\<open>sys_days{year{y} / m / d}\<close>: the year has to be one of \<open>std::chrono\<close>'s, the month one of the
  twelve and the day a value of \<open>unsigned char\<close>; a day behind the end of the month runs on into
  the next ones.\<close>

definition mk_sys_days :: "int \<Rightarrow> int \<Rightarrow> int \<Rightarrow> (date_error, sys_days) outcome" where
  "mk_sys_days y m d =
     (if -32767 \<le> y \<and> y \<le> 32767 \<and> 1 \<le> m \<and> m \<le> 12 \<and> 0 \<le> d \<and> d \<le> 255
      then Ok (day_number y m d) else Fail UnspecifiedDate)"

definition parse_yyyymmdd :: "string \<Rightarrow> (date_error, sys_days) outcome" where
  "parse_yyyymmdd s =
     (if length s \<noteq> 8 then Fail AssertFailed
      else case (stoi (substr s 0 4), stoi (substr s 4 2), stoi (substr s 6 2)) of
        (Some y, Some m, Some d) \<Rightarrow> mk_sys_days y m d
      | _ \<Rightarrow> Fail InvalidArgument)"

definition parse_yyyymmdd_int :: "int \<Rightarrow> (date_error, sys_days) outcome" where
  "parse_yyyymmdd_int v =
     (if v \<le> 0 then Fail AssertFailed
      else mk_sys_days (v div 10000) ((v div 100) mod 100) (v mod 100))"

definition to_yyyymmdd_int :: "string \<Rightarrow> int" where
  "to_yyyymmdd_int s =
     (if length s \<noteq> 8 then 0 else if \<exists>c\<in>set s. \<not> is_digit c then 0 else int (digits_value s))"

definition fmt_yyyymmdd :: "sys_days \<Rightarrow> string" where
  "fmt_yyyymmdd z = (case ymd_of_day z of (y, m, d) \<Rightarrow> pad_int 4 y @ pad_int 2 m @ pad_int 2 d)"

text \<open>The loop of \<open>iter_days\<close> from day \<open>d\<close> to day \<open>e\<close>.\<close>

function iter_loop :: "sys_days \<Rightarrow> sys_days \<Rightarrow> string list" where
  "iter_loop d e = (if d \<le> e then fmt_yyyymmdd d # iter_loop (d + 1) e else [])"
  by pat_completeness auto
termination
  by (relation "measure (\<lambda>(d, e). nat (e + 1 - d))") auto

declare iter_loop.simps [simp del]

definition iter_days :: "string \<Rightarrow> string \<Rightarrow> (date_error, string list) outcome" where
  "iter_days start en =
     bind_ok (parse_yyyymmdd start) (\<lambda>s. bind_ok (parse_yyyymmdd en) (\<lambda>e. Ok (iter_loop s e)))"

definition add_days :: "string \<Rightarrow> int \<Rightarrow> (date_error, string) outcome" where
  "add_days s n = bind_ok (parse_yyyymmdd s) (\<lambda>d. Ok (fmt_yyyymmdd (d + n)))"

definition month_last_dd :: "string \<Rightarrow> (date_error, string) outcome" where
  "month_last_dd s =
     (if length s \<noteq> 6 then Fail AssertFailed
      else case (stoi (substr s 0 4), stoi (substr s 4 2)) of
        (Some y, Some m) \<Rightarrow>
          if 1 \<le> m \<and> m \<le> 12 then Ok (pad_int 2 (month_length y m)) else Fail UnspecifiedDate
      | _ \<Rightarrow> Fail InvalidArgument)"

section \<open>Counting days and back\<close>

lemma div_pred:
  assumes "0 < (k::int)"
  shows "y div k = (y - 1) div k + (if y mod k = 0 then 1 else 0)"
proof (cases "y mod k = 0")
  case True
  have "k * (y div k - 1) = k * (y div k) - k" by (simp add: right_diff_distrib)
  moreover have "k * (y div k) = y" using True mult_div_mod_eq [of k y] by simp
  ultimately have "y - 1 = k * (y div k - 1) + (k - 1)" by linarith
  then have "(y - 1) div k = y div k - 1"
    by (rule int_div_pos_eq) (use assms in auto)
  with True show ?thesis by simp
next
  case False
  have "y - 1 = k * (y div k) + (y mod k - 1)" by simp
  moreover have "0 < y mod k" using False assms pos_mod_sign [of k y] by linarith
  moreover have "y mod k < k" using assms by simp
  ultimately have "(y - 1) div k = y div k"
    using int_div_pos_eq [of "y - 1" k "y div k" "y mod k - 1"] by linarith
  with False show ?thesis by simp
qed

lemma div_mod_bounds:
  assumes "0 < (k::int)"
  shows "n = k * (n div k) + n mod k" "0 \<le> n mod k" "n mod k < k"
  using assms by simp_all

lemma leap_count:
  fixes y :: int
  assumes "a4 = b4 + (if P4 then 1 else 0)" "a100 = b100 + (if P100 then 1 else 0)"
    "a400 = b400 + (if P400 then 1 else 0)" "P400 \<Longrightarrow> P100" "P100 \<Longrightarrow> P4"
  shows "365 * y + a4 - a100 + a400 =
    365 * (y - 1) + b4 - b100 + b400 + (if P4 \<and> (\<not> P100 \<or> P400) then 366 else 365)"
  using assms(4,5) unfolding assms(1-3) by (cases P4; cases P100; cases P400; simp)

lemma days_before_year_Suc: "days_before_year (y + 1) = days_before_year y + (if leap y then 366 else 365)"
proof -
  have m: "y mod 400 = 0 \<Longrightarrow> y mod 100 = 0" "y mod 100 = 0 \<Longrightarrow> y mod 4 = 0"
    unfolding mod_eq_0_iff_dvd by (auto elim: dvd_trans [rotated])
  have d: "y div 4 = (y - 1) div 4 + (if y mod 4 = 0 then 1 else 0)"
    "y div 100 = (y - 1) div 100 + (if y mod 100 = 0 then 1 else 0)"
    "y div 400 = (y - 1) div 400 + (if y mod 400 = 0 then 1 else 0)"
    by (rule div_pred; simp)+
  show ?thesis
    using leap_count [OF d m, of y] unfolding days_before_year_def leap_def by (simp only: add_diff_cancel_right')
qed

lemma days_before_year_cycles:
  assumes "0 \<le> c" "c \<le> 3" "0 \<le> q" "q \<le> 24" "0 \<le> a" "a \<le> 3"
  shows "days_before_year (400 * e + 100 * c + 4 * q + a + 1) =
    146097 * e + 36524 * c + 1461 * q + 365 * a"
proof -
  let ?y = "400 * e + 100 * c + 4 * q + a"
  have eq: "365 * ?y + (100 * e + 25 * c + q) - (4 * e + c) + e =
      146097 * e + 36524 * c + 1461 * q + 365 * a" by simp
  have "?y = 4 * (100 * e + 25 * c + q) + a" by simp
  then have "?y div 4 = 100 * e + 25 * c + q" by (rule int_div_pos_eq) (use assms(5,6) in auto)
  moreover have "?y = 100 * (4 * e + c) + (4 * q + a)" by simp
  then have "?y div 100 = 4 * e + c" by (rule int_div_pos_eq) (use assms(3-6) in auto)
  moreover have "?y = 400 * e + (100 * c + 4 * q + a)" by simp
  then have "?y div 400 = e" by (rule int_div_pos_eq) (use assms in auto)
  ultimately show ?thesis
    unfolding days_before_year_def by (simp only: add_diff_cancel_right' eq)
qed

lemma leap_last_year_of_cycle:
  assumes "0 \<le> c" "c \<le> 3" "0 \<le> q" "q \<le> 24" "q = 24 \<longrightarrow> c = 3"
  shows "leap (400 * e + 100 * c + 4 * q + 4)"
proof -
  let ?y = "400 * e + 100 * c + 4 * q + 4"
  have "4 * (100 * e + 25 * c + q + 1) mod 4 = 0" by (rule mod_mult_self1_is_0)
  then have "?y mod 4 = 0" by (simp add: algebra_simps)
  moreover have "?y mod 100 \<noteq> 0 \<or> ?y mod 400 = 0"
  proof (cases "q = 24")
    case True
    have "400 * (e + 1) mod 400 = 0" by (rule mod_mult_self1_is_0)
    moreover have "?y = 400 * (e + 1)" using True assms(5) by simp
    ultimately show ?thesis by metis
  next
    case False
    have "?y = 100 * (4 * e + c) + (4 * q + 4)" by simp
    then have "?y mod 100 = 4 * q + 4" by (rule int_mod_pos_eq) (use assms(3,4) False in auto)
    with assms(3) show ?thesis by simp
  qed
  ultimately show ?thesis by (auto simp: leap_def)
qed

text \<open>The cycle arithmetic of \<open>year_of_day\<close>: 400 years, 100 years, 4 years, one year.\<close>

lemma century_rest:
  assumes "0 \<le> r" "r < (146097::int)" "c = min 3 (r div 36524)" "r1 = r - 36524 * c"
  shows "0 \<le> c" "c \<le> 3" "0 \<le> r1" "r1 < 36524 \<or> c = 3 \<and> r1 \<le> 36524"
  using assms div_mod_bounds [of 36524 r] pos_imp_zdiv_nonneg_iff [of 36524 r]
  by (auto simp: min_def split: if_splits)

lemma quad_rest:
  assumes "0 \<le> r1" "r1 < 36524 \<or> C \<and> r1 \<le> (36524::int)" "q = r1 div 1461" "r2 = r1 - 1461 * q"
  shows "0 \<le> q" "q \<le> 24" "0 \<le> r2" "r2 < 1461" "q = 24 \<longrightarrow> r2 < 1460 \<or> C"
proof -
  note b = div_mod_bounds [of 1461 r1, simplified]
  show "0 \<le> q" using assms(1,3) by (simp add: pos_imp_zdiv_nonneg_iff)
  from b assms(2) show "q \<le> 24" unfolding assms(3) by linarith
  from b assms(4) show "0 \<le> r2" "r2 < 1461" unfolding assms(3) by linarith+
  from assms(2,4) show "q = 24 \<longrightarrow> r2 < 1460 \<or> C" by auto
qed

lemma year_rest:
  assumes "0 \<le> r2" "r2 < (1461::int)" "a = min 3 (r2 div 365)"
  shows "0 \<le> a" "a \<le> 3" "0 \<le> r2 - 365 * a" "r2 - 365 * a < 365 \<or> a = 3 \<and> r2 = 1460"
  using assms div_mod_bounds [of 365 r2] pos_imp_zdiv_nonneg_iff [of 365 r2]
  by (auto simp: min_def split: if_splits)

lemma year_of_day_bounds:
  "days_before_year (year_of_day z) \<le> z + epoch_offset \<and>
   z + epoch_offset < days_before_year (year_of_day z + 1)"
proof -
  define n where "n = z + epoch_offset"
  define e where "e = n div 146097"
  define r where "r = n mod 146097"
  define c where "c = min 3 (r div 36524)"
  define r1 where "r1 = r - 36524 * c"
  define q where "q = r1 div 1461"
  define r2 where "r2 = r1 - 1461 * q"
  define a where "a = min 3 (r2 div 365)"
  let ?y = "400 * e + 100 * c + 4 * q + a + 1"
  have n: "n = 146097 * e + r" "0 \<le> r" "r < 146097" by (auto simp: e_def r_def)
  note c = century_rest [OF n(2,3) c_def r1_def]
  note q = quad_rest [OF c(3,4) q_def r2_def]
  note a = year_rest [OF q(3,4) a_def]
  have y: "year_of_day z = ?y"
    unfolding year_of_day_def Let_def n_def e_def r_def c_def r1_def q_def r2_def a_def by (rule refl)
  have dby: "days_before_year ?y = 146097 * e + 36524 * c + 1461 * q + 365 * a"
    using c(1,2) q(1,2) a(1,2) by (rule days_before_year_cycles)
  have "leap ?y" if "a = 3" "r2 = 1460"
    using leap_last_year_of_cycle [OF c(1,2) q(1,2), of e] q(5) that by (simp add: algebra_simps)
  with a(4) have "r2 - 365 * a < (if leap ?y then 366 else 365)" by auto
  moreover have "n = 146097 * e + 36524 * c + 1461 * q + r2"
    unfolding r2_def r1_def using n(1) by linarith
  ultimately show ?thesis
    using a(3) unfolding y days_before_year_Suc [of ?y] dby n_def [symmetric]
    by (intro conjI; linarith)
qed

lemma days_before_year_add: "days_before_year y + 365 * int k \<le> days_before_year (y + int k)"
proof (induction k)
  case (Suc k)
  have "days_before_year (y + int (Suc k)) = days_before_year (y + int k + 1)"
    by (rule arg_cong [of _ _ days_before_year]) simp
  also have "\<dots> = days_before_year (y + int k) + (if leap (y + int k) then 366 else 365)"
    by (rule days_before_year_Suc)
  finally show ?case using Suc by (simp split: if_splits)
qed simp

lemma days_before_year_mono: "y \<le> y' \<Longrightarrow> days_before_year y \<le> days_before_year y'"
  using days_before_year_add [of y "nat (y' - y)"] by simp

lemma year_of_day_unique:
  assumes "days_before_year y \<le> z + epoch_offset" "z + epoch_offset < days_before_year (y + 1)"
  shows "year_of_day z = y"
proof (rule ccontr)
  assume "year_of_day z \<noteq> y"
  then consider "year_of_day z + 1 \<le> y" | "y + 1 \<le> year_of_day z" by linarith
  then show False
    using year_of_day_bounds [of z] assms days_before_year_mono [of "year_of_day z + 1" y]
      days_before_year_mono [of "y + 1" "year_of_day z"] by cases linarith+
qed

lemma days_before_month_13: "days_before_month lp 13 = (if lp then 366 else 365)"
  by (simp add: days_before_month_def)

lemma twelve_months:
  assumes "1 \<le> (m::int)" "m \<le> 12"
  obtains "m = 1" | "m = 2" | "m = 3" | "m = 4" | "m = 5" | "m = 6" | "m = 7" | "m = 8" | "m = 9"
    | "m = 10" | "m = 11" | "m = 12"
proof -
  from assms have "m \<in> {1, 2, 3, 4, 5, 6, 7, 8, 9, 10, 11, 12}" by simp presburger
  then show ?thesis using that by blast
qed

lemma month_of_doy_bounds:
  assumes "0 \<le> k" "k < (if lp then 366 else 365)"
  shows "1 \<le> month_of_doy lp k" "month_of_doy lp k \<le> 12"
    "days_before_month lp (month_of_doy lp k) \<le> k"
    "k < days_before_month lp (month_of_doy lp k + 1)"
proof -
  have "days_before_month lp 1 \<le> k" "k < days_before_month lp 13"
    using assms unfolding days_before_month_13 by (simp_all add: days_before_month_def)
  then show "1 \<le> month_of_doy lp k" "month_of_doy lp k \<le> 12"
    "days_before_month lp (month_of_doy lp k) \<le> k"
    "k < days_before_month lp (month_of_doy lp k + 1)"
    by (simp_all add: month_of_doy_def not_less)
qed

lemma days_before_month_step: "days_before_month lp m \<le> days_before_month lp (m + 1)" if "m \<le> 12"
proof (cases "m < 1")
  case False
  then have "1 \<le> m" by simp
  from this that show ?thesis by (rule twelve_months) (simp_all add: days_before_month_def)
qed (simp add: days_before_month_def)

lemma days_before_month_mono:
  "m \<le> m' \<Longrightarrow> m' \<le> 13 \<Longrightarrow> days_before_month lp m \<le> days_before_month lp m'"
proof (induction rule: int_ge_induct)
  case (step i)
  with days_before_month_step [of i lp] show ?case by simp
qed simp

lemma days_before_month_nonneg: "0 \<le> days_before_month lp m"
  by (simp add: days_before_month_def)

lemma month_of_doy_unique:
  assumes "1 \<le> m" "m \<le> 12" "days_before_month lp m \<le> k" "k < days_before_month lp (m + 1)"
  shows "month_of_doy lp k = m"
proof -
  have "0 \<le> k" using assms(3) days_before_month_nonneg [of lp m] by linarith
  moreover have "k < (if lp then 366 else 365)"
    using assms(2,4) days_before_month_mono [of "m + 1" 13 lp] days_before_month_13 [of lp] by simp
  ultimately have b: "month_of_doy lp k \<le> 12" "days_before_month lp (month_of_doy lp k) \<le> k"
    "k < days_before_month lp (month_of_doy lp k + 1)" by (rule month_of_doy_bounds)+
  show ?thesis
    using days_before_month_mono [of "m + 1" "month_of_doy lp k" lp]
      days_before_month_mono [of "month_of_doy lp k + 1" m lp] b assms by linarith
qed

lemma ymd_of_day_number:
  assumes "valid_ymd y m d" shows "ymd_of_day (day_number y m d) = (y, m, d)"
proof -
  have v: "1 \<le> m" "m \<le> 12" "1 \<le> d" "d \<le> month_length y m" using assms by (simp_all add: valid_ymd_def)
  let ?k = "days_before_month (leap y) m + (d - 1)"
  have n: "day_number y m d + epoch_offset = days_before_year y + ?k" by (simp add: day_number_def)
  have k: "0 \<le> ?k" "?k < days_before_month (leap y) (m + 1)"
    using v days_before_month_nonneg [of "leap y" m] by (auto simp: month_length_def)
  moreover have "days_before_month (leap y) (m + 1) \<le> (if leap y then 366 else 365)"
    using v days_before_month_mono [of "m + 1" 13 "leap y"] days_before_month_13 [of "leap y"] by simp
  ultimately have "year_of_day (day_number y m d) = y"
    unfolding n by (intro year_of_day_unique) (simp_all add: n days_before_year_Suc)
  moreover have "month_of_doy (leap y) ?k = m" using v k by (intro month_of_doy_unique) auto
  ultimately show ?thesis by (simp add: ymd_of_day_def Let_def n)
qed

lemma ymd_of_day_valid:
  assumes "ymd_of_day z = (y, m, d)"
  shows "valid_ymd y m d" "day_number y m d = z" "y = year_of_day z"
proof -
  let ?k = "z + epoch_offset - days_before_year (year_of_day z)"
  have y: "y = year_of_day z" and m: "m = month_of_doy (leap y) ?k"
    and d: "d = ?k - days_before_month (leap y) m + 1"
    using assms by (auto simp: ymd_of_day_def Let_def)
  have k: "0 \<le> ?k" "?k < (if leap y then 366 else 365)"
    using year_of_day_bounds [of z] by (auto simp: y days_before_year_Suc split: if_splits)
  from month_of_doy_bounds [OF k] show "valid_ymd y m d"
    by (simp add: valid_ymd_def month_length_def d flip: m)
  show "day_number y m d = z" by (simp add: day_number_def d y)
  show "y = year_of_day z" by (rule y)
qed

lemma month_length_bounds: "1 \<le> m \<Longrightarrow> m \<le> 12 \<Longrightarrow> 28 \<le> month_length y m \<and> month_length y m \<le> 31"
  by (erule (1) twelve_months) (simp_all add: month_length_def days_before_month_def)

section \<open>Decimal text and its order\<close>

lemma length_fixed_digits [simp]: "length (fixed_digits w n) = w"
  by (induction w n rule: fixed_digits.induct) auto

lemma byte_digit_char [simp]: "n < 10 \<Longrightarrow> byte (digit_char n) = 48 + n"
  by (simp add: digit_char_def byte_def)

lemma is_digit_digit_char [simp]: "n < 10 \<Longrightarrow> is_digit (digit_char n)"
  by (simp add: is_digit_def byte_def digit_char_def)

lemma digit_val_digit_char [simp]: "n < 10 \<Longrightarrow> digit_val (digit_char n) = n"
  by (simp add: digit_val_def byte_def digit_char_def)

lemma digit_char_digit_val [simp]: "is_digit c \<Longrightarrow> digit_char (digit_val c) = c"
  by (auto simp: digit_val_def digit_char_def is_digit_def byte_def)

lemma digit_val_less: "is_digit c \<Longrightarrow> digit_val c < 10"
  by (auto simp: digit_val_def is_digit_def byte_def)

lemma fixed_digits_are_digits: "c \<in> set (fixed_digits w n) \<Longrightarrow> is_digit c"
  by (induction w n rule: fixed_digits.induct) auto

lemma digits_value_snoc: "digits_value (s @ [c]) = digits_value s * 10 + digit_val c"
  by (simp add: digits_value_def)

lemma digits_value_fixed: "n < 10 ^ w \<Longrightarrow> digits_value (fixed_digits w n) = n"
proof (induction w n rule: fixed_digits.induct)
  case (2 w n)
  then have "n div 10 < 10 ^ w" by (simp add: less_mult_imp_div_less mult.commute)
  with 2 show ?case by (simp add: digits_value_snoc)
qed (simp add: digits_value_def)

lemma fixed_digits_value:
  "\<forall>c\<in>set s. is_digit c \<Longrightarrow> fixed_digits (length s) (digits_value s) = s \<and> digits_value s < 10 ^ length s"
proof (induction s rule: rev_induct)
  case (snoc c s)
  then have "digit_val c < 10" by (simp add: digit_val_less)
  with snoc show ?case by (simp add: digits_value_snoc)
qed (simp add: digits_value_def)

lemma less_char_byte: "(c :: char) < c' \<longleftrightarrow> byte c < byte c'"
  by (simp add: less_char_def byte_def)

lemma append_less_append:
  fixes xs ys :: "('a :: linorder) list"
  assumes "length xs = length ys"
  shows "xs @ us < ys @ vs \<longleftrightarrow> xs < ys \<or> xs = ys \<and> us < vs"
  using assms by (induction xs ys rule: list_induct2) auto

lemma div_mod_less:
  fixes n k :: nat shows "n < k \<longleftrightarrow> n div 10 < k div 10 \<or> n div 10 = k div 10 \<and> n mod 10 < k mod 10"
proof -
  have "10 * a + b < 10 * a' + b' \<longleftrightarrow> a < a' \<or> a = a' \<and> b < b'" if "b < 10" "b' < 10" for a a' b b' :: nat
    using that by linarith
  from this [of "n mod 10" "k mod 10" "n div 10" "k div 10"] show ?thesis by simp
qed

lemma fixed_digits_less:
  "n < 10 ^ w \<Longrightarrow> k < 10 ^ w \<Longrightarrow> fixed_digits w n < fixed_digits w k \<longleftrightarrow> n < k"
proof (induction w arbitrary: n k)
  case (Suc w)
  then have d: "n div 10 < 10 ^ w" "k div 10 < 10 ^ w"
    by (simp_all add: less_mult_imp_div_less mult.commute)
  have "fixed_digits w (n div 10) = fixed_digits w (k div 10) \<longleftrightarrow> n div 10 = k div 10"
    using digits_value_fixed [OF d(1)] digits_value_fixed [OF d(2)] by metis
  then have "fixed_digits (Suc w) n < fixed_digits (Suc w) k \<longleftrightarrow>
      n div 10 < k div 10 \<or> n div 10 = k div 10 \<and> n mod 10 < k mod 10"
    by (simp add: append_less_append Suc.IH [OF d] less_char_byte)
  then show ?case unfolding div_mod_less [of n k] .
qed simp

lemma digit_not_blank: "is_digit c \<Longrightarrow> \<not> c_space c \<and> c \<noteq> CHR ''-'' \<and> c \<noteq> CHR ''+''"
  by (auto simp: is_digit_def c_space_def byte_def)

lemma stoi_digits:
  assumes "s \<noteq> []" "\<forall>c\<in>set s. is_digit c"
  shows "stoi s = Some (int (digits_value s))"
proof -
  obtain c r where s: "s = c # r" using assms(1) by (cases s) auto
  then have "is_digit c" using assms(2) by simp
  from digit_not_blank [OF this] have c: "\<not> c_space c" "c \<noteq> CHR ''-''" "c \<noteq> CHR ''+''" by simp_all
  have "takeWhile is_digit s = s" using assms(2) by (simp add: takeWhile_eq_all_conv)
  with c show ?thesis by (simp add: stoi_def s Let_def)
qed

lemma stoi_fixed_digits: "0 < w \<Longrightarrow> n < 10 ^ w \<Longrightarrow> stoi (fixed_digits w n) = Some (int n)"
  using stoi_digits [of "fixed_digits w n"] fixed_digits_are_digits [of _ w n] digits_value_fixed [of n w]
  by (metis length_fixed_digits length_greater_0_conv)

lemma num_digits_le: "0 < w \<Longrightarrow> n < 10 ^ w \<Longrightarrow> num_digits n \<le> w"
proof (induction w arbitrary: n)
  case (Suc w)
  show ?case
  proof (cases "n < 10")
    case True then show ?thesis by (simp add: num_digits.simps [of n])
  next
    case False
    then have "0 < w" using Suc.prems by (cases w) auto
    moreover have "n div 10 < 10 ^ w" using Suc.prems by (simp add: less_mult_imp_div_less mult.commute)
    ultimately show ?thesis using Suc.IH [of "n div 10"] False by (simp add: num_digits.simps [of n])
  qed
qed simp

lemma pad_int_fixed: "0 < w \<Longrightarrow> 0 \<le> k \<Longrightarrow> k < 10 ^ w \<Longrightarrow> pad_int w k = fixed_digits w (nat k)"
  using num_digits_le [of w "nat k"]
  by (simp add: pad_int_def pad_nat_def max_def nat_less_iff)

section \<open>Days with a four-digit year\<close>

definition four_digit_year :: "sys_days \<Rightarrow> bool" where
  "four_digit_year z \<longleftrightarrow> 0 \<le> year_of_day z \<and> year_of_day z \<le> 9999"

definition date_text :: "int \<Rightarrow> int \<Rightarrow> int \<Rightarrow> string" where
  "date_text y m d = fixed_digits 4 (nat y) @ fixed_digits 2 (nat m) @ fixed_digits 2 (nat d)"

lemma ymd_cases:
  obtains y m d where "ymd_of_day z = (y, m, d)" "valid_ymd y m d" "day_number y m d = z"
    "y = year_of_day z" "1 \<le> m" "m \<le> 12" "1 \<le> d" "d \<le> 31"
proof -
  obtain y m d where e: "ymd_of_day z = (y, m, d)" by (metis prod_cases3)
  note v = ymd_of_day_valid [OF e]
  then have "1 \<le> m" "m \<le> 12" "1 \<le> d" "d \<le> 31"
    using month_length_bounds [of m y] by (simp_all add: valid_ymd_def)
  with v e show ?thesis using that by blast
qed

lemma fmt_date_text:
  assumes "four_digit_year z" "ymd_of_day z = (y, m, d)"
  shows "fmt_yyyymmdd z = date_text y m d"
  using assms
  by (cases z rule: ymd_cases) (simp add: fmt_yyyymmdd_def pad_int_fixed date_text_def four_digit_year_def)

lemma length_fmt [simp]: "four_digit_year z \<Longrightarrow> length (fmt_yyyymmdd z) = 8"
  by (cases z rule: ymd_cases) (simp add: fmt_date_text date_text_def)

lemma parse_date_text:
  assumes "0 \<le> y" "y \<le> 9999" "1 \<le> m" "m \<le> 12" "0 \<le> d" "d \<le> 99"
  shows "parse_yyyymmdd (date_text y m d) = Ok (day_number y m d)"
proof -
  have "length (date_text y m d) = 8" by (simp add: date_text_def)
  moreover have "substr (date_text y m d) 0 4 = fixed_digits 4 (nat y)"
    "substr (date_text y m d) 4 2 = fixed_digits 2 (nat m)"
    "substr (date_text y m d) 6 2 = fixed_digits 2 (nat d)"
    by (simp_all add: substr_def date_text_def)
  ultimately show ?thesis
    using assms by (simp add: parse_yyyymmdd_def stoi_fixed_digits mk_sys_days_def nat_less_iff)
qed

lemma parse_fmt: "four_digit_year z \<Longrightarrow> parse_yyyymmdd (fmt_yyyymmdd z) = Ok z"
  by (cases z rule: ymd_cases) (simp add: fmt_date_text parse_date_text four_digit_year_def)

lemma day_number_less:
  assumes "valid_ymd y m d" "valid_ymd y' m' d'"
  shows "day_number y m d < day_number y' m' d' \<longleftrightarrow> y < y' \<or> y = y' \<and> (m < m' \<or> m = m' \<and> d < d')"
    (is "_ = ?lex y m d y' m' d'")
proof -
  have step: "day_number y m d < day_number y' m' d'"
    if v: "valid_ymd y m d" "valid_ymd y' m' d'" and l: "?lex y m d y' m' d'" for y m d y' m' d'
  proof -
    have b: "days_before_month (leap y) m + (d - 1) < days_before_month (leap y) (m + 1)"
      "days_before_month (leap y) (m + 1) \<le> (if leap y then 366 else 365)"
      using v(1) days_before_month_mono [of "m + 1" 13 "leap y"] days_before_month_13 [of "leap y"]
      by (simp_all add: valid_ymd_def month_length_def)
    from l consider "y + 1 \<le> y'" | "y = y'" "m + 1 \<le> m'" | "y = y'" "m = m'" "d < d'" by linarith
    then show ?thesis
    proof cases
      case 1
      from days_before_year_mono [OF 1] v(2) b days_before_month_nonneg [of "leap y'" m'] show ?thesis
        by (simp add: day_number_def valid_ymd_def days_before_year_Suc)
    next
      case 2
      with days_before_month_mono [of "m + 1" m' "leap y"] v(2) b show ?thesis
        by (simp add: day_number_def valid_ymd_def)
    qed (simp add: day_number_def)
  qed
  show ?thesis
  proof (cases "?lex y m d y' m' d'")
    case False
    then have "?lex y' m' d' y m d \<or> y = y' \<and> m = m' \<and> d = d'" by auto
    then have "\<not> day_number y m d < day_number y' m' d'" using step [OF assms(2,1)] by fastforce
    with False show ?thesis by simp
  qed (use step [OF assms] in simp)
qed

lemma date_text_less:
  assumes "0 \<le> y" "y \<le> 9999" "0 \<le> y'" "y' \<le> 9999" "0 \<le> m" "m \<le> 99" "0 \<le> m'" "m' \<le> 99"
    "0 \<le> d" "d \<le> 99" "0 \<le> d'" "d' \<le> 99"
  shows "date_text y m d < date_text y' m' d' \<longleftrightarrow> y < y' \<or> y = y' \<and> (m < m' \<or> m = m' \<and> d < d')"
proof -
  have eq: "fixed_digits w a = fixed_digits w b \<longleftrightarrow> a = b" if "a < 10 ^ w" "b < 10 ^ w" for w a b
    using digits_value_fixed [OF that(1)] digits_value_fixed [OF that(2)] by metis
  show ?thesis using assms
    by (auto simp: date_text_def append_less_append fixed_digits_less eq nat_less_iff nat_eq_iff)
qed

lemma fmt_less:
  assumes "four_digit_year z" "four_digit_year z'"
  shows "fmt_yyyymmdd z < fmt_yyyymmdd z' \<longleftrightarrow> z < z'"
  using assms
  by (cases z rule: ymd_cases; cases z' rule: ymd_cases)
     (simp add: fmt_date_text date_text_less four_digit_year_def day_number_less [symmetric])

text \<open>The eight-digit texts that name a day of the calendar.\<close>

definition is_date :: "string \<Rightarrow> bool" where
  "is_date s \<longleftrightarrow> length s = 8 \<and> (\<forall>c\<in>set s. is_digit c) \<and>
     valid_ymd (int (digits_value (substr s 0 4))) (int (digits_value (substr s 4 2)))
       (int (digits_value (substr s 6 2)))"

lemma four_digit_year_number: "valid_ymd y m d \<Longrightarrow> 0 \<le> y \<Longrightarrow> y \<le> 9999 \<Longrightarrow> four_digit_year (day_number y m d)"
  using ymd_of_day_valid(3) [OF ymd_of_day_number] by (simp add: four_digit_year_def)

lemma is_date_text:
  assumes "is_date s"
  obtains y m d where "s = date_text y m d" "valid_ymd y m d" "0 \<le> y" "y \<le> 9999"
proof -
  let ?y = "substr s 0 4" and ?m = "substr s 4 2" and ?d = "substr s 6 2"
  have s: "length s = 8" "\<forall>c\<in>set s. is_digit c"
    "valid_ymd (int (digits_value ?y)) (int (digits_value ?m)) (int (digits_value ?d))"
    using assms by (simp_all add: is_date_def)
  have sub: "length (substr s i n) = n \<and> (\<forall>c\<in>set (substr s i n). is_digit c)" if "i + n \<le> 8" for i n
    using s(1,2) that by (auto simp: substr_def dest!: in_set_takeD in_set_dropD)
  have f: "fixed_digits n (digits_value (substr s i n)) = substr s i n \<and>
      digits_value (substr s i n) < 10 ^ n" if "i + n \<le> 8" for i n
    using fixed_digits_value [of "substr s i n"] sub [OF that] by simp
  have "?y @ ?m @ ?d = s"
    using s(1) by (auto simp: substr_def simp flip: append_assoc take_add)
  then have "s = date_text (int (digits_value ?y)) (int (digits_value ?m)) (int (digits_value ?d))"
    using f [of 0 4] f [of 4 2] f [of 6 2] by (simp add: date_text_def)
  moreover have "digits_value ?y \<le> 9999" using f [of 0 4] by simp
  ultimately show ?thesis using that s(3) by simp
qed

lemma date_text_fmt:
  "valid_ymd y m d \<Longrightarrow> 0 \<le> y \<Longrightarrow> y \<le> 9999 \<Longrightarrow> fmt_yyyymmdd (day_number y m d) = date_text y m d"
  by (simp add: fmt_date_text four_digit_year_number ymd_of_day_number)

lemma is_date_parse:
  assumes "is_date s"
  obtains z where "parse_yyyymmdd s = Ok z" "four_digit_year z" "fmt_yyyymmdd z = s"
proof -
  obtain y m d where t: "s = date_text y m d" "valid_ymd y m d" "0 \<le> y" "y \<le> 9999"
    using assms by (rule is_date_text)
  have "fmt_yyyymmdd (day_number y m d) = s" using t by (simp add: date_text_fmt)
  with parse_fmt [OF four_digit_year_number [OF t(2-4)]] four_digit_year_number [OF t(2-4)]
  show ?thesis using that by metis
qed

lemma fmt_is_date: "four_digit_year z \<Longrightarrow> is_date (fmt_yyyymmdd z)"
proof (cases z rule: ymd_cases)
  case (1 y m d)
  assume z: "four_digit_year z"
  then have y: "0 \<le> y" "y \<le> 9999" using 1 by (simp_all add: four_digit_year_def)
  have "substr (date_text y m d) 0 4 = fixed_digits 4 (nat y)"
    "substr (date_text y m d) 4 2 = fixed_digits 2 (nat m)"
    "substr (date_text y m d) 6 2 = fixed_digits 2 (nat d)"
    by (simp_all add: substr_def date_text_def)
  moreover have "c \<in> set (date_text y m d) \<Longrightarrow> is_digit c" for c
    by (auto simp: date_text_def dest: fixed_digits_are_digits)
  moreover have "length (date_text y m d) = 8" by (simp add: date_text_def)
  ultimately show ?thesis
    using 1 y z by (simp add: fmt_date_text is_date_def digits_value_fixed nat_less_iff)
qed

lemma year_of_day_mono: "z \<le> z' \<Longrightarrow> year_of_day z \<le> year_of_day z'"
  using year_of_day_bounds [of z] year_of_day_bounds [of z']
    days_before_year_mono [of "year_of_day z' + 1" "year_of_day z"] by linarith

lemma four_digit_year_between:
  "four_digit_year a \<Longrightarrow> four_digit_year b \<Longrightarrow> a \<le> z \<Longrightarrow> z \<le> b \<Longrightarrow> four_digit_year z"
  using year_of_day_mono [of a z] year_of_day_mono [of z b] by (simp add: four_digit_year_def)

section \<open>The interface the schedulers use: days as ordered texts\<close>

text \<open>
  What every caller of date.cpp relies on when it compares dates as strings: the texts of the
  days in a range parse back and are ordered like the days.
\<close>

locale day_text =
  fixes fmt :: "sys_days \<Rightarrow> string"
    and parse :: "string \<Rightarrow> (date_error, sys_days) outcome"
    and in_range :: "sys_days \<Rightarrow> bool"
  assumes parse_of_fmt: "in_range z \<Longrightarrow> parse (fmt z) = Ok z"
    and fmt_order: "in_range z \<Longrightarrow> in_range z' \<Longrightarrow> fmt z < fmt z' \<longleftrightarrow> z < z'"
    and range_convex: "in_range a \<Longrightarrow> in_range b \<Longrightarrow> a \<le> z \<Longrightarrow> z \<le> b \<Longrightarrow> in_range z"
begin

lemma fmt_le: "in_range z \<Longrightarrow> in_range z' \<Longrightarrow> fmt z \<le> fmt z' \<longleftrightarrow> z \<le> z'"
  using fmt_order [of z' z] by (simp add: linorder_not_less [symmetric])

lemma fmt_eq: "in_range z \<Longrightarrow> in_range z' \<Longrightarrow> fmt z = fmt z' \<longleftrightarrow> z = z'"
  by (metis parse_of_fmt outcome.inject(2))

lemma fmt_max: "in_range a \<Longrightarrow> in_range b \<Longrightarrow> max (fmt a) (fmt b) = fmt (max a b)"
  by (simp add: max_def fmt_le)

lemma fmt_min: "in_range a \<Longrightarrow> in_range b \<Longrightarrow> min (fmt a) (fmt b) = fmt (min a b)"
  by (simp add: min_def fmt_le)

lemma sorted_fmt_upto:
  assumes "in_range a" "in_range b" shows "sorted_wrt (<) (map fmt [a..b])"
proof -
  have "sorted_wrt (\<lambda>x y. fmt x < fmt y) [a..b]"
    using sorted_wrt_mono_rel [of "[a..b]" "(<)" "\<lambda>x y. fmt x < fmt y"]
      fmt_order range_convex [OF assms] by simp
  then show ?thesis by (simp add: sorted_wrt_map)
qed

end

interpretation dt: day_text fmt_yyyymmdd parse_yyyymmdd four_digit_year
  by unfold_locales (auto simp: parse_fmt fmt_less intro: four_digit_year_between)

lemma iter_loop_upto: "iter_loop d e = map fmt_yyyymmdd [d..e]"
  by (induction d e rule: iter_loop.induct)
     (subst iter_loop.simps, subst upto.simps, simp)

lemma add_days_fmt [simp]:
  "four_digit_year z \<Longrightarrow> add_days (fmt_yyyymmdd z) n = Ok (fmt_yyyymmdd (z + n))"
  by (simp add: add_days_def parse_fmt)

section \<open>Properties\<close>

text \<open>Parsing and printing dates are inverse: every day with a four-digit year prints as an
  eight-digit date text which parses back to it, and every text that names a day of the calendar
  parses to a day that prints as that text.\<close>

theorem date_text_roundtrip:
  "(four_digit_year z \<longrightarrow> is_date (fmt_yyyymmdd z) \<and> parse_yyyymmdd (fmt_yyyymmdd z) = Ok z) \<and>
   (is_date s \<longrightarrow> (\<exists>d. parse_yyyymmdd s = Ok d \<and> four_digit_year d \<and> fmt_yyyymmdd d = s))"
  using fmt_is_date parse_fmt is_date_parse by metis

lemma date_text_roundtrip_witness:
  "is_date (fmt_yyyymmdd 19782) \<and> parse_yyyymmdd (fmt_yyyymmdd 19782) = Ok 19782 \<and>
   (\<exists>d. parse_yyyymmdd ''20240229'' = Ok d \<and> four_digit_year d \<and> fmt_yyyymmdd d = ''20240229'')"
proof -
  have "four_digit_year 19782" "is_date ''20240229''" by code_simp+
  with date_text_roundtrip [of 19782 "''20240229''"] show ?thesis by blast
qed

text \<open>Comparing two dates as strings, which the whole program does, is comparing the days.\<close>

theorem date_text_order:
  assumes "is_date s" "is_date t" "parse_yyyymmdd s = Ok a" "parse_yyyymmdd t = Ok b"
  shows "(s < t) = (a < b)"
  using is_date_parse [OF assms(1)] is_date_parse [OF assms(2)] assms(3,4) fmt_less
  by (metis outcome.inject(2))

lemma date_text_order_witness:
  "parse_yyyymmdd ''19991231'' = Ok 10956 \<and> parse_yyyymmdd ''20000101'' = Ok 10957 \<and>
   (''19991231'' < ''20000101'') = ((10956::int) < 10957)"
proof -
  have p: "is_date ''19991231''" "is_date ''20000101''" "parse_yyyymmdd ''19991231'' = Ok 10956"
    "parse_yyyymmdd ''20000101'' = Ok 10957" by code_simp+
  from date_text_order [OF p] p(3,4) show ?thesis by blast
qed

text \<open>Moving a date by \<open>a\<close> days and then by \<open>b\<close> is moving it by \<open>a + b\<close> days, in either
  direction and over month, year and century ends, as long as the years keep four digits.\<close>

theorem add_days_compose:
  assumes "is_date s" "parse_yyyymmdd s = Ok z" "four_digit_year (z + a)"
  shows "bind_ok (add_days s a) (\<lambda>t. add_days t b) = add_days s (a + b)"
proof -
  obtain d where d: "parse_yyyymmdd s = Ok d" "four_digit_year d" "fmt_yyyymmdd d = s"
    using assms(1) by (rule is_date_parse)
  with assms(2) have "s = fmt_yyyymmdd z" "four_digit_year z" by simp_all
  with assms(3) show ?thesis by (simp add: add.assoc)
qed

lemma add_days_compose_witness:
  "bind_ok (add_days ''20240301'' (-1)) (\<lambda>t. add_days t 366) = add_days ''20240301'' (-1 + 366)"
proof -
  have p: "is_date ''20240301''" "parse_yyyymmdd ''20240301'' = Ok 19783"
    "four_digit_year (19783 + (-1))" by code_simp+
  show ?thesis by (rule add_days_compose [OF p])
qed

text \<open>\<open>iter_days\<close> ends and returns the dates of the closed interval: it is strictly ascending as
  strings, and a date text is in the list exactly when it lies between the two ends.\<close>

theorem iter_days_spec:
  assumes "is_date s" "is_date e"
  shows "\<exists>xs. iter_days s e = Ok xs \<and> sorted_wrt (<) xs \<and>
    (\<forall>t. t \<in> set xs \<longleftrightarrow> is_date t \<and> s \<le> t \<and> t \<le> e)"
proof -
  obtain a where a: "parse_yyyymmdd s = Ok a" "four_digit_year a" "fmt_yyyymmdd a = s"
    using assms(1) by (rule is_date_parse)
  obtain b where b: "parse_yyyymmdd e = Ok b" "four_digit_year b" "fmt_yyyymmdd b = e"
    using assms(2) by (rule is_date_parse)
  have "t \<in> set (map fmt_yyyymmdd [a..b]) \<longleftrightarrow> is_date t \<and> s \<le> t \<and> t \<le> e" for t
  proof
    assume "t \<in> set (map fmt_yyyymmdd [a..b])"
    then obtain z where z: "t = fmt_yyyymmdd z" "a \<le> z" "z \<le> b" by auto
    moreover from this have "four_digit_year z" using a(2) b(2) four_digit_year_between by blast
    ultimately show "is_date t \<and> s \<le> t \<and> t \<le> e"
      using fmt_is_date dt.fmt_le [OF a(2), of z] dt.fmt_le [OF _ b(2), of z] a(3) b(3) by simp
  next
    assume t: "is_date t \<and> s \<le> t \<and> t \<le> e"
    then obtain z where z: "four_digit_year z" "fmt_yyyymmdd z = t" using is_date_parse by blast
    then have "a \<le> z" "z \<le> b"
      using t dt.fmt_le [OF a(2), of z] dt.fmt_le [OF _ b(2), of z] a(3) b(3) by simp_all
    with z show "t \<in> set (map fmt_yyyymmdd [a..b])" by auto
  qed
  moreover have "iter_days s e = Ok (map fmt_yyyymmdd [a..b])"
    using a(1) b(1) by (simp add: iter_days_def iter_loop_upto)
  ultimately show ?thesis using dt.sorted_fmt_upto [OF a(2) b(2)] by blast
qed

lemma iter_days_spec_witness:
  "\<exists>xs. iter_days ''20231230'' ''20240102'' = Ok xs \<and> sorted_wrt (<) xs \<and>
    (\<forall>t. t \<in> set xs \<longleftrightarrow> is_date t \<and> ''20231230'' \<le> t \<and> t \<le> ''20240102'')"
proof -
  have p: "is_date ''20231230''" "is_date ''20240102''" by code_simp+
  show ?thesis by (rule iter_days_spec [OF p])
qed

text \<open>The six digits \<open>YYYYMM\<close> of a month.\<close>

definition ym_digits :: "nat \<Rightarrow> nat \<Rightarrow> string" where
  "ym_digits y m = fixed_digits 4 y @ fixed_digits 2 m"

lemma month_last_dd_digits:
  assumes "y \<le> 9999" "1 \<le> m" "m \<le> 12"
  shows "month_last_dd (ym_digits y m) = Ok (fixed_digits 2 (nat (month_length (int y) (int m))))"
proof -
  have "substr (ym_digits y m) 0 4 = fixed_digits 4 y" "substr (ym_digits y m) 4 2 = fixed_digits 2 m"
    "length (ym_digits y m) = 6" by (simp_all add: substr_def ym_digits_def)
  then show ?thesis
    using assms month_length_bounds [of "int m" "int y"]
    by (simp add: month_last_dd_def stoi_fixed_digits pad_int_fixed)
qed

lemma fixed_digits_eq: "a < 10 ^ w \<Longrightarrow> b < 10 ^ w \<Longrightarrow> fixed_digits w a = fixed_digits w b \<longleftrightarrow> a = b"
  using digits_value_fixed [of a w] digits_value_fixed [of b w] by metis

lemma date_text_ym: "substr (date_text y m d) 0 6 = ym_digits (nat y) (nat m)"
  by (simp add: substr_def date_text_def ym_digits_def)

text \<open>\<open>month_last_dd\<close> gives the day that closes the month: of all dates, exactly those of that
  year and month lie between the month's day \<open>01\<close> and the returned day, leap years included.\<close>

theorem month_last_dd_spec:
  assumes "y \<le> 9999" "1 \<le> m" "m \<le> 12" "is_date t"
  shows "\<exists>dd. month_last_dd (ym_digits y m) = Ok dd \<and>
    (substr t 0 6 = ym_digits y m \<longleftrightarrow> ym_digits y m @ ''01'' \<le> t \<and> t \<le> ym_digits y m @ dd)"
proof -
  let ?l = "month_length (int y) (int m)"
  obtain y' m' d' where t: "t = date_text y' m' d'" "valid_ymd y' m' d'" "0 \<le> y'" "y' \<le> 9999"
    using assms(4) by (rule is_date_text)
  have l: "28 \<le> ?l" "?l \<le> 31" "28 \<le> month_length y' m'" "month_length y' m' \<le> 31"
    using assms t(2) month_length_bounds [of "int m" "int y"] month_length_bounds [of m' y']
    by (simp_all add: valid_ymd_def)
  have "substr t 0 6 = ym_digits y m \<longleftrightarrow> y' = int y \<and> m' = int m"
    using t(2-4) assms(1,3) unfolding t(1) date_text_ym
    by (auto simp: ym_digits_def fixed_digits_eq valid_ymd_def nat_less_iff nat_eq_iff)
  moreover have "fixed_digits 2 (Suc 0) = ''01''" by code_simp
  then have "ym_digits y m @ ''01'' = date_text (int y) (int m) 1"
    "ym_digits y m @ fixed_digits 2 (nat ?l) = date_text (int y) (int m) ?l"
    by (simp_all add: ym_digits_def date_text_def)
  moreover have "month_last_dd (ym_digits y m) = Ok (fixed_digits 2 (nat ?l))"
    by (rule month_last_dd_digits) (use assms in auto)
  moreover have "date_text (int y) (int m) 1 \<le> t \<and> t \<le> date_text (int y) (int m) ?l \<longleftrightarrow>
      y' = int y \<and> m' = int m"
    using assms(1,3) t(2-4) l
    by (auto simp: date_text_less t(1) valid_ymd_def simp flip: linorder_not_less)
  ultimately show ?thesis by metis
qed

lemma month_last_dd_spec_witness:
  "\<exists>dd. month_last_dd (ym_digits 2024 2) = Ok dd \<and>
    (substr ''20240229'' 0 6 = ym_digits 2024 2 \<longleftrightarrow>
     ym_digits 2024 2 @ ''01'' \<le> ''20240229'' \<and> ''20240229'' \<le> ym_digits 2024 2 @ dd)"
  by (rule month_last_dd_spec) (simp_all, code_simp)

end
