(* ===== verification/Floats.thy ===== *)
theory Floats
  imports Complex_Main Prelude
begin

text \<open>
  Floating-point values as the C++ code handles them: a finite real or one of the special values,
  with the comparisons of IEEE 754 (a comparison with NaN is false) and its arithmetic: the exact
  result is rounded, and what is too large becomes an infinity. The rounding is a parameter \<open>rnd\<close> of
  the definitions that calculate, and the interface \<open>rounding\<close> says what the lemmas need of it. The
  two formats of the code, \<open>float\<close> and \<open>double\<close> (nearest, ties to even, with subnormal numbers and
  overflow), provide the interface, and so does exact arithmetic. Zero has no sign here; the code
  tests its divisors before it divides.
\<close>

datatype fval = NaN | PInf | NInf | Fin real

fun is_finite :: "fval \<Rightarrow> bool" where
  "is_finite (Fin _) = True"
| "is_finite _ = False"

fun fless :: "fval \<Rightarrow> fval \<Rightarrow> bool" where
  "fless NaN _ = False"
| "fless _ NaN = False"
| "fless (Fin a) (Fin b) = (a < b)"
| "fless NInf b = (b \<noteq> NInf)"
| "fless a PInf = (a \<noteq> PInf)"
| "fless _ _ = False"

fun feq :: "fval \<Rightarrow> fval \<Rightarrow> bool" where
  "feq NaN _ = False"
| "feq a b = (a = b)"

definition fle :: "fval \<Rightarrow> fval \<Rightarrow> bool" where
  "fle a b \<longleftrightarrow> fless a b \<or> feq a b"

definition val :: "fval \<Rightarrow> real" where
  "val x = (case x of Fin r \<Rightarrow> r | _ \<Rightarrow> 0)"

lemma is_finite_iff: "is_finite x \<longleftrightarrow> (\<exists>r. x = Fin r)"
  by (cases x) auto

lemma fless_Fin [simp]: "fless (Fin a) (Fin b) \<longleftrightarrow> a < b"
  by simp

lemma val_Fin [simp]: "val (Fin r) = r"
  by (simp add: val_def)

lemma Fin_val: "is_finite x \<Longrightarrow> Fin (val x) = x"
  by (cases x) auto

text \<open>A column of flags holds 0 and 1; the code tests it with \<open>> 0.5f\<close>.\<close>

definition flag :: "fval \<Rightarrow> bool" where
  "flag x \<longleftrightarrow> fless (Fin (1/2)) x"

definition of_flag :: "bool \<Rightarrow> fval" where
  "of_flag b = Fin (if b then 1 else 0)"

lemma flag_of_flag [simp]: "flag (of_flag b) = b"
  by (simp add: flag_def of_flag_def)

section \<open>Arithmetic\<close>

text \<open>The infinity of a sign, for results that are infinite whatever the rounding.\<close>

definition inf_of :: "real \<Rightarrow> fval" where
  "inf_of s = (if s < 0 then NInf else if s > 0 then PInf else NaN)"

fun sgn_of :: "fval \<Rightarrow> real" where
  "sgn_of (Fin r) = sgn r"
| "sgn_of PInf = 1"
| "sgn_of NInf = -1"
| "sgn_of NaN = 0"

fun fneg :: "fval \<Rightarrow> fval" where
  "fneg NaN = NaN"
| "fneg PInf = NInf"
| "fneg NInf = PInf"
| "fneg (Fin r) = Fin (- r)"

fun fadd :: "(real \<Rightarrow> fval) \<Rightarrow> fval \<Rightarrow> fval \<Rightarrow> fval" where
  "fadd rnd (Fin a) (Fin b) = rnd (a + b)"
| "fadd rnd NaN b = NaN"
| "fadd rnd a NaN = NaN"
| "fadd rnd PInf b = (if b = NInf then NaN else PInf)"
| "fadd rnd NInf b = (if b = PInf then NaN else NInf)"
| "fadd rnd (Fin a) b = b"

definition fsub :: "(real \<Rightarrow> fval) \<Rightarrow> fval \<Rightarrow> fval \<Rightarrow> fval" where
  "fsub rnd a b = fadd rnd a (fneg b)"

fun fmul :: "(real \<Rightarrow> fval) \<Rightarrow> fval \<Rightarrow> fval \<Rightarrow> fval" where
  "fmul rnd (Fin a) (Fin b) = rnd (a * b)"
| "fmul rnd NaN b = NaN"
| "fmul rnd a NaN = NaN"
| "fmul rnd a b = inf_of (sgn_of a * sgn_of b)"

fun fdiv :: "(real \<Rightarrow> fval) \<Rightarrow> fval \<Rightarrow> fval \<Rightarrow> fval" where
  "fdiv rnd (Fin a) (Fin b) = (if b = 0 then inf_of a else rnd (a / b))"
| "fdiv rnd NaN b = NaN"
| "fdiv rnd a NaN = NaN"
| "fdiv rnd (Fin a) b = Fin 0"
| "fdiv rnd a (Fin b) = (if b < 0 then fneg a else a)"
| "fdiv rnd a b = NaN"

text \<open>A library function of one real argument, rounded (only applied to finite values).\<close>

definition fapply :: "(real \<Rightarrow> fval) \<Rightarrow> (real \<Rightarrow> real) \<Rightarrow> fval \<Rightarrow> fval" where
  "fapply rnd f x = (case x of Fin r \<Rightarrow> rnd (f r) | _ \<Rightarrow> NaN)"

lemma fle_Fin [simp]: "fle (Fin a) (Fin b) \<longleftrightarrow> a \<le> b"
  by (auto simp: fle_def)

lemma fless_trans: "fless a b \<Longrightarrow> fless b c \<Longrightarrow> fless a c"
  by (cases a; cases b; cases c) auto

lemma fle_between: "fle (Fin a) x \<Longrightarrow> fle x (Fin b) \<Longrightarrow> \<exists>r. x = Fin r \<and> a \<le> r \<and> r \<le> b"
  by (cases x) (auto simp: fle_def)

text \<open>\<open>std::min(a, b)\<close> and \<open>std::max(a, b)\<close>: the first argument, unless the second is smaller, or larger.\<close>

definition std_min :: "fval \<Rightarrow> fval \<Rightarrow> fval" where
  "std_min a b = (if fless b a then b else a)"

definition std_max :: "fval \<Rightarrow> fval \<Rightarrow> fval" where
  "std_max a b = (if fless a b then b else a)"

section \<open>Rounding\<close>

locale rounding =
  fixes rnd :: "real \<Rightarrow> fval"
  assumes rnd_mono: "x \<le> y \<Longrightarrow> fle (rnd x) (rnd y)"
    and rnd_int: "\<bar>n\<bar> \<le> 2 ^ 24 \<Longrightarrow> rnd (of_int n) = Fin (of_int n)"
begin

lemma rnd_0: "rnd 0 = Fin 0"
  using rnd_int [of 0] by simp

lemma rnd_1: "rnd 1 = Fin 1"
  using rnd_int [of 1] by simp

lemma rnd_nat: "n \<le> 2 ^ 24 \<Longrightarrow> rnd (real n) = Fin (real n)"
  using rnd_int [of "int n"] by (simp flip: of_nat_power)

lemma rnd_between:
  assumes "real m \<le> x" "x \<le> real n" "n \<le> 2 ^ 24"
  shows "\<exists>r. rnd x = Fin r \<and> real m \<le> r \<and> r \<le> real n"
proof -
  from assms have "real m \<le> real n" by linarith
  then have "m \<le> n" by simp
  with rnd_mono [OF assms(1)] rnd_mono [OF assms(2)] assms(3) show ?thesis
    by (intro fle_between) (simp_all add: rnd_nat)
qed

lemma rnd_unit: "0 \<le> x \<Longrightarrow> x \<le> 1 \<Longrightarrow> \<exists>r. rnd x = Fin r \<and> 0 \<le> r \<and> r \<le> 1"
  using rnd_between [of 0 x 1] by simp

end

text \<open>Nearest integer, ties to even.\<close>

definition rne :: "real \<Rightarrow> int" where
  "rne x = (let f = \<lfloor>x\<rfloor>; d = x - of_int f in
     if d < 1/2 then f else if d > 1/2 then f + 1 else if even f then f else f + 1)"

lemma rne_bounds: "\<lfloor>x\<rfloor> \<le> rne x" "rne x \<le> \<lfloor>x\<rfloor> + 1"
  by (auto simp: rne_def Let_def)

lemma rne_mono: assumes "x \<le> y" shows "rne x \<le> rne y"
proof (cases "\<lfloor>x\<rfloor> = \<lfloor>y\<rfloor>")
  case True
  with assms show ?thesis by (auto simp: rne_def Let_def)
next
  case False
  with floor_mono [OF assms] have "\<lfloor>x\<rfloor> + 1 \<le> \<lfloor>y\<rfloor>" by simp
  with rne_bounds [of x] rne_bounds [of y] show ?thesis by linarith
qed

lemma rne_int [simp]: "rne (of_int n) = n"
  by (simp add: rne_def)

text \<open>The exponent of the last place of \<open>x\<close> with \<open>p\<close> significant bits and smallest exponent \<open>l\<close>; the
  value to that place; and the format, where magnitudes from \<open>2 ^ h\<close> on are infinite.\<close>

definition ulp_exp :: "int \<Rightarrow> int \<Rightarrow> real \<Rightarrow> int" where
  "ulp_exp p l x = max l (\<lfloor>log 2 \<bar>x\<bar>\<rfloor> + 1 - p)"

definition round_to :: "int \<Rightarrow> int \<Rightarrow> real \<Rightarrow> real" where
  "round_to p l x = (if x = 0 then 0
     else of_int (rne (x * 2 powr of_int (- ulp_exp p l x))) * 2 powr of_int (ulp_exp p l x))"

definition ieee :: "int \<Rightarrow> int \<Rightarrow> int \<Rightarrow> real \<Rightarrow> fval" where
  "ieee p l h x = (let r = round_to p l x in
     if r \<ge> 2 powr of_int h then PInf else if r \<le> - (2 powr of_int h) then NInf else Fin r)"

definition f32 :: "real \<Rightarrow> fval" where "f32 = ieee 24 (-149) 128"
definition f64 :: "real \<Rightarrow> fval" where "f64 = ieee 53 (-1074) 1024"

lemma rne_minus: "rne (- x) = - rne x"
proof (cases "x = of_int \<lfloor>x\<rfloor>")
  case True
  then have "rne x = \<lfloor>x\<rfloor>" "rne (- x) = - \<lfloor>x\<rfloor>" using rne_int [of "\<lfloor>x\<rfloor>"] rne_int [of "- \<lfloor>x\<rfloor>"] by simp_all
  then show ?thesis by simp
next
  case False
  then have "of_int \<lfloor>x\<rfloor> < x" "x < of_int \<lfloor>x\<rfloor> + 1" by linarith+
  then have "\<lfloor>- x\<rfloor> = - \<lfloor>x\<rfloor> - 1" by (intro floor_unique) (simp_all, linarith)
  then show ?thesis by (auto simp: rne_def Let_def)
qed

lemma powr_scale: "2 powr of_int (- e) * 2 powr of_int e = (1 :: real)"
  by (simp flip: powr_add)

lemma round_to_scaled:
  assumes "x * 2 powr of_int (- ulp_exp p l x) = of_int k" shows "round_to p l x = x"
proof (cases "x = 0")
  case False
  have "round_to p l x = of_int k * 2 powr of_int (ulp_exp p l x)"
    using assms False by (simp add: round_to_def)
  also have "\<dots> = x * (2 powr of_int (- ulp_exp p l x) * 2 powr of_int (ulp_exp p l x))"
    by (simp only: assms [symmetric] mult.assoc)
  finally show ?thesis by (simp only: powr_scale mult_1_right)
qed (simp add: round_to_def)

lemma round_to_minus: "round_to p l (- x) = - round_to p l x"
proof -
  have "ulp_exp p l (- x) = ulp_exp p l x" by (simp add: ulp_exp_def)
  then show ?thesis by (simp add: round_to_def rne_minus flip: minus_mult_left)
qed

lemma log_floor_bounds:
  assumes "0 < x"
  shows "2 powr of_int \<lfloor>log 2 x\<rfloor> \<le> x" "x < 2 powr of_int (\<lfloor>log 2 x\<rfloor> + 1)"
proof -
  have "of_int \<lfloor>log 2 x\<rfloor> \<le> log 2 x" "log 2 x < of_int (\<lfloor>log 2 x\<rfloor> + 1)" by linarith+
  then show "2 powr of_int \<lfloor>log 2 x\<rfloor> \<le> x" "x < 2 powr of_int (\<lfloor>log 2 x\<rfloor> + 1)"
    using assms by (simp_all add: powr_le_iff [symmetric] less_powr_iff [symmetric] flip: le_log_iff log_less_iff)
qed

lemma rne_scale:
  assumes "0 \<le> j" "2 powr of_int j \<le> y" shows "2 powr of_int j \<le> real_of_int (rne y)"
proof -
  have j: "2 powr of_int j = (real_of_int (2 ^ nat j))" using assms(1) by (simp flip: powr_realpow)
  with assms(2) have "rne (of_int (2 ^ nat j)) \<le> rne y" by (intro rne_mono) simp
  then have "2 ^ nat j \<le> rne y" unfolding rne_int .
  then have "real_of_int (2 ^ nat j) \<le> real_of_int (rne y)" by (simp only: of_int_le_iff)
  with j show ?thesis by simp
qed

lemma rne_scale_upper:
  assumes "0 \<le> j" "y \<le> 2 powr of_int j" shows "real_of_int (rne y) \<le> 2 powr of_int j"
proof -
  have j: "2 powr of_int j = (real_of_int (2 ^ nat j))" using assms(1) by (simp flip: powr_realpow)
  with assms(2) have "rne y \<le> rne (of_int (2 ^ nat j))" by (intro rne_mono) simp
  then have "rne y \<le> 2 ^ nat j" unfolding rne_int .
  then have "real_of_int (rne y) \<le> real_of_int (2 ^ nat j)" by (simp only: of_int_le_iff)
  with j show ?thesis by simp
qed

text \<open>Rounding does not leave the power of two above, nor the one below unless \<open>x\<close> is subnormal.\<close>

lemma round_to_upper:
  assumes "0 < x" "x \<le> 2 powr of_int k" "ulp_exp p l x \<le> k" shows "round_to p l x \<le> 2 powr of_int k"
proof -
  let ?e = "ulp_exp p l x"
  have "x * 2 powr of_int (- ?e) \<le> 2 powr of_int k * 2 powr of_int (- ?e)"
    using assms(2) by (intro mult_right_mono) simp_all
  also have "\<dots> = 2 powr of_int (k - ?e)" by (simp flip: powr_add)
  finally have "of_int (rne (x * 2 powr of_int (- ?e))) \<le> (2 powr of_int (k - ?e) :: real)"
    using assms(3) by (intro rne_scale_upper) simp_all
  then have "round_to p l x \<le> 2 powr of_int (k - ?e) * 2 powr of_int ?e"
    using assms(1) by (simp add: round_to_def mult_right_mono)
  then show ?thesis by (simp flip: powr_add)
qed

lemma round_to_lower:
  assumes "0 < x" "2 powr of_int k \<le> x" "ulp_exp p l x \<le> k" shows "2 powr of_int k \<le> round_to p l x"
proof -
  let ?e = "ulp_exp p l x"
  have "2 powr of_int (k - ?e) = (2 powr of_int k * 2 powr of_int (- ?e) :: real)" by (simp flip: powr_add)
  also have "\<dots> \<le> x * 2 powr of_int (- ?e)" using assms(2) by (intro mult_right_mono) simp_all
  finally have "2 powr of_int (k - ?e) \<le> real_of_int (rne (x * 2 powr of_int (- ?e)))"
    using assms(3) by (intro rne_scale) simp_all
  then have "2 powr of_int (k - ?e) * 2 powr of_int ?e \<le> round_to p l x"
    using assms(1) by (simp add: round_to_def mult_right_mono)
  then show ?thesis by (simp flip: powr_add)
qed

lemma ulp_exp_mono: "0 < x \<Longrightarrow> x \<le> y \<Longrightarrow> ulp_exp p l x \<le> ulp_exp p l y"
  unfolding ulp_exp_def by (intro max.mono order_refl diff_right_mono add_right_mono floor_mono) simp

lemma round_to_nonneg: "0 \<le> x \<Longrightarrow> 0 \<le> round_to p l x"
proof -
  assume "0 \<le> x"
  then have "rne 0 \<le> rne (x * 2 powr of_int (- ulp_exp p l x))" by (intro rne_mono) simp
  then show ?thesis using rne_int [of 0] by (simp add: round_to_def)
qed

lemma round_to_mono_pos:
  assumes "0 < x" "x \<le> y" "1 \<le> p" shows "round_to p l x \<le> round_to p l y"
proof (cases "ulp_exp p l x = ulp_exp p l y")
  case True
  have "x * 2 powr of_int (- ulp_exp p l x) \<le> y * 2 powr of_int (- ulp_exp p l x)"
    using assms(2) by (intro mult_right_mono) simp_all
  then have "rne (x * 2 powr of_int (- ulp_exp p l x)) \<le> rne (y * 2 powr of_int (- ulp_exp p l x))" by (rule rne_mono)
  with True assms show ?thesis unfolding round_to_def by (simp add: mult_right_mono)
next
  case False
  let ?k = "\<lfloor>log 2 y\<rfloor>"
  have lt: "ulp_exp p l x < ulp_exp p l y" using False ulp_exp_mono [OF assms(1,2), of p l] by simp
  then have k: "ulp_exp p l y = ?k + 1 - p" using assms by (auto simp: ulp_exp_def)
  have "\<lfloor>log 2 x\<rfloor> < ?k" using lt assms k by (auto simp: ulp_exp_def)
  then have "2 powr of_int (\<lfloor>log 2 x\<rfloor> + 1) \<le> (2 powr of_int ?k :: real)" by (intro powr_mono) simp_all
  with log_floor_bounds(2) [OF assms(1)] have "x \<le> 2 powr of_int ?k" by linarith
  then have "round_to p l x \<le> 2 powr of_int ?k" using assms lt k by (intro round_to_upper) simp_all
  also have "\<dots> \<le> round_to p l y" using assms k log_floor_bounds(1) [of y] by (intro round_to_lower) simp_all
  finally show ?thesis .
qed

lemma round_to_mono: assumes "x \<le> y" "1 \<le> p" shows "round_to p l x \<le> round_to p l y"
proof -
  consider "0 < x" | "y < 0" | "x \<le> 0" "0 \<le> y" by linarith
  then show ?thesis
  proof cases
    case 1
    with assms show ?thesis by (intro round_to_mono_pos)
  next
    case 2
    with assms round_to_mono_pos [of "- y" "- x" p l] show ?thesis by (simp add: round_to_minus)
  next
    case 3
    with round_to_nonneg [of "- x" p l] round_to_nonneg [of y p l] show ?thesis by (simp add: round_to_minus)
  qed
qed

lemma round_to_int:
  assumes "\<bar>n\<bar> \<le> 2 ^ 24" "24 \<le> p" "l \<le> 0" shows "round_to p l (of_int n) = of_int n"
proof (cases "n = 0")
  case False
  define a where "a = (of_int n :: real)"
  let ?e = "ulp_exp p l a"
  have pos: "0 < \<bar>a\<bar>" using False by (simp add: a_def)
  have "\<bar>a\<bar> \<le> 2 ^ 24"
    using assms(1) by (metis a_def of_int_abs of_int_le_iff of_int_numeral of_int_power)
  then have a24: "\<bar>a\<bar> \<le> 2 powr 24" by (simp add: powr_numeral)
  show ?thesis
  proof (cases "?e \<le> 0")
    case True
    then have "2 powr of_int (- ?e) = (of_int (2 ^ nat (- ?e)) :: real)" by (simp flip: powr_realpow)
    then show ?thesis
      by (intro round_to_scaled [of _ _ _ "n * 2 ^ nat (- ?e)"]) (simp add: a_def)
  next
    case e: False
    let ?k = "\<lfloor>log 2 \<bar>a\<bar>\<rfloor>"
    have "?e = ?k + 1 - p" using e assms(3) by (auto simp: ulp_exp_def max_def split: if_split_asm)
    then have "24 \<le> ?k" using e assms(2) by linarith
    then have "2 powr 24 \<le> (2 powr of_int ?k :: real)" by (intro powr_mono) simp_all
    with log_floor_bounds(1) [OF pos] a24
    have eq: "\<bar>a\<bar> = 2 powr 24" "2 powr of_int ?k = (2 powr 24 :: real)" by linarith+
    from eq(2) have "of_int ?k = (24 :: real)" using powr_inj [of 2 "of_int ?k" 24] by (simp del: powr_numeral)
    then have "?k = 24" by linarith
    then have e1: "?e = 1" using \<open>?e = ?k + 1 - p\<close> assms(2) e by simp
    have "\<bar>n\<bar> = 2 ^ 24"
    proof -
      have "of_int \<bar>n\<bar> = (of_int (2 ^ 24) :: real)" using eq(1) by (simp add: a_def)
      then show ?thesis by (simp only: of_int_eq_iff)
    qed
    then consider "n = 2 ^ 24" | "n = - (2 ^ 24)" by linarith
    then obtain k where "n = 2 * k" by cases (auto intro: that [of "2 ^ 23"] that [of "- (2 ^ 23)"])
    then show ?thesis using e1 by (intro round_to_scaled [of _ _ _ k]) (simp add: a_def powr_minus)
  qed
qed (simp add: round_to_def)

lemma ieee_mono: assumes "x \<le> y" "1 \<le> p" shows "fle (ieee p l h x) (ieee p l h y)"
proof -
  have "0 < (2 powr of_int h :: real)" by simp
  with round_to_mono [OF assms, of l] show ?thesis by (auto simp: ieee_def Let_def fle_def)
qed

lemma ieee_int:
  assumes "\<bar>n\<bar> \<le> 2 ^ 24" "24 \<le> p" "l \<le> 0" "25 \<le> h" shows "ieee p l h (of_int n) = Fin (of_int n)"
proof -
  have "\<bar>of_int n :: real\<bar> \<le> 2 ^ 24"
    using assms(1) by (metis of_int_abs of_int_le_iff of_int_numeral of_int_power)
  moreover have "(2 :: real) ^ 24 < 2 powr of_int 25" by (simp add: powr_numeral)
  moreover have "2 powr of_int 25 \<le> (2 powr of_int h :: real)" using assms(4) by (intro powr_mono) simp_all
  ultimately have "of_int n < (2 powr of_int h :: real)" "- (2 powr of_int h) < (of_int n :: real)" by linarith+
  then show ?thesis using round_to_int [OF assms(1-3)] by (simp add: ieee_def Let_def)
qed

interpretation f32: rounding f32
  unfolding f32_def by unfold_locales (simp_all add: ieee_mono ieee_int)

interpretation f64: rounding f64
  unfolding f64_def by unfold_locales (simp_all add: ieee_mono ieee_int)

interpretation exact: rounding Fin
  by unfold_locales simp_all

text \<open>What the formats have besides: they are symmetric, and a value that was rounded stays.\<close>

locale format_rounding = rounding +
  assumes rnd_minus: "rnd (- x) = fneg (rnd x)" and rnd_idem: "rnd x = Fin r \<Longrightarrow> rnd r = Fin r"
begin

lemma rnd_abs: assumes "\<bar>x\<bar> \<le> y" "rnd y = Fin z" shows "\<exists>r. rnd x = Fin r \<and> \<bar>r\<bar> \<le> z"
proof -
  have "x \<le> y" "- y \<le> x" using assms(1) by linarith+
  with rnd_mono [of x y] rnd_mono [of "- y" x] have "fle (rnd x) (Fin z)" "fle (Fin (- z)) (rnd x)"
    using assms(2) by (simp_all add: rnd_minus)
  with fle_between [of "- z" "rnd x" z] show ?thesis by (auto simp: abs_le_iff)
qed

lemma rnd_fix_le: assumes "rnd x = Fin x" "x \<le> y" "rnd y = Fin z" shows "x \<le> z"
  using rnd_mono [OF assms(2)] assms by simp

end

lemma scaled_int: "e \<le> k \<Longrightarrow> of_int n * 2 powr of_int k * 2 powr of_int (- e) = (of_int (n * 2 ^ nat (k - e)) :: real)"
  by (simp flip: powr_add powr_realpow)

lemma round_to_idem_pos:
  assumes "0 < x" "1 \<le> p" shows "round_to p l (round_to p l x) = round_to p l x"
proof (cases "round_to p l x = 0")
  case False
  define e where "e = ulp_exp p l x"
  define k where "k = \<lfloor>log 2 x\<rfloor>"
  define r where "r = round_to p l x"
  have r: "0 < r" using False round_to_nonneg [of x p l] assms(1) by (simp add: r_def)
  have rN: "r = of_int (rne (x * 2 powr of_int (- e))) * 2 powr of_int e" using assms(1) by (simp add: r_def round_to_def e_def)
  have e: "e = max l (k + 1 - p)" using assms(1) by (simp add: e_def ulp_exp_def k_def)
  have "round_to p l r = r"
  proof (cases "ulp_exp p l r \<le> e")
    case True
    have "r * 2 powr of_int (- u) = of_int (rne (x * 2 powr of_int (- e)) * 2 ^ nat (e - u))" if "u \<le> e" for u
      unfolding rN by (rule scaled_int [OF that])
    from round_to_scaled [OF this [OF True]] show ?thesis .
  next
    case gt: False
    then have ulp: "ulp_exp p l r = \<lfloor>log 2 r\<rfloor> + 1 - p" "e < \<lfloor>log 2 r\<rfloor> + 1 - p" using r e by (auto simp: ulp_exp_def)
    have "x \<le> 2 powr of_int (max (k + 1) e)"
    proof -
      have "2 powr of_int (k + 1) \<le> (2 powr of_int (max (k + 1) e) :: real)" by (intro powr_mono) auto
      with log_floor_bounds(2) [OF assms(1), folded k_def] show ?thesis by linarith
    qed
    then have up: "r \<le> 2 powr of_int (max (k + 1) e)" unfolding r_def by (intro round_to_upper assms(1)) (simp_all add: e_def)
    have "2 powr of_int \<lfloor>log 2 r\<rfloor> \<le> (2 powr of_int (max (k + 1) e) :: real)" using log_floor_bounds(1) [OF r] up by linarith
    then have "\<lfloor>log 2 r\<rfloor> \<le> max (k + 1) e" by simp
    with ulp(2) e assms(2) have K: "\<lfloor>log 2 r\<rfloor> = k + 1" "max (k + 1) e = k + 1" by linarith+
    with up log_floor_bounds(1) [OF r] have r2: "r = of_int 1 * 2 powr of_int (k + 1)" by simp
    have "r * 2 powr of_int (- u) = of_int (1 * 2 ^ nat (k + 1 - u))" if "u \<le> k + 1" for u
      unfolding r2 by (rule scaled_int [OF that])
    from round_to_scaled [OF this [of "ulp_exp p l r"]] show ?thesis using ulp(1) K assms(2) by simp
  qed
  then show ?thesis by (simp add: r_def)
qed (simp add: round_to_def)

lemma round_to_idem: assumes "1 \<le> p" shows "round_to p l (round_to p l x) = round_to p l x"
proof -
  consider "x = 0" | "0 < x" | "0 < - x" by linarith
  then show ?thesis
    by cases (use round_to_idem_pos [OF _ assms, of x] round_to_idem_pos [OF _ assms, of "- x"] in \<open>simp_all add: round_to_minus round_to_def [of p l 0]\<close>)
qed

lemma ieee_format: assumes "1 \<le> p" "rounding (ieee p l h)" shows "format_rounding (ieee p l h)"
proof -
  have pos: "\<not> (2 powr of_int h \<le> r \<and> 2 powr of_int h \<le> - r)" for r :: real
    using powr_gt_zero [of 2 "of_int h"] by linarith
  have "ieee p l h (- x) = fneg (ieee p l h x)" for x
    using pos by (auto simp: ieee_def Let_def round_to_minus)
  moreover have "ieee p l h r = Fin r" if "ieee p l h x = Fin r" for x r
    using that round_to_idem [OF assms(1)] by (auto simp: ieee_def Let_def split: if_splits)
  ultimately show ?thesis using assms(2) by (simp add: format_rounding_def format_rounding_axioms_def)
qed

interpretation f32_format: format_rounding f32
  unfolding f32_def by (rule ieee_format) (simp_all add: f32.rounding_axioms [unfolded f32_def])

interpretation f64_format: format_rounding f64
  unfolding f64_def by (rule ieee_format) (simp_all add: f64.rounding_axioms [unfolded f64_def])

interpretation exact_format: format_rounding Fin
  by unfold_locales simp_all

lemma fle_rnd: "rounding rnd \<Longrightarrow> 0 \<le> x \<Longrightarrow> fle (Fin 0) (rnd x)"
  using rounding.rnd_mono [of rnd 0 x] rounding.rnd_0 [of rnd] by simp

text \<open>A format that is close: up to a million the error is below one in four billion.\<close>

locale close_rounding = rounding +
  assumes rnd_close: "\<bar>x\<bar> \<le> 2 ^ 20 \<Longrightarrow> \<exists>r. rnd x = Fin r \<and> \<bar>r - x\<bar> \<le> 1 / 2 ^ 32"
begin

lemma rnd_range:
  assumes "0 \<le> x" "x \<le> 2 ^ 20"
  shows "\<exists>r. rnd x = Fin r \<and> 0 \<le> r \<and> r \<le> 2 ^ 20 \<and> r \<le> x + 1 / 2 ^ 32 \<and> x \<le> r + 1 / 2 ^ 32"
proof -
  obtain r where r: "rnd x = Fin r" "0 \<le> r" "r \<le> 2 ^ 20" using rnd_between [of 0 x "2 ^ 20"] assms by auto
  moreover obtain s where "rnd x = Fin s" "\<bar>s - x\<bar> \<le> 1 / 2 ^ 32" using rnd_close [of x] assms by auto
  ultimately have "\<bar>r - x\<bar> \<le> 1 / 2 ^ 32" by simp
  then have "r \<le> x + 1 / 2 ^ 32" "x \<le> r + 1 / 2 ^ 32" by linarith+
  with r show ?thesis by blast
qed

end

lemma rne_error: "\<bar>of_int (rne x) - x\<bar> \<le> 1 / 2"
  by (auto simp: rne_def Let_def abs_le_iff)

lemma round_to_error:
  assumes "\<bar>x\<bar> \<le> 2 powr of_int k" "l \<le> k + 1 - p"
  shows "\<bar>round_to p l x - x\<bar> \<le> 2 powr of_int (k + 1 - p) / 2"
proof (cases "x = 0")
  case False
  let ?e = "ulp_exp p l x" and ?y = "x * 2 powr of_int (- ulp_exp p l x)"
  have "2 powr log 2 \<bar>x\<bar> \<le> 2 powr of_int k" using assms(1) False by simp
  then have "log 2 \<bar>x\<bar> \<le> of_int k" by simp
  then have "\<lfloor>log 2 \<bar>x\<bar>\<rfloor> \<le> k" by (simp add: floor_le_iff le_less_trans)
  then have e: "?e \<le> k + 1 - p" using assms(2) by (simp add: ulp_exp_def)
  have "?y * 2 powr of_int ?e = x" by (simp only: mult.assoc powr_scale mult_1_right)
  then have "round_to p l x - x = (of_int (rne ?y) - ?y) * 2 powr of_int ?e"
    using False by (simp add: round_to_def left_diff_distrib)
  then have "\<bar>round_to p l x - x\<bar> = \<bar>of_int (rne ?y) - ?y\<bar> * 2 powr of_int ?e" by (simp add: abs_mult)
  also have "\<dots> \<le> 1 / 2 * 2 powr of_int ?e" using rne_error [of ?y] by (intro mult_right_mono) simp_all
  also have "\<dots> \<le> 1 / 2 * 2 powr of_int (k + 1 - p)" using e by simp
  finally show ?thesis by simp
qed (simp add: round_to_def)

interpretation f64_close: close_rounding f64
proof
  fix x :: real assume x: "\<bar>x\<bar> \<le> 2 ^ 20"
  then have p: "\<bar>x\<bar> \<le> 2 powr of_int 20" by (simp add: powr_numeral)
  have "2 powr of_int (20 + 1 - 53) = (1 / 2 ^ 32 :: real)" by (simp add: powr_minus_divide powr_numeral flip: powr_realpow)
  with round_to_error [OF p, of "-1074" 53] have d: "\<bar>round_to 53 (-1074) x - x\<bar> \<le> 1 / 2 ^ 32 / 2" by simp
  have "(2 :: real) powr of_int 21 \<le> 2 powr of_int 1024" by (intro powr_mono) simp_all
  then have "(2 :: real) ^ 21 \<le> 2 powr of_int 1024" by (simp add: powr_numeral)
  moreover have "\<bar>round_to 53 (-1074) x\<bar> < 2 ^ 21" using d x by (simp add: abs_if split: if_splits)
  ultimately have "\<bar>round_to 53 (-1074) x\<bar> < 2 powr of_int 1024" by linarith
  then have "f64 x = Fin (round_to 53 (-1074) x)" by (auto simp: f64_def ieee_def Let_def abs_less_iff)
  with d show "\<exists>r. f64 x = Fin r \<and> \<bar>r - x\<bar> \<le> 1 / 2 ^ 32" by simp
qed

interpretation exact_close: close_rounding Fin
  by unfold_locales simp

text \<open>Half the integers that the formats hold are held as well.\<close>

definition halves :: "(real \<Rightarrow> fval) \<Rightarrow> bool" where
  "halves rnd \<longleftrightarrow> (\<forall>n :: int. \<bar>n\<bar> \<le> 2 ^ 24 \<longrightarrow> rnd (of_int n / 2) = Fin (of_int n / 2))"

lemma round_to_half:
  assumes "\<bar>n\<bar> \<le> 2 ^ 24" "24 \<le> p" "l \<le> -1" shows "round_to p l (of_int n / 2) = of_int n / 2"
proof (cases "n = 0")
  case False
  define a where "a = (of_int n / 2 :: real)"
  let ?e = "ulp_exp p l a"
  have pos: "0 < \<bar>a\<bar>" using False by (simp add: a_def)
  have "\<bar>of_int n :: real\<bar> \<le> 2 ^ 24"
    using assms(1) by (metis of_int_abs of_int_le_iff of_int_numeral of_int_power)
  then have a23: "\<bar>a\<bar> \<le> 2 powr 23" by (simp add: a_def powr_numeral)
  show ?thesis
  proof (cases "?e \<le> -1")
    case True
    then have "2 powr of_int (- ?e) = (of_int (2 * 2 ^ nat (- ?e - 1)) :: real)"
      by (simp flip: powr_realpow add: powr_diff powr_minus)
    then show ?thesis
      by (intro round_to_scaled [of _ _ _ "n * 2 ^ nat (- ?e - 1)"]) (simp add: a_def)
  next
    case e: False
    let ?k = "\<lfloor>log 2 \<bar>a\<bar>\<rfloor>"
    have "?e = ?k + 1 - p" using e assms(3) by (auto simp: ulp_exp_def max_def split: if_split_asm)
    then have "23 \<le> ?k" using e assms(2) by linarith
    then have "2 powr 23 \<le> (2 powr of_int ?k :: real)" by (intro powr_mono) simp_all
    with log_floor_bounds(1) [OF pos] a23
    have eq: "\<bar>a\<bar> = 2 powr 23" "2 powr of_int ?k = (2 powr 23 :: real)" by linarith+
    from eq(2) have "of_int ?k = (23 :: real)" using powr_inj [of 2 "of_int ?k" 23] by (simp del: powr_numeral)
    then have "?k = 23" by linarith
    then have e0: "?e = 0" using \<open>?e = ?k + 1 - p\<close> assms(2) e by simp
    have "a = of_int (2 ^ 23) \<or> a = of_int (- (2 ^ 23))" using eq(1) by (simp add: powr_numeral abs_if split: if_splits)
    then obtain k where "a = of_int k" by blast
    then show ?thesis unfolding a_def [symmetric] using e0 by (intro round_to_scaled [of _ _ _ k]) simp
  qed
qed (simp add: round_to_def)

lemma ieee_half:
  assumes "24 \<le> p" "l \<le> -1" "25 \<le> h" shows "halves (ieee p l h)"
  unfolding halves_def
proof (intro allI impI)
  fix n :: int assume n: "\<bar>n\<bar> \<le> 2 ^ 24"
  then have "\<bar>of_int n :: real\<bar> \<le> 2 ^ 24" by (metis of_int_abs of_int_le_iff of_int_numeral of_int_power)
  then have "\<bar>of_int n / 2 :: real\<bar> \<le> 2 ^ 23" by simp
  moreover have "(2 :: real) ^ 23 < 2 powr of_int 25" by (simp add: powr_numeral)
  moreover have "2 powr of_int 25 \<le> (2 powr of_int h :: real)" using assms(3) by (intro powr_mono) simp_all
  ultimately have "of_int n / 2 < (2 powr of_int h :: real)" "- (2 powr of_int h) < (of_int n / 2 :: real)" by linarith+
  then show "ieee p l h (of_int n / 2) = Fin (of_int n / 2)" using round_to_half [OF n assms(1,2)] by (simp add: ieee_def Let_def)
qed

lemma halves_formats: "halves f32" "halves f64" "halves Fin"
  by (auto simp: f32_def f64_def intro!: ieee_half) (simp add: halves_def)

end
