(* ===== verification/Tables.thy ===== *)
theory Tables
  imports Dates Floats
begin

text \<open>
  The column files (\<open>cpp/src/misc/parquet.cpp\<close>): a table is the list of its rows, a row gives the
  cell of each column by its name. The readers of a cell (\<open>Col::yyyymmdd\<close>, \<open>f32\<close>, \<open>i32\<close>, \<open>str\<close>)
  convert between the stored types; on a type they do not know they return the default, as the
  production build does (there the assertion on the type is compiled out). The file format itself
  is read and written by Apache Arrow. Narrowing to \<open>float\<close> rounds by the parameter \<open>rnd\<close>.
\<close>

datatype cell = NullCell | TimestampCell int | TextCell string | IntCell int | BoolCell bool
  | FloatCell fval | DoubleCell fval

type_synonym row = "string \<Rightarrow> cell"

definition ns_per_sec :: int where "ns_per_sec = 1000000000"
definition ns_per_day :: int where "ns_per_day = 86400 * ns_per_sec"

definition utc_day :: "int \<Rightarrow> sys_days" where
  "utc_day t = t div ns_per_day"

section \<open>Cells\<close>

definition ns_to_yyyymmdd :: "int \<Rightarrow> int" where
  "ns_to_yyyymmdd ns = (case ymd_of_day (utc_day ns) of (y, m, d) \<Rightarrow> y * 10000 + m * 100 + d)"

definition sv_to_yyyymmdd :: "string \<Rightarrow> int" where
  "sv_to_yyyymmdd s =
     (if length s \<noteq> 8 then 0 else if list_all is_digit s then int (digits_value s) else 0)"

definition cell_yyyymmdd :: "cell \<Rightarrow> int" where
  "cell_yyyymmdd c = (case c of NullCell \<Rightarrow> 0 | TimestampCell ns \<Rightarrow> ns_to_yyyymmdd ns
     | TextCell s \<Rightarrow> sv_to_yyyymmdd s | _ \<Rightarrow> 0)"

text \<open>\<open>static_cast\<close> from a 64-bit integer wraps, from a \<open>double\<close> truncates.\<close>

definition wrap32 :: "int \<Rightarrow> int" where
  "wrap32 n = (n + 2147483648) mod 4294967296 - 2147483648"

definition trunc_real :: "real \<Rightarrow> int" where
  "trunc_real r = (if r < 0 then \<lceil>r\<rceil> else \<lfloor>r\<rfloor>)"

definition cell_i32 :: "cell \<Rightarrow> int \<Rightarrow> int" where
  "cell_i32 c dflt = (case c of NullCell \<Rightarrow> dflt | IntCell n \<Rightarrow> wrap32 n | BoolCell b \<Rightarrow> (if b then 1 else 0)
     | DoubleCell x \<Rightarrow> (case x of Fin r \<Rightarrow> trunc_real r | _ \<Rightarrow> dflt) | _ \<Rightarrow> dflt)"

definition cell_f32 :: "(real \<Rightarrow> fval) \<Rightarrow> cell \<Rightarrow> fval" where
  "cell_f32 rnd c = (case c of NullCell \<Rightarrow> NaN
     | DoubleCell x \<Rightarrow> (case x of Fin r \<Rightarrow> rnd r | _ \<Rightarrow> x)
     | FloatCell x \<Rightarrow> x | IntCell n \<Rightarrow> rnd (of_int n) | _ \<Rightarrow> NaN)"

definition cell_str :: "cell \<Rightarrow> string" where
  "cell_str c = (case c of TextCell s \<Rightarrow> s | _ \<Rightarrow> [])"

section \<open>Paths, relative to the directory \<open>data\<close> of the repository\<close>

definition month_path :: "string \<Rightarrow> string \<Rightarrow> (date_error, string) outcome" where
  "month_path ym name =
     (if length ym = 7 \<and> ym ! 4 = CHR ''-'' then Ok (ym @ ''/'' @ name @ ''.parquet'')
      else Fail AssertFailed)"

definition meta_path :: "string \<Rightarrow> string" where
  "meta_path name = ''_meta/'' @ name @ ''.parquet''"

text \<open>The month files of a table: \<open>dirs\<close> are the directories found, \<open>exists\<close> tells which files are there.\<close>

definition list_month_files :: "(string \<Rightarrow> bool) \<Rightarrow> string list \<Rightarrow> string \<Rightarrow> (string \<times> string) list" where
  "list_month_files exists dirs name =
     map (\<lambda>ym. (ym, ym @ ''/'' @ name @ ''.parquet''))
       (sort (filter (\<lambda>ym. length ym = 7 \<and> ym ! 4 = CHR ''-'' \<and> exists (ym @ ''/'' @ name @ ''.parquet'')) dirs))"

section \<open>Dates as eight digits\<close>

text \<open>\<open>ymd_str\<close> of axis.cpp and pit.cpp: the text of a date number, empty when it is missing.\<close>

definition ymd_str :: "int \<Rightarrow> string" where
  "ymd_str v = (if v \<le> 0 then [] else take 8 (pad_int 8 v))"

definition ymd_int :: "sys_days \<Rightarrow> int" where
  "ymd_int z = (case ymd_of_day z of (y, m, d) \<Rightarrow> y * 10000 + m * 100 + d)"

lemma digits_value_append: "digits_value (s @ t) = digits_value s * 10 ^ length t + digits_value t"
  by (induction t rule: rev_induct) (simp_all add: digits_value_snoc digits_value_def [of "[]"] algebra_simps
      flip: append_assoc)

lemma digits_value_fmt:
  assumes "four_digit_year z"
  shows "int (digits_value (fmt_yyyymmdd z)) = ymd_int z"
proof -
  obtain y m d where c: "ymd_of_day z = (y, m, d)" "valid_ymd y m d" "day_number y m d = z"
    "y = year_of_day z" "1 \<le> m" "m \<le> 12" "1 \<le> d" "d \<le> 31" by (rule ymd_cases)
  with assms have "0 \<le> y" "y \<le> 9999" by (simp_all add: four_digit_year_def)
  then show ?thesis
    using c by (simp add: fmt_date_text [OF assms c(1)] date_text_def digits_value_append digits_value_fixed
        nat_less_iff ymd_int_def)
qed

lemma fmt_digits: "four_digit_year z \<Longrightarrow> list_all is_digit (fmt_yyyymmdd z)"
  using fmt_is_date [of z] by (simp add: is_date_def list_all_iff)

lemma pad_ymd_int:
  assumes "four_digit_year z" shows "pad_int 8 (ymd_int z) = fmt_yyyymmdd z" "0 < ymd_int z"
proof -
  have "\<forall>c\<in>set (fmt_yyyymmdd z). is_digit c" using fmt_digits [OF assms] by (simp add: list_all_iff)
  from fixed_digits_value [OF this] assms
  have "fixed_digits 8 (digits_value (fmt_yyyymmdd z)) = fmt_yyyymmdd z"
    "digits_value (fmt_yyyymmdd z) < 10 ^ 8" by simp_all
  then show "pad_int 8 (ymd_int z) = fmt_yyyymmdd z"
    by (simp add: pad_int_fixed flip: digits_value_fmt [OF assms])
  show "0 < ymd_int z"
    using assms by (cases z rule: ymd_cases) (simp add: ymd_int_def four_digit_year_def)
qed

lemma ymd_int_less:
  assumes "four_digit_year z" "four_digit_year z'" shows "ymd_int z < ymd_int z' \<longleftrightarrow> z < z'"
proof -
  have step: "ymd_int z < ymd_int z'" if "z < z'" "four_digit_year z" "four_digit_year z'" for z z'
  proof -
    obtain y m d where c: "ymd_of_day z = (y, m, d)" "valid_ymd y m d" "day_number y m d = z"
      "y = year_of_day z" "1 \<le> m" "m \<le> 12" "1 \<le> d" "d \<le> 31" by (rule ymd_cases)
    obtain y' m' d' where c': "ymd_of_day z' = (y', m', d')" "valid_ymd y' m' d'" "day_number y' m' d' = z'"
      "y' = year_of_day z'" "1 \<le> m'" "m' \<le> 12" "1 \<le> d'" "d' \<le> 31" by (rule ymd_cases)
    from that(1) have "y < y' \<or> y = y' \<and> (m < m' \<or> m = m' \<and> d < d')"
      using day_number_less [OF c(2) c'(2)] c(3) c'(3) by simp
    with c(5-8) c'(5-8) show ?thesis by (auto simp: ymd_int_def c(1) c'(1))
  qed
  show ?thesis using step [of z z'] step [of z' z] assms by (cases z z' rule: linorder_cases) auto
qed

lemma ymd_str_fmt: "four_digit_year z \<Longrightarrow> ymd_str (ymd_int z) = fmt_yyyymmdd z"
  using pad_ymd_int [of z] by (simp add: ymd_str_def)

lemma ymd_str_text: "is_date s \<Longrightarrow> ymd_str (cell_yyyymmdd (TextCell s)) = s"
proof -
  assume "is_date s"
  then obtain z where z: "four_digit_year z" "fmt_yyyymmdd z = s" by (rule is_date_parse)
  then have "cell_yyyymmdd (TextCell s) = ymd_int z"
    using digits_value_fmt [OF z(1)] fmt_digits [OF z(1)] length_fmt [OF z(1)]
    by (simp add: cell_yyyymmdd_def sv_to_yyyymmdd_def)
  with ymd_str_fmt [OF z(1)] z(2) show ?thesis by simp
qed

end
