(* ===== verification/Schedule.thy ===== *)
theory Schedule
  imports Tables
begin

text \<open>
  The month scheduler (\<open>cpp/src/misc/schedule.cpp\<close>, with the month loops of
  \<open>cpp/src/api/tushare/pipeline.cpp\<close>): which months of a table have to be fetched, and from
  which day on, given the parquet files on disk and the clock.

  The disk is a map from paths to files; of a file the code reads its modification time and the
  cells of the visible-date column of its rows. Times are nanoseconds since the epoch, the local time zone is
  an offset. What a remote interface returns for a window of days is a parameter of the update.
\<close>

record data_file =
  mtime :: int
  rows :: "row list"

record world =
  now_ns :: int
  tz_ns :: int
  files :: "string \<Rightarrow> data_file option"

record fetch_month =
  fm_ym :: string
  fm_start :: string
  fm_end :: string
  fm_inc_from :: string

record plan_args =
  pa_name :: string
  pa_vd_col :: string
  pa_avail_hour :: int
  pa_start :: string
  pa_today :: string
  pa_lookback :: int
  pa_dedup :: int

text \<open>\<open>duration_cast\<close> truncates towards zero.\<close>

definition trunc_div :: "int \<Rightarrow> int \<Rightarrow> int" where
  "trunc_div a b = (if a < 0 then - ((- a) div b) else a div b)"

section \<open>The helpers of schedule.cpp\<close>

definition ym_of :: "string \<Rightarrow> (date_error, string) outcome" where
  "ym_of s = (if length s \<noteq> 8 then Fail AssertFailed else Ok (substr s 0 4 @ ''-'' @ substr s 4 2))"

text \<open>The buffer of \<open>snprintf\<close> holds seven characters.\<close>

definition next_ym :: "string \<Rightarrow> (date_error, string) outcome" where
  "next_ym ym =
     (case (stoi (substr ym 0 4), stoi (substr ym 5 2)) of
        (Some y, Some m) \<Rightarrow>
          (let (y', m') = (if m + 1 = 13 then (y + 1, 1) else (y, m + 1))
           in Ok (take 7 (pad_int 4 y' @ ''-'' @ pad_int 2 m')))
      | _ \<Rightarrow> Fail InvalidArgument)"

definition file_age_seconds :: "world \<Rightarrow> string \<Rightarrow> int" where
  "file_age_seconds w p =
     (case files w p of None \<Rightarrow> -1 | Some f \<Rightarrow> trunc_div (now_ns w - mtime f) ns_per_sec)"

definition file_write_date :: "world \<Rightarrow> string \<Rightarrow> string" where
  "file_write_date w p =
     (case files w p of None \<Rightarrow> [] | Some f \<Rightarrow> fmt_yyyymmdd (utc_day (mtime f)))"

definition now_hour_local :: "world \<Rightarrow> int" where
  "now_hour_local w = ((now_ns w + tz_ns w) div (3600 * ns_per_sec)) mod 24"

definition today_yyyymmdd :: "world \<Rightarrow> string" where
  "today_yyyymmdd w = fmt_yyyymmdd (utc_day (now_ns w + tz_ns w))"

definition data_horizon :: "world \<Rightarrow> int \<Rightarrow> string \<Rightarrow> (date_error, string) outcome" where
  "data_horizon w avail today =
     (if 0 \<le> avail \<and> avail \<le> 24
      then if now_hour_local w \<ge> avail then Ok today else add_days today (-1)
      else Fail AssertFailed)"

text \<open>Reading a file that is not there throws.\<close>

definition file_max_vd :: "world \<Rightarrow> string \<Rightarrow> string \<Rightarrow> (date_error, string) outcome" where
  "file_max_vd w p col =
     (case files w p of None \<Rightarrow> Fail InvalidArgument
      | Some f \<Rightarrow>
          (let mx = foldl (\<lambda>m r. max m (cell_yyyymmdd (r col))) 0 (rows f)
           in Ok (if mx = 0 then [] else pad_int 8 mx)))"

section \<open>The plan\<close>

text \<open>One round of the loop of \<open>plan_months\<close>.\<close>

definition plan_month ::
  "world \<Rightarrow> plan_args \<Rightarrow> string \<Rightarrow> string \<Rightarrow> string \<Rightarrow> (date_error, fetch_month option) outcome" where
  "plan_month w a frozen_before horizon ym =
     (let yyyymm = substr ym 0 4 @ substr ym 5 2; m_first = yyyymm @ ''01'' in
      bind_ok (month_last_dd yyyymm) (\<lambda>dd.
      let m_last = yyyymm @ dd in
      bind_ok (month_path ym (pa_name a)) (\<lambda>p.
      if m_last < frozen_before then
        (let wd = file_write_date w p;
             whole = \<lparr>fm_ym = ym, fm_start = max m_first (pa_start a), fm_end = m_last, fm_inc_from = []\<rparr>
         in if wd = [] then Ok (Some whole)
            else bind_ok (add_days m_last (pa_lookback a)) (\<lambda>due.
                   Ok (if wd < due then Some whole else None)))
      else
        (let age = file_age_seconds w p;
             w_start = max m_first (pa_start a);
             w_end = min m_last horizon
         in if (age < 0 \<or> age \<ge> pa_dedup a) \<and> w_start \<le> w_end then
              if age < 0 then Ok (Some \<lparr>fm_ym = ym, fm_start = w_start, fm_end = w_end, fm_inc_from = []\<rparr>)
              else bind_ok (file_max_vd w p (pa_vd_col a)) (\<lambda>wm.
                     if wm = [] then Ok (Some \<lparr>fm_ym = ym, fm_start = w_start, fm_end = w_end, fm_inc_from = []\<rparr>)
                     else bind_ok (add_days wm 1) (\<lambda>inc.
                       Ok (if inc \<le> w_end
                           then Some \<lparr>fm_ym = ym, fm_start = w_start, fm_end = w_end, fm_inc_from = inc\<rparr>
                           else None)))
            else Ok None))))"

text \<open>The loop has no bound of its own: it ends at \<open>end_ym\<close>, so not ending is the value \<open>None\<close>.\<close>

partial_function (option) plan_loop ::
  "(string \<Rightarrow> (date_error, fetch_month option) outcome) \<Rightarrow> string \<Rightarrow> string \<Rightarrow> fetch_month list \<Rightarrow>
   (date_error, fetch_month list) outcome option" where
  "plan_loop body end_ym ym acc =
     (case body ym of
        Fail e \<Rightarrow> Some (Fail e)
      | Ok m \<Rightarrow>
          (let acc' = (case m of None \<Rightarrow> acc | Some f \<Rightarrow> acc @ [f])
           in if ym = end_ym then Some (Ok acc')
              else (case next_ym ym of Fail e \<Rightarrow> Some (Fail e) | Ok ym' \<Rightarrow> plan_loop body end_ym ym' acc')))"

definition plan_months :: "world \<Rightarrow> plan_args \<Rightarrow> (date_error, fetch_month list) outcome option" where
  "plan_months w a =
     (if length (pa_start a) \<noteq> 8 \<or> length (pa_today a) \<noteq> 8 \<or> \<not> pa_start a \<le> pa_today a \<or> pa_vd_col a = []
      then Some (Fail AssertFailed)
      else case bind_ok (add_days (pa_today a) (- pa_lookback a)) (\<lambda>fb.
             bind_ok (data_horizon w (pa_avail_hour a) (pa_today a)) (\<lambda>h.
             bind_ok (ym_of (pa_today a)) (\<lambda>e. bind_ok (ym_of (pa_start a)) (\<lambda>s. Ok (fb, h, e, s))))) of
             Fail e \<Rightarrow> Some (Fail e)
           | Ok (fb, h, e, s) \<Rightarrow> plan_loop (plan_month w a fb h) e s [])"

definition meta_fresh ::
  "world \<Rightarrow> string \<Rightarrow> string \<Rightarrow> int \<Rightarrow> string \<Rightarrow> int \<Rightarrow> (date_error, bool) outcome" where
  "meta_fresh w p vd_col avail today dedup =
     (let age = file_age_seconds w p in
      if age < 0 then Ok False
      else if age < dedup then Ok True
      else if vd_col = [] then Ok (file_write_date w p = today)
      else bind_ok (file_max_vd w p vd_col) (\<lambda>wm.
             bind_ok (data_horizon w avail today) (\<lambda>h. Ok (h \<le> wm))))"

section \<open>Writing tables (misc/parquet.cpp)\<close>

definition write_table_atomic :: "world \<Rightarrow> string \<Rightarrow> row list \<Rightarrow> world" where
  "write_table_atomic w p t = w\<lparr>files := (files w)(p \<mapsto> \<lparr>mtime = now_ns w, rows = t\<rparr>)\<rparr>"

definition append_table_atomic :: "world \<Rightarrow> string \<Rightarrow> row list \<Rightarrow> world" where
  "append_table_atomic w p t =
     (case files w p of
        None \<Rightarrow> write_table_atomic w p t
      | Some f \<Rightarrow> if t = [] then w\<lparr>files := (files w)(p \<mapsto> f\<lparr>mtime := now_ns w\<rparr>)\<rparr>
                  else write_table_atomic w p (rows f @ t))"

section \<open>Fetching the months of a plan (api/tushare/pipeline.cpp)\<close>

text \<open>
  \<open>fetch table s e\<close> stands for the remote interface: the rows it returns for the days \<open>s\<close> to \<open>e\<close>.
  A whole month replaces the file, an increment is appended to it.
\<close>

type_synonym fetcher = "string \<Rightarrow> string \<Rightarrow> string \<Rightarrow> row list"

definition fetch_from :: "fetch_month \<Rightarrow> string" where
  "fetch_from m = (if fm_inc_from m = [] then fm_start m else fm_inc_from m)"

definition store_month :: "fetcher \<Rightarrow> plan_args \<Rightarrow> world \<Rightarrow> fetch_month \<Rightarrow> (date_error, world) outcome" where
  "store_month fetch a w m =
     (let t = fetch (pa_name a) (fetch_from m) (fm_end m) in
      bind_ok (month_path (fm_ym m) (pa_name a)) (\<lambda>p.
        Ok (if fm_inc_from m = [] then write_table_atomic w p t else append_table_atomic w p t)))"

fun store_months :: "fetcher \<Rightarrow> plan_args \<Rightarrow> world \<Rightarrow> fetch_month list \<Rightarrow> (date_error, world) outcome" where
  "store_months fetch a w [] = Ok w"
| "store_months fetch a w (m # ms) = bind_ok (store_month fetch a w m) (\<lambda>w'. store_months fetch a w' ms)"

text \<open>One table of \<open>update\<close>, and of \<open>pending\<close>.\<close>

definition update_table :: "fetcher \<Rightarrow> plan_args \<Rightarrow> world \<Rightarrow> (date_error, world) outcome option" where
  "update_table fetch a w =
     (case plan_months w a of None \<Rightarrow> None
      | Some (Fail e) \<Rightarrow> Some (Fail e)
      | Some (Ok ms) \<Rightarrow> Some (store_months fetch a w ms))"

fun update_tables :: "fetcher \<Rightarrow> plan_args list \<Rightarrow> world \<Rightarrow> (date_error, world) outcome option" where
  "update_tables fetch [] w = Some (Ok w)"
| "update_tables fetch (a # as) w =
     (case update_table fetch a w of None \<Rightarrow> None
      | Some (Fail e) \<Rightarrow> Some (Fail e)
      | Some (Ok w') \<Rightarrow> update_tables fetch as w')"

fun pending :: "plan_args list \<Rightarrow> world \<Rightarrow> (date_error, bool) outcome option" where
  "pending [] w = Some (Ok False)"
| "pending (a # as) w =
     (case plan_months w a of None \<Rightarrow> None
      | Some (Fail e) \<Rightarrow> Some (Fail e)
      | Some (Ok ms) \<Rightarrow> if ms \<noteq> [] then Some (Ok True) else pending as w)"

section \<open>Months\<close>

text \<open>Months are numbered through: \<open>k = 12 * y + (m - 1)\<close>.\<close>

definition ym_text :: "nat \<Rightarrow> string" where
  "ym_text k = fixed_digits 4 (k div 12) @ ''-'' @ fixed_digits 2 (k mod 12 + 1)"

definition first_day :: "nat \<Rightarrow> sys_days" where
  "first_day k = day_number (int (k div 12)) (int (k mod 12) + 1) 1"

definition last_day :: "nat \<Rightarrow> sys_days" where
  "last_day k = day_number (int (k div 12)) (int (k mod 12) + 1) (month_length (int (k div 12)) (int (k mod 12) + 1))"

definition month_of :: "sys_days \<Rightarrow> nat" where
  "month_of z = (case ymd_of_day z of (y, m, d) \<Rightarrow> nat (12 * y + (m - 1)))"

abbreviation month_limit :: nat where "month_limit \<equiv> 120000"

lemma month_parts: "k mod 12 + 1 \<le> (12::nat)" "k < month_limit \<Longrightarrow> k div 12 \<le> 9999"
  by (simp_all add: less_mult_imp_div_less less_Suc_eq_le [symmetric])

lemma valid_first_last:
  "valid_ymd (int (k div 12)) (int (k mod 12) + 1) 1"
  "valid_ymd (int (k div 12)) (int (k mod 12) + 1) (month_length (int (k div 12)) (int (k mod 12) + 1))"
  using month_length_bounds [of "int (k mod 12) + 1" "int (k div 12)"] month_parts(1) [of k]
  by (simp_all add: valid_ymd_def)

lemma ym_text_digits:
  "substr (ym_text k) 0 4 = fixed_digits 4 (k div 12)" "substr (ym_text k) 5 2 = fixed_digits 2 (k mod 12 + 1)"
  "substr (ym_text k) 0 4 @ substr (ym_text k) 5 2 = ym_digits (k div 12) (k mod 12 + 1)"
  "length (ym_text k) = 7" "ym_text k ! 4 = CHR ''-''"
  by (simp_all add: ym_text_def substr_def ym_digits_def nth_append)

lemma next_ym_text:
  assumes "Suc k < month_limit" shows "next_ym (ym_text k) = Ok (ym_text (Suc k))"
proof -
  let ?y = "k div 12" and ?m = "k mod 12 + 1"
  have y: "?y \<le> 9999" and m: "?m \<le> 12" using assms month_parts [of k] by simp_all
  show ?thesis
  proof (cases "?m = 12")
    case True
    then have s: "Suc k div 12 = Suc ?y" "Suc k mod 12 = 0" by (simp_all add: div_Suc mod_Suc)
    moreover have "Suc ?y \<le> 9999" using assms month_parts(2) [of "Suc k"] s by simp
    ultimately show ?thesis using y True
      by (simp add: next_ym_def ym_text_digits stoi_fixed_digits pad_int_fixed) (simp add: ym_text_def nat_add_distrib)
  next
    case False
    then have s: "Suc k div 12 = ?y" "Suc k mod 12 = Suc (k mod 12)" by (simp_all add: div_Suc mod_Suc)
    with y m False show ?thesis
      by (simp add: next_ym_def ym_text_digits stoi_fixed_digits pad_int_fixed) (simp add: ym_text_def nat_add_distrib)
  qed
qed

lemma last_day_Suc: "last_day k + 1 = first_day (Suc k)"
proof (cases "k mod 12 + 1 = 12")
  case True
  then have "Suc k div 12 = Suc (k div 12)" "Suc k mod 12 = 0" "int (k mod 12) + 1 = 12"
    by (simp_all add: div_Suc mod_Suc)
  then show ?thesis
    using days_before_month_13 [of "leap (int (k div 12))"] days_before_year_Suc [of "int (k div 12)"]
    by (simp add: last_day_def first_day_def day_number_def month_length_def days_before_month_def
        add.commute)
next
  case False
  then have "Suc k div 12 = k div 12" "Suc k mod 12 = Suc (k mod 12)" by (simp_all add: div_Suc mod_Suc)
  then show ?thesis by (simp add: last_day_def first_day_def day_number_def month_length_def algebra_simps)
qed

lemma first_le_last: "first_day k \<le> last_day k"
  using month_length_bounds [of "int (k mod 12) + 1" "int (k div 12)"] month_parts(1) [of k]
  by (simp add: first_day_def last_day_def day_number_def)

lemma first_day_strict_mono: "k < k' \<Longrightarrow> last_day k < first_day k'"
proof (induction k')
  case (Suc k')
  show ?case
  proof (cases "k = k'")
    case False
    with Suc have "last_day k < first_day k'" by simp
    with first_le_last [of k'] last_day_Suc [of k'] show ?thesis by linarith
  qed (use last_day_Suc [of k'] in simp)
qed simp

lemma month_days_four_digits:
  "k < month_limit \<Longrightarrow> four_digit_year (first_day k)" "k < month_limit \<Longrightarrow> four_digit_year (last_day k)"
  unfolding first_day_def last_day_def
  using month_parts(2) [of k] valid_first_last [of k] by (simp_all add: four_digit_year_number)

lemma fmt_first_last:
  assumes "k < month_limit"
  shows "fmt_yyyymmdd (first_day k) = ym_digits (k div 12) (k mod 12 + 1) @ ''01''"
    "fmt_yyyymmdd (last_day k) = ym_digits (k div 12) (k mod 12 + 1) @
       fixed_digits 2 (nat (month_length (int (k div 12)) (int (k mod 12 + 1))))"
proof -
  have "fixed_digits 2 (Suc 0) = ''01''" by code_simp
  then show "fmt_yyyymmdd (first_day k) = ym_digits (k div 12) (k mod 12 + 1) @ ''01''"
    using month_parts(2) [OF assms] valid_first_last(1) [of k]
    by (simp add: first_day_def date_text_fmt) (simp add: date_text_def ym_digits_def nat_add_distrib)
  show "fmt_yyyymmdd (last_day k) = ym_digits (k div 12) (k mod 12 + 1) @
       fixed_digits 2 (nat (month_length (int (k div 12)) (int (k mod 12 + 1))))"
    using month_parts(2) [OF assms] valid_first_last(2) [of k]
    by (simp add: last_day_def date_text_fmt) (simp add: date_text_def ym_digits_def nat_add_distrib add.commute)
qed

lemma month_of_bounds:
  assumes "four_digit_year z"
  shows "month_of z < month_limit" "first_day (month_of z) \<le> z" "z \<le> last_day (month_of z)"
    "month_of z div 12 = nat (year_of_day z)" "ym_of (fmt_yyyymmdd z) = Ok (ym_text (month_of z))"
proof -
  obtain y m d where c: "ymd_of_day z = (y, m, d)" "valid_ymd y m d" "day_number y m d = z"
    "y = year_of_day z" "1 \<le> m" "m \<le> 12" "1 \<le> d" "d \<le> 31" by (rule ymd_cases)
  have y: "0 \<le> y" "y \<le> 9999" using assms c(4) by (simp_all add: four_digit_year_def)
  have k: "month_of z = 12 * nat y + nat (m - 1)"
    using c y by (simp add: month_of_def nat_add_distrib nat_mult_distrib)
  have m: "nat (m - 1) < 12" using c(5,6) by simp
  then have dm: "month_of z div 12 = nat y" "month_of z mod 12 = nat (m - 1)" unfolding k by simp_all
  show "month_of z < month_limit" using y m unfolding k by simp
  show "first_day (month_of z) \<le> z" "z \<le> last_day (month_of z)"
    using c y by (simp_all add: first_day_def last_day_def dm valid_ymd_def) (simp_all add: day_number_def)
  show "month_of z div 12 = nat (year_of_day z)" using dm c(4) by simp
  have "ym_of (date_text y m d) = Ok (ym_text (month_of z))"
    using c(5) by (simp add: ym_of_def date_text_def substr_def ym_text_def dm Suc_nat_eq_nat_zadd1)
  then show "ym_of (fmt_yyyymmdd z) = Ok (ym_text (month_of z))"
    using fmt_date_text [OF assms c(1)] by simp
qed

lemma month_of_mono: "four_digit_year z \<Longrightarrow> four_digit_year z' \<Longrightarrow> z \<le> z' \<Longrightarrow> month_of z \<le> month_of z'"
  using month_of_bounds(3) [of z'] month_of_bounds(2) [of z] first_day_strict_mono [of "month_of z'" "month_of z"]
  by linarith

section \<open>The plan over day numbers\<close>

text \<open>The largest visible date of a file, as a day.\<close>

definition cell_day :: "cell \<Rightarrow> sys_days option" where
  "cell_day c = (case c of TimestampCell ns \<Rightarrow> Some (utc_day ns)
     | TextCell s \<Rightarrow> (if is_date s then (case parse_yyyymmdd s of Ok d \<Rightarrow> Some d | Fail _ \<Rightarrow> None) else None)
     | _ \<Rightarrow> None)"

definition later :: "sys_days option \<Rightarrow> sys_days option \<Rightarrow> sys_days option" where
  "later a b = (case a of None \<Rightarrow> b | Some x \<Rightarrow> (case b of None \<Rightarrow> a | Some y \<Rightarrow> Some (max x y)))"

definition watermark :: "data_file \<Rightarrow> string \<Rightarrow> sys_days option" where
  "watermark f col = foldl (\<lambda>m r. later m (cell_day (r col))) None (rows f)"

definition month_file :: "world \<Rightarrow> plan_args \<Rightarrow> nat \<Rightarrow> data_file option" where
  "month_file w a k = files w (ym_text k @ ''/'' @ pa_name a @ ''.parquet'')"

text \<open>The window of one month, with the day its increment starts on.\<close>

definition plan_days ::
  "world \<Rightarrow> plan_args \<Rightarrow> sys_days \<Rightarrow> sys_days \<Rightarrow> sys_days \<Rightarrow> nat \<Rightarrow>
   (sys_days \<times> sys_days \<times> sys_days option) option" where
  "plan_days w a start today horizon k =
     (let s = max (first_day k) start; l = last_day k; e = min l horizon in
      if l < today - pa_lookback a then
        (case month_file w a k of
           None \<Rightarrow> Some (s, l, None)
         | Some f \<Rightarrow> if utc_day (mtime f) < l + pa_lookback a then Some (s, l, None) else None)
      else if e < s then None
      else
        (case month_file w a k of
           None \<Rightarrow> Some (s, e, None)
         | Some f \<Rightarrow>
             (let age = trunc_div (now_ns w - mtime f) ns_per_sec in
              if age < 0 then Some (s, e, None)
              else if age < pa_dedup a then None
              else (case watermark f (pa_vd_col a) of
                      None \<Rightarrow> Some (s, e, None)
                    | Some v \<Rightarrow> if v + 1 \<le> e then Some (s, e, Some (v + 1)) else None))))"

definition fetch_text :: "nat \<Rightarrow> sys_days \<times> sys_days \<times> sys_days option \<Rightarrow> fetch_month" where
  "fetch_text k f = (case f of (s, e, i) \<Rightarrow>
     \<lparr>fm_ym = ym_text k, fm_start = fmt_yyyymmdd s, fm_end = fmt_yyyymmdd e,
      fm_inc_from = (case i of None \<Rightarrow> [] | Some d \<Rightarrow> fmt_yyyymmdd d)\<rparr>)"

definition horizon_day :: "world \<Rightarrow> plan_args \<Rightarrow> sys_days \<Rightarrow> sys_days" where
  "horizon_day w a today = (if now_hour_local w \<ge> pa_avail_hour a then today else today - 1)"

text \<open>A year away from both ends of the four-digit range, and files with such dates.\<close>

definition plain_year :: "sys_days \<Rightarrow> bool" where
  "plain_year z \<longleftrightarrow> 2 \<le> year_of_day z \<and> year_of_day z \<le> 9997"

definition cell_ok :: "cell \<Rightarrow> bool" where
  "cell_ok c = (case c of TimestampCell ns \<Rightarrow> plain_year (utc_day ns)
     | TextCell s \<Rightarrow> sv_to_yyyymmdd s = 0 \<or>
         (is_date s \<and> (case parse_yyyymmdd s of Ok d \<Rightarrow> plain_year d | Fail _ \<Rightarrow> False))
     | _ \<Rightarrow> True)"

definition file_ok :: "string \<Rightarrow> data_file \<Rightarrow> bool" where
  "file_ok col f \<longleftrightarrow> plain_year (utc_day (mtime f)) \<and> list_all (\<lambda>r. cell_ok (r col)) (rows f)"

definition files_ok :: "world \<Rightarrow> string \<Rightarrow> bool" where
  "files_ok w col \<longleftrightarrow> (\<forall>p f. files w p = Some f \<longrightarrow> file_ok col f)"

definition args_ok :: "plan_args \<Rightarrow> sys_days \<Rightarrow> sys_days \<Rightarrow> bool" where
  "args_ok a start today \<longleftrightarrow> pa_start a = fmt_yyyymmdd start \<and> pa_today a = fmt_yyyymmdd today \<and>
     start \<le> today \<and> plain_year start \<and> plain_year today \<and> pa_vd_col a \<noteq> [] \<and>
     0 \<le> pa_avail_hour a \<and> pa_avail_hour a \<le> 24 \<and> 0 \<le> pa_lookback a \<and> pa_lookback a \<le> 365"

lemma plain_year_shift: "plain_year z \<Longrightarrow> \<bar>n\<bar> \<le> 365 \<Longrightarrow> four_digit_year (z + n)"
proof -
  assume z: "plain_year z" and n: "\<bar>n\<bar> \<le> 365"
  let ?y = "year_of_day z"
  have y: "days_before_year ?y \<le> z + epoch_offset" "z + epoch_offset < days_before_year (?y + 1)"
    using year_of_day_bounds [of z] by simp_all
  have "days_before_year (?y - 1) + 365 \<le> days_before_year ?y"
    "days_before_year (?y + 1) + 365 \<le> days_before_year (?y + 2)"
    using days_before_year_add [of "?y - 1" 1] days_before_year_add [of "?y + 1" 1] by (simp_all add: add.commute)
  then have w: "days_before_year (?y - 1) \<le> z + n + epoch_offset" "z + n + epoch_offset < days_before_year (?y + 2)"
    using y n by linarith+
  let ?x = "year_of_day (z + n)"
  have "\<not> ?x + 1 \<le> ?y - 1"
    using days_before_year_mono [of "?x + 1" "?y - 1"] year_of_day_bounds [of "z + n"] w(1) by linarith
  moreover have "\<not> ?y + 2 \<le> ?x"
    using days_before_year_mono [of "?y + 2" ?x] year_of_day_bounds [of "z + n"] w(2) by linarith
  ultimately show ?thesis using z by (simp add: plain_year_def four_digit_year_def)
qed

lemma plain_year_four [intro]: "plain_year z \<Longrightarrow> four_digit_year z"
  by (simp add: plain_year_def four_digit_year_def)

subsection \<open>The watermark\<close>

definition num :: "sys_days option \<Rightarrow> int" where
  "num m = (case m of None \<Rightarrow> 0 | Some z \<Rightarrow> ymd_int z)"

definition day_opt_ok :: "sys_days option \<Rightarrow> bool" where
  "day_opt_ok m = (case m of None \<Rightarrow> True | Some z \<Rightarrow> plain_year z)"

lemma cell_day_num: "cell_ok c \<Longrightarrow> cell_yyyymmdd c = num (cell_day c) \<and> day_opt_ok (cell_day c)"
proof (cases c)
  case (TextCell s)
  assume ok: "cell_ok c"
  show ?thesis
  proof (cases "is_date s")
    case True
    then obtain d where d: "parse_yyyymmdd s = Ok d" "four_digit_year d" "fmt_yyyymmdd d = s"
      by (rule is_date_parse)
    have "sv_to_yyyymmdd s = ymd_int d"
      using d fmt_digits [OF d(2)] length_fmt [OF d(2)] digits_value_fmt [OF d(2)]
      by (simp add: sv_to_yyyymmdd_def)
    moreover from this ok d(1) True pad_ymd_int(2) [OF d(2)] have "plain_year d"
      by (simp add: cell_ok_def TextCell)
    ultimately show ?thesis
      using True d(1) by (simp add: TextCell cell_yyyymmdd_def cell_day_def num_def day_opt_ok_def)
  next
    case False
    with ok have "sv_to_yyyymmdd s = 0" by (simp add: cell_ok_def TextCell)
    with False show ?thesis by (simp add: TextCell cell_yyyymmdd_def cell_day_def num_def day_opt_ok_def)
  qed
qed (auto simp: cell_ok_def cell_yyyymmdd_def cell_day_def num_def day_opt_ok_def ns_to_yyyymmdd_def ymd_int_def)

lemma num_later:
  assumes "day_opt_ok a" "day_opt_ok b"
  shows "num (later a b) = max (num a) (num b)" "day_opt_ok (later a b)"
proof -
  have nonneg: "0 \<le> ymd_int z" if "plain_year z" for z
    using that pad_ymd_int(2) [of z] by (simp add: plain_year_four)
  have mx: "ymd_int (max x y) = max (ymd_int x) (ymd_int y)" if "plain_year x" "plain_year y" for x y
    using ymd_int_less [OF plain_year_four [OF that(1)] plain_year_four [OF that(2)]]
      ymd_int_less [OF plain_year_four [OF that(2)] plain_year_four [OF that(1)]]
    by (cases x y rule: linorder_cases) (simp_all add: max_def)
  show "num (later a b) = max (num a) (num b)"
    using assms nonneg mx
    by (cases a; cases b) (simp_all add: num_def later_def day_opt_ok_def max_absorb1 max_absorb2)
  show "day_opt_ok (later a b)"
    using assms by (cases a; cases b) (simp_all add: later_def day_opt_ok_def max_def)
qed

lemma watermark_num:
  assumes "list_all (\<lambda>r. cell_ok (r col)) rs" "day_opt_ok m"
  shows "foldl (\<lambda>m r. max m (cell_yyyymmdd (r col))) (num m) rs =
      num (foldl (\<lambda>m r. later m (cell_day (r col))) m rs)"
    "day_opt_ok (foldl (\<lambda>m r. later m (cell_day (r col))) m rs)"
  using assms
proof (induction rs arbitrary: m)
  case (Cons r rs)
  { case 1
    then have c: "cell_yyyymmdd (r col) = num (cell_day (r col))" "day_opt_ok (cell_day (r col))"
      "list_all (\<lambda>r. cell_ok (r col)) rs" "day_opt_ok m" using cell_day_num [of "r col"] by simp_all
    from Cons.IH(1) [OF c(3) num_later(2) [OF c(4,2)]] show ?case
      by (simp add: c(1) num_later(1) [OF c(4,2)]) }
  { case 2
    then have c: "day_opt_ok (cell_day (r col))" "list_all (\<lambda>r. cell_ok (r col)) rs" "day_opt_ok m"
      using cell_day_num [of "r col"] by simp_all
    from Cons.IH(2) [OF c(2) num_later(2) [OF c(3,1)]] show ?case by simp }
qed simp_all

lemma file_max_vd_watermark:
  assumes "files w p = Some f" "file_ok col f"
  shows "file_max_vd w p col =
      Ok (case watermark f col of None \<Rightarrow> [] | Some z \<Rightarrow> fmt_yyyymmdd z)" "day_opt_ok (watermark f col)"
proof -
  have l: "list_all (\<lambda>r. cell_ok (r col)) (rows f)" using assms(2) by (simp add: file_ok_def)
  have n: "num None = 0" "day_opt_ok None" by (simp_all add: num_def day_opt_ok_def)
  show ok: "day_opt_ok (watermark f col)" using watermark_num(2) [OF l n(2)] by (simp add: watermark_def)
  have "foldl (\<lambda>m r. max m (cell_yyyymmdd (r col))) 0 (rows f) = num (watermark f col)"
    using watermark_num(1) [OF l n(2)] by (simp add: watermark_def n)
  then have "file_max_vd w p col = Ok (if num (watermark f col) = 0 then [] else pad_int 8 (num (watermark f col)))"
    using assms(1) by (simp add: file_max_vd_def Let_def)
  moreover have "num (Some z) \<noteq> 0 \<and> pad_int 8 (num (Some z)) = fmt_yyyymmdd z" if "plain_year z" for z
    using pad_ymd_int [OF plain_year_four [OF that]] by (simp add: num_def)
  ultimately show "file_max_vd w p col =
      Ok (case watermark f col of None \<Rightarrow> [] | Some z \<Rightarrow> fmt_yyyymmdd z)"
    using ok n by (cases "watermark f col") (simp_all add: day_opt_ok_def)
qed

subsection \<open>The code computes the plan over day numbers\<close>

lemma fmt_nonempty [simp]: "four_digit_year z \<Longrightarrow> fmt_yyyymmdd z \<noteq> []"
  using length_fmt [of z] by (metis list.size(3) zero_neq_numeral)

lemma month_texts:
  assumes "k < month_limit"
  shows "\<exists>dd. month_last_dd (ym_digits (k div 12) (k mod 12 + 1)) = Ok dd \<and>
    ym_digits (k div 12) (k mod 12 + 1) @ dd = fmt_yyyymmdd (last_day k) \<and>
    ym_digits (k div 12) (k mod 12 + 1) @ ''01'' = fmt_yyyymmdd (first_day k)"
  using month_last_dd_digits [OF month_parts(2) [OF assms], of "k mod 12 + 1"] month_parts(1) [of k]
    fmt_first_last [OF assms] by simp

lemma month_path_text: "month_path (ym_text k) name = Ok (ym_text k @ ''/'' @ name @ ''.parquet'')"
  by (simp add: month_path_def ym_text_digits)

lemma args_okD:
  assumes "args_ok a z0 t" "month_of z0 \<le> k" "k \<le> month_of t"
  shows "k < month_limit" "four_digit_year z0" "four_digit_year t" "four_digit_year (first_day k)"
    "four_digit_year (last_day k)" "four_digit_year (t - pa_lookback a)"
    "four_digit_year (last_day k + pa_lookback a)" "four_digit_year (horizon_day w a t)"
    "z0 \<le> last_day k" "first_day k \<le> t"
proof -
  have a: "plain_year z0" "plain_year t" "0 \<le> pa_lookback a" "pa_lookback a \<le> 365"
    using assms(1) by (simp_all add: args_ok_def)
  show f: "four_digit_year z0" "four_digit_year t" using a(1,2) by blast+
  show k: "k < month_limit" using month_of_bounds(1) [OF f(2)] assms(3) by simp
  show l: "four_digit_year (first_day k)" "four_digit_year (last_day k)"
    using k by (rule month_days_four_digits)+
  show "four_digit_year (t - pa_lookback a)"
    using plain_year_shift [OF a(2), of "- pa_lookback a"] a(3,4) by simp
  show "four_digit_year (horizon_day w a t)"
    using plain_year_shift [OF a(2), of "-1"] f(2) by (simp add: horizon_day_def)
  have "k div 12 = nat (year_of_day (last_day k))"
  proof -
    have "ymd_of_day (last_day k) = (int (k div 12), int (k mod 12) + 1,
        month_length (int (k div 12)) (int (k mod 12) + 1))"
      unfolding last_day_def by (rule ymd_of_day_number [OF valid_first_last(2)])
    from ymd_of_day_valid(3) [OF this] show ?thesis by simp
  qed
  moreover have "month_of z0 div 12 \<le> k div 12" "k div 12 \<le> month_of t div 12"
    using assms(2,3) by (simp_all add: div_le_mono)
  ultimately have "plain_year (last_day k)"
    using a(1,2) l(2) month_of_bounds(4) [OF f(1)] month_of_bounds(4) [OF f(2)]
    by (auto simp: plain_year_def four_digit_year_def nat_le_eq_zle)
  from plain_year_shift [OF this, of "pa_lookback a"] a(3,4)
  show "four_digit_year (last_day k + pa_lookback a)" by simp
  show "z0 \<le> last_day k" "first_day k \<le> t"
    using month_of_bounds(2,3) [OF f(1)] month_of_bounds(2,3) [OF f(2)] assms(2,3)
      first_day_strict_mono [of "month_of z0" k] first_le_last [of k]
      first_day_strict_mono [of k "month_of t"] by (cases "month_of z0 = k"; cases "k = month_of t"; force)+
qed

lemma plan_month_refines:
  assumes "args_ok a z0 t" "files_ok w (pa_vd_col a)" "month_of z0 \<le> k" "k \<le> month_of t"
  shows "plan_month w a (fmt_yyyymmdd (t - pa_lookback a)) (fmt_yyyymmdd (horizon_day w a t)) (ym_text k) =
    Ok (map_option (fetch_text k) (plan_days w a z0 t (horizon_day w a t) k))"
proof -
  note r = args_okD [OF assms(1,3,4)]
  let ?h = "horizon_day w a t"
  obtain dd where dd: "month_last_dd (ym_digits (k div 12) (k mod 12 + 1)) = Ok dd"
    "ym_digits (k div 12) (k mod 12 + 1) @ dd = fmt_yyyymmdd (last_day k)"
    "ym_digits (k div 12) (k mod 12 + 1) @ ''01'' = fmt_yyyymmdd (first_day k)"
    using month_texts [OF r(1)] by blast
  have start: "pa_start a = fmt_yyyymmdd z0" using assms(1) by (simp add: args_ok_def)
  have mm: "four_digit_year (max (first_day k) z0)" "four_digit_year (min (last_day k) ?h)"
    using r by (simp_all add: max_def min_def)
  have ok: "file_ok (pa_vd_col a) f" if "month_file w a k = Some f" for f
    using assms(2) that by (auto simp: files_ok_def month_file_def)
  have wr: "four_digit_year (utc_day (mtime f))" if "month_file w a k = Some f" for f
    using ok [OF that] by (auto simp: file_ok_def)
  note defs = plan_month_def Let_def ym_text_digits(3) [simplified] dd [simplified] month_path_text start dt.fmt_max dt.fmt_min fmt_less dt.fmt_le r mm
    min_less_iff_disj less_max_iff_disj leD [OF r(9)]
  show ?thesis
  proof (cases "last_day k < t - pa_lookback a")
    case True
    show ?thesis
    proof (cases "month_file w a k")
      case None
      then show ?thesis using True
        by (simp add: defs plan_days_def file_write_date_def month_file_def fetch_text_def)
    next
      case (Some f)
      with wr [OF Some] True show ?thesis
        by (simp add: defs plan_days_def file_write_date_def month_file_def fetch_text_def)
    qed
  next
    case False
    show ?thesis
    proof (cases "month_file w a k")
      case None
      with False show ?thesis
        by (auto simp: defs plan_days_def file_age_seconds_def month_file_def fetch_text_def)
    next
      case (Some f)
      then have f: "files w (ym_text k @ ''/'' @ pa_name a @ ''.parquet'') = Some f" by (simp add: month_file_def)
      note m = file_max_vd_watermark [OF f ok [OF Some]]
      show ?thesis
      proof (cases "watermark f (pa_vd_col a)")
        case None
        with False f m show ?thesis
          by (auto simp: defs plan_days_def file_age_seconds_def month_file_def fetch_text_def)
      next
        case v: (Some v)
        with m(2) have "plain_year v" by (simp add: day_opt_ok_def)
        with plain_year_shift [of v 1] have "four_digit_year v" "four_digit_year (v + 1)" by auto
        with False f m v show ?thesis
          by (auto simp: defs plan_days_def file_age_seconds_def month_file_def fetch_text_def)
      qed
    qed
  qed
qed

subsection \<open>The loop over the months\<close>

lemma ym_text_less:
  assumes "k < month_limit" "k' < month_limit"
  shows "ym_text k < ym_text k' \<longleftrightarrow> k < k'"
proof -
  have "fixed_digits 2 (Suc (k mod 12)) < fixed_digits 2 (Suc (k' mod 12)) \<longleftrightarrow> k mod 12 < k' mod 12"
    using month_parts(1) [of k] month_parts(1) [of k'] by (subst fixed_digits_less) simp_all
  moreover have "fixed_digits 4 (k div 12) < fixed_digits 4 (k' div 12) \<longleftrightarrow> k div 12 < k' div 12"
    "fixed_digits 4 (k div 12) = fixed_digits 4 (k' div 12) \<longleftrightarrow> k div 12 = k' div 12"
    using month_parts(2) [OF assms(1)] month_parts(2) [OF assms(2)]
    by (simp_all add: fixed_digits_less fixed_digits_eq)
  ultimately have "ym_text k < ym_text k' \<longleftrightarrow> k div 12 < k' div 12 \<or> k div 12 = k' div 12 \<and> k mod 12 < k' mod 12"
    by (simp add: ym_text_def append_less_append)
  moreover have "12 * d + m < 12 * d' + m' \<longleftrightarrow> d < d' \<or> d = d' \<and> m < m'" if "m < 12" "m' < 12" for d d' m m' :: nat
    using that by linarith
  from this [of "k mod 12" "k' mod 12" "k div 12" "k' div 12"]
  have "k < k' \<longleftrightarrow> k div 12 < k' div 12 \<or> k div 12 = k' div 12 \<and> k mod 12 < k' mod 12" by simp
  ultimately show ?thesis by simp
qed

lemma ym_text_eq: "k < month_limit \<Longrightarrow> k' < month_limit \<Longrightarrow> ym_text k = ym_text k' \<longleftrightarrow> k = k'"
  using ym_text_less [of k k'] ym_text_less [of k' k] by (metis linorder_neqE_nat order_less_irrefl)

lemma plan_loop_months:
  assumes "\<And>i. k \<le> i \<Longrightarrow> i \<le> j \<Longrightarrow> body (ym_text i) = Ok (res i)" "k \<le> j" "j < month_limit"
  shows "plan_loop body (ym_text j) (ym_text k) acc = Some (Ok (acc @ List.map_filter res [k..<Suc j]))"
  using assms
proof (induction "j - k" arbitrary: k acc)
  case 0
  then have "k = j" by simp
  with 0 show ?case
    by (subst plan_loop.simps) (simp add: List.map_filter_simps split: option.split)
next
  case (Suc n)
  then have k: "k < j" by simp
  then have "ym_text k \<noteq> ym_text j" using Suc.prems by (simp add: ym_text_eq)
  moreover have "next_ym (ym_text k) = Ok (ym_text (Suc k))" using Suc.prems(3) k by (simp add: next_ym_text)
  moreover have "n = j - Suc k" "Suc k \<le> j" using Suc.hyps(2) k by simp_all
  note IH = Suc.hyps(1) [OF this(1) Suc.prems(1) this(2) Suc.prems(3)]
  have "[k..<Suc j] = k # [Suc k..<Suc j]" using k by (simp add: upt_conv_Cons)
  ultimately show ?case
    using Suc.prems(1) [of k] k
    by (subst plan_loop.simps) (simp add: IH List.map_filter_simps split: option.split)
qed

definition plan_days_all :: "world \<Rightarrow> plan_args \<Rightarrow> sys_days \<Rightarrow> sys_days \<Rightarrow> fetch_month list" where
  "plan_days_all w a z0 t =
     List.map_filter (\<lambda>k. map_option (fetch_text k) (plan_days w a z0 t (horizon_day w a t) k))
       [month_of z0..<Suc (month_of t)]"

lemma plan_months_days:
  assumes "args_ok a z0 t" "files_ok w (pa_vd_col a)"
  shows "plan_months w a = Some (Ok (plan_days_all w a z0 t))"
proof -
  have a: "pa_start a = fmt_yyyymmdd z0" "pa_today a = fmt_yyyymmdd t" "z0 \<le> t" "four_digit_year z0"
    "four_digit_year t" "pa_vd_col a \<noteq> []" "0 \<le> pa_avail_hour a" "pa_avail_hour a \<le> 24"
    using assms(1) by (auto simp: args_ok_def)
  have mono: "month_of z0 \<le> month_of t" by (rule month_of_mono [OF a(4,5,3)])
  have "data_horizon w (pa_avail_hour a) (fmt_yyyymmdd t) = Ok (fmt_yyyymmdd (horizon_day w a t))"
    using a by (simp add: data_horizon_def horizon_day_def)
  moreover have "plan_loop (plan_month w a (fmt_yyyymmdd (t - pa_lookback a)) (fmt_yyyymmdd (horizon_day w a t)))
      (ym_text (month_of t)) (ym_text (month_of z0)) [] = Some (Ok ([] @ plan_days_all w a z0 t))"
    unfolding plan_days_all_def
    by (rule plan_loop_months) (use plan_month_refines [OF assms] mono month_of_bounds(1) [OF a(5)] in simp_all)
  ultimately show ?thesis
    using a month_of_bounds(5) [OF a(4)] month_of_bounds(5) [OF a(5)]
    by (simp add: plan_months_def dt.fmt_le)
qed

lemma horizon_day_le: "horizon_day w a t \<le> t" "t - 1 \<le> horizon_day w a t"
  by (simp_all add: horizon_day_def)

lemma plan_days_cases:
  assumes "plan_days w a z0 t h k = Some (s, e, i)"
  obtains "last_day k < t - pa_lookback a" "s = max (first_day k) z0" "e = last_day k" "i = None"
  | "t - pa_lookback a \<le> last_day k" "s = max (first_day k) z0" "e = min (last_day k) h" "s \<le> e"
    "\<And>d. i = Some d \<Longrightarrow> d \<le> e \<and> (\<exists>f v. month_file w a k = Some f \<and> watermark f (pa_vd_col a) = Some v \<and> d = v + 1)"
proof (cases "last_day k < t - pa_lookback a")
  case True
  with assms show ?thesis
    by (intro that(1)) (simp_all add: plan_days_def Let_def split: option.splits if_split_asm)
next
  case False
  define s' where "s' = max (first_day k) z0"
  define e' where "e' = min (last_day k) h"
  from assms False have "s' \<le> e'" "s = s'" "e = e'"
    "\<forall>d. i = Some d \<longrightarrow> d \<le> e' \<and> (\<exists>f v. month_file w a k = Some f \<and> watermark f (pa_vd_col a) = Some v \<and> d = v + 1)"
    unfolding plan_days_def Let_def s'_def [symmetric] e'_def [symmetric]
    by (simp_all split: option.splits if_split_asm) auto
  with False show ?thesis unfolding s'_def e'_def by (intro that(2)) (simp only: not_less; blast)+
qed

lemma plan_days_window:
  assumes "plan_days w a z0 t (horizon_day w a t) k = Some (s, e, i)" "0 \<le> pa_lookback a" "z0 \<le> last_day k"
  shows "z0 \<le> s" "first_day k \<le> s" "s \<le> e" "e \<le> last_day k" "e \<le> t"
    "\<And>d. i = Some d \<Longrightarrow> d \<le> e \<and> (\<exists>f v. month_file w a k = Some f \<and> watermark f (pa_vd_col a) = Some v \<and> d = v + 1)"
proof -
  have b: "z0 \<le> s \<and> first_day k \<le> s \<and> s \<le> e \<and> e \<le> last_day k \<and> e \<le> t"
    using assms(1)
  proof (cases rule: plan_days_cases)
    case 1
    with assms(2,3) first_le_last [of k] show ?thesis by simp
  next
    case 2
    moreover have "e \<le> horizon_day w a t" "e \<le> last_day k" using 2(3) by simp_all
    ultimately show ?thesis using horizon_day_le(1) [of w a t] by simp
  qed
  then show "z0 \<le> s" "first_day k \<le> s" "s \<le> e" "e \<le> last_day k" "e \<le> t" by simp_all
  show "d \<le> e \<and> (\<exists>f v. month_file w a k = Some f \<and> watermark f (pa_vd_col a) = Some v \<and> d = v + 1)"
    if "i = Some d" for d
    using assms(1) by (cases rule: plan_days_cases) (use that in auto)
qed

lemma sorted_wrt_map_filter:
  assumes "sorted_wrt P xs" "\<And>x y a b. x \<in> set xs \<Longrightarrow> y \<in> set xs \<Longrightarrow> P x y \<Longrightarrow> f x = Some a \<Longrightarrow> f y = Some b \<Longrightarrow> Q a b"
  shows "sorted_wrt Q (List.map_filter f xs)"
  unfolding List.map_filter_def sorted_wrt_map
  by (rule sorted_wrt_mono_rel [OF _ sorted_wrt_filter [OF assms(1)]]) (auto intro: assms(2))

lemma plan_member:
  assumes "args_ok a z0 t" "m \<in> set (plan_days_all w a z0 t)"
  obtains k s e i where "month_of z0 \<le> k" "k \<le> month_of t" "plan_days w a z0 t (horizon_day w a t) k = Some (s, e, i)"
    "m = fetch_text k (s, e, i)"
  using assms by (auto simp: plan_days_all_def List.map_filter_def)

subsection \<open>After an update\<close>

text \<open>What the update relies on: the interface's visible dates are dates.\<close>

definition fetch_ok :: "fetcher \<Rightarrow> string \<Rightarrow> bool" where
  "fetch_ok fetch col \<longleftrightarrow> (\<forall>n s e. list_all (\<lambda>r. cell_ok (r col)) (fetch n s e))"

lemma append_existing:
  "files w p = Some f \<Longrightarrow>
   append_table_atomic w p t = w\<lparr>files := (files w)(p \<mapsto> \<lparr>mtime = now_ns w, rows = rows f @ t\<rparr>)\<rparr>"
  by (cases f) (simp add: append_table_atomic_def write_table_atomic_def)

lemma month_file_write:
  assumes "month_path (ym_text k) (pa_name a) = Ok p" "k < month_limit" "k' < month_limit"
  shows "month_file (w\<lparr>files := (files w)(p \<mapsto> f)\<rparr>) a k' = (if k' = k then Some f else month_file w a k')"
  using assms by (auto simp: month_file_def month_path_text ym_text_eq)

lemma store_month_written:
  assumes "k < month_limit" "files_ok w (pa_vd_col a)" "plain_year (utc_day (now_ns w))"
    "fetch_ok fetch (pa_vd_col a)"
  shows "\<exists>w' f. store_month fetch a w (fetch_text k x) = Ok w' \<and> now_ns w' = now_ns w \<and> tz_ns w' = tz_ns w \<and>
    files_ok w' (pa_vd_col a) \<and> mtime f = now_ns w \<and>
    (\<forall>k' < month_limit. month_file w' a k' = (if k' = k then Some f else month_file w a k'))"
proof -
  let ?m = "fetch_text k x"
  let ?t = "fetch (pa_name a) (fetch_from ?m) (fm_end ?m)"
  obtain p where p: "month_path (fm_ym ?m) (pa_name a) = Ok p" "month_path (ym_text k) (pa_name a) = Ok p"
    by (cases x) (simp add: month_path_text fetch_text_def)
  have ok: "file_ok (pa_vd_col a) f" if "files w p = Some f" for f
    using assms(2) that by (simp add: files_ok_def)
  obtain f where f: "(if fm_inc_from ?m = [] then write_table_atomic w p ?t else append_table_atomic w p ?t) =
      w\<lparr>files := (files w)(p \<mapsto> f)\<rparr>" "mtime f = now_ns w" "file_ok (pa_vd_col a) f"
  proof (cases "fm_inc_from ?m = [] \<or> files w p = None")
    case True
    then show ?thesis using assms(3,4)
      by (intro that [of "\<lparr>mtime = now_ns w, rows = ?t\<rparr>"])
         (auto simp: write_table_atomic_def append_table_atomic_def file_ok_def fetch_ok_def)
  next
    case False
    then obtain g where g: "files w p = Some g" "fm_inc_from ?m \<noteq> []" by auto
    from ok [OF g(1)] assms(3,4) append_existing [OF g(1)] g(2) show ?thesis
      by (intro that [of "\<lparr>mtime = now_ns w, rows = rows g @ ?t\<rparr>"])
         (simp_all add: file_ok_def fetch_ok_def)
  qed
  let ?w = "w\<lparr>files := (files w)(p \<mapsto> f)\<rparr>"
  have "store_month fetch a w ?m = Ok ?w" using f(1) p(1) by (simp add: store_month_def Let_def)
  moreover have "files_ok ?w (pa_vd_col a)" using assms(2) f(3) by (simp add: files_ok_def)
  ultimately show ?thesis using f(2) month_file_write [OF p(2) assms(1)] by (intro exI [of _ ?w] exI [of _ f]) simp
qed

lemma store_months_written:
  assumes "\<And>k. k \<in> set ks \<Longrightarrow> k < month_limit" "files_ok w (pa_vd_col a)" "plain_year (utc_day (now_ns w))"
    "fetch_ok fetch (pa_vd_col a)"
  shows "\<exists>w'. store_months fetch a w (List.map_filter (\<lambda>k. map_option (fetch_text k) (plan k)) ks) = Ok w' \<and>
    now_ns w' = now_ns w \<and> tz_ns w' = tz_ns w \<and> files_ok w' (pa_vd_col a) \<and>
    (\<forall>k < month_limit. (\<exists>f. month_file w' a k = Some f \<and> mtime f = now_ns w) \<or>
       month_file w' a k = month_file w a k \<and> (k \<notin> set ks \<or> plan k = None))"
  using assms(1-3)
proof (induction ks arbitrary: w)
  case (Cons k ks)
  show ?case
  proof (cases "plan k")
    case None
    with Cons.IH [OF _ Cons.prems(2,3)] Cons.prems(1) show ?thesis
      by (fastforce simp: List.map_filter_simps)
  next
    case (Some x)
    have k: "k < month_limit" using Cons.prems(1) by simp
    obtain w1 f where w1: "store_month fetch a w (fetch_text k x) = Ok w1" "now_ns w1 = now_ns w"
      "tz_ns w1 = tz_ns w" "files_ok w1 (pa_vd_col a)" "mtime f = now_ns w"
      "\<forall>k' < month_limit. month_file w1 a k' = (if k' = k then Some f else month_file w a k')"
      using store_month_written [OF k Cons.prems(2,3) assms(4)] by blast
    have "\<And>i. i \<in> set ks \<Longrightarrow> i < month_limit" "plain_year (utc_day (now_ns w1))"
      using Cons.prems(1,3) w1(2) by simp_all
    from Cons.IH [OF this(1) w1(4) this(2)] obtain w' where
      w': "store_months fetch a w1 (List.map_filter (\<lambda>k. map_option (fetch_text k) (plan k)) ks) = Ok w'"
      "now_ns w' = now_ns w1" "tz_ns w' = tz_ns w1" "files_ok w' (pa_vd_col a)"
      "\<forall>k < month_limit. (\<exists>f. month_file w' a k = Some f \<and> mtime f = now_ns w1) \<or>
       month_file w' a k = month_file w1 a k \<and> (k \<notin> set ks \<or> plan k = None)" by blast
    have "(\<exists>f. month_file w' a i = Some f \<and> mtime f = now_ns w) \<or>
       month_file w' a i = month_file w a i \<and> (i \<notin> set (k # ks) \<or> plan i = None)" if "i < month_limit" for i
      using w'(5) [rule_format, OF that] w1(2,5) w1(6) [rule_format, OF that] by (cases "i = k") auto
    with w'(1-4) w1(1-3) Some show ?thesis by (simp add: List.map_filter_simps)
  qed
qed (simp add: List.map_filter_simps)

lemma plan_days_settled:
  assumes "month_file w a k = Some f" "mtime f = now_ns w" "0 < pa_dedup a" "t - 1 \<le> utc_day (now_ns w)"
  shows "plan_days w a z0 t h k = None"
  using assms by (simp add: plan_days_def Let_def trunc_div_def)

lemma utc_day_local:
  assumes "0 \<le> z" "z \<le> ns_per_day" shows "utc_day (n + z) - 1 \<le> utc_day n"
proof -
  have "n + z \<le> n + 1 * ns_per_day" using assms(2) by simp
  then have "(n + z) div ns_per_day \<le> (n + 1 * ns_per_day) div ns_per_day"
    by (rule zdiv_mono1) (simp add: ns_per_day_def ns_per_sec_def)
  also have "\<dots> = n div ns_per_day + 1" by (subst div_mult_self1) (simp_all add: ns_per_day_def ns_per_sec_def)
  finally show ?thesis by (simp add: utc_day_def)
qed

section \<open>Properties\<close>

lemma fmt_of_parse: "is_date s \<Longrightarrow> parse_yyyymmdd s = Ok z \<Longrightarrow> fmt_yyyymmdd z = s"
  by (metis is_date_parse outcome.inject(2))

text \<open>A concrete table for the witnesses: 10 March 2024, 15:00 in China, a file of February 1st.\<close>

definition feb_file :: data_file where
  "feb_file = \<lparr>mtime = 1706745600 * ns_per_sec, rows = [\<lambda>c. TextCell ''20240201'']\<rparr>"

definition march_world :: world where
  "march_world = \<lparr>now_ns = 1710054000 * ns_per_sec, tz_ns = 28800 * ns_per_sec,
     files = [''2024-02/t.parquet'' \<mapsto> feb_file]\<rparr>"

definition march_args :: plan_args where
  "march_args = \<lparr>pa_name = ''t'', pa_vd_col = ''d'', pa_avail_hour = 20, pa_start = ''20240115'',
     pa_today = ''20240310'', pa_lookback = 30, pa_dedup = 3600\<rparr>"

lemma march_ok: "args_ok march_args 19737 19792" "files_ok march_world ''d''" "pa_vd_col march_args = ''d''"
  "utc_day (now_ns march_world + tz_ns march_world) = 19792"
  "0 \<le> tz_ns march_world" "tz_ns march_world \<le> ns_per_day" "plain_year (utc_day (now_ns march_world))"
  "0 < pa_dedup march_args"
proof -
  have "is_date ''20240201''" "parse_yyyymmdd ''20240201'' = Ok 19754" "plain_year 19754"
    "plain_year (utc_day (mtime feb_file))" by code_simp+
  then have "file_ok ''d'' feb_file" by (simp add: file_ok_def feb_file_def cell_ok_def)
  then show "files_ok march_world ''d''" by (simp add: files_ok_def march_world_def)
qed (code_simp+)

text \<open>C34. The scheduler ends and computes the plan of its documentation: \<open>plan_months\<close>, a loop over
  date texts with no bound of its own, returns exactly the windows that \<open>plan_days\<close> defines over day
  numbers, for each month from the start date to today in turn. In that definition a month that
  ended before the look-back window is skipped when its file was written at least the look-back
  after the month's last day and is fetched whole otherwise; any other month is fetched up to the
  horizon, whole when it has no file or no rows, from the day after its watermark otherwise.\<close>

theorem plan_months_refines:
  assumes "args_ok a z0 t" "files_ok w (pa_vd_col a)"
  shows "plan_months w a = Some (Ok (List.map_filter
    (\<lambda>k. map_option (fetch_text k) (plan_days w a z0 t (horizon_day w a t) k)) [month_of z0..<Suc (month_of t)]))"
  using plan_months_days [OF assms] by (simp add: plan_days_all_def)

lemma march_months:
  "month_of 19737 = 24288" "month_of 19792 = 24290" "horizon_day march_world march_args 19792 = 19791"
  "first_day 24288 = 19723" "last_day 24288 = 19753" "ym_text 24288 = ''2024-01''"
  "first_day 24289 = 19754" "last_day 24289 = 19782" "ym_text 24289 = ''2024-02''"
  "first_day 24290 = 19783" "last_day 24290 = 19813" "ym_text 24290 = ''2024-03''"
proof -
  have "ymd_of_day 19737 = (2024, 1, 15)" "ymd_of_day 19792 = (2024, 3, 10)" by code_simp+
  then show "month_of 19737 = 24288" "month_of 19792 = 24290" by (simp_all add: month_of_def)
  show "horizon_day march_world march_args 19792 = 19791" by code_simp
  have "fixed_digits 4 2024 = ''2024''" "fixed_digits 2 1 = ''01''" "fixed_digits 2 (Suc (Suc 0)) = ''02''"
    "fixed_digits 2 3 = ''03''" by code_simp+
  then show "ym_text 24288 = ''2024-01''" "ym_text 24289 = ''2024-02''" "ym_text 24290 = ''2024-03''"
    by (simp_all add: ym_text_def)
  show "first_day 24288 = 19723" "first_day 24289 = 19754" "first_day 24290 = 19783"
    by (simp_all add: first_day_def) code_simp+
  show "last_day 24288 = 19753" "last_day 24289 = 19782" "last_day 24290 = 19813"
    by (simp_all add: last_day_def) code_simp+
qed

lemma march_plan:
  "plan_days march_world march_args 19737 19792 19791 24288 = Some (19737, 19753, None)"
  "plan_days march_world march_args 19737 19792 19791 24289 = Some (19754, 19782, Some 19755)"
  "plan_days march_world march_args 19737 19792 19791 24290 = Some (19783, 19791, None)"
proof -
  have "watermark feb_file ''d'' = Some 19754"
    "trunc_div (now_ns march_world - mtime feb_file) ns_per_sec = 3308400" by code_simp+
  moreover have "month_file march_world march_args 24288 = None"
    "month_file march_world march_args 24289 = Some feb_file" "month_file march_world march_args 24290 = None"
    by (simp_all add: month_file_def march_months march_world_def march_args_def)
  moreover have "pa_lookback march_args = 30" "pa_dedup march_args = 3600" "pa_vd_col march_args = ''d''"
    by (simp_all add: march_args_def)
  ultimately show "plan_days march_world march_args 19737 19792 19791 24288 = Some (19737, 19753, None)"
    "plan_days march_world march_args 19737 19792 19791 24289 = Some (19754, 19782, Some 19755)"
    "plan_days march_world march_args 19737 19792 19791 24290 = Some (19783, 19791, None)"
    by (simp_all add: plan_days_def march_months)
qed

lemma plan_months_refines_witness:
  "plan_months march_world march_args = Some (Ok
    [\<lparr>fm_ym = ''2024-01'', fm_start = ''20240115'', fm_end = ''20240131'', fm_inc_from = []\<rparr>,
     \<lparr>fm_ym = ''2024-02'', fm_start = ''20240201'', fm_end = ''20240229'', fm_inc_from = ''20240202''\<rparr>,
     \<lparr>fm_ym = ''2024-03'', fm_start = ''20240301'', fm_end = ''20240309'', fm_inc_from = []\<rparr>])"
proof -
  have "fmt_yyyymmdd 19737 = ''20240115''" "fmt_yyyymmdd 19753 = ''20240131''" "fmt_yyyymmdd 19754 = ''20240201''"
    "fmt_yyyymmdd 19782 = ''20240229''" "fmt_yyyymmdd 19755 = ''20240202''" "fmt_yyyymmdd 19783 = ''20240301''"
    "fmt_yyyymmdd 19791 = ''20240309''" by (rule fmt_of_parse; code_simp)+
  moreover have "[month_of 19737..<Suc (month_of 19792)] = [24288, 24289, 24290]"
    unfolding march_months by (simp add: upt_rec_numeral)
  ultimately show ?thesis
    using plan_months_refines [OF march_ok(1), of march_world] march_ok(2,3)
    by (simp add: march_months march_plan List.map_filter_simps fetch_text_def)
qed

text \<open>The planned windows are sound: the months ascend strictly, every window is made of date
  texts of its own month, starts no earlier than the start date and ends no later than today, and
  an increment starts at most at the end of its window.\<close>

theorem plan_months_windows:
  assumes "args_ok a z0 t" "files_ok w (pa_vd_col a)" "plan_months w a = Some (Ok ms)"
  shows "sorted_wrt (<) (map fm_ym ms) \<and>
    (\<forall>m\<in>set ms. is_date (fm_start m) \<and> is_date (fm_end m) \<and> pa_start a \<le> fm_start m \<and> fm_start m \<le> fm_end m \<and>
       fm_end m \<le> pa_today a \<and> ym_of (fm_start m) = Ok (fm_ym m) \<and> ym_of (fm_end m) = Ok (fm_ym m) \<and>
       (fm_inc_from m = [] \<or> is_date (fm_inc_from m) \<and> fm_inc_from m \<le> fm_end m))"
proof
  have ms: "ms = plan_days_all w a z0 t" using plan_months_days [OF assms(1,2)] assms(3) by simp
  have lim: "k < month_limit" if "k \<le> month_of t" for k
    using month_of_bounds(1) [OF plain_year_four, of t] assms(1) that by (simp add: args_ok_def)
  have "sorted_wrt (\<lambda>m m'. fm_ym m < fm_ym m') ms"
    unfolding ms plan_days_all_def
    by (rule sorted_wrt_map_filter [where P = "(<)"], rule sorted_wrt_upt)
       (auto simp: fetch_text_def ym_text_less lim)
  then show "sorted_wrt (<) (map fm_ym ms)" by (simp add: sorted_wrt_map)
  show "\<forall>m\<in>set ms. is_date (fm_start m) \<and> is_date (fm_end m) \<and> pa_start a \<le> fm_start m \<and> fm_start m \<le> fm_end m \<and>
       fm_end m \<le> pa_today a \<and> ym_of (fm_start m) = Ok (fm_ym m) \<and> ym_of (fm_end m) = Ok (fm_ym m) \<and>
       (fm_inc_from m = [] \<or> is_date (fm_inc_from m) \<and> fm_inc_from m \<le> fm_end m)"
  proof
    fix m assume "m \<in> set ms"
    then obtain k s e i where m: "month_of z0 \<le> k" "k \<le> month_of t"
      "plan_days w a z0 t (horizon_day w a t) k = Some (s, e, i)" "m = fetch_text k (s, e, i)"
      unfolding ms by (rule plan_member [OF assms(1)])
    note r = args_okD [OF assms(1) m(1,2)]
    have a: "0 \<le> pa_lookback a" "pa_start a = fmt_yyyymmdd z0" "pa_today a = fmt_yyyymmdd t"
      using assms(1) by (simp_all add: args_ok_def)
    note w = plan_days_window [OF m(3) a(1) r(9)]
    have f: "four_digit_year s" "four_digit_year e"
      using four_digit_year_between [OF r(4,5)] w(2-4) by simp_all
    have k: "month_of x = k" if "four_digit_year x" "first_day k \<le> x" "x \<le> last_day k" for x
      using month_of_bounds(2,3) [OF that(1)] that(2,3) first_day_strict_mono [of k "month_of x"]
        first_day_strict_mono [of "month_of x" k] by (cases k "month_of x" rule: linorder_cases) force+
    have ym: "ym_of (fmt_yyyymmdd s) = Ok (ym_text k)" "ym_of (fmt_yyyymmdd e) = Ok (ym_text k)"
      using month_of_bounds(5) [OF f(1)] month_of_bounds(5) [OF f(2)] k [OF f(1)] k [OF f(2)] w(2-4) by simp_all
    have i: "is_date (fmt_yyyymmdd d) \<and> fmt_yyyymmdd d \<le> fmt_yyyymmdd e" if "i = Some d" for d
    proof -
      from w(6) [OF that] obtain g v where "d \<le> e" "month_file w a k = Some g" "watermark g (pa_vd_col a) = Some v"
        "d = v + 1" by blast
      moreover from this have "plain_year v"
        using assms(2) file_max_vd_watermark(2) [of w _ g "pa_vd_col a"]
        by (fastforce simp: month_file_def files_ok_def day_opt_ok_def)
      ultimately show ?thesis
        using plain_year_shift [of v 1] f(2) by (simp add: fmt_is_date dt.fmt_le)
    qed
    show "is_date (fm_start m) \<and> is_date (fm_end m) \<and> pa_start a \<le> fm_start m \<and> fm_start m \<le> fm_end m \<and>
       fm_end m \<le> pa_today a \<and> ym_of (fm_start m) = Ok (fm_ym m) \<and> ym_of (fm_end m) = Ok (fm_ym m) \<and>
       (fm_inc_from m = [] \<or> is_date (fm_inc_from m) \<and> fm_inc_from m \<le> fm_end m)"
      using f ym w(1-5) i r(2,3) by (cases i) (simp_all add: m(4) fetch_text_def fmt_is_date dt.fmt_le a)
  qed
qed

lemma plan_months_windows_witness:
  "\<exists>ms. plan_months march_world march_args = Some (Ok ms) \<and> sorted_wrt (<) (map fm_ym ms) \<and>
     (\<forall>m\<in>set ms. pa_start march_args \<le> fm_start m \<and> fm_end m \<le> pa_today march_args)"
  using plan_months_windows [OF march_ok(1), of march_world] plan_months_days [OF march_ok(1), of march_world]
    march_ok(2,3) by auto

text \<open>C35. An update settles its table: whatever the remote interface returns (rows without a date
  and no rows at all included), a second plan at the same moment is empty, so a rerun inside the
  throttle window sends no request. The clock may stand in any zone ahead of UTC by up to a day.\<close>

theorem update_table_settles:
  assumes "args_ok a z0 t" "files_ok w (pa_vd_col a)" "t = utc_day (now_ns w + tz_ns w)"
    "0 \<le> tz_ns w" "tz_ns w \<le> ns_per_day" "plain_year (utc_day (now_ns w))" "0 < pa_dedup a"
    "fetch_ok fetch (pa_vd_col a)"
  shows "\<exists>w'. update_table fetch a w = Some (Ok w') \<and> plan_months w' a = Some (Ok [])"
proof -
  have four: "four_digit_year t" using assms(1) by (auto simp: args_ok_def)
  have lim: "k < month_limit" if "k \<in> set [month_of z0..<Suc (month_of t)]" for k
    using month_of_bounds(1) [OF four] that by auto
  obtain w' where w': "store_months fetch a w (plan_days_all w a z0 t) = Ok w'" "now_ns w' = now_ns w"
    "tz_ns w' = tz_ns w" "files_ok w' (pa_vd_col a)"
    "\<forall>k < month_limit. (\<exists>f. month_file w' a k = Some f \<and> mtime f = now_ns w) \<or>
       month_file w' a k = month_file w a k \<and>
         (k \<notin> set [month_of z0..<Suc (month_of t)] \<or> plan_days w a z0 t (horizon_day w a t) k = None)"
    using store_months_written [OF lim assms(2,6,8), where plan = "plan_days w a z0 t (horizon_day w a t)"]
    unfolding plan_days_all_def by blast
  have h: "horizon_day w' a t = horizon_day w a t"
    using w'(2,3) by (simp add: horizon_day_def now_hour_local_def)
  have "plan_days w' a z0 t (horizon_day w' a t) k = None" if k: "k \<in> set [month_of z0..<Suc (month_of t)]" for k
    using w'(5) [rule_format, OF lim [OF k]]
  proof (elim disjE exE conjE)
    fix f assume f: "month_file w' a k = Some f" "mtime f = now_ns w"
    have "t - 1 \<le> utc_day (now_ns w')" using utc_day_local [OF assms(4,5)] assms(3) w'(2) by simp
    with f w'(2) assms(7) show ?thesis by (intro plan_days_settled) simp_all
  next
    assume same: "month_file w' a k = month_file w a k" and "plan_days w a z0 t (horizon_day w a t) k = None"
    then show ?thesis unfolding h plan_days_def same w'(2) by simp
  qed (use k in blast)
  then have "plan_days_all w' a z0 t = []" by (auto simp: plan_days_all_def List.map_filter_def)
  with plan_months_days [OF assms(1) w'(4)] plan_months_days [OF assms(1,2)] w'(1) show ?thesis
    by (simp add: update_table_def)
qed

lemma update_table_settles_witness:
  "\<exists>w'. update_table (\<lambda>n s e. [\<lambda>c. TextCell ''20240201'', \<lambda>c. NullCell]) march_args march_world = Some (Ok w') \<and>
     plan_months w' march_args = Some (Ok [])"
proof -
  have "is_date ''20240201''" "parse_yyyymmdd ''20240201'' = Ok 19754" "plain_year 19754" by code_simp+
  then have "fetch_ok (\<lambda>n s e. [\<lambda>c. TextCell ''20240201'', \<lambda>c. NullCell]) (pa_vd_col march_args)"
    by (simp add: fetch_ok_def cell_ok_def)
  from update_table_settles [OF march_ok(1) _ _ march_ok(5-8) this] march_ok(2-4) show ?thesis by simp
qed

text \<open>Appending a response without rows still moves the file's modification time to now (so the
  probe counts for the throttle), and changes no row; a response with rows is appended in order.\<close>

theorem append_touches_file:
  assumes "files w p = Some f"
  shows "files (append_table_atomic w p t) p = Some \<lparr>mtime = now_ns w, rows = rows f @ t\<rparr>"
  by (simp add: append_existing [OF assms])

text \<open>A static table that was written on the local day today is taken for stale as soon as the
  throttle window is over, whenever that moment was still the day before in UTC: the write date is
  read in UTC and compared with the local date.\<close>

theorem meta_fresh_utc_day:
  assumes "files w p = Some f" "pa_today a = fmt_yyyymmdd (utc_day (mtime f + tz_ns w))"
    "four_digit_year (utc_day (mtime f))" "four_digit_year (utc_day (mtime f + tz_ns w))"
    "utc_day (mtime f) < utc_day (mtime f + tz_ns w)" "0 \<le> pa_dedup a"
    "pa_dedup a \<le> trunc_div (now_ns w - mtime f) ns_per_sec"
  shows "meta_fresh w p [] avail (pa_today a) (pa_dedup a) = Ok False"
  using assms by (simp add: meta_fresh_def Let_def file_age_seconds_def file_write_date_def dt.fmt_eq)

lemma append_touches_file_witness:
  "files (append_table_atomic march_world ''2024-02/t.parquet'' []) ''2024-02/t.parquet'' =
     Some \<lparr>mtime = now_ns march_world, rows = rows feb_file @ []\<rparr>"
  by (rule append_touches_file) (simp add: march_world_def)

lemma meta_fresh_utc_day_witness:
  "meta_fresh \<lparr>now_ns = 1710014400 * ns_per_sec, tz_ns = 28800 * ns_per_sec,
      files = [meta_path ''t'' \<mapsto> \<lparr>mtime = 1710007200 * ns_per_sec, rows = []\<rparr>]\<rparr>
     (meta_path ''t'') [] 20 (pa_today march_args) (pa_dedup march_args) = Ok False"
  by (rule meta_fresh_utc_day [where f = "\<lparr>mtime = 1710007200 * ns_per_sec, rows = []\<rparr>"]) (simp, code_simp+)

end
