(* ===== verification/Axis.thy ===== *)
theory Axis
  imports Tables
begin

text \<open>
  The two axes (\<open>cpp/src/feature/axis.cpp\<close>, \<open>cpp/include/feature/axis.hpp\<close>): the trading days up to
  today and the instruments, each ascending and without repetition, with the maps from a date or a
  code back to its index; and the static information of the instruments.

  The tables that were read are arguments: the rows of all month files of \<open>all_trading_days\<close>, and
  the rows of \<open>cn_stock_basic_info\<close>. \<open>today\<close> is the clock's date and \<open>start\<close> the configured start.
\<close>

record axes =
  ax_dates :: "string list"
  ax_codes :: "string list"
  ax_date_days :: "sys_days list"
  ax_date_idx :: "string \<Rightarrow> nat option"
  ax_code_idx :: "string \<Rightarrow> nat option"

datatype axis_error = AxisAssert | AxisDate date_error

definition n_d :: "axes \<Rightarrow> nat" where "n_d ax = length (ax_dates ax)"
definition n_a :: "axes \<Rightarrow> nat" where "n_a ax = length (ax_codes ax)"

text \<open>\<open>std::upper_bound\<close> on an ascending range: the number of elements that are not behind \<open>d\<close>.\<close>

definition upper_bound :: "string list \<Rightarrow> string \<Rightarrow> nat" where
  "upper_bound xs d = length (takeWhile (\<lambda>x. \<not> d < x) xs)"

definition floor_date :: "axes \<Rightarrow> string \<Rightarrow> int" where
  "floor_date ax d = (let k = upper_bound (ax_dates ax) d in if k = 0 then -1 else int k - 1)"

text \<open>\<open>std::set\<close>: ascending, each element once; and a map from the elements back to their indices.\<close>

definition as_set :: "string list \<Rightarrow> string list" where
  "as_set xs = sort (remdups xs)"

definition index_map :: "string list \<Rightarrow> string \<Rightarrow> nat option" where
  "index_map xs = map_of (zip xs [0..<length xs])"

section \<open>Loading\<close>

definition cn_date :: "string \<Rightarrow> row \<Rightarrow> string list" where
  "cn_date today r =
     (if cell_str (r ''market_code'') \<noteq> ''CN'' then []
      else let d = ymd_str (cell_yyyymmdd (r ''date'')) in if d = [] \<or> d > today then [] else [d])"

definition live_code :: "string \<Rightarrow> row \<Rightarrow> string list" where
  "live_code start r =
     (let s = cell_str (r ''instrument''); d = ymd_str (cell_yyyymmdd (r ''delist_date'')) in
      if s = [] then [] else if d \<noteq> [] \<and> d < start then [] else [s])"

fun parse_dates :: "string list \<Rightarrow> (axis_error, sys_days list) outcome" where
  "parse_dates [] = Ok []"
| "parse_dates (d # ds) =
     (case parse_yyyymmdd d of
        Fail e \<Rightarrow> Fail (AxisDate e)
      | Ok z \<Rightarrow> bind_ok (parse_dates ds) (\<lambda>zs. Ok (z # zs)))"

definition load_axes :: "string \<Rightarrow> string \<Rightarrow> row list list \<Rightarrow> row list \<Rightarrow> (axis_error, axes) outcome" where
  "load_axes today start td_files bi =
     (if td_files = [] then Fail AxisAssert
      else let dates = as_set (concat (map (\<lambda>v. concat (map (cn_date today) v)) td_files)) in
        if dates = [] then Fail AxisAssert
        else bind_ok (parse_dates dates) (\<lambda>days.
          if bi = [] then Fail AxisAssert
          else let codes = as_set (concat (map (live_code start) bi)) in
            if codes = [] then Fail AxisAssert
            else Ok \<lparr>ax_dates = dates, ax_codes = codes, ax_date_days = days,
                      ax_date_idx = index_map dates, ax_code_idx = index_map codes\<rparr>))"

text \<open>The names are UTF-8: unknown, main board, ChiNext, STAR market, Beijing exchange.\<close>

definition LIST_SECTOR_NAMES :: "string list" where
  "LIST_SECTOR_NAMES =
     [[CHR 0xE6, CHR 0x9C, CHR 0xAA, CHR 0xE7, CHR 0x9F, CHR 0xA5],
      [CHR 0xE4, CHR 0xB8, CHR 0xBB, CHR 0xE6, CHR 0x9D, CHR 0xBF],
      [CHR 0xE5, CHR 0x88, CHR 0x9B, CHR 0xE4, CHR 0xB8, CHR 0x9A, CHR 0xE6, CHR 0x9D, CHR 0xBF],
      [CHR 0xE7, CHR 0xA7, CHR 0x91, CHR 0xE5, CHR 0x88, CHR 0x9B, CHR 0xE6, CHR 0x9D, CHR 0xBF],
      [CHR 0xE5, CHR 0x8C, CHR 0x97, CHR 0xE4, CHR 0xBA, CHR 0xA4, CHR 0xE6, CHR 0x89, CHR 0x80]]"

definition list_sector_name :: "int \<Rightarrow> string" where
  "list_sector_name v = (let u = nat (v mod 256) in if u < 5 then LIST_SECTOR_NAMES ! u else LIST_SECTOR_NAMES ! 0)"

record stock_meta =
  sm_name :: "string list"
  sm_list_date :: "string list"
  sm_delist_date :: "string list"
  sm_list_sector :: "string list"
  sm_exchange :: "string list"

definition meta_row :: "axes \<Rightarrow> stock_meta \<Rightarrow> row \<Rightarrow> stock_meta" where
  "meta_row ax m r =
     (case ax_code_idx ax (cell_str (r ''instrument'')) of
        None \<Rightarrow> m
      | Some a \<Rightarrow> \<lparr>sm_name = (sm_name m)[a := cell_str (r ''name'')],
          sm_list_date = (sm_list_date m)[a := ymd_str (cell_yyyymmdd (r ''list_date''))],
          sm_delist_date = (sm_delist_date m)[a := ymd_str (cell_yyyymmdd (r ''delist_date''))],
          sm_list_sector = (sm_list_sector m)[a := list_sector_name (cell_i32 (r ''list_sector'') 0)],
          sm_exchange = (sm_exchange m)[a := cell_str (r ''exchange'')]\<rparr>)"

definition load_stock_meta :: "axes \<Rightarrow> row list \<Rightarrow> (axis_error, stock_meta) outcome" where
  "load_stock_meta ax bi =
     (if bi = [] then Fail AxisAssert
      else let e = replicate (n_a ax) []
           in Ok (foldl (meta_row ax) \<lparr>sm_name = e, sm_list_date = e, sm_delist_date = e, sm_list_sector = e,
                    sm_exchange = e\<rparr> bi))"

section \<open>Ascending lists as sets with an index\<close>

lemma as_set_sorted: "sorted_wrt (<) (as_set xs)" "set (as_set xs) = set xs" "distinct (as_set xs)"
  by (simp_all add: as_set_def strict_sorted_iff)

lemma index_map_nth: "distinct xs \<Longrightarrow> i < length xs \<Longrightarrow> index_map xs (xs ! i) = Some i"
  by (simp add: index_map_def map_of_zip_nth)

lemma index_map_Some: "index_map xs x = Some i \<Longrightarrow> i < length xs \<and> xs ! i = x"
  unfolding index_map_def by (drule map_of_SomeD) (auto simp: set_zip)

lemma index_map_None: "index_map xs x = None \<longleftrightarrow> x \<notin> set xs"
  by (simp add: index_map_def map_of_zip_is_None)

lemma upper_bound_sorted:
  assumes "sorted xs"
  shows "i < upper_bound xs d \<longleftrightarrow> i < length xs \<and> xs ! i \<le> d"
proof -
  let ?k = "upper_bound xs d"
  have k: "?k \<le> length xs" by (simp add: upper_bound_def length_takeWhile_le)
  have below: "xs ! i \<le> d" if "i < ?k" for i
    using nth_mem [of i "takeWhile (\<lambda>x. \<not> d < x) xs"] that takeWhile_nth [of i "\<lambda>x. \<not> d < x" xs]
    by (auto simp: upper_bound_def dest: set_takeWhileD)
  have "d < xs ! ?k" if "?k < length xs"
    using nth_length_takeWhile [of "\<lambda>x. \<not> d < x" xs] that by (simp add: upper_bound_def)
  then have above: "\<not> xs ! i \<le> d" if "?k \<le> i" "i < length xs" for i
    using sorted_nth_mono [OF assms that] that by (meson le_less_trans leD order.strict_trans2 order_trans)
  show ?thesis
  proof (cases "i < ?k")
    case True
    with below k show ?thesis by simp
  next
    case False
    with above show ?thesis by (cases "i < length xs") simp_all
  qed
qed

lemma upper_bound_le: "upper_bound xs d \<le> length xs"
  by (simp add: upper_bound_def length_takeWhile_le)

text \<open>What the rest of the program may rely on.\<close>

definition axes_ok :: "axes \<Rightarrow> bool" where
  "axes_ok ax \<longleftrightarrow> sorted_wrt (<) (ax_dates ax) \<and> sorted_wrt (<) (ax_codes ax) \<and>
     ax_dates ax \<noteq> [] \<and> ax_codes ax \<noteq> [] \<and>
     ax_date_idx ax = index_map (ax_dates ax) \<and> ax_code_idx ax = index_map (ax_codes ax) \<and>
     list_all2 (\<lambda>d z. parse_yyyymmdd d = Ok z) (ax_dates ax) (ax_date_days ax)"

lemma axes_ok_sorted: "axes_ok ax \<Longrightarrow> sorted (ax_dates ax)" "axes_ok ax \<Longrightarrow> distinct (ax_dates ax)"
  "axes_ok ax \<Longrightarrow> distinct (ax_codes ax)"
  by (simp_all add: axes_ok_def strict_sorted_iff)

lemma parse_dates_Ok: "parse_dates ds = Ok zs \<Longrightarrow> list_all2 (\<lambda>d z. parse_yyyymmdd d = Ok z) ds zs"
  by (induction ds arbitrary: zs) (auto simp: bind_ok_Ok_iff split: outcome.splits)

lemma floor_date_cases:
  assumes "sorted (ax_dates ax)"
  obtains "floor_date ax d = -1" "\<forall>i < n_d ax. d < ax_dates ax ! i"
  | k where "floor_date ax d = int k" "k < n_d ax" "ax_dates ax ! k \<le> d" "\<forall>i < n_d ax. k < i \<longrightarrow> d < ax_dates ax ! i"
proof (cases "upper_bound (ax_dates ax) d")
  case 0
  then have "\<forall>i < n_d ax. d < ax_dates ax ! i"
    using upper_bound_sorted [OF assms, of _ d] by (auto simp: n_d_def not_le)
  with 0 show ?thesis by (intro that(1)) (simp_all add: floor_date_def)
next
  case (Suc k)
  have "k < n_d ax" "ax_dates ax ! k \<le> d" using upper_bound_sorted [OF assms, of k d] Suc by (simp_all add: n_d_def)
  moreover have "d < ax_dates ax ! i" if "i < n_d ax" "k < i" for i
    using upper_bound_sorted [OF assms, of i d] that Suc by (simp add: n_d_def not_le)
  moreover have "floor_date ax d = int k" using Suc by (simp add: floor_date_def)
  ultimately show ?thesis using that(2) by blast
qed

lemma meta_rows:
  fixes rs :: "row list"
  assumes "axes_ok ax" "a < n_a ax" "\<forall>f\<in>{sm_name, sm_list_date, sm_delist_date, sm_list_sector, sm_exchange}. length (f m) = n_a ax"
  defines "m' \<equiv> foldl (meta_row ax) m rs"
  shows "(\<forall>f\<in>{sm_name, sm_list_date, sm_delist_date, sm_list_sector, sm_exchange}. length (f m') = n_a ax) \<and>
    (case find (\<lambda>r. cell_str (r ''instrument'') = ax_codes ax ! a) (rev rs) of
       None \<Rightarrow> sm_name m' ! a = sm_name m ! a \<and> sm_exchange m' ! a = sm_exchange m ! a \<and>
         sm_list_date m' ! a = sm_list_date m ! a \<and> sm_delist_date m' ! a = sm_delist_date m ! a \<and>
         sm_list_sector m' ! a = sm_list_sector m ! a
     | Some r \<Rightarrow> sm_name m' ! a = cell_str (r ''name'') \<and> sm_exchange m' ! a = cell_str (r ''exchange'') \<and>
         sm_list_date m' ! a = ymd_str (cell_yyyymmdd (r ''list_date'')) \<and>
         sm_delist_date m' ! a = ymd_str (cell_yyyymmdd (r ''delist_date'')) \<and>
         sm_list_sector m' ! a = list_sector_name (cell_i32 (r ''list_sector'') 0))"
  unfolding m'_def
proof (induction rs rule: rev_induct)
  case Nil
  with assms(3) show ?case by simp
next
  case (snoc r rs)
  define m1 where "m1 = foldl (meta_row ax) m rs"
  let ?s = "cell_str (r ''instrument'')"
  have fold: "foldl (meta_row ax) m (rs @ [r]) = meta_row ax m1 r" by (simp add: m1_def)
  note IH = snoc [folded m1_def]
  have idx: "ax_code_idx ax = index_map (ax_codes ax)" "distinct (ax_codes ax)"
    using assms(1) axes_ok_sorted(3) by (simp_all add: axes_ok_def)
  show ?case
  proof (cases "?s = ax_codes ax ! a")
    case True
    then have "ax_code_idx ax ?s = Some a" using idx assms(2) by (simp add: index_map_nth n_a_def)
    with True IH assms(2) show ?thesis unfolding fold by (simp add: meta_row_def)
  next
    case False
    show ?thesis
    proof (cases "ax_code_idx ax ?s")
      case (Some b)
      with False idx have "b \<noteq> a" using index_map_Some by fastforce
      with Some False IH show ?thesis unfolding fold by (simp add: meta_row_def split: option.splits)
    next
      case None
      with False IH show ?thesis unfolding fold by (simp add: meta_row_def split: option.splits)
    qed
  qed
qed

text \<open>What \<open>load_axes\<close> returns.\<close>

lemma loaded_axes:
  assumes "load_axes today start td bi = Ok ax"
  defines "dates \<equiv> as_set (concat (map (\<lambda>v. concat (map (cn_date today) v)) td))" and "codes \<equiv> as_set (concat (map (live_code start) bi))"
  shows "\<exists>days. ax = \<lparr>ax_dates = dates, ax_codes = codes, ax_date_days = days, ax_date_idx = index_map dates, ax_code_idx = index_map codes\<rparr> \<and>
    axes_ok ax"
proof -
  obtain days where d: "dates \<noteq> []" "parse_dates dates = Ok days" "codes \<noteq> []"
    and ax: "ax = \<lparr>ax_dates = dates, ax_codes = codes, ax_date_days = days, ax_date_idx = index_map dates, ax_code_idx = index_map codes\<rparr>"
    using assms by (auto simp: load_axes_def Let_def bind_ok_Ok_iff split: if_split_asm)
  have "axes_ok ax" using d parse_dates_Ok [OF d(2)] by (simp add: axes_ok_def ax dates_def codes_def as_set_sorted)
  with ax show ?thesis by blast
qed

section \<open>Properties\<close>

text \<open>Two trading days and two instruments for the witnesses.\<close>

definition td_row :: "string \<Rightarrow> string \<Rightarrow> row" where
  "td_row mc d = (\<lambda>c. if c = ''market_code'' then TextCell mc else if c = ''date'' then TextCell d else NullCell)"

definition bi_row :: "string \<Rightarrow> string \<Rightarrow> row" where
  "bi_row s d = (\<lambda>c. if c = ''instrument'' then TextCell s else if c = ''delist_date'' then TextCell d else NullCell)"

definition sample_axes :: axes where
  "sample_axes = \<lparr>ax_dates = [''20240102'', ''20240103''], ax_codes = [''A'', ''B''], ax_date_days = [19724, 19725],
     ax_date_idx = index_map [''20240102'', ''20240103''], ax_code_idx = index_map [''A'', ''B'']\<rparr>"

lemma sample_axes_loaded:
  "load_axes ''20240103'' ''20150101''
     [[td_row ''CN'' ''20240103'', td_row ''US'' ''20240102''], [td_row ''CN'' ''20240104'', td_row ''CN'' ''20240102'']]
     [bi_row ''B'' [], bi_row ''A'' ''20240104'', bi_row ''C'' ''20140102'', bi_row ''A'' []] = Ok sample_axes"
proof -
  have "is_date ''20240102''" "is_date ''20240103''" "is_date ''20240104''" "is_date ''20140102''" by code_simp+
  then have e: "ymd_str (cell_yyyymmdd (TextCell s)) = s"
    if "s \<in> {''20240102'', ''20240103'', ''20240104'', ''20140102''}" for s
    using that ymd_str_text by blast
  have p: "parse_yyyymmdd ''20240102'' = Ok 19724" "parse_yyyymmdd ''20240103'' = Ok 19725" by code_simp+
  have "ymd_str (cell_yyyymmdd (TextCell [])) = []" by code_simp
  moreover have "as_set [''20240103'', ''20240102''] = [''20240102'', ''20240103'']" "as_set [''B'', ''A'', ''A''] = [''A'', ''B'']"
    by code_simp+
  ultimately show ?thesis
    by (simp add: load_axes_def cn_date_def live_code_def td_row_def bi_row_def e p sample_axes_def Let_def cell_str_def
        less_char_byte byte_def)
qed

text \<open>The axes are built as the documentation says: the dates are, ascending and without
  repetition, exactly the dates of the CN rows that are not after today; the codes are, likewise,
  exactly the instruments that were not delisted before the start; the two index maps are the
  inverse of indexing, and every date text has its day number.\<close>

theorem load_axes_spec:
  assumes "load_axes today start td bi = Ok ax"
  shows "axes_ok ax \<and>
    set (ax_dates ax) = {d. \<exists>v\<in>set td. \<exists>r\<in>set v. cell_str (r ''market_code'') = ''CN'' \<and>
       d = ymd_str (cell_yyyymmdd (r ''date'')) \<and> d \<noteq> [] \<and> d \<le> today} \<and>
    set (ax_codes ax) = {s. \<exists>r\<in>set bi. s = cell_str (r ''instrument'') \<and> s \<noteq> [] \<and>
       (let d = ymd_str (cell_yyyymmdd (r ''delist_date'')) in d = [] \<or> start \<le> d)} \<and>
    (\<forall>i < n_d ax. ax_date_idx ax (ax_dates ax ! i) = Some i) \<and>
    (\<forall>i < n_a ax. ax_code_idx ax (ax_codes ax ! i) = Some i)"
proof -
  let ?D = "concat (map (\<lambda>v. concat (map (cn_date today) v)) td)" and ?C = "concat (map (live_code start) bi)"
  obtain days where ax: "ax = \<lparr>ax_dates = as_set ?D, ax_codes = as_set ?C, ax_date_days = days,
      ax_date_idx = index_map (as_set ?D), ax_code_idx = index_map (as_set ?C)\<rparr>" and "axes_ok ax"
    using loaded_axes [OF assms] by blast
  note \<open>axes_ok ax\<close>
  moreover have "set ?D = {d. \<exists>v\<in>set td. \<exists>r\<in>set v. cell_str (r ''market_code'') = ''CN'' \<and>
       d = ymd_str (cell_yyyymmdd (r ''date'')) \<and> d \<noteq> [] \<and> d \<le> today}"
    by (auto simp: cn_date_def Let_def not_less split: if_split_asm)
  moreover have "set ?C = {s. \<exists>r\<in>set bi. s = cell_str (r ''instrument'') \<and> s \<noteq> [] \<and>
       (let d = ymd_str (cell_yyyymmdd (r ''delist_date'')) in d = [] \<or> start \<le> d)}"
    by (auto simp: live_code_def Let_def not_less split: if_split_asm)
  ultimately show ?thesis
    by (simp add: ax as_set_sorted index_map_nth n_d_def n_a_def)
qed

lemma load_axes_spec_witness:
  "axes_ok sample_axes \<and> ax_date_idx sample_axes ''20240103'' = Some 1 \<and> ax_code_idx sample_axes ''B'' = Some 1"
proof -
  note s = load_axes_spec [OF sample_axes_loaded]
  have "axes_ok sample_axes" using s by (rule conjunct1)
  moreover have "\<forall>i < n_d sample_axes. ax_date_idx sample_axes (ax_dates sample_axes ! i) = Some i"
    "\<forall>i < n_a sample_axes. ax_code_idx sample_axes (ax_codes sample_axes ! i) = Some i"
    using s [THEN conjunct2, THEN conjunct2, THEN conjunct2] by (rule conjunct1, rule conjunct2)
  moreover have "n_d sample_axes = 2" "n_a sample_axes = 2" "ax_dates sample_axes ! 1 = ''20240103''"
    "ax_codes sample_axes ! 1 = ''B''" by (simp_all add: sample_axes_def n_d_def n_a_def)
  ultimately show ?thesis by (metis one_less_numeral_iff semiring_norm(76))
qed

text \<open>\<open>floor_date\<close> finds the last trading day that is not after the given date, or -1 when every
  trading day is after it.\<close>

theorem floor_date_spec:
  assumes "axes_ok ax"
  shows "(floor_date ax d = -1 \<and> (\<forall>i < n_d ax. d < ax_dates ax ! i)) \<or>
    (\<exists>k. floor_date ax d = int k \<and> k < n_d ax \<and> ax_dates ax ! k \<le> d \<and> (\<forall>i < n_d ax. k < i \<longrightarrow> d < ax_dates ax ! i))"
  using axes_ok_sorted(1) [OF assms] by (cases rule: floor_date_cases [of ax d]) auto

lemma floor_date_spec_witness: "axes_ok sample_axes \<and> floor_date sample_axes ''20240106'' = 1"
proof -
  have ok: "axes_ok sample_axes" by (simp add: axes_ok_def sample_axes_def less_char_byte byte_def) code_simp
  have "\<not> ''20240106'' < ax_dates sample_axes ! 1" "1 < n_d sample_axes"
    by (simp_all add: sample_axes_def n_d_def less_char_byte byte_def)
  with floor_date_spec [OF ok, of "''20240106''"] ok show ?thesis
    by (auto simp: n_d_def sample_axes_def less_Suc_eq numeral_2_eq_2)
qed

text \<open>The static information stands in the order of the codes: every column has one entry per
  code, and the entries of a code are those of the last row of its instrument (empty without one).\<close>

theorem load_stock_meta_spec:
  assumes "axes_ok ax" "load_stock_meta ax bi = Ok m" "a < n_a ax"
  shows "length (sm_name m) = n_a ax \<and> length (sm_exchange m) = n_a ax \<and> length (sm_list_date m) = n_a ax \<and>
    length (sm_delist_date m) = n_a ax \<and> length (sm_list_sector m) = n_a ax \<and>
    (case find (\<lambda>r. cell_str (r ''instrument'') = ax_codes ax ! a) (rev bi) of
       None \<Rightarrow> sm_name m ! a = [] \<and> sm_exchange m ! a = [] \<and> sm_list_date m ! a = [] \<and> sm_delist_date m ! a = [] \<and>
         sm_list_sector m ! a = []
     | Some r \<Rightarrow> sm_name m ! a = cell_str (r ''name'') \<and> sm_exchange m ! a = cell_str (r ''exchange'') \<and>
         sm_list_date m ! a = ymd_str (cell_yyyymmdd (r ''list_date'')) \<and>
         sm_delist_date m ! a = ymd_str (cell_yyyymmdd (r ''delist_date'')) \<and>
         sm_list_sector m ! a = list_sector_name (cell_i32 (r ''list_sector'') 0))"
proof -
  let ?e = "replicate (n_a ax) []"
  let ?m = "\<lparr>sm_name = ?e, sm_list_date = ?e, sm_delist_date = ?e, sm_list_sector = ?e, sm_exchange = ?e\<rparr>"
  have "m = foldl (meta_row ax) ?m bi" using assms(2) by (auto simp: load_stock_meta_def Let_def split: if_split_asm)
  with meta_rows [OF assms(1,3), of ?m bi] assms(3) show ?thesis by (simp split: option.splits)
qed

lemma load_stock_meta_spec_witness:
  "\<exists>m. load_stock_meta sample_axes [bi_row ''B'' [], bi_row ''Z'' []] = Ok m \<and> length (sm_name m) = 2 \<and>
     sm_list_sector m ! 1 = LIST_SECTOR_NAMES ! 0 \<and> sm_list_sector m ! 0 = []"
proof -
  obtain m where m: "load_stock_meta sample_axes [bi_row ''B'' [], bi_row ''Z'' []] = Ok m"
    by (auto simp: load_stock_meta_def Let_def)
  have ok: "axes_ok sample_axes" by (simp add: axes_ok_def sample_axes_def less_char_byte byte_def) code_simp
  have n: "n_a sample_axes = 2" by (simp add: sample_axes_def n_a_def)
  have r: "find (\<lambda>r. cell_str (r ''instrument'') = ax_codes sample_axes ! 1) (rev [bi_row ''B'' [], bi_row ''Z'' []]) =
      Some (bi_row ''B'' [])"
    "find (\<lambda>r. cell_str (r ''instrument'') = ax_codes sample_axes ! 0) (rev [bi_row ''B'' [], bi_row ''Z'' []]) = None"
    by (simp_all add: bi_row_def cell_str_def sample_axes_def)
  have s: "list_sector_name (cell_i32 (bi_row ''B'' [] ''list_sector'') 0) = LIST_SECTOR_NAMES ! 0" by code_simp
  have "length (sm_name m) = 2" "sm_list_sector m ! 1 = LIST_SECTOR_NAMES ! 0"
    using load_stock_meta_spec [OF ok m, of 1] unfolding r(1) n option.case s by simp_all
  moreover have "sm_list_sector m ! 0 = []"
    using load_stock_meta_spec [OF ok m, of 0] unfolding r(2) n option.case by simp
  ultimately show ?thesis using m by blast
qed

end
