(* ===== verification/Pit.thy ===== *)
theory Pit
  imports Axis
begin

text \<open>
  The point-in-time pool (\<open>cpp/include/feature/pit.hpp\<close>, \<open>cpp/src/feature/pit.cpp\<close>): grids with a
  cell per instrument and trading day, and stores of dated events per instrument, filled from the
  monthly tables. Row \<open>D\<close> may hold only what was visible by day \<open>D + CUTOFF\<close>.

  A file is the list of its rows. The months are read in the order of the list; the parallel reader
  of the source gives each month to one thread and cells of different months differ. The memo of a
  row lookup only saves repeated lookups and is left out.
\<close>

type_synonym month_files = "row list list"

section \<open>Industries (feature/industry.hpp, industry.cpp)\<close>

definition SW2021_L1_NAMES :: "string list" where
  "SW2021_L1_NAMES =
     [[CHR 0xE6, CHR 0x9C, CHR 0xAA, CHR 0xE7, CHR 0x9F, CHR 0xA5],
      [CHR 0xE4, CHR 0xBA, CHR 0xA4, CHR 0xE9, CHR 0x80, CHR 0x9A, CHR 0xE8, CHR 0xBF, CHR 0x90, CHR 0xE8,
         CHR 0xBE, CHR 0x93],
      [CHR 0xE4, CHR 0xBC, CHR 0xA0, CHR 0xE5, CHR 0xAA, CHR 0x92],
      [CHR 0xE5, CHR 0x85, CHR 0xAC, CHR 0xE7, CHR 0x94, CHR 0xA8, CHR 0xE4, CHR 0xBA, CHR 0x8B, CHR 0xE4,
         CHR 0xB8, CHR 0x9A],
      [CHR 0xE5, CHR 0x86, CHR 0x9C, CHR 0xE6, CHR 0x9E, CHR 0x97, CHR 0xE7, CHR 0x89, CHR 0xA7, CHR 0xE6,
         CHR 0xB8, CHR 0x94],
      [CHR 0xE5, CHR 0x8C, CHR 0xBB, CHR 0xE8, CHR 0x8D, CHR 0xAF, CHR 0xE7, CHR 0x94, CHR 0x9F, CHR 0xE7,
         CHR 0x89, CHR 0xA9],
      [CHR 0xE5, CHR 0x95, CHR 0x86, CHR 0xE8, CHR 0xB4, CHR 0xB8, CHR 0xE9, CHR 0x9B, CHR 0xB6, CHR 0xE5,
         CHR 0x94, CHR 0xAE],
      [CHR 0xE5, CHR 0x9B, CHR 0xBD, CHR 0xE9, CHR 0x98, CHR 0xB2, CHR 0xE5, CHR 0x86, CHR 0x9B, CHR 0xE5,
         CHR 0xB7, CHR 0xA5],
      [CHR 0xE5, CHR 0x9F, CHR 0xBA, CHR 0xE7, CHR 0xA1, CHR 0x80, CHR 0xE5, CHR 0x8C, CHR 0x96, CHR 0xE5,
         CHR 0xB7, CHR 0xA5],
      [CHR 0xE5, CHR 0xAE, CHR 0xB6, CHR 0xE7, CHR 0x94, CHR 0xA8, CHR 0xE7, CHR 0x94, CHR 0xB5, CHR 0xE5,
         CHR 0x99, CHR 0xA8],
      [CHR 0xE5, CHR 0xBB, CHR 0xBA, CHR 0xE7, CHR 0xAD, CHR 0x91, CHR 0xE6, CHR 0x9D, CHR 0x90, CHR 0xE6,
         CHR 0x96, CHR 0x99],
      [CHR 0xE5, CHR 0xBB, CHR 0xBA, CHR 0xE7, CHR 0xAD, CHR 0x91, CHR 0xE8, CHR 0xA3, CHR 0x85, CHR 0xE9,
         CHR 0xA5, CHR 0xB0],
      [CHR 0xE6, CHR 0x88, CHR 0xBF, CHR 0xE5, CHR 0x9C, CHR 0xB0, CHR 0xE4, CHR 0xBA, CHR 0xA7],
      [CHR 0xE6, CHR 0x9C, CHR 0x89, CHR 0xE8, CHR 0x89, CHR 0xB2, CHR 0xE9, CHR 0x87, CHR 0x91, CHR 0xE5,
         CHR 0xB1, CHR 0x9E],
      [CHR 0xE6, CHR 0x9C, CHR 0xBA, CHR 0xE6, CHR 0xA2, CHR 0xB0, CHR 0xE8, CHR 0xAE, CHR 0xBE, CHR 0xE5,
         CHR 0xA4, CHR 0x87],
      [CHR 0xE6, CHR 0xB1, CHR 0xBD, CHR 0xE8, CHR 0xBD, CHR 0xA6],
      [CHR 0xE7, CHR 0x85, CHR 0xA4, CHR 0xE7, CHR 0x82, CHR 0xAD],
      [CHR 0xE7, CHR 0x8E, CHR 0xAF, CHR 0xE4, CHR 0xBF, CHR 0x9D],
      [CHR 0xE7, CHR 0x94, CHR 0xB5, CHR 0xE5, CHR 0x8A, CHR 0x9B, CHR 0xE8, CHR 0xAE, CHR 0xBE, CHR 0xE5,
         CHR 0xA4, CHR 0x87],
      [CHR 0xE7, CHR 0x94, CHR 0xB5, CHR 0xE5, CHR 0xAD, CHR 0x90],
      [CHR 0xE7, CHR 0x9F, CHR 0xB3, CHR 0xE6, CHR 0xB2, CHR 0xB9, CHR 0xE7, CHR 0x9F, CHR 0xB3, CHR 0xE5,
         CHR 0x8C, CHR 0x96],
      [CHR 0xE7, CHR 0xA4, CHR 0xBE, CHR 0xE4, CHR 0xBC, CHR 0x9A, CHR 0xE6, CHR 0x9C, CHR 0x8D, CHR 0xE5,
         CHR 0x8A, CHR 0xA1],
      [CHR 0xE7, CHR 0xBA, CHR 0xBA, CHR 0xE7, CHR 0xBB, CHR 0x87, CHR 0xE6, CHR 0x9C, CHR 0x8D, CHR 0xE9,
         CHR 0xA5, CHR 0xB0],
      [CHR 0xE7, CHR 0xBB, CHR 0xBC, CHR 0xE5, CHR 0x90, CHR 0x88],
      [CHR 0xE7, CHR 0xBE, CHR 0x8E, CHR 0xE5, CHR 0xAE, CHR 0xB9, CHR 0xE6, CHR 0x8A, CHR 0xA4, CHR 0xE7,
         CHR 0x90, CHR 0x86],
      [CHR 0xE8, CHR 0xAE, CHR 0xA1, CHR 0xE7, CHR 0xAE, CHR 0x97, CHR 0xE6, CHR 0x9C, CHR 0xBA],
      [CHR 0xE8, CHR 0xBD, CHR 0xBB, CHR 0xE5, CHR 0xB7, CHR 0xA5, CHR 0xE5, CHR 0x88, CHR 0xB6, CHR 0xE9,
         CHR 0x80, CHR 0xA0],
      [CHR 0xE9, CHR 0x80, CHR 0x9A, CHR 0xE4, CHR 0xBF, CHR 0xA1],
      [CHR 0xE9, CHR 0x92, CHR 0xA2, CHR 0xE9, CHR 0x93, CHR 0x81],
      [CHR 0xE9, CHR 0x93, CHR 0xB6, CHR 0xE8, CHR 0xA1, CHR 0x8C],
      [CHR 0xE9, CHR 0x9D, CHR 0x9E, CHR 0xE9, CHR 0x93, CHR 0xB6, CHR 0xE9, CHR 0x87, CHR 0x91, CHR 0xE8,
         CHR 0x9E, CHR 0x8D],
      [CHR 0xE9, CHR 0xA3, CHR 0x9F, CHR 0xE5, CHR 0x93, CHR 0x81, CHR 0xE9, CHR 0xA5, CHR 0xAE, CHR 0xE6,
         CHR 0x96, CHR 0x99]]"

fun name_index :: "string list \<Rightarrow> string \<Rightarrow> nat \<Rightarrow> nat" where
  "name_index [] name i = 0"
| "name_index (x # xs) name i = (if x = name then i else name_index xs name (i + 1))"

definition sw2021_l1_name_to_id :: "string \<Rightarrow> nat" where
  "sw2021_l1_name_to_id name = (if name = [] then 0 else name_index (tl SW2021_L1_NAMES) name 1)"

definition sw2021_l1_id_to_name :: "nat \<Rightarrow> string" where
  "sw2021_l1_id_to_name i = (if i < length SW2021_L1_NAMES then SW2021_L1_NAMES ! i else SW2021_L1_NAMES ! 0)"

section \<open>Event stores\<close>

text \<open>Offsets are unsigned 32-bit numbers.\<close>

record 'e event_store =
  es_offsets :: "nat list"
  es_events :: "'e list"
  es_chains :: "'e list list"

definition wrap_u32 :: "nat \<Rightarrow> nat" where
  "wrap_u32 n = n mod 4294967296"

definition resize_chains :: "nat \<Rightarrow> 'e event_store" where
  "resize_chains n = \<lparr>es_offsets = [], es_events = [], es_chains = replicate n []\<rparr>"

definition push_chain :: "nat \<Rightarrow> 'e \<Rightarrow> 'e event_store \<Rightarrow> 'e event_store" where
  "push_chain a e st = st\<lparr>es_chains := (es_chains st)[a := es_chains st ! a @ [e]]\<rparr>"

definition sort_chains :: "('e \<Rightarrow> int) \<Rightarrow> 'e event_store \<Rightarrow> 'e event_store" where
  "sort_chains v st = st\<lparr>es_chains := map (sort_key v) (es_chains st)\<rparr>"

fun offsets_from :: "nat \<Rightarrow> 'e list list \<Rightarrow> nat list" where
  "offsets_from tot [] = []"
| "offsets_from tot (c # cs) = wrap_u32 (tot + length c) # offsets_from (tot + length c) cs"

definition finalize_store :: "'e event_store \<Rightarrow> 'e event_store" where
  "finalize_store st =
     \<lparr>es_offsets = 0 # offsets_from 0 (es_chains st), es_events = concat (es_chains st), es_chains = []\<rparr>"

definition store_n_a :: "'e event_store \<Rightarrow> nat" where
  "store_n_a st = (if es_offsets st = [] then 0 else length (es_offsets st) - 1)"

definition store_at :: "'e event_store \<Rightarrow> nat \<Rightarrow> 'e list" where
  "store_at st a = (let lo = es_offsets st ! a; hi = es_offsets st ! (a + 1) in take (hi - lo) (drop lo (es_events st)))"

section \<open>Values, rows and instruments\<close>

definition positive_or_inf :: "fval \<Rightarrow> fval" where
  "positive_or_inf x = (case x of NaN \<Rightarrow> NaN | Fin r \<Rightarrow> if r > 0 then x else PInf | _ \<Rightarrow> PInf)"

definition non_negative_or_inf :: "fval \<Rightarrow> fval" where
  "non_negative_or_inf x = (case x of NaN \<Rightarrow> NaN | Fin r \<Rightarrow> if r \<ge> 0 then x else PInf | _ \<Rightarrow> PInf)"

definition lookup_a :: "axes \<Rightarrow> string \<Rightarrow> nat option" where
  "lookup_a ax code = (if code = [] then None else ax_code_idx ax code)"

definition row_in_range :: "axes \<Rightarrow> int \<Rightarrow> nat option" where
  "row_in_range ax cand = (if 0 \<le> cand \<and> cand < int (n_d ax) then Some (nat cand) else None)"

definition grid_row :: "axes \<Rightarrow> int \<Rightarrow> int \<Rightarrow> nat option" where
  "grid_row ax cutoff ymd =
     (case ax_date_idx ax (ymd_str ymd) of None \<Rightarrow> None | Some i \<Rightarrow> row_in_range ax (int i - cutoff))"

definition event_row :: "axes \<Rightarrow> int \<Rightarrow> int \<Rightarrow> nat option" where
  "event_row ax cutoff ymd =
     (let v = floor_date ax (ymd_str ymd) in if v \<ge> 0 then row_in_range ax (v - cutoff) else None)"

section \<open>Grids\<close>

definition grid_n :: "axes \<Rightarrow> nat" where
  "grid_n ax = n_a ax * n_d ax"

text \<open>One record written to its cell; \<open>dc\<close> is the date column and \<open>f\<close> reads the field.\<close>

definition write_cell :: "axes \<Rightarrow> int \<Rightarrow> (row \<Rightarrow> 'v) \<Rightarrow> 'v list \<Rightarrow> row \<Rightarrow> 'v list" where
  "write_cell ax cutoff f g r =
     (case grid_row ax cutoff (cell_yyyymmdd (r ''date'')) of
        None \<Rightarrow> g
      | Some d \<Rightarrow>
          (case lookup_a ax (cell_str (r ''instrument'')) of
             None \<Rightarrow> g
           | Some a \<Rightarrow> g[a * n_d ax + d := f r]))"

definition build_grid :: "axes \<Rightarrow> int \<Rightarrow> 'v \<Rightarrow> (row \<Rightarrow> 'v) \<Rightarrow> month_files \<Rightarrow> 'v list" where
  "build_grid ax cutoff init f files =
     foldl (foldl (write_cell ax cutoff f)) (replicate (grid_n ax) init) files"

text \<open>Forward fill of one instrument's row, and of all of them.\<close>

fun ffill_row :: "fval \<Rightarrow> fval list \<Rightarrow> fval list" where
  "ffill_row lst [] = []"
| "ffill_row lst (v # vs) =
     (if is_finite v then v # ffill_row v vs
      else if v = NaN \<and> is_finite lst then lst # ffill_row lst vs
      else v # ffill_row lst vs)"

fun grid_ffill :: "fval list \<Rightarrow> nat \<Rightarrow> nat \<Rightarrow> fval list" where
  "grid_ffill g 0 d = g"
| "grid_ffill g (Suc a) d = ffill_row NaN (take d g) @ grid_ffill (drop d g) a d"

record grid_bar1d =
  gb_close :: "fval list"
  gb_adjust_factor :: "fval list"

record grid_shares =
  gs_total_shares :: "fval list"
  gs_a_float_shares :: "fval list"

record grid_limit_price =
  gl_upper_limit :: "fval list"
  gl_lower_limit :: "fval list"

record grid_status =
  gt_st_status :: "int list"
  gt_suspended :: "int list"

record grid_margin_detail =
  gm_is_margin :: "int list"
  gm_financing_balance :: "fval list"
  gm_securities_lending_balance :: "fval list"

definition f32_of :: "(real \<Rightarrow> fval) \<Rightarrow> string \<Rightarrow> row \<Rightarrow> fval" where
  "f32_of rnd c r = cell_f32 rnd (r c)"

definition build_bar1d :: "(real \<Rightarrow> fval) \<Rightarrow> axes \<Rightarrow> month_files \<Rightarrow> grid_bar1d" where
  "build_bar1d rnd ax files =
     \<lparr>gb_close = build_grid ax (-1) NaN (positive_or_inf \<circ> f32_of rnd ''close'') files,
      gb_adjust_factor = build_grid ax (-1) NaN (positive_or_inf \<circ> f32_of rnd ''adjust_factor'') files\<rparr>"

definition ffill_bar1d :: "axes \<Rightarrow> grid_bar1d \<Rightarrow> grid_bar1d" where
  "ffill_bar1d ax g = \<lparr>gb_close = grid_ffill (gb_close g) (n_a ax) (n_d ax),
      gb_adjust_factor = grid_ffill (gb_adjust_factor g) (n_a ax) (n_d ax)\<rparr>"

definition build_shares :: "(real \<Rightarrow> fval) \<Rightarrow> axes \<Rightarrow> month_files \<Rightarrow> grid_shares" where
  "build_shares rnd ax files =
     \<lparr>gs_total_shares = build_grid ax (-1) NaN (positive_or_inf \<circ> f32_of rnd ''total_shares'') files,
      gs_a_float_shares = build_grid ax (-1) NaN (positive_or_inf \<circ> f32_of rnd ''a_float_shares'') files\<rparr>"

definition ffill_shares :: "axes \<Rightarrow> grid_shares \<Rightarrow> grid_shares" where
  "ffill_shares ax g = \<lparr>gs_total_shares = grid_ffill (gs_total_shares g) (n_a ax) (n_d ax),
      gs_a_float_shares = grid_ffill (gs_a_float_shares g) (n_a ax) (n_d ax)\<rparr>"

definition build_limit_price :: "(real \<Rightarrow> fval) \<Rightarrow> axes \<Rightarrow> month_files \<Rightarrow> grid_limit_price" where
  "build_limit_price rnd ax files =
     \<lparr>gl_upper_limit = build_grid ax (-1) NaN (positive_or_inf \<circ> f32_of rnd ''upper_limit'') files,
      gl_lower_limit = build_grid ax (-1) NaN (positive_or_inf \<circ> f32_of rnd ''lower_limit'') files\<rparr>"

definition ffill_limit_price :: "axes \<Rightarrow> grid_limit_price \<Rightarrow> grid_limit_price" where
  "ffill_limit_price ax g = \<lparr>gl_upper_limit = grid_ffill (gl_upper_limit g) (n_a ax) (n_d ax),
      gl_lower_limit = grid_ffill (gl_lower_limit g) (n_a ax) (n_d ax)\<rparr>"

text \<open>The four states: normal, ST, *ST, and the delisting period (only the risk warning left).\<close>

definition st_of_row :: "row \<Rightarrow> int" where
  "st_of_row r =
     (let st = cell_i32 (r ''st_status'') 0; rw = cell_i32 (r ''is_risk_warning'') 0
      in if st = 1 then 1 else if st = 2 then 2 else if rw \<noteq> 0 then 3 else 0)"

definition suspended_of_row :: "row \<Rightarrow> int" where
  "suspended_of_row r = (if cell_i32 (r ''suspended'') 0 \<noteq> 0 then 1 else 0)"

definition build_status :: "axes \<Rightarrow> month_files \<Rightarrow> grid_status" where
  "build_status ax files = \<lparr>gt_st_status = build_grid ax 0 0 st_of_row files,
      gt_suspended = build_grid ax 0 0 suspended_of_row files\<rparr>"

definition build_margin_detail :: "(real \<Rightarrow> fval) \<Rightarrow> axes \<Rightarrow> month_files \<Rightarrow> grid_margin_detail" where
  "build_margin_detail rnd ax files =
     \<lparr>gm_is_margin = build_grid ax 0 0 (\<lambda>r. 1) files,
      gm_financing_balance = build_grid ax 0 NaN (non_negative_or_inf \<circ> f32_of rnd ''financing_balance'') files,
      gm_securities_lending_balance =
        build_grid ax 0 NaN (non_negative_or_inf \<circ> f32_of rnd ''securities_lending_balance'') files\<rparr>"

section \<open>Events\<close>

text \<open>
  The reader all event tables share: a row is taken if \<open>accept\<close> holds, its visible date (column
  \<open>vc\<close>) has a row and its instrument (column \<open>ic\<close>) is on the axis; \<open>mk\<close> makes the event, and may
  look at the whole file.
\<close>

definition event_of ::
  "axes \<Rightarrow> int \<Rightarrow> string \<Rightarrow> string \<Rightarrow> (row \<Rightarrow> bool) \<Rightarrow> (nat \<Rightarrow> nat \<Rightarrow> row \<Rightarrow> 'e) \<Rightarrow> row \<Rightarrow> (nat \<times> 'e) option" where
  "event_of ax cutoff vc ic accept mk r =
     (if \<not> accept r then None
      else case event_row ax cutoff (cell_yyyymmdd (r vc)) of
        None \<Rightarrow> None
      | Some d \<Rightarrow> (case lookup_a ax (cell_str (r ic)) of None \<Rightarrow> None | Some a \<Rightarrow> Some (a, mk a d r)))"

definition push_row ::
  "axes \<Rightarrow> int \<Rightarrow> string \<Rightarrow> string \<Rightarrow> (row \<Rightarrow> bool) \<Rightarrow> (nat \<Rightarrow> nat \<Rightarrow> row \<Rightarrow> 'e) \<Rightarrow> 'e event_store \<Rightarrow> row \<Rightarrow> 'e event_store" where
  "push_row ax cutoff vc ic accept mk st r =
     (case event_of ax cutoff vc ic accept mk r of None \<Rightarrow> st | Some (a, e) \<Rightarrow> push_chain a e st)"

definition build_events ::
  "('e \<Rightarrow> int) \<Rightarrow> axes \<Rightarrow> int \<Rightarrow> string \<Rightarrow> string \<Rightarrow> (row \<Rightarrow> bool) \<Rightarrow> (row list \<Rightarrow> nat \<Rightarrow> nat \<Rightarrow> row \<Rightarrow> 'e) \<Rightarrow>
   month_files \<Rightarrow> 'e event_store" where
  "build_events v ax cutoff vc ic accept mk files =
     finalize_store (sort_chains v
       (foldl (\<lambda>st file. foldl (push_row ax cutoff vc ic accept (mk file)) st file) (resize_chains (n_a ax)) files))"

record industry_ev =
  ie_v :: int
  ie_l1_id :: nat

record dividend_ev =
  de_v :: int
  de_report_date :: int
  de_ex_date :: int
  de_cash_before_tax :: fval
  de_cash_after_tax :: fval

record financial_ttm_ev =
  te_v :: int
  te_report_date :: int
  te_total_operating_revenue_ttm :: fval
  te_net_profit_to_parent_shareholders_ttm :: fval
  te_net_profit_ttm :: fval
  te_net_cffoa_ttm :: fval
  te_net_cffoa_ttm_shift4 :: fval

record financial_balance_ev =
  be_v :: int
  be_report_date :: int
  be_total_owner_equity :: fval
  be_total_equity_to_parent_shareholders :: fval
  be_total_assets :: fval

record financial_income_annual_ev =
  ae_v :: int
  ae_report_date :: int
  ae_net_profit_to_parent_shareholders :: fval

datatype forecast_type = OtherForecast | FirstLoss | ContinueLoss

record forecast_ev =
  fe_v :: int
  fe_end_date :: int
  fe_type :: forecast_type
  fe_last_parent_net :: fval

definition parse_forecast_type :: "string \<Rightarrow> forecast_type" where
  "parse_forecast_type s =
     (if s = [CHR 0xE9, CHR 0xA6, CHR 0x96, CHR 0xE4, CHR 0xBA, CHR 0x8F] then FirstLoss
      else if s = [CHR 0xE7, CHR 0xBB, CHR 0xAD, CHR 0xE4, CHR 0xBA, CHR 0x8F] then ContinueLoss else OtherForecast)"

definition accept_industry_component :: "row \<Rightarrow> bool" where
  "accept_industry_component r \<longleftrightarrow> cell_str (r ''industry'') = ''sw2021''"

definition mk_industry_component :: "axes \<Rightarrow> row list \<Rightarrow> nat \<Rightarrow> nat \<Rightarrow> row \<Rightarrow> industry_ev" where
  "mk_industry_component ax fl a d r = \<lparr>ie_v = int d, ie_l1_id = sw2021_l1_name_to_id (cell_str (r ''industry_level1_name''))\<rparr>"

definition build_industry_component :: "axes \<Rightarrow> month_files \<Rightarrow> industry_ev event_store" where
  "build_industry_component ax = build_events ie_v ax (-1) ''date'' ''instrument'' accept_industry_component
     (mk_industry_component ax)"

definition accept_industry_change :: "row \<Rightarrow> bool" where
  "accept_industry_change r \<longleftrightarrow> cell_str (r ''industry'') = ''sw2021'' \<and> cell_i32 (r ''industry_level'') 0 = 1 \<and>
     cell_i32 (r ''change_flag'') (-1) = 1"

definition mk_industry_change :: "axes \<Rightarrow> row list \<Rightarrow> nat \<Rightarrow> nat \<Rightarrow> row \<Rightarrow> industry_ev" where
  "mk_industry_change ax fl a d r = \<lparr>ie_v = int d, ie_l1_id = sw2021_l1_name_to_id (cell_str (r ''industry_name''))\<rparr>"

definition build_industry_change :: "axes \<Rightarrow> month_files \<Rightarrow> industry_ev event_store" where
  "build_industry_change ax = build_events ie_v ax (-1) ''date'' ''instrument'' accept_industry_change
     (mk_industry_change ax)"

definition mk_dividend :: "(real \<Rightarrow> fval) \<Rightarrow> axes \<Rightarrow> row list \<Rightarrow> nat \<Rightarrow> nat \<Rightarrow> row \<Rightarrow> dividend_ev" where
  "mk_dividend rnd ax fl a d r = \<lparr>de_v = int d, de_report_date = cell_yyyymmdd (r ''report_date''),
      de_ex_date = cell_yyyymmdd (r ''ex_date''), de_cash_before_tax = f32_of rnd ''cash_before_tax'' r,
      de_cash_after_tax = f32_of rnd ''cash_after_tax'' r\<rparr>"

definition build_dividend :: "(real \<Rightarrow> fval) \<Rightarrow> axes \<Rightarrow> month_files \<Rightarrow> dividend_ev event_store" where
  "build_dividend rnd ax = build_events de_v ax (-1) ''publish_date'' ''instrument'' (\<lambda>r. True)
     (mk_dividend rnd ax)"

text \<open>The key of the table of the records four quarters back, and that table (the last record of a
  key counts).\<close>

definition shift4_key :: "axes \<Rightarrow> int \<Rightarrow> nat \<Rightarrow> int" where
  "shift4_key ax date a = date * (int (n_a ax) + 1) + int a"

definition shift4_entry :: "(real \<Rightarrow> fval) \<Rightarrow> axes \<Rightarrow> row \<Rightarrow> (int \<times> fval) list" where
  "shift4_entry rnd ax r =
     (if cell_i32 (r ''shift'') (-1) \<noteq> 4 then []
      else case lookup_a ax (cell_str (r ''instrument'')) of None \<Rightarrow> []
        | Some a \<Rightarrow> [(shift4_key ax (cell_yyyymmdd (r ''date'')) a, f32_of rnd ''net_cffoa_ttm'' r)])"

definition shift4_cf :: "(real \<Rightarrow> fval) \<Rightarrow> axes \<Rightarrow> row list \<Rightarrow> int \<Rightarrow> fval" where
  "shift4_cf rnd ax file key =
     (case map_of (rev (concat (map (shift4_entry rnd ax) file))) key of None \<Rightarrow> NaN | Some x \<Rightarrow> x)"

definition accept_financial_ttm :: "row \<Rightarrow> bool" where
  "accept_financial_ttm r \<longleftrightarrow> cell_i32 (r ''shift'') (-1) = 0"

definition mk_financial_ttm :: "(real \<Rightarrow> fval) \<Rightarrow> axes \<Rightarrow> row list \<Rightarrow> nat \<Rightarrow> nat \<Rightarrow> row \<Rightarrow> financial_ttm_ev" where
  "mk_financial_ttm rnd ax fl a d r = \<lparr>te_v = int d, te_report_date = cell_yyyymmdd (r ''report_date''),
      te_total_operating_revenue_ttm = f32_of rnd ''total_operating_revenue_ttm'' r,
      te_net_profit_to_parent_shareholders_ttm = f32_of rnd ''net_profit_to_parent_shareholders_ttm'' r,
      te_net_profit_ttm = f32_of rnd ''net_profit_ttm'' r,
      te_net_cffoa_ttm = f32_of rnd ''net_cffoa_ttm'' r,
      te_net_cffoa_ttm_shift4 = shift4_cf rnd ax fl (shift4_key ax (cell_yyyymmdd (r ''date'')) a)\<rparr>"

definition build_financial_ttm :: "(real \<Rightarrow> fval) \<Rightarrow> axes \<Rightarrow> month_files \<Rightarrow> financial_ttm_ev event_store" where
  "build_financial_ttm rnd ax = build_events te_v ax (-1) ''date'' ''instrument'' accept_financial_ttm
     (mk_financial_ttm rnd ax)"

definition mk_financial_balance :: "(real \<Rightarrow> fval) \<Rightarrow> axes \<Rightarrow> row list \<Rightarrow> nat \<Rightarrow> nat \<Rightarrow> row \<Rightarrow> financial_balance_ev" where
  "mk_financial_balance rnd ax fl a d r = \<lparr>be_v = int d, be_report_date = cell_yyyymmdd (r ''report_date''),
      be_total_owner_equity = f32_of rnd ''total_owner_equity'' r,
      be_total_equity_to_parent_shareholders = f32_of rnd ''total_equity_to_parent_shareholders'' r,
      be_total_assets = f32_of rnd ''total_assets'' r\<rparr>"

definition build_financial_balance :: "(real \<Rightarrow> fval) \<Rightarrow> axes \<Rightarrow> month_files \<Rightarrow> financial_balance_ev event_store" where
  "build_financial_balance rnd ax = build_events be_v ax (-1) ''date'' ''instrument'' (\<lambda>r. True)
     (mk_financial_balance rnd ax)"

definition accept_financial_income_annual :: "row \<Rightarrow> bool" where
  "accept_financial_income_annual r \<longleftrightarrow> cell_i32 (r ''fs_quarter_index'') (-1) = 4"

definition mk_financial_income_annual :: "(real \<Rightarrow> fval) \<Rightarrow> axes \<Rightarrow> row list \<Rightarrow> nat \<Rightarrow> nat \<Rightarrow> row \<Rightarrow> financial_income_annual_ev" where
  "mk_financial_income_annual rnd ax fl a d r = \<lparr>ae_v = int d, ae_report_date = cell_yyyymmdd (r ''report_date''),
      ae_net_profit_to_parent_shareholders = f32_of rnd ''net_profit_to_parent_shareholders'' r\<rparr>"

definition build_financial_income_annual ::
  "(real \<Rightarrow> fval) \<Rightarrow> axes \<Rightarrow> month_files \<Rightarrow> financial_income_annual_ev event_store" where
  "build_financial_income_annual rnd ax = build_events ae_v ax (-1) ''date'' ''instrument'' accept_financial_income_annual
     (mk_financial_income_annual rnd ax)"

definition mk_forecast :: "(real \<Rightarrow> fval) \<Rightarrow> axes \<Rightarrow> row list \<Rightarrow> nat \<Rightarrow> nat \<Rightarrow> row \<Rightarrow> forecast_ev" where
  "mk_forecast rnd ax fl a d r = \<lparr>fe_v = int d, fe_end_date = cell_yyyymmdd (r ''end_date''),
      fe_type = parse_forecast_type (cell_str (r ''type'')), fe_last_parent_net = f32_of rnd ''last_parent_net'' r\<rparr>"

definition build_forecast :: "(real \<Rightarrow> fval) \<Rightarrow> axes \<Rightarrow> month_files \<Rightarrow> forecast_ev event_store" where
  "build_forecast rnd ax = build_events fe_v ax (-1) ''ann_date'' ''ts_code'' (\<lambda>r. True)
     (mk_forecast rnd ax)"

section \<open>The overlay of the last day\<close>

datatype overlay_error = OverlayAssert

definition overlay_row :: "axes \<Rightarrow> grid_status \<Rightarrow> row \<Rightarrow> grid_status" where
  "overlay_row ax g r =
     (case lookup_a ax (cell_str (r ''instrument'')) of
        None \<Rightarrow> g
      | Some a \<Rightarrow>
          (let off = a * n_d ax + (n_d ax - 1); st = cell_i32 (r ''st_status'') 0; dl = cell_i32 (r ''in_delist'') 0
           in \<lparr>gt_st_status = (gt_st_status g)[off := if dl \<noteq> 0 then 3 else if st = 1 then 1 else if st = 2 then 2 else 0],
               gt_suspended = (gt_suspended g)[off := suspended_of_row r]\<rparr>))"

text \<open>\<open>update\<close> is the switch \<open>PIPELINE_UPDATE\<close>; \<open>snapshot\<close> the rows of the static data, if it is there.\<close>

definition apply_meta_overlays ::
  "bool \<Rightarrow> axes \<Rightarrow> row list option \<Rightarrow> grid_status \<Rightarrow> (overlay_error, grid_status) outcome" where
  "apply_meta_overlays update ax snapshot g =
     (case snapshot of
        None \<Rightarrow> Ok g
      | Some rs \<Rightarrow>
          if n_d ax = 0 \<or> rs = [] then Ok g
          else
            (let snap = ymd_str (cell_yyyymmdd (hd rs ''date'')); l = n_d ax - 1 in
             if snap = [] then Fail OverlayAssert
             else if update \<and> \<not> (ax_dates ax ! l = snap \<or> (l > 0 \<and> ax_dates ax ! (l - 1) = snap)) then Fail OverlayAssert
             else Ok (foldl (overlay_row ax) g rs)))"

section \<open>The store refines: the sorted events of each instrument\<close>

definition push_all :: "(nat \<times> 'e) list \<Rightarrow> 'e event_store \<Rightarrow> 'e event_store" where
  "push_all ps st = foldl (\<lambda>st p. push_chain (fst p) (snd p) st) st ps"

definition events_of :: "nat \<Rightarrow> (nat \<times> 'e) list \<Rightarrow> 'e list" where
  "events_of a ps = map snd (filter (\<lambda>p. fst p = a) ps)"

lemma push_all_chains:
  assumes "\<And>p. p \<in> set ps \<Longrightarrow> fst p < length (es_chains st)"
  shows "length (es_chains (push_all ps st)) = length (es_chains st) \<and>
    (\<forall>a < length (es_chains st). es_chains (push_all ps st) ! a = es_chains st ! a @ events_of a ps)"
  using assms
proof (induction ps arbitrary: st)
  case (Cons p ps)
  let ?st = "push_chain (fst p) (snd p) st"
  have l: "length (es_chains ?st) = length (es_chains st)" by (simp add: push_chain_def)
  from Cons.IH [of ?st] Cons.prems l
  have IH: "length (es_chains (push_all ps ?st)) = length (es_chains st)"
    "\<And>a. a < length (es_chains st) \<Longrightarrow> es_chains (push_all ps ?st) ! a = es_chains ?st ! a @ events_of a ps"
    by simp_all
  have "es_chains ?st ! a = es_chains st ! a @ (if a = fst p then [snd p] else [])" if "a < length (es_chains st)" for a
    using that by (simp add: push_chain_def)
  with IH show ?case by (simp add: push_all_def events_of_def)
qed (simp add: push_all_def events_of_def)

lemma offsets_from_nth:
  assumes "tot + length (concat cs) < 4294967296" "a < length cs"
  shows "offsets_from tot cs ! a = tot + length (concat (take (Suc a) cs))"
  using assms
proof (induction cs arbitrary: tot a)
  case (Cons c cs)
  show ?case
  proof (cases a)
    case 0
    with Cons.prems show ?thesis by (simp add: wrap_u32_def)
  next
    case (Suc b)
    with Cons.IH [of "tot + length c" b] Cons.prems show ?thesis by simp
  qed
qed simp

lemma concat_slice:
  assumes "a < length cs"
  shows "take (length (cs ! a)) (drop (length (concat (take a cs))) (concat cs)) = cs ! a"
proof -
  have "concat cs = concat (take a cs) @ cs ! a @ concat (drop (Suc a) cs)"
    using id_take_nth_drop [OF assms] by (metis concat.simps(2) concat_append)
  then show ?thesis by simp
qed

lemma store_at_finalize:
  assumes "length (concat (es_chains st)) < 4294967296" "a < length (es_chains st)"
  shows "store_at (finalize_store st) a = es_chains st ! a"
proof -
  let ?cs = "es_chains st"
  have o: "es_offsets (finalize_store st) ! b = length (concat (take b ?cs))" if "b \<le> length ?cs" for b
    using that offsets_from_nth [of 0 ?cs "b - 1"] assms(1)
    by (cases b) (simp_all add: finalize_store_def)
  have "length (concat (take (a + 1) ?cs)) = length (concat (take a ?cs)) + length (?cs ! a)"
    using assms(2) by (simp add: take_Suc_conv_app_nth)
  then show ?thesis
    using o [of a] o [of "a + 1"] assms(2) concat_slice [OF assms(2)]
    by (simp add: store_at_def Let_def) (simp add: finalize_store_def)
qed

lemma length_concat_chains:
  assumes "\<And>p. p \<in> set ps \<Longrightarrow> fst p < n"
  shows "length (concat (es_chains (push_all ps (resize_chains n)))) = length ps"
  using assms
proof (induction ps rule: rev_induct)
  case Nil
  then show ?case by (simp add: push_all_def resize_chains_def)
next
  case (snoc p ps)
  let ?cs = "es_chains (push_all ps (resize_chains n))"
  have step: "push_all (ps @ [p]) st = push_chain (fst p) (snd p) (push_all ps st)" for st
    by (simp add: push_all_def)
  have "length ?cs = n" using push_all_chains [of ps "resize_chains n"] snoc.prems by (simp add: resize_chains_def)
  moreover have "fst p < n" using snoc.prems by simp
  moreover have "length (concat (cs[a := cs ! a @ [e]])) = Suc (length (concat cs))" if "a < length cs"
    for cs :: "'a list list" and a e
    using that by (induction cs arbitrary: a) (auto split: nat.splits)
  moreover have "length (concat ?cs) = length ps" using snoc by simp
  ultimately show ?case unfolding step by (simp add: push_chain_def del: length_concat)
qed

text \<open>The records of a list of files as pushes, in order.\<close>

definition pushes ::
  "axes \<Rightarrow> int \<Rightarrow> string \<Rightarrow> string \<Rightarrow> (row \<Rightarrow> bool) \<Rightarrow> (row list \<Rightarrow> nat \<Rightarrow> nat \<Rightarrow> row \<Rightarrow> 'e) \<Rightarrow> month_files \<Rightarrow> (nat \<times> 'e) list" where
  "pushes ax cutoff vc ic accept mk files =
     concat (map (\<lambda>file. List.map_filter (event_of ax cutoff vc ic accept (mk file)) file) files)"

lemma push_rows_all:
  "foldl (push_row ax cutoff vc ic accept mk) st rs = push_all (List.map_filter (event_of ax cutoff vc ic accept mk) rs) st"
  by (induction rs arbitrary: st) (auto simp: push_all_def push_row_def List.map_filter_simps split: option.splits)

lemma push_all_append: "push_all (ps @ qs) st = push_all qs (push_all ps st)"
  by (simp add: push_all_def)

lemma push_files_all:
  "foldl (\<lambda>st file. foldl (push_row ax cutoff vc ic accept (mk file)) st file) st files =
   push_all (pushes ax cutoff vc ic accept mk files) st"
proof (induction files arbitrary: st)
  case Nil
  then show ?case by (simp add: pushes_def push_all_def)
next
  case (Cons f fs)
  then show ?case by (simp add: pushes_def push_rows_all push_all_append)
qed

lemma lookup_a_less: "axes_ok ax \<Longrightarrow> lookup_a ax s = Some a \<Longrightarrow> a < n_a ax \<and> ax_codes ax ! a = s"
  using index_map_Some [of "ax_codes ax" s a] by (simp add: lookup_a_def axes_ok_def n_a_def split: if_splits)

lemma event_of_Some:
  "event_of ax cutoff vc ic accept mk r = Some (a, e) \<longleftrightarrow>
     (\<exists>d. accept r \<and> event_row ax cutoff (cell_yyyymmdd (r vc)) = Some d \<and>
        lookup_a ax (cell_str (r ic)) = Some a \<and> e = mk a d r)"
  by (auto simp: event_of_def split: option.splits)

lemma set_map_filter: "set (List.map_filter f xs) = {y. \<exists>x\<in>set xs. f x = Some y}"
  by (force simp: List.map_filter_def)

lemma pushes_member:
  "(a, e) \<in> set (pushes ax cutoff vc ic accept mk files) \<longleftrightarrow>
     (\<exists>file\<in>set files. \<exists>r\<in>set file. event_of ax cutoff vc ic accept (mk file) r = Some (a, e))"
  by (auto simp: pushes_def set_map_filter)

lemma length_map_filter: "length (List.map_filter f xs) \<le> length xs"
  by (simp add: List.map_filter_def)

lemma length_pushes: "length (pushes ax cutoff vc ic accept mk files) \<le> length (concat files)"
proof (induction files)
  case (Cons f fs)
  then show ?case
    using length_map_filter [of "event_of ax cutoff vc ic accept (mk f)" f] by (simp add: pushes_def)
qed (simp add: pushes_def)

definition fits :: "month_files \<Rightarrow> bool" where
  "fits files \<longleftrightarrow> length (concat files) < 4294967296"

lemma build_events_at:
  assumes "axes_ok ax" "fits files" "a < n_a ax"
  shows "store_at (build_events v ax cutoff vc ic accept mk files) a =
    sort_key v (events_of a (pushes ax cutoff vc ic accept mk files))"
proof -
  let ?ps = "pushes ax cutoff vc ic accept mk files"
  let ?st = "push_all ?ps (resize_chains (n_a ax))"
  have b: "fst p < n_a ax" if "p \<in> set ?ps" for p
  proof -
    obtain x e where "p = (x, e)" by (metis surj_pair)
    with that lookup_a_less [OF assms(1)] show ?thesis by (auto simp: pushes_member event_of_Some)
  qed
  have l: "length (es_chains ?st) = n_a ax" "es_chains ?st ! a = events_of a ?ps"
    using push_all_chains [of ?ps "resize_chains (n_a ax)"] b assms(3) by (simp_all add: resize_chains_def)
  have "length (concat (map (sort_key v) cs)) = length (concat cs)" for cs by (induction cs) simp_all
  then have "length (concat (es_chains (sort_chains v ?st))) = length (concat (es_chains ?st))"
    by (simp add: sort_chains_def)
  also have "\<dots> = length ?ps" using b by (rule length_concat_chains)
  also have "\<dots> < 4294967296" using length_pushes [of ax cutoff vc ic accept mk files] assms(2) by (simp add: fits_def)
  finally have "store_at (finalize_store (sort_chains v ?st)) a = es_chains (sort_chains v ?st) ! a"
    by (rule store_at_finalize) (simp add: sort_chains_def l assms(3))
  then show ?thesis by (simp add: build_events_def push_files_all sort_chains_def l assms(3))
qed

section \<open>No look-ahead: the interface of the event tables\<close>

text \<open>The records that may be known at row \<open>D\<close>: visible on an earlier day (\<open>CUTOFF = -1\<close>) or on the
  same day (\<open>CUTOFF = 0\<close>).\<close>

definition known_by :: "axes \<Rightarrow> int \<Rightarrow> nat \<Rightarrow> string \<Rightarrow> bool" where
  "known_by ax cutoff D s \<longleftrightarrow> (if cutoff = 0 then s \<le> ax_dates ax ! D else s < ax_dates ax ! D)"

definition known_rows :: "axes \<Rightarrow> int \<Rightarrow> string \<Rightarrow> nat \<Rightarrow> month_files \<Rightarrow> month_files" where
  "known_rows ax cutoff vc D files =
     map (filter (\<lambda>r. known_by ax cutoff D (ymd_str (cell_yyyymmdd (r vc))))) files"

lemma fits_known_rows: "fits files \<Longrightarrow> fits (known_rows ax cutoff vc D files)"
proof -
  have "length (concat (known_rows ax cutoff vc D files)) \<le> length (concat files)"
    by (induction files) (auto simp: known_rows_def intro: add_mono)
  then show "fits files \<Longrightarrow> fits (known_rows ax cutoff vc D files)" by (simp add: fits_def)
qed

lemma event_row_Some:
  assumes "axes_ok ax" "event_row ax (-1) ymd = Some d"
  shows "0 < d" "d < n_d ax" "ax_dates ax ! (d - 1) \<le> ymd_str ymd" "ymd_str ymd < ax_dates ax ! d"
proof -
  have "0 < d \<and> d < n_d ax \<and> ax_dates ax ! (d - 1) \<le> ymd_str ymd \<and> ymd_str ymd < ax_dates ax ! d"
    using axes_ok_sorted(1) [OF assms(1)]
  proof (cases rule: floor_date_cases [of ax "ymd_str ymd"])
    case 1
    with assms(2) show ?thesis by (simp add: event_row_def)
  next
    case (2 k)
    with assms(2) have "d = k + 1" "k + 1 < n_d ax"
      by (auto simp: event_row_def row_in_range_def Let_def nat_add_distrib split: if_splits)
    with 2 show ?thesis by simp
  qed
  then show "0 < d" "d < n_d ax" "ax_dates ax ! (d - 1) \<le> ymd_str ymd" "ymd_str ymd < ax_dates ax ! d" by simp_all
qed

lemma dates_mono: "axes_ok ax \<Longrightarrow> i \<le> j \<Longrightarrow> j < n_d ax \<Longrightarrow> ax_dates ax ! i \<le> ax_dates ax ! j"
  using axes_ok_sorted(1) sorted_nth_mono by (fastforce simp: n_d_def)

lemma dates_less: "axes_ok ax \<Longrightarrow> i < n_d ax \<Longrightarrow> j < n_d ax \<Longrightarrow> ax_dates ax ! i < ax_dates ax ! j \<longleftrightarrow> i < j"
  using sorted_wrt_nth_less [of "(<)" "ax_dates ax"]
  by (simp add: axes_ok_def n_d_def) (metis linorder_neqE_nat order_less_asym order_less_irrefl)

lemma event_row_known:
  assumes "axes_ok ax" "event_row ax (-1) ymd = Some d" "D < n_d ax"
  shows "d \<le> D \<longleftrightarrow> known_by ax (-1) D (ymd_str ymd)"
proof -
  note e = event_row_Some [OF assms(1,2)]
  show ?thesis
  proof
    assume "d \<le> D"
    with e(4) dates_mono [OF assms(1), of d D] assms(3) show "known_by ax (-1) D (ymd_str ymd)"
      by (auto simp: known_by_def)
  next
    assume "known_by ax (-1) D (ymd_str ymd)"
    with e(3) have "ax_dates ax ! (d - 1) < ax_dates ax ! D" by (simp add: known_by_def)
    then have "d - 1 < D" using dates_less [OF assms(1), of "d - 1" D] e(2) assms(3) by simp
    with e(1) show "d \<le> D" by simp
  qed
qed

text \<open>
  What a table has to offer: \<open>v\<close> reads the row that \<open>mk\<close> was given, and an event made from a file
  depends on no other rows of the file than those with the same visible date.
\<close>

locale event_table =
  fixes v :: "'e \<Rightarrow> int"
    and vc :: string
    and ic :: string
    and accept :: "row \<Rightarrow> bool"
    and mk :: "axes \<Rightarrow> row list \<Rightarrow> nat \<Rightarrow> nat \<Rightarrow> row \<Rightarrow> 'e"
  assumes v_mk: "v (mk ax file a d r) = int d"
    and mk_local: "axes_ok ax \<Longrightarrow> a < n_a ax \<Longrightarrow>
      (\<And>r'. cell_yyyymmdd (r' vc) = cell_yyyymmdd (r vc) \<Longrightarrow> P r') \<Longrightarrow> mk ax (filter P file) a d r = mk ax file a d r"
begin

lemma stored_event:
  assumes "axes_ok ax" "fits files" "a < n_a ax" "e \<in> set (store_at (build_events v ax (-1) vc ic accept (mk ax) files) a)"
  shows "\<exists>fl\<in>set files. \<exists>r\<in>set fl. \<exists>d. accept r \<and> cell_str (r ic) = ax_codes ax ! a \<and>
    e = mk ax fl a d r \<and> v e = int d \<and> 0 < d \<and> d < n_d ax \<and>
    ax_dates ax ! (d - 1) \<le> ymd_str (cell_yyyymmdd (r vc)) \<and> ymd_str (cell_yyyymmdd (r vc)) < ax_dates ax ! d"
proof -
  have "(a, e) \<in> set (pushes ax (-1) vc ic accept (mk ax) files)"
    using assms(4) unfolding build_events_at [OF assms(1-3)] by (auto simp: events_of_def)
  then obtain fl r d where r: "fl \<in> set files" "r \<in> set fl" "accept r"
    "event_row ax (-1) (cell_yyyymmdd (r vc)) = Some d" "lookup_a ax (cell_str (r ic)) = Some a" "e = mk ax fl a d r"
    by (auto simp: pushes_member event_of_Some)
  with event_row_Some [OF assms(1) r(4)] lookup_a_less [OF assms(1) r(5)] show ?thesis
    by (intro bexI [of _ fl] bexI [of _ r] exI [of _ d]) (simp_all add: v_mk)
qed

lemma sorted_store:
  "axes_ok ax \<Longrightarrow> fits files \<Longrightarrow> a < n_a ax \<Longrightarrow> sorted (map v (store_at (build_events v ax (-1) vc ic accept (mk ax) files) a))"
  by (simp add: build_events_at)

lemma known_pushes:
  assumes "axes_ok ax" "D < n_d ax"
  shows "filter (\<lambda>p. v (snd p) \<le> int D) (pushes ax (-1) vc ic accept (mk ax) files) =
    pushes ax (-1) vc ic accept (mk ax) (known_rows ax (-1) vc D files)"
proof -
  let ?P = "\<lambda>r. known_by ax (-1) D (ymd_str (cell_yyyymmdd (r vc)))"
  have one: "filter (\<lambda>p. v (snd p) \<le> int D) (List.map_filter (event_of ax (-1) vc ic accept (mk ax fl)) rs) =
      List.map_filter (event_of ax (-1) vc ic accept (mk ax (filter ?P fl))) (filter ?P rs)" for fl rs
  proof (induction rs)
    case (Cons r rs)
    have in_D: "v e \<le> int D \<longleftrightarrow> ?P r" if "event_of ax (-1) vc ic accept (mk ax fl) r = Some (a, e)" for a e
      using that event_row_known [OF assms(1) _ assms(2)] by (auto simp: event_of_Some v_mk)
    have same: "event_of ax (-1) vc ic accept (mk ax (filter ?P fl)) r = event_of ax (-1) vc ic accept (mk ax fl) r" if "?P r"
      using that lookup_a_less [OF assms(1)] mk_local [OF assms(1), of _ r ?P]
      by (auto simp: event_of_def split: option.splits)
    show ?case
      using Cons same in_D
      by (cases "event_of ax (-1) vc ic accept (mk ax fl) r") (auto simp: List.map_filter_simps split: option.splits)
  qed (simp add: List.map_filter_simps)
  show ?thesis by (simp add: pushes_def known_rows_def filter_concat one comp_def)
qed

lemma no_look_ahead:
  assumes "axes_ok ax" "fits files" "a < n_a ax" "D < n_d ax"
  shows "filter (\<lambda>e. v e \<le> int D) (store_at (build_events v ax (-1) vc ic accept (mk ax) files) a) = store_at (build_events v ax (-1) vc ic accept (mk ax) (known_rows ax (-1) vc D files)) a"
proof -
  have fits: "fits (known_rows ax (-1) vc D files)" by (rule fits_known_rows [OF assms(2)])
  have "filter (\<lambda>e. v e \<le> int D) (events_of a ps) = events_of a (filter (\<lambda>p. v (snd p) \<le> int D) ps)" for ps
    by (induction ps) (auto simp: events_of_def)
  then show ?thesis
    unfolding build_events_at [OF assms(1-3)] build_events_at [OF assms(1) fits assms(3)]
    by (simp add: filter_sort known_pushes [OF assms(1,4)])
qed

end

text \<open>The table of the records four quarters back depends on the records of the same day only: the
  keys of two records agree only when their dates do.\<close>

lemma shift4_key_eq:
  assumes "a < n_a ax" "b < n_a ax" "shift4_key ax x a = shift4_key ax y b" shows "x = y"
proof (rule ccontr)
  assume "x \<noteq> y"
  then consider "x + 1 \<le> y" | "y + 1 \<le> x" by linarith
  then show False
  proof cases
    case 1
    then have "(x + 1) * (int (n_a ax) + 1) \<le> y * (int (n_a ax) + 1)" by (rule mult_right_mono) simp
    with assms show False by (simp add: shift4_key_def distrib_right)
  next
    case 2
    then have "(y + 1) * (int (n_a ax) + 1) \<le> x * (int (n_a ax) + 1)" by (rule mult_right_mono) simp
    with assms show False by (simp add: shift4_key_def distrib_right)
  qed
qed

lemma map_of_filter_keys:
  assumes "\<And>p. p \<in> set xs \<Longrightarrow> fst p = k \<Longrightarrow> Q p" shows "map_of (filter Q xs) k = map_of xs k"
  using assms by (induction xs) auto

lemma shift4_local:
  assumes "axes_ok ax" "a < n_a ax" "\<And>r'. cell_yyyymmdd (r' ''date'') = date \<Longrightarrow> P r'"
  shows "shift4_cf rnd ax (filter P fl) (shift4_key ax date a) = shift4_cf rnd ax fl (shift4_key ax date a)"
proof -
  let ?k = "shift4_key ax date a" and ?E = "\<lambda>fl. concat (map (shift4_entry rnd ax) fl)"
  have entry: "P r" if "p \<in> set (shift4_entry rnd ax r)" "fst p = ?k" for p r
  proof -
    from that obtain b where "lookup_a ax (cell_str (r ''instrument'')) = Some b"
      "shift4_key ax (cell_yyyymmdd (r ''date'')) b = ?k"
      by (cases "lookup_a ax (cell_str (r ''instrument''))") (auto simp: shift4_entry_def split: if_splits)
    with shift4_key_eq [of b ax a] lookup_a_less [OF assms(1)] assms(2,3) show ?thesis by blast
  qed
  have "filter (\<lambda>p. fst p = ?k) (?E (filter P fl)) = filter (\<lambda>p. fst p = ?k) (?E fl)"
  proof (induction fl)
    case (Cons r fl)
    have "filter (\<lambda>p. fst p = ?k) (shift4_entry rnd ax r) = []" if "\<not> P r"
      using that entry by (auto simp: filter_empty_conv)
    with Cons show ?case by simp
  qed simp
  then have "map_of (filter (\<lambda>p. fst p = ?k) (rev (?E (filter P fl)))) ?k = map_of (filter (\<lambda>p. fst p = ?k) (rev (?E fl))) ?k"
    by (simp add: rev_filter [symmetric])
  then show ?thesis by (simp add: shift4_cf_def map_of_filter_keys)
qed

interpretation industry_component: event_table ie_v "''date''" "''instrument''" accept_industry_component
  mk_industry_component
  by unfold_locales (simp_all add: mk_industry_component_def)

interpretation industry_change: event_table ie_v "''date''" "''instrument''" accept_industry_change mk_industry_change
  by unfold_locales (simp_all add: mk_industry_change_def)

interpretation dividend: event_table de_v "''publish_date''" "''instrument''" "\<lambda>r. True" "mk_dividend rnd" for rnd
  by unfold_locales (simp_all add: mk_dividend_def)

interpretation financial_ttm: event_table te_v "''date''" "''instrument''" accept_financial_ttm "mk_financial_ttm rnd" for rnd
  by unfold_locales (simp_all add: mk_financial_ttm_def shift4_local)

interpretation financial_balance: event_table be_v "''date''" "''instrument''" "\<lambda>r. True" "mk_financial_balance rnd" for rnd
  by unfold_locales (simp_all add: mk_financial_balance_def)

interpretation financial_income_annual: event_table ae_v "''date''" "''instrument''" accept_financial_income_annual
  "mk_financial_income_annual rnd" for rnd
  by unfold_locales (simp_all add: mk_financial_income_annual_def)

interpretation forecast: event_table fe_v "''ann_date''" "''ts_code''" "\<lambda>r. True" "mk_forecast rnd" for rnd
  by unfold_locales (simp_all add: mk_forecast_def)

section \<open>No look-ahead: grids\<close>

text \<open>Two grids agree up to day \<open>D\<close> in every instrument's row.\<close>

definition agree :: "axes \<Rightarrow> nat \<Rightarrow> 'v list \<Rightarrow> 'v list \<Rightarrow> bool" where
  "agree ax D g h \<longleftrightarrow> length g = grid_n ax \<and> length h = grid_n ax \<and>
     (\<forall>a < n_a ax. \<forall>d. d \<le> D \<and> d < n_d ax \<longrightarrow> g ! (a * n_d ax + d) = h ! (a * n_d ax + d))"

lemma cell_less: "a < n_a ax \<Longrightarrow> d < n_d ax \<Longrightarrow> a * n_d ax + d < grid_n ax"
proof -
  assume "a < n_a ax" "d < n_d ax"
  then have "a * n_d ax + d < a * n_d ax + n_d ax" "(a + 1) * n_d ax \<le> n_a ax * n_d ax"
    by (simp_all only: add_less_cancel_left) (intro mult_le_mono1, simp)
  then show ?thesis by (simp add: grid_n_def)
qed

lemma cell_eq:
  assumes "d < n" "e < (n::nat)" shows "a * n + d = b * n + e \<longleftrightarrow> a = b \<and> d = e"
proof
  assume eq: "a * n + d = b * n + e"
  from assms have "(a * n + d) div n = a" "(b * n + e) div n = b" "(a * n + d) mod n = d" "(b * n + e) mod n = e" by simp_all
  with eq show "a = b \<and> d = e" by metis
qed simp

lemma agree_refl: "length g = grid_n ax \<Longrightarrow> agree ax D g g"
  by (simp add: agree_def)

lemma agree_write:
  assumes "axes_ok ax" "agree ax D g h" shows "agree ax D (write_cell ax c f g r) (write_cell ax c f h r)"
proof (cases "grid_row ax c (cell_yyyymmdd (r ''date''))")
  case (Some d)
  then have d: "d < n_d ax" by (auto simp: grid_row_def row_in_range_def split: option.splits if_splits)
  show ?thesis
  proof (cases "lookup_a ax (cell_str (r ''instrument''))")
    case a: (Some a)
    then have "a < n_a ax" using lookup_a_less [OF assms(1)] by blast
    with assms(2) Some a d cell_less [of a ax d] show ?thesis
      by (auto simp: write_cell_def agree_def nth_list_update cell_eq cell_less)
  qed (use assms(2) Some in \<open>simp add: write_cell_def\<close>)
qed (use assms(2) in \<open>simp add: write_cell_def\<close>)

lemma agree_skip:
  assumes "axes_ok ax" "agree ax D g h" "grid_row ax c (cell_yyyymmdd (r ''date'')) = None \<or>
    (\<exists>d. grid_row ax c (cell_yyyymmdd (r ''date'')) = Some d \<and> D < d)"
  shows "agree ax D (write_cell ax c f g r) h"
  using assms(3)
proof
  assume "\<exists>d. grid_row ax c (cell_yyyymmdd (r ''date'')) = Some d \<and> D < d"
  then obtain d where d: "grid_row ax c (cell_yyyymmdd (r ''date'')) = Some d" "D < d" by blast
  then have n: "d < n_d ax" by (auto simp: grid_row_def row_in_range_def split: option.splits if_splits)
  show ?thesis
  proof (cases "lookup_a ax (cell_str (r ''instrument''))")
    case a: (Some a)
    with assms(2) d n show ?thesis
      by (auto simp: write_cell_def agree_def nth_list_update cell_eq)
  qed (use assms(2) d in \<open>simp add: write_cell_def\<close>)
qed (use assms(2) in \<open>simp add: write_cell_def\<close>)

lemma grid_row_known:
  assumes "axes_ok ax" "grid_row ax c ymd = Some d" "d \<le> D" "D < n_d ax" "c = 0 \<or> c = -1"
  shows "known_by ax c D (ymd_str ymd)"
proof -
  obtain i where i: "ax_date_idx ax (ymd_str ymd) = Some i" "int d = int i - c"
    using assms(2) by (auto simp: grid_row_def row_in_range_def split: option.splits if_splits)
  then have x: "i < n_d ax" "ax_dates ax ! i = ymd_str ymd"
    using index_map_Some assms(1) by (auto simp: axes_ok_def n_d_def)
  show ?thesis
  proof (cases "c = 0")
    case True
    with i(2) assms(3,4) dates_mono [OF assms(1), of i D] x show ?thesis by (simp add: known_by_def)
  next
    case False
    with assms(5) i(2) have "d = i + 1" by simp
    with assms(3,4) dates_less [OF assms(1), of i D] x False show ?thesis by (simp add: known_by_def)
  qed
qed

lemma build_grid_known:
  assumes "axes_ok ax" "D < n_d ax" "c = 0 \<or> c = -1"
  shows "agree ax D (build_grid ax c init f files) (build_grid ax c init f (known_rows ax c ''date'' D files))"
proof -
  let ?P = "\<lambda>r. known_by ax c D (ymd_str (cell_yyyymmdd (r ''date'')))"
  have rows: "agree ax D (foldl (write_cell ax c f) g rs) (foldl (write_cell ax c f) h (filter ?P rs))"
    if "agree ax D g h" for g h rs
    using that
  proof (induction rs arbitrary: g h)
    case (Cons r rs)
    show ?case
    proof (cases "?P r")
      case True
      with Cons.IH [OF agree_write [OF assms(1) Cons.prems]] show ?thesis by simp
    next
      case False
      then have "grid_row ax c (cell_yyyymmdd (r ''date'')) = None \<or>
          (\<exists>d. grid_row ax c (cell_yyyymmdd (r ''date'')) = Some d \<and> D < d)"
        using grid_row_known [OF assms(1) _ _ assms(2,3)] not_le by (cases "grid_row ax c (cell_yyyymmdd (r ''date''))") auto
      then have "agree ax D (write_cell ax c f g r) h" by (rule agree_skip [OF assms(1) Cons.prems])
      from Cons.IH [OF this] False show ?thesis by simp
    qed
  qed simp
  have "agree ax D (foldl (foldl (write_cell ax c f)) g files) (foldl (foldl (write_cell ax c f)) h (known_rows ax c ''date'' D files))"
    if "agree ax D g h" for g h
    using that
  proof (induction files arbitrary: g h)
    case (Cons fl files)
    from Cons.IH [OF rows [OF Cons.prems]] show ?case by (simp add: known_rows_def)
  qed (simp add: known_rows_def)
  from this [OF agree_refl] show ?thesis by (simp add: build_grid_def)
qed

lemma length_ffill_row [simp]: "length (ffill_row l xs) = length xs"
  by (induction l xs rule: ffill_row.induct) auto

lemma ffill_row_take: "take k (ffill_row l xs) = ffill_row l (take k xs)"
  by (induction l xs arbitrary: k rule: ffill_row.induct) (auto simp: take_Cons split: nat.splits)

lemma grid_ffill_nth:
  assumes "length g = A * n" "a < A" "d < n"
  shows "grid_ffill g A n ! (a * n + d) = ffill_row NaN (take n (drop (a * n) g)) ! d"
  using assms
proof (induction g A n arbitrary: a rule: grid_ffill.induct)
  case (2 g A n)
  show ?case
  proof (cases a)
    case 0
    with 2 show ?thesis by (simp add: nth_append)
  next
    case (Suc b)
    with 2 show ?thesis by (simp add: nth_append add.commute [of n])
  qed
qed simp

lemma length_grid_ffill: "length g = A * n \<Longrightarrow> length (grid_ffill g A n) = A * n"
  by (induction g A n rule: grid_ffill.induct) auto

lemma agree_ffill:
  assumes "agree ax D g h" shows "agree ax D (grid_ffill g (n_a ax) (n_d ax)) (grid_ffill h (n_a ax) (n_d ax))"
proof -
  have l: "length g = n_a ax * n_d ax" "length h = n_a ax * n_d ax" using assms by (simp_all add: agree_def grid_n_def)
  have "grid_ffill g (n_a ax) (n_d ax) ! (a * n_d ax + d) = grid_ffill h (n_a ax) (n_d ax) ! (a * n_d ax + d)"
    if a: "a < n_a ax" "d \<le> D" "d < n_d ax" for a d
  proof -
    let ?row = "\<lambda>g. take (n_d ax) (drop (a * n_d ax) g)"
    have "a * n_d ax + n_d ax \<le> n_a ax * n_d ax" using a(1) mult_le_mono1 [of "a + 1" "n_a ax" "n_d ax"] by simp
    then have "take (Suc d) (?row g) = take (Suc d) (?row h)"
      using assms a l by (intro nth_equalityI) (auto simp: agree_def)
    then have "take (Suc d) (ffill_row NaN (?row g)) = take (Suc d) (ffill_row NaN (?row h))"
      by (simp only: ffill_row_take)
    then have "ffill_row NaN (?row g) ! d = ffill_row NaN (?row h) ! d" by (metis lessI nth_take)
    then show ?thesis using a l by (simp add: grid_ffill_nth)
  qed
  with l show ?thesis by (simp add: agree_def grid_n_def length_grid_ffill)
qed

section \<open>Overlays\<close>

lemma overlay_rows:
  assumes "axes_ok ax" "length (gt_st_status g) = grid_n ax" "length (gt_suspended g) = grid_n ax" "d + 1 < n_d ax"
  shows "let g' = foldl (overlay_row ax) g rs in
     length (gt_st_status g') = grid_n ax \<and> length (gt_suspended g') = grid_n ax \<and>
     gt_st_status g' ! (a * n_d ax + d) = gt_st_status g ! (a * n_d ax + d) \<and>
     gt_suspended g' ! (a * n_d ax + d) = gt_suspended g ! (a * n_d ax + d)"
  using assms
proof (induction rs arbitrary: g)
  case (Cons r rs)
  have ne: "b * n_d ax + (n_d ax - 1) \<noteq> a * n_d ax + d" for b
  proof -
    have "n_d ax - 1 \<noteq> d" "n_d ax - 1 < n_d ax" "d < n_d ax" using Cons.prems(4) by simp_all
    with cell_eq [of "n_d ax - 1" "n_d ax" d b a] show ?thesis by blast
  qed
  have "length (gt_st_status (overlay_row ax g r)) = grid_n ax" "length (gt_suspended (overlay_row ax g r)) = grid_n ax"
    "gt_st_status (overlay_row ax g r) ! (a * n_d ax + d) = gt_st_status g ! (a * n_d ax + d)"
    "gt_suspended (overlay_row ax g r) ! (a * n_d ax + d) = gt_suspended g ! (a * n_d ax + d)"
    using Cons.prems ne by (simp_all add: overlay_row_def Let_def split: option.splits)
  with Cons.IH [of "overlay_row ax g r"] Cons.prems show ?case by (simp add: Let_def)
qed simp

section \<open>Properties\<close>

text \<open>C32. No grid looks ahead: up to any day \<open>D\<close>, the forward-filled grids of prices, shares and limits
  and the status and margin grids are the same whether they are built from all records or only from
  those that were visible by then - on an earlier day for the tables read with \<open>CUTOFF = -1\<close>, on
  the day itself for those read with \<open>CUTOFF = 0\<close>.\<close>

theorem grids_no_look_ahead:
  assumes "axes_ok ax" "D < n_d ax"
  defines "past \<equiv> known_rows ax (-1) ''date'' D" and "today \<equiv> known_rows ax 0 ''date'' D"
  shows "agree ax D (gb_close (ffill_bar1d ax (build_bar1d rnd ax files))) (gb_close (ffill_bar1d ax (build_bar1d rnd ax (past files)))) \<and>
    agree ax D (gb_adjust_factor (ffill_bar1d ax (build_bar1d rnd ax files)))
      (gb_adjust_factor (ffill_bar1d ax (build_bar1d rnd ax (past files)))) \<and>
    agree ax D (gs_total_shares (ffill_shares ax (build_shares rnd ax files)))
      (gs_total_shares (ffill_shares ax (build_shares rnd ax (past files)))) \<and>
    agree ax D (gs_a_float_shares (ffill_shares ax (build_shares rnd ax files)))
      (gs_a_float_shares (ffill_shares ax (build_shares rnd ax (past files)))) \<and>
    agree ax D (gl_upper_limit (ffill_limit_price ax (build_limit_price rnd ax files)))
      (gl_upper_limit (ffill_limit_price ax (build_limit_price rnd ax (past files)))) \<and>
    agree ax D (gl_lower_limit (ffill_limit_price ax (build_limit_price rnd ax files)))
      (gl_lower_limit (ffill_limit_price ax (build_limit_price rnd ax (past files)))) \<and>
    agree ax D (gt_st_status (build_status ax files)) (gt_st_status (build_status ax (today files))) \<and>
    agree ax D (gt_suspended (build_status ax files)) (gt_suspended (build_status ax (today files))) \<and>
    agree ax D (gm_is_margin (build_margin_detail rnd ax files)) (gm_is_margin (build_margin_detail rnd ax (today files))) \<and>
    agree ax D (gm_financing_balance (build_margin_detail rnd ax files))
      (gm_financing_balance (build_margin_detail rnd ax (today files))) \<and>
    agree ax D (gm_securities_lending_balance (build_margin_detail rnd ax files))
      (gm_securities_lending_balance (build_margin_detail rnd ax (today files)))"
  unfolding past_def today_def
  by (simp add: build_grid_known [OF assms(1,2)] build_bar1d_def ffill_bar1d_def build_shares_def ffill_shares_def build_limit_price_def
      ffill_limit_price_def build_status_def build_margin_detail_def agree_ffill)

lemma sample_axes_ok: "axes_ok sample_axes" "n_d sample_axes = 2" "n_a sample_axes = 2"
proof -
  show "axes_ok sample_axes" by (simp add: axes_ok_def sample_axes_def less_char_byte byte_def) code_simp
qed (simp_all add: sample_axes_def n_d_def n_a_def)

lemma grids_no_look_ahead_witness:
  "agree sample_axes 1 (gb_close (ffill_bar1d sample_axes (build_bar1d Fin sample_axes [[td_row ''A'' ''20240103'']])))
     (gb_close (ffill_bar1d sample_axes (build_bar1d Fin sample_axes
       (known_rows sample_axes (-1) ''date'' 1 [[td_row ''A'' ''20240103'']]))))"
  using grids_no_look_ahead [OF sample_axes_ok(1), of 1 Fin "[[td_row ''A'' ''20240103'']]"] sample_axes_ok(2) by simp

text \<open>No event store looks ahead: what an instrument's store holds up to row \<open>D\<close> is the whole
  store built from only those records that were visible before day \<open>D\<close>, for each of the seven
  tables; this includes the paired values of four quarters back.\<close>

theorem events_no_look_ahead:
  assumes "axes_ok ax" "fits files" "a < n_a ax" "D < n_d ax"
  defines "past \<equiv> \<lambda>vc. known_rows ax (-1) vc D files"
  shows "filter (\<lambda>e. ie_v e \<le> int D) (store_at (build_industry_component ax files) a) =
      store_at (build_industry_component ax (past ''date'')) a \<and>
    filter (\<lambda>e. ie_v e \<le> int D) (store_at (build_industry_change ax files) a) =
      store_at (build_industry_change ax (past ''date'')) a \<and>
    filter (\<lambda>e. de_v e \<le> int D) (store_at (build_dividend rnd ax files) a) =
      store_at (build_dividend rnd ax (past ''publish_date'')) a \<and>
    filter (\<lambda>e. te_v e \<le> int D) (store_at (build_financial_ttm rnd ax files) a) =
      store_at (build_financial_ttm rnd ax (past ''date'')) a \<and>
    filter (\<lambda>e. be_v e \<le> int D) (store_at (build_financial_balance rnd ax files) a) =
      store_at (build_financial_balance rnd ax (past ''date'')) a \<and>
    filter (\<lambda>e. ae_v e \<le> int D) (store_at (build_financial_income_annual rnd ax files) a) =
      store_at (build_financial_income_annual rnd ax (past ''date'')) a \<and>
    filter (\<lambda>e. fe_v e \<le> int D) (store_at (build_forecast rnd ax files) a) =
      store_at (build_forecast rnd ax (past ''ann_date'')) a"
  unfolding past_def build_industry_component_def build_industry_change_def build_dividend_def build_financial_ttm_def
    build_financial_balance_def build_financial_income_annual_def build_forecast_def
  using industry_component.no_look_ahead [OF assms(1-4)] industry_change.no_look_ahead [OF assms(1-4)]
    dividend.no_look_ahead [OF assms(1-4)] financial_ttm.no_look_ahead [OF assms(1-4)]
    financial_balance.no_look_ahead [OF assms(1-4)] financial_income_annual.no_look_ahead [OF assms(1-4)]
    forecast.no_look_ahead [OF assms(1-4)] by blast

lemma events_no_look_ahead_witness:
  "filter (\<lambda>e. de_v e \<le> int 0) (store_at (build_dividend Fin sample_axes [[td_row ''A'' ''20240102'']]) 0) =
     store_at (build_dividend Fin sample_axes (known_rows sample_axes (-1) ''publish_date'' 0 [[td_row ''A'' ''20240102'']])) 0"
proof -
  have "fits [[td_row ''A'' ''20240102'']]" by (simp add: fits_def)
  from events_no_look_ahead [OF sample_axes_ok(1) this, of 0 0 Fin] sample_axes_ok(2,3) show ?thesis by simp
qed

text \<open>C33. An event store keeps what was pushed: after all pushes, sorting and packing, the slice of
  instrument \<open>a\<close> is the list of its events in the order they were pushed, stably sorted by their row.\<close>

theorem event_store_refines:
  assumes "\<forall>p\<in>set ps. fst p < n" "length ps < 4294967296" "a < n"
  shows "store_at (finalize_store (sort_chains v (push_all ps (resize_chains n)))) a = sort_key v (events_of a ps)"
proof -
  let ?st = "push_all ps (resize_chains n)"
  have l: "length (es_chains ?st) = n" "es_chains ?st ! a = events_of a ps"
    using push_all_chains [of ps "resize_chains n"] assms(1,3) by (simp_all add: resize_chains_def)
  have "length (concat (map (sort_key v) cs)) = length (concat cs)" for cs by (induction cs) simp_all
  then have "length (concat (es_chains (sort_chains v ?st))) = length ps"
    using length_concat_chains [of ps n] assms(1) by (simp add: sort_chains_def)
  with assms(2) have "store_at (finalize_store (sort_chains v ?st)) a = es_chains (sort_chains v ?st) ! a"
    by (intro store_at_finalize) (simp_all add: sort_chains_def l assms(3))
  then show ?thesis by (simp add: sort_chains_def l assms(3))
qed

lemma event_store_refines_witness:
  "store_at (finalize_store (sort_chains fst (push_all [(1, (5 :: int, CHR ''a'')), (0, (7, CHR ''b'')), (1, (2, CHR ''c'')),
     (1, (5, CHR ''d''))] (resize_chains 2)))) 1 = [(2, CHR ''c''), (5, CHR ''a''), (5, CHR ''d'')]"
proof -
  let ?ps = "[(1, (5 :: int, CHR ''a'')), (0, (7, CHR ''b'')), (1, (2, CHR ''c'')), (1, (5, CHR ''d''))] :: (nat \<times> int \<times> char) list"
  have "sort_key fst (events_of 1 ?ps) = [(2, CHR ''c''), (5, CHR ''a''), (5, CHR ''d'')]" by (simp add: events_of_def)
  with event_store_refines [of ?ps 2 1 fst] show ?thesis by simp
qed

text \<open>The overlay of the pre-market snapshot writes the last day only: the status of every earlier
  day is what it was, and the sizes of the grids stay.\<close>

theorem overlay_last_day_only:
  assumes "axes_ok ax" "length (gt_st_status g) = grid_n ax" "length (gt_suspended g) = grid_n ax" "d + 1 < n_d ax"
    "apply_meta_overlays update ax snapshot g = Ok g'"
  shows "length (gt_st_status g') = grid_n ax \<and> length (gt_suspended g') = grid_n ax \<and>
     gt_st_status g' ! (a * n_d ax + d) = gt_st_status g ! (a * n_d ax + d) \<and>
     gt_suspended g' ! (a * n_d ax + d) = gt_suspended g ! (a * n_d ax + d)"
proof -
  have "g' = g \<or> (\<exists>rs. g' = foldl (overlay_row ax) g rs)"
    using assms(5) by (auto simp: apply_meta_overlays_def Let_def split: option.splits if_split_asm)
  then show ?thesis using overlay_rows [OF assms(1-4)] assms(2,3) by (auto simp: Let_def)
qed

lemma overlay_last_day_only_witness:
  "\<exists>g'. apply_meta_overlays False sample_axes (Some [(bi_row ''B'' [])(''date'' := TextCell ''20240103'', ''suspended'' := IntCell 1)])
      \<lparr>gt_st_status = [0, 0, 1, 0], gt_suspended = [0, 1, 0, 0]\<rparr> = Ok g' \<and> gt_suspended g' ! (0 * 2 + 0) = 0"
proof -
  let ?g = "\<lparr>gt_st_status = [0, 0, 1, 0], gt_suspended = [0, 1, 0, 0]\<rparr>"
  let ?s = "Some [(bi_row ''B'' [])(''date'' := TextCell ''20240103'', ''suspended'' := IntCell 1)]"
  have "is_date ''20240103''" by code_simp
  from ymd_str_text [OF this] have "ymd_str (cell_yyyymmdd (TextCell ''20240103'')) \<noteq> []" by simp
  then obtain g' where g': "apply_meta_overlays False sample_axes ?s ?g = Ok g'"
    using sample_axes_ok(2) by (simp add: apply_meta_overlays_def Let_def)
  from overlay_last_day_only [OF sample_axes_ok(1) _ _ _ g', of 0 0] sample_axes_ok(2,3) g' show ?thesis
    by (auto simp: grid_n_def)
qed

end
