(* ===== verification/Graph.thy ===== *)
theory Graph
  imports Prelude
begin

text \<open>
  The feature graph (\<open>cpp/include/feature/graph.hpp\<close>, \<open>feature.hpp\<close>): every node is a
  \<open>FeatureSpec\<close> whose address is its identity; the nodes to compute, and their order, follow from
  the roots by a depth-first search that checks for cycles and for time-series nodes that depend on
  cross-section nodes. A violation stops the compilation, here \<open>Fail\<close>.

  The graph is the list of the specs with their addresses, which may be of any type. An address that
  is not in the list is the null pointer. The compute functions of a node are not part of this model.
\<close>

datatype kind = Filter_kind | Factor_kind | Inter_kind
datatype axis = TimeSeries | CrossSection


record 'n feature_spec =
  fs_name :: string
  fs_cn_name :: string
  fs_kind :: kind
  fs_axis :: axis
  fs_deps :: "'n list"
  fs_must_be_finite :: bool
  fs_formula :: string
  fs_assumption :: string

type_synonym 'n graph = "('n \<times> 'n feature_spec) list"

datatype graph_error = NullNode | CycleDetected | TsDependsOnCs | OutOfFuel

definition bad_axes :: "'n graph \<Rightarrow> 'n feature_spec \<Rightarrow> 'n \<Rightarrow> bool" where
  "bad_axes g s d \<longleftrightarrow> fs_axis s = TimeSeries \<and>
     (case map_of g d of Some t \<Rightarrow> fs_axis t = CrossSection | None \<Rightarrow> False)"

text \<open>
  \<open>visit\<close> of \<open>reachable_topo_order\<close>. The fuel bounds the depth of the recursion; as the nodes on the
  stack are distinct, the number of nodes plus one is enough.
\<close>

fun visit :: "nat \<Rightarrow> 'n graph \<Rightarrow> 'n list \<Rightarrow> 'n list \<Rightarrow> 'n \<Rightarrow> (graph_error, 'n list) outcome"
and visit_deps :: "nat \<Rightarrow> 'n graph \<Rightarrow> 'n feature_spec \<Rightarrow> 'n list \<Rightarrow> 'n list \<Rightarrow> 'n list \<Rightarrow> (graph_error, 'n list) outcome"
where
  "visit 0 g stack dn n = Fail OutOfFuel"
| "visit (Suc k) g stack dn n =
     (case map_of g n of
        None \<Rightarrow> Fail NullNode
      | Some s \<Rightarrow>
          if n \<in> set dn then Ok dn
          else if n \<in> set stack then Fail CycleDetected
          else bind_ok (visit_deps k g s (stack @ [n]) dn (fs_deps s)) (\<lambda>dn'. Ok (dn' @ [n])))"
| "visit_deps k g s stack dn [] = Ok dn"
| "visit_deps k g s stack dn (d # ds) =
     (if bad_axes g s d then Fail TsDependsOnCs
      else bind_ok (visit k g stack dn d) (\<lambda>dn'. visit_deps k g s stack dn' ds))"

fun visit_roots :: "'n graph \<Rightarrow> 'n list \<Rightarrow> 'n list \<Rightarrow> (graph_error, 'n list) outcome" where
  "visit_roots g dn [] = Ok dn"
| "visit_roots g dn (r # rs) =
     bind_ok (visit (Suc (length g)) g [] dn r) (\<lambda>dn'. visit_roots g dn' rs)"

definition reachable_topo_order :: "'n graph \<Rightarrow> 'n list \<Rightarrow> (graph_error, 'n list) outcome" where
  "reachable_topo_order g roots = visit_roots g [] roots"

definition count_reachable :: "'n graph \<Rightarrow> 'n list \<Rightarrow> (graph_error, nat) outcome" where
  "count_reachable g roots = bind_ok (reachable_topo_order g roots) (\<lambda>xs. Ok (length xs))"

definition has_axis :: "'n graph \<Rightarrow> axis \<Rightarrow> 'n \<Rightarrow> bool" where
  "has_axis g ax n = (case map_of g n of Some s \<Rightarrow> fs_axis s = ax | None \<Rightarrow> False)"

definition count_axis :: "'n graph \<Rightarrow> 'n list \<Rightarrow> axis \<Rightarrow> nat" where
  "count_axis g all ax = foldl (\<lambda>c n. if has_axis g ax n then c + 1 else c) 0 all"

definition filter_axis :: "'n graph \<Rightarrow> 'n list \<Rightarrow> axis \<Rightarrow> 'n list" where
  "filter_axis g all ax = foldl (\<lambda>out n. if has_axis g ax n then out @ [n] else out) [] all"

definition all_documented :: "'n graph \<Rightarrow> 'n list \<Rightarrow> bool" where
  "all_documented g all = list_all (\<lambda>n. case map_of g n of None \<Rightarrow> False
     | Some s \<Rightarrow> \<not> (fs_cn_name s = [] \<or> fs_formula s = [] \<or> fs_assumption s = [])) all"

section \<open>The order and what is reachable\<close>

definition edges :: "'n graph \<Rightarrow> ('n \<times> 'n) set" where
  "edges g = {(n, d). \<exists>s. map_of g n = Some s \<and> d \<in> set (fs_deps s)}"

definition reachable :: "'n graph \<Rightarrow> 'n list \<Rightarrow> 'n set" where
  "reachable g roots = {n. \<exists>r\<in>set roots. (r, n) \<in> (edges g)\<^sup>*}"

text \<open>A node may follow the nodes of \<open>D\<close>: it exists, its dependencies are among them, and none of them
  is a cross-section node below a time-series node.\<close>

definition node_ok :: "'n graph \<Rightarrow> 'n set \<Rightarrow> 'n \<Rightarrow> bool" where
  "node_ok g D n \<longleftrightarrow> (\<exists>s. map_of g n = Some s \<and> set (fs_deps s) \<subseteq> D \<and> (\<forall>d\<in>set (fs_deps s). \<not> bad_axes g s d))"

text \<open>A topological order, read off the end of the list.\<close>

fun topo_rev :: "'n graph \<Rightarrow> 'n list \<Rightarrow> bool" where
  "topo_rev g [] = True"
| "topo_rev g (n # xs) = (n \<notin> set xs \<and> node_ok g (set xs) n \<and> topo_rev g xs)"

definition topological :: "'n graph \<Rightarrow> 'n list \<Rightarrow> bool" where
  "topological g xs = topo_rev g (rev xs)"

lemma topological_simps [simp]:
  "topological g []" "topological g (xs @ [n]) \<longleftrightarrow> n \<notin> set xs \<and> node_ok g (set xs) n \<and> topological g xs"
  by (simp_all add: topological_def)

lemma topological_distinct: "topological g xs \<Longrightarrow> distinct xs"
  by (induction xs rule: rev_induct) auto

lemma topo_rev_split: "topo_rev g (zs @ n # xs) \<Longrightarrow> node_ok g (set xs) n"
  by (induction zs) auto

lemma topological_split:
  "topological g (xs @ n # ys) \<Longrightarrow> node_ok g (set xs) n"
  using topo_rev_split [of g "rev ys" n "rev xs"] by (simp add: topological_def)

lemma topological_closed:
  "topological g xs \<Longrightarrow> n \<in> set xs \<Longrightarrow> (n, d) \<in> edges g \<Longrightarrow> d \<in> set xs"
  by (induction xs rule: rev_induct) (auto simp: node_ok_def edges_def)

lemma topological_reachable:
  assumes "topological g xs" "n \<in> set xs" "(n, d) \<in> (edges g)\<^sup>*" shows "d \<in> set xs"
  using assms(3,2) by (induction rule: rtrancl_induct) (auto intro: topological_closed [OF assms(1)])

lemma topological_acyclic:
  assumes "topological g xs" "n \<in> set xs" shows "(n, n) \<notin> (edges g)\<^sup>+"
  using assms
proof (induction xs arbitrary: n rule: rev_induct)
  case (snoc m xs)
  have t: "topological g xs" "m \<notin> set xs" "node_ok g (set xs) m" using snoc.prems(1) by simp_all
  have down: "y \<in> set xs" if "(x, y) \<in> (edges g)\<^sup>+" "x \<in> set xs" for x y
    using that topological_reachable [OF t(1)] by (meson trancl_into_rtrancl)
  show ?case
  proof (cases "n = m")
    case False
    then show ?thesis using snoc t by simp
  next
    case True
    show ?thesis
    proof
      assume "(n, n) \<in> (edges g)\<^sup>+"
      then obtain d where d: "(n, d) \<in> edges g" "(d, n) \<in> (edges g)\<^sup>*" by (meson tranclD)
      with t(3) True have "d \<in> set xs" by (auto simp: node_ok_def edges_def)
      with topological_reachable [OF t(1) this d(2)] True t(2) show False by simp
    qed
  qed
qed simp

section \<open>The search\<close>

text \<open>What a completed (part of a) search leaves: the order is extended, stays topological, and the new
  nodes are reachable and not on the stack.\<close>

definition extends :: "'n graph \<Rightarrow> 'n list \<Rightarrow> 'n set \<Rightarrow> 'n list \<Rightarrow> 'n list \<Rightarrow> bool" where
  "extends g stack from dn dn' \<longleftrightarrow> topological g dn' \<and> (\<exists>new. dn' = dn @ new \<and> set new \<inter> set stack = {} \<and>
     set new \<subseteq> (\<Union>n\<in>from. {m. (n, m) \<in> (edges g)\<^sup>*}))"

lemma extends_refl: "topological g dn \<Longrightarrow> extends g stack from dn dn"
  by (simp add: extends_def)

lemma extends_trans:
  assumes "extends g stack A dn dn1" "extends g stack B dn1 dn2" shows "extends g stack (A \<union> B) dn dn2"
proof -
  obtain x y where "dn1 = dn @ x" "dn2 = dn1 @ y" "set x \<inter> set stack = {}" "set y \<inter> set stack = {}"
    "set x \<subseteq> (\<Union>n\<in>A. {m. (n, m) \<in> (edges g)\<^sup>*})" "set y \<subseteq> (\<Union>n\<in>B. {m. (n, m) \<in> (edges g)\<^sup>*})"
    "topological g dn2" using assms by (auto simp: extends_def)
  then show ?thesis by (auto simp: extends_def)
qed

lemma extends_mono: "extends g stack A dn dn' \<Longrightarrow> A \<subseteq> B \<Longrightarrow> extends g stack B dn dn'"
  by (fastforce simp: extends_def)

lemma extends_subset: "extends g stack A dn dn' \<Longrightarrow> set dn \<subseteq> set dn'"
  by (auto simp: extends_def)

lemma edges_Some: "map_of g n = Some s \<Longrightarrow> (n, d) \<in> edges g \<longleftrightarrow> d \<in> set (fs_deps s)"
  by (simp add: edges_def)

lemma visit_sound:
  "\<lbrakk>visit k g stack dn n = Ok dn'; topological g dn; set dn \<inter> set stack = {}\<rbrakk> \<Longrightarrow>
     extends g stack {n} dn dn' \<and> n \<in> set dn'"
  "\<lbrakk>visit_deps k g s stack dn ds = Ok dn'; topological g dn; set dn \<inter> set stack = {}\<rbrakk> \<Longrightarrow>
     extends g stack (set ds) dn dn' \<and> set ds \<subseteq> set dn' \<and> (\<forall>d\<in>set ds. \<not> bad_axes g s d)"
proof (induction k g stack dn n and k g s stack dn ds arbitrary: dn' and dn' rule: visit_visit_deps.induct)
  case (2 k g stack dn n)
  then obtain s where s: "map_of g n = Some s" by (auto split: option.splits)
  show ?case
  proof (cases "n \<in> set dn")
    case True
    with 2 s show ?thesis by (simp add: extends_refl)
  next
    case False
    with 2(2) s obtain dn1 where dn1: "n \<notin> set stack" "dn' = dn1 @ [n]"
      "visit_deps k g s (stack @ [n]) dn (fs_deps s) = Ok dn1"
      by (auto simp: bind_ok_Ok_iff split: if_split_asm)
    have "extends g (stack @ [n]) (set (fs_deps s)) dn dn1 \<and> set (fs_deps s) \<subseteq> set dn1 \<and>
        (\<forall>d\<in>set (fs_deps s). \<not> bad_axes g s d)"
      using 2(1) [OF s False dn1(1,3)] 2(3,4) False by simp
    then obtain new where new: "dn1 = dn @ new" "set new \<inter> set (stack @ [n]) = {}" "topological g dn1"
      "set new \<subseteq> (\<Union>d\<in>set (fs_deps s). {m. (d, m) \<in> (edges g)\<^sup>*})" "set (fs_deps s) \<subseteq> set dn1"
      "\<forall>d\<in>set (fs_deps s). \<not> bad_axes g s d" by (auto simp: extends_def)
    have "node_ok g (set dn1) n" using s new(5,6) by (auto simp: node_ok_def)
    moreover have "n \<notin> set dn1" using False new(1,2) by auto
    ultimately have "topological g dn'" using new(3) unfolding dn1(2) by simp
    moreover have "set new \<subseteq> {m. (n, m) \<in> (edges g)\<^sup>*}"
      using new(4) by (fastforce intro: converse_rtrancl_into_rtrancl simp: edges_Some [OF s])
    ultimately have "topological g dn'" "set (new @ [n]) \<inter> set stack = {}" "dn' = dn @ (new @ [n])"
      "set (new @ [n]) \<subseteq> {m. (n, m) \<in> (edges g)\<^sup>*}" "n \<in> set dn'"
      using new(1,2) dn1(1,2) by auto
    then show ?thesis unfolding extends_def by auto
  qed
next
  case (3 k g s stack dn)
  then show ?case by (simp add: extends_refl)
next
  case (4 k g s stack dn d ds)
  from 4(3) obtain dn1 where dn1: "\<not> bad_axes g s d" "visit k g stack dn d = Ok dn1"
    "visit_deps k g s stack dn1 ds = Ok dn'" by (auto simp: bind_ok_Ok_iff split: if_split_asm)
  from 4(1) [OF dn1(1,2) 4(4,5)] have e1: "extends g stack {d} dn dn1" "d \<in> set dn1" by simp_all
  then have "topological g dn1" "set dn1 \<inter> set stack = {}" using 4(5) by (auto simp: extends_def)
  from 4(2) [OF dn1(1,3) this] have e2: "extends g stack (set ds) dn1 dn'" "set ds \<subseteq> set dn'"
    "\<forall>d\<in>set ds. \<not> bad_axes g s d" by simp_all
  with extends_trans [OF e1(1) e2(1)] extends_subset [OF e2(1)] e1(2) dn1(1) show ?case by auto
qed simp

text \<open>A failed search names a defect that is reachable; running out of fuel is none of them.\<close>

definition defect :: "'n graph \<Rightarrow> graph_error \<Rightarrow> 'n \<Rightarrow> bool" where
  "defect g e n = (case e of
      NullNode \<Rightarrow> map_of g n = None
    | CycleDetected \<Rightarrow> (n, n) \<in> (edges g)\<^sup>+
    | TsDependsOnCs \<Rightarrow> (\<exists>s d. map_of g n = Some s \<and> d \<in> set (fs_deps s) \<and> bad_axes g s d)
    | OutOfFuel \<Rightarrow> False)"

lemma visit_fails:
  "\<lbrakk>visit k g stack dn n = Fail e; distinct stack; set stack \<subseteq> dom (map_of g);
    \<forall>m\<in>set stack. (m, n) \<in> (edges g)\<^sup>+; length g < k + length stack\<rbrakk> \<Longrightarrow>
     \<exists>m. (n, m) \<in> (edges g)\<^sup>* \<and> defect g e m"
  "\<lbrakk>visit_deps k g s stack dn ds = Fail e; distinct stack; set stack \<subseteq> dom (map_of g);
    map_of g n = Some s; set ds \<subseteq> set (fs_deps s); \<forall>m\<in>set stack. \<forall>d\<in>set ds. (m, d) \<in> (edges g)\<^sup>+;
    length g < k + length stack\<rbrakk> \<Longrightarrow>
     \<exists>m. (n, m) \<in> (edges g)\<^sup>* \<and> defect g e m"
proof (induction k g stack dn n and k g s stack dn ds arbitrary: e and n e rule: visit_visit_deps.induct)
  case (1 g stack dn n)
  have "length stack = card (set stack)" using 1(2) by (simp add: distinct_card)
  also have "\<dots> \<le> card (dom (map_of g))" using 1(3) by (intro card_mono) (simp_all add: finite_dom_map_of)
  also have "\<dots> \<le> length g" by (metis card_length dom_map_of_conv_image_fst length_map list.set_map)
  finally show ?case using 1(5) by simp
next
  case (2 k g stack dn n)
  show ?case
  proof (cases "map_of g n")
    case None
    with 2(2) show ?thesis by (auto simp: defect_def)
  next
    case (Some s)
    with 2(2) have n: "n \<notin> set dn" by (auto split: if_split_asm)
    show ?thesis
    proof (cases "n \<in> set stack")
      case True
      with 2(2,5) Some n show ?thesis by (auto simp: defect_def)
    next
      case False
      have f: "visit_deps k g s (stack @ [n]) dn (fs_deps s) = Fail e"
        using 2(2) Some n False by (auto simp: bind_ok_Fail_iff)
      have "(m, d) \<in> (edges g)\<^sup>+" if "m \<in> set (stack @ [n])" "d \<in> set (fs_deps s)" for m d
        using that 2(5) by (auto intro: trancl_into_trancl simp: edges_Some [OF Some])
      with 2(1) [OF Some n False f _ _ Some] 2(3,4,6) False Some show ?thesis by auto
    qed
  qed
next
  case (4 k g s stack dn d ds)
  show ?case
  proof (cases "bad_axes g s d")
    case True
    with 4(3,6,7) show ?thesis by (auto simp: defect_def)
  next
    case False
    have d: "(n, d) \<in> edges g" using 4(6,7) by (simp add: edges_Some)
    show ?thesis
    proof (cases "visit k g stack dn d")
      case (Fail e')
      with 4(3) False have "visit k g stack dn d = Fail e" by simp
      from 4(1) [OF False this] 4(4,5,8,9) obtain m where "(d, m) \<in> (edges g)\<^sup>*" "defect g e m" by auto
      with d show ?thesis by (meson converse_rtrancl_into_rtrancl)
    next
      case (Ok dn1)
      with 4(3) False have "visit_deps k g s stack dn1 ds = Fail e" by simp
      from 4(2) [OF False this 4(4,5,6)] 4(7-9) show ?thesis by simp
    qed
  qed
qed simp

lemma visit_roots_sound:
  "\<lbrakk>visit_roots g dn rs = Ok dn'; topological g dn\<rbrakk> \<Longrightarrow> extends g [] (set rs) dn dn' \<and> set rs \<subseteq> set dn'"
proof (induction rs arbitrary: dn)
  case Nil
  then show ?case by (simp add: extends_refl)
next
  case (Cons r rs)
  from Cons.prems(1) obtain dn1 where dn1: "visit (Suc (length g)) g [] dn r = Ok dn1" "visit_roots g dn1 rs = Ok dn'"
    by (auto simp: bind_ok_Ok_iff simp del: visit.simps)
  from visit_sound(1) [OF dn1(1) Cons.prems(2)] have e1: "extends g [] {r} dn dn1" "r \<in> set dn1" by simp_all
  then have "topological g dn1" by (simp add: extends_def)
  from Cons.IH [OF dn1(2) this] have "extends g [] (set rs) dn1 dn'" "set rs \<subseteq> set dn'" by simp_all
  with extends_trans [OF e1(1) this(1)] extends_subset [OF this(1)] e1(2) show ?case by auto
qed

lemma visit_roots_fails:
  "visit_roots g dn rs = Fail e \<Longrightarrow> \<exists>n\<in>reachable g rs. defect g e n"
proof (induction rs arbitrary: dn)
  case (Cons r rs)
  then consider "visit (Suc (length g)) g [] dn r = Fail e" | dn1 where "visit_roots g dn1 rs = Fail e"
    by (auto simp: bind_ok_Fail_iff simp del: visit.simps)
  then show ?case
  proof cases
    case 1
    from visit_fails(1) [OF this] show ?thesis by (auto simp: reachable_def)
  next
    case 2
    from Cons.IH [OF this] show ?thesis by (auto simp: reachable_def)
  qed
qed simp

lemma reachable_edge: "n \<in> reachable g rs \<Longrightarrow> (n, d) \<in> edges g \<Longrightarrow> d \<in> reachable g rs"
  by (auto simp: reachable_def intro: rtrancl_into_rtrancl)

lemma topo_order_facts:
  assumes "reachable_topo_order g roots = Ok xs"
  shows "topological g xs" "set xs = reachable g roots"
proof -
  have e: "extends g [] (set roots) [] xs" "set roots \<subseteq> set xs"
    using visit_roots_sound [of g "[]" roots xs] assms by (simp_all add: reachable_topo_order_def)
  then show t: "topological g xs" by (simp add: extends_def)
  from e have "set xs \<subseteq> reachable g roots" by (auto simp: extends_def reachable_def)
  moreover have "reachable g roots \<subseteq> set xs"
    using topological_reachable [OF t] e(2) by (auto simp: reachable_def)
  ultimately show "set xs = reachable g roots" by blast
qed

lemma topological_no_defect:
  assumes "topological g xs" "n \<in> set xs" shows "\<not> defect g e n"
proof -
  obtain ys zs where "xs = ys @ n # zs" using assms(2) by (auto dest: split_list)
  with topological_split [of g ys n zs] assms(1) have "node_ok g (set ys) n" by blast
  with topological_acyclic [OF assms] show ?thesis
    by (cases e) (auto simp: defect_def node_ok_def)
qed

section \<open>The two phases\<close>

lemma filter_axis_filter: "filter_axis g xs ax = filter (has_axis g ax) xs"
proof -
  have "foldl (\<lambda>out n. if has_axis g ax n then out @ [n] else out) acc xs = acc @ filter (has_axis g ax) xs" for acc
    by (induction xs arbitrary: acc) auto
  then show ?thesis by (simp add: filter_axis_def)
qed

lemma count_axis_length: "count_axis g xs ax = length (filter (has_axis g ax) xs)"
proof -
  have "foldl (\<lambda>c n. if has_axis g ax n then c + 1 else c) k xs = k + length (filter (has_axis g ax) xs)" for k :: nat
    by (induction xs arbitrary: k) auto
  then show ?thesis by (simp add: count_axis_def)
qed

lemma topological_phases:
  "topological g xs \<Longrightarrow> topological g (filter (has_axis g TimeSeries) xs @ filter (has_axis g CrossSection) xs)"
proof (induction xs rule: rev_induct)
  case (snoc n xs)
  let ?T = "filter (has_axis g TimeSeries) xs" and ?C = "filter (has_axis g CrossSection) xs"
  have n: "n \<notin> set xs" "node_ok g (set xs) n" "topological g xs" "topological g (?T @ ?C)"
    using snoc by simp_all
  have all: "m \<in> set xs \<Longrightarrow> has_axis g TimeSeries m \<or> has_axis g CrossSection m" for m
    using topological_no_defect [OF n(3), of m NullNode]
    by (auto simp: defect_def has_axis_def split: option.splits) (metis axis.exhaust)
  obtain s where s: "map_of g n = Some s" "set (fs_deps s) \<subseteq> set xs" "\<forall>d\<in>set (fs_deps s). \<not> bad_axes g s d"
    using n(2) by (auto simp: node_ok_def)
  show ?case
  proof (cases "fs_axis s")
    case CrossSection
    have "node_ok g (set (?T @ ?C)) n" using s all by (auto simp: node_ok_def)
    then have "topological g ((?T @ ?C) @ [n])" using n(1,4) unfolding topological_simps by simp
    then show ?thesis using s(1) CrossSection by (simp add: has_axis_def [of _ _ n])
  next
    case TimeSeries
    have "d \<in> set ?T" if "d \<in> set (fs_deps s)" for d
      using s that all [of d] TimeSeries by (auto simp: bad_axes_def has_axis_def split: option.splits)
    then have ok: "node_ok g (set ?T) n" using s by (auto simp: node_ok_def)
    have ins: "topological g (?T @ n # ys)" if "topological g (?T @ ys)" "n \<notin> set ys" for ys
      using that
    proof (induction ys rule: rev_induct)
      case Nil
      with ok n(1) show ?case by simp
    next
      case (snoc y ys)
      then have "topological g ((?T @ ys) @ [y])" by simp
      then have "topological g (?T @ ys)" "node_ok g (set (?T @ ys)) y" "y \<notin> set (?T @ ys)"
        unfolding topological_simps by simp_all
      moreover from this(1) snoc have "topological g (?T @ n # ys)" "y \<noteq> n" by auto
      moreover have "node_ok g (set (?T @ n # ys)) y" using calculation(2) by (auto simp: node_ok_def)
      ultimately show ?case
        using topological_simps(2) [of g "?T @ n # ys" y] by auto
    qed
    from ins [of ?C] n(1,4) s(1) TimeSeries show ?thesis by (simp add: has_axis_def [of _ _ n])
  qed
qed simp

section \<open>Properties\<close>

text \<open>A small graph for the witnesses: a factor over a cross-section node over two raw nodes.\<close>

definition raw_spec :: "axis \<Rightarrow> 'n list \<Rightarrow> 'n feature_spec" where
  "raw_spec ax ds = \<lparr>fs_name = ''n'', fs_cn_name = ''n'', fs_kind = Inter_kind, fs_axis = ax, fs_deps = ds,
     fs_must_be_finite = False, fs_formula = ''f'', fs_assumption = ''-''\<rparr>"

definition sample_graph :: "nat graph" where
  "sample_graph = [(1, raw_spec TimeSeries []), (2, raw_spec TimeSeries [1]),
     (3, raw_spec CrossSection [2, 1]), (4, raw_spec CrossSection [3, 1]), (5, raw_spec TimeSeries [3])]"

text \<open>C26. The compiled order is a topological order of exactly what the roots reach: no node appears
  twice, a node is in it if and only if a path of dependencies leads to it from a root, and at each
  position the node's dependencies all stand before it, none of them a cross-section node below a
  time-series node.\<close>

theorem topo_order_correct:
  assumes "reachable_topo_order g roots = Ok xs"
  shows "distinct xs \<and> set xs = reachable g roots \<and>
    (\<forall>ys n zs. xs = ys @ n # zs \<longrightarrow> (\<exists>s. map_of g n = Some s \<and> set (fs_deps s) \<subseteq> set ys \<and>
      (\<forall>d\<in>set (fs_deps s). \<not> bad_axes g s d)))"
proof (intro conjI allI impI)
  note t = topo_order_facts [OF assms]
  show "distinct xs" by (rule topological_distinct [OF t(1)])
  show "set xs = reachable g roots" by (rule t(2))
  fix ys n zs assume "xs = ys @ n # zs"
  with t(1) have "node_ok g (set ys) n" using topological_split [of g ys n zs] by blast
  then show "\<exists>s. map_of g n = Some s \<and> set (fs_deps s) \<subseteq> set ys \<and> (\<forall>d\<in>set (fs_deps s). \<not> bad_axes g s d)"
    by (simp add: node_ok_def)
qed

lemma topo_order_correct_witness:
  "distinct [1, 2, 3, 4 :: nat] \<and> set [1, 2, 3, 4] = reachable sample_graph [4, 2]"
proof -
  have "reachable_topo_order sample_graph [4, 2] = Ok [1, 2, 3, 4]" by code_simp
  from topo_order_correct [OF this] show ?thesis by blast
qed

text \<open>The search always ends with an answer, and it fails exactly on a defect: it gives an order if
  and only if no reachable node is missing, lies on a cycle, or is a time-series node with a
  cross-section dependency; the error it reports names a defect that is reachable. Running out of
  fuel is not among the outcomes.\<close>

theorem topo_order_decides:
  "(\<exists>xs. reachable_topo_order g roots = Ok xs) = (\<forall>n\<in>reachable g roots. \<forall>e. \<not> defect g e n) \<and>
   (\<forall>e. reachable_topo_order g roots = Fail e \<longrightarrow> (\<exists>n\<in>reachable g roots. defect g e n)) \<and>
   reachable_topo_order g roots \<noteq> Fail OutOfFuel"
proof (intro conjI iffI)
  assume "\<exists>xs. reachable_topo_order g roots = Ok xs"
  then show "\<forall>n\<in>reachable g roots. \<forall>e. \<not> defect g e n"
    using topo_order_facts topological_no_defect by fastforce
next
  assume "\<forall>n\<in>reachable g roots. \<forall>e. \<not> defect g e n"
  then show "\<exists>xs. reachable_topo_order g roots = Ok xs"
    using visit_roots_fails [of g "[]" roots]
    by (cases "visit_roots g [] roots") (auto simp: reachable_topo_order_def)
next
  show "\<forall>e. reachable_topo_order g roots = Fail e \<longrightarrow> (\<exists>n\<in>reachable g roots. defect g e n)"
    using visit_roots_fails by (auto simp: reachable_topo_order_def)
  show "reachable_topo_order g roots \<noteq> Fail OutOfFuel"
    using visit_roots_fails [of g "[]" roots OutOfFuel] by (auto simp: reachable_topo_order_def defect_def)
qed

lemma topo_order_decides_witness:
  "(\<exists>n\<in>reachable sample_graph [5]. defect sample_graph TsDependsOnCs n) \<and>
   \<not> (\<exists>n\<in>reachable sample_graph [4]. \<exists>e. defect sample_graph e n)"
proof
  have "reachable_topo_order sample_graph [5] = Fail TsDependsOnCs" by code_simp
  with topo_order_decides [of sample_graph "[5]"]
  show "\<exists>n\<in>reachable sample_graph [5]. defect sample_graph TsDependsOnCs n" by blast
  have "reachable_topo_order sample_graph [4] = Ok [1, 2, 3, 4]" by code_simp
  with topo_order_decides [of sample_graph "[4]"]
  show "\<not> (\<exists>n\<in>reachable sample_graph [4]. \<exists>e. defect sample_graph e n)" by blast
qed

text \<open>Running all time-series nodes first and all cross-section nodes second, each phase in the
  order's own sequence, computes every node after its dependencies; the two arrays have the lengths
  counted for them and hold every node once.\<close>

theorem phases_topological:
  assumes "reachable_topo_order g roots = Ok xs"
  shows "topological g (filter_axis g xs TimeSeries @ filter_axis g xs CrossSection) \<and>
    set (filter_axis g xs TimeSeries) \<union> set (filter_axis g xs CrossSection) = set xs \<and>
    length (filter_axis g xs ax) = count_axis g xs ax"
proof (intro conjI)
  note t = topo_order_facts(1) [OF assms]
  show "topological g (filter_axis g xs TimeSeries @ filter_axis g xs CrossSection)"
    unfolding filter_axis_filter by (rule topological_phases [OF t])
  have "has_axis g TimeSeries n \<or> has_axis g CrossSection n" if "n \<in> set xs" for n
    using topological_no_defect [OF t that, of NullNode]
    by (auto simp: defect_def has_axis_def) (metis axis.exhaust)
  then show "set (filter_axis g xs TimeSeries) \<union> set (filter_axis g xs CrossSection) = set xs"
    by (auto simp: filter_axis_filter)
  show "length (filter_axis g xs ax) = count_axis g xs ax"
    by (simp add: filter_axis_filter count_axis_length)
qed

lemma phases_topological_witness:
  "topological sample_graph ([1, 2] @ [3, 4]) \<and> length [3, 4 :: nat] = count_axis sample_graph [1, 2, 3, 4] CrossSection"
proof -
  have "reachable_topo_order sample_graph [4] = Ok [1, 2, 3, 4]"
    "filter_axis sample_graph [1, 2, 3, 4] TimeSeries = [1, 2]"
    "filter_axis sample_graph [1, 2, 3, 4] CrossSection = [3, 4]" by code_simp+
  with phases_topological [OF this(1), of CrossSection] show ?thesis by simp
qed

end
