(* ===== verification/Tensors.thy ===== *)
theory Tensors
  imports Pit Graph
begin

text \<open>
  The matrix store of all features (\<open>cpp/src/feature/tensor.cpp\<close>, \<open>tensor.hpp\<close>) and the nodes that own
  its columns. A column is one flat list, instrument by instrument, each instrument's row holding one
  value per day. The nodes of the feature graph are the headers under \<open>cpp/include/feature/def\<close>,
  one constructor each; the index of a node in \<open>mats\<close> is fixed when the program is compiled, so here a
  node names its matrix directly.

  \<open>ts_row\<close> is the row of an instrument, read and written through a span; \<open>gather_cs_row\<close> and
  \<open>scatter_cs_row\<close> read and write the values of one day.
\<close>

datatype node =
    Close_raw | Daily_return | Delist_age | Industry_l1 | Is_margin | Limit_dn | Limit_up | List_age | Susp
  | Dividend_st | New_list | Profit_st | Revenue_st | Risk_warn | Trading_st
  | Bp_ttm3 | Cffoa_raw | Cffoa_ttm12 | Close | Cp_ttm12 | Dn_lim | Dy_raw | Dy_ttm12 | Ep_ttm12
  | Fmcap | Fmcap_raw | Low_mc | Low_p | Mcap | Mcap_raw | Mr_bal | Mr_bal_raw | Ms_bal | Ms_bal_raw
  | Ni_raw | Pb_raw | Pcf_raw | Pe_raw | Ps_raw | Rev_raw | Roa_raw | Roa_ttm12 | Roe_raw | Roe_ttm12
  | Share_raw | Sp_ttm12 | Up_lim

record tensor =
  tn_mats :: "node \<Rightarrow> fval list"
  tn_strat :: "fval list list"

definition new_tensor :: "axes \<Rightarrow> nat \<Rightarrow> tensor" where
  "new_tensor ax n_strat_slots = \<lparr>tn_mats = (\<lambda>f. replicate (grid_n ax) NaN),
     tn_strat = replicate n_strat_slots (replicate (grid_n ax) NaN)\<rparr>"

section \<open>Access to one matrix\<close>

definition mat_off :: "axes \<Rightarrow> nat \<Rightarrow> nat \<Rightarrow> nat" where
  "mat_off ax a d = a * n_d ax + d"

definition mat_ts_row :: "axes \<Rightarrow> 'v list \<Rightarrow> nat \<Rightarrow> 'v list" where
  "mat_ts_row ax m a = take (n_d ax) (drop (a * n_d ax) m)"

text \<open>What writing a whole row through the span leaves.\<close>

definition put_ts_row :: "axes \<Rightarrow> 'v list \<Rightarrow> nat \<Rightarrow> 'v list \<Rightarrow> 'v list" where
  "put_ts_row ax m a r = take (a * n_d ax) m @ r @ drop (a * n_d ax + n_d ax) m"

definition mat_gather :: "axes \<Rightarrow> 'v list \<Rightarrow> nat \<Rightarrow> 'v list" where
  "mat_gather ax m d = map (\<lambda>a. m ! (a * n_d ax + d)) [0..<n_a ax]"

definition mat_scatter :: "axes \<Rightarrow> 'v list \<Rightarrow> nat \<Rightarrow> 'v list \<Rightarrow> 'v list" where
  "mat_scatter ax m d inp = foldl (\<lambda>m a. m[a * n_d ax + d := inp ! a]) m [0..<n_a ax]"

definition mat_finite :: "axes \<Rightarrow> fval list \<Rightarrow> bool" where
  "mat_finite ax m \<longleftrightarrow> list_all (\<lambda>a. list_all (\<lambda>d. is_finite (m ! (a * n_d ax + d))) [0..<n_d ax]) [0..<n_a ax]"

section \<open>The tensor\<close>

definition ts_row :: "axes \<Rightarrow> tensor \<Rightarrow> node \<Rightarrow> nat \<Rightarrow> fval list" where
  "ts_row ax T f a = mat_ts_row ax (tn_mats T f) a"

definition set_ts_row :: "axes \<Rightarrow> tensor \<Rightarrow> node \<Rightarrow> nat \<Rightarrow> fval list \<Rightarrow> tensor" where
  "set_ts_row ax T f a r = T\<lparr>tn_mats := (tn_mats T)(f := put_ts_row ax (tn_mats T f) a r)\<rparr>"

definition gather_cs_row :: "axes \<Rightarrow> tensor \<Rightarrow> node \<Rightarrow> nat \<Rightarrow> fval list" where
  "gather_cs_row ax T f d = mat_gather ax (tn_mats T f) d"

definition scatter_cs_row :: "axes \<Rightarrow> tensor \<Rightarrow> node \<Rightarrow> nat \<Rightarrow> fval list \<Rightarrow> tensor" where
  "scatter_cs_row ax T f d inp = T\<lparr>tn_mats := (tn_mats T)(f := mat_scatter ax (tn_mats T f) d inp)\<rparr>"

definition tensor_at :: "axes \<Rightarrow> tensor \<Rightarrow> node \<Rightarrow> nat \<Rightarrow> nat \<Rightarrow> fval" where
  "tensor_at ax T f a d = tn_mats T f ! mat_off ax a d"

definition strat_ts_row :: "axes \<Rightarrow> tensor \<Rightarrow> nat \<Rightarrow> nat \<Rightarrow> fval list" where
  "strat_ts_row ax T slot a = mat_ts_row ax (tn_strat T ! slot) a"

definition set_strat_ts_row :: "axes \<Rightarrow> tensor \<Rightarrow> nat \<Rightarrow> nat \<Rightarrow> fval list \<Rightarrow> tensor" where
  "set_strat_ts_row ax T slot a r = T\<lparr>tn_strat := (tn_strat T)[slot := put_ts_row ax (tn_strat T ! slot) a r]\<rparr>"

definition strat_gather_cs_row :: "axes \<Rightarrow> tensor \<Rightarrow> nat \<Rightarrow> nat \<Rightarrow> fval list" where
  "strat_gather_cs_row ax T slot d = mat_gather ax (tn_strat T ! slot) d"

definition strat_scatter_cs_row :: "axes \<Rightarrow> tensor \<Rightarrow> nat \<Rightarrow> nat \<Rightarrow> fval list \<Rightarrow> tensor" where
  "strat_scatter_cs_row ax T slot d inp = T\<lparr>tn_strat := (tn_strat T)[slot := mat_scatter ax (tn_strat T ! slot) d inp]\<rparr>"

definition strat_at :: "axes \<Rightarrow> tensor \<Rightarrow> nat \<Rightarrow> nat \<Rightarrow> nat \<Rightarrow> fval" where
  "strat_at ax T slot a d = tn_strat T ! slot ! mat_off ax a d"

definition assert_finite :: "axes \<Rightarrow> tensor \<Rightarrow> node \<Rightarrow> bool" where
  "assert_finite ax T f \<longleftrightarrow> mat_finite ax (tn_mats T f)"

definition assert_finite_strat :: "axes \<Rightarrow> tensor \<Rightarrow> nat \<Rightarrow> bool" where
  "assert_finite_strat ax T slot \<longleftrightarrow> mat_finite ax (tn_strat T ! slot)"

section \<open>Reading after writing\<close>

text \<open>A matrix has the right size.\<close>

definition mat_ok :: "axes \<Rightarrow> 'v list \<Rightarrow> bool" where
  "mat_ok ax m \<longleftrightarrow> length m = grid_n ax"

definition tensor_ok :: "axes \<Rightarrow> tensor \<Rightarrow> bool" where
  "tensor_ok ax T \<longleftrightarrow> (\<forall>f. mat_ok ax (tn_mats T f)) \<and> (\<forall>m\<in>set (tn_strat T). mat_ok ax m)"

lemma row_end: "a < n_a ax \<Longrightarrow> a * n_d ax + n_d ax \<le> grid_n ax"
proof -
  assume "a < n_a ax"
  then have "Suc a * n_d ax \<le> n_a ax * n_d ax" by (intro mult_le_mono1) simp
  then show ?thesis by (simp add: grid_n_def add.commute)
qed

lemma length_mat_ts_row: "mat_ok ax m \<Longrightarrow> a < n_a ax \<Longrightarrow> length (mat_ts_row ax m a) = n_d ax"
  using row_end [of a ax] by (simp add: mat_ts_row_def mat_ok_def)

lemma mat_ts_row_nth: "mat_ok ax m \<Longrightarrow> a < n_a ax \<Longrightarrow> d < n_d ax \<Longrightarrow> mat_ts_row ax m a ! d = m ! (a * n_d ax + d)"
  using row_end [of a ax] by (simp add: mat_ts_row_def mat_ok_def)

lemma mat_ok_put: "mat_ok ax m \<Longrightarrow> a < n_a ax \<Longrightarrow> length r = n_d ax \<Longrightarrow> mat_ok ax (put_ts_row ax m a r)"
  using row_end [of a ax] by (simp add: put_ts_row_def mat_ok_def)

lemma put_ts_row_nth:
  assumes "mat_ok ax m" "a < n_a ax" "b < n_a ax" "length r = n_d ax" "d < n_d ax"
  shows "put_ts_row ax m a r ! (b * n_d ax + d) = (if b = a then r ! d else m ! (b * n_d ax + d))"
proof -
  note e = row_end [OF assms(2)] row_end [OF assms(3)]
  consider "b < a" | "b = a" | "a < b" by linarith
  then show ?thesis
  proof cases
    case 1
    then have "Suc b * n_d ax \<le> a * n_d ax" by (intro mult_le_mono1) simp
    then have "b * n_d ax + d < a * n_d ax" using assms(5) by simp
    then show ?thesis using 1 e assms by (simp add: put_ts_row_def nth_append mat_ok_def)
  next
    case 2
    then show ?thesis using e assms by (simp add: put_ts_row_def nth_append mat_ok_def)
  next
    case 3
    then have "Suc a * n_d ax \<le> b * n_d ax" by (intro mult_le_mono1) simp
    then have "a * n_d ax + n_d ax \<le> b * n_d ax + d" by simp
    then obtain k where k: "b * n_d ax + d = a * n_d ax + n_d ax + k" by (auto simp: le_iff_add)
    show ?thesis unfolding k using 3 e assms k by (simp add: put_ts_row_def nth_append mat_ok_def)
  qed
qed

lemma mat_ts_row_put:
  assumes "mat_ok ax m" "a < n_a ax" "b < n_a ax" "length r = n_d ax"
  shows "mat_ts_row ax (put_ts_row ax m a r) b = (if b = a then r else mat_ts_row ax m b)"
  using assms
  by (intro nth_equalityI) (simp_all add: length_mat_ts_row mat_ok_put mat_ts_row_nth put_ts_row_nth)

lemma ts_row_set:
  assumes "tensor_ok ax T" "a < n_a ax" "b < n_a ax" "length r = n_d ax"
  shows "ts_row ax (set_ts_row ax T f a r) g b = (if g = f \<and> b = a then r else ts_row ax T g b)"
  using assms by (simp add: ts_row_def set_ts_row_def tensor_ok_def mat_ts_row_put)

lemma tensor_ok_set_ts_row:
  "tensor_ok ax T \<Longrightarrow> a < n_a ax \<Longrightarrow> length r = n_d ax \<Longrightarrow> tensor_ok ax (set_ts_row ax T f a r)"
  by (simp add: tensor_ok_def set_ts_row_def mat_ok_put)

lemma length_ts_row: "tensor_ok ax T \<Longrightarrow> a < n_a ax \<Longrightarrow> length (ts_row ax T f a) = n_d ax"
  by (simp add: ts_row_def tensor_ok_def length_mat_ts_row)

lemma tensor_ok_new: "tensor_ok ax (new_tensor ax n)"
  by (simp add: tensor_ok_def new_tensor_def mat_ok_def)

lemma length_mat_scatter: "length (mat_scatter ax m d inp) = length m"
proof -
  have "length (foldl (\<lambda>m a. m[a * n_d ax + d := inp ! a]) m as) = length m" for as
    by (induction as arbitrary: m) simp_all
  then show ?thesis by (simp add: mat_scatter_def)
qed

lemma mat_scatter_nth:
  assumes "mat_ok ax m" "d < n_d ax" "e < n_d ax" "b < n_a ax"
  shows "mat_scatter ax m d inp ! (b * n_d ax + e) = (if e = d then inp ! b else m ! (b * n_d ax + e))"
proof -
  have "k \<le> n_a ax \<Longrightarrow> length (foldl (\<lambda>m a. m[a * n_d ax + d := inp ! a]) m [0..<k]) = grid_n ax \<and>
      foldl (\<lambda>m a. m[a * n_d ax + d := inp ! a]) m [0..<k] ! (b * n_d ax + e) =
      (if e = d \<and> b < k then inp ! b else m ! (b * n_d ax + e))" for k
  proof (induction k)
    case 0
    with assms(1) show ?case by (simp add: mat_ok_def)
  next
    case (Suc k)
    then have "k * n_d ax + d < grid_n ax" using assms(2) cell_less by simp
    with Suc show ?case by (auto simp: nth_list_update cell_eq [OF assms(2,3)])
  qed
  from this [of "n_a ax"] assms(4) show ?thesis by (simp add: mat_scatter_def)
qed

lemma gather_scatter:
  assumes "tensor_ok ax T" "d < n_d ax" "e < n_d ax" "length inp = n_a ax"
  shows "gather_cs_row ax (scatter_cs_row ax T f d inp) g e = (if g = f \<and> e = d then inp else gather_cs_row ax T g e)"
  using assms
  by (intro nth_equalityI) (auto simp: gather_cs_row_def scatter_cs_row_def mat_gather_def tensor_ok_def mat_scatter_nth)

lemma tensor_ok_scatter: "tensor_ok ax T \<Longrightarrow> tensor_ok ax (scatter_cs_row ax T f d inp)"
  by (simp add: tensor_ok_def scatter_cs_row_def mat_ok_def length_mat_scatter)

lemma length_gather: "length (gather_cs_row ax T f d) = n_a ax"
  by (simp add: gather_cs_row_def mat_gather_def)

lemma gather_at: "a < n_a ax \<Longrightarrow> gather_cs_row ax T f d ! a = tensor_at ax T f a d"
  by (simp add: gather_cs_row_def mat_gather_def tensor_at_def mat_off_def)

lemma ts_row_at: "tensor_ok ax T \<Longrightarrow> a < n_a ax \<Longrightarrow> d < n_d ax \<Longrightarrow> ts_row ax T f a ! d = tensor_at ax T f a d"
  by (simp add: ts_row_def tensor_ok_def mat_ts_row_nth tensor_at_def mat_off_def)

end
