(* ===== verification/Replay.thy ===== *)
theory Replay
  imports Tensors
begin

text \<open>
  The shared parts of the time-series nodes (\<open>cpp/include/feature/def/detail.hpp\<close>, \<open>ts.hpp\<close>, and the
  small helpers of \<open>feature.hpp\<close>): the day an instrument is listed or delisted, copying a row of a
  grid, replaying the events of an instrument day by day, the end of a forecast, and intervals.

  \<open>till D xs\<close> is what a row says about the days up to \<open>D\<close>; the lemmas at the end say that the helpers
  let no later value into it.
\<close>

section \<open>The data of all instruments, and static data\<close>

record pit_pool =
  pp_bar1d :: grid_bar1d
  pp_shares :: grid_shares
  pp_limit_price :: grid_limit_price
  pp_status :: grid_status
  pp_margin_detail :: grid_margin_detail
  pp_industry_component :: "industry_ev event_store"
  pp_industry_change :: "industry_ev event_store"
  pp_dividend :: "dividend_ev event_store"
  pp_financial_ttm :: "financial_ttm_ev event_store"
  pp_financial_balance :: "financial_balance_ev event_store"
  pp_financial_income_annual :: "financial_income_annual_ev event_store"
  pp_forecast :: "forecast_ev event_store"

text \<open>The roundings of the two floating-point types.\<close>

record arith =
  single :: "real \<Rightarrow> fval"
  double :: "real \<Rightarrow> fval"

section \<open>Years and months\<close>

text \<open>\<open>char\<close> is signed.\<close>

definition schar :: "char \<Rightarrow> int" where
  "schar c = (if byte c < 128 then int (byte c) else int (byte c) - 256)"

definition year_of_text :: "string \<Rightarrow> int" where
  "year_of_text s = (if length s < 4 then 0
     else (schar (s ! 0) - 48) * 1000 + (schar (s ! 1) - 48) * 100 + (schar (s ! 2) - 48) * 10 + (schar (s ! 3) - 48))"

definition year_of :: "int \<Rightarrow> int" where
  "year_of v = (if v > 0 then v div 10000 else 0)"

definition month_of :: "int \<Rightarrow> int" where
  "month_of v = (if v > 0 then (v div 100) mod 100 else 0)"

section \<open>Listing and delisting\<close>

definition lower_bound :: "string list \<Rightarrow> string \<Rightarrow> nat" where
  "lower_bound xs d = length (takeWhile (\<lambda>x. x < d) xs)"

definition get_list_d :: "axes \<Rightarrow> stock_meta \<Rightarrow> nat \<Rightarrow> nat" where
  "get_list_d ax meta a =
     (let ld = sm_list_date meta ! a in if length ld \<noteq> 8 then n_d ax else lower_bound (ax_dates ax) ld)"

definition get_delist_d :: "axes \<Rightarrow> stock_meta \<Rightarrow> nat \<Rightarrow> nat" where
  "get_delist_d ax meta a =
     (let dd = sm_delist_date meta ! a in if length dd \<noteq> 8 then n_d ax else lower_bound (ax_dates ax) dd)"

definition fill_before_list :: "axes \<Rightarrow> stock_meta \<Rightarrow> nat \<Rightarrow> fval list \<Rightarrow> fval list" where
  "fill_before_list ax meta a out =
     (let hi = min (get_list_d ax meta a) (n_d ax) in replicate hi (Fin 0) @ drop hi out)"

section \<open>Grids\<close>

definition grid_copy :: "axes \<Rightarrow> stock_meta \<Rightarrow> nat \<Rightarrow> fval list \<Rightarrow> bool \<Rightarrow> fval list" where
  "grid_copy ax meta a src fill_pre_list =
     (let out = map (\<lambda>d. src ! (a * n_d ax + d)) [0..<n_d ax]
      in if fill_pre_list then fill_before_list ax meta a out else out)"

definition grid_copy_bool :: "axes \<Rightarrow> nat \<Rightarrow> int list \<Rightarrow> fval list" where
  "grid_copy_bool ax a src = map (\<lambda>d. of_flag (src ! (a * n_d ax + d) \<noteq> 0)) [0..<n_d ax]"

section \<open>Replaying events\<close>

text \<open>The inner \<open>while\<close>: take the events up to day \<open>d\<close>, one step of the state each.\<close>

fun take_events :: "('e \<Rightarrow> int) \<Rightarrow> ('s \<Rightarrow> 'e \<Rightarrow> 's) \<Rightarrow> nat \<Rightarrow> 's \<Rightarrow> 'e list \<Rightarrow> 's \<times> 'e list" where
  "take_events v step d s [] = (s, [])"
| "take_events v step d s (e # es) = (if v e \<le> int d then take_events v step d (step s e) es else (s, e # es))"

text \<open>The loop over the days with two streams of events; it gives the state of each day.\<close>

fun replay2 ::
  "('e \<Rightarrow> int) \<Rightarrow> ('s \<Rightarrow> 'e \<Rightarrow> 's) \<Rightarrow> ('f \<Rightarrow> int) \<Rightarrow> ('s \<Rightarrow> 'f \<Rightarrow> 's) \<Rightarrow> 's \<Rightarrow> 'e list \<Rightarrow> 'f list \<Rightarrow> nat list \<Rightarrow> 's list" where
  "replay2 v st w sw s es fs [] = []"
| "replay2 v st w sw s es fs (d # ds) =
     (case take_events v st d s es of (s1, es1) \<Rightarrow>
      case take_events w sw d s1 fs of (s2, fs2) \<Rightarrow> s2 # replay2 v st w sw s2 es1 fs2 ds)"

text \<open>The loop with one stream.\<close>

fun replay :: "('e \<Rightarrow> int) \<Rightarrow> ('s \<Rightarrow> 'e \<Rightarrow> 's) \<Rightarrow> 's \<Rightarrow> 'e list \<Rightarrow> nat list \<Rightarrow> 's list" where
  "replay v st s es [] = []"
| "replay v st s es (d # ds) = (case take_events v st d s es of (s1, es1) \<Rightarrow> s1 # replay v st s1 es1 ds)"

text \<open>A step that keeps the last event from the listing on, and one that keeps the last per report date.\<close>

definition keep_last :: "('e \<Rightarrow> int) \<Rightarrow> nat \<Rightarrow> 'e option \<Rightarrow> 'e \<Rightarrow> 'e option" where
  "keep_last v list_d s e = (if v e \<ge> int list_d then Some e else s)"

type_synonym by_report_date = "(int \<times> financial_balance_ev) list"

text \<open>\<open>std::map\<close> from report dates: ascending, assignment replaces.\<close>

fun map_assign :: "int \<Rightarrow> 'e \<Rightarrow> (int \<times> 'e) list \<Rightarrow> (int \<times> 'e) list" where
  "map_assign k x [] = [(k, x)]"
| "map_assign k x ((l, y) # m) =
     (if k < l then (k, x) # (l, y) # m else if k = l then (k, x) # m else (l, y) # map_assign k x m)"

definition keep_report :: "nat \<Rightarrow> by_report_date \<Rightarrow> financial_balance_ev \<Rightarrow> by_report_date" where
  "keep_report list_d m e = (if be_v e \<ge> int list_d then map_assign (be_report_date e) e m else m)"

definition scan_latest_ttm ::
  "axes \<Rightarrow> pit_pool \<Rightarrow> stock_meta \<Rightarrow> nat \<Rightarrow> (nat \<Rightarrow> financial_ttm_ev \<Rightarrow> fval) \<Rightarrow> fval list" where
  "scan_latest_ttm ax pool meta a compute =
     map2 (\<lambda>d s. case s of None \<Rightarrow> NaN | Some e \<Rightarrow> compute d e) [0..<n_d ax]
       (replay te_v (keep_last te_v (get_list_d ax meta a)) None (store_at (pp_financial_ttm pool) a) [0..<n_d ax])"

definition scan_latest_balance ::
  "axes \<Rightarrow> pit_pool \<Rightarrow> stock_meta \<Rightarrow> nat \<Rightarrow> (nat \<Rightarrow> financial_balance_ev \<Rightarrow> fval) \<Rightarrow> fval list" where
  "scan_latest_balance ax pool meta a compute =
     map2 (\<lambda>d m. if m = [] then NaN else compute d (snd (last m))) [0..<n_d ax]
       (replay be_v (keep_report (get_list_d ax meta a)) [] (store_at (pp_financial_balance pool) a) [0..<n_d ax])"

definition scan_latest_ttm_and_balance ::
  "axes \<Rightarrow> pit_pool \<Rightarrow> stock_meta \<Rightarrow> nat \<Rightarrow> (nat \<Rightarrow> financial_ttm_ev \<Rightarrow> by_report_date \<Rightarrow> fval) \<Rightarrow> fval list" where
  "scan_latest_ttm_and_balance ax pool meta a compute =
     map2 (\<lambda>d (s, m). case s of None \<Rightarrow> NaN | Some e \<Rightarrow> if m = [] then NaN else compute d e m) [0..<n_d ax]
       (replay2 te_v (\<lambda>(s, m) e. (keep_last te_v (get_list_d ax meta a) s e, m))
          be_v (\<lambda>(s, m) e. (s, keep_report (get_list_d ax meta a) m e)) (None, [])
          (store_at (pp_financial_ttm pool) a) (store_at (pp_financial_balance pool) a) [0..<n_d ax])"

section \<open>The average over the quarters of a year\<close>

definition prev_quarter_end :: "int \<Rightarrow> int" where
  "prev_quarter_end rd =
     (let y = rd div 10000; md = rd mod 10000 in
      if md = 1231 then y * 10000 + 930 else if md = 930 then y * 10000 + 630
      else if md = 630 then y * 10000 + 331 else if md = 331 then (y - 1) * 10000 + 1231 else 0)"

fun window_sum :: "arith \<Rightarrow> by_report_date \<Rightarrow> (financial_balance_ev \<Rightarrow> fval) \<Rightarrow> nat \<Rightarrow> int \<Rightarrow> fval \<Rightarrow> fval option" where
  "window_sum ar by_rd field 0 rd acc = Some acc"
| "window_sum ar by_rd field (Suc k) rd acc =
     (if rd = 0 then None
      else case map_of by_rd rd of None \<Rightarrow> None
        | Some e \<Rightarrow> if \<not> is_finite (field e) then None
            else window_sum ar by_rd field k (prev_quarter_end rd) (fadd (double ar) acc (field e)))"

text \<open>A finite \<open>double\<close> narrowed to \<open>float\<close>.\<close>

definition narrow :: "arith \<Rightarrow> fval \<Rightarrow> fval" where
  "narrow ar x = (case x of Fin r \<Rightarrow> single ar r | _ \<Rightarrow> x)"

definition ttm_window_avg :: "arith \<Rightarrow> int \<Rightarrow> by_report_date \<Rightarrow> (financial_balance_ev \<Rightarrow> fval) \<Rightarrow> fval" where
  "ttm_window_avg ar anchor by_rd field =
     (case window_sum ar by_rd field 5 anchor (Fin 0) of None \<Rightarrow> NaN
      | Some acc \<Rightarrow> narrow ar (fdiv (double ar) acc (Fin 5)))"

section \<open>Forecasts and intervals\<close>

definition find_forecast_off_d :: "axes \<Rightarrow> forecast_ev \<Rightarrow> financial_income_annual_ev list \<Rightarrow> int" where
  "find_forecast_off_d ax fe financials =
     (let financial_d = (case find (\<lambda>r. ae_report_date r = fe_end_date fe) financials of None \<Rightarrow> -1 | Some r \<Rightarrow> ae_v r);
          y = year_of (fe_end_date fe);
          deadline_d = (if y > 0 then int (lower_bound (ax_dates ax) (pad_int 4 (y + 1) @ ''0430'')) else -1);
          off = int (n_d ax);
          off = (if financial_d \<ge> 0 then min off financial_d else off)
      in if deadline_d \<ge> 0 then min off deadline_d else off)"

text \<open>\<open>fill_range\<close> is the loop that writes 1.0 into \<open>[lo, hi)\<close>.\<close>

definition fill_range :: "'v \<Rightarrow> int \<Rightarrow> int \<Rightarrow> 'v list \<Rightarrow> 'v list" where
  "fill_range x lo hi dst = foldl (\<lambda>dst d. dst[d := x]) dst [nat lo..<nat hi]"

definition state_machine_intervals ::
  "('e \<Rightarrow> int) \<Rightarrow> 'e list \<Rightarrow> nat \<Rightarrow> ('e \<Rightarrow> int) \<Rightarrow> fval list" where
  "state_machine_intervals v triggers n find_off =
     foldl (\<lambda>dst e. let on_d = max 0 (v e); off_d = min (int n) (find_off e)
                    in if off_d \<le> on_d then dst else fill_range (Fin 1) on_d off_d dst)
       (replicate n (Fin 0)) triggers"

section \<open>What happened up to a day\<close>

definition till :: "nat \<Rightarrow> 'v list \<Rightarrow> 'v list" where
  "till D xs = take (Suc D) xs"

lemma till_nth: "till D xs = till D ys \<Longrightarrow> d \<le> D \<Longrightarrow> xs ! d = ys ! d"
  using nth_take [of d "Suc D" xs] nth_take [of d "Suc D" ys] by (simp add: till_def)

lemma set_take_upt: "d \<in> set (take (Suc D) [0..<n]) \<Longrightarrow> d \<le> D \<and> d < n"
  by (auto simp: in_set_conv_nth)

lemma till_map_upt:
  assumes "\<And>d. d \<le> D \<Longrightarrow> d < n \<Longrightarrow> f d = g d"
  shows "till D (map f [0..<n]) = till D (map g [0..<n])"
proof -
  have "map f (take (Suc D) [0..<n]) = map g (take (Suc D) [0..<n])"
    by (rule map_cong [OF refl]) (auto dest: set_take_upt intro: assms)
  then show ?thesis by (simp only: till_def take_map)
qed

lemma till_map2_eq: "till D (map2 h [0..<n] zs) = map2 h (take (Suc D) [0..<n]) (till D zs)"
  by (simp add: till_def take_map take_zip)

lemma till_map2:
  assumes "till D xs = till D ys" "\<And>d x. d \<le> D \<Longrightarrow> d < n \<Longrightarrow> f d x = g d x"
  shows "till D (map2 f [0..<n] xs) = till D (map2 g [0..<n] ys)"
  unfolding till_map2_eq assms(1)
proof (rule map_cong [OF refl], clarify)
  fix d x assume "(d, x) \<in> set (zip (take (Suc D) [0..<n]) (till D ys))"
  then have "d \<in> set (take (Suc D) [0..<n])" by (rule set_zip_leftD)
  then show "f d x = g d x" using assms(2) [of d x] set_take_upt by blast
qed

lemma till_append_same:
  assumes "till D xs = till D ys" "length us = k"
  shows "till D (us @ drop k xs) = till D (us @ drop k ys)"
proof (cases "k \<le> Suc D")
  case True
  have "take (Suc D - k) (drop k zs) = drop k (take (Suc D) zs)" for zs :: "'a list" by (simp add: drop_take)
  with assms show ?thesis by (simp add: till_def)
qed (use assms(2) in \<open>simp add: till_def\<close>)

lemma till_fill_before_list:
  assumes "till D xs = till D ys"
  shows "till D (fill_before_list ax meta a xs) = till D (fill_before_list ax meta a ys)"
  unfolding fill_before_list_def Let_def by (rule till_append_same [OF assms]) (rule length_replicate)

lemma length_fill_before_list: "length xs = n_d ax \<Longrightarrow> length (fill_before_list ax meta a xs) = n_d ax"
  unfolding fill_before_list_def Let_def by (simp only: length_append length_replicate length_drop)

lemma length_grid_copy: "length (grid_copy ax meta a g b) = n_d ax"
  by (simp add: grid_copy_def Let_def length_fill_before_list)

lemma length_grid_copy_bool: "length (grid_copy_bool ax a g) = n_d ax"
  by (simp add: grid_copy_bool_def)

lemma till_grid_copy:
  "agree ax D g h \<Longrightarrow> a < n_a ax \<Longrightarrow> till D (grid_copy ax meta a g b) = till D (grid_copy ax meta a h b)"
  by (auto simp: grid_copy_def Let_def agree_def intro!: till_map_upt till_fill_before_list)

lemma till_grid_copy_bool:
  "agree ax D g h \<Longrightarrow> a < n_a ax \<Longrightarrow> till D (grid_copy_bool ax a g) = till D (grid_copy_bool ax a h)"
  unfolding grid_copy_bool_def by (rule till_map_upt) (simp add: agree_def)

section \<open>Replaying only what happened up to a day\<close>

lemma take_events_eq:
  "take_events v st d s es = (foldl st s (takeWhile (\<lambda>e. v e \<le> int d) es), dropWhile (\<lambda>e. v e \<le> int d) es)"
  by (induction es arbitrary: s) simp_all

text \<open>Two streams tell the same up to day \<open>D\<close>.\<close>

definition same_upto :: "('e \<Rightarrow> int) \<Rightarrow> nat \<Rightarrow> 'e list \<Rightarrow> 'e list \<Rightarrow> bool" where
  "same_upto v D es es' \<longleftrightarrow> sorted (map v es) \<and> sorted (map v es') \<and>
     filter (\<lambda>e. v e \<le> int D) es = filter (\<lambda>e. v e \<le> int D) es'"

lemma same_upto_sym: "same_upto v D es es' \<Longrightarrow> same_upto v D es' es"
  by (auto simp: same_upto_def)

lemma filter_upto_Nil: "sorted (map v (e # es)) \<Longrightarrow> \<not> v e \<le> int D \<Longrightarrow> filter (\<lambda>e. v e \<le> int D) es = []"
  by (auto simp: filter_empty_conv)

lemma takeWhile_filter_upto:
  "sorted (map v es) \<Longrightarrow> d \<le> D \<Longrightarrow>
     takeWhile (\<lambda>e. v e \<le> int d) (filter (\<lambda>e. v e \<le> int D) es) = takeWhile (\<lambda>e. v e \<le> int d) es \<and>
     dropWhile (\<lambda>e. v e \<le> int d) (filter (\<lambda>e. v e \<le> int D) es) = filter (\<lambda>e. v e \<le> int D) (dropWhile (\<lambda>e. v e \<le> int d) es)"
proof (induction es)
  case (Cons e es)
  show ?case
  proof (cases "v e \<le> int D")
    case True
    with Cons show ?thesis by auto
  next
    case False
    with filter_upto_Nil [OF Cons.prems(1) False] Cons.prems(2) show ?thesis by simp
  qed
qed simp

lemma sorted_dropWhile_map: "sorted (map v xs) \<Longrightarrow> sorted (map v (dropWhile P xs))"
  by (induction xs) auto

lemma same_upto_takeWhile:
  assumes "same_upto v D es es'" "d \<le> D"
  shows "takeWhile (\<lambda>e. v e \<le> int d) es = takeWhile (\<lambda>e. v e \<le> int d) es'"
    "same_upto v D (dropWhile (\<lambda>e. v e \<le> int d) es) (dropWhile (\<lambda>e. v e \<le> int d) es')"
  using takeWhile_filter_upto [of v es d D] takeWhile_filter_upto [of v es' d D] assms
  by (simp_all add: same_upto_def sorted_dropWhile_map)

lemma replay2_upto:
  assumes "same_upto v D es es'" "same_upto w D fs fs'" "\<forall>d\<in>set ds. d \<le> D"
  shows "replay2 v st w sw s es fs ds = replay2 v st w sw s es' fs' ds"
  using assms
proof (induction ds arbitrary: s es es' fs fs')
  case (Cons d ds)
  then have d: "d \<le> D" by simp
  note e = same_upto_takeWhile [OF Cons.prems(1) d] and f = same_upto_takeWhile [OF Cons.prems(2) d]
  show ?case using Cons.IH [OF e(2) f(2)] Cons.prems(3) by (simp add: take_events_eq e(1) f(1))
qed simp

lemma replay_upto:
  assumes "same_upto v D es es'" "\<forall>d\<in>set ds. d \<le> D"
  shows "replay v st s es ds = replay v st s es' ds"
  using assms
proof (induction ds arbitrary: s es es')
  case (Cons d ds)
  then have d: "d \<le> D" by simp
  note e = same_upto_takeWhile [OF Cons.prems(1) d]
  show ?case using Cons.IH [OF e(2)] Cons.prems(2) by (simp add: take_events_eq e(1))
qed simp

lemma take_replay2: "take k (replay2 v st w sw s es fs ds) = replay2 v st w sw s es fs (take k ds)"
  by (induction ds arbitrary: s es fs k) (auto split: prod.splits simp: take_Cons')

lemma take_replay: "take k (replay v st s es ds) = replay v st s es (take k ds)"
  by (induction ds arbitrary: s es k) (auto split: prod.splits simp: take_Cons')

lemma length_replay2: "length (replay2 v st w sw s es fs ds) = length ds"
  by (induction ds arbitrary: s es fs) (auto split: prod.splits)

lemma length_replay: "length (replay v st s es ds) = length ds"
  by (induction ds arbitrary: s es) (auto split: prod.splits)

lemma till_replay2:
  assumes "same_upto v D es es'" "same_upto w D fs fs'"
  shows "till D (replay2 v st w sw s es fs [0..<n]) = till D (replay2 v st w sw s es' fs' [0..<n])"
  unfolding till_def take_replay2 using assms by (intro replay2_upto) (auto dest: set_take_upt)

lemma till_replay:
  assumes "same_upto v D es es'"
  shows "till D (replay v st s es [0..<n]) = till D (replay v st s es' [0..<n])"
  unfolding till_def take_replay using assms by (intro replay_upto) (auto dest: set_take_upt)

end
