(* ===== verification/Features.thy ===== *)
theory Features
  imports Replay
begin

text \<open>
  The time-series nodes (\<open>cpp/include/feature/def/basic\<close>, \<open>factor\<close>, \<open>filter\<close>): each computes the row
  of one instrument from the pool, the static data and the rows of the nodes it depends on
  (\<open>R\<close> gives these rows). Then the dispatcher of \<open>cpp/src/feature/ts.cpp\<close>, which runs the nodes in
  their topological order for every instrument, and the loading of the pool
  (\<open>cpp/src/feature/load.cpp\<close>, the path that builds from the month files).

  The properties say that no value of any node looks ahead.
\<close>

type_synonym rows = "node \<Rightarrow> fval list"

section \<open>Basic data\<close>

definition ts_close_raw :: "axes \<Rightarrow> pit_pool \<Rightarrow> stock_meta \<Rightarrow> nat \<Rightarrow> fval list" where
  "ts_close_raw ax pool meta a = grid_copy ax meta a (gb_close (pp_bar1d pool)) True"

definition nonzero :: "fval \<Rightarrow> bool" where
  "nonzero x \<longleftrightarrow> \<not> feq x (Fin 0)"

definition positive :: "fval \<Rightarrow> bool" where
  "positive x \<longleftrightarrow> is_finite x \<and> fless (Fin 0) x"

definition ts_daily_return :: "arith \<Rightarrow> axes \<Rightarrow> pit_pool \<Rightarrow> nat \<Rightarrow> fval list" where
  "ts_daily_return ar ax pool a =
     (let base = a * n_d ax; cl = gb_close (pp_bar1d pool); af = gb_adjust_factor (pp_bar1d pool) in
      map (\<lambda>d. if d = 0 then NaN
        else let c0 = cl ! (base + (d - 1)); c1 = cl ! (base + d); a0 = af ! (base + (d - 1)); a1 = af ! (base + d) in
          if is_finite c0 \<and> is_finite c1 \<and> is_finite a0 \<and> is_finite a1 \<and> nonzero c0 \<and> nonzero a0
          then let h0 = fmul (single ar) c0 a0; h1 = fmul (single ar) c1 a1 in
            if nonzero h0 then fsub (single ar) (fdiv (single ar) h1 h0) (Fin 1) else NaN
          else NaN) [0..<n_d ax])"

text \<open>A day text that is no date, and the compute function a cross-section node does not have.\<close>

datatype feature_error = FeatureDate date_error | NullCompute

text \<open>\<open>list_age\<close> and \<open>delist_age\<close>: the days since an anchor date, from that day on.\<close>

definition age_row :: "arith \<Rightarrow> axes \<Rightarrow> string \<Rightarrow> (feature_error, fval list) outcome" where
  "age_row ar ax anchor =
     (if length anchor \<noteq> 8 then Ok (replicate (n_d ax) NaN)
      else case parse_yyyymmdd anchor of
        Fail e \<Rightarrow> Fail (FeatureDate e)
      | Ok ad \<Rightarrow> Ok (map (\<lambda>d. let age = single ar (of_int (ax_date_days ax ! d - ad))
                             in if fle (Fin 0) age then age else NaN) [0..<n_d ax]))"

definition ts_list_age :: "arith \<Rightarrow> axes \<Rightarrow> stock_meta \<Rightarrow> nat \<Rightarrow> (feature_error, fval list) outcome" where
  "ts_list_age ar ax meta a = age_row ar ax (sm_list_date meta ! a)"

definition ts_delist_age :: "arith \<Rightarrow> axes \<Rightarrow> stock_meta \<Rightarrow> nat \<Rightarrow> (feature_error, fval list) outcome" where
  "ts_delist_age ar ax meta a = age_row ar ax (sm_delist_date meta ! a)"

definition ts_industry_l1 :: "arith \<Rightarrow> axes \<Rightarrow> pit_pool \<Rightarrow> nat \<Rightarrow> fval list" where
  "ts_industry_l1 ar ax pool a =
     map (\<lambda>i. single ar (real i))
       (replay2 ie_v (\<lambda>_ e. ie_l1_id e) ie_v (\<lambda>_ e. ie_l1_id e) 0
          (store_at (pp_industry_component pool) a) (store_at (pp_industry_change pool) a) [0..<n_d ax])"

definition ts_is_margin :: "axes \<Rightarrow> pit_pool \<Rightarrow> nat \<Rightarrow> fval list" where
  "ts_is_margin ax pool a = grid_copy_bool ax a (gm_is_margin (pp_margin_detail pool))"

definition ts_susp :: "axes \<Rightarrow> pit_pool \<Rightarrow> nat \<Rightarrow> fval list" where
  "ts_susp ax pool a = grid_copy_bool ax a (gt_suspended (pp_status pool))"

definition ts_up_lim :: "axes \<Rightarrow> pit_pool \<Rightarrow> stock_meta \<Rightarrow> nat \<Rightarrow> fval list" where
  "ts_up_lim ax pool meta a = fill_before_list ax meta a
     (map (\<lambda>d. if d = 0 then NaN else gl_upper_limit (pp_limit_price pool) ! (a * n_d ax + (d - 1))) [0..<n_d ax])"

definition ts_dn_lim :: "axes \<Rightarrow> pit_pool \<Rightarrow> stock_meta \<Rightarrow> nat \<Rightarrow> fval list" where
  "ts_dn_lim ax pool meta a = fill_before_list ax meta a
     (map (\<lambda>d. if d = 0 then NaN else gl_lower_limit (pp_limit_price pool) ! (a * n_d ax + (d - 1))) [0..<n_d ax])"

definition ts_limit_up :: "arith \<Rightarrow> axes \<Rightarrow> rows \<Rightarrow> fval list" where
  "ts_limit_up ar ax R =
     map (\<lambda>d. let cl = R Close_raw ! d; lm = R Up_lim ! d in
       of_flag (positive cl \<and> positive lm \<and> fle (fsub (single ar) lm (single ar (1/10000))) cl)) [0..<n_d ax]"

definition ts_limit_dn :: "arith \<Rightarrow> axes \<Rightarrow> rows \<Rightarrow> fval list" where
  "ts_limit_dn ar ax R =
     map (\<lambda>d. let cl = R Close_raw ! d; lm = R Dn_lim ! d in
       of_flag (positive cl \<and> positive lm \<and> fle cl (fadd (single ar) lm (single ar (1/10000))))) [0..<n_d ax]"

section \<open>Intermediate values and valuations\<close>

definition ts_share_raw :: "axes \<Rightarrow> pit_pool \<Rightarrow> stock_meta \<Rightarrow> nat \<Rightarrow> fval list" where
  "ts_share_raw ax pool meta a = grid_copy ax meta a (gs_total_shares (pp_shares pool)) True"

definition ts_mr_bal_raw :: "axes \<Rightarrow> pit_pool \<Rightarrow> stock_meta \<Rightarrow> nat \<Rightarrow> fval list" where
  "ts_mr_bal_raw ax pool meta a = grid_copy ax meta a (gm_financing_balance (pp_margin_detail pool)) False"

definition ts_ms_bal_raw :: "axes \<Rightarrow> pit_pool \<Rightarrow> stock_meta \<Rightarrow> nat \<Rightarrow> fval list" where
  "ts_ms_bal_raw ax pool meta a = grid_copy ax meta a (gm_securities_lending_balance (pp_margin_detail pool)) False"

text \<open>Price times shares.\<close>

definition ts_mcap_raw :: "arith \<Rightarrow> axes \<Rightarrow> pit_pool \<Rightarrow> stock_meta \<Rightarrow> nat \<Rightarrow> rows \<Rightarrow> fval list" where
  "ts_mcap_raw ar ax pool meta a R = fill_before_list ax meta a
     (map (\<lambda>d. let c = R Close_raw ! d; s = gs_total_shares (pp_shares pool) ! (a * n_d ax + d)
               in if is_finite c \<and> is_finite s then fmul (single ar) c s else NaN) [0..<n_d ax])"

definition ts_fmcap_raw :: "arith \<Rightarrow> axes \<Rightarrow> pit_pool \<Rightarrow> stock_meta \<Rightarrow> nat \<Rightarrow> rows \<Rightarrow> fval list" where
  "ts_fmcap_raw ar ax pool meta a R = fill_before_list ax meta a
     (map (\<lambda>d. let c = R Close_raw ! d; s = gs_a_float_shares (pp_shares pool) ! (a * n_d ax + d)
               in if is_finite c \<and> is_finite s then fmul (single ar) c s else NaN) [0..<n_d ax])"

definition ts_low_p :: "axes \<Rightarrow> rows \<Rightarrow> fval list" where
  "ts_low_p ax R = map (\<lambda>d. of_flag (positive (R Close_raw ! d) \<and> fless (R Close_raw ! d) (Fin 1))) [0..<n_d ax]"

definition MAIN_BOARD :: string where
  "MAIN_BOARD = [CHR 0xE4, CHR 0xB8, CHR 0xBB, CHR 0xE6, CHR 0x9D, CHR 0xBF]"

definition ts_low_mc :: "axes \<Rightarrow> stock_meta \<Rightarrow> nat \<Rightarrow> rows \<Rightarrow> fval list" where
  "ts_low_mc ax meta a R =
     (let thr = Fin (if sm_list_sector meta ! a = MAIN_BOARD then 500000000 else 300000000) in
      map (\<lambda>d. of_flag (positive (R Mcap_raw ! d) \<and> fless (R Mcap_raw ! d) thr)) [0..<n_d ax])"

definition ts_pe_raw :: "arith \<Rightarrow> axes \<Rightarrow> pit_pool \<Rightarrow> stock_meta \<Rightarrow> nat \<Rightarrow> rows \<Rightarrow> fval list" where
  "ts_pe_raw ar ax pool meta a R = scan_latest_ttm ax pool meta a (\<lambda>d e.
     let m = R Mcap_raw ! d; n = te_net_profit_to_parent_shareholders_ttm e in
     if positive m \<and> is_finite n \<and> nonzero n then fdiv (single ar) m n else NaN)"

definition ts_pcf_raw :: "arith \<Rightarrow> axes \<Rightarrow> pit_pool \<Rightarrow> stock_meta \<Rightarrow> nat \<Rightarrow> rows \<Rightarrow> fval list" where
  "ts_pcf_raw ar ax pool meta a R = scan_latest_ttm ax pool meta a (\<lambda>d e.
     let m = R Mcap_raw ! d; c = te_net_cffoa_ttm e in
     if positive m \<and> is_finite c \<and> nonzero c then fdiv (single ar) m c else NaN)"

definition ts_ps_raw :: "arith \<Rightarrow> axes \<Rightarrow> pit_pool \<Rightarrow> stock_meta \<Rightarrow> nat \<Rightarrow> rows \<Rightarrow> fval list" where
  "ts_ps_raw ar ax pool meta a R = scan_latest_ttm ax pool meta a (\<lambda>d e.
     let m = R Mcap_raw ! d; r = te_total_operating_revenue_ttm e in
     if positive m \<and> positive r then fdiv (single ar) m r else NaN)"

definition ts_rev_raw :: "axes \<Rightarrow> pit_pool \<Rightarrow> stock_meta \<Rightarrow> nat \<Rightarrow> fval list" where
  "ts_rev_raw ax pool meta a = scan_latest_ttm ax pool meta a (\<lambda>d e.
     let r = te_total_operating_revenue_ttm e in if positive r then r else NaN)"

definition ts_cffoa_raw :: "arith \<Rightarrow> axes \<Rightarrow> pit_pool \<Rightarrow> stock_meta \<Rightarrow> nat \<Rightarrow> rows \<Rightarrow> fval list" where
  "ts_cffoa_raw ar ax pool meta a R = scan_latest_ttm ax pool meta a (\<lambda>d e.
     let m = R Mcap_raw ! d; c0 = te_net_cffoa_ttm e; c4 = te_net_cffoa_ttm_shift4 e in
     if positive m \<and> is_finite c0 \<and> is_finite c4
     then (case fdiv (single ar) (fsub (single ar) c0 c4) m of
             PInf \<Rightarrow> Fin 1 | NInf \<Rightarrow> Fin (-1) | x \<Rightarrow> fapply (single ar) tanh x)
     else NaN)"

definition ts_pb_raw :: "arith \<Rightarrow> axes \<Rightarrow> pit_pool \<Rightarrow> stock_meta \<Rightarrow> nat \<Rightarrow> rows \<Rightarrow> fval list" where
  "ts_pb_raw ar ax pool meta a R = scan_latest_balance ax pool meta a (\<lambda>d e.
     let m = R Mcap_raw ! d; eq = be_total_equity_to_parent_shareholders e in
     if positive m \<and> is_finite eq \<and> nonzero eq then fdiv (single ar) m eq else NaN)"

definition ts_roe_raw :: "arith \<Rightarrow> axes \<Rightarrow> pit_pool \<Rightarrow> stock_meta \<Rightarrow> nat \<Rightarrow> fval list" where
  "ts_roe_raw ar ax pool meta a = scan_latest_ttm_and_balance ax pool meta a (\<lambda>d t by_rd.
     let n = te_net_profit_to_parent_shareholders_ttm t;
         eq = ttm_window_avg ar (te_report_date t) by_rd be_total_equity_to_parent_shareholders in
     if is_finite n \<and> positive eq then fmul (single ar) (fdiv (single ar) n eq) (Fin 100) else NaN)"

definition ts_roa_raw :: "arith \<Rightarrow> axes \<Rightarrow> pit_pool \<Rightarrow> stock_meta \<Rightarrow> nat \<Rightarrow> fval list" where
  "ts_roa_raw ar ax pool meta a = scan_latest_ttm_and_balance ax pool meta a (\<lambda>d t by_rd.
     let n = te_net_profit_ttm t; as = ttm_window_avg ar (te_report_date t) by_rd be_total_assets in
     if is_finite n \<and> positive as then fmul (single ar) (fdiv (single ar) n as) (Fin 100) else NaN)"

text \<open>Annual profits: the latest version of each report, with the row it was seen at.\<close>

type_synonym annuals = "(int \<times> fval \<times> int) list"

fun put_annual :: "int \<Rightarrow> fval \<times> int \<Rightarrow> annuals \<Rightarrow> annuals" where
  "put_annual k c [] = [(k, c)]"
| "put_annual k c ((l, c') # m) = (if l = k then (l, c) # m else (l, c') # put_annual k c m)"

definition ni_step :: "annuals \<Rightarrow> financial_income_annual_ev \<Rightarrow> annuals" where
  "ni_step m e =
     (if \<not> is_finite (ae_net_profit_to_parent_shareholders e) then m
      else put_annual (ae_report_date e) (ae_net_profit_to_parent_shareholders e, ae_v e) m)"

text \<open>The two annuals seen last: \<open>(v, value)\<close> of the first and of the second; \<open>-1\<close> is none.\<close>

definition two_step :: "(int \<times> fval option) \<times> (int \<times> fval option) \<Rightarrow> int \<times> fval \<times> int \<Rightarrow>
    (int \<times> fval option) \<times> (int \<times> fval option)" where
  "two_step t c = (case t of ((v0, x0), (v1, x1)) \<Rightarrow> case c of (k, x, v) \<Rightarrow>
     if v > v0 then ((v, Some x), (v0, x0)) else if v > v1 then ((v0, x0), (v, Some x)) else t)"

definition ni_of :: "arith \<Rightarrow> annuals \<Rightarrow> fval" where
  "ni_of ar m =
     (case foldl two_step ((-1, None), (-1, None)) m of
        ((_, Some x0), (_, Some x1)) \<Rightarrow> fmul (single ar) (fadd (single ar) x0 x1) (Fin (1/2))
      | ((_, Some x0), _) \<Rightarrow> x0
      | _ \<Rightarrow> NaN)"

definition ts_ni_raw :: "arith \<Rightarrow> axes \<Rightarrow> pit_pool \<Rightarrow> nat \<Rightarrow> fval list" where
  "ts_ni_raw ar ax pool a =
     map (ni_of ar) (replay ae_v ni_step [] (store_at (pp_financial_income_annual pool) a) [0..<n_d ax])"

section \<open>Dividends of the last year\<close>

text \<open>What an event paid in all, and the window of events with their running sum.\<close>

definition dy_amount :: "arith \<Rightarrow> axes \<Rightarrow> pit_pool \<Rightarrow> nat \<Rightarrow> dividend_ev \<Rightarrow> fval" where
  "dy_amount ar ax pool a e =
     (let c = de_cash_before_tax e in
      if \<not> is_finite c \<or> fle c (Fin 0) then Fin 0
      else let sh = gs_total_shares (pp_shares pool) ! (a * n_d ax + nat (de_v e))
           in if is_finite sh then fmul (single ar) c sh else Fin 0)"

type_synonym dy_window = "(dividend_ev \<times> fval) list"

definition dy_push :: "arith \<Rightarrow> fval \<times> dy_window \<Rightarrow> dividend_ev \<times> fval \<Rightarrow> fval \<times> dy_window" where
  "dy_push ar s x = (fadd (single ar) (fst s) (snd x), snd s @ [x])"

fun dy_pop :: "arith \<Rightarrow> axes \<Rightarrow> int \<Rightarrow> fval \<Rightarrow> dy_window \<Rightarrow> fval \<times> dy_window" where
  "dy_pop ar ax tlo acc [] = (acc, [])"
| "dy_pop ar ax tlo acc (x # w) =
     (if ax_date_days ax ! nat (de_v (fst x)) \<le> tlo then dy_pop ar ax tlo (fsub (single ar) acc (snd x)) w
      else (acc, x # w))"

fun dy_loop :: "arith \<Rightarrow> axes \<Rightarrow> fval \<Rightarrow> dy_window \<Rightarrow> dy_window \<Rightarrow> nat list \<Rightarrow> fval list" where
  "dy_loop ar ax acc w es [] = []"
| "dy_loop ar ax acc w es (d # ds) =
     (case take_events (\<lambda>x. de_v (fst x)) (dy_push ar) d (acc, w) es of ((acc1, w1), es1) \<Rightarrow>
      case dy_pop ar ax (ax_date_days ax ! d - 365) acc1 w1 of (acc2, w2) \<Rightarrow>
      let acc3 = (if w2 = [] then Fin 0 else acc2) in acc3 # dy_loop ar ax acc3 w2 es1 ds)"

definition ts_dy_raw :: "arith \<Rightarrow> axes \<Rightarrow> pit_pool \<Rightarrow> nat \<Rightarrow> rows \<Rightarrow> fval list" where
  "ts_dy_raw ar ax pool a R =
     map2 (\<lambda>d s. let m = R Mcap_raw ! d in
         if \<not> positive m then NaN else let dy = fdiv (single ar) s m in if fless (Fin 0) dy then dy else Fin 0)
       [0..<n_d ax]
       (dy_loop ar ax (Fin 0) [] (map (\<lambda>e. (e, dy_amount ar ax pool a e)) (store_at (pp_dividend pool) a)) [0..<n_d ax])"

section \<open>Filters\<close>

definition ts_new_list :: "axes \<Rightarrow> rows \<Rightarrow> fval list" where
  "ts_new_list ax R = map (\<lambda>d. of_flag (is_finite (R List_age ! d) \<and> fless (R List_age ! d) (Fin 60))) [0..<n_d ax]"

definition ts_risk_warn :: "arith \<Rightarrow> axes \<Rightarrow> pit_pool \<Rightarrow> nat \<Rightarrow> fval list" where
  "ts_risk_warn ar ax pool a = map (\<lambda>d. single ar (of_int (gt_st_status (pp_status pool) ! (a * n_d ax + d)))) [0..<n_d ax]"

text \<open>\<open>trading_st\<close>: the length of the run of low days, and whether it has reached 15.\<close>

fun low_runs :: "nat \<Rightarrow> bool list \<Rightarrow> bool list" where
  "low_runs run [] = []"
| "low_runs run (ok # oks) = (let run' = (if ok then run + 1 else 0) in (run' \<ge> 15) # low_runs run' oks)"

definition ts_trading_st :: "axes \<Rightarrow> rows \<Rightarrow> fval list" where
  "ts_trading_st ax R =
     map of_flag (low_runs 0 (map (\<lambda>d. flag (R Low_p ! d) \<or> flag (R Low_mc ! d)) [0..<n_d ax]))"

definition loss_forecast :: "forecast_ev \<Rightarrow> bool" where
  "loss_forecast e \<longleftrightarrow> month_of (fe_end_date e) = 12 \<and> (fe_type e = FirstLoss \<or> fe_type e = ContinueLoss)"

definition ts_profit_st :: "axes \<Rightarrow> pit_pool \<Rightarrow> nat \<Rightarrow> fval list" where
  "ts_profit_st ax pool a =
     state_machine_intervals fe_v
       (filter (\<lambda>e. loss_forecast e \<and> is_finite (fe_last_parent_net e) \<and> \<not> fle (Fin 0) (fe_last_parent_net e))
          (store_at (pp_forecast pool) a))
       (n_d ax) (\<lambda>fe. find_forecast_off_d ax fe (store_at (pp_financial_income_annual pool) a))"

text \<open>\<open>revenue_st\<close>: one trigger marks the days of its interval with a low revenue.\<close>

definition revenue_trigger :: "axes \<Rightarrow> forecast_ev \<Rightarrow> bool" where
  "revenue_trigger ax e \<longleftrightarrow> loss_forecast e \<and> year_of (fe_end_date e) \<ge> 2021 \<and> 1 \<le> fe_v e \<and> fe_v e < int (n_d ax) \<and>
     \<not> ax_dates ax ! nat (fe_v e - 1) < ''20210101''"

definition revenue_interval ::
  "axes \<Rightarrow> financial_income_annual_ev list \<Rightarrow> fval list \<Rightarrow> fval list \<Rightarrow> forecast_ev \<Rightarrow> fval list" where
  "revenue_interval ax fin rev_raw out e =
     (let off_d = min (int (n_d ax)) (find_forecast_off_d ax e fin);
          thr = Fin (if year_of (fe_end_date e) \<ge> 2024 then 300000000 else 100000000) in
      foldl (\<lambda>out d. if is_finite (rev_raw ! d) \<and> fless (rev_raw ! d) thr then out[d := Fin 1] else out)
        out [nat (max 0 (fe_v e))..<nat off_d])"

definition ts_revenue_st :: "axes \<Rightarrow> pit_pool \<Rightarrow> stock_meta \<Rightarrow> nat \<Rightarrow> rows \<Rightarrow> fval list" where
  "ts_revenue_st ax pool meta a R =
     (if sm_list_sector meta ! a \<noteq> MAIN_BOARD then replicate (n_d ax) (Fin 0)
      else foldl (revenue_interval ax (store_at (pp_financial_income_annual pool) a) (R Rev_raw))
             (replicate (n_d ax) (Fin 0)) (filter (revenue_trigger ax) (store_at (pp_forecast pool) a)))"

text \<open>\<open>dividend_st\<close>: the first day of the third year after year \<open>y\<close>, and the start of the rule.\<close>

definition third_year :: "axes \<Rightarrow> int \<Rightarrow> nat" where
  "third_year ax y = length (takeWhile (\<lambda>s. \<not> y + 3 \<le> year_of_text s) (ax_dates ax))"

definition dividend_warmup :: "axes \<Rightarrow> stock_meta \<Rightarrow> nat \<Rightarrow> nat" where
  "dividend_warmup ax meta a =
     max (third_year ax (if n_d ax > 0 then year_of_text (ax_dates ax ! 0) else 0))
       (let ld = sm_list_date meta ! a in if length ld = 8 then third_year ax (year_of_text ld) else n_d ax)"

definition apply_segment :: "arith \<Rightarrow> nat \<Rightarrow> nat \<Rightarrow> fval list \<Rightarrow> int \<Rightarrow> int \<Rightarrow> fval \<Rightarrow> fval list \<Rightarrow> fval list" where
  "apply_segment ar n warmup ni lo hi x out =
     foldl (\<lambda>out d. if \<not> is_finite (ni ! d) \<or> fle (ni ! d) (Fin 0) then out
        else if fless x (fmul (single ar) (single ar (3/10)) (ni ! d)) \<and> fless x (Fin 50000000) then out[d := Fin 1]
        else out) out [nat (max 0 (max lo (int warmup)))..<nat (min hi (int n))]"

definition dividend_sum :: "arith \<Rightarrow> nat \<Rightarrow> fval list \<Rightarrow> int \<Rightarrow> int \<Rightarrow> dividend_ev list \<Rightarrow> fval" where
  "dividend_sum ar n share lo hi seen =
     foldl (\<lambda>s p. let py = year_of (de_report_date p) in
        if py < lo \<or> py > hi then s else if \<not> is_finite (de_cash_after_tax p) then s
        else let sh = (if 0 \<le> de_v p \<and> de_v p < int n then share ! nat (de_v p) else NaN) in
          if \<not> is_finite sh then s else fadd (single ar) s (fmul (single ar) (de_cash_after_tax p) sh)) (Fin 0) seen"

text \<open>The sum from an event on; \<open>seen\<close> are the events up to it.\<close>

definition dividend_cur :: "arith \<Rightarrow> axes \<Rightarrow> fval list \<Rightarrow> dividend_ev list \<Rightarrow> fval \<Rightarrow> dividend_ev \<Rightarrow> fval" where
  "dividend_cur ar ax share seen cur e =
     (let ann_y = (if 1 \<le> de_v e \<and> de_v e < int (n_d ax) then year_of_text (ax_dates ax ! nat (de_v e - 1)) else 0) in
      if ann_y = 0 then cur else dividend_sum ar (n_d ax) share (ann_y - 3) (ann_y - 1) seen)"

fun dividend_loop :: "arith \<Rightarrow> axes \<Rightarrow> nat \<Rightarrow> fval list \<Rightarrow> fval list \<Rightarrow> int \<Rightarrow> fval \<Rightarrow> dividend_ev list \<Rightarrow> dividend_ev list \<Rightarrow>
    fval list \<Rightarrow> fval list" where
  "dividend_loop ar ax warmup share ni next_d cur seen [] out = apply_segment ar (n_d ax) warmup ni next_d (int (n_d ax)) cur out"
| "dividend_loop ar ax warmup share ni next_d cur seen (e # es) out =
     dividend_loop ar ax warmup share ni (de_v e) (dividend_cur ar ax share (seen @ [e]) cur e) (seen @ [e]) es
       (apply_segment ar (n_d ax) warmup ni next_d (de_v e) cur out)"

definition ts_dividend_st :: "arith \<Rightarrow> axes \<Rightarrow> pit_pool \<Rightarrow> stock_meta \<Rightarrow> nat \<Rightarrow> rows \<Rightarrow> fval list" where
  "ts_dividend_st ar ax pool meta a R =
     (if sm_list_sector meta ! a \<noteq> MAIN_BOARD then replicate (n_d ax) (Fin 0)
      else dividend_loop ar ax (dividend_warmup ax meta a) (R Share_raw) (R Ni_raw) 0 (Fin 0) []
             (store_at (pp_dividend pool) a) (replicate (n_d ax) (Fin 0)))"

section \<open>The dispatcher\<close>

fun compute_ts_node ::
  "arith \<Rightarrow> axes \<Rightarrow> pit_pool \<Rightarrow> stock_meta \<Rightarrow> nat \<Rightarrow> rows \<Rightarrow> node \<Rightarrow> (feature_error, fval list) outcome" where
  "compute_ts_node ar ax pool meta a R f =
     (case f of
        Close_raw \<Rightarrow> Ok (ts_close_raw ax pool meta a)
      | Daily_return \<Rightarrow> Ok (ts_daily_return ar ax pool a)
      | Delist_age \<Rightarrow> ts_delist_age ar ax meta a
      | Industry_l1 \<Rightarrow> Ok (ts_industry_l1 ar ax pool a)
      | Is_margin \<Rightarrow> Ok (ts_is_margin ax pool a)
      | Limit_dn \<Rightarrow> Ok (ts_limit_dn ar ax R)
      | Limit_up \<Rightarrow> Ok (ts_limit_up ar ax R)
      | List_age \<Rightarrow> ts_list_age ar ax meta a
      | Susp \<Rightarrow> Ok (ts_susp ax pool a)
      | Dividend_st \<Rightarrow> Ok (ts_dividend_st ar ax pool meta a R)
      | New_list \<Rightarrow> Ok (ts_new_list ax R)
      | Profit_st \<Rightarrow> Ok (ts_profit_st ax pool a)
      | Revenue_st \<Rightarrow> Ok (ts_revenue_st ax pool meta a R)
      | Risk_warn \<Rightarrow> Ok (ts_risk_warn ar ax pool a)
      | Trading_st \<Rightarrow> Ok (ts_trading_st ax R)
      | Cffoa_raw \<Rightarrow> Ok (ts_cffoa_raw ar ax pool meta a R)
      | Dn_lim \<Rightarrow> Ok (ts_dn_lim ax pool meta a)
      | Dy_raw \<Rightarrow> Ok (ts_dy_raw ar ax pool a R)
      | Fmcap_raw \<Rightarrow> Ok (ts_fmcap_raw ar ax pool meta a R)
      | Low_mc \<Rightarrow> Ok (ts_low_mc ax meta a R)
      | Low_p \<Rightarrow> Ok (ts_low_p ax R)
      | Mcap_raw \<Rightarrow> Ok (ts_mcap_raw ar ax pool meta a R)
      | Mr_bal_raw \<Rightarrow> Ok (ts_mr_bal_raw ax pool meta a)
      | Ms_bal_raw \<Rightarrow> Ok (ts_ms_bal_raw ax pool meta a)
      | Ni_raw \<Rightarrow> Ok (ts_ni_raw ar ax pool a)
      | Pb_raw \<Rightarrow> Ok (ts_pb_raw ar ax pool meta a R)
      | Pcf_raw \<Rightarrow> Ok (ts_pcf_raw ar ax pool meta a R)
      | Pe_raw \<Rightarrow> Ok (ts_pe_raw ar ax pool meta a R)
      | Ps_raw \<Rightarrow> Ok (ts_ps_raw ar ax pool meta a R)
      | Rev_raw \<Rightarrow> Ok (ts_rev_raw ax pool meta a)
      | Roa_raw \<Rightarrow> Ok (ts_roa_raw ar ax pool meta a)
      | Roe_raw \<Rightarrow> Ok (ts_roe_raw ar ax pool meta a)
      | Share_raw \<Rightarrow> Ok (ts_share_raw ax pool meta a)
      | Up_lim \<Rightarrow> Ok (ts_up_lim ax pool meta a)
      | _ \<Rightarrow> Fail NullCompute)"

declare compute_ts_node.simps [simp del]

definition run_ts_node ::
  "arith \<Rightarrow> axes \<Rightarrow> pit_pool \<Rightarrow> stock_meta \<Rightarrow> nat \<Rightarrow> tensor \<Rightarrow> node \<Rightarrow> (feature_error, tensor) outcome" where
  "run_ts_node ar ax pool meta a T f =
     bind_ok (compute_ts_node ar ax pool meta a (\<lambda>g. ts_row ax T g a) f) (\<lambda>r. Ok (set_ts_row ax T f a r))"

text \<open>The workers take the instruments one by one from a counter; \<open>schedule\<close> is the order in which
  they finish.\<close>

definition compute_ts ::
  "arith \<Rightarrow> axes \<Rightarrow> pit_pool \<Rightarrow> stock_meta \<Rightarrow> node list \<Rightarrow> nat list \<Rightarrow> tensor \<Rightarrow> (feature_error, tensor) outcome" where
  "compute_ts ar ax pool meta ts_order schedule T =
     fold_ok (\<lambda>T a. fold_ok (run_ts_node ar ax pool meta a) T ts_order) T schedule"

section \<open>Loading the pool\<close>

text \<open>\<open>tables\<close> gives the month files of a table by its name.\<close>

definition build_pool :: "(real \<Rightarrow> fval) \<Rightarrow> axes \<Rightarrow> (string \<Rightarrow> month_files) \<Rightarrow> pit_pool" where
  "build_pool rnd ax tables =
     \<lparr>pp_bar1d = build_bar1d rnd ax (tables ''cn_stock_real_bar1d''),
      pp_shares = build_shares rnd ax (tables ''cn_stock_shares''),
      pp_limit_price = build_limit_price rnd ax (tables ''cn_stock_limit_price''),
      pp_status = build_status ax (tables ''cn_stock_status''),
      pp_margin_detail = build_margin_detail rnd ax (tables ''cn_stock_margin_trading_detail''),
      pp_industry_component = build_industry_component ax (tables ''cn_stock_industry_component''),
      pp_industry_change = build_industry_change ax (tables ''cn_stock_industry_change''),
      pp_dividend = build_dividend rnd ax (tables ''cn_stock_dividend''),
      pp_financial_ttm = build_financial_ttm rnd ax (tables ''cn_stock_financial_ttm_shift''),
      pp_financial_balance = build_financial_balance rnd ax (tables ''cn_stock_financial_balance_general_pit''),
      pp_financial_income_annual = build_financial_income_annual rnd ax (tables ''cn_stock_financial_income_general_pit''),
      pp_forecast = build_forecast rnd ax (tables ''forecast'')\<rparr>"

definition post_ffill :: "axes \<Rightarrow> pit_pool \<Rightarrow> pit_pool" where
  "post_ffill ax p = p\<lparr>pp_bar1d := ffill_bar1d ax (pp_bar1d p), pp_shares := ffill_shares ax (pp_shares p),
     pp_limit_price := ffill_limit_price ax (pp_limit_price p)\<rparr>"

definition load_pit ::
  "(real \<Rightarrow> fval) \<Rightarrow> bool \<Rightarrow> axes \<Rightarrow> (string \<Rightarrow> month_files) \<Rightarrow> row list option \<Rightarrow> (overlay_error, pit_pool) outcome" where
  "load_pit rnd upd ax tables snapshot =
     (let p = build_pool rnd ax tables in
      bind_ok (apply_meta_overlays upd ax snapshot (pp_status p)) (\<lambda>st. Ok (post_ffill ax (p\<lparr>pp_status := st\<rparr>))))"

end
