(* ===== verification/Lookahead.thy ===== *)
theory Lookahead
  imports Features
begin

text \<open>
  No node looks ahead: the lemmas that carry the property from the pool through every time-series
  node to the tensor, and the property itself.
\<close>

section \<open>Rows and pools that say the same up to a day\<close>

definition sim :: "nat \<Rightarrow> nat \<Rightarrow> 'v list \<Rightarrow> 'v list \<Rightarrow> bool" where
  "sim D n xs ys \<longleftrightarrow> length xs = n \<and> length ys = n \<and> till D xs = till D ys"

lemma sim_nth: "sim D n xs ys \<Longrightarrow> d \<le> D \<Longrightarrow> xs ! d = ys ! d"
  unfolding sim_def by (blast intro: till_nth)

lemma simI: "length xs = n \<Longrightarrow> length ys = n \<Longrightarrow> (\<And>d. d \<le> D \<Longrightarrow> d < n \<Longrightarrow> xs ! d = ys ! d) \<Longrightarrow> sim D n xs ys"
  unfolding sim_def till_def by (simp, intro nth_equalityI) auto

lemma sim_refl: "length xs = n \<Longrightarrow> sim D n xs xs"
  by (simp add: sim_def)

lemma sim_map_upt:
  assumes "\<And>d. d \<le> D \<Longrightarrow> d < n \<Longrightarrow> f d = g d" shows "sim D n (map f [0..<n]) (map g [0..<n])"
  using assms by (intro simI) simp_all

lemma sim_map: "sim D n xs ys \<Longrightarrow> sim D n (map f xs) (map f ys)"
  by (simp add: sim_def till_def take_map)

lemma sim_map2:
  assumes "sim D n xs ys" "\<And>d x. d \<le> D \<Longrightarrow> d < n \<Longrightarrow> f d x = g d x"
  shows "sim D n (map2 f [0..<n] xs) (map2 g [0..<n] ys)"
  using assms sim_nth [OF assms(1)] by (intro simI) (simp_all add: sim_def)

lemma sim_fill_before_list: "sim D (n_d ax) xs ys \<Longrightarrow> sim D (n_d ax) (fill_before_list ax meta a xs) (fill_before_list ax meta a ys)"
  unfolding sim_def by (blast intro: length_fill_before_list till_fill_before_list)

lemma sim_replay2:
  "same_upto v D es es' \<Longrightarrow> same_upto w D fs fs' \<Longrightarrow>
     sim D n (replay2 v st w sw s es fs [0..<n]) (replay2 v st w sw s es' fs' [0..<n])"
  unfolding sim_def length_replay2 by (simp add: till_replay2)

lemma sim_replay: "same_upto v D es es' \<Longrightarrow> sim D n (replay v st s es [0..<n]) (replay v st s es' [0..<n])"
  unfolding sim_def length_replay by (simp add: till_replay)

definition grids_upto :: "axes \<Rightarrow> nat \<Rightarrow> pit_pool \<Rightarrow> pit_pool \<Rightarrow> bool" where
  "grids_upto ax D p q \<longleftrightarrow>
     agree ax D (gb_close (pp_bar1d p)) (gb_close (pp_bar1d q)) \<and>
     agree ax D (gb_adjust_factor (pp_bar1d p)) (gb_adjust_factor (pp_bar1d q)) \<and>
     agree ax D (gs_total_shares (pp_shares p)) (gs_total_shares (pp_shares q)) \<and>
     agree ax D (gs_a_float_shares (pp_shares p)) (gs_a_float_shares (pp_shares q)) \<and>
     agree ax D (gl_upper_limit (pp_limit_price p)) (gl_upper_limit (pp_limit_price q)) \<and>
     agree ax D (gl_lower_limit (pp_limit_price p)) (gl_lower_limit (pp_limit_price q)) \<and>
     agree ax D (gt_st_status (pp_status p)) (gt_st_status (pp_status q)) \<and>
     agree ax D (gt_suspended (pp_status p)) (gt_suspended (pp_status q)) \<and>
     agree ax D (gm_is_margin (pp_margin_detail p)) (gm_is_margin (pp_margin_detail q)) \<and>
     agree ax D (gm_financing_balance (pp_margin_detail p)) (gm_financing_balance (pp_margin_detail q)) \<and>
     agree ax D (gm_securities_lending_balance (pp_margin_detail p)) (gm_securities_lending_balance (pp_margin_detail q))"

definition events_upto :: "nat \<Rightarrow> nat \<Rightarrow> pit_pool \<Rightarrow> pit_pool \<Rightarrow> bool" where
  "events_upto D a p q \<longleftrightarrow>
     same_upto ie_v D (store_at (pp_industry_component p) a) (store_at (pp_industry_component q) a) \<and>
     same_upto ie_v D (store_at (pp_industry_change p) a) (store_at (pp_industry_change q) a) \<and>
     same_upto de_v D (store_at (pp_dividend p) a) (store_at (pp_dividend q) a) \<and>
     same_upto te_v D (store_at (pp_financial_ttm p) a) (store_at (pp_financial_ttm q) a) \<and>
     same_upto be_v D (store_at (pp_financial_balance p) a) (store_at (pp_financial_balance q) a) \<and>
     same_upto ae_v D (store_at (pp_financial_income_annual p) a) (store_at (pp_financial_income_annual q) a) \<and>
     same_upto fe_v D (store_at (pp_forecast p) a) (store_at (pp_forecast q) a)"

lemma agree_nth: "agree ax D g h \<Longrightarrow> a < n_a ax \<Longrightarrow> d \<le> D \<Longrightarrow> d < n_d ax \<Longrightarrow> g ! (a * n_d ax + d) = h ! (a * n_d ax + d)"
  by (simp add: agree_def)

lemma sim_grid_copy:
  "agree ax D g h \<Longrightarrow> a < n_a ax \<Longrightarrow> sim D (n_d ax) (grid_copy ax meta a g b) (grid_copy ax meta a h b)"
  by (simp only: sim_def length_grid_copy till_grid_copy simp_thms)

lemma sim_grid_copy_bool:
  "agree ax D g h \<Longrightarrow> a < n_a ax \<Longrightarrow> sim D (n_d ax) (grid_copy_bool ax a g) (grid_copy_bool ax a h)"
  by (simp only: sim_def length_grid_copy_bool till_grid_copy_bool simp_thms)

section \<open>Scans\<close>

lemma sim_scan_latest_ttm:
  assumes "same_upto te_v D (store_at (pp_financial_ttm p) a) (store_at (pp_financial_ttm q) a)"
    "\<And>d e. d \<le> D \<Longrightarrow> d < n_d ax \<Longrightarrow> c d e = c' d e"
  shows "sim D (n_d ax) (scan_latest_ttm ax p meta a c) (scan_latest_ttm ax q meta a c')"
  unfolding scan_latest_ttm_def by (rule sim_map2 [OF sim_replay [OF assms(1)]]) (simp add: assms(2) split: option.splits)

lemma sim_scan_latest_balance:
  assumes "same_upto be_v D (store_at (pp_financial_balance p) a) (store_at (pp_financial_balance q) a)"
    "\<And>d e. d \<le> D \<Longrightarrow> d < n_d ax \<Longrightarrow> c d e = c' d e"
  shows "sim D (n_d ax) (scan_latest_balance ax p meta a c) (scan_latest_balance ax q meta a c')"
  unfolding scan_latest_balance_def by (rule sim_map2 [OF sim_replay [OF assms(1)]]) (simp add: assms(2))

lemma sim_scan_latest_ttm_and_balance:
  assumes "same_upto te_v D (store_at (pp_financial_ttm p) a) (store_at (pp_financial_ttm q) a)"
    "same_upto be_v D (store_at (pp_financial_balance p) a) (store_at (pp_financial_balance q) a)"
  shows "sim D (n_d ax) (scan_latest_ttm_and_balance ax p meta a c) (scan_latest_ttm_and_balance ax q meta a c)"
  unfolding scan_latest_ttm_and_balance_def by (rule sim_map2 [OF sim_replay2 [OF assms]]) simp

section \<open>Marking days\<close>

lemma foldl_mark:
  "length (foldl (\<lambda>out d. if C d then out[d := x] else out) out ds) = length out \<and>
   (i < length out \<longrightarrow> foldl (\<lambda>out d. if C d then out[d := x] else out) out ds ! i = (if i \<in> set ds \<and> C i then x else out ! i))"
proof (induction ds arbitrary: out)
  case (Cons d ds)
  have "(if C d then out[d := x] else out) ! i = (if i = d \<and> C d then x else out ! i)" if "i < length out"
    using that by simp
  then show ?case using Cons.IH [of "if C d then out[d := x] else out"] by auto
qed simp

lemma foldl_marks:
  "length (foldl (\<lambda>out e. foldl (\<lambda>out d. if C e d then out[d := x] else out) out (ds e)) out es) = length out \<and>
   (i < length out \<longrightarrow> foldl (\<lambda>out e. foldl (\<lambda>out d. if C e d then out[d := x] else out) out (ds e)) out es ! i =
     (if \<exists>e\<in>set es. i \<in> set (ds e) \<and> C e i then x else out ! i))"
proof (induction es arbitrary: out)
  case (Cons e es)
  define o1 where "o1 = foldl (\<lambda>out d. if C e d then out[d := x] else out) out (ds e)"
  have "length o1 = length out" "i < length out \<Longrightarrow> o1 ! i = (if i \<in> set (ds e) \<and> C e i then x else out ! i)"
    using foldl_mark [of "C e" x out "ds e" i] by (simp_all add: o1_def)
  then show ?case using Cons.IH [of o1] unfolding foldl_Cons o1_def [symmetric] by auto
qed simp

lemma interval_set: "i < n \<Longrightarrow> i \<in> set [nat (max 0 (lo::int))..<nat (min (int n) hi)] \<longleftrightarrow> lo \<le> int i \<and> int i < hi"
  unfolding set_upt atLeastLessThan_iff by linarith

lemma state_machine_step:
  "(let on_d = max 0 (v e); off_d = min (int n) (off e) in if off_d \<le> on_d then dst else fill_range (Fin 1) on_d off_d dst) =
     foldl (\<lambda>out d. if True then out[d := Fin 1] else out) dst [nat (max 0 (v e))..<nat (min (int n) (off e))]"
proof (cases "min (int n) (off e) \<le> max 0 (v e)")
  case True
  then have "[nat (max 0 (v e))..<nat (min (int n) (off e))] = []" by (intro upt_conv_Nil nat_mono)
  with True show ?thesis by (simp only: Let_def if_True foldl_Nil)
next
  case False
  then show ?thesis by (simp only: Let_def if_True if_False fill_range_def)
qed

lemma state_machine_intervals_eq:
  "state_machine_intervals v es n off =
     foldl (\<lambda>out e. foldl (\<lambda>out d. if True then out[d := Fin 1] else out) out [nat (max 0 (v e))..<nat (min (int n) (off e))])
       (replicate n (Fin 0)) es"
  unfolding state_machine_intervals_def state_machine_step by (rule refl)

lemma length_state_machine_intervals: "length (state_machine_intervals v es n off) = n"
  unfolding state_machine_intervals_eq by (simp only: foldl_marks [THEN conjunct1] length_replicate)

lemma state_machine_intervals_nth:
  assumes "i < n"
  shows "state_machine_intervals v es n off ! i = of_flag (\<exists>e\<in>set es. v e \<le> int i \<and> int i < off e)"
  unfolding state_machine_intervals_eq
  using foldl_marks [of "\<lambda>e d. True" "Fin 1" "\<lambda>e. [nat (max 0 (v e))..<nat (min (int n) (off e))]" "replicate n (Fin 0)" es i,
    unfolded interval_set [OF assms]] assms
  by (simp only: length_replicate nth_replicate of_flag_def simp_thms) (rule if_distrib [symmetric])

section \<open>The end of a forecast\<close>

lemma filter_sorted_takeWhile: "sorted (map v es) \<Longrightarrow> filter (\<lambda>e. v e \<le> k) es = takeWhile (\<lambda>e. v e \<le> k) es"
proof (induction es)
  case (Cons e es)
  have "filter (\<lambda>e. v e \<le> k) es = []" if "\<not> v e \<le> k"
    using that Cons.prems by (auto simp: filter_empty_conv)
  with Cons show ?case by (cases "v e \<le> k") simp_all
qed simp

lemma find_append: "find P (xs @ ys) = (case find P xs of None \<Rightarrow> find P ys | Some x \<Rightarrow> Some x)"
  by (induction xs) auto

text \<open>The first event with a property is either seen by day \<open>D\<close> in both streams, or later in both.\<close>

lemma find_same_upto:
  assumes "same_upto v D es es'"
  shows "(\<exists>e. find P es = Some e \<and> find P es' = Some e \<and> v e \<le> int D) \<or>
    ((\<forall>e. find P es = Some e \<longrightarrow> int D < v e) \<and> (\<forall>e. find P es' = Some e \<longrightarrow> int D < v e))"
proof -
  let ?W = "\<lambda>e. v e \<le> int D"
  have late: "find P xs = Some e \<Longrightarrow> find P (takeWhile ?W xs) = None \<Longrightarrow> int D < v e"
    if "sorted (map v xs)" for xs e
  proof -
    assume f: "find P xs = Some e" and n: "find P (takeWhile ?W xs) = None"
    have "find P (takeWhile ?W xs @ dropWhile ?W xs) = Some e" using f by simp
    then have "find P (dropWhile ?W xs) = Some e" unfolding find_append n by simp
    then have m: "e \<in> set (dropWhile ?W xs)" by (auto simp: find_Some_iff)
    then obtain x r where dr: "dropWhile ?W xs = x # r" by (cases "dropWhile ?W xs") auto
    then have "\<not> v x \<le> int D" by (metis hd_dropWhile list.distinct(1) list.sel(1))
    moreover have "v x \<le> v e" using sorted_dropWhile_map [OF that, of ?W] m unfolding dr by auto
    ultimately show ?thesis by simp
  qed
  have tw: "takeWhile ?W es = takeWhile ?W es'"
    using assms filter_sorted_takeWhile [of v es] filter_sorted_takeWhile [of v es'] by (simp add: same_upto_def)
  show ?thesis
  proof (cases "find P (takeWhile ?W es)")
    case (Some e)
    have "find P xs = Some e" if "takeWhile ?W xs = takeWhile ?W es" for xs
    proof -
      have "find P (takeWhile ?W xs @ dropWhile ?W xs) = Some e" unfolding find_append that Some by simp
      then show ?thesis by simp
    qed
    from this [of es] this [of es'] tw have "find P es = Some e" "find P es' = Some e" by simp_all
    moreover have "e \<in> set (takeWhile ?W es)" using Some by (auto simp: find_Some_iff)
    then have "v e \<le> int D" by (rule set_takeWhileD [THEN conjunct2])
    ultimately show ?thesis by blast
  next
    case None
    with late [of es] late [of es'] assms tw show ?thesis unfolding same_upto_def by metis
  qed
qed

lemma forecast_off_same:
  assumes "same_upto ae_v D fin fin'" "d \<le> D" "d < n_d ax"
  shows "int d < find_forecast_off_d ax e fin \<longleftrightarrow> int d < find_forecast_off_d ax e fin'"
  using find_same_upto [OF assms(1), of "\<lambda>r. ae_report_date r = fe_end_date e"] assms(2,3)
  unfolding find_forecast_off_d_def Let_def by (auto split: option.splits)

section \<open>Every node\<close>

text \<open>Two sets of rows of one instrument.\<close>

definition rows_sim :: "nat \<Rightarrow> nat \<Rightarrow> rows \<Rightarrow> rows \<Rightarrow> bool" where
  "rows_sim D n R R' \<longleftrightarrow> (\<forall>g. sim D n (R g) (R' g))"

lemma rows_sim_nth: "rows_sim D n R R' \<Longrightarrow> d \<le> D \<Longrightarrow> R g ! d = R' g ! d"
  unfolding rows_sim_def by (blast intro: sim_nth)

lemmas grid_facts = grids_upto_def agree_nth

lemma sim_shifted:
  assumes "agree ax D g h" "a < n_a ax"
  shows "sim D (n_d ax) (map (\<lambda>d. if d = 0 then x else g ! (a * n_d ax + (d - 1))) [0..<n_d ax])
    (map (\<lambda>d. if d = 0 then x else h ! (a * n_d ax + (d - 1))) [0..<n_d ax])"
proof (rule sim_map_upt)
  fix d assume "d \<le> D" "d < n_d ax"
  then have "g ! (a * n_d ax + (d - 1)) = h ! (a * n_d ax + (d - 1))"
    by (intro agree_nth [OF assms]) linarith+
  then show "(if d = 0 then x else g ! (a * n_d ax + (d - 1))) = (if d = 0 then x else h ! (a * n_d ax + (d - 1)))" by (simp only:)
qed

lemma sim_daily_return:
  assumes "agree ax D (gb_close (pp_bar1d p)) (gb_close (pp_bar1d q))"
    "agree ax D (gb_adjust_factor (pp_bar1d p)) (gb_adjust_factor (pp_bar1d q))" "a < n_a ax"
  shows "sim D (n_d ax) (ts_daily_return ar ax p a) (ts_daily_return ar ax q a)"
  unfolding ts_daily_return_def Let_def
proof (rule sim_map_upt, goal_cases)
  case (1 d)
  then have "gb_close (pp_bar1d p) ! (a * n_d ax + (d - 1)) = gb_close (pp_bar1d q) ! (a * n_d ax + (d - 1))"
    "gb_adjust_factor (pp_bar1d p) ! (a * n_d ax + (d - 1)) = gb_adjust_factor (pp_bar1d q) ! (a * n_d ax + (d - 1))"
    by (intro agree_nth [OF assms(1,3)] agree_nth [OF assms(2,3)]; linarith)+
  with 1 agree_nth [OF assms(1,3), of d] agree_nth [OF assms(2,3), of d] show ?case by presburger
qed

lemma sim_industry_l1:
  "events_upto D a p q \<Longrightarrow> sim D (n_d ax) (ts_industry_l1 ar ax p a) (ts_industry_l1 ar ax q a)"
  unfolding ts_industry_l1_def events_upto_def by (intro sim_map sim_replay2) blast+

lemma sim_ni_raw: "events_upto D a p q \<Longrightarrow> sim D (n_d ax) (ts_ni_raw ar ax p a) (ts_ni_raw ar ax q a)"
  unfolding ts_ni_raw_def events_upto_def by (intro sim_map sim_replay) blast

lemma sim_valuations:
  assumes "events_upto D a p q" "rows_sim D (n_d ax) R R'"
  shows "sim D (n_d ax) (ts_pe_raw ar ax p meta a R) (ts_pe_raw ar ax q meta a R')"
    "sim D (n_d ax) (ts_pcf_raw ar ax p meta a R) (ts_pcf_raw ar ax q meta a R')"
    "sim D (n_d ax) (ts_ps_raw ar ax p meta a R) (ts_ps_raw ar ax q meta a R')"
    "sim D (n_d ax) (ts_rev_raw ax p meta a) (ts_rev_raw ax q meta a)"
    "sim D (n_d ax) (ts_cffoa_raw ar ax p meta a R) (ts_cffoa_raw ar ax q meta a R')"
    "sim D (n_d ax) (ts_pb_raw ar ax p meta a R) (ts_pb_raw ar ax q meta a R')"
    "sim D (n_d ax) (ts_roe_raw ar ax p meta a) (ts_roe_raw ar ax q meta a)"
    "sim D (n_d ax) (ts_roa_raw ar ax p meta a) (ts_roa_raw ar ax q meta a)"
proof -
  have e: "same_upto te_v D (store_at (pp_financial_ttm p) a) (store_at (pp_financial_ttm q) a)"
    "same_upto be_v D (store_at (pp_financial_balance p) a) (store_at (pp_financial_balance q) a)"
    using assms(1) unfolding events_upto_def by blast+
  note r = rows_sim_nth [OF assms(2)]
  show "sim D (n_d ax) (ts_pe_raw ar ax p meta a R) (ts_pe_raw ar ax q meta a R')"
    unfolding ts_pe_raw_def by (rule sim_scan_latest_ttm [OF e(1)]) (simp only: r)
  show "sim D (n_d ax) (ts_pcf_raw ar ax p meta a R) (ts_pcf_raw ar ax q meta a R')"
    unfolding ts_pcf_raw_def by (rule sim_scan_latest_ttm [OF e(1)]) (simp only: r)
  show "sim D (n_d ax) (ts_ps_raw ar ax p meta a R) (ts_ps_raw ar ax q meta a R')"
    unfolding ts_ps_raw_def by (rule sim_scan_latest_ttm [OF e(1)]) (simp only: r)
  show "sim D (n_d ax) (ts_rev_raw ax p meta a) (ts_rev_raw ax q meta a)"
    unfolding ts_rev_raw_def by (rule sim_scan_latest_ttm [OF e(1)]) (rule refl)
  show "sim D (n_d ax) (ts_cffoa_raw ar ax p meta a R) (ts_cffoa_raw ar ax q meta a R')"
    unfolding ts_cffoa_raw_def by (rule sim_scan_latest_ttm [OF e(1)]) (simp only: r)
  show "sim D (n_d ax) (ts_pb_raw ar ax p meta a R) (ts_pb_raw ar ax q meta a R')"
    unfolding ts_pb_raw_def by (rule sim_scan_latest_balance [OF e(2)]) (simp only: r)
  show "sim D (n_d ax) (ts_roe_raw ar ax p meta a) (ts_roe_raw ar ax q meta a)"
    unfolding ts_roe_raw_def by (rule sim_scan_latest_ttm_and_balance [OF e])
  show "sim D (n_d ax) (ts_roa_raw ar ax p meta a) (ts_roa_raw ar ax q meta a)"
    unfolding ts_roa_raw_def by (rule sim_scan_latest_ttm_and_balance [OF e])
qed

text \<open>Nodes that only look at other rows, day by day.\<close>

lemma sim_low_runs: "length (low_runs k xs) = length xs \<and> till D (low_runs k xs) = low_runs k (till D xs)"
proof -
  have "length (low_runs k xs) = length xs" for k xs by (induction xs arbitrary: k) (simp_all add: Let_def)
  moreover have "take n (low_runs k xs) = low_runs k (take n xs)" for n k xs
    by (induction xs arbitrary: k n) (simp_all add: Let_def take_Cons')
  ultimately show ?thesis by (simp add: till_def)
qed

lemma sim_day_by_day:
  assumes "rows_sim D (n_d ax) R R'"
  shows "sim D (n_d ax) (ts_limit_up ar ax R) (ts_limit_up ar ax R')"
    "sim D (n_d ax) (ts_limit_dn ar ax R) (ts_limit_dn ar ax R')"
    "sim D (n_d ax) (ts_low_p ax R) (ts_low_p ax R')"
    "sim D (n_d ax) (ts_low_mc ax meta a R) (ts_low_mc ax meta a R')"
    "sim D (n_d ax) (ts_new_list ax R) (ts_new_list ax R')"
    "sim D (n_d ax) (ts_trading_st ax R) (ts_trading_st ax R')"
proof -
  note r = rows_sim_nth [OF assms]
  show "sim D (n_d ax) (ts_limit_up ar ax R) (ts_limit_up ar ax R')"
    unfolding ts_limit_up_def by (rule sim_map_upt) (simp only: r)
  show "sim D (n_d ax) (ts_limit_dn ar ax R) (ts_limit_dn ar ax R')"
    unfolding ts_limit_dn_def by (rule sim_map_upt) (simp only: r)
  show "sim D (n_d ax) (ts_low_p ax R) (ts_low_p ax R')"
    unfolding ts_low_p_def by (rule sim_map_upt) (simp only: r)
  show "sim D (n_d ax) (ts_low_mc ax meta a R) (ts_low_mc ax meta a R')"
    unfolding ts_low_mc_def Let_def by (rule sim_map_upt) (simp only: r)
  show "sim D (n_d ax) (ts_new_list ax R) (ts_new_list ax R')"
    unfolding ts_new_list_def by (rule sim_map_upt) (simp only: r)
  have "sim D (n_d ax) (map (\<lambda>d. flag (R Low_p ! d) \<or> flag (R Low_mc ! d)) [0..<n_d ax])
      (map (\<lambda>d. flag (R' Low_p ! d) \<or> flag (R' Low_mc ! d)) [0..<n_d ax])"
    by (rule sim_map_upt) (simp only: r)
  then show "sim D (n_d ax) (ts_trading_st ax R) (ts_trading_st ax R')"
    unfolding ts_trading_st_def by (intro sim_map) (simp add: sim_def sim_low_runs)
qed

lemma sim_mcap:
  assumes "grids_upto ax D p q" "rows_sim D (n_d ax) R R'" "a < n_a ax"
  shows "sim D (n_d ax) (ts_mcap_raw ar ax p meta a R) (ts_mcap_raw ar ax q meta a R')"
    "sim D (n_d ax) (ts_fmcap_raw ar ax p meta a R) (ts_fmcap_raw ar ax q meta a R')"
proof -
  have g: "agree ax D (gs_total_shares (pp_shares p)) (gs_total_shares (pp_shares q))"
    "agree ax D (gs_a_float_shares (pp_shares p)) (gs_a_float_shares (pp_shares q))"
    using assms(1) unfolding grids_upto_def by blast+
  note r = rows_sim_nth [OF assms(2)] agree_nth [OF g(1) assms(3)] agree_nth [OF g(2) assms(3)]
  show "sim D (n_d ax) (ts_mcap_raw ar ax p meta a R) (ts_mcap_raw ar ax q meta a R')"
    unfolding ts_mcap_raw_def by (intro sim_fill_before_list sim_map_upt) (simp only: r)
  show "sim D (n_d ax) (ts_fmcap_raw ar ax p meta a R) (ts_fmcap_raw ar ax q meta a R')"
    unfolding ts_fmcap_raw_def by (intro sim_fill_before_list sim_map_upt) (simp only: r)
qed

lemma sim_risk_warn:
  assumes "agree ax D (gt_st_status (pp_status p)) (gt_st_status (pp_status q))" "a < n_a ax"
  shows "sim D (n_d ax) (ts_risk_warn ar ax p a) (ts_risk_warn ar ax q a)"
  unfolding ts_risk_warn_def by (rule sim_map_upt) (simp only: agree_nth [OF assms])

lemma sim_profit_st:
  assumes "events_upto D a p q"
  shows "sim D (n_d ax) (ts_profit_st ax p a) (ts_profit_st ax q a)"
proof -
  have f: "same_upto fe_v D (store_at (pp_forecast p) a) (store_at (pp_forecast q) a)"
    and i: "same_upto ae_v D (store_at (pp_financial_income_annual p) a) (store_at (pp_financial_income_annual q) a)"
    using assms unfolding events_upto_def by blast+
  show ?thesis unfolding ts_profit_st_def
  proof (rule simI, simp_all only: length_state_machine_intervals state_machine_intervals_nth)
    fix d assume d: "d \<le> D" "d < n_d ax"
    have mem: "e \<in> set (store_at (pp_forecast p) a) \<longleftrightarrow> e \<in> set (store_at (pp_forecast q) a)" if "fe_v e \<le> int d" for e
    proof -
      have "set (filter (\<lambda>e. fe_v e \<le> int D) (store_at (pp_forecast p) a)) =
          set (filter (\<lambda>e. fe_v e \<le> int D) (store_at (pp_forecast q) a))"
        using f by (simp only: same_upto_def)
      moreover have "fe_v e \<le> int D" using that d(1) by linarith
      ultimately show ?thesis unfolding set_filter by blast
    qed
    show "of_flag (\<exists>e\<in>set (filter (\<lambda>e. loss_forecast e \<and> is_finite (fe_last_parent_net e) \<and> \<not> fle (Fin 0) (fe_last_parent_net e))
          (store_at (pp_forecast p) a)). fe_v e \<le> int d \<and> int d < find_forecast_off_d ax e (store_at (pp_financial_income_annual p) a)) =
        of_flag (\<exists>e\<in>set (filter (\<lambda>e. loss_forecast e \<and> is_finite (fe_last_parent_net e) \<and> \<not> fle (Fin 0) (fe_last_parent_net e))
          (store_at (pp_forecast q) a)). fe_v e \<le> int d \<and> int d < find_forecast_off_d ax e (store_at (pp_financial_income_annual q) a))"
      unfolding forecast_off_same [OF i d] set_filter by (rule arg_cong [where f = of_flag]) (use mem in blast)
  qed
qed

text \<open>\<open>revenue_st\<close>.\<close>

definition revenue_days :: "axes \<Rightarrow> financial_income_annual_ev list \<Rightarrow> forecast_ev \<Rightarrow> nat list" where
  "revenue_days ax fin e = [nat (max 0 (fe_v e))..<nat (min (int (n_d ax)) (find_forecast_off_d ax e fin))]"

definition revenue_low :: "fval list \<Rightarrow> forecast_ev \<Rightarrow> nat \<Rightarrow> bool" where
  "revenue_low rr e d \<longleftrightarrow> is_finite (rr ! d) \<and>
     fless (rr ! d) (Fin (if year_of (fe_end_date e) \<ge> 2024 then 300000000 else 100000000))"

lemma revenue_interval_eq:
  "revenue_interval ax fin rr = (\<lambda>out e. foldl (\<lambda>out d. if revenue_low rr e d then out[d := Fin 1] else out) out (revenue_days ax fin e))"
  by (intro ext) (simp only: revenue_interval_def Let_def revenue_days_def revenue_low_def)

lemma same_upto_mem: "same_upto v D es es' \<Longrightarrow> v e \<le> int D \<Longrightarrow> e \<in> set es \<longleftrightarrow> e \<in> set es'"
proof -
  assume "same_upto v D es es'" "v e \<le> int D"
  then have "set (filter (\<lambda>e. v e \<le> int D) es) = set (filter (\<lambda>e. v e \<le> int D) es')" "v e \<le> int D" by (simp_all only: same_upto_def)
  then show ?thesis unfolding set_filter by blast
qed

lemma sim_revenue_st:
  assumes "events_upto D a p q" "rows_sim D (n_d ax) R R'"
  shows "sim D (n_d ax) (ts_revenue_st ax p meta a R) (ts_revenue_st ax q meta a R')"
proof (cases "sm_list_sector meta ! a \<noteq> MAIN_BOARD")
  case True
  show ?thesis unfolding ts_revenue_st_def if_P [OF True] by (rule sim_refl) (rule length_replicate)
next
  case False
  have f: "same_upto fe_v D (store_at (pp_forecast p) a) (store_at (pp_forecast q) a)"
    and i: "same_upto ae_v D (store_at (pp_financial_income_annual p) a) (store_at (pp_financial_income_annual q) a)"
    using assms unfolding events_upto_def by blast+
  show ?thesis unfolding ts_revenue_st_def revenue_interval_eq
  proof (simp only: if_not_P [OF False], rule simI, simp_all only: foldl_marks [THEN conjunct1] length_replicate)
    fix d assume d: "d \<le> D" "d < n_d ax"
    let ?P = "\<lambda>p R. \<exists>e\<in>set (filter (revenue_trigger ax) (store_at (pp_forecast p) a)).
      d \<in> set (revenue_days ax (store_at (pp_financial_income_annual p) a) e) \<and> revenue_low (R Rev_raw) e d"
    have "?P p R = ?P q R'"
      unfolding revenue_days_def interval_set [OF d(2)] forecast_off_same [OF i d] set_filter revenue_low_def
        rows_sim_nth [OF assms(2) d(1)]
      using same_upto_mem [OF f] d(1) by (smt (verit, best) mem_Collect_eq of_nat_mono)
    moreover have "foldl (\<lambda>out e. foldl (\<lambda>out d. if revenue_low (R Rev_raw) e d then out[d := Fin 1] else out) out
          (revenue_days ax (store_at (pp_financial_income_annual p) a) e)) (replicate (n_d ax) (Fin 0))
          (filter (revenue_trigger ax) (store_at (pp_forecast p) a)) ! d = (if ?P p R then Fin 1 else Fin 0)" for p :: pit_pool and R :: rows
      using foldl_marks [THEN conjunct2, rule_format, of d "replicate (n_d ax) (Fin 0)" "revenue_low (R Rev_raw)" "Fin 1"
          "revenue_days ax (store_at (pp_financial_income_annual p) a)" "filter (revenue_trigger ax) (store_at (pp_forecast p) a)"]
        d(2) by (simp only: length_replicate nth_replicate)
    ultimately show "foldl (\<lambda>out e. foldl (\<lambda>out d. if revenue_low (R Rev_raw) e d then out[d := Fin 1] else out) out
          (revenue_days ax (store_at (pp_financial_income_annual p) a) e)) (replicate (n_d ax) (Fin 0))
          (filter (revenue_trigger ax) (store_at (pp_forecast p) a)) ! d =
        foldl (\<lambda>out e. foldl (\<lambda>out d. if revenue_low (R' Rev_raw) e d then out[d := Fin 1] else out) out
          (revenue_days ax (store_at (pp_financial_income_annual q) a) e)) (replicate (n_d ax) (Fin 0))
          (filter (revenue_trigger ax) (store_at (pp_forecast q) a)) ! d" by (simp only:)
  qed
qed

text \<open>\<open>dy_raw\<close>.\<close>

lemma same_upto_amounts:
  assumes "same_upto de_v D es es'" "agree ax D (gs_total_shares (pp_shares p)) (gs_total_shares (pp_shares q))" "a < n_a ax" "D < n_d ax"
  shows "same_upto (\<lambda>x. de_v (fst x)) D (map (\<lambda>e. (e, dy_amount ar ax p a e)) es) (map (\<lambda>e. (e, dy_amount ar ax q a e)) es')"
proof -
  have "dy_amount ar ax p a e = dy_amount ar ax q a e" if "de_v e \<le> int D" for e
  proof -
    have "nat (de_v e) \<le> D" "nat (de_v e) < n_d ax" using that assms(4) by linarith+
    then show ?thesis unfolding dy_amount_def using agree_nth [OF assms(2,3)] by presburger
  qed
  then have "map (\<lambda>e. (e, dy_amount ar ax p a e)) (filter (\<lambda>e. de_v e \<le> int D) es) =
      map (\<lambda>e. (e, dy_amount ar ax q a e)) (filter (\<lambda>e. de_v e \<le> int D) es)"
    by (intro map_cong refl) simp
  with assms(1) show ?thesis by (simp add: same_upto_def filter_map comp_def)
qed

lemma dy_loop_upto:
  assumes "same_upto (\<lambda>x. de_v (fst x)) D es es'" "\<forall>d\<in>set ds. d \<le> D"
  shows "dy_loop ar ax acc w es ds = dy_loop ar ax acc w es' ds"
  using assms
proof (induction ds arbitrary: acc w es es')
  case (Cons d ds)
  then have d: "d \<le> D" by simp
  note e = same_upto_takeWhile [OF Cons.prems(1) d]
  show ?case using Cons.IH [OF e(2)] Cons.prems(2) by (simp add: take_events_eq e(1) Let_def split: prod.splits)
qed simp

lemma take_dy_loop: "take k (dy_loop ar ax acc w es ds) = dy_loop ar ax acc w es (take k ds)"
proof (induction ds arbitrary: acc w es k)
  case (Cons d ds)
  then show ?case by (cases k) (simp_all add: case_prod_unfold Let_def)
qed simp

lemma length_dy_loop: "length (dy_loop ar ax acc w es ds) = length ds"
  by (induction ds arbitrary: acc w es) (simp_all add: case_prod_unfold Let_def)

lemma sim_dy_raw:
  assumes "grids_upto ax D p q" "events_upto D a p q" "rows_sim D (n_d ax) R R'" "a < n_a ax" "D < n_d ax"
  shows "sim D (n_d ax) (ts_dy_raw ar ax p a R) (ts_dy_raw ar ax q a R')"
proof -
  have g: "agree ax D (gs_total_shares (pp_shares p)) (gs_total_shares (pp_shares q))"
    and e: "same_upto de_v D (store_at (pp_dividend p) a) (store_at (pp_dividend q) a)"
    using assms(1,2) unfolding grids_upto_def events_upto_def by blast+
  note se = same_upto_amounts [OF e g assms(4,5), of ar]
  have "sim D (n_d ax) (dy_loop ar ax (Fin 0) [] (map (\<lambda>e. (e, dy_amount ar ax p a e)) (store_at (pp_dividend p) a)) [0..<n_d ax])
      (dy_loop ar ax (Fin 0) [] (map (\<lambda>e. (e, dy_amount ar ax q a e)) (store_at (pp_dividend q) a)) [0..<n_d ax])"
    unfolding sim_def till_def take_dy_loop length_dy_loop
    by (intro conjI dy_loop_upto [OF se]) (auto dest: set_take_upt)
  then show ?thesis unfolding ts_dy_raw_def
    by (rule sim_map2) (simp only: rows_sim_nth [OF assms(3)])
qed

text \<open>\<open>dividend_st\<close>: a segment marks days; what comes after day \<open>D\<close> marks none up to it.\<close>

definition segment_mark :: "arith \<Rightarrow> fval list \<Rightarrow> fval \<Rightarrow> nat \<Rightarrow> bool" where
  "segment_mark ar ni x d \<longleftrightarrow> \<not> (\<not> is_finite (ni ! d) \<or> fle (ni ! d) (Fin 0)) \<and>
     fless x (fmul (single ar) (single ar (3/10)) (ni ! d)) \<and> fless x (Fin 50000000)"

lemma apply_segment_eq:
  "apply_segment ar n w ni lo hi x out =
     foldl (\<lambda>out d. if segment_mark ar ni x d then out[d := Fin 1] else out) out [nat (max 0 (max lo (int w)))..<nat (min (int n) hi)]"
proof -
  have "(\<lambda>out d. if \<not> is_finite (ni ! d) \<or> fle (ni ! d) (Fin 0) then out
      else if fless x (fmul (single ar) (single ar (3/10)) (ni ! d)) \<and> fless x (Fin 50000000) then out[d := Fin 1] else out) =
     (\<lambda>out d. if segment_mark ar ni x d then out[d := Fin 1] else out)"
    by (intro ext) (auto simp: segment_mark_def)
  then show ?thesis unfolding apply_segment_def min.commute [of hi] by (simp only:)
qed

lemma length_apply_segment: "length (apply_segment ar n w ni lo hi x out) = length out"
  unfolding apply_segment_eq by (rule foldl_mark [THEN conjunct1])

lemma apply_segment_nth:
  assumes "d < n" "length out = n"
  shows "apply_segment ar n w ni lo hi x out ! d =
    (if lo \<le> int d \<and> w \<le> d \<and> int d < hi \<and> segment_mark ar ni x d then Fin 1 else out ! d)"
proof -
  have "max lo (int w) \<le> int d \<longleftrightarrow> lo \<le> int d \<and> w \<le> d" by linarith
  then show ?thesis unfolding apply_segment_eq
    using foldl_mark [THEN conjunct2, rule_format, of d out "segment_mark ar ni x" "Fin 1" "[nat (max 0 (max lo (int w)))..<nat (min (int n) hi)]"]
      assms by (simp only: interval_set conj_assoc)
qed

lemma length_dividend_loop: "length (dividend_loop ar ax w share ni lo cur seen es out) = length out"
  by (induction es arbitrary: lo cur seen out) (simp_all add: length_apply_segment)

lemma dividend_loop_late:
  assumes "\<forall>e\<in>set es. int d < de_v e" "sorted (map de_v es)" "d < n_d ax" "length out = n_d ax"
  shows "dividend_loop ar ax w share ni lo cur seen es out ! d = apply_segment ar (n_d ax) w ni lo (int (n_d ax)) cur out ! d"
  using assms
proof (induction es arbitrary: lo cur seen out)
  case (Cons e es)
  have "dividend_loop ar ax w share ni (de_v e) (dividend_cur ar ax share (seen @ [e]) cur e) (seen @ [e]) es
        (apply_segment ar (n_d ax) w ni lo (de_v e) cur out) ! d =
      apply_segment ar (n_d ax) w ni (de_v e) (int (n_d ax)) (dividend_cur ar ax share (seen @ [e]) cur e)
        (apply_segment ar (n_d ax) w ni lo (de_v e) cur out) ! d"
    using Cons.prems by (intro Cons.IH) (simp_all add: length_apply_segment)
  also have "\<dots> = apply_segment ar (n_d ax) w ni lo (int (n_d ax)) cur out ! d"
    using Cons.prems by (simp add: apply_segment_nth length_apply_segment)
  finally show ?case by simp
qed simp

lemma dividend_sum_upto:
  assumes "\<forall>e\<in>set seen. de_v e \<le> int D" "\<And>d. d \<le> D \<Longrightarrow> share ! d = share' ! d"
  shows "dividend_sum ar n share lo hi seen = dividend_sum ar n share' lo hi seen"
proof -
  have "(if 0 \<le> de_v p \<and> de_v p < int n then share ! nat (de_v p) else NaN) =
      (if 0 \<le> de_v p \<and> de_v p < int n then share' ! nat (de_v p) else NaN)" if "p \<in> set seen" for p
    using assms(2) [of "nat (de_v p)"] assms(1) that by auto
  then show ?thesis unfolding dividend_sum_def Let_def by (intro foldl_cong refl) (simp only:)
qed

lemma dividend_loop_prefix:
  assumes "\<forall>e\<in>set (seen @ pre). de_v e \<le> int D" "\<And>d. d \<le> D \<Longrightarrow> share ! d = share' ! d" "\<And>d. d \<le> D \<Longrightarrow> ni ! d = ni' ! d"
    "\<forall>e\<in>set es \<union> set es'. int D < de_v e" "sorted (map de_v es)" "sorted (map de_v es')"
    "length out = n_d ax" "length out' = n_d ax" "\<And>d. d \<le> D \<Longrightarrow> d < n_d ax \<Longrightarrow> out ! d = out' ! d" "d \<le> D" "d < n_d ax"
  shows "dividend_loop ar ax w share ni lo cur seen (pre @ es) out ! d =
    dividend_loop ar ax w share' ni' lo cur seen (pre @ es') out' ! d"
  using assms(1,7-9)
proof (induction pre arbitrary: lo cur seen out out')
  case Nil
  have m: "segment_mark ar ni x d = segment_mark ar ni' x d" for x using assms(3) [OF assms(10)] by (simp add: segment_mark_def)
  have "\<forall>e\<in>set es. int d < de_v e" "\<forall>e\<in>set es'. int d < de_v e" using assms(4,10) by force+
  then show ?case
    using Nil assms(5,6,10,11) by (simp add: dividend_loop_late apply_segment_nth m)
next
  case (Cons e pre)
  have c: "dividend_cur ar ax share (seen @ [e]) cur e = dividend_cur ar ax share' (seen @ [e]) cur e"
    unfolding dividend_cur_def Let_def using Cons.prems(1) by (intro if_cong refl dividend_sum_upto [OF _ assms(2)]) auto
  have s: "apply_segment ar (n_d ax) w ni lo (de_v e) cur out ! i = apply_segment ar (n_d ax) w ni' lo (de_v e) cur out' ! i"
    if "i \<le> D" "i < n_d ax" for i
    using Cons.prems(2-4) that assms(3) [of i] by (simp add: apply_segment_nth segment_mark_def)
  show ?case using Cons.prems by (simp add: c) (intro Cons.IH, simp_all add: length_apply_segment s)
qed

lemma sim_dividend_st:
  assumes "events_upto D a p q" "rows_sim D (n_d ax) R R'"
  shows "sim D (n_d ax) (ts_dividend_st ar ax p meta a R) (ts_dividend_st ar ax q meta a R')"
proof (cases "sm_list_sector meta ! a \<noteq> MAIN_BOARD")
  case True
  show ?thesis unfolding ts_dividend_st_def if_P [OF True] by (rule sim_refl) (rule length_replicate)
next
  case False
  have e: "same_upto de_v D (store_at (pp_dividend p) a) (store_at (pp_dividend q) a)"
    using assms unfolding events_upto_def by blast
  let ?W = "\<lambda>e. de_v e \<le> int D"
  have late: "\<forall>e\<in>set (dropWhile ?W es). int D < de_v e" if "sorted (map de_v es)" for es
  proof (cases "dropWhile ?W es")
    case (Cons x r)
    then have "int D < de_v x" by (metis hd_dropWhile list.distinct(1) list.sel(1) not_le)
    with sorted_dropWhile_map [OF that, of ?W] show ?thesis unfolding Cons by force
  next
    case Nil
    show ?thesis unfolding Nil by simp
  qed
  note tw = same_upto_takeWhile [OF e order_refl]
  have so: "sorted (map de_v (store_at (pp_dividend p) a))" "sorted (map de_v (store_at (pp_dividend q) a))"
    using e by (simp_all add: same_upto_def)
  show ?thesis unfolding ts_dividend_st_def if_not_P [OF False]
  proof (rule simI)
    fix d assume d: "d \<le> D" "d < n_d ax"
    have "dividend_loop ar ax w (R Share_raw) (R Ni_raw) 0 (Fin 0) []
        (takeWhile ?W (store_at (pp_dividend p) a) @ dropWhile ?W (store_at (pp_dividend p) a)) (replicate (n_d ax) (Fin 0)) ! d =
      dividend_loop ar ax w (R' Share_raw) (R' Ni_raw) 0 (Fin 0) []
        (takeWhile ?W (store_at (pp_dividend p) a) @ dropWhile ?W (store_at (pp_dividend q) a)) (replicate (n_d ax) (Fin 0)) ! d" for w
      by (rule dividend_loop_prefix [OF _ rows_sim_nth [OF assms(2)] rows_sim_nth [OF assms(2)] _ _ _ _ _ refl d])
        (use late [OF so(1)] late [OF so(2)] so in \<open>auto simp: sorted_dropWhile_map dest: set_takeWhileD\<close>)
    note this [of "dividend_warmup ax meta a", unfolded takeWhile_dropWhile_id]
    moreover have "takeWhile ?W (store_at (pp_dividend p) a) @ dropWhile ?W (store_at (pp_dividend q) a) = store_at (pp_dividend q) a"
      unfolding tw(1) by (rule takeWhile_dropWhile_id)
    ultimately show "dividend_loop ar ax (dividend_warmup ax meta a) (R Share_raw) (R Ni_raw) 0 (Fin 0) []
        (store_at (pp_dividend p) a) (replicate (n_d ax) (Fin 0)) ! d =
      dividend_loop ar ax (dividend_warmup ax meta a) (R' Share_raw) (R' Ni_raw) 0 (Fin 0) []
        (store_at (pp_dividend q) a) (replicate (n_d ax) (Fin 0)) ! d"
      by (simp only:)
  qed (simp_all add: length_dividend_loop)
qed

text \<open>The dispatcher: on pools and rows that agree up to \<open>D\<close>, every node gives rows that agree.\<close>

lemma sim_age_row: "age_row ar ax s = Ok r \<Longrightarrow> sim D (n_d ax) r r"
  unfolding age_row_def by (rule sim_refl) (auto split: if_splits outcome.splits)

lemma node_upto:
  assumes "grids_upto ax D p q" "events_upto D a p q" "rows_sim D (n_d ax) R R'" "a < n_a ax" "D < n_d ax"
    "compute_ts_node ar ax p meta a R f = Ok r"
  shows "\<exists>r'. compute_ts_node ar ax q meta a R' f = Ok r' \<and> sim D (n_d ax) r r'"
proof -
  note g = assms(1) [unfolded grids_upto_def]
  note s = sim_shifted [OF _ assms(4), THEN sim_fill_before_list] sim_grid_copy [OF _ assms(4)] sim_grid_copy_bool [OF _ assms(4)]
    sim_valuations [OF assms(2,3)] sim_day_by_day [OF assms(3)] sim_mcap [OF assms(1,3,4)] sim_industry_l1 [OF assms(2)]
    sim_ni_raw [OF assms(2)] sim_profit_st [OF assms(2)] sim_revenue_st [OF assms(2,3)] sim_dividend_st [OF assms(2,3)]
    sim_dy_raw [OF assms(1-5)]
  have g': "sim D (n_d ax) (ts_close_raw ax p meta a) (ts_close_raw ax q meta a)"
    "sim D (n_d ax) (ts_is_margin ax p a) (ts_is_margin ax q a)"
    "sim D (n_d ax) (ts_susp ax p a) (ts_susp ax q a)"
    "sim D (n_d ax) (ts_up_lim ax p meta a) (ts_up_lim ax q meta a)"
    "sim D (n_d ax) (ts_dn_lim ax p meta a) (ts_dn_lim ax q meta a)"
    "sim D (n_d ax) (ts_share_raw ax p meta a) (ts_share_raw ax q meta a)"
    "sim D (n_d ax) (ts_mr_bal_raw ax p meta a) (ts_mr_bal_raw ax q meta a)"
    "sim D (n_d ax) (ts_ms_bal_raw ax p meta a) (ts_ms_bal_raw ax q meta a)"
    "sim D (n_d ax) (ts_daily_return ar ax p a) (ts_daily_return ar ax q a)"
    "sim D (n_d ax) (ts_risk_warn ar ax p a) (ts_risk_warn ar ax q a)"
    unfolding ts_close_raw_def ts_is_margin_def ts_susp_def ts_up_lim_def ts_dn_lim_def ts_share_raw_def ts_mr_bal_raw_def
      ts_ms_bal_raw_def
    by (intro s sim_daily_return sim_risk_warn assms(4); use g in blast)+
  have ok: "\<exists>r'. Ok y = Ok r' \<and> sim D (n_d ax) r r'" if "sim D (n_d ax) x y" "Ok x = Ok r" for x y
    using that by auto
  have age: "\<exists>r'. Ok r = Ok r' \<and> sim D (n_d ax) r r'" if "age_row ar ax t = Ok r" for t
    using sim_age_row [OF that] by blast
  show ?thesis
    using assms(6) unfolding compute_ts_node.simps ts_list_age_def ts_delist_age_def
    by (cases f) (simp_all only: node.case outcome.distinct, ((rule age, assumption) | (rule ok, rule g' s, assumption) | (erule FalseE))+)
qed

section \<open>The tensor\<close>

text \<open>Two tensors that agree up to \<open>D\<close>.\<close>

definition tensors_upto :: "axes \<Rightarrow> nat \<Rightarrow> tensor \<Rightarrow> tensor \<Rightarrow> bool" where
  "tensors_upto ax D T T' \<longleftrightarrow> tensor_ok ax T \<and> tensor_ok ax T' \<and>
     (\<forall>a < n_a ax. rows_sim D (n_d ax) (\<lambda>g. ts_row ax T g a) (\<lambda>g. ts_row ax T' g a))"

lemma run_ts_node_upto:
  assumes "grids_upto ax D p q" "events_upto D a p q" "a < n_a ax" "D < n_d ax" "tensors_upto ax D T T'"
    "run_ts_node ar ax p meta a T f = Ok U"
  shows "\<exists>U'. run_ts_node ar ax q meta a T' f = Ok U' \<and> tensors_upto ax D U U'"
proof -
  from assms(6) obtain r where r: "compute_ts_node ar ax p meta a (\<lambda>g. ts_row ax T g a) f = Ok r" "U = set_ts_row ax T f a r"
    by (cases "compute_ts_node ar ax p meta a (\<lambda>g. ts_row ax T g a) f") (simp_all add: run_ts_node_def)
  have R: "rows_sim D (n_d ax) (\<lambda>g. ts_row ax T g a) (\<lambda>g. ts_row ax T' g a)" "tensor_ok ax T" "tensor_ok ax T'"
    using assms(3,5) by (simp_all add: tensors_upto_def)
  from node_upto [OF assms(1,2) R(1) assms(3,4) r(1)] obtain r' where
    r': "compute_ts_node ar ax q meta a (\<lambda>g. ts_row ax T' g a) f = Ok r'" "sim D (n_d ax) r r'" by blast
  have l: "length r = n_d ax" "length r' = n_d ax" using r'(2) by (simp_all add: sim_def)
  have "tensors_upto ax D U (set_ts_row ax T' f a r')"
    unfolding r(2) tensors_upto_def rows_sim_def
    using R l assms(3,5) r'(2)
    by (auto simp: tensor_ok_set_ts_row ts_row_set tensors_upto_def rows_sim_def)
  with r'(1) show ?thesis by (simp add: run_ts_node_def)
qed

lemma compute_ts_upto:
  assumes "grids_upto ax D p q" "\<And>a. a < n_a ax \<Longrightarrow> events_upto D a p q" "set schedule \<subseteq> {..<n_a ax}" "D < n_d ax"
    "tensors_upto ax D T T'" "compute_ts ar ax p meta order schedule T = Ok U"
  shows "\<exists>U'. compute_ts ar ax q meta order schedule T' = Ok U' \<and> tensors_upto ax D U U'"
  using assms(5,6) unfolding compute_ts_def
proof (rule fold_ok_related [rotated])
  fix s t a u assume a: "a \<in> set schedule" "tensors_upto ax D s t" "fold_ok (run_ts_node ar ax p meta a) s order = Ok u"
  then have "a < n_a ax" using assms(3) by blast
  note step = run_ts_node_upto [OF assms(1) assms(2) [OF this] this assms(4)]
  show "\<exists>v. fold_ok (run_ts_node ar ax q meta a) t order = Ok v \<and> tensors_upto ax D u v"
    using step by (rule fold_ok_related [where P = "tensors_upto ax D", OF _ a(2,3)])
qed

section \<open>The pool\<close>

text \<open>Every table cut down to the records that were known by row \<open>D\<close>.\<close>

definition known_tables :: "axes \<Rightarrow> nat \<Rightarrow> (string \<Rightarrow> month_files) \<Rightarrow> string \<Rightarrow> month_files" where
  "known_tables ax D tables t =
     (if t = ''cn_stock_status'' \<or> t = ''cn_stock_margin_trading_detail'' then known_rows ax 0 ''date'' D (tables t)
      else if t = ''cn_stock_dividend'' then known_rows ax (-1) ''publish_date'' D (tables t)
      else if t = ''forecast'' then known_rows ax (-1) ''ann_date'' D (tables t)
      else known_rows ax (-1) ''date'' D (tables t))"

context event_table
begin

lemma known_same_upto:
  assumes "axes_ok ax" "fits files" "a < n_a ax" "D < n_d ax"
  shows "same_upto v D (store_at (build_events v ax (-1) vc ic accept (mk ax) files) a)
    (store_at (build_events v ax (-1) vc ic accept (mk ax) (known_rows ax (-1) vc D files)) a)"
proof -
  have "sorted (map v (store_at (build_events v ax (-1) vc ic accept (mk ax) (known_rows ax (-1) vc D files)) a))"
    by (rule sorted_store [OF assms(1) fits_known_rows [OF assms(2)] assms(3)])
  with sorted_store [OF assms(1-3)] no_look_ahead [OF assms] show ?thesis
    by (simp add: same_upto_def flip: no_look_ahead [OF assms])
qed

end

lemma agree_overlay:
  assumes "axes_ok ax" "agree ax D (gt_st_status g) (gt_st_status h)" "agree ax D (gt_suspended g) (gt_suspended h)"
  shows "agree ax D (gt_st_status (foldl (overlay_row ax) g rs)) (gt_st_status (foldl (overlay_row ax) h rs)) \<and>
    agree ax D (gt_suspended (foldl (overlay_row ax) g rs)) (gt_suspended (foldl (overlay_row ax) h rs))"
  using assms(2,3)
proof (induction rs arbitrary: g h)
  case (Cons r rs)
  have put: "agree ax D (xs[i := x]) (ys[i := x])" if "agree ax D xs ys" for xs ys :: "'v list" and i x
    using that by (cases "i < length xs") (auto simp: agree_def nth_list_update list_update_beyond)
  have "agree ax D (gt_st_status (overlay_row ax g r)) (gt_st_status (overlay_row ax h r)) \<and>
    agree ax D (gt_suspended (overlay_row ax g r)) (gt_suspended (overlay_row ax h r))"
    using Cons.prems by (auto simp: overlay_row_def Let_def put split: option.splits)
  with Cons.IH show ?case by simp
qed simp


lemma load_pit_upto:
  assumes "axes_ok ax" "\<forall>t. fits (tables t)" "D < n_d ax" "load_pit rnd upd ax tables snapshot = Ok p"
  shows "\<exists>q. load_pit rnd upd ax (known_tables ax D tables) snapshot = Ok q \<and> grids_upto ax D p q \<and>
    (\<forall>a < n_a ax. events_upto D a p q)"
proof -
  let ?p = "build_pool rnd ax tables" and ?q = "build_pool rnd ax (known_tables ax D tables)"
  have st: "agree ax D (gt_st_status (pp_status ?p)) (gt_st_status (pp_status ?q))"
    "agree ax D (gt_suspended (pp_status ?p)) (gt_suspended (pp_status ?q))"
    by (simp_all add: build_pool_def known_tables_def build_status_def build_grid_known [OF assms(1,3)])
  obtain g where g: "apply_meta_overlays upd ax snapshot (pp_status ?p) = Ok g" "p = post_ffill ax (?p\<lparr>pp_status := g\<rparr>)"
    using assms(4) unfolding load_pit_def Let_def by (cases "apply_meta_overlays upd ax snapshot (pp_status ?p)") simp_all
  have "\<exists>h. apply_meta_overlays upd ax snapshot (pp_status ?q) = Ok h \<and>
      agree ax D (gt_st_status g) (gt_st_status h) \<and> agree ax D (gt_suspended g) (gt_suspended h)"
    using g(1) st agree_overlay [OF assms(1) st]
    by (auto simp: apply_meta_overlays_def Let_def split: option.splits if_splits)
  then obtain h where h: "apply_meta_overlays upd ax snapshot (pp_status ?q) = Ok h"
    "agree ax D (gt_st_status g) (gt_st_status h)" "agree ax D (gt_suspended g) (gt_suspended h)" by blast
  let ?q' = "post_ffill ax (?q\<lparr>pp_status := h\<rparr>)"
  have "grids_upto ax D p ?q'"
    unfolding g(2) grids_upto_def
    by (simp add: h(2,3) build_pool_def post_ffill_def known_tables_def build_grid_known [OF assms(1,3)] build_bar1d_def
        ffill_bar1d_def build_shares_def ffill_shares_def build_limit_price_def ffill_limit_price_def build_margin_detail_def agree_ffill)
  moreover have "events_upto D a p ?q'" if "a < n_a ax" for a
    unfolding g(2) events_upto_def using assms(2)
    by (simp add: build_pool_def post_ffill_def known_tables_def build_industry_component_def build_industry_change_def
        build_dividend_def build_financial_ttm_def build_financial_balance_def build_financial_income_annual_def build_forecast_def
        industry_component.known_same_upto industry_change.known_same_upto dividend.known_same_upto financial_ttm.known_same_upto
        financial_balance.known_same_upto financial_income_annual.known_same_upto forecast.known_same_upto assms(1,3) that)
  ultimately show ?thesis using h(1) by (simp add: load_pit_def)
qed

definition sample_meta :: stock_meta where
  "sample_meta = \<lparr>sm_name = [[], []], sm_list_date = [[], []], sm_delist_date = [[], []], sm_list_sector = [[], []], sm_exchange = [[], []]\<rparr>"

text \<open>C31. No time-series node looks ahead: whatever order the nodes and instruments are computed in, every
  value of every node up to any day \<open>D\<close> is the same whether the pool was loaded from all records or only
  from those that were visible by then (with the same axes, static information and pre-market snapshot) -
  through building, sorting, overlay, forward filling and all the window computations of the nodes.\<close>

theorem features_no_look_ahead:
  assumes "axes_ok ax" "\<forall>t. fits (tables t)" "D < n_d ax" "set schedule \<subseteq> {..<n_a ax}"
    "load_pit rnd upd ax tables snapshot = Ok p"
    "compute_ts ar ax p meta order schedule (new_tensor ax k) = Ok T"
  shows "\<exists>q T'. load_pit rnd upd ax (known_tables ax D tables) snapshot = Ok q \<and>
    compute_ts ar ax q meta order schedule (new_tensor ax k) = Ok T' \<and>
    (\<forall>f a d. a < n_a ax \<and> d \<le> D \<longrightarrow> tensor_at ax T f a d = tensor_at ax T' f a d)"
proof -
  obtain q where q: "load_pit rnd upd ax (known_tables ax D tables) snapshot = Ok q" "grids_upto ax D p q"
    "\<And>a. a < n_a ax \<Longrightarrow> events_upto D a p q"
    using load_pit_upto [OF assms(1-3,5)] by blast
  have "tensors_upto ax D (new_tensor ax k) (new_tensor ax k)"
    by (simp add: tensors_upto_def rows_sim_def tensor_ok_new length_ts_row sim_refl)
  from compute_ts_upto [OF q(2,3) assms(4,3) this assms(6)] obtain T' where
    T': "compute_ts ar ax q meta order schedule (new_tensor ax k) = Ok T'" "tensors_upto ax D T T'" by blast
  have "tensor_at ax T f a d = tensor_at ax T' f a d" if "a < n_a ax" "d \<le> D" for f a d
  proof -
    have "ts_row ax T f a ! d = ts_row ax T' f a ! d" "tensor_ok ax T" "tensor_ok ax T'"
      using T'(2) that rows_sim_nth [of D "n_d ax" "\<lambda>g. ts_row ax T g a" "\<lambda>g. ts_row ax T' g a"]
      by (auto simp: tensors_upto_def)
    then show ?thesis using that assms(3) by (simp add: ts_row_at)
  qed
  with q(1) T'(1) show ?thesis by blast
qed

lemma features_no_look_ahead_witness:
  "\<exists>p q T T'. load_pit f32 True sample_axes (\<lambda>_. [[td_row ''A'' ''20240102'']]) None = Ok p \<and>
     compute_ts \<lparr>single = f32, double = f64\<rparr> sample_axes p sample_meta [Close_raw, Limit_up] [1, 0] (new_tensor sample_axes 0) = Ok T \<and>
     load_pit f32 True sample_axes (known_tables sample_axes 0 (\<lambda>_. [[td_row ''A'' ''20240102'']])) None = Ok q \<and>
     compute_ts \<lparr>single = f32, double = f64\<rparr> sample_axes q sample_meta [Close_raw, Limit_up] [1, 0] (new_tensor sample_axes 0) = Ok T' \<and>
     tensor_at sample_axes T Limit_up 1 0 = tensor_at sample_axes T' Limit_up 1 0"
proof -
  let ?t = "\<lambda>_ :: string. [[td_row ''A'' ''20240102'']]" and ?ar = "\<lparr>single = f32, double = f64\<rparr>"
  have f: "\<forall>t. fits (?t t)" by (simp add: fits_def)
  have s: "set [1, 0] \<subseteq> {..<n_a sample_axes}" using sample_axes_ok(3) by simp
  obtain p where p: "load_pit f32 True sample_axes ?t None = Ok p" by (simp add: load_pit_def apply_meta_overlays_def)
  obtain T where T: "compute_ts ?ar sample_axes p sample_meta [Close_raw, Limit_up] [1, 0] (new_tensor sample_axes 0) = Ok T"
    by (simp add: compute_ts_def run_ts_node_def compute_ts_node.simps)
  from features_no_look_ahead [OF sample_axes_ok(1) f _ s p T, of 0] sample_axes_ok(2,3) p T show ?thesis by force
qed

end
