(* ===== verification/Cross.thy ===== *)
theory Cross
  imports Features "HOL-Library.Multiset"
begin

text \<open>
  The cross-section phase (\<open>cpp/src/feature/cs.cpp\<close>, \<open>cs.hpp\<close> and the factors under
  \<open>cpp/include/feature/def/factor\<close>): on one day, over all instruments, a factor is gathered, cut to
  the instruments that trade, winsorised, perhaps neutralised by industry and size, standardised,
  ranked to \<open>[0, 1]\<close>, filled with the mean and scattered back.

  A buffer of the day (\<open>std::span<float>\<close> of one value per instrument) is a list; the kernels that
  change a buffer in place return the new one.
\<close>

section \<open>The order of floats\<close>

text \<open>For sorting: the order of the floats that compare, with NaN at the end (the code never sorts a NaN).\<close>

fun fkey :: "fval \<Rightarrow> int \<times> real" where
  "fkey NInf = (0, 0)"
| "fkey (Fin r) = (1, r)"
| "fkey PInf = (2, 0)"
| "fkey NaN = (3, 0)"

lemma fkey_inject: "fkey x = fkey y \<longleftrightarrow> x = y"
  by (cases x; cases y) auto

instantiation fval :: linorder
begin

definition "x \<le> y \<longleftrightarrow> fst (fkey x) < fst (fkey y) \<or> fst (fkey x) = fst (fkey y) \<and> snd (fkey x) \<le> snd (fkey y)"

definition "x < y \<longleftrightarrow> fst (fkey x) < fst (fkey y) \<or> fst (fkey x) = fst (fkey y) \<and> snd (fkey x) < snd (fkey y)"

instance
proof
  fix x y z :: fval
  show "x < y \<longleftrightarrow> x \<le> y \<and> \<not> y \<le> x" by (auto simp: less_eq_fval_def less_fval_def)
  show "x \<le> x" by (simp add: less_eq_fval_def)
  show "x \<le> y \<Longrightarrow> y \<le> z \<Longrightarrow> x \<le> z" by (auto simp: less_eq_fval_def)
  show "x \<le> y \<Longrightarrow> y \<le> x \<Longrightarrow> x = y"
    by (auto simp: less_eq_fval_def fkey_inject [symmetric] prod_eq_iff)
  show "x \<le> y \<or> y \<le> x" by (auto simp: less_eq_fval_def)
qed

end

lemma fval_less_iff: "x \<noteq> NaN \<Longrightarrow> y \<noteq> NaN \<Longrightarrow> x < y \<longleftrightarrow> fless x y"
  by (cases x; cases y) (auto simp: less_fval_def)

lemma Fin_le [simp]: "Fin a \<le> Fin b \<longleftrightarrow> a \<le> b"
  by (simp add: less_eq_fval_def)

lemma Fin_less [simp]: "Fin a < Fin b \<longleftrightarrow> a < b"
  by (simp add: less_fval_def)

section \<open>Kernels\<close>

fun fabs :: "fval \<Rightarrow> fval" where
  "fabs (Fin r) = Fin \<bar>r\<bar>"
| "fabs NaN = NaN"
| "fabs _ = PInf"

definition fsqrt :: "(real \<Rightarrow> fval) \<Rightarrow> fval \<Rightarrow> fval" where
  "fsqrt rnd x = (case x of Fin r \<Rightarrow> if r < 0 then NaN else rnd (sqrt r) | PInf \<Rightarrow> PInf | _ \<Rightarrow> NaN)"

text \<open>\<open>nth_element\<close> puts the middle element in its place; the largest of those before it is the one before it
  in the sorted order.\<close>

definition median_in_place :: "arith \<Rightarrow> fval list \<Rightarrow> fval" where
  "median_in_place ar tmp =
     (let n = length tmp; s = sort tmp; m = s ! (n div 2) in
      if n mod 2 = 0 then fmul (single ar) (fadd (single ar) m (s ! (n div 2 - 1))) (Fin (1/2)) else m)"

definition clamp :: "fval \<Rightarrow> fval \<Rightarrow> fval \<Rightarrow> fval" where
  "clamp lo hi v = (if \<not> is_finite v then v else if fless v lo then lo else if fless hi v then hi else v)"

definition winsor_mad :: "arith \<Rightarrow> fval \<Rightarrow> fval list \<Rightarrow> fval list" where
  "winsor_mad ar k x =
     (let tmp = filter is_finite x in
      if length tmp < 2 then x
      else
        (let med = median_in_place ar tmp; dev = map (\<lambda>v. fabs (fsub (single ar) v med)) tmp;
             mad = median_in_place ar dev in
         if feq mad (Fin 0) then x
         else map (clamp (fsub (single ar) med (fmul (single ar) k mad)) (fadd (single ar) med (fmul (single ar) k mad))) x))"

definition fsum :: "(real \<Rightarrow> fval) \<Rightarrow> fval list \<Rightarrow> fval" where
  "fsum rnd xs = foldl (fadd rnd) (Fin 0) xs"

definition z_score :: "arith \<Rightarrow> fval list \<Rightarrow> fval list" where
  "z_score ar x =
     (let tmp = filter is_finite x; cnt = double ar (real (length tmp));
          mean = fdiv (double ar) (fsum (double ar) tmp) cnt;
          var = fsub (double ar) (fdiv (double ar) (fsum (double ar) (map (\<lambda>v. fmul (double ar) v v) tmp)) cnt)
                  (fmul (double ar) mean mean)
      in if length tmp < 2 \<or> fle var (Fin 0) then x
         else map (\<lambda>v. if is_finite v
             then narrow ar (fdiv (double ar) (fsub (double ar) v mean) (fsqrt (double ar) var)) else v) x)"

text \<open>The loop over the ties of the sorted positions: \<open>i\<close> positions are done, \<open>m\<close> is their number.\<close>

definition tie_rank :: "arith \<Rightarrow> nat \<Rightarrow> nat \<Rightarrow> nat \<Rightarrow> fval" where
  "tie_rank ar m i j =
     (if m > 1
      then fdiv (single ar) (fsub (single ar) (fmul (single ar) (single ar (real (i + 1 + j))) (Fin (1/2))) (Fin 1))
             (single ar (real (m - 1)))
      else Fin (1/2))"

definition fill_at :: "fval \<Rightarrow> nat list \<Rightarrow> fval list \<Rightarrow> fval list" where
  "fill_at v ks x = foldl (\<lambda>x k. x[k := v]) x ks"

function rank_loop :: "arith \<Rightarrow> nat \<Rightarrow> nat \<Rightarrow> nat list \<Rightarrow> fval list \<Rightarrow> fval list" where
  "rank_loop ar m i [] x = x"
| "rank_loop ar m i (k # ks) x =
     (let ties = takeWhile (\<lambda>l. feq (x ! l) (x ! k)) ks; j = i + 1 + length ties in
      rank_loop ar m j (dropWhile (\<lambda>l. feq (x ! l) (x ! k)) ks) (fill_at (tie_rank ar m i j) (k # ties) x))"
  by pat_completeness auto
termination
  by (relation "measure (\<lambda>(ar, m, i, ks, x). length ks)") (auto simp: less_Suc_eq_le length_dropWhile_le)

text \<open>\<open>std::sort\<close> may leave equal values in any order; the position lists that it can give are the sorted
  permutations of the positions of the finite values. The stable one stands for them here.\<close>

definition finite_positions :: "fval list \<Rightarrow> nat list" where
  "finite_positions x = filter (\<lambda>i. is_finite (x ! i)) [0..<length x]"

definition pct_rank :: "arith \<Rightarrow> fval list \<Rightarrow> fval list" where
  "pct_rank ar x = (let idx = sort_key (\<lambda>i. x ! i) (finite_positions x) in rank_loop ar (length idx) 0 idx x)"

text \<open>The percentages are \<open>float\<close>, their products with \<open>n - 1\<close> \<open>double\<close>.\<close>

definition winsorize_quantile :: "arith \<Rightarrow> fval \<Rightarrow> fval \<Rightarrow> fval list \<Rightarrow> fval list" where
  "winsorize_quantile ar lo_pct hi_pct x =
     (let tmp = sort (filter is_finite x); n = length tmp in
      if n < 2 then x
      else
        (let pos = (\<lambda>pct. val (fmul (double ar) pct (double ar (real (n - 1)))));
             lo_k = min (nat \<lfloor>pos lo_pct\<rfloor>) (n - 1); hi_k = min (nat \<lceil>pos hi_pct\<rceil>) (n - 1)
         in map (clamp (tmp ! lo_k) (tmp ! hi_k)) x))"

section \<open>Neutralisation\<close>

text \<open>\<open>static_cast<int>\<close> of a \<open>float\<close> cuts towards zero; what is not finite has no value (the machine gives
  the least integer, outside of the table).\<close>

definition trunc :: "fval \<Rightarrow> int" where
  "trunc v = (case v of Fin r \<Rightarrow> if r \<ge> 0 then \<lfloor>r\<rfloor> else \<lceil>r\<rceil> | _ \<Rightarrow> -1)"

definition industry_count :: nat where
  "industry_count = length SW2021_L1_NAMES"

text \<open>The group of an instrument, for those that take part.\<close>

definition group_of :: "fval \<Rightarrow> fval \<Rightarrow> fval \<Rightarrow> nat option" where
  "group_of y lm ind =
     (if \<not> is_finite y \<or> \<not> is_finite lm then None
      else let id = trunc ind in if id < 0 \<or> id \<ge> int industry_count then None else Some (nat id))"

record group_sums =
  gs_y :: "fval list"
  gs_l :: "fval list"
  gs_cnt :: "fval list"

definition add_sample :: "arith \<Rightarrow> group_sums \<Rightarrow> fval \<times> fval \<times> fval \<Rightarrow> group_sums" where
  "add_sample ar g s =
     (case s of (y, lm, ind) \<Rightarrow>
        case group_of y lm ind of None \<Rightarrow> g
        | Some i \<Rightarrow>
            \<lparr>gs_y = (gs_y g)[i := fadd (double ar) (gs_y g ! i) y], gs_l = (gs_l g)[i := fadd (double ar) (gs_l g ! i) lm],
             gs_cnt = (gs_cnt g)[i := fadd (double ar) (gs_cnt g ! i) (Fin 1)]\<rparr>)"

definition zero_sums :: group_sums where
  "zero_sums = (let zero = replicate industry_count (Fin 0) in \<lparr>gs_y = zero, gs_l = zero, gs_cnt = zero\<rparr>)"

definition group_means :: "arith \<Rightarrow> fval list \<Rightarrow> fval list \<Rightarrow> fval list" where
  "group_means ar s cnt = map2 (\<lambda>s c. if fless (Fin 0) c then narrow ar (fdiv (double ar) s c) else Fin 0) s cnt"

definition add_moments :: "arith \<Rightarrow> group_sums \<Rightarrow> fval list \<Rightarrow> fval list \<Rightarrow> fval \<times> fval \<Rightarrow> fval \<times> fval \<times> fval \<Rightarrow> fval \<times> fval" where
  "add_moments ar g my ml acc s =
     (case s of (y, lm, ind) \<Rightarrow>
        case group_of y lm ind of None \<Rightarrow> acc
        | Some i \<Rightarrow>
            if fle (gs_cnt g ! i) (Fin 0) then acc
            else let ydm = fsub (double ar) y (my ! i); ldm = fsub (double ar) lm (ml ! i) in
              (fadd (double ar) (fst acc) (fmul (double ar) ydm ldm), fadd (double ar) (snd acc) (fmul (double ar) ldm ldm)))"

definition residual :: "arith \<Rightarrow> group_sums \<Rightarrow> fval list \<Rightarrow> fval list \<Rightarrow> fval \<Rightarrow> fval \<times> fval \<times> fval \<Rightarrow> fval" where
  "residual ar g my ml b s =
     (case s of (y, lm, ind) \<Rightarrow>
        case group_of y lm ind of None \<Rightarrow> NaN
        | Some i \<Rightarrow>
            if fle (gs_cnt g ! i) (Fin 0) then NaN
            else fsub (single ar) (fsub (single ar) y (my ! i)) (fmul (single ar) b (fsub (single ar) lm (ml ! i))))"

definition neutralize :: "arith \<Rightarrow> fval list \<Rightarrow> fval list \<Rightarrow> fval list \<Rightarrow> fval list" where
  "neutralize ar y logmc industry =
     (let samples = zip y (zip logmc industry);
          g = foldl (add_sample ar) zero_sums samples;
          my = group_means ar (gs_y g) (gs_cnt g); ml = group_means ar (gs_l g) (gs_cnt g);
          (num, den) = foldl (add_moments ar g my ml) (Fin 0, Fin 0) samples;
          b = (if fless (Fin 0) den then narrow ar (fdiv (double ar) num den) else Fin 0)
      in map (residual ar g my ml b) samples)"

section \<open>The two pipelines\<close>

definition mask_offmarket :: "axes \<Rightarrow> nat \<Rightarrow> tensor \<Rightarrow> fval list \<Rightarrow> fval list" where
  "mask_offmarket ax d T y =
     (let y = map2 (\<lambda>v t. if \<not> is_finite t then NaN else v) y (gather_cs_row ax T List_age d) in
      map2 (\<lambda>v t. if is_finite t then NaN else v) y (gather_cs_row ax T Delist_age d))"

definition fill_mean :: "arith \<Rightarrow> fval list \<Rightarrow> fval list" where
  "fill_mean ar buf =
     (let tmp = filter is_finite buf in
      if tmp = [] then map (\<lambda>_. Fin 0) buf
      else let mean = narrow ar (fdiv (double ar) (fsum (double ar) tmp) (double ar (real (length tmp)))) in
        map (\<lambda>v. if is_finite v then v else mean) buf)"

definition factor_pipeline :: "arith \<Rightarrow> axes \<Rightarrow> nat \<Rightarrow> node \<Rightarrow> tensor \<Rightarrow> fval list \<Rightarrow> tensor" where
  "factor_pipeline ar ax d dst T buf =
     scatter_cs_row ax T dst d
       (fill_mean ar (pct_rank ar (z_score ar (winsor_mad ar (Fin 3) (mask_offmarket ax d T buf)))))"

definition log_mcap :: "arith \<Rightarrow> fval \<Rightarrow> fval" where
  "log_mcap ar v = (if \<not> is_finite v \<or> fle v (Fin 0) then NaN else fapply (single ar) ln v)"

definition neutral_pipeline :: "arith \<Rightarrow> axes \<Rightarrow> nat \<Rightarrow> node \<Rightarrow> tensor \<Rightarrow> fval list \<Rightarrow> tensor" where
  "neutral_pipeline ar ax d dst T y =
     (let y = winsorize_quantile ar (single ar (1/100)) (single ar (99/100)) (mask_offmarket ax d T y);
          lm = map (log_mcap ar) (gather_cs_row ax T Mcap_raw d);
          ind = gather_cs_row ax T Industry_l1 d
      in scatter_cs_row ax T dst d (fill_mean ar (pct_rank ar (z_score ar (neutralize ar y lm ind)))))"

section \<open>The factors\<close>

definition inverse_of :: "arith \<Rightarrow> fval \<Rightarrow> fval" where
  "inverse_of ar v = (if \<not> is_finite v \<or> feq v (Fin 0) then NaN else fdiv (single ar) (Fin 1) v)"

definition cs_bp_ttm3 :: "arith \<Rightarrow> axes \<Rightarrow> nat \<Rightarrow> tensor \<Rightarrow> tensor" where
  "cs_bp_ttm3 ar ax d T = neutral_pipeline ar ax d Bp_ttm3 T (map (inverse_of ar) (gather_cs_row ax T Pb_raw d))"

definition cs_cp_ttm12 :: "arith \<Rightarrow> axes \<Rightarrow> nat \<Rightarrow> tensor \<Rightarrow> tensor" where
  "cs_cp_ttm12 ar ax d T = neutral_pipeline ar ax d Cp_ttm12 T (map (inverse_of ar) (gather_cs_row ax T Pcf_raw d))"

definition cs_ep_ttm12 :: "arith \<Rightarrow> axes \<Rightarrow> nat \<Rightarrow> tensor \<Rightarrow> tensor" where
  "cs_ep_ttm12 ar ax d T = neutral_pipeline ar ax d Ep_ttm12 T (map (inverse_of ar) (gather_cs_row ax T Pe_raw d))"

definition cs_sp_ttm12 :: "arith \<Rightarrow> axes \<Rightarrow> nat \<Rightarrow> tensor \<Rightarrow> tensor" where
  "cs_sp_ttm12 ar ax d T = neutral_pipeline ar ax d Sp_ttm12 T (map (inverse_of ar) (gather_cs_row ax T Ps_raw d))"

definition cs_dy_ttm12 :: "arith \<Rightarrow> axes \<Rightarrow> nat \<Rightarrow> tensor \<Rightarrow> tensor" where
  "cs_dy_ttm12 ar ax d T = neutral_pipeline ar ax d Dy_ttm12 T (gather_cs_row ax T Dy_raw d)"

definition cs_roa_ttm12 :: "arith \<Rightarrow> axes \<Rightarrow> nat \<Rightarrow> tensor \<Rightarrow> tensor" where
  "cs_roa_ttm12 ar ax d T = neutral_pipeline ar ax d Roa_ttm12 T (gather_cs_row ax T Roa_raw d)"

definition cs_roe_ttm12 :: "arith \<Rightarrow> axes \<Rightarrow> nat \<Rightarrow> tensor \<Rightarrow> tensor" where
  "cs_roe_ttm12 ar ax d T = neutral_pipeline ar ax d Roe_ttm12 T (gather_cs_row ax T Roe_raw d)"

definition cs_cffoa_ttm12 :: "arith \<Rightarrow> axes \<Rightarrow> nat \<Rightarrow> tensor \<Rightarrow> tensor" where
  "cs_cffoa_ttm12 ar ax d T = factor_pipeline ar ax d Cffoa_ttm12 T (gather_cs_row ax T Cffoa_raw d)"

definition cs_close :: "arith \<Rightarrow> axes \<Rightarrow> nat \<Rightarrow> tensor \<Rightarrow> tensor" where
  "cs_close ar ax d T = factor_pipeline ar ax d Close T (gather_cs_row ax T Close_raw d)"

definition cs_fmcap :: "arith \<Rightarrow> axes \<Rightarrow> nat \<Rightarrow> tensor \<Rightarrow> tensor" where
  "cs_fmcap ar ax d T = factor_pipeline ar ax d Fmcap T (gather_cs_row ax T Fmcap_raw d)"

definition cs_mcap :: "arith \<Rightarrow> axes \<Rightarrow> nat \<Rightarrow> tensor \<Rightarrow> tensor" where
  "cs_mcap ar ax d T = factor_pipeline ar ax d Mcap T (gather_cs_row ax T Mcap_raw d)"

definition cs_mr_bal :: "arith \<Rightarrow> axes \<Rightarrow> nat \<Rightarrow> tensor \<Rightarrow> tensor" where
  "cs_mr_bal ar ax d T = factor_pipeline ar ax d Mr_bal T (gather_cs_row ax T Mr_bal_raw d)"

definition cs_ms_bal :: "arith \<Rightarrow> axes \<Rightarrow> nat \<Rightarrow> tensor \<Rightarrow> tensor" where
  "cs_ms_bal ar ax d T = factor_pipeline ar ax d Ms_bal T (gather_cs_row ax T Ms_bal_raw d)"

text \<open>The dispatch through the function pointer of the node; a time-series node has none.\<close>

definition run_cs_node :: "arith \<Rightarrow> axes \<Rightarrow> nat \<Rightarrow> tensor \<Rightarrow> node \<Rightarrow> (feature_error, tensor) outcome" where
  "run_cs_node ar ax d T f =
     (case f of
        Bp_ttm3 \<Rightarrow> Ok (cs_bp_ttm3 ar ax d T)
      | Cffoa_ttm12 \<Rightarrow> Ok (cs_cffoa_ttm12 ar ax d T)
      | Close \<Rightarrow> Ok (cs_close ar ax d T)
      | Cp_ttm12 \<Rightarrow> Ok (cs_cp_ttm12 ar ax d T)
      | Dy_ttm12 \<Rightarrow> Ok (cs_dy_ttm12 ar ax d T)
      | Ep_ttm12 \<Rightarrow> Ok (cs_ep_ttm12 ar ax d T)
      | Fmcap \<Rightarrow> Ok (cs_fmcap ar ax d T)
      | Mcap \<Rightarrow> Ok (cs_mcap ar ax d T)
      | Mr_bal \<Rightarrow> Ok (cs_mr_bal ar ax d T)
      | Ms_bal \<Rightarrow> Ok (cs_ms_bal ar ax d T)
      | Roa_ttm12 \<Rightarrow> Ok (cs_roa_ttm12 ar ax d T)
      | Roe_ttm12 \<Rightarrow> Ok (cs_roe_ttm12 ar ax d T)
      | Sp_ttm12 \<Rightarrow> Ok (cs_sp_ttm12 ar ax d T)
      | _ \<Rightarrow> Fail NullCompute)"

definition compute_cs :: "arith \<Rightarrow> axes \<Rightarrow> node list \<Rightarrow> nat list \<Rightarrow> tensor \<Rightarrow> (feature_error, tensor) outcome" where
  "compute_cs ar ax cs_order schedule T = fold_ok (\<lambda>T d. fold_ok (run_cs_node ar ax d) T cs_order) T schedule"


section \<open>Bounds\<close>

text \<open>The arithmetic of the machine: both formats round.\<close>

definition arith_ok :: "arith \<Rightarrow> bool" where
  "arith_ok ar \<longleftrightarrow> rounding (single ar) \<and> rounding (double ar)"

definition in_unit :: "fval \<Rightarrow> bool" where
  "in_unit v \<longleftrightarrow> (case v of Fin r \<Rightarrow> 0 \<le> r \<and> r \<le> 1 | _ \<Rightarrow> False)"

lemma in_unit_iff: "in_unit v \<longleftrightarrow> (\<exists>r. v = Fin r \<and> 0 \<le> r \<and> r \<le> 1)"
  by (cases v) (auto simp: in_unit_def)

lemma in_unit_finite: "in_unit v \<Longrightarrow> is_finite v"
  by (auto simp: in_unit_iff)

lemma tie_rank_unit:
  assumes "arith_ok ar" "i < j" "j \<le> m" "m \<le> 2 ^ 23"
  shows "in_unit (tie_rank ar m i j)"
proof (cases "m > 1")
  case True
  have R: "rounding (single ar)" using assms(1) by (simp add: arith_ok_def)
  have a: "single ar (real (i + 1 + j)) = Fin (real (i + 1 + j))" "single ar (real (m - 1)) = Fin (real (m - 1))"
    using assms by (intro rounding.rnd_nat [OF R], simp)+
  obtain r1 where r1: "single ar (real (i + 1 + j) * (1/2)) = Fin r1" "1 \<le> r1" "r1 \<le> real m"
    using rounding.rnd_between [OF R, of 1 "real (i + 1 + j) * (1/2)" m] assms by auto
  have m24: "m - 1 \<le> 2 ^ 24" by (rule order.trans [OF diff_le_self]) (use assms(4) in simp)
  obtain r2 where r2: "single ar (r1 + - 1) = Fin r2" "0 \<le> r2" "r2 \<le> real (m - 1)"
    using rounding.rnd_between [OF R, of 0 "r1 + - 1" "m - 1"] m24 True r1(2,3) by (auto simp: of_nat_diff)
  obtain r3 where "single ar (r2 / real (m - 1)) = Fin r3" "0 \<le> r3" "r3 \<le> 1"
    using rounding.rnd_unit [OF R, of "r2 / real (m - 1)"] r2 True by (auto simp: divide_le_eq)
  then show ?thesis using True by (simp only: tie_rank_def a fmul.simps r1 fsub_def fneg.simps fadd.simps r2 fdiv.simps in_unit_def) simp
qed (simp add: tie_rank_def in_unit_def)

lemma length_fill_at [simp]: "length (fill_at v ks x) = length x"
  by (induction ks arbitrary: x) (simp_all add: fill_at_def)

lemma fill_at_nth: "k < length x \<Longrightarrow> fill_at v ks x ! k = (if k \<in> set ks then v else x ! k)"
  by (induction ks arbitrary: x) (auto simp: fill_at_def nth_list_update)

lemma length_rank_loop [simp]: "length (rank_loop ar m i ks x) = length x"
  by (induction ar m i ks x rule: rank_loop.induct) (simp_all add: Let_def)

lemma sorted_ties:
  assumes "sorted (map f (l # ks))"
  shows "\<forall>p\<in>set (takeWhile (\<lambda>p. f p = f l) ks). f p = f l" "\<forall>p\<in>set (dropWhile (\<lambda>p. f p = f l) ks). f l < (f p :: 'v :: linorder)"
proof -
  show "\<forall>p\<in>set (takeWhile (\<lambda>p. f p = f l) ks). f p = f l" by (auto dest: set_takeWhileD)
  let ?r = "dropWhile (\<lambda>p. f p = f l) ks"
  have s: "sorted (map f ?r)" using assms sorted_dropWhile_map [of f ks] by simp
  show "\<forall>p\<in>set ?r. f l < f p"
  proof (cases ?r)
    case (Cons h r)
    have "f h \<noteq> f l" using hd_dropWhile [of "\<lambda>p. f p = f l" ks] by (simp add: Cons)
    moreover have "h \<in> set ks" by (rule set_dropWhileD [of h "\<lambda>p. f p = f l"]) (simp add: Cons)
    ultimately have "f l < f h" using assms by auto
    with s show ?thesis unfolding Cons by auto
  next
    case Nil
    show ?thesis unfolding Nil by simp
  qed
qed

text \<open>The loop over sorted positions gives each the rank that counts the smaller and the equal values.\<close>

lemma feq_finite: "is_finite x \<Longrightarrow> feq x y \<longleftrightarrow> x = y"
  by (cases x) auto

lemma rank_loop_spec:
  "distinct ks \<Longrightarrow> sorted (map (\<lambda>k. x ! k) ks) \<Longrightarrow> \<forall>k\<in>set ks. k < length x \<and> is_finite (x ! k) \<Longrightarrow> k < length x \<Longrightarrow>
     rank_loop ar m i ks x ! k = (if k \<in> set ks
       then tie_rank ar m (i + length (filter (\<lambda>l. x ! l < x ! k) ks)) (i + length (filter (\<lambda>l. x ! l \<le> x ! k) ks))
       else x ! k)"
proof (induction ar m i ks x rule: rank_loop.induct)
  case (2 ar m i l ks x)
  let ?P = "\<lambda>p. feq (x ! p) (x ! l)"
  define ties rest where "ties = takeWhile ?P ks" and "rest = dropWhile ?P ks"
  have P: "takeWhile ?P ks = takeWhile (\<lambda>p. x ! p = x ! l) ks \<and> dropWhile ?P ks = dropWhile (\<lambda>p. x ! p = x ! l) ks"
    using 2(4) by (auto intro!: takeWhile_cong dropWhile_cong simp: feq_finite)
  have ks: "ks = ties @ rest" by (simp add: ties_def rest_def)
  have e: "\<forall>p\<in>set ties. x ! p = x ! l" "\<forall>p\<in>set rest. x ! l < x ! p"
    unfolding ties_def rest_def P [THEN conjunct1] P [THEN conjunct2] by (rule sorted_ties [OF 2(3)])+
  define j where "j = i + 1 + length ties"
  define x' where "x' = fill_at (tie_rank ar m i j) (l # ties) x"
  have apart: "p \<notin> set (l # ties)" if "p \<in> set rest" for p using that 2(2) ks by auto
  have x': "x' ! p = x ! p" if "p \<in> set rest" for p
    using apart [OF that] that 2(4) ks by (simp add: x'_def fill_at_nth)
  have "map (\<lambda>k. x' ! k) rest = map (\<lambda>k. x ! k) rest" using x' by simp
  moreover have "sorted (map (\<lambda>k. x ! k) rest)" unfolding rest_def using 2(3) by (simp add: sorted_dropWhile_map)
  ultimately have s: "sorted (map (\<lambda>k. x' ! k) rest)" by (simp only:)
  have f: "distinct rest" "\<forall>k\<in>set rest. k < length x' \<and> is_finite (x' ! k)" "k < length x'"
    using 2(2,4,5) x' by (auto simp: ks) (simp_all add: x'_def)
  note IH = 2(1) [OF refl refl, folded ties_def rest_def, folded j_def, folded x'_def, OF f(1) s f(2,3)]
  have step: "rank_loop ar m i (l # ks) x = rank_loop ar m j rest x'"
    by (simp add: Let_def j_def ties_def rest_def x'_def)
  show ?case
  proof (cases "k \<in> set rest")
    case True
    then have k: "x ! l < x ! k" using e(2) by blast
    have "filter (\<lambda>p. x' ! p < x' ! k) rest = filter (\<lambda>p. x ! p < x ! k) rest"
      "filter (\<lambda>p. x' ! p \<le> x' ! k) rest = filter (\<lambda>p. x ! p \<le> x ! k) rest"
      using x' True by (auto intro!: filter_cong)
    moreover have "filter (\<lambda>p. x ! p < x ! k) ties = ties" "filter (\<lambda>p. x ! p \<le> x ! k) ties = ties"
      using e(1) k by (auto simp: filter_id_conv)
    ultimately show ?thesis unfolding step using IH True k by (simp add: j_def ks less_imp_le add.assoc)
  next
    case False
    show ?thesis
    proof (cases "k = l \<or> k \<in> set ties")
      case True
      then have k: "x ! k = x ! l" using e(1) by auto
      have km: "k \<in> set (l # ks)" and v: "x' ! k = tie_rank ar m i j" using True 2(5) by (auto simp: ks x'_def fill_at_nth)
      have c: "filter (\<lambda>p. x ! p < x ! k) (l # ks) = []" "filter (\<lambda>p. x ! p \<le> x ! k) (l # ks) = l # ties"
        unfolding k using e ks by (auto simp: filter_empty_conv filter_id_conv)
      show ?thesis unfolding step IH if_not_P [OF False] if_P [OF km] v c by (simp add: j_def)
    next
      case other: False
      then have km: "k \<notin> set (l # ks)" and v: "x' ! k = x ! k" using False 2(5) by (auto simp: ks x'_def fill_at_nth)
      show ?thesis unfolding step IH if_not_P [OF False] if_not_P [OF km] v ..
    qed
  qed
qed simp

lemma finite_positions_set: "k \<in> set (finite_positions x) \<longleftrightarrow> k < length x \<and> is_finite (x ! k)"
  by (auto simp: finite_positions_def)

lemma length_kernels [simp]:
  "length (winsor_mad ar k x) = length x" "length (z_score ar x) = length x" "length (pct_rank ar x) = length x"
  "length (winsorize_quantile ar lo hi x) = length x" "length (fill_mean ar x) = length x"
  by (simp_all add: winsor_mad_def z_score_def pct_rank_def winsorize_quantile_def fill_mean_def Let_def)

text \<open>Ranks are in \<open>[0, 1]\<close>.\<close>

lemma length_finite_positions: "length (finite_positions x) \<le> length x"
  unfolding finite_positions_def by (rule order.trans [OF length_filter_le]) simp

lemma pct_rank_cases:
  assumes "arith_ok ar" "length x \<le> 2 ^ 23" "k < length x"
  shows "if is_finite (x ! k) then in_unit (pct_rank ar x ! k) else pct_rank ar x ! k = x ! k"
proof -
  let ?idx = "sort_key (\<lambda>i. x ! i) (finite_positions x)"
  let ?L = "length (filter (\<lambda>l. x ! l < x ! k) ?idx)" and ?M = "length (filter (\<lambda>l. x ! l \<le> x ! k) ?idx)"
  have spec: "pct_rank ar x ! k = (if k \<in> set ?idx then tie_rank ar (length ?idx) (0 + ?L) (0 + ?M) else x ! k)"
    unfolding pct_rank_def Let_def
    by (rule rank_loop_spec) (simp_all add: finite_positions_set finite_positions_def assms(3))
  show ?thesis
  proof (cases "k \<in> set ?idx")
    case True
    have "filter (\<lambda>l. x ! l < x ! k) ?idx = filter (\<lambda>l. x ! l < x ! k) (filter (\<lambda>l. x ! l \<le> x ! k) ?idx)"
      by (auto intro!: filter_cong simp: conj_commute)
    then have "?L < ?M" using True length_filter_less [of k "filter (\<lambda>l. x ! l \<le> x ! k) ?idx" "\<lambda>l. x ! l < x ! k"]
      by (simp del: filter_filter)
    moreover have "?M \<le> length ?idx" by (rule length_filter_le)
    moreover have "length ?idx \<le> 2 ^ 23" using length_finite_positions [of x] assms(2) by simp
    ultimately show ?thesis using tie_rank_unit [OF assms(1), of ?L ?M "length ?idx"] True spec by (simp add: finite_positions_set)
  next
    case False
    with spec assms(3) show ?thesis by (simp add: finite_positions_set)
  qed
qed

lemma pct_rank_unit:
  assumes "arith_ok ar" "length x \<le> 2 ^ 23" "k < length x"
  shows "in_unit (pct_rank ar x ! k) \<or> \<not> is_finite (pct_rank ar x ! k)"
  using pct_rank_cases [OF assms] by (simp split: if_splits)

lemma fsum_between:
  assumes "rounding rnd" "\<forall>v\<in>set xs. in_unit v" "length xs \<le> 2 ^ 24"
  shows "\<exists>r. fsum rnd xs = Fin r \<and> 0 \<le> r \<and> r \<le> real (length xs)"
  using assms(2,3)
proof (induction xs rule: rev_induct)
  case (snoc v xs)
  then obtain r where r: "fsum rnd xs = Fin r" "0 \<le> r" "r \<le> real (length xs)" by auto
  obtain s where s: "v = Fin s" "0 \<le> s" "s \<le> 1" using snoc.prems(1) by (auto simp: in_unit_iff)
  have "0 \<le> r + s" "r + s \<le> real (length (xs @ [v]))" using r s by simp_all
  from rounding.rnd_between [OF assms(1), of 0, OF _ this(2) snoc.prems(2)] this(1)
  show ?case using r(1) s(1) by (simp add: fsum_def)
qed (simp add: fsum_def)

lemma narrow_unit: "arith_ok ar \<Longrightarrow> in_unit v \<Longrightarrow> in_unit (narrow ar v)"
  using rounding.rnd_unit [of "single ar"] by (auto simp: arith_ok_def in_unit_iff narrow_def)

lemma fill_mean_unit:
  assumes "arith_ok ar" "length x \<le> 2 ^ 23" "\<forall>v\<in>set x. in_unit v \<or> \<not> is_finite v"
  shows "\<forall>v\<in>set (fill_mean ar x). in_unit v"
proof -
  let ?t = "filter is_finite x"
  have R: "rounding (double ar)" using assms(1) by (simp add: arith_ok_def)
  have u: "\<forall>v\<in>set ?t. in_unit v" using assms(3) by auto
  have "length ?t \<le> 2 ^ 23" by (rule order.trans [OF length_filter_le assms(2)])
  then have l: "length ?t \<le> 2 ^ 24" by simp
  obtain r where r: "fsum (double ar) ?t = Fin r" "0 \<le> r" "r \<le> real (length ?t)" using fsum_between [OF R u l] by blast
  have "in_unit (narrow ar (fdiv (double ar) (fsum (double ar) ?t) (double ar (real (length ?t)))))" if "?t \<noteq> []"
  proof (rule narrow_unit [OF assms(1)])
    from that have pos: "0 < real (length ?t)" by simp
    obtain q where "double ar (r / real (length ?t)) = Fin q" "0 \<le> q" "q \<le> 1"
      using rounding.rnd_unit [OF R, of "r / real (length ?t)"] r(2,3) pos by (auto simp: divide_le_eq)
    then show "in_unit (fdiv (double ar) (fsum (double ar) ?t) (double ar (real (length ?t))))"
      using pos by (simp only: r rounding.rnd_nat [OF R l] fdiv.simps in_unit_def) simp
  qed
  then show ?thesis using u assms(3) by (auto simp: fill_mean_def Let_def in_unit_def [of "Fin 0"])
qed

lemma ranked_unit:
  assumes "arith_ok ar" "length x \<le> 2 ^ 23"
  shows "\<forall>v\<in>set (fill_mean ar (pct_rank ar x)). in_unit v"
proof (rule fill_mean_unit [OF assms(1)])
  show "\<forall>v\<in>set (pct_rank ar x). in_unit v \<or> \<not> is_finite v"
  proof
    fix v assume "v \<in> set (pct_rank ar x)"
    then obtain k where "k < length x" "v = pct_rank ar x ! k" by (auto simp: in_set_conv_nth)
    with pct_rank_unit [OF assms] show "in_unit v \<or> \<not> is_finite v" by simp
  qed
qed (use assms(2) in simp)

section \<open>A day of a factor\<close>

text \<open>What every factor does with the tensor: it scatters a row that ends with ranking and filling.\<close>

lemma length_mask [simp]: "length (mask_offmarket ax d T y) = min (length y) (n_a ax)"
  by (simp add: mask_offmarket_def Let_def length_gather)

definition ranked_row :: "arith \<Rightarrow> axes \<Rightarrow> fval list \<Rightarrow> bool" where
  "ranked_row ar ax r \<longleftrightarrow> (\<exists>x. length x = n_a ax \<and> r = fill_mean ar (pct_rank ar x))"

lemma length_neutralize [simp]: "length (neutralize ar y lm ind) = min (length y) (min (length lm) (length ind))"
  by (simp add: neutralize_def Let_def split_def)

lemma pipelines_scatter:
  assumes "length buf = n_a ax"
  shows "\<exists>r. ranked_row ar ax r \<and> factor_pipeline ar ax d f T buf = scatter_cs_row ax T f d r"
    "\<exists>r. ranked_row ar ax r \<and> neutral_pipeline ar ax d f T buf = scatter_cs_row ax T f d r"
proof -
  have "length (z_score ar (winsor_mad ar (Fin 3) (mask_offmarket ax d T buf))) = n_a ax" using assms by simp
  then show "\<exists>r. ranked_row ar ax r \<and> factor_pipeline ar ax d f T buf = scatter_cs_row ax T f d r"
    unfolding ranked_row_def factor_pipeline_def by blast
  have "length (z_score ar (neutralize ar (winsorize_quantile ar (single ar (1/100)) (single ar (99/100)) (mask_offmarket ax d T buf))
      (map (log_mcap ar) (gather_cs_row ax T Mcap_raw d)) (gather_cs_row ax T Industry_l1 d))) = n_a ax"
    using assms by (simp add: length_gather)
  then show "\<exists>r. ranked_row ar ax r \<and> neutral_pipeline ar ax d f T buf = scatter_cs_row ax T f d r"
    unfolding ranked_row_def neutral_pipeline_def Let_def by blast
qed

lemma run_cs_node_scatter:
  assumes "run_cs_node ar ax d T f = Ok T'"
  shows "\<exists>r. ranked_row ar ax r \<and> T' = scatter_cs_row ax T f d r"
proof -
  have f: "\<exists>r. ranked_row ar ax r \<and> factor_pipeline ar ax d f T (gather_cs_row ax T g d) = scatter_cs_row ax T f d r"
    "\<exists>r. ranked_row ar ax r \<and> neutral_pipeline ar ax d f T (gather_cs_row ax T g d) = scatter_cs_row ax T f d r"
    "\<exists>r. ranked_row ar ax r \<and> neutral_pipeline ar ax d f T (map (inverse_of ar) (gather_cs_row ax T g d)) = scatter_cs_row ax T f d r" for g
    by (rule pipelines_scatter, simp add: length_gather)+
  show ?thesis
    using assms unfolding run_cs_node_def cs_bp_ttm3_def cs_cffoa_ttm12_def cs_close_def cs_cp_ttm12_def
      cs_dy_ttm12_def cs_ep_ttm12_def cs_fmcap_def cs_mcap_def cs_mr_bal_def cs_ms_bal_def cs_roa_ttm12_def cs_roe_ttm12_def
      cs_sp_ttm12_def
    by (cases f) (simp_all only: node.case outcome.distinct outcome.inject f, (use f in metis)+)
qed


definition unit_day :: "axes \<Rightarrow> tensor \<Rightarrow> node \<Rightarrow> nat \<Rightarrow> bool" where
  "unit_day ax T f d \<longleftrightarrow> (\<forall>v\<in>set (gather_cs_row ax T f d). in_unit v)"

lemma length_ranked_row: "ranked_row ar ax r \<Longrightarrow> length r = n_a ax"
  by (auto simp: ranked_row_def)

lemma run_cs_node_unit:
  assumes "arith_ok ar" "n_a ax \<le> 2 ^ 23" "tensor_ok ax T" "d < n_d ax" "run_cs_node ar ax d T f = Ok T'"
  shows "tensor_ok ax T'" "unit_day ax T' f d" "e < n_d ax \<Longrightarrow> unit_day ax T g e \<Longrightarrow> unit_day ax T' g e"
proof -
  obtain r where r: "ranked_row ar ax r" "T' = scatter_cs_row ax T f d r" using run_cs_node_scatter [OF assms(5)] by blast
  note g = gather_scatter [OF assms(3,4) _ length_ranked_row [OF r(1)]]
  obtain x where x: "length x = n_a ax" "r = fill_mean ar (pct_rank ar x)" using r(1) by (auto simp: ranked_row_def)
  have u: "\<forall>v\<in>set r. in_unit v" unfolding x(2) by (rule ranked_unit [OF assms(1)]) (simp only: x(1) assms(2))
  show "tensor_ok ax T'" unfolding r(2) by (rule tensor_ok_scatter [OF assms(3)])
  show "unit_day ax T' f d" using u g [OF assms(4)] by (simp add: unit_day_def r(2))
  show "unit_day ax T g e \<Longrightarrow> unit_day ax T' g e" if "e < n_d ax" using u g [OF that] by (simp add: unit_day_def r(2))
qed

lemma cs_day_unit:
  assumes "arith_ok ar" "n_a ax \<le> 2 ^ 23" "d < n_d ax"
  shows "tensor_ok ax T \<Longrightarrow> fold_ok (run_cs_node ar ax d) T order = Ok T' \<Longrightarrow>
    tensor_ok ax T' \<and> (\<forall>f\<in>set order. unit_day ax T' f d) \<and> (\<forall>g e. e < n_d ax \<and> unit_day ax T g e \<longrightarrow> unit_day ax T' g e)"
proof (induction order arbitrary: T)
  case (Cons f order)
  then obtain U where U: "run_cs_node ar ax d T f = Ok U" "fold_ok (run_cs_node ar ax d) U order = Ok T'"
    by (cases "run_cs_node ar ax d T f") auto
  note u = run_cs_node_unit [OF assms(1,2) Cons.prems(1) assms(3) U(1)]
  from Cons.IH [OF u(1) U(2)] u(2,3) assms(3) show ?case by auto
qed auto

lemma cs_days_unit:
  assumes "arith_ok ar" "n_a ax \<le> 2 ^ 23"
  shows "set schedule \<subseteq> {..<n_d ax} \<Longrightarrow> tensor_ok ax T \<Longrightarrow> compute_cs ar ax order schedule T = Ok T' \<Longrightarrow>
    tensor_ok ax T' \<and> (\<forall>f\<in>set order. \<forall>d\<in>set schedule. unit_day ax T' f d) \<and>
    (\<forall>g e. e < n_d ax \<and> unit_day ax T g e \<longrightarrow> unit_day ax T' g e)"
proof (induction schedule arbitrary: T)
  case (Cons d schedule)
  then obtain U where U: "fold_ok (run_cs_node ar ax d) T order = Ok U" "compute_cs ar ax order schedule U = Ok T'"
    by (cases "fold_ok (run_cs_node ar ax d) T order") (auto simp: compute_cs_def)
  have d: "d < n_d ax" using Cons.prems(1) by simp
  note u = cs_day_unit [OF assms d Cons.prems(2) U(1)]
  have "set schedule \<subseteq> {..<n_d ax}" using Cons.prems(1) by simp
  from Cons.IH [OF this _ U(2)] u d show ?case by auto
qed (simp add: compute_cs_def)

section \<open>Neutralisation in exact arithmetic\<close>

abbreviation exact_arith :: arith where "exact_arith \<equiv> \<lparr>single = Fin, double = Fin\<rparr>"

definition part_of :: "fval \<times> fval \<times> fval \<Rightarrow> nat option" where
  "part_of s = (case s of (y, lm, ind) \<Rightarrow> group_of y lm ind)"

definition part_sum :: "(fval \<times> fval \<times> fval \<Rightarrow> real) \<Rightarrow> nat \<Rightarrow> (fval \<times> fval \<times> fval) list \<Rightarrow> real" where
  "part_sum f i ss = (\<Sum>s\<leftarrow>ss. if part_of s = Some i then f s else 0)"

abbreviation y_of :: "fval \<times> fval \<times> fval \<Rightarrow> real" where "y_of s \<equiv> val (fst s)"
abbreviation l_of :: "fval \<times> fval \<times> fval \<Rightarrow> real" where "l_of s \<equiv> val (fst (snd s))"

lemma part_of_Some:
  "part_of s = Some i \<Longrightarrow> i < industry_count \<and> is_finite (fst s) \<and> is_finite (fst (snd s))"
  by (cases s) (auto simp: part_of_def group_of_def Let_def split: if_splits)

lemma exact_val:
  "is_finite x \<Longrightarrow> fadd Fin (Fin a) x = Fin (a + val x)" "is_finite x \<Longrightarrow> fsub Fin x (Fin a) = Fin (val x - a)"
  by (cases x; simp add: fsub_def)+

lemma part_sum_snoc: "part_sum f i (ss @ [s]) = part_sum f i ss + (if part_of s = Some i then f s else 0)"
  by (simp add: part_sum_def)

lemma add_sample_sums:
  "let g = foldl (add_sample exact_arith) zero_sums ss in
     gs_y g = map (\<lambda>i. Fin (part_sum y_of i ss)) [0..<industry_count] \<and>
     gs_l g = map (\<lambda>i. Fin (part_sum l_of i ss)) [0..<industry_count] \<and>
     gs_cnt g = map (\<lambda>i. Fin (part_sum (\<lambda>_. 1) i ss)) [0..<industry_count]"
proof (induction ss rule: rev_induct)
  case Nil
  show ?case by (simp add: zero_sums_def Let_def part_sum_def map_replicate_const)
next
  case (snoc s ss)
  show ?case
  proof (cases "part_of s")
    case None
    then have "add_sample exact_arith g s = g" for g by (cases s) (simp add: add_sample_def part_of_def)
    with snoc None show ?thesis by (simp add: Let_def part_sum_snoc)
  next
    case (Some i)
    note p = part_of_Some [OF Some]
    have "add_sample exact_arith g s = \<lparr>gs_y = (gs_y g)[i := fadd Fin (gs_y g ! i) (fst s)],
        gs_l = (gs_l g)[i := fadd Fin (gs_l g ! i) (fst (snd s))], gs_cnt = (gs_cnt g)[i := fadd Fin (gs_cnt g ! i) (Fin 1)]\<rparr>" for g
      using Some p by (cases s) (simp add: add_sample_def part_of_def)
    then show ?thesis
      using snoc p Some by (auto simp: Let_def part_sum_snoc exact_val intro!: nth_equalityI simp: nth_list_update)
  qed
qed

definition part_mean :: "(fval \<times> fval \<times> fval \<Rightarrow> real) \<Rightarrow> nat \<Rightarrow> (fval \<times> fval \<times> fval) list \<Rightarrow> real" where
  "part_mean f i ss = part_sum f i ss / part_sum (\<lambda>_. 1) i ss"

lemma part_count: "s \<in> set ss \<Longrightarrow> part_of s = Some i \<Longrightarrow> 0 < part_sum (\<lambda>_. 1) i ss"
proof (induction ss)
  case (Cons t ss)
  have n: "0 \<le> part_sum (\<lambda>_. 1) i ss" by (auto simp: part_sum_def intro!: sum_list_nonneg)
  have c: "part_sum (\<lambda>_. 1) i (t # ss) = (if part_of t = Some i then 1 else 0) + part_sum (\<lambda>_. 1) i ss"
    by (simp add: part_sum_def)
  from Cons n c show ?case by (cases "s = t") auto
qed simp

lemma part_count_0:
  assumes "\<not> 0 < part_sum (\<lambda>_. 1) i ss" shows "part_sum f i ss = 0"
proof -
  have "\<forall>s\<in>set ss. part_of s \<noteq> Some i" using assms part_count by blast
  then show ?thesis by (induction ss) (auto simp: part_sum_def)
qed

lemma group_means_exact:
  "group_means exact_arith (map (\<lambda>i. Fin (part_sum f i ss)) [0..<n]) (map (\<lambda>i. Fin (part_sum (\<lambda>_. 1) i ss)) [0..<n]) =
     map (\<lambda>i. Fin (part_mean f i ss)) [0..<n]"
  by (intro nth_equalityI) (auto simp: group_means_def part_mean_def narrow_def part_count_0)

text \<open>The deviations from the group means and the residual, as reals.\<close>

definition y_dev :: "(fval \<times> fval \<times> fval) list \<Rightarrow> fval \<times> fval \<times> fval \<Rightarrow> real" where
  "y_dev ss s = y_of s - part_mean y_of (the (part_of s)) ss"

definition l_dev :: "(fval \<times> fval \<times> fval) list \<Rightarrow> fval \<times> fval \<times> fval \<Rightarrow> real" where
  "l_dev ss s = l_of s - part_mean l_of (the (part_of s)) ss"

definition slope :: "(fval \<times> fval \<times> fval) list \<Rightarrow> real" where
  "slope ss = (\<Sum>s\<leftarrow>filter (\<lambda>s. part_of s \<noteq> None) ss. y_dev ss s * l_dev ss s) /
     (\<Sum>s\<leftarrow>filter (\<lambda>s. part_of s \<noteq> None) ss. l_dev ss s * l_dev ss s)"

definition group_state :: "(fval \<times> fval \<times> fval) list \<Rightarrow> group_sums" where
  "group_state ss = foldl (add_sample exact_arith) zero_sums ss"

definition mean_row :: "(fval \<times> fval \<times> fval \<Rightarrow> real) \<Rightarrow> (fval \<times> fval \<times> fval) list \<Rightarrow> fval list" where
  "mean_row f ss = map (\<lambda>i. Fin (part_mean f i ss)) [0..<industry_count]"

lemma group_state_means:
  "group_means exact_arith (gs_y (group_state ss)) (gs_cnt (group_state ss)) = mean_row y_of ss"
  "group_means exact_arith (gs_l (group_state ss)) (gs_cnt (group_state ss)) = mean_row l_of ss"
  using add_sample_sums [of ss] by (simp_all add: group_state_def mean_row_def Let_def group_means_exact)

lemma group_state_count: "s \<in> set ss \<Longrightarrow> part_of s = Some i \<Longrightarrow> \<not> fle (gs_cnt (group_state ss) ! i) (Fin 0)"
  using add_sample_sums [of ss] part_count [of s ss i] part_of_Some [of s i] by (simp add: group_state_def Let_def)

lemma devs:
  assumes "part_of s = Some i"
  shows "fsub Fin (fst s) (mean_row y_of ss ! i) = Fin (y_dev ss s)"
    "fsub Fin (fst (snd s)) (mean_row l_of ss ! i) = Fin (l_dev ss s)"
proof -
  have "mean_row f ss ! i = Fin (part_mean f i ss)" for f using part_of_Some [OF assms] by (simp add: mean_row_def)
  with assms part_of_Some [OF assms] show "fsub Fin (fst s) (mean_row y_of ss ! i) = Fin (y_dev ss s)"
    "fsub Fin (fst (snd s)) (mean_row l_of ss ! i) = Fin (l_dev ss s)" by (simp_all add: exact_val y_dev_def l_dev_def)
qed

lemma add_moments_part:
  "part_of s = None \<Longrightarrow> add_moments ar g my ml acc s = acc"
  "part_of s = Some i \<Longrightarrow> \<not> fle (gs_cnt g ! i) (Fin 0) \<Longrightarrow> add_moments exact_arith g my ml acc s =
     (fadd Fin (fst acc) (fmul Fin (fsub Fin (fst s) (my ! i)) (fsub Fin (fst (snd s)) (ml ! i))),
      fadd Fin (snd acc) (fmul Fin (fsub Fin (fst (snd s)) (ml ! i)) (fsub Fin (fst (snd s)) (ml ! i))))"
  by (cases s; simp add: add_moments_def part_of_def Let_def)+

lemma residual_part:
  "part_of s = Some i \<Longrightarrow> \<not> fle (gs_cnt g ! i) (Fin 0) \<Longrightarrow> residual exact_arith g my ml b s =
     fsub Fin (fsub Fin (fst s) (my ! i)) (fmul Fin b (fsub Fin (fst (snd s)) (ml ! i)))"
  by (cases s; simp add: residual_def part_of_def)

lemma moments_exact:
  assumes "set ts \<subseteq> set ss"
  shows "foldl (add_moments exact_arith (group_state ss) (mean_row y_of ss) (mean_row l_of ss)) (Fin 0, Fin 0) ts =
    (Fin (\<Sum>s\<leftarrow>filter (\<lambda>s. part_of s \<noteq> None) ts. y_dev ss s * l_dev ss s),
     Fin (\<Sum>s\<leftarrow>filter (\<lambda>s. part_of s \<noteq> None) ts. l_dev ss s * l_dev ss s))"
  using assms
proof (induction ts rule: rev_induct)
  case (snoc s ts)
  show ?case
  proof (cases "part_of s")
    case None
    then show ?thesis using snoc by (simp add: add_moments_part)
  next
    case (Some i)
    have "s \<in> set ss" using snoc.prems by simp
    note p = part_of_Some [OF Some] group_state_count [OF this Some]
    with snoc Some devs [OF Some] show ?thesis by (simp add: add_moments_part(2) [OF Some])
  qed
qed simp

lemma residual_exact:
  assumes "s \<in> set ss" "part_of s = Some i"
  shows "residual exact_arith (group_state ss) (mean_row y_of ss) (mean_row l_of ss) (Fin b) s = Fin (y_dev ss s - b * l_dev ss s)"
proof -
  note p = part_of_Some [OF assms(2)] group_state_count [OF assms]
  with devs [OF assms(2)] show ?thesis by (simp add: residual_part [OF assms(2)] fsub_def)
qed

lemma neutralize_exact:
  "neutralize exact_arith y lm ind = (let ss = zip y (zip lm ind) in
     map (\<lambda>s. if part_of s = None then NaN else Fin (y_dev ss s - slope ss * l_dev ss s)) ss)"
proof -
  define ss where "ss = zip y (zip lm ind)"
  define num where "num = (\<Sum>s\<leftarrow>filter (\<lambda>s. part_of s \<noteq> None) ss. y_dev ss s * l_dev ss s)"
  define den where "den = (\<Sum>s\<leftarrow>filter (\<lambda>s. part_of s \<noteq> None) ss. l_dev ss s * l_dev ss s)"
  have "0 \<le> den" unfolding den_def by (intro sum_list_nonneg) auto
  then have b: "(if fless (Fin 0) (Fin den) then narrow exact_arith (fdiv Fin (Fin num) (Fin den)) else Fin 0) = Fin (slope ss)"
    unfolding slope_def num_def [symmetric] den_def [symmetric] by (simp add: narrow_def)
  have "neutralize exact_arith y lm ind =
      map (residual exact_arith (group_state ss) (mean_row y_of ss) (mean_row l_of ss) (Fin (slope ss))) ss"
    unfolding neutralize_def Let_def ss_def [symmetric] group_state_def [symmetric] group_state_means
      moments_exact [OF order_refl] num_def [symmetric] den_def [symmetric]
    by (simp only: prod.case b arith.select_convs)
  also have "\<dots> = map (\<lambda>s. if part_of s = None then NaN else Fin (y_dev ss s - slope ss * l_dev ss s)) ss"
    using residual_exact by (auto simp: residual_def part_of_def split: prod.split)
  finally show ?thesis by (simp add: ss_def Let_def)
qed

text \<open>The regression on group constants and one variable, over the reals.\<close>

lemma sum_by_group:
  fixes h :: "'i \<Rightarrow> real"
  assumes "finite A" "\<And>i. (\<Sum>a\<in>{a\<in>A. g a = i}. r a) = 0"
  shows "(\<Sum>a\<in>A. r a * h (g a)) = 0"
proof -
  have "(\<Sum>a\<in>A. r a * h (g a)) = (\<Sum>i\<in>g ` A. \<Sum>a\<in>{a\<in>A. g a = i}. r a * h (g a))" by (rule sum.image_gen [OF assms(1)])
  also have "\<dots> = (\<Sum>i\<in>g ` A. (\<Sum>a\<in>{a\<in>A. g a = i}. r a) * h i)" by (auto simp: sum_distrib_right intro!: sum.cong)
  finally show ?thesis by (simp add: assms(2))
qed

lemma group_deviations:
  fixes y :: "'i \<Rightarrow> real"
  assumes "finite A"
  shows "(\<Sum>a\<in>{a\<in>A. g a = i}. y a - (\<Sum>b\<in>{b\<in>A. g b = g a}. y b) / real (card {b\<in>A. g b = g a})) = 0"
proof -
  let ?G = "{a\<in>A. g a = i}"
  have "(\<Sum>a\<in>?G. y a - (\<Sum>b\<in>{b\<in>A. g b = g a}. y b) / real (card {b\<in>A. g b = g a})) =
      (\<Sum>a\<in>?G. y a - (\<Sum>b\<in>?G. y b) / real (card ?G))" by (rule sum.cong) auto
  also have "\<dots> = 0"
  proof (cases "?G = {}")
    case True
    show ?thesis unfolding True by simp
  next
    case False
    then have "card ?G \<noteq> 0" using assms by simp
    then show ?thesis by (simp add: sum_subtractf)
  qed
  finally show ?thesis .
qed

lemma fwl_orthogonal:
  fixes y l :: "'i \<Rightarrow> real"
  assumes "finite A" "\<And>i. (\<Sum>a\<in>{a\<in>A. g a = i}. y a) = 0" "\<And>i. (\<Sum>a\<in>{a\<in>A. g a = i}. l a) = 0"
  defines "b \<equiv> (\<Sum>a\<in>A. y a * l a) / (\<Sum>a\<in>A. l a * l a)"
  shows "(\<Sum>a\<in>{a\<in>A. g a = i}. y a - b * l a) = 0" "(\<Sum>a\<in>A. (y a - b * l a) * (l a + m (g a))) = 0"
proof -
  show g: "(\<Sum>a\<in>{a\<in>A. g a = i}. y a - b * l a) = 0" for i
    by (simp add: sum_subtractf assms(2,3) flip: sum_distrib_left)
  have "(\<Sum>a\<in>A. (y a - b * l a) * l a) = (\<Sum>a\<in>A. y a * l a) - b * (\<Sum>a\<in>A. l a * l a)"
    by (simp add: sum_subtractf sum_distrib_left algebra_simps)
  also have "\<dots> = 0"
  proof (cases "(\<Sum>a\<in>A. l a * l a) = 0")
    case True
    then have "\<forall>a\<in>A. l a = 0" using assms(1) by (subst (asm) sum_nonneg_eq_0_iff) auto
    then show ?thesis by simp
  qed (simp add: b_def)
  finally show "(\<Sum>a\<in>A. (y a - b * l a) * (l a + m (g a))) = 0"
    using sum_by_group [OF assms(1) g, of m] by (simp add: distrib_left sum.distrib)
qed

lemma least_squares:
  fixes r l :: "'i \<Rightarrow> real"
  assumes "finite A" "\<And>i. (\<Sum>a\<in>{a\<in>A. g a = i}. r a) = 0" "(\<Sum>a\<in>A. r a * l a) = 0"
  shows "(\<Sum>a\<in>A. (r a)\<^sup>2) \<le> (\<Sum>a\<in>A. (r a + (c (g a) + b * l a))\<^sup>2)"
proof -
  have "(\<Sum>a\<in>A. (r a + (c (g a) + b * l a))\<^sup>2) =
      (\<Sum>a\<in>A. (r a)\<^sup>2 + (2 * (r a * c (g a)) + (2 * b) * (r a * l a)) + (c (g a) + b * l a)\<^sup>2)"
    by (rule sum.cong) (simp_all add: power2_eq_square algebra_simps)
  also have "\<dots> = (\<Sum>a\<in>A. (r a)\<^sup>2) + (2 * (\<Sum>a\<in>A. r a * c (g a)) + (2 * b) * (\<Sum>a\<in>A. r a * l a)) + (\<Sum>a\<in>A. (c (g a) + b * l a)\<^sup>2)"
    by (simp only: sum.distrib sum_distrib_left)
  also have "\<dots> = (\<Sum>a\<in>A. (r a)\<^sup>2) + (\<Sum>a\<in>A. (c (g a) + b * l a)\<^sup>2)"
    using sum_by_group [OF assms(1,2), of c] assms(3) by simp
  finally show ?thesis by (simp add: sum_nonneg)
qed

lemma list_sum_index:
  "(\<Sum>s\<leftarrow>ss. if P s then f s else (0 :: real)) = (\<Sum>a\<in>{a. a < length ss \<and> P (ss ! a)}. f (ss ! a))"
proof -
  have "(\<Sum>s\<leftarrow>ss. if P s then f s else 0) = (\<Sum>a\<in>{0..<length ss}. if P (ss ! a) then f (ss ! a) else 0)"
    by (simp add: sum_list_sum_nth)
  also have "\<dots> = (\<Sum>a\<in>{a\<in>{0..<length ss}. P (ss ! a)}. f (ss ! a))" by (rule sum.inter_filter [symmetric]) simp
  also have "{a\<in>{0..<length ss}. P (ss ! a)} = {a. a < length ss \<and> P (ss ! a)}" by auto
  finally show ?thesis .
qed

lemma filter_sum_index:
  "(\<Sum>s\<leftarrow>filter P ss. f s) = (\<Sum>a\<in>{a. a < length ss \<and> P (ss ! a)}. (f (ss ! a) :: real))"
  by (simp add: sum_list_map_filter' list_sum_index)

section \<open>Properties\<close>

text \<open>Every cross-section factor keeps its contract: after the phase, with the days taken in any order,
  each value of each factor is finite and in \<open>[0, 1]\<close>, whatever the inputs were (missing, infinite, tied,
  constant), so that the check of \<open>must_be_finite\<close> passes.\<close>

theorem cs_values_in_unit:
  assumes "arith_ok ar" "n_a ax \<le> 2 ^ 23" "tensor_ok ax T" "set schedule = {..<n_d ax}"
    "compute_cs ar ax order schedule T = Ok T'"
  shows "\<forall>f\<in>set order. assert_finite ax T' f \<and> (\<forall>a < n_a ax. \<forall>d < n_d ax. in_unit (tensor_at ax T' f a d))"
proof
  fix f assume f: "f \<in> set order"
  have T': "tensor_ok ax T'" "\<forall>d < n_d ax. unit_day ax T' f d"
    using cs_days_unit [OF assms(1,2) _ assms(3,5)] f by (auto simp: assms(4))
  have u: "in_unit (tensor_at ax T' f a d)" if "a < n_a ax" "d < n_d ax" for a d
    using T'(2) that gather_at [OF that(1), of T' f d] nth_mem [of a "gather_cs_row ax T' f d"]
    by (simp add: unit_day_def length_gather)
  then show "assert_finite ax T' f \<and> (\<forall>a < n_a ax. \<forall>d < n_d ax. in_unit (tensor_at ax T' f a d))"
    by (auto simp: assert_finite_def mat_finite_def list_all_iff tensor_at_def mat_off_def in_unit_finite)
qed

lemma arith_ok_ieee: "arith_ok \<lparr>single = f32, double = f64\<rparr>"
  by (simp add: arith_ok_def f32.rounding_axioms f64.rounding_axioms)

lemma arith_ok_exact: "arith_ok \<lparr>single = Fin, double = Fin\<rparr>"
  by (simp add: arith_ok_def exact.rounding_axioms)

lemma cs_values_in_unit_witness:
  "\<exists>T'. compute_cs \<lparr>single = f32, double = f64\<rparr> sample_axes [Mcap, Ep_ttm12] [1, 0] (new_tensor sample_axes 0) = Ok T' \<and>
     in_unit (tensor_at sample_axes T' Ep_ttm12 1 0)"
proof -
  obtain T' where T': "compute_cs \<lparr>single = f32, double = f64\<rparr> sample_axes [Mcap, Ep_ttm12] [1, 0] (new_tensor sample_axes 0) = Ok T'"
    by (simp add: compute_cs_def run_cs_node_def)
  have "set [1, 0] = {..<n_d sample_axes}" using sample_axes_ok(2) by auto
  from cs_values_in_unit [OF arith_ok_ieee _ tensor_ok_new this T'] T' sample_axes_ok(2,3) show ?thesis by simp
qed

lemma tie_rank_average:
  assumes "rounding (single ar)" "halves (single ar)" "1 < m" "0 < t" "b + t \<le> m" "m \<le> 2 ^ 23"
  shows "tie_rank ar m b (b + t) = single ar ((\<Sum>p\<in>{b..<b + t}. real p) / real t / real (m - 1))"
proof -
  have h: "single ar (of_int n / 2) = Fin (of_int n / 2)" if "\<bar>n\<bar> \<le> 2 ^ 24" for n using assms(2) that by (simp add: halves_def)
  have S: "single ar (real (b + 1 + (b + t))) = Fin (real (b + 1 + (b + t)))" "single ar (real (m - 1)) = Fin (real (m - 1))"
    using assms(3-6) by (intro rounding.rnd_nat [OF assms(1)], simp)+
  have a: "single ar (real (b + 1 + (b + t)) * (1 / 2)) = Fin (real (b + 1 + (b + t)) / 2)"
    using h [of "int (b + 1 + (b + t))"] assms(4-6) by simp
  have c: "single ar (real (b + 1 + (b + t)) / 2 + - 1) = Fin ((real (2 * b) + real t - 1) / 2)"
    using h [of "int (2 * b) + int t - 1"] assms(4-6) by (simp add: field_simps)
  have "(\<Sum>p\<in>{b..<b + t}. real p) * 2 = real t * (real (2 * b) + real t - 1)"
    by (induction t) (simp_all add: algebra_simps)
  then have d: "(\<Sum>p\<in>{b..<b + t}. real p) / real t = (real (2 * b) + real t - 1) / 2" using assms(4) by (simp add: field_simps)
  have v: "fadd (single ar) (fmul (single ar) (Fin (real (b + 1 + (b + t)))) (Fin (1 / 2))) (Fin (- 1)) = Fin ((real (2 * b) + real t - 1) / 2)"
    by (simp only: fmul.simps a fadd.simps c)
  show ?thesis unfolding d tie_rank_def fsub_def fneg.simps S v using assms(3) by simp
qed

text \<open>C30. The rank of a value is the average position of its ties, scaled to \<open>[0, 1]\<close>. Whatever order \<open>std::sort\<close> leaves equal values in, the
  loop over the ties gives a finite value that has \<open>smaller\<close> values below it and \<open>tied\<close> values equal to it (itself included), among \<open>n\<close> finite ones,
  the mean of the positions \<open>smaller, ..., smaller + tied - 1\<close>, counted from 0, divided by \<open>n - 1\<close>: exactly this real number, rounded once, in every
  format that holds the half integers up to \<open>2 ^ 23\<close>, as \<open>float\<close> does. A value that is alone gets 1/2; what is not finite stays as it is.\<close>

theorem pct_rank_spec:
  assumes "rounding (single ar)" "halves (single ar)" "mset idx = mset (finite_positions x)" "sorted (map (\<lambda>i. x ! i) idx)" "k < length x"
    "length x \<le> 2 ^ 23"
  defines "n \<equiv> card {i. i < length x \<and> is_finite (x ! i)}"
    and "smaller \<equiv> card {i. i < length x \<and> is_finite (x ! i) \<and> fless (x ! i) (x ! k)}"
    and "tied \<equiv> card {i. i < length x \<and> x ! i = x ! k}"
  shows "rank_loop ar (length idx) 0 idx x ! k = pct_rank ar x ! k \<and>
    pct_rank ar x ! k = (if \<not> is_finite (x ! k) then x ! k else if n = 1 then Fin (1 / 2)
      else single ar ((\<Sum>p\<in>{smaller..<smaller + tied}. real p) / real tied / real (n - 1)))"
proof -
  let ?F = "finite_positions x"
  let ?lo = "length (filter (\<lambda>i. x ! i < x ! k) ?F)" and ?hi = "length (filter (\<lambda>i. x ! i \<le> x ! k) ?F)"
  have spec: "rank_loop ar (length ks) 0 ks x ! k = (if is_finite (x ! k) then tie_rank ar (length ?F) ?lo ?hi else x ! k)"
    if ks: "mset ks = mset ?F" "sorted (map (\<lambda>i. x ! i) ks)" for ks
  proof -
    have s: "set ks = set ?F" using ks(1) by (metis set_mset_mset)
    have l: "length (filter P ks) = length (filter P ?F)" "length ks = length ?F" for P
      using ks(1) by (metis mset_filter size_mset)+
    have "distinct ?F" by (simp add: finite_positions_def)
    then have d: "distinct ks" using ks(1) by (metis mset_eq_imp_distinct_iff)
    from rank_loop_spec [OF d ks(2) _ assms(5), of ar "length ks" 0] assms(5) show ?thesis
      by (simp add: s finite_positions_set l)
  qed
  have c: "length (filter P ?F) = card {i. i < length x \<and> is_finite (x ! i) \<and> P i}" for P
  proof -
    have "distinct (filter P ?F)" by (simp add: finite_positions_def)
    moreover have "set (filter P ?F) = {i. i < length x \<and> is_finite (x ! i) \<and> P i}" by (auto simp: finite_positions_def)
    ultimately show ?thesis by (metis distinct_card)
  qed
  have "tie_rank ar (length ?F) ?lo ?hi = (if n = 1 then Fin (1 / 2) else single ar ((\<Sum>p\<in>{smaller..<smaller + tied}. real p) / real tied / real (n - 1)))"
    if fin: "is_finite (x ! k)"
  proof -
    have n: "length ?F = n" using c [of "\<lambda>_. True"] by (simp add: n_def)
    have "?lo = smaller" unfolding c smaller_def using fin by (intro arg_cong [of _ _ card] Collect_cong conj_cong refl) (auto simp: fval_less_iff is_finite_iff)
    moreover have "?hi = smaller + tied"
    proof -
      let ?A = "{i. i < length x \<and> is_finite (x ! i) \<and> x ! i < x ! k}" and ?B = "{i. i < length x \<and> x ! i = x ! k}"
      have "{i. i < length x \<and> is_finite (x ! i) \<and> x ! i \<le> x ! k} = ?A \<union> ?B" using fin by (auto simp: less_le)
      moreover have "card (?A \<union> ?B) = card ?A + card ?B" by (rule card_Un_disjoint) auto
      ultimately show ?thesis using \<open>?lo = smaller\<close> by (simp add: c tied_def)
    qed
    moreover have t: "0 < tied" unfolding tied_def using assms(5) by (auto simp: card_gt_0_iff)
    moreover have "?hi \<le> n" using n by (metis length_filter_le)
    moreover have "n \<le> 2 ^ 23" using n assms(6) by (metis finite_positions_def length_filter_le length_upt diff_zero order_trans)
    ultimately show ?thesis using tie_rank_average [OF assms(1,2), of n tied smaller] n by (cases "1 < n") (auto simp: tie_rank_def)
  qed
  then show ?thesis using spec [OF assms(3,4)] spec [of "sort_key (\<lambda>i. x ! i) ?F"] by (simp add: pct_rank_def)
qed

lemma pct_rank_spec_witness:
  "pct_rank \<lparr>single = f32, double = f64\<rparr> [Fin 3, NaN, Fin 1, Fin 3, Fin 7] ! 3 = Fin (1/2)"
proof -
  let ?x = "[Fin 3, NaN, Fin 1, Fin 3, Fin 7]" and ?ar = "\<lparr>single = f32, double = f64\<rparr>"
  have p: "finite_positions ?x = [0, 2, 3, 4]" by (simp add: finite_positions_def upt_rec)
  have m: "mset [2, 3, 0, 4 :: nat] = mset (finite_positions ?x)" by (simp add: p)
  have set5: "{i. i < length ?x \<and> P i} = set (filter P [0, 1, 2, 3, 4])" for P
  proof -
    have "[0..<5] = [0, 1, 2, 3, 4 :: nat]" by (simp add: upt_rec)
    moreover have "{i. i < length ?x \<and> P i} = set (filter P [0..<5])" by auto
    ultimately show ?thesis by (simp only:)
  qed
  have cards: "card {i. i < length ?x \<and> is_finite (?x ! i)} = 4" "card {i. i < length ?x \<and> is_finite (?x ! i) \<and> fless (?x ! i) (?x ! 3)} = 1"
    "card {i. i < length ?x \<and> ?x ! i = ?x ! 3} = 2" unfolding set5 by simp_all
  have "(\<Sum>p\<in>{1..<1 + 2 :: nat}. real p) = 3" by (simp add: atLeastLessThan_nat_numeral)
  moreover have "f32 (1 / 2) = Fin (1 / 2)" using halves_formats(1) by (force simp: halves_def dest: spec [of _ 1])
  ultimately show ?thesis
    using pct_rank_spec [of ?ar "[2, 3, 0, 4]" ?x 3] m f32.rounding_axioms halves_formats(1) unfolding cards by simp
qed

lemma neutralize_ols:
  assumes "length lm = length y" "length ind = length y"
  defines "grp \<equiv> \<lambda>a. group_of (y ! a) (lm ! a) (ind ! a)"
  defines "A \<equiv> {a. a < length y \<and> grp a \<noteq> None}"
  defines "row \<equiv> neutralize exact_arith y lm ind"
  shows "(\<forall>a < length y. a \<notin> A \<longrightarrow> row ! a = NaN) \<and>
    (\<exists>c b. \<forall>a\<in>A. \<exists>r. row ! a = Fin r \<and> val (y ! a) = c (the (grp a)) + b * val (lm ! a) + r) \<and>
    (\<forall>i. (\<Sum>a\<in>{a\<in>A. grp a = Some i}. val (row ! a)) = 0) \<and> (\<Sum>a\<in>A. val (row ! a) * val (lm ! a)) = 0 \<and>
    (\<forall>c b. (\<Sum>a\<in>A. (val (row ! a))\<^sup>2) \<le> (\<Sum>a\<in>A. (val (y ! a) - (c (the (grp a)) + b * val (lm ! a)))\<^sup>2))"
proof -
  define ss where "ss = zip y (zip lm ind)"
  define g where "g = (\<lambda>a. the (grp a))"
  define yd ld b where "yd = (\<lambda>a. y_dev ss (ss ! a))" and "ld = (\<lambda>a. l_dev ss (ss ! a))" and "b = slope ss"
  have len: "length ss = length y" using assms(1,2) by (simp add: ss_def)
  have at: "y_of (ss ! a) = val (y ! a)" "l_of (ss ! a) = val (lm ! a)" "part_of (ss ! a) = grp a" if "a < length y" for a
    using that assms(1,2) by (simp_all add: ss_def part_of_def grp_def)
  have fin: "finite A" by (simp add: A_def)
  have row: "row ! a = (if a \<in> A then Fin (yd a - b * ld a) else NaN)" if "a < length y" for a
    using that len at(3) by (simp add: row_def neutralize_exact Let_def flip: ss_def) (simp add: A_def yd_def ld_def b_def)
  have G: "{a. a < length ss \<and> part_of (ss ! a) = Some i} = {a\<in>A. g a = i}" for i
    using at(3) by (auto simp: A_def g_def len)
  have mean: "part_mean f i ss = (\<Sum>a\<in>{a\<in>A. g a = i}. f (ss ! a)) / real (card {a\<in>A. g a = i})" for f i
    by (simp add: part_mean_def part_sum_def list_sum_index G)
  have A: "{a. a < length ss \<and> part_of (ss ! a) \<noteq> None} = A" using at(3) by (auto simp: A_def len)
  have b: "b = (\<Sum>a\<in>A. yd a * ld a) / (\<Sum>a\<in>A. ld a * ld a)"
    by (simp only: b_def slope_def filter_sum_index A yd_def ld_def)
  have yd: "yd a = y_of (ss ! a) - part_mean y_of (g a) ss" "ld a = l_of (ss ! a) - part_mean l_of (g a) ss" if "a \<in> A" for a
    using that at(3) by (simp_all add: yd_def ld_def y_dev_def l_dev_def g_def A_def)
  have dev: "(\<Sum>a\<in>{a\<in>A. g a = i}. yd a) = 0" "(\<Sum>a\<in>{a\<in>A. g a = i}. ld a) = 0" for i
    using group_deviations [OF fin, where y = "\<lambda>a. y_of (ss ! a)" and g = g and i = i]
      group_deviations [OF fin, where y = "\<lambda>a. l_of (ss ! a)" and g = g and i = i]
    by (simp_all add: yd mean)
  note orth = fwl_orthogonal [OF fin dev, folded b]
  define r where "r = (\<lambda>a. yd a - b * ld a)"
  have r: "row ! a = Fin (r a)" if "a \<in> A" for a using that row by (simp add: A_def r_def)
  have l: "val (lm ! a) = ld a + part_mean l_of (g a) ss" "val (y ! a) = yd a + part_mean y_of (g a) ss" if "a \<in> A" for a
    using that at yd by (simp_all add: A_def)
  have o1: "(\<Sum>a\<in>{a\<in>A. g a = i}. r a) = 0" for i using orth(1) by (simp add: r_def)
  have "(\<Sum>a\<in>A. r a * val (lm ! a)) = (\<Sum>a\<in>A. (yd a - b * ld a) * (ld a + part_mean l_of (g a) ss))"
    by (intro sum.cong refl) (simp only: l r_def)
  then have o2: "(\<Sum>a\<in>A. r a * val (lm ! a)) = 0" using orth(2) by simp
  let ?c = "\<lambda>i. part_mean y_of i ss - b * part_mean l_of i ss"
  have fit: "val (y ! a) = ?c (g a) + b * val (lm ! a) + r a" if "a \<in> A" for a
    using l [OF that] by (simp add: r_def algebra_simps)
  have ls: "(\<Sum>a\<in>A. (r a)\<^sup>2) \<le> (\<Sum>a\<in>A. (val (y ! a) - (c (g a) + b' * val (lm ! a)))\<^sup>2)" for c b'
  proof -
    have "(\<Sum>a\<in>A. (val (y ! a) - (c (g a) + b' * val (lm ! a)))\<^sup>2) =
        (\<Sum>a\<in>A. (r a + ((?c (g a) - c (g a)) + (b - b') * val (lm ! a)))\<^sup>2)"
      by (intro sum.cong refl) (simp add: fit algebra_simps)
    then show ?thesis using least_squares [OF fin o1 o2, of "\<lambda>i. ?c i - c i" "b - b'"] by simp
  qed
  have G': "{a\<in>A. grp a = Some i} = {a\<in>A. g a = i}" for i by (auto simp: A_def g_def)
  have v: "val (row ! a) = r a" if "a \<in> A" for a using r [OF that] by simp
  have vs: "(\<Sum>a\<in>B. f (val (row ! a)) a) = (\<Sum>a\<in>B. f (r a) a)" if "B \<subseteq> A" for B and f :: "real \<Rightarrow> nat \<Rightarrow> real"
    using that v by (intro sum.cong) auto
  show ?thesis
  proof (intro conjI allI impI)
    show "row ! a = NaN" if "a < length y" "a \<notin> A" for a using row that by simp
    show "\<exists>c b. \<forall>a\<in>A. \<exists>r. row ! a = Fin r \<and> val (y ! a) = c (the (grp a)) + b * val (lm ! a) + r"
      using r fit unfolding g_def by (intro exI [of _ ?c] exI [of _ b]) blast
    show "(\<Sum>a\<in>{a\<in>A. grp a = Some i}. val (row ! a)) = 0" for i
      unfolding G' using vs [of "{a\<in>A. g a = i}" "\<lambda>v a. v"] o1 by simp
    show "(\<Sum>a\<in>A. val (row ! a) * val (lm ! a)) = 0" using vs [of A "\<lambda>v a. v * val (lm ! a)"] o2 by simp
    show "(\<Sum>a\<in>A. (val (row ! a))\<^sup>2) \<le> (\<Sum>a\<in>A. (val (y ! a) - (c (the (grp a)) + b * val (lm ! a)))\<^sup>2)" for c b
      using vs [of A "\<lambda>v a. v\<^sup>2"] ls [of c b] by (simp add: g_def)
  qed
qed

text \<open>C29. In exact arithmetic \<open>neutralize\<close> is the ordinary least squares regression of the factor on industry constants and the logarithm of the
  market value (Frisch-Waugh-Lovell). The instruments that take part (\<open>A\<close>) are those with a finite factor, a finite log market value and an industry id
  from 0 to 31; all others get \<open>NaN\<close>. For those in \<open>A\<close> the factor is fitted value plus residual; the residuals sum to zero in every industry and are
  orthogonal to the log market value; no other industry constants and slope leave a smaller sum of squares. The id 0 (unknown industry) counts as an
  industry of its own here: the code fits its instruments like all others and gives them a finite residual, while the header \<open>cs.hpp\<close> documents them as
  excluded with \<open>NaN\<close>. The theorem states what the code does: its last clause is the divergence, and where id 0 occurs its instruments also
  take part in the common slope. Without instruments of id 0 it is what the header says.\<close>

theorem neutralize_is_ols:
  assumes "length lm = length y" "length ind = length y"
  defines "g \<equiv> \<lambda>a. trunc (ind ! a)"
  defines "A \<equiv> {a. a < length y \<and> is_finite (y ! a) \<and> is_finite (lm ! a) \<and> 0 \<le> g a \<and> g a \<le> 31}"
  defines "row \<equiv> neutralize exact_arith y lm ind"
  shows "(\<forall>a < length y. row ! a = NaN \<longleftrightarrow> a \<notin> A) \<and>
    (\<exists>c b. \<forall>a\<in>A. \<exists>r. row ! a = Fin r \<and> val (y ! a) = c (g a) + b * val (lm ! a) + r) \<and>
    (\<forall>i. (\<Sum>a\<in>{a\<in>A. g a = i}. val (row ! a)) = 0) \<and> (\<Sum>a\<in>A. val (row ! a) * val (lm ! a)) = 0 \<and>
    (\<forall>c b. (\<Sum>a\<in>A. (val (row ! a))\<^sup>2) \<le> (\<Sum>a\<in>A. (val (y ! a) - (c (g a) + b * val (lm ! a)))\<^sup>2)) \<and>
    (\<forall>a < length y. ind ! a = Fin 0 \<and> is_finite (y ! a) \<and> is_finite (lm ! a) \<longrightarrow> is_finite (row ! a))"
proof -
  let ?grp = "\<lambda>a. group_of (y ! a) (lm ! a) (ind ! a)"
  have k: "industry_count = 32" by (simp add: industry_count_def SW2021_L1_NAMES_def)
  have grp: "?grp a = (if a \<in> A then Some (nat (g a)) else None)" if "a < length y" for a
    using that by (auto simp: A_def g_def group_of_def Let_def k)
  have "A \<subseteq> {a. a < length y}" by (auto simp: A_def)
  then have A: "{a. a < length y \<and> ?grp a \<noteq> None} = A" using grp by (auto split: if_splits)
  have g: "the (?grp a) = nat (g a)" "int (nat (g a)) = g a" if "a \<in> A" for a using that grp [of a] by (auto simp: A_def)
  note O = neutralize_ols [OF assms(1,2), folded row_def, unfolded A]
  have fin: "\<forall>a\<in>A. \<exists>r. row ! a = Fin r" using O by blast
  show ?thesis
  proof (intro conjI allI impI)
    show "row ! a = NaN \<longleftrightarrow> a \<notin> A" if "a < length y" for a
      using conjunct1 [OF O, rule_format, OF that] fin by (cases "a \<in> A") auto
    from O obtain c b where "\<forall>a\<in>A. \<exists>r. row ! a = Fin r \<and> val (y ! a) = c (the (?grp a)) + b * val (lm ! a) + r" by blast
    then show "\<exists>c b. \<forall>a\<in>A. \<exists>r. row ! a = Fin r \<and> val (y ! a) = c (g a) + b * val (lm ! a) + r"
      using g(1) by (intro exI [of _ "\<lambda>i. c (nat i)"] exI [of _ b]) simp
    show "(\<Sum>a\<in>{a\<in>A. g a = i}. val (row ! a)) = 0" for i
    proof (cases "0 \<le> i")
      case True
      have "{a\<in>A. g a = i} = {a\<in>A. ?grp a = Some (nat i)}" using True g(2) by (auto simp: A_def grp)
      then show ?thesis using O by simp
    next
      case False
      then have "{a\<in>A. g a = i} = {}" by (auto simp: A_def)
      then show ?thesis by (simp only: sum.empty)
    qed
    show "(\<Sum>a\<in>A. val (row ! a) * val (lm ! a)) = 0" using O by blast
    show "(\<Sum>a\<in>A. (val (row ! a))\<^sup>2) \<le> (\<Sum>a\<in>A. (val (y ! a) - (c (g a) + b * val (lm ! a)))\<^sup>2)" for c b
    proof -
      have "(\<Sum>a\<in>A. (val (y ! a) - (c (g a) + b * val (lm ! a)))\<^sup>2) = (\<Sum>a\<in>A. (val (y ! a) - (c (int (the (?grp a))) + b * val (lm ! a)))\<^sup>2)"
        by (intro sum.cong refl) (simp only: g)
      moreover have "(\<Sum>a\<in>A. (val (row ! a))\<^sup>2) \<le> (\<Sum>a\<in>A. (val (y ! a) - ((\<lambda>i. c (int i)) (the (?grp a)) + b * val (lm ! a)))\<^sup>2)" 
        using O [THEN conjunct2, THEN conjunct2, THEN conjunct2, THEN conjunct2, rule_format, where c = "\<lambda>i. c (int i)"] .
      ultimately show ?thesis by simp
    qed
    show "is_finite (row ! a)" if "a < length y" "ind ! a = Fin 0 \<and> is_finite (y ! a) \<and> is_finite (lm ! a)" for a
    proof -
      have "a \<in> A" using that by (simp add: A_def g_def trunc_def)
      with fin show ?thesis by (auto simp: is_finite_iff)
    qed
  qed
qed

lemma neutralize_is_ols_witness:
  "val (neutralize exact_arith [Fin 1, Fin 5, NaN] [Fin 2, Fin 4, Fin 3] [Fin 7, Fin 7, Fin 7] ! 0) +
     val (neutralize exact_arith [Fin 1, Fin 5, NaN] [Fin 2, Fin 4, Fin 3] [Fin 7, Fin 7, Fin 7] ! 1) = 0"
proof -
  let ?y = "[Fin 1, Fin 5, NaN]" and ?l = "[Fin 2, Fin 4, Fin 3]" and ?i = "[Fin 7, Fin 7, Fin 7]"
  let ?A = "{a. a < length ?y \<and> is_finite (?y ! a) \<and> is_finite (?l ! a) \<and> 0 \<le> trunc (?i ! a) \<and> trunc (?i ! a) \<le> 31}"
  have "{a \<in> ?A. trunc (?i ! a) = 7} = {0, 1}"
  proof (intro equalityI subsetI)
    fix a assume "a \<in> {a \<in> ?A. trunc (?i ! a) = 7}"
    then have "a < 3" "is_finite (?y ! a)" by simp_all
    then show "a \<in> {0, 1}" by (cases "a = 2") auto
  qed (auto simp: trunc_def)
  moreover have "(\<Sum>a\<in>{a \<in> ?A. trunc (?i ! a) = 7}. val (neutralize exact_arith ?y ?l ?i ! a)) = 0"
    using neutralize_is_ols [of ?l ?y ?i] by simp
  ultimately show ?thesis by simp
qed

end
