(* ===== verification/Workers.thy ===== *)
theory Workers
  imports Prelude
begin

text \<open>
  The threads of \<open>compute_ts\<close> and \<open>compute_cs\<close> (\<open>cpp/src/feature/ts.cpp\<close>, \<open>cs.cpp\<close>): each takes the
  next shard (an instrument or a day) from an atomic counter and runs the nodes of the order on it. The
  steps of the threads interleave in any way; whatever the interleaving, the crew ends with the tensor
  of the sequential loop.
\<close>

section \<open>A crew of threads\<close>

datatype 'x worker = Idle | Busy nat "'x list" | Stopped

record ('e, 's, 'x) crew =
  cr_next :: nat
  cr_workers :: "'x worker list"
  cr_shared :: "('e, 's) outcome"

text \<open>\<open>next.fetch_add(1)\<close> gives a shard or, at the end of the range, stops the thread; a thread with a shard
  runs the rest of the order on it, one node per step. A node that fails ends the program, so that no
  further step is possible.\<close>

inductive crew_step ::
  "nat \<Rightarrow> 'x list \<Rightarrow> (nat \<Rightarrow> 's \<Rightarrow> 'x \<Rightarrow> ('e, 's) outcome) \<Rightarrow> ('e, 's, 'x) crew \<Rightarrow> ('e, 's, 'x) crew \<Rightarrow> bool"
  for n order job where
  grab: "i < n \<Longrightarrow> crew_step n order job \<lparr>cr_next = i, cr_workers = us @ Idle # vs, cr_shared = Ok s\<rparr>
      \<lparr>cr_next = i + 1, cr_workers = us @ Busy i order # vs, cr_shared = Ok s\<rparr>"
| stop: "n \<le> i \<Longrightarrow> crew_step n order job \<lparr>cr_next = i, cr_workers = us @ Idle # vs, cr_shared = Ok s\<rparr>
      \<lparr>cr_next = i + 1, cr_workers = us @ Stopped # vs, cr_shared = Ok s\<rparr>"
| work: "crew_step n order job \<lparr>cr_next = i, cr_workers = us @ Busy a (x # xs) # vs, cr_shared = Ok s\<rparr>
      \<lparr>cr_next = i, cr_workers = us @ Busy a xs # vs, cr_shared = job a s x\<rparr>"
| next_shard: "crew_step n order job \<lparr>cr_next = i, cr_workers = us @ Busy a [] # vs, cr_shared = Ok s\<rparr>
      \<lparr>cr_next = i, cr_workers = us @ Idle # vs, cr_shared = Ok s\<rparr>"

inductive crew_run ::
  "nat \<Rightarrow> 'x list \<Rightarrow> (nat \<Rightarrow> 's \<Rightarrow> 'x \<Rightarrow> ('e, 's) outcome) \<Rightarrow> ('e, 's, 'x) crew \<Rightarrow> ('e, 's, 'x) crew \<Rightarrow> bool"
  for n order job where
  stay: "crew_run n order job c c"
| move: "crew_run n order job c c' \<Longrightarrow> crew_step n order job c' c'' \<Longrightarrow> crew_run n order job c c''"

text \<open>The number of threads is that of the cores, at least one.\<close>

definition n_threads :: "nat \<Rightarrow> nat" where
  "n_threads core_count = (if core_count = 0 then 1 else core_count)"

definition start_crew :: "nat \<Rightarrow> 's \<Rightarrow> ('e, 's, 'x) crew" where
  "start_crew core_count s = \<lparr>cr_next = 0, cr_workers = replicate (n_threads core_count) Idle, cr_shared = Ok s\<rparr>"

text \<open>All threads have been joined.\<close>

definition joined :: "('e, 's, 'x) crew \<Rightarrow> bool" where
  "joined c \<longleftrightarrow> (\<forall>w\<in>set (cr_workers c). w = Stopped)"

definition sequential ::
  "nat \<Rightarrow> 'x list \<Rightarrow> (nat \<Rightarrow> 's \<Rightarrow> 'x \<Rightarrow> ('e, 's) outcome) \<Rightarrow> 's \<Rightarrow> ('e, 's) outcome" where
  "sequential n order job s = fold_ok (\<lambda>s a. fold_ok (job a) s order) s [0..<n]"

section \<open>Every run ends\<close>

fun weight :: "'x worker \<Rightarrow> nat" where
  "weight Idle = 1"
| "weight (Busy a xs) = 2 + length xs"
| "weight Stopped = 0"

definition work_left :: "nat \<Rightarrow> 'x list \<Rightarrow> ('e, 's, 'x) crew \<Rightarrow> nat" where
  "work_left n order c = sum_list (map weight (cr_workers c)) + (n - cr_next c) * (length order + 3)"

lemma crew_step_decreases: "crew_step n order job c c' \<Longrightarrow> work_left n order c' < work_left n order c"
proof (induction rule: crew_step.induct)
  case (grab i us vs s)
  then have "n - i = Suc (n - (i + 1))" by simp
  then show ?case by (simp add: work_left_def)
qed (simp_all add: work_left_def)

lemma crew_progress:
  assumes "cr_shared c = Ok s" "\<not> joined c"
  shows "\<exists>c'. crew_step n order job c c'"
proof -
  obtain w where w: "w \<in> set (cr_workers c)" "w \<noteq> Stopped" using assms(2) by (auto simp: joined_def)
  then obtain us vs where ws: "cr_workers c = us @ w # vs" by (meson split_list)
  have c: "c = \<lparr>cr_next = cr_next c, cr_workers = us @ w # vs, cr_shared = Ok s\<rparr>" using ws assms(1) by simp
  show ?thesis
  proof (cases w)
    case Idle
    show ?thesis
    proof (cases "cr_next c < n")
      case True
      from grab [OF this, of order job us vs s] show ?thesis by (subst c) (auto simp: Idle)
    next
      case False
      then have "n \<le> cr_next c" by simp
      from stop [OF this, of order job us vs s] show ?thesis by (subst c) (auto simp: Idle)
    qed
  next
    case (Busy a xs)
    show ?thesis
    proof (cases xs)
      case Nil
      from next_shard [of n order job "cr_next c" us a vs s] show ?thesis by (subst c) (auto simp: Busy Nil)
    next
      case (Cons x r)
      from work [of n order job "cr_next c" us a x r vs s] show ?thesis by (subst c) (auto simp: Busy Cons)
    qed
  qed (use w in simp)
qed

section \<open>Independent shards: the interface\<close>

fun rest_of :: "'x worker \<Rightarrow> (nat \<times> 'x) list" where
  "rest_of (Busy a xs) = map (Pair a) xs"
| "rest_of _ = []"

fun shard_of :: "'x worker \<Rightarrow> nat list" where
  "shard_of (Busy a xs) = [a]"
| "shard_of _ = []"

definition jobs_left :: "nat \<Rightarrow> 'x list \<Rightarrow> ('e, 's, 'x) crew \<Rightarrow> (nat \<times> 'x) list" where
  "jobs_left n order c = concat (map rest_of (cr_workers c)) @ concat (map (\<lambda>a. map (Pair a) order) [cr_next c..<n])"

definition shards_taken :: "('e, 's, 'x) crew \<Rightarrow> nat list" where
  "shards_taken c = concat (map shard_of (cr_workers c))"

definition do_job :: "(nat \<Rightarrow> 's \<Rightarrow> 'x \<Rightarrow> ('e, 's) outcome) \<Rightarrow> 's \<Rightarrow> nat \<times> 'x \<Rightarrow> ('e, 's) outcome" where
  "do_job job s p = job (fst p) s (snd p)"

lemma rest_of_shard: "p \<in> set (rest_of w) \<Longrightarrow> fst p \<in> set (shard_of w)"
  by (cases w) auto

lemma rests_shards: "p \<in> set (concat (map rest_of ws)) \<Longrightarrow> fst p \<in> set (concat (map shard_of ws))"
  by (auto dest: rest_of_shard)

locale shards =
  fixes n :: nat and inv :: "'s \<Rightarrow> bool" and job :: "nat \<Rightarrow> 's \<Rightarrow> 'x \<Rightarrow> ('e, 's) outcome"
  assumes job_inv: "a < n \<Longrightarrow> inv s \<Longrightarrow> job a s x = Ok s' \<Longrightarrow> inv s'"
    and job_swap: "a < n \<Longrightarrow> b < n \<Longrightarrow> a \<noteq> b \<Longrightarrow> inv s \<Longrightarrow> job b s y = Ok s1 \<Longrightarrow> job a s1 x = Ok s2 \<Longrightarrow>
      \<exists>s1'. job a s x = Ok s1' \<and> job b s1' y = Ok s2"
begin

lemma jobs_Cons:
  "fold_ok (do_job job) s (p # js) = Ok t \<longleftrightarrow> (\<exists>s1. job (fst p) s (snd p) = Ok s1 \<and> fold_ok (do_job job) s1 js = Ok t)"
  by (simp only: fold_ok.simps bind_ok_Ok_iff do_job_def [of job s p])

lemma job_first:
  assumes "fold_ok (do_job job) s (ys @ (a, x) # zs) = Ok t" "a < n" "inv s" "\<forall>p\<in>set ys. fst p < n \<and> fst p \<noteq> a"
  shows "\<exists>s'. job a s x = Ok s' \<and> inv s' \<and> fold_ok (do_job job) s' (ys @ zs) = Ok t"
  using assms
proof (induction ys arbitrary: s)
  case Nil
  then show ?case using job_inv by (auto simp only: append_Nil jobs_Cons fst_conv snd_conv)
next
  case (Cons y ys)
  from Cons.prems(1) obtain s1 where s1: "job (fst y) s (snd y) = Ok s1"
    "fold_ok (do_job job) s1 (ys @ (a, x) # zs) = Ok t"
    unfolding append_Cons jobs_Cons by blast
  have y: "fst y < n" "fst y \<noteq> a" using Cons.prems(4) by simp_all
  have "inv s1" by (rule job_inv [OF y(1) Cons.prems(3) s1(1)])
  with Cons.IH [OF s1(2) Cons.prems(2)] Cons.prems(4) obtain s2 where
    s2: "job a s1 x = Ok s2" "fold_ok (do_job job) s2 (ys @ zs) = Ok t" by auto
  from job_swap [OF Cons.prems(2) y(1) y(2) [symmetric] Cons.prems(3) s1(1) s2(1)] obtain s1' where
    s1': "job a s x = Ok s1'" "job (fst y) s1' (snd y) = Ok s2" by blast
  with s2(2) job_inv [OF Cons.prems(2,3) s1'(1)] show ?case unfolding append_Cons jobs_Cons by blast
qed

lemma block_first:
  assumes "fold_ok (do_job job) s (ys @ map (Pair a) xs @ zs) = Ok t" "a < n" "inv s" "\<forall>p\<in>set ys. fst p < n \<and> fst p \<noteq> a"
  shows "fold_ok (do_job job) s (map (Pair a) xs @ ys @ zs) = Ok t"
  using assms
proof (induction xs arbitrary: s)
  case (Cons x xs)
  from job_first [of s ys a x "map (Pair a) xs @ zs" t] Cons.prems obtain s' where
    s': "job a s x = Ok s'" "inv s'" "fold_ok (do_job job) s' (ys @ map (Pair a) xs @ zs) = Ok t" by auto
  from Cons.IH [OF s'(3) Cons.prems(2) s'(2) Cons.prems(4)] s'(1) show ?case
    by (simp only: list.map append_Cons jobs_Cons fst_conv snd_conv) blast
qed simp

lemma jobs_inv:
  "fold_ok (do_job job) s js = Ok s' \<Longrightarrow> inv s \<Longrightarrow> \<forall>p\<in>set js. fst p < n \<Longrightarrow> inv s'"
proof (induction js arbitrary: s)
  case (Cons p js)
  then obtain s1 where "job (fst p) s (snd p) = Ok s1" "fold_ok (do_job job) s1 js = Ok s'"
    unfolding jobs_Cons by blast
  with Cons job_inv [of "fst p" s "snd p" s1] show ?case by simp
qed simp

lemma block_first_after:
  assumes "fold_ok (do_job job) s (ws @ ys @ map (Pair a) xs @ zs) = Ok t" "a < n" "inv s"
    "\<forall>p\<in>set ys. fst p < n \<and> fst p \<noteq> a" "\<forall>p\<in>set ws. fst p < n"
  shows "fold_ok (do_job job) s (ws @ map (Pair a) xs @ ys @ zs) = Ok t"
proof -
  from assms(1) obtain s0 where s0: "fold_ok (do_job job) s ws = Ok s0"
    "fold_ok (do_job job) s0 (ys @ map (Pair a) xs @ zs) = Ok t"
    unfolding fold_ok_append bind_ok_Ok_iff by blast
  from block_first [OF s0(2) assms(2) jobs_inv [OF s0(1) assms(3,5)] assms(4)] s0(1) show ?thesis
    by (simp only: fold_ok_append [of _ _ ws] bind_ok.simps)
qed

text \<open>The invariant of a run: the jobs that are left lead from the shared state to the result \<open>t\<close> of the
  sequential loop, and the threads hold different shards.\<close>

definition on_course :: "'x list \<Rightarrow> 's \<Rightarrow> ('e, 's, 'x) crew \<Rightarrow> bool" where
  "on_course order t c \<longleftrightarrow> (\<exists>s. cr_shared c = Ok s \<and> inv s \<and> fold_ok (do_job job) s (jobs_left n order c) = Ok t) \<and>
     distinct (shards_taken c) \<and> (\<forall>a\<in>set (shards_taken c). a < n \<and> a < cr_next c) \<and>
     (Stopped \<in> set (cr_workers c) \<longrightarrow> n \<le> cr_next c) \<and> cr_workers c \<noteq> []"

lemma on_course_step: "crew_step n order job c c' \<Longrightarrow> on_course order t c \<Longrightarrow> on_course order t c'"
proof (induction rule: crew_step.induct)
  case (grab i us vs s)
  note oc = grab.prems [unfolded on_course_def]
  have u: "[i..<n] = i # [i + 1..<n]" using grab.hyps by (simp add: upt_conv_Cons)
  have "\<forall>a\<in>set (concat (map shard_of us)) \<union> set (concat (map shard_of vs)). a < n \<and> a < i"
    using oc by (simp add: shards_taken_def ball_Un)
  then have own: "\<forall>p\<in>set (concat (map rest_of us)). fst p < n" "\<forall>p\<in>set (concat (map rest_of vs)). fst p < n \<and> fst p \<noteq> i"
    using rests_shards [of _ us] rests_shards [of _ vs] by (blast, metis UnI2 less_irrefl)
  have "inv s" "fold_ok (do_job job) s (concat (map rest_of us) @ concat (map rest_of vs) @ map (Pair i) order @
      concat (map (\<lambda>a. map (Pair a) order) [i + 1..<n])) = Ok t"
    using oc by (simp_all add: jobs_left_def u)
  from block_first_after [OF this(2) grab.hyps this(1) own(2,1)] oc grab.hyps show ?case
    by (auto simp: on_course_def jobs_left_def shards_taken_def less_Suc_eq)
next
  case (stop i us vs s)
  then show ?case by (auto simp: on_course_def jobs_left_def shards_taken_def less_Suc_eq)
next
  case (work i us a x xs vs s)
  note oc = work.prems [unfolded on_course_def]
  have "\<forall>b\<in>set (concat (map shard_of us)). b < n \<and> b \<noteq> a" and an: "a < n"
    using oc by (auto simp: shards_taken_def)
  then have own: "\<forall>p\<in>set (concat (map rest_of us)). fst p < n \<and> fst p \<noteq> a" using rests_shards [of _ us] by blast
  have "inv s" "fold_ok (do_job job) s (concat (map rest_of us) @ (a, x) # map (Pair a) xs @ concat (map rest_of vs) @
      concat (map (\<lambda>a. map (Pair a) order) [i..<n])) = Ok t"
    using oc by (simp_all add: jobs_left_def)
  from job_first [OF this(2) an this(1) own] oc show ?case
    by (auto simp: on_course_def jobs_left_def shards_taken_def)
next
  case (next_shard i us a vs s)
  then show ?case by (auto simp: on_course_def jobs_left_def shards_taken_def)
qed

lemma on_course_start:
  "sequential n order job s = Ok t \<Longrightarrow> inv s \<Longrightarrow> on_course order t (start_crew k s)"
  by (auto simp: on_course_def start_crew_def shards_taken_def jobs_left_def sequential_def n_threads_def
      fold_ok_concat fold_ok_map do_job_def comp_def map_replicate_const)

text \<open>Whatever the interleaving, no node fails, and when the threads have been joined the shared state is
  that of the sequential loop.\<close>

lemma crew_sequential:
  assumes "crew_run n order job (start_crew k s) c" "inv s" "sequential n order job s = Ok t"
  shows "\<exists>u. cr_shared c = Ok u \<and> (joined c \<longrightarrow> u = t)"
proof -
  have "crew_run n order job c0 c \<Longrightarrow> on_course order t c0 \<Longrightarrow> on_course order t c" for c0
    by (induction rule: crew_run.induct) (auto intro: on_course_step)
  from this [OF assms(1) on_course_start [OF assms(3,2)]]
  obtain u where u: "cr_shared c = Ok u" "fold_ok (do_job job) u (jobs_left n order c) = Ok t"
    and e: "Stopped \<in> set (cr_workers c) \<Longrightarrow> n \<le> cr_next c" "cr_workers c \<noteq> []"
    unfolding on_course_def by blast
  have "u = t" if "joined c"
  proof -
    from that e(2) have "Stopped \<in> set (cr_workers c)" unfolding joined_def by (cases "cr_workers c") auto
    with e(1) have "n \<le> cr_next c" by simp
    moreover have "concat (map rest_of ws) = []" if "\<forall>w\<in>set ws. w = Stopped" for ws :: "'x worker list"
      using that by (induction ws) auto
    ultimately have "jobs_left n order c = []" using that by (simp add: jobs_left_def joined_def)
    with u(2) show ?thesis by simp
  qed
  with u(1) show ?thesis by blast
qed

end

end
