(* ===== verification/Phases.thy ===== *)
theory Phases
  imports Lookahead Cross Workers
begin

text \<open>
  The two parallel phases as crews of threads: \<open>compute_ts\<close> has one shard per instrument, \<open>compute_cs\<close>
  one per day. The nodes of an instrument read and write its own rows only, those of a day the values of
  their day, so both provide the interface \<open>shards\<close>.
\<close>

section \<open>The rows of the time-series nodes\<close>

lemma length_age_row: "age_row ar ax s = Ok r \<Longrightarrow> length r = n_d ax"
  by (auto simp: age_row_def split: if_splits outcome.splits)

lemma length_low_runs: "length (low_runs k xs) = length xs"
  by (induction xs arbitrary: k) (simp_all add: Let_def)

lemma length_foldl_keep: "(\<And>out x. length (f out x) = length out) \<Longrightarrow> length (foldl f out xs) = length out"
  by (induction xs arbitrary: out) simp_all

lemma length_revenue_interval: "length (revenue_interval ax fin rows out e) = length out"
  unfolding revenue_interval_def Let_def by (rule length_foldl_keep) simp

lemmas node_lengths = length_fill_before_list length_grid_copy length_grid_copy_bool length_replay length_replay2 length_low_runs
  length_state_machine_intervals length_dividend_loop length_dy_loop length_foldl_keep [OF length_revenue_interval]

lemma length_compute_ts_node:
  assumes "compute_ts_node ar ax p meta a R f = Ok r"
  shows "length r = n_d ax"
proof -
  have l: "length (ts_close_raw ax p meta a) = n_d ax" "length (ts_daily_return ar ax p a) = n_d ax"
    "length (ts_industry_l1 ar ax p a) = n_d ax" "length (ts_is_margin ax p a) = n_d ax" "length (ts_limit_dn ar ax R) = n_d ax"
    "length (ts_limit_up ar ax R) = n_d ax" "length (ts_susp ax p a) = n_d ax" "length (ts_dividend_st ar ax p meta a R) = n_d ax"
    "length (ts_new_list ax R) = n_d ax" "length (ts_profit_st ax p a) = n_d ax" "length (ts_revenue_st ax p meta a R) = n_d ax"
    "length (ts_risk_warn ar ax p a) = n_d ax" "length (ts_trading_st ax R) = n_d ax" "length (ts_cffoa_raw ar ax p meta a R) = n_d ax"
    "length (ts_dn_lim ax p meta a) = n_d ax" "length (ts_dy_raw ar ax p a R) = n_d ax" "length (ts_fmcap_raw ar ax p meta a R) = n_d ax"
    "length (ts_low_mc ax meta a R) = n_d ax" "length (ts_low_p ax R) = n_d ax" "length (ts_mcap_raw ar ax p meta a R) = n_d ax"
    "length (ts_mr_bal_raw ax p meta a) = n_d ax" "length (ts_ms_bal_raw ax p meta a) = n_d ax" "length (ts_ni_raw ar ax p a) = n_d ax"
    "length (ts_pb_raw ar ax p meta a R) = n_d ax" "length (ts_pcf_raw ar ax p meta a R) = n_d ax" "length (ts_pe_raw ar ax p meta a R) = n_d ax"
    "length (ts_ps_raw ar ax p meta a R) = n_d ax" "length (ts_rev_raw ax p meta a) = n_d ax" "length (ts_roa_raw ar ax p meta a) = n_d ax"
    "length (ts_roe_raw ar ax p meta a) = n_d ax" "length (ts_share_raw ax p meta a) = n_d ax" "length (ts_up_lim ax p meta a) = n_d ax"
    by (simp_all add: node_lengths ts_close_raw_def ts_daily_return_def Let_def ts_industry_l1_def ts_is_margin_def ts_limit_dn_def
        ts_limit_up_def ts_susp_def ts_dividend_st_def ts_new_list_def ts_profit_st_def ts_revenue_st_def ts_risk_warn_def
        ts_trading_st_def ts_cffoa_raw_def ts_dn_lim_def ts_dy_raw_def ts_fmcap_raw_def ts_low_mc_def ts_low_p_def ts_mcap_raw_def
        ts_mr_bal_raw_def ts_ms_bal_raw_def ts_ni_raw_def ts_pb_raw_def ts_pcf_raw_def ts_pe_raw_def ts_ps_raw_def ts_rev_raw_def
        ts_roa_raw_def ts_roe_raw_def ts_share_raw_def ts_up_lim_def scan_latest_ttm_def scan_latest_balance_def
        scan_latest_ttm_and_balance_def)
  show ?thesis
    using assms unfolding compute_ts_node.simps ts_list_age_def ts_delist_age_def
    by (cases f) (simp_all only: node.case outcome.distinct outcome.inject,
      ((drule sym, simp only: l) | (rule length_age_row, assumption))+)
qed

section \<open>Rows of different instruments\<close>

lemma mat_eqI:
  assumes "mat_ok ax m" "mat_ok ax m'" "\<And>b. b < n_a ax \<Longrightarrow> mat_ts_row ax m b = mat_ts_row ax m' b"
  shows "m = m'"
proof (rule nth_equalityI)
  show "length m = length m'" using assms(1,2) by (simp add: mat_ok_def)
  fix i assume "i < length m"
  then have i: "i < n_a ax * n_d ax" using assms(1) by (simp add: mat_ok_def grid_n_def)
  then have "0 < n_d ax" by (cases "n_d ax") auto
  then have d: "i mod n_d ax < n_d ax" and b: "i div n_d ax < n_a ax" using i by (simp_all add: less_mult_imp_div_less)
  have "m ! (i div n_d ax * n_d ax + i mod n_d ax) = m' ! (i div n_d ax * n_d ax + i mod n_d ax)"
    using mat_ts_row_nth [OF assms(1) b d] mat_ts_row_nth [OF assms(2) b d] assms(3) [OF b] by simp
  then show "m ! i = m' ! i" by simp
qed

lemma put_ts_row_commute:
  assumes "mat_ok ax m" "a < n_a ax" "b < n_a ax" "a \<noteq> b" "length r = n_d ax" "length q = n_d ax"
  shows "put_ts_row ax (put_ts_row ax m a r) b q = put_ts_row ax (put_ts_row ax m b q) a r"
  by (rule mat_eqI [of ax]) (simp_all add: mat_ok_put mat_ts_row_put assms)

lemma set_ts_row_commute:
  assumes "tensor_ok ax T" "a < n_a ax" "b < n_a ax" "a \<noteq> b" "length r = n_d ax" "length q = n_d ax"
  shows "set_ts_row ax (set_ts_row ax T f a r) g b q = set_ts_row ax (set_ts_row ax T g b q) f a r"
proof (cases "f = g")
  case True
  then show ?thesis
    using assms put_ts_row_commute [of ax "tn_mats T g" a b r q] by (simp add: set_ts_row_def tensor_ok_def)
next
  case False
  then show ?thesis by (simp add: set_ts_row_def fun_upd_twist)
qed

lemma run_ts_node_Ok:
  "run_ts_node ar ax p meta a T f = Ok T' \<longleftrightarrow>
     (\<exists>r. compute_ts_node ar ax p meta a (\<lambda>g. ts_row ax T g a) f = Ok r \<and> T' = set_ts_row ax T f a r)"
  unfolding run_ts_node_def bind_ok_Ok_iff by auto

text \<open>The instruments are independent shards.\<close>

interpretation ts: shards "n_a ax" "tensor_ok ax" "run_ts_node ar ax p meta" for ar ax p meta
proof
  show "tensor_ok ax T'" if "a < n_a ax" "tensor_ok ax T" "run_ts_node ar ax p meta a T f = Ok T'" for a T f T'
    using that length_compute_ts_node by (auto simp: run_ts_node_Ok tensor_ok_set_ts_row)
  show "\<exists>V. run_ts_node ar ax p meta a T f = Ok V \<and> run_ts_node ar ax p meta b V g = Ok T'"
    if ab: "a < n_a ax" "b < n_a ax" "a \<noteq> b" "tensor_ok ax T" "run_ts_node ar ax p meta b T g = Ok U" "run_ts_node ar ax p meta a U f = Ok T'"
    for a b T f g U T'
  proof -
    from ab(5,6) obtain q r where
      q: "compute_ts_node ar ax p meta b (\<lambda>h. ts_row ax T h b) g = Ok q" "U = set_ts_row ax T g b q" and
      r: "compute_ts_node ar ax p meta a (\<lambda>h. ts_row ax U h a) f = Ok r" "T' = set_ts_row ax U f a r"
      unfolding run_ts_node_Ok by blast
    note l = length_compute_ts_node [OF q(1)] length_compute_ts_node [OF r(1)]
    have rows: "(\<lambda>h. ts_row ax U h a) = (\<lambda>h. ts_row ax T h a)" "(\<lambda>h. ts_row ax (set_ts_row ax T f a r) h b) = (\<lambda>h. ts_row ax T h b)"
      using ab(1-4) l by (simp_all add: q(2) ts_row_set)
    have "T' = set_ts_row ax (set_ts_row ax T f a r) g b q"
      unfolding r(2) q(2) using ab(1-4) l by (intro set_ts_row_commute) auto
    moreover have "run_ts_node ar ax p meta a T f = Ok (set_ts_row ax T f a r)" using r(1) unfolding rows run_ts_node_Ok by blast
    moreover have "run_ts_node ar ax p meta b (set_ts_row ax T f a r) g = Ok (set_ts_row ax (set_ts_row ax T f a r) g b q)"
      using q(1) unfolding run_ts_node_Ok rows by blast
    ultimately show ?thesis by blast
  qed
qed

section \<open>Values of different days\<close>

lemma mat_scatter_commute:
  assumes "mat_ok ax m" "d < n_d ax" "e < n_d ax" "d \<noteq> e"
  shows "mat_scatter ax (mat_scatter ax m d r) e q = mat_scatter ax (mat_scatter ax m e q) d r"
proof (rule mat_eqI)
  have ok: "mat_ok ax (mat_scatter ax m d r)" "mat_ok ax (mat_scatter ax m e q)" using assms(1) by (simp_all add: mat_ok_def length_mat_scatter)
  show ok2: "mat_ok ax (mat_scatter ax (mat_scatter ax m d r) e q)" "mat_ok ax (mat_scatter ax (mat_scatter ax m e q) d r)"
    using assms(1) by (simp_all add: mat_ok_def length_mat_scatter)
  show "mat_ts_row ax (mat_scatter ax (mat_scatter ax m d r) e q) b = mat_ts_row ax (mat_scatter ax (mat_scatter ax m e q) d r) b"
    if "b < n_a ax" for b
    using that assms ok ok2 by (intro nth_equalityI) (auto simp: length_mat_ts_row mat_ts_row_nth mat_scatter_nth)
qed

lemma scatter_commute:
  assumes "tensor_ok ax T" "d < n_d ax" "e < n_d ax" "d \<noteq> e"
  shows "scatter_cs_row ax (scatter_cs_row ax T f d r) g e q = scatter_cs_row ax (scatter_cs_row ax T g e q) f d r"
proof (cases "f = g")
  case True
  then show ?thesis
    using assms mat_scatter_commute [of ax "tn_mats T g" d e r q] by (simp add: scatter_cs_row_def tensor_ok_def)
next
  case False
  then show ?thesis by (simp add: scatter_cs_row_def fun_upd_twist)
qed

text \<open>A factor depends on the values of its day only.\<close>

lemma mask_local:
  assumes "\<And>g. gather_cs_row ax T g d = gather_cs_row ax U g d"
  shows "mask_offmarket ax d T y = mask_offmarket ax d U y"
  by (simp add: mask_offmarket_def assms)

lemma run_cs_node_local:
  assumes "\<And>g. gather_cs_row ax T g d = gather_cs_row ax U g d" "run_cs_node ar ax d T f = Ok T'"
  shows "\<exists>r. length r = n_a ax \<and> T' = scatter_cs_row ax T f d r \<and> run_cs_node ar ax d U f = Ok (scatter_cs_row ax U f d r)"
proof -
  have f: "\<exists>r. length r = n_a ax \<and> factor_pipeline ar ax d f T (gather_cs_row ax T g d) = scatter_cs_row ax T f d r \<and>
      factor_pipeline ar ax d f U (gather_cs_row ax U g d) = scatter_cs_row ax U f d r"
    "\<exists>r. length r = n_a ax \<and> neutral_pipeline ar ax d f T (gather_cs_row ax T g d) = scatter_cs_row ax T f d r \<and>
      neutral_pipeline ar ax d f U (gather_cs_row ax U g d) = scatter_cs_row ax U f d r"
    "\<exists>r. length r = n_a ax \<and> neutral_pipeline ar ax d f T (map (inverse_of ar) (gather_cs_row ax T g d)) = scatter_cs_row ax T f d r \<and>
      neutral_pipeline ar ax d f U (map (inverse_of ar) (gather_cs_row ax U g d)) = scatter_cs_row ax U f d r" for g
    unfolding factor_pipeline_def neutral_pipeline_def Let_def assms(1) mask_local [OF assms(1)]
    by (intro exI conjI, rule_tac [2-3] refl, simp add: length_gather)+
  show ?thesis
    using assms(2) unfolding run_cs_node_def cs_bp_ttm3_def cs_cffoa_ttm12_def cs_close_def cs_cp_ttm12_def
      cs_dy_ttm12_def cs_ep_ttm12_def cs_fmcap_def cs_mcap_def cs_mr_bal_def cs_ms_bal_def cs_roa_ttm12_def cs_roe_ttm12_def
      cs_sp_ttm12_def
    by (cases f) (simp_all only: node.case outcome.distinct outcome.inject, (use f in metis)+)
qed

text \<open>The days are independent shards.\<close>

interpretation cs: shards "n_d ax" "tensor_ok ax" "run_cs_node ar ax" for ar ax
proof
  show "tensor_ok ax T'" if "d < n_d ax" "tensor_ok ax T" "run_cs_node ar ax d T f = Ok T'" for d T f T'
    using that run_cs_node_local [OF refl that(3)] tensor_ok_scatter by blast
  show "\<exists>V. run_cs_node ar ax d T f = Ok V \<and> run_cs_node ar ax e V g = Ok T'"
    if de: "d < n_d ax" "e < n_d ax" "d \<noteq> e" "tensor_ok ax T" "run_cs_node ar ax e T g = Ok U" "run_cs_node ar ax d U f = Ok T'"
    for d e T f g U T'
  proof -
    from run_cs_node_local [OF refl de(5)] obtain q where q: "length q = n_a ax" "U = scatter_cs_row ax T g e q" by blast
    have dT: "gather_cs_row ax U h d = gather_cs_row ax T h d" for h using de(1-4) q by (simp add: gather_scatter)
    from run_cs_node_local [OF dT de(6)] obtain r where
      r: "length r = n_a ax" "T' = scatter_cs_row ax U f d r" "run_cs_node ar ax d T f = Ok (scatter_cs_row ax T f d r)" by blast
    have eT: "gather_cs_row ax T h e = gather_cs_row ax (scatter_cs_row ax T f d r) h e" for h
      using de(1-4) r(1) by (simp add: gather_scatter)
    from run_cs_node_local [OF eT de(5)] obtain q' where
      q': "length q' = n_a ax" "U = scatter_cs_row ax T g e q'"
      "run_cs_node ar ax e (scatter_cs_row ax T f d r) g = Ok (scatter_cs_row ax (scatter_cs_row ax T f d r) g e q')" by blast
    have "q' = gather_cs_row ax U g e" unfolding q'(2) using de(2,4) q'(1) by (simp add: gather_scatter)
    also have "\<dots> = q" unfolding q(2) using de(2,4) q(1) by (simp add: gather_scatter)
    finally have "scatter_cs_row ax (scatter_cs_row ax T f d r) g e q' = T'"
      unfolding r(2) q(2) using de(1-4) by (simp add: scatter_commute)
    with r(3) q'(3) show ?thesis by simp
  qed
qed

lemma compute_ts_sequential: "compute_ts ar ax p meta order [0..<n_a ax] T = sequential (n_a ax) order (run_ts_node ar ax p meta) T"
  by (simp add: compute_ts_def sequential_def)

lemma compute_cs_sequential: "compute_cs ar ax order [0..<n_d ax] T = sequential (n_d ax) order (run_cs_node ar ax) T"
  by (simp add: compute_cs_def sequential_def)

text \<open>A run of two threads on two shards, for the examples: the second shard is worked on first.\<close>

lemma two_threads:
  assumes "job 1 s x = Ok u" "job 0 u x = Ok v"
  shows "\<exists>c. crew_run 2 [x] job (start_crew 2 s) c \<and> joined c"
proof -
  let ?c = "\<lambda>i ws t. \<lparr>cr_next = i, cr_workers = ws, cr_shared = Ok t\<rparr>"
  have s1: "crew_step 2 [x] job (?c 0 [Idle, Idle] s) (?c 1 [Busy 0 [x], Idle] s)"
    using grab [of 0 2 "[x]" job "[]" "[Idle]" s] by simp
  have s2: "crew_step 2 [x] job (?c 1 [Busy 0 [x], Idle] s) (?c 2 [Busy 0 [x], Busy 1 [x]] s)"
    using grab [of 1 2 "[x]" job "[Busy 0 [x]]" "[]" s] by (simp add: numeral_2_eq_2)
  have s3: "crew_step 2 [x] job (?c 2 [Busy 0 [x], Busy 1 [x]] s) (?c 2 [Busy 0 [x], Busy 1 []] u)"
    using work [of 2 "[x]" job 2 "[Busy 0 [x]]" 1 x "[]" "[]" s] assms(1) by simp
  have s4: "crew_step 2 [x] job (?c 2 [Busy 0 [x], Busy 1 []] u) (?c 2 [Busy 0 [], Busy 1 []] v)"
    using work [of 2 "[x]" job 2 "[]" 0 x "[]" "[Busy 1 []]" u] assms(2) by simp
  have s5: "crew_step 2 [x] job (?c 2 [Busy 0 [], Busy 1 []] v) (?c 2 [Idle, Busy 1 []] v)"
    using next_shard [of 2 "[x]" job 2 "[]" 0 "[Busy 1 []]" v] by simp
  have s6: "crew_step 2 [x] job (?c 2 [Idle, Busy 1 []] v) (?c 3 [Stopped, Busy 1 []] v)"
    using stop [of 2 2 "[x]" job "[]" "[Busy 1 []]" v] by (simp add: eval_nat_numeral)
  have s7: "crew_step 2 [x] job (?c 3 [Stopped, Busy 1 []] v) (?c 3 [Stopped, Idle] v)"
    using next_shard [of 2 "[x]" job 3 "[Stopped]" 1 "[]" v] by simp
  have s8: "crew_step 2 [x] job (?c 3 [Stopped, Idle] v) (?c 4 [Stopped, Stopped] v)"
    using stop [of 2 3 "[x]" job "[Stopped]" "[]" v] by (simp add: eval_nat_numeral)
  have "start_crew 2 s = ?c 0 [Idle, Idle] s" by (simp add: start_crew_def n_threads_def numeral_2_eq_2)
  with stay [of 2 "[x]" job "?c 0 [Idle, Idle] s"] s1 s2 s3 s4 s5 s6 s7 s8 have "crew_run 2 [x] job (start_crew 2 s) (?c 4 [Stopped, Stopped] v)"
    by (metis (no_types, lifting) move)
  then show ?thesis by (auto simp: joined_def)
qed

section \<open>Properties\<close>

text \<open>C23. The threads of \<open>compute_ts\<close> are deterministic: on any number of cores and in any interleaving, at the
  granularity of one node of one instrument, no run fails and when all threads have been joined the
  tensor is the one of the loop over the instruments in order.\<close>

theorem parallel_ts_deterministic:
  assumes "crew_run (n_a ax) order (run_ts_node ar ax p meta) (start_crew cores T) c" "tensor_ok ax T"
    "compute_ts ar ax p meta order [0..<n_a ax] T = Ok T'"
  shows "\<exists>U. cr_shared c = Ok U \<and> (joined c \<longrightarrow> U = T')"
  using assms unfolding compute_ts_sequential by (rule ts.crew_sequential)

lemma parallel_ts_deterministic_witness:
  "\<exists>c T'. crew_run (n_a sample_axes) [Low_p] (run_ts_node exact_arith sample_axes (build_pool Fin sample_axes (\<lambda>_. [])) sample_meta)
       (start_crew 2 (new_tensor sample_axes 0)) c \<and> joined c \<and>
     compute_ts exact_arith sample_axes (build_pool Fin sample_axes (\<lambda>_. [])) sample_meta [Low_p] [0..<n_a sample_axes]
       (new_tensor sample_axes 0) = Ok T' \<and> cr_shared c = Ok T'"
proof -
  let ?job = "run_ts_node exact_arith sample_axes (build_pool Fin sample_axes (\<lambda>_. [])) sample_meta" and ?T = "new_tensor sample_axes 0"
  have ok: "\<exists>U. ?job a T Low_p = Ok U" for a T by (simp add: run_ts_node_def compute_ts_node.simps)
  obtain U V where jobs: "?job 1 ?T Low_p = Ok U" "?job 0 U Low_p = Ok V" using ok by meson
  obtain c where run: "crew_run 2 [Low_p] ?job (start_crew 2 ?T) c" "joined c"
    using two_threads [where job = ?job, OF jobs] by blast
  obtain T' where T': "compute_ts exact_arith sample_axes (build_pool Fin sample_axes (\<lambda>_. [])) sample_meta [Low_p] [0..<n_a sample_axes] ?T = Ok T'"
    using sample_axes_ok(3) by (simp add: compute_ts_def run_ts_node_def compute_ts_node.simps upt_rec)
  from parallel_ts_deterministic [OF _ tensor_ok_new T', of 2 c] run T' sample_axes_ok(3) show ?thesis by auto
qed

text \<open>C24. The threads of \<open>compute_cs\<close> are deterministic in the same way, with the days as shards.\<close>

theorem parallel_cs_deterministic:
  assumes "crew_run (n_d ax) order (run_cs_node ar ax) (start_crew cores T) c" "tensor_ok ax T"
    "compute_cs ar ax order [0..<n_d ax] T = Ok T'"
  shows "\<exists>U. cr_shared c = Ok U \<and> (joined c \<longrightarrow> U = T')"
  using assms unfolding compute_cs_sequential by (rule cs.crew_sequential)

lemma parallel_cs_deterministic_witness:
  "\<exists>c T'. crew_run (n_d sample_axes) [Mcap] (run_cs_node exact_arith sample_axes) (start_crew 2 (new_tensor sample_axes 0)) c \<and> joined c \<and>
     compute_cs exact_arith sample_axes [Mcap] [0..<n_d sample_axes] (new_tensor sample_axes 0) = Ok T' \<and> cr_shared c = Ok T'"
proof -
  let ?job = "run_cs_node exact_arith sample_axes" and ?T = "new_tensor sample_axes 0"
  obtain c where run: "crew_run 2 [Mcap] ?job (start_crew 2 ?T) c" "joined c"
    using two_threads [of ?job ?T Mcap] by (auto simp: run_cs_node_def)
  obtain T' where T': "compute_cs exact_arith sample_axes [Mcap] [0..<n_d sample_axes] ?T = Ok T'"
    using sample_axes_ok(2) by (simp add: compute_cs_def run_cs_node_def upt_rec)
  from parallel_cs_deterministic [OF _ tensor_ok_new T', of 2 c] run T' sample_axes_ok(2) show ?thesis by auto
qed

text \<open>C25. The phases end: every step of a thread uses up work, so there is no endless run, and whatever the state, all
  threads have been joined, or a node has failed, or some thread can take a step.\<close>

theorem crew_terminates:
  "wfP (\<lambda>c' c. crew_step n order job c c') \<and>
     (joined c \<or> (\<exists>e. cr_shared c = Fail e) \<or> (\<exists>c'. crew_step n order job c c'))"
proof
  show "wfP (\<lambda>c' c. crew_step n order job c c')"
    by (rule wfp_if_convertible_to_nat [where f = "work_left n order"]) (rule crew_step_decreases)
  show "joined c \<or> (\<exists>e. cr_shared c = Fail e) \<or> (\<exists>c'. crew_step n order job c c')"
    using crew_progress [of c] by (cases "cr_shared c") blast+
qed

end
