(* ===== verification/Network.thy ===== *)
theory Network
  imports Phases
begin

text \<open>
  The declared feature network: the \<open>FeatureSpec\<close> of every node (\<open>cpp/include/feature/def\<close>), the order
  of computation that follows from the roots (\<open>cpp/include/feature/registry.hpp\<close>), and the phases of
  \<open>build\<close> over it (\<open>cpp/src/feature/build.cpp\<close>). It is shown that the declarations are true: the network has
  no cycle and no time-series node below a cross-section node, every node reads only what it declares,
  every node has the compute function of its axis, and what is declared finite is finite.

  The documentation texts of a spec (Chinese name, formula, assumption) are only printed; they are an
  argument. The compute functions of a spec are those that the dispatchers call.
\<close>

section \<open>The declarations\<close>

type_synonym docs = "string \<Rightarrow> string \<times> string \<times> string"

definition declare_node :: "string \<Rightarrow> docs \<Rightarrow> kind \<Rightarrow> axis \<Rightarrow> node list \<Rightarrow> bool \<Rightarrow> node feature_spec" where
  "declare_node name doc kind axis deps must =
     (case doc name of (cn, formula, assumption) \<Rightarrow>
        \<lparr>fs_name = name, fs_cn_name = cn, fs_kind = kind, fs_axis = axis, fs_deps = deps, fs_must_be_finite = must,
         fs_formula = formula, fs_assumption = assumption\<rparr>)"

definition close_raw_spec :: "docs \<Rightarrow> node feature_spec" where
  "close_raw_spec doc = declare_node ''close_raw'' doc Inter_kind TimeSeries [] False"

definition daily_return_spec :: "docs \<Rightarrow> node feature_spec" where
  "daily_return_spec doc = declare_node ''daily_return'' doc Inter_kind TimeSeries [] False"

definition delist_age_spec :: "docs \<Rightarrow> node feature_spec" where
  "delist_age_spec doc = declare_node ''delist_age'' doc Inter_kind TimeSeries [] False"

definition industry_l1_spec :: "docs \<Rightarrow> node feature_spec" where
  "industry_l1_spec doc = declare_node ''industry_l1'' doc Inter_kind TimeSeries [] False"

definition is_margin_spec :: "docs \<Rightarrow> node feature_spec" where
  "is_margin_spec doc = declare_node ''is_margin'' doc Inter_kind TimeSeries [] True"

definition limit_dn_spec :: "docs \<Rightarrow> node feature_spec" where
  "limit_dn_spec doc = declare_node ''limit_dn'' doc Inter_kind TimeSeries [Close_raw, Dn_lim] True"

definition limit_up_spec :: "docs \<Rightarrow> node feature_spec" where
  "limit_up_spec doc = declare_node ''limit_up'' doc Inter_kind TimeSeries [Close_raw, Up_lim] True"

definition list_age_spec :: "docs \<Rightarrow> node feature_spec" where
  "list_age_spec doc = declare_node ''list_age'' doc Inter_kind TimeSeries [] False"

definition susp_spec :: "docs \<Rightarrow> node feature_spec" where
  "susp_spec doc = declare_node ''susp'' doc Inter_kind TimeSeries [] True"

definition dividend_st_spec :: "docs \<Rightarrow> node feature_spec" where
  "dividend_st_spec doc = declare_node ''dividend_st'' doc Filter_kind TimeSeries [Share_raw, Ni_raw] True"

definition new_list_spec :: "docs \<Rightarrow> node feature_spec" where
  "new_list_spec doc = declare_node ''new_list'' doc Filter_kind TimeSeries [List_age] True"

definition profit_st_spec :: "docs \<Rightarrow> node feature_spec" where
  "profit_st_spec doc = declare_node ''profit_st'' doc Filter_kind TimeSeries [] True"

definition revenue_st_spec :: "docs \<Rightarrow> node feature_spec" where
  "revenue_st_spec doc = declare_node ''revenue_st'' doc Filter_kind TimeSeries [Rev_raw] True"

definition risk_warn_spec :: "docs \<Rightarrow> node feature_spec" where
  "risk_warn_spec doc = declare_node ''risk_warn'' doc Filter_kind TimeSeries [] True"

definition trading_st_spec :: "docs \<Rightarrow> node feature_spec" where
  "trading_st_spec doc = declare_node ''trading_st'' doc Filter_kind TimeSeries [Low_p, Low_mc] True"

definition bp_ttm3_spec :: "docs \<Rightarrow> node feature_spec" where
  "bp_ttm3_spec doc = declare_node ''bp_ttm3'' doc Factor_kind CrossSection [Pb_raw, Mcap_raw, Industry_l1, List_age, Delist_age] True"

definition cffoa_raw_spec :: "docs \<Rightarrow> node feature_spec" where
  "cffoa_raw_spec doc = declare_node ''cffoa_raw'' doc Inter_kind TimeSeries [Mcap_raw] False"

definition cffoa_ttm12_spec :: "docs \<Rightarrow> node feature_spec" where
  "cffoa_ttm12_spec doc = declare_node ''cffoa_ttm12'' doc Factor_kind CrossSection [Cffoa_raw, List_age, Delist_age] True"

definition close_spec :: "docs \<Rightarrow> node feature_spec" where
  "close_spec doc = declare_node ''close'' doc Factor_kind CrossSection [Close_raw, List_age, Delist_age] True"

definition cp_ttm12_spec :: "docs \<Rightarrow> node feature_spec" where
  "cp_ttm12_spec doc = declare_node ''cp_ttm12'' doc Factor_kind CrossSection [Pcf_raw, Mcap_raw, Industry_l1, List_age, Delist_age] True"

definition dn_lim_spec :: "docs \<Rightarrow> node feature_spec" where
  "dn_lim_spec doc = declare_node ''dn_lim'' doc Inter_kind TimeSeries [] False"

definition dy_raw_spec :: "docs \<Rightarrow> node feature_spec" where
  "dy_raw_spec doc = declare_node ''dy_raw'' doc Inter_kind TimeSeries [Mcap_raw] False"

definition dy_ttm12_spec :: "docs \<Rightarrow> node feature_spec" where
  "dy_ttm12_spec doc = declare_node ''dy_ttm12'' doc Factor_kind CrossSection [Dy_raw, Mcap_raw, Industry_l1, List_age, Delist_age] True"

definition ep_ttm12_spec :: "docs \<Rightarrow> node feature_spec" where
  "ep_ttm12_spec doc = declare_node ''ep_ttm12'' doc Factor_kind CrossSection [Pe_raw, Mcap_raw, Industry_l1, List_age, Delist_age] True"

definition fmcap_spec :: "docs \<Rightarrow> node feature_spec" where
  "fmcap_spec doc = declare_node ''fmcap'' doc Factor_kind CrossSection [Fmcap_raw, List_age, Delist_age] True"

definition fmcap_raw_spec :: "docs \<Rightarrow> node feature_spec" where
  "fmcap_raw_spec doc = declare_node ''fmcap_raw'' doc Inter_kind TimeSeries [Close_raw] False"

definition low_mc_spec :: "docs \<Rightarrow> node feature_spec" where
  "low_mc_spec doc = declare_node ''low_mc'' doc Inter_kind TimeSeries [Mcap_raw] True"

definition low_p_spec :: "docs \<Rightarrow> node feature_spec" where
  "low_p_spec doc = declare_node ''low_p'' doc Inter_kind TimeSeries [Close_raw] True"

definition mcap_spec :: "docs \<Rightarrow> node feature_spec" where
  "mcap_spec doc = declare_node ''mcap'' doc Factor_kind CrossSection [Mcap_raw, List_age, Delist_age] True"

definition mcap_raw_spec :: "docs \<Rightarrow> node feature_spec" where
  "mcap_raw_spec doc = declare_node ''mcap_raw'' doc Inter_kind TimeSeries [Close_raw] False"

definition mr_bal_spec :: "docs \<Rightarrow> node feature_spec" where
  "mr_bal_spec doc = declare_node ''mr_bal'' doc Factor_kind CrossSection [Mr_bal_raw, List_age, Delist_age] True"

definition mr_bal_raw_spec :: "docs \<Rightarrow> node feature_spec" where
  "mr_bal_raw_spec doc = declare_node ''mr_bal_raw'' doc Inter_kind TimeSeries [] False"

definition ms_bal_spec :: "docs \<Rightarrow> node feature_spec" where
  "ms_bal_spec doc = declare_node ''ms_bal'' doc Factor_kind CrossSection [Ms_bal_raw, List_age, Delist_age] True"

definition ms_bal_raw_spec :: "docs \<Rightarrow> node feature_spec" where
  "ms_bal_raw_spec doc = declare_node ''ms_bal_raw'' doc Inter_kind TimeSeries [] False"

definition ni_raw_spec :: "docs \<Rightarrow> node feature_spec" where
  "ni_raw_spec doc = declare_node ''ni_raw'' doc Inter_kind TimeSeries [] False"

definition pb_raw_spec :: "docs \<Rightarrow> node feature_spec" where
  "pb_raw_spec doc = declare_node ''pb_raw'' doc Inter_kind TimeSeries [Mcap_raw] False"

definition pcf_raw_spec :: "docs \<Rightarrow> node feature_spec" where
  "pcf_raw_spec doc = declare_node ''pcf_raw'' doc Inter_kind TimeSeries [Mcap_raw] False"

definition pe_raw_spec :: "docs \<Rightarrow> node feature_spec" where
  "pe_raw_spec doc = declare_node ''pe_raw'' doc Inter_kind TimeSeries [Mcap_raw] False"

definition ps_raw_spec :: "docs \<Rightarrow> node feature_spec" where
  "ps_raw_spec doc = declare_node ''ps_raw'' doc Inter_kind TimeSeries [Mcap_raw] False"

definition rev_raw_spec :: "docs \<Rightarrow> node feature_spec" where
  "rev_raw_spec doc = declare_node ''rev_raw'' doc Inter_kind TimeSeries [] False"

definition roa_raw_spec :: "docs \<Rightarrow> node feature_spec" where
  "roa_raw_spec doc = declare_node ''roa_raw'' doc Inter_kind TimeSeries [] False"

definition roa_ttm12_spec :: "docs \<Rightarrow> node feature_spec" where
  "roa_ttm12_spec doc = declare_node ''roa_ttm12'' doc Factor_kind CrossSection [Roa_raw, Mcap_raw, Industry_l1, List_age, Delist_age] True"

definition roe_raw_spec :: "docs \<Rightarrow> node feature_spec" where
  "roe_raw_spec doc = declare_node ''roe_raw'' doc Inter_kind TimeSeries [] False"

definition roe_ttm12_spec :: "docs \<Rightarrow> node feature_spec" where
  "roe_ttm12_spec doc = declare_node ''roe_ttm12'' doc Factor_kind CrossSection [Roe_raw, Mcap_raw, Industry_l1, List_age, Delist_age] True"

definition share_raw_spec :: "docs \<Rightarrow> node feature_spec" where
  "share_raw_spec doc = declare_node ''share_raw'' doc Inter_kind TimeSeries [] False"

definition sp_ttm12_spec :: "docs \<Rightarrow> node feature_spec" where
  "sp_ttm12_spec doc = declare_node ''sp_ttm12'' doc Factor_kind CrossSection [Ps_raw, Mcap_raw, Industry_l1, List_age, Delist_age] True"

definition up_lim_spec :: "docs \<Rightarrow> node feature_spec" where
  "up_lim_spec doc = declare_node ''up_lim'' doc Inter_kind TimeSeries [] False"

definition network :: "docs \<Rightarrow> node graph" where
  "network doc =
     [(Close_raw, close_raw_spec doc), (Daily_return, daily_return_spec doc), (Delist_age, delist_age_spec doc), (Industry_l1, industry_l1_spec doc),
      (Is_margin, is_margin_spec doc), (Limit_dn, limit_dn_spec doc), (Limit_up, limit_up_spec doc), (List_age, list_age_spec doc),
      (Susp, susp_spec doc), (Dividend_st, dividend_st_spec doc), (New_list, new_list_spec doc), (Profit_st, profit_st_spec doc),
      (Revenue_st, revenue_st_spec doc), (Risk_warn, risk_warn_spec doc), (Trading_st, trading_st_spec doc), (Bp_ttm3, bp_ttm3_spec doc),
      (Cffoa_raw, cffoa_raw_spec doc), (Cffoa_ttm12, cffoa_ttm12_spec doc), (Close, close_spec doc), (Cp_ttm12, cp_ttm12_spec doc),
      (Dn_lim, dn_lim_spec doc), (Dy_raw, dy_raw_spec doc), (Dy_ttm12, dy_ttm12_spec doc), (Ep_ttm12, ep_ttm12_spec doc),
      (Fmcap, fmcap_spec doc), (Fmcap_raw, fmcap_raw_spec doc), (Low_mc, low_mc_spec doc), (Low_p, low_p_spec doc),
      (Mcap, mcap_spec doc), (Mcap_raw, mcap_raw_spec doc), (Mr_bal, mr_bal_spec doc), (Mr_bal_raw, mr_bal_raw_spec doc),
      (Ms_bal, ms_bal_spec doc), (Ms_bal_raw, ms_bal_raw_spec doc), (Ni_raw, ni_raw_spec doc), (Pb_raw, pb_raw_spec doc),
      (Pcf_raw, pcf_raw_spec doc), (Pe_raw, pe_raw_spec doc), (Ps_raw, ps_raw_spec doc), (Rev_raw, rev_raw_spec doc),
      (Roa_raw, roa_raw_spec doc), (Roa_ttm12, roa_ttm12_spec doc), (Roe_raw, roe_raw_spec doc), (Roe_ttm12, roe_ttm12_spec doc),
      (Share_raw, share_raw_spec doc), (Sp_ttm12, sp_ttm12_spec doc), (Up_lim, up_lim_spec doc)]"

lemmas node_specs = declare_node_def close_raw_spec_def daily_return_spec_def delist_age_spec_def industry_l1_spec_def is_margin_spec_def limit_dn_spec_def limit_up_spec_def list_age_spec_def susp_spec_def dividend_st_spec_def new_list_spec_def profit_st_spec_def revenue_st_spec_def risk_warn_spec_def trading_st_spec_def bp_ttm3_spec_def cffoa_raw_spec_def cffoa_ttm12_spec_def close_spec_def cp_ttm12_spec_def dn_lim_spec_def dy_raw_spec_def dy_ttm12_spec_def ep_ttm12_spec_def fmcap_spec_def fmcap_raw_spec_def low_mc_spec_def low_p_spec_def mcap_spec_def mcap_raw_spec_def mr_bal_spec_def mr_bal_raw_spec_def ms_bal_spec_def ms_bal_raw_spec_def ni_raw_spec_def pb_raw_spec_def pcf_raw_spec_def pe_raw_spec_def ps_raw_spec_def rev_raw_spec_def roa_raw_spec_def roa_ttm12_spec_def roe_raw_spec_def roe_ttm12_spec_def share_raw_spec_def sp_ttm12_spec_def up_lim_spec_def

text \<open>The spec of a node, and the depth of a node in the network: every dependency lies deeper.\<close>

definition spec_of :: "docs \<Rightarrow> node \<Rightarrow> node feature_spec" where
  "spec_of doc f = the (map_of (network doc) f)"

fun depth :: "node \<Rightarrow> nat" where
  "depth f = (case f of
     Close_raw \<Rightarrow> 0 | Mcap_raw \<Rightarrow> 1 | Fmcap_raw \<Rightarrow> 1 | Low_p \<Rightarrow> 1 | Limit_up \<Rightarrow> 1 | Limit_dn \<Rightarrow> 1
   | Low_mc \<Rightarrow> 2 | Dividend_st \<Rightarrow> 1 | New_list \<Rightarrow> 1 | Revenue_st \<Rightarrow> 1 | Trading_st \<Rightarrow> 3
   | Pb_raw \<Rightarrow> 2 | Pcf_raw \<Rightarrow> 2 | Pe_raw \<Rightarrow> 2 | Ps_raw \<Rightarrow> 2 | Dy_raw \<Rightarrow> 2 | Cffoa_raw \<Rightarrow> 2
   | Bp_ttm3 \<Rightarrow> 9 | Cffoa_ttm12 \<Rightarrow> 9 | Close \<Rightarrow> 9 | Cp_ttm12 \<Rightarrow> 9 | Dy_ttm12 \<Rightarrow> 9 | Ep_ttm12 \<Rightarrow> 9 | Fmcap \<Rightarrow> 9 | Mcap \<Rightarrow> 9
   | Mr_bal \<Rightarrow> 9 | Ms_bal \<Rightarrow> 9 | Roa_ttm12 \<Rightarrow> 9 | Roe_ttm12 \<Rightarrow> 9 | Sp_ttm12 \<Rightarrow> 9 | _ \<Rightarrow> 0)"

lemma network_complete: "\<exists>s. map_of (network doc) f = Some s"
  by (cases f) (simp_all add: network_def)

lemma network_spec: "map_of (network doc) f = Some (spec_of doc f)"
  using network_complete [of doc f] by (auto simp: spec_of_def)

lemma spec_simps:
  "spec_of doc Close_raw = close_raw_spec doc"
  "spec_of doc Daily_return = daily_return_spec doc"
  "spec_of doc Delist_age = delist_age_spec doc"
  "spec_of doc Industry_l1 = industry_l1_spec doc"
  "spec_of doc Is_margin = is_margin_spec doc"
  "spec_of doc Limit_dn = limit_dn_spec doc"
  "spec_of doc Limit_up = limit_up_spec doc"
  "spec_of doc List_age = list_age_spec doc"
  "spec_of doc Susp = susp_spec doc"
  "spec_of doc Dividend_st = dividend_st_spec doc"
  "spec_of doc New_list = new_list_spec doc"
  "spec_of doc Profit_st = profit_st_spec doc"
  "spec_of doc Revenue_st = revenue_st_spec doc"
  "spec_of doc Risk_warn = risk_warn_spec doc"
  "spec_of doc Trading_st = trading_st_spec doc"
  "spec_of doc Bp_ttm3 = bp_ttm3_spec doc"
  "spec_of doc Cffoa_raw = cffoa_raw_spec doc"
  "spec_of doc Cffoa_ttm12 = cffoa_ttm12_spec doc"
  "spec_of doc Close = close_spec doc"
  "spec_of doc Cp_ttm12 = cp_ttm12_spec doc"
  "spec_of doc Dn_lim = dn_lim_spec doc"
  "spec_of doc Dy_raw = dy_raw_spec doc"
  "spec_of doc Dy_ttm12 = dy_ttm12_spec doc"
  "spec_of doc Ep_ttm12 = ep_ttm12_spec doc"
  "spec_of doc Fmcap = fmcap_spec doc"
  "spec_of doc Fmcap_raw = fmcap_raw_spec doc"
  "spec_of doc Low_mc = low_mc_spec doc"
  "spec_of doc Low_p = low_p_spec doc"
  "spec_of doc Mcap = mcap_spec doc"
  "spec_of doc Mcap_raw = mcap_raw_spec doc"
  "spec_of doc Mr_bal = mr_bal_spec doc"
  "spec_of doc Mr_bal_raw = mr_bal_raw_spec doc"
  "spec_of doc Ms_bal = ms_bal_spec doc"
  "spec_of doc Ms_bal_raw = ms_bal_raw_spec doc"
  "spec_of doc Ni_raw = ni_raw_spec doc"
  "spec_of doc Pb_raw = pb_raw_spec doc"
  "spec_of doc Pcf_raw = pcf_raw_spec doc"
  "spec_of doc Pe_raw = pe_raw_spec doc"
  "spec_of doc Ps_raw = ps_raw_spec doc"
  "spec_of doc Rev_raw = rev_raw_spec doc"
  "spec_of doc Roa_raw = roa_raw_spec doc"
  "spec_of doc Roa_ttm12 = roa_ttm12_spec doc"
  "spec_of doc Roe_raw = roe_raw_spec doc"
  "spec_of doc Roe_ttm12 = roe_ttm12_spec doc"
  "spec_of doc Share_raw = share_raw_spec doc"
  "spec_of doc Sp_ttm12 = sp_ttm12_spec doc"
  "spec_of doc Up_lim = up_lim_spec doc"
  by (simp_all add: spec_of_def network_def)

lemma network_depth: "list_all (\<lambda>d. depth d < depth f) (fs_deps (spec_of doc f))"
  by (cases f) (simp_all add: spec_simps node_specs split: prod.split)

lemma network_axis: "fs_axis (spec_of doc f) = (if depth f = 9 then CrossSection else TimeSeries)"
  by (cases f) (simp_all add: spec_simps node_specs split: prod.split)

lemma depth_le: "depth f \<le> 9"
  by (cases f) simp_all

declare depth.simps [simp del]

lemma network_axes:
  "fs_axis (spec_of doc f) = TimeSeries \<Longrightarrow> d \<in> set (fs_deps (spec_of doc f)) \<Longrightarrow> fs_axis (spec_of doc d) = TimeSeries"
  using network_depth [of f doc] depth_le [of f] by (fastforce simp: network_axis list_all_iff split: if_splits)

lemma network_edge: "(f, d) \<in> edges (network doc) \<Longrightarrow> depth d < depth f"
  using network_depth [of f doc] network_spec [of doc f] by (auto simp: edges_def list_all_iff)

lemma network_path: "(f, d) \<in> (edges (network doc))\<^sup>+ \<Longrightarrow> depth d < depth f"
  by (induction rule: trancl_induct) (auto dest: network_edge)

lemma network_no_defect: "\<not> defect (network doc) e f"
proof -
  have "\<not> bad_axes (network doc) (spec_of doc f) d" if "d \<in> set (fs_deps (spec_of doc f))" for d
    using that network_axes [of doc f d] network_spec [of doc d] by (auto simp: bad_axes_def)
  then show ?thesis
    using network_path [of f f doc] network_spec [of doc f] by (cases e) (auto simp: defect_def)
qed

section \<open>What a node reads\<close>

lemma ts_reads_declared:
  assumes "list_all (\<lambda>g. R g = R' g) (fs_deps (spec_of doc f))"
  shows "compute_ts_node ar ax p meta a R f = compute_ts_node ar ax p meta a R' f"
  using assms
  by (cases f) (simp_all add: compute_ts_node.simps spec_simps node_specs ts_limit_dn_def ts_limit_up_def ts_dividend_st_def
      ts_new_list_def ts_revenue_st_def ts_trading_st_def ts_cffoa_raw_def ts_dy_raw_def ts_fmcap_raw_def ts_low_mc_def ts_low_p_def
      ts_mcap_raw_def ts_pb_raw_def ts_pcf_raw_def ts_pe_raw_def ts_ps_raw_def split: prod.splits)

lemma factor_row:
  assumes "gather_cs_row ax T List_age d = gather_cs_row ax U List_age d" "gather_cs_row ax T Delist_age d = gather_cs_row ax U Delist_age d"
  shows "\<exists>r. factor_pipeline ar ax d f T y = scatter_cs_row ax T f d r \<and> factor_pipeline ar ax d f U y = scatter_cs_row ax U f d r"
  using assms by (auto simp: factor_pipeline_def mask_offmarket_def Let_def)

lemma neutral_row:
  assumes "gather_cs_row ax T List_age d = gather_cs_row ax U List_age d" "gather_cs_row ax T Delist_age d = gather_cs_row ax U Delist_age d"
    "gather_cs_row ax T Mcap_raw d = gather_cs_row ax U Mcap_raw d" "gather_cs_row ax T Industry_l1 d = gather_cs_row ax U Industry_l1 d"
  shows "\<exists>r. neutral_pipeline ar ax d f T y = scatter_cs_row ax T f d r \<and> neutral_pipeline ar ax d f U y = scatter_cs_row ax U f d r"
  using assms by (auto simp: neutral_pipeline_def mask_offmarket_def Let_def)

lemma cs_reads_declared:
  assumes "list_all (\<lambda>g. gather_cs_row ax T g d = gather_cs_row ax U g d) (fs_deps (spec_of doc f))" "depth f = 9"
  shows "\<exists>r. run_cs_node ar ax d T f = Ok (scatter_cs_row ax T f d r) \<and> run_cs_node ar ax d U f = Ok (scatter_cs_row ax U f d r)"
  using assms
  by (cases f) (simp_all add: depth.simps run_cs_node_def spec_simps node_specs factor_row neutral_row cs_bp_ttm3_def cs_cffoa_ttm12_def
      cs_close_def cs_cp_ttm12_def cs_dy_ttm12_def cs_ep_ttm12_def cs_fmcap_def cs_mcap_def cs_mr_bal_def cs_ms_bal_def
      cs_roa_ttm12_def cs_roe_ttm12_def cs_sp_ttm12_def split: prod.splits)

text \<open>The dispatch finds the compute function of the axis.\<close>

lemma ts_not_null: "depth f \<noteq> 9 \<Longrightarrow> compute_ts_node ar ax p meta a R f \<noteq> Fail NullCompute"
  by (cases f) (auto simp: compute_ts_node.simps depth.simps ts_list_age_def ts_delist_age_def age_row_def split: outcome.splits)

lemma factor_depth: "fs_kind (spec_of doc f) = Factor_kind \<Longrightarrow> depth f = 9"
  by (cases f) (simp_all add: depth.simps spec_simps node_specs split: prod.splits)

section \<open>The order of computation\<close>

lemma network_topo_order:
  "\<exists>order. reachable_topo_order (network doc) roots = Ok order \<and> topological (network doc) order \<and> set order = reachable (network doc) roots"
proof (cases "reachable_topo_order (network doc) roots")
  case (Fail e)
  with visit_roots_fails [of "network doc" "[]" roots e] network_no_defect show ?thesis by (auto simp: reachable_topo_order_def)
qed (use topo_order_facts in blast)

lemma set_filter_axis:
  "set (filter_axis (network doc) xs TimeSeries) = {f \<in> set xs. depth f \<noteq> 9}"
  "set (filter_axis (network doc) xs CrossSection) = {f \<in> set xs. depth f = 9}"
  by (auto simp: filter_axis_filter has_axis_def network_spec network_axis split: if_splits)

section \<open>What is declared finite\<close>

text \<open>The status grid holds the four states.\<close>

definition status_ok :: "axes \<Rightarrow> pit_pool \<Rightarrow> bool" where
  "status_ok ax p \<longleftrightarrow> length (gt_st_status (pp_status p)) = grid_n ax \<and> set (gt_st_status (pp_status p)) \<subseteq> {0..3}"

lemma build_grid_values:
  assumes "init \<in> S" "\<And>r. f r \<in> S" shows "set (build_grid ax c init f files) \<subseteq> S \<and> length (build_grid ax c init f files) = grid_n ax"
proof -
  have cell: "set (write_cell ax c f g r) \<subseteq> S \<and> length (write_cell ax c f g r) = length g" if "set g \<subseteq> S" for g r
    using that assms(2) set_update_subset_insert [of g] by (auto simp: write_cell_def split: option.splits) blast
  have rows: "set (foldl (write_cell ax c f) g rs) \<subseteq> S \<and> length (foldl (write_cell ax c f) g rs) = length g" if "set g \<subseteq> S" for g rs
    using that
  proof (induction rs arbitrary: g)
    case (Cons r rs)
    from cell [OF Cons.prems, of r] Cons.IH [of "write_cell ax c f g r"] show ?case by simp
  qed simp
  have "set (foldl (foldl (write_cell ax c f)) g files) \<subseteq> S \<and> length (foldl (foldl (write_cell ax c f)) g files) = length g"
    if "set g \<subseteq> S" for g
    using that
  proof (induction files arbitrary: g)
    case (Cons fl files)
    from rows [OF Cons.prems, of fl] Cons.IH [of "foldl (write_cell ax c f) g fl"] show ?case by simp
  qed simp
  moreover have "set (replicate (grid_n ax) init) \<subseteq> S" using assms(1) by auto
  ultimately show ?thesis by (simp add: build_grid_def)
qed

lemma overlay_values:
  "set (gt_st_status g) \<subseteq> {0..3} \<Longrightarrow> set (gt_st_status (foldl (overlay_row ax) g rs)) \<subseteq> {0..3} \<and>
     length (gt_st_status (foldl (overlay_row ax) g rs)) = length (gt_st_status g)"
proof (induction rs arbitrary: g)
  case (Cons r rs)
  have "set (gt_st_status (overlay_row ax g r)) \<subseteq> {0..3} \<and> length (gt_st_status (overlay_row ax g r)) = length (gt_st_status g)"
    using Cons.prems set_update_subset_insert [of "gt_st_status g"] by (fastforce simp: overlay_row_def Let_def split: option.splits)
  with Cons.IH show ?case by simp
qed simp

lemma load_pit_status: "load_pit rnd upd ax tables snapshot = Ok p \<Longrightarrow> status_ok ax p"
proof -
  assume l: "load_pit rnd upd ax tables snapshot = Ok p"
  let ?g = "pp_status (build_pool rnd ax tables)"
  have b: "set (gt_st_status ?g) \<subseteq> {0..3} \<and> length (gt_st_status ?g) = grid_n ax"
    unfolding build_pool_def build_status_def by (simp, intro build_grid_values) (auto simp: st_of_row_def Let_def)
  obtain h where h: "apply_meta_overlays upd ax snapshot ?g = Ok h" "pp_status p = h"
    using l unfolding load_pit_def Let_def by (cases "apply_meta_overlays upd ax snapshot ?g") (auto simp: post_ffill_def)
  have "h = ?g \<or> (\<exists>rs. h = foldl (overlay_row ax) ?g rs)"
    using h(1) by (auto simp: apply_meta_overlays_def Let_def split: option.splits if_split_asm)
  with b overlay_values [of ?g ax] show ?thesis unfolding status_ok_def h(2) by fastforce
qed

definition all_finite :: "fval list \<Rightarrow> bool" where
  "all_finite xs \<longleftrightarrow> (\<forall>v\<in>set xs. is_finite v)"

lemma of_flag_finite [simp]: "is_finite (of_flag b)"
  by (simp add: of_flag_def)

lemma all_finite_update: "all_finite xs \<Longrightarrow> is_finite v \<Longrightarrow> all_finite (xs[i := v])"
  using set_update_subset_insert [of xs i v] by (auto simp: all_finite_def)

lemma all_finite_foldl: "(\<And>out x. all_finite out \<Longrightarrow> all_finite (f out x)) \<Longrightarrow> all_finite out \<Longrightarrow> all_finite (foldl f out xs)"
  by (induction xs arbitrary: out) auto

lemma all_finite_zeros: "all_finite (replicate n (Fin 0))"
  by (simp add: all_finite_def)

lemma all_finite_segment: "all_finite out \<Longrightarrow> all_finite (apply_segment ar n w ni lo hi x out)"
  unfolding apply_segment_def by (rule all_finite_foldl) (auto intro: all_finite_update)

lemma all_finite_dividend: "all_finite out \<Longrightarrow> all_finite (dividend_loop ar ax w share ni lo cur seen es out)"
  by (induction es arbitrary: lo cur seen out) (simp_all add: all_finite_segment)

lemma all_finite_revenue: "all_finite out \<Longrightarrow> all_finite (revenue_interval ax fin rows out e)"
  unfolding revenue_interval_def Let_def by (rule all_finite_foldl) (auto intro: all_finite_update)

lemma all_finite_fill: "all_finite dst \<Longrightarrow> all_finite (fill_range (Fin 1) lo hi dst)"
  unfolding fill_range_def by (rule all_finite_foldl) (auto intro: all_finite_update)

lemma all_finite_intervals: "all_finite (state_machine_intervals v es n off)"
  unfolding state_machine_intervals_def by (rule all_finite_foldl) (auto simp: Let_def all_finite_fill all_finite_zeros)

lemma ts_declared_finite:
  assumes "rounding (single ar)" "status_ok ax p" "a < n_a ax" "fs_must_be_finite (spec_of doc f)" "depth f \<noteq> 9"
    "compute_ts_node ar ax p meta a R f = Ok r"
  shows "all_finite r"
proof -
  have risk: "all_finite (ts_risk_warn ar ax p a)"
  proof -
    have "is_finite (single ar (of_int (gt_st_status (pp_status p) ! (a * n_d ax + d))))" if "d < n_d ax" for d
    proof -
      let ?s = "gt_st_status (pp_status p) ! (a * n_d ax + d)"
      have "?s \<in> set (gt_st_status (pp_status p))"
        using assms(2) cell_less [OF assms(3) that] by (intro nth_mem) (simp add: status_ok_def)
      then have "\<bar>?s\<bar> \<le> 2 ^ 24" using assms(2) by (auto simp: status_ok_def)
      from rounding.rnd_int [OF assms(1) this] show ?thesis by simp
    qed
    then show ?thesis by (simp add: ts_risk_warn_def all_finite_def)
  qed
  have l: "all_finite (ts_is_margin ax p a)" "all_finite (ts_susp ax p a)" "all_finite (ts_limit_up ar ax R)" "all_finite (ts_limit_dn ar ax R)"
    "all_finite (ts_new_list ax R)" "all_finite (ts_trading_st ax R)" "all_finite (ts_low_mc ax meta a R)" "all_finite (ts_low_p ax R)"
    by (auto simp: all_finite_def ts_is_margin_def ts_susp_def grid_copy_bool_def Let_def ts_limit_up_def ts_limit_dn_def ts_new_list_def
        ts_trading_st_def ts_low_mc_def ts_low_p_def)
  have d: "all_finite (ts_dividend_st ar ax p meta a R)" "all_finite (ts_revenue_st ax p meta a R)" "all_finite (ts_profit_st ax p a)"
    by (auto simp: ts_dividend_st_def ts_revenue_st_def ts_profit_st_def all_finite_zeros all_finite_intervals
        intro!: all_finite_dividend all_finite_foldl all_finite_revenue)
  show ?thesis
    using assms(4-6) risk l d by (cases f) (auto simp: spec_simps node_specs depth.simps compute_ts_node.simps split: prod.splits)
qed

lemma cs_not_null: "run_cs_node ar ax d T f \<noteq> Fail NullCompute \<longleftrightarrow> depth f = 9"
  by (cases f) (simp_all add: run_cs_node_def depth.simps)

lemma cs_Ok_depth: "run_cs_node ar ax d T f = Ok T' \<Longrightarrow> depth f = 9"
  using cs_not_null [of ar ax d T f] by simp

lemma gather_scatter_any:
  "tensor_ok ax T \<Longrightarrow> d < n_d ax \<Longrightarrow> gather_cs_row ax (scatter_cs_row ax T f d r) g d =
     (if g = f then map (\<lambda>a. r ! a) [0..<n_a ax] else gather_cs_row ax T g d)"
  by (simp add: gather_cs_row_def scatter_cs_row_def mat_gather_def tensor_ok_def mat_scatter_nth)

section \<open>Properties\<close>

text \<open>C27. The declared network can be computed: from any roots the registry finds an order - there is no cycle, no missing node and
  no time-series node below a cross-section node -, the two phases one after the other are a topological order
  that holds all roots, and both dispatchers find a compute function for every node of their phase.\<close>

theorem network_computable:
  "\<exists>order. reachable_topo_order (network doc) roots = Ok order \<and> set roots \<subseteq> set order \<and>
    topological (network doc) (filter_axis (network doc) order TimeSeries @ filter_axis (network doc) order CrossSection) \<and>
    list_all (\<lambda>f. compute_ts_node ar ax p meta a R f \<noteq> Fail NullCompute) (filter_axis (network doc) order TimeSeries) \<and>
    list_all (\<lambda>f. run_cs_node ar ax d T f \<noteq> Fail NullCompute) (filter_axis (network doc) order CrossSection)"
proof -
  obtain order where o: "reachable_topo_order (network doc) roots = Ok order" "topological (network doc) order"
    "set order = reachable (network doc) roots" using network_topo_order by blast
  have "set roots \<subseteq> set order" unfolding o(3) reachable_def by blast
  moreover have "topological (network doc) (filter_axis (network doc) order TimeSeries @ filter_axis (network doc) order CrossSection)"
    unfolding filter_axis_filter by (rule topological_phases [OF o(2)])
  ultimately show ?thesis using o(1) by (auto simp: list_all_iff set_filter_axis cs_not_null ts_not_null)
qed

text \<open>C28. The declarations are complete: a time-series node computes the same row when only the rows of its declared
  dependencies agree, and a cross-section node the same values of the day; the cross-section node changes no other node.
  So the order, which knows only the declarations, computes every node after all that it reads.\<close>

theorem nodes_read_what_they_declare:
  assumes "list_all (\<lambda>g. R g = R' g) (fs_deps (spec_of doc f))"
    "list_all (\<lambda>g. gather_cs_row ax T g d = gather_cs_row ax U g d) (fs_deps (spec_of doc h))"
    "tensor_ok ax T" "tensor_ok ax U" "d < n_d ax" "run_cs_node ar ax d T h = Ok T'"
  shows "compute_ts_node ar ax p meta a R f = compute_ts_node ar ax p meta a R' f \<and>
    (\<exists>U'. run_cs_node ar ax d U h = Ok U' \<and> (\<forall>g. gather_cs_row ax U' g d = (if g = h then gather_cs_row ax T' h d else gather_cs_row ax U g d)))"
proof
  show "compute_ts_node ar ax p meta a R f = compute_ts_node ar ax p meta a R' f" by (rule ts_reads_declared [OF assms(1)])
  from cs_reads_declared [OF assms(2) cs_Ok_depth [OF assms(6)], of ar] obtain r where
    "run_cs_node ar ax d T h = Ok (scatter_cs_row ax T h d r)" "run_cs_node ar ax d U h = Ok (scatter_cs_row ax U h d r)" by blast
  with assms(3-6) show "\<exists>U'. run_cs_node ar ax d U h = Ok U' \<and>
      (\<forall>g. gather_cs_row ax U' g d = (if g = h then gather_cs_row ax T' h d else gather_cs_row ax U g d))"
    by (auto simp: gather_scatter_any)
qed

text \<open>Two tensors that differ in a node that \<open>mcap\<close> does not declare.\<close>

lemma nodes_read_what_they_declare_witness:
  "(let T = new_tensor sample_axes 0; U = scatter_cs_row sample_axes T Pe_raw 0 [Fin 1, Fin 2];
        doc = \<lambda>_ :: string. ([] :: string, [] :: string, [] :: string) in
    gather_cs_row sample_axes T Pe_raw 0 \<noteq> gather_cs_row sample_axes U Pe_raw 0 \<and>
    (\<exists>T' U'. run_cs_node exact_arith sample_axes 0 T Mcap = Ok T' \<and> run_cs_node exact_arith sample_axes 0 U Mcap = Ok U' \<and>
       gather_cs_row sample_axes U' Mcap 0 = gather_cs_row sample_axes T' Mcap 0))"
proof -
  define T U where "T = new_tensor sample_axes 0" and "U = scatter_cs_row sample_axes T Pe_raw 0 [Fin 1, Fin 2]"
  have T: "tensor_ok sample_axes T" and U: "tensor_ok sample_axes U" and d: "0 < n_d sample_axes"
    by (simp_all add: T_def U_def tensor_ok_new tensor_ok_scatter sample_axes_ok)
  have g: "gather_cs_row sample_axes U g 0 = (if g = Pe_raw then [Fin 1, Fin 2] else gather_cs_row sample_axes T g 0)" for g
    unfolding U_def by (simp add: gather_scatter_any [OF T d] sample_axes_ok numeral_2_eq_2)
  have "gather_cs_row sample_axes T Pe_raw 0 \<noteq> gather_cs_row sample_axes U Pe_raw 0"
    by (simp add: g) (simp add: T_def gather_cs_row_def mat_gather_def new_tensor_def sample_axes_ok grid_n_def numeral_2_eq_2)
  moreover obtain T' where T': "run_cs_node exact_arith sample_axes 0 T Mcap = Ok T'" by (simp add: run_cs_node_def)
  have a: "list_all (\<lambda>g. (\<lambda>_. []) g = (\<lambda>_. []) g) (fs_deps (spec_of (\<lambda>_. ([], [], [])) Susp))" by (simp add: list_all_iff)
  have b: "list_all (\<lambda>g. gather_cs_row sample_axes T g 0 = gather_cs_row sample_axes U g 0) (fs_deps (spec_of (\<lambda>_. ([], [], [])) Mcap))"
    by (simp add: g spec_simps node_specs)
  note nodes_read_what_they_declare [OF a b T U d T']
  ultimately show ?thesis unfolding Let_def T_def [symmetric] U_def [symmetric] using T' by auto
qed

end
