(* ===== verification/Columns.thy ===== *)
theory Columns
  imports Network
begin

text \<open>
  The strategy layer (\<open>cpp/include/strategy\<close>, \<open>cpp/src/strategy/columns.cpp\<close>): every strategy owns four
  columns of the tensor - the static whitelist \<open>pool_b\<close>, the day's \<open>pool\<close>, the \<open>score\<close> and the \<open>rank\<close> that the
  backtest reads. The registered strategies and the roots they give to the feature network are here too.

  \<open>std::nth_element\<close> does not say which of several instruments with the same key it puts before the cut, so it
  is a parameter with the law it promises (\<open>nth_element\<close>); sorting provides it.
\<close>

section \<open>Strategies\<close>

datatype margin_policy = Exclude | Include | Only

record pool_spec =
  ps_exchange_wl :: "string list"
  ps_list_sector_wl :: "string list"
  ps_industry_l1_wl :: "string list"
  ps_margin_policy :: margin_policy
  ps_rank_key :: node
  ps_rank_asc :: bool
  ps_universe_size :: int

record strategy_spec =
  st_name :: string
  st_pool :: pool_spec
  st_filters :: "node list"
  st_weights :: "(node \<times> fval) list"
  st_bt_start_date :: string
  st_hold_n :: int
  st_exit_ratio :: fval

text \<open>The four columns of a strategy and their slots in the tensor.\<close>

datatype strategy_column = SF_pool_b | SF_pool | SF_score | SF_rank

definition SF_COUNT :: nat where "SF_COUNT = 4"

definition slot :: "nat \<Rightarrow> strategy_column \<Rightarrow> nat" where
  "slot s c = s * SF_COUNT + (case c of SF_pool_b \<Rightarrow> 0 | SF_pool \<Rightarrow> 1 | SF_score \<Rightarrow> 2 | SF_rank \<Rightarrow> 3)"

text \<open>The checks of the registry (a null address is not a node here).\<close>

definition valid_strategy :: "docs \<Rightarrow> strategy_spec \<Rightarrow> bool" where
  "valid_strategy doc s \<longleftrightarrow> st_name s \<noteq> [] \<and> ps_universe_size (st_pool s) > 0 \<and>
     list_all (\<lambda>f. fs_kind (spec_of doc f) = Filter_kind) (st_filters s) \<and> st_weights s \<noteq> [] \<and>
     list_all (\<lambda>(f, w). fs_kind (spec_of doc f) = Factor_kind \<and> \<not> feq w (Fin 0)) (st_weights s) \<and>
     length (st_bt_start_date s) = 8 \<and> st_hold_n s > 0 \<and> fle (Fin 1) (st_exit_ratio s)"

definition validate :: "docs \<Rightarrow> strategy_spec list \<Rightarrow> bool" where
  "validate doc strategies \<longleftrightarrow> distinct (map st_name strategies) \<and> list_all (valid_strategy doc) strategies"

section \<open>The registered strategies\<close>

definition exchange_wl :: "string list" where
  "exchange_wl =
     [[CHR 0xE4, CHR 0xB8, CHR 0x8A, CHR 0xE6, CHR 0xB5, CHR 0xB7, CHR 0xE8, CHR 0xAF, CHR 0x81, CHR 0xE5, CHR 0x88, CHR 0xB8,
         CHR 0xE4, CHR 0xBA, CHR 0xA4, CHR 0xE6, CHR 0x98, CHR 0x93, CHR 0xE6, CHR 0x89, CHR 0x80],
      [CHR 0xE6, CHR 0xB7, CHR 0xB1, CHR 0xE5, CHR 0x9C, CHR 0xB3, CHR 0xE8, CHR 0xAF, CHR 0x81, CHR 0xE5, CHR 0x88, CHR 0xB8,
         CHR 0xE4, CHR 0xBA, CHR 0xA4, CHR 0xE6, CHR 0x98, CHR 0x93, CHR 0xE6, CHR 0x89, CHR 0x80]]"

definition list_sector_wl :: "string list" where
  "list_sector_wl =
     [[CHR 0xE4, CHR 0xB8, CHR 0xBB, CHR 0xE6, CHR 0x9D, CHR 0xBF]]"

definition industry_l1_wl :: "string list" where
  "industry_l1_wl =
     [[CHR 0xE4, CHR 0xBA, CHR 0xA4, CHR 0xE9, CHR 0x80, CHR 0x9A, CHR 0xE8, CHR 0xBF, CHR 0x90, CHR 0xE8, CHR 0xBE, CHR 0x93],
      [CHR 0xE4, CHR 0xBC, CHR 0xA0, CHR 0xE5, CHR 0xAA, CHR 0x92],
      [CHR 0xE5, CHR 0x85, CHR 0xAC, CHR 0xE7, CHR 0x94, CHR 0xA8, CHR 0xE4, CHR 0xBA, CHR 0x8B, CHR 0xE4, CHR 0xB8, CHR 0x9A],
      [CHR 0xE5, CHR 0x8C, CHR 0xBB, CHR 0xE8, CHR 0x8D, CHR 0xAF, CHR 0xE7, CHR 0x94, CHR 0x9F, CHR 0xE7, CHR 0x89, CHR 0xA9],
      [CHR 0xE5, CHR 0x95, CHR 0x86, CHR 0xE8, CHR 0xB4, CHR 0xB8, CHR 0xE9, CHR 0x9B, CHR 0xB6, CHR 0xE5, CHR 0x94, CHR 0xAE],
      [CHR 0xE5, CHR 0x9B, CHR 0xBD, CHR 0xE9, CHR 0x98, CHR 0xB2, CHR 0xE5, CHR 0x86, CHR 0x9B, CHR 0xE5, CHR 0xB7, CHR 0xA5],
      [CHR 0xE5, CHR 0x9F, CHR 0xBA, CHR 0xE7, CHR 0xA1, CHR 0x80, CHR 0xE5, CHR 0x8C, CHR 0x96, CHR 0xE5, CHR 0xB7, CHR 0xA5],
      [CHR 0xE5, CHR 0xAE, CHR 0xB6, CHR 0xE7, CHR 0x94, CHR 0xA8, CHR 0xE7, CHR 0x94, CHR 0xB5, CHR 0xE5, CHR 0x99, CHR 0xA8],
      [CHR 0xE5, CHR 0xBB, CHR 0xBA, CHR 0xE7, CHR 0xAD, CHR 0x91, CHR 0xE6, CHR 0x9D, CHR 0x90, CHR 0xE6, CHR 0x96, CHR 0x99],
      [CHR 0xE5, CHR 0xBB, CHR 0xBA, CHR 0xE7, CHR 0xAD, CHR 0x91, CHR 0xE8, CHR 0xA3, CHR 0x85, CHR 0xE9, CHR 0xA5, CHR 0xB0],
      [CHR 0xE6, CHR 0x9C, CHR 0x89, CHR 0xE8, CHR 0x89, CHR 0xB2, CHR 0xE9, CHR 0x87, CHR 0x91, CHR 0xE5, CHR 0xB1, CHR 0x9E],
      [CHR 0xE6, CHR 0x9C, CHR 0xBA, CHR 0xE6, CHR 0xA2, CHR 0xB0, CHR 0xE8, CHR 0xAE, CHR 0xBE, CHR 0xE5, CHR 0xA4, CHR 0x87],
      [CHR 0xE6, CHR 0xB1, CHR 0xBD, CHR 0xE8, CHR 0xBD, CHR 0xA6],
      [CHR 0xE7, CHR 0x85, CHR 0xA4, CHR 0xE7, CHR 0x82, CHR 0xAD],
      [CHR 0xE7, CHR 0x94, CHR 0xB5, CHR 0xE5, CHR 0x8A, CHR 0x9B, CHR 0xE8, CHR 0xAE, CHR 0xBE, CHR 0xE5, CHR 0xA4, CHR 0x87],
      [CHR 0xE7, CHR 0x94, CHR 0xB5, CHR 0xE5, CHR 0xAD, CHR 0x90],
      [CHR 0xE7, CHR 0x9F, CHR 0xB3, CHR 0xE6, CHR 0xB2, CHR 0xB9, CHR 0xE7, CHR 0x9F, CHR 0xB3, CHR 0xE5, CHR 0x8C, CHR 0x96],
      [CHR 0xE7, CHR 0xA4, CHR 0xBE, CHR 0xE4, CHR 0xBC, CHR 0x9A, CHR 0xE6, CHR 0x9C, CHR 0x8D, CHR 0xE5, CHR 0x8A, CHR 0xA1],
      [CHR 0xE7, CHR 0xBA, CHR 0xBA, CHR 0xE7, CHR 0xBB, CHR 0x87, CHR 0xE6, CHR 0x9C, CHR 0x8D, CHR 0xE9, CHR 0xA5, CHR 0xB0],
      [CHR 0xE7, CHR 0xBB, CHR 0xBC, CHR 0xE5, CHR 0x90, CHR 0x88],
      [CHR 0xE7, CHR 0xBE, CHR 0x8E, CHR 0xE5, CHR 0xAE, CHR 0xB9, CHR 0xE6, CHR 0x8A, CHR 0xA4, CHR 0xE7, CHR 0x90, CHR 0x86],
      [CHR 0xE8, CHR 0xAE, CHR 0xA1, CHR 0xE7, CHR 0xAE, CHR 0x97, CHR 0xE6, CHR 0x9C, CHR 0xBA],
      [CHR 0xE8, CHR 0xBD, CHR 0xBB, CHR 0xE5, CHR 0xB7, CHR 0xA5, CHR 0xE5, CHR 0x88, CHR 0xB6, CHR 0xE9, CHR 0x80, CHR 0xA0],
      [CHR 0xE9, CHR 0x80, CHR 0x9A, CHR 0xE4, CHR 0xBF, CHR 0xA1],
      [CHR 0xE9, CHR 0x9D, CHR 0x9E, CHR 0xE9, CHR 0x93, CHR 0xB6, CHR 0xE9, CHR 0x87, CHR 0x91, CHR 0xE8, CHR 0x9E, CHR 0x8D],
      [CHR 0xE9, CHR 0xA3, CHR 0x9F, CHR 0xE5, CHR 0x93, CHR 0x81, CHR 0xE9, CHR 0xA5, CHR 0xAE, CHR 0xE6, CHR 0x96, CHR 0x99]]"

definition strategy_filters :: "node list" where
  "strategy_filters = [Profit_st, Revenue_st, Dividend_st, Trading_st, Risk_warn, New_list]"

definition sixths :: "arith \<Rightarrow> real \<Rightarrow> fval" where
  "sixths ar k = fdiv (single ar) (Fin k) (Fin 6)"

definition strat_0 :: "arith \<Rightarrow> strategy_spec" where
  "strat_0 ar =
     \<lparr>st_name = [CHR 0xE7, CHR 0xAD, CHR 0x96, CHR 0xE7, CHR 0x95, CHR 0xA5, CHR 0x30],
      st_pool = \<lparr>ps_exchange_wl = exchange_wl, ps_list_sector_wl = list_sector_wl, ps_industry_l1_wl = industry_l1_wl,
        ps_margin_policy = Include, ps_rank_key = Mcap_raw, ps_rank_asc = True, ps_universe_size = 400\<rparr>,
      st_filters = strategy_filters,
      st_weights = [(Close, sixths ar (-3)), (Mr_bal, sixths ar (-2)), (Ms_bal, sixths ar 1)],
      st_bt_start_date = ''20170101'', st_hold_n = 10, st_exit_ratio = Fin 2\<rparr>"

definition strat_1 :: "arith \<Rightarrow> strategy_spec" where
  "strat_1 ar =
     \<lparr>st_name = [CHR 0xE7, CHR 0xAD, CHR 0x96, CHR 0xE7, CHR 0x95, CHR 0xA5, CHR 0x31],
      st_pool = \<lparr>ps_exchange_wl = exchange_wl, ps_list_sector_wl = list_sector_wl, ps_industry_l1_wl = industry_l1_wl,
        ps_margin_policy = Include, ps_rank_key = Mcap_raw, ps_rank_asc = True, ps_universe_size = 2000\<rparr>,
      st_filters = strategy_filters,
      st_weights = [(Mcap, sixths ar (-1)), (Close, sixths ar (-1)), (Cp_ttm12, sixths ar 1), (Mr_bal, sixths ar (-1)),
        (Ms_bal, sixths ar 2)],
      st_bt_start_date = ''20170101'', st_hold_n = 10, st_exit_ratio = Fin 2\<rparr>"

text \<open>The candidates of the weight search are computed whether it runs or not.\<close>

definition MINE_FACTORS :: "node list" where
  "MINE_FACTORS = [Mcap, Fmcap, Close, Cp_ttm12, Sp_ttm12, Cffoa_ttm12, Bp_ttm3, Ep_ttm12, Roe_ttm12, Roa_ttm12, Dy_ttm12,
     Mr_bal, Ms_bal]"

text \<open>The roots of the network; the list of the framework is generated when the program is built.\<close>

definition all_roots :: "node list \<Rightarrow> strategy_spec list \<Rightarrow> node list" where
  "all_roots framework strategies =
     framework @ concat (map (\<lambda>s. st_filters s @ map fst (st_weights s) @ [ps_rank_key (st_pool s)]) strategies) @ MINE_FACTORS"

section \<open>The whitelist\<close>

definition in_whitelist :: "string \<Rightarrow> string list \<Rightarrow> bool" where
  "in_whitelist v wl \<longleftrightarrow> v \<noteq> [] \<and> v \<in> set wl"

definition industry_l1_whitelist_mask :: "string list \<Rightarrow> bool list" where
  "industry_l1_whitelist_mask wl =
     foldl (\<lambda>m name. let i = sw2021_l1_name_to_id name in if i \<noteq> 0 then m[i := True] else m) (replicate industry_count False) wl"

definition ts_pool_b :: "nat \<Rightarrow> strategy_spec \<Rightarrow> bool list \<Rightarrow> nat \<Rightarrow> axes \<Rightarrow> stock_meta \<Rightarrow> tensor \<Rightarrow> tensor" where
  "ts_pool_b s spec msk a ax meta T =
     (let pool = st_pool spec;
          asset_ok = (in_whitelist (sm_exchange meta ! a) (ps_exchange_wl pool) \<and>
                      in_whitelist (sm_list_sector meta ! a) (ps_list_sector_wl pool));
          member = (\<lambda>d.
            let i = trunc (ts_row ax T Industry_l1 a ! d);
                ind_ok = (asset_ok \<and> i > 0 \<and> i < int industry_count \<and> msk ! nat i);
                b = (asset_ok \<and> ind_ok \<and> is_finite (ts_row ax T List_age a ! d) \<and> \<not> flag (ts_row ax T Susp a ! d) \<and>
                     \<not> is_finite (ts_row ax T Delist_age a ! d));
                marg = flag (ts_row ax T Is_margin a ! d)
            in case ps_margin_policy pool of Exclude \<Rightarrow> b \<and> \<not> marg | Only \<Rightarrow> b \<and> marg | Include \<Rightarrow> b)
      in set_strat_ts_row ax T (slot s SF_pool_b) a (map (\<lambda>d. of_flag (member d)) [0..<n_d ax]))"

section \<open>Pool, score and rank of a day\<close>

type_synonym ranked = "fval \<times> nat"

text \<open>\<open>nth k xs\<close> is the list after \<open>nth_element\<close> with the position \<open>k\<close>, in ascending or descending order of the keys.\<close>

type_synonym nth_fun = "bool \<Rightarrow> nat \<Rightarrow> ranked list \<Rightarrow> ranked list"

definition clean_pool :: "axes \<Rightarrow> nat \<Rightarrow> tensor \<Rightarrow> node list \<Rightarrow> fval list \<Rightarrow> fval list" where
  "clean_pool ax d T filters buf =
     foldl (\<lambda>buf f. map2 (\<lambda>b v. if flag v then Fin 0 else b) buf (gather_cs_row ax T f d)) buf filters"

definition candidates :: "axes \<Rightarrow> nat \<Rightarrow> strategy_spec \<Rightarrow> nat \<Rightarrow> tensor \<Rightarrow> ranked list" where
  "candidates ax s spec d T =
     (let clean = clean_pool ax d T (st_filters spec) (strat_gather_cs_row ax T (slot s SF_pool_b) d);
          key = gather_cs_row ax T (ps_rank_key (st_pool spec)) d
      in List.map_filter (\<lambda>a. if flag (clean ! a) \<and> is_finite (key ! a) \<and> \<not> fle (key ! a) (Fin 0) then Some (key ! a, a) else None)
           [0..<n_a ax])"

definition cs_pool :: "nth_fun \<Rightarrow> axes \<Rightarrow> nat \<Rightarrow> strategy_spec \<Rightarrow> nat \<Rightarrow> tensor \<Rightarrow> tensor" where
  "cs_pool nth_el ax s spec d T =
     (let cands = candidates ax s spec d T; n = length cands; u = ps_universe_size (st_pool spec);
          k = (if u > 0 then min (nat u) n else n);
          sel = (if k > 0 \<and> k < n then nth_el (ps_rank_asc (st_pool spec)) k cands else cands)
      in strat_scatter_cs_row ax T (slot s SF_pool) d
           (foldl (\<lambda>out p. out[snd p := Fin 1]) (replicate (n_a ax) (Fin 0)) (take k sel)))"

datatype column_error = NoWeights | PoolFactorNotFinite

fun score_loop :: "arith \<Rightarrow> axes \<Rightarrow> nat \<Rightarrow> tensor \<Rightarrow> fval list \<Rightarrow> (node \<times> fval) list \<Rightarrow> fval list \<Rightarrow> (column_error, fval list) outcome" where
  "score_loop ar ax d T msk [] acc = Ok acc"
| "score_loop ar ax d T msk ((f, w) # ws) acc =
     (let c = pct_rank ar (map2 (\<lambda>m v. if flag m then v else NaN) msk (gather_cs_row ax T f d)) in
      if list_ex (\<lambda>a. flag (msk ! a) \<and> \<not> is_finite (c ! a)) [0..<n_a ax] then Fail PoolFactorNotFinite
      else score_loop ar ax d T msk ws
             (map (\<lambda>a. if flag (msk ! a) then fadd (single ar) (acc ! a) (fmul (single ar) w (c ! a)) else acc ! a) [0..<n_a ax]))"

definition weight_sum :: "arith \<Rightarrow> (node \<times> fval) list \<Rightarrow> fval" where
  "weight_sum ar ws = foldl (\<lambda>s fw. fadd (single ar) s (fabs (snd fw))) (Fin 0) ws"

definition cs_score :: "arith \<Rightarrow> axes \<Rightarrow> nat \<Rightarrow> strategy_spec \<Rightarrow> nat \<Rightarrow> tensor \<Rightarrow> (column_error, tensor) outcome" where
  "cs_score ar ax s spec d T =
     (let msk = strat_gather_cs_row ax T (slot s SF_pool) d; wsum = weight_sum ar (st_weights spec) in
      if \<not> fless (Fin 0) wsum then Fail NoWeights
      else bind_ok (score_loop ar ax d T msk (st_weights spec) (replicate (n_a ax) (Fin 0))) (\<lambda>acc.
        Ok (strat_scatter_cs_row ax T (slot s SF_score) d
             (map (\<lambda>a. if flag (msk ! a) then fdiv (single ar) (acc ! a) wsum else Fin 0) [0..<n_a ax]))))"

text \<open>Descending scores, equal ones by the index of the instrument: the list is made in that order and sorted stably.\<close>

definition ranking :: "axes \<Rightarrow> nat \<Rightarrow> nat \<Rightarrow> tensor \<Rightarrow> ranked list" where
  "ranking ax s d T =
     (let pool = strat_gather_cs_row ax T (slot s SF_pool) d; score = strat_gather_cs_row ax T (slot s SF_score) d in
      sort_key (\<lambda>p. fneg (fst p))
        (List.map_filter (\<lambda>a. if flag (pool ! a) \<and> is_finite (score ! a) then Some (score ! a, a) else None) [0..<n_a ax]))"

definition cs_rank :: "arith \<Rightarrow> axes \<Rightarrow> nat \<Rightarrow> nat \<Rightarrow> tensor \<Rightarrow> tensor" where
  "cs_rank ar ax s d T =
     (let ranked = ranking ax s d T in
      strat_scatter_cs_row ax T (slot s SF_rank) d
        (foldl (\<lambda>out i. out[snd (ranked ! i) := single ar (real (i + 1))]) (replicate (n_a ax) (Fin 0)) [0..<length ranked]))"

section \<open>The two phases\<close>

definition ts_columns_of :: "axes \<Rightarrow> stock_meta \<Rightarrow> strategy_spec list \<Rightarrow> nat \<Rightarrow> tensor \<Rightarrow> nat \<Rightarrow> tensor" where
  "ts_columns_of ax meta strategies a T s =
     ts_pool_b s (strategies ! s) (industry_l1_whitelist_mask (ps_industry_l1_wl (st_pool (strategies ! s)))) a ax meta T"

definition compute_ts_columns :: "axes \<Rightarrow> stock_meta \<Rightarrow> strategy_spec list \<Rightarrow> nat list \<Rightarrow> tensor \<Rightarrow> tensor" where
  "compute_ts_columns ax meta strategies schedule T =
     foldl (\<lambda>T a. foldl (ts_columns_of ax meta strategies a) T [0..<length strategies]) T schedule"

definition cs_columns_of ::
  "arith \<Rightarrow> nth_fun \<Rightarrow> axes \<Rightarrow> strategy_spec list \<Rightarrow> nat \<Rightarrow> tensor \<Rightarrow> nat \<Rightarrow> (column_error, tensor) outcome" where
  "cs_columns_of ar nth_el ax strategies d T s =
     bind_ok (cs_score ar ax s (strategies ! s) d (cs_pool nth_el ax s (strategies ! s) d T)) (\<lambda>T. Ok (cs_rank ar ax s d T))"

definition compute_cs_columns ::
  "arith \<Rightarrow> nth_fun \<Rightarrow> axes \<Rightarrow> strategy_spec list \<Rightarrow> nat list \<Rightarrow> tensor \<Rightarrow> (column_error, tensor) outcome" where
  "compute_cs_columns ar nth_el ax strategies schedule T =
     fold_ok (\<lambda>T d. fold_ok (cs_columns_of ar nth_el ax strategies d) T [0..<length strategies]) T schedule"



section \<open>Reading the columns back\<close>

lemma strat_gather_scatter:
  assumes "tensor_ok ax T" "d < n_d ax" "e < n_d ax" "length inp = n_a ax" "i < length (tn_strat T)" "j < length (tn_strat T)"
  shows "strat_gather_cs_row ax (strat_scatter_cs_row ax T i d inp) j e =
    (if j = i \<and> e = d then inp else strat_gather_cs_row ax T j e)"
  using assms
  by (intro nth_equalityI)
    (auto simp: strat_gather_cs_row_def strat_scatter_cs_row_def mat_gather_def tensor_ok_def mat_scatter_nth nth_list_update)

lemma gather_strat_scatter [simp]: "gather_cs_row ax (strat_scatter_cs_row ax T i d inp) f e = gather_cs_row ax T f e"
  by (simp add: gather_cs_row_def strat_scatter_cs_row_def)

lemma strat_scatter_keeps [simp]:
  "tn_mats (strat_scatter_cs_row ax T i d inp) = tn_mats T"
  "length (tn_strat (strat_scatter_cs_row ax T i d inp)) = length (tn_strat T)"
  by (simp_all add: strat_scatter_cs_row_def)

lemma tensor_ok_strat_scatter [intro]: "tensor_ok ax T \<Longrightarrow> i < length (tn_strat T) \<Longrightarrow> tensor_ok ax (strat_scatter_cs_row ax T i d inp)"
  by (auto simp: tensor_ok_def strat_scatter_cs_row_def mat_ok_def length_mat_scatter dest: set_update_subset_insert [THEN subsetD])

lemma length_strat_gather [simp]: "length (strat_gather_cs_row ax T i d) = n_a ax"
  by (simp add: strat_gather_cs_row_def mat_gather_def)

lemma slot_less: "s < n \<Longrightarrow> slot s c < n * SF_COUNT"
proof -
  assume "s < n"
  then have "Suc s * 4 \<le> n * 4" by (intro mult_le_mono1) simp
  then show ?thesis by (cases c) (simp_all add: slot_def SF_COUNT_def)
qed

lemma slot_eq_iff [simp]: "slot s c = slot t e \<longleftrightarrow> s = t \<and> c = e"
proof -
  have "s * 4 + i = t * 4 + j \<longleftrightarrow> s = t \<and> i = j" if "i < 4" "j < 4" for i j :: nat
    using that by presburger
  then show ?thesis by (cases c; cases e) (simp_all add: slot_def SF_COUNT_def, presburger+)
qed

section \<open>The cut of the pool\<close>

text \<open>The order in which the cut prefers the keys.\<close>

definition before :: "bool \<Rightarrow> fval \<Rightarrow> fval \<Rightarrow> bool" where
  "before asc x y \<longleftrightarrow> (if asc then fle x y else fle y x)"

locale nth_element =
  fixes nth_el :: "bool \<Rightarrow> nat \<Rightarrow> ranked list \<Rightarrow> ranked list"
  assumes nth_perm: "mset (nth_el asc k xs) = mset xs"
    and nth_cut: "k < length xs \<Longrightarrow> (\<And>p. p \<in> set xs \<Longrightarrow> is_finite (fst p)) \<Longrightarrow> i < k \<Longrightarrow> k \<le> j \<Longrightarrow> j < length xs \<Longrightarrow>
      before asc (fst (nth_el asc k xs ! i)) (fst (nth_el asc k xs ! j))"
begin

lemma nth_set: "set (nth_el asc k xs) = set xs"
  by (metis nth_perm set_mset_mset)

lemma nth_length: "length (nth_el asc k xs) = length xs"
  by (metis nth_perm size_mset)

text \<open>What the cut selects: \<open>min k n\<close> entries, none of which is worse than one that was left out.\<close>

lemma cut:
  assumes "distinct xs" "\<And>p. p \<in> set xs \<Longrightarrow> is_finite (fst p)" "k \<le> length xs"
    and sel_def: "sel = take k (if k > 0 \<and> k < length xs then nth_el asc k xs else xs)"
  shows "distinct sel" "length sel = k" "set sel \<subseteq> set xs" "p \<in> set sel \<Longrightarrow> q \<in> set xs - set sel \<Longrightarrow> before asc (fst p) (fst q)"
proof -
  have d: "distinct (nth_el asc k xs)" using assms(1) nth_perm by (metis mset_eq_imp_distinct_iff)
  then show "distinct sel" "length sel = k" "set sel \<subseteq> set xs"
    using assms(1,3) set_take_subset [of k "nth_el asc k xs"] set_take_subset [of k xs]
    by (auto simp: sel_def nth_length nth_set distinct_take simp del: set_take_subset)
  show "before asc (fst p) (fst q)" if p: "p \<in> set sel" and q: "q \<in> set xs - set sel"
  proof -
    have "k \<noteq> 0" using p by (cases k) (simp_all add: sel_def)
    moreover have "k \<noteq> length xs" using q by (auto simp: sel_def)
    ultimately have k: "k > 0 \<and> k < length xs" using assms(3) by auto
    then have s: "sel = take k (nth_el asc k xs)" by (simp add: sel_def)
    obtain i where i: "i < k" "p = nth_el asc k xs ! i" using p k by (auto simp: s in_set_conv_nth nth_length)
    obtain j where j: "j < length xs" "q = nth_el asc k xs ! j" using q nth_set by (metis DiffD1 in_set_conv_nth nth_length)
    have "k \<le> j" using q j by (auto simp: s in_set_conv_nth nth_length not_less [symmetric])
    with nth_cut [OF conjunct2 [OF k] assms(2) i(1) _ j(1)] i j show ?thesis by simp
  qed
qed

end

text \<open>Sorting is one way to do it.\<close>

definition sort_cut :: "bool \<Rightarrow> nat \<Rightarrow> ranked list \<Rightarrow> ranked list" where
  "sort_cut asc k xs = (if asc then sort_key fst xs else rev (sort_key fst xs))"

lemma fle_finite: "is_finite x \<Longrightarrow> is_finite y \<Longrightarrow> fle x y \<longleftrightarrow> x \<le> y"
  by (cases x; cases y) auto

interpretation sorted_cut: nth_element sort_cut
proof
  show "mset (sort_cut asc k xs) = mset xs" for asc k xs by (simp add: sort_cut_def)
  show "before asc (fst (sort_cut asc k xs ! i)) (fst (sort_cut asc k xs ! j))"
    if l: "k < length xs" "\<And>p. p \<in> set xs \<Longrightarrow> is_finite (fst p)" "i < k" "k \<le> j" "j < length xs" for asc k i j and xs :: "ranked list"
  proof -
    let ?s = "sort_key fst xs"
    have f: "is_finite (fst (?s ! m))" if "m < length xs" for m
      using l(2) [of "?s ! m"] that by (metis length_sort nth_mem set_sort)
    have "sorted (map fst ?s)" by simp
    then have m: "fst (?s ! m) \<le> fst (?s ! n)" if "m \<le> n" "n < length xs" for m n
      using that sorted_nth_mono [of "map fst ?s" m n] by simp
    show ?thesis
    proof (cases asc)
      case True
      with m [of i j] f [of i] f [of j] l show ?thesis by (simp add: sort_cut_def before_def fle_finite)
    next
      case False
      with m [of "length xs - Suc j" "length xs - Suc i"] f [of "length xs - Suc i"] f [of "length xs - Suc j"] l
      show ?thesis by (simp add: sort_cut_def before_def fle_finite rev_nth)
    qed
  qed
qed

text \<open>An instrument can enter the pool of a day when it is on the whitelist, no filter holds and the key is positive.\<close>

definition eligible :: "axes \<Rightarrow> nat \<Rightarrow> strategy_spec \<Rightarrow> nat \<Rightarrow> tensor \<Rightarrow> nat \<Rightarrow> bool" where
  "eligible ax s spec d T a \<longleftrightarrow> flag (strat_at ax T (slot s SF_pool_b) a d) \<and>
     list_all (\<lambda>f. \<not> flag (tensor_at ax T f a d)) (st_filters spec) \<and> positive (tensor_at ax T (ps_rank_key (st_pool spec)) a d)"

definition pool_limit :: "strategy_spec \<Rightarrow> nat \<Rightarrow> nat" where
  "pool_limit spec n = (let u = ps_universe_size (st_pool spec) in if u > 0 then min (nat u) n else n)"

definition members :: "axes \<Rightarrow> tensor \<Rightarrow> nat \<Rightarrow> nat \<Rightarrow> nat set" where
  "members ax T i d = {a \<in> {..<n_a ax}. flag (strat_at ax T i a d)}"

lemma strat_gather_at: "a < n_a ax \<Longrightarrow> strat_gather_cs_row ax T i d ! a = strat_at ax T i a d"
  by (simp add: strat_gather_cs_row_def mat_gather_def strat_at_def mat_off_def)

lemma flag_zero [simp]: "\<not> flag (Fin 0)" "flag (Fin 1)"
  by (simp_all add: flag_def)

lemma clean_pool_nth:
  "length buf = n_a ax \<Longrightarrow> a < n_a ax \<Longrightarrow> length (clean_pool ax d T fs buf) = n_a ax \<and>
     (flag (clean_pool ax d T fs buf ! a) \<longleftrightarrow> flag (buf ! a) \<and> list_all (\<lambda>f. \<not> flag (tensor_at ax T f a d)) fs)"
proof (induction fs arbitrary: buf)
  case (Cons f fs)
  let ?b = "map2 (\<lambda>b v. if flag v then Fin 0 else b) buf (gather_cs_row ax T f d)"
  have l: "length ?b = n_a ax" using Cons.prems(1) by (simp add: length_gather)
  have f: "flag (?b ! a) \<longleftrightarrow> flag (buf ! a) \<and> \<not> flag (tensor_at ax T f a d)"
    using Cons.prems by (simp add: length_gather gather_at)
  from Cons.IH [OF l Cons.prems(2)] f show ?case by (auto simp: clean_pool_def)
qed (simp add: clean_pool_def)

lemma map_filter_if: "List.map_filter (\<lambda>x. if P x then Some (f x) else None) xs = map f (filter P xs)"
  by (induction xs) (simp_all add: map_filter_simps)

lemma candidates_eligible:
  "candidates ax s spec d T =
     map (\<lambda>a. (tensor_at ax T (ps_rank_key (st_pool spec)) a d, a)) (filter (eligible ax s spec d T) [0..<n_a ax])"
proof -
  let ?c = "clean_pool ax d T (st_filters spec) (strat_gather_cs_row ax T (slot s SF_pool_b) d)"
  let ?k = "ps_rank_key (st_pool spec)"
  have "(flag (?c ! a) \<and> is_finite (gather_cs_row ax T ?k d ! a) \<and> \<not> fle (gather_cs_row ax T ?k d ! a) (Fin 0)) \<longleftrightarrow> eligible ax s spec d T a"
    if "a < n_a ax" for a
    using clean_pool_nth [of "strat_gather_cs_row ax T (slot s SF_pool_b) d" ax a d T "st_filters spec"] that
    by (cases "tensor_at ax T ?k a d") (auto simp: eligible_def gather_at strat_gather_at positive_def)
  then have "filter (\<lambda>a. flag (?c ! a) \<and> is_finite (gather_cs_row ax T ?k d ! a) \<and> \<not> fle (gather_cs_row ax T ?k d ! a) (Fin 0)) [0..<n_a ax] =
      filter (eligible ax s spec d T) [0..<n_a ax]"
    by (intro filter_cong) auto
  then show ?thesis
    unfolding candidates_def Let_def by (simp add: map_filter_if gather_at)
qed

lemma foldl_update_nth:
  "a < length out \<Longrightarrow> foldl (\<lambda>out p. out[snd p := v]) out ps ! a = (if a \<in> snd ` set ps then v else out ! a)"
  by (induction ps arbitrary: out) (auto simp: nth_list_update)

lemma length_foldl_update [simp]: "length (foldl (\<lambda>out p. out[g p := h p]) out ps) = length out"
  by (induction ps arbitrary: out) simp_all

lemma strat_at_scatter:
  assumes "tensor_ok ax T" "d < n_d ax" "i < length (tn_strat T)" "length inp = n_a ax" "a < n_a ax"
  shows "strat_at ax (strat_scatter_cs_row ax T i d inp) i a d = inp ! a"
  using strat_gather_scatter [OF assms(1,2,2,4,3,3)] strat_gather_at [OF assms(5), of _ i d] by metis

lemma members_cs_pool:
  fixes spec :: strategy_spec
  assumes "nth_element nth_el" "tensor_ok ax T" "d < n_d ax" "slot s SF_pool < length (tn_strat T)"
  defines "K \<equiv> \<lambda>a. tensor_at ax T (ps_rank_key (st_pool spec)) a d" and "E \<equiv> {a \<in> {..<n_a ax}. eligible ax s spec d T a}"
    and "M \<equiv> members ax (cs_pool nth_el ax s spec d T) (slot s SF_pool) d"
  shows "M \<subseteq> E" "card M = pool_limit spec (card E)"
    "a \<in> M \<Longrightarrow> b \<in> E - M \<Longrightarrow> before (ps_rank_asc (st_pool spec)) (K a) (K b)"
    "a < n_a ax \<Longrightarrow> strat_at ax (cs_pool nth_el ax s spec d T) (slot s SF_pool) a d = of_flag (a \<in> M)"
proof -
  let ?as = "filter (eligible ax s spec d T) [0..<n_a ax]" and ?asc = "ps_rank_asc (st_pool spec)"
  let ?c = "map (\<lambda>a. (K a, a)) ?as"
  define k where "k = pool_limit spec (length ?c)"
  define sel where "sel = take k (if k > 0 \<and> k < length ?c then nth_el ?asc k ?c else ?c)"
  define out where "out = foldl (\<lambda>out p. out[snd p := Fin 1]) (replicate (n_a ax) (Fin 0)) sel"
  have pool: "cs_pool nth_el ax s spec d T = strat_scatter_cs_row ax T (slot s SF_pool) d out"
    by (simp add: cs_pool_def candidates_eligible K_def out_def sel_def k_def pool_limit_def Let_def)
  have E: "set ?as = E" by (auto simp: E_def)
  have cardE: "card E = length ?c" unfolding E [symmetric] by (subst distinct_card) simp_all
  have fin: "is_finite (fst p)" if "p \<in> set ?c" for p using that by (auto simp: K_def eligible_def positive_def)
  have d: "distinct ?c" by (rule distinct_map [THEN iffD2]) (simp add: inj_on_def)
  have "k \<le> length ?c" by (auto simp: k_def pool_limit_def Let_def)
  note cut = nth_element.cut [OF assms(1) d fin this sel_def]
  have at: "strat_at ax (cs_pool nth_el ax s spec d T) (slot s SF_pool) a d = of_flag (a \<in> snd ` set sel)" if "a < n_a ax" for a
    unfolding pool using that assms(2-4)
    by (subst strat_at_scatter) (simp_all add: out_def foldl_update_nth of_flag_def)
  have sub: "snd ` set sel \<subseteq> E" using cut(3) E by force
  have "a \<in> M \<longleftrightarrow> a \<in> snd ` set sel" for a
  proof (cases "a < n_a ax")
    case True
    then show ?thesis using at [OF True] by (simp add: M_def members_def)
  next
    case False
    then show ?thesis using sub by (auto simp: M_def members_def E_def)
  qed
  then have M: "M = snd ` set sel" by blast
  show "M \<subseteq> E" using sub M by simp
  have "inj_on snd (set sel)" by (rule inj_on_subset [OF _ cut(3)]) (auto simp: inj_on_def)
  then have "card M = length sel" using M cut(1) by (simp add: card_image distinct_card)
  then show "card M = pool_limit spec (card E)" using cut(2) cardE by (simp add: k_def)
  show "before ?asc (K a) (K b)" if "a \<in> M" "b \<in> E - M"
  proof -
    from that(1) obtain p where p: "p \<in> set sel" "a = snd p" unfolding M by blast
    with cut(3) have "fst p = K a" by auto
    moreover from that(2) have "(K b, b) \<in> set ?c - set sel" using E unfolding M by force
    ultimately show ?thesis using cut(4) [of p "(K b, b)", OF _ p(1)] by simp
  qed
  show "strat_at ax (cs_pool nth_el ax s spec d T) (slot s SF_pool) a d = of_flag (a \<in> M)" if "a < n_a ax"
    using at [OF that] M by simp
qed

section \<open>The ranking\<close>

text \<open>A sorted list tells the position of an element by what comes before it.\<close>

lemma sorted_position:
  assumes "sorted_wrt R xs" "distinct xs" "\<And>x y. R x y \<Longrightarrow> \<not> R y x" "i < length xs"
  shows "card {x \<in> set xs. R x (xs ! i)} = i"
proof -
  have "{x \<in> set xs. R x (xs ! i)} = set (take i xs)"
  proof (intro set_eqI iffI)
    fix x assume "x \<in> {x \<in> set xs. R x (xs ! i)}"
    then obtain j where j: "j < length xs" "x = xs ! j" "R (xs ! j) (xs ! i)" by (auto simp: in_set_conv_nth)
    have "j \<noteq> i" using j(3) assms(3) by blast
    moreover have "\<not> i < j" using sorted_wrt_nth_less [OF assms(1), of i j] j assms(3) by blast
    ultimately have "j < i" by simp
    then show "x \<in> set (take i xs)" using j assms(4) by (auto simp: in_set_conv_nth)
  next
    fix x assume "x \<in> set (take i xs)"
    then obtain j where "j < i" "x = xs ! j" using assms(4) by (auto simp: in_set_conv_nth)
    then show "x \<in> {x \<in> set xs. R x (xs ! i)}" using sorted_wrt_nth_less [OF assms(1), of j i] assms(4) by simp
  qed
  then show ?thesis using assms(2,4) by (simp add: distinct_card distinct_take)
qed

lemma filter_order:
  "sorted_wrt Q (filter P xs) \<Longrightarrow> i < j \<Longrightarrow> j < length xs \<Longrightarrow> P (xs ! i) \<Longrightarrow> P (xs ! j) \<Longrightarrow> Q (xs ! i) (xs ! j)"
proof (induction xs arbitrary: i j)
  case (Cons x xs)
  then obtain j' where "j = Suc j'" by (cases j) auto
  with Cons show ?case by (cases i) (auto split: if_splits)
qed simp

text \<open>A stable sort keeps the order of elements with the same key.\<close>

lemma stable_sort_wrt:
  assumes "sorted_wrt Q xs"
  shows "sorted_wrt (\<lambda>x y. f x < f y \<or> f x = f y \<and> Q x y) (sort_key f xs)"
  unfolding sorted_wrt_iff_nth_less
proof (intro allI impI)
  let ?s = "sort_key f xs"
  fix i j assume ij: "i < j" "j < length ?s"
  have "map f ?s ! i \<le> map f ?s ! j" using ij by (intro sorted_nth_mono) simp_all
  then have le: "f (?s ! i) \<le> f (?s ! j)" using ij by simp
  have "Q (?s ! i) (?s ! j)" if "f (?s ! i) = f (?s ! j)"
  proof (rule filter_order [OF _ ij])
    show "sorted_wrt Q (filter (\<lambda>x. f x = f (?s ! j)) ?s)"
      unfolding sort_key_stable using assms by (rule sorted_wrt_filter)
  qed (simp_all add: that)
  with le show "f (?s ! i) < f (?s ! j) \<or> f (?s ! i) = f (?s ! j) \<and> Q (?s ! i) (?s ! j)" by auto
qed

text \<open>The instruments that get a rank, and which of two comes first.\<close>

definition rankable :: "axes \<Rightarrow> nat \<Rightarrow> nat \<Rightarrow> tensor \<Rightarrow> nat set" where
  "rankable ax s d T = {a \<in> {..<n_a ax}. flag (strat_at ax T (slot s SF_pool) a d) \<and> is_finite (strat_at ax T (slot s SF_score) a d)}"

definition outranks :: "axes \<Rightarrow> nat \<Rightarrow> nat \<Rightarrow> tensor \<Rightarrow> nat \<Rightarrow> nat \<Rightarrow> bool" where
  "outranks ax s d T b a \<longleftrightarrow> (let x = strat_at ax T (slot s SF_score) b d; y = strat_at ax T (slot s SF_score) a d
     in fless y x \<or> feq y x \<and> b < a)"

lemma fneg_less: "is_finite x \<Longrightarrow> is_finite y \<Longrightarrow> fneg x < fneg y \<longleftrightarrow> fless y x"
  by (cases x; cases y) auto

lemma fneg_eq: "is_finite x \<Longrightarrow> is_finite y \<Longrightarrow> fneg x = fneg y \<longleftrightarrow> feq y x"
  by (cases x; cases y) auto

lemma ranking_spec:
  fixes ax s d T
  defines "R \<equiv> map snd (ranking ax s d T)"
  shows "distinct R" "set R = rankable ax s d T" "i < length R \<Longrightarrow> card {b \<in> rankable ax s d T. outranks ax s d T b (R ! i)} = i"
proof -
  let ?sc = "\<lambda>a. strat_at ax T (slot s SF_score) a d"
  let ?as = "filter (\<lambda>a. a \<in> rankable ax s d T) [0..<n_a ax]"
  let ?xs = "map (\<lambda>a. (?sc a, a)) ?as"
  have "filter (\<lambda>a. flag (strat_gather_cs_row ax T (slot s SF_pool) d ! a) \<and> is_finite (strat_gather_cs_row ax T (slot s SF_score) d ! a)) [0..<n_a ax] = ?as"
    by (intro filter_cong) (auto simp: rankable_def strat_gather_at)
  moreover have "map (\<lambda>a. (strat_gather_cs_row ax T (slot s SF_score) d ! a, a)) ?as = ?xs"
    by (intro map_cong refl) (auto simp: rankable_def strat_gather_at)
  ultimately have r: "ranking ax s d T = sort_key (\<lambda>p. fneg (fst p)) ?xs"
    unfolding ranking_def Let_def map_filter_if by (simp only:)
  have set: "set (ranking ax s d T) = (\<lambda>a. (?sc a, a)) ` rankable ax s d T" by (auto simp: r rankable_def)
  then show "set R = rankable ax s d T" by (simp add: R_def image_image)
  have "distinct (ranking ax s d T)" unfolding r by (simp add: distinct_map inj_on_def)
  moreover have "inj_on snd (set (ranking ax s d T))" unfolding set by (auto simp: inj_on_def)
  ultimately show d: "distinct R" by (simp add: R_def distinct_map)
  have q: "sorted_wrt (\<lambda>p q. snd p < snd q) ?xs" by (simp add: sorted_wrt_map sorted_wrt_filter)
  have "sorted_wrt (\<lambda>p q. outranks ax s d T (snd p) (snd q)) (ranking ax s d T)"
  proof (rule sorted_wrt_mono_rel)
    show "sorted_wrt (\<lambda>p q. fneg (fst p) < fneg (fst q) \<or> fneg (fst p) = fneg (fst q) \<and> snd p < snd q) (ranking ax s d T)"
      unfolding r by (rule stable_sort_wrt [OF q])
  qed (auto simp: set outranks_def rankable_def fneg_less fneg_eq)
  then have "sorted_wrt (outranks ax s d T) R" by (simp add: R_def sorted_wrt_map)
  moreover have "\<not> outranks ax s d T b a" if "outranks ax s d T a b" for a b
    using that by (cases "?sc a"; cases "?sc b") (auto simp: outranks_def)
  ultimately have "card {b \<in> set R. outranks ax s d T b (R ! i)} = i" if "i < length R" for i
    using sorted_position d that by blast
  then show "i < length R \<Longrightarrow> card {b \<in> rankable ax s d T. outranks ax s d T b (R ! i)} = i"
    using \<open>set R = rankable ax s d T\<close> by simp
qed

lemma foldl_rank_nth:
  "a < length out \<Longrightarrow> distinct R \<Longrightarrow> set R \<subseteq> {..<length out} \<Longrightarrow> k \<le> length R \<Longrightarrow>
   length (foldl (\<lambda>out i. out[R ! i := h i]) out [0..<k]) = length out \<and>
   (\<forall>i<k. foldl (\<lambda>out i. out[R ! i := h i]) out [0..<k] ! (R ! i) = h i) \<and>
   (a \<notin> set (take k R) \<longrightarrow> foldl (\<lambda>out i. out[R ! i := h i]) out [0..<k] ! a = out ! a)"
proof (induction k)
  case (Suc k)
  then have "R ! k < length out" by (metis Suc_le_lessD in_mono lessThan_iff nth_mem)
  with Suc show ?case by (auto simp: nth_list_update nth_eq_iff_index_eq less_Suc_eq take_Suc_conv_app_nth)
qed simp

lemma cs_rank_spec:
  assumes "tensor_ok ax T" "d < n_d ax" "slot s SF_rank < length (tn_strat T)" "a < n_a ax"
  shows "strat_at ax (cs_rank ar ax s d T) (slot s SF_rank) a d =
    (if a \<in> rankable ax s d T then single ar (real (Suc (card {b \<in> rankable ax s d T. outranks ax s d T b a}))) else Fin 0)"
proof -
  define R where "R = map snd (ranking ax s d T)"
  note R = ranking_spec [where ax = ax and s = s and d = d and T = T, folded R_def]
  define out where "out = foldl (\<lambda>out i. out[R ! i := single ar (real (i + 1))]) (replicate (n_a ax) (Fin 0)) [0..<length R]"
  have "foldl (\<lambda>out i. out[snd (ranking ax s d T ! i) := single ar (real (i + 1))]) (replicate (n_a ax) (Fin 0)) [0..<length (ranking ax s d T)] = out"
    unfolding out_def by (intro foldl_cong) (simp_all add: R_def)
  then have c: "cs_rank ar ax s d T = strat_scatter_cs_row ax T (slot s SF_rank) d out"
    by (simp add: cs_rank_def Let_def)
  have sub: "set R \<subseteq> {..<length (replicate (n_a ax) (Fin 0))}" by (auto simp: R(2) rankable_def)
  have al: "a < length (replicate (n_a ax) (Fin 0))" using assms(4) by simp
  note f = foldl_rank_nth [OF al R(1) sub order_refl, of "\<lambda>i. single ar (real (i + 1))", folded out_def]
  have at: "strat_at ax (cs_rank ar ax s d T) (slot s SF_rank) a d = out ! a"
    unfolding c by (rule strat_at_scatter) (use assms f in simp_all)
  show ?thesis
  proof (cases "a \<in> rankable ax s d T")
    case True
    then obtain i where i: "i < length R" "a = R ! i" using R(2) by (metis in_set_conv_nth)
    with f have "out ! a = single ar (real (Suc i))" by simp
    with R(3) [OF i(1)] i(2) True at show ?thesis by simp
  next
    case False
    with f R(2) at assms(4) show ?thesis by simp
  qed
qed

text \<open>Up to \<open>2 ^ 24\<close> instruments the ranks are exact.\<close>

lemma cs_rank_exact:
  assumes "rounding (single ar)" "n_a ax \<le> 2 ^ 24" "tensor_ok ax T" "d < n_d ax" "slot s SF_rank < length (tn_strat T)" "a < n_a ax"
  shows "strat_at ax (cs_rank ar ax s d T) (slot s SF_rank) a d =
    Fin (if a \<in> rankable ax s d T then real (Suc (card {b \<in> rankable ax s d T. outranks ax s d T b a})) else 0)"
proof (cases "a \<in> rankable ax s d T")
  case True
  let ?R = "map snd (ranking ax s d T)" and ?n = "card {b \<in> rankable ax s d T. outranks ax s d T b a}"
  note R = ranking_spec [where ax = ax and s = s and d = d and T = T]
  from True obtain i where i: "i < length ?R" "a = ?R ! i" using R(2) by (metis in_set_conv_nth)
  have "card (rankable ax s d T) = length ?R" using R(1,2) by (metis distinct_card)
  moreover have "card (rankable ax s d T) \<le> card {..<n_a ax}" by (rule card_mono) (auto simp: rankable_def)
  ultimately have "Suc ?n \<le> 2 ^ 24" using R(3) [OF i(1)] i assms(2) by simp
  then have "single ar (real (Suc ?n)) = Fin (real (Suc ?n))" by (rule rounding.rnd_nat [OF assms(1)])
  with True cs_rank_spec [OF assms(3-6), of ar] show ?thesis by simp
next
  case False
  with cs_rank_spec [OF assms(3-6), of ar] show ?thesis by simp
qed

section \<open>The score\<close>

lemma fadd_not_finite: "\<not> is_finite s \<Longrightarrow> \<not> is_finite (fadd rnd s x)"
  by (cases s; cases x) auto

lemma weights_not_finite: "\<not> is_finite s \<Longrightarrow> \<not> is_finite (foldl (\<lambda>s fw. fadd rnd s (fabs (snd fw))) s ws)"
  by (induction ws arbitrary: s) (simp_all add: fadd_not_finite)

text \<open>A weight that is a value of the format.\<close>

definition weight_ok :: "arith \<Rightarrow> fval \<Rightarrow> bool" where
  "weight_ok ar w \<longleftrightarrow> is_finite w \<and> single ar (val w) = w"

lemma fabs_fixed:
  assumes "format_rounding (single ar)" "single ar w = Fin w" shows "single ar \<bar>w\<bar> = Fin \<bar>w\<bar>"
  using assms format_rounding.rnd_minus [OF assms(1), of w] by (cases "0 \<le> w") simp_all

text \<open>The partial sums of a score stay within the partial sums of the weights.\<close>

lemma score_loop_bounded:
  assumes "format_rounding (single ar)" "arith_ok ar" "n_a ax \<le> 2 ^ 23" "length msk = n_a ax"
  shows "\<forall>(f, w)\<in>set ws. weight_ok ar w \<and> (\<forall>a<n_a ax. flag (msk ! a) \<longrightarrow> is_finite (tensor_at ax T f a d)) \<Longrightarrow>
    foldl (\<lambda>s fw. fadd (single ar) s (fabs (snd fw))) (Fin W) ws = Fin W' \<Longrightarrow>
    length acc = n_a ax \<Longrightarrow> \<forall>a<n_a ax. flag (msk ! a) \<longrightarrow> (\<exists>r. acc ! a = Fin r \<and> \<bar>r\<bar> \<le> W) \<Longrightarrow>
    \<exists>acc'. score_loop ar ax d T msk ws acc = Ok acc' \<and> (\<forall>a<n_a ax. flag (msk ! a) \<longrightarrow> (\<exists>r. acc' ! a = Fin r \<and> \<bar>r\<bar> \<le> W'))"
proof (induction ws arbitrary: W acc)
  case (Cons fw ws)
  obtain f w where fw: "fw = (f, w)" by (cases fw)
  with Cons.prems(1) obtain v where v: "w = Fin v" "single ar v = Fin v" by (auto simp: weight_ok_def is_finite_iff)
  define x where "x = map2 (\<lambda>m v. if flag m then v else NaN) msk (gather_cs_row ax T f d)"
  have lx: "length x = n_a ax" using assms(4) by (simp add: x_def length_gather)
  have x: "is_finite (x ! a) \<longleftrightarrow> flag (msk ! a)" if "a < n_a ax" for a
    using that assms(4) Cons.prems(1) fw by (auto simp: x_def length_gather gather_at)
  have "length x \<le> 2 ^ 23" using lx assms(3) by simp
  note p = pct_rank_cases [OF assms(2) this, unfolded lx]
  obtain W1 where W1: "single ar (W + \<bar>v\<bar>) = Fin W1" "foldl (\<lambda>s fw. fadd (single ar) s (fabs (snd fw))) (Fin W1) ws = Fin W'"
    using Cons.prems(2) weights_not_finite [of "single ar (W + \<bar>v\<bar>)" "single ar" ws] fw v(1) by (cases "single ar (W + \<bar>v\<bar>)") auto
  define acc1 where "acc1 = map (\<lambda>a. if flag (msk ! a) then fadd (single ar) (acc ! a) (fmul (single ar) w (pct_rank ar x ! a)) else acc ! a) [0..<n_a ax]"
  have no: "\<not> list_ex (\<lambda>a. flag (msk ! a) \<and> \<not> is_finite (pct_rank ar x ! a)) [0..<n_a ax]"
    using p x by (auto simp: list_ex_iff in_unit_finite)
  have "\<exists>r. acc1 ! a = Fin r \<and> \<bar>r\<bar> \<le> W1" if a: "a < n_a ax" "flag (msk ! a)" for a
  proof -
    from p [OF a(1)] x [OF a(1)] a(2) obtain c where c: "pct_rank ar x ! a = Fin c" "0 \<le> c" "c \<le> 1" by (auto simp: in_unit_iff)
    from Cons.prems(4) a obtain r where r: "acc ! a = Fin r" "\<bar>r\<bar> \<le> W" by blast
    have "\<bar>v * c\<bar> \<le> \<bar>v\<bar>" using c by (simp add: abs_mult mult_left_le)
    from format_rounding.rnd_abs [OF assms(1) this fabs_fixed [OF assms(1) v(2)]] obtain q where
      q: "single ar (v * c) = Fin q" "\<bar>q\<bar> \<le> \<bar>v\<bar>" by blast
    have "\<bar>r + q\<bar> \<le> W + \<bar>v\<bar>" using r(2) q(2) by linarith
    from format_rounding.rnd_abs [OF assms(1) this W1(1)] a c r q v show ?thesis by (simp add: acc1_def)
  qed
  then have "\<exists>acc'. score_loop ar ax d T msk ws acc1 = Ok acc' \<and> (\<forall>a<n_a ax. flag (msk ! a) \<longrightarrow> (\<exists>r. acc' ! a = Fin r \<and> \<bar>r\<bar> \<le> W'))"
    by (intro Cons.IH [OF _ W1(2)]) (use Cons.prems(1) in \<open>simp_all add: acc1_def\<close>)
  moreover have "score_loop ar ax d T msk (fw # ws) acc = score_loop ar ax d T msk ws acc1"
    unfolding fw score_loop.simps Let_def x_def [symmetric] acc1_def [symmetric] using no by simp
  ultimately show ?case by simp
qed simp

text \<open>The sum of the weights is at least the first weight.\<close>

lemma weight_sum_ge:
  assumes "format_rounding (single ar)" "single ar b = Fin b" "b \<le> W"
    "\<forall>(f, w)\<in>set ws. weight_ok ar w" "foldl (\<lambda>s fw. fadd (single ar) s (fabs (snd fw))) (Fin W) ws = Fin W'"
  shows "b \<le> W'"
  using assms(3-5)
proof (induction ws arbitrary: W)
  case (Cons fw ws)
  obtain f w where fw: "fw = (f, w)" by (cases fw)
  with Cons.prems(2) obtain v where v: "w = Fin v" by (auto simp: weight_ok_def is_finite_iff)
  obtain W1 where W1: "single ar (W + \<bar>v\<bar>) = Fin W1" "foldl (\<lambda>s fw. fadd (single ar) s (fabs (snd fw))) (Fin W1) ws = Fin W'"
    using Cons.prems(3) weights_not_finite [of "single ar (W + \<bar>v\<bar>)" "single ar" ws] fw v by (cases "single ar (W + \<bar>v\<bar>)") auto
  have "b \<le> W + \<bar>v\<bar>" using Cons.prems(1) by linarith
  from format_rounding.rnd_fix_le [OF assms(1,2) this W1(1)] have "b \<le> W1" .
  from Cons.IH [OF this _ W1(2)] Cons.prems(2) show ?case by simp
qed simp

text \<open>What a strategy needs for its scores: weights of the format that are not all zero, whose sum is finite.\<close>

definition weights_ok :: "arith \<Rightarrow> strategy_spec \<Rightarrow> bool" where
  "weights_ok ar spec \<longleftrightarrow> list_all (\<lambda>(f, w). weight_ok ar w \<and> \<not> feq w (Fin 0)) (st_weights spec) \<and> st_weights spec \<noteq> [] \<and>
     is_finite (weight_sum ar (st_weights spec))"

lemma weight_sum_pos:
  assumes "format_rounding (single ar)" "weights_ok ar spec"
  shows "\<exists>W. weight_sum ar (st_weights spec) = Fin W \<and> 0 < W"
proof -
  obtain f w ws where ws: "st_weights spec = (f, w) # ws" using assms(2) by (cases "st_weights spec") (auto simp: weights_ok_def)
  with assms(2) obtain v where v: "w = Fin v" "single ar v = Fin v" "v \<noteq> 0" by (auto simp: weights_ok_def weight_ok_def is_finite_iff)
  obtain W where W: "weight_sum ar (st_weights spec) = Fin W" using assms(2) by (auto simp: weights_ok_def is_finite_iff)
  have "foldl (\<lambda>s fw. fadd (single ar) s (fabs (snd fw))) (Fin \<bar>v\<bar>) ws = Fin W"
    using W ws v fabs_fixed [OF assms(1) v(2)] by (simp add: weight_sum_def)
  moreover have "\<forall>(f, w)\<in>set ws. weight_ok ar w" using assms(2) ws by (auto simp: weights_ok_def list_all_iff)
  ultimately have "\<bar>v\<bar> \<le> W" by (intro weight_sum_ge [OF assms(1) fabs_fixed [OF assms(1) v(2)] order_refl])
  with W v(3) show ?thesis by auto
qed

definition score_row_ok :: "axes \<Rightarrow> fval list \<Rightarrow> fval list \<Rightarrow> bool" where
  "score_row_ok ax pool row \<longleftrightarrow> length row = n_a ax \<and>
     (\<forall>a<n_a ax. \<exists>r. row ! a = Fin r \<and> \<bar>r\<bar> \<le> 1 \<and> (flag (pool ! a) \<or> r = 0))"

lemma cs_score_ok:
  assumes "format_rounding (single ar)" "arith_ok ar" "n_a ax \<le> 2 ^ 23" "weights_ok ar spec"
    "\<forall>f\<in>fst ` set (st_weights spec). \<forall>a<n_a ax. flag (strat_at ax T (slot s SF_pool) a d) \<longrightarrow> is_finite (tensor_at ax T f a d)"
  shows "\<exists>row. cs_score ar ax s spec d T = Ok (strat_scatter_cs_row ax T (slot s SF_score) d row) \<and>
    score_row_ok ax (strat_gather_cs_row ax T (slot s SF_pool) d) row"
proof -
  let ?m = "strat_gather_cs_row ax T (slot s SF_pool) d"
  obtain W where W: "weight_sum ar (st_weights spec) = Fin W" "0 < W" using weight_sum_pos [OF assms(1,4)] by blast
  have "\<forall>(f, w)\<in>set (st_weights spec). weight_ok ar w \<and> (\<forall>a<n_a ax. flag (?m ! a) \<longrightarrow> is_finite (tensor_at ax T f a d))"
    using assms(4,5) by (fastforce simp: weights_ok_def list_all_iff strat_gather_at)
  moreover have "\<forall>a<n_a ax. flag (?m ! a) \<longrightarrow> (\<exists>r. replicate (n_a ax) (Fin 0) ! a = Fin r \<and> \<bar>r\<bar> \<le> 0)" by simp
  ultimately obtain acc where acc: "score_loop ar ax d T ?m (st_weights spec) (replicate (n_a ax) (Fin 0)) = Ok acc"
    "\<forall>a<n_a ax. flag (?m ! a) \<longrightarrow> (\<exists>r. acc ! a = Fin r \<and> \<bar>r\<bar> \<le> W)"
    using score_loop_bounded [OF assms(1-3), of ?m "st_weights spec" T d 0 W "replicate (n_a ax) (Fin 0)"] W(1)
    by (auto simp: weight_sum_def)
  let ?row = "map (\<lambda>a. if flag (?m ! a) then fdiv (single ar) (acc ! a) (Fin W) else Fin 0) [0..<n_a ax]"
  have R: "rounding (single ar)" using assms(2) by (simp add: arith_ok_def)
  have "\<exists>q. fdiv (single ar) (acc ! a) (Fin W) = Fin q \<and> \<bar>q\<bar> \<le> 1" if a: "a < n_a ax" "flag (?m ! a)" for a
  proof -
    from acc(2) a obtain r where r: "acc ! a = Fin r" "\<bar>r\<bar> \<le> W" by blast
    then have "\<bar>r / W\<bar> \<le> 1" using W(2) by simp
    from format_rounding.rnd_abs [OF assms(1) this rounding.rnd_1 [OF R]] r W(2) show ?thesis by simp
  qed
  then have "score_row_ok ax ?m ?row" by (auto simp: score_row_ok_def)
  moreover have "cs_score ar ax s spec d T = Ok (strat_scatter_cs_row ax T (slot s SF_score) d ?row)"
    unfolding cs_score_def Let_def W(1) acc(1) using W(2) by simp
  ultimately show ?thesis by blast
qed

section \<open>Properties\<close>

text \<open>The pool of a day: of the instruments that are on the whitelist, are hit by no filter and have a positive key, exactly
  \<open>universe_size\<close> are taken (all, when there are not more), and none that is left out has a better key than one
  that is taken. The column holds 1 for the members and 0 for all others, whatever \<open>std::nth_element\<close> does with equal keys.\<close>

theorem pool_takes_the_best:
  assumes "nth_element nth_el" "tensor_ok ax T" "d < n_d ax" "slot s SF_pool < length (tn_strat T)"
  shows "\<exists>M. M \<subseteq> {a \<in> {..<n_a ax}. eligible ax s spec d T a} \<and>
      card M = pool_limit spec (card {a \<in> {..<n_a ax}. eligible ax s spec d T a}) \<and>
      (\<forall>a\<in>M. \<forall>b\<in>{a \<in> {..<n_a ax}. eligible ax s spec d T a} - M. before (ps_rank_asc (st_pool spec))
         (tensor_at ax T (ps_rank_key (st_pool spec)) a d) (tensor_at ax T (ps_rank_key (st_pool spec)) b d)) \<and>
      (\<forall>a<n_a ax. strat_at ax (cs_pool nth_el ax s spec d T) (slot s SF_pool) a d = of_flag (a \<in> M))"
  by (rule exI [of _ "members ax (cs_pool nth_el ax s spec d T) (slot s SF_pool) d"])
    (use members_cs_pool [OF assms, where spec = spec] in simp)

text \<open>Two instruments worth 3 and 2 on the whitelist, and a strategy that takes one of them.\<close>

definition sample_tensor :: tensor where
  "sample_tensor = \<lparr>tn_mats = (\<lambda>f. if f = Mcap_raw then [Fin 3, Fin 3, Fin 2, Fin 2] else [Fin 0, Fin 0, Fin 0, Fin 0]),
     tn_strat = replicate 8 [Fin 1, Fin 1, Fin 1, Fin 1]\<rparr>"

definition sample_strategy :: strategy_spec where
  "sample_strategy = (strat_0 exact_arith)\<lparr>st_pool := (st_pool (strat_0 exact_arith))\<lparr>ps_universe_size := 1\<rparr>\<rparr>"

lemma sample_strategy_simps [simp]:
  "ps_rank_key (st_pool sample_strategy) = Mcap_raw" "ps_rank_asc (st_pool sample_strategy)"
  "ps_universe_size (st_pool sample_strategy) = 1" "st_filters sample_strategy = strategy_filters"
  "st_weights sample_strategy = st_weights (strat_0 exact_arith)"
  by (simp_all add: sample_strategy_def strat_0_def)

lemma sample_tensor_ok: "tensor_ok sample_axes sample_tensor" "length (tn_strat sample_tensor) = 8"
  by (simp_all add: sample_tensor_def tensor_ok_def mat_ok_def grid_n_def sample_axes_ok)

lemma sample_eligible: "a < 2 \<Longrightarrow> eligible sample_axes 0 sample_strategy 0 sample_tensor a"
  by (auto simp: eligible_def strat_at_def tensor_at_def sample_tensor_def slot_def SF_COUNT_def mat_off_def sample_axes_ok
      strategy_filters_def positive_def less_Suc_eq numeral_2_eq_2)

lemma pool_takes_the_best_witness:
  "strat_at sample_axes (cs_pool sort_cut sample_axes 0 sample_strategy 0 sample_tensor) (slot 0 SF_pool) 1 0 = Fin 1 \<and>
   strat_at sample_axes (cs_pool sort_cut sample_axes 0 sample_strategy 0 sample_tensor) (slot 0 SF_pool) 0 0 = Fin 0"
proof -
  have E: "{a \<in> {..<n_a sample_axes}. eligible sample_axes 0 sample_strategy 0 sample_tensor a} = {0, 1}"
    using sample_eligible by (auto simp: sample_axes_ok)
  have "slot 0 SF_pool < length (tn_strat sample_tensor)" by (simp add: slot_def sample_tensor_ok)
  from pool_takes_the_best [OF sorted_cut.nth_element_axioms sample_tensor_ok(1) _ this, of 0 sample_strategy] obtain M where
    M: "M \<subseteq> {0, 1}" "card M = 1" "\<forall>a\<in>M. \<forall>b\<in>{0, 1} - M. fle (tensor_at sample_axes sample_tensor Mcap_raw a 0) (tensor_at sample_axes sample_tensor Mcap_raw b 0)"
    "\<forall>a<2. strat_at sample_axes (cs_pool sort_cut sample_axes 0 sample_strategy 0 sample_tensor) (slot 0 SF_pool) a 0 = of_flag (a \<in> M)"
    unfolding E by (auto simp: sample_axes_ok pool_limit_def before_def)
  from M(2) obtain m where m: "M = {m}" by (auto simp: card_1_singleton_iff)
  have "\<not> fle (tensor_at sample_axes sample_tensor Mcap_raw 0 0) (tensor_at sample_axes sample_tensor Mcap_raw 1 0)"
    by (simp add: tensor_at_def sample_tensor_def mat_off_def sample_axes_ok numeral_2_eq_2)
  with M(1,3) m have "m = 1" by auto
  with M(4) m show ?thesis by (simp add: of_flag_def)
qed

text \<open>The rank column is the order of the scores: an instrument of the pool with a finite score has one plus the number
  of those that beat it - by a higher score, or by a lower index when the scores are equal -, so the ranks are
  \<open>1, 2, ...\<close> without gaps or repetitions, and every other instrument has 0.\<close>

theorem rank_is_the_order:
  assumes "rounding (single ar)" "n_a ax \<le> 2 ^ 24" "tensor_ok ax T" "d < n_d ax" "slot s SF_rank < length (tn_strat T)"
  shows "(\<forall>a<n_a ax. strat_at ax (cs_rank ar ax s d T) (slot s SF_rank) a d =
      Fin (if a \<in> rankable ax s d T then real (Suc (card {b \<in> rankable ax s d T. outranks ax s d T b a})) else 0)) \<and>
    bij_betw (\<lambda>a. Suc (card {b \<in> rankable ax s d T. outranks ax s d T b a})) (rankable ax s d T) {1..card (rankable ax s d T)}"
proof (intro conjI allI impI)
  let ?R = "map snd (ranking ax s d T)" and ?n = "\<lambda>a. card {b \<in> rankable ax s d T. outranks ax s d T b a}"
  note R = ranking_spec [where ax = ax and s = s and d = d and T = T]
  have c: "card (rankable ax s d T) = length ?R" using R(1,2) by (metis distinct_card)
  show "strat_at ax (cs_rank ar ax s d T) (slot s SF_rank) a d = Fin (if a \<in> rankable ax s d T then real (Suc (?n a)) else 0)"
    if a: "a < n_a ax" for a by (rule cs_rank_exact [OF assms a])
  have "(\<lambda>a. Suc (?n a)) ` rankable ax s d T = {1..card (rankable ax s d T)}"
  proof (intro set_eqI iffI)
    fix k assume "k \<in> (\<lambda>a. Suc (?n a)) ` rankable ax s d T"
    then obtain a where a: "a \<in> set ?R" "k = Suc (?n a)" unfolding R(2) by blast
    then obtain i where "i < length ?R" "k = Suc (?n (?R ! i))" by (auto simp: in_set_conv_nth)
    then show "k \<in> {1..card (rankable ax s d T)}" using R(3) [of i] c by simp
  next
    fix k assume "k \<in> {1..card (rankable ax s d T)}"
    then have i: "k - 1 < length ?R" "1 \<le> k" using c by auto
    from R(3) [OF i(1)] i(2) have "k = Suc (?n (?R ! (k - 1)))" by simp
    moreover have "?R ! (k - 1) \<in> rankable ax s d T" using i(1) R(2) nth_mem by blast
    ultimately show "k \<in> (\<lambda>a. Suc (?n a)) ` rankable ax s d T" by blast
  qed
  then show "bij_betw (\<lambda>a. Suc (?n a)) (rankable ax s d T) {1..card (rankable ax s d T)}"
    by (simp add: bij_betw_def eq_card_imp_inj_on rankable_def)
qed

lemma rank_is_the_order_witness:
  "strat_at sample_axes (cs_rank exact_arith sample_axes 0 0 sample_tensor) (slot 0 SF_rank) 0 0 = Fin 1 \<and>
   strat_at sample_axes (cs_rank exact_arith sample_axes 0 0 sample_tensor) (slot 0 SF_rank) 1 0 = Fin 2"
proof -
  have at: "a < 2 \<Longrightarrow> strat_at sample_axes sample_tensor (slot 0 c) a 0 = Fin 1" for a c
    by (cases c) (auto simp: strat_at_def sample_tensor_def slot_def SF_COUNT_def mat_off_def sample_axes_ok less_Suc_eq numeral_2_eq_2)
  have r: "rankable sample_axes 0 0 sample_tensor = {0, 1}" by (auto simp: rankable_def sample_axes_ok at)
  have "outranks sample_axes 0 0 sample_tensor b a \<longleftrightarrow> b < a" if "a < 2" "b < 2" for a b
    using that by (simp add: outranks_def at)
  moreover have two: "{b \<in> {0 :: nat, 1}. P b} = (if P 0 then {0} else {}) \<union> (if P 1 then {1} else {})" for P
    by (auto intro!: gr0I)
  ultimately have "{b \<in> {0, 1}. outranks sample_axes 0 0 sample_tensor b 0} = {}" "{b \<in> {0, 1}. outranks sample_axes 0 0 sample_tensor b 1} = {0}"
    unfolding two by simp_all
  with rank_is_the_order [of exact_arith, OF _ _ sample_tensor_ok(1), of 0 0] exact.rounding_axioms r show ?thesis
    by (simp add: slot_def SF_COUNT_def sample_tensor_ok sample_axes_ok)
qed

text \<open>C22. Scores are bounded in the arithmetic of the machine: when the factors of the pool are finite, no assertion of
  \<open>cs_score\<close> fails, every score is a number of \<open>[-1, 1]\<close> and it is 0 outside of the pool. The weights may
  have any signs; the rounding may be that of \<open>float\<close> or exact.\<close>

theorem score_bounded:
  assumes "format_rounding (single ar)" "arith_ok ar" "n_a ax \<le> 2 ^ 23" "weights_ok ar spec" "tensor_ok ax T" "d < n_d ax"
    "slot s SF_score < length (tn_strat T)"
    "\<forall>f\<in>fst ` set (st_weights spec). \<forall>a<n_a ax. flag (strat_at ax T (slot s SF_pool) a d) \<longrightarrow> is_finite (tensor_at ax T f a d)"
  shows "\<exists>T'. cs_score ar ax s spec d T = Ok T' \<and> (\<forall>a<n_a ax. \<exists>r. strat_at ax T' (slot s SF_score) a d = Fin r \<and> \<bar>r\<bar> \<le> 1 \<and>
      (flag (strat_at ax T (slot s SF_pool) a d) \<or> r = 0))"
proof -
  from cs_score_ok [OF assms(1-4,8)] obtain row where
    row: "cs_score ar ax s spec d T = Ok (strat_scatter_cs_row ax T (slot s SF_score) d row)"
    "score_row_ok ax (strat_gather_cs_row ax T (slot s SF_pool) d) row" by blast
  then have "length row = n_a ax" by (simp add: score_row_ok_def)
  with row assms(5-7) show ?thesis by (auto simp: score_row_ok_def strat_at_scatter strat_gather_at)
qed

lemma weights_ok_bounded:
  assumes "rounding (single ar)" "st_weights spec \<noteq> []" "length (st_weights spec) \<le> 2 ^ 24"
    "\<And>f w. (f, w) \<in> set (st_weights spec) \<Longrightarrow> \<exists>v. w = Fin v \<and> single ar v = Fin v \<and> v \<noteq> 0 \<and> \<bar>v\<bar> \<le> 1"
  shows "weights_ok ar spec"
proof -
  have "\<exists>r. foldl (\<lambda>s fw. fadd (single ar) s (fabs (snd fw))) (Fin 0) ws = Fin r \<and> 0 \<le> r \<and> r \<le> real (length ws)"
    if "set ws \<subseteq> set (st_weights spec)" "length ws \<le> 2 ^ 24" for ws
    using that
  proof (induction ws rule: rev_induct)
    case (snoc fw ws)
    then obtain r where r: "foldl (\<lambda>s fw. fadd (single ar) s (fabs (snd fw))) (Fin 0) ws = Fin r" "0 \<le> r" "r \<le> real (length ws)" by auto
    obtain v where v: "snd fw = Fin v" "\<bar>v\<bar> \<le> 1" using assms(4) [of "fst fw" "snd fw"] snoc.prems(1) by auto
    have "\<exists>q. single ar (r + \<bar>v\<bar>) = Fin q \<and> real 0 \<le> q \<and> q \<le> real (length (ws @ [fw]))"
      by (rule rounding.rnd_between [OF assms(1)]) (use r v snoc.prems(2) in auto)
    with r v show ?case by simp
  qed simp
  from this [OF subset_refl assms(3)] have "is_finite (weight_sum ar (st_weights spec))" by (auto simp: weight_sum_def)
  moreover have "list_all (\<lambda>(f, w). weight_ok ar w \<and> \<not> feq w (Fin 0)) (st_weights spec)"
    using assms(4) by (fastforce simp: list_all_iff weight_ok_def)
  ultimately show ?thesis using assms(2) by (simp add: weights_ok_def)
qed

text \<open>The weights of the registered strategies are sixths.\<close>

lemma f32_eighth: "f32 (1 / 8) = Fin (1 / 8)"
proof -
  have l: "log 2 (1 / 8) = - 3" using log_powr_cancel [of 2 "- 3"] by (simp add: powr_minus)
  have "round_to 24 (- 149) (1 / 8) = 1 / 8"
    by (rule round_to_scaled [of _ _ _ "2 ^ 23"]) (simp add: ulp_exp_def l powr_numeral)
  moreover have "(2 :: real) powr 0 \<le> 2 powr 128" by (intro powr_mono) simp_all
  ultimately show ?thesis by (simp add: f32_def ieee_def Let_def)
qed

lemma sixths_ok:
  assumes "format_rounding (single ar)" "single ar (1 / 8) = Fin (1 / 8)" "k \<in> {-3, -2, -1, 1, 2}"
  shows "\<exists>v. sixths ar k = Fin v \<and> single ar v = Fin v \<and> v \<noteq> 0 \<and> \<bar>v\<bar> \<le> 1"
proof -
  note F = assms(1) and R = format_rounding.axioms(1) [OF assms(1)]
  have "\<bar>k / 6\<bar> \<le> 1" using assms(3) by auto
  from format_rounding.rnd_abs [OF F this rounding.rnd_1 [OF R]] obtain v where v: "single ar (k / 6) = Fin v" "\<bar>v\<bar> \<le> 1" by blast
  have "1 / 8 \<le> \<bar>v\<bar>"
  proof (cases "0 < k")
    case True
    then have "1 / 8 \<le> k / 6" using assms(3) by auto
    from format_rounding.rnd_fix_le [OF F assms(2) this v(1)] show ?thesis by simp
  next
    case False
    then have "1 / 8 \<le> - (k / 6)" using assms(3) by auto
    moreover have "single ar (- (k / 6)) = Fin (- v)" using format_rounding.rnd_minus [OF F, of "k / 6"] v(1) by simp
    ultimately show ?thesis using format_rounding.rnd_fix_le [OF F assms(2)] by fastforce
  qed
  with v format_rounding.rnd_idem [OF F v(1)] show ?thesis by (auto simp: sixths_def)
qed

lemma strat_weights_ok:
  assumes "format_rounding (single ar)" "single ar (1 / 8) = Fin (1 / 8)"
  shows "weights_ok ar (strat_0 ar)" "weights_ok ar (strat_1 ar)"
  by (rule weights_ok_bounded [OF format_rounding.axioms(1) [OF assms(1)]];
      use sixths_ok [OF assms] in \<open>auto simp: strat_0_def strat_1_def\<close>)+

lemma score_bounded_witness:
  "\<exists>T'. cs_score \<lparr>single = f32, double = f64\<rparr> sample_axes 0 (strat_0 \<lparr>single = f32, double = f64\<rparr>) 0 sample_tensor = Ok T' \<and>
     (\<exists>r. strat_at sample_axes T' (slot 0 SF_score) 1 0 = Fin r \<and> \<bar>r\<bar> \<le> 1)"
proof -
  let ?ar = "\<lparr>single = f32, double = f64\<rparr>"
  have w: "weights_ok ?ar (strat_0 ?ar)" using strat_weights_ok(1) [of ?ar] f32_format.format_rounding_axioms f32_eighth by simp
  have f: "\<forall>f\<in>fst ` set (st_weights (strat_0 ?ar)). \<forall>a<n_a sample_axes. flag (strat_at sample_axes sample_tensor (slot 0 SF_pool) a 0) \<longrightarrow>
      is_finite (tensor_at sample_axes sample_tensor f a 0)"
    by (auto simp: tensor_at_def sample_tensor_def mat_off_def sample_axes_ok less_Suc_eq numeral_2_eq_2)
  have "format_rounding (single ?ar)" "n_a sample_axes \<le> 2 ^ 23" "0 < n_d sample_axes" "slot 0 SF_score < length (tn_strat sample_tensor)"
    by (simp_all add: f32_format.format_rounding_axioms sample_axes_ok slot_def sample_tensor_ok)
  from score_bounded [OF this(1) arith_ok_ieee this(2) w sample_tensor_ok(1) this(3,4) f] obtain T' where
    "cs_score ?ar sample_axes 0 (strat_0 ?ar) 0 sample_tensor = Ok T'"
    "\<forall>a<n_a sample_axes. \<exists>r. strat_at sample_axes T' (slot 0 SF_score) a 0 = Fin r \<and> \<bar>r\<bar> \<le> 1 \<and>
       (flag (strat_at sample_axes sample_tensor (slot 0 SF_pool) a 0) \<or> r = 0)" by blast
  moreover have "1 < n_a sample_axes" by (simp add: sample_axes_ok)
  ultimately show ?thesis by blast
qed

end
