(* ===== verification/Engine.thy ===== *)
theory Engine
  imports Columns "HOL-Library.Word"
begin

text \<open>
  The backtest kernel (\<open>cpp/include/backtest/engine.hpp\<close>, \<open>cpp/src/backtest/engine.cpp\<close>): a day of the portfolio,
  from the ordered candidates to the positions, the cash and the net asset value. Both users of the kernel, the
  report of a strategy and the weight search, only differ in where the candidates come from and what they record.

  The state is the record \<open>engine\<close>, one field per member; the three hooks of the recorder do not read the engine, so
  the calls a day makes are kept as a list of \<open>event\<close>s in the order of the calls. Cash, shares and amounts are
  \<open>double\<close>s, prices are \<open>float\<close>s. The order of equal deficits under \<open>std::sort\<close> is not fixed: sorting is a
  parameter with the law it promises (\<open>deficit_sort\<close>).
\<close>

unbundle bit_operations_syntax

section \<open>The market\<close>

type_synonym flags = "8 word"

definition SUSP :: flags where "SUSP = 1"
definition LIM_UP :: flags where "LIM_UP = 2"
definition LIM_DN :: flags where "LIM_DN = 4"
definition DELISTED :: flags where "DELISTED = 8"

record market_window =
  mk_d_lo :: nat
  mk_n_d :: nat
  mk_n_a :: nat
  mk_close :: "fval list"
  mk_flags :: "flags list"

definition close_at :: "market_window \<Rightarrow> nat \<Rightarrow> nat \<Rightarrow> fval" where
  "close_at mk i a = mk_close mk ! (i * mk_n_a mk + a)"

definition flags_at :: "market_window \<Rightarrow> nat \<Rightarrow> nat \<Rightarrow> flags" where
  "flags_at mk i a = mk_flags mk ! (i * mk_n_a mk + a)"

definition has_flag :: "flags \<Rightarrow> flags \<Rightarrow> bool" where
  "has_flag f m \<longleftrightarrow> f AND m \<noteq> 0"

datatype engine_error = WindowOutside | FlagNotFinite | DelistAgeNegative | DayOutside | DelistedWithoutClose
  | HoldingWithoutClose | NoValue | TooManyHoldings

definition read_bool :: "axes \<Rightarrow> tensor \<Rightarrow> node \<Rightarrow> nat \<Rightarrow> nat \<Rightarrow> (engine_error, bool) outcome" where
  "read_bool ax T f a d = (let v = tensor_at ax T f a d in if \<not> is_finite v then Fail FlagNotFinite else Ok (flag v))"

definition market_flags :: "axes \<Rightarrow> tensor \<Rightarrow> nat \<Rightarrow> nat \<Rightarrow> (engine_error, flags) outcome" where
  "market_flags ax T a d =
     bind_ok (read_bool ax T Susp a d) (\<lambda>susp.
     bind_ok (read_bool ax T Limit_up a d) (\<lambda>up.
     bind_ok (read_bool ax T Limit_dn a d) (\<lambda>dn.
       let da = tensor_at ax T Delist_age a d;
           f = (if susp then SUSP else 0) OR (if up then LIM_UP else 0) OR (if dn then LIM_DN else 0)
       in if is_finite da then (if fle (Fin 0) da then Ok (f OR DELISTED) else Fail DelistAgeNegative) else Ok f)))"

text \<open>One instrument: \<open>(last, mk)\<close> goes over the days of the window.\<close>

definition market_day :: "axes \<Rightarrow> tensor \<Rightarrow> nat \<Rightarrow> fval \<times> market_window \<Rightarrow> nat \<Rightarrow> (engine_error, fval \<times> market_window) outcome" where
  "market_day ax T a = (\<lambda>(l, mk) i.
     let d = mk_d_lo mk + i; c = tensor_at ax T Close_raw a d; l' = (if is_finite c then c else l); off = i * mk_n_a mk + a in
     bind_ok (market_flags ax T a d) (\<lambda>f.
       Ok (l', mk\<lparr>mk_close := (mk_close mk)[off := l'], mk_flags := (mk_flags mk)[off := f]\<rparr>)))"

definition market_instrument :: "axes \<Rightarrow> tensor \<Rightarrow> market_window \<Rightarrow> nat \<Rightarrow> (engine_error, market_window) outcome" where
  "market_instrument ax T mk a =
     bind_ok (fold_ok (market_day ax T a) (NaN, mk) [0..<mk_n_d mk]) (\<lambda>(l, mk). Ok mk)"

definition load_market :: "axes \<Rightarrow> tensor \<Rightarrow> int \<Rightarrow> int \<Rightarrow> (engine_error, market_window) outcome" where
  "load_market ax T d_lo n_days =
     (if \<not> (d_lo \<ge> 0 \<and> n_days > 0 \<and> d_lo + n_days \<le> int (n_d ax)) then Fail WindowOutside
      else let n = nat n_days * n_a ax in
        fold_ok (market_instrument ax T)
          \<lparr>mk_d_lo = nat d_lo, mk_n_d = nat n_days, mk_n_a = n_a ax, mk_close = replicate n NaN, mk_flags = replicate n 0\<rparr>
          [0..<n_a ax])"

section \<open>The state\<close>

record pos =
  po_a :: nat
  po_shares :: fval
  po_to_sell :: bool

datatype event = DelistSell nat nat fval fval | Sell nat nat fval | Buy nat nat fval

record engine =
  en_hold_n :: int
  en_exit_ratio :: fval
  en_cash :: fval
  en_holdings :: "pos list"
  en_pv :: fval
  en_mv_end :: fval
  en_pv_end :: fval
  en_turn_amt :: fval
  en_n_sell_intent :: nat
  en_n_buy_intent :: nat
  en_n_sell_ok :: nat
  en_n_buy_ok :: nat
  en_events :: "event list"

definition CAPITAL_BASE :: "arith \<Rightarrow> fval" where "CAPITAL_BASE ar = single ar 1000000"
definition BUY_COST :: "arith \<Rightarrow> fval" where "BUY_COST ar = single ar (3 / 10000)"
definition SELL_COST :: "arith \<Rightarrow> fval" where "SELL_COST ar = single ar (13 / 10000)"

definition reset :: "arith \<Rightarrow> engine \<Rightarrow> engine" where
  "reset ar e = e\<lparr>en_cash := CAPITAL_BASE ar, en_holdings := [], en_pv := Fin 0, en_mv_end := Fin 0, en_pv_end := Fin 0,
     en_turn_amt := Fin 0, en_n_sell_intent := 0, en_n_buy_intent := 0, en_n_sell_ok := 0, en_n_buy_ok := 0\<rparr>"

definition new_engine :: "arith \<Rightarrow> int \<Rightarrow> fval \<Rightarrow> engine" where
  "new_engine ar hn er = reset ar
     \<lparr>en_hold_n = hn, en_exit_ratio = er, en_cash = Fin 0, en_holdings = [], en_pv = Fin 0, en_mv_end = Fin 0, en_pv_end = Fin 0,
      en_turn_amt = Fin 0, en_n_sell_intent = 0, en_n_buy_intent = 0, en_n_sell_ok = 0, en_n_buy_ok = 0, en_events = []\<rparr>"

definition find_pos :: "nat \<Rightarrow> pos list \<Rightarrow> pos option" where
  "find_pos a hs = find (\<lambda>p. po_a p = a) hs"

text \<open>\<open>find(a)->shares += x\<close>.\<close>

fun add_shares :: "arith \<Rightarrow> nat \<Rightarrow> fval \<Rightarrow> pos list \<Rightarrow> pos list" where
  "add_shares ar a x [] = []"
| "add_shares ar a x (p # hs) =
     (if po_a p = a then p\<lparr>po_shares := fadd (double ar) (po_shares p) x\<rparr> # hs else p # add_shares ar a x hs)"

definition cap :: "engine \<Rightarrow> int" where
  "cap e = en_hold_n e * 2 + 8"

section \<open>The steps of a day\<close>

text \<open>What a position is worth, what selling it brings in, and its market value over all positions.\<close>

definition pos_value :: "arith \<Rightarrow> market_window \<Rightarrow> nat \<Rightarrow> pos \<Rightarrow> fval" where
  "pos_value ar mk i p = fmul (double ar) (po_shares p) (close_at mk i (po_a p))"

definition sell_pos :: "arith \<Rightarrow> market_window \<Rightarrow> nat \<Rightarrow> pos \<Rightarrow> engine \<Rightarrow> engine" where
  "sell_pos ar mk i p e = e\<lparr>en_turn_amt := fadd (double ar) (en_turn_amt e) (pos_value ar mk i p),
     en_cash := fadd (double ar) (en_cash e) (fmul (double ar) (pos_value ar mk i p) (fsub (double ar) (Fin 1) (SELL_COST ar)))\<rparr>"

definition keep_pos :: "pos \<Rightarrow> engine \<Rightarrow> engine" where
  "keep_pos p e = e\<lparr>en_holdings := en_holdings e @ [p]\<rparr>"

definition tell :: "event \<Rightarrow> engine \<Rightarrow> engine" where
  "tell v e = e\<lparr>en_events := en_events e @ [v]\<rparr>"

text \<open>(1) Positions delisted by this day are sold at the last close.\<close>

definition delist_step :: "arith \<Rightarrow> market_window \<Rightarrow> nat \<Rightarrow> engine \<Rightarrow> pos \<Rightarrow> (engine_error, engine) outcome" where
  "delist_step ar mk i e p =
     (if \<not> has_flag (flags_at mk i (po_a p)) DELISTED then Ok (keep_pos p e)
      else if \<not> is_finite (close_at mk i (po_a p)) then Fail DelistedWithoutClose
      else Ok (tell (DelistSell (po_a p) i (close_at mk i (po_a p)) (po_shares p)) (sell_pos ar mk i p e)))"

definition liquidate :: "arith \<Rightarrow> market_window \<Rightarrow> nat \<Rightarrow> engine \<Rightarrow> (engine_error, engine) outcome" where
  "liquidate ar mk i e = fold_ok (delist_step ar mk i) (e\<lparr>en_holdings := []\<rparr>) (en_holdings e)"

text \<open>(2) The value of the portfolio.\<close>

definition market_value :: "arith \<Rightarrow> market_window \<Rightarrow> nat \<Rightarrow> pos list \<Rightarrow> fval" where
  "market_value ar mk i hs = foldl (\<lambda>s p. fadd (double ar) s (pos_value ar mk i p)) (Fin 0) hs"

definition mark :: "arith \<Rightarrow> market_window \<Rightarrow> nat \<Rightarrow> engine \<Rightarrow> (engine_error, engine) outcome" where
  "mark ar mk i e =
     (if list_ex (\<lambda>p. \<not> is_finite (close_at mk i (po_a p))) (en_holdings e) then Fail HoldingWithoutClose
      else let pv = fadd (double ar) (en_cash e) (market_value ar mk i (en_holdings e)) in
        if \<not> fless (Fin 0) pv then Fail NoValue else Ok (e\<lparr>en_pv := pv\<rparr>))"

text \<open>(3) The prefixes of the candidates that are bought and kept.\<close>

definition n_top :: "engine \<Rightarrow> ranked list \<Rightarrow> int" where
  "n_top e cands = min (en_hold_n e) (int (length cands))"

definition exit_limit :: "arith \<Rightarrow> engine \<Rightarrow> int" where
  "exit_limit ar e = trunc (fmul (single ar) (single ar (of_int (en_hold_n e))) (en_exit_ratio e))"

definition n_top_exit :: "arith \<Rightarrow> engine \<Rightarrow> ranked list \<Rightarrow> int" where
  "n_top_exit ar e cands = min (exit_limit ar e) (int (length cands))"

definition in_prefix :: "ranked list \<Rightarrow> nat \<Rightarrow> int \<Rightarrow> bool" where
  "in_prefix cands a n = list_ex (\<lambda>c. snd c = a) (take (nat n) cands)"

text \<open>(4) What to sell, and what to buy for the free places.\<close>

definition limited :: "market_window \<Rightarrow> nat \<Rightarrow> nat \<Rightarrow> bool" where
  "limited mk i a = has_flag (flags_at mk i a) (LIM_UP OR LIM_DN)"

definition sell_intents :: "arith \<Rightarrow> market_window \<Rightarrow> nat \<Rightarrow> ranked list \<Rightarrow> engine \<Rightarrow> engine" where
  "sell_intents ar mk i cands e =
     (let hs = map (\<lambda>p. p\<lparr>po_to_sell := \<not> in_prefix cands (po_a p) (n_top_exit ar e cands) \<and> \<not> limited mk i (po_a p)\<rparr>) (en_holdings e)
      in e\<lparr>en_holdings := hs, en_n_sell_intent := length (filter po_to_sell hs)\<rparr>)"

fun pick_buys :: "market_window \<Rightarrow> nat \<Rightarrow> pos list \<Rightarrow> int \<Rightarrow> int \<Rightarrow> nat \<Rightarrow> ranked list \<Rightarrow> nat list" where
  "pick_buys mk i hs n slots k [] = []"
| "pick_buys mk i hs n slots k ((x, a) # cands) =
     (if slots \<le> 0 then []
      else if (case find_pos a hs of Some p \<Rightarrow> \<not> po_to_sell p | None \<Rightarrow> False) then pick_buys mk i hs n slots (Suc k) cands
      else if int k \<ge> n then []
      else if limited mk i a then pick_buys mk i hs n slots (Suc k) cands
      else a # pick_buys mk i hs n (slots - 1) (Suc k) cands)"

definition buy_list :: "market_window \<Rightarrow> nat \<Rightarrow> ranked list \<Rightarrow> engine \<Rightarrow> nat list" where
  "buy_list mk i cands e =
     (let slots = en_hold_n e - int (length (filter (\<lambda>p. \<not> po_to_sell p) (en_holdings e))) in
      pick_buys mk i (en_holdings e) (n_top e cands) slots 0 cands)"

text \<open>(5) The sales: a suspended instrument, or one without a price, stays.\<close>

definition sell_step :: "arith \<Rightarrow> market_window \<Rightarrow> nat \<Rightarrow> engine \<Rightarrow> pos \<Rightarrow> engine" where
  "sell_step ar mk i e p =
     (if \<not> po_to_sell p then keep_pos p e
      else if has_flag (flags_at mk i (po_a p)) SUSP \<or> \<not> is_finite (close_at mk i (po_a p)) then keep_pos p e
      else (tell (Sell (po_a p) i (close_at mk i (po_a p))) (sell_pos ar mk i p e))\<lparr>en_n_sell_ok := Suc (en_n_sell_ok e)\<rparr>)"

definition sell_all :: "arith \<Rightarrow> market_window \<Rightarrow> nat \<Rightarrow> engine \<Rightarrow> engine" where
  "sell_all ar mk i e = foldl (sell_step ar mk i) (e\<lparr>en_holdings := [], en_n_sell_ok := 0\<rparr>) (en_holdings e)"

text \<open>(6) The purchases, each of at most the target of a place, then the rest of the cash to the positions below it.\<close>

definition target_per_slot :: "arith \<Rightarrow> market_window \<Rightarrow> nat \<Rightarrow> engine \<Rightarrow> fval" where
  "target_per_slot ar mk i e =
     fdiv (double ar) (fadd (double ar) (en_cash e) (market_value ar mk i (en_holdings e))) (double ar (of_int (en_hold_n e)))"

definition shares_for :: "arith \<Rightarrow> fval \<Rightarrow> fval \<Rightarrow> fval" where
  "shares_for ar money c = fdiv (double ar) (fdiv (double ar) money (fadd (double ar) (Fin 1) (BUY_COST ar))) c"

definition pay :: "arith \<Rightarrow> fval \<Rightarrow> engine \<Rightarrow> engine" where
  "pay ar money e = e\<lparr>en_cash := fsub (double ar) (en_cash e) money, en_turn_amt := fadd (double ar) (en_turn_amt e) money\<rparr>"

definition no_price :: "fval \<Rightarrow> bool" where
  "no_price c \<longleftrightarrow> \<not> is_finite c \<or> fle c (Fin 0)"

fun buy_loop :: "arith \<Rightarrow> market_window \<Rightarrow> nat \<Rightarrow> fval \<Rightarrow> nat list \<Rightarrow> engine \<Rightarrow> engine" where
  "buy_loop ar mk i target [] e = e"
| "buy_loop ar mk i target (a # buys) e =
     (if fle (en_cash e) (Fin 0) then e
      else let c = close_at mk i a in
        if no_price c then buy_loop ar mk i target buys e
        else let money = std_min target (en_cash e); sh = shares_for ar money c in
          if fle sh (Fin 0) then buy_loop ar mk i target buys e
          else buy_loop ar mk i target buys
            ((tell (Buy a i c) (keep_pos \<lparr>po_a = a, po_shares = sh, po_to_sell = False\<rparr> (pay ar money e)))
               \<lparr>en_n_buy_ok := Suc (en_n_buy_ok e)\<rparr>))"

record deficit =
  de_def :: fval
  de_a :: nat
  de_c :: fval

definition deficits :: "arith \<Rightarrow> market_window \<Rightarrow> nat \<Rightarrow> fval \<Rightarrow> pos list \<Rightarrow> deficit list" where
  "deficits ar mk i target hs =
     List.map_filter (\<lambda>p. let c = close_at mk i (po_a p); df = fsub (double ar) target (pos_value ar mk i p) in
       if no_price c then None
       else if has_flag (flags_at mk i (po_a p)) (SUSP OR LIM_UP OR LIM_DN) then None
       else if fle df (Fin 0) then None
       else Some \<lparr>de_def = df, de_a = po_a p, de_c = c\<rparr>) hs"

type_synonym deficit_sorter = "deficit list \<Rightarrow> deficit list"

fun top_up :: "arith \<Rightarrow> deficit list \<Rightarrow> engine \<Rightarrow> engine" where
  "top_up ar [] e = e"
| "top_up ar (dd # dds) e =
     (if fle (en_cash e) (Fin 0) then e
      else let money = std_min (de_def dd) (en_cash e); sh = shares_for ar money (de_c dd) in
        if fle sh (Fin 0) then top_up ar dds e
        else top_up ar dds ((pay ar money e)\<lparr>en_holdings := add_shares ar (de_a dd) sh (en_holdings e)\<rparr>))"

definition rebalance :: "arith \<Rightarrow> deficit_sorter \<Rightarrow> market_window \<Rightarrow> nat \<Rightarrow> fval \<Rightarrow> engine \<Rightarrow> engine" where
  "rebalance ar sorter mk i target e =
     (if fless (Fin 0) (en_cash e) \<and> en_holdings e \<noteq> []
      then top_up ar (sorter (deficits ar mk i target (en_holdings e))) e else e)"

text \<open>(7) The value at the end of the day.\<close>

definition close_day :: "arith \<Rightarrow> market_window \<Rightarrow> nat \<Rightarrow> engine \<Rightarrow> (engine_error, engine) outcome" where
  "close_day ar mk i e =
     (let mv = market_value ar mk i (en_holdings e);
          e' = e\<lparr>en_mv_end := mv, en_pv_end := fadd (double ar) (en_cash e) mv\<rparr>
      in if int (length (en_holdings e')) \<le> cap e' then Ok e' else Fail TooManyHoldings)"

definition trade :: "arith \<Rightarrow> deficit_sorter \<Rightarrow> market_window \<Rightarrow> nat \<Rightarrow> ranked list \<Rightarrow> engine \<Rightarrow> engine" where
  "trade ar sorter mk i cands e =
     (let e = sell_intents ar mk i cands e;
          buys = buy_list mk i cands e;
          e = sell_all ar mk i (e\<lparr>en_n_buy_intent := length buys\<rparr>);
          target = target_per_slot ar mk i e
      in rebalance ar sorter mk i target (buy_loop ar mk i target buys (e\<lparr>en_n_buy_ok := 0\<rparr>)))"

definition step :: "arith \<Rightarrow> deficit_sorter \<Rightarrow> market_window \<Rightarrow> nat \<Rightarrow> ranked list \<Rightarrow> engine \<Rightarrow> (engine_error, engine) outcome" where
  "step ar sorter mk i cands e =
     (if \<not> i < mk_n_d mk then Fail DayOutside
      else bind_ok (liquidate ar mk i (e\<lparr>en_turn_amt := Fin 0, en_events := []\<rparr>)) (\<lambda>e.
        bind_ok (mark ar mk i e) (\<lambda>e.
          close_day ar mk i (trade ar sorter mk i cands e))))"

section \<open>Positions\<close>

lemma subseq_set: "subseq xs ys \<Longrightarrow> set xs \<subseteq> set ys"
  by (induction rule: list_emb.induct) auto

lemma subseq_distinct: "subseq xs ys \<Longrightarrow> distinct ys \<Longrightarrow> distinct xs"
  by (induction rule: list_emb.induct) (auto dest: subseq_set [THEN subsetD])

text \<open>What the steps of a day do to the positions, whatever the arithmetic.\<close>

definition kept :: "market_window \<Rightarrow> nat \<Rightarrow> pos \<Rightarrow> bool" where
  "kept mk i p \<longleftrightarrow> \<not> po_to_sell p \<or> has_flag (flags_at mk i (po_a p)) SUSP \<or> \<not> is_finite (close_at mk i (po_a p))"

named_theorems engine_simps \<open>what the small steps do to the fields of the state\<close>

lemma engine_steps [engine_simps]:
  "en_holdings (keep_pos p e) = en_holdings e @ [p]" "en_holdings (tell v e) = en_holdings e"
  "en_holdings (sell_pos ar mk i p e) = en_holdings e" "en_holdings (pay ar m e) = en_holdings e"
  "en_cash (keep_pos p e) = en_cash e" "en_cash (tell v e) = en_cash e"
  "en_events (keep_pos p e) = en_events e" "en_events (tell v e) = en_events e @ [v]"
  "en_events (sell_pos ar mk i p e) = en_events e" "en_events (pay ar m e) = en_events e"
  "en_turn_amt (keep_pos p e) = en_turn_amt e" "en_turn_amt (tell v e) = en_turn_amt e"
  "en_hold_n (keep_pos p e) = en_hold_n e" "en_hold_n (tell v e) = en_hold_n e"
  "en_hold_n (sell_pos ar mk i p e) = en_hold_n e" "en_hold_n (pay ar m e) = en_hold_n e"
  "en_exit_ratio (keep_pos p e) = en_exit_ratio e" "en_exit_ratio (tell v e) = en_exit_ratio e"
  "en_exit_ratio (sell_pos ar mk i p e) = en_exit_ratio e" "en_exit_ratio (pay ar m e) = en_exit_ratio e"
  "en_n_sell_ok (keep_pos p e) = en_n_sell_ok e" "en_n_sell_ok (tell v e) = en_n_sell_ok e"
  "en_n_sell_ok (sell_pos ar mk i p e) = en_n_sell_ok e" "en_n_sell_ok (pay ar m e) = en_n_sell_ok e"
  "en_n_sell_intent (keep_pos p e) = en_n_sell_intent e" "en_n_sell_intent (tell v e) = en_n_sell_intent e"
  "en_n_sell_intent (sell_pos ar mk i p e) = en_n_sell_intent e" "en_n_sell_intent (pay ar m e) = en_n_sell_intent e"
  "en_pv (keep_pos p e) = en_pv e" "en_pv (tell v e) = en_pv e"
  "en_pv (sell_pos ar mk i p e) = en_pv e" "en_pv (pay ar m e) = en_pv e"
  by (simp_all add: keep_pos_def tell_def sell_pos_def pay_def)

lemma delist_loop:
  "fold_ok (delist_step ar mk i) e hs = Ok e' \<Longrightarrow>
     en_holdings e' = en_holdings e @ filter (\<lambda>p. \<not> has_flag (flags_at mk i (po_a p)) DELISTED) hs \<and>
     en_hold_n e' = en_hold_n e \<and> en_exit_ratio e' = en_exit_ratio e \<and>
     en_events e' = en_events e @ map (\<lambda>p. DelistSell (po_a p) i (close_at mk i (po_a p)) (po_shares p))
       (filter (\<lambda>p. has_flag (flags_at mk i (po_a p)) DELISTED) hs)"
proof (induction hs arbitrary: e)
  case (Cons p hs)
  from Cons.prems obtain e1 where e1: "delist_step ar mk i e p = Ok e1" "fold_ok (delist_step ar mk i) e1 hs = Ok e'"
    by (auto simp: bind_ok_Ok_iff)
  from Cons.IH [OF e1(2)] e1(1) show ?case
    by (auto simp: delist_step_def engine_simps split: if_splits)
qed simp

lemma sell_loop:
  "en_holdings (foldl (sell_step ar mk i) e hs) = en_holdings e @ filter (kept mk i) hs \<and>
   en_hold_n (foldl (sell_step ar mk i) e hs) = en_hold_n e \<and>
   en_exit_ratio (foldl (sell_step ar mk i) e hs) = en_exit_ratio e \<and>
   en_pv (foldl (sell_step ar mk i) e hs) = en_pv e \<and>
   en_n_sell_intent (foldl (sell_step ar mk i) e hs) = en_n_sell_intent e \<and>
   en_n_sell_ok (foldl (sell_step ar mk i) e hs) = en_n_sell_ok e + length (filter (\<lambda>p. \<not> kept mk i p) hs) \<and>
   en_events (foldl (sell_step ar mk i) e hs) = en_events e @
     map (\<lambda>p. Sell (po_a p) i (close_at mk i (po_a p))) (filter (\<lambda>p. \<not> kept mk i p) hs)"
proof (induction hs arbitrary: e)
  case (Cons p hs)
  have "en_holdings (sell_step ar mk i e p) = en_holdings e @ (if kept mk i p then [p] else [])"
    "en_hold_n (sell_step ar mk i e p) = en_hold_n e" "en_exit_ratio (sell_step ar mk i e p) = en_exit_ratio e"
    "en_pv (sell_step ar mk i e p) = en_pv e" "en_n_sell_intent (sell_step ar mk i e p) = en_n_sell_intent e"
    "en_n_sell_ok (sell_step ar mk i e p) = en_n_sell_ok e + (if kept mk i p then 0 else 1)"
    "en_events (sell_step ar mk i e p) = en_events e @ (if kept mk i p then [] else [Sell (po_a p) i (close_at mk i (po_a p))])"
    by (auto simp: sell_step_def kept_def engine_simps)
  with Cons.IH [of "sell_step ar mk i e p"] show ?case by simp
qed simp

text \<open>What the purchases leave: the new positions are at the end, in the order of the list, and every one is reported.\<close>

definition same_settings :: "engine \<Rightarrow> engine \<Rightarrow> bool" where
  "same_settings e e' \<longleftrightarrow> en_hold_n e' = en_hold_n e \<and> en_exit_ratio e' = en_exit_ratio e \<and> en_pv e' = en_pv e \<and>
     en_n_sell_intent e' = en_n_sell_intent e \<and> en_n_sell_ok e' = en_n_sell_ok e"

definition buy_effect :: "market_window \<Rightarrow> nat \<Rightarrow> nat list \<Rightarrow> engine \<Rightarrow> engine \<Rightarrow> bool" where
  "buy_effect mk i buys e e' \<longleftrightarrow> same_settings e e' \<and>
     (\<exists>hs. en_holdings e' = en_holdings e @ hs \<and> subseq (map po_a hs) buys \<and>
        list_all (\<lambda>p. \<not> po_to_sell p \<and> \<not> no_price (close_at mk i (po_a p))) hs \<and>
        en_events e' = en_events e @ map (\<lambda>p. Buy (po_a p) i (close_at mk i (po_a p))) hs)"

lemma buy_effect_skip: "buy_effect mk i buys e e' \<Longrightarrow> buy_effect mk i (a # buys) e e'"
  by (fastforce simp: buy_effect_def list_all_iff)

lemma buy_effect_step:
  assumes "buy_effect mk i buys (e1\<lparr>en_n_buy_ok := n\<rparr>) e'" "\<not> no_price (close_at mk i a)"
    "e1 = tell (Buy a i (close_at mk i a)) (keep_pos p (pay ar m e))" "po_a p = a" "\<not> po_to_sell p"
  shows "buy_effect mk i (a # buys) e e'"
proof -
  from assms(1) obtain hs where *: "en_holdings e' = en_holdings e1 @ hs" "subseq (map po_a hs) buys"
    "list_all (\<lambda>p. \<not> po_to_sell p \<and> \<not> no_price (close_at mk i (po_a p))) hs"
    "en_events e' = en_events e1 @ map (\<lambda>p. Buy (po_a p) i (close_at mk i (po_a p))) hs"
    "same_settings e1 e'" by (auto simp: buy_effect_def same_settings_def)
  with assms(2-5) show ?thesis
    unfolding buy_effect_def by (intro conjI exI [of _ "p # hs"]) (auto simp: same_settings_def engine_simps)
qed

lemma buy_loop_effect: "buy_effect mk i buys e (buy_loop ar mk i target buys e)"
proof (induction ar mk i target buys e rule: buy_loop.induct)
  case (1 ar mk i target e)
  then show ?case by (auto simp: buy_effect_def same_settings_def)
next
  case (2 ar mk i target a buys e)
  note IH = 2
  show ?case
  proof (cases "fle (en_cash e) (Fin 0)")
    case True
    then show ?thesis by (auto simp: buy_effect_def same_settings_def)
  next
    case False
    show ?thesis
    proof (cases "no_price (close_at mk i a) \<or> fle (shares_for ar (std_min target (en_cash e)) (close_at mk i a)) (Fin 0)")
      case True
      with IH(1) [OF False refl] IH(2) [OF False refl _ refl refl] False show ?thesis
        by (auto simp: Let_def intro: buy_effect_skip)
    next
      case ok: False
      with IH(3) [OF False refl _ refl refl] False show ?thesis
        by (auto simp: Let_def intro: buy_effect_step)
    qed
  qed
qed

text \<open>Topping up changes the shares of positions with a deficit only.\<close>

lemma add_shares_keeps [simp]:
  "map po_a (add_shares ar a x hs) = map po_a hs" "length (add_shares ar a x hs) = length hs"
  by (induction hs) simp_all

lemma add_shares_other: "p \<in> set hs \<Longrightarrow> po_a p \<noteq> a \<Longrightarrow> p \<in> set (add_shares ar a x hs)"
  by (induction hs) auto

lemma top_up_keeps:
  "map po_a (en_holdings (top_up ar dds e)) = map po_a (en_holdings e) \<and> same_settings e (top_up ar dds e) \<and>
   en_events (top_up ar dds e) = en_events e"
  by (induction ar dds e rule: top_up.induct) (auto simp: Let_def same_settings_def engine_simps)

lemma top_up_other:
  "p \<in> set (en_holdings e) \<Longrightarrow> po_a p \<notin> de_a ` set dds \<Longrightarrow> p \<in> set (en_holdings (top_up ar dds e))"
  by (induction ar dds e rule: top_up.induct) (auto simp: Let_def engine_simps add_shares_other)

section \<open>The purchases of a day\<close>

lemma pick_buys_sound:
  "a \<in> set (pick_buys mk i hs n slots k cands) \<Longrightarrow>
     \<exists>j<length cands. snd (cands ! j) = a \<and> int (k + j) < n \<and> \<not> limited mk i a \<and> (case find_pos a hs of Some p \<Rightarrow> po_to_sell p | None \<Rightarrow> True)"
proof (induction mk i hs n slots k cands rule: pick_buys.induct)
  case (2 mk i hs n slots k x b cands)
  have shift: ?case if "\<exists>j<length cands. snd (cands ! j) = a \<and> int (Suc k + j) < n \<and> \<not> limited mk i a \<and>
      (case find_pos a hs of Some p \<Rightarrow> po_to_sell p | None \<Rightarrow> True)"
  proof -
    from that obtain j where "j < length cands" "snd (cands ! j) = a" "int (Suc k + j) < n" "\<not> limited mk i a"
      "case find_pos a hs of Some p \<Rightarrow> po_to_sell p | None \<Rightarrow> True" by blast
    then show ?thesis by (intro exI [of _ "Suc j"]) simp
  qed
  show ?case
  proof (cases "slots \<le> 0 \<or> (case find_pos b hs of Some p \<Rightarrow> \<not> po_to_sell p | None \<Rightarrow> False) \<or> int k \<ge> n \<or> limited mk i b")
    case True
    with "2.prems" "2.IH"(1,2) show ?thesis by (intro shift) (auto split: if_splits)
  next
    case False
    with "2.prems" consider "a = b" | "a \<in> set (pick_buys mk i hs n (slots - 1) (Suc k) cands)" by (auto split: if_splits)
    then show ?thesis
    proof cases
      case 1
      with False show ?thesis by (intro exI [of _ 0]) (auto split: option.splits)
    next
      case 2
      with "2.IH"(3) False show ?thesis by (intro shift) auto
    qed
  qed
qed simp

lemma pick_buys_subseq: "subseq (pick_buys mk i hs n slots k cands) (map snd cands)"
  by (induction mk i hs n slots k cands rule: pick_buys.induct) auto

lemma length_pick_buys: "length (pick_buys mk i hs n slots k cands) \<le> nat slots"
  by (induction mk i hs n slots k cands rule: pick_buys.induct) (auto split: option.splits)

section \<open>The order of the deficits\<close>

text \<open>Sorting by a descending key, as \<open>std::sort\<close> with \<open>x.key > y.key\<close> promises it: a permutation in which no key is
  before a larger one; the order of equal keys is open.\<close>

locale desc_sort =
  fixes key :: "'a \<Rightarrow> fval" and sorter :: "'a list \<Rightarrow> 'a list"
  assumes sort_perm: "mset (sorter xs) = mset xs"
    and sort_order: "(\<And>x. x \<in> set xs \<Longrightarrow> key x \<noteq> NaN) \<Longrightarrow> sorted_wrt (\<lambda>x y. fle (key y) (key x)) (sorter xs)"
begin

lemma sort_set: "set (sorter xs) = set xs"
  by (metis sort_perm set_mset_mset)

lemma sort_length: "length (sorter xs) = length xs"
  by (metis sort_perm size_mset)

text \<open>Nothing stands before an entry with a larger key.\<close>

lemma largest_first:
  assumes "\<And>x. x \<in> set xs \<Longrightarrow> key x \<noteq> NaN" "j < length xs" "k \<le> j"
  shows "fle (key (sorter xs ! j)) (key (sorter xs ! k))"
proof (cases "k = j")
  case True
  with assms(1,2) have "key (sorter xs ! j) \<noteq> NaN" using nth_mem [of j "sorter xs"] sort_set sort_length by auto
  with True show ?thesis by (cases "key (sorter xs ! j)") (auto simp: fle_def)
next
  case False
  then show ?thesis using sorted_wrt_nth_less [OF sort_order [OF assms(1)] _, where i = k and j = j] assms sort_length by auto
qed

end

abbreviation deficit_sort :: "deficit_sorter \<Rightarrow> bool" where
  "deficit_sort \<equiv> desc_sort de_def"

definition sort_desc :: "('a \<Rightarrow> fval) \<Rightarrow> 'a list \<Rightarrow> 'a list" where
  "sort_desc key xs = sort_key (\<lambda>x. fneg (key x)) xs"

abbreviation sort_deficits :: deficit_sorter where
  "sort_deficits \<equiv> sort_desc de_def"

lemma fneg_le: "x \<noteq> NaN \<Longrightarrow> y \<noteq> NaN \<Longrightarrow> fneg x \<le> fneg y \<longleftrightarrow> fle y x"
  by (cases x; cases y) (auto simp: fle_def less_eq_fval_def less_fval_def)

lemma sort_desc_sorts: "desc_sort key (sort_desc key)"
proof
  show "mset (sort_desc key xs) = mset xs" for xs by (simp add: sort_desc_def)
  show "sorted_wrt (\<lambda>x y. fle (key y) (key x)) (sort_desc key xs)" if "\<And>x. x \<in> set xs \<Longrightarrow> key x \<noteq> NaN" for xs
  proof -
    have "sorted_wrt (\<lambda>x y. fneg (key x) \<le> fneg (key y)) (sort_desc key xs)"
      using sorted_sort_key [of "\<lambda>d. fneg (key d)" xs] by (simp add: sort_desc_def sorted_map)
    then show ?thesis
      by (rule sorted_wrt_mono_rel [rotated]) (use that in \<open>auto simp: sort_desc_def fneg_le\<close>)
  qed
qed

interpretation sorted_deficits: desc_sort de_def sort_deficits
  by (rule sort_desc_sorts)

section \<open>A day, step by step\<close>

lemma step_split:
  assumes "step ar sorter mk i cands e = Ok e'"
  obtains e1 where "i < mk_n_d mk" "liquidate ar mk i (e\<lparr>en_turn_amt := Fin 0, en_events := []\<rparr>) = Ok e1"
    "\<forall>p\<in>set (en_holdings e1). is_finite (close_at mk i (po_a p))"
    "fless (Fin 0) (fadd (double ar) (en_cash e1) (market_value ar mk i (en_holdings e1)))"
    "close_day ar mk i (trade ar sorter mk i cands (e1\<lparr>en_pv := fadd (double ar) (en_cash e1) (market_value ar mk i (en_holdings e1))\<rparr>)) = Ok e'"
proof -
  from assms obtain e1 e2 where *: "i < mk_n_d mk" "liquidate ar mk i (e\<lparr>en_turn_amt := Fin 0, en_events := []\<rparr>) = Ok e1"
    "mark ar mk i e1 = Ok e2" "close_day ar mk i (trade ar sorter mk i cands e2) = Ok e'"
    by (auto simp: step_def bind_ok_Ok_iff split: if_splits)
  then show ?thesis by (intro that [of e1]) (auto simp: mark_def Let_def list_ex_iff split: if_splits)
qed

lemma close_day_fields:
  assumes "close_day ar mk i e = Ok e'"
  shows "en_holdings e' = en_holdings e" "en_cash e' = en_cash e" "en_events e' = en_events e" "en_turn_amt e' = en_turn_amt e"
    "same_settings e e'" "en_mv_end e' = market_value ar mk i (en_holdings e)"
    "en_pv_end e' = fadd (double ar) (en_cash e) (market_value ar mk i (en_holdings e))"
    "int (length (en_holdings e')) \<le> cap e'"
  using assms by (auto simp: close_day_def Let_def same_settings_def split: if_splits)

lemma liquidate_fields:
  assumes "liquidate ar mk i e = Ok e'"
  shows "en_holdings e' = filter (\<lambda>p. \<not> has_flag (flags_at mk i (po_a p)) DELISTED) (en_holdings e)"
    "en_hold_n e' = en_hold_n e" "en_exit_ratio e' = en_exit_ratio e"
    "en_events e' = en_events e @ map (\<lambda>p. DelistSell (po_a p) i (close_at mk i (po_a p)) (po_shares p))
       (filter (\<lambda>p. has_flag (flags_at mk i (po_a p)) DELISTED) (en_holdings e))"
  using delist_loop [OF assms [unfolded liquidate_def]] by simp_all

lemma sell_all_fields:
  "en_holdings (sell_all ar mk i e) = filter (kept mk i) (en_holdings e)"
  "en_hold_n (sell_all ar mk i e) = en_hold_n e" "en_exit_ratio (sell_all ar mk i e) = en_exit_ratio e"
  "en_pv (sell_all ar mk i e) = en_pv e" "en_n_sell_intent (sell_all ar mk i e) = en_n_sell_intent e"
  "en_n_sell_ok (sell_all ar mk i e) = length (filter (\<lambda>p. \<not> kept mk i p) (en_holdings e))"
  "en_events (sell_all ar mk i e) = en_events e @ map (\<lambda>p. Sell (po_a p) i (close_at mk i (po_a p))) (filter (\<lambda>p. \<not> kept mk i p) (en_holdings e))"
  using sell_loop [of ar mk i "e\<lparr>en_holdings := [], en_n_sell_ok := 0\<rparr>" "en_holdings e"] by (simp_all add: sell_all_def)

lemma rebalance_fields:
  "map po_a (en_holdings (rebalance ar sorter mk i t e)) = map po_a (en_holdings e)"
  "same_settings e (rebalance ar sorter mk i t e)" "en_events (rebalance ar sorter mk i t e) = en_events e"
  using top_up_keeps [of ar "sorter (deficits ar mk i t (en_holdings e))" e] by (simp_all add: rebalance_def same_settings_def)

lemma deficits_tradable:
  "x \<in> set (deficits ar mk i t hs) \<Longrightarrow>
     \<exists>p\<in>set hs. de_a x = po_a p \<and> de_c x = close_at mk i (po_a p) \<and> \<not> no_price (de_c x) \<and>
       \<not> has_flag (flags_at mk i (po_a p)) (SUSP OR LIM_UP OR LIM_DN) \<and> de_def x = fsub (double ar) t (pos_value ar mk i p) \<and>
       \<not> fle (de_def x) (Fin 0)"
  by (induction hs) (auto simp: deficits_def map_filter_simps Let_def split: if_splits)

text \<open>The flags of a byte are read one by one.\<close>

lemma has_flag_OR: "has_flag f (m OR n) \<longleftrightarrow> has_flag f m \<or> has_flag f n"
proof -
  have "f AND (m OR n) = 0 \<longleftrightarrow> f AND m = 0 \<and> f AND n = 0"
    unfolding bit_eq_iff by (auto simp: bit_simps)
  then show ?thesis by (simp add: has_flag_def)
qed

text \<open>The positions after the trades of a day: what was not sold, then what was bought.\<close>

abbreviation marked :: "arith \<Rightarrow> market_window \<Rightarrow> nat \<Rightarrow> ranked list \<Rightarrow> engine \<Rightarrow> pos list" where
  "marked ar mk i cands e \<equiv> en_holdings (sell_intents ar mk i cands e)"

lemma trade_effect:
  shows "\<exists>hs. map po_a (en_holdings (trade ar sorter mk i cands e)) = map po_a (filter (kept mk i) (marked ar mk i cands e) @ hs) \<and>
      subseq (map po_a hs) (buy_list mk i cands (sell_intents ar mk i cands e)) \<and>
      list_all (\<lambda>p. \<not> no_price (close_at mk i (po_a p))) hs \<and>
      en_events (trade ar sorter mk i cands e) = en_events e @
        map (\<lambda>p. Sell (po_a p) i (close_at mk i (po_a p))) (filter (\<lambda>p. \<not> kept mk i p) (marked ar mk i cands e)) @
        map (\<lambda>p. Buy (po_a p) i (close_at mk i (po_a p))) hs"
    "en_hold_n (trade ar sorter mk i cands e) = en_hold_n e" "en_exit_ratio (trade ar sorter mk i cands e) = en_exit_ratio e"
    "en_pv (trade ar sorter mk i cands e) = en_pv e"
    "en_n_sell_intent (trade ar sorter mk i cands e) = length (filter po_to_sell (marked ar mk i cands e))"
    "en_n_sell_ok (trade ar sorter mk i cands e) = length (filter (\<lambda>p. \<not> kept mk i p) (marked ar mk i cands e))"
proof -
  let ?e1 = "sell_intents ar mk i cands e" and ?b = "buy_list mk i cands (sell_intents ar mk i cands e)"
  let ?e2 = "sell_all ar mk i (?e1\<lparr>en_n_buy_intent := length ?b\<rparr>)"
  let ?t = "target_per_slot ar mk i ?e2"
  let ?e3 = "buy_loop ar mk i ?t ?b (?e2\<lparr>en_n_buy_ok := 0\<rparr>)"
  have trade: "trade ar sorter mk i cands e = rebalance ar sorter mk i ?t ?e3" by (simp add: trade_def Let_def)
  note R = rebalance_fields [where ar = ar and sorter = sorter and mk = mk and i = i and t = ?t and e = ?e3]
  have s: "en_hold_n ?e1 = en_hold_n e" "en_exit_ratio ?e1 = en_exit_ratio e" "en_pv ?e1 = en_pv e" "en_events ?e1 = en_events e"
    "en_n_sell_intent ?e1 = length (filter po_to_sell (marked ar mk i cands e))"
    by (simp_all add: sell_intents_def Let_def)
  have S: "same_settings ?e2 ?e3" using buy_loop_effect [of mk i ?b "?e2\<lparr>en_n_buy_ok := 0\<rparr>" ar ?t] by (simp add: buy_effect_def same_settings_def)
  show "en_hold_n (trade ar sorter mk i cands e) = en_hold_n e" "en_exit_ratio (trade ar sorter mk i cands e) = en_exit_ratio e"
    "en_pv (trade ar sorter mk i cands e) = en_pv e"
    "en_n_sell_intent (trade ar sorter mk i cands e) = length (filter po_to_sell (marked ar mk i cands e))"
    "en_n_sell_ok (trade ar sorter mk i cands e) = length (filter (\<lambda>p. \<not> kept mk i p) (marked ar mk i cands e))"
    using R(2) S unfolding trade by (simp_all add: same_settings_def sell_all_fields s)
  have ev: "en_events ?e2 = en_events e @ map (\<lambda>p. Sell (po_a p) i (close_at mk i (po_a p))) (filter (\<lambda>p. \<not> kept mk i p) (marked ar mk i cands e))"
    by (simp add: sell_all_fields s)
  from buy_loop_effect [of mk i ?b "?e2\<lparr>en_n_buy_ok := 0\<rparr>" ar ?t] obtain hs where
    "en_holdings ?e3 = en_holdings ?e2 @ hs" "subseq (map po_a hs) ?b" "list_all (\<lambda>p. \<not> no_price (close_at mk i (po_a p))) hs"
    "en_events ?e3 = en_events ?e2 @ map (\<lambda>p. Buy (po_a p) i (close_at mk i (po_a p))) hs"
    by (auto simp: buy_effect_def list_all_iff)
  with ev R(1,3) show "\<exists>hs. map po_a (en_holdings (trade ar sorter mk i cands e)) = map po_a (filter (kept mk i) (marked ar mk i cands e) @ hs) \<and>
      subseq (map po_a hs) ?b \<and> list_all (\<lambda>p. \<not> no_price (close_at mk i (po_a p))) hs \<and>
      en_events (trade ar sorter mk i cands e) = en_events e @
        map (\<lambda>p. Sell (po_a p) i (close_at mk i (po_a p))) (filter (\<lambda>p. \<not> kept mk i p) (marked ar mk i cands e)) @
        map (\<lambda>p. Buy (po_a p) i (close_at mk i (po_a p))) hs"
    unfolding trade by (intro exI [of _ hs]) (simp add: sell_all_fields)
qed

lemma trade_positions:
  "\<exists>bs. map po_a (en_holdings (trade ar sorter mk i cands e)) = map po_a (filter (kept mk i) (marked ar mk i cands e)) @ bs \<and>
     subseq bs (buy_list mk i cands (sell_intents ar mk i cands e))"
proof -
  from trade_effect(1) [of ar sorter mk i cands e] obtain hs where
    "map po_a (en_holdings (trade ar sorter mk i cands e)) = map po_a (filter (kept mk i) (marked ar mk i cands e) @ hs)"
    "subseq (map po_a hs) (buy_list mk i cands (sell_intents ar mk i cands e))" by blast
  then show ?thesis by (intro exI [of _ "map po_a hs"]) simp
qed

lemma marked_intents:
  "p \<in> set (marked ar mk i cands e) \<Longrightarrow> po_to_sell p \<longleftrightarrow> \<not> in_prefix cands (po_a p) (n_top_exit ar e cands) \<and> \<not> limited mk i (po_a p)"
  by (auto simp: sell_intents_def Let_def)

lemma map_marked: "map po_a (marked ar mk i cands e) = map po_a (en_holdings e)"
  by (simp add: sell_intents_def Let_def o_def)

lemma find_pos_cases: "(case find_pos a hs of Some p \<Rightarrow> p \<in> set hs \<and> po_a p = a | None \<Rightarrow> a \<notin> po_a ` set hs)"
  by (auto simp: find_pos_def find_None_iff find_Some_iff split: option.splits)

lemma in_prefix_nth: "j < length cands \<Longrightarrow> int j < n \<Longrightarrow> in_prefix cands (snd (cands ! j)) n"
  unfolding in_prefix_def list_ex_iff
  by (intro bexI [of _ "cands ! j"] refl) (auto simp: in_set_conv_nth intro!: exI [of _ j])

text \<open>When the exit prefix is at least as long as the places, nothing is bought that is still held.\<close>

lemma buy_list_new:
  assumes "en_hold_n e \<le> exit_limit ar e" "a \<in> set (buy_list mk i cands (sell_intents ar mk i cands e))"
  shows "a \<notin> po_a ` set (marked ar mk i cands e)" "a \<in> snd ` set cands" "\<not> limited mk i a" "in_prefix cands a (n_top e cands)"
proof -
  let ?hs = "marked ar mk i cands e"
  have hn: "n_top (sell_intents ar mk i cands e) cands = n_top e cands" by (simp add: n_top_def sell_intents_def Let_def)
  from pick_buys_sound [OF assms(2) [unfolded buy_list_def Let_def]] obtain j where
    j: "j < length cands" "snd (cands ! j) = a" "int j < n_top e cands" "\<not> limited mk i a"
      "case find_pos a ?hs of Some p \<Rightarrow> po_to_sell p | None \<Rightarrow> True" by (auto simp: hn)
  from in_prefix_nth [OF j(1), of "n_top e cands"] j(2,3) show p: "in_prefix cands a (n_top e cands)" by simp
  have "int j < n_top_exit ar e cands" using j(1,3) assms(1) by (simp add: n_top_def n_top_exit_def)
  then have "in_prefix cands a (n_top_exit ar e cands)" using in_prefix_nth [OF j(1)] j(2) by blast
  then have "\<not> po_to_sell p" if "p \<in> set ?hs" "po_a p = a" for p
    using marked_intents [OF that(1)] that(2) by simp
  with j(5) find_pos_cases [of a ?hs] show "a \<notin> po_a ` set ?hs" by (auto split: option.splits)
  show "a \<in> snd ` set cands" using j(1,2) by force
  show "\<not> limited mk i a" by (rule j(4))
qed

lemma n_top_keeps_fields: "en_hold_n e' = en_hold_n e \<Longrightarrow> en_exit_ratio e' = en_exit_ratio e \<Longrightarrow>
    n_top e' cands = n_top e cands \<and> n_top_exit ar e' cands = n_top_exit ar e cands \<and> exit_limit ar e' = exit_limit ar e"
  by (simp add: n_top_def n_top_exit_def exit_limit_def)

text \<open>A position that cannot be traded keeps its shares.\<close>

definition frozen :: "market_window \<Rightarrow> nat \<Rightarrow> nat \<Rightarrow> bool" where
  "frozen mk i a \<longleftrightarrow> has_flag (flags_at mk i a) (SUSP OR LIM_UP OR LIM_DN)"

lemma frozen_iff: "frozen mk i a \<longleftrightarrow> has_flag (flags_at mk i a) SUSP \<or> limited mk i a"
  by (auto simp: frozen_def limited_def has_flag_OR)

definition holds :: "engine \<Rightarrow> nat \<Rightarrow> fval \<Rightarrow> bool" where
  "holds e a s \<longleftrightarrow> list_ex (\<lambda>p. po_a p = a \<and> po_shares p = s) (en_holdings e)"

lemma trade_frozen:
  assumes "deficit_sort sorter" "frozen mk i a" "holds e a s"
  shows "holds (trade ar sorter mk i cands e) a s"
proof -
  let ?e1 = "sell_intents ar mk i cands e" and ?b = "buy_list mk i cands (sell_intents ar mk i cands e)"
  let ?e2 = "sell_all ar mk i (?e1\<lparr>en_n_buy_intent := length ?b\<rparr>)"
  let ?t = "target_per_slot ar mk i ?e2"
  let ?e3 = "buy_loop ar mk i ?t ?b (?e2\<lparr>en_n_buy_ok := 0\<rparr>)"
  have trade: "trade ar sorter mk i cands e = rebalance ar sorter mk i ?t ?e3" by (simp add: trade_def Let_def)
  from assms(3) obtain q where "q \<in> set (en_holdings e)" "po_a q = a" "po_shares q = s" by (auto simp: holds_def list_ex_iff)
  then obtain p where p: "p \<in> set (marked ar mk i cands e)" "po_a p = a" "po_shares p = s"
    by (intro that [of "q\<lparr>po_to_sell := \<not> in_prefix cands (po_a q) (n_top_exit ar e cands) \<and> \<not> limited mk i (po_a q)\<rparr>"])
      (auto simp: sell_intents_def Let_def intro: rev_image_eqI)
  have "kept mk i p" using marked_intents [OF p(1)] p(2) assms(2) by (auto simp: kept_def frozen_iff)
  then have "p \<in> set (en_holdings ?e2)" using p(1) by (simp add: sell_all_fields)
  then have e3: "p \<in> set (en_holdings ?e3)" using buy_loop_effect [of mk i ?b "?e2\<lparr>en_n_buy_ok := 0\<rparr>" ar ?t] by (auto simp: buy_effect_def)
  have "a \<notin> de_a ` set (sorter (deficits ar mk i ?t (en_holdings ?e3)))"
    using deficits_tradable [of _ ar mk i ?t "en_holdings ?e3"] assms(2) desc_sort.sort_set [OF assms(1)] by (fastforce simp: frozen_def)
  then have "p \<in> set (en_holdings (rebalance ar sorter mk i ?t ?e3))"
    using top_up_other [OF e3] p(2) e3 by (auto simp: rebalance_def)
  then show ?thesis unfolding holds_def trade list_ex_iff using p by blast
qed

section \<open>The book\<close>

text \<open>An amount is not negative, when it is a number at all; overflow is left as it is.\<close>

definition amount_ok :: "fval \<Rightarrow> bool" where
  "amount_ok x \<longleftrightarrow> (case x of Fin r \<Rightarrow> 0 \<le> r | _ \<Rightarrow> True)"

definition market_ok :: "market_window \<Rightarrow> bool" where
  "market_ok mk \<longleftrightarrow> length (mk_close mk) = mk_n_d mk * mk_n_a mk \<and> length (mk_flags mk) = mk_n_d mk * mk_n_a mk \<and>
     list_all amount_ok (mk_close mk)"

definition book_ok :: "nat \<Rightarrow> engine \<Rightarrow> bool" where
  "book_ok n e \<longleftrightarrow> amount_ok (en_cash e) \<and> list_all (\<lambda>p. po_a p < n \<and> amount_ok (po_shares p)) (en_holdings e) \<and>
     distinct (map po_a (en_holdings e))"

lemma amount_simps [simp]: "amount_ok (Fin r) \<longleftrightarrow> 0 \<le> r" "amount_ok NaN" "amount_ok PInf" "amount_ok NInf"
  by (simp_all add: amount_ok_def)

lemma amount_ok_iff: "amount_ok x \<longleftrightarrow> \<not> fless x (Fin 0) \<or> \<not> is_finite x"
  by (cases x) auto

context rounding
begin

lemma amount_rnd: "0 \<le> x \<Longrightarrow> amount_ok (rnd x)"
  using rnd_mono [of 0 x] by (cases "rnd x") (auto simp: rnd_0)

lemma amount_add: "amount_ok a \<Longrightarrow> amount_ok b \<Longrightarrow> amount_ok (fadd rnd a b)"
  by (cases a; cases b) (auto intro: amount_rnd)

lemma amount_mul: "amount_ok a \<Longrightarrow> amount_ok b \<Longrightarrow> amount_ok (fmul rnd a b)"
  by (cases a; cases b) (auto simp: inf_of_def intro: amount_rnd)

lemma amount_pay: "amount_ok c \<Longrightarrow> amount_ok (fsub rnd c (std_min t c))"
  by (cases c; cases t) (auto simp: std_min_def fsub_def intro: amount_rnd)

lemma amount_rest: "0 \<le> x \<Longrightarrow> x \<le> 1 \<Longrightarrow> rounding r \<Longrightarrow> amount_ok (fsub rnd (Fin 1) (r x))"
  using rounding.rnd_unit [of r x] by (auto simp: fsub_def intro!: amount_rnd)

end

lemma amount_skip: "\<not> fle x (Fin 0) \<Longrightarrow> amount_ok x"
  by (cases x) auto

lemma market_amount: "market_ok mk \<Longrightarrow> i < mk_n_d mk \<Longrightarrow> a < mk_n_a mk \<Longrightarrow> amount_ok (close_at mk i a)"
proof -
  assume m: "market_ok mk" and ia: "i < mk_n_d mk" "a < mk_n_a mk"
  then have "Suc i * mk_n_a mk \<le> mk_n_d mk * mk_n_a mk" by (intro mult_le_mono1) simp
  then have "i * mk_n_a mk + a < length (mk_close mk)" using m ia by (simp add: market_ok_def)
  with m show ?thesis by (simp add: market_ok_def close_at_def list_all_length)
qed

text \<open>The day works on states that keep the amounts; the positions are treated above.\<close>

definition amounts :: "engine \<Rightarrow> bool" where
  "amounts e \<longleftrightarrow> amount_ok (en_cash e) \<and> list_all (\<lambda>p. amount_ok (po_shares p)) (en_holdings e)"

lemma amounts_sell:
  assumes "arith_ok ar" "amounts e" "amount_ok (po_shares p)" "amount_ok (close_at mk i (po_a p))"
  shows "amounts (sell_pos ar mk i p e)"
proof -
  have R: "rounding (double ar)" "rounding (single ar)" using assms(1) by (simp_all add: arith_ok_def)
  have "amount_ok (fsub (double ar) (Fin 1) (SELL_COST ar))"
    unfolding SELL_COST_def by (rule rounding.amount_rest [OF R(1) _ _ R(2)]) simp_all
  with assms(2-4) show ?thesis
    by (auto simp: amounts_def sell_pos_def pos_value_def intro!: rounding.amount_add [OF R(1)] rounding.amount_mul [OF R(1)])
qed

lemma amounts_delist:
  assumes "arith_ok ar" "list_all (\<lambda>p. amount_ok (po_shares p) \<and> amount_ok (close_at mk i (po_a p))) hs" "amounts e"
    "fold_ok (delist_step ar mk i) e hs = Ok e'"
  shows "amounts e'"
proof (rule fold_ok_invariant [where P = amounts, OF _ assms(3,4)])
  fix e p e' assume "p \<in> set hs" "amounts e" "delist_step ar mk i e p = Ok e'"
  with assms(2) amounts_sell [OF assms(1), of e p mk i] show "amounts e'"
    by (auto simp: delist_step_def list_all_iff amounts_def keep_pos_def tell_def split: if_splits)
qed

lemma amounts_sells:
  "arith_ok ar \<Longrightarrow> list_all (\<lambda>p. amount_ok (po_shares p) \<and> amount_ok (close_at mk i (po_a p))) hs \<Longrightarrow> amounts e \<Longrightarrow>
     amounts (foldl (sell_step ar mk i) e hs)"
proof (induction hs arbitrary: e)
  case (Cons p hs)
  have "amounts (sell_step ar mk i e p)"
    using Cons.prems amounts_sell [of ar e p mk i] by (auto simp: sell_step_def amounts_def keep_pos_def tell_def)
  with Cons show ?case by simp
qed simp

lemma amounts_buys: "arith_ok ar \<Longrightarrow> amounts e \<Longrightarrow> amounts (buy_loop ar mk i t buys e)"
  by (induction ar mk i t buys e rule: buy_loop.induct)
    (auto simp: Let_def amounts_def keep_pos_def tell_def pay_def arith_ok_def rounding.amount_pay amount_skip)

lemma amounts_add_shares:
  "rounding (double ar) \<Longrightarrow> amount_ok x \<Longrightarrow> list_all (\<lambda>p. amount_ok (po_shares p)) hs \<Longrightarrow> list_all (\<lambda>p. amount_ok (po_shares p)) (add_shares ar a x hs)"
  by (induction hs) (auto intro: rounding.amount_add)

lemma amounts_top_up: "arith_ok ar \<Longrightarrow> amounts e \<Longrightarrow> amounts (top_up ar dds e)"
  by (induction ar dds e rule: top_up.induct)
    (auto simp: Let_def amounts_def pay_def arith_ok_def rounding.amount_pay amount_skip amounts_add_shares)

lemma trade_book:
  assumes "arith_ok ar" "market_ok mk" "i < mk_n_d mk" "book_ok (mk_n_a mk) e" "en_hold_n e \<le> exit_limit ar e"
    "distinct (map snd cands)" "\<forall>c\<in>set cands. snd c < mk_n_a mk"
  shows "book_ok (mk_n_a mk) (trade ar sorter mk i cands e)"
proof -
  let ?e1 = "sell_intents ar mk i cands e" and ?b = "buy_list mk i cands (sell_intents ar mk i cands e)"
  let ?hs = "marked ar mk i cands e"
  have hs: "list_all (\<lambda>p. amount_ok (po_shares p) \<and> amount_ok (close_at mk i (po_a p))) ?hs" "amounts ?e1"
    using assms(4) market_amount [OF assms(2,3)] by (auto simp: sell_intents_def Let_def book_ok_def amounts_def list_all_iff)
  let ?e2 = "sell_all ar mk i (?e1\<lparr>en_n_buy_intent := length ?b\<rparr>)"
  have "amounts ?e2" unfolding sell_all_def using hs(2) by (intro amounts_sells assms(1)) (auto simp: hs(1) amounts_def)
  then have "amounts (trade ar sorter mk i cands e)"
    unfolding trade_def Let_def rebalance_def using assms(1)
    by (auto intro!: amounts_top_up amounts_buys) (simp_all add: amounts_def)
  moreover obtain bs where bs: "map po_a (en_holdings (trade ar sorter mk i cands e)) = map po_a (filter (kept mk i) ?hs) @ bs" "subseq bs ?b"
    using trade_positions [of ar sorter mk i cands e] by blast
  have "distinct ?b" using assms(6) pick_buys_subseq subseq_distinct unfolding buy_list_def Let_def by blast
  then have "distinct bs" using bs(2) subseq_distinct by blast
  moreover have "a \<notin> po_a ` set ?hs \<and> a < mk_n_a mk" if "a \<in> set bs" for a
  proof -
    have "a \<in> set ?b" using that bs(2) by (meson subseq_set subsetD)
    from buy_list_new(1,2) [OF assms(5) this] assms(7) show ?thesis by auto
  qed
  moreover have "distinct (map po_a ?hs)" using assms(4) by (simp add: book_ok_def map_marked)
  moreover have "\<forall>a\<in>set (map po_a ?hs). a < mk_n_a mk"
    unfolding map_marked using assms(4) by (auto simp: book_ok_def list_all_iff)
  then have "\<forall>a\<in>po_a ` set ?hs. a < mk_n_a mk" by simp
  ultimately have d: "distinct (map po_a (en_holdings (trade ar sorter mk i cands e)))"
    "\<forall>a\<in>set (map po_a (en_holdings (trade ar sorter mk i cands e))). a < mk_n_a mk" "amounts (trade ar sorter mk i cands e)"
    unfolding bs(1) by (auto simp: distinct_map_filter)
  then show ?thesis by (auto simp: book_ok_def amounts_def list_all_iff)
qed

lemma step_book:
  assumes "arith_ok ar" "market_ok mk" "book_ok (mk_n_a mk) e" "en_hold_n e \<le> exit_limit ar e"
    "distinct (map snd cands)" "\<forall>c\<in>set cands. snd c < mk_n_a mk" "step ar sorter mk i cands e = Ok e'"
  shows "book_ok (mk_n_a mk) e'" "en_hold_n e' = en_hold_n e" "en_exit_ratio e' = en_exit_ratio e"
proof -
  from step_split [OF assms(7)] obtain e1 where e1: "i < mk_n_d mk" "liquidate ar mk i (e\<lparr>en_turn_amt := Fin 0, en_events := []\<rparr>) = Ok e1"
    "close_day ar mk i (trade ar sorter mk i cands (e1\<lparr>en_pv := fadd (double ar) (en_cash e1) (market_value ar mk i (en_holdings e1))\<rparr>)) = Ok e'" .
  let ?e2 = "e1\<lparr>en_pv := fadd (double ar) (en_cash e1) (market_value ar mk i (en_holdings e1))\<rparr>"
  note L = liquidate_fields [OF e1(2)] and C = close_day_fields [OF e1(3)]
  have "list_all (\<lambda>p. amount_ok (po_shares p) \<and> amount_ok (close_at mk i (po_a p))) (en_holdings e)"
    using assms(3) market_amount [OF assms(2) e1(1)] by (auto simp: book_ok_def list_all_iff)
  then have "amounts e1"
    using amounts_delist [OF assms(1) _ _ e1(2) [unfolded liquidate_def]] assms(3) by (simp add: amounts_def book_ok_def)
  then have b: "book_ok (mk_n_a mk) ?e2"
    using assms(3) L(1) by (auto simp: book_ok_def amounts_def list_all_iff distinct_map_filter)
  have "en_hold_n ?e2 \<le> exit_limit ar ?e2" using assms(4) n_top_keeps_fields [of ?e2 e] L(2,3) by simp
  from trade_book [OF assms(1,2) e1(1) b this assms(5,6)] C(1,2) show "book_ok (mk_n_a mk) e'" by (simp add: book_ok_def)
  show "en_hold_n e' = en_hold_n e" "en_exit_ratio e' = en_exit_ratio e"
    using C(5) trade_effect(2,3) [of ar sorter mk i cands ?e2] L(2,3) by (simp_all add: same_settings_def)
qed

section \<open>What the kernel reads of the candidates\<close>

lemma pick_buys_beyond: "n \<le> int k \<Longrightarrow> pick_buys mk i hs n slots k cands = []"
  by (induction mk i hs n slots k cands rule: pick_buys.induct) auto

lemma pick_buys_take: "n \<le> int (k + m) \<Longrightarrow> pick_buys mk i hs n slots k (take m cands) = pick_buys mk i hs n slots k cands"
proof (induction mk i hs n slots k cands arbitrary: m rule: pick_buys.induct)
  case (2 mk i hs n slots k x a cands)
  show ?case
  proof (cases m)
    case 0
    with "2.prems" show ?thesis using pick_buys_beyond [of n k mk i hs slots "(x, a) # cands"] by simp
  next
    case (Suc m')
    with "2.prems" have "n \<le> int (Suc k + m')" by simp
    with "2.IH" Suc show ?thesis by simp
  qed
qed simp

lemma in_prefix_take: "n \<le> int m \<Longrightarrow> in_prefix (take m cands) a n = in_prefix cands a n"
proof -
  assume "n \<le> int m"
  then have "min (nat n) m = nat n" by linarith
  then show ?thesis by (simp add: in_prefix_def)
qed

lemma sell_intents_take:
  assumes "exit_limit ar e \<le> int m"
  shows "sell_intents ar mk i (take m cands) e = sell_intents ar mk i cands e"
proof -
  have n: "n_top_exit ar e (take m cands) = n_top_exit ar e cands" using assms by (auto simp: n_top_exit_def min_def)
  have "n_top_exit ar e cands \<le> int m" using assms by (simp add: n_top_exit_def)
  then show ?thesis unfolding sell_intents_def n by (simp add: in_prefix_take)
qed

lemma trade_take:
  assumes "en_hold_n e \<le> int m" "exit_limit ar e \<le> int m"
  shows "trade ar sorter mk i (take m cands) e = trade ar sorter mk i cands e"
proof -
  let ?e = "sell_intents ar mk i cands e"
  have n: "n_top ?e (take m cands) = n_top ?e cands" "n_top ?e cands \<le> int m"
    using assms(1) by (auto simp: n_top_def sell_intents_def Let_def)
  then have "buy_list mk i (take m cands) ?e = buy_list mk i cands ?e"
    unfolding buy_list_def Let_def n(1) by (intro pick_buys_take) simp
  then show ?thesis unfolding trade_def Let_def sell_intents_take [OF assms(2)] by simp
qed

section \<open>Loading the market\<close>

text \<open>The last finite close of the window up to a day.\<close>

definition last_close :: "axes \<Rightarrow> tensor \<Rightarrow> nat \<Rightarrow> nat \<Rightarrow> nat \<Rightarrow> fval" where
  "last_close ax T lo a i = last (NaN # filter is_finite (map (\<lambda>j. tensor_at ax T Close_raw a (lo + j)) [0..<Suc i]))"

definition market_entry_ok :: "axes \<Rightarrow> tensor \<Rightarrow> nat \<Rightarrow> nat \<Rightarrow> market_window \<Rightarrow> nat \<Rightarrow> bool" where
  "market_entry_ok ax T lo a mk i \<longleftrightarrow> close_at mk i a = last_close ax T lo a i \<and>
     (has_flag (flags_at mk i a) SUSP \<longleftrightarrow> flag (tensor_at ax T Susp a (lo + i))) \<and>
     (has_flag (flags_at mk i a) LIM_UP \<longleftrightarrow> flag (tensor_at ax T Limit_up a (lo + i))) \<and>
     (has_flag (flags_at mk i a) LIM_DN \<longleftrightarrow> flag (tensor_at ax T Limit_dn a (lo + i))) \<and>
     (has_flag (flags_at mk i a) DELISTED \<longleftrightarrow> is_finite (tensor_at ax T Delist_age a (lo + i)))"

lemma has_flag_bits [simp]:
  "\<not> has_flag 0 m" "has_flag SUSP SUSP" "has_flag LIM_UP LIM_UP" "has_flag LIM_DN LIM_DN" "has_flag DELISTED DELISTED"
  "\<not> has_flag SUSP LIM_UP" "\<not> has_flag SUSP LIM_DN" "\<not> has_flag SUSP DELISTED" "\<not> has_flag LIM_UP SUSP" "\<not> has_flag LIM_UP LIM_DN"
  "\<not> has_flag LIM_UP DELISTED" "\<not> has_flag LIM_DN SUSP" "\<not> has_flag LIM_DN LIM_UP" "\<not> has_flag LIM_DN DELISTED"
  "\<not> has_flag DELISTED SUSP" "\<not> has_flag DELISTED LIM_UP" "\<not> has_flag DELISTED LIM_DN"
  by (simp_all add: has_flag_def SUSP_def LIM_UP_def LIM_DN_def DELISTED_def)

lemma has_flag_OR_left: "has_flag (f OR g) m \<longleftrightarrow> has_flag f m \<or> has_flag g m"
  using has_flag_OR [of m f g] by (simp add: has_flag_def and.commute)

lemma market_flags_ok:
  assumes "market_flags ax T a d = Ok f"
  shows "(has_flag f SUSP \<longleftrightarrow> flag (tensor_at ax T Susp a d)) \<and> (has_flag f LIM_UP \<longleftrightarrow> flag (tensor_at ax T Limit_up a d)) \<and>
     (has_flag f LIM_DN \<longleftrightarrow> flag (tensor_at ax T Limit_dn a d)) \<and> (has_flag f DELISTED \<longleftrightarrow> is_finite (tensor_at ax T Delist_age a d))"
  using assms by (auto simp: market_flags_def read_bool_def bind_ok_Ok_iff Let_def has_flag_OR_left split: if_splits)

lemma last_close_Suc:
  "last_close ax T lo a (Suc i) = (let c = tensor_at ax T Close_raw a (lo + Suc i) in if is_finite c then c else last_close ax T lo a i)"
  "last_close ax T lo a 0 = (let c = tensor_at ax T Close_raw a lo in if is_finite c then c else NaN)"
  by (simp_all add: last_close_def Let_def)

text \<open>The shape of the window stays, and a cell is written once.\<close>

definition shape_ok :: "nat \<Rightarrow> nat \<Rightarrow> nat \<Rightarrow> market_window \<Rightarrow> bool" where
  "shape_ok lo nd na mk \<longleftrightarrow> mk_d_lo mk = lo \<and> mk_n_d mk = nd \<and> mk_n_a mk = na \<and> length (mk_close mk) = nd * na \<and> length (mk_flags mk) = nd * na"

definition same_cells :: "(nat \<Rightarrow> nat \<Rightarrow> bool) \<Rightarrow> nat \<Rightarrow> market_window \<Rightarrow> market_window \<Rightarrow> bool" where
  "same_cells P na mk mk' \<longleftrightarrow> (\<forall>j b. b < na \<and> P j b \<longrightarrow> close_at mk' j b = close_at mk j b \<and> flags_at mk' j b = flags_at mk j b)"

lemma cell_inj: "(a :: nat) < n \<Longrightarrow> b < n \<Longrightarrow> i * n + a = j * n + b \<longleftrightarrow> i = j \<and> a = b"
proof
  assume n: "a < n" "b < n" and eq: "i * n + a = j * n + b"
  from arg_cong [OF eq, of "\<lambda>x. x div n"] arg_cong [OF eq, of "\<lambda>x. x mod n"] n show "i = j \<and> a = b" by simp
qed simp

lemma window_cell_less: "(i :: nat) < m \<Longrightarrow> a < n \<Longrightarrow> i * n + a < m * n"
proof -
  assume "i < m" "a < n"
  then have "Suc i * n \<le> m * n" by (intro mult_le_mono1) simp
  with \<open>a < n\<close> show ?thesis by simp
qed

lemma market_day_effect:
  assumes "market_day ax T a (l, mk) i = Ok (l', mk')" "shape_ok lo nd na mk" "i < nd" "a < na"
    "l = (if i = 0 then NaN else last_close ax T lo a (i - 1))"
  shows "shape_ok lo nd na mk'" "market_entry_ok ax T lo a mk' i" "same_cells (\<lambda>j b. (j, b) \<noteq> (i, a)) na mk mk'" "l' = last_close ax T lo a i"
proof -
  note sh = assms(2) [unfolded shape_ok_def]
  from assms(1) sh obtain f where f: "market_flags ax T a (lo + i) = Ok f"
    "l' = (let c = tensor_at ax T Close_raw a (lo + i) in if is_finite c then c else l)"
    "mk' = mk\<lparr>mk_close := (mk_close mk)[i * na + a := l'], mk_flags := (mk_flags mk)[i * na + a := f]\<rparr>"
    by (auto simp: market_day_def bind_ok_Ok_iff Let_def)
  show "shape_ok lo nd na mk'" using sh f(3) by (simp add: shape_ok_def)
  show l': "l' = last_close ax T lo a i" using f(2) assms(5) by (cases i) (simp_all add: last_close_Suc Let_def)
  show "market_entry_ok ax T lo a mk' i"
    using f(3) sh l' market_flags_ok [OF f(1)] window_cell_less [OF assms(3,4)] by (simp add: market_entry_ok_def close_at_def flags_at_def)
  show "same_cells (\<lambda>j b. (j, b) \<noteq> (i, a)) na mk mk'"
    using f(3) sh assms(4) by (auto simp: same_cells_def close_at_def flags_at_def nth_list_update cell_inj)
qed

lemma market_days_effect:
  assumes "shape_ok lo nd na mk" "i \<le> nd" "a < na" "fold_ok (market_day ax T a) (NaN, mk) [0..<i] = Ok (l, mk')"
  shows "shape_ok lo nd na mk' \<and> (\<forall>j<i. market_entry_ok ax T lo a mk' j) \<and> same_cells (\<lambda>j b. b \<noteq> a) na mk mk' \<and>
    l = (if i = 0 then NaN else last_close ax T lo a (i - 1))"
  using assms(2,4)
proof (induction i arbitrary: l mk')
  case 0
  with assms(1) show ?case by (simp add: same_cells_def)
next
  case (Suc i)
  from Suc.prems(2) obtain l1 mk1 where 1: "fold_ok (market_day ax T a) (NaN, mk) [0..<i] = Ok (l1, mk1)"
    "market_day ax T a (l1, mk1) i = Ok (l, mk')" by (auto simp: fold_ok_append bind_ok_Ok_iff)
  have IH: "shape_ok lo nd na mk1" "\<forall>j<i. market_entry_ok ax T lo a mk1 j" "same_cells (\<lambda>j b. b \<noteq> a) na mk mk1"
    "l1 = (if i = 0 then NaN else last_close ax T lo a (i - 1))" using Suc.IH [OF _ 1(1)] Suc.prems(1) by simp_all
  note D = market_day_effect [OF 1(2) IH(1) _ assms(3) IH(4)]
  have "i < nd" using Suc.prems(1) by simp
  note D = D(1) [OF this] D(2) [OF this] D(3) [OF this] D(4) [OF this]
  have "market_entry_ok ax T lo a mk' j" if "j < Suc i" for j
  proof (cases "j = i")
    case False
    with that IH(2) D(3) assms(3) show ?thesis by (simp add: market_entry_ok_def same_cells_def)
  qed (simp add: D(2))
  moreover have "same_cells (\<lambda>j b. b \<noteq> a) na mk mk'" using IH(3) D(3) by (simp add: same_cells_def)
  ultimately show ?case using D(1,4) by simp
qed

lemma load_market_effect:
  assumes "load_market ax T d_lo n_days = Ok mk"
  shows "0 \<le> d_lo" "0 < n_days" "d_lo + n_days \<le> int (n_d ax)" "shape_ok (nat d_lo) (nat n_days) (n_a ax) mk"
    "a < n_a ax \<Longrightarrow> i < nat n_days \<Longrightarrow> market_entry_ok ax T (nat d_lo) a mk i"
proof -
  let ?mk0 = "\<lparr>mk_d_lo = nat d_lo, mk_n_d = nat n_days, mk_n_a = n_a ax, mk_close = replicate (nat n_days * n_a ax) NaN,
      mk_flags = replicate (nat n_days * n_a ax) 0\<rparr>"
  have ok: "fold_ok (market_instrument ax T) ?mk0 [0..<n_a ax] = Ok mk" and w: "0 \<le> d_lo" "0 < n_days" "d_lo + n_days \<le> int (n_d ax)"
    using assms by (auto simp: load_market_def Let_def split: if_splits)
  have one: "shape_ok (nat d_lo) (nat n_days) (n_a ax) mk2 \<and> (\<forall>j<nat n_days. market_entry_ok ax T (nat d_lo) b mk2 j) \<and>
      same_cells (\<lambda>j c. c \<noteq> b) (n_a ax) mk1 mk2"
    if "shape_ok (nat d_lo) (nat n_days) (n_a ax) mk1" "market_instrument ax T mk1 b = Ok mk2" "b < n_a ax" for mk1 mk2 b
  proof -
    have "mk_n_d mk1 = nat n_days" using that(1) by (simp add: shape_ok_def)
    with that(2) obtain l where "fold_ok (market_day ax T b) (NaN, mk1) [0..<nat n_days] = Ok (l, mk2)"
      by (auto simp: market_instrument_def bind_ok_Ok_iff)
    from market_days_effect [OF that(1) order_refl that(3) this] show ?thesis by blast
  qed
  have "shape_ok (nat d_lo) (nat n_days) (n_a ax) mk \<and> (\<forall>b\<in>set [0..<n_a ax]. \<forall>j<nat n_days. market_entry_ok ax T (nat d_lo) b mk j \<or> n_a ax \<le> b)"
  proof (rule fold_ok_establishes [where P = "shape_ok (nat d_lo) (nat n_days) (n_a ax)" and
        Q = "\<lambda>b mk. \<forall>j<nat n_days. market_entry_ok ax T (nat d_lo) b mk j \<or> n_a ax \<le> b", OF _ _ _ ok])
    fix mk1 mk2 b assume b: "b \<in> set [0..<n_a ax]" "shape_ok (nat d_lo) (nat n_days) (n_a ax) mk1" "market_instrument ax T mk1 b = Ok mk2"
    from one [OF b(2,3)] b(1) show "shape_ok (nat d_lo) (nat n_days) (n_a ax) mk2 \<and> (\<forall>j<nat n_days. market_entry_ok ax T (nat d_lo) b mk2 j \<or> n_a ax \<le> b)"
      by simp
    fix c assume c: "\<forall>j<nat n_days. market_entry_ok ax T (nat d_lo) c mk1 j \<or> n_a ax \<le> c"
    show "\<forall>j<nat n_days. market_entry_ok ax T (nat d_lo) c mk2 j \<or> n_a ax \<le> c"
    proof (cases "c = b")
      case False
      with c one [OF b(2,3)] b(1) show ?thesis by (fastforce simp: market_entry_ok_def same_cells_def)
    next
      case True
      with one [OF b(2,3)] b(1) show ?thesis by simp
    qed
  qed (simp add: shape_ok_def)
  then show "shape_ok (nat d_lo) (nat n_days) (n_a ax) mk" "a < n_a ax \<Longrightarrow> i < nat n_days \<Longrightarrow> market_entry_ok ax T (nat d_lo) a mk i"
    by auto
  show "0 \<le> d_lo" "0 < n_days" "d_lo + n_days \<le> int (n_d ax)" by (rule w)+
qed

text \<open>The exit prefix of a strategy with an exit ratio of at least 1 covers its places.\<close>

lemma exit_limit_ge:
  assumes "rounding (single ar)" "0 \<le> en_hold_n e" "en_hold_n e \<le> 2 ^ 24" "fle (Fin 1) (en_exit_ratio e)"
    "is_finite (fmul (single ar) (single ar (of_int (en_hold_n e))) (en_exit_ratio e))"
  shows "en_hold_n e \<le> exit_limit ar e"
proof -
  let ?n = "real_of_int (en_hold_n e)"
  have n: "single ar ?n = Fin ?n" using assms(2,3) by (intro rounding.rnd_int [OF assms(1)]) simp
  with assms(4,5) obtain r where r: "en_exit_ratio e = Fin r" "1 \<le> r" by (cases "en_exit_ratio e") (auto simp: inf_of_def fle_def split: if_splits)
  have "?n \<le> ?n * r" using r(2) assms(2) by (simp add: mult_le_cancel_left1)
  from rounding.rnd_mono [OF assms(1) this] n r(1) assms(5) obtain x where x: "single ar (?n * r) = Fin x" "?n \<le> x"
    by (cases "single ar (?n * r)") auto
  then show ?thesis using n r(1) assms(2) by (simp add: exit_limit_def trunc_def le_floor_iff)
qed

lemma new_engine_book: "rounding (single ar) \<Longrightarrow> book_ok n (new_engine ar hn er)"
  using rounding.amount_rnd [of "single ar" 1000000] by (simp add: book_ok_def new_engine_def reset_def CAPITAL_BASE_def)

lemma length_buy_list:
  "int (length (buy_list mk i cands e)) \<le> max 0 (en_hold_n e - int (length (filter (\<lambda>p. \<not> po_to_sell p) (en_holdings e))))"
  using length_pick_buys [of mk i "en_holdings e" "n_top e cands"
      "en_hold_n e - int (length (filter (\<lambda>p. \<not> po_to_sell p) (en_holdings e)))" 0 cands]
  by (simp add: buy_list_def)

lemma length_filter_kept:
  "length (filter (kept mk i) hs) = length (filter (\<lambda>p. \<not> po_to_sell p) hs) + (length (filter po_to_sell hs) - length (filter (\<lambda>p. \<not> kept mk i p) hs))"
proof -
  have "length (filter (\<lambda>p. \<not> kept mk i p) hs) \<le> length (filter po_to_sell hs)"
    by (induction hs) (auto simp: kept_def)
  moreover have "length (filter (kept mk i) hs) + length (filter (\<lambda>p. \<not> kept mk i p) hs) = length hs" by (rule sum_length_filter_compl)
  moreover have "length (filter po_to_sell hs) + length (filter (\<lambda>p. \<not> po_to_sell p) hs) = length hs" by (rule sum_length_filter_compl)
  ultimately show ?thesis by linarith
qed

text \<open>The market is loaded when the flags of the window are finite and no age is negative.\<close>

definition market_flags_ready :: "axes \<Rightarrow> tensor \<Rightarrow> nat \<Rightarrow> nat \<Rightarrow> bool" where
  "market_flags_ready ax T a d \<longleftrightarrow> is_finite (tensor_at ax T Susp a d) \<and> is_finite (tensor_at ax T Limit_up a d) \<and>
     is_finite (tensor_at ax T Limit_dn a d) \<and> amount_ok (tensor_at ax T Delist_age a d)"

lemma market_flags_total: "market_flags_ready ax T a d \<Longrightarrow> \<exists>f. market_flags ax T a d = Ok f"
  by (cases "tensor_at ax T Delist_age a d") (auto simp: market_flags_ready_def market_flags_def read_bool_def Let_def)

lemma load_market_total:
  assumes "0 \<le> d_lo" "0 < n_days" "d_lo + n_days \<le> int (n_d ax)" "\<forall>a<n_a ax. \<forall>d<n_d ax. market_flags_ready ax T a d"
  shows "\<exists>mk. load_market ax T d_lo n_days = Ok mk"
proof -
  let ?P = "\<lambda>mk. mk_d_lo mk = nat d_lo \<and> mk_n_d mk = nat n_days"
  have day: "\<exists>y. market_day ax T a x i = Ok y \<and> ?P (snd y)" if "a < n_a ax" "i \<in> set [0..<nat n_days]" "?P (snd x)" for a x i
  proof -
    have "nat d_lo + i < n_d ax" using that(2) assms(1-3) by auto
    with market_flags_total [of ax T a "nat d_lo + i"] assms(4) that(1,3) show ?thesis
      by (cases x) (auto simp: market_day_def Let_def)
  qed
  have inst: "\<exists>mk'. market_instrument ax T mk a = Ok mk' \<and> ?P mk'" if "a \<in> set [0..<n_a ax]" "?P mk" for mk a
  proof -
    have a: "a < n_a ax" using that(1) by simp
    have "\<exists>y. fold_ok (market_day ax T a) (NaN, mk) [0..<nat n_days] = Ok y \<and> ?P (snd y)"
      by (rule fold_ok_total [where P = "\<lambda>x. ?P (snd x)", OF day [OF a]]) (use that(2) in simp_all)
    then obtain l mk' where "fold_ok (market_day ax T a) (NaN, mk) [0..<nat n_days] = Ok (l, mk')" "?P mk'" by auto
    with that(2) show ?thesis by (simp add: market_instrument_def)
  qed
  let ?mk0 = "\<lparr>mk_d_lo = nat d_lo, mk_n_d = nat n_days, mk_n_a = n_a ax, mk_close = replicate (nat n_days * n_a ax) NaN,
      mk_flags = replicate (nat n_days * n_a ax) 0\<rparr>"
  have "\<exists>mk. fold_ok (market_instrument ax T) ?mk0 [0..<n_a ax] = Ok mk \<and> ?P mk" by (rule fold_ok_total [OF inst]) simp_all
  then obtain mk where "fold_ok (market_instrument ax T) ?mk0 [0..<n_a ax] = Ok mk" by blast
  moreover have "\<not> \<not> (d_lo \<ge> 0 \<and> n_days > 0 \<and> d_lo + n_days \<le> int (n_d ax))" using assms(1-3) by simp
  ultimately show ?thesis unfolding load_market_def Let_def by (simp only: if_False) blast
qed

text \<open>A day reads only a prefix of the candidates.\<close>

lemma step_take:
  assumes "en_hold_n e \<le> int m" "exit_limit ar e \<le> int m"
  shows "step ar sorter mk i (take m cands) e = step ar sorter mk i cands e"
proof (cases "liquidate ar mk i (e\<lparr>en_turn_amt := Fin 0, en_events := []\<rparr>)")
  case (Ok e1)
  have "trade ar sorter mk i (take m cands) e2 = trade ar sorter mk i cands e2" if "mark ar mk i e1 = Ok e2" for e2
  proof (rule trade_take)
    have "en_hold_n e2 = en_hold_n e" "en_exit_ratio e2 = en_exit_ratio e"
      using that liquidate_fields(2,3) [OF Ok] by (auto simp: mark_def Let_def split: if_splits)
    with assms n_top_keeps_fields [of e2 e] show "en_hold_n e2 \<le> int m" "exit_limit ar e2 \<le> int m" by simp_all
  qed
  then show ?thesis unfolding step_def Ok by (cases "mark ar mk i e1") simp_all
qed (simp add: step_def)

section \<open>Properties\<close>

text \<open>C6. A day of the backtest respects the limits of the market. A position whose instrument is suspended or at a price limit and
  is not delisted has the same number of shares at the end of the day. Every purchase is of one of the first
  candidates, with a positive price and not at a limit; every sale is of a position that left the exit prefix and
  is neither suspended nor at a limit; and a forced sale is of a delisted instrument.\<close>

theorem step_respects_limits:
  assumes "deficit_sort sorter" "step ar sorter mk i cands e = Ok e'" "en_hold_n e \<le> exit_limit ar e"
  shows "(\<forall>a s. frozen mk i a \<and> \<not> has_flag (flags_at mk i a) DELISTED \<and> holds e a s \<longrightarrow> holds e' a s) \<and>
    list_all (\<lambda>v. case v of
        Buy a j c \<Rightarrow> j = i \<and> c = close_at mk i a \<and> \<not> no_price c \<and> \<not> limited mk i a \<and> in_prefix cands a (n_top e cands)
      | Sell a j c \<Rightarrow> j = i \<and> c = close_at mk i a \<and> \<not> frozen mk i a \<and> \<not> in_prefix cands a (n_top_exit ar e cands)
      | DelistSell a j c s \<Rightarrow> j = i \<and> has_flag (flags_at mk i a) DELISTED) (en_events e')"
proof -
  from step_split [OF assms(2)] obtain e1 where e1: "liquidate ar mk i (e\<lparr>en_turn_amt := Fin 0, en_events := []\<rparr>) = Ok e1"
    "close_day ar mk i (trade ar sorter mk i cands (e1\<lparr>en_pv := fadd (double ar) (en_cash e1) (market_value ar mk i (en_holdings e1))\<rparr>)) = Ok e'" .
  let ?e2 = "e1\<lparr>en_pv := fadd (double ar) (en_cash e1) (market_value ar mk i (en_holdings e1))\<rparr>"
  note L = liquidate_fields [OF e1(1)] and C = close_day_fields [OF e1(2)]
  have n: "n_top ?e2 cands = n_top e cands" "n_top_exit ar ?e2 cands = n_top_exit ar e cands" "exit_limit ar ?e2 = exit_limit ar e"
    using n_top_keeps_fields [of ?e2 e] L(2,3) by simp_all
  have frozen: "holds e' a s" if "frozen mk i a" "\<not> has_flag (flags_at mk i a) DELISTED" "holds e a s" for a s
  proof -
    have "holds ?e2 a s" using that(2,3) by (auto simp: holds_def list_ex_iff L(1))
    from trade_frozen [OF assms(1) that(1) this] show ?thesis by (simp add: holds_def C(1))
  qed
  let ?hs = "marked ar mk i cands ?e2"
  let ?ds = "map (\<lambda>p. DelistSell (po_a p) i (close_at mk i (po_a p)) (po_shares p)) (filter (\<lambda>p. has_flag (flags_at mk i (po_a p)) DELISTED) (en_holdings e))"
  let ?ss = "map (\<lambda>p. Sell (po_a p) i (close_at mk i (po_a p))) (filter (\<lambda>p. \<not> kept mk i p) ?hs)"
  from trade_effect(1) [of ar sorter mk i cands ?e2] obtain bs :: "pos list" where bs: "subseq (map po_a bs) (buy_list mk i cands (sell_intents ar mk i cands ?e2))"
    "list_all (\<lambda>p. \<not> no_price (close_at mk i (po_a p))) bs"
    "en_events (trade ar sorter mk i cands ?e2) = en_events ?e2 @ ?ss @ map (\<lambda>p. Buy (po_a p) i (close_at mk i (po_a p))) bs"
    by blast
  have ev: "en_events e' = ?ds @ ?ss @ map (\<lambda>p. Buy (po_a p) i (close_at mk i (po_a p))) bs" unfolding C(3) bs(3) using L(4) by simp
  have hn: "en_hold_n ?e2 \<le> exit_limit ar ?e2" using assms(3) L(2) n(3) by simp
  let ?P = "\<lambda>v. case v of
        Buy a j c \<Rightarrow> j = i \<and> c = close_at mk i a \<and> \<not> no_price c \<and> \<not> limited mk i a \<and> in_prefix cands a (n_top e cands)
      | Sell a j c \<Rightarrow> j = i \<and> c = close_at mk i a \<and> \<not> frozen mk i a \<and> \<not> in_prefix cands a (n_top_exit ar e cands)
      | DelistSell a j c s \<Rightarrow> j = i \<and> has_flag (flags_at mk i a) DELISTED"
  have "list_all ?P ?ds"
    by (simp add: list_all_iff)
  moreover have "list_all ?P ?ss"
    using marked_intents [of _ ar mk i cands ?e2] n(2) by (auto simp: list_all_iff frozen_iff kept_def)
  moreover have "list_all ?P (map (\<lambda>p. Buy (po_a p) i (close_at mk i (po_a p))) bs)"
    using bs(2) subseq_set [OF bs(1)] buy_list_new [OF hn] n(1) by (fastforce simp: list_all_iff)
  ultimately show ?thesis using frozen unfolding ev by simp
qed

text \<open>Two instruments for a day; the second one is at its upper limit and already held.\<close>

definition sample_market :: market_window where
  "sample_market = \<lparr>mk_d_lo = 0, mk_n_d = 1, mk_n_a = 2, mk_close = [Fin 1, Fin 2], mk_flags = [0, LIM_UP]\<rparr>"

definition sample_engine :: engine where
  "sample_engine = (new_engine exact_arith 2 (Fin 2))\<lparr>en_cash := Fin 100, en_holdings := [\<lparr>po_a = 1, po_shares = Fin 5, po_to_sell = False\<rparr>]\<rparr>"

definition sample_cands :: "ranked list" where
  "sample_cands = [(Fin 1, 0), (Fin (1/2), 1)]"

lemma sample_flags [simp]:
  "has_flag 0 m = False" "has_flag LIM_UP DELISTED = False" "has_flag LIM_UP (LIM_UP OR LIM_DN) = True" "has_flag LIM_UP SUSP = False"
  "has_flag LIM_UP (SUSP OR LIM_UP OR LIM_DN) = True"
  by (simp_all add: has_flag_def LIM_UP_def DELISTED_def LIM_DN_def SUSP_def)

lemma sample_at [simp]:
  "close_at sample_market 0 0 = Fin 1" "close_at sample_market 0 1 = Fin 2" "close_at sample_market 0 (Suc 0) = Fin 2"
  "flags_at sample_market 0 0 = 0" "flags_at sample_market 0 1 = LIM_UP" "flags_at sample_market 0 (Suc 0) = LIM_UP" "mk_n_d sample_market = 1"
  by (simp_all add: close_at_def flags_at_def sample_market_def)

lemma sample_engine_at [simp]:
  "en_hold_n sample_engine = 2" "en_exit_ratio sample_engine = Fin 2" "en_cash sample_engine = Fin 100"
  "en_holdings sample_engine = [\<lparr>po_a = 1, po_shares = Fin 5, po_to_sell = False\<rparr>]"
  by (simp_all add: sample_engine_def new_engine_def reset_def)

lemma sample_trade:
  fixes e :: engine
  assumes "en_hold_n e = 2" "en_exit_ratio e = Fin 2" "en_cash e = Fin 100" "en_events e = []"
    "en_holdings e = [\<lparr>po_a = 1, po_shares = Fin 5, po_to_sell = False\<rparr>]"
  shows "en_events (trade exact_arith sort_deficits sample_market 0 sample_cands e) = [Buy 0 0 (Fin 1)]"
    "length (en_holdings (trade exact_arith sort_deficits sample_market 0 sample_cands e)) = 2"
proof -
  let ?e1 = "sell_intents exact_arith sample_market 0 sample_cands e"
  have e1: "en_holdings ?e1 = [\<lparr>po_a = 1, po_shares = Fin 5, po_to_sell = False\<rparr>]" "en_hold_n ?e1 = 2" "en_cash ?e1 = Fin 100" "en_events ?e1 = []"
    using assms by (simp_all add: sell_intents_def limited_def)
  have b: "buy_list sample_market 0 sample_cands ?e1 = [0]"
    using e1 by (simp add: buy_list_def n_top_def sample_cands_def find_pos_def limited_def)
  let ?e2 = "sell_all exact_arith sample_market 0 (?e1\<lparr>en_n_buy_intent := length [0 :: nat]\<rparr>)"
  have e2: "en_holdings ?e2 = [\<lparr>po_a = 1, po_shares = Fin 5, po_to_sell = False\<rparr>]" "en_hold_n ?e2 = 2" "en_cash ?e2 = Fin 100" "en_events ?e2 = []"
    using e1 by (simp_all add: sell_all_def sell_step_def keep_pos_def)
  have t: "target_per_slot exact_arith sample_market 0 ?e2 = Fin 55"
    using e2 by (simp add: target_per_slot_def market_value_def pos_value_def)
  have sh: "shares_for exact_arith (Fin 55) (Fin 1) = Fin (55 / (10003 / 10000))"
    by (simp add: shares_for_def BUY_COST_def)
  let ?e3 = "buy_loop exact_arith sample_market 0 (Fin 55) [0] (?e2\<lparr>en_n_buy_ok := 0\<rparr>)"
  have m: "std_min (Fin 55) (Fin 100) = Fin 55" "\<not> no_price (Fin 1)" by (simp_all add: std_min_def no_price_def)
  have e3: "en_events ?e3 = [Buy 0 0 (Fin 1)]" "length (en_holdings ?e3) = 2"
    using e2 by (simp_all add: m sh engine_simps)
  have tr: "trade exact_arith sort_deficits sample_market 0 sample_cands e = rebalance exact_arith sort_deficits sample_market 0 (Fin 55) ?e3"
    unfolding trade_def Let_def b t ..
  show "en_events (trade exact_arith sort_deficits sample_market 0 sample_cands e) = [Buy 0 0 (Fin 1)]"
    using e3 unfolding tr by (simp add: rebalance_fields)
  have "length (en_holdings (rebalance exact_arith sort_deficits sample_market 0 (Fin 55) ?e3)) = length (en_holdings ?e3)"
    using rebalance_fields(1) [THEN arg_cong [where f = length]] by simp
  then show "length (en_holdings (trade exact_arith sort_deficits sample_market 0 sample_cands e)) = 2"
    using e3 unfolding tr by simp
qed

lemma sample_step:
  "\<exists>e'. step exact_arith sort_deficits sample_market 0 sample_cands sample_engine = Ok e' \<and> en_pv e' = Fin 110 \<and>
     en_events e' = [Buy 0 0 (Fin 1)]"
proof -
  let ?e = "sample_engine\<lparr>en_turn_amt := Fin 0, en_events := []\<rparr>"
  have l: "liquidate exact_arith sample_market 0 ?e = Ok ?e" by (simp add: liquidate_def delist_step_def keep_pos_def)
  have v: "market_value exact_arith sample_market 0 (en_holdings ?e) = Fin 10" by (simp add: market_value_def pos_value_def)
  have m: "mark exact_arith sample_market 0 ?e = Ok (?e\<lparr>en_pv := Fin 110\<rparr>)" using v by (simp add: mark_def)
  note T = sample_trade [of "?e\<lparr>en_pv := Fin 110\<rparr>", simplified] and F = trade_effect(2,4) [of exact_arith sort_deficits sample_market 0 sample_cands "?e\<lparr>en_pv := Fin 110\<rparr>"]
  show ?thesis using T F by (simp add: step_def l m close_day_def Let_def cap_def)
qed

lemma sample_exit: "en_hold_n sample_engine \<le> exit_limit exact_arith sample_engine"
  by (simp add: exit_limit_def trunc_def)

lemma step_respects_limits_witness:
  "\<exists>e'. step exact_arith sort_deficits sample_market 0 sample_cands sample_engine = Ok e' \<and> holds e' 1 (Fin 5) \<and>
     en_events e' = [Buy 0 0 (Fin 1)]"
proof -
  from sample_step obtain e' where e': "step exact_arith sort_deficits sample_market 0 sample_cands sample_engine = Ok e'"
    "en_events e' = [Buy 0 0 (Fin 1)]" by blast
  have "frozen sample_market 0 1" "\<not> has_flag (flags_at sample_market 0 1) DELISTED" "holds sample_engine 1 (Fin 5)"
    by (simp_all add: frozen_def holds_def)
  with step_respects_limits [OF sorted_deficits.desc_sort_axioms e'(1) sample_exit] have "holds e' 1 (Fin 5)" by blast
  with e' show ?thesis by blast
qed

text \<open>The number of positions grows only because of sales that were refused: after a day there are at most as many as
  before, or as many as places plus the sales that were intended and did not happen.\<close>

theorem positions_bounded:
  assumes "step ar sorter mk i cands e = Ok e'"
  shows "int (length (en_holdings e')) \<le>
    max (int (length (en_holdings e))) (en_hold_n e + int (en_n_sell_intent e' - en_n_sell_ok e'))"
proof -
  from step_split [OF assms] obtain e1 where e1: "liquidate ar mk i (e\<lparr>en_turn_amt := Fin 0, en_events := []\<rparr>) = Ok e1"
    "close_day ar mk i (trade ar sorter mk i cands (e1\<lparr>en_pv := fadd (double ar) (en_cash e1) (market_value ar mk i (en_holdings e1))\<rparr>)) = Ok e'" .
  let ?e2 = "e1\<lparr>en_pv := fadd (double ar) (en_cash e1) (market_value ar mk i (en_holdings e1))\<rparr>"
  let ?hs = "marked ar mk i cands ?e2"
  note L = liquidate_fields [OF e1(1)] and C = close_day_fields [OF e1(2)]
  note E = trade_effect [where ar = ar and sorter = sorter and mk = mk and i = i and cands = cands and e = ?e2]
  obtain bs where bs: "map po_a (en_holdings (trade ar sorter mk i cands ?e2)) = map po_a (filter (kept mk i) ?hs) @ bs"
    "subseq bs (buy_list mk i cands (sell_intents ar mk i cands ?e2))"
    using trade_positions [of ar sorter mk i cands ?e2] by blast
  have len: "length (en_holdings e') = length (filter (kept mk i) ?hs) + length bs"
    using arg_cong [OF bs(1), of length] C(1) by simp
  have "length bs \<le> length (buy_list mk i cands (sell_intents ar mk i cands ?e2))" using bs(2) by (rule list_emb_length)
  moreover have hn: "en_hold_n (sell_intents ar mk i cands ?e2) = en_hold_n e" using L(2) by (simp add: sell_intents_def Let_def)
  ultimately have b: "int (length bs) \<le> max 0 (en_hold_n e - int (length (filter (\<lambda>p. \<not> po_to_sell p) ?hs)))"
    using length_buy_list [of mk i cands "sell_intents ar mk i cands ?e2"] by simp
  have "length ?hs \<le> length (en_holdings e)"
    using arg_cong [OF map_marked [of ar mk i cands ?e2], of length] L(1) by simp
  moreover have "length (filter po_to_sell ?hs) + length (filter (\<lambda>p. \<not> po_to_sell p) ?hs) = length ?hs" by (rule sum_length_filter_compl)
  moreover have "en_n_sell_intent e' = length (filter po_to_sell ?hs)" "en_n_sell_ok e' = length (filter (\<lambda>p. \<not> kept mk i p) ?hs)"
    using C(5) E(5,6) by (simp_all add: same_settings_def)
  ultimately show ?thesis using len length_filter_kept [of mk i ?hs] b by linarith
qed

lemma positions_bounded_witness:
  "\<exists>e'. step exact_arith sort_deficits sample_market 0 sample_cands sample_engine = Ok e' \<and>
     int (length (en_holdings e')) \<le> max 1 (2 + int (en_n_sell_intent e' - en_n_sell_ok e'))"
proof -
  from sample_step obtain e' where e': "step exact_arith sort_deficits sample_market 0 sample_cands sample_engine = Ok e'" by blast
  from positions_bounded [OF e'] e' show ?thesis by simp
qed

text \<open>C38. The kernel reads no more of the candidates than their first \<open>max(hold_n, hold_n * exit_ratio)\<close>: a day with the whole
  order and a day with a prefix of at least that length are the same, so the weight search may rank only the top.\<close>

theorem step_reads_prefix:
  assumes "en_hold_n e \<le> int m" "exit_limit ar e \<le> int m"
  shows "step ar sorter mk i (take m cands) e = step ar sorter mk i cands e"
  by (rule step_take [OF assms])

lemma step_reads_prefix_witness:
  "step exact_arith sort_deficits sample_market 0 (take 4 (sample_cands @ [(Fin 0, 2), (Fin 0, 3), (Fin 0, 4)])) sample_engine =
     step exact_arith sort_deficits sample_market 0 (sample_cands @ [(Fin 0, 2), (Fin 0, 3), (Fin 0, 4)]) sample_engine"
proof -
  have "en_hold_n sample_engine \<le> int 4" "exit_limit exact_arith sample_engine \<le> int 4" by (simp_all add: exit_limit_def trunc_def)
  then show ?thesis by (rule step_reads_prefix)
qed

text \<open>The market window holds what the engine says it holds: the last finite close of the window up to each day (NaN when there
  was none), and the four flags of the day, read back from one byte.\<close>

theorem load_market_spec:
  assumes "load_market ax T d_lo n_days = Ok mk" "a < n_a ax" "i < nat n_days"
  shows "mk_n_a mk = n_a ax \<and> mk_n_d mk = nat n_days \<and> close_at mk i a = last_close ax T (nat d_lo) a i \<and>
     (has_flag (flags_at mk i a) SUSP \<longleftrightarrow> flag (tensor_at ax T Susp a (nat d_lo + i))) \<and>
     (limited mk i a \<longleftrightarrow> flag (tensor_at ax T Limit_up a (nat d_lo + i)) \<or> flag (tensor_at ax T Limit_dn a (nat d_lo + i))) \<and>
     (has_flag (flags_at mk i a) DELISTED \<longleftrightarrow> is_finite (tensor_at ax T Delist_age a (nat d_lo + i)))"
  using load_market_effect(4) [OF assms(1)] load_market_effect(5) [OF assms]
  by (auto simp: market_entry_ok_def shape_ok_def limited_def has_flag_OR)

lemma load_market_spec_witness:
  "\<exists>mk. load_market sample_axes sample_tensor 0 2 = Ok mk \<and> close_at mk 1 0 = Fin 0 \<and> has_flag (flags_at mk 1 0) DELISTED"
proof -
  have at: "tensor_at sample_axes sample_tensor f a d = Fin 0" if "f \<noteq> Mcap_raw" "a < 2" "d < 2" for f a d
    using that by (auto simp: tensor_at_def sample_tensor_def mat_off_def sample_axes_ok less_Suc_eq numeral_2_eq_2)
  have "\<exists>mk. load_market sample_axes sample_tensor 0 2 = Ok mk"
    by (rule load_market_total) (simp_all add: sample_axes_ok market_flags_ready_def at)
  then obtain mk where mk: "load_market sample_axes sample_tensor 0 2 = Ok mk" by blast
  have "0 < n_a sample_axes" "1 < nat 2" by (simp_all add: sample_axes_ok)
  from load_market_spec [OF mk this] have "close_at mk 1 0 = last_close sample_axes sample_tensor 0 0 1"
    "has_flag (flags_at mk 1 0) DELISTED" by (simp_all add: at)
  with mk show ?thesis by (auto simp: last_close_def at)
qed

end
