(* ===== verification/Accounting.thy ===== *)
theory Accounting
  imports Engine
begin

text \<open>
  Where the money of a backtest day goes, in exact arithmetic: the steps of \<open>Engine.step\<close> move value between cash and
  positions, and the only value that leaves the portfolio is the fee of a trade. Each step is an instance of one
  relation, \<open>costs\<close>: some amount was traded, the turnover grew by it, the cash moved by a multiple of it, and the worth shrank by its fee;
  so the amount is also the value of the positions that went, or came (\<open>traded_worth\<close>).
\<close>

section \<open>The worth of a portfolio\<close>

definition worth_of :: "market_window \<Rightarrow> nat \<Rightarrow> pos \<Rightarrow> real" where
  "worth_of mk i p = val (po_shares p) * val (close_at mk i (po_a p))"

definition worth :: "market_window \<Rightarrow> nat \<Rightarrow> engine \<Rightarrow> real" where
  "worth mk i e = val (en_cash e) + (\<Sum>p\<leftarrow>en_holdings e. worth_of mk i p)"

definition total_worth :: "market_window \<Rightarrow> nat \<Rightarrow> pos list \<Rightarrow> real" where
  "total_worth mk i hs = (\<Sum>p\<leftarrow>hs. worth_of mk i p)"

definition nonneg :: "fval \<Rightarrow> bool" where
  "nonneg x \<longleftrightarrow> is_finite x \<and> 0 \<le> val x"

definition pos_exact :: "market_window \<Rightarrow> nat \<Rightarrow> pos \<Rightarrow> bool" where
  "pos_exact mk i p \<longleftrightarrow> nonneg (po_shares p) \<and> nonneg (close_at mk i (po_a p))"

definition exact_state :: "market_window \<Rightarrow> nat \<Rightarrow> engine \<Rightarrow> bool" where
  "exact_state mk i e \<longleftrightarrow> nonneg (en_cash e) \<and> is_finite (en_turn_amt e) \<and> list_all (pos_exact mk i) (en_holdings e)"

definition costs :: "market_window \<Rightarrow> nat \<Rightarrow> real \<Rightarrow> real \<Rightarrow> engine \<Rightarrow> engine \<Rightarrow> bool" where
  "costs mk i k c e e' \<longleftrightarrow> exact_state mk i e' \<and>
     (\<exists>x\<ge>0. worth mk i e' = worth mk i e - k * x \<and> val (en_turn_amt e') = val (en_turn_amt e) + x \<and> val (en_cash e') = val (en_cash e) + c * x)"

lemma nonneg_simps [simp]: "nonneg (Fin r) \<longleftrightarrow> 0 \<le> r" "\<not> nonneg NaN" "\<not> nonneg PInf" "\<not> nonneg NInf"
  by (simp_all add: nonneg_def)

lemma nonneg_cases: "nonneg x \<Longrightarrow> (\<And>r. x = Fin r \<Longrightarrow> 0 \<le> r \<Longrightarrow> P) \<Longrightarrow> P"
  by (cases x) auto

lemma costs_refl: "exact_state mk i e \<Longrightarrow> costs mk i k c e e"
  by (auto simp: costs_def intro!: exI [of _ 0])

lemma costs_trans: "costs mk i k c e e1 \<Longrightarrow> costs mk i k c e1 e2 \<Longrightarrow> costs mk i k c e e2"
proof -
  assume "costs mk i k c e e1" "costs mk i k c e1 e2"
  then obtain x y where "x \<ge> 0" "worth mk i e1 = worth mk i e - k * x" "val (en_turn_amt e1) = val (en_turn_amt e) + x" "val (en_cash e1) = val (en_cash e) + c * x"
    "y \<ge> 0" "worth mk i e2 = worth mk i e1 - k * y" "val (en_turn_amt e2) = val (en_turn_amt e1) + y" "val (en_cash e2) = val (en_cash e1) + c * y"
    "exact_state mk i e2"
    by (auto simp: costs_def)
  then show ?thesis by (auto simp: costs_def algebra_simps intro!: exI [of _ "x + y"])
qed

text \<open>The amount traded, read off the positions.\<close>

lemma traded_worth:
  assumes "costs mk i k c e e'" "k + c \<noteq> 0"
  defines "x \<equiv> (total_worth mk i (en_holdings e) - total_worth mk i (en_holdings e')) / (k + c)"
  shows "0 \<le> x" "val (en_turn_amt e') = val (en_turn_amt e) + x" "val (en_cash e') = val (en_cash e) + c * x"
proof -
  from assms(1) obtain y where y: "y \<ge> 0" "worth mk i e' = worth mk i e - k * y" "val (en_turn_amt e') = val (en_turn_amt e) + y"
    "val (en_cash e') = val (en_cash e) + c * y" by (auto simp: costs_def)
  then have "total_worth mk i (en_holdings e) - total_worth mk i (en_holdings e') = (k + c) * y" by (simp add: worth_def total_worth_def algebra_simps)
  then have "x = y" using assms(2) by (simp add: x_def)
  with y show "0 \<le> x" "val (en_turn_amt e') = val (en_turn_amt e) + x" "val (en_cash e') = val (en_cash e) + c * x" by simp_all
qed

lemma total_worth_split: "total_worth mk i (filter P hs) + total_worth mk i (filter (\<lambda>p. \<not> P p) hs) = total_worth mk i hs"
  by (induction hs) (simp_all add: total_worth_def)

lemma total_worth_nonneg: "list_all (pos_exact mk i) hs \<Longrightarrow> 0 \<le> total_worth mk i (filter P hs)"
  unfolding total_worth_def by (rule sum_list_nonneg) (auto simp: list_all_iff pos_exact_def worth_of_def nonneg_def)

lemma exact_market_value: "list_all (pos_exact mk i) hs \<Longrightarrow> market_value exact_arith mk i hs = Fin (\<Sum>p\<leftarrow>hs. worth_of mk i p)"
proof -
  have "list_all (pos_exact mk i) hs \<Longrightarrow> foldl (\<lambda>s p. fadd Fin s (pos_value exact_arith mk i p)) (Fin a) hs = Fin (a + (\<Sum>p\<leftarrow>hs. worth_of mk i p))" for a
    by (induction hs arbitrary: a) (auto simp: pos_exact_def pos_value_def worth_of_def elim!: nonneg_cases)
  from this [of 0] show "list_all (pos_exact mk i) hs \<Longrightarrow> market_value exact_arith mk i hs = Fin (\<Sum>p\<leftarrow>hs. worth_of mk i p)"
    by (simp add: market_value_def)
qed

lemma worth_nonneg: "exact_state mk i e \<Longrightarrow> 0 \<le> (\<Sum>p\<leftarrow>en_holdings e. worth_of mk i p)"
  by (rule sum_list_nonneg) (auto simp: exact_state_def list_all_iff pos_exact_def worth_of_def nonneg_def)

section \<open>Sales\<close>

definition sell_fee :: real where "sell_fee = 13 / 10000"

definition buy_fee :: real where "buy_fee = (3 / 10000) / (1 + 3 / 10000)"

text \<open>Selling puts the worth of a position, less the fee, into the cash.\<close>

lemma sell_moves:
  assumes "exact_state mk i e" "pos_exact mk i p"
  shows "exact_state mk i (sell_pos exact_arith mk i p e)" "0 \<le> worth_of mk i p"
    "val (en_cash (sell_pos exact_arith mk i p e)) = val (en_cash e) + (1 - sell_fee) * worth_of mk i p"
    "val (en_turn_amt (sell_pos exact_arith mk i p e)) = val (en_turn_amt e) + worth_of mk i p"
proof -
  obtain s c q t where v: "po_shares p = Fin s" "close_at mk i (po_a p) = Fin c" "en_cash e = Fin q" "en_turn_amt e = Fin t" "0 \<le> s" "0 \<le> c" "0 \<le> q"
    using assms by (auto simp: exact_state_def pos_exact_def is_finite_iff elim!: nonneg_cases)
  then have w: "worth_of mk i p = s * c" "0 \<le> s * c" by (simp_all add: worth_of_def)
  have cash: "en_cash (sell_pos exact_arith mk i p e) = Fin (q + s * c * (1 - 13 / 10000))"
    "en_turn_amt (sell_pos exact_arith mk i p e) = Fin (t + s * c)"
    using v by (simp_all add: sell_pos_def pos_value_def SELL_COST_def fsub_def)
  show "exact_state mk i (sell_pos exact_arith mk i p e)" using assms(1) cash v(7) w(2) by (simp add: exact_state_def engine_simps)
  show "0 \<le> worth_of mk i p" "val (en_cash (sell_pos exact_arith mk i p e)) = val (en_cash e) + (1 - sell_fee) * worth_of mk i p"
    "val (en_turn_amt (sell_pos exact_arith mk i p e)) = val (en_turn_amt e) + worth_of mk i p"
    using v w cash by (simp_all add: sell_fee_def)
qed

text \<open>The loops that sell rebuild the list of positions: what has not been looked at counts with what was kept.\<close>

definition with_rest :: "pos list \<Rightarrow> engine \<Rightarrow> engine" where
  "with_rest hs e = e\<lparr>en_holdings := en_holdings e @ hs\<rparr>"

lemma with_rest_keep: "with_rest hs (keep_pos p e) = with_rest (p # hs) e" and with_rest_Nil [simp]: "with_rest [] e = e"
  by (simp_all add: with_rest_def keep_pos_def)

lemma exact_with_rest: "exact_state mk i (with_rest hs e) \<longleftrightarrow> exact_state mk i e \<and> list_all (pos_exact mk i) hs"
  by (auto simp: exact_state_def with_rest_def)

lemma sell_rest_costs:
  assumes "exact_state mk i (with_rest (p # hs) e)" "en_cash e' = en_cash (sell_pos exact_arith mk i p e)"
    "en_turn_amt e' = en_turn_amt (sell_pos exact_arith mk i p e)" "en_holdings e' = en_holdings e"
  shows "costs mk i sell_fee (1 - sell_fee) (with_rest (p # hs) e) (with_rest hs e')"
proof -
  have ex: "exact_state mk i (with_rest hs e)" "pos_exact mk i p" using assms(1) by (simp_all add: exact_with_rest)
  have eq: "sell_pos exact_arith mk i p (with_rest hs e) = (with_rest hs (sell_pos exact_arith mk i p e))"
    by (simp add: sell_pos_def with_rest_def)
  note m = sell_moves [OF ex, unfolded eq]
  have "exact_state mk i (with_rest hs e')" using m(1) assms(2-4) by (simp add: with_rest_def exact_state_def engine_simps)
  moreover have c: "val (en_cash (with_rest hs e')) = val (en_cash (with_rest (p # hs) e)) + (1 - sell_fee) * worth_of mk i p"
    "val (en_turn_amt (with_rest hs e')) = val (en_turn_amt (with_rest (p # hs) e)) + worth_of mk i p"
    using m(3,4) assms(2,3) by (simp_all add: with_rest_def)
  moreover have "worth mk i (with_rest hs e') = worth mk i (with_rest (p # hs) e) - sell_fee * worth_of mk i p"
    using c(1) assms(4) by (simp add: worth_def with_rest_def algebra_simps)
  ultimately show ?thesis using m(2) unfolding costs_def by blast
qed

lemma liquidate_costs:
  assumes "exact_state mk i (with_rest hs e)" "fold_ok (delist_step exact_arith mk i) e hs = Ok e'"
  shows "costs mk i sell_fee (1 - sell_fee) (with_rest hs e) e'"
  using assms
proof (induction hs arbitrary: e)
  case Nil
  then show ?case by (simp add: costs_refl)
next
  case (Cons p hs)
  from Cons.prems(2) obtain e1 where e1: "delist_step exact_arith mk i e p = Ok e1" "fold_ok (delist_step exact_arith mk i) e1 hs = Ok e'"
    by (auto simp: bind_ok_Ok_iff)
  have c: "costs mk i sell_fee (1 - sell_fee) (with_rest (p # hs) e) (with_rest hs e1)"
  proof (cases "has_flag (flags_at mk i (po_a p)) DELISTED")
    case True
    with e1(1) have "e1 = tell (DelistSell (po_a p) i (close_at mk i (po_a p)) (po_shares p)) (sell_pos exact_arith mk i p e)"
      by (auto simp: delist_step_def split: if_splits)
    then show ?thesis by (intro sell_rest_costs Cons.prems(1)) (simp_all add: engine_simps)
  next
    case False
    with e1(1) have "e1 = keep_pos p e" by (auto simp: delist_step_def)
    then show ?thesis using costs_refl [OF Cons.prems(1)] by (simp add: with_rest_keep)
  qed
  then have "exact_state mk i (with_rest hs e1)" by (simp add: costs_def)
  from costs_trans [OF c Cons.IH [OF this e1(2)]] show ?case .
qed

lemma sells_cost:
  "exact_state mk i (with_rest hs e) \<Longrightarrow> costs mk i sell_fee (1 - sell_fee) (with_rest hs e) (foldl (sell_step exact_arith mk i) e hs)"
proof (induction hs arbitrary: e)
  case Nil
  then show ?case by (simp add: costs_refl)
next
  case (Cons p hs)
  let ?e = "sell_step exact_arith mk i e p"
  have c: "costs mk i sell_fee (1 - sell_fee) (with_rest (p # hs) e) (with_rest hs ?e)"
  proof (cases "kept mk i p")
    case True
    then have "?e = keep_pos p e" by (auto simp: sell_step_def kept_def)
    then show ?thesis using costs_refl [OF Cons.prems(1)] by (simp add: with_rest_keep)
  next
    case False
    then have "?e = (tell (Sell (po_a p) i (close_at mk i (po_a p))) (sell_pos exact_arith mk i p e))\<lparr>en_n_sell_ok := Suc (en_n_sell_ok e)\<rparr>"
      by (auto simp: sell_step_def kept_def engine_simps)
    then show ?thesis by (intro sell_rest_costs Cons.prems(1)) (simp_all add: engine_simps)
  qed
  then have "exact_state mk i (with_rest hs ?e)" by (simp add: costs_def)
  from costs_trans [OF c Cons.IH [OF this]] show ?case by simp
qed

section \<open>Purchases\<close>

lemma exact_shares: "shares_for exact_arith (Fin m) (Fin c) = (if c = 0 then inf_of (m / (1 + 3 / 10000)) else Fin (m / (1 + 3 / 10000) / c))"
  by (simp add: shares_for_def BUY_COST_def)

text \<open>Money paid for shares at the close comes back in the positions, less the fee.\<close>

lemma pay_costs:
  assumes "exact_state mk i e" "0 \<le> m" "m \<le> val (en_cash e)" "0 < c" "list_all (pos_exact mk i) hs"
    "(\<Sum>p\<leftarrow>hs. worth_of mk i p) = (\<Sum>p\<leftarrow>en_holdings e. worth_of mk i p) + m / (1 + 3 / 10000) / c * c"
    "en_cash e' = en_cash (pay exact_arith (Fin m) e)" "en_turn_amt e' = en_turn_amt (pay exact_arith (Fin m) e)" "en_holdings e' = hs"
  shows "costs mk i buy_fee (- 1) e e'"
proof -
  obtain q t where v: "en_cash e = Fin q" "en_turn_amt e = Fin t" "0 \<le> q" using assms(1) by (auto simp: exact_state_def is_finite_iff elim!: nonneg_cases)
  then have e': "en_cash e' = Fin (q - m)" "en_turn_amt e' = Fin (t + m)" using assms(7,8) by (simp_all add: pay_def fsub_def)
  have "exact_state mk i e'" using assms(3,5,9) e' v by (simp add: exact_state_def)
  moreover have "worth mk i e' = worth mk i e - buy_fee * m"
  proof -
    have "m / (1 + 3 / 10000) / c * c = m / (1 + 3 / 10000)" using assms(4) by simp
    then have "worth mk i e' = q - m + ((\<Sum>p\<leftarrow>en_holdings e. worth_of mk i p) + m / (1 + 3 / 10000))"
      using assms(6,9) e' by (simp add: worth_def)
    moreover have "m / (1 + 3 / 10000) = m - buy_fee * m" by (simp add: buy_fee_def field_simps)
    ultimately show ?thesis using v by (simp add: worth_def)
  qed
  ultimately show ?thesis using e' v(1,2) assms(2) by (auto simp: costs_def intro!: exI [of _ m])
qed

lemma min_exact: "std_min (Fin a) (Fin b) = Fin (min a b)"
  by (auto simp: std_min_def min_def)

lemma priced: "\<not> no_price x \<Longrightarrow> \<exists>c>0. x = Fin c"
  by (cases x) (auto simp: no_price_def)

lemma buys_cost:
  "exact_state mk i e \<Longrightarrow> 0 \<le> t \<Longrightarrow> ar = exact_arith \<Longrightarrow> target = Fin t \<Longrightarrow> costs mk i buy_fee (- 1) e (buy_loop ar mk i target buys e)"
proof (induction ar mk i target buys e rule: buy_loop.induct)
  case (2 ar mk i target a buys e)
  show ?case
  proof (cases "fle (en_cash e) (Fin 0) \<or> no_price (close_at mk i a) \<or> fle (shares_for ar (std_min target (en_cash e)) (close_at mk i a)) (Fin 0)")
    case True
    have "costs mk i buy_fee (- 1) e (buy_loop ar mk i target buys e)" if "\<not> fle (en_cash e) (Fin 0)"
      using "2.IH"(1) [OF that refl _ "2.prems"] "2.IH"(2) [OF that refl _ refl refl _ "2.prems"] True that by blast
    with True costs_refl [OF "2.prems"(1)] show ?thesis by (auto simp: Let_def)
  next
    case False
    from False priced obtain c where c: "0 < c" "close_at mk i a = Fin c" by blast
    obtain q where q: "en_cash e = Fin q" "0 \<le> q" using "2.prems"(1) by (auto simp: exact_state_def elim!: nonneg_cases)
    let ?m = "min t q" and ?s = "min t q / (1 + 3 / 10000) / c"
    have s: "shares_for ar (std_min target (en_cash e)) (close_at mk i a) = Fin ?s"
      using c q "2.prems"(3,4) by (simp add: min_exact exact_shares)
    let ?p = "\<lparr>po_a = a, po_shares = shares_for ar (std_min target (en_cash e)) (close_at mk i a), po_to_sell = False\<rparr>"
    let ?e = "(tell (Buy a i (close_at mk i a)) (keep_pos ?p (pay ar (std_min target (en_cash e)) e)))\<lparr>en_n_buy_ok := Suc (en_n_buy_ok e)\<rparr>"
    have "costs mk i buy_fee (- 1) e ?e"
    proof (rule pay_costs [where m = ?m and c = c and hs = "en_holdings e @ [?p]"])
      show "list_all (pos_exact mk i) (en_holdings e @ [?p])"
        using "2.prems"(1,2) s c q by (simp add: exact_state_def pos_exact_def)
    qed (use "2.prems" s c q in \<open>simp_all add: engine_simps min_exact worth_of_def\<close>)
    then have "exact_state mk i ?e" by (simp add: costs_def)
    from "2.IH"(3) [OF _ refl _ refl refl _ this "2.prems"(2-4)] False
    have "costs mk i buy_fee (- 1) ?e (buy_loop ar mk i target buys ?e)" by blast
    from costs_trans [OF \<open>costs mk i buy_fee (- 1) e ?e\<close> this] False show ?thesis by (simp add: Let_def)
  qed
qed (simp add: costs_refl)

lemma add_shares_worth:
  assumes "a \<in> po_a ` set hs" "list_all (pos_exact mk i) hs" "close_at mk i a = Fin c" "0 \<le> c" "0 \<le> x"
  shows "list_all (pos_exact mk i) (add_shares exact_arith a (Fin x) hs) \<and>
    (\<Sum>p\<leftarrow>add_shares exact_arith a (Fin x) hs. worth_of mk i p) = (\<Sum>p\<leftarrow>hs. worth_of mk i p) + x * c"
  using assms(1,2)
proof (induction hs)
  case (Cons p hs)
  show ?case
  proof (cases "po_a p = a")
    case True
    obtain s where "po_shares p = Fin s" "0 \<le> s" using Cons.prems(2) by (auto simp: pos_exact_def elim!: nonneg_cases)
    with True Cons.prems(2) assms(3-5) show ?thesis by (simp add: pos_exact_def worth_of_def algebra_simps)
  next
    case False
    with Cons show ?thesis by auto
  qed
qed simp

text \<open>Topping up only adds shares.\<close>

definition grown :: "pos list \<Rightarrow> pos list \<Rightarrow> bool" where
  "grown hs hs' \<longleftrightarrow> list_all2 (\<lambda>p p'. po_a p' = po_a p \<and> val (po_shares p) \<le> val (po_shares p')) hs hs'"

lemma grown_refl: "grown hs hs"
  by (simp add: grown_def list_all2_refl)

lemma grown_trans: "grown hs hs1 \<Longrightarrow> grown hs1 hs2 \<Longrightarrow> grown hs hs2"
  by (fastforce simp: grown_def list_all2_conv_all_nth)

lemma add_shares_grown: "list_all (pos_exact mk i) hs \<Longrightarrow> 0 \<le> x \<Longrightarrow> grown hs (add_shares exact_arith a (Fin x) hs)"
proof (induction hs)
  case (Cons p hs)
  then obtain s where "po_shares p = Fin s" by (auto simp: pos_exact_def elim!: nonneg_cases)
  with Cons show ?case by (auto simp: grown_def list_all2_refl)
qed (simp add: grown_def)

lemma top_up_costs:
  "exact_state mk i e \<Longrightarrow> ar = exact_arith \<Longrightarrow>
     \<forall>dd\<in>set dds. de_a dd \<in> set (map po_a (en_holdings e)) \<and> de_c dd = close_at mk i (de_a dd) \<and> \<not> no_price (de_c dd) \<and> nonneg (de_def dd) \<Longrightarrow>
     costs mk i buy_fee (- 1) e (top_up ar dds e) \<and> grown (en_holdings e) (en_holdings (top_up ar dds e))"
proof (induction ar dds e rule: top_up.induct)
  case (2 ar dd dds e)
  show ?case
  proof (cases "fle (en_cash e) (Fin 0) \<or> fle (shares_for ar (std_min (de_def dd) (en_cash e)) (de_c dd)) (Fin 0)")
    case True
    have tl: "\<forall>dd\<in>set dds. de_a dd \<in> set (map po_a (en_holdings e)) \<and> de_c dd = close_at mk i (de_a dd) \<and> \<not> no_price (de_c dd) \<and> nonneg (de_def dd)"
      using "2.prems"(3) set_subset_Cons [of dds dd] by blast
    have "costs mk i buy_fee (- 1) e (top_up ar dds e) \<and> grown (en_holdings e) (en_holdings (top_up ar dds e))" if "\<not> fle (en_cash e) (Fin 0)"
      using "2.IH"(1) [OF that refl refl _ "2.prems"(1,2) tl] True that by blast
    with True costs_refl [OF "2.prems"(1)] grown_refl [of "en_holdings e"] show ?thesis by (auto simp: Let_def)
  next
    case False
    have dd: "de_a dd \<in> po_a ` set (en_holdings e)" "de_c dd = close_at mk i (de_a dd)" "\<not> no_price (de_c dd)" "nonneg (de_def dd)"
      using bspec [OF "2.prems"(3) list.set_intros(1)] unfolding set_map by blast+
    from priced [OF dd(3)] obtain c where c: "0 < c" "de_c dd = Fin c" by blast
    obtain q where q: "en_cash e = Fin q" "0 \<le> q" using "2.prems"(1) by (auto simp: exact_state_def elim!: nonneg_cases)
    obtain t where t: "de_def dd = Fin t" "0 \<le> t" using dd(4) by (auto elim!: nonneg_cases)
    let ?m = "min t q" and ?x = "min t q / (1 + 3 / 10000) / c"
    have s: "shares_for ar (std_min (de_def dd) (en_cash e)) (de_c dd) = Fin ?x" "0 \<le> ?x"
      using c q t "2.prems"(2) by (simp_all add: min_exact exact_shares)
    let ?e = "(pay ar (std_min (de_def dd) (en_cash e)) e)\<lparr>en_holdings := add_shares ar (de_a dd)
        (shares_for ar (std_min (de_def dd) (en_cash e)) (de_c dd)) (en_holdings e)\<rparr>"
    have w: "list_all (pos_exact mk i) (add_shares exact_arith (de_a dd) (Fin ?x) (en_holdings e))"
      "(\<Sum>p\<leftarrow>add_shares exact_arith (de_a dd) (Fin ?x) (en_holdings e). worth_of mk i p) = (\<Sum>p\<leftarrow>en_holdings e. worth_of mk i p) + ?x * c"
      using add_shares_worth [OF dd(1), of mk i c ?x] "2.prems"(1) dd(2) c s(2) by (simp_all add: exact_state_def)
    have "costs mk i buy_fee (- 1) e ?e"
      by (rule pay_costs [where m = ?m and c = c and hs = "en_holdings ?e"])
        (use "2.prems"(1,2) s w c q t in \<open>simp_all add: min_exact\<close>)
    then have e: "exact_state mk i ?e" by (simp add: costs_def)
    have "\<forall>x\<in>set dds. de_a x \<in> set (map po_a (en_holdings ?e)) \<and> de_c x = close_at mk i (de_a x) \<and> \<not> no_price (de_c x) \<and> nonneg (de_def x)"
      using "2.prems"(3) set_subset_Cons [of dds dd] unfolding engine.simps add_shares_keeps by auto
    from "2.IH"(2) [OF _ refl refl _ e "2.prems"(2) this] False have IH: "costs mk i buy_fee (- 1) ?e (top_up ar dds ?e)" "grown (en_holdings ?e) (en_holdings (top_up ar dds ?e))" by blast+
    have "list_all (pos_exact mk i) (en_holdings e)" using "2.prems"(1) by (simp add: exact_state_def)
    from add_shares_grown [OF this s(2), of "de_a dd"] have "grown (en_holdings e) (en_holdings ?e)" using s(1) "2.prems"(2) by simp
    then have "grown (en_holdings e) (en_holdings (top_up ar dds ?e))" using IH(2) by (rule grown_trans)
    with costs_trans [OF \<open>costs mk i buy_fee (- 1) e ?e\<close> IH(1)] False show ?thesis by (simp add: Let_def)
  qed
qed (simp add: costs_refl grown_refl)

lemma exact_deficits:
  assumes "list_all (pos_exact mk i) hs" "x \<in> set (deficits exact_arith mk i (Fin t) hs)"
  shows "de_a x \<in> set (map po_a hs) \<and> de_c x = close_at mk i (de_a x) \<and> \<not> no_price (de_c x) \<and> nonneg (de_def x)"
proof -
  from deficits_tradable [OF assms(2)] obtain p where p: "p \<in> set hs" "de_a x = po_a p" "de_c x = close_at mk i (po_a p)" "\<not> no_price (de_c x)"
    "de_def x = fsub Fin (Fin t) (pos_value exact_arith mk i p)" "\<not> fle (de_def x) (Fin 0)" by auto
  have "pos_exact mk i p" using p(1) assms(1) by (simp add: list_all_iff)
  then obtain r where r: "de_def x = Fin r" using p(5) by (auto simp: pos_exact_def pos_value_def fsub_def elim!: nonneg_cases)
  have "nonneg (de_def x)" using p(6) unfolding r by simp
  with p(1-4) show ?thesis by auto
qed

lemma trade_costs:
  assumes "exact_state mk i e" "0 < en_hold_n e" "deficit_sort sorter"
  shows "\<exists>s. costs mk i sell_fee (1 - sell_fee) e s \<and> costs mk i buy_fee (- 1) s (trade exact_arith sorter mk i cands e) \<and>
    en_holdings s = filter (kept mk i) (marked exact_arith mk i cands e) \<and>
    (\<exists>hs. grown (en_holdings s @ hs) (en_holdings (trade exact_arith sorter mk i cands e)) \<and>
       (\<forall>p\<in>set hs. Buy (po_a p) i (close_at mk i (po_a p)) \<in> set (en_events (trade exact_arith sorter mk i cands e))))"
proof -
  let ?e1 = "sell_intents exact_arith mk i cands e" and ?b = "buy_list mk i cands (sell_intents exact_arith mk i cands e)"
  let ?e0 = "?e1\<lparr>en_n_buy_intent := length ?b, en_holdings := [], en_n_sell_ok := 0\<rparr>"
  let ?e2 = "sell_all exact_arith mk i (?e1\<lparr>en_n_buy_intent := length ?b\<rparr>)"
  let ?t = "target_per_slot exact_arith mk i ?e2"
  let ?e3 = "buy_loop exact_arith mk i ?t ?b (?e2\<lparr>en_n_buy_ok := 0\<rparr>)"
  have e1: "exact_state mk i (with_rest (en_holdings ?e1) ?e0)" "worth mk i (with_rest (en_holdings ?e1) ?e0) = worth mk i e"
      "en_turn_amt (with_rest (en_holdings ?e1) ?e0) = en_turn_amt e" "en_cash (with_rest (en_holdings ?e1) ?e0) = en_cash e"
    using assms(1) by (auto simp: exact_state_def with_rest_def worth_def sell_intents_def Let_def list_all_iff pos_exact_def worth_of_def o_def)
  have "costs mk i sell_fee (1 - sell_fee) (with_rest (en_holdings ?e1) ?e0) ?e2" using sells_cost [OF e1(1)] by (simp add: sell_all_def)
  then have s: "costs mk i sell_fee (1 - sell_fee) e (?e2\<lparr>en_n_buy_ok := 0\<rparr>)" using e1(2-4) by (auto simp: costs_def exact_state_def worth_def)
  then have ex: "exact_state mk i (?e2\<lparr>en_n_buy_ok := 0\<rparr>)" by (simp add: costs_def)
  obtain t where t: "?t = Fin t" "0 \<le> t"
  proof -
    have hn: "en_hold_n ?e2 = en_hold_n e" by (simp add: sell_all_fields sell_intents_def Let_def)
    have ex2: "exact_state mk i ?e2" using ex by (simp add: exact_state_def)
    then obtain q where q: "en_cash ?e2 = Fin q" "0 \<le> q" by (auto simp: exact_state_def elim!: nonneg_cases)
    have "market_value exact_arith mk i (en_holdings ?e2) = Fin (\<Sum>p\<leftarrow>en_holdings ?e2. worth_of mk i p)"
      using ex2 by (intro exact_market_value) (simp add: exact_state_def)
    then have "?t = Fin ((q + (\<Sum>p\<leftarrow>en_holdings ?e2. worth_of mk i p)) / of_int (en_hold_n e))"
      using q(1) hn assms(2) by (simp add: target_per_slot_def)
    then show ?thesis by (rule that) (use q(2) worth_nonneg [OF ex2] assms(2) in \<open>simp add: divide_nonneg_nonneg\<close>)
  qed
  have b: "costs mk i buy_fee (- 1) (?e2\<lparr>en_n_buy_ok := 0\<rparr>) ?e3" by (rule buys_cost [OF ex t(2) refl t(1)])
  then have ex3: "exact_state mk i ?e3" by (simp add: costs_def)
  have r: "costs mk i buy_fee (- 1) ?e3 (rebalance exact_arith sorter mk i ?t ?e3) \<and> grown (en_holdings ?e3) (en_holdings (rebalance exact_arith sorter mk i ?t ?e3))"
  proof (cases "fless (Fin 0) (en_cash ?e3) \<and> en_holdings ?e3 \<noteq> []")
    case True
    have "list_all (pos_exact mk i) (en_holdings ?e3)" using ex3 by (simp add: exact_state_def)
    from exact_deficits [OF this] have "\<forall>dd\<in>set (sorter (deficits exact_arith mk i ?t (en_holdings ?e3))).
        de_a dd \<in> set (map po_a (en_holdings ?e3)) \<and> de_c dd = close_at mk i (de_a dd) \<and> \<not> no_price (de_c dd) \<and> nonneg (de_def dd)"
      unfolding desc_sort.sort_set [OF assms(3)] t(1) by blast
    from top_up_costs [OF ex3 refl this] show ?thesis unfolding rebalance_def if_P [OF True] .
  next
    case False
    show ?thesis unfolding rebalance_def if_not_P [OF False] using costs_refl [OF ex3] grown_refl by blast
  qed
  obtain hs where hs: "en_holdings ?e3 = en_holdings ?e2 @ hs" "en_events ?e3 = en_events ?e2 @ map (\<lambda>p. Buy (po_a p) i (close_at mk i (po_a p))) hs" using buy_loop_effect [of mk i ?b "?e2\<lparr>en_n_buy_ok := 0\<rparr>" exact_arith ?t] by (auto simp: buy_effect_def)
  then have "grown (en_holdings (?e2\<lparr>en_n_buy_ok := 0\<rparr>) @ hs) (en_holdings (rebalance exact_arith sorter mk i ?t ?e3))" using r by simp
  moreover have "\<forall>p\<in>set hs. Buy (po_a p) i (close_at mk i (po_a p)) \<in> set (en_events (rebalance exact_arith sorter mk i ?t ?e3))"
    using hs(2) by (simp add: rebalance_fields)
  moreover have "en_holdings (?e2\<lparr>en_n_buy_ok := 0\<rparr>) = filter (kept mk i) (marked exact_arith mk i cands e)" by (simp add: sell_all_fields)
  ultimately show ?thesis using costs_trans [OF b conjunct1 [OF r]] s unfolding trade_def Let_def by blast
qed

section \<open>Properties\<close>

lemma mset_three_ways:
  "mset (filter P hs) + (mset (filter (\<lambda>p. \<not> Q p) (filter (\<lambda>p. \<not> P p) hs)) + mset (filter Q (filter (\<lambda>p. \<not> P p) hs))) = mset hs"
  by (induction hs) simp_all

text \<open>C7. Money is conserved over a day of the backtest, in exact arithmetic. Let \<open>gone\<close> be the positions whose instrument is delisted, \<open>sold\<close> those that
  the recorder is told to be sold, and \<open>stay\<close> the rest; \<open>D\<close> and \<open>S\<close> are what \<open>gone\<close> and \<open>sold\<close> are worth at the closes of the day, and \<open>bought\<close> is what
  the positions at the end are worth beyond \<open>stay\<close>. Every position of \<open>stay\<close> is held at the end, with at least its shares, and every other position of
  the end was reported as bought. The cash gains \<open>D\<close> and \<open>S\<close> less 13 in 10000, and pays \<open>bought\<close> plus 3 in 10000; the turnover is the money that changed
  hands; the value at the decision is the worth of the portfolio less the fee on \<open>D\<close>, and the value at the end of the day is that less the fees on what was
  sold and bought: trading at the close makes no profit and loses nothing but the fees.\<close>

theorem day_conserves_value:
  assumes "deficit_sort sorter" "0 < en_hold_n e" "nonneg (en_cash e)" "list_all (pos_exact mk i) (en_holdings e)"
    "step exact_arith sorter mk i cands e = Ok e'"
  defines "told \<equiv> \<lambda>p. Sell (po_a p) i (close_at mk i (po_a p)) \<in> set (en_events e')"
    and "delisted \<equiv> \<lambda>p. has_flag (flags_at mk i (po_a p)) DELISTED"
  defines "gone \<equiv> filter delisted (en_holdings e)" and "sold \<equiv> filter told (en_holdings e)"
    and "stay \<equiv> filter (\<lambda>p. \<not> delisted p \<and> \<not> told p) (en_holdings e)"
  defines "D \<equiv> total_worth mk i gone" and "S \<equiv> total_worth mk i sold"
    and "bought \<equiv> total_worth mk i (en_holdings e') - total_worth mk i stay"
  shows "mset (gone @ sold @ stay) = mset (en_holdings e) \<and> 0 \<le> bought \<and>
    (\<exists>new. grown (stay @ new) (en_holdings e') \<and> (\<forall>p\<in>set new. Buy (po_a p) i (close_at mk i (po_a p)) \<in> set (en_events e'))) \<and>
    en_cash e' = Fin (val (en_cash e) + (1 - 13 / 10000) * (D + S) - (1 + 3 / 10000) * bought) \<and>
    en_turn_amt e' = Fin (D + S + (1 + 3 / 10000) * bought) \<and>
    en_pv e' = Fin (worth mk i e - 13 / 10000 * D) \<and> en_pv_end e' = Fin (val (en_pv e') - 13 / 10000 * S - 3 / 10000 * bought)"
proof -
  from step_split [OF assms(5)] obtain e1 where e1: "liquidate exact_arith mk i (e\<lparr>en_turn_amt := Fin 0, en_events := []\<rparr>) = Ok e1"
    "close_day exact_arith mk i (trade exact_arith sorter mk i cands
       (e1\<lparr>en_pv := fadd Fin (en_cash e1) (market_value exact_arith mk i (en_holdings e1))\<rparr>)) = Ok e'" by auto
  let ?e0 = "e\<lparr>en_turn_amt := Fin 0, en_events := [], en_holdings := []\<rparr>"
  have ex0: "exact_state mk i (with_rest (en_holdings e) ?e0)" using assms(3,4) by (simp add: exact_state_def with_rest_def)
  note L = liquidate_fields [OF e1(1)]
  have h1: "en_holdings e1 = filter (\<lambda>p. \<not> delisted p) (en_holdings e)" using L(1) by (simp add: delisted_def)
  have c1: "costs mk i sell_fee (1 - sell_fee) (with_rest (en_holdings e) ?e0) e1"
    using liquidate_costs [of mk i "en_holdings e" ?e0 e1] ex0 e1(1) by (simp add: liquidate_def)
  have D: "total_worth mk i (en_holdings (with_rest (en_holdings e) ?e0)) - total_worth mk i (en_holdings e1) = D"
    unfolding h1 D_def gone_def by (simp add: with_rest_def total_worth_split [of mk i delisted "en_holdings e", symmetric])
  have d: "0 \<le> D" "val (en_turn_amt e1) = D" "val (en_cash e1) = val (en_cash e) + (1 - sell_fee) * D"
    using traded_worth [OF c1] unfolding D by (simp_all add: with_rest_def)
  have x1: "exact_state mk i e1" using c1 by (simp add: costs_def)
  have w1: "worth mk i e1 = worth mk i e - sell_fee * D"
    using d(3) D by (simp add: worth_def total_worth_def with_rest_def algebra_simps)
  have pv: "fadd Fin (en_cash e1) (market_value exact_arith mk i (en_holdings e1)) = Fin (worth mk i e1)"
    using x1 exact_market_value [of mk i "en_holdings e1"] by (auto simp: exact_state_def worth_def elim!: nonneg_cases)
  let ?e2 = "e1\<lparr>en_pv := Fin (worth mk i e1)\<rparr>" and ?e3 = "trade exact_arith sorter mk i cands (e1\<lparr>en_pv := Fin (worth mk i e1)\<rparr>)"
  have e2: "exact_state mk i ?e2" "0 < en_hold_n ?e2" using x1 L(2) assms(2) by (simp_all add: exact_state_def)
  let ?m = "marked exact_arith mk i cands ?e2"
  from trade_costs [OF e2 assms(1), of cands] obtain s hs where s: "costs mk i sell_fee (1 - sell_fee) ?e2 s" "costs mk i buy_fee (- 1) s ?e3"
    "en_holdings s = filter (kept mk i) ?m" "grown (en_holdings s @ hs) (en_holdings ?e3)"
    "\<forall>p\<in>set hs. Buy (po_a p) i (close_at mk i (po_a p)) \<in> set (en_events ?e3)" by blast
  note C = close_day_fields [OF e1(2) [unfolded pv]]
  text \<open>What was reported as sold is what the sales take out.\<close>
  define mk_of where "mk_of = (\<lambda>p :: pos. p\<lparr>po_to_sell := \<not> in_prefix cands (po_a p) (n_top_exit exact_arith ?e2 cands) \<and> \<not> limited mk i (po_a p)\<rparr>)"
  have m: "?m = map mk_of (en_holdings e1)" by (simp add: sell_intents_def mk_of_def)
  have same: "po_a (mk_of p) = po_a p" "po_shares (mk_of p) = po_shares p" "worth_of mk i (mk_of p) = worth_of mk i p" for p
    by (simp_all add: mk_of_def worth_of_def)
  have by_name: "kept mk i (mk_of p) = kept mk i (mk_of q)" if "po_a p = po_a q" for p q using that by (simp add: kept_def mk_of_def)
  have "\<exists>ns :: pos list. en_events ?e3 = en_events ?e2 @ map (\<lambda>p. Sell (po_a p) i (close_at mk i (po_a p))) (filter (\<lambda>p. \<not> kept mk i p) ?m) @
      map (\<lambda>p. Buy (po_a p) i (close_at mk i (po_a p))) ns"
    using trade_effect(1) [of exact_arith sorter mk i cands ?e2] by blast
  then obtain ns :: "pos list" where ns: "en_events ?e3 = en_events ?e2 @ map (\<lambda>p. Sell (po_a p) i (close_at mk i (po_a p))) (filter (\<lambda>p. \<not> kept mk i p) ?m) @
      map (\<lambda>p. Buy (po_a p) i (close_at mk i (po_a p))) ns" by blast
  have "en_events ?e2 = en_events e1" by simp
  note ev = ns [unfolded this]
  have reported: "told p \<longleftrightarrow> (\<exists>q\<in>set (en_holdings e1). po_a q = po_a p \<and> \<not> kept mk i (mk_of q))" for p
    using ev unfolding told_def C(3) m L(4) by (auto simp: same filter_map comp_def image_iff)
  have told: "told p \<longleftrightarrow> \<not> kept mk i (mk_of p)" if "p \<in> set (en_holdings e1)" for p
    using reported [of p] that by_name by metis
  have told_e: "\<not> delisted p" if "told p" for p
    using that unfolding reported by (auto simp: h1 delisted_def)
  have stay: "stay = filter (\<lambda>p. kept mk i (mk_of p)) (en_holdings e1)" unfolding stay_def h1 filter_filter
    by (rule filter_cong) (auto simp: told h1)
  have sold: "sold = filter (\<lambda>p. \<not> kept mk i (mk_of p)) (en_holdings e1)" unfolding sold_def h1 filter_filter
    by (rule filter_cong) (use told told_e in \<open>auto simp: h1\<close>)
  have hs: "en_holdings s = map mk_of stay" unfolding s(3) m stay by (simp add: filter_map o_def)
  have ws: "total_worth mk i (en_holdings s) = total_worth mk i stay" unfolding hs by (simp add: total_worth_def o_def same)
  have "total_worth mk i (en_holdings ?e2) - total_worth mk i (en_holdings s) = S"
    using total_worth_split [of mk i "\<lambda>p. kept mk i (mk_of p)" "en_holdings e1"] by (simp add: ws S_def sold stay)
  from traded_worth [OF s(1), unfolded this]
  have S: "0 \<le> S" "val (en_turn_amt s) = D + S" "val (en_cash s) = val (en_cash e) + (1 - sell_fee) * (D + S)"
    using d by (simp_all add: algebra_simps)
  have B: "total_worth mk i (en_holdings ?e3) - total_worth mk i stay = bought" by (simp add: bought_def C(1))
  have f: "(total_worth mk i (en_holdings s) - total_worth mk i (en_holdings ?e3)) / (buy_fee + - 1) = (1 + 3 / 10000) * bought"
    unfolding ws B [symmetric] by (simp add: buy_fee_def field_simps)
  have "buy_fee + - 1 \<noteq> 0" by (simp add: buy_fee_def)
  from traded_worth [OF s(2) this, unfolded f]
  have T: "0 \<le> bought" "val (en_turn_amt ?e3) = D + S + (1 + 3 / 10000) * bought"
    "val (en_cash ?e3) = val (en_cash e) + (1 - sell_fee) * (D + S) - (1 + 3 / 10000) * bought"
    using S by simp_all
  have x3: "exact_state mk i ?e3" using s(2) by (simp add: costs_def)
  then have q: "en_cash e' = Fin (val (en_cash ?e3))" "en_turn_amt e' = Fin (val (en_turn_amt ?e3))"
    using C(2,4) by (auto simp: exact_state_def nonneg_def Fin_val)
  have "mset (gone @ sold @ stay) = mset (en_holdings e)"
    using mset_three_ways [of delisted "en_holdings e" "\<lambda>p. kept mk i (mk_of p)"] by (simp add: sold stay gone_def h1)
  moreover have "\<exists>new. grown (stay @ new) (en_holdings e') \<and> (\<forall>p\<in>set new. Buy (po_a p) i (close_at mk i (po_a p)) \<in> set (en_events e'))"
  proof (intro exI conjI)
    show "grown (stay @ hs) (en_holdings e')" using s(4) unfolding hs C(1)
      by (simp add: grown_def list_all2_append1 list_all2_map1 same)
    show "\<forall>p\<in>set hs. Buy (po_a p) i (close_at mk i (po_a p)) \<in> set (en_events e')" using s(5) unfolding C(3) .
  qed
  moreover have pv_e: "en_pv e' = Fin (worth mk i e - 13 / 10000 * D)"
    using C(5) trade_effect(4) [of exact_arith sorter mk i cands ?e2] w1 by (simp add: same_settings_def sell_fee_def)
  moreover have "en_pv_end e' = Fin (val (en_cash ?e3) + total_worth mk i (en_holdings ?e3))"
    using C(7) x3 exact_market_value [of mk i "en_holdings ?e3"] by (auto simp: exact_state_def total_worth_def elim!: nonneg_cases)
  moreover have "total_worth mk i (en_holdings e) = D + S + total_worth mk i stay"
    using total_worth_split [of mk i delisted "en_holdings e"] total_worth_split [of mk i "\<lambda>p. kept mk i (mk_of p)" "en_holdings e1"]
    by (simp add: D_def gone_def S_def sold stay flip: h1)
  ultimately show ?thesis using T q B by (simp add: sell_fee_def worth_def total_worth_def [symmetric] algebra_simps)
qed

lemma day_conserves_value_witness:
  "\<exists>e' v. step exact_arith sort_deficits sample_market 0 sample_cands sample_engine = Ok e' \<and> en_pv e' = Fin 110 \<and> en_pv_end e' = Fin v \<and> v \<le> 110"
proof -
  from sample_step obtain e' where e': "step exact_arith sort_deficits sample_market 0 sample_cands sample_engine = Ok e'" "en_pv e' = Fin 110" by blast
  have pre: "0 < en_hold_n sample_engine" "nonneg (en_cash sample_engine)" "list_all (pos_exact sample_market 0) (en_holdings sample_engine)"
    by (simp_all add: pos_exact_def)
  let ?told = "\<lambda>p. Sell (po_a p) 0 (close_at sample_market 0 (po_a p)) \<in> set (en_events e')"
  let ?W = "total_worth sample_market 0"
  let ?b = "?W (en_holdings e') - ?W (filter (\<lambda>p. \<not> has_flag (flags_at sample_market 0 (po_a p)) DELISTED \<and> \<not> ?told p) (en_holdings sample_engine))"
  have "0 \<le> ?b" "en_pv_end e' = Fin (val (en_pv e') - 13 / 10000 * ?W (filter ?told (en_holdings sample_engine)) - 3 / 10000 * ?b)"
    using day_conserves_value [OF sorted_deficits.desc_sort_axioms pre e'(1)] by blast+
  moreover have "0 \<le> ?W (filter ?told (en_holdings sample_engine))"
    by (rule total_worth_nonneg [OF pre(3)])
  ultimately show ?thesis using e' by auto
qed

end
