(* ===== verification/Metrics.thy ===== *)
theory Metrics
  imports Cross
begin

text \<open>
  The indicators of the reports (\<open>cpp/src/report/metrics.cpp\<close>): daily returns and drawdowns of a net value series,
  cumulated and rolling series, the absolute and relative indicators, the tables by period, the win rates, the
  correlation and the density estimate. Series are \<open>float\<close>s, the sums \<open>double\<close>s; a value that is not finite is
  skipped, or counts as a return of 0. \<open>pow\<close> and \<open>exp\<close> are the exact functions, rounded.
\<close>

definition TRADING_DAYS :: real where "TRADING_DAYS = 252"

datatype metric_error = EmptyNav | NavNotPositive | PeakNotPositive | FirstNotPositive | LengthsDiffer | BadWindow | BadDate
  | BadUnit | BadWeekDate date_error

section \<open>Means, sums and deviations\<close>

definition fin_vals :: "fval list \<Rightarrow> fval list" where
  "fin_vals x = filter is_finite x"

definition nan_mean :: "arith \<Rightarrow> fval list \<Rightarrow> fval" where
  "nan_mean ar x = (let xs = fin_vals x in
     if xs \<noteq> [] then narrow ar (fdiv (double ar) (fsum (double ar) xs) (double ar (real (length xs)))) else NaN)"

definition nan_sum :: "arith \<Rightarrow> fval list \<Rightarrow> fval" where
  "nan_sum ar x = narrow ar (fsum (double ar) (fin_vals x))"

definition nan_std :: "arith \<Rightarrow> fval list \<Rightarrow> fval" where
  "nan_std ar x = (let D = double ar; xs = fin_vals x; n = D (real (length xs)) in
     if xs = [] then NaN
     else let m = fdiv D (fsum D xs) n; var = fsub D (fdiv D (fsum D (map (\<lambda>v. fmul D v v) xs)) n) (fmul D m m)
       in narrow ar (fsqrt D (std_max (Fin 0) var)))"

section \<open>Series\<close>

definition daily_returns :: "arith \<Rightarrow> fval list \<Rightarrow> (metric_error, fval list) outcome" where
  "daily_returns ar nav =
     (if nav = [] then Fail EmptyNav
      else if list_ex (\<lambda>i. \<not> fless (Fin 0) (nav ! (i - 1))) [1..<length nav] then Fail NavNotPositive
      else Ok (map (\<lambda>i. if i = 0 then Fin 0
             else narrow ar (fsub (double ar) (fdiv (double ar) (nav ! i) (nav ! (i - 1))) (Fin 1))) [0..<length nav]))"

fun drawdown_loop :: "arith \<Rightarrow> fval \<Rightarrow> fval list \<Rightarrow> (metric_error, fval list) outcome" where
  "drawdown_loop ar peak [] = Ok []"
| "drawdown_loop ar peak (v # nav) =
     (let peak = std_max peak v in
      if \<not> fless (Fin 0) peak then Fail PeakNotPositive
      else bind_ok (drawdown_loop ar peak nav) (\<lambda>out. Ok (narrow ar (fdiv (double ar) (fsub (double ar) v peak) peak) # out)))"

definition drawdown_curve :: "arith \<Rightarrow> fval list \<Rightarrow> (metric_error, fval list) outcome" where
  "drawdown_curve ar nav = drawdown_loop ar NInf nav"

text \<open>\<open>acc *= 1.0 + (fin(r) ? r : 0.0)\<close>.\<close>

definition grow :: "arith \<Rightarrow> fval \<Rightarrow> fval \<Rightarrow> fval" where
  "grow ar acc r = fmul (double ar) acc (fadd (double ar) (Fin 1) (if is_finite r then r else Fin 0))"

fun cum_nav_loop :: "arith \<Rightarrow> fval \<Rightarrow> fval list \<Rightarrow> fval list" where
  "cum_nav_loop ar acc [] = []"
| "cum_nav_loop ar acc (r # ret) = (let acc = grow ar acc r in narrow ar acc # cum_nav_loop ar acc ret)"

definition cum_nav :: "arith \<Rightarrow> fval list \<Rightarrow> fval list" where
  "cum_nav ar ret = cum_nav_loop ar (Fin 1) ret"

fun cumsum_loop :: "arith \<Rightarrow> fval \<Rightarrow> fval list \<Rightarrow> fval list" where
  "cumsum_loop ar acc [] = []"
| "cumsum_loop ar acc (x # xs) =
     (let acc = (if is_finite x then fadd (double ar) acc x else acc) in narrow ar acc # cumsum_loop ar acc xs)"

definition nan_cumsum :: "arith \<Rightarrow> fval list \<Rightarrow> fval list" where
  "nan_cumsum ar x = cumsum_loop ar (Fin 0) x"

text \<open>The rolling mean keeps the sum and the number of finite values of the window.\<close>

definition roll_in :: "arith \<Rightarrow> fval list \<Rightarrow> nat \<Rightarrow> fval \<times> int \<Rightarrow> nat \<Rightarrow> fval \<times> int" where
  "roll_in ar x w = (\<lambda>(sm, cnt) i.
     let (sm, cnt) = (if is_finite (x ! i) then (fadd (double ar) sm (x ! i), cnt + 1) else (sm, cnt)) in
     if i \<ge> w \<and> is_finite (x ! (i - w)) then (fsub (double ar) sm (x ! (i - w)), cnt - 1) else (sm, cnt))"

definition rolling_mean :: "arith \<Rightarrow> fval list \<Rightarrow> int \<Rightarrow> (metric_error, fval list) outcome" where
  "rolling_mean ar x w =
     (if \<not> w > 0 then Fail BadWindow
      else let min_periods = max 1 (w div 4) in
        Ok (map (\<lambda>i. let (sm, cnt) = foldl (roll_in ar x (nat w)) (Fin 0, 0) [0..<Suc i] in
               if cnt \<ge> min_periods then narrow ar (fdiv (double ar) sm (double ar (of_int cnt))) else NaN) [0..<length x]))"

section \<open>Absolute indicators\<close>

text \<open>\<open>std::pow\<close> of finite arguments.\<close>

definition fpow :: "(real \<Rightarrow> fval) \<Rightarrow> fval \<Rightarrow> fval \<Rightarrow> fval" where
  "fpow rnd x y = (case (x, y) of (Fin a, Fin b) \<Rightarrow>
       if a > 0 then rnd (a powr b)
       else if a = 0 then (if b > 0 then Fin 0 else if b = 0 then Fin 1 else PInf)
       else if b = of_int \<lfloor>b\<rfloor> then rnd (power_int a \<lfloor>b\<rfloor>) else NaN
     | _ \<Rightarrow> NaN)"

definition sqrt_days :: "arith \<Rightarrow> fval" where
  "sqrt_days ar = fsqrt (double ar) (Fin TRADING_DAYS)"

record nav_stats =
  ns_n_days :: nat
  ns_ann_return :: fval
  ns_ann_vol :: fval
  ns_sharpe :: fval
  ns_max_drawdown :: fval
  ns_longest_no_new_high :: nat

definition annualised :: "arith \<Rightarrow> fval \<Rightarrow> fval \<Rightarrow> fval" where
  "annualised ar mean sd =
     (if is_finite sd \<and> \<not> feq sd (Fin 0) then narrow ar (fmul (double ar) (fdiv (single ar) mean sd) (sqrt_days ar)) else NaN)"

text \<open>\<open>std::min_element\<close> of a list that is not empty.\<close>

definition min_element :: "fval list \<Rightarrow> fval" where
  "min_element xs = foldl (\<lambda>m x. if fless x m then x else m) (hd xs) (tl xs)"

fun no_new_high :: "fval \<Rightarrow> nat \<Rightarrow> nat \<Rightarrow> fval list \<Rightarrow> nat" where
  "no_new_high peak cur best [] = best"
| "no_new_high peak cur best (v # nav) =
     (if fless peak v then no_new_high v 0 best nav else no_new_high peak (Suc cur) (max best (Suc cur)) nav)"

definition nav_stats_of :: "arith \<Rightarrow> fval list \<Rightarrow> (metric_error, nav_stats) outcome" where
  "nav_stats_of ar nav =
     (let D = double ar; n = length nav in
      if nav = [] then Ok \<lparr>ns_n_days = 0, ns_ann_return = Fin 0, ns_ann_vol = Fin 0, ns_sharpe = Fin 0, ns_max_drawdown = Fin 0,
          ns_longest_no_new_high = 0\<rparr>
      else if \<not> fless (Fin 0) (hd nav) then Fail FirstNotPositive
      else bind_ok (daily_returns ar nav) (\<lambda>ret. bind_ok (drawdown_curve ar nav) (\<lambda>dd.
        let years = fdiv D (D (real n)) (Fin TRADING_DAYS); growth = fdiv D (last nav) (hd nav); sd = nan_std ar ret in
        Ok \<lparr>ns_n_days = n,
            ns_ann_return = (if n < 2 then NaN else narrow ar (fsub D (fpow D growth (fdiv D (Fin 1) years)) (Fin 1))),
            ns_ann_vol = (if length ret < 2 then NaN else narrow ar (fmul D sd (sqrt_days ar))),
            ns_sharpe = annualised ar (nan_mean ar ret) sd,
            ns_max_drawdown = min_element dd,
            ns_longest_no_new_high = no_new_high NInf 0 0 nav\<rparr>)))"

definition cagr_from_nav :: "arith \<Rightarrow> fval list \<Rightarrow> fval" where
  "cagr_from_nav ar nav = (let D = double ar in
     if nav = [] \<or> \<not> fless (Fin 0) (last nav) then NaN
     else narrow ar (fsub D (fpow D (last nav) (fdiv D (Fin TRADING_DAYS) (D (real (length nav))))) (Fin 1)))"

section \<open>Relative indicators\<close>

record rel_stats =
  rs_info_ratio :: fval
  rs_beta :: fval
  rs_alpha :: fval
  rs_tracking_error :: fval

text \<open>The pairs in which both values are finite, and the sums over them.\<close>

definition both_finite :: "fval list \<Rightarrow> fval list \<Rightarrow> (fval \<times> fval) list" where
  "both_finite xs ys = filter (\<lambda>(x, y). is_finite x \<and> is_finite y) (zip xs ys)"

definition diffs :: "arith \<Rightarrow> fval list \<Rightarrow> fval list \<Rightarrow> fval list" where
  "diffs ar ret bench = map2 (\<lambda>r b. if is_finite r \<and> is_finite b then fsub (single ar) r b else NaN) ret bench"

definition beta_alpha :: "arith \<Rightarrow> (fval \<times> fval) list \<Rightarrow> fval \<times> fval" where
  "beta_alpha ar ps =
     (let D = double ar; n = D (real (length ps));
          mx = fdiv D (fsum D (map fst ps)) n; my = fdiv D (fsum D (map snd ps)) n;
          var_x = fsub D (fdiv D (fsum D (map (\<lambda>(x, y). fmul D x x) ps)) n) (fmul D mx mx);
          beta = fdiv D (fsub D (fdiv D (fsum D (map (\<lambda>(x, y). fmul D x y) ps)) n) (fmul D mx my)) var_x
      in if length ps < 5 \<or> fle var_x (Fin 0) then (NaN, NaN)
         else (narrow ar beta, narrow ar (fmul D (fsub D my (fmul D beta mx)) (Fin TRADING_DAYS))))"

definition rel_stats_of :: "arith \<Rightarrow> fval list \<Rightarrow> fval list \<Rightarrow> (metric_error, rel_stats) outcome" where
  "rel_stats_of ar ret bench =
     (if length ret \<noteq> length bench then Fail LengthsDiffer
      else let df = diffs ar ret bench; sd = nan_std ar df; (beta, alpha) = beta_alpha ar (both_finite bench ret) in
        Ok \<lparr>rs_info_ratio = annualised ar (nan_mean ar df) sd, rs_beta = beta, rs_alpha = alpha,
            rs_tracking_error = (if is_finite sd then narrow ar (fmul (double ar) sd (sqrt_days ar)) else NaN)\<rparr>)"

definition pearson :: "arith \<Rightarrow> fval list \<Rightarrow> fval list \<Rightarrow> (metric_error, fval) outcome" where
  "pearson ar xs ys =
     (if length xs \<noteq> length ys then Fail LengthsDiffer
      else let D = double ar; ps = both_finite xs ys; n = D (real (length ps));
               mx = fdiv D (fsum D (map fst ps)) n; my = fdiv D (fsum D (map snd ps)) n;
               cov = fsub D (fdiv D (fsum D (map (\<lambda>(x, y). fmul D x y) ps)) n) (fmul D mx my);
               vx = fsub D (fdiv D (fsum D (map (\<lambda>(x, y). fmul D x x) ps)) n) (fmul D mx mx);
               vy = fsub D (fdiv D (fsum D (map (\<lambda>(x, y). fmul D y y) ps)) n) (fmul D my my)
        in Ok (if length ps < 5 \<or> fle vx (Fin 0) \<or> fle vy (Fin 0) then NaN else narrow ar (fdiv D cov (fsqrt D (fmul D vx vy)))))"

section \<open>Periods\<close>

record bucket =
  bu_key :: string
  bu_lo :: nat
  bu_hi :: nat

definition add_to_bucket :: "bucket list \<Rightarrow> nat \<times> string \<Rightarrow> bucket list" where
  "add_to_bucket out = (\<lambda>(i, k).
     if out = [] \<or> bu_key (last out) \<noteq> k then out @ [\<lparr>bu_key = k, bu_lo = i, bu_hi = Suc i\<rparr>]
     else butlast out @ [(last out)\<lparr>bu_hi := Suc i\<rparr>])"

definition bucketize :: "string list \<Rightarrow> bucket list" where
  "bucketize keys = foldl add_to_bucket [] (zip [0..<length keys] keys)"

definition span_of :: "fval list \<Rightarrow> nat \<Rightarrow> nat \<Rightarrow> fval list" where
  "span_of x lo hi = take (hi - lo) (drop lo x)"

definition compound :: "arith \<Rightarrow> fval list \<Rightarrow> nat \<Rightarrow> nat \<Rightarrow> fval" where
  "compound ar ret lo hi = narrow ar (fsub (double ar) (foldl (grow ar) (Fin 1) (span_of ret lo hi)) (Fin 1))"

definition dd_step :: "arith \<Rightarrow> fval \<times> fval \<times> fval \<Rightarrow> fval \<Rightarrow> fval \<times> fval \<times> fval" where
  "dd_step ar = (\<lambda>(nav, peak, worst) r.
     let nav = grow ar nav r; peak = std_max peak nav in
     (nav, peak, std_min worst (fdiv (double ar) (fsub (double ar) nav peak) peak)))"

definition span_max_dd :: "arith \<Rightarrow> fval list \<Rightarrow> nat \<Rightarrow> nat \<Rightarrow> fval" where
  "span_max_dd ar ret lo hi =
     (case foldl (dd_step ar) (Fin 1, Fin 1, Fin 0) (span_of ret lo hi) of (nav, peak, worst) \<Rightarrow> narrow ar worst)"

definition iso_weekday :: "sys_days \<Rightarrow> int" where
  "iso_weekday z = (z + 3) mod 7 + 1"

definition week_key :: "string \<Rightarrow> (metric_error, string) outcome" where
  "week_key d = (case parse_yyyymmdd d of Fail e \<Rightarrow> Fail (BadWeekDate e)
     | Ok z \<Rightarrow> Ok (fmt_yyyymmdd (z + (7 - iso_weekday z))))"

record period_stats =
  pd_period :: string
  pd_strat_return :: fval
  pd_bench_return :: fval
  pd_strat_max_dd :: fval
  pd_bench_max_dd :: fval
  pd_tracking_error :: fval
  pd_info_ratio :: fval
  pd_ann_vol :: fval
  pd_sharpe :: fval

definition period_key :: "bool \<Rightarrow> string \<Rightarrow> (metric_error, string) outcome" where
  "period_key by_year d = (if length d \<noteq> 8 then Fail BadDate
     else Ok (if by_year then substr d 0 4 else substr d 0 4 @ ''-'' @ substr d 4 2))"

definition period_row :: "arith \<Rightarrow> fval list \<Rightarrow> fval list \<Rightarrow> bucket \<Rightarrow> (metric_error, period_stats) outcome" where
  "period_row ar ret bench b =
     (let rs = span_of ret (bu_lo b) (bu_hi b); bs = span_of bench (bu_lo b) (bu_hi b); sd = nan_std ar rs in
      bind_ok (rel_stats_of ar rs bs) (\<lambda>rel.
        Ok \<lparr>pd_period = bu_key b, pd_strat_return = compound ar ret (bu_lo b) (bu_hi b),
            pd_bench_return = compound ar bench (bu_lo b) (bu_hi b),
            pd_strat_max_dd = span_max_dd ar ret (bu_lo b) (bu_hi b), pd_bench_max_dd = span_max_dd ar bench (bu_lo b) (bu_hi b),
            pd_tracking_error = rs_tracking_error rel, pd_info_ratio = rs_info_ratio rel,
            pd_ann_vol = (if length rs < 2 \<or> \<not> is_finite sd then NaN else narrow ar (fmul (double ar) sd (sqrt_days ar))),
            pd_sharpe = annualised ar (nan_mean ar rs) sd\<rparr>))"

definition period_stats_of :: "arith \<Rightarrow> string list \<Rightarrow> fval list \<Rightarrow> fval list \<Rightarrow> bool \<Rightarrow> (metric_error, period_stats list) outcome" where
  "period_stats_of ar dates ret bench by_year =
     (if \<not> (length dates = length ret \<and> length dates = length bench) then Fail LengthsDiffer
      else bind_ok (map_ok (period_key by_year) dates) (\<lambda>keys. map_ok (period_row ar ret bench) (bucketize keys)))"

definition win_rate :: "arith \<Rightarrow> string list \<Rightarrow> fval list \<Rightarrow> int \<Rightarrow> (metric_error, fval) outcome" where
  "win_rate ar dates ret unit =
     (let share = (\<lambda>win n. fdiv (single ar) (single ar (real win)) (single ar (real n))) in
      if length dates \<noteq> length ret then Fail LengthsDiffer
      else if \<not> (0 \<le> unit \<and> unit \<le> 2) then Fail BadUnit
      else if dates = [] then Ok NaN
      else if unit = 0 then Ok (share (length (filter (\<lambda>r. is_finite r \<and> fless (Fin 0) r) ret)) (length ret))
      else bind_ok (if unit = 1 then map_ok week_key dates else Ok (map (\<lambda>d. substr d 0 6) dates)) (\<lambda>keys.
        let bs = bucketize keys in
        Ok (share (length (filter (\<lambda>b. fless (Fin 0) (compound ar ret (bu_lo b) (bu_hi b))) bs)) (length bs))))"

section \<open>Density\<close>

definition gaussian_kde :: "arith \<Rightarrow> fval list \<Rightarrow> fval list \<Rightarrow> fval list" where
  "gaussian_kde ar samples grid =
     (let D = double ar; xs = fin_vals samples; n = D (real (length xs)); none = map (\<lambda>g. NaN) grid in
      if length xs < 2 then none
      else let mean = fdiv D (fsum D xs) n; var = fsub D (fdiv D (fsum D (map (\<lambda>v. fmul D v v) xs)) n) (fmul D mean mean) in
        if \<not> fless (Fin 0) var then none
        else let h = fmul D (fsqrt D var) (fpow D n (D (- 1 / 5))) in
          if \<not> fless (Fin 0) h then none
          else let norm = fdiv D (Fin 1) (fmul D (fmul D n h) (fsqrt D (fmul D (Fin 2) (D pi)))) in
            map (\<lambda>x. let acc = fsum D (map (\<lambda>xi. let z = fdiv D (fsub D x xi) h in
                     fapply D exp (fmul D (fmul D (Fin (- 1 / 2)) z) z)) xs)
                   in narrow ar (fmul D acc norm)) grid)"

section \<open>Drawdowns\<close>

text \<open>Net values as the engine writes them: positive numbers that a \<open>double\<close> holds.\<close>

definition nav_ok :: "arith \<Rightarrow> fval \<Rightarrow> bool" where
  "nav_ok ar v \<longleftrightarrow> is_finite v \<and> 0 < val v \<and> double ar (val v) = v"

definition loss :: "fval \<Rightarrow> bool" where
  "loss v \<longleftrightarrow> is_finite v \<and> - 1 \<le> val v \<and> val v \<le> 0"

lemma rnd_loss: "rounding rnd \<Longrightarrow> - 1 \<le> x \<Longrightarrow> x \<le> 0 \<Longrightarrow> loss (rnd x)"
  using rounding.rnd_mono [of rnd "- 1" x] rounding.rnd_mono [of rnd x 0] rounding.rnd_int [of rnd "- 1"] rounding.rnd_0 [of rnd]
    fle_between [of "- 1" "rnd x" 0] by (auto simp: loss_def)

lemma drawdown_value:
  assumes "arith_ok ar" "format_rounding (double ar)" "0 < v" "v \<le> p" "double ar p = Fin p"
  shows "loss (narrow ar (fdiv (double ar) (fsub (double ar) (Fin v) (Fin p)) (Fin p)))"
    "v = p \<Longrightarrow> narrow ar (fdiv (double ar) (fsub (double ar) (Fin v) (Fin p)) (Fin p)) = Fin 0"
proof -
  have R: "rounding (double ar)" "rounding (single ar)" using assms(1) by (simp_all add: arith_ok_def)
  have "fle (double ar (- p)) (double ar (v - p))" "fle (double ar (v - p)) (double ar 0)"
    using assms(3,4) by (auto intro!: rounding.rnd_mono [OF R(1)])
  then obtain a where a: "double ar (v - p) = Fin a" "- p \<le> a" "a \<le> 0"
    using fle_between [of "- p" "double ar (v - p)" 0] assms(5) by (auto simp: format_rounding.rnd_minus [OF assms(2)] rounding.rnd_0 [OF R(1)])
  have q: "- 1 \<le> a / p" "a / p \<le> 0" using a(2,3) assms(3,4) by (simp_all add: le_divide_eq divide_le_0_iff)
  then obtain b where b: "double ar (a / p) = Fin b" "- 1 \<le> b" "b \<le> 0"
    using rnd_loss [OF R(1), of "a / p"] by (auto simp: loss_def is_finite_iff)
  have s: "fdiv (double ar) (fsub (double ar) (Fin v) (Fin p)) (Fin p) = Fin b" using a(1) b(1) assms(3,4) by (simp add: fsub_def)
  show "loss (narrow ar (fdiv (double ar) (fsub (double ar) (Fin v) (Fin p)) (Fin p)))"
    using rnd_loss [OF R(2) b(2,3)] by (simp add: s narrow_def)
  show "narrow ar (fdiv (double ar) (fsub (double ar) (Fin v) (Fin p)) (Fin p)) = Fin 0" if "v = p"
    using that a(1) b(1) s by (simp add: rounding.rnd_0 [OF R(1)] rounding.rnd_0 [OF R(2)] narrow_def)
qed

lemma std_max_Fin [simp]: "std_max (Fin a) (Fin b) = Fin (max a b)" "std_max NInf (Fin b) = Fin b"
  by (auto simp: std_max_def max_def)

lemma drawdown_loop_ok:
  assumes "arith_ok ar" "format_rounding (double ar)" "list_all (nav_ok ar) nav"
    "peak = NInf \<or> nav_ok ar peak"
  shows "\<exists>dd. drawdown_loop ar peak nav = Ok dd \<and> length dd = length nav \<and>
     (\<forall>i<length nav. loss (dd ! i) \<and>
       ((\<forall>j\<le>i. val (nav ! j) \<le> val (nav ! i)) \<and> (peak = NInf \<or> val peak \<le> val (nav ! i)) \<longrightarrow> dd ! i = Fin 0))"
  using assms(3,4)
proof (induction nav arbitrary: peak)
  case (Cons v nav)
  obtain r where r: "v = Fin r" "0 < r" "double ar r = Fin r" using Cons.prems(1) by (auto simp: nav_ok_def is_finite_iff)
  obtain p where p: "std_max peak v = Fin p" "r \<le> p" "0 < p" "double ar p = Fin p" "peak = NInf \<or> val peak \<le> p" "(peak = NInf \<or> val peak \<le> r) \<longrightarrow> p = r"
    using Cons.prems(2) r by (auto simp: nav_ok_def is_finite_iff max_def split: if_splits)
  have "nav_ok ar (std_max peak v)" using p by (simp add: nav_ok_def)
  with Cons.IH [of "std_max peak v"] Cons.prems(1) p(1) obtain dd where
    dd: "drawdown_loop ar (Fin p) nav = Ok dd" "length dd = length nav"
    "\<forall>i<length nav. loss (dd ! i) \<and> ((\<forall>j\<le>i. val (nav ! j) \<le> val (nav ! i)) \<and> p \<le> val (nav ! i) \<longrightarrow> dd ! i = Fin 0)" by auto
  let ?x = "narrow ar (fdiv (double ar) (fsub (double ar) (Fin r) (Fin p)) (Fin p))"
  note x = drawdown_value [OF assms(1,2) r(2) p(2,4)]
  have "loss ((?x # dd) ! i) \<and>
      ((\<forall>j\<le>i. val ((v # nav) ! j) \<le> val ((v # nav) ! i)) \<and> (peak = NInf \<or> val peak \<le> val ((v # nav) ! i)) \<longrightarrow> (?x # dd) ! i = Fin 0)"
    if "i < length (v # nav)" for i
  proof (cases i)
    case 0
    with x p(6) r(1) show ?thesis by auto
  next
    case (Suc k)
    have "dd ! k = Fin 0" if m: "\<forall>j\<le>i. val ((v # nav) ! j) \<le> val (nav ! k)" "peak = NInf \<or> val peak \<le> val (nav ! k)"
    proof -
      have "\<forall>j\<le>k. val (nav ! j) \<le> val (nav ! k)" using m(1) Suc by (metis Suc_le_mono nth_Cons_Suc)
      moreover have "r \<le> val (nav ! k)" using m(1) r(1) by (metis le0 nth_Cons_0 val_Fin)
      then have "p \<le> val (nav ! k)" using m(2) p(1) r(1) Cons.prems(2) by (auto simp: nav_ok_def is_finite_iff)
      ultimately show ?thesis using dd(3) Suc that \<open>i < length (v # nav)\<close> by simp
    qed
    with dd(3) Suc that show ?thesis by simp
  qed
  then show ?case using dd(1,2) p(1,3) r(1) by (intro exI [of _ "?x # dd"]) (simp add: Let_def)
qed simp

section \<open>Growth\<close>

text \<open>In exact arithmetic a series of returns multiplies up.\<close>

definition factor_of :: "fval \<Rightarrow> real" where
  "factor_of r = 1 + (if is_finite r then val r else 0)"

lemma grow_exact: "grow exact_arith (Fin a) r = Fin (a * factor_of r)"
  by (cases r) (simp_all add: grow_def factor_of_def)

lemma foldl_grow: "foldl (grow exact_arith) (Fin a) ret = Fin (a * (\<Prod>r\<leftarrow>ret. factor_of r))"
  by (induction ret arbitrary: a) (simp_all add: grow_exact)

lemma cum_nav_loop_exact:
  "i < length ret \<Longrightarrow> cum_nav_loop exact_arith (Fin a) ret ! i = Fin (a * (\<Prod>r\<leftarrow>take (Suc i) ret. factor_of r))"
proof (induction ret arbitrary: a i)
  case (Cons r ret)
  then show ?case by (cases i) (simp_all add: Let_def grow_exact narrow_def)
qed simp

lemma returns_telescope:
  assumes "daily_returns exact_arith nav = Ok ret" "list_all is_finite nav" "i < length nav"
  shows "(\<Prod>r\<leftarrow>take (Suc i) ret. factor_of r) * val (nav ! 0) = val (nav ! i)"
  using assms(3)
proof (induction i)
  case 0
  from assms(1) have "ret = map (\<lambda>i. if i = 0 then Fin 0 else narrow exact_arith (fsub Fin (fdiv Fin (nav ! i) (nav ! (i - 1))) (Fin 1))) [0..<length nav]"
    by (auto simp: daily_returns_def split: if_splits)
  with 0 have "take (Suc 0) ret = [Fin 0]" by (simp add: take_Suc_conv_app_nth)
  then show ?case by (simp add: factor_of_def)
next
  case (Suc i)
  let ?f = "\<lambda>i. if i = 0 then Fin 0 else narrow exact_arith (fsub Fin (fdiv Fin (nav ! i) (nav ! (i - 1))) (Fin 1))"
  from assms(1) have ret: "ret = map ?f [0..<length nav]" and pos: "\<forall>i\<in>{1..<length nav}. fless (Fin 0) (nav ! (i - 1))"
    by (auto simp: daily_returns_def list_ex_iff split: if_splits)
  have "is_finite (nav ! i)" "fless (Fin 0) (nav ! i)" using Suc.prems assms(2) bspec [OF pos, of "Suc i"] by (simp_all add: list_all_length)
  then obtain x where x: "nav ! i = Fin x" "0 < x" by (auto simp: is_finite_iff)
  obtain y where y: "nav ! Suc i = Fin y" using Suc.prems assms(2) by (auto simp: list_all_length is_finite_iff)
  have t: "take (Suc (Suc i)) ret = take (Suc i) ret @ [Fin (y / x - 1)]"
    using Suc.prems x y by (simp add: ret take_Suc_conv_app_nth [of "Suc i"] fsub_def narrow_def)
  have "(\<Prod>r\<leftarrow>take (Suc (Suc i)) ret. factor_of r) * val (nav ! 0) = (\<Prod>r\<leftarrow>take (Suc i) ret. factor_of r) * val (nav ! 0) * (y / x)"
    unfolding t by (simp add: factor_of_def)
  also have "\<dots> = y" using Suc.IH Suc.prems x by simp
  finally show ?case using y by simp
qed

section \<open>Buckets\<close>

text \<open>The buckets of a list of keys are its runs of equal keys.\<close>

definition buckets_ok :: "string list \<Rightarrow> nat \<Rightarrow> bucket list \<Rightarrow> bool" where
  "buckets_ok keys n bs \<longleftrightarrow> concat (map (\<lambda>b. [bu_lo b..<bu_hi b]) bs) = [0..<n] \<and>
     (\<forall>b\<in>set bs. bu_lo b < bu_hi b \<and> (\<forall>i\<in>{bu_lo b..<bu_hi b}. keys ! i = bu_key b)) \<and>
     (\<forall>j. Suc j < length bs \<longrightarrow> bu_key (bs ! j) \<noteq> bu_key (bs ! Suc j))"

lemma upt_extend: "lo < hi \<Longrightarrow> [lo..<Suc hi] = [lo..<hi] @ [hi]"
  by simp

lemma concat_last_hi:
  assumes "concat (map (\<lambda>b. [bu_lo b..<bu_hi b]) (bs @ [b])) = [0..<n]" "bu_lo b < bu_hi b"
  shows "bu_hi b = n"
proof -
  from assms(2) obtain h where h: "bu_hi b = Suc h" by (cases "bu_hi b") auto
  have "last (concat (map (\<lambda>b. [bu_lo b..<bu_hi b]) (bs @ [b]))) = h" using assms(2) h by simp
  moreover have "n \<noteq> 0"
  proof
    assume "n = 0"
    then have "[bu_lo b..<bu_hi b] = []" using assms(1) by simp
    with assms(2) show False by simp
  qed
  ultimately show ?thesis using assms(1) h by (cases n) simp_all
qed

lemma add_to_bucket_ok:
  assumes "buckets_ok keys n out" "n < length keys"
  shows "buckets_ok keys (Suc n) (add_to_bucket out (n, keys ! n))"
proof (cases "out = [] \<or> bu_key (last out) \<noteq> keys ! n")
  case True
  have "bu_key (bs ! j) \<noteq> bu_key (bs ! Suc j)" if "bs = out @ [\<lparr>bu_key = keys ! n, bu_lo = n, bu_hi = Suc n\<rparr>]" "Suc j < length bs" for bs j
  proof (cases "Suc j < length out")
    case False
    then have "j = length out - 1" "out \<noteq> []" using that by auto
    with that True show ?thesis by (simp add: nth_append last_conv_nth)
  qed (use that assms(1) in \<open>simp add: buckets_ok_def nth_append\<close>)
  with True assms(1) show ?thesis by (auto simp: buckets_ok_def add_to_bucket_def)
next
  case False
  then obtain bs b where out: "out = bs @ [b]" by (cases out rule: rev_cases) auto
  with False have key: "bu_key b = keys ! n" by simp
  have b: "bu_lo b < bu_hi b" using assms(1) out by (simp add: buckets_ok_def)
  have hi: "bu_hi b = n" by (rule concat_last_hi [of bs, OF _ b]) (use assms(1) out in \<open>simp add: buckets_ok_def\<close>)
  let ?b = "b\<lparr>bu_hi := Suc n\<rparr>"
  have r: "add_to_bucket out (n, keys ! n) = bs @ [?b]" using False out by (simp add: add_to_bucket_def)
  have "bu_key ((bs @ [?b]) ! j) \<noteq> bu_key ((bs @ [?b]) ! Suc j)" if "Suc j < length (bs @ [?b])" for j
    using assms(1) that unfolding buckets_ok_def out by (cases "Suc j < length bs") (force simp: nth_append split: if_splits)+
  moreover have "concat (map (\<lambda>b. [bu_lo b..<bu_hi b]) (bs @ [?b])) = [0..<Suc n]"
    using assms(1) b hi out by (auto simp: buckets_ok_def)
  moreover have "\<forall>c\<in>set (bs @ [?b]). bu_lo c < bu_hi c \<and> (\<forall>i\<in>{bu_lo c..<bu_hi c}. keys ! i = bu_key c)"
    using assms(1) b hi key out by (auto simp: buckets_ok_def less_Suc_eq)
  ultimately show ?thesis unfolding r by (simp add: buckets_ok_def)
qed

lemma bucketize_ok: "buckets_ok keys (length keys) (bucketize keys)"
proof -
  have "buckets_ok keys n (foldl add_to_bucket [] (zip [0..<n] keys))" if "n \<le> length keys" for n
    using that
  proof (induction n)
    case (Suc n)
    have "zip [0..<Suc n] keys = zip [0..<n] (take n keys) @ [(n, keys ! n)]"
    proof -
      have n: "n < length keys" using Suc.prems by simp
      have "zip [0..<Suc n] keys = zip ([0..<n] @ [n]) (take n keys @ keys ! n # drop (Suc n) keys)" using n by (simp only: id_take_nth_drop [symmetric]) simp
      also have "\<dots> = zip [0..<n] (take n keys) @ [(n, keys ! n)]" using n by (subst zip_append) simp_all
      finally show ?thesis .
    qed
    moreover have "zip [0..<n] (take n keys) = zip [0..<n] keys" using take_zip [of n "[0..<n]" keys] by simp
    ultimately show ?case using Suc add_to_bucket_ok [of keys n "foldl add_to_bucket [] (zip [0..<n] keys)"] by simp
  qed (simp add: buckets_ok_def)
  then show ?thesis by (simp add: bucketize_def)
qed

lemma span_concat:
  assumes "concat (map (\<lambda>b. [bu_lo b..<bu_hi b]) bs) = [0..<length xs]"
  shows "concat (map (\<lambda>b. span_of xs (bu_lo b) (bu_hi b)) bs) = xs"
proof -
  have s: "span_of xs (bu_lo b) (bu_hi b) = map ((!) xs) [bu_lo b..<bu_hi b]" if "b \<in> set bs" for b
  proof -
    have "set [bu_lo b..<bu_hi b] \<subseteq> set [0..<length xs]" unfolding assms [symmetric] using that by auto
    then have "bu_hi b \<le> length xs \<or> bu_hi b \<le> bu_lo b" by (cases "bu_lo b < bu_hi b") (auto simp: subset_iff dest: spec [of _ "bu_hi b - 1"])
    then show ?thesis by (intro nth_equalityI) (auto simp: span_of_def)
  qed
  have "concat (map (\<lambda>b. span_of xs (bu_lo b) (bu_hi b)) bs) = concat (map (\<lambda>b. map ((!) xs) [bu_lo b..<bu_hi b]) bs)"
    using s by (metis (mono_tags, lifting) map_eq_conv)
  also have "\<dots> = map ((!) xs) [0..<length xs]" unfolding assms [symmetric] by (simp add: map_concat o_def)
  finally show ?thesis by (simp add: map_nth)
qed

text \<open>In exact arithmetic the returns of the buckets multiply up to the return of the whole.\<close>

lemma prod_spans:
  assumes "buckets_ok keys (length ret) bs"
  shows "(\<Prod>b\<leftarrow>bs. 1 + val (compound exact_arith ret (bu_lo b) (bu_hi b))) = (\<Prod>r\<leftarrow>ret. factor_of r)"
proof -
  have c: "1 + val (compound exact_arith ret lo hi) = (\<Prod>r\<leftarrow>span_of ret lo hi. factor_of r)" for lo hi
    by (simp add: compound_def foldl_grow fsub_def narrow_def)
  have "(\<Prod>b\<leftarrow>bs. (\<Prod>r\<leftarrow>span_of ret (bu_lo b) (bu_hi b). factor_of r)) = (\<Prod>r\<leftarrow>concat (map (\<lambda>b. span_of ret (bu_lo b) (bu_hi b)) bs). factor_of r)"
    by (induction bs) simp_all
  also have "\<dots> = (\<Prod>r\<leftarrow>ret. factor_of r)" using assms by (simp add: buckets_ok_def span_concat)
  finally show ?thesis by (simp add: c)
qed

section \<open>The window of the rolling mean\<close>

definition window_vals :: "fval list \<Rightarrow> nat \<Rightarrow> nat \<Rightarrow> fval list" where
  "window_vals x w i = fin_vals (map ((!) x) [Suc i - w..<Suc i])"

lemma fsum_exact: "list_all is_finite xs \<Longrightarrow> fsum Fin xs = Fin (\<Sum>v\<leftarrow>xs. val v)"
proof -
  have "list_all is_finite xs \<Longrightarrow> foldl (fadd Fin) (Fin a) xs = Fin (a + (\<Sum>v\<leftarrow>xs. val v))" for a
    by (induction xs arbitrary: a) (auto simp: is_finite_iff)
  from this [of 0] show "list_all is_finite xs \<Longrightarrow> fsum Fin xs = Fin (\<Sum>v\<leftarrow>xs. val v)" by (simp add: fsum_def)
qed

lemma fin_vals_finite [simp]: "list_all is_finite (fin_vals x)"
  by (simp add: fin_vals_def list_all_iff)

lemma roll_window:
  assumes "0 < w"
  shows "foldl (roll_in exact_arith x w) (Fin 0, 0) [0..<Suc i] =
    (Fin (\<Sum>v\<leftarrow>window_vals x w i. val v), int (length (window_vals x w i)))"
proof (induction i)
  case 0
  show ?case using assms by (auto simp: roll_in_def window_vals_def fin_vals_def is_finite_iff Let_def)
next
  case (Suc i)
  let ?l = "Suc i - w"
  have in_new: "window_vals x w (Suc i) = fin_vals (map ((!) x) [Suc ?l..<Suc i]) @ fin_vals [x ! Suc i]" if "w \<le> Suc i"
  proof -
    have "[Suc (Suc i) - w..<Suc (Suc i)] = [Suc ?l..<Suc i] @ [Suc i]" using that assms by (simp add: Suc_diff_le)
    then show ?thesis by (simp add: window_vals_def fin_vals_def)
  qed
  have in_old: "window_vals x w i = fin_vals [x ! ?l] @ fin_vals (map ((!) x) [Suc ?l..<Suc i])" if "w \<le> Suc i"
  proof -
    have "[?l..<Suc i] = ?l # [Suc ?l..<Suc i]" using assms by (intro upt_conv_Cons) simp
    then show ?thesis by (simp add: window_vals_def fin_vals_def)
  qed
  have short: "window_vals x w (Suc i) = window_vals x w i @ fin_vals [x ! Suc i]" if "\<not> w \<le> Suc i"
    using that by (simp add: window_vals_def fin_vals_def)
  have "foldl (roll_in exact_arith x w) (Fin 0, 0) [0..<Suc (Suc i)] =
      roll_in exact_arith x w (Fin (\<Sum>v\<leftarrow>window_vals x w i. val v), int (length (window_vals x w i))) (Suc i)"
    using Suc.IH by (simp add: foldl_append [symmetric])
  also have "\<dots> = (Fin (\<Sum>v\<leftarrow>window_vals x w (Suc i). val v), int (length (window_vals x w (Suc i))))"
  proof (cases "w \<le> Suc i")
    case True
    show ?thesis unfolding in_new [OF True] in_old [OF True] using True
      by (auto simp: roll_in_def fin_vals_def fsub_def is_finite_iff Let_def)
  next
    case False
    then show ?thesis unfolding short [OF False] by (auto simp: roll_in_def fin_vals_def is_finite_iff Let_def)
  qed
  finally show ?case .
qed

section \<open>Least squares\<close>

text \<open>The sums of the normal equations, over the pairs of values.\<close>

definition sq_err :: "(real \<times> real) list \<Rightarrow> real \<Rightarrow> real \<Rightarrow> real" where
  "sq_err ps a b = (\<Sum>(x, y)\<leftarrow>ps. (y - a - b * x)\<^sup>2)"

lemma sq_err_expand:
  "sq_err ps a b = (\<Sum>(x, y)\<leftarrow>ps. y * y) - 2 * a * (\<Sum>(x, y)\<leftarrow>ps. y) - 2 * b * (\<Sum>(x, y)\<leftarrow>ps. x * y) + a\<^sup>2 * real (length ps) +
     2 * a * b * (\<Sum>(x, y)\<leftarrow>ps. x) + b\<^sup>2 * (\<Sum>(x, y)\<leftarrow>ps. x * x)"
  by (induction ps) (auto simp: sq_err_def power2_eq_square algebra_simps)

lemma least_squares_line:
  fixes ps :: "(real \<times> real) list"
  defines "n \<equiv> real (length ps)" and "X \<equiv> (\<Sum>(x, y)\<leftarrow>ps. x)" and "Y \<equiv> (\<Sum>(x, y)\<leftarrow>ps. y)" and "XX \<equiv> (\<Sum>(x, y)\<leftarrow>ps. x * x)" and
    "XY \<equiv> (\<Sum>(x, y)\<leftarrow>ps. x * y)"
  assumes "0 < n" "0 < XX / n - (X / n) * (X / n)"
  defines "b \<equiv> (XY / n - X / n * (Y / n)) / (XX / n - (X / n) * (X / n))"
  defines "a \<equiv> Y / n - b * (X / n)"
  shows "sq_err ps a b \<le> sq_err ps c d"
proof -
  have e1: "n * a + b * X = Y" using assms(6) by (simp add: a_def field_simps)
  have v: "XX / n - (X / n) * (X / n) \<noteq> 0" using assms(7) by simp
  have bv: "b * (XX / n - (X / n) * (X / n)) = XY / n - X / n * (Y / n)" unfolding b_def using v by simp
  have e2: "a * X + b * XX = XY"
  proof -
    have "a * X + b * XX = (Y / n - b * (X / n)) * X + b * XX" by (simp add: a_def)
    also have "\<dots> = n * (b * (XX / n - (X / n) * (X / n))) + Y * X / n" using assms(6) by (simp add: field_simps)
    also have "\<dots> = XY" unfolding bv using assms(6) by (simp add: field_simps)
    finally show ?thesis .
  qed
  define u where "u = c - a"
  define w where "w = d - b"
  have S: "sq_err ps c d = sq_err ps a b + (u\<^sup>2 * n + 2 * u * w * X + w\<^sup>2 * XX)"
  proof -
    have "sq_err ps c d - sq_err ps a b = u\<^sup>2 * n + 2 * u * w * X + w\<^sup>2 * XX + 2 * u * (n * a + b * X - Y) + 2 * w * (a * X + b * XX - XY)"
      unfolding sq_err_expand u_def w_def n_def X_def Y_def XX_def XY_def by (simp add: power2_eq_square algebra_simps)
    then show ?thesis using e1 e2 by simp
  qed
  have "0 \<le> sq_err (map (\<lambda>(x, y). (x, 0)) ps) (- u) (- w)" unfolding sq_err_def by (rule sum_list_nonneg) auto
  also have "\<dots> = u\<^sup>2 * n + 2 * u * w * X + w\<^sup>2 * XX"
    unfolding sq_err_expand n_def X_def XX_def by (simp add: o_def case_prod_unfold)
  finally show ?thesis using S by simp
qed

section \<open>Properties\<close>

text \<open>Drawdowns, in the arithmetic of the machine: for a series of positive net values that a \<open>double\<close> holds, no assertion
  of \<open>drawdown_curve\<close> fails, every drawdown is a number of \<open>[-1, 0]\<close>, and it is 0 on every day that is as high as all
  the days before it.\<close>

theorem drawdowns_bounded:
  assumes "arith_ok ar" "format_rounding (double ar)" "list_all (nav_ok ar) nav"
  shows "\<exists>dd. drawdown_curve ar nav = Ok dd \<and> length dd = length nav \<and>
    (\<forall>i<length nav. loss (dd ! i) \<and> ((\<forall>j\<le>i. val (nav ! j) \<le> val (nav ! i)) \<longrightarrow> dd ! i = Fin 0))"
  using drawdown_loop_ok [OF assms, of NInf] by (simp add: drawdown_curve_def)

lemma drawdowns_bounded_witness:
  "\<exists>dd. drawdown_curve \<lparr>single = f32, double = f64\<rparr> [Fin 4, Fin 2, Fin 5] = Ok dd \<and> loss (dd ! 1) \<and> dd ! 2 = Fin 0"
proof -
  let ?ar = "\<lparr>single = f32, double = f64\<rparr>"
  have "list_all (nav_ok ?ar) [Fin 4, Fin 2, Fin 5]"
    using f64.rnd_int [of 4] f64.rnd_int [of 2] f64.rnd_int [of 5] by (simp add: nav_ok_def)
  moreover have "arith_ok ?ar" using f32.rounding_axioms f64.rounding_axioms by (simp add: arith_ok_def)
  ultimately obtain dd where dd: "drawdown_curve ?ar [Fin 4, Fin 2, Fin 5] = Ok dd" "length dd = 3"
    "\<forall>i<3. loss (dd ! i) \<and> ((\<forall>j\<le>i. val ([Fin 4, Fin 2, Fin 5] ! j) \<le> val ([Fin 4, Fin 2, Fin 5] ! i)) \<longrightarrow> dd ! i = Fin 0)"
    using drawdowns_bounded [of ?ar "[Fin 4, Fin 2, Fin 5]"] f64_format.format_rounding_axioms by auto
  have "\<forall>j\<le>2. val ([Fin 4, Fin 2, Fin 5] ! j) \<le> val ([Fin 4, Fin 2, Fin 5] ! 2)" by (simp add: le_Suc_eq numeral_2_eq_2)
  with dd show ?thesis by (metis lessI numeral_2_eq_2 numeral_3_eq_3 one_less_numeral_iff semiring_norm(77))
qed

text \<open>Daily returns and the cumulated net value are inverse: from the returns of a series of positive net values, \<open>cum_nav\<close>
  gives the series back, scaled to start at 1 (in exact arithmetic).\<close>

theorem returns_roundtrip:
  assumes "nav \<noteq> []" "list_all (\<lambda>v. is_finite v \<and> 0 < val v) nav"
  shows "\<exists>ret. daily_returns exact_arith nav = Ok ret \<and> cum_nav exact_arith ret = map (\<lambda>v. Fin (val v / val (nav ! 0))) nav"
proof -
  have pos: "fless (Fin 0) (nav ! i)" if "i < length nav" for i
    using assms(2) that by (cases "nav ! i") (auto simp: list_all_length dest!: spec [of _ i])
  then have "\<not> list_ex (\<lambda>i. \<not> fless (Fin 0) (nav ! (i - 1))) [1..<length nav]" by (auto simp: list_ex_iff)
  then obtain ret where ret: "daily_returns exact_arith nav = Ok ret" using assms(1) by (simp add: daily_returns_def)
  then have len: "length ret = length nav" by (auto simp: daily_returns_def split: if_splits)
  have fin: "list_all is_finite nav" using assms(2) by (simp add: list_all_iff)
  have v0: "0 < val (nav ! 0)" using assms by (auto simp: list_all_length)
  have lenc: "length (cum_nav_loop ar acc r) = length r" for ar acc r by (induction r arbitrary: acc) (simp_all add: Let_def)
  have "cum_nav exact_arith ret ! i = Fin (val (nav ! i) / val (nav ! 0))" if "i < length nav" for i
    using cum_nav_loop_exact [of i ret 1] returns_telescope [OF ret fin that] that len v0
    by (simp add: cum_nav_def eq_divide_eq)
  then have "cum_nav exact_arith ret = map (\<lambda>v. Fin (val v / val (nav ! 0))) nav"
    by (intro nth_equalityI) (simp_all add: cum_nav_def lenc len)
  with ret show ?thesis by blast
qed

lemma returns_roundtrip_witness:
  "\<exists>ret. daily_returns exact_arith [Fin 4, Fin 2, Fin 5] = Ok ret \<and> cum_nav exact_arith ret = [Fin 1, Fin (1 / 2), Fin (5 / 4)]"
  using returns_roundtrip [of "[Fin 4, Fin 2, Fin 5]"] by simp

text \<open>The table of a strategy by year or by month splits the days into consecutive runs of the same period, none of them
  empty and no two neighbours the same, one row each; and the rows compound to the whole: the product of
  \<open>1 + return\<close> over the rows is the product over the days, for the strategy and for the benchmark (in exact
  arithmetic; a day without a return counts as 0).\<close>

theorem periods_compound:
  assumes "period_stats_of exact_arith dates ret bench by_year = Ok rows"
  shows "(\<Prod>r\<leftarrow>rows. 1 + val (pd_strat_return r)) = (\<Prod>r\<leftarrow>ret. factor_of r) \<and>
    (\<Prod>r\<leftarrow>rows. 1 + val (pd_bench_return r)) = (\<Prod>r\<leftarrow>bench. factor_of r) \<and>
    (\<exists>keys bs. map_ok (period_key by_year) dates = Ok keys \<and> buckets_ok keys (length dates) bs \<and> map pd_period rows = map bu_key bs)"
proof -
  from assms obtain keys where k: "map_ok (period_key by_year) dates = Ok keys" "length dates = length ret" "length dates = length bench"
    "map_ok (period_row exact_arith ret bench) (bucketize keys) = Ok rows"
    by (auto simp: period_stats_of_def bind_ok_Ok_iff split: if_splits)
  have ok: "buckets_ok keys (length dates) (bucketize keys)" using bucketize_ok [of keys] map_ok_length [OF k(1)] by simp
  have len: "length rows = length (bucketize keys)" by (rule map_ok_length [OF k(4)])
  have row: "pd_strat_return (rows ! i) = compound exact_arith ret (bu_lo (bucketize keys ! i)) (bu_hi (bucketize keys ! i)) \<and>
      pd_bench_return (rows ! i) = compound exact_arith bench (bu_lo (bucketize keys ! i)) (bu_hi (bucketize keys ! i)) \<and>
      pd_period (rows ! i) = bu_key (bucketize keys ! i)" if "i < length rows" for i
    using map_ok_nth [OF k(4), of i] that len by (auto simp: period_row_def Let_def bind_ok_Ok_iff dest!: sym [of _ "rows ! i"])
  have s: "map pd_strat_return rows = map (\<lambda>b. compound exact_arith ret (bu_lo b) (bu_hi b)) (bucketize keys)"
    "map pd_bench_return rows = map (\<lambda>b. compound exact_arith bench (bu_lo b) (bu_hi b)) (bucketize keys)"
    "map pd_period rows = map bu_key (bucketize keys)" using row len by (auto intro!: nth_equalityI)
  have "(\<Prod>r\<leftarrow>rows. 1 + val (pd_strat_return r)) = (\<Prod>c\<leftarrow>map pd_strat_return rows. 1 + val c)" by (simp add: o_def)
  moreover have "(\<Prod>r\<leftarrow>rows. 1 + val (pd_bench_return r)) = (\<Prod>c\<leftarrow>map pd_bench_return rows. 1 + val c)" by (simp add: o_def)
  ultimately show ?thesis
    using prod_spans [of keys ret "bucketize keys"] prod_spans [of keys bench "bucketize keys"] ok k(1-3) s
    by (auto simp: o_def)
qed

lemma periods_compound_witness:
  "\<exists>rows. period_stats_of exact_arith [''20170103'', ''20170104'', ''20180102''] [Fin 0, Fin 1, Fin 2] [Fin 0, Fin 0, NaN] True = Ok rows \<and>
     (\<Prod>r\<leftarrow>rows. 1 + val (pd_strat_return r)) = 6"
proof -
  have k: "map_ok (period_key True) [''20170103'', ''20170104'', ''20180102''] = Ok [''2017'', ''2017'', ''2018'']"
    by (simp add: period_key_def substr_def)
  have "\<exists>rows. map_ok (period_row exact_arith [Fin 0, Fin 1, Fin 2] [Fin 0, Fin 0, NaN]) (bucketize [''2017'', ''2017'', ''2018'']) = Ok rows"
    by (rule map_ok_total) (simp add: period_row_def rel_stats_of_def span_of_def Let_def split: prod.split)
  then have "\<exists>rows. period_stats_of exact_arith [''20170103'', ''20170104'', ''20180102''] [Fin 0, Fin 1, Fin 2] [Fin 0, Fin 0, NaN] True = Ok rows"
    unfolding period_stats_of_def k by simp
  then obtain rows where "period_stats_of exact_arith [''20170103'', ''20170104'', ''20180102''] [Fin 0, Fin 1, Fin 2] [Fin 0, Fin 0, NaN] True = Ok rows" by blast
  with periods_compound [OF this] show ?thesis by (auto simp: factor_of_def)
qed

text \<open>The rolling mean, kept by adding the newest and taking away the oldest value, is the mean of the finite values among the
  last \<open>w\<close> days, and NaN where there are fewer than \<open>max(1, w / 4)\<close> of them (in exact arithmetic).\<close>

theorem rolling_mean_is_window_mean:
  assumes "0 < w"
  shows "rolling_mean exact_arith x w = Ok (map (\<lambda>i. let vs = window_vals x (nat w) i in
    if max 1 (w div 4) \<le> int (length vs) then Fin ((\<Sum>v\<leftarrow>vs. val v) / real (length vs)) else NaN) [0..<length x])"
proof -
  have w: "0 < nat w" using assms by simp
  show ?thesis using assms by (auto simp: rolling_mean_def roll_window [OF w] Let_def narrow_def simp del: upt_Suc)
qed

lemma rolling_mean_is_window_mean_witness:
  "rolling_mean exact_arith [Fin 1, NaN, Fin 5] 2 = Ok [Fin 1, Fin 1, Fin 5]"
proof -
  have "rolling_mean exact_arith [Fin 1, NaN, Fin 5] 2 = Ok (map (\<lambda>i. let vs = window_vals [Fin 1, NaN, Fin 5] (nat 2) i in
    if max 1 (2 div 4) \<le> int (length vs) then Fin ((\<Sum>v\<leftarrow>vs. val v) / real (length vs)) else NaN) [0..<length [Fin 1, NaN, Fin 5]])"
    by (rule rolling_mean_is_window_mean) simp
  then show ?thesis by (simp add: window_vals_def fin_vals_def)
qed

text \<open>C40. Beta and Alpha are the least squares line: when they are numbers, the line with slope Beta and with Alpha over the
  number of trading days as intercept has the smallest sum of squared errors of all lines, over the days on which both
  returns are finite (in exact arithmetic).\<close>

theorem beta_alpha_least_squares:
  assumes "rel_stats_of exact_arith ret bench = Ok s" "rs_beta s = Fin b"
  defines "ps \<equiv> map (\<lambda>(x, y). (val x, val y)) (both_finite bench ret)"
  shows "\<exists>a. rs_alpha s = Fin (a * TRADING_DAYS) \<and> (\<forall>c d. sq_err ps a b \<le> sq_err ps c d)"
proof -
  let ?q = "both_finite bench ret"
  have e: "fmul Fin x x = Fin (val x * val x)" "fmul Fin x y = Fin (val x * val y)" if "(x, y) \<in> set ?q" for x y
    using that by (auto simp: both_finite_def is_finite_iff)
  have m: "fsum Fin (map fst ?q) = Fin (\<Sum>(x, y)\<leftarrow>ps. x)" "fsum Fin (map snd ?q) = Fin (\<Sum>(x, y)\<leftarrow>ps. y)"
    "fsum Fin (map (\<lambda>(x, y). fmul Fin x x) ?q) = Fin (\<Sum>(x, y)\<leftarrow>ps. x * x)"
    "fsum Fin (map (\<lambda>(x, y). fmul Fin x y) ?q) = Fin (\<Sum>(x, y)\<leftarrow>ps. x * y)"
  proof -
    have f: "list_all is_finite (map fst ?q)" "list_all is_finite (map snd ?q)" by (auto simp: both_finite_def list_all_iff)
    have p: "map (\<lambda>(x, y). fmul Fin x x) ?q = map (\<lambda>(x, y). Fin (val x * val x)) ?q" "map (\<lambda>(x, y). fmul Fin x y) ?q = map (\<lambda>(x, y). Fin (val x * val y)) ?q"
      by (intro map_cong refl; use e in auto)+
    have g: "list_all is_finite (map (\<lambda>(x, y). Fin (val x * val x)) ?q)" "list_all is_finite (map (\<lambda>(x, y). Fin (val x * val y)) ?q)"
      by (auto simp: list_all_iff)
    show "fsum Fin (map fst ?q) = Fin (\<Sum>(x, y)\<leftarrow>ps. x)" "fsum Fin (map snd ?q) = Fin (\<Sum>(x, y)\<leftarrow>ps. y)"
      using fsum_exact [OF f(1)] fsum_exact [OF f(2)] by (simp_all add: ps_def o_def case_prod_unfold)
    show "fsum Fin (map (\<lambda>(x, y). fmul Fin x x) ?q) = Fin (\<Sum>(x, y)\<leftarrow>ps. x * x)"
      "fsum Fin (map (\<lambda>(x, y). fmul Fin x y) ?q) = Fin (\<Sum>(x, y)\<leftarrow>ps. x * y)"
      unfolding p using fsum_exact [OF g(1)] fsum_exact [OF g(2)] by (simp_all add: ps_def o_def case_prod_unfold)
  qed
  let ?n = "real (length ps)" and ?X = "\<Sum>(x, y)\<leftarrow>ps. x" and ?Y = "\<Sum>(x, y)\<leftarrow>ps. y" and ?XX = "\<Sum>(x, y)\<leftarrow>ps. x * x" and ?XY = "\<Sum>(x, y)\<leftarrow>ps. x * y"
  let ?v = "?XX / ?n - ?X / ?n * (?X / ?n)"
  have len: "length ?q = length ps" by (simp add: ps_def)
  from assms(1) have s: "(rs_beta s, rs_alpha s) = beta_alpha exact_arith ?q"
    by (auto simp: rel_stats_of_def Let_def split: if_splits prod.splits)
  then have five: "5 \<le> length ps" using assms(2) len by (auto simp: beta_alpha_def Let_def split: if_splits)
  then have n: "0 < ?n" by (cases ps) simp_all
  have "(rs_beta s, rs_alpha s) = (if ?v \<le> 0 then (NaN, NaN) else
      (Fin ((?XY / ?n - ?X / ?n * (?Y / ?n)) / ?v), Fin ((?Y / ?n - (?XY / ?n - ?X / ?n * (?Y / ?n)) / ?v * (?X / ?n)) * TRADING_DAYS)))"
    using five n unfolding s beta_alpha_def Let_def by (simp add: m len fsub_def narrow_def)
  with assms(2) have v: "0 < ?v" and b: "b = (?XY / ?n - ?X / ?n * (?Y / ?n)) / ?v"
    and a: "rs_alpha s = Fin ((?Y / ?n - b * (?X / ?n)) * TRADING_DAYS)" by (auto split: if_splits)
  from least_squares_line [OF n v] a b show ?thesis by (intro exI [of _ "?Y / ?n - b * (?X / ?n)"]) simp
qed

lemma beta_alpha_least_squares_witness:
  "\<exists>s. rel_stats_of exact_arith [Fin 0, Fin 2, Fin 4, Fin 6, Fin 8] [Fin 0, Fin 1, Fin 2, Fin 3, Fin 4] = Ok s \<and> rs_beta s = Fin 2 \<and>
     sq_err [(0, 0), (1, 2), (2, 4), (3, 6), (4, 8)] 0 2 = 0"
proof -
  let ?r = "[Fin 0, Fin 2, Fin 4, Fin 6, Fin 8]" and ?b = "[Fin 0, Fin 1, Fin 2, Fin 3, Fin 4]"
  have p: "both_finite ?b ?r = zip ?b ?r" by (simp add: both_finite_def)
  have "\<exists>s. rel_stats_of exact_arith ?r ?b = Ok s \<and> rs_beta s = Fin 2"
    by (simp add: rel_stats_of_def p beta_alpha_def Let_def fsum_def fsub_def narrow_def)
  then obtain s where s: "rel_stats_of exact_arith ?r ?b = Ok s" "rs_beta s = Fin 2" by blast
  from beta_alpha_least_squares [OF s] have "\<exists>a. sq_err [(0, 0), (1, 2), (2, 4), (3, 6), (4, 8)] a 2 \<le> sq_err [(0, 0), (1, 2), (2, 4), (3, 6), (4, 8)] 0 2"
    unfolding p by auto
  with s show ?thesis by (auto simp: sq_err_def)
qed

end
