(* ===== verification/Build.thy ===== *)
theory Build
  imports Columns
begin

text \<open>
  The orchestration of the features (\<open>cpp/src/feature/build.cpp\<close>): load the axes and the static data, allocate
  the tensor, load the pool, then the phases - time series, whitelists, cross sections, strategy columns - and
  at last the assertion that every node that is declared finite, and every strategy column, is finite.

  \<open>ALL_NODES\<close> is computed when the program is compiled. The phases run here in the order of the loops; theory
  \<open>Phases\<close> shows that the threads make no difference.
\<close>

datatype build_error =
    BuildGraph graph_error | BuildAxes axis_error | BuildPit overlay_error | BuildTs feature_error | BuildCs feature_error
  | BuildColumns column_error | NodeNotFinite node | SlotNotFinite nat

fun lift_error :: "('e \<Rightarrow> 'f) \<Rightarrow> ('e, 'a) outcome \<Rightarrow> ('f, 'a) outcome" where
  "lift_error h (Fail e) = Fail (h e)"
| "lift_error h (Ok x) = Ok x"

definition ALL_NODES :: "docs \<Rightarrow> node list \<Rightarrow> strategy_spec list \<Rightarrow> (graph_error, node list) outcome" where
  "ALL_NODES doc framework strategies = reachable_topo_order (network doc) (all_roots framework strategies)"

definition TS_ORDER :: "docs \<Rightarrow> node list \<Rightarrow> node list" where
  "TS_ORDER doc nodes = filter_axis (network doc) nodes TimeSeries"

definition CS_ORDER :: "docs \<Rightarrow> node list \<Rightarrow> node list" where
  "CS_ORDER doc nodes = filter_axis (network doc) nodes CrossSection"

definition N_STRAT_SLOTS :: "strategy_spec list \<Rightarrow> nat" where
  "N_STRAT_SLOTS strategies = length strategies * SF_COUNT"

text \<open>Phase 4.\<close>

definition assert_node :: "docs \<Rightarrow> axes \<Rightarrow> tensor \<Rightarrow> node \<Rightarrow> (build_error, tensor) outcome" where
  "assert_node doc ax T f = (if fs_must_be_finite (spec_of doc f) \<and> \<not> assert_finite ax T f then Fail (NodeNotFinite f) else Ok T)"

definition assert_slot :: "axes \<Rightarrow> tensor \<Rightarrow> nat \<Rightarrow> (build_error, tensor) outcome" where
  "assert_slot ax T i = (if assert_finite_strat ax T i then Ok T else Fail (SlotNotFinite i))"

definition check_contract :: "docs \<Rightarrow> axes \<Rightarrow> node list \<Rightarrow> strategy_spec list \<Rightarrow> tensor \<Rightarrow> (build_error, tensor) outcome" where
  "check_contract doc ax nodes strategies T =
     bind_ok (fold_ok (assert_node doc ax) T nodes) (\<lambda>T. fold_ok (assert_slot ax) T [0..<N_STRAT_SLOTS strategies])"

text \<open>Phases 2 to 3s, on a pool that was loaded.\<close>

definition compute_features ::
  "arith \<Rightarrow> nth_fun \<Rightarrow> docs \<Rightarrow> strategy_spec list \<Rightarrow> node list \<Rightarrow> axes \<Rightarrow> stock_meta \<Rightarrow> pit_pool \<Rightarrow> (build_error, tensor) outcome" where
  "compute_features ar nth_el doc strategies nodes ax meta pool =
     bind_ok (lift_error BuildTs (compute_ts ar ax pool meta (TS_ORDER doc nodes) [0..<n_a ax]
         (new_tensor ax (N_STRAT_SLOTS strategies)))) (\<lambda>T.
     bind_ok (lift_error BuildCs (compute_cs ar ax (CS_ORDER doc nodes) [0..<n_d ax]
         (compute_ts_columns ax meta strategies [0..<n_a ax] T))) (\<lambda>T.
     lift_error BuildColumns (compute_cs_columns ar nth_el ax strategies [0..<n_d ax] T)))"

text \<open>What \<open>build\<close> reads: the day, the date from which delisted codes are kept, the trading days, the basic information,
  the month files of the tables, and the snapshot of the last day with its flag.\<close>

record build_input =
  bi_today :: string
  bi_start :: string
  bi_trading_days :: "row list list"
  bi_basic_info :: "row list"
  bi_tables :: "string \<Rightarrow> month_files"
  bi_update :: bool
  bi_snapshot :: "row list option"

definition build ::
  "arith \<Rightarrow> nth_fun \<Rightarrow> docs \<Rightarrow> strategy_spec list \<Rightarrow> node list \<Rightarrow> build_input \<Rightarrow> (build_error, axes \<times> stock_meta \<times> tensor) outcome" where
  "build ar nth_el doc strategies nodes inp =
     bind_ok (lift_error BuildAxes (load_axes (bi_today inp) (bi_start inp) (bi_trading_days inp) (bi_basic_info inp))) (\<lambda>ax.
     bind_ok (lift_error BuildAxes (load_stock_meta ax (bi_basic_info inp))) (\<lambda>meta.
     bind_ok (lift_error BuildPit (load_pit (single ar) (bi_update inp) ax (bi_tables inp) (bi_snapshot inp))) (\<lambda>pool.
     bind_ok (compute_features ar nth_el doc strategies nodes ax meta pool) (\<lambda>T.
     bind_ok (check_contract doc ax nodes strategies T) (\<lambda>T.
     Ok (ax, meta, T))))))"

section \<open>Every phase keeps what it should\<close>

text \<open>Two loops as one chain over pairs; a loop that cannot stop as a chain.\<close>

lemma fold_ok_product: "fold_ok (\<lambda>s x. fold_ok (h x) s ys) s xs = fold_ok (\<lambda>s (x, y). h x s y) s (List.product xs ys)"
proof (induction xs arbitrary: s)
  case (Cons x xs)
  then show ?case by (cases "fold_ok (h x) s ys") (simp_all add: fold_ok_append fold_ok_map)
qed simp

lemma fold_ok_foldl: "fold_ok (\<lambda>s x. Ok (f s x)) s xs = Ok (foldl f s xs)"
  by (induction xs arbitrary: s) simp_all

lemma foldl_product: "foldl (\<lambda>s x. foldl (h x) s ys) s xs = foldl (\<lambda>s (x, y). h x s y) s (List.product xs ys)"
  by (induction xs arbitrary: s) (simp_all add: foldl_map)

text \<open>Finite rows make a finite matrix.\<close>

lemma all_finite_nth: "all_finite xs \<Longrightarrow> i < length xs \<Longrightarrow> is_finite (xs ! i)"
  by (simp add: all_finite_def)

lemma assert_finite_rows:
  assumes "tensor_ok ax T" "\<And>a. a < n_a ax \<Longrightarrow> all_finite (ts_row ax T f a)" shows "assert_finite ax T f"
  using assms(2) ts_row_at [OF assms(1), of _ _ f] length_ts_row [OF assms(1), of _ f] all_finite_nth
  by (fastforce simp: assert_finite_def mat_finite_def list_all_iff tensor_at_def mat_off_def)

lemma assert_finite_unit:
  assumes "\<And>d. d < n_d ax \<Longrightarrow> unit_day ax T f d" shows "assert_finite ax T f"
  using assms by (auto simp: assert_finite_def mat_finite_def list_all_iff unit_day_def gather_cs_row_def mat_gather_def in_unit_finite)

lemma features_keep_strat [simp]: "tn_strat (set_ts_row ax T f a r) = tn_strat T" "tn_strat (scatter_cs_row ax T f d r) = tn_strat T"
  by (simp_all add: set_ts_row_def scatter_cs_row_def)

text \<open>Whatever every compute function guarantees of its row holds of the rows at the end.\<close>

lemma compute_ts_rows:
  assumes "tensor_ok ax T" "compute_ts ar ax p meta order [0..<n_a ax] T = Ok T'"
    "\<forall>a f U r. a < n_a ax \<longrightarrow> f \<in> set order \<longrightarrow> compute_ts_node ar ax p meta a U f = Ok r \<longrightarrow> R f r"
  shows "tensor_ok ax T'" "tn_strat T' = tn_strat T" "f \<in> set order \<Longrightarrow> a < n_a ax \<Longrightarrow> R f (ts_row ax T' f a)"
proof -
  let ?P = "\<lambda>U. tensor_ok ax U \<and> tn_strat U = tn_strat T"
  let ?Q = "\<lambda>x U. snd x \<in> set order \<longrightarrow> fst x < n_a ax \<longrightarrow> R (snd x) (ts_row ax U (snd x) (fst x))"
  let ?step = "\<lambda>U (a, f). run_ts_node ar ax p meta a U f"
  have "?P T' \<and> (\<forall>x\<in>set (List.product [0..<n_a ax] order). ?Q x T')"
  proof (rule fold_ok_establishes [where f = ?step])
    show "fold_ok ?step T (List.product [0..<n_a ax] order) = Ok T'"
      using assms(2) unfolding compute_ts_def fold_ok_product .
    fix U x V y assume x: "x \<in> set (List.product [0..<n_a ax] order)" and P: "?P U" and st: "?step U x = Ok V"
    obtain a f where af: "x = (a, f)" "a < n_a ax" "f \<in> set order" using x by auto
    from st af(1) obtain r where r: "compute_ts_node ar ax p meta a (\<lambda>g. ts_row ax U g a) f = Ok r" "V = set_ts_row ax U f a r"
      by (auto simp: run_ts_node_Ok)
    note l = length_compute_ts_node [OF r(1)]
    have V: "?P V" using P l af(2) unfolding r(2) by (simp add: tensor_ok_set_ts_row)
    have rows: "ts_row ax V g b = (if g = f \<and> b = a then r else ts_row ax U g b)" if "b < n_a ax" for g b
      unfolding r(2) using P af(2) that l by (intro ts_row_set) auto
    from assms(3) af(2,3) r(1) have k: "R f r" by blast
    show "?P V \<and> ?Q x V" using V rows k af by simp
    show "?Q y V" if "?Q y U" using that rows [of "fst y" "snd y"] k by auto
  qed (simp add: assms(1))
  then show "tensor_ok ax T'" "tn_strat T' = tn_strat T" "f \<in> set order \<Longrightarrow> a < n_a ax \<Longrightarrow> R f (ts_row ax T' f a)" by auto
qed

lemma compute_ts_declared:
  assumes "rounding (single ar)" "status_ok ax p" "\<forall>f\<in>set order. depth f \<noteq> 9" "tensor_ok ax T"
    "compute_ts ar ax p meta order [0..<n_a ax] T = Ok T'"
  shows "tensor_ok ax T'" "tn_strat T' = tn_strat T"
    "f \<in> set order \<Longrightarrow> fs_must_be_finite (spec_of doc f) \<Longrightarrow> assert_finite ax T' f"
proof -
  have "\<forall>a f U r. a < n_a ax \<longrightarrow> f \<in> set order \<longrightarrow> compute_ts_node ar ax p meta a U f = Ok r \<longrightarrow>
      fs_must_be_finite (spec_of doc f) \<longrightarrow> all_finite r"
    using ts_declared_finite [OF assms(1,2)] assms(3) by blast
  note k = compute_ts_rows [where R = "\<lambda>f r. fs_must_be_finite (spec_of doc f) \<longrightarrow> all_finite r", OF assms(4,5) this]
  from k(1,2) show "tensor_ok ax T'" "tn_strat T' = tn_strat T" .
  from k(1,3) show "f \<in> set order \<Longrightarrow> fs_must_be_finite (spec_of doc f) \<Longrightarrow> assert_finite ax T' f"
    by (intro assert_finite_rows) auto
qed

text \<open>The whitelists leave the features alone and are flags.\<close>

lemma strat_ts_row_set:
  assumes "tensor_ok ax T" "a < n_a ax" "b < n_a ax" "length r = n_d ax" "i < length (tn_strat T)" "j < length (tn_strat T)"
  shows "strat_ts_row ax (set_strat_ts_row ax T i a r) j b = (if j = i \<and> b = a then r else strat_ts_row ax T j b)"
  using assms by (auto simp: strat_ts_row_def set_strat_ts_row_def tensor_ok_def mat_ts_row_put nth_list_update)

lemma set_strat_ts_row_keeps [simp]:
  "tn_mats (set_strat_ts_row ax T i a r) = tn_mats T" "length (tn_strat (set_strat_ts_row ax T i a r)) = length (tn_strat T)"
  by (simp_all add: set_strat_ts_row_def)

lemma tensor_ok_set_strat: "tensor_ok ax T \<Longrightarrow> a < n_a ax \<Longrightarrow> length r = n_d ax \<Longrightarrow> i < length (tn_strat T) \<Longrightarrow> tensor_ok ax (set_strat_ts_row ax T i a r)"
  by (auto simp: tensor_ok_def set_strat_ts_row_def mat_ok_put dest!: set_update_subset_insert [THEN subsetD])

lemma ts_pool_b_row: "\<exists>r. length r = n_d ax \<and> all_finite r \<and> ts_pool_b s spec msk a ax meta T = set_strat_ts_row ax T (slot s SF_pool_b) a r"
  unfolding ts_pool_b_def Let_def by (intro exI conjI) (rule_tac [3] refl, simp_all add: all_finite_def)

lemma compute_ts_columns_flags:
  fixes strategies :: "strategy_spec list" and meta :: stock_meta
  assumes "tensor_ok ax T" "length (tn_strat T) = N_STRAT_SLOTS strategies"
  defines "T' \<equiv> compute_ts_columns ax meta strategies [0..<n_a ax] T"
  shows "tensor_ok ax T'" "tn_mats T' = tn_mats T" "length (tn_strat T') = N_STRAT_SLOTS strategies"
    "s < length strategies \<Longrightarrow> a < n_a ax \<Longrightarrow> all_finite (strat_ts_row ax T' (slot s SF_pool_b) a)"
proof -
  let ?P = "\<lambda>U. tensor_ok ax U \<and> tn_mats U = tn_mats T \<and> length (tn_strat U) = N_STRAT_SLOTS strategies"
  let ?Q = "\<lambda>x U. fst x < n_a ax \<longrightarrow> snd x < length strategies \<longrightarrow> all_finite (strat_ts_row ax U (slot (snd x) SF_pool_b) (fst x))"
  let ?step = "\<lambda>U (a, s). ts_columns_of ax meta strategies a U s"
  have "?P T' \<and> (\<forall>x\<in>set (List.product [0..<n_a ax] [0..<length strategies]). ?Q x T')"
  proof (rule fold_ok_establishes [where f = "\<lambda>U x. Ok (?step U x)"])
    show "fold_ok (\<lambda>U x. Ok (?step U x)) T (List.product [0..<n_a ax] [0..<length strategies]) = Ok T'"
      unfolding fold_ok_foldl T'_def compute_ts_columns_def foldl_product ..
    fix U x V y assume x: "x \<in> set (List.product [0..<n_a ax] [0..<length strategies])" and P: "?P U" and st: "Ok (?step U x) = Ok V"
    obtain a s where as: "x = (a, s)" "a < n_a ax" "s < length strategies" using x by auto
    from st as(1) ts_pool_b_row [of ax s "strategies ! s" _ a meta U] obtain r where
      r: "length r = n_d ax" "all_finite r" "V = set_strat_ts_row ax U (slot s SF_pool_b) a r" by (auto simp: ts_columns_of_def)
    have i: "slot t SF_pool_b < length (tn_strat U)" if "t < length strategies" for t
      using P slot_less [OF that] by (simp add: N_STRAT_SLOTS_def)
    have V: "?P V" using P r(1) as(2) i [OF as(3)] unfolding r(3) by (simp add: tensor_ok_set_strat)
    have rows: "strat_ts_row ax V (slot t SF_pool_b) b = (if t = s \<and> b = a then r else strat_ts_row ax U (slot t SF_pool_b) b)"
      if "b < n_a ax" "t < length strategies" for t b
      unfolding r(3) using P as that r(1) i by (subst strat_ts_row_set) simp_all
    show "?P V \<and> ?Q x V" using V rows r(2) as by simp
    show "?Q y V" if "?Q y U" using that rows [of "fst y" "snd y"] r(2) by auto
  qed (simp add: assms(1,2))
  then show "tensor_ok ax T'" "tn_mats T' = tn_mats T" "length (tn_strat T') = N_STRAT_SLOTS strategies"
    "s < length strategies \<Longrightarrow> a < n_a ax \<Longrightarrow> all_finite (strat_ts_row ax T' (slot s SF_pool_b) a)" by auto
qed

text \<open>The cross sections never stop, leave the other nodes alone and are in \<open>[0, 1]\<close>.\<close>

lemma run_cs_node_total: "depth f = 9 \<Longrightarrow> \<exists>r. run_cs_node ar ax d T f = Ok (scatter_cs_row ax T f d r)"
  using cs_reads_declared [where T = T and U = T and f = f] by (auto simp: list_all_iff)

lemma compute_cs_total:
  assumes "arith_ok ar" "n_a ax \<le> 2 ^ 23" "\<forall>f\<in>set order. depth f = 9" "tensor_ok ax T"
  shows "\<exists>T'. compute_cs ar ax order [0..<n_d ax] T = Ok T' \<and> tensor_ok ax T' \<and> tn_strat T' = tn_strat T \<and>
    (\<forall>f. depth f \<noteq> 9 \<longrightarrow> tn_mats T' f = tn_mats T f) \<and> (\<forall>f\<in>set order. \<forall>d<n_d ax. unit_day ax T' f d)"
proof -
  let ?P = "\<lambda>U. tensor_ok ax U \<and> tn_strat U = tn_strat T \<and> (\<forall>f. depth f \<noteq> 9 \<longrightarrow> tn_mats U f = tn_mats T f)"
  have "\<exists>T'. fold_ok (\<lambda>U (d, f). run_cs_node ar ax d U f) T (List.product [0..<n_d ax] order) = Ok T' \<and> ?P T'"
  proof (rule fold_ok_total)
    fix U x assume x: "x \<in> set (List.product [0..<n_d ax] order)" and P: "?P U"
    obtain d f where df: "x = (d, f)" "depth f = 9" using x assms(3) by auto
    obtain r where r: "run_cs_node ar ax d U f = Ok (scatter_cs_row ax U f d r)" using run_cs_node_total [OF df(2)] by blast
    have "tensor_ok ax (scatter_cs_row ax U f d r)" using P by (simp add: tensor_ok_scatter)
    with P r df show "\<exists>V. (case x of (d, f) \<Rightarrow> run_cs_node ar ax d U f) = Ok V \<and> ?P V"
      by (intro exI [of _ "scatter_cs_row ax U f d r"]) (auto simp: scatter_cs_row_def)
  qed (simp add: assms(4))
  then obtain T' where T': "compute_cs ar ax order [0..<n_d ax] T = Ok T'" "?P T'"
    unfolding compute_cs_def fold_ok_product by blast
  have "\<forall>f\<in>set order. \<forall>d<n_d ax. unit_day ax T' f d"
    using cs_days_unit [OF assms(1,2) _ assms(4) T'(1)] by (simp add: subset_iff)
  with T' show ?thesis by blast
qed

text \<open>The columns of a day: each of the three steps writes one finite row.\<close>

lemma all_finite_updates:
  "(\<And>p. p \<in> set ps \<Longrightarrow> is_finite (h p)) \<Longrightarrow> all_finite (foldl (\<lambda>out p. out[g p := h p]) (replicate n (Fin 0)) ps)"
proof -
  assume "\<And>p. p \<in> set ps \<Longrightarrow> is_finite (h p)"
  moreover have "all_finite out \<Longrightarrow> (\<And>p. p \<in> set ps \<Longrightarrow> is_finite (h p)) \<Longrightarrow> all_finite (foldl (\<lambda>out p. out[g p := h p]) out ps)" for out
    by (induction ps arbitrary: out) (simp_all add: all_finite_update)
  ultimately show ?thesis by (simp add: all_finite_zeros)
qed

lemma cs_pool_row: "\<exists>r. length r = n_a ax \<and> all_finite r \<and> cs_pool nth_el ax s spec d T = strat_scatter_cs_row ax T (slot s SF_pool) d r"
  unfolding cs_pool_def Let_def by (intro exI conjI) (rule_tac [3] refl, simp_all add: all_finite_updates)

lemma cs_rank_row:
  assumes "rounding (single ar)" "n_a ax \<le> 2 ^ 23"
  shows "\<exists>r. length r = n_a ax \<and> all_finite r \<and> cs_rank ar ax s d T = strat_scatter_cs_row ax T (slot s SF_rank) d r"
proof -
  have "set (map snd (ranking ax s d T)) \<subseteq> {..<n_a ax}" unfolding ranking_spec(2) by (auto simp: rankable_def)
  then have "card (set (map snd (ranking ax s d T))) \<le> n_a ax" by (metis card_lessThan card_mono finite_lessThan)
  then have l: "length (ranking ax s d T) \<le> n_a ax" by (subst (asm) distinct_card [OF ranking_spec(1)]) simp
  have "is_finite (single ar (real (i + 1)))" if "i \<in> set [0..<length (ranking ax s d T)]" for i
  proof -
    have "i + 1 \<le> 2 ^ 24" using that l assms(2) by simp
    from rounding.rnd_nat [OF assms(1) this] show ?thesis by simp
  qed
  then show ?thesis unfolding cs_rank_def Let_def
    by (intro exI conjI) (rule_tac [3] refl, simp, rule all_finite_updates)
qed

lemma score_row_finite: "score_row_ok ax pool r \<Longrightarrow> length r = n_a ax \<and> all_finite r"
  by (fastforce simp: score_row_ok_def all_finite_def in_set_conv_nth)

definition day_columns_finite :: "axes \<Rightarrow> nat \<Rightarrow> nat \<Rightarrow> tensor \<Rightarrow> bool" where
  "day_columns_finite ax s d T \<longleftrightarrow> (\<forall>c\<in>{SF_pool, SF_score, SF_rank}. all_finite (strat_gather_cs_row ax T (slot s c) d))"

lemma strat_scatter_other: "j \<noteq> i \<Longrightarrow> tn_strat (strat_scatter_cs_row ax T i d r) ! j = tn_strat T ! j"
  by (simp add: strat_scatter_cs_row_def)

lemma cs_columns_of_ok:
  assumes "format_rounding (single ar)" "arith_ok ar" "n_a ax \<le> 2 ^ 23" "d < n_d ax" "s < length strategies"
    "weights_ok ar (strategies ! s)" "tensor_ok ax T" "length (tn_strat T) = N_STRAT_SLOTS strategies"
    "\<forall>f\<in>fst ` set (st_weights (strategies ! s)). unit_day ax T f d"
  shows "\<exists>T'. cs_columns_of ar nth_el ax strategies d T s = Ok T' \<and> tensor_ok ax T' \<and> tn_mats T' = tn_mats T \<and>
    length (tn_strat T') = N_STRAT_SLOTS strategies \<and> (\<forall>t. tn_strat T' ! slot t SF_pool_b = tn_strat T ! slot t SF_pool_b) \<and>
    day_columns_finite ax s d T' \<and>
    (\<forall>t e. t < length strategies \<longrightarrow> e < n_d ax \<longrightarrow> day_columns_finite ax t e T \<longrightarrow> day_columns_finite ax t e T')"
proof -
  have i: "slot t c < N_STRAT_SLOTS strategies" if "t < length strategies" for t c using slot_less [OF that] by (simp add: N_STRAT_SLOTS_def)
  obtain p where p: "length p = n_a ax" "all_finite p" "cs_pool nth_el ax s (strategies ! s) d T = strat_scatter_cs_row ax T (slot s SF_pool) d p"
    using cs_pool_row by blast
  define T1 where "T1 = strat_scatter_cs_row ax T (slot s SF_pool) d p"
  have T1: "tensor_ok ax T1" "tn_mats T1 = tn_mats T" "length (tn_strat T1) = N_STRAT_SLOTS strategies"
    using assms(7,8) i [OF assms(5)] by (auto simp: T1_def)
  have "\<forall>f\<in>fst ` set (st_weights (strategies ! s)). \<forall>a<n_a ax. flag (strat_at ax T1 (slot s SF_pool) a d) \<longrightarrow> is_finite (tensor_at ax T1 f a d)"
    using assms(9) by (auto simp: unit_day_def gather_cs_row_def mat_gather_def tensor_at_def mat_off_def T1(2) in_unit_finite)
  from cs_score_ok [OF assms(1-3,6) this] obtain q where
    q: "cs_score ar ax s (strategies ! s) d T1 = Ok (strat_scatter_cs_row ax T1 (slot s SF_score) d q)" "length q = n_a ax" "all_finite q"
    using score_row_finite by blast
  define T2 where "T2 = strat_scatter_cs_row ax T1 (slot s SF_score) d q"
  have T2: "tensor_ok ax T2" "tn_mats T2 = tn_mats T" "length (tn_strat T2) = N_STRAT_SLOTS strategies"
    using T1 i [OF assms(5)] by (auto simp: T2_def)
  obtain r where r: "length r = n_a ax" "all_finite r" "cs_rank ar ax s d T2 = strat_scatter_cs_row ax T2 (slot s SF_rank) d r"
    using cs_rank_row [of ar ax s d T2] assms(2,3) by (auto simp: arith_ok_def)
  define T3 where "T3 = strat_scatter_cs_row ax T2 (slot s SF_rank) d r"
  have T3: "tensor_ok ax T3" "tn_mats T3 = tn_mats T" "length (tn_strat T3) = N_STRAT_SLOTS strategies"
    using T2 i [OF assms(5)] by (auto simp: T3_def)
  have g: "strat_gather_cs_row ax T3 (slot t c) e = (if t = s \<and> e = d then (case c of SF_pool \<Rightarrow> p | SF_score \<Rightarrow> q | SF_rank \<Rightarrow> r
      | SF_pool_b \<Rightarrow> strat_gather_cs_row ax T (slot t c) e) else strat_gather_cs_row ax T (slot t c) e)"
    if "t < length strategies" "e < n_d ax" for t c e
    unfolding T3_def T2_def T1_def
    using that p(1) q(2) r(1) i [OF assms(5)] i [OF that(1)] assms(4,7,8) T1 T2
    by (cases c) (simp_all add: strat_gather_scatter T1_def T2_def)
  have "cs_columns_of ar nth_el ax strategies d T s = Ok T3"
    unfolding cs_columns_of_def p(3) T1_def [symmetric] q(1) T3_def using r(3) by (simp add: T2_def)
  moreover have "tn_strat T3 ! slot t SF_pool_b = tn_strat T ! slot t SF_pool_b" for t
    by (simp add: T3_def T2_def T1_def strat_scatter_other)
  moreover have "day_columns_finite ax s d T3" using g [OF assms(5,4)] p q r by (simp add: day_columns_finite_def)
  moreover have "day_columns_finite ax t e T3" if "t < length strategies" "e < n_d ax" "day_columns_finite ax t e T" for t e
    using g [OF that(1,2)] that(3) p q r by (auto simp: day_columns_finite_def)
  ultimately show ?thesis using T3 by blast
qed

lemma compute_cs_columns_ok:
  assumes "format_rounding (single ar)" "arith_ok ar" "n_a ax \<le> 2 ^ 23" "\<forall>s\<in>set strategies. weights_ok ar s"
    "\<forall>s\<in>set strategies. \<forall>f\<in>fst ` set (st_weights s). \<forall>d<n_d ax. unit_day ax T f d"
    "tensor_ok ax T" "length (tn_strat T) = N_STRAT_SLOTS strategies"
  shows "\<exists>T'. compute_cs_columns ar nth_el ax strategies [0..<n_d ax] T = Ok T' \<and> tensor_ok ax T' \<and> tn_mats T' = tn_mats T \<and>
    length (tn_strat T') = N_STRAT_SLOTS strategies \<and> (\<forall>t. tn_strat T' ! slot t SF_pool_b = tn_strat T ! slot t SF_pool_b) \<and>
    (\<forall>s<length strategies. \<forall>d<n_d ax. day_columns_finite ax s d T')"
proof -
  let ?P = "\<lambda>U. tensor_ok ax U \<and> tn_mats U = tn_mats T \<and> length (tn_strat U) = N_STRAT_SLOTS strategies \<and>
    (\<forall>t. tn_strat U ! slot t SF_pool_b = tn_strat T ! slot t SF_pool_b)"
  let ?Q = "\<lambda>x U. snd x < length strategies \<longrightarrow> fst x < n_d ax \<longrightarrow> day_columns_finite ax (snd x) (fst x) U"
  let ?xs = "List.product [0..<n_d ax] [0..<length strategies]"
  let ?step = "\<lambda>U (d, s). cs_columns_of ar nth_el ax strategies d U s"
  have step: "\<exists>V. ?step U x = Ok V \<and> ?P V \<and> ?Q x V \<and> (\<forall>y. ?Q y U \<longrightarrow> ?Q y V)" if x: "x \<in> set ?xs" and P: "?P U" for x U
  proof -
    obtain d s where ds: "x = (d, s)" "d < n_d ax" "s < length strategies" using x by auto
    then have "strategies ! s \<in> set strategies" by simp
    with assms(4,5) P ds(2) have "weights_ok ar (strategies ! s)" "\<forall>f\<in>fst ` set (st_weights (strategies ! s)). unit_day ax U f d"
      by (auto simp: unit_day_def gather_cs_row_def)
    from cs_columns_of_ok [OF assms(1-3) ds(2,3) this(1) _ _ this(2), of nth_el] P show ?thesis unfolding ds(1) by auto
  qed
  have "\<exists>T'. fold_ok ?step T ?xs = Ok T' \<and> ?P T'"
    by (rule fold_ok_total) (use step in blast, simp add: assms(6,7))
  then obtain T' where T': "fold_ok ?step T ?xs = Ok T'" "?P T'" by blast
  have "?P T' \<and> (\<forall>x\<in>set ?xs. ?Q x T')"
  proof (rule fold_ok_establishes [OF _ _ _ T'(1)])
    show "?P V \<and> ?Q x V" if "x \<in> set ?xs" "?P U" "?step U x = Ok V" for U x V using step [OF that(1,2)] that(3) by auto
    show "?Q y V" if "x \<in> set ?xs" "?P U" "?Q y U" "?step U x = Ok V" for U x y V using step [OF that(1,2)] that(3,4) by auto
  qed (simp add: assms(6,7))
  with T' show ?thesis unfolding compute_cs_columns_def fold_ok_product by auto
qed

lemma slot_surj: assumes "i < n * SF_COUNT" shows "\<exists>s<n. \<exists>c. i = slot s c"
proof -
  have "i = (i div 4) * 4 + i mod 4" "i div 4 < n" using assms by (simp_all add: SF_COUNT_def less_mult_imp_div_less)
  moreover have "i mod 4 < 4" by simp
  then consider "i mod 4 = 0" | "i mod 4 = 1" | "i mod 4 = 2" | "i mod 4 = 3" by linarith
  then have "\<exists>c. i mod 4 = (case c of SF_pool_b \<Rightarrow> 0 | SF_pool \<Rightarrow> 1 | SF_score \<Rightarrow> 2 | SF_rank \<Rightarrow> 3)"
    by cases (metis strategy_column.case)+
  ultimately show ?thesis unfolding slot_def SF_COUNT_def by metis
qed

lemma assert_finite_slots:
  assumes "tensor_ok ax T" "length (tn_strat T) = N_STRAT_SLOTS strategies"
    "\<And>s a. s < length strategies \<Longrightarrow> a < n_a ax \<Longrightarrow> all_finite (strat_ts_row ax T (slot s SF_pool_b) a)"
    "\<And>s d. s < length strategies \<Longrightarrow> d < n_d ax \<Longrightarrow> day_columns_finite ax s d T" "i < N_STRAT_SLOTS strategies"
  shows "assert_finite_strat ax T i"
proof -
  obtain s c where sc: "s < length strategies" "i = slot s c" 
    using slot_surj [OF assms(5) [unfolded N_STRAT_SLOTS_def]] by blast
  have "tn_strat T ! i \<in> set (tn_strat T)" using assms(2,5) by simp
  then have ok: "mat_ok ax (tn_strat T ! i)" using assms(1) by (simp add: tensor_ok_def)
  have "is_finite (tn_strat T ! i ! (a * n_d ax + d))" if ad: "a < n_a ax" "d < n_d ax" for a d
  proof (cases "c = SF_pool_b")
    case True
    then have "all_finite (mat_ts_row ax (tn_strat T ! i) a)" using assms(3) [OF sc(1) ad(1)] sc(2) by (simp add: strat_ts_row_def)
    then show ?thesis using mat_ts_row_nth [OF ok ad] length_mat_ts_row [OF ok ad(1)] ad(2) all_finite_nth by metis
  next
    case False
    then have "c \<in> {SF_pool, SF_score, SF_rank}" by (cases c) auto
    then have "all_finite (mat_gather ax (tn_strat T ! i) d)"
      using assms(4) [OF sc(1) ad(2)] sc(2) unfolding day_columns_finite_def by (simp add: strat_gather_cs_row_def) blast
    then show ?thesis using ad(1) by (simp add: mat_gather_def all_finite_def)
  qed
  then show ?thesis by (auto simp: assert_finite_strat_def mat_finite_def list_all_iff)
qed

lemma compute_ts_error:
  assumes "\<forall>f\<in>set order. depth f \<noteq> 9" "compute_ts ar ax p meta order schedule T = Fail e"
  shows "\<exists>x. e = FeatureDate x"
proof (rule fold_ok_error [OF _ assms(2) [unfolded compute_ts_def fold_ok_product]])
  fix U x e assume "x \<in> set (List.product schedule order)" "(case x of (a, f) \<Rightarrow> run_ts_node ar ax p meta a U f) = Fail e"
  then obtain a f where "f \<in> set order" "compute_ts_node ar ax p meta a (\<lambda>g. ts_row ax U g a) f = Fail e"
    by (auto simp: run_ts_node_def bind_ok_Fail_iff)
  then have "e \<noteq> NullCompute" using assms(1) ts_not_null by blast
  then show "\<exists>x. e = FeatureDate x" by (cases e) auto
qed

lemma roots_computed:
  assumes "ALL_NODES doc framework strategies = Ok nodes" "s \<in> set strategies" "f \<in> fst ` set (st_weights s)"
    "valid_strategy doc s"
  shows "f \<in> set (CS_ORDER doc nodes)"
proof -
  have "f \<in> set (all_roots framework strategies)" using assms(2,3) by (auto simp: all_roots_def)
  then have "f \<in> reachable (network doc) (all_roots framework strategies)" unfolding reachable_def by blast
  then have "f \<in> set nodes" using topo_order_facts(2) [OF assms(1) [unfolded ALL_NODES_def]] by simp
  moreover have "depth f = 9" using assms(3,4) by (intro factor_depth [of doc]) (auto simp: valid_strategy_def list_all_iff)
  ultimately show ?thesis by (simp add: CS_ORDER_def set_filter_axis)
qed


lemma check_contract_ok:
  assumes "\<And>f. f \<in> set nodes \<Longrightarrow> fs_must_be_finite (spec_of doc f) \<Longrightarrow> assert_finite ax T f"
    "\<And>i. i < N_STRAT_SLOTS strategies \<Longrightarrow> assert_finite_strat ax T i"
  shows "check_contract doc ax nodes strategies T = Ok T"
proof -
  have "\<exists>U. fold_ok (assert_node doc ax) T nodes = Ok U \<and> U = T"
    by (rule fold_ok_total) (use assms(1) in \<open>auto simp: assert_node_def\<close>)
  moreover have "\<exists>U. fold_ok (assert_slot ax) T [0..<N_STRAT_SLOTS strategies] = Ok U \<and> U = T"
    by (rule fold_ok_total) (use assms(2) in \<open>auto simp: assert_slot_def\<close>)
  ultimately show ?thesis by (simp add: check_contract_def)
qed

lemma compute_features_contract:
  assumes "format_rounding (single ar)" "arith_ok ar" "n_a ax \<le> 2 ^ 23" "status_ok ax pool"
    "ALL_NODES doc framework strategies = Ok nodes" "\<forall>s\<in>set strategies. valid_strategy doc s \<and> weights_ok ar s"
  shows "(\<exists>x. compute_features ar nth_el doc strategies nodes ax meta pool = Fail (BuildTs (FeatureDate x))) \<or>
    (\<exists>T. compute_features ar nth_el doc strategies nodes ax meta pool = Ok T \<and> check_contract doc ax nodes strategies T = Ok T)"
proof (cases "compute_ts ar ax pool meta (TS_ORDER doc nodes) [0..<n_a ax] (new_tensor ax (N_STRAT_SLOTS strategies))")
  case (Fail e)
  have "\<forall>f\<in>set (TS_ORDER doc nodes). depth f \<noteq> 9" by (simp add: TS_ORDER_def set_filter_axis)
  from compute_ts_error [OF this Fail] obtain x where "e = FeatureDate x" by blast
  with Fail show ?thesis by (simp add: compute_features_def)
next
  case (Ok T1)
  have R: "rounding (single ar)" using assms(2) by (simp add: arith_ok_def)
  have ts: "\<forall>f\<in>set (TS_ORDER doc nodes). depth f \<noteq> 9" and cs: "\<forall>f\<in>set (CS_ORDER doc nodes). depth f = 9"
    by (auto simp: TS_ORDER_def CS_ORDER_def set_filter_axis)
  note T1 = compute_ts_declared [OF R assms(4) ts tensor_ok_new Ok]
  have l1: "length (tn_strat T1) = N_STRAT_SLOTS strategies" by (simp add: T1(2) new_tensor_def)
  define T2 where "T2 = compute_ts_columns ax meta strategies [0..<n_a ax] T1"
  note T2 = compute_ts_columns_flags [OF T1(1) l1, where meta = meta, folded T2_def]
  from compute_cs_total [OF assms(2,3) cs T2(1)] obtain T3 where
    T3: "compute_cs ar ax (CS_ORDER doc nodes) [0..<n_d ax] T2 = Ok T3" "tensor_ok ax T3" "tn_strat T3 = tn_strat T2"
      "\<forall>f. depth f \<noteq> 9 \<longrightarrow> tn_mats T3 f = tn_mats T2 f" "\<forall>f\<in>set (CS_ORDER doc nodes). \<forall>d<n_d ax. unit_day ax T3 f d" by blast
  have "\<forall>s\<in>set strategies. \<forall>f\<in>fst ` set (st_weights s). \<forall>d<n_d ax. unit_day ax T3 f d"
    using roots_computed [OF assms(5)] assms(6) T3(5) by blast
  moreover have "\<forall>s\<in>set strategies. weights_ok ar s" "length (tn_strat T3) = N_STRAT_SLOTS strategies"
    using assms(6) T2(3) T3(3) by simp_all
  ultimately obtain T4 where
    T4: "compute_cs_columns ar nth_el ax strategies [0..<n_d ax] T3 = Ok T4" "tensor_ok ax T4" "tn_mats T4 = tn_mats T3"
      "\<forall>t. tn_strat T4 ! slot t SF_pool_b = tn_strat T3 ! slot t SF_pool_b"
      "\<forall>s<length strategies. \<forall>d<n_d ax. day_columns_finite ax s d T4" "length (tn_strat T4) = N_STRAT_SLOTS strategies"
    using compute_cs_columns_ok [OF assms(1-3) _ _ T3(2), of strategies nth_el] by blast
  have "compute_features ar nth_el doc strategies nodes ax meta pool = Ok T4"
    using Ok T3(1) T4(1) by (simp add: compute_features_def T2_def)
  moreover have "check_contract doc ax nodes strategies T4 = Ok T4"
  proof (rule check_contract_ok)
    fix f assume f: "f \<in> set nodes" "fs_must_be_finite (spec_of doc f)"
    show "assert_finite ax T4 f"
    proof (cases "depth f = 9")
      case True
      then have "f \<in> set (CS_ORDER doc nodes)" using f(1) by (simp add: CS_ORDER_def set_filter_axis)
      with T3(5) show ?thesis by (intro assert_finite_unit) (simp add: unit_day_def gather_cs_row_def T4(3))
    next
      case False
      then have "f \<in> set (TS_ORDER doc nodes)" using f(1) by (simp add: TS_ORDER_def set_filter_axis)
      from T1(3) [OF this f(2)] False T3(4) show ?thesis by (simp add: assert_finite_def T4(3) T2(2))
    qed
  next
    show "assert_finite_strat ax T4 i" if "i < N_STRAT_SLOTS strategies" for i
      using assert_finite_slots [OF T4(2,6) _ _ that] T2(4) T3(3) T4(4,5) by (simp add: strat_ts_row_def)
  qed
  ultimately show ?thesis by blast
qed

text \<open>The listing dates that have the form of dates are dates.\<close>

definition dates_ok :: "axes \<Rightarrow> stock_meta \<Rightarrow> bool" where
  "dates_ok ax meta \<longleftrightarrow> list_all (\<lambda>a. list_all (\<lambda>t. length t \<noteq> 8 \<or> is_ok (parse_yyyymmdd t)) [sm_list_date meta ! a, sm_delist_date meta ! a])
     [0..<n_a ax]"

lemma age_row_total: "length t \<noteq> 8 \<or> is_ok (parse_yyyymmdd t) \<Longrightarrow> \<exists>r. age_row ar ax t = Ok r"
  by (cases "parse_yyyymmdd t") (auto simp: age_row_def)

lemma compute_ts_total:
  assumes "dates_ok ax meta" "\<forall>f\<in>set order. depth f \<noteq> 9"
  shows "\<exists>T'. compute_ts ar ax p meta order [0..<n_a ax] T = Ok T'"
proof -
  have "\<exists>T'. fold_ok (\<lambda>U (a, f). run_ts_node ar ax p meta a U f) T (List.product [0..<n_a ax] order) = Ok T' \<and> True"
  proof (rule fold_ok_total)
    fix U x assume x: "x \<in> set (List.product [0..<n_a ax] order)"
    obtain a f where af: "x = (a, f)" "a < n_a ax" "depth f \<noteq> 9" using x assms(2) by auto
    have "\<exists>r. ts_list_age ar ax meta a = Ok r" "\<exists>r. ts_delist_age ar ax meta a = Ok r"
      using assms(1) af(2) by (auto simp: ts_list_age_def ts_delist_age_def dates_ok_def list_all_iff intro!: age_row_total)
    then have "\<exists>r. compute_ts_node ar ax p meta a R f = Ok r" for R
      using af(3) by (cases f) (auto simp: compute_ts_node.simps depth.simps)
    then show "\<exists>V. (case x of (a, f) \<Rightarrow> run_ts_node ar ax p meta a U f) = Ok V \<and> True"
      using af(1) by (auto simp: run_ts_node_Ok)
  qed simp
  then show ?thesis unfolding compute_ts_def fold_ok_product by blast
qed

lemma compute_features_total:
  assumes "format_rounding (single ar)" "arith_ok ar" "n_a ax \<le> 2 ^ 23" "status_ok ax pool" "dates_ok ax meta"
    "ALL_NODES doc framework strategies = Ok nodes" "\<forall>s\<in>set strategies. valid_strategy doc s \<and> weights_ok ar s"
  shows "\<exists>T. compute_features ar nth_el doc strategies nodes ax meta pool = Ok T \<and> check_contract doc ax nodes strategies T = Ok T"
proof -
  have "\<forall>f\<in>set (TS_ORDER doc nodes). depth f \<noteq> 9" by (simp add: TS_ORDER_def set_filter_axis)
  from compute_ts_total [OF assms(5) this] obtain T1 where
    "compute_ts ar ax pool meta (TS_ORDER doc nodes) [0..<n_a ax] (new_tensor ax (N_STRAT_SLOTS strategies)) = Ok T1" by blast
  then have "compute_features ar nth_el doc strategies nodes ax meta pool \<noteq> Fail (BuildTs e)" for e
    by (auto simp: compute_features_def bind_ok_Fail_iff elim!: lift_error.elims)
  with compute_features_contract [OF assms(1-4,6,7), of nth_el meta] show ?thesis by blast
qed

text \<open>The registered strategies are valid.\<close>

lemma registered_valid:
  assumes "format_rounding (single ar)" "single ar (1 / 8) = Fin (1 / 8)"
  shows "valid_strategy doc (strat_0 ar)" "valid_strategy doc (strat_1 ar)"
proof -
  have "\<not> feq (sixths ar k) (Fin 0)" if "k \<in> {-3, -2, -1, 1, 2}" for k
    using sixths_ok [OF assms that] by auto
  then show "valid_strategy doc (strat_0 ar)" "valid_strategy doc (strat_1 ar)"
    by (simp_all add: valid_strategy_def strat_0_def strat_1_def strategy_filters_def spec_simps node_specs split: prod.split)
qed

lemma registered_ok:
  assumes "format_rounding (single ar)" "single ar (1 / 8) = Fin (1 / 8)"
  shows "\<forall>s\<in>set [strat_0 ar, strat_1 ar]. valid_strategy doc s \<and> weights_ok ar s"
  using registered_valid [OF assms] strat_weights_ok [OF assms] by simp

lemma nodes_exist: "\<exists>nodes. ALL_NODES doc framework strategies = Ok nodes"
  using network_topo_order unfolding ALL_NODES_def by blast

text \<open>The nodes that every configuration needs, as the directory of the basic nodes lists them.\<close>

definition basic_nodes :: "node list" where
  "basic_nodes = [Close_raw, Daily_return, Delist_age, Industry_l1, Is_margin, Limit_dn, Limit_up, List_age, Susp]"

text \<open>An input that loads: two trading days, two instruments, no records.\<close>

definition sample_input :: build_input where
  "sample_input = \<lparr>bi_today = ''20240103'', bi_start = ''20150101'',
     bi_trading_days = [[td_row ''CN'' ''20240103'', td_row ''US'' ''20240102''], [td_row ''CN'' ''20240104'', td_row ''CN'' ''20240102'']],
     bi_basic_info = [bi_row ''B'' [], bi_row ''A'' ''20240104'', bi_row ''C'' ''20140102'', bi_row ''A'' []],
     bi_tables = (\<lambda>_. []), bi_update = False, bi_snapshot = None\<rparr>"

lemma sample_input_loads:
  "load_axes (bi_today sample_input) (bi_start sample_input) (bi_trading_days sample_input) (bi_basic_info sample_input) = Ok sample_axes"
  "\<exists>meta. load_stock_meta sample_axes (bi_basic_info sample_input) = Ok meta \<and> dates_ok sample_axes meta"
  "\<exists>pool. load_pit rnd (bi_update sample_input) sample_axes (bi_tables sample_input) (bi_snapshot sample_input) = Ok pool"
proof -
  show "load_axes (bi_today sample_input) (bi_start sample_input) (bi_trading_days sample_input) (bi_basic_info sample_input) = Ok sample_axes"
    using sample_axes_loaded by (simp add: sample_input_def)
  show "\<exists>pool. load_pit rnd (bi_update sample_input) sample_axes (bi_tables sample_input) (bi_snapshot sample_input) = Ok pool"
    by (simp add: load_pit_def apply_meta_overlays_def sample_input_def)
  have "is_date ''20240104''" by code_simp
  then have d1: "ymd_str (cell_yyyymmdd (TextCell ''20240104'')) = ''20240104''" by (rule ymd_str_text)
  have d: "ymd_str (cell_yyyymmdd (TextCell [])) = []"
    "ymd_str (cell_yyyymmdd NullCell) = []" "parse_yyyymmdd ''20240104'' = Ok 19726" by code_simp+
  have i: "ax_code_idx sample_axes ''A'' = Some 0" "ax_code_idx sample_axes ''B'' = Some 1" "ax_code_idx sample_axes ''C'' = None"
    by (simp_all add: sample_axes_def index_map_def)
  show "\<exists>meta. load_stock_meta sample_axes (bi_basic_info sample_input) = Ok meta \<and> dates_ok sample_axes meta"
    by (simp add: load_stock_meta_def sample_input_def meta_row_def bi_row_def cell_str_def i d d1 Let_def dates_ok_def sample_axes_ok
        upt_rec numeral_2_eq_2)
qed

section \<open>Properties\<close>

text \<open>C3. The contract of \<open>build\<close> holds by construction: on any input, with strategies that the registry accepts, \<open>build\<close> can
  only stop on axes or static data that are missing or are no dates, on the snapshot of the last day, or on a listing date
  that is no date. No node without a compute function is met, no score fails, and the final assertions never
  find a value that is not finite in a node that is declared finite or in a column of a strategy.\<close>

theorem build_keeps_contract:
  assumes "format_rounding (single ar)" "arith_ok ar" "ALL_NODES doc framework strategies = Ok nodes"
    "\<forall>s\<in>set strategies. valid_strategy doc s \<and> weights_ok ar s"
    "\<And>ax. load_axes (bi_today inp) (bi_start inp) (bi_trading_days inp) (bi_basic_info inp) = Ok ax \<Longrightarrow> n_a ax \<le> 2 ^ 23"
  shows "case build ar nth_el doc strategies nodes inp of
      Fail e \<Rightarrow> e \<in> range BuildAxes \<union> range BuildPit \<union> range (BuildTs \<circ> FeatureDate)
    | Ok (ax, meta, T) \<Rightarrow> check_contract doc ax nodes strategies T = Ok T"
proof (cases "load_axes (bi_today inp) (bi_start inp) (bi_trading_days inp) (bi_basic_info inp)")
  case ax: (Ok ax)
  show ?thesis
  proof (cases "load_stock_meta ax (bi_basic_info inp)")
    case meta: (Ok meta)
    show ?thesis
    proof (cases "load_pit (single ar) (bi_update inp) ax (bi_tables inp) (bi_snapshot inp)")
      case pit: (Ok pool)
      from compute_features_contract [OF assms(1,2) assms(5) [OF ax] load_pit_status [OF pit] assms(3,4), of nth_el meta]
      show ?thesis by (auto simp: build_def ax meta pit)
    qed (auto simp: build_def ax meta)
  qed (auto simp: build_def ax)
qed (auto simp: build_def)

lemma build_keeps_contract_witness:
  "\<exists>nodes. case build \<lparr>single = f32, double = f64\<rparr> sort_cut (\<lambda>_. ([], [], [])) [strat_0 \<lparr>single = f32, double = f64\<rparr>] nodes sample_input of
      Fail e \<Rightarrow> e \<in> range BuildAxes \<union> range BuildPit \<union> range (BuildTs \<circ> FeatureDate)
    | Ok (ax, meta, T) \<Rightarrow> check_contract (\<lambda>_. ([], [], [])) ax nodes [strat_0 \<lparr>single = f32, double = f64\<rparr>] T = Ok T"
proof -
  let ?ar = "\<lparr>single = f32, double = f64\<rparr>" and ?doc = "\<lambda>_. ([], [], [])"
  have f: "format_rounding (single ?ar)" and e: "single ?ar (1 / 8) = Fin (1 / 8)"
    by (simp_all add: f32_format.format_rounding_axioms f32_eighth)
  obtain nodes where n: "ALL_NODES ?doc basic_nodes [strat_0 ?ar] = Ok nodes" using nodes_exist by blast
  have s: "\<forall>s\<in>set [strat_0 ?ar]. valid_strategy ?doc s \<and> weights_ok ?ar s" using registered_ok [OF f e] by simp
  from build_keeps_contract [OF f arith_ok_ieee n s, of sample_input sort_cut] sample_input_loads(1) show ?thesis
    by (intro exI [of _ nodes]) (simp add: sample_axes_ok)
qed

text \<open>C4. \<open>build\<close> succeeds: when the axes, the static data and the pool have been loaded and the listing dates are
  dates, it returns a tensor for these axes, and the tensor satisfies the contract.\<close>

theorem build_succeeds:
  assumes "format_rounding (single ar)" "arith_ok ar" "ALL_NODES doc framework strategies = Ok nodes"
    "\<forall>s\<in>set strategies. valid_strategy doc s \<and> weights_ok ar s"
    "load_axes (bi_today inp) (bi_start inp) (bi_trading_days inp) (bi_basic_info inp) = Ok ax" "n_a ax \<le> 2 ^ 23"
    "load_stock_meta ax (bi_basic_info inp) = Ok meta" "dates_ok ax meta"
    "load_pit (single ar) (bi_update inp) ax (bi_tables inp) (bi_snapshot inp) = Ok pool"
  shows "\<exists>T. build ar nth_el doc strategies nodes inp = Ok (ax, meta, T) \<and> check_contract doc ax nodes strategies T = Ok T"
  using compute_features_total [OF assms(1,2,6) load_pit_status [OF assms(9)] assms(8,3,4), of nth_el]
  by (auto simp: build_def assms(5,7,9))

lemma build_succeeds_witness:
  "\<exists>nodes meta T. build \<lparr>single = f32, double = f64\<rparr> sort_cut (\<lambda>_. ([], [], []))
     [strat_0 \<lparr>single = f32, double = f64\<rparr>, strat_1 \<lparr>single = f32, double = f64\<rparr>] nodes sample_input = Ok (sample_axes, meta, T)"
proof -
  let ?ar = "\<lparr>single = f32, double = f64\<rparr>" and ?doc = "\<lambda>_. ([], [], [])"
  have f: "format_rounding (single ?ar)" and e: "single ?ar (1 / 8) = Fin (1 / 8)"
    by (simp_all add: f32_format.format_rounding_axioms f32_eighth)
  obtain nodes where n: "ALL_NODES ?doc basic_nodes [strat_0 ?ar, strat_1 ?ar] = Ok nodes" using nodes_exist by blast
  obtain meta where m: "load_stock_meta sample_axes (bi_basic_info sample_input) = Ok meta" "dates_ok sample_axes meta"
    using sample_input_loads(2) by blast
  obtain pool where p: "load_pit (single ?ar) (bi_update sample_input) sample_axes (bi_tables sample_input) (bi_snapshot sample_input) = Ok pool"
    using sample_input_loads(3) by blast
  have "n_a sample_axes \<le> 2 ^ 23" by (simp add: sample_axes_ok)
  from build_succeeds [OF f arith_ok_ieee n registered_ok [OF f e] sample_input_loads(1) this m p, of sort_cut] show ?thesis by blast
qed

end
