(* ===== verification/Causal.thy ===== *)
theory Causal
  imports Build
begin

text \<open>
  The whole of \<open>build\<close> looks ahead nowhere: theory \<open>Lookahead\<close> has it for the time series; here the cross sections
  and the columns of the strategies are added, which calculate day by day, and the composition.
\<close>

section \<open>Tensors that agree up to a day\<close>

definition days_upto :: "axes \<Rightarrow> nat \<Rightarrow> tensor \<Rightarrow> tensor \<Rightarrow> bool" where
  "days_upto ax D T U \<longleftrightarrow> tensor_ok ax T \<and> tensor_ok ax U \<and> length (tn_strat T) = length (tn_strat U) \<and>
     (\<forall>f a d. a < n_a ax \<longrightarrow> d \<le> D \<longrightarrow> tensor_at ax T f a d = tensor_at ax U f a d) \<and>
     (\<forall>i a d. i < length (tn_strat T) \<longrightarrow> a < n_a ax \<longrightarrow> d \<le> D \<longrightarrow> strat_at ax T i a d = strat_at ax U i a d)"

text \<open>Two runs of a loop keep a relation that every pair of steps keeps.\<close>

lemma fold_ok_pair:
  assumes "\<And>s t x u v. x \<in> set xs \<Longrightarrow> P s t \<Longrightarrow> f s x = Ok u \<Longrightarrow> g t x = Ok v \<Longrightarrow> P u v"
    "P s t" "fold_ok f s xs = Ok u" "fold_ok g t xs = Ok v"
  shows "P u v"
  using assms
proof (induction xs arbitrary: s t)
  case (Cons x xs)
  from Cons.prems(3) obtain s' where s': "f s x = Ok s'" "fold_ok f s' xs = Ok u" by (cases "f s x") auto
  from Cons.prems(4) obtain t' where t': "g t x = Ok t'" "fold_ok g t' xs = Ok v" by (cases "g t x") auto
  have "P s' t'" by (rule Cons.prems(1) [OF _ Cons.prems(2) s'(1) t'(1)]) simp
  then show ?case
  proof (rule Cons.IH [OF _ _ s'(2) t'(2), rotated])
    show "P c d" if "y \<in> set xs" "P a b" "f a y = Ok c" "g b y = Ok d" for a b y c d
      using that Cons.prems(1) [of y a b c d] by simp
  qed
next
  case Nil
  from Nil.prems(2-4) show ?case by simp
qed

lemma gather_upto: "days_upto ax D T U \<Longrightarrow> d \<le> D \<Longrightarrow> gather_cs_row ax T f d = gather_cs_row ax U f d"
  by (intro nth_equalityI) (simp_all add: length_gather gather_at days_upto_def)

lemma strat_gather_upto:
  "days_upto ax D T U \<Longrightarrow> d \<le> D \<Longrightarrow> i < length (tn_strat T) \<Longrightarrow> strat_gather_cs_row ax T i d = strat_gather_cs_row ax U i d"
  by (intro nth_equalityI) (simp_all add: strat_gather_at days_upto_def)

lemma tensor_at_scatter:
  "tensor_ok ax T \<Longrightarrow> d < n_d ax \<Longrightarrow> e < n_d ax \<Longrightarrow> a < n_a ax \<Longrightarrow>
   tensor_at ax (scatter_cs_row ax T f d r) g a e = (if g = f \<and> e = d then r ! a else tensor_at ax T g a e)"
  by (simp add: tensor_at_def mat_off_def scatter_cs_row_def tensor_ok_def mat_scatter_nth)

lemma strat_at_scatter_any:
  "tensor_ok ax T \<Longrightarrow> i < length (tn_strat T) \<Longrightarrow> j < length (tn_strat T) \<Longrightarrow> d < n_d ax \<Longrightarrow> e < n_d ax \<Longrightarrow> a < n_a ax \<Longrightarrow>
   strat_at ax (strat_scatter_cs_row ax T i d r) j a e = (if j = i \<and> e = d then r ! a else strat_at ax T j a e)"
  by (auto simp: strat_at_def mat_off_def strat_scatter_cs_row_def tensor_ok_def mat_scatter_nth nth_list_update)

lemma strat_at_features [simp]: "strat_at ax (scatter_cs_row ax T f d r) = strat_at ax T"
  by (simp add: fun_eq_iff strat_at_def)

text \<open>Writing the same row on a day, or any rows on a later day, keeps the agreement.\<close>

lemma days_upto_scatter:
  assumes "days_upto ax D T U" "D < n_d ax" "d < n_d ax" "d \<le> D \<Longrightarrow> r = q"
  shows "days_upto ax D (scatter_cs_row ax T f d r) (scatter_cs_row ax U f d q)"
  using assms by (auto simp: days_upto_def tensor_ok_scatter tensor_at_scatter)

lemma days_upto_strat_scatter:
  assumes "days_upto ax D T U" "D < n_d ax" "d < n_d ax" "i < length (tn_strat T)" "d \<le> D \<Longrightarrow> r = q"
  shows "days_upto ax D (strat_scatter_cs_row ax T i d r) (strat_scatter_cs_row ax U i d q)"
  using assms unfolding days_upto_def
  by (auto simp: tensor_ok_strat_scatter strat_at_scatter_any tensor_at_def)

section \<open>The phases keep the agreement\<close>

lemma run_cs_node_upto:
  assumes "days_upto ax D T U" "D < n_d ax" "d < n_d ax" "run_cs_node ar ax d T f = Ok T'" "run_cs_node ar ax d U f = Ok U'"
  shows "days_upto ax D T' U'"
proof -
  obtain r q where rq: "T' = scatter_cs_row ax T f d r" "U' = scatter_cs_row ax U f d q" "d \<le> D \<Longrightarrow> r = q"
  proof (cases "d \<le> D")
    case True
    then have "gather_cs_row ax T g d = gather_cs_row ax U g d" for g using gather_upto [OF assms(1)] by blast
    from run_cs_node_local [OF this assms(4)] assms(5) that show ?thesis by auto
  next
    case False
    with run_cs_node_scatter [OF assms(4)] run_cs_node_scatter [OF assms(5)] that show ?thesis by blast
  qed
  then show ?thesis using assms(1-3) days_upto_scatter by metis
qed

lemma compute_cs_upto:
  assumes "days_upto ax D T U" "D < n_d ax" "set schedule \<subseteq> {..<n_d ax}" "compute_cs ar ax order schedule T = Ok T'"
    "compute_cs ar ax order schedule U = Ok U'"
  shows "days_upto ax D T' U'"
proof (rule fold_ok_pair [where P = "days_upto ax D", OF _ assms(1) assms(4,5) [unfolded compute_cs_def fold_ok_product]])
  show "days_upto ax D T1 U1" if "x \<in> set (List.product schedule order)" "days_upto ax D T U"
    "(case x of (d, f) \<Rightarrow> run_cs_node ar ax d T f) = Ok T1" "(case x of (d, f) \<Rightarrow> run_cs_node ar ax d U f) = Ok U1" for x T U T1 U1
    using that assms(2,3) by (auto intro: run_cs_node_upto)
qed

text \<open>The rows of a strategy on a day depend on the rows of that day.\<close>

lemma clean_pool_local:
  "(\<And>f. gather_cs_row ax T f d = gather_cs_row ax U f d) \<Longrightarrow> clean_pool ax d T fs b = clean_pool ax d U fs b"
  by (simp add: clean_pool_def)

lemma cs_pool_local:
  assumes "\<And>f. gather_cs_row ax T f d = gather_cs_row ax U f d"
    "strat_gather_cs_row ax T (slot s SF_pool_b) d = strat_gather_cs_row ax U (slot s SF_pool_b) d"
  shows "\<exists>r. cs_pool nth_el ax s spec d T = strat_scatter_cs_row ax T (slot s SF_pool) d r \<and>
    cs_pool nth_el ax s spec d U = strat_scatter_cs_row ax U (slot s SF_pool) d r"
proof -
  have "candidates ax s spec d T = candidates ax s spec d U"
    unfolding candidates_def Let_def assms(2) assms(1) clean_pool_local [OF assms(1)] ..
  then show ?thesis unfolding cs_pool_def Let_def by metis
qed

lemma score_loop_local:
  "(\<And>f. gather_cs_row ax T f d = gather_cs_row ax U f d) \<Longrightarrow> score_loop ar ax d T m ws acc = score_loop ar ax d U m ws acc"
  by (induction ws arbitrary: acc) (auto simp: Let_def)

lemma cs_score_local:
  assumes "\<And>f. gather_cs_row ax T f d = gather_cs_row ax U f d"
    "strat_gather_cs_row ax T (slot s SF_pool) d = strat_gather_cs_row ax U (slot s SF_pool) d" "cs_score ar ax s spec d T = Ok T'"
  shows "\<exists>r. T' = strat_scatter_cs_row ax T (slot s SF_score) d r \<and> cs_score ar ax s spec d U = Ok (strat_scatter_cs_row ax U (slot s SF_score) d r)"
  using assms(3) unfolding cs_score_def Let_def assms(2) score_loop_local [OF assms(1)]
  by (auto simp: bind_ok_Ok_iff split: if_splits)

lemma cs_rank_local:
  assumes "strat_gather_cs_row ax T (slot s SF_pool) d = strat_gather_cs_row ax U (slot s SF_pool) d"
    "strat_gather_cs_row ax T (slot s SF_score) d = strat_gather_cs_row ax U (slot s SF_score) d"
  shows "\<exists>r. cs_rank ar ax s d T = strat_scatter_cs_row ax T (slot s SF_rank) d r \<and> cs_rank ar ax s d U = strat_scatter_cs_row ax U (slot s SF_rank) d r"
proof -
  have "ranking ax s d T = ranking ax s d U" unfolding ranking_def Let_def assms ..
  then show ?thesis unfolding cs_rank_def Let_def by metis
qed

text \<open>A step of two tensors that agree, on a day that both know or on a later one.\<close>

lemma strat_step_upto:
  assumes "days_upto ax D T U" "D < n_d ax" "d < n_d ax" "i < length (tn_strat T)"
    "\<exists>r. T' = strat_scatter_cs_row ax T i d r" "\<exists>r. U' = strat_scatter_cs_row ax U i d r"
    "d \<le> D \<Longrightarrow> \<exists>r. T' = strat_scatter_cs_row ax T i d r \<and> U' = strat_scatter_cs_row ax U i d r"
  shows "days_upto ax D T' U'" "length (tn_strat T') = length (tn_strat T)"
proof -
  obtain r q where rq: "T' = strat_scatter_cs_row ax T i d r" "U' = strat_scatter_cs_row ax U i d q" "d \<le> D \<Longrightarrow> r = q"
  proof (cases "d \<le> D")
    case True
    with assms(7) that show ?thesis by blast
  next
    case False
    with assms(5,6) that show ?thesis by blast
  qed
  then show "days_upto ax D T' U'" using assms(1-4) days_upto_strat_scatter by metis
  show "length (tn_strat T') = length (tn_strat T)" by (simp add: rq(1))
qed

lemma cs_columns_of_upto:
  assumes "days_upto ax D T U" "D < n_d ax" "d < n_d ax" "s < length strategies" "length (tn_strat T) = N_STRAT_SLOTS strategies"
    "cs_columns_of ar nth_el ax strategies d T s = Ok T'" "cs_columns_of ar nth_el ax strategies d U s = Ok U'"
  shows "days_upto ax D T' U' \<and> length (tn_strat T') = N_STRAT_SLOTS strategies"
proof -
  have i: "slot s c < N_STRAT_SLOTS strategies" for c using slot_less [OF assms(4)] by (simp add: N_STRAT_SLOTS_def)
  let ?p = "cs_pool nth_el ax s (strategies ! s) d"
  obtain T2 where T2: "cs_score ar ax s (strategies ! s) d (?p T) = Ok T2" "T' = cs_rank ar ax s d T2"
    using assms(6) by (auto simp: cs_columns_of_def bind_ok_Ok_iff)
  obtain U2 where U2: "cs_score ar ax s (strategies ! s) d (?p U) = Ok U2" "U' = cs_rank ar ax s d U2"
    using assms(7) by (auto simp: cs_columns_of_def bind_ok_Ok_iff)
  have 1: "days_upto ax D (?p T) (?p U)" "length (tn_strat (?p T)) = N_STRAT_SLOTS strategies"
    using strat_step_upto [OF assms(1-3), of "slot s SF_pool" "?p T" "?p U"] assms(5) i
      cs_pool_local [of ax T d T] cs_pool_local [of ax U d U] cs_pool_local [of ax T d U] gather_upto [OF assms(1)] strat_gather_upto [OF assms(1)]
    by simp_all
  have "\<exists>r. T2 = strat_scatter_cs_row ax (?p T) (slot s SF_score) d r" "\<exists>r. U2 = strat_scatter_cs_row ax (?p U) (slot s SF_score) d r"
    using cs_score_local [OF refl refl T2(1)] cs_score_local [OF refl refl U2(1)] by blast+
  moreover have "\<exists>r. T2 = strat_scatter_cs_row ax (?p T) (slot s SF_score) d r \<and> U2 = strat_scatter_cs_row ax (?p U) (slot s SF_score) d r"
    if "d \<le> D"
  proof -
    have "strat_gather_cs_row ax (?p T) (slot s SF_pool) d = strat_gather_cs_row ax (?p U) (slot s SF_pool) d"
      using strat_gather_upto [OF 1(1) that] 1(2) i by simp
    from cs_score_local [OF gather_upto [OF 1(1) that] this T2(1)] U2(1) show ?thesis by auto
  qed
  ultimately have 2: "days_upto ax D T2 U2" "length (tn_strat T2) = N_STRAT_SLOTS strategies"
    using strat_step_upto [OF 1(1) assms(2,3), of "slot s SF_score" T2 U2] 1(2) i by simp_all
  have "\<exists>r. T' = strat_scatter_cs_row ax T2 (slot s SF_rank) d r" "\<exists>r. U' = strat_scatter_cs_row ax U2 (slot s SF_rank) d r"
    using cs_rank_local [OF refl refl, of ar ax s d T2] cs_rank_local [OF refl refl, of ar ax s d U2] T2(2) U2(2) by blast+
  moreover have "\<exists>r. T' = strat_scatter_cs_row ax T2 (slot s SF_rank) d r \<and> U' = strat_scatter_cs_row ax U2 (slot s SF_rank) d r" if "d \<le> D"
  proof -
    have "strat_gather_cs_row ax T2 (slot s c) d = strat_gather_cs_row ax U2 (slot s c) d" for c
      using strat_gather_upto [OF 2(1) that] 2(2) i by simp
    from cs_rank_local [OF this this, of ar] show ?thesis unfolding T2(2) U2(2) .
  qed
  ultimately have 3: "days_upto ax D T' U'" "length (tn_strat T') = N_STRAT_SLOTS strategies"
    using strat_step_upto [OF 2(1) assms(2,3), of "slot s SF_rank" T' U'] 2(2) i by simp_all
  then show ?thesis by simp
qed

lemma compute_cs_columns_upto:
  assumes "days_upto ax D T U" "D < n_d ax" "set schedule \<subseteq> {..<n_d ax}" "length (tn_strat T) = N_STRAT_SLOTS strategies"
    "compute_cs_columns ar nth_el ax strategies schedule T = Ok T'" "compute_cs_columns ar nth_el ax strategies schedule U = Ok U'"
  shows "days_upto ax D T' U' \<and> length (tn_strat T') = N_STRAT_SLOTS strategies"
proof -
  have "days_upto ax D T' U' \<and> length (tn_strat T') = N_STRAT_SLOTS strategies"
  proof (rule fold_ok_pair [where P = "\<lambda>T U. days_upto ax D T U \<and> length (tn_strat T) = N_STRAT_SLOTS strategies",
        OF _ _ assms(5,6) [unfolded compute_cs_columns_def fold_ok_product]])
    show "days_upto ax D T1 U1 \<and> length (tn_strat T1) = N_STRAT_SLOTS strategies"
      if x0: "x \<in> set (List.product schedule [0..<length strategies])" and that: "days_upto ax D T U \<and> length (tn_strat T) = N_STRAT_SLOTS strategies"
        "(case x of (d, s) \<Rightarrow> cs_columns_of ar nth_el ax strategies d T s) = Ok T1"
        "(case x of (d, s) \<Rightarrow> cs_columns_of ar nth_el ax strategies d U s) = Ok U1" for x T U T1 U1
    proof -
      obtain d s where x: "x = (d, s)" "d \<in> set schedule" "s < length strategies" using x0 by auto
      then have d: "d < n_d ax" using assms(3) by auto
      from that(1) have P: "days_upto ax D T U" "length (tn_strat T) = N_STRAT_SLOTS strategies" by simp_all
      from that(2,3) x(1) cs_columns_of_upto [OF P(1) assms(2) d x(3) P(2)] show ?thesis by simp
    qed
  qed (simp add: assms(1,4))
  then show ?thesis .
qed

lemma days_upto_set_row:
  assumes "days_upto ax D T U" "D < n_d ax" "a < n_a ax" "i < length (tn_strat T)" "length r = n_d ax" "length q = n_d ax"
    "\<And>d. d \<le> D \<Longrightarrow> r ! d = q ! d"
  shows "days_upto ax D (set_strat_ts_row ax T i a r) (set_strat_ts_row ax U i a q)"
proof -
  have at: "strat_at ax (set_strat_ts_row ax V i a p) j b e = (if j = i \<and> b = a then p ! e else strat_at ax V j b e)"
    if "tensor_ok ax V" "length p = n_d ax" "i < length (tn_strat V)" "j < length (tn_strat V)" "b < n_a ax" "e < n_d ax" for V p j b e
    using that assms(3) by (auto simp: strat_at_def mat_off_def set_strat_ts_row_def tensor_ok_def put_ts_row_nth nth_list_update)
  show ?thesis using assms unfolding days_upto_def by (auto simp: at tensor_ok_set_strat tensor_at_def)
qed

lemma ts_pool_b_upto:
  assumes "days_upto ax D T U" "D < n_d ax" "a < n_a ax" "slot s SF_pool_b < length (tn_strat T)"
  shows "days_upto ax D (ts_pool_b s spec msk a ax meta T) (ts_pool_b s spec msk a ax meta U)"
proof -
  have row: "ts_row ax T f a ! d = ts_row ax U f a ! d" if "d \<le> D" for f d
    using assms that by (simp add: days_upto_def ts_row_at)
  have nth: "map F [0..<n_d ax] ! d = map G [0..<n_d ax] ! d" if "d \<le> D" "F d = G d" for F G :: "nat \<Rightarrow> fval" and d
    using that assms(2) by simp
  show ?thesis unfolding ts_pool_b_def Let_def
    by (rule days_upto_set_row [OF assms], simp, simp, rule nth, assumption, simp only: row)
qed

lemma compute_ts_columns_upto:
  assumes "days_upto ax D T U" "D < n_d ax" "length (tn_strat T) = N_STRAT_SLOTS strategies"
  shows "days_upto ax D (compute_ts_columns ax meta strategies [0..<n_a ax] T) (compute_ts_columns ax meta strategies [0..<n_a ax] U)"
proof -
  let ?xs = "List.product [0..<n_a ax] [0..<length strategies]" and ?step = "\<lambda>U (a, s). ts_columns_of ax meta strategies a U s"
  have "days_upto ax D (foldl ?step T xs) (foldl ?step U xs)" if "set xs \<subseteq> set ?xs" for xs
    using assms(1,3) that
  proof (induction xs arbitrary: T U)
    case (Cons x xs)
    obtain a s where as: "x = (a, s)" "a < n_a ax" "s < length strategies" using Cons.prems(3) by auto
    have "slot s SF_pool_b < length (tn_strat T)" using slot_less [OF as(3)] Cons.prems(2) by (simp add: N_STRAT_SLOTS_def)
    then have "days_upto ax D (?step T x) (?step U x)" "length (tn_strat (?step T x)) = N_STRAT_SLOTS strategies"
      using ts_pool_b_upto [OF Cons.prems(1) assms(2) as(2)] Cons.prems(2) by (simp_all add: as(1) ts_columns_of_def ts_pool_b_def Let_def)
    with Cons.IH Cons.prems(3) show ?case by simp
  qed simp
  then show ?thesis unfolding compute_ts_columns_def foldl_product by simp
qed

lemma lift_error_Ok [simp]: "lift_error h x = Ok y \<longleftrightarrow> x = Ok y"
  by (cases x) auto

lemma check_contract_same: "check_contract doc ax nodes strategies T = Ok U \<Longrightarrow> U = T"
proof -
  have 1: "V = T" if "fold_ok (assert_node doc ax) T nodes = Ok V" for V
    by (rule fold_ok_invariant [where P = "\<lambda>V. V = T", OF _ refl that]) (auto simp: assert_node_def split: if_splits)
  have 2: "U = T" if "fold_ok (assert_slot ax) T is = Ok U" for U "is"
    by (rule fold_ok_invariant [where P = "\<lambda>V. V = T", OF _ refl that]) (auto simp: assert_slot_def split: if_splits)
  assume "check_contract doc ax nodes strategies T = Ok U"
  with 1 2 show ?thesis by (auto simp: check_contract_def bind_ok_Ok_iff)
qed

lemma build_steps:
  "build ar nth_el doc strategies nodes inp = Ok (ax, meta, T) \<longleftrightarrow>
     load_axes (bi_today inp) (bi_start inp) (bi_trading_days inp) (bi_basic_info inp) = Ok ax \<and>
     load_stock_meta ax (bi_basic_info inp) = Ok meta \<and>
     (\<exists>pool. load_pit (single ar) (bi_update inp) ax (bi_tables inp) (bi_snapshot inp) = Ok pool \<and>
       compute_features ar nth_el doc strategies nodes ax meta pool = Ok T) \<and> check_contract doc ax nodes strategies T = Ok T"
  using check_contract_same by (fastforce simp: build_def bind_ok_Ok_iff)

lemma compute_features_upto:
  assumes "grids_upto ax D p q" "\<And>a. a < n_a ax \<Longrightarrow> events_upto D a p q" "D < n_d ax" "rounding (single ar)" "status_ok ax p" "status_ok ax q"
    "compute_features ar nth_el doc strategies nodes ax meta p = Ok T" "compute_features ar nth_el doc strategies nodes ax meta q = Ok U"
  shows "days_upto ax D T U" "length (tn_strat T) = N_STRAT_SLOTS strategies"
proof -
  let ?N = "new_tensor ax (N_STRAT_SLOTS strategies)" and ?c = "compute_ts_columns ax meta strategies [0..<n_a ax]"
  obtain T1 T3 where T: "compute_ts ar ax p meta (TS_ORDER doc nodes) [0..<n_a ax] ?N = Ok T1"
    "compute_cs ar ax (CS_ORDER doc nodes) [0..<n_d ax] (?c T1) = Ok T3" "compute_cs_columns ar nth_el ax strategies [0..<n_d ax] T3 = Ok T"
    using assms(7) by (auto simp: compute_features_def bind_ok_Ok_iff)
  obtain U1 U3 where U: "compute_ts ar ax q meta (TS_ORDER doc nodes) [0..<n_a ax] ?N = Ok U1"
    "compute_cs ar ax (CS_ORDER doc nodes) [0..<n_d ax] (?c U1) = Ok U3" "compute_cs_columns ar nth_el ax strategies [0..<n_d ax] U3 = Ok U"
    using assms(8) by (auto simp: compute_features_def bind_ok_Ok_iff)
  have ts: "\<forall>f\<in>set (TS_ORDER doc nodes). depth f \<noteq> 9" and cs: "\<forall>f\<in>set (CS_ORDER doc nodes). depth f = 9"
    by (auto simp: TS_ORDER_def CS_ORDER_def set_filter_axis)
  note k = compute_ts_declared [OF assms(4,5) ts tensor_ok_new T(1)] compute_ts_declared [OF assms(4,6) ts tensor_ok_new U(1)]
  have "tensors_upto ax D ?N ?N" by (simp add: tensors_upto_def rows_sim_def tensor_ok_new length_ts_row sim_refl)
  from compute_ts_upto [OF assms(1,2) _ assms(3) this T(1)] U(1) have "tensors_upto ax D T1 U1" by (simp add: subset_iff)
  then have "tensor_at ax T1 f a d = tensor_at ax U1 f a d" if "a < n_a ax" "d \<le> D" for f a d
    using that k(1,4) assms(3) rows_sim_nth [of D "n_d ax" "\<lambda>g. ts_row ax T1 g a" "\<lambda>g. ts_row ax U1 g a"]
    by (auto simp: tensors_upto_def ts_row_at [symmetric])
  then have 1: "days_upto ax D T1 U1" using k by (simp add: days_upto_def strat_at_def)
  have l: "length (tn_strat T1) = N_STRAT_SLOTS strategies" by (simp add: k(2) new_tensor_def)
  have "days_upto ax D T3 U3" by (rule compute_cs_upto [OF compute_ts_columns_upto [OF 1 assms(3) l] assms(3) _ T(2) U(2)]) auto
  moreover have "length (tn_strat T3) = N_STRAT_SLOTS strategies"
  proof -
    have "tn_strat T3 = tn_strat (?c T1)"
      by (rule fold_ok_invariant [where P = "\<lambda>V. tn_strat V = tn_strat (?c T1)", OF _ refl T(2) [unfolded compute_cs_def fold_ok_product]])
        (auto dest!: run_cs_node_scatter)
    then show ?thesis using compute_ts_columns_flags(3) [OF k(1) l] by simp
  qed
  ultimately show "days_upto ax D T U" "length (tn_strat T) = N_STRAT_SLOTS strategies"
    using compute_cs_columns_upto [OF _ assms(3) _ _ T(3) U(3)] by (simp_all add: subset_iff)
qed

section \<open>Properties\<close>

text \<open>C1. The whole program state that \<open>build\<close> makes is free of look-ahead. For any day \<open>D\<close>, building from only those records that were
  visible by \<open>D\<close> succeeds when building from all of them does, and gives, up to day \<open>D\<close>, the same value of every node - basic
  data, filters and ranked factors - and the same whitelist, pool, score and rank of every strategy.\<close>

theorem build_no_look_ahead:
  assumes "format_rounding (single ar)" "arith_ok ar" "ALL_NODES doc framework strategies = Ok nodes"
    "\<forall>s\<in>set strategies. valid_strategy doc s \<and> weights_ok ar s"
    "build ar nth_el doc strategies nodes inp = Ok (ax, meta, T)" "n_a ax \<le> 2 ^ 23" "dates_ok ax meta"
    "\<forall>t. fits (bi_tables inp t)" "D < n_d ax"
  shows "\<exists>T'. build ar nth_el doc strategies nodes (inp\<lparr>bi_tables := known_tables ax D (bi_tables inp)\<rparr>) = Ok (ax, meta, T') \<and>
    (\<forall>f a d. a < n_a ax \<and> d \<le> D \<longrightarrow> tensor_at ax T f a d = tensor_at ax T' f a d) \<and>
    (\<forall>s c a d. s < length strategies \<and> a < n_a ax \<and> d \<le> D \<longrightarrow> strat_at ax T (slot s c) a d = strat_at ax T' (slot s c) a d)"
proof -
  from assms(5) obtain pool where l: "load_axes (bi_today inp) (bi_start inp) (bi_trading_days inp) (bi_basic_info inp) = Ok ax"
    "load_stock_meta ax (bi_basic_info inp) = Ok meta" "load_pit (single ar) (bi_update inp) ax (bi_tables inp) (bi_snapshot inp) = Ok pool"
    "compute_features ar nth_el doc strategies nodes ax meta pool = Ok T" unfolding build_steps by blast
  have "axes_ok ax" using loaded_axes [OF l(1)] by blast
  from load_pit_upto [OF this assms(8,9) l(3)] obtain q where
    q: "load_pit (single ar) (bi_update inp) ax (known_tables ax D (bi_tables inp)) (bi_snapshot inp) = Ok q" "grids_upto ax D pool q"
    "\<And>a. a < n_a ax \<Longrightarrow> events_upto D a pool q" by blast
  note s = load_pit_status [OF l(3)] load_pit_status [OF q(1)]
  from compute_features_total [OF assms(1,2,6) s(2) assms(7,3,4), of nth_el] obtain T' where
    T': "compute_features ar nth_el doc strategies nodes ax meta q = Ok T'" "check_contract doc ax nodes strategies T' = Ok T'" by blast
  have R: "rounding (single ar)" using assms(2) by (simp add: arith_ok_def)
  note u = compute_features_upto [OF q(2,3) assms(9) R s l(4) T'(1)]
  then have "slot s c < length (tn_strat T)" if "s < length strategies" for s c
    using slot_less [OF that] by (simp add: N_STRAT_SLOTS_def)
  moreover have "build ar nth_el doc strategies nodes (inp\<lparr>bi_tables := known_tables ax D (bi_tables inp)\<rparr>) = Ok (ax, meta, T')"
    unfolding build_steps using l(1,2) q(1) T' by auto
  ultimately show ?thesis using u(1) by (auto simp: days_upto_def)
qed

lemma build_no_look_ahead_witness:
  "\<exists>nodes meta T T'.
     build \<lparr>single = f32, double = f64\<rparr> sort_cut (\<lambda>_. ([], [], [])) [strat_0 \<lparr>single = f32, double = f64\<rparr>] nodes
       (sample_input\<lparr>bi_tables := \<lambda>_. [[td_row ''A'' ''20240102'']]\<rparr>) = Ok (sample_axes, meta, T) \<and>
     build \<lparr>single = f32, double = f64\<rparr> sort_cut (\<lambda>_. ([], [], [])) [strat_0 \<lparr>single = f32, double = f64\<rparr>] nodes
       (sample_input\<lparr>bi_tables := known_tables sample_axes 0 (\<lambda>_. [[td_row ''A'' ''20240102'']])\<rparr>) = Ok (sample_axes, meta, T') \<and>
     tensor_at sample_axes T Low_mc 1 0 = tensor_at sample_axes T' Low_mc 1 0 \<and>
     strat_at sample_axes T (slot 0 SF_rank) 1 0 = strat_at sample_axes T' (slot 0 SF_rank) 1 0"
proof -
  let ?ar = "\<lparr>single = f32, double = f64\<rparr>" and ?doc = "\<lambda>_. ([], [], [])"
  let ?inp = "sample_input\<lparr>bi_tables := \<lambda>_. [[td_row ''A'' ''20240102'']]\<rparr>"
  have f: "format_rounding (single ?ar)" and e: "single ?ar (1 / 8) = Fin (1 / 8)"
    by (simp_all add: f32_format.format_rounding_axioms f32_eighth)
  obtain nodes where n: "ALL_NODES ?doc basic_nodes [strat_0 ?ar] = Ok nodes" using nodes_exist by blast
  have s: "\<forall>s\<in>set [strat_0 ?ar]. valid_strategy ?doc s \<and> weights_ok ?ar s" using registered_ok [OF f e] by simp
  obtain meta where m: "load_stock_meta sample_axes (bi_basic_info sample_input) = Ok meta" "dates_ok sample_axes meta"
    using sample_input_loads(2) by blast
  obtain pool where p: "load_pit (single ?ar) (bi_update ?inp) sample_axes (bi_tables ?inp) (bi_snapshot ?inp) = Ok pool"
    by (simp add: load_pit_def apply_meta_overlays_def sample_input_def)
  have na: "n_a sample_axes \<le> 2 ^ 23" and fit: "\<forall>t. fits (bi_tables ?inp t)" and d: "0 < n_d sample_axes"
    by (simp_all add: sample_axes_ok fits_def)
  from compute_features_total [OF f arith_ok_ieee na load_pit_status [OF p] m(2) n s, of sort_cut] obtain T where
    "compute_features ?ar sort_cut ?doc [strat_0 ?ar] nodes sample_axes meta pool = Ok T" "check_contract ?doc sample_axes nodes [strat_0 ?ar] T = Ok T" by blast
  with p m(1) sample_input_loads(1) have b: "build ?ar sort_cut ?doc [strat_0 ?ar] nodes ?inp = Ok (sample_axes, meta, T)"
    unfolding build_steps by auto
  from build_no_look_ahead [OF f arith_ok_ieee n s b na m(2) fit d] obtain T' where T':
    "build ?ar sort_cut ?doc [strat_0 ?ar] nodes (?inp\<lparr>bi_tables := known_tables sample_axes 0 (bi_tables ?inp)\<rparr>) = Ok (sample_axes, meta, T')"
    "\<forall>f a d. a < n_a sample_axes \<and> d \<le> 0 \<longrightarrow> tensor_at sample_axes T f a d = tensor_at sample_axes T' f a d"
    "\<forall>s c a d. s < length [strat_0 ?ar] \<and> a < n_a sample_axes \<and> d \<le> 0 \<longrightarrow> strat_at sample_axes T (slot s c) a d = strat_at sample_axes T' (slot s c) a d"
    by blast
  then show ?thesis using b by (intro exI [of _ nodes] exI [of _ meta] exI [of _ T] exI [of _ T']) (simp add: sample_axes_ok)
qed

end
