(* ===== verification/Selection.thy ===== *)
theory Selection
  imports Causal
begin

text \<open>
  What the columns of a strategy mean in the tensor that \<open>build\<close> returns (\<open>cpp/src/feature/build.cpp\<close> composed with
  \<open>cpp/src/strategy/columns.cpp\<close>): the whitelist in terms of the basic nodes and the static data, and the pool, the score
  and the rank of every day in terms of the final tensor. This is the contract that the backtest reads.
\<close>

section \<open>The whitelist\<close>

definition whitelisted :: "axes \<Rightarrow> stock_meta \<Rightarrow> strategy_spec \<Rightarrow> tensor \<Rightarrow> nat \<Rightarrow> nat \<Rightarrow> bool" where
  "whitelisted ax meta spec T a d \<longleftrightarrow>
     (let pool = st_pool spec; i = trunc (tensor_at ax T Industry_l1 a d) in
      in_whitelist (sm_exchange meta ! a) (ps_exchange_wl pool) \<and> in_whitelist (sm_list_sector meta ! a) (ps_list_sector_wl pool) \<and>
      i > 0 \<and> i < int industry_count \<and> industry_l1_whitelist_mask (ps_industry_l1_wl pool) ! nat i \<and>
      is_finite (tensor_at ax T List_age a d) \<and> \<not> flag (tensor_at ax T Susp a d) \<and> \<not> is_finite (tensor_at ax T Delist_age a d) \<and>
      (ps_margin_policy pool = Exclude \<longrightarrow> \<not> flag (tensor_at ax T Is_margin a d)) \<and>
      (ps_margin_policy pool = Only \<longrightarrow> flag (tensor_at ax T Is_margin a d)))"

lemma ts_pool_b_whitelist:
  assumes "tensor_ok ax T" "a < n_a ax"
  shows "ts_pool_b s spec (industry_l1_whitelist_mask (ps_industry_l1_wl (st_pool spec))) a ax meta T =
    set_strat_ts_row ax T (slot s SF_pool_b) a (map (\<lambda>d. of_flag (whitelisted ax meta spec T a d)) [0..<n_d ax])"
  using assms unfolding ts_pool_b_def Let_def
  by (intro arg_cong [where f = "set_strat_ts_row ax T (slot s SF_pool_b) a"] map_cong refl arg_cong [where f = of_flag])
    (auto simp: whitelisted_def ts_row_at Let_def split: margin_policy.splits)

lemma whitelisted_mats: "(\<And>f. depth f \<noteq> 9 \<Longrightarrow> tensor_at ax T f a d = tensor_at ax U f a d) \<Longrightarrow> whitelisted ax meta spec T a d = whitelisted ax meta spec U a d"
proof -
  assume h: "\<And>f. depth f \<noteq> 9 \<Longrightarrow> tensor_at ax T f a d = tensor_at ax U f a d"
  have "f \<in> {Industry_l1, List_age, Susp, Delist_age, Is_margin} \<Longrightarrow> tensor_at ax T f a d = tensor_at ax U f a d" for f by (rule h) (auto simp: depth.simps)
  then show ?thesis by (simp add: whitelisted_def)
qed

lemma strat_at_set_row:
  assumes "tensor_ok ax T" "a < n_a ax" "b < n_a ax" "length r = n_d ax" "i < length (tn_strat T)" "j < length (tn_strat T)" "d < n_d ax"
  shows "strat_at ax (set_strat_ts_row ax T i a r) j b d = (if j = i \<and> b = a then r ! d else strat_at ax T j b d)"
  using assms by (auto simp: strat_at_def mat_off_def set_strat_ts_row_def tensor_ok_def put_ts_row_nth nth_list_update)

lemma compute_ts_columns_whitelist:
  fixes strategies :: "strategy_spec list" and meta :: stock_meta
  assumes "tensor_ok ax T" "length (tn_strat T) = N_STRAT_SLOTS strategies" "s < length strategies" "a < n_a ax" "d < n_d ax"
  shows "strat_at ax (compute_ts_columns ax meta strategies [0..<n_a ax] T) (slot s SF_pool_b) a d =
    of_flag (whitelisted ax meta (strategies ! s) T a d)"
proof -
  define T' where "T' = compute_ts_columns ax meta strategies [0..<n_a ax] T"
  let ?P = "\<lambda>U. tensor_ok ax U \<and> tn_mats U = tn_mats T \<and> length (tn_strat U) = N_STRAT_SLOTS strategies"
  let ?Q = "\<lambda>x U. fst x < n_a ax \<longrightarrow> snd x < length strategies \<longrightarrow>
    strat_at ax U (slot (snd x) SF_pool_b) (fst x) d = of_flag (whitelisted ax meta (strategies ! snd x) T (fst x) d)"
  let ?step = "\<lambda>U (a, s). ts_columns_of ax meta strategies a U s"
  have "?P T' \<and> (\<forall>x\<in>set (List.product [0..<n_a ax] [0..<length strategies]). ?Q x T')"
  proof (rule fold_ok_establishes [where f = "\<lambda>U x. Ok (?step U x)" and P = ?P and Q = ?Q])
    show "fold_ok (\<lambda>U x. Ok (?step U x)) T (List.product [0..<n_a ax] [0..<length strategies]) = Ok T'"
      unfolding fold_ok_foldl T'_def compute_ts_columns_def foldl_product ..
    fix U x V y assume x: "x \<in> set (List.product [0..<n_a ax] [0..<length strategies])" and P: "?P U" and st: "Ok (?step U x) = Ok V"
    obtain b t where bt: "x = (b, t)" "b < n_a ax" "t < length strategies" using x by auto
    let ?r = "map (\<lambda>d. of_flag (whitelisted ax meta (strategies ! t) T b d)) [0..<n_d ax]"
    have w: "whitelisted ax meta (strategies ! t) U b e = whitelisted ax meta (strategies ! t) T b e" for e
      by (rule whitelisted_mats) (use P in \<open>simp add: tensor_at_def\<close>)
    have V: "V = set_strat_ts_row ax U (slot t SF_pool_b) b ?r"
      using st bt P ts_pool_b_whitelist [of ax U b t "strategies ! t" meta] by (simp add: ts_columns_of_def w)
    have i: "slot u SF_pool_b < length (tn_strat U)" if "u < length strategies" for u
      using P slot_less [OF that] by (simp add: N_STRAT_SLOTS_def)
    show "?P V \<and> ?Q x V" using P bt i [OF bt(3)] assms(5) unfolding V by (simp add: tensor_ok_set_strat strat_at_set_row)
    show "?Q y V" if "?Q y U" using that P bt i assms(5) unfolding V by (auto simp: strat_at_set_row)
  qed (simp add: assms(1,2))
  moreover have "(a, s) \<in> set (List.product [0..<n_a ax] [0..<length strategies])" using assms(3,4) by simp
  ultimately have "?Q (a, s) T'" by (rule conjunct2 [THEN bspec])
  with assms(3,4) show ?thesis by (simp add: T'_def)
qed

section \<open>The pool, the score and the rank of a day\<close>

definition pool_column_ok :: "axes \<Rightarrow> strategy_spec \<Rightarrow> nat \<Rightarrow> nat \<Rightarrow> tensor \<Rightarrow> bool" where
  "pool_column_ok ax spec s d T \<longleftrightarrow>
     (let E = {a \<in> {..<n_a ax}. eligible ax s spec d T a}; M = members ax T (slot s SF_pool) d;
          K = (\<lambda>a. tensor_at ax T (ps_rank_key (st_pool spec)) a d)
      in M \<subseteq> E \<and> card M = pool_limit spec (card E) \<and> (\<forall>a\<in>M. \<forall>b\<in>E - M. before (ps_rank_asc (st_pool spec)) (K a) (K b)) \<and>
         (\<forall>a<n_a ax. strat_at ax T (slot s SF_pool) a d = of_flag (a \<in> M)))"

definition score_column_ok :: "axes \<Rightarrow> nat \<Rightarrow> nat \<Rightarrow> tensor \<Rightarrow> bool" where
  "score_column_ok ax s d T \<longleftrightarrow> (\<forall>a<n_a ax. \<exists>r. strat_at ax T (slot s SF_score) a d = Fin r \<and> \<bar>r\<bar> \<le> 1 \<and>
     (flag (strat_at ax T (slot s SF_pool) a d) \<or> r = 0))"

text \<open>The scores of the pool are the weighted sums of the percentiles of the day, divided by the sum of the absolute weights.\<close>

definition score_column_exact :: "arith \<Rightarrow> axes \<Rightarrow> strategy_spec \<Rightarrow> nat \<Rightarrow> nat \<Rightarrow> tensor \<Rightarrow> bool" where
  "score_column_exact ar ax spec s d T \<longleftrightarrow>
     (\<exists>acc. score_loop ar ax d T (strat_gather_cs_row ax T (slot s SF_pool) d) (st_weights spec) (replicate (n_a ax) (Fin 0)) = Ok acc \<and>
       (\<forall>a<n_a ax. strat_at ax T (slot s SF_score) a d =
         (if flag (strat_at ax T (slot s SF_pool) a d) then fdiv (single ar) (acc ! a) (weight_sum ar (st_weights spec)) else Fin 0)))"

definition rank_column_ok :: "axes \<Rightarrow> nat \<Rightarrow> nat \<Rightarrow> tensor \<Rightarrow> bool" where
  "rank_column_ok ax s d T \<longleftrightarrow> (\<forall>a<n_a ax. strat_at ax T (slot s SF_rank) a d =
     Fin (if a \<in> rankable ax s d T then real (Suc (card {b \<in> rankable ax s d T. outranks ax s d T b a})) else 0))"

definition day_selected :: "arith \<Rightarrow> axes \<Rightarrow> strategy_spec \<Rightarrow> nat \<Rightarrow> nat \<Rightarrow> tensor \<Rightarrow> bool" where
  "day_selected ar ax spec s d T \<longleftrightarrow> pool_column_ok ax spec s d T \<and> score_column_ok ax s d T \<and> score_column_exact ar ax spec s d T \<and>
     rank_column_ok ax s d T"

text \<open>Each of them reads only the nodes and the row of that strategy on that day.\<close>

definition same_day :: "axes \<Rightarrow> nat \<Rightarrow> nat \<Rightarrow> strategy_column list \<Rightarrow> tensor \<Rightarrow> tensor \<Rightarrow> bool" where
  "same_day ax s d cs T U \<longleftrightarrow> tn_mats T = tn_mats U \<and> (\<forall>c\<in>set cs. \<forall>a<n_a ax. strat_at ax T (slot s c) a d = strat_at ax U (slot s c) a d)"

lemma same_day_at: "same_day ax s d cs T U \<Longrightarrow> c \<in> set cs \<Longrightarrow> a < n_a ax \<Longrightarrow> strat_at ax T (slot s c) a d = strat_at ax U (slot s c) a d"
  by (simp add: same_day_def)

lemma same_day_mats: "same_day ax s d cs T U \<Longrightarrow> tensor_at ax T = tensor_at ax U"
  by (simp add: same_day_def tensor_at_def fun_eq_iff)

lemma same_day_sub: "same_day ax s d cs T U \<Longrightarrow> set cs' \<subseteq> set cs \<Longrightarrow> same_day ax s d cs' T U"
  by (auto simp: same_day_def)

lemma pool_column_local:
  assumes "same_day ax s d [SF_pool_b, SF_pool] T U" "pool_column_ok ax spec s d T"
  shows "pool_column_ok ax spec s d U"
proof -
  note at = same_day_at [OF assms(1)]
  have e: "{a \<in> {..<n_a ax}. eligible ax s spec d U a} = {a \<in> {..<n_a ax}. eligible ax s spec d T a}"
    using at by (auto simp: eligible_def same_day_mats [OF assms(1)])
  have m: "members ax U (slot s SF_pool) d = members ax T (slot s SF_pool) d"
    using at by (auto simp: members_def)
  from assms(2) at show ?thesis unfolding pool_column_ok_def Let_def e m same_day_mats [OF assms(1)] by simp
qed

lemma score_column_local:
  "same_day ax s d [SF_pool, SF_score] T U \<Longrightarrow> score_column_ok ax s d T \<Longrightarrow> score_column_ok ax s d U"
  using same_day_at [of ax s d "[SF_pool, SF_score]" T U] by (simp add: score_column_ok_def)

lemma score_sum_local: "tn_mats T = tn_mats U \<Longrightarrow> score_loop ar ax d T msk ws acc = score_loop ar ax d U msk ws acc"
  by (induction ar ax d T msk ws acc rule: score_loop.induct) (simp_all add: gather_cs_row_def Let_def)

lemma score_exact_local:
  assumes "same_day ax s d [SF_pool, SF_score] T U" "score_column_exact ar ax spec s d T"
  shows "score_column_exact ar ax spec s d U"
proof -
  note at = same_day_at [OF assms(1)]
  have "strat_gather_cs_row ax U (slot s SF_pool) d = strat_gather_cs_row ax T (slot s SF_pool) d"
    by (rule nth_equalityI) (simp_all add: strat_gather_at at)
  moreover have "score_loop ar ax d T = score_loop ar ax d U"
    using assms(1) by (intro ext score_sum_local) (simp add: same_day_def)
  ultimately show ?thesis using assms(2) at by (simp add: score_column_exact_def)
qed

lemma rankable_local:
  assumes "same_day ax s d [SF_pool, SF_score] T U"
  shows "rankable ax s d T = rankable ax s d U" "a < n_a ax \<Longrightarrow> b < n_a ax \<Longrightarrow> outranks ax s d T b a = outranks ax s d U b a"
  using same_day_at [OF assms] by (auto simp: rankable_def outranks_def)

lemma rank_column_local:
  assumes "same_day ax s d [SF_pool, SF_score, SF_rank] T U" "rank_column_ok ax s d T"
  shows "rank_column_ok ax s d U"
proof -
  have s: "same_day ax s d [SF_pool, SF_score] T U" by (rule same_day_sub [OF assms(1)]) auto
  have "{b \<in> rankable ax s d U. outranks ax s d T b a} = {b \<in> rankable ax s d U. outranks ax s d U b a}" if "a < n_a ax" for a
    using rankable_local(2) [OF s that] by (auto simp: rankable_def)
  with assms(2) same_day_at [OF assms(1)] show ?thesis by (simp add: rank_column_ok_def rankable_local(1) [OF s])
qed

lemma day_selected_local:
  assumes "same_day ax s d [SF_pool_b, SF_pool, SF_score, SF_rank] T U" "day_selected ar ax spec s d T"
  shows "day_selected ar ax spec s d U"
proof -
  have "same_day ax s d [SF_pool_b, SF_pool] T U" and sc: "same_day ax s d [SF_pool, SF_score] T U"
    and "same_day ax s d [SF_pool, SF_score, SF_rank] T U"
    by (rule same_day_sub [OF assms(1)], simp)+
  note l = pool_column_local [OF this(1)] score_column_local [OF sc] score_exact_local [OF sc] rank_column_local [OF this(3)]
  from assms(2) show ?thesis unfolding day_selected_def by (intro conjI l) simp_all
qed

text \<open>The three steps of a day make its columns what they should be and change nothing else.\<close>

lemma cs_columns_of_selected:
  assumes "nth_element nth_el" "format_rounding (single ar)" "arith_ok ar" "n_a ax \<le> 2 ^ 23" "d < n_d ax" "s < length strategies"
    "weights_ok ar (strategies ! s)" "tensor_ok ax T" "length (tn_strat T) = N_STRAT_SLOTS strategies"
    "\<forall>f\<in>fst ` set (st_weights (strategies ! s)). unit_day ax T f d" "cs_columns_of ar nth_el ax strategies d T s = Ok T'"
  shows "tensor_ok ax T'" "tn_mats T' = tn_mats T" "length (tn_strat T') = N_STRAT_SLOTS strategies"
    "day_selected ar ax (strategies ! s) s d T'"
    "t < length strategies \<Longrightarrow> e < n_d ax \<Longrightarrow> a < n_a ax \<Longrightarrow> (t, e) \<noteq> (s, d) \<or> c = SF_pool_b \<Longrightarrow>
      strat_at ax T' (slot t c) a e = strat_at ax T (slot t c) a e"
proof -
  have i: "slot t c < N_STRAT_SLOTS strategies" if "t < length strategies" for t c using slot_less [OF that] by (simp add: N_STRAT_SLOTS_def)
  let ?spec = "strategies ! s"
  define T1 where "T1 = cs_pool nth_el ax s ?spec d T"
  obtain p where p: "T1 = strat_scatter_cs_row ax T (slot s SF_pool) d p" unfolding T1_def using cs_pool_row by blast
  have T1: "tensor_ok ax T1" "tn_mats T1 = tn_mats T" "length (tn_strat T1) = N_STRAT_SLOTS strategies"
    using assms(8,9) i [OF assms(6)] by (auto simp: p)
  have "\<forall>f\<in>fst ` set (st_weights ?spec). \<forall>a<n_a ax. flag (strat_at ax T1 (slot s SF_pool) a d) \<longrightarrow> is_finite (tensor_at ax T1 f a d)"
    using assms(10) by (auto simp: unit_day_def gather_cs_row_def mat_gather_def tensor_at_def mat_off_def T1(2) in_unit_finite)
  from cs_score_ok [OF assms(2-4,7) this] obtain q where
    q: "cs_score ar ax s ?spec d T1 = Ok (strat_scatter_cs_row ax T1 (slot s SF_score) d q)"
      "score_row_ok ax (strat_gather_cs_row ax T1 (slot s SF_pool) d) q" by blast
  define T2 where "T2 = strat_scatter_cs_row ax T1 (slot s SF_score) d q"
  obtain acc where acc: "score_loop ar ax d T1 (strat_gather_cs_row ax T1 (slot s SF_pool) d) (st_weights ?spec) (replicate (n_a ax) (Fin 0)) = Ok acc"
    "T2 = strat_scatter_cs_row ax T1 (slot s SF_score) d (map (\<lambda>a. if flag (strat_gather_cs_row ax T1 (slot s SF_pool) d ! a)
       then fdiv (single ar) (acc ! a) (weight_sum ar (st_weights ?spec)) else Fin 0) [0..<n_a ax])"
    using q(1) unfolding T2_def cs_score_def Let_def by (auto simp: bind_ok_Ok_iff split: if_splits)
  have T2: "tensor_ok ax T2" "tn_mats T2 = tn_mats T" "length (tn_strat T2) = N_STRAT_SLOTS strategies"
    using T1 i [OF assms(6)] by (auto simp: T2_def)
  have T': "T' = cs_rank ar ax s d T2" using assms(11) q(1) by (simp add: cs_columns_of_def T1_def [symmetric] T2_def)
  have R: "rounding (single ar)" using assms(3) by (simp add: arith_ok_def)
  obtain r where r: "T' = strat_scatter_cs_row ax T2 (slot s SF_rank) d r"
    using cs_rank_row [OF R assms(4), of s d T2] T' by blast
  show ok: "tensor_ok ax T'" "tn_mats T' = tn_mats T" "length (tn_strat T') = N_STRAT_SLOTS strategies"
    using T2 i [OF assms(6)] by (auto simp: r)
  have at1: "strat_at ax T1 (slot t c) a e = (if t = s \<and> c = SF_pool \<and> e = d then p ! a else strat_at ax T (slot t c) a e)"
    if "t < length strategies" "e < n_d ax" "a < n_a ax" for t e a c
    unfolding p using that assms(5,6,8,9) i by (subst strat_at_scatter_any) auto
  have at2: "strat_at ax T2 (slot t c) a e = (if t = s \<and> c = SF_score \<and> e = d then q ! a else strat_at ax T1 (slot t c) a e)"
    if "t < length strategies" "e < n_d ax" "a < n_a ax" for t e a c
    unfolding T2_def using that assms(5,6) T1 i by (subst strat_at_scatter_any) auto
  have at3: "strat_at ax T' (slot t c) a e = (if t = s \<and> c = SF_rank \<and> e = d then r ! a else strat_at ax T2 (slot t c) a e)"
    if "t < length strategies" "e < n_d ax" "a < n_a ax" for t e a c
    unfolding r using that assms(5,6) T2 i by (subst strat_at_scatter_any) auto
  show "strat_at ax T' (slot t c) a e = strat_at ax T (slot t c) a e"
    if "t < length strategies" "e < n_d ax" "a < n_a ax" "(t, e) \<noteq> (s, d) \<or> c = SF_pool_b" for t e a c
    using that by (auto simp: at3 at2 at1)
  have "{a. a < n_a ax \<and> eligible ax s ?spec d T1 a} = {a. a < n_a ax \<and> eligible ax s ?spec d T a}"
    using assms(5,6) by (auto simp: eligible_def at1 tensor_at_def T1(2))
  then have E: "{a \<in> {..<n_a ax}. eligible ax s ?spec d T1 a} = {a \<in> {..<n_a ax}. eligible ax s ?spec d T a}" by simp
  have K: "tensor_at ax T = tensor_at ax T1" by (simp add: tensor_at_def fun_eq_iff T1(2))
  have "slot s SF_pool < length (tn_strat T)" using i [OF assms(6)] assms(9) by simp
  note m = members_cs_pool [OF assms(1,8,5) this, where spec = ?spec, folded T1_def E, unfolded K]
  have "pool_column_ok ax ?spec s d T1" unfolding pool_column_ok_def Let_def using m by simp
  moreover have "same_day ax s d [SF_pool_b, SF_pool] T1 T'"
    using assms(5,6) by (auto simp: same_day_def at3 at2 T1(2) ok(2))
  ultimately have P: "pool_column_ok ax ?spec s d T'" by (rule pool_column_local [rotated])
  have "score_column_ok ax s d T2"
    using q(2) assms(5,6) by (simp add: score_column_ok_def score_row_ok_def at2 strat_gather_at)
  moreover have sm: "same_day ax s d [SF_pool, SF_score] T2 T'"
    using assms(5,6) by (auto simp: same_day_def at3 T2(2) ok(2))
  ultimately have S: "score_column_ok ax s d T'" by (rule score_column_local [rotated])
  have "score_column_exact ar ax ?spec s d T2" unfolding score_column_exact_def
  proof (rule exI [of _ acc], intro conjI allI impI)
    have "strat_gather_cs_row ax T2 (slot s SF_pool) d = strat_gather_cs_row ax T1 (slot s SF_pool) d"
      using assms(5,6) by (intro nth_equalityI) (simp_all add: strat_gather_at at2)
    moreover have "score_loop ar ax d T2 = score_loop ar ax d T1" by (intro ext score_sum_local) (simp add: T2(2) T1(2))
    ultimately show "score_loop ar ax d T2 (strat_gather_cs_row ax T2 (slot s SF_pool) d) (st_weights ?spec) (replicate (n_a ax) (Fin 0)) = Ok acc"
      using acc(1) by simp
    fix a assume a: "a < n_a ax"
    have "strat_at ax T2 (slot s SF_score) a d = (if flag (strat_at ax T1 (slot s SF_pool) a d)
        then fdiv (single ar) (acc ! a) (weight_sum ar (st_weights ?spec)) else Fin 0)"
      unfolding acc(2) using a assms(5,6) T1 i by (subst strat_at_scatter_any) (auto simp: strat_gather_at)
    then show "strat_at ax T2 (slot s SF_score) a d = (if flag (strat_at ax T2 (slot s SF_pool) a d)
        then fdiv (single ar) (acc ! a) (weight_sum ar (st_weights ?spec)) else Fin 0)"
      using at2 [OF assms(6,5) a] by simp
  qed
  then have X: "score_column_exact ar ax ?spec s d T'" by (rule score_exact_local [OF sm])
  have "slot s SF_rank < length (tn_strat T2)" using i [OF assms(6)] T2(3) by simp
  note k = cs_rank_exact [OF R _ T2(1) assms(5) this, folded T']
  have "{b \<in> rankable ax s d T'. outranks ax s d T2 b a} = {b \<in> rankable ax s d T'. outranks ax s d T' b a}" if "a < n_a ax" for a
    using rankable_local(2) [OF sm that] by (auto simp: rankable_def)
  with k assms(4) have "rank_column_ok ax s d T'" by (simp add: rank_column_ok_def rankable_local(1) [OF sm])
  with P S X show "day_selected ar ax ?spec s d T'" by (simp add: day_selected_def)
qed

section \<open>The tensor of a build\<close>

lemma compute_cs_columns_selected:
  assumes "nth_element nth_el" "format_rounding (single ar)" "arith_ok ar" "n_a ax \<le> 2 ^ 23" "\<forall>s\<in>set strategies. weights_ok ar s"
    "\<forall>s\<in>set strategies. \<forall>f\<in>fst ` set (st_weights s). \<forall>d<n_d ax. unit_day ax T f d"
    "tensor_ok ax T" "length (tn_strat T) = N_STRAT_SLOTS strategies"
    "compute_cs_columns ar nth_el ax strategies [0..<n_d ax] T = Ok T'" "s < length strategies" "d < n_d ax"
  shows "tensor_ok ax T'" "tn_mats T' = tn_mats T" "day_selected ar ax (strategies ! s) s d T'"
    "a < n_a ax \<Longrightarrow> strat_at ax T' (slot s SF_pool_b) a d = strat_at ax T (slot s SF_pool_b) a d"
proof -
  let ?xs = "List.product [0..<n_d ax] [0..<length strategies]"
  let ?step = "\<lambda>U (d, s). cs_columns_of ar nth_el ax strategies d U s"
  let ?same = "\<lambda>U. \<forall>t<length strategies. \<forall>e<n_d ax. \<forall>a<n_a ax. strat_at ax U (slot t SF_pool_b) a e = strat_at ax T (slot t SF_pool_b) a e"
  let ?P = "\<lambda>U. tensor_ok ax U \<and> tn_mats U = tn_mats T \<and> length (tn_strat U) = N_STRAT_SLOTS strategies \<and> ?same U"
  let ?Q = "\<lambda>x U. x \<in> set ?xs \<longrightarrow> day_selected ar ax (strategies ! snd x) (snd x) (fst x) U"
  have step: "?P V \<and> ?Q x V \<and> (\<forall>y. ?Q y U \<longrightarrow> ?Q y V)" if x: "x \<in> set ?xs" and P: "?P U" and st: "?step U x = Ok V" for x U V
  proof -
    obtain d s where ds: "x = (d, s)" "d < n_d ax" "s < length strategies" using x by auto
    then have "strategies ! s \<in> set strategies" by simp
    with assms(5,6) P ds(2) have w: "weights_ok ar (strategies ! s)" "\<forall>f\<in>fst ` set (st_weights (strategies ! s)). unit_day ax U f d"
      by (auto simp: unit_day_def gather_cs_row_def)
    have U: "tensor_ok ax U" "length (tn_strat U) = N_STRAT_SLOTS strategies" using P by simp_all
    have "cs_columns_of ar nth_el ax strategies d U s = Ok V" using st by (simp add: ds(1))
    note k = cs_columns_of_selected [OF assms(1-4) ds(2,3) w(1) U w(2) this]
    have "?P V" using P k(1-3,5) by simp
    moreover have "?Q x V" using k(4) by (simp add: ds(1))
    moreover have "?Q y V" if q: "?Q y U" for y
    proof (cases "y = x")
      case False
      obtain e t where y: "y = (e, t)" by (cases y)
      with False ds(1) have ne: "(t, e) \<noteq> (s, d)" by auto
      have "day_selected ar ax (strategies ! t) t e V" if "e < n_d ax" "t < length strategies"
      proof (rule day_selected_local)
        show "day_selected ar ax (strategies ! t) t e U" using q that by (simp add: y)
        show "same_day ax t e [SF_pool_b, SF_pool, SF_score, SF_rank] U V"
          using k(2) k(5) [OF that(2,1)] ne by (simp add: same_day_def)
      qed
      then show ?thesis by (simp add: y)
    qed (use \<open>?Q x V\<close> in simp)
    ultimately show ?thesis by blast
  qed
  have "?P T' \<and> (\<forall>x\<in>set ?xs. ?Q x T')"
  proof (rule fold_ok_establishes [where f = ?step and P = ?P and Q = ?Q])
    show "?P V \<and> ?Q x V" if "x \<in> set ?xs" "?P U" "?step U x = Ok V" for U x V using step [OF that] by blast
    show "?Q y V" if "x \<in> set ?xs" "?P U" "?Q y U" "?step U x = Ok V" for U x V y using step [OF that(1,2,4)] that(3) by blast
    show "?P T" by (simp add: assms(7,8))
    show "fold_ok ?step T ?xs = Ok T'" using assms(9) unfolding compute_cs_columns_def fold_ok_product .
  qed
  moreover have "(d, s) \<in> set ?xs" using assms(10,11) by simp
  ultimately show "tensor_ok ax T'" "tn_mats T' = tn_mats T" "day_selected ar ax (strategies ! s) s d T'"
    "a < n_a ax \<Longrightarrow> strat_at ax T' (slot s SF_pool_b) a d = strat_at ax T (slot s SF_pool_b) a d"
    using assms(10,11) by fastforce+
qed

lemma build_selected:
  assumes "nth_element nth_el" "format_rounding (single ar)" "arith_ok ar" "ALL_NODES doc framework strategies = Ok nodes"
    "\<forall>s\<in>set strategies. valid_strategy doc s \<and> weights_ok ar s"
    "build ar nth_el doc strategies nodes inp = Ok (ax, meta, T)" "n_a ax \<le> 2 ^ 23" "s < length strategies" "d < n_d ax"
  shows "tensor_ok ax T" "day_selected ar ax (strategies ! s) s d T"
    "Delist_age \<in> set nodes \<Longrightarrow> a < n_a ax \<Longrightarrow> tensor_at ax T Delist_age a d = NaN \<or> fle (Fin 0) (tensor_at ax T Delist_age a d)"
    "a < n_a ax \<Longrightarrow> strat_at ax T (slot s SF_pool_b) a d = of_flag (whitelisted ax meta (strategies ! s) T a d)"
proof -
  obtain pool where pool: "load_pit (single ar) (bi_update inp) ax (bi_tables inp) (bi_snapshot inp) = Ok pool"
    "compute_features ar nth_el doc strategies nodes ax meta pool = Ok T" using assms(6) by (auto simp: build_steps)
  let ?N = "new_tensor ax (N_STRAT_SLOTS strategies)" and ?c = "compute_ts_columns ax meta strategies [0..<n_a ax]"
  obtain T1 T3 where T: "compute_ts ar ax pool meta (TS_ORDER doc nodes) [0..<n_a ax] ?N = Ok T1"
    "compute_cs ar ax (CS_ORDER doc nodes) [0..<n_d ax] (?c T1) = Ok T3" "compute_cs_columns ar nth_el ax strategies [0..<n_d ax] T3 = Ok T"
    using pool(2) by (auto simp: compute_features_def bind_ok_Ok_iff)
  have R: "rounding (single ar)" using assms(3) by (simp add: arith_ok_def)
  have ts: "\<forall>f\<in>set (TS_ORDER doc nodes). depth f \<noteq> 9" and cs: "\<forall>f\<in>set (CS_ORDER doc nodes). depth f = 9"
    by (auto simp: TS_ORDER_def CS_ORDER_def set_filter_axis)
  note k = compute_ts_declared [OF R load_pit_status [OF pool(1)] ts tensor_ok_new T(1)]
  have l: "length (tn_strat T1) = N_STRAT_SLOTS strategies" by (simp add: k(2) new_tensor_def)
  note c = compute_ts_columns_flags [OF k(1) l, where meta = meta]
  from compute_cs_total [OF assms(3,7) cs c(1)] T(2) have T3: "tensor_ok ax T3" "tn_strat T3 = tn_strat (?c T1)"
    "\<forall>f. depth f \<noteq> 9 \<longrightarrow> tn_mats T3 f = tn_mats (?c T1) f" "\<forall>f\<in>set (CS_ORDER doc nodes). \<forall>d<n_d ax. unit_day ax T3 f d" by auto
  have u: "\<forall>s\<in>set strategies. \<forall>f\<in>fst ` set (st_weights s). \<forall>d<n_d ax. unit_day ax T3 f d"
    using roots_computed [OF assms(4)] assms(5) T3(4) by blast
  have w: "\<forall>s\<in>set strategies. weights_ok ar s" and l3: "length (tn_strat T3) = N_STRAT_SLOTS strategies"
    using assms(5) c(3) T3(2) by simp_all
  note r = compute_cs_columns_selected [OF assms(1-3,7) w u T3(1) l3 T(3) assms(8,9)]
  from r(1) show "tensor_ok ax T" .
  from r(3) show "day_selected ar ax (strategies ! s) s d T" .
  have "\<forall>a f U r. a < n_a ax \<longrightarrow> f \<in> set (TS_ORDER doc nodes) \<longrightarrow> compute_ts_node ar ax pool meta a U f = Ok r \<longrightarrow>
      f = Delist_age \<longrightarrow> list_all (\<lambda>v. v = NaN \<or> fle (Fin 0) v) r"
    by (auto simp: compute_ts_node.simps ts_delist_age_def age_row_def list_all_iff Let_def split: if_splits outcome.splits)
  note age = compute_ts_rows(3) [where R = "\<lambda>f r. f = Delist_age \<longrightarrow> list_all (\<lambda>v. v = NaN \<or> fle (Fin 0) v) r", OF tensor_ok_new T(1) this]
  show "tensor_at ax T Delist_age a d = NaN \<or> fle (Fin 0) (tensor_at ax T Delist_age a d)" if "Delist_age \<in> set nodes" "a < n_a ax"
  proof -
    have dep: "depth Delist_age \<noteq> 9" by (simp add: depth.simps)
    then have "Delist_age \<in> set (TS_ORDER doc nodes)" using that(1) by (simp add: TS_ORDER_def set_filter_axis)
    from age [OF this that(2)] have "list_all (\<lambda>v. v = NaN \<or> fle (Fin 0) v) (ts_row ax T1 Delist_age a)" by simp
    then have "tensor_at ax T1 Delist_age a d = NaN \<or> fle (Fin 0) (tensor_at ax T1 Delist_age a d)"
      using assms(9) that(2) by (simp add: list_all_length length_ts_row [OF k(1) that(2)] ts_row_at [OF k(1) that(2)])
    moreover have "tensor_at ax T Delist_age a d = tensor_at ax T1 Delist_age a d"
      using dep by (simp add: tensor_at_def r(2) T3(3) c(2))
    ultimately show ?thesis by simp
  qed
  assume a: "a < n_a ax"
  have "whitelisted ax meta (strategies ! s) T1 a d = whitelisted ax meta (strategies ! s) T a d"
    by (rule whitelisted_mats) (simp add: tensor_at_def r(2) T3(3) c(2))
  with compute_ts_columns_whitelist [OF k(1) l assms(8) a assms(9), of meta] r(4) [OF a]
  show "strat_at ax T (slot s SF_pool_b) a d = of_flag (whitelisted ax meta (strategies ! s) T a d)"
    by (simp add: strat_at_def T3(2))
qed

text \<open>What a strategy wants of an instrument on a day, in the terms of the final tensor.\<close>

definition tradable :: "axes \<Rightarrow> stock_meta \<Rightarrow> strategy_spec \<Rightarrow> tensor \<Rightarrow> nat \<Rightarrow> nat \<Rightarrow> bool" where
  "tradable ax meta spec T a d \<longleftrightarrow> whitelisted ax meta spec T a d \<and> list_all (\<lambda>f. \<not> flag (tensor_at ax T f a d)) (st_filters spec) \<and>
     positive (tensor_at ax T (ps_rank_key (st_pool spec)) a d)"

lemma rankable_members:
  "score_column_ok ax s d T \<Longrightarrow> rankable ax s d T = members ax T (slot s SF_pool) d"
  by (auto simp: score_column_ok_def rankable_def members_def)

text \<open>The sample input builds with the first strategy, in the arithmetic of the machine.\<close>

lemma sample_builds:
  assumes "ALL_NODES (\<lambda>_. ([], [], [])) basic_nodes [strat_0 \<lparr>single = f32, double = f64\<rparr>] = Ok nodes"
  shows "\<exists>meta T. build \<lparr>single = f32, double = f64\<rparr> sort_cut (\<lambda>_. ([], [], [])) [strat_0 \<lparr>single = f32, double = f64\<rparr>] nodes sample_input
    = Ok (sample_axes, meta, T)"
proof -
  let ?ar = "\<lparr>single = f32, double = f64\<rparr>" and ?doc = "\<lambda>_. ([], [], [])"
  have f: "format_rounding (single ?ar)" and e: "single ?ar (1 / 8) = Fin (1 / 8)"
    by (simp_all add: f32_format.format_rounding_axioms f32_eighth)
  have s: "\<forall>s\<in>set [strat_0 ?ar]. valid_strategy ?doc s \<and> weights_ok ?ar s" using registered_ok [OF f e] by simp
  obtain meta where m: "load_stock_meta sample_axes (bi_basic_info sample_input) = Ok meta" "dates_ok sample_axes meta"
    using sample_input_loads(2) by blast
  obtain pool where p: "load_pit (single ?ar) (bi_update sample_input) sample_axes (bi_tables sample_input) (bi_snapshot sample_input) = Ok pool"
    using sample_input_loads(3) by blast
  have n_a: "n_a sample_axes \<le> 2 ^ 23" by (simp add: sample_axes_ok)
  obtain T where "compute_features ?ar sort_cut ?doc [strat_0 ?ar] nodes sample_axes meta pool = Ok T"
    "check_contract ?doc sample_axes nodes [strat_0 ?ar] T = Ok T"
    using compute_features_total [OF f arith_ok_ieee n_a load_pit_status [OF p] m(2) assms s, of sort_cut] by blast
  with p have "build ?ar sort_cut ?doc [strat_0 ?ar] nodes sample_input = Ok (sample_axes, meta, T)"
    unfolding build_steps using sample_input_loads(1) m(1) by blast
  then show ?thesis by blast
qed

section \<open>Properties\<close>

text \<open>C5. The selection of every strategy on every day of the tensor that \<open>build\<close> returns. Call an instrument tradable when it is
  on an exchange, a board and in an industry of the strategy, listed, not suspended, not delisted, allowed by the margin
  policy, hit by none of the strategy's filters and has a positive key. Exactly the best \<open>universe_size\<close> tradable instruments (all,
  when there are not more) have a rank, which is one plus the number of those with a better score, ties by index; every other
  instrument has rank 0. In particular no suspended, unlisted or delisted instrument is ever ranked.\<close>

theorem build_selects_the_best:
  assumes "nth_element nth_el" "format_rounding (single ar)" "arith_ok ar" "ALL_NODES doc framework strategies = Ok nodes"
    "\<forall>s\<in>set strategies. valid_strategy doc s \<and> weights_ok ar s"
    "build ar nth_el doc strategies nodes inp = Ok (ax, meta, T)" "n_a ax \<le> 2 ^ 23" "s < length strategies" "d < n_d ax"
  defines "spec \<equiv> strategies ! s" and "E \<equiv> {a \<in> {..<n_a ax}. tradable ax meta (strategies ! s) T a d}"
  shows "\<exists>M. M \<subseteq> E \<and> card M = pool_limit spec (card E) \<and>
    (\<forall>a\<in>M. \<forall>b\<in>E - M. before (ps_rank_asc (st_pool spec))
       (tensor_at ax T (ps_rank_key (st_pool spec)) a d) (tensor_at ax T (ps_rank_key (st_pool spec)) b d)) \<and>
    (\<forall>a<n_a ax. strat_at ax T (slot s SF_rank) a d =
       Fin (if a \<in> M then real (Suc (card {b \<in> M. outranks ax s d T b a})) else 0))"
proof -
  note b = build_selected [OF assms(1-9)]
  have E: "E = {a \<in> {..<n_a ax}. eligible ax s spec d T a}"
    using b(4) by (auto simp: E_def spec_def tradable_def eligible_def)
  from b(2) have c: "pool_column_ok ax spec s d T" "score_column_ok ax s d T" "rank_column_ok ax s d T"
    by (simp_all add: day_selected_def spec_def)
  show ?thesis unfolding E
    by (rule exI [of _ "members ax T (slot s SF_pool) d"])
      (use c(1,3) in \<open>simp add: pool_column_ok_def rank_column_ok_def Let_def rankable_members [OF c(2)]\<close>)
qed

lemma build_selects_the_best_witness:
  "\<exists>nodes meta T M. build \<lparr>single = f32, double = f64\<rparr> sort_cut (\<lambda>_. ([], [], [])) [strat_0 \<lparr>single = f32, double = f64\<rparr>] nodes sample_input
     = Ok (sample_axes, meta, T) \<and> M \<subseteq> {0, 1} \<and> strat_at sample_axes T (slot 0 SF_rank) 0 1 =
       Fin (if 0 \<in> M then real (Suc (card {b \<in> M. outranks sample_axes 0 1 T b 0})) else 0)"
proof -
  let ?ar = "\<lparr>single = f32, double = f64\<rparr>" and ?doc = "\<lambda>_. ([], [], [])"
  have f: "format_rounding (single ?ar)" and e: "single ?ar (1 / 8) = Fin (1 / 8)"
    by (simp_all add: f32_format.format_rounding_axioms f32_eighth)
  obtain nodes where n: "ALL_NODES ?doc basic_nodes [strat_0 ?ar] = Ok nodes" using nodes_exist by blast
  have s: "\<forall>s\<in>set [strat_0 ?ar]. valid_strategy ?doc s \<and> weights_ok ?ar s" using registered_ok [OF f e] by simp
  obtain meta T where T: "build ?ar sort_cut ?doc [strat_0 ?ar] nodes sample_input = Ok (sample_axes, meta, T)"
    using sample_builds [OF n] by blast
  have n_a: "n_a sample_axes \<le> 2 ^ 23" by (simp add: sample_axes_ok)
  have i: "0 < length [strat_0 ?ar]" "1 < n_d sample_axes" "{..<n_a sample_axes} = {0, 1}" by (auto simp: sample_axes_ok)
  obtain M where "M \<subseteq> {a \<in> {..<n_a sample_axes}. tradable sample_axes meta ([strat_0 ?ar] ! 0) T a 1}"
    "strat_at sample_axes T (slot 0 SF_rank) 0 1 = Fin (if 0 \<in> M then real (Suc (card {b \<in> M. outranks sample_axes 0 1 T b 0})) else 0)"
    using build_selects_the_best [OF sorted_cut.nth_element_axioms f arith_ok_ieee n s T n_a i(1,2)] i(3) by blast
  moreover from this(1) have "M \<subseteq> {0, 1}" using i(3) by blast
  ultimately show ?thesis using T by blast
qed

end
