(* ===== verification/Backtest.thy ===== *)
theory Backtest
  imports Accounting Metrics Selection
begin

text \<open>
  The backtest of one strategy (\<open>cpp/src/backtest/backtest.cpp\<close>): the names of the instruments over time, the day loop
  that reads the candidates back from the rank column and drives the kernel, what it records of trades and fills, the
  shadow index of the pool, the daily series, and the tables of the report. Writing the files is left out: the values
  that go into them are the result. \<open>std::sort\<close> on weights and on name intervals is a parameter (\<open>Engine.desc_sort\<close>).
\<close>

datatype backtest_error = WindowInvalid | RankNotFinite | RankNotContiguous | RankUnfilled | NoOpenRecord | PoolNotFinite
  | HoldingWithoutOpen | HoldingWithoutLastClose | EngineError engine_error | MetricError metric_error
  | BadInterval | StaticDataMissing | NameDate date_error

section \<open>Names over time\<close>

record name_interval =
  ni_lo :: int
  ni_hi :: int
  ni_name :: string

type_synonym timeline = "name_interval list list"

definition find_d :: "axes \<Rightarrow> string \<Rightarrow> bool \<Rightarrow> int" where
  "find_d ax d fl = (if fl then floor_date ax d
     else let k = lower_bound (ax_dates ax) d in if k = length (ax_dates ax) then -1 else int k)"

definition add_name_interval ::
  "axes \<Rightarrow> name_interval list \<Rightarrow> string \<Rightarrow> string \<Rightarrow> string \<Rightarrow> (backtest_error, name_interval list) outcome" where
  "add_name_interval ax v start end_date name =
     (if \<not> (length start = 8 \<and> length end_date = 8 \<and> name \<noteq> []) then Fail BadInterval
      else let lo = find_d ax start False; hi = find_d ax end_date True in
        Ok (if lo < 0 \<or> hi < lo then v else v @ [\<lparr>ni_lo = lo, ni_hi = hi, ni_name = name\<rparr>]))"

definition name_of :: "timeline \<Rightarrow> stock_meta \<Rightarrow> nat \<Rightarrow> nat \<Rightarrow> string" where
  "name_of nt meta a d =
     (case find (\<lambda>v. ni_lo v \<le> int d \<and> int d \<le> ni_hi v) (rev (nt ! a)) of Some v \<Rightarrow> ni_name v | None \<Rightarrow> sm_name meta ! a)"

text \<open>The state of the loader: the intervals and the last end date of each instrument.\<close>

definition change_row :: "axes \<Rightarrow> timeline \<times> string list \<Rightarrow> row \<Rightarrow> (backtest_error, timeline \<times> string list) outcome" where
  "change_row ax = (\<lambda>(nt, ends) r.
     case ax_code_idx ax (cell_str (r ''instrument'')) of
       None \<Rightarrow> Ok (nt, ends)
     | Some a \<Rightarrow>
         let start = ymd_str (cell_yyyymmdd (r ''start_date'')); end_date = ymd_str (cell_yyyymmdd (r ''end_date'')) in
         if start = [] \<or> end_date = [] then Ok (nt, ends)
         else bind_ok (add_name_interval ax (nt ! a) start end_date (cell_str (r ''name''))) (\<lambda>v.
           Ok (nt[a := v], if ends ! a = [] \<or> ends ! a < end_date then ends[a := end_date] else ends)))"

definition static_row :: "axes \<Rightarrow> string list \<Rightarrow> timeline \<Rightarrow> row \<Rightarrow> (backtest_error, timeline) outcome" where
  "static_row ax ends nt r =
     (case ax_code_idx ax (cell_str (r ''instrument'')) of
        None \<Rightarrow> Ok nt
      | Some a \<Rightarrow>
          bind_ok (if ends ! a = [] then Ok (hd (ax_dates ax)) else lift_error NameDate (add_days (ends ! a) 1)) (\<lambda>start.
          bind_ok (add_name_interval ax (nt ! a) start (last (ax_dates ax)) (cell_str (r ''name''))) (\<lambda>v. Ok (nt[a := v]))))"

definition load_name_timeline ::
  "(name_interval list \<Rightarrow> name_interval list) \<Rightarrow> axes \<Rightarrow> row list list \<Rightarrow> row list option \<Rightarrow> (backtest_error, timeline) outcome" where
  "load_name_timeline sorter ax months static =
     bind_ok (fold_ok (fold_ok (change_row ax)) (replicate (n_a ax) [], replicate (n_a ax) []) months) (\<lambda>(nt, ends).
       case static of None \<Rightarrow> Fail StaticDataMissing
       | Some rows \<Rightarrow> bind_ok (fold_ok (static_row ax ends) nt rows) (\<lambda>nt. Ok (map sorter nt)))"

definition last_names :: "axes \<Rightarrow> stock_meta \<Rightarrow> timeline \<Rightarrow> string list" where
  "last_names ax meta nt = map (\<lambda>a. name_of nt meta a (n_d ax - 1)) [0..<n_a ax]"

section \<open>The candidates of a day\<close>

definition rank_bad :: "fval \<Rightarrow> bool" where
  "rank_bad r \<longleftrightarrow> \<not> (is_finite r \<and> fle (Fin 0) r)"

text \<open>The slot of a rank; a slot that no rank fills holds the index -1, which every later use would read out of bounds.\<close>

definition fill_rank :: "axes \<Rightarrow> tensor \<Rightarrow> nat \<Rightarrow> nat \<Rightarrow> ranked option list \<Rightarrow> nat \<Rightarrow> (backtest_error, ranked option list) outcome" where
  "fill_rank ax T s d cands a =
     (let r = strat_at ax T (slot s SF_rank) a d in
      if \<not> fless (Fin 0) r then Ok cands
      else let ri = trunc r in
        if \<not> (1 \<le> ri \<and> ri \<le> int (length cands)) then Fail RankNotContiguous
        else Ok (cands[nat (ri - 1) := Some (strat_at ax T (slot s SF_score) a d, a)]))"

definition rank_candidates :: "axes \<Rightarrow> tensor \<Rightarrow> nat \<Rightarrow> nat \<Rightarrow> (backtest_error, ranked list) outcome" where
  "rank_candidates ax T s d =
     (let r = (\<lambda>a. strat_at ax T (slot s SF_rank) a d) in
      if list_ex (\<lambda>a. rank_bad (r a)) [0..<n_a ax] then Fail RankNotFinite
      else let n_ranked = length (filter (\<lambda>a. fless (Fin 0) (r a)) [0..<n_a ax]) in
        bind_ok (fold_ok (fill_rank ax T s d) (replicate n_ranked None) [0..<n_a ax]) (\<lambda>cands.
          if None \<in> set cands then Fail RankUnfilled else Ok (map the cands)))"

section \<open>What the report records\<close>

record open_rec =
  or_open_d :: nat
  or_open_px :: fval

record trade_row =
  tr_inst :: nat
  tr_open_d :: nat
  tr_close_d :: nat
  tr_open_px :: fval
  tr_close_px :: fval
  tr_open_name :: string
  tr_close_name :: string

record fill =
  fi_d :: nat
  fi_a :: nat
  fi_side :: int
  fi_px :: fval
  fi_weight :: fval
  fi_pnl :: fval
  fi_name :: string

record watch =
  wa_code :: nat
  wa_score :: fval
  wa_rank_chg :: fval
  wa_hold_w :: fval
  wa_hold_days :: nat
  wa_bought :: bool
  wa_name :: string

record held =
  he_code :: nat
  he_weight :: fval
  he_name :: string

record book =
  bk_engine :: engine
  bk_open_recs :: "nat \<rightharpoonup> open_rec"
  bk_trades :: "trade_row list"
  bk_fills :: "fill list"
  bk_buy_fill_idx :: "nat list"
  bk_bought_today :: "nat list"
  bk_hold_streak :: "nat \<Rightarrow> nat"
  bk_hold_last_seen :: "nat \<Rightarrow> int"
  bk_prev_weight :: "nat \<Rightarrow> fval"
  bk_prev_held :: "nat list"
  bk_rank_win :: "nat list list"
  bk_pool_nav_d :: fval
  bk_strat_nav :: "fval list"
  bk_pool_nav :: "fval list"
  bk_pos_count :: "nat list"
  bk_pos_pct :: "fval list"
  bk_turnover :: "fval list"
  bk_susp_pct :: "fval list"
  bk_exec_pct :: "fval list"
  bk_hold_off :: "nat list"
  bk_holdings :: "held list"
  bk_watch_off :: "nat list"
  bk_watch :: "watch list"

text \<open>What does not change during a run.\<close>

record run_env =
  rv_ar :: arith
  rv_deficits :: deficit_sorter
  rv_weights :: "(nat \<times> fval) list \<Rightarrow> (nat \<times> fval) list"
  rv_axes :: axes
  rv_meta :: stock_meta
  rv_tensor :: tensor
  rv_timeline :: timeline
  rv_strategy :: nat
  rv_d_lo :: nat
  rv_market :: market_window

abbreviation label :: "run_env \<Rightarrow> nat \<Rightarrow> nat \<Rightarrow> string" where
  "label rv a d \<equiv> name_of (rv_timeline rv) (rv_meta rv) a d"

definition trade_ret :: "arith \<Rightarrow> fval \<Rightarrow> fval \<Rightarrow> fval" where
  "trade_ret ar open_px close_px =
     (if fless (Fin 0) open_px then fsub (single ar) (fdiv (single ar) close_px open_px) (Fin 1) else NaN)"

definition close_trade :: "run_env \<Rightarrow> nat \<Rightarrow> nat \<Rightarrow> open_rec \<Rightarrow> fval \<Rightarrow> book \<Rightarrow> book" where
  "close_trade rv a d rec close_px b = b\<lparr>bk_trades := bk_trades b @
     [\<lparr>tr_inst = a, tr_open_d = or_open_d rec, tr_close_d = d, tr_open_px = or_open_px rec, tr_close_px = close_px,
       tr_open_name = label rv a (or_open_d rec), tr_close_name = label rv a d\<rparr>]\<rparr>"

definition push_fill :: "run_env \<Rightarrow> nat \<Rightarrow> nat \<Rightarrow> int \<Rightarrow> fval \<Rightarrow> fval \<Rightarrow> book \<Rightarrow> book" where
  "push_fill rv a d side px pnl b =
     (let f = \<lparr>fi_d = d, fi_a = a, fi_side = side, fi_px = px, fi_weight = (if side > 0 then NaN else bk_prev_weight b a),
               fi_pnl = pnl, fi_name = label rv a d\<rparr>
      in b\<lparr>bk_buy_fill_idx := (if side > 0 then bk_buy_fill_idx b @ [length (bk_fills b)] else bk_buy_fill_idx b),
           bk_fills := bk_fills b @ [f]\<rparr>)"

text \<open>The three hooks of the recorder; both kinds of sale close the open record.\<close>

definition close_position :: "run_env \<Rightarrow> nat \<Rightarrow> nat \<Rightarrow> fval \<Rightarrow> book \<Rightarrow> (backtest_error, book) outcome" where
  "close_position rv a d c b =
     (case bk_open_recs b a of None \<Rightarrow> Fail NoOpenRecord
      | Some rec \<Rightarrow>
          let b = push_fill rv a d (-1) c (trade_ret (rv_ar rv) (or_open_px rec) c) (close_trade rv a d rec c b)
          in Ok (b\<lparr>bk_open_recs := (bk_open_recs b)(a := None)\<rparr>))"

fun on_event :: "run_env \<Rightarrow> book \<Rightarrow> event \<Rightarrow> (backtest_error, book) outcome" where
  "on_event rv b (DelistSell a i c sh) = close_position rv a (rv_d_lo rv + i) c b"
| "on_event rv b (Sell a i c) = close_position rv a (rv_d_lo rv + i) c b"
| "on_event rv b (Buy a i c) =
     (let d = rv_d_lo rv + i;
          b = push_fill rv a d 1 c NaN (b\<lparr>bk_open_recs := (bk_open_recs b)(a \<mapsto> \<lparr>or_open_d = d, or_open_px = c\<rparr>)\<rparr>)
      in Ok (b\<lparr>bk_bought_today := a # bk_bought_today b\<rparr>))"

section \<open>The shadow index of the pool\<close>

definition pool_return :: "arith \<Rightarrow> axes \<Rightarrow> tensor \<Rightarrow> nat \<Rightarrow> nat \<Rightarrow> (backtest_error, fval) outcome" where
  "pool_return ar ax T s d =
     bind_ok (fold_ok (\<lambda>(sm, n) a.
         let m = strat_at ax T (slot s SF_pool) a (d - 1); r = tensor_at ax T Daily_return a d in
         if \<not> is_finite m then Fail PoolNotFinite
         else if flag m \<and> is_finite r then Ok (fadd (double ar) sm r, Suc n) else Ok (sm, n)) (Fin 0, 0 :: nat) [0..<n_a ax])
       (\<lambda>(sm, n). Ok (if n > 0 then fdiv (double ar) sm (double ar (real n)) else Fin 0))"

section \<open>A day\<close>

definition sorted_hold :: "run_env \<Rightarrow> nat \<Rightarrow> engine \<Rightarrow> (nat \<times> fval) list" where
  "sorted_hold rv i e = rv_weights rv (map (\<lambda>p. (po_a p,
     fdiv (double (rv_ar rv)) (pos_value (rv_ar rv) (rv_market rv) i p) (en_pv_end e))) (en_holdings e))"

definition daily_stats :: "run_env \<Rightarrow> nat \<Rightarrow> engine \<Rightarrow> book \<Rightarrow> book" where
  "daily_stats rv i e b =
     (let ar = rv_ar rv; hs = en_holdings e; n = length hs; S = (\<lambda>k. single ar (real k));
          n_susp = length (filter (\<lambda>p. has_flag (flags_at (rv_market rv) i (po_a p)) SUSP) hs);
          intent = en_n_sell_intent e + en_n_buy_intent e
      in b\<lparr>bk_pos_count := bk_pos_count b @ [n],
           bk_pos_pct := bk_pos_pct b @ [narrow ar (fdiv (double ar) (en_mv_end e) (en_pv_end e))],
           bk_turnover := bk_turnover b @ [narrow ar (fdiv (double ar) (en_turn_amt e) (fmul (double ar) (Fin 2) (en_pv e)))],
           bk_susp_pct := bk_susp_pct b @ [if hs = [] then Fin 0 else fdiv (single ar) (S n_susp) (S n)],
           bk_exec_pct := bk_exec_pct b @ [if intent = 0 then Fin 1 else fdiv (single ar) (S (en_n_sell_ok e + en_n_buy_ok e)) (S intent)]\<rparr>)"

definition streak :: "nat \<Rightarrow> book \<Rightarrow> nat \<times> fval \<Rightarrow> book" where
  "streak i b = (\<lambda>(a, w). b\<lparr>bk_hold_streak := (bk_hold_streak b)(a := if bk_hold_last_seen b a = int i - 1 then Suc (bk_hold_streak b a) else 1),
     bk_hold_last_seen := (bk_hold_last_seen b)(a := int i)\<rparr>)"

definition record_holdings :: "run_env \<Rightarrow> nat \<Rightarrow> (nat \<times> fval) list \<Rightarrow> book \<Rightarrow> book" where
  "record_holdings rv i sh b =
     (let d = rv_d_lo rv + i; ar = rv_ar rv;
          hs = bk_holdings b @ map (\<lambda>(a, w). \<lparr>he_code = a, he_weight = narrow ar w, he_name = label rv a d\<rparr>) sh;
          b = foldl (streak i) b sh
      in b\<lparr>bk_holdings := hs, bk_hold_off := bk_hold_off b @ [length hs]\<rparr>)"

definition today_weights :: "arith \<Rightarrow> (nat \<times> fval) list \<Rightarrow> nat \<rightharpoonup> fval" where
  "today_weights ar sh = foldl (\<lambda>m (a, w). m(a \<mapsto> narrow ar w)) (\<lambda>_. None) sh"

definition fill_weights :: "(nat \<rightharpoonup> fval) \<Rightarrow> book \<Rightarrow> book" where
  "fill_weights today b = b\<lparr>bk_fills := foldl (\<lambda>fs k.
     fs[k := (fs ! k)\<lparr>fi_weight := (case today (fi_a (fs ! k)) of Some w \<Rightarrow> w | None \<Rightarrow> Fin 0)\<rparr>]) (bk_fills b) (bk_buy_fill_idx b)\<rparr>"

definition roll_weights :: "arith \<Rightarrow> (nat \<times> fval) list \<Rightarrow> book \<Rightarrow> book" where
  "roll_weights ar sh b =
     (let zeroed = foldl (\<lambda>w a. w(a := Fin 0)) (bk_prev_weight b) (bk_prev_held b)
      in b\<lparr>bk_prev_weight := foldl (\<lambda>w (a, x). w(a := narrow ar x)) zeroed sh, bk_prev_held := map fst sh\<rparr>)"

definition rank_change :: "arith \<Rightarrow> nat list list \<Rightarrow> nat \<Rightarrow> nat \<Rightarrow> fval" where
  "rank_change ar win r a =
     (let rs = filter (\<lambda>v. v > 0) (map (\<lambda>rd. rd ! a) win); D = double ar in
      if rs \<noteq> [] \<and> r > 0
      then narrow ar (fsub D (fdiv D (fsum D (map (\<lambda>v. D (real v)) rs)) (D (real (length rs)))) (D (real r))) else Fin 0)"

definition watch_rows :: "run_env \<Rightarrow> int \<Rightarrow> nat \<Rightarrow> ranked list \<Rightarrow> (nat \<rightharpoonup> fval) \<Rightarrow> book \<Rightarrow> book" where
  "watch_rows rv watch_n i cands today b =
     (let d = rv_d_lo rv + i;
          rank_today = foldl (\<lambda>rs k. rs[snd (cands ! k) := Suc k]) (replicate (n_a (rv_axes rv)) 0) [0..<length cands];
          win = bk_rank_win b @ [rank_today]; win = (if length win > 5 then tl win else win);
          row = (\<lambda>(score, a). \<lparr>wa_code = a, wa_score = score, wa_rank_chg = rank_change (rv_ar rv) win (rank_today ! a) a,
            wa_hold_w = (case today a of Some w \<Rightarrow> w | None \<Rightarrow> NaN),
            wa_hold_days = (case today a of Some w \<Rightarrow> bk_hold_streak b a | None \<Rightarrow> 0),
            wa_bought = (a \<in> set (bk_bought_today b)), wa_name = label rv a d\<rparr>);
          ws = bk_watch b @ map row (take (nat (min watch_n (int (length cands)))) cands)
      in b\<lparr>bk_rank_win := win, bk_watch := ws, bk_watch_off := bk_watch_off b @ [length ws]\<rparr>)"

text \<open>The end of a day.\<close>

definition report_day :: "run_env \<Rightarrow> int \<Rightarrow> nat \<Rightarrow> ranked list \<Rightarrow> engine \<Rightarrow> book \<Rightarrow> book" where
  "report_day rv watch_n i cands e b =
     (let sh = sorted_hold rv i e; today = today_weights (rv_ar rv) sh
      in watch_rows rv watch_n i cands today (roll_weights (rv_ar rv) sh (fill_weights today (record_holdings rv i sh (daily_stats rv i e b)))))"

definition backtest_day :: "run_env \<Rightarrow> int \<Rightarrow> book \<Rightarrow> nat \<Rightarrow> (backtest_error, book) outcome" where
  "backtest_day rv watch_n b i =
     (let ar = rv_ar rv; T = rv_tensor rv; ax = rv_axes rv; s = rv_strategy rv; d = rv_d_lo rv + i in
      bind_ok (rank_candidates ax T s d) (\<lambda>cands.
      bind_ok (lift_error EngineError (step ar (rv_deficits rv) (rv_market rv) i cands (bk_engine b))) (\<lambda>e.
      bind_ok (fold_ok (on_event rv) (b\<lparr>bk_engine := e, bk_buy_fill_idx := [], bk_bought_today := []\<rparr>) (en_events e)) (\<lambda>b.
      bind_ok (if i > 0 then bind_ok (pool_return ar ax T s d) (\<lambda>r. Ok (fmul (double ar) (bk_pool_nav_d b) (fadd (double ar) (Fin 1) r)))
               else Ok (bk_pool_nav_d b)) (\<lambda>pool.
        let b = b\<lparr>bk_strat_nav := bk_strat_nav b @ [narrow ar (en_pv_end e)], bk_pool_nav_d := pool,
                  bk_pool_nav := bk_pool_nav b @ [narrow ar pool]\<rparr>
        in Ok (report_day rv watch_n i cands e b))))))"

section \<open>A run\<close>

definition new_book :: "arith \<Rightarrow> strategy_spec \<Rightarrow> book" where
  "new_book ar spec = \<lparr>bk_engine = new_engine ar (st_hold_n spec) (st_exit_ratio spec), bk_open_recs = (\<lambda>_. None), bk_trades = [],
     bk_fills = [], bk_buy_fill_idx = [], bk_bought_today = [], bk_hold_streak = (\<lambda>_. 0), bk_hold_last_seen = (\<lambda>_. -2),
     bk_prev_weight = (\<lambda>_. Fin 0), bk_prev_held = [], bk_rank_win = [], bk_pool_nav_d = CAPITAL_BASE ar, bk_strat_nav = [],
     bk_pool_nav = [], bk_pos_count = [], bk_pos_pct = [], bk_turnover = [], bk_susp_pct = [], bk_exec_pct = [], bk_hold_off = [0],
     bk_holdings = [], bk_watch_off = [0], bk_watch = []\<rparr>"

definition run_days ::
  "arith \<Rightarrow> deficit_sorter \<Rightarrow> ((nat \<times> fval) list \<Rightarrow> (nat \<times> fval) list) \<Rightarrow> axes \<Rightarrow> stock_meta \<Rightarrow> tensor \<Rightarrow> timeline \<Rightarrow> strategy_spec \<Rightarrow> nat
     \<Rightarrow> (backtest_error, run_env \<times> book) outcome" where
  "run_days ar dsort wsort ax meta T nt spec s =
     (let lo = find_d ax (st_bt_start_date spec) False; hi = int (n_d ax) - 1; n_days = hi + 1 - lo in
      if \<not> (lo \<ge> 0 \<and> hi \<ge> lo) then Fail WindowInvalid
      else bind_ok (lift_error EngineError (load_market ax T lo n_days)) (\<lambda>mk.
        let rv = \<lparr>rv_ar = ar, rv_deficits = dsort, rv_weights = wsort, rv_axes = ax, rv_meta = meta, rv_tensor = T,
                  rv_timeline = nt, rv_strategy = s, rv_d_lo = nat lo, rv_market = mk\<rparr>
        in bind_ok (fold_ok (backtest_day rv (st_hold_n spec * 2)) (new_book ar spec) [0..<nat n_days]) (\<lambda>b. Ok (rv, b))))"

section \<open>Reading the ranks back\<close>

lemma trunc_real [simp]: "trunc (Fin (real n)) = int n"
  by (simp add: trunc_def)

lemma ranking_nth:
  assumes "i < length (ranking ax s d T)"
  shows "ranking ax s d T ! i = (strat_at ax T (slot s SF_score) (snd (ranking ax s d T ! i)) d, snd (ranking ax s d T ! i))"
proof -
  have "p \<in> set (ranking ax s d T) \<Longrightarrow> p = (strat_at ax T (slot s SF_score) (snd p) d, snd p)" for p
    by (auto simp: ranking_def Let_def map_filter_if strat_gather_at)
  with assms nth_mem show ?thesis by blast
qed

text \<open>When the rank column is the order of the scores, its scan gives that order back.\<close>

lemma rank_candidates_ranking:
  assumes "rank_column_ok ax s d T"
  shows "rank_candidates ax T s d = Ok (ranking ax s d T)"
proof -
  let ?R = "map snd (ranking ax s d T)" and ?K = "length (ranking ax s d T)"
  let ?r = "\<lambda>a. strat_at ax T (slot s SF_rank) a d" and ?n = "\<lambda>a. card {b \<in> rankable ax s d T. outranks ax s d T b a}"
  note R = ranking_spec [where ax = ax and s = s and d = d and T = T]
  have at: "?r a = (if a \<in> set ?R then Fin (real (Suc (?n a))) else Fin 0)" if "a < n_a ax" for a
    using assms that R(2) by (simp add: rank_column_ok_def)
  have pos: "fless (Fin 0) (?r a) \<longleftrightarrow> a \<in> set ?R" if "a < n_a ax" for a
    using at [OF that] by auto
  have sub: "set ?R \<subseteq> {..<n_a ax}" unfolding R(2) by (auto simp: rankable_def)
  have "set (filter (\<lambda>a. fless (Fin 0) (?r a)) [0..<n_a ax]) = set ?R" using pos sub by auto
  then have n: "length (filter (\<lambda>a. fless (Fin 0) (?r a)) [0..<n_a ax]) = ?K"
    using R(1) distinct_card [of ?R] distinct_card [of "filter (\<lambda>a. fless (Fin 0) (?r a)) [0..<n_a ax]"] by simp
  have good: "\<not> list_ex (\<lambda>a. rank_bad (?r a)) [0..<n_a ax]" by (auto simp: list_ex_iff rank_bad_def at)
  let ?c = "\<lambda>k. map (\<lambda>j. if ?R ! j < k then Some (ranking ax s d T ! j) else None) [0..<?K]"
  have fill: "fold_ok (fill_rank ax T s d) (?c 0) [0..<k] = Ok (?c k)" if "k \<le> n_a ax" for k
    using that
  proof (induction k)
    case (Suc k)
    have step: "fill_rank ax T s d (?c k) k = Ok (?c (Suc k))"
    proof (cases "k \<in> set ?R")
      case True
      then obtain j where j: "j < ?K" "k = ?R ! j" by (auto simp: in_set_conv_nth)
      then have rk: "?r k = Fin (real (Suc j))" using at [of k] True Suc.prems R(3) [of j] by simp
      have "(strat_at ax T (slot s SF_score) k d, k) = ranking ax s d T ! j" using ranking_nth [OF j(1)] j by simp
      moreover have "(?c k)[j := Some (ranking ax s d T ! j)] = ?c (Suc k)"
      proof (rule nth_equalityI)
        fix m assume m: "m < length ((?c k)[j := Some (ranking ax s d T ! j)])"
        then have "?R ! m = k \<longleftrightarrow> m = j" using nth_eq_iff_index_eq [OF R(1), of m j] j by simp
        with m show "(?c k)[j := Some (ranking ax s d T ! j)] ! m = ?c (Suc k) ! m" by (auto simp: nth_list_update less_Suc_eq)
      qed simp
      moreover have "fill_rank ax T s d (?c k) k = Ok ((?c k)[j := Some (strat_at ax T (slot s SF_score) k d, k)])"
        using j(1) trunc_real [of "Suc j"] by (simp add: fill_rank_def rk Let_def nat_add_distrib)
      ultimately show ?thesis by (simp only:)
    next
      case False
      then have "\<not> fless (Fin 0) (?r k)" using pos [of k] Suc.prems by simp
      moreover have "?c (Suc k) = ?c k" using False nth_mem [of _ ?R] by (intro map_cong refl) (auto simp: less_Suc_eq)
      ultimately show ?thesis by (simp add: fill_rank_def)
    qed
    with Suc show ?case by (simp add: fold_ok_append)
  qed simp
  have "?c 0 = replicate ?K None" by (intro nth_equalityI) simp_all
  moreover have "?c (n_a ax) = map Some (ranking ax s d T)"
    using sub nth_mem [of _ ?R] by (intro nth_equalityI) (auto simp: subset_iff)
  ultimately show ?thesis using fill [OF order_refl] good n by (simp add: rank_candidates_def Let_def o_def image_iff)
qed

section \<open>The ledger\<close>

text \<open>The ledger pairs every sale with the purchase before it: after the days before \<open>n\<close>, exactly the instruments of \<open>D\<close> have an open
  record, the fills of an instrument add up to one when it is held and to zero otherwise, every sale has its trade, and every
  trade closes on a later day than it opens, both at the close of the day. What is bought is ranked that day and at no price limit.\<close>

definition side_sum :: "nat \<Rightarrow> fill list \<Rightarrow> int" where
  "side_sum a fs = sum_list (map fi_side (filter (\<lambda>f. fi_a f = a) fs))"

definition day_close :: "run_env \<Rightarrow> nat \<Rightarrow> nat \<Rightarrow> fval" where
  "day_close rv d a = close_at (rv_market rv) (d - rv_d_lo rv) a"

definition trade_ok :: "run_env \<Rightarrow> trade_row \<Rightarrow> bool" where
  "trade_ok rv t \<longleftrightarrow> rv_d_lo rv \<le> tr_open_d t \<and> tr_open_d t < tr_close_d t \<and>
     tr_open_px t = day_close rv (tr_open_d t) (tr_inst t) \<and> tr_close_px t = day_close rv (tr_close_d t) (tr_inst t)"

definition may_buy :: "run_env \<Rightarrow> nat \<Rightarrow> nat \<Rightarrow> bool" where
  "may_buy rv d a \<longleftrightarrow> a \<in> rankable (rv_axes rv) (rv_strategy rv) d (rv_tensor rv) \<and> \<not> limited (rv_market rv) (d - rv_d_lo rv) a \<and>
     is_finite (day_close rv d a) \<and> d < n_d (rv_axes rv)"

definition fill_ok :: "run_env \<Rightarrow> fill \<Rightarrow> bool" where
  "fill_ok rv f \<longleftrightarrow> rv_d_lo rv \<le> fi_d f \<and> fi_side f \<in> {1, -1} \<and> fi_px f = day_close rv (fi_d f) (fi_a f) \<and>
     (fi_side f = 1 \<longrightarrow> may_buy rv (fi_d f) (fi_a f))"

definition ledger_ok :: "run_env \<Rightarrow> nat \<Rightarrow> nat set \<Rightarrow> book \<Rightarrow> bool" where
  "ledger_ok rv n D b \<longleftrightarrow> dom (bk_open_recs b) = D \<and> (\<forall>a. side_sum a (bk_fills b) = (if a \<in> D then 1 else 0)) \<and>
     length (bk_trades b) = length (filter (\<lambda>f. fi_side f = -1) (bk_fills b)) \<and>
     (\<forall>a r. bk_open_recs b a = Some r \<longrightarrow> rv_d_lo rv \<le> or_open_d r \<and> or_open_d r < n \<and> or_open_px r = day_close rv (or_open_d r) a) \<and>
     list_all (trade_ok rv) (bk_trades b) \<and> list_all (fill_ok rv) (bk_fills b)"

text \<open>What the hooks leave alone.\<close>

definition same_report :: "book \<Rightarrow> book \<Rightarrow> bool" where
  "same_report b c \<longleftrightarrow> bk_engine c = bk_engine b \<and> bk_hold_streak c = bk_hold_streak b \<and> bk_hold_last_seen c = bk_hold_last_seen b \<and>
     bk_prev_weight c = bk_prev_weight b \<and> bk_prev_held c = bk_prev_held b \<and> bk_rank_win c = bk_rank_win b \<and>
     bk_pool_nav_d c = bk_pool_nav_d b \<and> bk_strat_nav c = bk_strat_nav b \<and> bk_pool_nav c = bk_pool_nav b \<and>
     bk_pos_count c = bk_pos_count b \<and> bk_pos_pct c = bk_pos_pct b \<and> bk_turnover c = bk_turnover b \<and>
     bk_susp_pct c = bk_susp_pct b \<and> bk_exec_pct c = bk_exec_pct b \<and> bk_hold_off c = bk_hold_off b \<and>
     bk_holdings c = bk_holdings b \<and> bk_watch_off c = bk_watch_off b \<and> bk_watch c = bk_watch b"

lemma same_report_refl: "same_report b b"
  by (simp add: same_report_def)

lemma same_report_trans: "same_report b c \<Longrightarrow> same_report c d \<Longrightarrow> same_report b d"
  by (simp add: same_report_def)

lemma side_sum_append [simp]: "side_sum a (fs @ gs) = side_sum a fs + side_sum a gs" "side_sum a [] = 0"
  "side_sum a (f # fs) = (if fi_a f = a then fi_side f else 0) + side_sum a fs"
  by (simp_all add: side_sum_def)

lemma close_position_recorded:
  assumes "ledger_ok rv d D b" "rv_d_lo rv \<le> d" "a \<in> D" "c = day_close rv d a"
  shows "\<exists>b'. close_position rv a d c b = Ok b' \<and> ledger_ok rv d (D - {a}) b' \<and> same_report b b'"
proof -
  obtain r where r: "bk_open_recs b a = Some r" using assms(1,3) by (auto simp: ledger_ok_def dom_def)
  let ?b = "(push_fill rv a d (-1) c (trade_ret (rv_ar rv) (or_open_px r) c) (close_trade rv a d r c b))"
  have "rv_d_lo rv \<le> or_open_d r" "or_open_d r < d" "or_open_px r = day_close rv (or_open_d r) a"
    using assms(1) r by (simp_all add: ledger_ok_def)
  with assms have "ledger_ok rv d (D - {a}) (?b\<lparr>bk_open_recs := (bk_open_recs ?b)(a := None)\<rparr>)"
    by (auto simp: ledger_ok_def push_fill_def close_trade_def Let_def trade_ok_def fill_ok_def)
  moreover have "same_report b (?b\<lparr>bk_open_recs := (bk_open_recs ?b)(a := None)\<rparr>)"
    by (simp add: same_report_def push_fill_def close_trade_def Let_def)
  ultimately show ?thesis using r by (simp add: close_position_def Let_def)
qed

text \<open>The sales of a day, then its purchases.\<close>

definition sells_of :: "run_env \<Rightarrow> nat \<Rightarrow> nat list \<Rightarrow> event list \<Rightarrow> bool" where
  "sells_of rv i as vs \<longleftrightarrow> list_all2 (\<lambda>a v. (\<exists>sh. v = DelistSell a i (close_at (rv_market rv) i a) sh) \<or> v = Sell a i (close_at (rv_market rv) i a)) as vs"

lemma sells_recorded:
  assumes "sells_of rv i as vs" "distinct as" "set as \<subseteq> D" "ledger_ok rv (rv_d_lo rv + i) D b"
  shows "\<exists>b'. fold_ok (on_event rv) b vs = Ok b' \<and> ledger_ok rv (rv_d_lo rv + i) (D - set as) b' \<and> same_report b b'"
  using assms
proof (induction as arbitrary: vs b D)
  case Nil
  then show ?case by (simp add: sells_of_def same_report_refl)
next
  case (Cons a as)
  from Cons.prems(1) obtain v vs' where v: "vs = v # vs'" "sells_of rv i as vs'"
    "(\<exists>sh. v = DelistSell a i (close_at (rv_market rv) i a) sh) \<or> v = Sell a i (close_at (rv_market rv) i a)"
    by (auto simp: sells_of_def list_all2_Cons1)
  have c: "close_at (rv_market rv) i a = day_close rv (rv_d_lo rv + i) a" by (simp add: day_close_def)
  have a: "a \<in> D" using Cons.prems(3) by simp
  obtain b1 where b1: "close_position rv a (rv_d_lo rv + i) (close_at (rv_market rv) i a) b = Ok b1"
    "ledger_ok rv (rv_d_lo rv + i) (D - {a}) b1" "same_report b b1"
    using close_position_recorded [OF Cons.prems(4) le_add1 a c] by blast
  have "set as \<subseteq> D - {a}" using Cons.prems(2,3) by auto
  from Cons.IH [OF v(2) _ this b1(2)] Cons.prems(2) obtain b2 where
    "fold_ok (on_event rv) b1 vs' = Ok b2" "ledger_ok rv (rv_d_lo rv + i) (D - {a} - set as) b2" "same_report b1 b2" by auto
  moreover have "on_event rv b v = Ok b1" using v(3) b1(1) by auto
  moreover have "D - {a} - set as = D - set (a # as)" by auto
  ultimately show ?case using v(1) same_report_trans [OF b1(3)] by auto
qed

lemma buy_recorded:
  assumes "ledger_ok rv n D b" "a \<notin> D" "n \<le> Suc (rv_d_lo rv + i)" "may_buy rv (rv_d_lo rv + i) a"
  shows "\<exists>b'. on_event rv b (Buy a i (close_at (rv_market rv) i a)) = Ok b' \<and>
    ledger_ok rv (Suc (rv_d_lo rv + i)) (insert a D) b' \<and> same_report b b'"
proof -
  let ?c = "close_at (rv_market rv) i a" and ?d = "rv_d_lo rv + i"
  define b1 where "b1 = push_fill rv a ?d 1 ?c NaN (b\<lparr>bk_open_recs := (bk_open_recs b)(a \<mapsto> \<lparr>or_open_d = ?d, or_open_px = ?c\<rparr>)\<rparr>)"
  note L = assms(1) [unfolded ledger_ok_def]
  have f: "bk_open_recs b1 = (bk_open_recs b)(a \<mapsto> \<lparr>or_open_d = ?d, or_open_px = ?c\<rparr>)" "bk_trades b1 = bk_trades b"
    "\<exists>w nm. bk_fills b1 = bk_fills b @ [\<lparr>fi_d = ?d, fi_a = a, fi_side = 1, fi_px = ?c, fi_weight = w, fi_pnl = NaN, fi_name = nm\<rparr>]"
    by (simp_all add: b1_def push_fill_def Let_def)
  have c: "?c = day_close rv ?d a" by (simp add: day_close_def)
  have "dom (bk_open_recs b1) = insert a D" using L f(1) by auto
  moreover have "side_sum x (bk_fills b1) = (if x \<in> insert a D then 1 else 0)" for x
  proof -
    from L have "side_sum x (bk_fills b) = (if x \<in> D then 1 else 0)" by blast
    with f(3) assms(2) show ?thesis by (cases "x = a"; cases "x \<in> D") auto
  qed
  moreover have "length (bk_trades b1) = length (filter (\<lambda>f. fi_side f = -1) (bk_fills b1))"
    using L f(2,3) by auto
  moreover have "rv_d_lo rv \<le> or_open_d r \<and> or_open_d r < Suc ?d \<and> or_open_px r = day_close rv (or_open_d r) x"
    if r: "bk_open_recs b1 x = Some r" for x r
  proof (cases "x = a")
    case False
    with r f(1) have "bk_open_recs b x = Some r" by simp
    with L assms(3) show ?thesis by (meson less_le_trans)
  qed (use r f(1) c in auto)
  moreover have "list_all (trade_ok rv) (bk_trades b1)" "list_all (fill_ok rv) (bk_fills b1)"
    using L f(2,3) c assms(4) by (auto simp: fill_ok_def)
  ultimately have "ledger_ok rv (Suc ?d) (insert a D) (b1\<lparr>bk_bought_today := a # bk_bought_today b1\<rparr>)"
    by (simp add: ledger_ok_def)
  moreover have "same_report b (b1\<lparr>bk_bought_today := a # bk_bought_today b1\<rparr>)"
    by (simp add: same_report_def b1_def push_fill_def Let_def)
  ultimately show ?thesis by (simp add: b1_def Let_def)
qed

lemma buys_recorded:
  assumes "distinct as" "set as \<inter> D = {}" "ledger_ok rv n D b" "n \<le> Suc (rv_d_lo rv + i)" "\<forall>a\<in>set as. may_buy rv (rv_d_lo rv + i) a"
  shows "\<exists>b'. fold_ok (on_event rv) b (map (\<lambda>a. Buy a i (close_at (rv_market rv) i a)) as) = Ok b' \<and>
    ledger_ok rv (Suc (rv_d_lo rv + i)) (D \<union> set as) b' \<and> same_report b b'"
  using assms
proof (induction as arbitrary: b D n)
  case Nil
  then show ?case by (fastforce simp: same_report_refl ledger_ok_def)
next
  case (Cons a as)
  from Cons.prems(2) have "a \<notin> D" by simp
  have "may_buy rv (rv_d_lo rv + i) a" using Cons.prems(5) by simp
  from buy_recorded [OF Cons.prems(3) \<open>a \<notin> D\<close> Cons.prems(4) this] obtain b1 where
    b1: "on_event rv b (Buy a i (close_at (rv_market rv) i a)) = Ok b1" "ledger_ok rv (Suc (rv_d_lo rv + i)) (insert a D) b1" "same_report b b1" by blast
  note b1(2)
  moreover have s: "same_report b b1" by (rule b1(3))
  moreover have "set as \<inter> insert a D = {}" "distinct as" using Cons.prems(1,2) by auto
  ultimately obtain b2 where "fold_ok (on_event rv) b1 (map (\<lambda>a. Buy a i (close_at (rv_market rv) i a)) as) = Ok b2"
    "ledger_ok rv (Suc (rv_d_lo rv + i)) (insert a D \<union> set as) b2" "same_report b1 b2"
    using Cons.IH [of "insert a D" "Suc (rv_d_lo rv + i)" b1] Cons.prems(5) by auto
  with b1(1) s same_report_trans [of b b1 b2] show ?case by (simp del: on_event.simps)
qed

text \<open>The events of a day of the kernel, and what they do to the instruments that are held.\<close>

lemma step_events:
  fixes e :: engine
  assumes "step ar sorter (rv_market rv) i cands e = Ok e'" "distinct (map po_a (en_holdings e))" "en_hold_n e \<le> exit_limit ar e"
    "distinct (map snd cands)"
  obtains ss vs bs where "sells_of rv i ss vs" "distinct ss" "set ss \<subseteq> po_a ` set (en_holdings e)" "distinct bs"
    "set bs \<inter> (po_a ` set (en_holdings e) - set ss) = {}"
    "en_events e' = vs @ map (\<lambda>a. Buy a i (close_at (rv_market rv) i a)) bs"
    "po_a ` set (en_holdings e') = (po_a ` set (en_holdings e) - set ss) \<union> set bs" "set bs \<subseteq> snd ` set cands"
    "\<forall>a\<in>set bs. is_finite (close_at (rv_market rv) i a) \<and> \<not> limited (rv_market rv) i a" "distinct (map po_a (en_holdings e'))"
    "en_hold_n e' = en_hold_n e" "en_exit_ratio e' = en_exit_ratio e"
proof -
  let ?mk = "rv_market rv"
  from step_split [OF assms(1)] obtain e1 where e1: "liquidate ar ?mk i (e\<lparr>en_turn_amt := Fin 0, en_events := []\<rparr>) = Ok e1"
    "close_day ar ?mk i (trade ar sorter ?mk i cands (e1\<lparr>en_pv := fadd (double ar) (en_cash e1) (market_value ar ?mk i (en_holdings e1))\<rparr>)) = Ok e'" .
  let ?e2 = "e1\<lparr>en_pv := fadd (double ar) (en_cash e1) (market_value ar ?mk i (en_holdings e1))\<rparr>"
  let ?hs = "marked ar ?mk i cands ?e2"
  note L = liquidate_fields [OF e1(1)] and C = close_day_fields [OF e1(2)]
  obtain bs :: "pos list" where bs: "map po_a (en_holdings e') = map po_a (filter (kept ?mk i) ?hs @ bs)"
    "subseq (map po_a bs) (buy_list ?mk i cands (sell_intents ar ?mk i cands ?e2))"
    "list_all (\<lambda>p. \<not> no_price (close_at ?mk i (po_a p))) bs"
    "en_events e' = en_events e1 @ map (\<lambda>p. Sell (po_a p) i (close_at ?mk i (po_a p))) (filter (\<lambda>p. \<not> kept ?mk i p) ?hs) @
       map (\<lambda>p. Buy (po_a p) i (close_at ?mk i (po_a p))) bs"
    using trade_effect(1) [of ar sorter ?mk i cands ?e2] C(1,3) by auto
  let ?del = "filter (\<lambda>p. has_flag (flags_at ?mk i (po_a p)) DELISTED) (en_holdings e)"
  let ?sold = "filter (\<lambda>p. \<not> kept ?mk i p) ?hs"
  have hs: "map po_a ?hs = map po_a (filter (\<lambda>p. \<not> has_flag (flags_at ?mk i (po_a p)) DELISTED) (en_holdings e))"
    using L(1) by (simp add: map_marked)
  have d: "distinct (map po_a ?hs)" unfolding hs using assms(2) by (simp add: distinct_map_filter)
  have rest: "po_a ` set ?hs = po_a ` set (en_holdings e) - po_a ` set ?del"
    using arg_cong [OF hs, of set] by auto
  have inj: "inj_on po_a (set ?hs)" using d by (simp add: distinct_map)
  have kept: "po_a ` set (filter (kept ?mk i) ?hs) = po_a ` set ?hs - po_a ` set ?sold"
    using inj by (auto simp: inj_on_def)
  have exit: "en_hold_n ?e2 \<le> exit_limit ar ?e2" using assms(3) n_top_keeps_fields [of ?e2 e] L(2,3) by simp
  have new: "a \<notin> po_a ` set ?hs \<and> a \<in> snd ` set cands \<and> \<not> limited ?mk i a" if "a \<in> po_a ` set bs" for a
  proof -
    from subseq_set [OF bs(2)] that have "a \<in> set (buy_list ?mk i cands (sell_intents ar ?mk i cands ?e2))" by (simp only: set_map) blast
    from buy_list_new(1-3) [OF exit this] show ?thesis by blast
  qed
  have db: "distinct (map po_a bs)"
    using subseq_distinct [OF bs(2) subseq_distinct [OF _ assms(4)]] pick_buys_subseq by (simp add: buy_list_def)
  show ?thesis
  proof (rule that [of "map po_a ?del @ map po_a ?sold" "en_events e1 @ map (\<lambda>p. Sell (po_a p) i (close_at ?mk i (po_a p))) ?sold" "map po_a bs"])
    show "sells_of rv i (map po_a ?del @ map po_a ?sold) (en_events e1 @ map (\<lambda>p. Sell (po_a p) i (close_at ?mk i (po_a p))) ?sold)"
      unfolding sells_of_def using L(4) by (intro list_all2_appendI) (simp_all add: list_all2_conv_all_nth)
    show "distinct (map po_a ?del @ map po_a ?sold)" using assms(2) d rest by (auto simp: distinct_map_filter)
    show "set (map po_a ?del @ map po_a ?sold) \<subseteq> po_a ` set (en_holdings e)" using rest by auto
    show "distinct (map po_a bs)" by (rule db)
    show "set (map po_a bs) \<inter> (po_a ` set (en_holdings e) - set (map po_a ?del @ map po_a ?sold)) = {}"
      using new rest by auto
    show "en_events e' = (en_events e1 @ map (\<lambda>p. Sell (po_a p) i (close_at ?mk i (po_a p))) ?sold) @
        map (\<lambda>a. Buy a i (close_at ?mk i a)) (map po_a bs)" using bs(4) by (simp add: o_def)
    show "po_a ` set (en_holdings e') = (po_a ` set (en_holdings e) - set (map po_a ?del @ map po_a ?sold)) \<union> set (map po_a bs)"
      using arg_cong [OF bs(1), of set] kept rest by (auto simp: image_Un)
    show "set (map po_a bs) \<subseteq> snd ` set cands" using new by auto
    show "\<forall>a\<in>set (map po_a bs). is_finite (close_at ?mk i a) \<and> \<not> limited ?mk i a" using bs(3) new by (auto simp: list_all_iff no_price_def)
    show "distinct (map po_a (en_holdings e'))"
      unfolding bs(1) map_append distinct_append using d db new kept by (fastforce simp: distinct_map_filter)
    show "en_hold_n e' = en_hold_n e" "en_exit_ratio e' = en_exit_ratio e"
      using C(5) trade_effect(2,3) [of ar sorter ?mk i cands ?e2] L(2,3) by (simp_all add: same_settings_def)
  qed
qed

section \<open>The report of a day\<close>

text \<open>Weights are filled in later; everything the ledger knows of a fill stays.\<close>

definition same_fill :: "fill \<Rightarrow> fill \<Rightarrow> bool" where
  "same_fill f g \<longleftrightarrow> fi_d f = fi_d g \<and> fi_a f = fi_a g \<and> fi_side f = fi_side g \<and> fi_px f = fi_px g"

lemma same_fills:
  assumes "list_all2 same_fill fs gs"
  shows "side_sum a fs = side_sum a gs" "length (filter (\<lambda>f. fi_side f = -1) fs) = length (filter (\<lambda>f. fi_side f = -1) gs)"
    "list_all (fill_ok rv) fs = list_all (fill_ok rv) gs"
  using assms by (induction rule: list_all2_induct) (simp_all add: same_fill_def fill_ok_def)

lemma fill_weights_same: "list_all2 same_fill (bk_fills b) (bk_fills (fill_weights today b))"
proof -
  let ?u = "\<lambda>fs k. fs[k := (fs ! k)\<lparr>fi_weight := (case today (fi_a (fs ! k)) of Some w \<Rightarrow> w | None \<Rightarrow> Fin 0)\<rparr>]"
  have "list_all2 same_fill fs (foldl ?u gs ks)" if "list_all2 same_fill fs gs" for fs gs ks
    using that
  proof (induction ks arbitrary: gs)
    case (Cons k ks)
    have "list_all2 same_fill fs (?u gs k)"
    proof (cases "k < length gs")
      case True
      with Cons.prems show ?thesis by (simp add: list_all2_conv_all_nth nth_list_update same_fill_def)
    next
      case False
      then have "?u gs k = gs" by (simp add: list_update_beyond)
      with Cons.prems show ?thesis by simp
    qed
    with Cons.IH show ?case by simp
  qed simp
  moreover have "list_all2 same_fill fs fs" for fs by (simp add: list_all2_conv_all_nth same_fill_def)
  ultimately show ?thesis by (simp add: fill_weights_def)
qed

lemma fill_weights_keeps [simp]:
  "bk_open_recs (fill_weights today b) = bk_open_recs b" "bk_trades (fill_weights today b) = bk_trades b"
  "same_report b (fill_weights today b)"
  by (simp_all add: fill_weights_def same_report_def)

text \<open>The streaks of the holdings are the only other state that a loop over the holdings changes.\<close>

lemma streaks:
  "\<exists>s l. foldl (streak i) b sh = (b :: book)\<lparr>bk_hold_streak := s, bk_hold_last_seen := l\<rparr>"
proof (induction sh arbitrary: b)
  case Nil
  show ?case by (rule exI [of _ "bk_hold_streak b"], rule exI [of _ "bk_hold_last_seen b"]) simp
next
  case (Cons x sh)
  obtain s l where x: "streak i b x = b\<lparr>bk_hold_streak := s, bk_hold_last_seen := l\<rparr>"
    by (cases x) (simp add: streak_def)
  from Cons.IH [of "streak i b x"] show ?case unfolding foldl_Cons by (auto simp: x)
qed

lemma report_day_fields:
  fixes b :: book and e :: engine
  assumes b'_def: "b' = report_day rv watch_n i cands e b"
  shows "bk_engine b' = bk_engine b" "bk_open_recs b' = bk_open_recs b" "bk_trades b' = bk_trades b"
    "list_all2 same_fill (bk_fills b) (bk_fills b')" "bk_strat_nav b' = bk_strat_nav b" "bk_pool_nav b' = bk_pool_nav b"
    "bk_pool_nav_d b' = bk_pool_nav_d b" "bk_pos_count b' = bk_pos_count b @ [length (en_holdings e)]"
    "length (bk_pos_pct b') = Suc (length (bk_pos_pct b))" "length (bk_turnover b') = Suc (length (bk_turnover b))"
    "length (bk_susp_pct b') = Suc (length (bk_susp_pct b))" "length (bk_exec_pct b') = Suc (length (bk_exec_pct b))"
    "map he_code (bk_holdings b') = map he_code (bk_holdings b) @ map fst (sorted_hold rv i e)"
    "bk_hold_off b' = bk_hold_off b @ [length (bk_holdings b')]"
    "\<exists>ws. bk_watch b' = bk_watch b @ ws \<and> length ws = min (length cands) (nat watch_n)"
    "bk_watch_off b' = bk_watch_off b @ [length (bk_watch b')]"
proof -
  define b1 where "b1 = daily_stats rv i e b"
  have 1: "bk_engine b1 = bk_engine b" "bk_open_recs b1 = bk_open_recs b" "bk_trades b1 = bk_trades b" "bk_fills b1 = bk_fills b"
    "bk_strat_nav b1 = bk_strat_nav b" "bk_pool_nav b1 = bk_pool_nav b" "bk_pool_nav_d b1 = bk_pool_nav_d b"
    "bk_pos_count b1 = bk_pos_count b @ [length (en_holdings e)]" "length (bk_pos_pct b1) = Suc (length (bk_pos_pct b))"
    "length (bk_turnover b1) = Suc (length (bk_turnover b))" "length (bk_susp_pct b1) = Suc (length (bk_susp_pct b))"
    "length (bk_exec_pct b1) = Suc (length (bk_exec_pct b))" "bk_holdings b1 = bk_holdings b" "bk_hold_off b1 = bk_hold_off b"
    "bk_watch b1 = bk_watch b" "bk_watch_off b1 = bk_watch_off b"
    by (simp_all add: b1_def daily_stats_def Let_def)
  define sh where "sh = sorted_hold rv i e"
  define b2 where "b2 = record_holdings rv i sh b1"
  have 2: "bk_engine b2 = bk_engine b1" "bk_open_recs b2 = bk_open_recs b1" "bk_trades b2 = bk_trades b1" "bk_fills b2 = bk_fills b1"
    "bk_strat_nav b2 = bk_strat_nav b1" "bk_pool_nav b2 = bk_pool_nav b1" "bk_pool_nav_d b2 = bk_pool_nav_d b1"
    "bk_pos_count b2 = bk_pos_count b1" "bk_pos_pct b2 = bk_pos_pct b1"
    "bk_turnover b2 = bk_turnover b1" "bk_susp_pct b2 = bk_susp_pct b1" "bk_exec_pct b2 = bk_exec_pct b1"
    "bk_watch b2 = bk_watch b1" "bk_watch_off b2 = bk_watch_off b1"
    "map he_code (bk_holdings b2) = map he_code (bk_holdings b1) @ map fst sh" "bk_hold_off b2 = bk_hold_off b1 @ [length (bk_holdings b2)]"
    using streaks [of i b1 sh] by (auto simp: b2_def record_holdings_def Let_def split_def)
  define today where "today = today_weights (rv_ar rv) sh"
  define b3 where "b3 = roll_weights (rv_ar rv) sh (fill_weights today b2)"
  have 3: "bk_open_recs b3 = bk_open_recs b2" "bk_trades b3 = bk_trades b2" "list_all2 same_fill (bk_fills b2) (bk_fills b3)"
    "bk_engine b3 = bk_engine b2" "bk_strat_nav b3 = bk_strat_nav b2" "bk_pool_nav b3 = bk_pool_nav b2" "bk_pool_nav_d b3 = bk_pool_nav_d b2"
    "bk_pos_count b3 = bk_pos_count b2" "bk_pos_pct b3 = bk_pos_pct b2"
    "bk_turnover b3 = bk_turnover b2" "bk_susp_pct b3 = bk_susp_pct b2" "bk_exec_pct b3 = bk_exec_pct b2"
    "bk_watch b3 = bk_watch b2" "bk_watch_off b3 = bk_watch_off b2" "bk_holdings b3 = bk_holdings b2" "bk_hold_off b3 = bk_hold_off b2"
    using fill_weights_same [of b2 today] fill_weights_keeps(3) [of b2 today]
    by (simp_all add: b3_def roll_weights_def Let_def same_report_def)
  have b': "b' = watch_rows rv watch_n i cands today b3"
    by (simp add: b'_def report_day_def Let_def b3_def b2_def b1_def today_def sh_def)
  have 4: "bk_open_recs b' = bk_open_recs b3" "bk_trades b' = bk_trades b3" "bk_fills b' = bk_fills b3"
    "bk_engine b' = bk_engine b3" "bk_strat_nav b' = bk_strat_nav b3" "bk_pool_nav b' = bk_pool_nav b3" "bk_pool_nav_d b' = bk_pool_nav_d b3"
    "bk_pos_count b' = bk_pos_count b3" "bk_pos_pct b' = bk_pos_pct b3"
    "bk_turnover b' = bk_turnover b3" "bk_susp_pct b' = bk_susp_pct b3" "bk_exec_pct b' = bk_exec_pct b3"
    "bk_holdings b' = bk_holdings b3" "bk_hold_off b' = bk_hold_off b3" "bk_watch_off b' = bk_watch_off b3 @ [length (bk_watch b')]"
    "\<exists>ws. bk_watch b' = bk_watch b3 @ ws \<and> length ws = min (length cands) (nat watch_n)"
    by (simp_all add: b' watch_rows_def Let_def)
  show "bk_engine b' = bk_engine b" "bk_open_recs b' = bk_open_recs b" "bk_trades b' = bk_trades b"
    "list_all2 same_fill (bk_fills b) (bk_fills b')" "bk_strat_nav b' = bk_strat_nav b" "bk_pool_nav b' = bk_pool_nav b"
    "bk_pool_nav_d b' = bk_pool_nav_d b" "bk_pos_count b' = bk_pos_count b @ [length (en_holdings e)]"
    "length (bk_pos_pct b') = Suc (length (bk_pos_pct b))" "length (bk_turnover b') = Suc (length (bk_turnover b))"
    "length (bk_susp_pct b') = Suc (length (bk_susp_pct b))" "length (bk_exec_pct b') = Suc (length (bk_exec_pct b))"
    "map he_code (bk_holdings b') = map he_code (bk_holdings b) @ map fst (sorted_hold rv i e)"
    "bk_hold_off b' = bk_hold_off b @ [length (bk_holdings b')]"
    "\<exists>ws. bk_watch b' = bk_watch b @ ws \<and> length ws = min (length cands) (nat watch_n)"
    "bk_watch_off b' = bk_watch_off b @ [length (bk_watch b')]"
    using 1 2 3 4 by (simp_all add: sh_def)
qed

section \<open>A run\<close>

text \<open>Two of the errors of the kernel cannot occur when every position has a close.\<close>

lemma step_errors:
  fixes e :: engine
  assumes "step ar sorter mk i cands e = Fail x" "i < mk_n_d mk" "\<forall>p\<in>set (en_holdings e). is_finite (close_at mk i (po_a p))"
  shows "x \<in> {NoValue, TooManyHoldings}"
proof (cases "liquidate ar mk i (e\<lparr>en_turn_amt := Fin 0, en_events := []\<rparr>)")
  case (Fail y)
  have "False" by (rule fold_ok_error [OF _ Fail [unfolded liquidate_def]]) (use assms(3) in \<open>auto simp: delist_step_def split: if_splits\<close>)
  then show ?thesis ..
next
  case (Ok e1)
  have "\<not> list_ex (\<lambda>p. \<not> is_finite (close_at mk i (po_a p))) (en_holdings e1)"
    using liquidate_fields(1) [OF Ok] assms(3) by (auto simp: list_ex_iff)
  with assms(1,2) Ok show ?thesis by (auto simp: step_def mark_def close_day_def Let_def split: if_splits)
qed

definition closes_stay :: "market_window \<Rightarrow> bool" where
  "closes_stay mk \<longleftrightarrow> (\<forall>i a. Suc i < mk_n_d mk \<longrightarrow> a < mk_n_a mk \<longrightarrow> is_finite (close_at mk i a) \<longrightarrow> is_finite (close_at mk (Suc i) a))"

lemma load_market_closes: "load_market ax T d_lo n_days = Ok mk \<Longrightarrow> closes_stay mk \<and> mk_d_lo mk = nat d_lo \<and> mk_n_d mk = nat n_days \<and> mk_n_a mk = n_a ax"
proof -
  assume ok: "load_market ax T d_lo n_days = Ok mk"
  note L = load_market_effect [OF ok]
  have sh: "mk_d_lo mk = nat d_lo" "mk_n_d mk = nat n_days" "mk_n_a mk = n_a ax" using L(4) by (simp_all add: shape_ok_def)
  have "close_at mk i a = last_close ax T (nat d_lo) a i" if "i < nat n_days" "a < n_a ax" for i a
    using L(5) [OF that(2,1)] by (simp add: market_entry_ok_def)
  then have "closes_stay mk" unfolding closes_stay_def sh by (auto simp: last_close_Suc Let_def)
  with sh show ?thesis by simp
qed

text \<open>What a run relies on: the columns of its strategy, and closes that stay.\<close>

definition run_ready :: "run_env \<Rightarrow> bool" where
  "run_ready rv \<longleftrightarrow> closes_stay (rv_market rv) \<and> mk_n_a (rv_market rv) = n_a (rv_axes rv) \<and>
     rv_d_lo rv + mk_n_d (rv_market rv) \<le> n_d (rv_axes rv) \<and> desc_sort snd (rv_weights rv) \<and>
     (\<forall>d<n_d (rv_axes rv). rank_column_ok (rv_axes rv) (rv_strategy rv) d (rv_tensor rv) \<and>
        (\<forall>a<n_a (rv_axes rv). is_finite (strat_at (rv_axes rv) (rv_tensor rv) (slot (rv_strategy rv) SF_pool) a d)))"

text \<open>Offsets of rows that are appended day by day.\<close>

definition offsets_ok :: "nat \<Rightarrow> nat list \<Rightarrow> 'a list \<Rightarrow> bool" where
  "offsets_ok i offs xs \<longleftrightarrow> length offs = Suc i \<and> sorted offs \<and> hd offs = 0 \<and> last offs = length xs"

lemma offsets_append: "offsets_ok i offs xs \<Longrightarrow> offsets_ok (Suc i) (offs @ [length (xs @ ys)]) (xs @ ys)"
proof -
  assume ok: "offsets_ok i offs xs"
  have "x \<le> length xs" if x: "x \<in> set offs" for x
  proof -
    obtain k where k: "k < length offs" "x = offs ! k" using x by (auto simp: in_set_conv_nth)
    then have "offs ! k \<le> offs ! (length offs - 1)" using ok by (intro sorted_nth_mono) (auto simp: offsets_ok_def)
    moreover have "offs \<noteq> []" using k by auto
    then have "last offs = offs ! (length offs - 1)" by (rule last_conv_nth)
    ultimately show ?thesis using ok k(2) unfolding offsets_ok_def by metis
  qed
  moreover from ok have "offs \<noteq> []" by (auto simp: offsets_ok_def)
  ultimately show ?thesis using ok by (auto simp: offsets_ok_def sorted_append intro: trans_le_add1)
qed

definition series_ok :: "nat \<Rightarrow> book \<Rightarrow> bool" where
  "series_ok i b \<longleftrightarrow> length (bk_strat_nav b) = i \<and> length (bk_pool_nav b) = i \<and> length (bk_pos_count b) = i \<and> length (bk_pos_pct b) = i \<and>
     length (bk_turnover b) = i \<and> length (bk_susp_pct b) = i \<and> length (bk_exec_pct b) = i \<and>
     offsets_ok i (bk_hold_off b) (map he_code (bk_holdings b)) \<and> offsets_ok i (bk_watch_off b) (bk_watch b)"

text \<open>The state after the first \<open>i\<close> days.\<close>

definition run_inv :: "run_env \<Rightarrow> engine \<Rightarrow> nat \<Rightarrow> book \<Rightarrow> bool" where
  "run_inv rv e0 i b \<longleftrightarrow>
     (let e = bk_engine b; hs = en_holdings e in
      en_hold_n e = en_hold_n e0 \<and> en_exit_ratio e = en_exit_ratio e0 \<and> distinct (map po_a hs) \<and>
      (\<forall>p\<in>set hs. po_a p < n_a (rv_axes rv) \<and> i > 0 \<and> is_finite (close_at (rv_market rv) (i - 1) (po_a p))) \<and>
      ledger_ok rv (rv_d_lo rv + i) (po_a ` set hs) b \<and> series_ok i b \<and>
      (i > 0 \<longrightarrow> mset (map he_code (drop (bk_hold_off b ! (i - 1)) (bk_holdings b))) = mset (map po_a hs)))"

lemma pool_return_total:
  assumes "\<forall>a<n_a ax. is_finite (strat_at ax T (slot s SF_pool) a (d - 1))"
  shows "\<exists>r. pool_return ar ax T s d = Ok r"
proof -
  let ?step = "\<lambda>(sm, n) a. let m = strat_at ax T (slot s SF_pool) a (d - 1); r = tensor_at ax T Daily_return a d in
         if \<not> is_finite m then Fail PoolNotFinite
         else if flag m \<and> is_finite r then Ok (fadd (double ar) sm r, Suc n) else Ok (sm, n)"
  have "\<exists>y. fold_ok ?step (Fin 0, 0) [0..<n_a ax] = Ok y \<and> True"
    by (rule fold_ok_total) (use assms in \<open>auto simp: Let_def\<close>)
  then show ?thesis unfolding pool_return_def by (auto split: prod.splits)
qed

lemma ledger_report:
  assumes "ledger_ok rv n D b" "bk_open_recs c = bk_open_recs b" "bk_trades c = bk_trades b" "list_all2 same_fill (bk_fills b) (bk_fills c)"
  shows "ledger_ok rv n D c"
  using assms(1-3) same_fills [OF assms(4)] by (simp add: ledger_ok_def)

lemma ledger_engine [simp]:
  "ledger_ok rv n D (b\<lparr>bk_engine := e, bk_buy_fill_idx := k, bk_bought_today := t\<rparr>) = ledger_ok rv n D b"
  "ledger_ok rv n D (b\<lparr>bk_strat_nav := s, bk_pool_nav_d := x, bk_pool_nav := y\<rparr>) = ledger_ok rv n D b"
  by (simp_all add: ledger_ok_def)

lemma holdings_priced:
  assumes "run_ready rv" "run_inv rv e0 i b" "i < mk_n_d (rv_market rv)"
  shows "\<forall>p\<in>set (en_holdings (bk_engine b)). is_finite (close_at (rv_market rv) i (po_a p))"
proof
  fix p assume p: "p \<in> set (en_holdings (bk_engine b))"
  from assms(2) p have *: "po_a p < n_a (rv_axes rv)" "i > 0" "is_finite (close_at (rv_market rv) (i - 1) (po_a p))"
    by (auto simp: run_inv_def Let_def)
  with assms(1,3) show "is_finite (close_at (rv_market rv) i (po_a p))"
    by (cases i) (auto simp: run_ready_def closes_stay_def)
qed

text \<open>A day of the backtest keeps the invariant, and can only stop in the kernel.\<close>

lemma day_kept:
  assumes "run_ready rv" "run_inv rv e0 i b" "i < mk_n_d (rv_market rv)" "en_hold_n e0 \<le> exit_limit (rv_ar rv) e0"
    "step (rv_ar rv) (rv_deficits rv) (rv_market rv) i (ranking (rv_axes rv) (rv_strategy rv) (rv_d_lo rv + i) (rv_tensor rv)) (bk_engine b) = Ok e'"
  shows "\<exists>b'. backtest_day rv w b i = Ok b' \<and> run_inv rv e0 (Suc i) b'"
proof -
  let ?ar = "rv_ar rv" and ?mk = "rv_market rv" and ?ax = "rv_axes rv" and ?s = "rv_strategy rv" and ?d = "rv_d_lo rv + i" and ?T = "rv_tensor rv"
  let ?cands = "ranking ?ax ?s ?d ?T" and ?hs = "en_holdings (bk_engine b)"
  have d: "?d < n_d ?ax" using assms(1,3) by (simp add: run_ready_def)
  with assms(1) have rc: "rank_candidates ?ax ?T ?s ?d = Ok ?cands" by (intro rank_candidates_ranking) (simp add: run_ready_def)
  note R = ranking_spec [where ax = ?ax and s = ?s and d = ?d and T = ?T]
  have sub: "snd ` set ?cands \<subseteq> {..<n_a ?ax}" using R(2) by (auto simp: rankable_def)
  from assms(2) have inv: "distinct (map po_a ?hs)" "en_hold_n (bk_engine b) = en_hold_n e0" "en_exit_ratio (bk_engine b) = en_exit_ratio e0"
    "ledger_ok rv ?d (po_a ` set ?hs) b" "series_ok i b" by (simp_all add: run_inv_def Let_def)
  have "en_hold_n (bk_engine b) \<le> exit_limit ?ar (bk_engine b)" using assms(4) n_top_keeps_fields [OF inv(2,3)] inv(2) by simp
  from step_events [OF assms(5) inv(1) this R(1)] obtain ss vs bs where
    ev: "sells_of rv i ss vs" "distinct ss" "set ss \<subseteq> po_a ` set ?hs" "distinct bs" "set bs \<inter> (po_a ` set ?hs - set ss) = {}"
      "en_events e' = vs @ map (\<lambda>a. Buy a i (close_at ?mk i a)) bs" "po_a ` set (en_holdings e') = (po_a ` set ?hs - set ss) \<union> set bs"
      "set bs \<subseteq> snd ` set ?cands" "\<forall>a\<in>set bs. is_finite (close_at ?mk i a) \<and> \<not> limited ?mk i a" "distinct (map po_a (en_holdings e'))"
      "en_hold_n e' = en_hold_n (bk_engine b)" "en_exit_ratio e' = en_exit_ratio (bk_engine b)" .
  define b1 where "b1 = b\<lparr>bk_engine := e', bk_buy_fill_idx := [], bk_bought_today := []\<rparr>"
  have "ledger_ok rv ?d (po_a ` set ?hs) b1" unfolding b1_def using inv(4) by simp
  from sells_recorded [OF ev(1-3) this] obtain b2 where
    b2: "fold_ok (on_event rv) b1 vs = Ok b2" "ledger_ok rv ?d (po_a ` set ?hs - set ss) b2" "same_report b1 b2" by blast
  have may: "\<forall>a\<in>set bs. may_buy rv ?d a" using ev(8,9) R(2) d by (auto simp: may_buy_def day_close_def)
  from buys_recorded [OF ev(4,5) b2(2) _ may] obtain b3 where
    b3: "fold_ok (on_event rv) b2 (map (\<lambda>a. Buy a i (close_at ?mk i a)) bs) = Ok b3" "ledger_ok rv (Suc ?d) (po_a ` set (en_holdings e')) b3"
      "same_report b2 b3" unfolding ev(7) by auto
  have evs: "fold_ok (on_event rv) b1 (en_events e') = Ok b3" unfolding ev(6) by (simp add: fold_ok_append b2(1) b3(1))
  have s3: "same_report b1 b3" by (rule same_report_trans [OF b2(3) b3(3)])
  have "\<exists>x. (if i > 0 then bind_ok (pool_return ?ar ?ax ?T ?s ?d) (\<lambda>r. Ok (fmul (double ?ar) (bk_pool_nav_d b3) (fadd (double ?ar) (Fin 1) r)))
      else Ok (bk_pool_nav_d b3)) = Ok x"
  proof (cases "i > 0")
    case True
    have "\<forall>a<n_a ?ax. is_finite (strat_at ?ax ?T (slot ?s SF_pool) a (?d - 1))" using assms(1) d by (simp add: run_ready_def)
    from pool_return_total [OF this] obtain r where "pool_return ?ar ?ax ?T ?s ?d = Ok r" by blast
    with True show ?thesis by simp
  qed simp
  then obtain x where x: "(if i > 0 then bind_ok (pool_return ?ar ?ax ?T ?s ?d) (\<lambda>r. Ok (fmul (double ?ar) (bk_pool_nav_d b3) (fadd (double ?ar) (Fin 1) r)))
      else Ok (bk_pool_nav_d b3)) = Ok x" by blast
  define b4 where "b4 = b3\<lparr>bk_strat_nav := bk_strat_nav b3 @ [narrow ?ar (en_pv_end e')], bk_pool_nav_d := x, bk_pool_nav := bk_pool_nav b3 @ [narrow ?ar x]\<rparr>"
  define b' where "b' = report_day rv w i ?cands e' b4"
  note F = report_day_fields [OF b'_def]
  have day: "backtest_day rv w b i = Ok b'"
    unfolding backtest_day_def Let_def rc bind_ok.simps assms(5) lift_error.simps evs [unfolded b1_def] x b'_def b4_def ..
  have 4: "bk_engine b4 = e'" "ledger_ok rv (Suc ?d) (po_a ` set (en_holdings e')) b4" "bk_hold_off b4 = bk_hold_off b" "bk_holdings b4 = bk_holdings b"
    "bk_watch_off b4 = bk_watch_off b" "bk_watch b4 = bk_watch b" "bk_pos_count b4 = bk_pos_count b" "bk_pos_pct b4 = bk_pos_pct b"
    "bk_turnover b4 = bk_turnover b" "bk_susp_pct b4 = bk_susp_pct b" "bk_exec_pct b4 = bk_exec_pct b"
    "length (bk_strat_nav b4) = Suc (length (bk_strat_nav b))" "length (bk_pool_nav b4) = Suc (length (bk_pool_nav b))"
    using s3 b3(2) by (simp_all add: b4_def same_report_def b1_def)
  have eng: "bk_engine b' = e'" using F(1) 4(1) by simp
  have led: "ledger_ok rv (Suc ?d) (po_a ` set (en_holdings e')) b'" by (rule ledger_report [OF 4(2) F(2,3,4)])
  have ho: "offsets_ok (Suc i) (bk_hold_off b') (map he_code (bk_holdings b'))"
    using inv(5) F(13,14) offsets_append [of i "bk_hold_off b" "map he_code (bk_holdings b)" "map fst (sorted_hold rv i e')"]
    by (simp add: series_ok_def 4 arg_cong [OF F(13), of length, simplified length_map])
  obtain ws where ws: "bk_watch b' = bk_watch b @ ws" using F(15) 4(6) by auto
  have wo: "offsets_ok (Suc i) (bk_watch_off b') (bk_watch b')"
    using inv(5) F(16) offsets_append [of i "bk_watch_off b" "bk_watch b" ws] by (simp add: series_ok_def 4 ws)
  have ser: "series_ok (Suc i) b'" using inv(5) F 4 ho wo by (simp add: series_ok_def)
  have perm: "mset (map he_code (drop (bk_hold_off b' ! i) (bk_holdings b'))) = mset (map po_a (en_holdings e'))"
  proof -
    have l: "length (bk_hold_off b) = Suc i" "last (bk_hold_off b) = length (bk_holdings b)" using inv(5) by (simp_all add: series_ok_def offsets_ok_def)
    then have "bk_hold_off b ! i = length (bk_holdings b)" using last_conv_nth [of "bk_hold_off b"] by (cases "bk_hold_off b") auto
    then have "bk_hold_off b' ! i = length (bk_holdings b)" using F(14) 4(3) l(1) by (simp add: nth_append)
    then have "map he_code (drop (bk_hold_off b' ! i) (bk_holdings b')) = map fst (sorted_hold rv i e')"
      using F(13) 4(4) by (simp add: drop_map [symmetric])
    moreover have "mset (map fst (sorted_hold rv i e')) = mset (map po_a (en_holdings e'))"
    proof -
      have "desc_sort snd (rv_weights rv)" using assms(1) by (simp add: run_ready_def)
      from desc_sort.sort_perm [OF this] show ?thesis unfolding sorted_hold_def mset_map by (simp add: o_def image_mset.compositionality flip: mset_map)
    qed
    ultimately show ?thesis by simp
  qed
  have pr: "\<forall>p\<in>set (en_holdings e'). po_a p < n_a ?ax \<and> is_finite (close_at ?mk i (po_a p))"
  proof
    fix p assume p: "p \<in> set (en_holdings e')"
    then have "po_a p \<in> (po_a ` set ?hs - set ss) \<union> set bs" unfolding ev(7) [symmetric] by blast
    then show "po_a p < n_a ?ax \<and> is_finite (close_at ?mk i (po_a p))"
    proof
      assume "po_a p \<in> set bs"
      with ev(8,9) sub show ?thesis by blast
    next
      assume "po_a p \<in> po_a ` set ?hs - set ss"
      then obtain q where "q \<in> set ?hs" "po_a q = po_a p" by auto
      with holdings_priced [OF assms(1-3)] assms(2) show ?thesis unfolding run_inv_def Let_def by metis
    qed
  qed
  have "run_inv rv e0 (Suc i) b'"
    unfolding run_inv_def Let_def eng using inv(2,3) ev(10-12) pr led ser perm by simp
  with day show ?thesis by blast
qed

lemma check_contract_finite:
  assumes "check_contract doc ax nodes strategies T = Ok U" "f \<in> set nodes" "fs_must_be_finite (spec_of doc f)"
  shows "assert_finite ax T f"
proof -
  from assms(1) obtain V where V: "fold_ok (assert_node doc ax) T nodes = Ok V" by (auto simp: check_contract_def bind_ok_Ok_iff)
  have "V = T \<and> (\<forall>g\<in>set nodes. fs_must_be_finite (spec_of doc g) \<longrightarrow> assert_finite ax T g)"
    by (rule fold_ok_establishes [where P = "\<lambda>W. W = T" and Q = "\<lambda>g W. fs_must_be_finite (spec_of doc g) \<longrightarrow> assert_finite ax T g", OF _ _ _ V])
      (auto simp: assert_node_def split: if_splits)
  with assms(2,3) show ?thesis by blast
qed

lemma assert_finite_at:
  assumes "tensor_ok ax T" "assert_finite ax T f" "a < n_a ax" "d < n_d ax"
  shows "is_finite (tensor_at ax T f a d)"
  using assms by (simp add: assert_finite_def mat_finite_def list_all_length tensor_at_def mat_off_def algebra_simps)

text \<open>The days of a run, one after the other.\<close>

lemma run_inv_new:
  "run_inv rv (new_engine ar hn er) 0 (new_book ar spec)" if "hn = st_hold_n spec" "er = st_exit_ratio spec"
  using that by (simp add: run_inv_def Let_def new_book_def new_engine_def reset_def ledger_ok_def series_ok_def offsets_ok_def)

lemma days_kept:
  assumes "run_ready rv" "en_hold_n e0 \<le> exit_limit (rv_ar rv) e0" "run_inv rv e0 0 b0" "k \<le> mk_n_d (rv_market rv)"
  shows "(\<exists>b. fold_ok (backtest_day rv w) b0 [0..<k] = Ok b \<and> run_inv rv e0 k b) \<or>
    (\<exists>x\<in>{NoValue, TooManyHoldings}. fold_ok (backtest_day rv w) b0 [0..<k] = Fail (EngineError x))"
  using assms(4)
proof (induction k)
  case 0
  with assms(3) show ?case by simp
next
  case (Suc k)
  then have k: "k < mk_n_d (rv_market rv)" by simp
  from Suc consider b where "fold_ok (backtest_day rv w) b0 [0..<k] = Ok b" "run_inv rv e0 k b"
    | x where "x \<in> {NoValue, TooManyHoldings}" "fold_ok (backtest_day rv w) b0 [0..<k] = Fail (EngineError x)" by auto
  then show ?case
  proof cases
    case (1 b)
    let ?step = "step (rv_ar rv) (rv_deficits rv) (rv_market rv) k (ranking (rv_axes rv) (rv_strategy rv) (rv_d_lo rv + k) (rv_tensor rv)) (bk_engine b)"
    show ?thesis
    proof (cases ?step)
      case (Ok e')
      from day_kept [OF assms(1) 1(2) k assms(2) Ok, of w] 1(1) show ?thesis by (auto simp: fold_ok_append)
    next
      case (Fail x)
      have x: "x \<in> {NoValue, TooManyHoldings}" by (rule step_errors [OF Fail k holdings_priced [OF assms(1) 1(2) k]])
      have "rv_d_lo rv + k < n_d (rv_axes rv)" using assms(1) k by (simp add: run_ready_def)
      with assms(1) have "rank_candidates (rv_axes rv) (rv_tensor rv) (rv_strategy rv) (rv_d_lo rv + k) =
          Ok (ranking (rv_axes rv) (rv_strategy rv) (rv_d_lo rv + k) (rv_tensor rv))"
        by (intro rank_candidates_ranking) (simp add: run_ready_def)
      then have "backtest_day rv w b k = Fail (EngineError x)" by (simp add: backtest_day_def Let_def Fail)
      with x 1(1) show ?thesis by (auto simp: fold_ok_append)
    qed
  qed (auto simp: fold_ok_append)
qed

lemma run_days_cases:
  assumes "\<forall>d<n_d ax. rank_column_ok ax s d T \<and> (\<forall>a<n_a ax. is_finite (strat_at ax T (slot s SF_pool) a d))" "desc_sort snd wsort"
    "st_hold_n spec \<le> exit_limit ar (new_engine ar (st_hold_n spec) (st_exit_ratio spec))"
  shows "run_days ar dsort wsort ax meta T nt spec s = Fail WindowInvalid \<or>
    (\<exists>x. run_days ar dsort wsort ax meta T nt spec s = Fail (EngineError x) \<and>
       (x \<in> {NoValue, TooManyHoldings} \<or> (\<exists>lo n. 0 \<le> lo \<and> 0 < n \<and> lo + n \<le> int (n_d ax) \<and> load_market ax T lo n = Fail x))) \<or>
    (\<exists>rv b. run_days ar dsort wsort ax meta T nt spec s = Ok (rv, b) \<and> rv_axes rv = ax \<and> rv_tensor rv = T \<and> rv_strategy rv = s \<and>
       load_market ax T (int (rv_d_lo rv)) (int (n_d ax - rv_d_lo rv)) = Ok (rv_market rv) \<and> rv_d_lo rv < n_d ax \<and>
       run_inv rv (new_engine ar (st_hold_n spec) (st_exit_ratio spec)) (n_d ax - rv_d_lo rv) b)"
proof -
  let ?lo = "find_d ax (st_bt_start_date spec) False" and ?e0 = "new_engine ar (st_hold_n spec) (st_exit_ratio spec)"
  define n where "n = int (n_d ax) - 1 + 1 - ?lo"
  show ?thesis
  proof (cases "?lo \<ge> 0 \<and> int (n_d ax) - 1 \<ge> ?lo")
    case False
    then show ?thesis by (simp add: run_days_def Let_def)
  next
    case True
    show ?thesis
    proof (cases "load_market ax T ?lo n")
      case (Fail x)
      then have "run_days ar dsort wsort ax meta T nt spec s = Fail (EngineError x)"
        using True by (simp add: run_days_def Let_def n_def)
      moreover have "0 \<le> ?lo" "0 < n" "?lo + n \<le> int (n_d ax)" using True by (simp_all add: n_def)
      ultimately show ?thesis using Fail by blast
    next
      case (Ok mk)
      define rv where "rv = \<lparr>rv_ar = ar, rv_deficits = dsort, rv_weights = wsort, rv_axes = ax, rv_meta = meta, rv_tensor = T,
                  rv_timeline = nt, rv_strategy = s, rv_d_lo = nat ?lo, rv_market = mk\<rparr>"
      note L = load_market_closes [OF Ok]
      have n: "nat n = n_d ax - nat ?lo" "nat ?lo < n_d ax" using True by (auto simp: n_def)
      have "run_ready rv" using L assms(1,2) n by (simp add: run_ready_def rv_def)
      moreover have "en_hold_n ?e0 \<le> exit_limit (rv_ar rv) ?e0" using assms(3) by (simp add: rv_def new_engine_def reset_def)
      moreover have "nat n \<le> mk_n_d (rv_market rv)" using L by (simp add: rv_def)
      ultimately have D: "(\<exists>b. fold_ok (backtest_day rv (st_hold_n spec * 2)) (new_book ar spec) [0..<nat n] = Ok b \<and> run_inv rv ?e0 (nat n) b) \<or>
          (\<exists>x\<in>{NoValue, TooManyHoldings}. fold_ok (backtest_day rv (st_hold_n spec * 2)) (new_book ar spec) [0..<nat n] = Fail (EngineError x))"
        by (intro days_kept run_inv_new) simp_all
      have "run_days ar dsort wsort ax meta T nt spec s =
          bind_ok (fold_ok (backtest_day rv (st_hold_n spec * 2)) (new_book ar spec) [0..<nat n]) (\<lambda>b. Ok (rv, b))"
        using True Ok by (simp add: run_days_def Let_def n_def rv_def)
      moreover have "load_market ax T (int (rv_d_lo rv)) (int (n_d ax - rv_d_lo rv)) = Ok (rv_market rv)"
        using Ok True n by (simp add: rv_def n_def)
      ultimately show ?thesis using D n by (auto simp: rv_def)
    qed
  qed
qed

text \<open>The state at the end of a run, as the report uses it.\<close>

definition run_ok :: "run_env \<Rightarrow> book \<Rightarrow> bool" where
  "run_ok rv b \<longleftrightarrow>
     (let hs = map po_a (en_holdings (bk_engine b)); n = mk_n_d (rv_market rv) in
      rv_d_lo rv + n = n_d (rv_axes rv) \<and> n > 0 \<and> distinct hs \<and> ledger_ok rv (n_d (rv_axes rv)) (set hs) b \<and> series_ok n b \<and>
      mset (map he_code (drop (bk_hold_off b ! (n - 1)) (bk_holdings b))) = mset hs \<and>
      list_all (\<lambda>a. is_finite (close_at (rv_market rv) (n - 1) a)) hs)"

lemma run_inv_ok:
  assumes "load_market ax T (int (rv_d_lo rv)) (int (n_d ax - rv_d_lo rv)) = Ok (rv_market rv)" "rv_d_lo rv < n_d ax" "rv_axes rv = ax"
    "run_inv rv e0 (n_d ax - rv_d_lo rv) b"
  shows "run_ok rv b"
proof -
  have "mk_n_d (rv_market rv) = n_d ax - rv_d_lo rv" using load_market_closes [OF assms(1)] by simp
  with assms(2-4) show ?thesis by (simp add: run_ok_def run_inv_def Let_def list_all_iff)
qed

text \<open>What the hypotheses on the columns of a strategy are for a tensor that was built.\<close>

lemma run_of_build:
  assumes "nth_element nth_el" "format_rounding (single ar)" "arith_ok ar" "ALL_NODES doc framework strategies = Ok nodes"
    "\<forall>s\<in>set strategies. valid_strategy doc s \<and> weights_ok ar s" "set basic_nodes \<subseteq> set framework"
    "build ar nth_el doc strategies nodes inp = Ok (ax, meta, T)" "n_a ax \<le> 2 ^ 23" "s < length strategies"
  shows "\<forall>d<n_d ax. rank_column_ok ax s d T \<and> (\<forall>a<n_a ax. is_finite (strat_at ax T (slot s SF_pool) a d))"
    "\<forall>a<n_a ax. \<forall>d<n_d ax. market_flags_ready ax T a d"
proof -
  note b = build_selected [OF assms(1-5,7,8,9)]
  show "\<forall>d<n_d ax. rank_column_ok ax s d T \<and> (\<forall>a<n_a ax. is_finite (strat_at ax T (slot s SF_pool) a d))"
  proof (intro allI impI conjI)
    fix d assume d: "d < n_d ax"
    from b(2) [OF d] have c: "pool_column_ok ax (strategies ! s) s d T" "rank_column_ok ax s d T" by (simp_all add: day_selected_def)
    show "rank_column_ok ax s d T" by (rule c(2))
    show "is_finite (strat_at ax T (slot s SF_pool) a d)" if "a < n_a ax" for a
      using c(1) that by (simp add: pool_column_ok_def Let_def of_flag_def)
  qed
  have nodes: "f \<in> set nodes" if "f \<in> set basic_nodes" for f
  proof -
    have "f \<in> set (all_roots framework strategies)" using assms(6) that by (auto simp: all_roots_def)
    then have "f \<in> reachable (network doc) (all_roots framework strategies)" unfolding reachable_def by blast
    then show ?thesis using topo_order_facts(2) [OF assms(4) [unfolded ALL_NODES_def]] by simp
  qed
  have cc: "check_contract doc ax nodes strategies T = Ok T" using assms(7) by (simp add: build_steps)
  show "\<forall>a<n_a ax. \<forall>d<n_d ax. market_flags_ready ax T a d"
  proof (intro allI impI)
    fix a d assume ad: "a < n_a ax" "d < n_d ax"
    have fin: "is_finite (tensor_at ax T f a d)" if "f \<in> set basic_nodes" "fs_must_be_finite (spec_of doc f)" for f
      by (rule assert_finite_at [OF b(1) check_contract_finite [OF cc nodes [OF that(1)] that(2)] ad]) (rule ad(2))
    have "Delist_age \<in> set nodes" by (rule nodes) (simp add: basic_nodes_def)
    from b(3) [OF ad(2) this ad(1)] have "amount_ok (tensor_at ax T Delist_age a d)"
      by (cases "tensor_at ax T Delist_age a d") (auto simp: amount_ok_def)
    then show "market_flags_ready ax T a d"
      using fin [of Susp] fin [of Limit_up] fin [of Limit_dn] by (simp add: market_flags_ready_def basic_nodes_def spec_simps node_specs split: prod.splits)
  qed
qed

section \<open>Properties\<close>

text \<open>C8. The ledger of a backtest is consistent. Over a tensor whose rank column is the order of the scores, a run can stop only
  because the window is invalid or in the kernel - no rank is left unfilled, every sale finds the record of its
  purchase -, and at its end the open records are those of the positions; the fills of an instrument add up to one when it is held and to
  zero otherwise; every sale has a trade, which closes on a later day than it opens, at the closes of these days; everything
  that was bought was ranked that day, had a close and was at no price limit; every series has an entry for each day, and the last
  segment of the holdings is the positions.\<close>

theorem backtest_ledger:
  assumes "\<forall>d<n_d ax. rank_column_ok ax s d T \<and> (\<forall>a<n_a ax. is_finite (strat_at ax T (slot s SF_pool) a d))" "desc_sort snd wsort"
    "st_hold_n spec \<le> exit_limit ar (new_engine ar (st_hold_n spec) (st_exit_ratio spec))"
  shows "case run_days ar dsort wsort ax meta T nt spec s of
      Fail e \<Rightarrow> e = WindowInvalid \<or> e \<in> range EngineError
    | Ok (rv, b) \<Rightarrow> run_ok rv b"
  using run_days_cases [OF assms, of dsort meta nt] run_inv_ok by fastforce

text \<open>Two instruments over two days; the score swaps their ranks on the second day.\<close>

definition bt_tensor :: tensor where
  "bt_tensor = \<lparr>tn_mats = (\<lambda>f. if f = Close_raw then [Fin 2, Fin 4, Fin 5, Fin 5] else if f = Delist_age then [NaN, NaN, NaN, NaN]
       else [Fin 0, Fin 0, Fin 0, Fin 0]),
     tn_strat = [[Fin 1, Fin 1, Fin 1, Fin 1], [Fin 1, Fin 1, Fin 1, Fin 1], [Fin 1, Fin (1/2), Fin (1/2), Fin 1], [Fin 1, Fin 2, Fin 2, Fin 1]]\<rparr>"

definition bt_strategy :: strategy_spec where
  "bt_strategy = (strat_0 exact_arith)\<lparr>st_hold_n := 1, st_exit_ratio := Fin 1, st_bt_start_date := ''20240101''\<rparr>"

definition bt_meta :: stock_meta where
  "bt_meta = \<lparr>sm_name = [''A'', ''B''], sm_list_date = [[], []], sm_delist_date = [[], []], sm_list_sector = [[], []], sm_exchange = [[], []]\<rparr>"

lemma bt_columns:
  "\<forall>d<n_d sample_axes. rank_column_ok sample_axes 0 d bt_tensor \<and>
     (\<forall>a<n_a sample_axes. is_finite (strat_at sample_axes bt_tensor (slot 0 SF_pool) a d))"
proof -
  have at: "strat_at sample_axes bt_tensor (slot 0 SF_pool) a d = Fin 1"
    "strat_at sample_axes bt_tensor (slot 0 SF_score) a d = Fin (if a = d then 1 else 1 / 2)"
    "strat_at sample_axes bt_tensor (slot 0 SF_rank) a d = Fin (if a = d then 1 else 2)" if "a < 2" "d < 2" for a d
    using that by (auto simp: strat_at_def bt_tensor_def slot_def SF_COUNT_def mat_off_def sample_axes_ok less_Suc_eq numeral_2_eq_2)
  have r: "rankable sample_axes 0 d bt_tensor = {0, 1}" if "d < 2" for d
    using at that by (auto simp: rankable_def sample_axes_ok)
  have o: "outranks sample_axes 0 d bt_tensor b a \<longleftrightarrow> b = d \<and> a \<noteq> d" if "a < 2" "b < 2" "d < 2" for a b d
    using that at(2) [OF that(1,3)] at(2) [OF that(2,3)] by (auto simp: outranks_def)
  have c: "card {b \<in> {0, 1}. outranks sample_axes 0 d bt_tensor b a} = (if a = d then 0 else 1)" if "a < 2" "d < 2" for a d
  proof -
    have "{b \<in> {0, 1}. outranks sample_axes 0 d bt_tensor b a} = {b \<in> {0, 1}. b = d \<and> a \<noteq> d}"
      by (intro Collect_cong conj_cong refl o that) auto
    also have "\<dots> = (if a = d then {} else {d})" using that(2) by auto
    finally show ?thesis by simp
  qed
  show ?thesis
  proof (intro allI impI conjI)
    fix d assume "d < n_d sample_axes"
    then have d: "d < 2" by (simp add: sample_axes_ok)
    show "is_finite (strat_at sample_axes bt_tensor (slot 0 SF_pool) a d)" if "a < n_a sample_axes" for a
      using at(1) [of a d] d that by (simp add: sample_axes_ok)
    show "rank_column_ok sample_axes 0 d bt_tensor" unfolding rank_column_ok_def r [OF d]
    proof (intro allI impI)
      fix a assume "a < n_a sample_axes"
      then have a: "a < 2" by (simp add: sample_axes_ok)
      then have "a \<in> {0, 1}" by auto
      then show "strat_at sample_axes bt_tensor (slot 0 SF_rank) a d =
          Fin (if a \<in> {0, 1} then real (Suc (card {b \<in> {0, 1}. outranks sample_axes 0 d bt_tensor b a})) else 0)"
        unfolding at(3) [OF a d] c [OF a d] by simp
    qed
  qed
qed

lemma backtest_ledger_witness:
  "case run_days exact_arith sort_deficits (sort_desc snd) sample_axes bt_meta bt_tensor [[], []] bt_strategy 0 of
     Fail e \<Rightarrow> e = WindowInvalid \<or> e \<in> range EngineError | Ok (rv, b) \<Rightarrow> run_ok rv b"
proof -
  have "st_hold_n bt_strategy \<le> exit_limit exact_arith (new_engine exact_arith (st_hold_n bt_strategy) (st_exit_ratio bt_strategy))"
    by (simp add: bt_strategy_def exit_limit_def new_engine_def reset_def trunc_def)
  from backtest_ledger [OF bt_columns sort_desc_sorts this] show ?thesis .
qed

text \<open>C2. The backtest of a strategy on the tensor that \<open>build\<close> returns fails only when the window of the strategy is empty, when
  the portfolio has lost all its value, or when more positions pile up than the kernel allows; otherwise the ledger is consistent, and
  every purchase was of an instrument that was tradable for the strategy on the day of the purchase: listed, not suspended, not delisted, hit by
  none of its filters, at no price limit.\<close>

theorem backtest_of_build:
  assumes "nth_element nth_el" "format_rounding (single ar)" "arith_ok ar" "ALL_NODES doc framework strategies = Ok nodes"
    "\<forall>s\<in>set strategies. valid_strategy doc s \<and> weights_ok ar s" "set basic_nodes \<subseteq> set framework"
    "build ar nth_el doc strategies nodes inp = Ok (ax, meta, T)" "n_a ax \<le> 2 ^ 23" "s < length strategies" "desc_sort snd wsort"
    "st_hold_n (strategies ! s) \<le> exit_limit ar (new_engine ar (st_hold_n (strategies ! s)) (st_exit_ratio (strategies ! s)))"
  shows "case run_days ar dsort wsort ax meta T nt (strategies ! s) s of
      Fail e \<Rightarrow> e \<in> {WindowInvalid, EngineError NoValue, EngineError TooManyHoldings}
    | Ok (rv, b) \<Rightarrow> run_ok rv b \<and> list_all (\<lambda>f. fi_side f = -1 \<or> tradable ax meta (strategies ! s) T (fi_a f) (fi_d f) \<and>
          \<not> limited (rv_market rv) (fi_d f - rv_d_lo rv) (fi_a f)) (bk_fills b)"
proof -
  note r = run_of_build [OF assms(1-9)]
  from run_days_cases [OF r(1) assms(10,11), of dsort meta nt] load_market_total [OF _ _ _ r(2)]
  consider "run_days ar dsort wsort ax meta T nt (strategies ! s) s = Fail WindowInvalid"
    | x where "run_days ar dsort wsort ax meta T nt (strategies ! s) s = Fail (EngineError x)" "x \<in> {NoValue, TooManyHoldings}"
    | rv b where "run_days ar dsort wsort ax meta T nt (strategies ! s) s = Ok (rv, b)" "rv_axes rv = ax" "rv_tensor rv = T" "rv_strategy rv = s"
      "run_ok rv b"
    using run_inv_ok by fastforce
  then show ?thesis
  proof cases
    case (3 rv b)
    have t: "tradable ax meta (strategies ! s) T a d" if "may_buy rv d a" for a d
    proof -
      have "d < n_d ax" using that 3(2) by (simp add: may_buy_def)
      note b = build_selected [OF assms(1-5,7-9) this]
      from that 3 have "a < n_a ax" "a \<in> members ax T (slot s SF_pool) d" by (auto simp: may_buy_def rankable_def members_def)
      moreover from this(2) b(2) have "eligible ax s (strategies ! s) d T a" by (auto simp: day_selected_def pool_column_ok_def Let_def)
      ultimately show ?thesis using b(4) by (auto simp: eligible_def tradable_def)
    qed
    have "list_all (fill_ok rv) (bk_fills b)" using 3(5) by (simp add: run_ok_def Let_def ledger_ok_def)
    then have "list_all (\<lambda>f. fi_side f = -1 \<or> tradable ax meta (strategies ! s) T (fi_a f) (fi_d f) \<and>
        \<not> limited (rv_market rv) (fi_d f - rv_d_lo rv) (fi_a f)) (bk_fills b)"
      by (rule list.pred_mono_strong) (use t in \<open>auto simp: fill_ok_def may_buy_def\<close>)
    with 3 show ?thesis by simp
  qed auto
qed

lemma backtest_of_build_witness:
  "\<exists>nodes meta T. build \<lparr>single = f32, double = f64\<rparr> sort_cut (\<lambda>_. ([], [], [])) [strat_0 \<lparr>single = f32, double = f64\<rparr>] nodes sample_input
     = Ok (sample_axes, meta, T) \<and>
     (case run_days \<lparr>single = f32, double = f64\<rparr> sort_deficits (sort_desc snd) sample_axes meta T [[], []] (strat_0 \<lparr>single = f32, double = f64\<rparr>) 0 of
       Fail e \<Rightarrow> e \<in> {WindowInvalid, EngineError NoValue, EngineError TooManyHoldings} | Ok (rv, b) \<Rightarrow> run_ok rv b)"
proof -
  let ?ar = "\<lparr>single = f32, double = f64\<rparr>" and ?doc = "\<lambda>_. ([], [], [])"
  have f: "format_rounding (single ?ar)" and e: "single ?ar (1 / 8) = Fin (1 / 8)"
    by (simp_all add: f32_format.format_rounding_axioms f32_eighth)
  obtain nodes where n: "ALL_NODES ?doc basic_nodes [strat_0 ?ar] = Ok nodes" using nodes_exist by blast
  have s: "\<forall>s\<in>set [strat_0 ?ar]. valid_strategy ?doc s \<and> weights_ok ?ar s" using registered_ok [OF f e] by simp
  obtain meta T where T: "build ?ar sort_cut ?doc [strat_0 ?ar] nodes sample_input = Ok (sample_axes, meta, T)"
    using sample_builds [OF n] by blast
  have n_a: "n_a sample_axes \<le> 2 ^ 23" by (simp add: sample_axes_ok)
  have i: "f32 10 = Fin 10" "f32 20 = Fin 20"
    using rounding.rnd_int [OF f32.rounding_axioms, of 10] rounding.rnd_int [OF f32.rounding_axioms, of 20] by simp_all
  then have x: "st_hold_n ([strat_0 ?ar] ! 0) \<le> exit_limit ?ar (new_engine ?ar (st_hold_n ([strat_0 ?ar] ! 0)) (st_exit_ratio ([strat_0 ?ar] ! 0)))"
    by (simp add: strat_0_def exit_limit_def new_engine_def reset_def trunc_def i)
  have l: "0 < length [strat_0 ?ar]" by simp
  from backtest_of_build [OF sorted_cut.nth_element_axioms f arith_ok_ieee n s order_refl T n_a l sort_desc_sorts x, of sort_deficits "[[], []]"]
  have "case run_days ?ar sort_deficits (sort_desc snd) sample_axes meta T [[], []] ([strat_0 ?ar] ! 0) 0 of
      Fail e \<Rightarrow> e \<in> {WindowInvalid, EngineError NoValue, EngineError TooManyHoldings} | Ok (rv, b) \<Rightarrow> run_ok rv b"
    by (auto split: outcome.splits prod.splits)
  with T show ?thesis unfolding nth_Cons_0 by blast
qed

end
