(* ===== verification/Report.thy ===== *)
theory Report
  imports Backtest
begin

text \<open>
  The tables that a backtest writes (\<open>cpp/src/backtest/backtest.cpp\<close>, from the derived series on): the indicators, the statistics
  of the trades, the periods and the positions of the last day; and the reports over all strategies
  (\<open>cpp/src/report/aggregate.cpp\<close>). The JSON and npy writers are left out: the values are the result.
\<close>

section \<open>The tables of a backtest\<close>

record excess =
  xs_ann_return :: fval
  xs_ann_vol :: fval
  xs_sharpe :: fval
  xs_max_drawdown :: fval

record trade_stats =
  ts_turnover_year :: fval
  ts_hold_days :: fval
  ts_mean_positions :: fval
  ts_mean_ret :: fval
  ts_mean_win :: fval
  ts_mean_loss :: fval
  ts_win_rate :: fval
  ts_switches :: fval
  ts_susp :: fval
  ts_month_rate :: fval
  ts_week_rate :: fval
  ts_day_rate :: fval
  ts_executable :: fval
  ts_tracking_error :: fval
  ts_position :: fval
  ts_no_new_high :: nat

record holding_row =
  hr_a :: nat
  hr_open_d :: nat
  hr_open_px :: fval
  hr_last_px :: fval
  hr_weight :: fval
  hr_ret :: fval

record report =
  re_drawdown :: "fval list"
  re_nav_stats :: nav_stats
  re_rel_stats :: rel_stats
  re_excess :: excess
  re_trade_stats :: trade_stats
  re_annual :: "period_stats list"
  re_monthly :: "period_stats list"
  re_holdings :: "holding_row list"

definition trade_rets :: "arith \<Rightarrow> trade_row list \<Rightarrow> fval list" where
  "trade_rets ar ts = map (\<lambda>t. trade_ret ar (tr_open_px t) (tr_close_px t)) ts"

definition excess_of :: "arith \<Rightarrow> nav_stats \<Rightarrow> nav_stats \<Rightarrow> excess" where
  "excess_of ar s p =
     \<lparr>xs_ann_return = fsub (single ar) (ns_ann_return s) (ns_ann_return p), xs_ann_vol = fsub (single ar) (ns_ann_vol s) (ns_ann_vol p),
      xs_sharpe = fsub (single ar) (ns_sharpe s) (ns_sharpe p), xs_max_drawdown = fsub (single ar) (ns_max_drawdown s) (ns_max_drawdown p)\<rparr>"

definition trade_stats_of ::
  "arith \<Rightarrow> int \<Rightarrow> string list \<Rightarrow> fval list \<Rightarrow> nav_stats \<Rightarrow> rel_stats \<Rightarrow> book \<Rightarrow> (metric_error, trade_stats) outcome" where
  "trade_stats_of ar hold_n dates ret st rel b =
     (let S = single ar; rets = trade_rets ar (bk_trades b);
          wins = filter (\<lambda>r. is_finite r \<and> fless (Fin 0) r) rets; losses = filter (\<lambda>r. is_finite r \<and> fless r (Fin 0)) rets;
          turn = nan_mean ar (bk_turnover b)
      in bind_ok (win_rate ar dates ret 2) (\<lambda>month. bind_ok (win_rate ar dates ret 1) (\<lambda>week. bind_ok (win_rate ar dates ret 0) (\<lambda>day.
        Ok \<lparr>ts_turnover_year = fmul S turn (S TRADING_DAYS),
            ts_hold_days = (if fless (Fin 0) turn then fdiv S (Fin 1) turn else NaN),
            ts_mean_positions = nan_mean ar (map (\<lambda>n. S (real n)) (bk_pos_count b)),
            ts_mean_ret = nan_mean ar rets, ts_mean_win = nan_mean ar wins, ts_mean_loss = nan_mean ar losses,
            ts_win_rate = (if rets = [] then NaN else fdiv S (S (real (length wins))) (S (real (length rets)))),
            ts_switches = fmul S (nan_sum ar (bk_turnover b)) (S (of_int hold_n)),
            ts_susp = nan_mean ar (bk_susp_pct b), ts_month_rate = month, ts_week_rate = week, ts_day_rate = day,
            ts_executable = nan_mean ar (bk_exec_pct b), ts_tracking_error = rs_tracking_error rel,
            ts_position = nan_mean ar (bk_pos_pct b), ts_no_new_high = ns_longest_no_new_high st\<rparr>))))"

text \<open>The positions of the last day, from the last segment of the holdings and the records that are still open.\<close>

definition holding_row_of :: "run_env \<Rightarrow> book \<Rightarrow> held \<Rightarrow> (backtest_error, holding_row) outcome" where
  "holding_row_of rv b h =
     (let a = he_code h; last_px = close_at (rv_market rv) (mk_n_d (rv_market rv) - 1) a in
      case bk_open_recs b a of None \<Rightarrow> Fail HoldingWithoutOpen
      | Some rec \<Rightarrow> if \<not> is_finite last_px then Fail HoldingWithoutLastClose
          else Ok \<lparr>hr_a = a, hr_open_d = or_open_d rec, hr_open_px = or_open_px rec, hr_last_px = last_px, hr_weight = he_weight h,
                   hr_ret = trade_ret (rv_ar rv) (or_open_px rec) last_px\<rparr>)"

definition holdings_table :: "run_env \<Rightarrow> book \<Rightarrow> (backtest_error, holding_row list) outcome" where
  "holdings_table rv b =
     (let n = mk_n_d (rv_market rv); lo = bk_hold_off b ! (n - 1); hi = bk_hold_off b ! n
      in map_ok (holding_row_of rv b) (take (hi - lo) (drop lo (bk_holdings b))))"

abbreviation metric :: "(metric_error, 'a) outcome \<Rightarrow> (backtest_error, 'a) outcome" where
  "metric \<equiv> lift_error MetricError"

definition report_of :: "strategy_spec \<Rightarrow> run_env \<Rightarrow> book \<Rightarrow> (backtest_error, report) outcome" where
  "report_of spec rv b =
     (let ar = rv_ar rv; nav = bk_strat_nav b; pool = bk_pool_nav b;
          dates = map (\<lambda>i. ax_dates (rv_axes rv) ! (rv_d_lo rv + i)) [0..<mk_n_d (rv_market rv)]
      in bind_ok (metric (daily_returns ar nav)) (\<lambda>ret_s. bind_ok (metric (daily_returns ar pool)) (\<lambda>ret_p.
         bind_ok (metric (drawdown_curve ar nav)) (\<lambda>dd_s. bind_ok (metric (drawdown_curve ar pool)) (\<lambda>dd_p.
         bind_ok (metric (nav_stats_of ar nav)) (\<lambda>st_s. bind_ok (metric (nav_stats_of ar pool)) (\<lambda>st_p.
         bind_ok (metric (rel_stats_of ar ret_s ret_p)) (\<lambda>rel.
         bind_ok (metric (trade_stats_of ar (st_hold_n spec) dates ret_s st_s rel b)) (\<lambda>ts.
         bind_ok (metric (period_stats_of ar dates ret_s ret_p True)) (\<lambda>years. bind_ok (metric (period_stats_of ar dates ret_s ret_p False)) (\<lambda>months.
         bind_ok (holdings_table rv b) (\<lambda>hs.
           Ok \<lparr>re_drawdown = dd_s, re_nav_stats = st_s, re_rel_stats = rel, re_excess = excess_of ar st_s st_p, re_trade_stats = ts,
               re_annual = years, re_monthly = months, re_holdings = hs\<rparr>))))))))))))"

section \<open>All strategies together\<close>

record bt_result =
  br_d_lo :: nat
  br_strategy_nav :: "fval list"
  br_pool_nav :: "fval list"
  br_hold_off :: "nat list"
  br_hold_codes :: "nat list"
  br_hold_weights :: "fval list"

definition result_of :: "run_env \<Rightarrow> book \<Rightarrow> bt_result" where
  "result_of rv b = \<lparr>br_d_lo = rv_d_lo rv, br_strategy_nav = bk_strat_nav b, br_pool_nav = bk_pool_nav b, br_hold_off = bk_hold_off b,
     br_hold_codes = map he_code (bk_holdings b), br_hold_weights = map he_weight (bk_holdings b)\<rparr>"

datatype aggregate_error = CountMismatch | NoStrategies | WindowsDisjoint | WindowOutsideSeries | BaseNotPositive | DayOutsideHoldings
  | AggregateMetric metric_error

definition slice_norm_series :: "arith \<Rightarrow> fval list \<Rightarrow> nat \<Rightarrow> nat \<Rightarrow> nat \<Rightarrow> (aggregate_error, fval list) outcome" where
  "slice_norm_series ar nav d_lo_series d_lo_ag n =
     (let off = int d_lo_ag - int d_lo_series in
      if \<not> (off \<ge> 0 \<and> off + int n \<le> int (length nav)) then Fail WindowOutsideSeries
      else let base = nav ! nat off in
        if \<not> fless (Fin 0) base then Fail BaseNotPositive
        else Ok (map (\<lambda>i. fdiv (single ar) (nav ! (nat off + i)) base) [0..<n]))"

definition slice_norm :: "arith \<Rightarrow> bt_result \<Rightarrow> nat \<Rightarrow> nat \<Rightarrow> (aggregate_error, fval list) outcome" where
  "slice_norm ar r d_lo_ag n = slice_norm_series ar (br_strategy_nav r) (br_d_lo r) d_lo_ag n"

definition hold_span :: "bt_result \<Rightarrow> nat \<Rightarrow> (aggregate_error, nat \<times> nat) outcome" where
  "hold_span r d =
     (let i = int d - int (br_d_lo r) in
      if \<not> (i \<ge> 0 \<and> i + 1 < int (length (br_hold_off r))) then Fail DayOutsideHoldings
      else Ok (br_hold_off r ! nat i, br_hold_off r ! Suc (nat i)))"

text \<open>The codes of a strategy on a day, with their weights.\<close>

definition held_on :: "bt_result \<Rightarrow> nat \<Rightarrow> (aggregate_error, (nat \<times> fval) list) outcome" where
  "held_on r d = bind_ok (hold_span r d) (\<lambda>(lo, hi). Ok (take (hi - lo) (drop lo (zip (br_hold_codes r) (br_hold_weights r)))))"

definition mean_rets :: "arith \<Rightarrow> fval list list \<Rightarrow> nat \<Rightarrow> fval list" where
  "mean_rets ar rets n = map (\<lambda>i. narrow ar (fdiv (double ar) (fsum (double ar) (map (\<lambda>r. r ! i) rets)) (double ar (real (length rets))))) [0..<n]"

text \<open>The matrix of the correlations, row by row; each pair is computed once and written twice.\<close>

definition corr_cell :: "arith \<Rightarrow> fval list list \<Rightarrow> fval list \<Rightarrow> nat \<times> nat \<Rightarrow> (aggregate_error, fval list) outcome" where
  "corr_cell ar rets m = (\<lambda>(i, j). let n = length rets in
     bind_ok (if i = j then Ok (Fin 1) else lift_error AggregateMetric (pearson ar (rets ! i) (rets ! j))) (\<lambda>c.
       Ok (m[i * n + j := c, j * n + i := c])))"

definition corr_matrix :: "arith \<Rightarrow> fval list list \<Rightarrow> (aggregate_error, fval list) outcome" where
  "corr_matrix ar rets =
     (let n = length rets in
      fold_ok (corr_cell ar rets) (replicate (n * n) NaN) (concat (map (\<lambda>i. map (Pair i) [i..<n]) [0..<n])))"

text \<open>How many instruments at least two strategies hold on a day.\<close>

definition count_codes :: "nat list list \<Rightarrow> nat \<Rightarrow> nat" where
  "count_codes css = foldl (\<lambda>cnt a. cnt(a := Suc (cnt a))) (\<lambda>_. 0) (concat css)"

definition overlap_day :: "bt_result list \<Rightarrow> nat \<Rightarrow> (aggregate_error, nat) outcome" where
  "overlap_day rs d = bind_ok (map_ok (\<lambda>r. held_on r d) rs) (\<lambda>hs.
     let css = map (map fst) hs; cnt = count_codes css in
     Ok (length (filter (\<lambda>a. cnt a \<ge> 2) (remdups (concat css)))))"

text \<open>The order desk of the last day: one row for each instrument that a strategy holds, the largest exposure first. The order of the
  comparison is total on numbers, so a stable sort of the rows by index gives what \<open>std::sort\<close> gives.\<close>

record desk_row =
  dr_a :: nat
  dr_combo_w :: fval
  dr_n_hit :: nat
  dr_w :: "fval list"

definition desk_weights :: "(nat \<times> fval) list list \<Rightarrow> nat \<Rightarrow> fval list" where
  "desk_weights hs a = map (\<lambda>h. foldl (\<lambda>w (b, x). if b = a then x else w) (Fin 0) h) hs"

definition desk_row_of :: "arith \<Rightarrow> (nat \<times> fval) list list \<Rightarrow> nat \<Rightarrow> desk_row" where
  "desk_row_of ar hs a =
     (let ws = desk_weights hs a; S = single ar in
      \<lparr>dr_a = a, dr_combo_w = fdiv S (fsum S ws) (S (real (length hs))), dr_n_hit = length (filter (\<lambda>w. fless (Fin 0) w) ws), dr_w = ws\<rparr>)"

definition desk :: "arith \<Rightarrow> (nat \<times> fval) list list \<Rightarrow> desk_row list" where
  "desk ar hs = sort_key (\<lambda>r. fneg (dr_combo_w r)) (map (desk_row_of ar hs) (sort (remdups (map fst (concat hs)))))"

record aggregate =
  ag_d_lo :: nat
  ag_navs :: "fval list list"
  ag_combo_nav :: "fval list"
  ag_corr :: "fval list"
  ag_overlap :: "nat list"
  ag_metrics :: "(nav_stats \<times> rel_stats) list"
  ag_combo_metrics :: "nav_stats \<times> rel_stats"
  ag_desk :: "desk_row list"

abbreviation ag_metric :: "(metric_error, 'a) outcome \<Rightarrow> (aggregate_error, 'a) outcome" where
  "ag_metric \<equiv> lift_error AggregateMetric"

definition with_returns :: "arith \<Rightarrow> (aggregate_error, fval list) outcome \<Rightarrow> (aggregate_error, fval list \<times> fval list) outcome" where
  "with_returns ar nv = bind_ok nv (\<lambda>nav. bind_ok (ag_metric (daily_returns ar nav)) (\<lambda>ret. Ok (nav, ret)))"

definition stats_pair :: "arith \<Rightarrow> fval list \<Rightarrow> fval list \<Rightarrow> fval list \<Rightarrow> (aggregate_error, nav_stats \<times> rel_stats) outcome" where
  "stats_pair ar nav ret bench = bind_ok (ag_metric (nav_stats_of ar nav)) (\<lambda>st. bind_ok (ag_metric (rel_stats_of ar ret bench)) (\<lambda>rel. Ok (st, rel)))"

definition aggregate_of :: "arith \<Rightarrow> axes \<Rightarrow> nat \<Rightarrow> bt_result list \<Rightarrow> (aggregate_error, aggregate) outcome" where
  "aggregate_of ar ax n_strategies rs =
     (if length rs \<noteq> n_strategies then Fail CountMismatch
      else if rs = [] then Fail NoStrategies
      else let lo = foldl max (br_d_lo (hd rs)) (map br_d_lo rs); n = n_d ax - lo in
        if \<not> lo < n_d ax then Fail WindowsDisjoint
        else bind_ok (map_ok (\<lambda>r. with_returns ar (slice_norm ar r lo n)) rs) (\<lambda>series.
          bind_ok (map_ok (\<lambda>r. with_returns ar (slice_norm_series ar (br_pool_nav r) (br_d_lo r) lo n)) rs) (\<lambda>pools.
          let navs = map fst series; rets = map snd series; pool_rets = map snd pools;
              combo_ret = mean_rets ar rets n; combo_nav = cum_nav ar combo_ret in
          bind_ok (corr_matrix ar rets) (\<lambda>corr.
          bind_ok (map_ok (\<lambda>i. overlap_day rs (lo + i)) [0..<n]) (\<lambda>overlap.
          bind_ok (map_ok (\<lambda>s. stats_pair ar (navs ! s) (rets ! s) (pool_rets ! s)) [0..<length rs]) (\<lambda>metrics.
          bind_ok (stats_pair ar combo_nav combo_ret (mean_rets ar pool_rets n)) (\<lambda>combo.
          bind_ok (map_ok (\<lambda>r. held_on r (n_d ax - 1)) rs) (\<lambda>hs.
            Ok \<lparr>ag_d_lo = lo, ag_navs = navs, ag_combo_nav = combo_nav, ag_corr = corr, ag_overlap = overlap, ag_metrics = metrics,
                ag_combo_metrics = combo, ag_desk = desk ar hs\<rparr>))))))))"

section \<open>The tables of the aggregate\<close>

text \<open>The correlations are symmetric, with ones on the diagonal.\<close>

definition symmetric :: "nat \<Rightarrow> fval list \<Rightarrow> bool" where
  "symmetric n m \<longleftrightarrow> length m = n * n \<and> (\<forall>i<n. \<forall>j<n. m ! (i * n + j) = m ! (j * n + i))"

lemma corr_cell_at:
  assumes "corr_cell ar rets m (i, j) = Ok m'" "length m = length rets * length rets" "i < length rets" "j < length rets"
  shows "\<exists>c. length m' = length m \<and> (i = j \<longrightarrow> c = Fin 1) \<and> (\<forall>x<length rets. \<forall>y<length rets.
    m' ! (x * length rets + y) = (if x = j \<and> y = i \<or> x = i \<and> y = j then c else m ! (x * length rets + y)))"
proof -
  let ?n = "length rets"
  from assms(1) obtain c where c: "m' = m[i * ?n + j := c, j * ?n + i := c]" "i = j \<longrightarrow> c = Fin 1"
    by (auto simp: corr_cell_def Let_def bind_ok_Ok_iff split: if_splits)
  have l: "x * ?n + y < length m" if "x < ?n" "y < ?n" for x y
    using window_cell_less [OF that] assms(2) by simp
  have "m' ! (x * ?n + y) = (if x = j \<and> y = i \<or> x = i \<and> y = j then c else m ! (x * ?n + y))" if xy: "x < ?n" "y < ?n" for x y
  proof -
    have e: "x * ?n + y = i * ?n + j \<longleftrightarrow> x = i \<and> y = j" "x * ?n + y = j * ?n + i \<longleftrightarrow> x = j \<and> y = i"
      by (rule cell_inj [OF xy(2) assms(4)], rule cell_inj [OF xy(2) assms(3)])
    have "m[p := c, q := c] ! r = (if r = p \<or> r = q then c else m ! r)" if "p < length m" "q < length m" for p q r
      using that by (simp add: nth_list_update)
    from this [OF l [OF assms(3,4)] l [OF assms(4,3)], of "x * ?n + y"] show ?thesis unfolding c(1) e by (simp add: disj_commute)
  qed
  with c show ?thesis by (intro exI [of _ c]) simp
qed

lemma corr_matrix_symmetric:
  assumes "corr_matrix ar rets = Ok m"
  shows "symmetric (length rets) m" "k < length rets \<Longrightarrow> m ! (k * length rets + k) = Fin 1"
proof -
  let ?n = "length rets"
  let ?xs = "concat (map (\<lambda>i. map (Pair i) [i..<?n]) [0..<?n])"
  let ?Q = "\<lambda>x m. fst x < ?n \<longrightarrow> fst x = snd x \<longrightarrow> m ! (fst x * ?n + fst x) = Fin 1"
  have *: "symmetric ?n m \<and> (\<forall>x\<in>set ?xs. ?Q x m)"
  proof (rule fold_ok_establishes [where f = "corr_cell ar rets" and P = "symmetric ?n" and Q = ?Q])
    show "fold_ok (corr_cell ar rets) (replicate (?n * ?n) NaN) ?xs = Ok m" using assms by (simp add: corr_matrix_def Let_def)
    show "symmetric ?n (replicate (?n * ?n) NaN)" by (auto simp: symmetric_def window_cell_less)
    fix m x m' y assume x: "x \<in> set ?xs" and P: "symmetric ?n m" and st: "corr_cell ar rets m x = Ok m'"
    obtain i j where ij: "x = (i, j)" "i < ?n" "j < ?n" using x by auto
    have "length m = ?n * ?n" using P by (simp add: symmetric_def)
    from corr_cell_at [OF st [unfolded ij(1)] this ij(2,3)] obtain c where
      c: "length m' = length m" "i = j \<longrightarrow> c = Fin 1"
      "\<And>x y. x < ?n \<Longrightarrow> y < ?n \<Longrightarrow> m' ! (x * ?n + y) = (if x = j \<and> y = i \<or> x = i \<and> y = j then c else m ! (x * ?n + y))" by blast
    show "symmetric ?n m' \<and> ?Q x m'" using P c ij by (auto simp: symmetric_def)
    show "?Q y m'" if "?Q y m" using that c by auto
  qed
  then show "symmetric ?n m" by blast
  assume k: "k < ?n"
  then have "(k, k) \<in> set ?xs" by (auto intro!: bexI [of _ k])
  with * have "?Q (k, k) m" by blast
  with k show "m ! (k * ?n + k) = Fin 1" by simp
qed

text \<open>The overlap counts the instruments that at least two strategies hold.\<close>

lemma count_codes_count: "count_codes css a = count (mset (concat css)) a"
proof -
  have "foldl (\<lambda>cnt a. cnt(a := Suc (cnt a))) c xs a = c a + count (mset xs) a" for c xs
    by (induction xs arbitrary: c) auto
  then show ?thesis by (simp add: count_codes_def)
qed

lemma count_concat_distinct:
  assumes "\<And>cs. cs \<in> set css \<Longrightarrow> distinct cs"
  shows "count (mset (concat css)) a = card {s. s < length css \<and> a \<in> set (css ! s)}"
  using assms
proof (induction css rule: rev_induct)
  case (snoc cs css)
  have "{s. s < length (css @ [cs]) \<and> a \<in> set ((css @ [cs]) ! s)} =
      {s. s < length css \<and> a \<in> set (css ! s)} \<union> (if a \<in> set cs then {length css} else {})"
    by (auto simp: nth_append less_Suc_eq)
  moreover have "count (mset cs) a = (if a \<in> set cs then 1 else 0)" using snoc.prems by (simp add: distinct_count_atmost_1)
  ultimately show ?case using snoc by (auto simp: card_insert_if)
qed simp

lemma overlap_day_spec:
  assumes "overlap_day rs d = Ok k" "map_ok (\<lambda>r. held_on r d) rs = Ok hs" "\<And>h. h \<in> set hs \<Longrightarrow> distinct (map fst h)"
  shows "k = card {a. 2 \<le> card {s. s < length rs \<and> a \<in> fst ` set (hs ! s)}}"
proof -
  let ?css = "map (map fst) hs"
  have c: "count_codes ?css a = card {s. s < length rs \<and> a \<in> fst ` set (hs ! s)}" for a
  proof -
    have "count_codes ?css a = card {s. s < length ?css \<and> a \<in> set (?css ! s)}"
      unfolding count_codes_count by (rule count_concat_distinct) (use assms(3) in auto)
    moreover have "{s. s < length ?css \<and> a \<in> set (?css ! s)} = {s. s < length rs \<and> a \<in> fst ` set (hs ! s)}"
      by (intro Collect_cong conj_cong) (simp_all add: map_ok_length [OF assms(2)])
    ultimately show ?thesis by simp
  qed
  have "k = length (filter (\<lambda>a. count_codes ?css a \<ge> 2) (remdups (concat ?css)))"
    using assms(1,2) by (simp add: overlap_day_def Let_def)
  also have "\<dots> = card {a \<in> set (concat ?css). count_codes ?css a \<ge> 2}"
    by (subst distinct_card [symmetric]) (auto intro!: arg_cong [where f = card])
  also have "{a \<in> set (concat ?css). count_codes ?css a \<ge> 2} = {a. count_codes ?css a \<ge> 2}"
  proof -
    have "a \<in> set (concat ?css)" if "count_codes ?css a \<ge> 2" for a
    proof -
      from that have "count (mset (concat ?css)) a > 0" unfolding count_codes_count by linarith
      then show ?thesis by (simp only: count_greater_zero_iff set_mset_mset)
    qed
    then show ?thesis by blast
  qed
  finally show ?thesis unfolding c .
qed

text \<open>The window of the aggregate starts with the latest strategy.\<close>

lemma foldl_max:
  "(\<forall>x\<in>insert k (set xs). x \<le> foldl max k xs) \<and> foldl max k xs \<in> insert (k :: nat) (set xs)"
proof (induction xs arbitrary: k)
  case (Cons x xs)
  from Cons.IH [of "max k x"] show ?case by (auto simp: max_def split: if_splits)
qed simp

lemma held_on_distinct:
  "held_on r d = Ok h \<Longrightarrow> \<exists>lo hi. h = take (hi - lo) (drop lo (zip (br_hold_codes r) (br_hold_weights r)))"
  by (auto simp: held_on_def bind_ok_Ok_iff)

text \<open>The exposures of the desk.\<close>

definition holds_weights :: "(nat \<times> fval) list \<Rightarrow> bool" where
  "holds_weights h \<longleftrightarrow> distinct (map fst h) \<and> list_all (\<lambda>(a, w). is_finite w) h"

lemma desk_weight_at:
  assumes "holds_weights h"
  shows "foldl (\<lambda>w (b, x). if b = a then x else w) (Fin 0) h = (case map_of h a of Some x \<Rightarrow> x | None \<Rightarrow> Fin 0)"
proof -
  have "foldl (\<lambda>w (b, x). if b = a then x else w) v h = (case map_of h a of Some x \<Rightarrow> x | None \<Rightarrow> v)" if "distinct (map fst h)" for v
    using that by (induction h arbitrary: v) (auto split: option.splits simp: map_of_eq_None_iff [symmetric] dest: map_of_SomeD)
  with assms show ?thesis by (simp add: holds_weights_def)
qed

definition exposure :: "(nat \<times> fval) list \<Rightarrow> nat \<Rightarrow> real" where
  "exposure h a = (case map_of h a of Some x \<Rightarrow> val x | None \<Rightarrow> 0)"

lemma exposure_sum:
  assumes "holds_weights h" "finite A" "fst ` set h \<subseteq> A"
  shows "(\<Sum>a\<in>A. exposure h a) = (\<Sum>(a, w)\<leftarrow>h. val w)"
  using assms
proof (induction h)
  case (Cons p h)
  obtain a w where p: "p = (a, w)" by (cases p)
  have h: "holds_weights h" "a \<notin> fst ` set h" "a \<in> A" using Cons.prems by (auto simp: holds_weights_def p)
  have "exposure (p # h) b = (if b = a then val w else exposure h b)" for b by (simp add: exposure_def p)
  moreover have "exposure h a = 0" using h(2) by (simp add: exposure_def map_of_eq_None_iff [THEN iffD2])
  ultimately have "exposure (p # h) b = exposure h b + (if b = a then val w else 0)" for b by simp
  then have "(\<Sum>b\<in>A. exposure (p # h) b) = (\<Sum>b\<in>A. exposure h b) + val w"
    using h(3) Cons.prems(2) by (simp add: sum.distrib sum.delta)
  with Cons h(1) show ?case by (simp add: p)
qed (simp add: exposure_def)

lemma sum_of_sums: "(\<Sum>a\<in>A. \<Sum>h\<leftarrow>hs. f h a) = (\<Sum>h\<leftarrow>hs. \<Sum>a\<in>A. (f h a :: real))"
  by (induction hs) (simp_all add: sum.distrib)

lemma exact_fsum: "list_all is_finite xs \<Longrightarrow> fsum Fin xs = Fin (\<Sum>x\<leftarrow>xs. val x)"
proof -
  have "list_all is_finite xs \<Longrightarrow> foldl (fadd Fin) (Fin a) xs = Fin (a + (\<Sum>x\<leftarrow>xs. val x))" for a
    by (induction xs arbitrary: a) (auto simp: is_finite_iff)
  from this [of 0] show "list_all is_finite xs \<Longrightarrow> ?thesis" by (simp add: fsum_def)
qed

text \<open>In a consistent state the table of the last day is complete.\<close>

lemma run_ok_holdings_table:
  assumes "run_ok rv b"
  shows "\<exists>rows. holdings_table rv b = Ok rows \<and> mset (map hr_a rows) = mset (map po_a (en_holdings (bk_engine b))) \<and>
    list_all (\<lambda>r. bk_open_recs b (hr_a r) = Some \<lparr>or_open_d = hr_open_d r, or_open_px = hr_open_px r\<rparr> \<and> is_finite (hr_last_px r)) rows"
proof -
  let ?n = "mk_n_d (rv_market rv)" and ?hs = "map po_a (en_holdings (bk_engine b))"
  let ?seg = "drop (bk_hold_off b ! (?n - 1)) (bk_holdings b)"
  from assms have r: "?n > 0" "ledger_ok rv (n_d (rv_axes rv)) (set ?hs) b" "series_ok ?n b" "mset (map he_code ?seg) = mset ?hs"
    "list_all (\<lambda>a. is_finite (close_at (rv_market rv) (?n - 1) a)) ?hs" by (simp_all add: run_ok_def Let_def)
  have o: "length (bk_hold_off b) = Suc ?n" "last (bk_hold_off b) = length (bk_holdings b)" using r(3) by (simp_all add: series_ok_def offsets_ok_def)
  then have "bk_hold_off b ! ?n = length (bk_holdings b)" using last_conv_nth [of "bk_hold_off b"] by (cases "bk_hold_off b") auto
  then have seg: "take (bk_hold_off b ! ?n - bk_hold_off b ! (?n - 1)) ?seg = ?seg" by simp
  define row where "row h = (let a = he_code h; rec = the (bk_open_recs b a); px = close_at (rv_market rv) (?n - 1) a in
    \<lparr>hr_a = a, hr_open_d = or_open_d rec, hr_open_px = or_open_px rec, hr_last_px = px, hr_weight = he_weight h,
     hr_ret = trade_ret (rv_ar rv) (or_open_px rec) px\<rparr>)" for h :: held
  have h: "bk_open_recs b (he_code h) \<noteq> None \<and> is_finite (close_at (rv_market rv) (?n - 1) (he_code h))" if "h \<in> set ?seg" for h
  proof -
    have "he_code h \<in> set (map he_code ?seg)" using that by simp
    then have "he_code h \<in> set ?hs" using mset_eq_setD [OF r(4)] by simp
    moreover have "set ?hs = dom (bk_open_recs b)" using r(2) by (simp add: ledger_ok_def)
    ultimately show ?thesis using r(5) by (auto simp: list_all_iff)
  qed
  then have "holding_row_of rv b h = Ok (row h)" if "h \<in> set ?seg" for h
    using that by (fastforce simp: holding_row_of_def Let_def row_def)
  then have "map_ok (holding_row_of rv b) ?seg = Ok (map row ?seg)" by (rule map_ok_Ok)
  then have "holdings_table rv b = Ok (map row ?seg)" unfolding holdings_table_def Let_def seg .
  moreover have "mset (map hr_a (map row ?seg)) = mset ?hs" using r(4) by (simp add: row_def Let_def o_def)
  moreover have "list_all (\<lambda>r. bk_open_recs b (hr_a r) = Some \<lparr>or_open_d = hr_open_d r, or_open_px = hr_open_px r\<rparr> \<and> is_finite (hr_last_px r)) (map row ?seg)"
    using h by (fastforce simp: list_all_iff row_def Let_def)
  ultimately show ?thesis by blast
qed

section \<open>Properties\<close>

text \<open>The order desk shares out the exposure of the strategies: every instrument that a strategy holds on the last day has
  exactly one row, the rows are in descending order of their exposure, a row counts the strategies with a positive weight, and the
  exposures add up to the mean of what the strategies have invested.\<close>

theorem desk_shares_exposure:
  assumes "list_all holds_weights hs" "hs \<noteq> []"
  defines "rows \<equiv> desk exact_arith hs"
  shows "distinct (map dr_a rows) \<and> set (map dr_a rows) = fst ` set (concat hs) \<and>
    sorted_wrt (\<lambda>x y. fle (dr_combo_w y) (dr_combo_w x)) rows \<and>
    list_all (\<lambda>r. dr_n_hit r = length (filter (\<lambda>h. exposure h (dr_a r) > 0) hs)) rows \<and>
    (\<Sum>r\<leftarrow>rows. val (dr_combo_w r)) = (\<Sum>h\<leftarrow>hs. \<Sum>(a, w)\<leftarrow>h. val w) / real (length hs)"
proof -
  let ?as = "sort (remdups (map fst (concat hs)))" and ?n = "real (length hs)"
  have w: "desk_weights hs a = map (\<lambda>h. Fin (exposure h a)) hs" for a
  proof -
    have "(case map_of h a of Some x \<Rightarrow> x | None \<Rightarrow> Fin 0) = Fin (exposure h a)" if "h \<in> set hs" for h
      using assms(1) that by (auto simp: exposure_def list_all_iff holds_weights_def is_finite_iff dest!: map_of_SomeD split: option.splits) fastforce
    with assms(1) show ?thesis unfolding desk_weights_def by (intro map_cong refl) (simp add: desk_weight_at list_all_iff)
  qed
  have row: "desk_row_of exact_arith hs a = \<lparr>dr_a = a, dr_combo_w = Fin ((\<Sum>h\<leftarrow>hs. exposure h a) / ?n),
      dr_n_hit = length (filter (\<lambda>h. exposure h a > 0) hs), dr_w = desk_weights hs a\<rparr>" for a
    using assms(2) exact_fsum [of "map (\<lambda>h. Fin (exposure h a)) hs"]
    by (simp add: desk_row_of_def Let_def w list_all_iff o_def filter_map)
  let ?rs = "map (desk_row_of exact_arith hs) ?as"
  have m: "mset rows = mset ?rs" by (simp add: rows_def desk_def)
  have a: "map dr_a ?rs = ?as" by (simp add: row o_def)
  have ma: "mset (map dr_a rows) = mset ?as" using arg_cong [OF m, of "image_mset dr_a"] a by (simp only: mset_map [symmetric])
  have "distinct (map dr_a rows)" using mset_eq_imp_distinct_iff [OF ma] by simp
  moreover have "set (map dr_a rows) = set ?as" by (rule mset_eq_setD [OF ma])
  moreover have "set ?as = fst ` set (concat hs)" by simp
  moreover have "sorted_wrt (\<lambda>x y. fle (dr_combo_w y) (dr_combo_w x)) rows"
  proof -
    have "rows = sort_desc dr_combo_w ?rs" by (simp add: rows_def desk_def sort_desc_def)
    moreover have "dr_combo_w r \<noteq> NaN" if "r \<in> set ?rs" for r using that by (auto simp: row)
    ultimately show ?thesis using desc_sort.sort_order [OF sort_desc_sorts, of ?rs dr_combo_w] by simp
  qed
  moreover have "list_all (\<lambda>r. dr_n_hit r = length (filter (\<lambda>h. exposure h (dr_a r) > 0) hs)) rows"
  proof -
    have "set rows = set ?rs" using m by (metis set_mset_mset)
    then show ?thesis by (auto simp: list_all_iff row)
  qed
  moreover have "(\<Sum>r\<leftarrow>rows. val (dr_combo_w r)) = (\<Sum>h\<leftarrow>hs. \<Sum>(a, w)\<leftarrow>h. val w) / ?n"
  proof -
    have "(\<Sum>r\<leftarrow>rows. val (dr_combo_w r)) = (\<Sum>r\<leftarrow>?rs. val (dr_combo_w r))"
      using arg_cong [OF m, of "\<lambda>M. sum_mset (image_mset (\<lambda>r. val (dr_combo_w r)) M)"]
      by (simp only: mset_map [symmetric] sum_mset_sum_list)
    also have "\<dots> = (\<Sum>a\<leftarrow>?as. (\<Sum>h\<leftarrow>hs. exposure h a) / ?n)" by (simp add: row o_def)
    also have "\<dots> = (\<Sum>a\<in>set ?as. (\<Sum>h\<leftarrow>hs. exposure h a) / ?n)"
      by (rule sum_list_distinct_conv_sum_set) (simp add: distinct_sort)
    also have "\<dots> = (\<Sum>h\<leftarrow>hs. \<Sum>a\<in>set ?as. exposure h a) / ?n"
      by (simp only: sum_divide_distrib [symmetric] sum_of_sums)
    also have "(\<Sum>h\<leftarrow>hs. \<Sum>a\<in>set ?as. exposure h a) = (\<Sum>h\<leftarrow>hs. \<Sum>(a, w)\<leftarrow>h. val w)"
      using assms(1) by (intro arg_cong [where f = sum_list] map_cong refl exposure_sum) (auto simp: list_all_iff intro: rev_image_eqI)
    finally show ?thesis .
  qed
  ultimately show ?thesis by simp
qed

lemma desk_shares_exposure_witness:
  "(\<Sum>r\<leftarrow>desk exact_arith [[(0, Fin (1 / 2)), (1, Fin (1 / 4))], [(1, Fin 1)]]. val (dr_combo_w r)) = 7 / 8 \<and>
   set (map dr_a (desk exact_arith [[(0, Fin (1 / 2)), (1, Fin (1 / 4))], [(1, Fin 1)]])) = {0, 1}"
  using desk_shares_exposure [of "[[(0, Fin (1 / 2)), (1, Fin (1 / 4))], [(1, Fin 1)]]"] by (simp add: holds_weights_def)

text \<open>What the report over all strategies contains. The window starts with the latest strategy; on every day of it, the overlap is the number
  of instruments that at least two strategies hold; and the correlations form a symmetric matrix with ones on the diagonal.\<close>

theorem aggregate_tables:
  assumes "aggregate_of ar ax n rs = Ok ag"
    "\<forall>r\<in>set rs. \<forall>d h. held_on r d = Ok h \<longrightarrow> distinct (map fst h)"
  shows "ag_d_lo ag \<in> br_d_lo ` set rs \<and> (\<forall>r\<in>set rs. br_d_lo r \<le> ag_d_lo ag) \<and> length (ag_overlap ag) = n_d ax - ag_d_lo ag \<and>
    (\<forall>i<n_d ax - ag_d_lo ag. \<exists>hs. map_ok (\<lambda>r. held_on r (ag_d_lo ag + i)) rs = Ok hs \<and>
       ag_overlap ag ! i = card {a. 2 \<le> card {s. s < length rs \<and> a \<in> fst ` set (hs ! s)}}) \<and>
    (\<forall>s<length rs. \<forall>t<length rs. ag_corr ag ! (s * length rs + t) = ag_corr ag ! (t * length rs + s)) \<and>
    (\<forall>s<length rs. ag_corr ag ! (s * length rs + s) = Fin 1)"
proof -
  let ?lo = "foldl max (br_d_lo (hd rs)) (map br_d_lo rs)"
  have ne: "rs \<noteq> []" using assms(1) by (auto simp: aggregate_of_def split: if_splits)
  from assms(1) obtain series pools where 1: "ag_d_lo ag = ?lo"
    "map_ok (\<lambda>r. with_returns ar (slice_norm ar r ?lo (n_d ax - ?lo))) rs = Ok series"
    "corr_matrix ar (map snd series) = Ok (ag_corr ag)" "map_ok (\<lambda>i. overlap_day rs (?lo + i)) [0..<n_d ax - ?lo] = Ok (ag_overlap ag)"
    by (auto simp: aggregate_of_def Let_def bind_ok_Ok_iff split: if_splits)
  have len: "length (map snd series) = length rs" using map_ok_length [OF 1(2)] by simp
  have "br_d_lo (hd rs) \<in> br_d_lo ` set rs" using ne by simp
  with foldl_max [of "br_d_lo (hd rs)" "map br_d_lo rs"] have lo: "?lo \<in> br_d_lo ` set rs" "\<forall>r\<in>set rs. br_d_lo r \<le> ?lo" by auto
  have ov: "\<exists>hs. map_ok (\<lambda>r. held_on r (?lo + i)) rs = Ok hs \<and>
      ag_overlap ag ! i = card {a. 2 \<le> card {s. s < length rs \<and> a \<in> fst ` set (hs ! s)}}" if i: "i < n_d ax - ?lo" for i
  proof -
    have o: "overlap_day rs (?lo + i) = Ok (ag_overlap ag ! i)" using map_ok_nth [OF 1(4)] i by simp
    then obtain hs where hs: "map_ok (\<lambda>r. held_on r (?lo + i)) rs = Ok hs" by (auto simp: overlap_day_def bind_ok_Ok_iff)
    have "distinct (map fst h)" if "h \<in> set hs" for h
    proof -
      from that obtain k where "k < length rs" "h = hs ! k" using map_ok_length [OF hs] by (auto simp: in_set_conv_nth)
      with map_ok_nth [OF hs] assms(2) show ?thesis by (metis nth_mem)
    qed
    from overlap_day_spec [OF o hs this] hs show ?thesis by blast
  qed
  have sym: "\<forall>s<length rs. \<forall>t<length rs. ag_corr ag ! (s * length rs + t) = ag_corr ag ! (t * length rs + s)"
    using corr_matrix_symmetric(1) [OF 1(3)] unfolding len symmetric_def by blast
  have dia: "\<forall>s<length rs. ag_corr ag ! (s * length rs + s) = Fin 1" using corr_matrix_symmetric(2) [OF 1(3)] unfolding len by blast
  have "length (ag_overlap ag) = n_d ax - ?lo" using map_ok_length [OF 1(4)] by simp
  with lo ov sym dia show ?thesis unfolding 1(1) by blast
qed

text \<open>Two strategies, the second a day later.\<close>

definition ag_results :: "bt_result list" where
  "ag_results = [\<lparr>br_d_lo = 0, br_strategy_nav = [Fin 4, Fin 5], br_pool_nav = [Fin 1, Fin 2], br_hold_off = [0, 0, 2], br_hold_codes = [0, 1],
      br_hold_weights = [Fin (1 / 2), Fin (1 / 4)]\<rparr>,
     \<lparr>br_d_lo = 1, br_strategy_nav = [Fin 2], br_pool_nav = [Fin 3], br_hold_off = [0, 1], br_hold_codes = [1], br_hold_weights = [Fin 1]\<rparr>]"

lemma ag_sample: "\<exists>ag. aggregate_of exact_arith sample_axes 2 ag_results = Ok ag \<and> ag_overlap ag = [1] \<and> ag_d_lo ag = 1"
proof -
  obtain c where c: "pearson exact_arith [Fin 0] [Fin 0] = Ok c" by (simp add: pearson_def Let_def)
  obtain p where p: "stats_pair exact_arith [Fin 1] [Fin 0] [Fin 0] = Ok p"
  proof -
    obtain be al where "beta_alpha exact_arith (both_finite [Fin 0] [Fin 0]) = (be, al)" by fastforce
    with that show ?thesis by (simp add: stats_pair_def nav_stats_of_def daily_returns_def drawdown_curve_def rel_stats_of_def Let_def)
  qed
  have m: "mean_rets exact_arith [[Fin 0], [Fin 0]] (Suc 0) = [Fin 0]" "cum_nav exact_arith [Fin 0] = [Fin 1]"
    by (simp_all add: mean_rets_def fsum_def cum_nav_def grow_def narrow_def)
  show ?thesis
    by (simp add: aggregate_of_def ag_results_def sample_axes_ok Let_def slice_norm_def slice_norm_series_def with_returns_def daily_returns_def
      corr_matrix_def corr_cell_def upt_rec numeral_2_eq_2 overlap_day_def held_on_def hold_span_def count_codes_def c p m)
qed

lemma aggregate_tables_witness:
  "\<exists>ag. aggregate_of exact_arith sample_axes 2 ag_results = Ok ag \<and> ag_corr ag ! 1 = ag_corr ag ! 2 \<and> ag_corr ag ! 3 = Fin 1"
proof -
  obtain ag where ag: "aggregate_of exact_arith sample_axes 2 ag_results = Ok ag" using ag_sample by blast
  have "\<forall>r\<in>set ag_results. \<forall>d h. held_on r d = Ok h \<longrightarrow> distinct (map fst h)"
  proof (intro ballI allI impI)
    fix r d h assume r: "r \<in> set ag_results" and h: "held_on r d = Ok h"
    from held_on_distinct [OF h] obtain lo hi where k: "h = take (hi - lo) (drop lo (zip (br_hold_codes r) (br_hold_weights r)))" by blast
    have "distinct (map fst (zip (br_hold_codes r) (br_hold_weights r)))" using r by (auto simp: ag_results_def)
    then show "distinct (map fst h)" unfolding k by (simp add: take_map [symmetric] drop_map [symmetric] distinct_drop)
  qed
  note k = aggregate_tables [OF ag this]
  have l: "length ag_results = 2" by (simp add: ag_results_def)
  have sym: "\<forall>s<2. \<forall>t<2. ag_corr ag ! (s * 2 + t) = ag_corr ag ! (t * 2 + s)" using k unfolding l by blast
  have dia: "\<forall>s<2. ag_corr ag ! (s * 2 + s) = Fin 1" using k unfolding l by blast
  have "ag_corr ag ! 1 = ag_corr ag ! 2" using sym [rule_format, of 0 1] by simp
  moreover have "ag_corr ag ! 3 = Fin 1" using dia [rule_format, of 1] by simp
  ultimately show ?thesis using ag by blast
qed

text \<open>C39. The table of the positions is complete: after a run, no assertion of the table fails, it has exactly one row for each position, and the row
  holds the day and the price of the record that is still open and a last close that is a number.\<close>

theorem holdings_table_complete:
  assumes "\<forall>d<n_d ax. rank_column_ok ax s d T \<and> (\<forall>a<n_a ax. is_finite (strat_at ax T (slot s SF_pool) a d))" "desc_sort snd wsort"
    "st_hold_n spec \<le> exit_limit ar (new_engine ar (st_hold_n spec) (st_exit_ratio spec))"
    "run_days ar dsort wsort ax meta T nt spec s = Ok (rv, b)"
  shows "\<exists>rows. holdings_table rv b = Ok rows \<and> mset (map hr_a rows) = mset (map po_a (en_holdings (bk_engine b))) \<and>
    list_all (\<lambda>r. bk_open_recs b (hr_a r) = Some \<lparr>or_open_d = hr_open_d r, or_open_px = hr_open_px r\<rparr> \<and> is_finite (hr_last_px r)) rows"
proof (rule run_ok_holdings_table)
  from run_days_cases [OF assms(1-3), of dsort meta nt] assms(4) run_inv_ok show "run_ok rv b" by fastforce
qed

text \<open>The first day cannot fail.\<close>

lemma first_step:
  fixes e :: engine
  assumes "en_holdings e = []" "fless (Fin 0) (fadd (double ar) (en_cash e) (Fin 0))" "i < mk_n_d mk" "0 \<le> en_hold_n e"
  shows "\<exists>e'. step ar sorter mk i cands e = Ok e'"
proof -
  let ?e = "e\<lparr>en_turn_amt := Fin 0, en_events := []\<rparr>"
  let ?e2 = "?e\<lparr>en_pv := fadd (double ar) (en_cash e) (Fin 0)\<rparr>" and ?t = "trade ar sorter mk i cands"
  have l: "liquidate ar mk i ?e = Ok ?e" and m: "mark ar mk i ?e = Ok ?e2"
    using assms(1,2) by (simp_all add: liquidate_def mark_def market_value_def)
  let ?s = "sell_intents ar mk i cands ?e2"
  have s: "marked ar mk i cands ?e2 = []" "en_hold_n ?s = en_hold_n e" using assms(1) by (simp_all add: sell_intents_def)
  obtain bs where bs: "map po_a (en_holdings (?t ?e2)) = bs" "subseq bs (buy_list mk i cands ?s)"
    using trade_positions [of ar sorter mk i cands ?e2] s(1) by auto
  have "length (en_holdings (?t ?e2)) \<le> length (buy_list mk i cands ?s)"
    using list_emb_length [OF bs(2)] arg_cong [OF bs(1), of length] by simp
  then have "int (length (en_holdings (?t ?e2))) \<le> cap (?t ?e2)"
    using length_buy_list [of mk i cands ?s] s trade_effect(2) [of ar sorter mk i cands ?e2] assms(4) by (simp add: cap_def)
  then have "\<exists>e'. close_day ar mk i (?t ?e2) = Ok e'" by (simp add: close_day_def Let_def cap_def)
  with assms(3) l m show ?thesis by (simp add: step_def)
qed

lemma one_day_run:
  "\<exists>rv b. run_days exact_arith sort_deficits (sort_desc snd) sample_axes bt_meta bt_tensor [[], []] (bt_strategy\<lparr>st_bt_start_date := ''20240103''\<rparr>) 0
     = Ok (rv, b)"
proof -
  let ?spec = "bt_strategy\<lparr>st_bt_start_date := ''20240103''\<rparr>" and ?e0 = "new_engine exact_arith 1 (Fin 1)"
  have d: "find_d sample_axes ''20240103'' False = 1" by code_simp
  have "\<forall>a<n_a sample_axes. \<forall>d<n_d sample_axes. market_flags_ready sample_axes bt_tensor a d"
    by (auto simp: market_flags_ready_def tensor_at_def bt_tensor_def mat_off_def sample_axes_ok less_Suc_eq numeral_2_eq_2)
  then obtain mk where mk: "load_market sample_axes bt_tensor 1 1 = Ok mk" using load_market_total [of 1 1 sample_axes bt_tensor] by (auto simp: sample_axes_ok)
  define rv where "rv = \<lparr>rv_ar = exact_arith, rv_deficits = sort_deficits, rv_weights = sort_desc snd, rv_axes = sample_axes, rv_meta = bt_meta,
    rv_tensor = bt_tensor, rv_timeline = [[], []], rv_strategy = 0, rv_d_lo = 1, rv_market = mk\<rparr>"
  note L = load_market_closes [OF mk]
  have r: "run_ready rv" using L bt_columns sort_desc_sorts by (simp add: run_ready_def rv_def sample_axes_ok)
  have i: "run_inv rv ?e0 0 (new_book exact_arith ?spec)" by (rule run_inv_new) (simp_all add: bt_strategy_def)
  have n: "0 < mk_n_d (rv_market rv)" using L by (simp add: rv_def)
  have x: "en_hold_n ?e0 \<le> exit_limit (rv_ar rv) ?e0" by (simp add: rv_def exit_limit_def new_engine_def reset_def trunc_def)
  have e: "bk_engine (new_book exact_arith ?spec) = ?e0" by (simp add: new_book_def bt_strategy_def)
  obtain e' where "step (rv_ar rv) (rv_deficits rv) (rv_market rv) 0 (ranking (rv_axes rv) (rv_strategy rv) (rv_d_lo rv + 0) (rv_tensor rv)) ?e0 = Ok e'"
    using first_step [of ?e0 exact_arith 0 mk] n by (auto simp: rv_def new_engine_def reset_def CAPITAL_BASE_def)
  from day_kept [OF r i n x this [folded e], of "st_hold_n ?spec * 2"] obtain b where
    "backtest_day rv (st_hold_n ?spec * 2) (new_book exact_arith ?spec) 0 = Ok b" by blast
  then have "run_days exact_arith sort_deficits (sort_desc snd) sample_axes bt_meta bt_tensor [[], []] ?spec 0 = Ok (rv, b)"
    using mk by (simp add: run_days_def Let_def d sample_axes_ok rv_def)
  then show ?thesis by blast
qed

lemma holdings_table_complete_witness:
  "\<exists>rv b rows. run_days exact_arith sort_deficits (sort_desc snd) sample_axes bt_meta bt_tensor [[], []] (bt_strategy\<lparr>st_bt_start_date := ''20240103''\<rparr>) 0
     = Ok (rv, b) \<and> holdings_table rv b = Ok rows \<and> mset (map hr_a rows) = mset (map po_a (en_holdings (bk_engine b)))"
proof -
  obtain rv b where rb: "run_days exact_arith sort_deficits (sort_desc snd) sample_axes bt_meta bt_tensor [[], []]
      (bt_strategy\<lparr>st_bt_start_date := ''20240103''\<rparr>) 0 = Ok (rv, b)" using one_day_run by blast
  have "st_hold_n (bt_strategy\<lparr>st_bt_start_date := ''20240103''\<rparr>) \<le> exit_limit exact_arith
      (new_engine exact_arith (st_hold_n (bt_strategy\<lparr>st_bt_start_date := ''20240103''\<rparr>)) (st_exit_ratio (bt_strategy\<lparr>st_bt_start_date := ''20240103''\<rparr>)))"
    by (simp add: bt_strategy_def exit_limit_def new_engine_def reset_def trunc_def)
  from holdings_table_complete [OF bt_columns sort_desc_sorts this rb] rb show ?thesis by blast
qed

end
