(* ===== verification/Lattice.thy ===== *)
theory Lattice
  imports Prelude
begin

text \<open>
  The weights that the search tries (\<open>cpp/src/mine/mine.cpp\<close>, the part on the lattice): all integer vectors whose absolute
  values add up to \<open>MINE_LATTICE_M\<close>, their enumeration, the row number of a vector without a table of vectors, and the
  neighbours of a vector. The two constants of \<open>cpp/include/config_mine.hpp\<close>, the number of factors and the order of the
  lattice, are the arguments \<open>n\<close> and \<open>M\<close>; a coordinate fits \<open>int8_t\<close> because \<open>M \<le> 127\<close>.
\<close>

section \<open>The code\<close>

datatype lattice_error = LatticeCount | BudgetExceeded | NotOnLattice

definition binom :: "int \<Rightarrow> int \<Rightarrow> int" where
  "binom a b = (if b < 0 \<or> b > a then 0 else foldl (\<lambda>r i. r * (a - int i) div (int i + 1)) 1 [0..<nat b])"

definition lattice_size :: "nat \<Rightarrow> nat \<Rightarrow> int" where
  "lattice_size n M = foldl (\<lambda>p j. p + binom (int n) (int j) * binom (int M - 1) (int j - 1) * 2 ^ j) 0 [1..<Suc (min n M)]"

text \<open>The vectors that the recursion emits from coordinate \<open>i\<close> on, with the coordinates before it in \<open>k\<close>.\<close>

function lattice_rec :: "nat \<Rightarrow> int list \<Rightarrow> nat \<Rightarrow> int \<Rightarrow> int list list" where
  "lattice_rec n k i rem =
     (if n \<le> Suc i then (if rem = 0 then [k[i := 0]] else [k[i := rem], k[i := - rem]])
      else concat (map (\<lambda>v. lattice_rec n (k[i := v]) (Suc i) (rem - \<bar>v\<bar>)) [- rem..rem]))"
  by pat_completeness auto
termination by (relation "measure (\<lambda>(n, k, i, rem). n - i)") auto

declare lattice_rec.simps [simp del]

definition build_lattice :: "nat \<Rightarrow> nat \<Rightarrow> (lattice_error, int list list) outcome" where
  "build_lattice n M =
     (let out = lattice_rec n (replicate n 0) 0 (int M) in if int (length out) \<noteq> lattice_size n M then Fail LatticeCount else Ok out)"

text \<open>The table of counts: row \<open>i\<close> holds, for each budget, the number of ways to spend it on the coordinates from \<open>i\<close> on.\<close>

definition ways_row :: "nat \<Rightarrow> nat list \<Rightarrow> nat list" where
  "ways_row M nxt = map (\<lambda>rem. foldl (\<lambda>s u. s + 2 * nxt ! (rem - u)) (nxt ! rem) [1..<Suc rem]) [0..<Suc M]"

primrec ways_rows :: "nat \<Rightarrow> nat \<Rightarrow> nat list list" where
  "ways_rows M 0 = [map (\<lambda>rem. if rem = 0 then 1 else 2) [0..<Suc M]]"
| "ways_rows M (Suc m) = ways_row M (hd (ways_rows M m)) # ways_rows M m"

definition n_ways :: "nat \<Rightarrow> nat \<Rightarrow> nat list list" where
  "n_ways n M = ways_rows M (n - 1)"

definition lattice_total :: "nat \<Rightarrow> nat \<Rightarrow> nat" where
  "lattice_total n M = n_ways n M ! 0 ! M"

definition index_step :: "nat list list \<Rightarrow> int list \<Rightarrow> nat \<times> int \<Rightarrow> nat \<Rightarrow> (lattice_error, nat \<times> int) outcome" where
  "index_step tbl k = (\<lambda>(idx, rem) i.
     if \<not> \<bar>k ! i\<bar> \<le> rem then Fail BudgetExceeded
     else Ok (foldl (\<lambda>idx v. idx + tbl ! Suc i ! nat (rem - \<bar>v\<bar>)) idx [- rem..k ! i - 1], rem - \<bar>k ! i\<bar>))"

definition lattice_index :: "nat \<Rightarrow> nat \<Rightarrow> int list \<Rightarrow> (lattice_error, nat) outcome" where
  "lattice_index n M k =
     bind_ok (fold_ok (index_step (n_ways n M) k) (0, int M) [0..<n - 1]) (\<lambda>(idx, rem).
       if \<bar>k ! (n - 1)\<bar> \<noteq> rem then Fail NotOnLattice
       else Ok (if rem > 0 \<and> k ! (n - 1) < 0 then idx + 1 else idx))"

text \<open>The neighbours, in the order in which the callback gets their rows: one unit moves from coordinate \<open>i\<close> to coordinate \<open>j\<close>.\<close>

definition away :: "int \<Rightarrow> int list" where
  "away x = (if x = 0 then [1, - 1] else [x + (if x > 0 then 1 else - 1)])"

definition toward :: "int \<Rightarrow> int" where
  "toward x = x - (if x > 0 then 1 else - 1)"

definition neighbours :: "nat \<Rightarrow> int list \<Rightarrow> int list list" where
  "neighbours n k = concat (map (\<lambda>i. if k ! i = 0 then []
     else concat (map (\<lambda>j. if j = i then [] else map (\<lambda>x. (k[i := toward (k ! i)])[j := x]) (away (k ! j))) [0..<n])) [0..<n])"

definition neighbour_rows :: "nat \<Rightarrow> nat \<Rightarrow> int list \<Rightarrow> (lattice_error, nat list) outcome" where
  "neighbour_rows n M k = map_ok (lattice_index n M) (neighbours n k)"

section \<open>The enumeration\<close>

definition on_lattice :: "nat \<Rightarrow> int \<Rightarrow> int list \<Rightarrow> bool" where
  "on_lattice n r k \<longleftrightarrow> length k = n \<and> (\<Sum>x\<leftarrow>k. \<bar>x\<bar>) = r"

text \<open>What follows a prefix: the vectors of length \<open>Suc m\<close> for the budget that is left.\<close>

fun suffixes :: "nat \<Rightarrow> int \<Rightarrow> int list list" where
  "suffixes 0 rem = (if rem = 0 then [[0]] else [[rem], [- rem]])"
| "suffixes (Suc m) rem = concat (map (\<lambda>v. map ((#) v) (suffixes m (rem - \<bar>v\<bar>))) [- rem..rem])"

lemma abs_sum_nonneg: "0 \<le> (\<Sum>x\<leftarrow>k. \<bar>x\<bar> :: int)"
  by (induction k) auto

lemma cons_blocks: "v # s \<in> set (concat (map (\<lambda>v. map ((#) v) (f v)) vs)) \<longleftrightarrow> v \<in> set vs \<and> s \<in> set (f v)"
  by auto

lemma suffixes_set: "0 \<le> rem \<Longrightarrow> set (suffixes m rem) = {k. on_lattice (Suc m) rem k}"
proof (induction m arbitrary: rem)
  case 0
  then show ?case by (auto simp: on_lattice_def length_Suc_conv)
next
  case (Suc m)
  have "k \<in> set (suffixes (Suc m) rem) \<longleftrightarrow> on_lattice (Suc (Suc m)) rem k" for k
  proof (cases k)
    case (Cons v s)
    have "k \<in> set (suffixes (Suc m) rem) \<longleftrightarrow> \<bar>v\<bar> \<le> rem \<and> on_lattice (Suc m) (rem - \<bar>v\<bar>) s"
      using Suc.IH [of "rem - \<bar>v\<bar>"] unfolding Cons suffixes.simps cons_blocks by auto
    then show ?thesis using abs_sum_nonneg [of s] by (auto simp: Cons on_lattice_def)
  qed (auto simp: on_lattice_def)
  then show ?case by auto
qed

lemma distinct_cons_blocks:
  "distinct vs \<Longrightarrow> (\<And>v. v \<in> set vs \<Longrightarrow> distinct (f v)) \<Longrightarrow> distinct (concat (map (\<lambda>v. map ((#) v) (f v)) vs))"
  by (induction vs) (auto simp: distinct_map)

lemma suffixes_distinct: "distinct (suffixes m rem)"
  by (induction m arbitrary: rem) (simp_all add: distinct_cons_blocks)

lemma lattice_rec_suffixes:
  "i < n \<Longrightarrow> length k = n \<Longrightarrow> lattice_rec n k i rem = map (\<lambda>s. take i k @ s) (suffixes (n - Suc i) rem)"
proof (induction n k i rem rule: lattice_rec.induct)
  case (1 n k i rem)
  have upd: "k[i := v] = take i k @ [v] @ drop (Suc i) k" for v using "1.prems" by (simp add: upd_conv_take_nth_drop)
  show ?case
  proof (cases "n \<le> Suc i")
    case True
    then show ?thesis using "1.prems" upd by (auto simp: lattice_rec.simps [of n k i rem])
  next
    case False
    then obtain m where m: "n - Suc i = Suc m" by (metis Suc_diff_Suc not_le)
    have t: "take (Suc i) (k[i := v]) = take i k @ [v]" for v
      using "1.prems" upd by simp
    have "lattice_rec n (k[i := v]) (Suc i) (rem - \<bar>v\<bar>) = map (\<lambda>s. (take i k @ [v]) @ s) (suffixes m (rem - \<bar>v\<bar>))"
      if "v \<in> set [- rem..rem]" for v
      using "1.IH" [OF False that] False "1.prems" m by (simp add: t) (metis Suc_diff_Suc Suc_lessI diff_Suc_Suc not_le nat.inject)
    then have "concat (map (\<lambda>v. lattice_rec n (k[i := v]) (Suc i) (rem - \<bar>v\<bar>)) [- rem..rem])
      = concat (map (\<lambda>v. map (\<lambda>s. take i k @ v # s) (suffixes m (rem - \<bar>v\<bar>))) [- rem..rem])"
      by (intro arg_cong [where f = concat] map_cong refl) simp
    then show ?thesis using False m by (simp add: lattice_rec.simps [of n k i rem] map_concat comp_def)
  qed
qed

section \<open>Counting\<close>

lemma foldl_plus: "foldl (\<lambda>s x. s + g x) a xs = a + (\<Sum>x\<leftarrow>xs. g x)" for a :: "'b :: monoid_add"
  by (induction xs arbitrary: a) (simp_all add: add.assoc)

lemma sum_upto_abs: "(\<Sum>v\<leftarrow>[- int r..int r]. f (nat \<bar>v\<bar>)) = f 0 + 2 * (\<Sum>u\<leftarrow>[1..<Suc r]. f u)" for f :: "nat \<Rightarrow> nat"
proof (induction r)
  case (Suc r)
  have "[- int (Suc r)..int (Suc r)] = - int (Suc r) # [- int r..int r] @ [int (Suc r)]"
    by (subst upto_rec1, simp, subst upto_rec2, simp_all)
  moreover have "nat \<bar>- int (Suc r)\<bar> = Suc r" "nat \<bar>int (Suc r)\<bar> = Suc r" by simp_all
  ultimately show ?case using Suc by (simp del: of_nat_Suc)
qed simp

lemma length_suffixes_down:
  "length (suffixes (Suc m) (int r)) = length (suffixes m (int r)) + 2 * (\<Sum>u\<leftarrow>[1..<Suc r]. length (suffixes m (int (r - u))))"
proof -
  have "length (suffixes (Suc m) (int r)) = (\<Sum>v\<leftarrow>[- int r..int r]. length (suffixes m (int (r - nat \<bar>v\<bar>))))"
    by (simp add: length_concat comp_def) (auto simp: of_nat_diff intro!: arg_cong [where f = sum_list] map_cong)
  also have "\<dots> = length (suffixes m (int r)) + 2 * (\<Sum>u\<leftarrow>[1..<Suc r]. length (suffixes m (int (r - u))))"
    by (subst sum_upto_abs [where f = "\<lambda>u. length (suffixes m (int (r - u)))"]) simp
  finally show ?thesis .
qed

lemma length_suffixes: "length (suffixes (Suc m) (int r)) = length (suffixes m (int r)) + 2 * (\<Sum>t<r. length (suffixes m (int t)))"
proof -
  have "(\<Sum>u\<leftarrow>[1..<Suc r]. length (suffixes m (int (r - u)))) = (\<Sum>t<r. length (suffixes m (int t)))"
    unfolding interv_sum_list_conv_sum_set_nat
    by (rule sum.reindex_bij_witness [where i = "\<lambda>t. r - t" and j = "\<lambda>u. r - u"]) auto
  then show ?thesis unfolding length_suffixes_down by simp
qed

text \<open>The closed form, with its first factor written for \<open>j = Suc i\<close> weights that are not zero.\<close>

definition closed_form :: "nat \<Rightarrow> nat \<Rightarrow> nat" where
  "closed_form n q = (\<Sum>i\<le>n. (n choose Suc i) * (q choose i) * 2 ^ Suc i)"

lemma sum_choose_below: "(\<Sum>t<q. t choose i) = q choose Suc i"
  by (induction q) simp_all

lemma closed_form_Suc: "closed_form (Suc n) q = closed_form n q + 2 * (1 + (\<Sum>t<q. closed_form n t))"
proof -
  have "closed_form (Suc n) q = (\<Sum>i\<le>Suc n. (n choose i) * (q choose i) * 2 ^ Suc i) + (\<Sum>i\<le>Suc n. (n choose Suc i) * (q choose i) * 2 ^ Suc i)"
    by (simp add: closed_form_def algebra_simps sum.distrib)
  moreover have "(\<Sum>i\<le>Suc n. (n choose Suc i) * (q choose i) * 2 ^ Suc i) = closed_form n q"
    by (simp add: closed_form_def)
  moreover have "(\<Sum>i\<le>Suc n. (n choose i) * (q choose i) * 2 ^ Suc i) = 2 + (\<Sum>i\<le>n. (n choose Suc i) * (q choose Suc i) * 2 ^ Suc (Suc i))"
    by (subst sum.atMost_Suc_shift) simp
  moreover have "2 * (\<Sum>t<q. closed_form n t) = (\<Sum>i\<le>n. (n choose Suc i) * (q choose Suc i) * 2 ^ Suc (Suc i))"
  proof -
    have "(\<Sum>t<q. closed_form n t) = (\<Sum>i\<le>n. \<Sum>t<q. (n choose Suc i) * (t choose i) * 2 ^ Suc i)"
      unfolding closed_form_def by (rule sum.swap)
    also have "\<dots> = (\<Sum>i\<le>n. (n choose Suc i) * (q choose Suc i) * 2 ^ Suc i)"
      by (simp add: sum_distrib_left [symmetric] sum_distrib_right [symmetric] sum_choose_below)
    finally show ?thesis by (simp add: sum_distrib_left algebra_simps)
  qed
  ultimately show ?thesis by simp
qed

lemma count_suffixes: "length (suffixes m (int (Suc q))) = closed_form (Suc m) q" "length (suffixes m 0) = 1"
proof (induction m arbitrary: q)
  case 0
  { case 1 show ?case by (simp add: closed_form_def) }
  { case 2 show ?case by simp }
next
  case (Suc m)
  { case 1
    have "(\<Sum>t<Suc q. length (suffixes m (int t))) = 1 + (\<Sum>t<q. closed_form (Suc m) t)"
      using Suc.IH by (subst sum.lessThan_Suc_shift) simp
    with Suc.IH(1) [of q] show ?case unfolding length_suffixes by (simp add: closed_form_Suc) }
  { case 2 from length_suffixes [of m 0] Suc.IH(2) show ?case by simp }
qed

lemma binom_choose: "binom (int a) (int b) = int (a choose b)"
proof -
  have "foldl (\<lambda>r i. r * (int a - int i) div (int i + 1)) 1 [0..<b] = int (a choose b)" if "b \<le> a" for b
    using that
  proof (induction b)
    case (Suc b)
    have "(a choose b) * (a - b) = (a choose Suc b) * Suc b"
      using binomial_absorb_comp [of a b] binomial_absorption [of b a] by (simp add: mult.commute)
    then have "int (a choose b) * (int a - int b) = int (a choose Suc b) * (int b + 1)"
      using Suc.prems by (metis Suc_leD of_nat_diff of_nat_mult of_nat_Suc add.commute)
    with Suc show ?case by simp
  qed simp
  then show ?thesis by (simp add: binom_def binomial_eq_0)
qed

lemma lattice_size_closed: "lattice_size n (Suc q) = int (closed_form n q)"
proof -
  have "lattice_size n (Suc q) = (\<Sum>j\<leftarrow>[1..<Suc (min n (Suc q))]. int ((n choose j) * (q choose (j - 1)) * 2 ^ j))"
  proof -
    have "binom (int (Suc q) - 1) (int j - 1) = int (q choose (j - 1))" if "1 \<le> j" for j
      using that binom_choose [of q "j - 1"] by (simp add: of_nat_diff)
    then have "map (\<lambda>j. binom (int n) (int j) * binom (int (Suc q) - 1) (int j - 1) * 2 ^ j) [1..<Suc (min n (Suc q))]
      = map (\<lambda>j. int ((n choose j) * (q choose (j - 1)) * 2 ^ j)) [1..<Suc (min n (Suc q))]"
      by (intro map_cong refl) (simp add: binom_choose del: upt_Suc)
    then show ?thesis unfolding lattice_size_def foldl_plus by (simp only: add_0)
  qed
  also have "\<dots> = int (\<Sum>j\<in>{1..<Suc (min n (Suc q))}. (n choose j) * (q choose (j - 1)) * 2 ^ j)"
    by (subst interv_sum_list_conv_sum_set_nat) (simp only: of_nat_sum set_upt)
  also have "(\<Sum>j\<in>{1..<Suc (min n (Suc q))}. (n choose j) * (q choose (j - 1)) * 2 ^ j)
    = (\<Sum>i<min n (Suc q). (n choose Suc i) * (q choose i) * 2 ^ Suc i)"
    by (rule sum.reindex_bij_witness [where i = Suc and j = "\<lambda>j. j - 1"]) auto
  also have "\<dots> = closed_form n q"
    unfolding closed_form_def by (rule sum.mono_neutral_left) (auto simp: binomial_eq_0)
  finally show ?thesis .
qed

section \<open>Row numbers\<close>

lemma ways_row_nth:
  assumes "r \<le> M" "\<And>t. t \<le> r \<Longrightarrow> nxt ! t = length (suffixes m (int t))"
  shows "ways_row M nxt ! r = length (suffixes (Suc m) (int r))"
proof -
  have "ways_row M nxt ! r = nxt ! r + (\<Sum>u\<leftarrow>[1..<Suc r]. 2 * nxt ! (r - u))"
    using assms(1) by (simp add: ways_row_def foldl_plus nth_append del: upt_Suc)
  also have "map (\<lambda>u. 2 * nxt ! (r - u)) [1..<Suc r] = map (\<lambda>u. 2 * length (suffixes m (int (r - u)))) [1..<Suc r]"
    using assms(2) by (intro map_cong refl) simp
  finally show ?thesis unfolding length_suffixes_down using assms(2) [of r] by (simp add: sum_list_const_mult del: upt_Suc)
qed

lemma ways_head: "r \<le> M \<Longrightarrow> hd (ways_rows M m) ! r = length (suffixes m (int r))"
proof (induction m arbitrary: r)
  case (Suc m)
  have "ways_row M (hd (ways_rows M m)) ! r = length (suffixes (Suc m) (int r))"
    using Suc by (intro ways_row_nth) simp_all
  then show ?case by simp
qed (auto simp: nth_append)

lemma length_ways_rows [simp]: "length (ways_rows M m) = Suc m"
  by (induction m) simp_all

lemma ways_rows_nth: "j \<le> m \<Longrightarrow> ways_rows M m ! j = hd (ways_rows M (m - j))"
proof (induction m arbitrary: j)
  case (Suc m)
  then show ?case by (cases j) simp_all
qed simp

lemma n_ways_nth:
  assumes "i < n" "r \<le> M"
  shows "n_ways n M ! i ! r = length (suffixes (n - Suc i) (int r))"
  using assms by (simp add: n_ways_def ways_rows_nth ways_head)

text \<open>The place of a vector among those with its prefix.\<close>

fun place :: "nat \<Rightarrow> int \<Rightarrow> int list \<Rightarrow> nat" where
  "place 0 rem s = (if rem > 0 \<and> hd s < 0 then 1 else 0)"
| "place (Suc m) rem s =
     (\<Sum>v\<leftarrow>[- rem..hd s - 1]. length (suffixes m (rem - \<bar>v\<bar>))) + place m (rem - \<bar>hd s\<bar>) (tl s)"

lemma on_lattice_Cons: "on_lattice (Suc n) r (x # s) \<longleftrightarrow> \<bar>x\<bar> \<le> r \<and> on_lattice n (r - \<bar>x\<bar>) s"
  using abs_sum_nonneg [of s] by (auto simp: on_lattice_def)

lemma nth_concat_blocks:
  assumes "i < length (f x)"
  shows "concat (map f (as @ x # bs)) ! ((\<Sum>a\<leftarrow>as. length (f a)) + i) = f x ! i"
    "(\<Sum>a\<leftarrow>as. length (f a)) + i < length (concat (map f (as @ x # bs)))"
  using assms by (simp_all add: nth_append length_concat comp_def)

lemma place_nth: "on_lattice (Suc m) rem s \<Longrightarrow> place m rem s < length (suffixes m rem) \<and> suffixes m rem ! place m rem s = s"
proof (induction m arbitrary: rem s)
  case 0
  then show ?case by (auto simp: on_lattice_def length_Suc_conv)
next
  case (Suc m)
  then obtain x t where s: "s = x # t" by (cases s) (simp_all add: on_lattice_def)
  with Suc.prems have x: "\<bar>x\<bar> \<le> rem" "on_lattice (Suc m) (rem - \<bar>x\<bar>) t" by (simp_all add: on_lattice_Cons)
  from x(1) have u: "[- rem..rem] = [- rem..x - 1] @ x # [x + 1..rem]"
    using upto_split1 [of "- rem" x rem] upto_rec1 [of x rem] by simp
  let ?f = "\<lambda>v. map ((#) v) (suffixes m (rem - \<bar>v\<bar>))"
  have "place (Suc m) rem s = (\<Sum>v\<leftarrow>[- rem..x - 1]. length (?f v)) + place m (rem - \<bar>x\<bar>) t" by (simp add: s)
  with nth_concat_blocks [of "place m (rem - \<bar>x\<bar>) t" ?f x "[- rem..x - 1]" "[x + 1..rem]"] Suc.IH [OF x(2)]
  show ?case unfolding suffixes.simps u s by simp
qed

lemma index_loop:
  assumes "length k = n" "i + Suc m = n" "on_lattice (Suc m) (int r) (drop i k)" "r \<le> M"
  shows "bind_ok (fold_ok (index_step (n_ways n M) k) (idx, int r) [i..<n - 1]) (\<lambda>(idx, rem).
       if \<bar>k ! (n - 1)\<bar> \<noteq> rem then Fail NotOnLattice
       else Ok (if rem > 0 \<and> k ! (n - 1) < 0 then idx + 1 else idx)) = Ok (idx + place m (int r) (drop i k))"
  using assms
proof (induction m arbitrary: i r idx)
  case 0
  then have i: "i = n - 1" "i < length k" by simp_all
  with 0 have "drop i k = [k ! (n - 1)]" by (simp flip: Cons_nth_drop_Suc)
  with 0 i show ?case by (auto simp: on_lattice_def)
next
  case (Suc m)
  have d: "drop i k = k ! i # drop (Suc i) k" using Suc.prems by (simp add: Cons_nth_drop_Suc)
  with Suc.prems have x: "\<bar>k ! i\<bar> \<le> int r" "on_lattice (Suc m) (int r - \<bar>k ! i\<bar>) (drop (Suc i) k)" by (simp_all add: on_lattice_Cons)
  have w: "n_ways n M ! Suc i ! nat (int r - \<bar>v\<bar>) = length (suffixes m (int r - \<bar>v\<bar>))" if "v \<in> set [- int r..k ! i - 1]" for v
  proof -
    have "n_ways n M ! Suc i ! nat (int r - \<bar>v\<bar>) = length (suffixes (n - Suc (Suc i)) (int (nat (int r - \<bar>v\<bar>))))"
      using Suc.prems x(1) that by (intro n_ways_nth) auto
    moreover have "n - Suc (Suc i) = m" using Suc.prems(2) by simp
    moreover have "\<bar>v\<bar> \<le> int r" using that x(1) by auto
    ultimately show ?thesis by simp
  qed
  have "index_step (n_ways n M) k (idx, int r) i
    = Ok (idx + (\<Sum>v\<leftarrow>[- int r..k ! i - 1]. length (suffixes m (int r - \<bar>v\<bar>))), int (nat (int r - \<bar>k ! i\<bar>)))"
  proof -
    have "(\<Sum>v\<leftarrow>[- int r..k ! i - 1]. n_ways n M ! Suc i ! nat (int r - \<bar>v\<bar>)) = (\<Sum>v\<leftarrow>[- int r..k ! i - 1]. length (suffixes m (int r - \<bar>v\<bar>)))"
      by (intro arg_cong [where f = sum_list] map_cong refl w)
    with x(1) show ?thesis by (simp add: index_step_def foldl_plus)
  qed
  moreover have "[i..<n - 1] = i # [Suc i..<n - 1]" using Suc.prems(2) by (simp add: upt_conv_Cons)
  moreover note Suc.IH [of "Suc i" "nat (int r - \<bar>k ! i\<bar>)"]
  ultimately show ?case using Suc.prems x by (simp add: d)
qed

lemma lattice_index_place:
  assumes "0 < n" "on_lattice n (int M) k"
  shows "lattice_index n M k = Ok (place (n - 1) (int M) k)"
  using index_loop [of k n 0 "n - 1" M M 0] assms unfolding lattice_index_def by (simp add: on_lattice_def)

lemma build_lattice_suffixes:
  assumes "0 < n" "0 < M"
  shows "build_lattice n M = Ok (suffixes (n - 1) (int M))"
proof -
  have "lattice_rec n (replicate n 0) 0 (int M) = suffixes (n - 1) (int M)"
    using assms by (simp add: lattice_rec_suffixes)
  moreover have "int (length (suffixes (n - 1) (int M))) = lattice_size n M"
    using assms count_suffixes(1) [of "n - 1" "M - 1"] lattice_size_closed [of n "M - 1"] by simp
  ultimately show ?thesis by (simp add: build_lattice_def)
qed

section \<open>Neighbours\<close>

text \<open>Two vectors that differ by one unit in exactly two coordinates.\<close>

definition one_hop :: "int list \<Rightarrow> int list \<Rightarrow> bool" where
  "one_hop k l \<longleftrightarrow> length l = length k \<and> (\<exists>i<length k. \<exists>j<length k. i \<noteq> j \<and> \<bar>l ! i - k ! i\<bar> = 1 \<and> \<bar>l ! j - k ! j\<bar> = 1 \<and>
     (\<forall>m<length k. m \<noteq> i \<and> m \<noteq> j \<longrightarrow> l ! m = k ! m))"

lemma away_iff: "x \<in> set (away y) \<longleftrightarrow> \<bar>x\<bar> = \<bar>y\<bar> + 1 \<and> \<bar>x - y\<bar> = 1"
  by (auto simp: away_def)

lemma toward_abs: "y \<noteq> 0 \<Longrightarrow> \<bar>toward y\<bar> = \<bar>y\<bar> - 1 \<and> \<bar>toward y - y\<bar> = 1"
  by (auto simp: toward_def)

lemma toward_unique: "\<bar>x\<bar> < \<bar>y\<bar> \<Longrightarrow> \<bar>x - y\<bar> = 1 \<Longrightarrow> y \<noteq> 0 \<and> x = toward y"
  by (auto simp: toward_def split: if_splits)

lemma sum_abs_update: "i < length k \<Longrightarrow> (\<Sum>x\<leftarrow>k[i := v]. \<bar>x\<bar>) = (\<Sum>x\<leftarrow>k. \<bar>x\<bar>) - \<bar>k ! i\<bar> + \<bar>v :: int\<bar>"
  by (induction k arbitrary: i) (auto split: nat.splits)

lemma neighbours_iff:
  "l \<in> set (neighbours n k) \<longleftrightarrow>
     (\<exists>i<n. \<exists>j<n. i \<noteq> j \<and> k ! i \<noteq> 0 \<and> (\<exists>x\<in>set (away (k ! j)). l = (k[i := toward (k ! i)])[j := x]))"
proof -
  have if_set: "l \<in> set (if b then [] else ys) \<longleftrightarrow> \<not> b \<and> l \<in> set ys" for b ys by simp
  have blocks: "l \<in> set (concat (map f [0..<n])) \<longleftrightarrow> (\<exists>i<n. l \<in> set (f i))" for f by auto
  show ?thesis unfolding neighbours_def blocks if_set set_map image_iff by blast
qed

lemma neighbours_are_hops:
  assumes "on_lattice n r k"
  shows "l \<in> set (neighbours n k) \<longleftrightarrow> on_lattice n r l \<and> one_hop k l"
proof
  have n: "length k = n" and r: "(\<Sum>x\<leftarrow>k. \<bar>x\<bar>) = r" using assms by (simp_all add: on_lattice_def)
  { assume "l \<in> set (neighbours n k)"
    then obtain i j x where l: "i < n" "j < n" "i \<noteq> j" "k ! i \<noteq> 0" "x \<in> set (away (k ! j))" "l = (k[i := toward (k ! i)])[j := x]"
      by (auto simp: neighbours_iff)
    then have "(\<Sum>x\<leftarrow>l. \<bar>x\<bar>) = r"
      using n r toward_abs [of "k ! i"] by (simp add: sum_abs_update away_iff)
    moreover have "one_hop k l"
      unfolding one_hop_def using l n toward_abs [of "k ! i"] by (intro conjI exI [of _ i] exI [of _ j]) (auto simp: away_iff)
    ultimately show "on_lattice n r l \<and> one_hop k l" using l(6) n by (simp add: on_lattice_def) }
  assume hop: "on_lattice n r l \<and> one_hop k l"
  then obtain i j where ij: "i < n" "j < n" "i \<noteq> j" "\<bar>l ! i - k ! i\<bar> = 1" "\<bar>l ! j - k ! j\<bar> = 1"
    "\<forall>m<n. m \<noteq> i \<and> m \<noteq> j \<longrightarrow> l ! m = k ! m" using n by (auto simp: one_hop_def)
  have l: "l = (k[i := l ! i])[j := l ! j]"
    using hop n ij by (intro nth_equalityI) (auto simp: on_lattice_def nth_list_update)
  then have "(\<Sum>x\<leftarrow>l. \<bar>x\<bar>) = r - \<bar>k ! i\<bar> + \<bar>l ! i\<bar> - \<bar>k ! j\<bar> + \<bar>l ! j\<bar>"
    using n r ij(1-3) by (metis length_list_update nth_list_update_neq sum_abs_update)
  with hop have e: "\<bar>l ! i\<bar> + \<bar>l ! j\<bar> = \<bar>k ! i\<bar> + \<bar>k ! j\<bar>" by (simp add: on_lattice_def)
  show "l \<in> set (neighbours n k)"
  proof (cases "\<bar>l ! i\<bar> < \<bar>k ! i\<bar>")
    case True
    with toward_unique ij(4) have "k ! i \<noteq> 0" "l ! i = toward (k ! i)" by auto
    moreover have "l ! j \<in> set (away (k ! j))" using True e ij(4,5) by (auto simp: away_iff abs_if split: if_splits)
    ultimately show ?thesis unfolding neighbours_iff using ij(1-3) l by metis
  next
    case False
    have "\<bar>l ! i\<bar> \<noteq> \<bar>k ! i\<bar>" using ij(4) by auto
    with False have f: "\<bar>k ! i\<bar> < \<bar>l ! i\<bar>" by simp
    with e toward_unique [of "l ! j" "k ! j"] ij(5) have "k ! j \<noteq> 0" "l ! j = toward (k ! j)" by auto
    moreover have "l ! i \<in> set (away (k ! i))" using f ij(4) by (auto simp: away_iff)
    moreover have "l = (k[j := l ! j])[i := l ! i]" using l ij(3) by (metis list_update_swap)
    ultimately show ?thesis unfolding neighbours_iff using ij(1-3) by metis
  qed
qed

lemma distinct_blocks:
  assumes "distinct xs" "\<And>x. x \<in> set xs \<Longrightarrow> distinct (f x)"
    "\<And>x y. x \<in> set xs \<Longrightarrow> y \<in> set xs \<Longrightarrow> x \<noteq> y \<Longrightarrow> set (f x) \<inter> set (f y) = {}"
  shows "distinct (concat (map f xs))"
  using assms
proof (induction xs)
  case (Cons a xs)
  have "set (f a) \<inter> set (f y) = {}" if "y \<in> set xs" for y
    using Cons.prems(1) that by (intro Cons.prems(3)) auto
  moreover have "distinct (concat (map f xs))" using Cons.prems by (intro Cons.IH) auto
  ultimately show ?case using Cons.prems(2) [of a] by auto
qed simp

lemma neighbour_coordinates:
  assumes "i < length k" "j < length k" "i \<noteq> j" "k ! i \<noteq> 0" "x \<in> set (away (k ! j))" "m < length k"
  shows "\<bar>(k[i := toward (k ! i)])[j := x] ! m\<bar> < \<bar>k ! m\<bar> \<longleftrightarrow> m = i" "\<bar>k ! m\<bar> < \<bar>(k[i := toward (k ! i)])[j := x] ! m\<bar> \<longleftrightarrow> m = j"
  using assms toward_abs [of "k ! i"] by (auto simp: nth_list_update away_iff)

lemma away_distinct: "distinct (away y)"
  by (simp add: away_def)

lemma neighbours_distinct:
  assumes "length k = n"
  shows "distinct (neighbours n k)"
  unfolding neighbours_def
proof (intro distinct_blocks)
  let ?v = "\<lambda>i j x. (k[i := toward (k ! i)])[j := x]"
  have inj: "inj_on (?v i j) X" if "j < n" for i j X
    using assms that by (intro inj_onI) (metis length_list_update nth_list_update_eq)
  fix i assume i: "i \<in> set [0..<n]"
  show "distinct (if k ! i = 0 then [] else concat (map (\<lambda>j. if j = i then [] else map (?v i j) (away (k ! j))) [0..<n]))"
  proof (cases "k ! i = 0")
    case False
    have "distinct (concat (map (\<lambda>j. if j = i then [] else map (?v i j) (away (k ! j))) [0..<n]))"
    proof (intro distinct_blocks)
      fix j assume j: "j \<in> set [0..<n]"
      then show "distinct (if j = i then [] else map (?v i j) (away (k ! j)))" by (simp add: distinct_map away_distinct inj)
      fix l assume l: "l \<in> set [0..<n]" "j \<noteq> l"
      have "?v i j x \<noteq> ?v i l y" if "j \<noteq> i" "l \<noteq> i" "x \<in> set (away (k ! j))" "y \<in> set (away (k ! l))" for x y
      proof -
        have "\<bar>k ! j\<bar> < \<bar>?v i j x ! j\<bar>" using neighbour_coordinates(2) [of i k j x j] that i j False assms by (simp del: nth_list_update_eq)
        moreover have "\<not> \<bar>k ! j\<bar> < \<bar>?v i l y ! j\<bar>" using neighbour_coordinates(2) [of i k l y j] that i j l False assms by (simp del: nth_list_update_neq)
        ultimately show ?thesis by metis
      qed
      then show "set (if j = i then [] else map (?v i j) (away (k ! j))) \<inter> set (if l = i then [] else map (?v i l) (away (k ! l))) = {}"
        by auto
    qed simp
    with False show ?thesis by simp
  qed simp
  fix l assume l: "l \<in> set [0..<n]" "i \<noteq> l"
  have "?v i j x \<noteq> ?v l m y" if "k ! i \<noteq> 0" "k ! l \<noteq> 0" "j \<noteq> i" "m \<noteq> l" "j < n" "m < n" "x \<in> set (away (k ! j))" "y \<in> set (away (k ! m))" for j m x y
  proof -
    have "\<bar>?v i j x ! i\<bar> < \<bar>k ! i\<bar>" using neighbour_coordinates(1) [of i k j x i] that i assms by (simp del: nth_list_update_neq nth_list_update_eq)
    moreover have "\<not> \<bar>?v l m y ! i\<bar> < \<bar>k ! i\<bar>" using neighbour_coordinates(1) [of l k m y i] that i l assms by (simp del: nth_list_update_neq nth_list_update_eq)
    ultimately show ?thesis by metis
  qed
  then show "set (if k ! i = 0 then [] else concat (map (\<lambda>j. if j = i then [] else map (?v i j) (away (k ! j))) [0..<n])) \<inter>
      set (if k ! l = 0 then [] else concat (map (\<lambda>j. if j = l then [] else map (?v l j) (away (k ! j))) [0..<n])) = {}"
    by (auto split: if_splits)
qed simp

lemma lattice_rows:
  assumes "0 < n" "0 < M" "build_lattice n M = Ok ks"
  shows "distinct ks" "k \<in> set ks \<longleftrightarrow> on_lattice n (int M) k" "r < length ks \<Longrightarrow> lattice_index n M (ks ! r) = Ok r"
    "on_lattice n (int M) k \<Longrightarrow> \<exists>r<length ks. lattice_index n M k = Ok r \<and> ks ! r = k"
proof -
  have ks: "ks = suffixes (n - 1) (int M)" using assms by (simp add: build_lattice_suffixes)
  show d: "distinct ks" by (simp add: ks suffixes_distinct)
  have mem: "k \<in> set ks \<longleftrightarrow> on_lattice n (int M) k" for k using assms(1) by (simp add: ks suffixes_set)
  then show "k \<in> set ks \<longleftrightarrow> on_lattice n (int M) k" .
  have place: "lattice_index n M k = Ok (place (n - 1) (int M) k) \<and> place (n - 1) (int M) k < length ks \<and> ks ! place (n - 1) (int M) k = k"
    if "on_lattice n (int M) k" for k
    using lattice_index_place [OF assms(1) that] place_nth [of "n - 1" "int M" k] that assms(1) by (simp add: ks)
  then show "on_lattice n (int M) k \<Longrightarrow> \<exists>r<length ks. lattice_index n M k = Ok r \<and> ks ! r = k" by blast
  assume r: "r < length ks"
  with place [of "ks ! r"] mem d show "lattice_index n M (ks ! r) = Ok r" by (metis nth_eq_iff_index_eq nth_mem)
qed

lemma hop_rows:
  assumes "2 \<le> n" "0 < M" "build_lattice n M = Ok ks" "k \<in> set ks"
  shows "\<exists>rows. neighbour_rows n M k = Ok rows \<and> rows \<noteq> [] \<and> distinct rows \<and> (\<forall>r\<in>set rows. r < length ks) \<and>
    (\<lambda>r. ks ! r) ` set rows = {l \<in> set ks. one_hop k l}"
proof -
  have n: "0 < n" using assms(1) by simp
  note L = lattice_rows [OF n assms(2,3)]
  have k: "on_lattice n (int M) k" using assms(4) L(2) by simp
  have nb: "l \<in> set (neighbours n k) \<longleftrightarrow> l \<in> set ks \<and> one_hop k l" for l using neighbours_are_hops [OF k] L(2) by simp
  then have "\<exists>r. lattice_index n M l = Ok r" if "l \<in> set (neighbours n k)" for l using that L(2) L(4) by metis
  then obtain rows where rows: "map_ok (lattice_index n M) (neighbours n k) = Ok rows"
    using map_ok_total [of "neighbours n k" "lattice_index n M"] by blast
  have at: "rows ! i < length ks \<and> ks ! (rows ! i) = neighbours n k ! i" if "i < length (neighbours n k)" for i
  proof -
    from nb that have "on_lattice n (int M) (neighbours n k ! i)" using L(2) nth_mem by blast
    from L(4) [OF this] map_ok_nth [OF rows that] show ?thesis by auto
  qed
  have m: "map ((!) ks) rows = neighbours n k"
    using at map_ok_length [OF rows] by (intro nth_equalityI) simp_all
  then have "distinct rows" using neighbours_distinct [of k n] k by (metis distinct_map on_lattice_def)
  moreover have "\<forall>r\<in>set rows. r < length ks" using at map_ok_length [OF rows] by (metis in_set_conv_nth)
  moreover have "(\<lambda>r. ks ! r) ` set rows = {l \<in> set ks. one_hop k l}" using arg_cong [OF m, of set] nb by auto
  moreover have "rows \<noteq> []"
  proof -
    have "\<exists>i<n. k ! i \<noteq> 0"
    proof (rule ccontr)
      assume "\<not> ?thesis"
      then have "k = replicate n 0" using k by (intro nth_equalityI) (auto simp: on_lattice_def)
      then show False using k assms(2) by (simp add: on_lattice_def sum_list_replicate)
    qed
    then obtain i where i: "i < n" "k ! i \<noteq> 0" by blast
    obtain j where j: "j < n" "j \<noteq> i" using assms(1) i(1) by (cases "i = 0") (auto intro: that [of 0] that [of 1])
    have "away (k ! j) \<noteq> []" by (simp add: away_def)
    then obtain x where "x \<in> set (away (k ! j))" by (meson list.set_sel(1))
    with i j have "neighbours n k \<noteq> []" using neighbours_iff [of "(k[i := toward (k ! i)])[j := x]" n k] by (metis empty_iff empty_set)
    then show ?thesis using m by auto
  qed
  ultimately show ?thesis using rows by (auto simp: neighbour_rows_def)
qed

section \<open>Properties\<close>

text \<open>C36. The enumeration of the weights and their row numbers. \<open>build_lattice\<close> passes its assertion on the closed form of the size, gives
  every integer vector whose absolute values add up to \<open>M\<close> exactly once, the table of counts gives their number, and the row number
  that is computed from a vector without looking it up is the row where the enumeration put it.\<close>

theorem lattice_numbered:
  assumes "0 < n" "0 < M"
  shows "\<exists>ks. build_lattice n M = Ok ks \<and> distinct ks \<and> set ks = {k. on_lattice n (int M) k} \<and> lattice_total n M = length ks \<and>
    (\<forall>r<length ks. lattice_index n M (ks ! r) = Ok r)"
proof -
  let ?ks = "suffixes (n - 1) (int M)"
  have b: "build_lattice n M = Ok ?ks" by (rule build_lattice_suffixes [OF assms])
  moreover have "lattice_total n M = length ?ks" using assms n_ways_nth [of 0 n M M] by (simp add: lattice_total_def)
  ultimately show ?thesis using lattice_rows [OF assms b] by blast
qed

lemma lattice_numbered_witness:
  "(case build_lattice 2 2 of Ok ks \<Rightarrow> ks = [[- 2, 0], [- 1, 1], [- 1, - 1], [0, 2], [0, - 2], [1, 1], [1, - 1], [2, 0]] | Fail _ \<Rightarrow> False) \<and>
   distinct [[- 2, 0], [- 1, 1], [- 1, - 1], [0, 2], [0, - 2], [1, 1], [1, - 1], [2, 0 :: int]]"
proof -
  from lattice_numbered [of 2 2] obtain ks where "build_lattice 2 2 = Ok ks" "distinct ks" by auto
  moreover have "build_lattice 2 2 = Ok [[- 2, 0], [- 1, 1], [- 1, - 1], [0, 2], [0, - 2], [1, 1], [1, - 1], [2, 0]]" by code_simp
  ultimately show ?thesis by simp
qed

text \<open>C37. The neighbours of a point of the lattice. The rows that the callback gets are, each once, those of all points of the lattice that
  differ from it by one unit in exactly two coordinates; none is outside of the table, no assertion fails, and with two factors or
  more there is always one.\<close>

theorem neighbours_complete:
  assumes "2 \<le> n" "0 < M" "build_lattice n M = Ok ks" "k \<in> set ks"
  shows "\<exists>rows. neighbour_rows n M k = Ok rows \<and> rows \<noteq> [] \<and> distinct rows \<and> (\<forall>r\<in>set rows. r < length ks) \<and>
    (\<lambda>r. ks ! r) ` set rows = {l \<in> set ks. one_hop k l}"
  by (rule hop_rows [OF assms])

lemma neighbours_complete_witness:
  "\<exists>rows. neighbour_rows 2 2 [0, 2] = Ok rows \<and> rows \<noteq> [] \<and> distinct rows"
proof -
  have b: "build_lattice 2 2 = Ok [[- 2, 0], [- 1, 1], [- 1, - 1], [0, 2], [0, - 2], [1, 1], [1, - 1], [2, 0]]" by code_simp
  from neighbours_complete [OF _ _ b, of "[0, 2]"] show ?thesis by auto
qed

end
