(* ===== verification/Pools.thy ===== *)
theory Pools
  imports Backtest Lattice
begin

text \<open>
  The store that the weight search works on (\<open>cpp/src/mine/mine.cpp\<close>, \<open>PrStore\<close> and \<open>build_pr\<close>): for every day of the window the
  members of the pool, their percentiles within the pool in every factor, and their returns on the next day, in flat vectors
  with one vector of offsets; then the same without the members that have no return. The worker threads take the days from a
  counter and each writes only the range of its day, so the passes are folds over the days in the order in which they end
  (\<open>ord2\<close> and \<open>ord3\<close>), and the first theorem is that this order does not matter.
\<close>

datatype mine_error = EmptyPool | PoolScansDiffer | MineFactorNotFinite | CloseNotPositive | ValidScansDiffer
  | PlanFull | PlanEmpty | FactorNotMined | KeepTooMany | MarginTie | BatchEngine engine_error | PoolBelowHold
  | TooFewBins | WindowTooShort | TooFewWindows | BelowBins | BinMassLost | LayerNavNotPositive | SpreadEndless | NoNeighbour | NeighbourOutside | LatticeError lattice_error
  | RecheckDiffers | NoTarget | StartOutside | WindowDiffers | RefNotPositive | SelfCheck | LatticeIndexDiffers | MarketError engine_error | StatsError metric_error

section \<open>The store\<close>

record pr_store =
  sr_n_d :: nat
  sr_max_cnt :: nat
  sr_off :: "nat list"
  sr_memb :: "nat list"
  sr_pr :: "fval list"
  sr_fret :: "fval list"
  sr_voff :: "nat list"
  sr_vpr :: "fval list"
  sr_vfret :: "fval list"

definition cnt :: "pr_store \<Rightarrow> nat \<Rightarrow> nat" where
  "cnt st i = sr_off st ! Suc i - sr_off st ! i"

definition day_members :: "pr_store \<Rightarrow> nat \<Rightarrow> nat list" where
  "day_members st i = substr (sr_memb st) (sr_off st ! i) (cnt st i)"

definition block :: "nat \<Rightarrow> pr_store \<Rightarrow> nat \<Rightarrow> fval list" where
  "block nf st i = substr (sr_pr st) (sr_off st ! i * nf) (cnt st i * nf)"

definition fret_row :: "pr_store \<Rightarrow> nat \<Rightarrow> fval list" where
  "fret_row st i = substr (sr_fret st) (sr_off st ! i) (cnt st i)"

definition vcnt :: "pr_store \<Rightarrow> nat \<Rightarrow> nat" where
  "vcnt st i = sr_voff st ! Suc i - sr_voff st ! i"

definition vblock :: "nat \<Rightarrow> pr_store \<Rightarrow> nat \<Rightarrow> fval list" where
  "vblock nf st i = substr (sr_vpr st) (sr_voff st ! i * nf) (vcnt st i * nf)"

definition vfret_row :: "pr_store \<Rightarrow> nat \<Rightarrow> fval list" where
  "vfret_row st i = substr (sr_vfret st) (sr_voff st ! i) (vcnt st i)"

text \<open>Column \<open>f\<close> of a block of \<open>n\<close> members.\<close>

definition column :: "fval list \<Rightarrow> nat \<Rightarrow> nat \<Rightarrow> fval list" where
  "column blk n f = substr blk (f * n) n"

text \<open>Writing a range of a vector.\<close>

definition put_at :: "nat \<Rightarrow> 'a list \<Rightarrow> 'a list \<Rightarrow> 'a list" where
  "put_at p ys xs = take p xs @ ys @ drop (p + length ys) xs"

section \<open>The passes\<close>

text \<open>Pass 1 counts the members of every day and adds the counts up.\<close>

definition pool_row :: "axes \<Rightarrow> tensor \<Rightarrow> nat \<Rightarrow> nat \<Rightarrow> nat list" where
  "pool_row ax T s d = filter (\<lambda>a. flag (strat_gather_cs_row ax T (slot s SF_pool) d ! a)) [0..<n_a ax]"

definition pool_counts :: "axes \<Rightarrow> tensor \<Rightarrow> nat \<Rightarrow> nat \<Rightarrow> nat \<Rightarrow> nat list" where
  "pool_counts ax T s d_lo n = map (\<lambda>i. length (pool_row ax T s (d_lo + i))) [0..<n]"

definition pool_offsets :: "nat list \<Rightarrow> (mine_error, nat list \<times> nat) outcome" where
  "pool_offsets counts =
     fold_ok (\<lambda>(off, mx) c. if \<not> c > 0 then Fail EmptyPool else Ok (off @ [last off + c], max mx c)) ([0], 0) counts"

text \<open>Pass 2 writes the members of a day, their percentiles factor by factor, and their returns.\<close>

definition factor_ranks :: "arith \<Rightarrow> axes \<Rightarrow> tensor \<Rightarrow> nat \<Rightarrow> nat list \<Rightarrow> node \<Rightarrow> (mine_error, fval list) outcome" where
  "factor_ranks ar ax T d mem f =
     (let v = map (\<lambda>a. gather_cs_row ax T f d ! a) mem in
      if \<not> list_all is_finite v then Fail MineFactorNotFinite else Ok (pct_rank ar v))"

definition next_return :: "arith \<Rightarrow> market_window \<Rightarrow> nat \<Rightarrow> nat \<Rightarrow> (mine_error, fval) outcome" where
  "next_return ar mk i a =
     (let c0 = close_at mk i a; c1 = close_at mk (Suc i) a in
      if \<not> has_flag (flags_at mk i a) SUSP \<and> is_finite c0 \<and> is_finite c1
      then if \<not> fless (Fin 0) c0 then Fail CloseNotPositive else Ok (fsub (single ar) (fdiv (single ar) c1 c0) (Fin 1))
      else Ok NaN)"

definition member_returns :: "arith \<Rightarrow> market_window \<Rightarrow> nat \<Rightarrow> nat \<Rightarrow> nat list \<Rightarrow> (mine_error, fval list) outcome" where
  "member_returns ar mk n i mem = (if Suc i < n then map_ok (next_return ar mk i) mem else Ok (map (\<lambda>_. NaN) mem))"

definition fill_day ::
  "arith \<Rightarrow> axes \<Rightarrow> tensor \<Rightarrow> market_window \<Rightarrow> nat \<Rightarrow> node list \<Rightarrow> nat \<Rightarrow> pr_store \<Rightarrow> nat \<Rightarrow> (mine_error, pr_store) outcome" where
  "fill_day ar ax T mk s fs d_lo st i =
     (let d = d_lo + i; mem = pool_row ax T s d; p = sr_off st ! i in
      if length mem \<noteq> cnt st i then Fail PoolScansDiffer
      else bind_ok (map_ok (factor_ranks ar ax T d mem) fs) (\<lambda>rows.
        bind_ok (member_returns ar mk (sr_n_d st) i mem) (\<lambda>fr.
          Ok (st\<lparr>sr_memb := put_at p mem (sr_memb st), sr_pr := put_at (p * length fs) (concat rows) (sr_pr st),
                 sr_fret := put_at p fr (sr_fret st)\<rparr>))))"

text \<open>Pass 3 keeps the members with a return.\<close>

definition valid_idx :: "pr_store \<Rightarrow> nat \<Rightarrow> nat list" where
  "valid_idx st i = filter (\<lambda>q. is_finite (fret_row st i ! q)) [0..<cnt st i]"

definition valid_offsets :: "pr_store \<Rightarrow> nat list" where
  "valid_offsets st = foldl (\<lambda>off i. off @ [last off + length (valid_idx st i)]) [0] [0..<sr_n_d st]"

definition fill_valid :: "nat \<Rightarrow> pr_store \<Rightarrow> nat \<Rightarrow> (mine_error, pr_store) outcome" where
  "fill_valid nf st i =
     (let idx = valid_idx st i; p = sr_voff st ! i in
      if length idx \<noteq> vcnt st i then Fail ValidScansDiffer
      else Ok (st\<lparr>sr_vpr := put_at (p * nf) (concat (map (\<lambda>f. map (\<lambda>j. column (block nf st i) (cnt st i) f ! j) idx) [0..<nf])) (sr_vpr st),
                  sr_vfret := put_at p (map (\<lambda>j. fret_row st i ! j) idx) (sr_vfret st)\<rparr>))"

definition build_pr ::
  "arith \<Rightarrow> nat list \<Rightarrow> nat list \<Rightarrow> axes \<Rightarrow> tensor \<Rightarrow> market_window \<Rightarrow> nat \<Rightarrow> node list \<Rightarrow> nat \<Rightarrow> nat \<Rightarrow> (mine_error, pr_store) outcome" where
  "build_pr ar ord2 ord3 ax T mk s fs d_lo n =
     bind_ok (pool_offsets (pool_counts ax T s d_lo n)) (\<lambda>(off, mx).
       let z = (\<lambda>k. replicate k (Fin 0));
           st = \<lparr>sr_n_d = n, sr_max_cnt = mx, sr_off = off, sr_memb = replicate (last off) 0, sr_pr = z (last off * length fs),
                 sr_fret = z (last off), sr_voff = [], sr_vpr = [], sr_vfret = []\<rparr>
       in bind_ok (fold_ok (fill_day ar ax T mk s fs d_lo) st ord2) (\<lambda>st.
         let voff = valid_offsets st
         in fold_ok (fill_valid (length fs))
              (st\<lparr>sr_voff := voff, sr_vpr := z (last voff * length fs), sr_vfret := z (last voff)\<rparr>) ord3))"

section \<open>Ranges of a vector\<close>

lemma substr_put_same: "p + length ys \<le> length xs \<Longrightarrow> substr (put_at p ys xs) p (length ys) = ys"
  by (simp add: substr_def put_at_def)

lemma length_put_at [simp]: "p + length ys \<le> length xs \<Longrightarrow> length (put_at p ys xs) = length xs"
  by (simp add: put_at_def)

lemma nth_put_at: "p + length ys \<le> length xs \<Longrightarrow> k < length xs \<Longrightarrow> put_at p ys xs ! k = (if p \<le> k \<and> k < p + length ys then ys ! (k - p) else xs ! k)"
  by (auto simp: put_at_def nth_append min_def)

lemma length_substr: "p + n \<le> length xs \<Longrightarrow> length (substr xs p n) = n"
  by (simp add: substr_def)

lemma nth_substr: "p + n \<le> length xs \<Longrightarrow> k < n \<Longrightarrow> substr xs p n ! k = xs ! (p + k)"
  by (simp add: substr_def)

lemma substr_put_other:
  assumes "p + length ys \<le> length xs" "q + n \<le> length xs" "q + n \<le> p \<or> p + length ys \<le> q"
  shows "substr (put_at p ys xs) q n = substr xs q n"
  by (rule nth_equalityI) (use assms in \<open>auto simp: length_substr nth_substr nth_put_at\<close>)

lemma column_concat: "list_all (\<lambda>r. length r = n) rows \<Longrightarrow> f < length rows \<Longrightarrow> column (concat rows) n f = rows ! f"
proof (induction rows arbitrary: f)
  case (Cons r rows)
  then show ?case by (cases f) (auto simp: column_def substr_def add.commute)
qed simp

lemma length_concat_rows: "list_all (\<lambda>r. length r = n) rows \<Longrightarrow> length (concat rows) = length rows * n"
  by (induction rows) auto

text \<open>The offsets are the sums of the counts before.\<close>

lemma sums_extend:
  "foldl (\<lambda>off i. off @ [last off + g i]) [0] [0..<n] = map (\<lambda>i. \<Sum>k<i. g k :: nat) [0..<Suc n]"
  by (induction n) simp_all

lemma pool_offsets_cases:
  "pool_offsets cs = (if \<exists>c\<in>set cs. c = 0 then Fail EmptyPool
     else Ok (map (\<lambda>i. \<Sum>k<i. cs ! k) [0..<Suc (length cs)], foldl max 0 cs))"
proof (induction cs rule: rev_induct)
  case (snoc c cs)
  have m: "map (\<lambda>i. \<Sum>k<i. (cs @ [c]) ! k) [0..<Suc (length cs)] = map (\<lambda>i. \<Sum>k<i. cs ! k) [0..<Suc (length cs)]"
    by (intro map_cong refl sum.cong) (auto simp: nth_append)
  have s: "(\<Sum>k<Suc (length cs). (cs @ [c]) ! k) = (\<Sum>k<length cs. cs ! k) + c"
    by (simp add: nth_append)
  from snoc show ?case unfolding pool_offsets_def fold_ok_append
    using m s by (auto simp del: upt_Suc simp: upt_Suc_append)
qed (simp add: pool_offsets_def)

text \<open>Vectors that are tiled by the ranges of the days, and the writing of one tile.\<close>

abbreviation start :: "(nat \<Rightarrow> nat) \<Rightarrow> nat \<Rightarrow> nat" where
  "start g i \<equiv> (\<Sum>k<i. g k)"

lemma start_mono: "i < j \<Longrightarrow> start g i + g i \<le> start g j"
proof -
  assume "i < j"
  then have "start g (Suc i) \<le> start g j" by (intro sum_mono2) auto
  then show ?thesis by simp
qed

lemma tiles:
  "length xs = start g n \<Longrightarrow> (\<And>i. i < n \<Longrightarrow> substr xs (start g i) (g i) = r i) \<Longrightarrow> xs = concat (map r [0..<n])"
proof (induction n arbitrary: xs)
  case (Suc n)
  let ?a = "take (start g n) xs"
  have "?a = concat (map r [0..<n])"
  proof (rule Suc.IH)
    show "substr ?a (start g i) (g i) = r i" if "i < n" for i
      using Suc.prems(2) [of i] that start_mono [OF that, of g] by (simp add: substr_def drop_take)
  qed (use Suc.prems(1) in simp)
  moreover have "drop (start g n) xs = r n" using Suc.prems(2) [of n] Suc.prems(1) by (simp add: substr_def)
  ultimately have "xs = concat (map r [0..<n]) @ r n" by (metis append_take_drop_id)
  then show ?case by simp
qed simp

lemma substr_put_tile:
  assumes "length xs = start g n * m" "i < n" "j < n" "length ys = g i * m"
  shows "length (put_at (start g i * m) ys xs) = start g n * m"
    "substr (put_at (start g i * m) ys xs) (start g j * m) (g j * m) = (if j = i then ys else substr xs (start g j * m) (g j * m))"
proof -
  have le: "start g k * m + g k * m \<le> start g l * m" if "k < l" for k l
    using start_mono [OF that, of g] by (simp flip: add_mult_distrib)
  have e: "start g k * m + g k * m \<le> length xs" if "k < n" for k using le [OF that] assms(1) by simp
  then have b: "start g i * m + length ys \<le> length xs" using assms(2,4) by simp
  then show "length (put_at (start g i * m) ys xs) = start g n * m" by (simp add: assms(1))
  show "substr (put_at (start g i * m) ys xs) (start g j * m) (g j * m) = (if j = i then ys else substr xs (start g j * m) (g j * m))"
  proof (cases "j = i")
    case True
    then show ?thesis using substr_put_same [OF b] assms(4) by simp
  next
    case False
    then have "j < i \<or> i < j" by auto
    then have "start g j * m + g j * m \<le> start g i * m \<or> start g i * m + length ys \<le> start g j * m"
      using le assms(4) by auto
    from substr_put_other [OF b e [OF assms(3)] this] False show ?thesis by simp
  qed
qed

lemma substr_concat_tile:
  assumes "\<And>k. k < n \<Longrightarrow> length (r k) = g k" "i < n"
  shows "substr (concat (map r [0..<n])) (start g i) (g i) = r i"
proof -
  have len: "length (concat (map r [0..<k])) = start g k" if "k \<le> n" for k
    using that assms(1) by (induction k) auto
  have "[0..<n] = [0..<i] @ i # [Suc i..<n]" using assms(2) using upt_add_eq_append [of 0 i "n - i"] by (simp add: upt_conv_Cons)
  then have "concat (map r [0..<n]) = concat (map r [0..<i]) @ r i @ concat (map r [Suc i..<n])" by simp
  then show ?thesis using len [of i] assms by (simp add: substr_def)
qed

section \<open>What the passes do\<close>

text \<open>The values of a day, and when none of its assertions fails.\<close>

definition ret_of :: "arith \<Rightarrow> market_window \<Rightarrow> nat \<Rightarrow> nat \<Rightarrow> nat \<Rightarrow> fval" where
  "ret_of ar mk n i a =
     (if Suc i < n \<and> \<not> has_flag (flags_at mk i a) SUSP \<and> is_finite (close_at mk i a) \<and> is_finite (close_at mk (Suc i) a)
      then fsub (single ar) (fdiv (single ar) (close_at mk (Suc i) a) (close_at mk i a)) (Fin 1) else NaN)"

definition ranks_of :: "arith \<Rightarrow> axes \<Rightarrow> tensor \<Rightarrow> nat \<Rightarrow> nat list \<Rightarrow> node \<Rightarrow> fval list" where
  "ranks_of ar ax T d mem f = pct_rank ar (map (\<lambda>a. gather_cs_row ax T f d ! a) mem)"

definition day_clean :: "axes \<Rightarrow> tensor \<Rightarrow> market_window \<Rightarrow> node list \<Rightarrow> nat \<Rightarrow> nat \<Rightarrow> nat \<Rightarrow> nat list \<Rightarrow> bool" where
  "day_clean ax T mk fs d_lo n i mem \<longleftrightarrow>
     (\<forall>f\<in>set fs. \<forall>a\<in>set mem. is_finite (gather_cs_row ax T f (d_lo + i) ! a)) \<and>
     (\<forall>a\<in>set mem. Suc i < n \<and> \<not> has_flag (flags_at mk i a) SUSP \<and> is_finite (close_at mk i a) \<and> is_finite (close_at mk (Suc i) a) \<longrightarrow>
        fless (Fin 0) (close_at mk i a))"

lemma map_ok_guard: "map_ok (\<lambda>x. if P x then Fail e else Ok (g x)) xs = (if \<exists>x\<in>set xs. P x then Fail e else Ok (map g xs))"
  by (induction xs) auto

lemma map_ok_ranks:
  "map_ok (factor_ranks ar ax T d mem) fs = (if \<exists>f\<in>set fs. \<exists>a\<in>set mem. \<not> is_finite (gather_cs_row ax T f d ! a)
     then Fail MineFactorNotFinite else Ok (map (ranks_of ar ax T d mem) fs))"
proof -
  have "factor_ranks ar ax T d mem = (\<lambda>f. if \<exists>a\<in>set mem. \<not> is_finite (gather_cs_row ax T f d ! a) then Fail MineFactorNotFinite
      else Ok (ranks_of ar ax T d mem f))"
    by (auto simp: factor_ranks_def ranks_of_def Let_def list_all_iff fun_eq_iff)
  then show ?thesis by (simp only: map_ok_guard)
qed

lemma member_returns_cases:
  "member_returns ar mk n i mem = (if \<exists>a\<in>set mem. Suc i < n \<and> (\<not> has_flag (flags_at mk i a) SUSP \<and> is_finite (close_at mk i a) \<and>
       is_finite (close_at mk (Suc i) a)) \<and> \<not> fless (Fin 0) (close_at mk i a)
     then Fail CloseNotPositive else Ok (map (ret_of ar mk n i) mem))"
proof (cases "Suc i < n")
  case True
  have "next_return ar mk i = (\<lambda>a. if (\<not> has_flag (flags_at mk i a) SUSP \<and> is_finite (close_at mk i a) \<and>
       is_finite (close_at mk (Suc i) a)) \<and> \<not> fless (Fin 0) (close_at mk i a) then Fail CloseNotPositive else Ok (ret_of ar mk n i a))"
    using True by (auto simp: next_return_def ret_of_def Let_def fun_eq_iff)
  then have "map_ok (next_return ar mk i) mem = map_ok (\<lambda>a. if (\<not> has_flag (flags_at mk i a) SUSP \<and> is_finite (close_at mk i a) \<and>
       is_finite (close_at mk (Suc i) a)) \<and> \<not> fless (Fin 0) (close_at mk i a) then Fail CloseNotPositive else Ok (ret_of ar mk n i a)) mem"
    by simp
  with True show ?thesis by (simp only: member_returns_def if_True map_ok_guard simp_thms)
next
  case False
  then show ?thesis by (simp add: member_returns_def ret_of_def)
qed

lemma fill_day_cases:
  fixes ax :: axes and T :: tensor and s d_lo :: nat
  defines "day \<equiv> \<lambda>i. pool_row ax T s (d_lo + i)"
  assumes "length (day i) = cnt st i"
  shows "day_clean ax T mk fs d_lo (sr_n_d st) i (day i) \<Longrightarrow> fill_day ar ax T mk s fs d_lo st i =
      Ok (st\<lparr>sr_memb := put_at (sr_off st ! i) (day i) (sr_memb st),
        sr_pr := put_at (sr_off st ! i * length fs) (concat (map (ranks_of ar ax T (d_lo + i) (day i)) fs)) (sr_pr st),
        sr_fret := put_at (sr_off st ! i) (map (ret_of ar mk (sr_n_d st) i) (day i)) (sr_fret st)\<rparr>)"
    "\<not> day_clean ax T mk fs d_lo (sr_n_d st) i (day i) \<Longrightarrow> \<exists>e. fill_day ar ax T mk s fs d_lo st i = Fail e"
proof -
  note d = fill_day_def Let_def map_ok_ranks member_returns_cases and l = assms(2) [unfolded day_def]
  show "fill_day ar ax T mk s fs d_lo st i =
      Ok (st\<lparr>sr_memb := put_at (sr_off st ! i) (day i) (sr_memb st),
        sr_pr := put_at (sr_off st ! i * length fs) (concat (map (ranks_of ar ax T (d_lo + i) (day i)) fs)) (sr_pr st),
        sr_fret := put_at (sr_off st ! i) (map (ret_of ar mk (sr_n_d st) i) (day i)) (sr_fret st)\<rparr>)"
    if "day_clean ax T mk fs d_lo (sr_n_d st) i (day i)"
    using that l unfolding day_clean_def d day_def by auto
  show "\<exists>e. fill_day ar ax T mk s fs d_lo st i = Fail e" if "\<not> day_clean ax T mk fs d_lo (sr_n_d st) i (day i)"
    using that l unfolding day_clean_def d day_def by auto
qed

text \<open>Every vector of the store has the ranges of the days; \<open>day_filled\<close> says that the ranges of a day hold its values.\<close>

definition shaped :: "(nat \<Rightarrow> nat) \<Rightarrow> nat \<Rightarrow> nat \<Rightarrow> pr_store \<Rightarrow> bool" where
  "shaped g n nf st \<longleftrightarrow> sr_n_d st = n \<and> sr_off st = map (start g) [0..<Suc n] \<and> length (sr_memb st) = start g n \<and>
     length (sr_pr st) = start g n * nf \<and> length (sr_fret st) = start g n"

definition day_filled :: "nat \<Rightarrow> (nat \<Rightarrow> nat list) \<Rightarrow> (nat \<Rightarrow> fval list) \<Rightarrow> (nat \<Rightarrow> fval list) \<Rightarrow> nat \<Rightarrow> pr_store \<Rightarrow> bool" where
  "day_filled nf M B R i st \<longleftrightarrow> day_members st i = M i \<and> block nf st i = B i \<and> fret_row st i = R i"

lemma shaped_off: "shaped g n nf st \<Longrightarrow> i \<le> n \<Longrightarrow> sr_off st ! i = start g i"
  by (simp add: shaped_def del: upt_Suc)

lemma shaped_cnt: "shaped g n nf st \<Longrightarrow> i < n \<Longrightarrow> cnt st i = g i"
  by (simp add: cnt_def shaped_off)

lemma pass_2:
  fixes ar :: arith and ax :: axes and T :: tensor and mk :: market_window and fs :: "node list" and s d_lo :: nat
  defines "day \<equiv> \<lambda>i. pool_row ax T s (d_lo + i)"
  defines "g \<equiv> \<lambda>i. length (day i)" and "clean \<equiv> \<lambda>n i. day_clean ax T mk fs d_lo n i (day i)"
    and "B \<equiv> \<lambda>i. concat (map (ranks_of ar ax T (d_lo + i) (day i)) fs)" and "R \<equiv> \<lambda>n i. map (ret_of ar mk n i) (day i)"
  assumes "shaped g n (length fs) st" "set ord = {..<n}"
  shows "fold_ok (fill_day ar ax T mk s fs d_lo) st ord = Ok st' \<Longrightarrow>
      (\<forall>i<n. clean n i \<and> day_filled (length fs) day B (R n) i st') \<and>
      st' = st\<lparr>sr_memb := concat (map day [0..<n]), sr_pr := concat (map B [0..<n]), sr_fret := concat (map (R n) [0..<n])\<rparr>"
    "\<forall>i<n. clean n i \<Longrightarrow> \<exists>st'. fold_ok (fill_day ar ax T mk s fs d_lo) st ord = Ok st'"
proof -
  let ?nf = "length fs"
  let ?P = "\<lambda>u. shaped g n ?nf u \<and> (\<exists>m p r. u = st\<lparr>sr_memb := m, sr_pr := p, sr_fret := r\<rparr>)"
  have lenB: "length (B i) = g i * ?nf" for i
    unfolding B_def by (subst length_concat_rows [where n = "g i"]) (simp_all add: list_all_iff ranks_of_def g_def)
  have lenR: "length (R n i) = g i" for i by (simp add: R_def g_def)
  have step: "fill_day ar ax T mk s fs d_lo u i = Ok v \<Longrightarrow>
      clean n i \<and> ?P v \<and> (\<forall>j<n. day_filled ?nf day B (R n) j v \<longleftrightarrow> j = i \<or> day_filled ?nf day B (R n) j u)"
    "clean n i \<Longrightarrow> \<exists>v. fill_day ar ax T mk s fs d_lo u i = Ok v \<and> ?P v" if i: "i \<in> set ord" and P: "?P u" for u v i
  proof -
    have lt: "i < n" using i assms(7) by auto
    have sh: "shaped g n ?nf u" using P by blast
    have c: "length (pool_row ax T s (d_lo + i)) = cnt u i" using shaped_cnt [OF sh lt] by (simp add: g_def day_def)
    have nd: "sr_n_d u = n" using sh by (simp add: shaped_def)
    have off: "sr_off u ! i = start g i" by (rule shaped_off [OF sh]) (use lt in simp)
    let ?v = "u\<lparr>sr_memb := put_at (start g i) (day i) (sr_memb u), sr_pr := put_at (start g i * ?nf) (B i) (sr_pr u),
        sr_fret := put_at (start g i) (R n i) (sr_fret u)\<rparr>"
    note F = fill_day_cases [where fs = fs and ar = ar and mk = mk, OF c, unfolded nd off]
    note M1 = substr_put_tile [where m = 1, unfolded mult_1_right]
    have len: "length (sr_memb u) = start g n" "length (sr_fret u) = start g n" "length (sr_pr u) = start g n * ?nf"
      using sh by (simp_all add: shaped_def)
    have g: "length (day i) = g i" by (simp add: g_def)
    have sv: "shaped g n ?nf ?v"
      using sh M1(1) [OF len(1) lt lt g] M1(1) [OF len(2) lt lt lenR] substr_put_tile(1) [OF len(3) lt lt lenB] by (simp add: shaped_def)
    obtain m p r where "u = st\<lparr>sr_memb := m, sr_pr := p, sr_fret := r\<rparr>" using P by blast
    then have "?v = st\<lparr>sr_memb := put_at (start g i) (day i) m, sr_pr := put_at (start g i * ?nf) (B i) p,
        sr_fret := put_at (start g i) (R n i) r\<rparr>" by simp
    with sv have v: "?P ?v" by blast
    have fill: "day_filled ?nf day B (R n) j ?v \<longleftrightarrow> j = i \<or> day_filled ?nf day B (R n) j u" if j: "j < n" for j
      using M1(2) [OF len(1) lt j g] M1(2) [OF len(2) lt j lenR] substr_put_tile(2) [OF len(3) lt j lenB] j
        shaped_cnt [OF sh j] shaped_cnt [OF sv j] shaped_off [OF sh, of j] shaped_off [OF sv, of j]
      by (auto simp: day_filled_def day_members_def block_def fret_row_def g_def)
    show "clean n i \<and> ?P v \<and> (\<forall>j<n. day_filled ?nf day B (R n) j v \<longleftrightarrow> j = i \<or> day_filled ?nf day B (R n) j u)"
      if f: "fill_day ar ax T mk s fs d_lo u i = Ok v"
    proof -
      have cl: "clean n i" using F(2) f by (auto simp: clean_def day_def)
      with F(1) f have "v = ?v" by (simp add: clean_def day_def B_def R_def)
      with cl v fill show ?thesis by blast
    qed
    show "\<exists>v. fill_day ar ax T mk s fs d_lo u i = Ok v \<and> ?P v" if "clean n i"
      using F(1) that v by (simp add: clean_def day_def B_def R_def)
  qed
  have "st = st\<lparr>sr_memb := sr_memb st, sr_pr := sr_pr st, sr_fret := sr_fret st\<rparr>" by simp
  with assms(6) have P0: "?P st" by blast
  show "\<exists>st'. fold_ok (fill_day ar ax T mk s fs d_lo) st ord = Ok st'" if cl: "\<forall>i<n. clean n i"
  proof -
    have "\<exists>st'. fold_ok (fill_day ar ax T mk s fs d_lo) st ord = Ok st' \<and> ?P st'"
    proof (rule fold_ok_total [where P = ?P, OF _ P0])
      show "\<exists>v. fill_day ar ax T mk s fs d_lo u i = Ok v \<and> ?P v" if i: "i \<in> set ord" "?P u" for u i
        by (rule step(2) [OF i]) (use cl i(1) assms(7) in auto)
    qed
    then show ?thesis by blast
  qed
  assume f: "fold_ok (fill_day ar ax T mk s fs d_lo) st ord = Ok st'"
  have e: "?P st' \<and> (\<forall>i\<in>set ord. i < n \<longrightarrow> clean n i \<and> day_filled ?nf day B (R n) i st')"
  proof (rule fold_ok_establishes [where P = ?P, OF _ _ P0 f])
    show "?P v \<and> (i < n \<longrightarrow> clean n i \<and> day_filled ?nf day B (R n) i v)"
      if "i \<in> set ord" "?P u" "fill_day ar ax T mk s fs d_lo u i = Ok v" for u i v
      using step(1) [OF that] by blast
    show "j < n \<longrightarrow> clean n j \<and> day_filled ?nf day B (R n) j v"
      if "i \<in> set ord" "?P u" "j < n \<longrightarrow> clean n j \<and> day_filled ?nf day B (R n) j u" "fill_day ar ax T mk s fs d_lo u i = Ok v" for u i v j
      using step(1) [OF that(1,2,4)] that(3) by blast
  qed
  then have sh: "shaped g n ?nf st'" and d: "\<And>i. i < n \<Longrightarrow> clean n i \<and> day_filled ?nf day B (R n) i st'"
    using assms(7) by auto
  from e obtain m p r where st': "st' = st\<lparr>sr_memb := m, sr_pr := p, sr_fret := r\<rparr>" by blast
  have len: "length m = start g n" "length p = start g n * ?nf" "length r = start g n" using sh by (simp_all add: st' shaped_def)
  note a = shaped_off [OF sh] shaped_cnt [OF sh]
  have "m = concat (map day [0..<n])"
    by (rule tiles [where g = g]) (use d a len in \<open>simp_all add: day_filled_def day_members_def st'\<close>)
  moreover have "r = concat (map (R n) [0..<n])"
    by (rule tiles [where g = g]) (use d a len in \<open>simp_all add: day_filled_def fret_row_def st'\<close>)
  moreover have "p = concat (map B [0..<n])"
  proof (rule tiles [where g = "\<lambda>i. g i * ?nf"])
    show "length p = (\<Sum>k<n. g k * ?nf)" using len by (simp add: sum_distrib_right)
    show "substr p (\<Sum>k<i. g k * ?nf) (g i * ?nf) = B i" if "i < n" for i
      using d [OF that] a that by (simp add: day_filled_def block_def st' flip: sum_distrib_right)
  qed
  ultimately show "(\<forall>i<n. clean n i \<and> day_filled ?nf day B (R n) i st') \<and>
      st' = st\<lparr>sr_memb := concat (map day [0..<n]), sr_pr := concat (map B [0..<n]), sr_fret := concat (map (R n) [0..<n])\<rparr>"
    using d st' by blast
qed

text \<open>The third pass only reads what the second wrote, so none of its days can fail.\<close>

definition valid_block :: "nat \<Rightarrow> pr_store \<Rightarrow> nat \<Rightarrow> fval list" where
  "valid_block nf st i = concat (map (\<lambda>f. map (\<lambda>j. column (block nf st i) (cnt st i) f ! j) (valid_idx st i)) [0..<nf])"

definition valid_rets :: "pr_store \<Rightarrow> nat \<Rightarrow> fval list" where
  "valid_rets st i = map (\<lambda>j. fret_row st i ! j) (valid_idx st i)"

lemma valid_reads [simp]:
  "valid_idx (st\<lparr>sr_vpr := p\<rparr>) i = valid_idx st i" "valid_idx (st\<lparr>sr_vfret := p\<rparr>) i = valid_idx st i"
  "valid_idx (st\<lparr>sr_voff := v\<rparr>) i = valid_idx st i"
  "valid_block nf (st\<lparr>sr_vpr := p\<rparr>) i = valid_block nf st i" "valid_block nf (st\<lparr>sr_vfret := p\<rparr>) i = valid_block nf st i"
  "valid_block nf (st\<lparr>sr_voff := v\<rparr>) i = valid_block nf st i"
  "valid_rets (st\<lparr>sr_vpr := p\<rparr>) i = valid_rets st i" "valid_rets (st\<lparr>sr_vfret := p\<rparr>) i = valid_rets st i"
  "valid_rets (st\<lparr>sr_voff := v\<rparr>) i = valid_rets st i"
  by (simp_all add: valid_idx_def valid_block_def valid_rets_def fret_row_def block_def cnt_def)

lemma pass_3:
  fixes st :: pr_store
  defines "g \<equiv> \<lambda>i. length (valid_idx st i)"
  assumes "sr_voff st = map (start g) [0..<Suc n]" "length (sr_vpr st) = start g n * nf" "length (sr_vfret st) = start g n" "set ord = {..<n}"
  shows "fold_ok (fill_valid nf) st ord =
    Ok (st\<lparr>sr_vpr := concat (map (valid_block nf st) [0..<n]), sr_vfret := concat (map (valid_rets st) [0..<n])\<rparr>)"
proof -
  let ?P = "\<lambda>u. \<exists>p r. u = st\<lparr>sr_vpr := p, sr_vfret := r\<rparr> \<and> length p = start g n * nf \<and> length r = start g n"
  let ?Q = "\<lambda>i u. i < n \<longrightarrow> substr (sr_vpr u) (start g i * nf) (g i * nf) = valid_block nf st i \<and>
    substr (sr_vfret u) (start g i) (g i) = valid_rets st i"
  have off: "sr_voff st ! i = start g i" if "i \<le> n" for i using that assms(2) by (simp del: upt_Suc)
  have lenB: "length (valid_block nf st i) = g i * nf" for i
    unfolding valid_block_def by (subst length_concat_rows [where n = "g i"]) (simp_all add: list_all_iff g_def)
  have lenR: "length (valid_rets st i) = g i" for i by (simp add: valid_rets_def g_def)
  have step: "\<exists>v. fill_valid nf u i = Ok v \<and> ?P v \<and> ?Q i v \<and> (\<forall>j. ?Q j u \<longrightarrow> ?Q j v)" if i: "i \<in> set ord" and P: "?P u" for u i
  proof -
    obtain p r where u: "u = st\<lparr>sr_vpr := p, sr_vfret := r\<rparr>" and len: "length p = start g n * nf" "length r = start g n" using P by blast
    have lt: "i < n" using i assms(5) by auto
    let ?p = "put_at (start g i * nf) (valid_block nf st i) p" and ?r = "put_at (start g i) (valid_rets st i) r"
    have f: "fill_valid nf u i = Ok (st\<lparr>sr_vpr := ?p, sr_vfret := ?r\<rparr>)"
      using lt by (simp add: fill_valid_def Let_def u vcnt_def off valid_block_def valid_rets_def fret_row_def block_def cnt_def g_def)
    note t = substr_put_tile [OF len(1) lt _ lenB] substr_put_tile [where m = 1, unfolded mult_1_right, OF len(2) lt _ lenR]
    have "?P (st\<lparr>sr_vpr := ?p, sr_vfret := ?r\<rparr>)" using t(1,3) [OF lt] by blast
    moreover have "?Q j (st\<lparr>sr_vpr := ?p, sr_vfret := ?r\<rparr>)" if "j = i \<or> ?Q j u" for j
      using t(2,4) [of j] that by (auto simp: u)
    ultimately show ?thesis using f by blast
  qed
  have "st = st\<lparr>sr_vpr := sr_vpr st, sr_vfret := sr_vfret st\<rparr>" by simp
  with assms(3,4) have P0: "?P st" by blast
  have "\<exists>st'. fold_ok (fill_valid nf) st ord = Ok st' \<and> ?P st'"
  proof (rule fold_ok_total [where P = ?P, OF _ P0])
    show "\<exists>v. fill_valid nf u i = Ok v \<and> ?P v" if "i \<in> set ord" "?P u" for u i using step [OF that] by blast
  qed
  then obtain st' where st': "fold_ok (fill_valid nf) st ord = Ok st'" by blast
  have "?P st' \<and> (\<forall>i\<in>set ord. ?Q i st')"
  proof (rule fold_ok_establishes [where P = ?P, OF _ _ P0 st'])
    show "?P v \<and> ?Q i v" if "i \<in> set ord" "?P u" "fill_valid nf u i = Ok v" for u i v using step [OF that(1,2)] that(3) by auto
    show "?Q j v" if "i \<in> set ord" "?P u" "?Q j u" "fill_valid nf u i = Ok v" for u i v j using step [OF that(1,2)] that(3,4) by auto
  qed
  then obtain p r where s: "st' = st\<lparr>sr_vpr := p, sr_vfret := r\<rparr>" "length p = start g n * nf" "length r = start g n"
    and q: "\<And>i. i < n \<Longrightarrow> substr p (start g i * nf) (g i * nf) = valid_block nf st i \<and> substr r (start g i) (g i) = valid_rets st i"
    using assms(5) by auto
  have "r = concat (map (valid_rets st) [0..<n])" by (rule tiles [where g = g]) (use q s in simp_all)
  moreover have "p = concat (map (valid_block nf st) [0..<n])"
    by (rule tiles [where g = "\<lambda>i. g i * nf"]) (use q s in \<open>simp_all flip: sum_distrib_right\<close>)
  ultimately show ?thesis using st' s(1) by simp
qed

section \<open>The store, day by day\<close>

definition pools_clean :: "axes \<Rightarrow> tensor \<Rightarrow> market_window \<Rightarrow> nat \<Rightarrow> node list \<Rightarrow> nat \<Rightarrow> nat \<Rightarrow> bool" where
  "pools_clean ax T mk s fs d_lo n \<longleftrightarrow>
     (\<forall>i<n. pool_row ax T s (d_lo + i) \<noteq> [] \<and> day_clean ax T mk fs d_lo n i (pool_row ax T s (d_lo + i)))"

definition store_ok :: "arith \<Rightarrow> axes \<Rightarrow> tensor \<Rightarrow> market_window \<Rightarrow> nat \<Rightarrow> node list \<Rightarrow> nat \<Rightarrow> nat \<Rightarrow> pr_store \<Rightarrow> bool" where
  "store_ok ar ax T mk s fs d_lo n st \<longleftrightarrow> sr_n_d st = n \<and>
     (\<forall>i<n. let mem = pool_row ax T s (d_lo + i) in
        day_members st i = mem \<and> cnt st i = length mem \<and> cnt st i \<le> sr_max_cnt st \<and> fret_row st i = map (ret_of ar mk n i) mem \<and>
        block (length fs) st i = concat (map (ranks_of ar ax T (d_lo + i) mem) fs) \<and>
        vcnt st i = length (valid_idx st i) \<and> vfret_row st i = valid_rets st i \<and> vblock (length fs) st i = valid_block (length fs) st i)"

lemma max_fold_ge: "x \<in> set cs \<Longrightarrow> x \<le> foldl max a (cs :: nat list)"
proof (induction cs arbitrary: a)
  case (Cons c cs)
  have "a \<le> foldl max a cs" for a by (induction cs arbitrary: a) (simp_all, metis max.bounded_iff)
  with Cons show ?case by (auto intro: le_trans [of _ "max a c"])
qed simp

lemma build_pr_cases:
  assumes "set ord2 = {..<n}" "set ord3 = {..<n}"
  shows "pools_clean ax T mk s fs d_lo n \<Longrightarrow> \<exists>st. build_pr ar ord2 ord3 ax T mk s fs d_lo n = Ok st"
    "build_pr ar ord2 ord3 ax T mk s fs d_lo n = Ok st \<Longrightarrow> pools_clean ax T mk s fs d_lo n \<and> store_ok ar ax T mk s fs d_lo n st"
    "build_pr ar ord2 ord3 ax T mk s fs d_lo n = Ok st \<Longrightarrow> set ord2' = {..<n} \<Longrightarrow> set ord3' = {..<n} \<Longrightarrow>
       build_pr ar ord2' ord3' ax T mk s fs d_lo n = Ok st"
proof -
  let ?day = "\<lambda>i. pool_row ax T s (d_lo + i)" and ?nf = "length fs"
  let ?g = "\<lambda>i. length (?day i)" and ?cs = "pool_counts ax T s d_lo n"
  let ?off = "map (start ?g) [0..<Suc n]" and ?mx = "foldl max 0 ?cs"
  let ?z = "\<lambda>k. replicate k (Fin 0)"
  define s0 where "s0 = \<lparr>sr_n_d = n, sr_max_cnt = ?mx, sr_off = ?off, sr_memb = replicate (start ?g n) 0, sr_pr = ?z (start ?g n * ?nf),
    sr_fret = ?z (start ?g n), sr_voff = [], sr_vpr = [], sr_vfret = []\<rparr>"
  let ?B = "\<lambda>i. concat (map (ranks_of ar ax T (d_lo + i) (?day i)) fs)" and ?R = "\<lambda>i. map (ret_of ar mk n i) (?day i)"
  define s2 where "s2 = s0\<lparr>sr_memb := concat (map ?day [0..<n]), sr_pr := concat (map ?B [0..<n]), sr_fret := concat (map ?R [0..<n])\<rparr>"
  let ?vg = "\<lambda>i. length (valid_idx s2 i)"
  let ?s3 = "s2\<lparr>sr_voff := map (start ?vg) [0..<Suc n], sr_vpr := ?z (start ?vg n * ?nf), sr_vfret := ?z (start ?vg n)\<rparr>"
  let ?s4 = "?s3\<lparr>sr_vpr := concat (map (valid_block ?nf s2) [0..<n]), sr_vfret := concat (map (valid_rets s2) [0..<n])\<rparr>"
  let ?clean = "\<forall>i<n. day_clean ax T mk fs d_lo n i (?day i)"
  have sh: "shaped ?g n ?nf s0" by (simp add: shaped_def s0_def)
  have nd: "sr_n_d s2 = n" by (simp add: s2_def s0_def)
  have cs: "pool_offsets ?cs = (if \<exists>i<n. ?day i = [] then Fail EmptyPool else Ok (?off, ?mx))"
  proof -
    have "map (\<lambda>i. \<Sum>k<i. ?cs ! k) [0..<Suc (length ?cs)] = ?off"
      by (intro map_cong) (auto simp: pool_counts_def intro!: sum.cong)
    moreover have "(\<exists>c\<in>set ?cs. c = 0) \<longleftrightarrow> (\<exists>i<n. ?day i = [])" by (auto simp: pool_counts_def)
    ultimately show ?thesis unfolding pool_offsets_cases by (simp only:)
  qed
  have off: "last ?off = start ?g n" "last (map (start ?vg) [0..<Suc n]) = start ?vg n" by simp_all
  have vo: "valid_offsets s2 = map (start ?vg) [0..<Suc n]" unfolding valid_offsets_def sums_extend nd ..
  have run: "build_pr ar o2 o3 ax T mk s fs d_lo n = Ok ?s4" if "set o2 = {..<n}" "set o3 = {..<n}" "pools_clean ax T mk s fs d_lo n" for o2 o3
  proof -
    note p2 = pass_2 [where fs = fs and ar = ar and mk = mk, OF sh that(1), folded s2_def]
    have vb: "valid_block ?nf ?s3 = valid_block ?nf s2" "valid_rets ?s3 = valid_rets s2" by (simp_all add: fun_eq_iff)
    have cl: ?clean and ne: "\<not> (\<exists>i<n. ?day i = [])" using that(3) by (simp_all add: pools_clean_def)
    from p2(2) [OF cl] p2(1) have f2: "fold_ok (fill_day ar ax T mk s fs d_lo) s0 o2 = Ok s2" by blast
    have "sr_voff ?s3 = map (start (\<lambda>i. length (valid_idx ?s3 i))) [0..<Suc n]" by (simp del: upt_Suc)
    then have f3: "fold_ok (fill_valid ?nf) ?s3 o3 = Ok ?s4"
      using pass_3 [of ?s3 n ?nf o3, OF _ _ _ that(2)] by (simp add: vb del: upt_Suc)
    show ?thesis unfolding build_pr_def cs if_not_P [OF ne] bind_ok.simps prod.case Let_def off s0_def [symmetric] f2 vo f3 ..
  qed
  have ok: "pools_clean ax T mk s fs d_lo n" if b: "build_pr ar o2 o3 ax T mk s fs d_lo n = Ok st" "set o2 = {..<n}" for o2 o3 st
  proof -
    have ne: "\<not> (\<exists>i<n. ?day i = [])" using b(1) unfolding build_pr_def cs by (auto split: if_splits)
    with b(1) obtain u where "fold_ok (fill_day ar ax T mk s fs d_lo) s0 o2 = Ok u"
      unfolding build_pr_def cs if_not_P [OF ne] bind_ok.simps prod.case Let_def off s0_def [symmetric] by (auto simp: bind_ok_Ok_iff)
    with pass_2(1) [where fs = fs and ar = ar and mk = mk, OF sh b(2)] have ?clean by blast
    with ne show ?thesis by (simp add: pools_clean_def)
  qed
  show "\<exists>st. build_pr ar ord2 ord3 ax T mk s fs d_lo n = Ok st" if "pools_clean ax T mk s fs d_lo n"
    using run [OF assms that] by blast
  show "build_pr ar ord2' ord3' ax T mk s fs d_lo n = Ok st"
    if "build_pr ar ord2 ord3 ax T mk s fs d_lo n = Ok st" "set ord2' = {..<n}" "set ord3' = {..<n}"
    using run [OF assms ok [OF that(1) assms(1)]] run [OF that(2,3) ok [OF that(1) assms(1)]] that(1) by simp
  assume b: "build_pr ar ord2 ord3 ax T mk s fs d_lo n = Ok st"
  note cl = ok [OF b assms(1)]
  have st: "st = ?s4" using run [OF assms cl] b by simp
  have "store_ok ar ax T mk s fs d_lo n ?s4" unfolding store_ok_def Let_def
  proof (intro conjI allI impI)
    fix i assume i: "i < n"
    have o: "sr_off ?s4 ! k = start ?g k" "sr_voff ?s4 ! k = start ?vg k" if "k \<le> n" for k
      using that by (simp_all add: s2_def s0_def del: upt_Suc)
    have c: "cnt ?s4 i = ?g i" "vcnt ?s4 i = ?vg i" using o i by (simp_all add: cnt_def vcnt_def)
    have lenB: "length (?B k) = ?g k * ?nf" "length (valid_block ?nf s2 k) = ?vg k * ?nf" for k
      unfolding valid_block_def
      by (subst length_concat_rows [where n = "?g k"], simp_all add: list_all_iff ranks_of_def)
        (subst length_concat_rows [where n = "?vg k"], simp_all add: list_all_iff)
    note t = substr_concat_tile [where n = n and i = i, OF _ i]
    show "cnt ?s4 i = ?g i" "vcnt ?s4 i = length (valid_idx ?s4 i)" using c by simp_all
    have "?g i \<in> set ?cs" using i by (simp add: pool_counts_def)
    moreover have "sr_max_cnt ?s4 = ?mx" by (simp add: s2_def s0_def)
    ultimately show "cnt ?s4 i \<le> sr_max_cnt ?s4" unfolding c using max_fold_ge by simp
    show "day_members ?s4 i = ?day i" using t [of ?day ?g] c o i by (simp add: day_members_def s2_def)
    show "fret_row ?s4 i = ?R i" using t [of ?R ?g] c o i by (simp add: fret_row_def s2_def)
    show "vfret_row ?s4 i = valid_rets ?s4 i" using t [of "valid_rets s2" ?vg] c o i by (simp add: vfret_row_def valid_rets_def [of s2])
    show "block ?nf ?s4 i = ?B i" using t [of ?B "\<lambda>i. ?g i * ?nf", OF lenB(1)] c o i by (simp add: block_def s2_def flip: sum_distrib_right)
    show "vblock ?nf ?s4 i = valid_block ?nf ?s4 i"
      using t [of "valid_block ?nf s2" "\<lambda>i. ?vg i * ?nf", OF lenB(2)] c o i by (simp add: vblock_def flip: sum_distrib_right)
  qed (simp add: nd)
  with cl st show "pools_clean ax T mk s fs d_lo n \<and> store_ok ar ax T mk s fs d_lo n st" by simp
qed

section \<open>Columns of a block\<close>

lemma store_column:
  assumes "store_ok ar ax T mk s fs d_lo n st" "i < n" "f < length fs"
  shows "column (block (length fs) st i) (cnt st i) f = ranks_of ar ax T (d_lo + i) (pool_row ax T s (d_lo + i)) (fs ! f)"
    "column (vblock (length fs) st i) (vcnt st i) f =
       map (\<lambda>j. ranks_of ar ax T (d_lo + i) (pool_row ax T s (d_lo + i)) (fs ! f) ! j) (valid_idx st i)"
proof -
  let ?r = "ranks_of ar ax T (d_lo + i) (pool_row ax T s (d_lo + i))"
  from assms(1,2) have st: "block (length fs) st i = concat (map ?r fs)" "cnt st i = length (pool_row ax T s (d_lo + i))"
    "vblock (length fs) st i = valid_block (length fs) st i" "vcnt st i = length (valid_idx st i)"
    by (simp_all add: store_ok_def Let_def)
  show b: "column (block (length fs) st i) (cnt st i) f = ?r (fs ! f)"
    unfolding st(1) using assms(3) by (subst column_concat) (simp_all add: list_all_iff st(2) ranks_of_def)
  show "column (vblock (length fs) st i) (vcnt st i) f = map (\<lambda>j. ?r (fs ! f) ! j) (valid_idx st i)"
    unfolding st(3) valid_block_def using assms(3) b by (subst column_concat) (simp_all add: list_all_iff st(4))
qed

section \<open>Properties\<close>

text \<open>C13. The store of the weight search, whatever the order in which the threads finish the days. If one order gives a store, every
  order gives the same one. For every day of the window it reads back as the pool of that day (not empty, by index), in every
  factor the percentiles that these members have among themselves, and the returns to the next close - no value on the last day,
  for a suspended member or without a price; and the second view holds, factor by factor, exactly the members with a return.\<close>

theorem pool_store_days:
  assumes "set ord2 = {..<n}" "set ord3 = {..<n}" "build_pr ar ord2 ord3 ax T mk s fs d_lo n = Ok st"
    "set ord2' = {..<n}" "set ord3' = {..<n}" "i < n" "f < length fs"
  defines "mem \<equiv> pool_row ax T s (d_lo + i)"
  shows "build_pr ar ord2' ord3' ax T mk s fs d_lo n = Ok st \<and>
    mem \<noteq> [] \<and> day_members st i = mem \<and> fret_row st i = map (ret_of ar mk n i) mem \<and>
    vfret_row st i = filter is_finite (fret_row st i) \<and>
    column (block (length fs) st i) (cnt st i) f = ranks_of ar ax T (d_lo + i) mem (fs ! f) \<and>
    column (vblock (length fs) st i) (vcnt st i) f = map (\<lambda>j. ranks_of ar ax T (d_lo + i) mem (fs ! f) ! j) (valid_idx st i)"
proof -
  note b = build_pr_cases(2) [OF assms(1-3)]
  then have ok: "store_ok ar ax T mk s fs d_lo n st" and ne: "mem \<noteq> []" using assms(6) by (simp_all add: pools_clean_def mem_def)
  have len: "length (fret_row st i) = cnt st i" using ok assms(6) by (simp add: store_ok_def Let_def)
  have "vfret_row st i = map (\<lambda>q. fret_row st i ! q) (filter (\<lambda>q. is_finite (fret_row st i ! q)) [0..<length (fret_row st i)])"
    using ok assms(6) unfolding len by (simp add: store_ok_def Let_def valid_rets_def valid_idx_def)
  also have "\<dots> = filter is_finite (map (\<lambda>q. fret_row st i ! q) [0..<length (fret_row st i)])" by (simp add: filter_map comp_def)
  finally have "vfret_row st i = filter is_finite (fret_row st i)" by (simp only: map_nth)
  with ne show ?thesis
    using build_pr_cases(3) [OF assms(1-5)] store_column [OF ok assms(6,7)] ok assms(6) by (simp add: store_ok_def Let_def mem_def)
qed

text \<open>Two instruments over two days; the factor \<open>Mcap\<close> and the score that it gives swap on the second day.\<close>

definition mine_tensor :: tensor where
  "mine_tensor = \<lparr>tn_mats = (tn_mats bt_tensor)(Mcap := [Fin 1, Fin 0, Fin 0, Fin 1]),
     tn_strat = [[Fin 1, Fin 1, Fin 1, Fin 1], [Fin 1, Fin 1, Fin 1, Fin 1], [Fin 1, Fin 0, Fin 0, Fin 1], [Fin 1, Fin 2, Fin 2, Fin 1]]\<rparr>"

definition mine_market :: market_window where
  "mine_market = \<lparr>mk_d_lo = 0, mk_n_d = 2, mk_n_a = 2, mk_close = [Fin 2, Fin 4, Fin 5, Fin 5], mk_flags = [0, 1, 0, 0]\<rparr>"

lemma mine_market_at:
  "close_at mine_market 0 0 = Fin 2" "close_at mine_market 0 (Suc 0) = Fin 4" "close_at mine_market (Suc 0) 0 = Fin 5"
  "close_at mine_market (Suc 0) (Suc 0) = Fin 5"
  "\<not> has_flag (flags_at mine_market 0 0) SUSP" "has_flag (flags_at mine_market 0 (Suc 0)) SUSP"
  by (simp_all add: close_at_def flags_at_def mine_market_def has_flag_def SUSP_def)

lemma mine_tensor_at:
  assumes "a < 2" "d < 2"
  shows "strat_at sample_axes mine_tensor (slot 0 SF_pool) a d = Fin 1"
    "strat_at sample_axes mine_tensor (slot 0 SF_score) a d = Fin (if a = d then 1 else 0)"
    "strat_at sample_axes mine_tensor (slot 0 SF_rank) a d = Fin (if a = d then 1 else 2)"
    "gather_cs_row sample_axes mine_tensor Mcap d ! a = Fin (if a = d then 1 else 0)"
  using assms by (auto simp: strat_at_def mine_tensor_def slot_def SF_COUNT_def mat_off_def sample_axes_ok less_Suc_eq numeral_2_eq_2
      gather_cs_row_def mat_gather_def)

lemma mine_pool: "d < 2 \<Longrightarrow> pool_row sample_axes mine_tensor 0 d = [0, 1]"
  using mine_tensor_at(1) [of 0 d] mine_tensor_at(1) [of 1 d]
  by (simp add: pool_row_def strat_gather_at sample_axes_ok numeral_2_eq_2)

lemma mine_clean:
  assumes "\<And>i a. i < 2 \<Longrightarrow> a < 2 \<Longrightarrow> fless (Fin 0) (close_at mk i a)"
  shows "pools_clean sample_axes mine_tensor mk 0 [Mcap] 0 2"
  unfolding pools_clean_def
proof (intro allI impI)
  fix i :: nat assume i: "i < 2"
  have "\<forall>a\<in>{0, 1}. is_finite (gather_cs_row sample_axes mine_tensor Mcap i ! a)"
    using mine_tensor_at(4) [of _ i] i by auto
  moreover have "\<forall>a\<in>{0, 1}. fless (Fin 0) (close_at mk i a)" using assms [OF i] by auto
  ultimately show "pool_row sample_axes mine_tensor 0 (0 + i) \<noteq> [] \<and>
      day_clean sample_axes mine_tensor mk [Mcap] 0 2 i (pool_row sample_axes mine_tensor 0 (0 + i))"
    using mine_pool [OF i] by (auto simp: day_clean_def)
qed

lemma pool_store_days_witness:
  "\<exists>st. build_pr exact_arith [1, 0] [0, 1] sample_axes mine_tensor mine_market 0 [Mcap] 0 2 = Ok st \<and>
     build_pr exact_arith [0, 1] [1, 0] sample_axes mine_tensor mine_market 0 [Mcap] 0 2 = Ok st \<and>
     fret_row st 0 = [Fin (3/2), NaN] \<and> vfret_row st 0 = [Fin (3/2)]"
proof -
  have s: "set [1, 0] = {..<2 :: nat}" "set [0, 1] = {..<2 :: nat}" by auto
  have "pools_clean sample_axes mine_tensor mine_market 0 [Mcap] 0 2"
    by (rule mine_clean) (auto simp: mine_market_at less_Suc_eq numeral_2_eq_2)
  then obtain st where st: "build_pr exact_arith [1, 0] [0, 1] sample_axes mine_tensor mine_market 0 [Mcap] 0 2 = Ok st"
    using build_pr_cases(1) [OF s] by blast
  have i: "0 < (2 :: nat)" "0 < length [Mcap]" by simp_all
  from pool_store_days [OF s st s(2,1) i] st mine_pool [of 0] show ?thesis
    by (intro exI [of _ st]) (simp add: ret_of_def mine_market_at fsub_def)
qed

end
