(* ===== verification/Shortlist.thy ===== *)
theory Shortlist
  imports Pools
begin

text \<open>
  The candidates that the weight search gives to the kernel (\<open>cpp/src/mine/mine.cpp\<close>): the plan of a weight vector, the bounded
  insertion that keeps the best names of a day, the margin that makes the cut exact, and a batch of weight vectors run over the
  window. The main theorems: what \<open>select_top\<close> returns is the top of the full ranking, and the search run with a strategy's own
  weights makes the same portfolio as the backtest of that strategy, so the self-check of the program cannot fail.
\<close>

section \<open>Plans\<close>

definition TIE_MARGIN :: nat where "TIE_MARGIN = 16"

record plan =
  pl_terms :: "(nat \<times> fval) list"
  pl_wsum :: fval

definition new_plan :: plan where
  "new_plan = \<lparr>pl_terms = [], pl_wsum = Fin 0\<rparr>"

definition push_term :: "nat \<Rightarrow> nat \<Rightarrow> fval \<Rightarrow> plan \<Rightarrow> (mine_error, plan) outcome" where
  "push_term nf c w p = (if \<not> length (pl_terms p) < nf then Fail PlanFull else Ok (p\<lparr>pl_terms := pl_terms p @ [(c, w)]\<rparr>))"

definition seal :: "arith \<Rightarrow> plan \<Rightarrow> (mine_error, plan) outcome" where
  "seal ar p = (let ws = foldl (\<lambda>s t. fadd (single ar) s (fabs (snd t))) (pl_wsum p) (pl_terms p) in
     if \<not> (pl_terms p \<noteq> [] \<and> fless (Fin 0) ws) then Fail PlanEmpty else Ok (p\<lparr>pl_wsum := ws\<rparr>))"

text \<open>The plan of a point of the lattice, and the plan of a strategy's own weights.\<close>

definition plan_from_k :: "arith \<Rightarrow> nat \<Rightarrow> int list \<Rightarrow> (mine_error, plan) outcome" where
  "plan_from_k ar M k =
     bind_ok (fold_ok (\<lambda>p f. if k ! f = 0 then Ok p
         else push_term (length k) f (fdiv (single ar) (single ar (of_int (k ! f))) (single ar (real M))) p) new_plan [0..<length k]) (seal ar)"

definition factor_column :: "node list \<Rightarrow> node \<Rightarrow> (mine_error, nat) outcome" where
  "factor_column fs f = (case foldl (\<lambda>c j. if fs ! j = f then Some j else c) None [0..<length fs] of None \<Rightarrow> Fail FactorNotMined | Some j \<Rightarrow> Ok j)"

definition plan_of_weights :: "arith \<Rightarrow> node list \<Rightarrow> (node \<times> fval) list \<Rightarrow> (mine_error, plan) outcome" where
  "plan_of_weights ar fs ws = (if \<not> length ws \<le> length fs then Fail PlanFull
     else bind_ok (fold_ok (\<lambda>p (f, w). bind_ok (factor_column fs f) (\<lambda>c. push_term (length fs) c w p)) new_plan ws) (seal ar))"

section \<open>The best of a day\<close>

text \<open>The numerators of the scores of a day, term by term in the order of the plan.\<close>

definition numerators :: "arith \<Rightarrow> fval list \<Rightarrow> nat \<Rightarrow> (nat \<times> fval) list \<Rightarrow> fval list" where
  "numerators ar blk n ts =
     foldl (\<lambda>acc (c, w). map (\<lambda>j. fadd (single ar) (acc ! j) (fmul (single ar) w (column blk n c ! j))) [0..<n]) (replicate n (Fin 0)) ts"

text \<open>\<open>sift\<close> is the inner loop: from the hole at \<open>p\<close> the smaller entries before it move up by one.\<close>

fun sift :: "ranked list \<Rightarrow> nat \<Rightarrow> ranked \<Rightarrow> ranked list" where
  "sift sel p x = (if p > 0 \<and> fless (fst (sel ! (p - 1))) (fst x) then sift (sel[p := sel ! (p - 1)]) (p - 1) x else sel[p := x])"

declare sift.simps [simp del]

definition keep_best :: "nat \<Rightarrow> ranked list \<Rightarrow> ranked \<Rightarrow> ranked list" where
  "keep_best n sel x =
     (let ns = length sel in
      if ns = n \<and> \<not> fless (fst (sel ! (n - 1))) (fst x) then sel
      else if ns < n then sift (sel @ [x]) ns x else sift sel (n - 1) x)"

text \<open>The final order: descending scores, equal ones by the index of the instrument.\<close>

definition in_order :: "ranked list \<Rightarrow> ranked list" where
  "in_order xs = sort_key (\<lambda>p. fneg (fst p)) (sort_key snd xs)"

definition select_top :: "arith \<Rightarrow> fval list \<Rightarrow> nat list \<Rightarrow> nat \<Rightarrow> plan \<Rightarrow> nat \<Rightarrow> (mine_error, ranked list) outcome" where
  "select_top ar blk mem n pl n_keep =
     (if \<not> n_keep \<le> n then Fail KeepTooMany
      else let n_sel = min n (n_keep + TIE_MARGIN);
               best = foldl (keep_best n_sel) [] (zip (numerators ar blk n (pl_terms pl)) mem);
               sel = in_order (map (\<lambda>(s, a). (fdiv (single ar) s (pl_wsum pl), a)) best)
           in if \<not> (length sel < n_sel \<or> n_sel = n_keep \<or> fless (fst (sel ! (n_sel - 1))) (fst (sel ! (n_keep - 1)))) then Fail MarginTie
              else Ok sel)"

definition prefix_need :: "arith \<Rightarrow> strategy_spec \<Rightarrow> int" where
  "prefix_need ar spec =
     max (trunc (fmul (single ar) (single ar (of_int (st_hold_n spec))) (st_exit_ratio spec))) (2 * st_hold_n spec)"

section \<open>A batch of weight vectors\<close>

record lane =
  ln_engine :: engine
  ln_navs :: "fval list"
  ln_turn :: fval

definition start_lane :: "arith \<Rightarrow> engine \<Rightarrow> lane" where
  "start_lane ar e = \<lparr>ln_engine = reset ar e, ln_navs = [], ln_turn = Fin 0\<rparr>"

definition lane_day ::
  "arith \<Rightarrow> deficit_sorter \<Rightarrow> market_window \<Rightarrow> nat \<Rightarrow> pr_store \<Rightarrow> nat \<Rightarrow> nat \<Rightarrow> plan \<times> lane \<Rightarrow> (mine_error, lane) outcome" where
  "lane_day ar sorter mk nf st k_need i = (\<lambda>(pl, l).
     let n_keep = min (cnt st i) k_need; D = double ar in
     bind_ok (select_top ar (block nf st i) (day_members st i) (cnt st i) pl n_keep) (\<lambda>sel.
     bind_ok (lift_error BatchEngine (step ar sorter mk i (take n_keep sel) (ln_engine l))) (\<lambda>e.
       Ok \<lparr>ln_engine = e, ln_navs = ln_navs l @ [narrow ar (en_pv_end e)],
           ln_turn = fadd D (ln_turn l) (fdiv D (en_turn_amt e) (fmul D (Fin 2) (en_pv e)))\<rparr>)))"

definition lane_metrics :: "arith \<Rightarrow> nat \<Rightarrow> lane \<Rightarrow> (mine_error, fval list) outcome" where
  "lane_metrics ar n l = (let D = double ar; nav = ln_navs l in
     bind_ok (lift_error StatsError (nav_stats_of ar nav)) (\<lambda>s.
       Ok [ns_ann_return s, ns_sharpe s, ns_ann_vol s, ns_max_drawdown s, fdiv (single ar) (nav ! (n - 1)) (nav ! 0),
           narrow ar (fmul D (fdiv D (ln_turn l) (D (real n))) (Fin TRADING_DAYS)), single ar (real (ns_longest_no_new_high s))]))"

definition batch_days ::
  "arith \<Rightarrow> deficit_sorter \<Rightarrow> market_window \<Rightarrow> nat \<Rightarrow> pr_store \<Rightarrow> nat \<Rightarrow> plan list \<Rightarrow> engine list \<Rightarrow> (mine_error, lane list) outcome" where
  "batch_days ar sorter mk nf st k_need plans engs =
     fold_ok (\<lambda>lns i. map_ok (lane_day ar sorter mk nf st k_need i) (zip plans lns))
       (map (start_lane ar) (take (length plans) engs)) [0..<sr_n_d st]"

definition run_batch ::
  "arith \<Rightarrow> deficit_sorter \<Rightarrow> market_window \<Rightarrow> nat \<Rightarrow> pr_store \<Rightarrow> nat \<Rightarrow> plan list \<Rightarrow> engine list
     \<Rightarrow> (mine_error, lane list \<times> fval list list) outcome" where
  "run_batch ar sorter mk nf st k_need plans engs =
     bind_ok (batch_days ar sorter mk nf st k_need plans engs) (\<lambda>lns.
     bind_ok (map_ok (lane_metrics ar (sr_n_d st)) lns) (\<lambda>out. Ok (lns, out)))"

section \<open>The insertion\<close>

lemma sift_split:
  assumes "list_all (\<lambda>y. fless (fst y) (fst x)) B" "A = [] \<or> \<not> fless (fst (last A)) (fst x)"
  shows "sift (A @ B @ h # zs) (length A + length B) x = A @ x # B @ zs"
  using assms
proof (induction B arbitrary: h zs rule: rev_induct)
  case Nil
  then show ?case by (cases "A = []") (auto simp: sift.simps nth_append last_conv_nth)
next
  case (snoc y B)
  have "(A @ B @ y # h # zs)[Suc (length A + length B) := y] = A @ B @ y # y # zs"
    using list_update_length [of "A @ B @ [y]" h zs y] by simp
  then have "sift (A @ (B @ [y]) @ h # zs) (length A + length (B @ [y])) x = sift (A @ B @ y # y # zs) (length A + length B) x"
    using snoc.prems(1) by (subst sift.simps) (simp add: nth_append)
  also have "\<dots> = A @ x # B @ y # zs" by (rule snoc.IH) (use snoc.prems in auto)
  finally show ?case by simp
qed

text \<open>The place of a new entry: after all that are not smaller.\<close>

abbreviation descending :: "ranked list \<Rightarrow> bool" where
  "descending s \<equiv> sorted (map (\<lambda>p. fneg (fst p)) s)"

definition place :: "ranked \<Rightarrow> ranked list \<Rightarrow> ranked list" where
  "place x s = takeWhile (\<lambda>y. \<not> fless (fst y) (fst x)) s @ x # dropWhile (\<lambda>y. \<not> fless (fst y) (fst x)) s"

lemma fless_fneg: "is_finite (fst x) \<Longrightarrow> is_finite (fst y) \<Longrightarrow> fless (fst y) (fst x) \<longleftrightarrow> fneg (fst x) < fneg (fst y)"
  by (simp add: fneg_less)

lemma dropWhile_smaller:
  assumes "descending s" "list_all (\<lambda>y. is_finite (fst y)) s" "is_finite (fst x)"
  shows "list_all (\<lambda>y. fless (fst y) (fst x)) (dropWhile (\<lambda>y. \<not> fless (fst y) (fst x)) s)"
  using assms
proof (induction s)
  case (Cons y s)
  then show ?case by (auto simp: list_all_iff fless_fneg intro: less_le_trans)
qed simp

lemma takeWhile_last:
  "takeWhile P s = [] \<or> P (last (takeWhile P s))"
  by (induction s) auto

lemma sift_place:
  assumes "descending s" "list_all (\<lambda>y. is_finite (fst y)) s" "is_finite (fst x)"
  shows "sift (s @ h # zs) (length s) x = place x s @ zs"
proof -
  let ?P = "\<lambda>y. \<not> fless (fst y) (fst x)"
  have "sift (takeWhile ?P s @ dropWhile ?P s @ h # zs) (length (takeWhile ?P s) + length (dropWhile ?P s)) x
      = takeWhile ?P s @ x # dropWhile ?P s @ zs"
    by (rule sift_split) (use dropWhile_smaller [OF assms] takeWhile_last [of ?P s] in auto)
  moreover have "length (takeWhile ?P s) + length (dropWhile ?P s) = length s" by (metis length_append takeWhile_dropWhile_id)
  ultimately show ?thesis by (simp add: place_def append_assoc [symmetric] del: append_assoc)
qed

lemma mset_place: "mset (place x s) = add_mset x (mset s)"
proof -
  have "mset s = mset (takeWhile (\<lambda>y. \<not> fless (fst y) (fst x)) s) + mset (dropWhile (\<lambda>y. \<not> fless (fst y) (fst x)) s)"
    by (metis mset_append takeWhile_dropWhile_id)
  then show ?thesis by (simp add: place_def)
qed

lemma descending_append: "descending (xs @ ys) \<longleftrightarrow> descending xs \<and> descending ys \<and> (\<forall>x\<in>set xs. \<forall>y\<in>set ys. fneg (fst x) \<le> fneg (fst y))"
  by (simp add: sorted_append)

lemma descending_place:
  assumes "descending s" "list_all (\<lambda>y. is_finite (fst y)) s" "is_finite (fst x)"
  shows "descending (place x s)"
proof -
  let ?P = "\<lambda>y. \<not> fless (fst y) (fst x)"
  have s: "descending (takeWhile ?P s @ dropWhile ?P s)" using assms(1) by simp
  have a: "fneg (fst y) \<le> fneg (fst x)" if "y \<in> set (takeWhile ?P s)" for y
    using set_takeWhileD [OF that] assms(2,3) by (auto simp: list_all_iff fless_fneg)
  have b: "fneg (fst x) \<le> fneg (fst y)" if "y \<in> set (dropWhile ?P s)" for y
  proof -
    have "is_finite (fst y)" using set_dropWhileD [OF that] assms(2) by (simp add: list_all_iff)
    with bspec [OF dropWhile_smaller [OF assms, unfolded list_all_iff] that] assms(3) show ?thesis by (simp add: fless_fneg less_imp_le)
  qed
  from s have "descending (takeWhile ?P s)" "descending (dropWhile ?P s)"
    "\<forall>y\<in>set (takeWhile ?P s). \<forall>z\<in>set (dropWhile ?P s). fneg (fst y) \<le> fneg (fst z)" unfolding descending_append by simp_all
  with a b show ?thesis unfolding place_def descending_append by simp
qed

lemma place_append: "fless (fst h) (fst x) \<Longrightarrow> place x (s @ h # r) = place x s @ h # r"
  by (induction s) (auto simp: place_def)

lemma keep_best_place:
  assumes "descending s" "list_all (\<lambda>y. is_finite (fst y)) s" "is_finite (fst x)" "0 < n"
  shows "keep_best n (take n s) x = take n (place x s)"
proof (cases "length s < n")
  case True
  then have "keep_best n (take n s) x = sift (s @ x # []) (length s) x" by (simp add: keep_best_def)
  also have "\<dots> = place x s" using sift_place [OF assms(1-3)] by simp
  finally show ?thesis using True arg_cong [OF mset_place [of x s], of size] by simp
next
  case False
  then have len: "length (take n s) = n" by simp
  define s' h r where "s' = take (n - 1) s" and "h = s ! (n - 1)" and "r = drop n s"
  have h: "take n s ! (n - 1) = h" using assms(4) by (simp add: h_def)
  have t: "take n s = s' @ [h]" using False assms(4) take_Suc_conv_app_nth [of "n - 1" s] by (simp add: s'_def h_def)
  then have s: "s = s' @ h # r" using append_take_drop_id [of n s] by (simp add: r_def)
  have l: "length s' = n - 1" using False by (simp add: s'_def)
  have d: "descending s'" "list_all (\<lambda>y. is_finite (fst y)) s'" "is_finite (fst h)" "\<forall>y\<in>set s'. fneg (fst y) \<le> fneg (fst h)"
    using assms(1,2) unfolding s by (auto simp: sorted_append)
  show ?thesis
  proof (cases "fless (fst h) (fst x)")
    case True
    then have "keep_best n (take n s) x = sift (s' @ h # []) (length s') x" using len h by (simp add: keep_best_def t l)
    also have "\<dots> = place x s'" using sift_place [OF d(1,2) assms(3)] by simp
    also have "\<dots> = take n (place x s)"
      using l assms(4) arg_cong [OF mset_place [of x s'], of size] unfolding s place_append [OF True] by simp
    finally show ?thesis .
  next
    case small: False
    then have "keep_best n (take n s) x = take n s" using len h by (simp add: keep_best_def)
    moreover have "\<not> fless (fst y) (fst x)" if "y \<in> set (take n s)" for y
    proof -
      have "fneg (fst y) \<le> fneg (fst h)" "is_finite (fst y)" using that d unfolding t by (auto simp: list_all_iff)
      with small assms(3) d(3) show ?thesis by (auto simp: fless_fneg dest: less_le_trans)
    qed
    then have "takeWhile (\<lambda>y. \<not> fless (fst y) (fst x)) (take n s @ drop n s) = take n s @ takeWhile (\<lambda>y. \<not> fless (fst y) (fst x)) (drop n s)"
      by (subst takeWhile_append2) simp_all
    then have "take n (place x s) = take n s" using len by (simp add: place_def)
    ultimately show ?thesis by simp
  qed
qed

lemma keep_best_fold:
  assumes "list_all (\<lambda>y. is_finite (fst y)) xs" "0 < n"
  shows "\<exists>s. mset s = mset xs \<and> descending s \<and> foldl (keep_best n) [] xs = take n s"
  using assms(1)
proof (induction xs rule: rev_induct)
  case (snoc x xs)
  then obtain s where s: "mset s = mset xs" "descending s" "foldl (keep_best n) [] xs = take n s" by auto
  have "set s = set xs" using s(1) by (metis set_mset_mset)
  then have f: "list_all (\<lambda>y. is_finite (fst y)) s" "is_finite (fst x)" using snoc.prems by (simp_all add: list_all_iff)
  show ?case
    by (rule exI [of _ "place x s"])
      (use s keep_best_place [OF s(2) f assms(2)] descending_place [OF s(2) f] in \<open>simp add: mset_place\<close>)
qed simp

section \<open>The cut\<close>

text \<open>The order of the final sort; on distinct instruments it leaves only one sorted list.\<close>

definition ahead :: "ranked \<Rightarrow> ranked \<Rightarrow> bool" where
  "ahead p q \<longleftrightarrow> fneg (fst p) < fneg (fst q) \<or> fneg (fst p) = fneg (fst q) \<and> snd p < snd q"

lemma ahead_asym: "ahead p q \<Longrightarrow> \<not> ahead q p"
  by (auto simp: ahead_def)

lemma sorted_wrt_unique:
  assumes "\<And>x y. R x y \<Longrightarrow> \<not> R y x"
  shows "sorted_wrt R xs \<Longrightarrow> sorted_wrt R ys \<Longrightarrow> mset xs = mset ys \<Longrightarrow> xs = ys"
proof (induction xs arbitrary: ys)
  case (Cons x xs)
  then obtain y ys' where ys: "ys = y # ys'" by (cases ys) auto
  have "set (x # xs) = set ys" using Cons.prems(3) by (metis set_mset_mset)
  then have "x = y \<or> y \<in> set xs \<and> x \<in> set ys'" unfolding ys by auto
  moreover have "R x y \<and> R y x" if "y \<in> set xs" "x \<in> set ys'" using Cons.prems(1,2) that unfolding ys by simp
  ultimately have "x = y" using assms by blast
  with Cons ys show ?case by simp
qed simp

lemma in_order_mset: "mset (in_order xs) = mset xs"
  by (simp add: in_order_def)

lemma in_order_sorted: "distinct (map snd xs) \<Longrightarrow> sorted_wrt ahead (in_order xs)"
proof -
  assume "distinct (map snd xs)"
  then have "sorted (map snd (sort_key snd xs))" "distinct (map snd (sort_key snd xs))"
    by (simp_all add: distinct_map)
  then have "sorted_wrt (<) (map snd (sort_key snd xs))" by (simp add: strict_sorted_iff)
  then have "sorted_wrt (\<lambda>p q. snd p < snd q) (sort_key snd xs)" by (simp add: sorted_wrt_map)
  from stable_sort_wrt [OF this, of "\<lambda>p. fneg (fst p)"] show ?thesis
    unfolding in_order_def ahead_def .
qed

lemma in_order_unique: "distinct (map snd xs) \<Longrightarrow> sorted_wrt ahead ys \<Longrightarrow> mset ys = mset xs \<Longrightarrow> in_order xs = ys"
  by (rule sorted_wrt_unique [where R = ahead]) (simp_all add: ahead_asym in_order_sorted in_order_mset)

text \<open>Why the margin makes the cut exact: what is left out scores no better than the last kept, which scores worse than the last wanted.\<close>

lemma margin_cut:
  fixes N :: "ranked \<Rightarrow> ranked"
  assumes "distinct (map snd xs)" "\<And>p. snd (N p) = snd p" "mset s = mset xs" "descending s"
    "\<And>p q. p \<in> set xs \<Longrightarrow> q \<in> set xs \<Longrightarrow> fneg (fst p) \<le> fneg (fst q) \<Longrightarrow> fneg (fst (N p)) \<le> fneg (fst (N q))"
    "0 < k" "k \<le> n" "n \<le> length xs"
  defines "r \<equiv> in_order (map N (take n s))"
  assumes "n = length xs \<or> fneg (fst (r ! (k - 1))) < fneg (fst (r ! (n - 1)))"
  shows "take k r = take k (in_order (map N xs))" "length r = n"
proof -
  let ?K = "\<lambda>p. fneg (fst (p :: ranked))"
  have sx: "set s = set xs" using assms(3) by (metis set_mset_mset)
  have ls: "length s = length xs" using assms(3) by (metis size_mset)
  have snds: "map snd (map N t) = map snd t" for t using assms(2) by (simp add: comp_def)
  have "mset (map snd s) = mset (map snd xs)" using assms(3) by simp
  then have ds: "distinct (map snd s)" using assms(1) by (metis mset_eq_imp_distinct_iff)
  then have dt: "distinct (map snd (map N (take n s)))" "distinct (map snd (map N (drop n s)))" unfolding snds
    by (simp_all add: distinct_map inj_on_def distinct_take distinct_drop) (meson in_set_takeD in_set_dropD)+
  have dx: "distinct (map snd (map N xs))" unfolding snds by (rule assms(1))
  show lr: "length r = n" using assms(8) ls by (simp add: r_def in_order_def)
  show "take k r = take k (in_order (map N xs))"
  proof (cases "n = length xs")
    case True
    then have "mset (map N (take n s)) = mset (map N xs)" using assms(3) ls by simp
    then have "in_order (map N xs) = r" unfolding r_def
      by (intro in_order_unique [OF dx]) (use in_order_sorted [OF dt(1)] in_order_mset in simp_all)
    then show ?thesis by simp
  next
    case False
    define A B C where "A = take k r" and "B = drop k r" and "C = map N (drop n s)"
    have rAB: "r = A @ B" by (simp add: A_def B_def)
    have sr: "sorted_wrt ahead r" unfolding r_def by (rule in_order_sorted [OF dt(1)])
    have mr: "mset r = mset (map N (take n s))" by (simp add: r_def in_order_mset)
    have mx: "mset (A @ B @ C) = mset (map N xs)"
    proof -
      have "mset (A @ B @ C) = mset (map N (take n s)) + mset (map N (drop n s))" using mr by (simp add: rAB C_def)
      also have "\<dots> = mset (map N s)" by (metis append_take_drop_id map_append mset_append)
      finally show ?thesis using assms(3) by simp
    qed
    have AC: "?K p < ?K q" if p: "p \<in> set A" and q: "q \<in> set C" for p q
    proof -
      from p obtain i where i: "i < k" "p = r ! i" using lr assms(7) by (auto simp: A_def in_set_conv_nth)
      have "?K p \<le> ?K (r ! (k - 1))"
      proof (cases "i = k - 1")
        case False
        then have "ahead p (r ! (k - 1))" using sorted_wrt_nth_less [OF sr, of i "k - 1"] i lr assms(7) by simp
        then show ?thesis by (auto simp: ahead_def)
      qed (simp add: i)
      also have "\<dots> < ?K (r ! (n - 1))" using assms(10) False by simp
      also have "\<dots> \<le> ?K q"
      proof -
        have "r ! (n - 1) \<in> set r" using lr assms(6,7) by simp
        then obtain u where u: "u \<in> set (take n s)" "r ! (n - 1) = N u" using mr by (metis imageE list.set_map set_mset_mset)
        obtain v where v: "v \<in> set (drop n s)" "q = N v" using q by (auto simp: C_def)
        have "descending (take n s @ drop n s)" using assms(4) by simp
        then have "?K u \<le> ?K v" using u(1) v(1) unfolding descending_append by blast
        moreover have "u \<in> set xs" "v \<in> set xs" using u(1) v(1) sx by (auto dest: in_set_takeD in_set_dropD)
        ultimately show ?thesis using assms(5) u v by simp
      qed
      finally show ?thesis .
    qed
    have dBC: "distinct (map snd (B @ C))" "distinct (map snd (A @ B @ C))"
    proof -
      have "mset (map snd (A @ B @ C)) = mset (map snd (map N xs))" using mx by (metis mset_map)
      then show "distinct (map snd (A @ B @ C))" using dx by (metis mset_eq_imp_distinct_iff)
      then show "distinct (map snd (B @ C))" by simp
    qed
    have "sorted_wrt ahead (A @ in_order (B @ C))"
    proof -
      have "set (in_order (B @ C)) = set B \<union> set C" by (simp add: in_order_def)
      moreover have "ahead p q" if "p \<in> set A" "q \<in> set B" for p q
        using sr that unfolding rAB sorted_wrt_append by blast
      moreover have "ahead p q" if "p \<in> set A" "q \<in> set C" for p q using AC [OF that] by (simp add: ahead_def)
      moreover have "sorted_wrt ahead A" using sr unfolding rAB sorted_wrt_append by blast
      ultimately show ?thesis using in_order_sorted [OF dBC(1)] by (auto simp: sorted_wrt_append)
    qed
    moreover have "mset (A @ in_order (B @ C)) = mset (map N xs)" using mx by (simp add: in_order_mset)
    ultimately have "in_order (map N xs) = A @ in_order (B @ C)" by (rule in_order_unique [OF dx])
    moreover have "length A = k" using lr assms(7) by (simp add: A_def)
    ultimately show ?thesis by (simp add: A_def)
  qed
qed

section \<open>What is selected\<close>

text \<open>The members with their scores, as the strategy columns have them.\<close>

definition scored :: "arith \<Rightarrow> fval list \<Rightarrow> nat list \<Rightarrow> nat \<Rightarrow> plan \<Rightarrow> ranked list" where
  "scored ar blk mem n pl = map (\<lambda>(s, a). (fdiv (single ar) s (pl_wsum pl), a)) (zip (numerators ar blk n (pl_terms pl)) mem)"

lemma length_numerators [simp]: "length (numerators ar blk n ts) = n"
proof -
  have "length (foldl (\<lambda>acc (c, w). map (\<lambda>j. fadd (single ar) (acc ! j) (fmul (single ar) w (column blk n c ! j))) [0..<n]) acc ts) = n"
    if "length acc = n" for acc
    using that by (induction ts arbitrary: acc) (auto simp: split_def)
  then show ?thesis by (simp add: numerators_def)
qed

lemma fle_le: "fle x y \<Longrightarrow> fneg y \<le> fneg x"
  by (cases x; cases y) (auto simp: fle_def less_eq_fval_def)

lemma fless_less: "fless y x \<Longrightarrow> fneg x < fneg y"
  by (cases x; cases y) (auto simp: less_fval_def)

lemma quotient_mono:
  assumes "rounding (single ar)" "0 < W" "is_finite x" "is_finite y" "fneg x \<le> fneg y"
  shows "fneg (fdiv (single ar) x (Fin W)) \<le> fneg (fdiv (single ar) y (Fin W))"
proof -
  from assms(3,4) obtain a b where ab: "x = Fin a" "y = Fin b" by (auto simp: is_finite_iff)
  then have "b / W \<le> a / W" using assms(2,5) by (simp add: divide_right_mono)
  from fle_le [OF rounding.rnd_mono [OF assms(1) this]] assms(2) show ?thesis by (simp add: ab)
qed

lemma quotient_not_nan: "rounding (single ar) \<Longrightarrow> 0 < W \<Longrightarrow> is_finite x \<Longrightarrow> fdiv (single ar) x (Fin W) \<noteq> NaN"
  using rounding.rnd_mono [of "single ar"] by (cases x) (auto simp: fle_def, metis fless.simps(1) feq.simps(1) order_refl)

lemma not_fless_ge: "x \<noteq> NaN \<Longrightarrow> y \<noteq> NaN \<Longrightarrow> \<not> fless y x \<Longrightarrow> fneg y \<le> fneg x"
  by (cases x; cases y) (auto simp: less_eq_fval_def)

lemma select_top_cases:
  assumes "rounding (single ar)" "pl_wsum pl = Fin W" "0 < W" "list_all is_finite (numerators ar blk n (pl_terms pl))"
    "length mem = n" "distinct mem" "0 < n_keep" "n_keep \<le> n"
  shows "select_top ar blk mem n pl n_keep = Ok sel \<Longrightarrow>
      take n_keep sel = take n_keep (in_order (scored ar blk mem n pl)) \<and> length sel = min n (n_keep + TIE_MARGIN)"
    "select_top ar blk mem n pl n_keep = Fail e \<Longrightarrow> e = MarginTie \<and>
      (\<exists>v S. S \<subseteq> set (scored ar blk mem n pl) \<and> card S = min (n - n_keep) TIE_MARGIN + 1 \<and> (\<forall>p\<in>S. fneg (fst p) = v)) \<and> n_keep < n"
proof -
  let ?xs = "zip (numerators ar blk n (pl_terms pl)) mem" and ?n = "min n (n_keep + TIE_MARGIN)"
  let ?N = "\<lambda>p. (fdiv (single ar) (fst p) (pl_wsum pl), snd p)"
  have sc: "scored ar blk mem n pl = map ?N ?xs" by (simp add: scored_def split_def)
  have fin: "list_all (\<lambda>y. is_finite (fst y)) ?xs" using assms(4,5) by (auto simp: list_all_iff dest: set_zip_leftD)
  have n: "0 < ?n" "n_keep \<le> ?n" "?n \<le> length ?xs" using assms(5,7,8) by simp_all
  obtain s where s: "mset s = mset ?xs" "descending s" "foldl (keep_best ?n) [] ?xs = take ?n s"
    using keep_best_fold [OF fin n(1)] by blast
  define r where "r = in_order (map ?N (take ?n s))"
  have dx: "distinct (map snd ?xs)" using assms(5,6) by simp
  have mono: "fneg (fst (?N p)) \<le> fneg (fst (?N q))" if "p \<in> set ?xs" "q \<in> set ?xs" "fneg (fst p) \<le> fneg (fst q)" for p q
    using quotient_mono [OF assms(1,3)] that fin unfolding assms(2) by (simp add: list_all_iff)
  have sel: "select_top ar blk mem n pl n_keep = (if \<not> (length r < ?n \<or> ?n = n_keep \<or> fless (fst (r ! (?n - 1))) (fst (r ! (n_keep - 1))))
      then Fail MarginTie else Ok r)"
    using assms(8) unfolding select_top_def Let_def s(3) r_def by (simp add: split_def)
  have lr: "length r = ?n" using s(1) assms(5) size_mset [of s] size_mset [of ?xs] by (simp add: r_def in_order_def)
  show "take n_keep sel = take n_keep (in_order (scored ar blk mem n pl)) \<and> length sel = ?n"
    if ok: "select_top ar blk mem n pl n_keep = Ok sel"
  proof -
    have "sel = r" and c: "?n = n_keep \<or> fless (fst (r ! (?n - 1))) (fst (r ! (n_keep - 1)))"
      using ok lr unfolding sel by (auto split: if_splits)
    have "?n = length ?xs" if "?n = n_keep" using that assms(5,8) by (auto simp: min_def TIE_MARGIN_def split: if_splits)
    with c have "?n = length ?xs \<or> fneg (fst (r ! (n_keep - 1))) < fneg (fst (r ! (?n - 1)))" using fless_less by blast
    from margin_cut(1) [OF dx _ s(1,2) mono assms(7) n(2,3) this [unfolded r_def]] lr show ?thesis
      unfolding sc \<open>sel = r\<close> r_def by simp
  qed
  assume f: "select_top ar blk mem n pl n_keep = Fail e"
  then have e: "e = MarginTie" and c: "?n \<noteq> n_keep" "\<not> fless (fst (r ! (?n - 1))) (fst (r ! (n_keep - 1)))"
    unfolding sel by (auto split: if_splits)
  have lt: "n_keep < n" using c(1) assms(8) by (auto simp: min_def split: if_splits)
  have dN: "distinct (map snd (map ?N (take ?n s)))"
  proof -
    have "mset (map snd s) = mset (map snd ?xs)" using s(1) by simp
    then have "distinct (map snd s)" using dx by (metis mset_eq_imp_distinct_iff)
    then have "distinct (take ?n (map snd s))" by (rule distinct_take)
    then show ?thesis by (simp add: comp_def take_map)
  qed
  have sr: "sorted_wrt ahead r" unfolding r_def by (rule in_order_sorted [OF dN])
  have "mset r = mset (map ?N (take ?n s))" by (simp only: r_def in_order_mset)
  then have "mset (map snd r) = mset (map snd (map ?N (take ?n s)))" by (simp only: mset_map)
  then have "distinct (map snd r)" using dN mset_eq_imp_distinct_iff by blast
  then have dr: "distinct r" by (simp add: distinct_map)
  have mem_r: "set r \<subseteq> set (scored ar blk mem n pl)"
  proof -
    have "set s = set ?xs" using s(1) by (metis set_mset_mset)
    then show ?thesis unfolding sc r_def in_order_def by (auto dest: in_set_takeD)
  qed
  have nn: "fst p \<noteq> NaN" if "p \<in> set r" for p
  proof -
    from that mem_r obtain u where u: "u \<in> set ?xs" "p = ?N u" unfolding sc by auto
    with fin have "is_finite (fst u)" by (simp add: list_all_iff)
    from quotient_not_nan [OF assms(1,3) this] show ?thesis by (simp add: u(2) assms(2))
  qed
  have le: "fneg (fst (r ! i)) \<le> fneg (fst (r ! j))" if "i \<le> j" "j < length r" for i j
    using sorted_wrt_nth_less [OF sr, of i j] that by (cases "i = j") (auto simp: ahead_def)
  have b: "n_keep - 1 < length r" "?n - 1 < length r" using n lr assms(7) by linarith+
  have eq: "fneg (fst p) = fneg (fst (r ! (n_keep - 1)))" if "p \<in> set (drop (n_keep - 1) r)" for p
  proof -
    from that obtain i where "i < length (drop (n_keep - 1) r)" "p = drop (n_keep - 1) r ! i" unfolding in_set_conv_nth by blast
    then have j: "n_keep - 1 + i < length r" "p = r ! (n_keep - 1 + i)" by (simp_all add: less_diff_conv add.commute)
    have jn: "n_keep - 1 + i \<le> ?n - 1" using j(1) lr by linarith
    have "fneg (fst (r ! (?n - 1))) \<le> fneg (fst (r ! (n_keep - 1)))"
      by (intro not_fless_ge c(2) nn nth_mem b)
    moreover have "fneg (fst p) \<le> fneg (fst (r ! (?n - 1)))" "fneg (fst (r ! (n_keep - 1))) \<le> fneg (fst p)"
      unfolding j(2) by (rule le [OF jn b(2)], rule le [OF le_add1 j(1)])
    ultimately show ?thesis by (meson order_antisym order_trans)
  qed
  have "card (set (drop (n_keep - 1) r)) = min (n - n_keep) TIE_MARGIN + 1"
    using dr lr n assms(7) lt by (simp add: distinct_card distinct_drop)
  moreover have "set (drop (n_keep - 1) r) \<subseteq> set (scored ar blk mem n pl)" using mem_r set_drop_subset by fast
  ultimately show "e = MarginTie \<and>
      (\<exists>v S. S \<subseteq> set (scored ar blk mem n pl) \<and> card S = min (n - n_keep) TIE_MARGIN + 1 \<and> (\<forall>p\<in>S. fneg (fst p) = v)) \<and> n_keep < n"
    using eq e lt by blast
qed

section \<open>The scores of the strategy columns\<close>

text \<open>A rank depends on the multiset of the finite values only, so the percentiles of the members alone are those of the whole row
  with the others masked.\<close>

lemma pct_rank_value:
  assumes "k < length x" "is_finite (x ! k)"
  shows "pct_rank ar x ! k = tie_rank ar (length (finite_positions x)) (length (filter (\<lambda>i. x ! i < x ! k) (finite_positions x)))
    (length (filter (\<lambda>i. x ! i \<le> x ! k) (finite_positions x)))"
proof -
  let ?idx = "sort_key (\<lambda>i. x ! i) (finite_positions x)"
  have l: "length (filter P ?idx) = length (filter P (finite_positions x))" for P by (metis mset_filter mset_sort size_mset)
  have "pct_rank ar x ! k = (if k \<in> set ?idx then tie_rank ar (length ?idx)
      (0 + length (filter (\<lambda>l. x ! l < x ! k) ?idx)) (0 + length (filter (\<lambda>l. x ! l \<le> x ! k) ?idx)) else x ! k)"
    unfolding pct_rank_def Let_def
    by (rule rank_loop_spec) (simp_all add: finite_positions_set finite_positions_def assms(1))
  then show ?thesis using assms by (simp add: l finite_positions_set)
qed

lemma length_filter_nth: "length (filter (\<lambda>i. P (xs ! i)) [0..<length xs]) = length (filter P xs)"
  using arg_cong [OF filter_map [of P "(!) xs" "[0..<length xs]"], of length] by (simp add: map_nth comp_def)

lemma compact_ranks:
  assumes "length msk = n" "length row = n" "mem = filter (\<lambda>a. flag (msk ! a)) [0..<n]" "\<forall>a\<in>set mem. is_finite (row ! a)" "q < length mem"
  shows "pct_rank ar (map (\<lambda>a. row ! a) mem) ! q = pct_rank ar (map2 (\<lambda>m v. if flag m then v else NaN) msk row) ! (mem ! q)"
proof -
  let ?x = "map (\<lambda>a. row ! a) mem" and ?y = "map2 (\<lambda>m v. if flag m then v else NaN) msk row"
  have y: "?y ! a = (if flag (msk ! a) then row ! a else NaN)" if "a < n" for a using that assms(1,2) by simp
  have mq: "mem ! q \<in> set mem" using assms(5) by simp
  then have a: "mem ! q < n" "flag (msk ! (mem ! q))" unfolding assms(3) by auto
  have e: "?x ! q = row ! (mem ! q)" "?y ! (mem ! q) = row ! (mem ! q)" using assms(5) y [OF a(1)] a(2) by simp_all
  have fy: "finite_positions ?y = mem" unfolding finite_positions_def
    by (subst assms(3), rule filter_cong) (use y assms in auto)
  have my: "?y ! b = row ! b" if "b \<in> set mem" for b using that y unfolding assms(3) by auto
  have fx: "finite_positions ?x = [0..<length mem]" using assms(4) by (auto simp: finite_positions_def filter_id_conv)
  have cx: "length (filter (\<lambda>i. P (?x ! i)) [0..<length mem]) = length (filter (\<lambda>b. P (row ! b)) mem)" for P
    using length_filter_nth [of "\<lambda>v. P v" ?x] by (simp add: filter_map comp_def)
  have cy: "filter (\<lambda>b. P (?y ! b)) mem = filter (\<lambda>b. P (row ! b)) mem" for P using my by (auto intro!: filter_cong)
  have fin: "is_finite (?x ! q)" "is_finite (?y ! (mem ! q))" "mem ! q < length ?y" "q < length ?x" using assms(1,2,4,5) e mq a(1) by auto
  show ?thesis unfolding pct_rank_value [OF fin(4,1)] pct_rank_value [OF fin(3,2)] fx fy e
    using cx [of "\<lambda>v. v < row ! (mem ! q)"] cx [of "\<lambda>v. v \<le> row ! (mem ! q)"] cy [of "\<lambda>v. v < row ! (mem ! q)"] cy [of "\<lambda>v. v \<le> row ! (mem ! q)"]
    by simp
qed

text \<open>The numerators of the members are the accumulator of the score column, read at the members.\<close>

lemma numerators_score_loop:
  assumes "length msk = n_a ax" "mem = filter (\<lambda>a. flag (msk ! a)) [0..<n_a ax]"
    "list_all2 (\<lambda>t (f, w). snd t = w \<and> column blk (length mem) (fst t) = ranks_of ar ax T d mem f) ts ws"
    "\<forall>f\<in>fst ` set ws. \<forall>a\<in>set mem. is_finite (gather_cs_row ax T f d ! a)"
    "score_loop ar ax d T msk ws acc = Ok acc'"
  shows "foldl (\<lambda>acc (c, w). map (\<lambda>j. fadd (single ar) (acc ! j) (fmul (single ar) w (column blk (length mem) c ! j))) [0..<length mem])
      (map (\<lambda>a. acc ! a) mem) ts = map (\<lambda>a. acc' ! a) mem"
  using assms(3-5)
proof (induction ws arbitrary: ts acc rule: list.induct)
  case (Cons fw ws)
  obtain f w where fw: "fw = (f, w)" by (cases fw)
  from Cons.prems(1) obtain t ts' where ts: "ts = t # ts'" "snd t = w" "column blk (length mem) (fst t) = ranks_of ar ax T d mem f"
    "list_all2 (\<lambda>t (f, w). snd t = w \<and> column blk (length mem) (fst t) = ranks_of ar ax T d mem f) ts' ws"
    by (auto simp: fw list_all2_Cons2)
  let ?c = "pct_rank ar (map2 (\<lambda>m v. if flag m then v else NaN) msk (gather_cs_row ax T f d))"
  let ?acc = "map (\<lambda>a. if flag (msk ! a) then fadd (single ar) (acc ! a) (fmul (single ar) w (?c ! a)) else acc ! a) [0..<n_a ax]"
  have step: "score_loop ar ax d T msk ws ?acc = Ok acc'"
    using Cons.prems(3) unfolding fw score_loop.simps Let_def by (simp split: if_splits)
  have lg: "length (gather_cs_row ax T f d) = n_a ax" by (simp add: gather_cs_row_def mat_gather_def)
  have f: "\<forall>a\<in>set mem. is_finite (gather_cs_row ax T f d ! a)" using Cons.prems(2) by (simp add: fw)
  have "map (\<lambda>j. fadd (single ar) (map (\<lambda>a. acc ! a) mem ! j) (fmul (single ar) w (ranks_of ar ax T d mem f ! j))) [0..<length mem]
      = map (\<lambda>a. ?acc ! a) mem"
  proof (rule nth_equalityI)
    fix j assume "j < length (map (\<lambda>j. fadd (single ar) (map (\<lambda>a. acc ! a) mem ! j) (fmul (single ar) w (ranks_of ar ax T d mem f ! j))) [0..<length mem])"
    then have j: "j < length mem" by simp
    then have "mem ! j \<in> set mem" by simp
    then have "mem ! j < n_a ax" "flag (msk ! (mem ! j))" unfolding assms(2) by auto
    then show "map (\<lambda>j. fadd (single ar) (map (\<lambda>a. acc ! a) mem ! j) (fmul (single ar) w (ranks_of ar ax T d mem f ! j))) [0..<length mem] ! j
        = map (\<lambda>a. ?acc ! a) mem ! j"
      using j compact_ranks [OF assms(1) lg assms(2) f j, of ar] by (simp add: ranks_of_def)
  qed simp
  with Cons.IH [OF ts(4) _ step] Cons.prems(2) show ?case by (simp add: ts(1-3) split_def)
qed simp

text \<open>The plan of a strategy's weights keeps their order, and its divisor is the one of the score column.\<close>

lemma factor_column_Ok: "factor_column fs f = Ok c \<Longrightarrow> c < length fs \<and> fs ! c = f"
proof -
  have "foldl (\<lambda>c j. if fs ! j = f then Some j else c) None [0..<n] = Some c \<Longrightarrow> c < n \<and> fs ! c = f" for n c
    by (induction n) (auto split: if_splits)
  then show "factor_column fs f = Ok c \<Longrightarrow> c < length fs \<and> fs ! c = f" by (auto simp: factor_column_def split: option.splits)
qed

lemma plan_of_weights_Ok:
  assumes "plan_of_weights ar fs ws = Ok p"
  shows "list_all2 (\<lambda>t (f, w). snd t = w \<and> fst t < length fs \<and> fs ! fst t = f) (pl_terms p) ws" "pl_wsum p = weight_sum ar ws"
proof -
  let ?R = "\<lambda>t (f, w). snd t = w \<and> fst t < length fs \<and> fs ! fst t = f"
  obtain q where q: "fold_ok (\<lambda>p (f, w). bind_ok (factor_column fs f) (\<lambda>c. push_term (length fs) c w p)) new_plan ws = Ok q" "seal ar q = Ok p"
    using assms by (auto simp: plan_of_weights_def bind_ok_Ok_iff split: if_splits)
  have "list_all2 ?R (pl_terms q) (vs @ ws) \<and> pl_wsum q = pl_wsum p0"
    if "fold_ok (\<lambda>p (f, w). bind_ok (factor_column fs f) (\<lambda>c. push_term (length fs) c w p)) p0 ws = Ok q" "list_all2 ?R (pl_terms p0) vs" for p0 vs
    using that
  proof (induction ws arbitrary: p0 vs rule: list.induct)
    case (Cons fw ws)
    obtain f w where fw: "fw = (f, w)" by (cases fw)
    from Cons.prems(1) obtain c p1 where c: "factor_column fs f = Ok c" "push_term (length fs) c w p0 = Ok p1"
      "fold_ok (\<lambda>p (f, w). bind_ok (factor_column fs f) (\<lambda>c. push_term (length fs) c w p)) p1 ws = Ok q"
      by (auto simp: fw bind_ok_Ok_iff)
    have p1: "p1 = p0\<lparr>pl_terms := pl_terms p0 @ [(c, w)]\<rparr>" using c(2) by (simp add: push_term_def split: if_splits)
    have "list_all2 ?R (pl_terms p1) (vs @ [fw])"
      using Cons.prems(2) factor_column_Ok [OF c(1)] by (simp add: p1 fw list_all2_appendI)
    from Cons.IH [OF c(3) this] show ?case by (simp add: p1)
  qed simp
  from this [OF q(1), of "[]"] have t: "list_all2 ?R (pl_terms q) ws" "pl_wsum q = Fin 0" by (simp_all add: new_plan_def)
  have "map snd (pl_terms q) = map snd ws" using t(1) by (induction rule: list_all2_induct) auto
  then have "foldl (\<lambda>s w. fadd (single ar) s (fabs w)) (Fin 0) (map snd (pl_terms q)) = foldl (\<lambda>s w. fadd (single ar) s (fabs w)) (Fin 0) (map snd ws)"
    by (simp only:)
  then have "foldl (\<lambda>s t. fadd (single ar) s (fabs (snd t))) (Fin 0) (pl_terms q) = weight_sum ar ws"
    by (simp add: weight_sum_def foldl_map)
  with q(2) t show "list_all2 ?R (pl_terms p) ws" "pl_wsum p = weight_sum ar ws"
    by (auto simp: seal_def Let_def split: if_splits)
qed

text \<open>The ranking of a day is the final order of the members with the scores of the column.\<close>

lemma ranking_in_order:
  assumes "score_column_ok ax s d T"
  shows "ranking ax s d T = in_order (map (\<lambda>a. (strat_at ax T (slot s SF_score) a d, a)) (pool_row ax T s d))"
proof -
  have f: "filter (\<lambda>a. flag (strat_gather_cs_row ax T (slot s SF_pool) d ! a) \<and> is_finite (strat_gather_cs_row ax T (slot s SF_score) d ! a)) [0..<n_a ax]
      = pool_row ax T s d"
    unfolding pool_row_def by (intro filter_cong refl) (use assms in \<open>auto simp: score_column_ok_def strat_gather_at\<close>)
  have m: "map (\<lambda>a. (strat_gather_cs_row ax T (slot s SF_score) d ! a, a)) (pool_row ax T s d) =
      map (\<lambda>a. (strat_at ax T (slot s SF_score) a d, a)) (pool_row ax T s d)"
    by (intro map_cong refl) (auto simp: pool_row_def strat_gather_at)
  have "sorted (map snd (map (\<lambda>a. (strat_at ax T (slot s SF_score) a d, a)) (pool_row ax T s d)))"
    by (simp add: comp_def pool_row_def sorted_wrt_filter)
  then show ?thesis unfolding ranking_def Let_def map_filter_if in_order_def f m by (simp only: sort_key_id_if_sorted)
qed

lemma day_scores:
  fixes ax :: axes and T :: tensor and s d_lo i :: nat
  defines "mem \<equiv> pool_row ax T s (d_lo + i)"
  assumes "format_rounding (single ar)" "weights_ok ar spec" "plan_of_weights ar fs (st_weights spec) = Ok p"
    "store_ok ar ax T mk s fs d_lo n st" "pools_clean ax T mk s fs d_lo n" "i < n"
    "score_column_ok ax s (d_lo + i) T" "score_column_exact ar ax spec s (d_lo + i) T"
  shows "scored ar (block (length fs) st i) (day_members st i) (cnt st i) p = map (\<lambda>a. (strat_at ax T (slot s SF_score) a (d_lo + i), a)) mem"
    "list_all is_finite (numerators ar (block (length fs) st i) (cnt st i) (pl_terms p))"
    "\<exists>W>0. pl_wsum p = Fin W" "day_members st i = mem" "cnt st i = length mem" "mem \<noteq> []"
proof -
  let ?blk = "block (length fs) st i" and ?d = "d_lo + i"
  let ?msk = "strat_gather_cs_row ax T (slot s SF_pool) ?d"
  obtain W where W: "weight_sum ar (st_weights spec) = Fin W" "0 < W" using weight_sum_pos [OF assms(2,3)] by blast
  note p = plan_of_weights_Ok [OF assms(4)]
  have w: "pl_wsum p = Fin W" by (simp add: p(2) W(1))
  then show "\<exists>W>0. pl_wsum p = Fin W" using W(2) by blast
  show m: "day_members st i = mem" "cnt st i = length mem" using assms(5,7) by (simp_all add: store_ok_def Let_def mem_def)
  show "mem \<noteq> []" using assms(6,7) by (simp add: pools_clean_def mem_def)
  from assms(9) obtain acc where acc: "score_loop ar ax ?d T ?msk (st_weights spec) (replicate (n_a ax) (Fin 0)) = Ok acc"
    "\<And>a. a < n_a ax \<Longrightarrow> strat_at ax T (slot s SF_score) a ?d = (if flag (strat_at ax T (slot s SF_pool) a ?d)
       then fdiv (single ar) (acc ! a) (weight_sum ar (st_weights spec)) else Fin 0)"
    unfolding score_column_exact_def by blast
  have mem: "a < n_a ax \<and> flag (strat_at ax T (slot s SF_pool) a ?d)" if "a \<in> set mem" for a
    using that by (auto simp: mem_def pool_row_def strat_gather_at)
  have col: "column ?blk (length mem) c = ranks_of ar ax T ?d mem (fs ! c)" if "c < length fs" for c
    using store_column(1) [OF assms(5,7) that] by (simp add: m(2) mem_def)
  have ts: "list_all2 (\<lambda>t (f, w). snd t = w \<and> column ?blk (length mem) (fst t) = ranks_of ar ax T ?d mem f) (pl_terms p) (st_weights spec)"
    by (rule list_all2_mono [OF p(1)]) (auto simp: col)
  have "fst ` set (st_weights spec) \<subseteq> set fs"
    using p(1) by (auto simp: list_all2_conv_all_nth in_set_conv_nth split_def) (metis fst_conv)
  then have fin: "\<forall>f\<in>fst ` set (st_weights spec). \<forall>a\<in>set mem. is_finite (gather_cs_row ax T f ?d ! a)"
    using assms(6,7) by (auto simp: pools_clean_def day_clean_def mem_def)
  have "map (\<lambda>a. replicate (n_a ax) (Fin 0) ! a) mem = replicate (length mem) (Fin 0)"
    by (rule nth_equalityI) (use mem in \<open>auto\<close>)
  with numerators_score_loop [OF _ _ ts fin acc(1)] have num: "numerators ar ?blk (cnt st i) (pl_terms p) = map (\<lambda>a. acc ! a) mem"
    by (simp add: numerators_def m(2) mem_def pool_row_def)
  have at: "strat_at ax T (slot s SF_score) a ?d = fdiv (single ar) (acc ! a) (Fin W)" if "a \<in> set mem" for a
    using acc(2) [of a] mem [OF that] W(1) by simp
  show "scored ar ?blk (day_members st i) (cnt st i) p = map (\<lambda>a. (strat_at ax T (slot s SF_score) a ?d, a)) mem"
    unfolding scored_def num m(1) w by (rule nth_equalityI) (simp_all add: at)
  have "is_finite (acc ! a)" if a: "a \<in> set mem" for a
  proof -
    obtain r where "strat_at ax T (slot s SF_score) a ?d = Fin r" using assms(8) mem [OF a] unfolding score_column_ok_def by blast
    then have "is_finite (fdiv (single ar) (acc ! a) (Fin W))" unfolding at [OF a] by simp
    with W(2) show ?thesis by (cases "acc ! a") auto
  qed
  then show "list_all is_finite (numerators ar ?blk (cnt st i) (pl_terms p))" by (simp add: num list_all_iff)
qed

section \<open>The search runs the backtest\<close>

lemma step_settings:
  assumes "step ar sorter mk i cands e = Ok e'"
  shows "en_hold_n e' = en_hold_n e" "en_exit_ratio e' = en_exit_ratio e"
proof -
  from step_split [OF assms] obtain e1 where e1: "liquidate ar mk i (e\<lparr>en_turn_amt := Fin 0, en_events := []\<rparr>) = Ok e1"
    "close_day ar mk i (trade ar sorter mk i cands (e1\<lparr>en_pv := fadd (double ar) (en_cash e1) (market_value ar mk i (en_holdings e1))\<rparr>)) = Ok e'" .
  from liquidate_fields(2,3) [OF e1(1)] close_day_fields(5) [OF e1(2)] trade_effect(2,3)
  show "en_hold_n e' = en_hold_n e" "en_exit_ratio e' = en_exit_ratio e" by (simp_all add: same_settings_def)
qed

text \<open>The only way the cut can fail: the names around it have the same score, the whole margin (or all that are left) with them.\<close>

definition tied :: "axes \<Rightarrow> tensor \<Rightarrow> nat \<Rightarrow> nat \<Rightarrow> nat \<Rightarrow> bool" where
  "tied ax T s d k \<longleftrightarrow> (let mem = pool_row ax T s d in k < length mem \<and>
     (\<exists>v S. S \<subseteq> set mem \<and> card S = min (length mem - k) TIE_MARGIN + 1 \<and> (\<forall>a\<in>S. strat_at ax T (slot s SF_score) a d = v)))"

lemma fneg_fneg: "fneg (fneg x) = x"
  by (cases x) simp_all

lemma lane_step:
  fixes ax :: axes and T :: tensor and s d_lo i :: nat and e :: engine
  assumes "format_rounding (single ar)" "weights_ok ar spec" "plan_of_weights ar fs (st_weights spec) = Ok p"
    "store_ok ar ax T mk s fs d_lo n st" "pools_clean ax T mk s fs d_lo n" "i < n"
    "score_column_ok ax s (d_lo + i) T" "score_column_exact ar ax spec s (d_lo + i) T"
    "0 < k" "en_hold_n e \<le> int k" "exit_limit ar e \<le> int k" "ln_engine l = e"
    "step ar sorter mk i (ranking ax s (d_lo + i) T) e = Ok e'"
  shows "lane_day ar sorter mk (length fs) st k i (p, l) = Fail MarginTie \<and> tied ax T s (d_lo + i) k \<or>
    (\<exists>t. lane_day ar sorter mk (length fs) st k i (p, l) =
       Ok \<lparr>ln_engine = e', ln_navs = ln_navs l @ [narrow ar (en_pv_end e')], ln_turn = t\<rparr>)"
proof -
  note d = day_scores [OF assms(1-8)]
  let ?mem = "pool_row ax T s (d_lo + i)" and ?nk = "min (cnt st i) k"
  obtain W where W: "pl_wsum p = Fin W" "0 < W" using d(3) by blast
  have R: "rounding (single ar)" using assms(1) by (simp add: format_rounding_def)
  have nk: "0 < ?nk" "?nk \<le> cnt st i" using d(5,6) assms(9) by simp_all
  have dm: "distinct (day_members st i)" "length (day_members st i) = cnt st i" by (simp_all add: d(4,5) pool_row_def)
  note S = select_top_cases [OF R W d(2) dm(2,1) nk]
  have rank: "in_order (scored ar (block (length fs) st i) (day_members st i) (cnt st i) p) = ranking ax s (d_lo + i) T"
    unfolding d(1) ranking_in_order [OF assms(7)] ..
  have len: "length (ranking ax s (d_lo + i) T) = cnt st i"
    unfolding ranking_in_order [OF assms(7)] by (simp add: in_order_def d(5))
  show ?thesis
  proof (cases "select_top ar (block (length fs) st i) (day_members st i) (cnt st i) p ?nk")
    case (Fail x)
    have sc: "set (scored ar (block (length fs) st i) (day_members st i) (cnt st i) p) =
        (\<lambda>a. (strat_at ax T (slot s SF_score) a (d_lo + i), a)) ` set ?mem" using d(1) by simp
    from S(2) [OF Fail, unfolded sc] obtain v S where x: "x = MarginTie"
      and S: "S \<subseteq> (\<lambda>a. (strat_at ax T (slot s SF_score) a (d_lo + i), a)) ` set ?mem"
      "card S = min (cnt st i - ?nk) TIE_MARGIN + 1" "\<forall>q\<in>S. fneg (fst q) = v" "?nk < cnt st i" by blast
    have "card (snd ` S) = card S" by (rule card_image, rule inj_on_subset [OF _ S(1)]) (auto simp: inj_on_def)
    moreover have "snd ` S \<subseteq> set ?mem" using S(1) by auto
    moreover have "strat_at ax T (slot s SF_score) a (d_lo + i) = fneg v" if a: "a \<in> snd ` S" for a
    proof -
      obtain q where q: "q \<in> S" "a = snd q" using a by blast
      then have "fst q = strat_at ax T (slot s SF_score) a (d_lo + i)" using S(1) by auto
      then show ?thesis using bspec [OF S(3) q(1)] fneg_fneg by metis
    qed
    moreover have "?nk = k" using S(4) by (auto simp: min_def split: if_splits)
    ultimately have "tied ax T s (d_lo + i) k" unfolding tied_def Let_def using S(2,4) d(5) by metis
    with x Fail show ?thesis by (simp add: lane_day_def Let_def)
  next
    case (Ok sel)
    have "take ?nk sel = take k (ranking ax s (d_lo + i) T)" using S(1) [OF Ok] rank len by (simp add: min_def)
    then have "step ar sorter mk i (take ?nk sel) (ln_engine l) = Ok e'"
      using step_take [OF assms(10,11), where cands = "ranking ax s (d_lo + i) T"] assms(12,13) by simp
    then show ?thesis by (simp add: lane_day_def Let_def Ok)
  qed
qed

text \<open>What a day of the backtest does to the engine and the series of values.\<close>

lemma on_event_kept: "on_event rv b v = Ok b' \<Longrightarrow> same_report b b'"
  by (cases v) (auto simp: close_position_def push_fill_def close_trade_def Let_def same_report_def split: option.splits)

lemma lift_error_Ok_iff: "lift_error h r = Ok x \<longleftrightarrow> r = Ok x"
  by (cases r) simp_all

lemma backtest_day_nav:
  assumes "rank_column_ok (rv_axes rv) (rv_strategy rv) (rv_d_lo rv + i) (rv_tensor rv)" "backtest_day rv w b i = Ok b'"
  shows "\<exists>e. step (rv_ar rv) (rv_deficits rv) (rv_market rv) i (ranking (rv_axes rv) (rv_strategy rv) (rv_d_lo rv + i) (rv_tensor rv)) (bk_engine b) = Ok e
    \<and> bk_engine b' = e \<and> bk_strat_nav b' = bk_strat_nav b @ [narrow (rv_ar rv) (en_pv_end e)]"
proof -
  let ?cands = "ranking (rv_axes rv) (rv_strategy rv) (rv_d_lo rv + i) (rv_tensor rv)"
  from assms(2) obtain e b1 x where e: "step (rv_ar rv) (rv_deficits rv) (rv_market rv) i ?cands (bk_engine b) = Ok e"
    and b1: "fold_ok (on_event rv) (b\<lparr>bk_engine := e, bk_buy_fill_idx := [], bk_bought_today := []\<rparr>) (en_events e) = Ok b1"
    and b': "b' = report_day rv w i ?cands e (b1\<lparr>bk_strat_nav := bk_strat_nav b1 @ [narrow (rv_ar rv) (en_pv_end e)], bk_pool_nav_d := x,
                  bk_pool_nav := bk_pool_nav b1 @ [narrow (rv_ar rv) x]\<rparr>)"
    unfolding backtest_day_def Let_def rank_candidates_ranking [OF assms(1)] by (auto simp: bind_ok_Ok_iff lift_error_Ok_iff)
  have "same_report (b\<lparr>bk_engine := e, bk_buy_fill_idx := [], bk_bought_today := []\<rparr>) b1"
    by (rule fold_ok_invariant [OF _ _ b1]) (auto intro: same_report_refl same_report_trans dest: on_event_kept)
  then have "bk_engine b1 = e" "bk_strat_nav b1 = bk_strat_nav b" by (simp_all add: same_report_def)
  with report_day_fields(1,5) [OF b'] e show ?thesis by simp
qed

lemma fold_ok_prefix: "fold_ok f s (xs @ ys) = Ok t \<Longrightarrow> \<exists>u. fold_ok f s xs = Ok u \<and> fold_ok f u ys = Ok t"
  by (auto simp: fold_ok_append bind_ok_Ok_iff)

lemma lanes_follow:
  fixes ax :: axes and T :: tensor and s :: nat and rv :: run_env
  assumes "format_rounding (single ar)" "weights_ok ar spec" "plan_of_weights ar fs (st_weights spec) = Ok p"
    "store_ok ar ax T (rv_market rv) s fs (rv_d_lo rv) n st" "pools_clean ax T (rv_market rv) s fs (rv_d_lo rv) n"
    "\<forall>i<n. score_column_ok ax s (rv_d_lo rv + i) T \<and> score_column_exact ar ax spec s (rv_d_lo rv + i) T \<and> rank_column_ok ax s (rv_d_lo rv + i) T"
    "0 < k" "en_hold_n e0 \<le> int k" "exit_limit ar e0 \<le> int k"
    "rv_ar rv = ar" "rv_axes rv = ax" "rv_tensor rv = T" "rv_strategy rv = s"
    "bk_engine b0 = e0" "ln_engine l0 = e0" "ln_navs l0 = bk_strat_nav b0" "m \<le> n"
    "fold_ok (backtest_day rv w) b0 [0..<m] = Ok b"
  shows "fold_ok (\<lambda>lns i. map_ok (lane_day ar (rv_deficits rv) (rv_market rv) (length fs) st k i) (zip [p] lns)) [l0] [0..<m] = Fail MarginTie \<and>
      (\<exists>i<m. tied ax T s (rv_d_lo rv + i) k) \<or>
    (\<exists>l. fold_ok (\<lambda>lns i. map_ok (lane_day ar (rv_deficits rv) (rv_market rv) (length fs) st k i) (zip [p] lns)) [l0] [0..<m] = Ok [l] \<and>
       ln_navs l = bk_strat_nav b \<and> ln_engine l = bk_engine b \<and> en_hold_n (bk_engine b) = en_hold_n e0 \<and>
       en_exit_ratio (bk_engine b) = en_exit_ratio e0)"
  using assms(17,18)
proof (induction m arbitrary: b)
  case 0
  then show ?case using assms(14-16) by simp
next
  case (Suc m)
  let ?f = "\<lambda>lns i. map_ok (lane_day ar (rv_deficits rv) (rv_market rv) (length fs) st k i) (zip [p] lns)"
  obtain b1 where b1: "fold_ok (backtest_day rv w) b0 [0..<m] = Ok b1" "backtest_day rv w b1 m = Ok b"
    using fold_ok_prefix [of "backtest_day rv w" b0 "[0..<m]" "[m]" b] Suc.prems(2) by (auto simp: bind_ok_Ok_iff)
  from Suc.IH [OF _ b1(1)] Suc.prems(1)
  consider "fold_ok ?f [l0] [0..<m] = Fail MarginTie" "\<exists>i<m. tied ax T s (rv_d_lo rv + i) k"
    | l where "fold_ok ?f [l0] [0..<m] = Ok [l]" "ln_navs l = bk_strat_nav b1" "ln_engine l = bk_engine b1"
      "en_hold_n (bk_engine b1) = en_hold_n e0" "en_exit_ratio (bk_engine b1) = en_exit_ratio e0" by auto
  then show ?case
  proof cases
    case 1
    then show ?thesis by (auto simp: fold_ok_append intro: less_SucI)
  next
    case 2
    have m: "m < n" using Suc.prems(1) by simp
    have cols: "score_column_ok ax s (rv_d_lo rv + m) T" "score_column_exact ar ax spec s (rv_d_lo rv + m) T" "rank_column_ok ax s (rv_d_lo rv + m) T"
      using assms(6) m by simp_all
    from cols(3) obtain e where e: "step ar (rv_deficits rv) (rv_market rv) m (ranking ax s (rv_d_lo rv + m) T) (bk_engine b1) = Ok e"
      "bk_engine b = e" "bk_strat_nav b = bk_strat_nav b1 @ [narrow ar (en_pv_end e)]"
      using backtest_day_nav [OF _ b1(2)] assms(10-13) by auto
    have k: "en_hold_n (bk_engine b1) \<le> int k" "exit_limit ar (bk_engine b1) \<le> int k"
      using assms(8,9) 2(4,5) n_top_keeps_fields [OF 2(4,5)] by simp_all
    from lane_step [OF assms(1-5) m cols(1,2) assms(7) k 2(3) e(1)]
    have "?f [l] m = Fail MarginTie \<and> tied ax T s (rv_d_lo rv + m) k \<or> (\<exists>t. ?f [l] m = Ok [\<lparr>ln_engine = e, ln_navs = ln_navs l @ [narrow ar (en_pv_end e)], ln_turn = t\<rparr>])"
      by auto
    moreover have "en_hold_n e = en_hold_n e0" "en_exit_ratio e = en_exit_ratio e0" using step_settings [OF e(1)] 2(4,5) by simp_all
    ultimately show ?thesis using 2(1,2) e(2,3) by (auto simp: fold_ok_append)
  qed
qed

section \<open>The batch\<close>

text \<open>The lanes of a batch do not see each other.\<close>

lemma lanes_apart:
  "length ls = length ps \<Longrightarrow> fold_ok (\<lambda>lns i. map_ok (f i) (zip ps lns)) ls is = Ok lns \<longleftrightarrow>
     length lns = length ps \<and> (\<forall>b<length ps. fold_ok (\<lambda>l i. f i (ps ! b, l)) (ls ! b) is = Ok (lns ! b))"
proof (induction "is" arbitrary: ls)
  case Nil
  then show ?case by (auto intro: nth_equalityI)
next
  case (Cons i "is")
  have day: "map_ok (f i) (zip ps ls) = Ok ms \<longleftrightarrow> length ms = length ps \<and> (\<forall>b<length ps. f i (ps ! b, ls ! b) = Ok (ms ! b))" for ms
    using Cons.prems by (auto simp: map_ok_all2 list_all2_conv_all_nth)
  have "fold_ok (\<lambda>lns i. map_ok (f i) (zip ps lns)) ls (i # is) = Ok lns \<longleftrightarrow>
      (\<exists>ms. length ms = length ps \<and> (\<forall>b<length ps. f i (ps ! b, ls ! b) = Ok (ms ! b)) \<and>
         length lns = length ps \<and> (\<forall>b<length ps. fold_ok (\<lambda>l i. f i (ps ! b, l)) (ms ! b) is = Ok (lns ! b)))"
    using Cons.IH by (auto simp: bind_ok_Ok_iff day)
  also have "\<dots> \<longleftrightarrow> length lns = length ps \<and>
      (\<forall>b<length ps. \<exists>m. f i (ps ! b, ls ! b) = Ok m \<and> fold_ok (\<lambda>l i. f i (ps ! b, l)) m is = Ok (lns ! b))" (is "_ \<longleftrightarrow> ?r \<and> ?s")
  proof
    assume r: "?r \<and> ?s"
    then obtain g where "\<forall>b<length ps. f i (ps ! b, ls ! b) = Ok (g b) \<and> fold_ok (\<lambda>l i. f i (ps ! b, l)) (g b) is = Ok (lns ! b)" by metis
    with r show "\<exists>ms. length ms = length ps \<and> (\<forall>b<length ps. f i (ps ! b, ls ! b) = Ok (ms ! b)) \<and>
         length lns = length ps \<and> (\<forall>b<length ps. fold_ok (\<lambda>l i. f i (ps ! b, l)) (ms ! b) is = Ok (lns ! b))"
      by (intro exI [of _ "map g [0..<length ps]"]) simp
  qed auto
  finally show ?case by (simp add: bind_ok_Ok_iff)
qed

lemma reset_is_new:
  "reset ar e = (new_engine ar (en_hold_n e) (en_exit_ratio e))\<lparr>en_events := en_events e\<rparr>"
  by (simp add: reset_def new_engine_def)

lemma step_forgets_events: "step ar sorter mk i cands (e\<lparr>en_events := x\<rparr>) = step ar sorter mk i cands e"
  by (simp add: step_def)

lemma lane_day_reset:
  "lane_day ar sorter mk nf st k i (p, \<lparr>ln_engine = reset ar e, ln_navs = v, ln_turn = t\<rparr>) =
   lane_day ar sorter mk nf st k i (p, \<lparr>ln_engine = new_engine ar (en_hold_n e) (en_exit_ratio e), ln_navs = v, ln_turn = t\<rparr>)"
  by (simp add: lane_day_def reset_is_new step_forgets_events Let_def)

lemma run_batch_one:
  fixes e :: engine
  shows "run_batch ar sorter mk nf st k [p] [e] = Ok ([l], [m]) \<longleftrightarrow>
    fold_ok (\<lambda>l i. lane_day ar sorter mk nf st k i (p, l)) (start_lane ar e) [0..<sr_n_d st] = Ok l \<and> lane_metrics ar (sr_n_d st) l = Ok m"
  using lanes_apart [of "[start_lane ar e]" "[p]" "lane_day ar sorter mk nf st k" "[0..<sr_n_d st]" "[l]"]
  by (auto simp: run_batch_def batch_days_def bind_ok_Ok_iff)

lemma start_lane_new:
  fixes e :: engine
  assumes "0 < n"
  shows "fold_ok (\<lambda>l i. lane_day ar sorter mk nf st k i (p, l)) (start_lane ar e) [0..<n] =
    fold_ok (\<lambda>l i. lane_day ar sorter mk nf st k i (p, l)) (start_lane ar (new_engine ar (en_hold_n e) (en_exit_ratio e))) [0..<n]"
proof -
  have "start_lane ar (new_engine ar (en_hold_n e) (en_exit_ratio e)) = \<lparr>ln_engine = new_engine ar (en_hold_n e) (en_exit_ratio e), ln_navs = [], ln_turn = Fin 0\<rparr>"
    by (simp add: start_lane_def new_engine_def reset_def)
  with assms show ?thesis by (simp add: upt_conv_Cons start_lane_def lane_day_reset)
qed

section \<open>A run of one day\<close>

definition mine_strategy :: strategy_spec where
  "mine_strategy = (strat_0 exact_arith)\<lparr>st_weights := [(Mcap, Fin 1)], st_hold_n := 1, st_exit_ratio := Fin 1, st_bt_start_date := ''20240103''\<rparr>"

lemma mine_mats:
  assumes "a < 2" "d < 2"
  shows "tensor_at sample_axes mine_tensor Susp a d = Fin 0" "tensor_at sample_axes mine_tensor Limit_up a d = Fin 0"
    "tensor_at sample_axes mine_tensor Limit_dn a d = Fin 0" "tensor_at sample_axes mine_tensor Delist_age a d = NaN"
    "d = 1 \<Longrightarrow> tensor_at sample_axes mine_tensor Close_raw a d = (if a = 0 then Fin 4 else Fin 5)"
  using assms by (auto simp: tensor_at_def mine_tensor_def bt_tensor_def mat_off_def sample_axes_ok less_Suc_eq numeral_2_eq_2)

lemma mine_find: "find_d sample_axes (st_bt_start_date mine_strategy) False = 1"
  by (simp add: mine_strategy_def find_d_def) code_simp


definition one_day :: market_window where
  "one_day = \<lparr>mk_d_lo = 1, mk_n_d = 1, mk_n_a = 2, mk_close = [Fin 4, Fin 5], mk_flags = [0, 0]\<rparr>"

lemma mine_pct: "pct_rank exact_arith [Fin 1, Fin 0] = [Fin 1, Fin 0]" "pct_rank exact_arith [Fin 0, Fin 1] = [Fin 0, Fin 1]"
  by (simp_all add: pct_rank_def finite_positions_def fill_at_def tie_rank_def less_eq_fval_def fsub_def upt_rec)

lemma list_of_two: "length xs = 2 \<Longrightarrow> xs = [xs ! 0, xs ! 1]"
  by (auto simp: numeral_2_eq_2 length_Suc_conv)

lemma mine_cols:
  assumes "d < 2"
  shows "score_column_ok sample_axes 0 d mine_tensor" "score_column_exact exact_arith sample_axes mine_strategy 0 d mine_tensor"
    "ranking sample_axes 0 d mine_tensor = [(Fin 1, d), (Fin 0, 1 - d)]" "rank_column_ok sample_axes 0 d mine_tensor"
proof -
  note at = mine_tensor_at [OF _ assms]
  show s: "score_column_ok sample_axes 0 d mine_tensor" using at by (auto simp: score_column_ok_def sample_axes_ok)
  have d: "d = 0 \<or> d = 1" using assms by auto
  let ?row = "\<lambda>x y. [Fin (if 0 = d then x else y), Fin (if 1 = d then x else y)]"
  have g1: "gather_cs_row sample_axes mine_tensor Mcap d = ?row 1 0"
  proof (rule trans [OF list_of_two])
    show "length (gather_cs_row sample_axes mine_tensor Mcap d) = 2" by (simp add: gather_cs_row_def mat_gather_def sample_axes_ok)
  qed (use at(4) [of 0] at(4) [of 1] in simp)
  have g2: "strat_gather_cs_row sample_axes mine_tensor (slot 0 SF_pool) d = [Fin 1, Fin 1]"
  proof (rule trans [OF list_of_two])
    show "length (strat_gather_cs_row sample_axes mine_tensor (slot 0 SF_pool) d) = 2" by (simp add: sample_axes_ok)
  qed (use at(1) [of 0] at(1) [of 1] in \<open>simp add: strat_gather_at sample_axes_ok\<close>)
  note g = g1 g2
  have n: "n_a sample_axes = 2" by (simp add: sample_axes_ok)
  have sl: "score_loop exact_arith sample_axes d mine_tensor [Fin 1, Fin 1] [(Mcap, Fin 1)] [Fin 0, Fin 0] = Ok (?row 1 0)"
    using d mine_pct by (auto simp: g n upt_rec)
  show "score_column_exact exact_arith sample_axes mine_strategy 0 d mine_tensor"
    unfolding score_column_exact_def
  proof (rule exI [of _ "?row 1 0"], intro conjI allI impI)
    show "score_loop exact_arith sample_axes d mine_tensor (strat_gather_cs_row sample_axes mine_tensor (slot 0 SF_pool) d) (st_weights mine_strategy)
        (replicate (n_a sample_axes) (Fin 0)) = Ok (?row 1 0)"
      using sl by (simp add: g n mine_strategy_def numeral_2_eq_2)
    fix a assume "a < n_a sample_axes"
    then have a: "a < 2" by (simp add: n)
    have "weight_sum exact_arith (st_weights mine_strategy) = Fin 1" by (simp add: weight_sum_def mine_strategy_def)
    with at(1,2) [OF a] a show "strat_at sample_axes mine_tensor (slot 0 SF_score) a d = (if flag (strat_at sample_axes mine_tensor (slot 0 SF_pool) a d)
        then fdiv (single exact_arith) (?row 1 0 ! a) (weight_sum exact_arith (st_weights mine_strategy)) else Fin 0)"
      by (auto simp: less_Suc_eq numeral_2_eq_2)
  qed
  show "ranking sample_axes 0 d mine_tensor = [(Fin 1, d), (Fin 0, 1 - d)]"
    unfolding ranking_in_order [OF s] mine_pool [OF assms] using d at(2) [of 0] at(2) [of 1]
    by (auto simp: in_order_def less_eq_fval_def)
  have r: "rankable sample_axes 0 d mine_tensor = {0, 1}" using at by (auto simp: rankable_def n)
  have o: "outranks sample_axes 0 d mine_tensor b a \<longleftrightarrow> b = d \<and> a \<noteq> d" if "a < 2" "b < 2" for a b
    using at(2) [OF that(1)] at(2) [OF that(2)] d that by (auto simp: outranks_def)
  show "rank_column_ok sample_axes 0 d mine_tensor" unfolding rank_column_ok_def r n
  proof (intro allI impI)
    fix a :: nat assume a: "a < 2"
    then have "a \<in> {0, 1}" by auto
    moreover have "{b \<in> {0, 1}. outranks sample_axes 0 d mine_tensor b a} = (if a = d then {} else {d})"
    proof -
      have "{b \<in> {0, 1}. outranks sample_axes 0 d mine_tensor b a} = {b \<in> {0, 1}. b = d \<and> a \<noteq> d}"
        by (intro Collect_cong conj_cong refl o [OF a]) auto
      also have "\<dots> = (if a = d then {} else {d})" using d by auto
      finally show ?thesis .
    qed
    ultimately show "strat_at sample_axes mine_tensor (slot 0 SF_rank) a d =
        Fin (if a \<in> {0, 1} then real (Suc (card {b \<in> {0, 1}. outranks sample_axes 0 d mine_tensor b a})) else 0)"
      using at(3) [OF a] by simp
  qed
qed

lemma mine_load: "load_market sample_axes mine_tensor 1 1 = Ok one_day"
  using mine_mats [of 0 1] mine_mats [of 1 1]
  by (simp add: load_market_def market_instrument_def market_day_def market_flags_def read_bool_def sample_axes_ok upt_rec Let_def one_day_def numeral_2_eq_2)

lemma one_day_at:
  "close_at one_day 0 (Suc 0) = Fin 5" "close_at one_day 0 0 = Fin 4" "flags_at one_day 0 0 = 0" "flags_at one_day 0 (Suc 0) = 0"
  by (simp_all add: close_at_def flags_at_def one_day_def)

lemma mine_step:
  "\<exists>e. step exact_arith sort_deficits one_day 0 [(Fin 1, 1), (Fin 0, 0)] (new_engine exact_arith 1 (Fin 1)) = Ok e"
proof -
  let ?c = "[(Fin 1, 1), (Fin 0, 0)]" and ?mk = one_day
  let ?e = "new_engine exact_arith 1 (Fin 1)\<lparr>en_turn_amt := Fin 0, en_events := []\<rparr>"
  let ?e2 = "?e\<lparr>en_pv := Fin 1000000\<rparr>"
  have l: "liquidate exact_arith ?mk 0 ?e = Ok ?e" by (simp add: liquidate_def new_engine_def reset_def)
  have m: "mark exact_arith ?mk 0 ?e = Ok ?e2" by (simp add: mark_def market_value_def new_engine_def reset_def CAPITAL_BASE_def Let_def)
  define e2 where "e2 = ?e2"
  have e2: "en_holdings e2 = []" "en_hold_n e2 = 1" by (simp_all add: e2_def new_engine_def reset_def)
  have h: "length (en_holdings (trade exact_arith sort_deficits ?mk 0 ?c e2)) \<le> 1"
  proof -
    have m0: "marked exact_arith ?mk 0 ?c e2 = []" by (simp add: sell_intents_def e2)
    obtain hs where hs: "map po_a (en_holdings (trade exact_arith sort_deficits ?mk 0 ?c e2)) = map po_a (filter (kept ?mk 0) [] @ hs)"
      "subseq (map po_a hs) (buy_list ?mk 0 ?c (sell_intents exact_arith ?mk 0 ?c e2))"
      using trade_effect(1) [of exact_arith sort_deficits ?mk 0 ?c e2] unfolding m0 by blast
    have "length (buy_list ?mk 0 ?c (sell_intents exact_arith ?mk 0 ?c e2)) \<le> 1"
      using length_buy_list [of ?mk 0 ?c "sell_intents exact_arith ?mk 0 ?c e2"] by (simp add: sell_intents_def e2)
    with list_emb_length [OF hs(2)] arg_cong [OF hs(1), of length] show ?thesis by simp
  qed
  have "en_hold_n (trade exact_arith sort_deficits ?mk 0 ?c e2) = 1" by (simp add: trade_effect(2) e2)
  with h have "\<exists>e. close_day exact_arith ?mk 0 (trade exact_arith sort_deficits ?mk 0 ?c e2) = Ok e" by (simp add: close_day_def Let_def cap_def)
  moreover have "step exact_arith sort_deficits ?mk 0 ?c (new_engine exact_arith 1 (Fin 1)) =
      close_day exact_arith ?mk 0 (trade exact_arith sort_deficits ?mk 0 ?c e2)"
    unfolding step_def l bind_ok.simps m e2_def by (simp add: one_day_def)
  ultimately show ?thesis by simp
qed

lemma mine_runs:
  "\<exists>rv b. run_days exact_arith sort_deficits (sort_desc snd) sample_axes bt_meta mine_tensor [[], []] mine_strategy 0 = Ok (rv, b) \<and>
     rv_market rv = one_day \<and> rv_d_lo rv = 1"
proof -
  let ?b0 = "new_book exact_arith mine_strategy" and ?e0 = "new_engine exact_arith 1 (Fin 1)"
  define rv where "rv = \<lparr>rv_ar = exact_arith, rv_deficits = sort_deficits, rv_weights = sort_desc snd, rv_axes = sample_axes, rv_meta = bt_meta,
    rv_tensor = mine_tensor, rv_timeline = [[], []], rv_strategy = 0, rv_d_lo = 1, rv_market = one_day\<rparr>"
  note L = load_market_closes [OF mine_load]
  have n: "n_d sample_axes = 2" "n_a sample_axes = 2" by (simp_all add: sample_axes_ok)
  have "run_ready rv" using L mine_cols(4) mine_tensor_at(1) sort_desc_sorts by (simp add: run_ready_def rv_def n one_day_def)
  moreover have h: "st_hold_n mine_strategy = 1" "st_exit_ratio mine_strategy = Fin 1" by (simp_all add: mine_strategy_def)
  have "run_inv rv ?e0 0 ?b0" by (rule run_inv_new) (simp_all add: h)
  moreover have "en_hold_n ?e0 \<le> exit_limit (rv_ar rv) ?e0" by (simp add: rv_def exit_limit_def new_engine_def reset_def trunc_def)
  moreover have "0 < mk_n_d (rv_market rv)" by (simp add: rv_def one_day_def)
  moreover obtain e where "step (rv_ar rv) (rv_deficits rv) (rv_market rv) 0
      (ranking (rv_axes rv) (rv_strategy rv) (rv_d_lo rv + 0) (rv_tensor rv)) (bk_engine ?b0) = Ok e"
    using mine_step mine_cols(3) [of 1] by (auto simp: rv_def new_book_def h)
  ultimately obtain b where b: "backtest_day rv 2 ?b0 0 = Ok b" using day_kept [where w = 2] by blast
  have "run_days exact_arith sort_deficits (sort_desc snd) sample_axes bt_meta mine_tensor [[], []] mine_strategy 0 = Ok (rv, b)"
    unfolding run_days_def mine_find Let_def n using b mine_load by (simp add: h rv_def)
  then show ?thesis by (simp add: rv_def)
qed

definition lone_store :: pr_store where
  "lone_store = \<lparr>sr_n_d = 1, sr_max_cnt = 1, sr_off = [0, 1], sr_memb = [1], sr_pr = [Fin 1], sr_fret = [NaN], sr_voff = [0, 0], sr_vpr = [], sr_vfret = []\<rparr>"

definition lone_plan :: plan where
  "lone_plan = \<lparr>pl_terms = [(0, Fin 1)], pl_wsum = Fin 1\<rparr>"

lemma lone_select: "select_top exact_arith (block 1 lone_store 0) (day_members lone_store 0) (cnt lone_store 0) lone_plan 1 = Ok [(Fin 1, Suc 0)]"
  by (simp add: lone_store_def lone_plan_def cnt_def block_def day_members_def select_top_def numerators_def column_def substr_def upt_rec
      keep_best_def sift.simps in_order_def TIE_MARGIN_def Let_def)

lemma one_day_free: "\<not> limited one_day 0 (Suc 0)" "flags_at one_day 0 (Suc 0) = 0" "\<not> no_price (close_at one_day 0 (Suc 0))"
  "buy_list one_day 0 [(Fin 1, Suc 0)] (new_engine exact_arith 1 (Fin 1)\<lparr>en_turn_amt := Fin 0, en_events := [], en_pv := x\<rparr>) = [Suc 0]"
  by (simp_all add: limited_def one_day_at has_flag_def no_price_def fle_def buy_list_def n_top_def new_engine_def reset_def find_pos_def)

lemma lone_step:
  "\<exists>e. step exact_arith sort_deficits one_day 0 [(Fin 1, Suc 0)] (new_engine exact_arith 1 (Fin 1)) = Ok e \<and> en_pv_end e = Fin (10000000000 / 10003)"
proof -
  let ?e = "new_engine exact_arith 1 (Fin 1)\<lparr>en_turn_amt := Fin 0, en_events := []\<rparr>"
  define e2 where "e2 = ?e\<lparr>en_pv := Fin 1000000\<rparr>"
  have l: "liquidate exact_arith one_day 0 ?e = Ok ?e" by (simp add: liquidate_def new_engine_def reset_def)
  have m: "mark exact_arith one_day 0 ?e = Ok e2" by (simp add: e2_def mark_def market_value_def new_engine_def reset_def CAPITAL_BASE_def Let_def)
  have s: "sell_intents exact_arith one_day 0 [(Fin 1, Suc 0)] e2 = e2" by (simp add: sell_intents_def e2_def new_engine_def reset_def)
  have b: "buy_list one_day 0 [(Fin 1, Suc 0)] e2 = [Suc 0]" unfolding e2_def by (rule one_day_free)
  define e3 where "e3 = sell_all exact_arith one_day 0 (e2\<lparr>en_n_buy_intent := 1\<rparr>)"
  have e3: "en_holdings e3 = []" "en_cash e3 = Fin 1000000" "en_hold_n e3 = 1"
    by (simp_all add: e3_def sell_all_def e2_def new_engine_def reset_def CAPITAL_BASE_def)
  have t: "target_per_slot exact_arith one_day 0 e3 = Fin 1000000" by (simp add: target_per_slot_def market_value_def e3)
  define e4 where "e4 = buy_loop exact_arith one_day 0 (Fin 1000000) [Suc 0] (e3\<lparr>en_n_buy_ok := 0\<rparr>)"
  have sh: "shares_for exact_arith (Fin 1000000) (Fin 5) = Fin (2000000000 / 10003)" by (simp add: shares_for_def BUY_COST_def)
  have e4: "en_holdings e4 = [\<lparr>po_a = Suc 0, po_shares = Fin (2000000000 / 10003), po_to_sell = False\<rparr>]" "en_cash e4 = Fin 0" "en_hold_n e4 = 1"
    using one_day_free(3) by (simp_all add: e4_def Let_def e3 one_day_at std_min_def sh fle_def pay_def keep_pos_def tell_def fsub_def)
  have "trade exact_arith sort_deficits one_day 0 [(Fin 1, Suc 0)] e2 = e4"
  proof -
    have "trade exact_arith sort_deficits one_day 0 [(Fin 1, Suc 0)] e2 = rebalance exact_arith sort_deficits one_day 0 (Fin 1000000) e4"
      unfolding trade_def Let_def s b by (simp add: e3_def [symmetric, simplified] t e4_def del: buy_loop.simps)
    then show ?thesis by (simp add: rebalance_def e4)
  qed
  moreover have "close_day exact_arith one_day 0 e4 = Ok (e4\<lparr>en_mv_end := Fin (10000000000 / 10003), en_pv_end := Fin (10000000000 / 10003)\<rparr>)"
    by (simp add: close_day_def Let_def cap_def e4 market_value_def pos_value_def one_day_at)
  ultimately show ?thesis unfolding step_def l bind_ok.simps m by (simp add: one_day_def [symmetric]) (simp add: one_day_def)
qed

lemma lone_day:
  "\<exists>l m. run_batch exact_arith sort_deficits one_day 1 lone_store 1 [lone_plan] [new_engine exact_arith 1 (Fin 1)] = Ok ([l], [m])"
proof -
  obtain e where e: "step exact_arith sort_deficits one_day 0 [(Fin 1, Suc 0)] (new_engine exact_arith 1 (Fin 1)) = Ok e" "en_pv_end e = Fin (10000000000 / 10003)"
    using lone_step by blast
  have k: "min (cnt lone_store 0) 1 = 1" "sr_n_d lone_store = 1" by (simp_all add: cnt_def lone_store_def)
  have "start_lane exact_arith (new_engine exact_arith 1 (Fin 1)) = \<lparr>ln_engine = new_engine exact_arith 1 (Fin 1), ln_navs = [], ln_turn = Fin 0\<rparr>"
    by (simp add: start_lane_def new_engine_def reset_def)
  then obtain l where l: "fold_ok (\<lambda>l i. lane_day exact_arith sort_deficits one_day 1 lone_store 1 i (lone_plan, l))
      (start_lane exact_arith (new_engine exact_arith 1 (Fin 1))) [0..<1] = Ok l" "ln_navs l = [Fin (10000000000 / 10003)]"
    using e lone_select k by (simp add: lane_day_def Let_def narrow_def)
  have "\<exists>m. lane_metrics exact_arith 1 l = Ok m"
    using l(2) by (simp add: lane_metrics_def Let_def nav_stats_of_def daily_returns_def drawdown_curve_def)
  with l show ?thesis unfolding run_batch_one k by blast
qed

lemma run_batch_alone:
  assumes "length plans \<le> length engs" "\<forall>e\<in>set engs. en_hold_n e = st_hold_n spec \<and> en_exit_ratio e = st_exit_ratio spec" "0 < sr_n_d st"
  shows "run_batch ar sorter mk nf st k plans engs = Ok (lns, out) \<longleftrightarrow> length lns = length plans \<and> length out = length plans \<and>
    (\<forall>b<length plans. run_batch ar sorter mk nf st k [plans ! b] [new_engine ar (st_hold_n spec) (st_exit_ratio spec)] = Ok ([lns ! b], [out ! b]))"
proof -
  let ?f = "lane_day ar sorter mk nf st k" and ?ls = "map (start_lane ar) (take (length plans) engs)"
  have e: "en_hold_n (engs ! b) = st_hold_n spec" "en_exit_ratio (engs ! b) = st_exit_ratio spec" if "b < length plans" for b
    using that assms(1,2) by simp_all
  have "run_batch ar sorter mk nf st k plans engs = Ok (lns, out) \<longleftrightarrow>
      fold_ok (\<lambda>lns i. map_ok (?f i) (zip plans lns)) ?ls [0..<sr_n_d st] = Ok lns \<and> map_ok (lane_metrics ar (sr_n_d st)) lns = Ok out"
    by (auto simp: run_batch_def batch_days_def bind_ok_Ok_iff)
  also have "\<dots> \<longleftrightarrow> length lns = length plans \<and> length out = length plans \<and>
      (\<forall>b<length plans. fold_ok (\<lambda>l i. ?f i (plans ! b, l)) (?ls ! b) [0..<sr_n_d st] = Ok (lns ! b) \<and> lane_metrics ar (sr_n_d st) (lns ! b) = Ok (out ! b))"
    using assms(1) by (subst lanes_apart) (auto simp: map_ok_all2 list_all2_conv_all_nth)
  also have "\<dots> \<longleftrightarrow> length lns = length plans \<and> length out = length plans \<and>
    (\<forall>b<length plans. run_batch ar sorter mk nf st k [plans ! b] [new_engine ar (st_hold_n spec) (st_exit_ratio spec)] = Ok ([lns ! b], [out ! b]))"
  proof -
    have "fold_ok (\<lambda>l i. ?f i (p, l)) (?ls ! b) [0..<sr_n_d st] =
        fold_ok (\<lambda>l i. ?f i (p, l)) (start_lane ar (new_engine ar (st_hold_n spec) (st_exit_ratio spec))) [0..<sr_n_d st]" if "b < length plans" for b p
      using start_lane_new [OF assms(3), of ar sorter mk nf st k p "engs ! b"] e [OF that] that assms(1) by simp
    then show ?thesis by (simp add: run_batch_one cong: conj_cong)
  qed
  finally show ?thesis .
qed

lemma search_follows:
  assumes "format_rounding (single ar)" "weights_ok ar spec" "0 < st_hold_n spec"
    "\<forall>d<n_d ax. score_column_ok ax s d T \<and> score_column_exact ar ax spec s d T \<and> rank_column_ok ax s d T"
    "run_days ar dsort wsort ax meta T nt spec s = Ok (rv, b)" "set ord2 = {..<n_d ax - rv_d_lo rv}" "set ord3 = {..<n_d ax - rv_d_lo rv}"
    "build_pr ar ord2 ord3 ax T (rv_market rv) s fs (rv_d_lo rv) (n_d ax - rv_d_lo rv) = Ok st"
    "plan_of_weights ar fs (st_weights spec) = Ok p"
  shows "case batch_days ar dsort (rv_market rv) (length fs) st (nat (prefix_need ar spec)) [p] [new_engine ar (st_hold_n spec) (st_exit_ratio spec)] of
      Fail e \<Rightarrow> e = MarginTie \<and> (\<exists>i. tied ax T s (rv_d_lo rv + i) (nat (prefix_need ar spec)))
    | Ok lns \<Rightarrow> \<exists>l. lns = [l] \<and> ln_navs l = bk_strat_nav b \<and> ln_engine l = bk_engine b"
proof -
  let ?e0 = "new_engine ar (st_hold_n spec) (st_exit_ratio spec)" and ?n = "n_d ax - rv_d_lo rv" and ?k = "nat (prefix_need ar spec)"
  let ?lo = "find_d ax (st_bt_start_date spec) False"
  from assms(5) obtain mk where mk: "0 \<le> ?lo" "?lo \<le> int (n_d ax) - 1" "rv = \<lparr>rv_ar = ar, rv_deficits = dsort, rv_weights = wsort, rv_axes = ax,
      rv_meta = meta, rv_tensor = T, rv_timeline = nt, rv_strategy = s, rv_d_lo = nat ?lo, rv_market = mk\<rparr>"
    and run: "fold_ok (backtest_day rv (st_hold_n spec * 2)) (new_book ar spec) [0..<nat (int (n_d ax) - 1 + 1 - ?lo)] = Ok b"
    unfolding run_days_def Let_def by (auto simp: bind_ok_Ok_iff split: if_splits)
  have rv: "rv_ar rv = ar" "rv_axes rv = ax" "rv_tensor rv = T" "rv_strategy rv = s" "rv_deficits rv = dsort" "rv_d_lo rv = nat ?lo"
    by (simp_all add: mk(3))
  have n: "nat (int (n_d ax) - 1 + 1 - ?lo) = ?n" using mk(1) by (simp add: rv(6) nat_diff_distrib)
  note pr = build_pr_cases(2) [OF assms(6-8)]
  have nd: "sr_n_d st = ?n" using pr by (simp add: store_ok_def)
  have need: "exit_limit ar ?e0 \<le> prefix_need ar spec" "2 * st_hold_n spec \<le> prefix_need ar spec" "en_hold_n ?e0 = st_hold_n spec"
    by (simp_all add: prefix_need_def exit_limit_def new_engine_def reset_def)
  then have k: "0 < ?k" "en_hold_n ?e0 \<le> int ?k" "exit_limit ar ?e0 \<le> int ?k" using assms(3) by linarith+
  have l0: "start_lane ar ?e0 = \<lparr>ln_engine = ?e0, ln_navs = [], ln_turn = Fin 0\<rparr>" by (simp add: start_lane_def new_engine_def reset_def)
  have cols: "\<forall>i<?n. score_column_ok ax s (rv_d_lo rv + i) T \<and> score_column_exact ar ax spec s (rv_d_lo rv + i) T \<and> rank_column_ok ax s (rv_d_lo rv + i) T"
    using assms(4) by simp
  have b0: "bk_engine (new_book ar spec) = ?e0" "bk_strat_nav (new_book ar spec) = []" by (simp_all add: new_book_def)
  from lanes_follow [OF assms(1,2,9) conjunct2 [OF pr] conjunct1 [OF pr] cols k rv(1-4) b0(1), of "start_lane ar ?e0", OF _ _ order_refl run [unfolded n]]
  show ?thesis unfolding batch_days_def nd rv(5) by (auto simp: l0 b0(2))
qed

section \<open>Properties\<close>

text \<open>C9. The weight search runs the same portfolio as the backtest: give it the market and the tensor of a backtest run and the strategy's own
  weights, and day by day its engine is the engine of the backtest and its values are the values of the report, to the last bit and for every
  rounding - although it ranks the members alone, keeps only the top of the list, and cuts before the division. It stops only in the case that its
  margin cannot settle, when the scores around the cut are equal. So the self-check of the program never finds a difference.\<close>

theorem mining_reproduces_backtest:
  assumes "format_rounding (single ar)" "weights_ok ar spec" "0 < st_hold_n spec"
    "\<forall>d<n_d ax. score_column_ok ax s d T \<and> score_column_exact ar ax spec s d T \<and> rank_column_ok ax s d T"
    "run_days ar dsort wsort ax meta T nt spec s = Ok (rv, b)" "set ord2 = {..<n_d ax - rv_d_lo rv}" "set ord3 = {..<n_d ax - rv_d_lo rv}"
    "build_pr ar ord2 ord3 ax T (rv_market rv) s fs (rv_d_lo rv) (n_d ax - rv_d_lo rv) = Ok st"
    "plan_of_weights ar fs (st_weights spec) = Ok p"
  shows "case batch_days ar dsort (rv_market rv) (length fs) st (nat (prefix_need ar spec)) [p] [new_engine ar (st_hold_n spec) (st_exit_ratio spec)] of
      Fail e \<Rightarrow> e = MarginTie \<and> (\<exists>i. tied ax T s (rv_d_lo rv + i) (nat (prefix_need ar spec)))
    | Ok lns \<Rightarrow> \<exists>l. lns = [l] \<and> ln_navs l = bk_strat_nav b \<and> ln_engine l = bk_engine b"
  by (rule search_follows [OF assms])

lemma mining_reproduces_backtest_witness:
  "\<exists>rv b st p l. run_days exact_arith sort_deficits (sort_desc snd) sample_axes bt_meta mine_tensor [[], []] mine_strategy 0 = Ok (rv, b) \<and>
     build_pr exact_arith [0] [0] sample_axes mine_tensor (rv_market rv) 0 [Mcap] 1 1 = Ok st \<and>
     plan_of_weights exact_arith [Mcap] (st_weights mine_strategy) = Ok p \<and>
     batch_days exact_arith sort_deficits (rv_market rv) 1 st 2 [p] [new_engine exact_arith 1 (Fin 1)] = Ok [l] \<and> ln_navs l = bk_strat_nav b"
proof -
  obtain rv b where rv: "run_days exact_arith sort_deficits (sort_desc snd) sample_axes bt_meta mine_tensor [[], []] mine_strategy 0 = Ok (rv, b)"
    "rv_market rv = one_day" "rv_d_lo rv = 1" using mine_runs by blast
  have n: "n_d sample_axes = 2" "n_a sample_axes = 2" by (simp_all add: sample_axes_ok)
  have h: "st_hold_n mine_strategy = 1" "st_exit_ratio mine_strategy = Fin 1" "st_weights mine_strategy = [(Mcap, Fin 1)]" by (simp_all add: mine_strategy_def)
  have s: "set [0 :: nat] = {..<n_d sample_axes - rv_d_lo rv}" by (auto simp: n rv(3))
  have "pools_clean sample_axes mine_tensor one_day 0 [Mcap] 1 1"
    using mine_pool [of 1] mine_tensor_at(4) [of 0 1] mine_tensor_at(4) [of 1 1] by (auto simp: pools_clean_def day_clean_def)
  then obtain st where st: "build_pr exact_arith [0] [0] sample_axes mine_tensor (rv_market rv) 0 [Mcap] (rv_d_lo rv) (n_d sample_axes - rv_d_lo rv) = Ok st"
    using build_pr_cases(1) [OF s s] rv n by fastforce
  define p where "p = \<lparr>pl_terms = [(0, Fin 1)], pl_wsum = Fin 1\<rparr>"
  have p: "plan_of_weights exact_arith [Mcap] (st_weights mine_strategy) = Ok p"
    by (simp add: plan_of_weights_def h factor_column_def push_term_def new_plan_def seal_def Let_def p_def)
  have need: "nat (prefix_need exact_arith mine_strategy) = 2" by (simp add: prefix_need_def h trunc_def)
  have w: "weights_ok exact_arith mine_strategy" by (simp add: weights_ok_def weight_ok_def weight_sum_def h)
  have cols: "\<forall>d<n_d sample_axes. score_column_ok sample_axes 0 d mine_tensor \<and> score_column_exact exact_arith sample_axes mine_strategy 0 d mine_tensor
      \<and> rank_column_ok sample_axes 0 d mine_tensor" using mine_cols by (simp add: n)
  have f: "format_rounding (single exact_arith)" and z: "0 < st_hold_n mine_strategy" by (simp_all add: exact_format.format_rounding_axioms h)
  have "\<not> tied sample_axes mine_tensor 0 d 2" for d
  proof -
    have "length (pool_row sample_axes mine_tensor 0 d) \<le> 2" unfolding pool_row_def n by (rule order.trans [OF length_filter_le]) simp
    then show ?thesis by (simp add: tied_def Let_def)
  qed
  with mining_reproduces_backtest [OF f w z cols rv(1) s s st p] obtain l where
    "batch_days exact_arith sort_deficits (rv_market rv) 1 st 2 [p] [new_engine exact_arith 1 (Fin 1)] = Ok [l]" "ln_navs l = bk_strat_nav b"
    unfolding need h by (auto split: outcome.splits)
  with rv st p n show ?thesis by fastforce
qed

text \<open>C12. What a candidate list is: when the selection of a day returns, its first \<open>n_keep\<close> names are the first of the full ranking of all members
  by score and index, for every rounding and although only a few names are kept and the cut is made on the sums before the division. It fails in
  one case only, with the error of the margin: there are members left out, and as many as the whole margin and one more share one score.\<close>

theorem select_top_exact:
  assumes "rounding (single ar)" "pl_wsum pl = Fin W" "0 < W" "list_all is_finite (numerators ar blk n (pl_terms pl))"
    "length mem = n" "distinct mem" "0 < n_keep" "n_keep \<le> n"
  shows "case select_top ar blk mem n pl n_keep of
      Ok sel \<Rightarrow> take n_keep sel = take n_keep (in_order (scored ar blk mem n pl)) \<and> length sel = min n (n_keep + TIE_MARGIN)
    | Fail e \<Rightarrow> e = MarginTie \<and> n_keep < n \<and>
        (\<exists>v S. S \<subseteq> set (scored ar blk mem n pl) \<and> card S = min (n - n_keep) TIE_MARGIN + 1 \<and> (\<forall>p\<in>S. fneg (fst p) = v))"
proof (cases "select_top ar blk mem n pl n_keep")
  case (Fail e)
  then show ?thesis using select_top_cases(2) [OF assms Fail] by simp
next
  case (Ok sel)
  then show ?thesis using select_top_cases(1) [OF assms Ok] by simp
qed

lemma select_top_exact_witness:
  "take 1 (in_order (scored exact_arith [Fin 1, Fin 3, Fin 2] [4, 7, 9] 3 \<lparr>pl_terms = [(0, Fin 1)], pl_wsum = Fin 1\<rparr>)) = [(Fin 3, 7)] \<and>
   (\<exists>sel. select_top exact_arith [Fin 1, Fin 3, Fin 2] [4, 7, 9] 3 \<lparr>pl_terms = [(0, Fin 1)], pl_wsum = Fin 1\<rparr> 1 = Ok sel \<and> take 1 sel = [(Fin 3, 7)])"
proof -
  let ?p = "\<lparr>pl_terms = [(0, Fin 1)], pl_wsum = Fin 1\<rparr>" and ?b = "[Fin 1, Fin 3, Fin 2]" and ?m = "[4, 7, 9 :: nat]"
  have num: "numerators exact_arith ?b 3 (pl_terms ?p) = ?b" by (simp add: numerators_def column_def substr_def upt_rec)
  have o: "take 1 (in_order (scored exact_arith ?b ?m 3 ?p)) = [(Fin 3, 7)]"
    unfolding scored_def num by (simp add: in_order_def less_eq_fval_def)
  have "\<exists>sel. select_top exact_arith ?b ?m 3 ?p 1 = Ok sel"
    unfolding select_top_def num by (simp add: keep_best_def sift.simps in_order_def less_eq_fval_def TIE_MARGIN_def Let_def)
  moreover have "rounding (single exact_arith)" "list_all is_finite (numerators exact_arith ?b 3 (pl_terms ?p))"
    using exact_format.format_rounding_axioms unfolding num by (simp_all add: format_rounding_def)
  ultimately show ?thesis using select_top_exact [of exact_arith ?p 1 ?b 3 ?m 1] o by (auto split: outcome.splits)
qed

text \<open>The margin also stops the search when nobody is left out: two members with one score, both in the list, one wanted.\<close>

lemma margin_stops_on_complete_list:
  "select_top exact_arith [Fin 1, Fin 1] [0, 1] 2 \<lparr>pl_terms = [(0, Fin 1)], pl_wsum = Fin 1\<rparr> 1 = Fail MarginTie"
  by (simp add: select_top_def numerators_def column_def substr_def upt_rec keep_best_def sift.simps in_order_def less_eq_fval_def TIE_MARGIN_def Let_def numeral_2_eq_2)

text \<open>C14. Running many weight vectors in one batch, day by day over engines that earlier batches have used, gives each of them exactly the run
  and the metrics it has alone on a fresh engine; the batch fails exactly when one of them does.\<close>

theorem batch_is_each_alone:
  assumes "length plans \<le> length engs" "\<forall>e\<in>set engs. en_hold_n e = st_hold_n spec \<and> en_exit_ratio e = st_exit_ratio spec" "0 < sr_n_d st"
  shows "run_batch ar sorter mk nf st k plans engs = Ok (lns, out) \<longleftrightarrow> length lns = length plans \<and> length out = length plans \<and>
    (\<forall>b<length plans. run_batch ar sorter mk nf st k [plans ! b] [new_engine ar (st_hold_n spec) (st_exit_ratio spec)] = Ok ([lns ! b], [out ! b]))"
  by (rule run_batch_alone [OF assms])

lemma batch_is_each_alone_witness:
  "\<exists>l m. run_batch exact_arith sort_deficits one_day 1 lone_store 1 [lone_plan] [new_engine exact_arith 1 (Fin 1)] = Ok ([l], [m]) \<and>
     run_batch exact_arith sort_deficits one_day 1 lone_store 1 [lone_plan, lone_plan]
       [new_engine exact_arith 1 (Fin 1)\<lparr>en_cash := Fin 7\<rparr>, new_engine exact_arith 1 (Fin 1)\<lparr>en_pv := Fin 3\<rparr>] = Ok ([l, l], [m, m])"
proof -
  define engs where "engs = [new_engine exact_arith 1 (Fin 1)\<lparr>en_cash := Fin 7\<rparr>, new_engine exact_arith 1 (Fin 1)\<lparr>en_pv := Fin 3\<rparr>]"
  obtain l m where lm: "run_batch exact_arith sort_deficits one_day 1 lone_store 1 [lone_plan] [new_engine exact_arith 1 (Fin 1)] = Ok ([l], [m])"
    using lone_day by blast
  have h: "st_hold_n mine_strategy = 1" "st_exit_ratio mine_strategy = Fin 1" by (simp_all add: mine_strategy_def)
  have "length [lone_plan, lone_plan] \<le> length engs" "\<forall>e\<in>set engs. en_hold_n e = st_hold_n mine_strategy \<and> en_exit_ratio e = st_exit_ratio mine_strategy"
    "0 < sr_n_d lone_store" by (simp_all add: engs_def h lone_store_def) (simp_all add: new_engine_def reset_def)
  from iffD2 [OF batch_is_each_alone [OF this, of exact_arith sort_deficits one_day 1 1 "[l, l]" "[m, m]"]] lm
  show ?thesis unfolding engs_def h by (auto simp: less_Suc_eq nth_Cons')
qed

end
