(* ===== verification/Styles.thy ===== *)
theory Styles
  imports Shortlist
begin

text \<open>
  From the metrics of the points to the styles (\<open>cpp/src/mine/mine.cpp\<close>, \<open>run\<close>, phases 2 and 3): the sensitivity of a point to
  its neighbours and the three scores, then the holdings of the best points and the greedy choice that drops a point when its
  holdings overlap those of a better one. Worker threads write one cell or one slot each, so \<open>ord\<close> is the order in which they
  do, and the theorems hold for every order. \<open>std::nth_element\<close> is the parameter \<open>pick\<close>: which elements it moves to
  the front is specified, their order is not.
\<close>

section \<open>Scores\<close>

text \<open>The mean distance to the neighbours, over what it would be for noise.\<close>

definition sensitivity :: "arith \<Rightarrow> nat \<Rightarrow> nat \<Rightarrow> int list list \<Rightarrow> fval list \<Rightarrow> nat \<Rightarrow> (mine_error, fval) outcome" where
  "sensitivity ar n M ks u2 r =
     (let D = double ar; vc = u2 ! r in
      bind_ok (lift_error LatticeError (neighbour_rows n M (ks ! r))) (\<lambda>nbs.
        if \<not> list_all (\<lambda>nb. nb < length ks) nbs then Fail NeighbourOutside
        else if \<not> nbs \<noteq> [] then Fail NoNeighbour
        else
          let dist = foldl (\<lambda>s nb. fadd D s (fabs (fsub D (u2 ! nb) vc))) (Fin 0) nbs;
              far = fsub D (Fin 1) vc;
              noise = fmul D (Fin (1 / 2)) (fadd D (fmul D vc vc) (fmul D far far))
          in Ok (narrow ar (fdiv D (fdiv D dist (D (real (length nbs)))) noise))))"

text \<open>The threads fill a vector cell by cell, in the order \<open>ord\<close>.\<close>

definition fill_cells :: "(nat \<Rightarrow> (mine_error, 'v) outcome) \<Rightarrow> nat list \<Rightarrow> 'v list \<Rightarrow> (mine_error, 'v list) outcome" where
  "fill_cells g ord xs = fold_ok (\<lambda>xs r. bind_ok (g r) (\<lambda>v. Ok (xs[r := v]))) xs ord"

definition score_row :: "arith \<Rightarrow> fval list \<Rightarrow> fval list \<Rightarrow> fval list \<Rightarrow> fval list \<Rightarrow> nat \<Rightarrow> fval list \<Rightarrow> fval list" where
  "score_row ar u1 u2 sens u3 i row =
     row[12 := sens ! i, 10 := u1 ! i, 11 := u2 ! i, 13 := u3 ! i,
         14 := fmul (single ar) (fmul (single ar) (fmul (single ar) (u1 ! i) (u2 ! i)) (u2 ! i)) (u3 ! i)]"

definition score_points ::
  "arith \<Rightarrow> nat \<Rightarrow> nat \<Rightarrow> nat list \<Rightarrow> int list list \<Rightarrow> fval list list \<Rightarrow> (mine_error, fval list list) outcome" where
  "score_points ar n M ord ks pts =
     (let u1 = pct_rank ar (map (\<lambda>row. row ! 0) pts); u2 = pct_rank ar (map (\<lambda>row. row ! 6) pts) in
      bind_ok (fill_cells (sensitivity ar n M ks u2) ord (replicate (length pts) (Fin 0))) (\<lambda>sens.
        let u3 = pct_rank ar (map fneg sens)
        in Ok (map (\<lambda>i. score_row ar u1 u2 sens u3 i (pts ! i)) [0..<length pts])))"

text \<open>Where the weights of the strategy stand among all the points, in column \<open>c\<close>.\<close>

definition base_percentile :: "arith \<Rightarrow> fval list \<Rightarrow> nat \<Rightarrow> fval list list \<Rightarrow> fval" where
  "base_percentile ar base c pts =
     narrow ar (fdiv (double ar) (double ar (real (length (filter (\<lambda>row. fless (row ! c) (base ! c)) pts)))) (double ar (real (length pts))))"

section \<open>Holdings\<close>

definition holdings_day :: "arith \<Rightarrow> nat \<Rightarrow> pr_store \<Rightarrow> nat \<Rightarrow> plan \<Rightarrow> nat \<Rightarrow> (mine_error, nat list) outcome" where
  "holdings_day ar nf st hn pl i =
     (if \<not> cnt st i \<ge> hn then Fail PoolBelowHold
      else bind_ok (select_top ar (block nf st i) (day_members st i) (cnt st i) pl hn) (\<lambda>sel. Ok (sort (map snd (take hn sel)))))"

definition build_holdings :: "arith \<Rightarrow> nat \<Rightarrow> pr_store \<Rightarrow> nat \<Rightarrow> plan \<Rightarrow> (mine_error, nat list list) outcome" where
  "build_holdings ar nf st hn pl = map_ok (holdings_day ar nf st hn pl) [0..<sr_n_d st]"

text \<open>The two pointers walk over the rests of the two lists.\<close>

fun merge_hits :: "nat list \<Rightarrow> nat list \<Rightarrow> nat" where
  "merge_hits (a # as) (b # bs) = (if a < b then merge_hits as (b # bs) else if b < a then merge_hits (a # as) bs else Suc (merge_hits as bs))"
| "merge_hits as bs = 0"

definition holdings_overlap :: "arith \<Rightarrow> nat list list \<Rightarrow> nat list list \<Rightarrow> nat \<Rightarrow> nat \<Rightarrow> fval" where
  "holdings_overlap ar x y nd hn =
     (let hit = foldl (\<lambda>h i. h + merge_hits (x ! i) (y ! i)) 0 [0..<nd]
      in fdiv (double ar) (double ar (real hit)) (fmul (double ar) (double ar (real nd)) (double ar (real hn))))"

section \<open>Styles\<close>

definition MINE_DEDUP_OVERLAP :: "arith \<Rightarrow> fval" where "MINE_DEDUP_OVERLAP ar = double ar (1 / 10)"

text \<open>The points with the best totals in order, equal ones by their row.\<close>

definition best_points :: "(nat \<Rightarrow> ranked list \<Rightarrow> ranked list) \<Rightarrow> nat \<Rightarrow> fval list \<Rightarrow> nat list" where
  "best_points pick n_max tot = (let n = min (length tot) n_max in map snd (in_order (take n (pick n (zip tot [0..<length tot])))))"

record chosen =
  ch_styles :: "nat list"
  ch_accepted :: "nat list list list"

definition accept :: "arith \<Rightarrow> nat \<Rightarrow> nat \<Rightarrow> chosen \<Rightarrow> nat \<times> nat list list \<Rightarrow> chosen" where
  "accept ar nd hn ch = (\<lambda>(c, h).
     if list_ex (\<lambda>h'. fle (MINE_DEDUP_OVERLAP ar) (holdings_overlap ar h h' nd hn)) (ch_accepted ch) then ch
     else ch\<lparr>ch_styles := ch_styles ch @ [c], ch_accepted := ch_accepted ch @ [h]\<rparr>)"

definition point_holdings :: "arith \<Rightarrow> nat \<Rightarrow> nat \<Rightarrow> pr_store \<Rightarrow> nat \<Rightarrow> int list list \<Rightarrow> nat \<Rightarrow> (mine_error, nat list list) outcome" where
  "point_holdings ar nf M st hn ks c = bind_ok (plan_from_k ar M (ks ! c)) (build_holdings ar nf st hn)"

text \<open>A chunk of candidates: the threads fill the slots of the buffer, which still holds the chunk before, then the choice is serial.\<close>

definition dedup_chunk ::
  "arith \<Rightarrow> (nat \<Rightarrow> (mine_error, nat list list) outcome) \<Rightarrow> nat \<Rightarrow> nat \<Rightarrow> nat list \<Rightarrow> (nat \<Rightarrow> nat list) \<Rightarrow> nat
     \<Rightarrow> nat list list list \<times> chosen \<Rightarrow> nat \<Rightarrow> (mine_error, nat list list list \<times> chosen) outcome" where
  "dedup_chunk ar hold nd hn cand ord CH = (\<lambda>(buf, ch) base.
     let nc = min CH (length cand - base) in
     bind_ok (fill_cells (\<lambda>b. hold (cand ! (base + b))) (ord base) buf) (\<lambda>buf.
       Ok (buf, foldl (\<lambda>ch b. accept ar nd hn ch (cand ! (base + b), buf ! b)) ch [0..<nc])))"

definition bases :: "nat \<Rightarrow> nat \<Rightarrow> nat list" where
  "bases CH n = map (\<lambda>k. k * CH) [0..<(n + CH - 1) div CH]"

definition dedup ::
  "arith \<Rightarrow> (nat \<Rightarrow> (mine_error, nat list list) outcome) \<Rightarrow> nat \<Rightarrow> nat \<Rightarrow> nat list \<Rightarrow> (nat \<Rightarrow> nat list) \<Rightarrow> nat \<Rightarrow> (mine_error, chosen) outcome" where
  "dedup ar hold nd hn cand ord CH =
     bind_ok (fold_ok (dedup_chunk ar hold nd hn cand ord CH) (replicate CH [], \<lparr>ch_styles = [], ch_accepted = []\<rparr>) (bases CH (length cand)))
       (\<lambda>(buf, ch). Ok ch)"

definition MINE_DEDUP_CAND :: nat where "MINE_DEDUP_CAND = 16384"

definition find_styles ::
  "arith \<Rightarrow> (nat \<Rightarrow> ranked list \<Rightarrow> ranked list) \<Rightarrow> (nat \<Rightarrow> nat list) \<Rightarrow> nat \<Rightarrow> nat \<Rightarrow> pr_store \<Rightarrow> nat \<Rightarrow> int list list \<Rightarrow> fval list list
     \<Rightarrow> (mine_error, chosen) outcome" where
  "find_styles ar pick ord nf M st hn ks pts =
     dedup ar (point_holdings ar nf M st hn ks) (sr_n_d st) hn (best_points pick MINE_DEDUP_CAND (map (\<lambda>row. row ! 14) pts)) ord 512"

section \<open>Cells that threads fill\<close>

lemma fill_cells_at:
  assumes "fill_cells g ord xs = Ok ys"
  shows "length ys = length xs" "i < length xs \<Longrightarrow> i \<in> set ord \<Longrightarrow> g i = Ok (ys ! i)" "i \<notin> set ord \<Longrightarrow> ys ! i = xs ! i"
proof -
  have "fill_cells g ord xs = Ok ys \<Longrightarrow> length ys = length xs \<and> (i < length xs \<longrightarrow> i \<in> set ord \<longrightarrow> g i = Ok (ys ! i)) \<and> (i \<notin> set ord \<longrightarrow> ys ! i = xs ! i)" for xs
    unfolding fill_cells_def
  proof (induction ord arbitrary: xs)
    case (Cons r ord)
    then obtain v where v: "g r = Ok v" "fold_ok (\<lambda>xs r. bind_ok (g r) (\<lambda>v. Ok (xs[r := v]))) (xs[r := v]) ord = Ok ys"
      by (auto simp: bind_ok_Ok_iff)
    with Cons.IH [OF v(2)] show ?case by (auto simp: nth_list_update)
  qed simp
  with assms show "length ys = length xs" "i < length xs \<Longrightarrow> i \<in> set ord \<Longrightarrow> g i = Ok (ys ! i)" "i \<notin> set ord \<Longrightarrow> ys ! i = xs ! i" by auto
qed

lemma fill_cells_total: "\<forall>r\<in>set ord. \<exists>v. g r = Ok v \<Longrightarrow> \<exists>ys. fill_cells g ord xs = Ok ys"
  unfolding fill_cells_def by (induction ord arbitrary: xs) auto

lemma fill_cells_Fail: "fill_cells g ord xs = Fail e \<Longrightarrow> \<exists>r\<in>set ord. g r = Fail e"
  unfolding fill_cells_def
proof (induction ord arbitrary: xs)
  case (Cons r ord)
  then show ?case by (cases "g r") auto
qed simp

lemma fill_cells_spec:
  assumes "\<And>r. r < n \<Longrightarrow> g r = Ok (v r)" "set ord = {..<n}"
  shows "\<exists>ys. fill_cells g ord xs = Ok ys \<and> length ys = length xs \<and> (\<forall>i<n. i < length xs \<longrightarrow> ys ! i = v i)"
proof -
  from assms have "\<forall>r\<in>set ord. \<exists>v. g r = Ok v" by auto
  then obtain ys where ys: "fill_cells g ord xs = Ok ys" using fill_cells_total by blast
  then have "ys ! i = v i" if "i < n" "i < length xs" for i
    using fill_cells_at(2) [OF ys that(2)] assms(1) [OF that(1)] that(1) assms(2) by simp
  with ys fill_cells_at(1) [OF ys] show ?thesis by blast
qed

section \<open>The bitwise same holdings\<close>

lemma mset_sift: "p < length sel \<Longrightarrow> mset (sift sel p x) = mset (sel[p := x])"
proof (induction p arbitrary: sel)
  case 0
  then show ?case by (simp add: sift.simps)
next
  case (Suc p)
  let ?s = "sel[Suc p := sel ! p]"
  have "mset (?s[p := x]) = mset (sel[Suc p := x])"
    using Suc.prems by (simp add: mset_update nth_list_update)
  with Suc show ?case by (subst sift.simps) simp
qed

lemma keep_best_mset:
  assumes "length sel \<le> n" "0 < n"
  shows "length (keep_best n sel x) = min n (Suc (length sel))" "mset (keep_best n sel x) \<subseteq># add_mset x (mset sel)"
proof -
  have sift: "mset (sift (sel @ [x]) (length sel) x) = add_mset x (mset sel)" by (simp add: mset_sift)
  have full: "mset (sift sel (n - 1) x) = mset (sel[n - 1 := x])" if "length sel = n" using that assms(2) by (simp add: mset_sift)
  have up: "mset (sel[n - 1 := x]) \<subseteq># add_mset x (mset sel)" if "length sel = n"
    using that assms(2) by (simp add: mset_update)
  show "length (keep_best n sel x) = min n (Suc (length sel))"
  proof (cases "length sel < n")
    case True
    then show ?thesis using arg_cong [OF sift, of size] by (simp add: keep_best_def Let_def)
  next
    case False
    then have "length sel = n" using assms(1) by simp
    then show ?thesis using arg_cong [OF full, of size] by (simp add: keep_best_def Let_def)
  qed
  show "mset (keep_best n sel x) \<subseteq># add_mset x (mset sel)"
  proof (cases "length sel < n")
    case True
    then show ?thesis using sift by (simp add: keep_best_def Let_def)
  next
    case False
    then have "length sel = n" using assms(1) by simp
    then show ?thesis using full up by (simp add: keep_best_def Let_def)
  qed
qed

lemma keep_best_any:
  assumes "0 < n"
  shows "length (foldl (keep_best n) [] xs) = min n (length xs) \<and> mset (foldl (keep_best n) [] xs) \<subseteq># mset xs"
proof (induction xs rule: rev_induct)
  case (snoc x xs)
  let ?s = "foldl (keep_best n) [] xs"
  have l: "length ?s \<le> n" using snoc by simp
  have "mset (keep_best n ?s x) \<subseteq># add_mset x (mset xs)"
    using keep_best_mset(2) [OF l assms, of x] snoc by (meson mset_subset_eq_add_mset_cancel subset_mset.order_trans)
  with keep_best_mset(1) [OF l assms, of x] snoc show ?case by simp
qed simp

lemma mset_subset_eq_distinct: "mset xs \<subseteq># mset ys \<Longrightarrow> distinct ys \<Longrightarrow> distinct xs"
  by (metis distinct_append mset_append mset_eq_imp_distinct_iff subset_mset.le_iff_add ex_mset)

lemma select_top_names:
  assumes "select_top ar blk mem n pl k = Ok sel" "distinct mem" "length mem = n" "0 < k"
  shows "length (take k sel) = k" "distinct (map snd (take k sel))" "snd ` set (take k sel) \<subseteq> set mem"
proof -
  let ?xs = "zip (numerators ar blk n (pl_terms pl)) mem" and ?n = "min n (k + TIE_MARGIN)"
  let ?best = "foldl (keep_best ?n) [] ?xs"
  from assms(1) have k: "k \<le> n" and sel: "sel = in_order (map (\<lambda>(s, a). (fdiv (single ar) s (pl_wsum pl), a)) ?best)"
    by (auto simp: select_top_def Let_def split: if_splits)
  have n: "0 < ?n" using k assms(4) by simp
  note b = keep_best_any [OF n, of ?xs]
  have "mset sel = mset (map (\<lambda>(s, a). (fdiv (single ar) s (pl_wsum pl), a)) ?best)" unfolding sel by (rule in_order_mset)
  then have "mset (map snd sel) = mset (map snd (map (\<lambda>(s, a). (fdiv (single ar) s (pl_wsum pl), a)) ?best))" by (simp only: mset_map)
  then have m: "mset (map snd sel) = mset (map snd ?best)" by (simp add: comp_def split_def)
  have "mset (map snd ?best) \<subseteq># mset (map snd ?xs)" using image_mset_subseteq_mono [of "mset ?best" "mset ?xs" snd] b by simp
  also have "map snd ?xs = mem" using assms(3) by simp
  finally have sub: "mset (map snd sel) \<subseteq># mset mem" by (simp only: m)
  have "distinct (map snd sel)" using mset_subset_eq_distinct [OF sub assms(2)] .
  then show "distinct (map snd (take k sel))" by (simp add: distinct_take flip: take_map)
  have "length sel = ?n" using size_mset [of "map snd sel"] m b assms(3) by (metis length_map length_zip length_numerators min.idem min.cobounded1 min.absorb1 size_mset)
  with k show "length (take k sel) = k" by simp
  have "set (map snd sel) \<subseteq> set mem" using set_mset_mono [OF sub] by simp
  then show "snd ` set (take k sel) \<subseteq> set mem" using set_take_subset [of k sel] by auto
qed

lemma holdings_row:
  assumes "holdings_day ar nf st hn pl i = Ok row" "distinct (day_members st i)" "length (day_members st i) = cnt st i" "0 < hn"
  shows "sorted_wrt (<) row" "length row = hn" "set row \<subseteq> set (day_members st i)"
proof -
  from assms(1) obtain sel where sel: "select_top ar (block nf st i) (day_members st i) (cnt st i) pl hn = Ok sel"
    and row: "row = sort (map snd (take hn sel))" by (auto simp: holdings_day_def bind_ok_Ok_iff split: if_splits)
  note S = select_top_names [OF sel assms(2,3,4)]
  show "length row = hn" "set row \<subseteq> set (day_members st i)" using S(1,3) by (auto simp: row)
  have "sorted row" "distinct row" using S(2) by (simp_all add: row)
  then show "sorted_wrt (<) row" by (simp add: strict_sorted_iff)
qed

lemma merge_hits_card: "sorted_wrt (<) as \<Longrightarrow> sorted_wrt (<) bs \<Longrightarrow> merge_hits as bs = card (set as \<inter> set bs)"
proof (induction as bs rule: merge_hits.induct)
  case (1 a as b bs)
  consider "a < b" | "b < a" | "a = b" by linarith
  then show ?case
  proof cases
    case 1
    then have "a \<notin> set (b # bs)" using "1.prems"(2) by auto
    then have "set (a # as) \<inter> set (b # bs) = set as \<inter> set (b # bs)" by auto
    with 1 show ?thesis using "1.IH"(1) "1.prems" by simp
  next
    case 2
    then have "b \<notin> set (a # as)" using "1.prems"(1) by auto
    then have "set (a # as) \<inter> set (b # bs) = set (a # as) \<inter> set bs" by auto
    with 2 show ?thesis using "1.IH"(2) "1.prems" by simp
  next
    case 3
    then have "a \<notin> set as" "set (a # as) \<inter> set (b # bs) = insert a (set as \<inter> set bs)" using "1.prems" by auto
    with 3 show ?thesis using "1.IH"(3) "1.prems" by simp
  qed
qed simp_all

lemma merge_hits_Nil: "merge_hits as [] = 0"
  by (cases as) simp_all

lemma merge_hits_commute: "merge_hits as bs = merge_hits bs as"
proof (induction as bs rule: merge_hits.induct)
  case (1 a as b bs)
  then show ?case by (cases a b rule: linorder_cases) auto
qed (simp_all add: merge_hits_Nil)

lemma foldl_add_sum: "foldl (\<lambda>h i. h + f i) (0 :: nat) [0..<n] = (\<Sum>i<n. f i)"
  by (induction n) simp_all

lemma overlap_commute: "holdings_overlap ar x y nd hn = holdings_overlap ar y x nd hn"
  by (simp add: holdings_overlap_def merge_hits_commute)

section \<open>The greedy choice\<close>

text \<open>The chunks are the candidates in order.\<close>

lemma chunk_bases: "0 < CH \<Longrightarrow> concat (map (\<lambda>b. [b..<b + min CH (n - b)]) (map (\<lambda>k. k * CH) [0..<m])) = [0..<min n (m * CH)]"
proof (induction m)
  case (Suc m)
  have "[m * CH..<m * CH + min CH (n - m * CH)] = [m * CH..<min n (Suc m * CH)]"
    by (cases "m * CH \<le> n") (auto simp: min_def intro!: arg_cong [where f = "upt (m * CH)"])
  moreover have "[0..<min n (m * CH)] @ [m * CH..<min n (Suc m * CH)] = [0..<min n (Suc m * CH)]"
  proof (cases "m * CH \<le> n")
    case True
    then have "min n (m * CH) = m * CH" "m * CH \<le> min n (Suc m * CH)" by auto
    then show ?thesis using upt_add_eq_append [of 0 "m * CH" "min n (Suc m * CH) - m * CH"] by simp
  qed (simp add: min_def)
  ultimately show ?case using Suc by simp
qed simp

lemma last_base: "0 < (CH :: nat) \<Longrightarrow> n \<le> (n + CH - 1) div CH * CH"
  using dividend_less_div_times [of CH "n + CH - 1"] by (simp add: add.commute)

lemma dedup_serial:
  assumes "\<And>c. c \<in> set cand \<Longrightarrow> hold c = Ok (H c)" "\<And>b. set (ord b) = {..<min CH (length cand - b)}" "0 < CH"
  shows "dedup ar hold nd hn cand ord CH = Ok (foldl (accept ar nd hn) \<lparr>ch_styles = [], ch_accepted = []\<rparr> (map (\<lambda>c. (c, H c)) cand))"
proof -
  let ?f = "\<lambda>ch i. accept ar nd hn ch (cand ! i, H (cand ! i))" and ?c0 = "\<lparr>ch_styles = [], ch_accepted = []\<rparr> :: chosen"
  let ?n = "\<lambda>b. min CH (length cand - b)"
  have chunk: "\<exists>buf'. dedup_chunk ar hold nd hn cand ord CH (buf, ch) b = Ok (buf', foldl ?f ch [b..<b + ?n b]) \<and> length buf' = CH"
    if "length buf = CH" for buf ch b
  proof -
    have h: "hold (cand ! (b + r)) = Ok (H (cand ! (b + r)))" if "r < ?n b" for r using that by (intro assms(1) nth_mem) linarith
    from fill_cells_spec [where g = "\<lambda>r. hold (cand ! (b + r))" and n = "?n b" and xs = buf, OF h assms(2)] obtain buf' where buf': "fill_cells (\<lambda>r. hold (cand ! (b + r))) (ord b) buf = Ok buf'"
      "length buf' = CH" "\<forall>i<?n b. buf' ! i = H (cand ! (b + i))" using \<open>length buf = CH\<close> by auto
    have "foldl (\<lambda>ch i. accept ar nd hn ch (cand ! (b + i), buf' ! i)) ch [0..<?n b] = foldl (\<lambda>ch i. ?f ch (b + i)) ch [0..<?n b]"
      using buf'(3) by (intro foldl_cong) auto
    also have "\<dots> = foldl ?f ch (map (\<lambda>i. b + i) [0..<?n b])" by (simp add: foldl_map)
    also have "map (\<lambda>i. b + i) [0..<?n b] = [b..<b + ?n b]" using map_add_upt [of b "?n b"] by (simp add: add.commute)
    finally show ?thesis using buf'(1,2) by (simp add: dedup_chunk_def Let_def)
  qed
  have run: "\<exists>buf'. fold_ok (dedup_chunk ar hold nd hn cand ord CH) (buf, ch) bs = Ok (buf', foldl ?f ch (concat (map (\<lambda>b. [b..<b + ?n b]) bs)))"
    if "length buf = CH" for buf ch bs
    using that
  proof (induction bs arbitrary: buf ch)
    case (Cons b bs)
    from chunk [OF Cons.prems] obtain buf1 where b1: "dedup_chunk ar hold nd hn cand ord CH (buf, ch) b = Ok (buf1, foldl ?f ch [b..<b + ?n b])" "length buf1 = CH"
      by blast
    from Cons.IH [OF b1(2)] b1(1) show ?case by simp
  qed simp
  have "concat (map (\<lambda>b. [b..<b + ?n b]) (bases CH (length cand))) = [0..<length cand]"
    unfolding bases_def chunk_bases [OF assms(3)] using last_base [OF assms(3), of "length cand"] by (simp add: min_def)
  then have "foldl ?f ?c0 (concat (map (\<lambda>b. [b..<b + ?n b]) (bases CH (length cand)))) = foldl (accept ar nd hn) ?c0 (map (\<lambda>i. (cand ! i, H (cand ! i))) [0..<length cand])"
    by (simp add: foldl_map)
  also have "map (\<lambda>i. (cand ! i, H (cand ! i))) [0..<length cand] = map (\<lambda>c. (c, H c)) cand"
    by (rule nth_equalityI) simp_all
  finally show ?thesis unfolding dedup_def using run [of "replicate CH []" ?c0 "bases CH (length cand)"] by auto
qed

text \<open>A run that ends has computed the holdings of every candidate.\<close>

lemma dedup_reads:
  assumes "dedup ar hold nd hn cand ord CH = Ok ch" "\<And>b. set (ord b) = {..<min CH (length cand - b)}" "0 < CH" "c \<in> set cand"
  shows "\<exists>h. hold c = Ok h"
proof -
  let ?n = "\<lambda>b. min CH (length cand - b)"
  have read: "\<forall>i<?n b. \<exists>h. hold (cand ! (b + i)) = Ok h" if "dedup_chunk ar hold nd hn cand ord CH s b = Ok s'" "length (fst s) = CH" for s s' b
  proof -
    from that(1) obtain buf where buf: "fill_cells (\<lambda>r. hold (cand ! (b + r))) (ord b) (fst s) = Ok buf"
      by (cases s) (auto simp: dedup_chunk_def Let_def bind_ok_Ok_iff)
    have "hold (cand ! (b + i)) = Ok (buf ! i)" if "i < ?n b" for i
      using fill_cells_at(2) [OF buf, of i] that assms(2) [of b] \<open>length (fst s) = CH\<close> by simp
    then show ?thesis by blast
  qed
  have len: "length (fst s') = length (fst s)" if "dedup_chunk ar hold nd hn cand ord CH s b = Ok s'" for s s' b
    using that fill_cells_at(1) by (cases s) (auto simp: dedup_chunk_def Let_def bind_ok_Ok_iff)
  have run: "\<forall>b\<in>set bs. \<forall>i<?n b. \<exists>h. hold (cand ! (b + i)) = Ok h" if "fold_ok (dedup_chunk ar hold nd hn cand ord CH) s bs = Ok s'" "length (fst s) = CH" for s s' bs
    using that
  proof (induction bs arbitrary: s)
    case (Cons b bs)
    then obtain s1 where "dedup_chunk ar hold nd hn cand ord CH s b = Ok s1" "fold_ok (dedup_chunk ar hold nd hn cand ord CH) s1 bs = Ok s'"
      by (auto simp: bind_ok_Ok_iff)
    with Cons.IH [of s1] read [of s b s1] len [of s b s1] Cons.prems(2) show ?case by auto
  qed simp
  obtain s' where "fold_ok (dedup_chunk ar hold nd hn cand ord CH) (replicate CH [], \<lparr>ch_styles = [], ch_accepted = []\<rparr>) (bases CH (length cand)) = Ok s'"
    using assms(1) unfolding dedup_def by (auto simp: bind_ok_Ok_iff)
  from run [OF this] have all: "\<forall>b\<in>set (bases CH (length cand)). \<forall>i<?n b. \<exists>h. hold (cand ! (b + i)) = Ok h" by simp
  obtain k where k: "k < length cand" "cand ! k = c" using assms(4) by (auto simp: in_set_conv_nth)
  then have "k \<in> set (concat (map (\<lambda>b. [b..<b + ?n b]) (bases CH (length cand))))"
    unfolding bases_def chunk_bases [OF assms(3)] using last_base [OF assms(3), of "length cand"] by simp
  then obtain b where b: "b \<in> set (bases CH (length cand))" "b \<le> k" "k < b + ?n b" by auto
  then have "b + (k - b) = k" "k - b < ?n b" by auto
  then show ?thesis using all b(1) k(2) by metis
qed

text \<open>Two holdings of one style.\<close>

abbreviation same_style :: "arith \<Rightarrow> nat \<Rightarrow> nat \<Rightarrow> nat list list \<Rightarrow> nat list list \<Rightarrow> bool" where
  "same_style ar nd hn x y \<equiv> fle (MINE_DEDUP_OVERLAP ar) (holdings_overlap ar x y nd hn)"

lemma greedy:
  fixes H :: "nat \<Rightarrow> nat list list" and ar :: arith and nd hn :: nat
  defines "res cs \<equiv> foldl (accept ar nd hn) \<lparr>ch_styles = [], ch_accepted = []\<rparr> (map (\<lambda>c. (c, H c)) cs)"
  shows "ch_accepted (res cs) = map H (ch_styles (res cs)) \<and> subseq (ch_styles (res cs)) cs \<and>
    sorted_wrt (\<lambda>x y. \<not> same_style ar nd hn (H y) (H x)) (ch_styles (res cs)) \<and>
    (\<forall>k<length cs. cs ! k \<in> set (ch_styles (res cs)) \<or> (\<exists>j<k. cs ! j \<in> set (ch_styles (res cs)) \<and> same_style ar nd hn (H (cs ! k)) (H (cs ! j))))"
proof (induction cs rule: rev_induct)
  case Nil
  show ?case by (simp add: res_def)
next
  case (snoc c cs)
  let ?r = "res cs"
  note IH = snoc [THEN conjunct1] snoc [THEN conjunct2, THEN conjunct1] snoc [THEN conjunct2, THEN conjunct2, THEN conjunct1]
    snoc [THEN conjunct2, THEN conjunct2, THEN conjunct2]
  have step: "res (cs @ [c]) = accept ar nd hn ?r (c, H c)" by (simp add: res_def)
  show ?case
  proof (cases "\<exists>x\<in>set (ch_styles ?r). same_style ar nd hn (H c) (H x)")
    case True
    then have r: "res (cs @ [c]) = ?r" using IH(1) by (auto simp: step accept_def list_ex_iff)
    from True obtain x where x: "x \<in> set (ch_styles ?r)" "same_style ar nd hn (H c) (H x)" by blast
    with IH(2) have "x \<in> set cs" using subseq_set by blast
    then obtain j where j: "j < length cs" "cs ! j = x" by (auto simp: in_set_conv_nth)
    have "subseq (ch_styles ?r) (cs @ [c])" using IH(2) by (rule subseq_order.trans) (rule prefix_imp_subseq, simp)
    moreover have "(cs @ [c]) ! k \<in> set (ch_styles ?r) \<or>
        (\<exists>j<k. (cs @ [c]) ! j \<in> set (ch_styles ?r) \<and> same_style ar nd hn (H ((cs @ [c]) ! k)) (H ((cs @ [c]) ! j)))" if "k < length (cs @ [c])" for k
    proof (cases "k < length cs")
      case True
      with IH(4) consider "cs ! k \<in> set (ch_styles ?r)"
        | i where "i < k" "cs ! i \<in> set (ch_styles ?r)" "same_style ar nd hn (H (cs ! k)) (H (cs ! i))" by blast
      then show ?thesis
      proof cases
        case 2
        with True show ?thesis by (intro disjI2 exI [of _ i]) (simp add: nth_append)
      qed (use True in \<open>simp add: nth_append\<close>)
    next
      case False
      then have "k = length cs" using that by simp
      then show ?thesis using x j by (intro disjI2 exI [of _ j]) (simp add: nth_append)
    qed
    ultimately show ?thesis unfolding r using IH(1,3) by blast
  next
    case False
    then have r: "ch_styles (res (cs @ [c])) = ch_styles ?r @ [c]" "ch_accepted (res (cs @ [c])) = ch_accepted ?r @ [H c]"
      using IH(1) by (auto simp: step accept_def list_ex_iff)
    have "subseq (ch_styles ?r @ [c]) (cs @ [c])" using IH(2) by (rule list_emb_append_mono) simp
    moreover have "sorted_wrt (\<lambda>x y. \<not> same_style ar nd hn (H y) (H x)) (ch_styles ?r @ [c])" using IH(3) False by (simp add: sorted_wrt_append)
    moreover have "(cs @ [c]) ! k \<in> set (ch_styles ?r @ [c]) \<or>
        (\<exists>j<k. (cs @ [c]) ! j \<in> set (ch_styles ?r @ [c]) \<and> same_style ar nd hn (H ((cs @ [c]) ! k)) (H ((cs @ [c]) ! j)))" if "k < length (cs @ [c])" for k
    proof (cases "k < length cs")
      case True
      with IH(4) consider "cs ! k \<in> set (ch_styles ?r)"
        | j where "j < k" "cs ! j \<in> set (ch_styles ?r)" "same_style ar nd hn (H (cs ! k)) (H (cs ! j))" by blast
      then show ?thesis
      proof cases
        case 2
        with True show ?thesis by (intro disjI2 exI [of _ j]) (simp add: nth_append)
      qed (use True in \<open>simp add: nth_append\<close>)
    next
      case False
      then show ?thesis using that by (simp add: nth_append)
    qed
    ultimately show ?thesis unfolding r using IH(1) by simp
  qed
qed

section \<open>The candidates\<close>

text \<open>What \<open>std::nth_element\<close> promises: a permutation, with nothing after place \<open>n\<close> that belongs before it.\<close>

definition nth_element_ok :: "(nat \<Rightarrow> ranked list \<Rightarrow> ranked list) \<Rightarrow> bool" where
  "nth_element_ok pick \<longleftrightarrow> (\<forall>n xs. distinct (map snd xs) \<longrightarrow> mset (pick n xs) = mset xs \<and>
     (\<forall>p\<in>set (take n (pick n xs)). \<forall>q\<in>set (drop n (pick n xs)). \<not> ahead q p))"

lemma ahead_total: "snd p \<noteq> snd q \<Longrightarrow> ahead p q \<or> ahead q p"
  by (auto simp: ahead_def)

lemma best_points_take:
  assumes "nth_element_ok pick"
  shows "best_points pick k tot = take k (map snd (in_order (zip tot [0..<length tot])))"
proof -
  let ?xs = "zip tot [0..<length tot]" and ?n = "min (length tot) k"
  let ?ys = "pick ?n ?xs"
  have dx: "distinct (map snd ?xs)" by simp
  from assms dx have m: "mset ?ys = mset ?xs" and cut: "\<And>p q. p \<in> set (take ?n ?ys) \<Longrightarrow> q \<in> set (drop ?n ?ys) \<Longrightarrow> \<not> ahead q p"
    unfolding nth_element_ok_def by blast+
  have "mset (map snd ?ys) = mset (map snd ?xs)" using m by (simp only: mset_map)
  then have dy: "distinct (map snd (take ?n ?ys @ drop ?n ?ys))" using dx by (metis append_take_drop_id mset_eq_imp_distinct_iff)
  have "sorted_wrt ahead (in_order (take ?n ?ys) @ in_order (drop ?n ?ys))"
  proof -
    have "ahead p q" if p: "p \<in> set (take ?n ?ys)" and q: "q \<in> set (drop ?n ?ys)" for p q
    proof -
      have "snd p \<noteq> snd q" using dy imageI [OF p, of snd] imageI [OF q, of snd] unfolding map_append distinct_append set_map by (metis disjoint_iff)
      then show ?thesis using ahead_total cut [OF p q] by blast
    qed
    moreover have "set (in_order zs) = set zs" for zs by (simp add: in_order_def)
    moreover have "distinct (map snd (take ?n ?ys))" "distinct (map snd (drop ?n ?ys))" using dy by (simp_all only: map_append distinct_append)
    ultimately show ?thesis by (simp add: sorted_wrt_append in_order_sorted)
  qed
  moreover have "mset (in_order (take ?n ?ys) @ in_order (drop ?n ?ys)) = mset ?xs"
    by (metis append_take_drop_id in_order_mset m mset_append)
  ultimately have "in_order ?xs = in_order (take ?n ?ys) @ in_order (drop ?n ?ys)" by (rule in_order_unique [OF dx])
  moreover have "length (in_order (take ?n ?ys)) = ?n" using arg_cong [OF m, of size] by (simp add: in_order_def)
  moreover have "length (in_order ?xs) = length tot" by (simp add: in_order_def)
  ultimately show ?thesis unfolding best_points_def Let_def
    by (cases "length tot \<le> k") (simp_all add: take_map min_def)
qed

section \<open>The sensitivity\<close>

lemma rnd_near_1:
  assumes "rounding rnd" "\<bar>x\<bar> \<le> 1"
  shows "\<exists>r. rnd x = Fin r \<and> \<bar>r\<bar> \<le> 1"
proof -
  have i: "rnd (real_of_int 1) = Fin 1" "rnd (real_of_int (- 1)) = Fin (- 1)" using rounding.rnd_int [OF assms(1), of 1] rounding.rnd_int [OF assms(1), of "- 1"] by auto
  have "fle (rnd (- 1)) (rnd x)" "fle (rnd x) (rnd 1)" using assms by (auto intro: rounding.rnd_mono simp: abs_le_iff)
  with i have "fle (Fin (- 1)) (rnd x)" "fle (rnd x) (Fin 1)" by simp_all
  from fle_between [OF this] show ?thesis by (auto simp: abs_le_iff)
qed

lemma rnd_above:
  assumes "rounding rnd" "rnd a = Fin a" "a \<le> x" "x \<le> 2"
  shows "\<exists>r. rnd x = Fin r \<and> a \<le> r \<and> r \<le> 2"
proof -
  have "rnd 2 = Fin 2" using rounding.rnd_int [OF assms(1), of 2] by simp
  with rounding.rnd_mono [OF assms(1,3)] rounding.rnd_mono [OF assms(1,4)] assms(2) show ?thesis by (intro fle_between) simp_all
qed

lemma gap_unit:
  assumes "rounding rnd" "in_unit x" "in_unit y"
  shows "in_unit (fabs (fsub rnd x y))"
proof -
  from assms(2,3) obtain a b where ab: "x = Fin a" "0 \<le> a" "a \<le> 1" "y = Fin b" "0 \<le> b" "b \<le> 1" by (auto simp: in_unit_iff)
  then have "\<bar>a - b\<bar> \<le> 1" by auto
  from rnd_near_1 [OF assms(1) this] ab show ?thesis by (auto simp: fsub_def in_unit_iff)
qed

text \<open>The distance of noise is at least an eighth, if the format has halves, quarters and eighths.\<close>

definition eighths_exact :: "arith \<Rightarrow> bool" where
  "eighths_exact ar \<longleftrightarrow> (\<forall>x\<in>{1 / 2, 1 / 4, 1 / 8}. double ar x = Fin x)"

lemma noise_positive:
  assumes "rounding (double ar)" "eighths_exact ar" "in_unit v"
  defines "far \<equiv> fsub (double ar) (Fin 1) v"
  shows "\<exists>q. fmul (double ar) (Fin (1 / 2)) (fadd (double ar) (fmul (double ar) v v) (fmul (double ar) far far)) = Fin q \<and> 1 / 8 \<le> q"
proof -
  let ?D = "double ar"
  note e = assms(2) [unfolded eighths_exact_def]
  from assms(3) obtain a where a: "v = Fin a" "0 \<le> a" "a \<le> 1" by (auto simp: in_unit_iff)
  obtain b where b: "far = Fin b" "0 \<le> b" "b \<le> 1" "1 / 2 \<le> a \<or> 1 / 2 \<le> b"
  proof (cases "1 / 2 \<le> a")
    case True
    with rounding.rnd_unit [OF assms(1), of "1 - a"] a show thesis by (auto simp: far_def fsub_def intro: that)
  next
    case False
    from rnd_above [OF assms(1), of "1 / 2" "1 - a"] e False a obtain r where r: "?D (1 - a) = Fin r" "1 / 2 \<le> r" by auto
    with rounding.rnd_unit [OF assms(1), of "1 - a"] a show thesis by (auto simp: far_def fsub_def intro: that)
  qed
  have sq: "\<exists>r. ?D (x * x) = Fin r \<and> 0 \<le> r \<and> r \<le> 1 \<and> (1 / 2 \<le> x \<longrightarrow> 1 / 4 \<le> r)" if x: "0 \<le> x" "x \<le> 1" for x :: real
  proof -
    have u: "0 \<le> x * x" "x * x \<le> 1" using x mult_le_one [of x x] by auto
    from rounding.rnd_unit [OF assms(1) u] obtain r where r: "?D (x * x) = Fin r" "0 \<le> r" "r \<le> 1" by blast
    have "1 / 4 \<le> r" if "1 / 2 \<le> x"
    proof -
      have "1 / 4 \<le> x * x" using mult_mono [of "1 / 2" x "1 / 2" x] that by simp
      with rnd_above [OF assms(1), of "1 / 4" "x * x"] e u r show ?thesis by auto
    qed
    with r show ?thesis by blast
  qed
  from sq [OF a(2,3)] sq [OF b(2,3)] obtain r t where r: "?D (a * a) = Fin r" "0 \<le> r" "r \<le> 1" and t: "?D (b * b) = Fin t" "0 \<le> t" "t \<le> 1"
    and rt: "1 / 4 \<le> r + t" using b(4) by (smt (verit, best))
  from rnd_above [OF assms(1), of "1 / 4" "r + t"] e rt r t obtain p where p: "?D (r + t) = Fin p" "1 / 4 \<le> p" "p \<le> 2" by auto
  from rnd_above [OF assms(1), of "1 / 8" "1 / 2 * p"] e p obtain q where "?D (1 / 2 * p) = Fin q" "1 / 8 \<le> q" by auto
  then show ?thesis using a(1) b(1) r(1) t(1) p(1) by simp
qed

lemma sensitivity_bounded:
  assumes "arith_ok ar" "eighths_exact ar" "2 \<le> n" "0 < M" "build_lattice n M = Ok ks" "length ks \<le> 2 ^ 23"
    "\<And>i. i < length ks \<Longrightarrow> in_unit (u ! i)" "r < length ks"
  shows "\<exists>s. sensitivity ar n M ks u r = Ok (Fin s) \<and> 0 \<le> s \<and> s \<le> 8"
proof -
  let ?D = "double ar"
  have R: "rounding ?D" "rounding (single ar)" using assms(1) by (simp_all add: arith_ok_def)
  from hop_rows [OF assms(3-5) nth_mem [OF assms(8)]] obtain nbs where nbs: "neighbour_rows n M (ks ! r) = Ok nbs" "nbs \<noteq> []" "distinct nbs"
    "\<forall>nb\<in>set nbs. nb < length ks" by blast
  let ?g = "\<lambda>nb. fabs (fsub ?D (u ! nb) (u ! r))"
  have "card (set nbs) \<le> card {..<length ks}" using nbs(4) by (intro card_mono) auto
  then have len: "length nbs \<le> 2 ^ 23" using nbs(3) assms(6) by (simp add: distinct_card)
  have "\<forall>v\<in>set (map ?g nbs). in_unit v" using nbs(4) assms(7,8) gap_unit [OF R(1)] by auto
  from fsum_between [OF R(1) this] len obtain d where d: "fsum ?D (map ?g nbs) = Fin d" "0 \<le> d" "d \<le> real (length nbs)" by auto
  have n0: "0 < real (length nbs)" using nbs(2) by simp
  have "?D (real (length nbs)) = Fin (real (length nbs))" using len by (intro rounding.rnd_nat [OF R(1)]) simp
  moreover have "0 \<le> d / real (length nbs)" "d / real (length nbs) \<le> 1" using d n0 by (simp_all add: divide_le_eq)
  with rounding.rnd_unit [OF R(1) this] obtain m where "?D (d / real (length nbs)) = Fin m" and m: "0 \<le> m" "m \<le> 1" by blast
  moreover obtain q where q: "fmul ?D (Fin (1 / 2)) (fadd ?D (fmul ?D (u ! r) (u ! r)) (fmul ?D (fsub ?D (Fin 1) (u ! r)) (fsub ?D (Fin 1) (u ! r)))) = Fin q" "1 / 8 \<le> q"
    using noise_positive [OF R(1) assms(2) assms(7) [OF assms(8)]] by blast
  moreover have mq: "0 \<le> m / q" "m / q \<le> 8" using m q(2) by (simp_all add: divide_le_eq)
  from rounding.rnd_between [OF R(1), of 0 "m / q" 8] mq obtain w where "?D (m / q) = Fin w" and w: "0 \<le> w" "w \<le> 8" by auto
  moreover from rounding.rnd_between [OF R(2), of 0 w 8] w obtain s where "single ar w = Fin s" "0 \<le> s" "s \<le> 8" by auto
  moreover have "foldl (\<lambda>s nb. fadd ?D s (?g nb)) (Fin 0) nbs = Fin d" using d(1) by (simp add: fsum_def foldl_map)
  ultimately show ?thesis using n0 nbs(1,2,4)
    by (auto simp: sensitivity_def Let_def list_all_iff narrow_def)
qed

lemma in_unit_times: "rounding rnd \<Longrightarrow> in_unit x \<Longrightarrow> in_unit y \<Longrightarrow> in_unit (fmul rnd x y)"
proof -
  assume R: "rounding rnd" and "in_unit x" "in_unit y"
  then obtain a b where ab: "x = Fin a" "0 \<le> a" "a \<le> 1" "y = Fin b" "0 \<le> b" "b \<le> 1" by (auto simp: in_unit_iff)
  then have "0 \<le> a * b" "a * b \<le> 1" using mult_le_one [of a b] by simp_all
  from rounding.rnd_unit [OF R this] ab show ?thesis by (auto simp: in_unit_iff)
qed

lemma pct_rank_in_unit:
  assumes "arith_ok ar" "length x \<le> 2 ^ 23" "k < length x" "is_finite (x ! k)"
  shows "in_unit (pct_rank ar x ! k)"
  using pct_rank_cases [OF assms(1-3)] assms(4) by simp

text \<open>The rows of the holdings, and what the overlap counts.\<close>

definition days_distinct :: "pr_store \<Rightarrow> bool" where
  "days_distinct st \<longleftrightarrow> (\<forall>i < sr_n_d st. distinct (day_members st i) \<and> length (day_members st i) = cnt st i)"

lemma build_holdings_rows:
  assumes "build_holdings ar nf st hn pl = Ok x" "days_distinct st" "0 < hn"
  shows "length x = sr_n_d st" "\<And>i. i < sr_n_d st \<Longrightarrow> sorted_wrt (<) (x ! i) \<and> length (x ! i) = hn"
proof -
  show l: "length x = sr_n_d st" using map_ok_length [OF assms(1) [unfolded build_holdings_def]] by simp
  show "sorted_wrt (<) (x ! i) \<and> length (x ! i) = hn" if i: "i < sr_n_d st" for i
  proof -
    have "holdings_day ar nf st hn pl i = Ok (x ! i)" using map_ok_nth [OF assms(1) [unfolded build_holdings_def], of i] i by simp
    from holdings_row [OF this] assms(2,3) i show ?thesis by (auto simp: days_distinct_def)
  qed
qed

lemma sorted_lists_eq: "sorted_wrt (<) (as :: nat list) \<Longrightarrow> sorted_wrt (<) bs \<Longrightarrow> set as = set bs \<Longrightarrow> as = bs"
  by (metis strict_sorted_equal)

lemma shared_all:
  assumes "sorted_wrt (<) (as :: nat list)" "sorted_wrt (<) bs" "length as = hn" "length bs = hn"
  shows "card (set as \<inter> set bs) \<le> hn" "card (set as \<inter> set bs) = hn \<longleftrightarrow> as = bs"
proof -
  have c: "card (set as) = hn" "card (set bs) = hn" using assms by (simp_all add: distinct_card strict_sorted_iff)
  show "card (set as \<inter> set bs) \<le> hn" using c card_mono [of "set as" "set as \<inter> set bs"] by simp
  show "card (set as \<inter> set bs) = hn \<longleftrightarrow> as = bs"
  proof
    assume h: "card (set as \<inter> set bs) = hn"
    then have "set as \<inter> set bs = set as" using card_subset_eq [of "set as" "set as \<inter> set bs"] c by simp
    moreover have "set as \<inter> set bs = set bs" using card_subset_eq [of "set bs" "set as \<inter> set bs"] c h by simp
    ultimately show "as = bs" using sorted_lists_eq [OF assms(1,2)] by simp
  qed (use c in simp)
qed

section \<open>Properties\<close>

text \<open>C20. The scores of the points: phase 2 goes through for a lattice of any size up to the precision of the ranks, whatever the order in which the
  threads finish. Every point keeps its ten measures; its two scores, its stability and its total lie in [0, 1], and its sensitivity is finite
  and lies between 0 and 8, since the distance that noise would have never falls below an eighth - all in the arithmetic of the machine.\<close>

theorem scores_in_unit:
  assumes "arith_ok ar" "eighths_exact ar" "2 \<le> n" "0 < M" "build_lattice n M = Ok ks" "length ks \<le> 2 ^ 23" "length pts = length ks"
    "\<forall>row\<in>set pts. length row = 15 \<and> is_finite (row ! 0) \<and> is_finite (row ! 6)" "set ord = {..<length ks}"
  shows "\<exists>out. score_points ar n M ord ks pts = Ok out \<and> length out = length ks \<and>
    (\<forall>i<length ks. (\<forall>c<10. out ! i ! c = pts ! i ! c) \<and> (\<forall>c\<in>{10, 11, 13, 14}. in_unit (out ! i ! c)) \<and>
       (\<exists>s. out ! i ! 12 = Fin s \<and> 0 \<le> s \<and> s \<le> 8))"
proof -
  let ?P = "length ks" and ?c = "\<lambda>c. map (\<lambda>row. row ! c) pts"
  have R: "rounding (single ar)" using assms(1) by (simp add: arith_ok_def)
  have u1: "in_unit (pct_rank ar (?c 0) ! i)" and u2: "in_unit (pct_rank ar (?c 6) ! i)" if "i < ?P" for i
    using assms(6-8) that by (auto intro!: pct_rank_in_unit [OF assms(1)])
  let ?g = "sensitivity ar n M ks (pct_rank ar (?c 6))"
  have "\<forall>r<?P. \<exists>s. ?g r = Ok (Fin s) \<and> 0 \<le> s \<and> s \<le> 8" using sensitivity_bounded [OF assms(1-6)] u2 by blast
  then obtain f where f: "\<And>r. r < ?P \<Longrightarrow> ?g r = Ok (Fin (f r)) \<and> 0 \<le> f r \<and> f r \<le> 8" by metis
  then obtain sens where sens: "fill_cells ?g ord (replicate (length pts) (Fin 0)) = Ok sens" "length sens = ?P" "\<forall>i<?P. sens ! i = Fin (f i)"
    using fill_cells_spec [of ?P ?g "\<lambda>i. Fin (f i)" ord "replicate (length pts) (Fin 0)"] assms(7,9) by auto
  let ?u3 = "pct_rank ar (map fneg sens)"
  have u3: "in_unit (?u3 ! i)" if "i < ?P" for i using assms(6) sens(2,3) that by (auto intro!: pct_rank_in_unit [OF assms(1)])
  let ?out = "map (\<lambda>i. score_row ar (pct_rank ar (?c 0)) (pct_rank ar (?c 6)) sens ?u3 i (pts ! i)) [0..<length pts]"
  have "score_points ar n M ord ks pts = Ok ?out" using sens(1) by (simp add: score_points_def Let_def)
  moreover have "(\<forall>c<10. ?out ! i ! c = pts ! i ! c) \<and> (\<forall>c\<in>{10, 11, 13, 14}. in_unit (?out ! i ! c)) \<and> (\<exists>s. ?out ! i ! 12 = Fin s \<and> 0 \<le> s \<and> s \<le> 8)"
    if i: "i < ?P" for i
  proof -
    have len: "length (pts ! i) = 15" using assms(7,8) i by simp
    have "in_unit (fmul (single ar) (fmul (single ar) (fmul (single ar) (pct_rank ar (?c 0) ! i) (pct_rank ar (?c 6) ! i)) (pct_rank ar (?c 6) ! i)) (?u3 ! i))"
      using u1 [OF i] u2 [OF i] u3 [OF i] by (intro in_unit_times [OF R])
    then show ?thesis using u1 [OF i] u2 [OF i] u3 [OF i] f [OF i] sens(3) i len assms(7) by (simp add: score_row_def nth_list_update)
  qed
  ultimately show ?thesis using assms(7) by (intro exI [of _ ?out]) simp
qed

lemma scores_in_unit_witness:
  "\<exists>out. score_points exact_arith 2 1 [2, 0, 1, 3] [[- 1, 0], [0, 1], [0, - 1], [1, 0]] (replicate 4 (replicate 15 (Fin 2))) = Ok out \<and>
     length out = 4 \<and> out ! 3 ! 9 = Fin 2 \<and> in_unit (out ! 3 ! 14)"
proof -
  have ks: "build_lattice 2 1 = Ok [[- 1, 0], [0, 1], [0, - 1], [1, 0]]" by code_simp
  have e: "eighths_exact exact_arith" by (simp add: eighths_exact_def)
  have "set [2, 0, 1, 3] = {..<length [[- 1, 0], [0, 1], [0, - 1], [1, 0 :: int]]}" by auto
  from scores_in_unit [OF arith_ok_exact e _ _ ks _ _ _ this, of "replicate 4 (replicate 15 (Fin 2))"] obtain out where
    "score_points exact_arith 2 1 [2, 0, 1, 3] [[- 1, 0], [0, 1], [0, - 1], [1, 0]] (replicate 4 (replicate 15 (Fin 2))) = Ok out" "length out = 4"
    "\<forall>i<4. (\<forall>c<10. out ! i ! c = replicate 4 (replicate 15 (Fin 2)) ! i ! c) \<and> (\<forall>c\<in>{10, 11, 13, 14}. in_unit (out ! i ! c))" by auto
  then show ?thesis by (intro exI [of _ out]) simp
qed

text \<open>C21. The overlap of two holdings: every row is the \<open>hold_n\<close> names of the day in increasing order, so that the walk over two rows counts
  the names that both hold; the overlap does not depend on the order of the two, lies between 0 and 1, and is 1 exactly for the same
  holdings on every day.\<close>

theorem overlap_counts_shared:
  assumes "build_holdings ar nf st hn p = Ok x" "build_holdings ar nf st hn q = Ok y" "days_distinct st" "0 < hn" "0 < sr_n_d st"
  shows "(let h = \<Sum>i < sr_n_d st. card (set (x ! i) \<inter> set (y ! i)); v = real h / (real (sr_n_d st) * real hn) in
    foldl (\<lambda>h i. h + merge_hits (x ! i) (y ! i)) 0 [0..<sr_n_d st] = h \<and>
    holdings_overlap br x y (sr_n_d st) hn = holdings_overlap br y x (sr_n_d st) hn \<and>
    holdings_overlap exact_arith x y (sr_n_d st) hn = Fin v \<and> 0 \<le> v \<and> v \<le> 1 \<and> (v = 1 \<longleftrightarrow> x = y))"
proof -
  let ?n = "sr_n_d st" and ?c = "\<lambda>i. card (set (x ! i) \<inter> set (y ! i))"
  note X = build_holdings_rows [OF assms(1,3,4)] and Y = build_holdings_rows [OF assms(2-4)]
  have hits: "foldl (\<lambda>h i. h + merge_hits (x ! i) (y ! i)) 0 [0..<?n] = (\<Sum>i<?n. ?c i)"
    unfolding foldl_add_sum using X(2) Y(2) by (intro sum.cong) (auto simp: merge_hits_card)
  have le: "?c i \<le> hn" and eq: "?c i = hn \<longleftrightarrow> x ! i = y ! i" if "i < ?n" for i
    using shared_all [of "x ! i" "y ! i" hn] X(2) [OF that] Y(2) [OF that] by auto
  have sum: "(\<Sum>i<?n. ?c i) \<le> ?n * hn" using sum_bounded_above [of "{..<?n}" ?c hn] le by simp
  have "(\<Sum>i<?n. ?c i) = ?n * hn \<longleftrightarrow> (\<forall>i<?n. ?c i = hn)"
  proof
    assume s: "(\<Sum>i<?n. ?c i) = ?n * hn"
    then have "(\<Sum>i<?n. hn - ?c i) = 0" using sum_subtractf_nat [of "{..<?n}" ?c "\<lambda>_. hn"] le by simp
    then show "\<forall>i<?n. ?c i = hn" using le by (auto simp: le_antisym)
  qed simp
  also have "\<dots> \<longleftrightarrow> x = y" using eq X(1) Y(1) by (auto intro: nth_equalityI)
  finally have all: "(\<Sum>i<?n. ?c i) = ?n * hn \<longleftrightarrow> x = y" .
  define h where "h = (\<Sum>i<?n. ?c i)"
  have h: "h \<le> ?n * hn" "h = ?n * hn \<longleftrightarrow> x = y" using sum all by (simp_all add: h_def)
  have pos: "0 < ?n * hn" using assms(4,5) by simp
  then have "real h / real (?n * hn) \<le> 1" "real h / real (?n * hn) = 1 \<longleftrightarrow> h = ?n * hn" using h(1) by (simp_all add: divide_le_eq divide_eq_eq del: of_nat_mult)
  moreover have "holdings_overlap exact_arith x y ?n hn = Fin (real h / (real ?n * real hn))"
    using pos by (simp add: holdings_overlap_def Let_def hits h_def)
  ultimately show ?thesis using h(2) hits overlap_commute [of br x y] unfolding Let_def h_def [symmetric] by simp
qed

lemma overlap_counts_shared_witness:
  "build_holdings exact_arith 1 lone_store 1 lone_plan = Ok [[1]] \<and> holdings_overlap exact_arith [[1]] [[1]] 1 1 = Fin 1"
proof -
  have n: "sr_n_d lone_store = 1" by (simp add: lone_store_def)
  have x: "build_holdings exact_arith 1 lone_store 1 lone_plan = Ok [[1]]"
    using lone_select by (simp add: build_holdings_def holdings_day_def n) (simp add: lone_store_def cnt_def)
  have "days_distinct lone_store" by (simp add: days_distinct_def lone_store_def day_members_def cnt_def substr_def)
  from overlap_counts_shared [OF x x this] x show ?thesis by (simp add: n Let_def)
qed

text \<open>C17. The styles. Whatever the scheduling of the threads, the chunks and the order that \<open>std::nth_element\<close> leaves, the styles are those of the
  serial greedy choice over the best points by total and row: no two of them overlap by the threshold or more, and every other candidate
  overlaps by as much with a style that stands before it; so the best point is always a style.\<close>

theorem styles_are_apart:
  assumes "nth_element_ok pick" "\<And>b. set (ord b) = {..<min 512 (min (length pts) MINE_DEDUP_CAND - b)}"
    "find_styles ar pick ord nf M st hn ks pts = Ok ch"
  shows "\<exists>H. let cs = take MINE_DEDUP_CAND (map snd (in_order (zip (map (\<lambda>row. row ! 14) pts) [0..<length pts])));
      same = \<lambda>x y. fle (MINE_DEDUP_OVERLAP ar) (holdings_overlap ar (H x) (H y) (sr_n_d st) hn) in
    (\<forall>c\<in>set cs. point_holdings ar nf M st hn ks c = Ok (H c)) \<and> subseq (ch_styles ch) cs \<and> ch_accepted ch = map H (ch_styles ch) \<and>
    sorted_wrt (\<lambda>x y. \<not> same y x) (ch_styles ch) \<and>
    (\<forall>k<length cs. cs ! k \<in> set (ch_styles ch) \<or> (\<exists>j<k. cs ! j \<in> set (ch_styles ch) \<and> same (cs ! k) (cs ! j)))"
proof -
  let ?tot = "map (\<lambda>row. row ! 14) pts" and ?hold = "point_holdings ar nf M st hn ks"
  let ?cs = "take MINE_DEDUP_CAND (map snd (in_order (zip ?tot [0..<length pts])))"
  have cs: "best_points pick MINE_DEDUP_CAND ?tot = ?cs" using best_points_take [OF assms(1), of MINE_DEDUP_CAND ?tot] by simp
  have len: "length ?cs = min (length pts) MINE_DEDUP_CAND" by (simp add: in_order_def min.commute)
  have run: "dedup ar ?hold (sr_n_d st) hn ?cs ord 512 = Ok ch" using assms(3) by (simp add: find_styles_def cs)
  have ord: "set (ord b) = {..<min 512 (length ?cs - b)}" for b using assms(2) len by simp
  have "\<exists>h. ?hold c = Ok h" if "c \<in> set ?cs" for c by (rule dedup_reads [OF run ord _ that]) simp
  then obtain H where H: "\<And>c. c \<in> set ?cs \<Longrightarrow> ?hold c = Ok (H c)" by metis
  from dedup_serial [where hold = ?hold and H = H, OF H ord] run
  have "ch = foldl (accept ar (sr_n_d st) hn) \<lparr>ch_styles = [], ch_accepted = []\<rparr> (map (\<lambda>c. (c, H c)) ?cs)" by simp
  with greedy [of ar "sr_n_d st" hn H ?cs] H show ?thesis unfolding Let_def by (intro exI [of _ H]) blast
qed

lemma styles_are_apart_witness:
  "\<exists>ch. find_styles exact_arith (\<lambda>n. in_order) (\<lambda>b. [0..<2 - b]) 1 1 lone_store 1 [[1], [- 1]]
      [replicate 15 (Fin 1), replicate 15 (Fin 2)] = Ok ch \<and> ch_styles ch = [1]"
proof -
  let ?pts = "[replicate 15 (Fin 1), replicate 15 (Fin 2)]" and ?ord = "\<lambda>b. [0..<2 - b]" and ?ks = "[[1], [- 1]] :: int list list"
  have pick: "nth_element_ok (\<lambda>n. in_order)"
    unfolding nth_element_ok_def
  proof (intro allI impI conjI ballI)
    fix n :: nat and xs :: "ranked list" and p q assume d: "distinct (map snd xs)" and "p \<in> set (take n (in_order xs))" "q \<in> set (drop n (in_order xs))"
    with in_order_sorted [OF d] have "ahead p q" by (metis append_take_drop_id sorted_wrt_append)
    then show "\<not> ahead q p" by (rule ahead_asym)
  qed (rule in_order_mset)
  have ord: "set (?ord b) = {..<min 512 (min (length ?pts) MINE_DEDUP_CAND - b)}" for b by (auto simp: MINE_DEDUP_CAND_def)
  have rank: "map snd (in_order (zip (map (\<lambda>row. row ! 14) ?pts) [0..<length ?pts])) = [1, 0]"
    by (simp add: in_order_def upt_rec less_eq_fval_def)
  have one: "plan_from_k exact_arith 1 [1] = Ok lone_plan"
    by (simp add: plan_from_k_def push_term_def new_plan_def seal_def lone_plan_def Let_def)
  have two: "plan_from_k exact_arith 1 [- 1] = Ok \<lparr>pl_terms = [(0, Fin (- 1))], pl_wsum = Fin 1\<rparr>"
    by (simp add: plan_from_k_def push_term_def new_plan_def seal_def Let_def)
  have n: "sr_n_d lone_store = 1" "cnt lone_store 0 = 1" by (simp_all add: lone_store_def cnt_def)
  have hold: "point_holdings exact_arith 1 1 lone_store 1 ?ks c = Ok [[1]]" if "c \<in> {0, 1}" for c
  proof -
    have "\<exists>v. select_top exact_arith (block 1 lone_store 0) (day_members lone_store 0) (cnt lone_store 0) \<lparr>pl_terms = [(0, Fin (- 1))], pl_wsum = Fin 1\<rparr> 1 = Ok [(v, 1)]"
      by (simp add: lone_store_def cnt_def block_def day_members_def select_top_def numerators_def column_def substr_def upt_rec
          keep_best_def sift.simps in_order_def TIE_MARGIN_def Let_def)
    then show ?thesis using that lone_select one two n by (auto simp: point_holdings_def build_holdings_def holdings_day_def)
  qed
  have best: "best_points (\<lambda>n. in_order) MINE_DEDUP_CAND (map (\<lambda>row. row ! 14) ?pts) = [1, 0]"
    using best_points_take [OF pick, of MINE_DEDUP_CAND "map (\<lambda>row. row ! 14) ?pts"] rank by (simp add: MINE_DEDUP_CAND_def)
  have "\<exists>ch. find_styles exact_arith (\<lambda>n. in_order) ?ord 1 1 lone_store 1 ?ks ?pts = Ok ch"
    unfolding find_styles_def best n using hold
    by (subst dedup_serial [where H = "\<lambda>c. [[1]]"]) auto
  then obtain ch where ch: "find_styles exact_arith (\<lambda>n. in_order) ?ord 1 1 lone_store 1 ?ks ?pts = Ok ch" by blast
  have same: "fle (MINE_DEDUP_OVERLAP exact_arith) (holdings_overlap exact_arith [[1]] [[1]] 1 1)"
    by (simp add: MINE_DEDUP_OVERLAP_def holdings_overlap_def)
  have cs: "take MINE_DEDUP_CAND (map snd (in_order (zip (map (\<lambda>row. row ! 14) ?pts) [0..<length ?pts]))) = [1, 0]"
    unfolding rank by (simp add: MINE_DEDUP_CAND_def)
  from styles_are_apart [OF pick ord ch] obtain H where H: "\<forall>c\<in>set [1, 0]. point_holdings exact_arith 1 1 lone_store 1 ?ks c = Ok (H c)"
    "subseq (ch_styles ch) [1, 0]" "sorted_wrt (\<lambda>x y. \<not> same_style exact_arith (sr_n_d lone_store) 1 (H y) (H x)) (ch_styles ch)"
    "[1, 0] ! 0 \<in> set (ch_styles ch) \<or> (\<exists>j<0. [1, 0] ! j \<in> set (ch_styles ch) \<and> same_style exact_arith (sr_n_d lone_store) 1 (H ([1, 0] ! 0)) (H ([1, 0] ! j)))"
    unfolding Let_def cs by (metis length_pos_if_in_set list.set_intros(1))
  have "H 0 = [[1]]" "H 1 = [[1]]" using H(1) hold by auto
  moreover have "1 \<in> set (ch_styles ch)" using H(4) by simp
  moreover have "ch_styles ch \<in> set (subseqs [1, 0])" using H(2) by (simp only: set_subseqs_eq mem_Collect_eq)
  ultimately have "ch_styles ch = [1]" using H(3) same n by auto
  with ch show ?thesis by blast
qed

end
