(* ===== verification/Layers.thy ===== *)
theory Layers
  imports Styles
begin

unbundle bit_operations_syntax

text \<open>
  The layers of the weight search (\<open>cpp/src/mine/mine.cpp\<close>, phase 1): every day the members are sorted into buckets by their
  score, the buckets are dealt out to \<open>n_bins\<close> layers of equal size, the returns of the layers are compounded, and every
  window of a year gives the line through the log returns of the layers and the Sharpe ratio of the top layer. A batch of
  weight vectors shares the histogram with its bitmap, the row of layer returns and the ring buffers of its lanes, and
  workers use them again for the next batch. The theorems: the scratch never leaks from one vector, day, window or batch to another,
  and in exact arithmetic no assertion of the scan can fail.
\<close>

section \<open>Windows\<close>

definition N_BUCKETS :: nat where "N_BUCKETS = 1024"
definition LAYER_WINDOW :: nat where "LAYER_WINDOW = 252"
definition LAYER_STEP :: nat where "LAYER_STEP = 21"
definition LAYER_RING :: nat where "LAYER_RING = LAYER_WINDOW div LAYER_STEP + 1"
definition LAYER_K_SE :: fval where "LAYER_K_SE = Fin 2"

record layer_params =
  ly_n_bins :: nat
  ly_n_ret :: nat
  ly_n_win :: nat
  ly_xc :: "fval list"
  ly_sxx :: fval

definition rank_of_layer :: "arith \<Rightarrow> nat \<Rightarrow> nat \<Rightarrow> fval" where
  "rank_of_layer ar nb j = (let D = double ar in fsub D (fdiv D (fadd D (D (real j)) (Fin (1 / 2))) (D (real nb))) (Fin (1 / 2)))"

definition make_layer :: "arith \<Rightarrow> strategy_spec \<Rightarrow> nat \<Rightarrow> (mine_error, layer_params) outcome" where
  "make_layer ar spec nd =
     (let nb = ps_universe_size (st_pool spec) div st_hold_n spec; n_ret = int nd - 1 in
      if \<not> nb \<ge> 10 then Fail TooFewBins
      else if \<not> n_ret \<ge> int LAYER_WINDOW then Fail WindowTooShort
      else
        let n_win = n_ret div int LAYER_STEP - int LAYER_WINDOW div int LAYER_STEP + 1;
            xc = map (rank_of_layer ar (nat nb)) [0..<nat nb];
            sxx = foldl (\<lambda>s x. fadd (double ar) s (fmul (double ar) x x)) (Fin 0) xc
        in if \<not> n_win \<ge> 2 then Fail TooFewWindows
           else Ok \<lparr>ly_n_bins = nat nb, ly_n_ret = nat n_ret, ly_n_win = nat n_win, ly_xc = xc, ly_sxx = sxx\<rparr>)"

record win_stat =
  ws_s :: fval
  ws_b :: fval
  ws_r2 :: fval
  ws_sharpe :: fval

text \<open>The Sharpe ratio of the top layer from the running sums of its returns and their squares at both ends of the window.\<close>

definition win_sharpe :: "arith \<Rightarrow> fval \<times> fval \<Rightarrow> fval \<times> fval \<Rightarrow> fval" where
  "win_sharpe ar top0 top1 =
     (let D = double ar; n = D (real LAYER_WINDOW);
          mean = fdiv D (fsub D (fst top1) (fst top0)) n;
          var = fsub D (fdiv D (fsub D (snd top1) (snd top0)) n) (fmul D mean mean)
      in if \<not> fless (Fin 0) var then Fin 0 else narrow ar (fmul D (fdiv D mean (fsqrt D var)) (sqrt_days ar)))"

definition flog :: "(real \<Rightarrow> fval) \<Rightarrow> fval \<Rightarrow> fval" where
  "flog rnd x = (case x of Fin r \<Rightarrow> if r > 0 then rnd (ln r) else if r = 0 then NInf else NaN | PInf \<Rightarrow> PInf | _ \<Rightarrow> NaN)"

definition log_returns :: "arith \<Rightarrow> nat \<Rightarrow> fval list \<Rightarrow> fval list \<Rightarrow> fval list" where
  "log_returns ar nb nav0 nav1 = map (\<lambda>j. flog (double ar) (fdiv (double ar) (nav1 ! j) (nav0 ! j))) [0..<nb]"

definition line_sums :: "arith \<Rightarrow> layer_params \<Rightarrow> fval list \<Rightarrow> fval \<times> fval \<times> fval" where
  "line_sums ar lp ys = (let D = double ar in
     foldl (\<lambda>(sy, sxy, syy) j. (fadd D sy (ys ! j), fadd D sxy (fmul D (ly_xc lp ! j) (ys ! j)), fadd D syy (fmul D (ys ! j) (ys ! j))))
       (Fin 0, Fin 0, Fin 0) [0..<ly_n_bins lp])"

definition regress :: "arith \<Rightarrow> layer_params \<Rightarrow> fval list \<Rightarrow> fval list \<Rightarrow> win_stat" where
  "regress ar lp nav0 nav1 =
     (let D = double ar; n = ly_n_bins lp; (sy, sxy, syy) = line_sums ar lp (log_returns ar n nav0 nav1);
          ybar = fdiv D sy (D (real n));
          syy_c = fsub D syy (fmul D (fmul D (D (real n)) ybar) ybar);
          b = fdiv D sxy (ly_sxx lp)
      in if fle syy_c (Fin 0) then \<lparr>ws_s = Fin 0, ws_b = Fin 0, ws_r2 = Fin 0, ws_sharpe = Fin 0\<rparr>
         else
           let ess = fmul D b sxy;
               rss = std_max (Fin 0) (fsub D syy_c ess);
               r2 = std_min (Fin 1) (fdiv D ess syy_c);
               se = fsqrt D (fdiv D (fdiv D rss (D (real (n - 2)))) (ly_sxx lp))
           in \<lparr>ws_s = narrow ar (fsub D b (fmul D LAYER_K_SE se)), ws_b = narrow ar b, ws_r2 = narrow ar r2, ws_sharpe = Fin 0\<rparr>)"

section \<open>Buckets\<close>

text \<open>The first factor is written, not added to zero.\<close>

definition layer_scores :: "arith \<Rightarrow> fval list \<Rightarrow> nat \<Rightarrow> (nat \<times> fval) list \<Rightarrow> fval list" where
  "layer_scores ar blk n ts =
     (let S = single ar; (c0, w0) = hd ts in
      foldl (\<lambda>acc (c, w). map (\<lambda>j. fadd S (acc ! j) (fmul S w (column blk n c ! j))) [0..<n])
        (map (\<lambda>j. fmul S w0 (column blk n c0 ! j)) [0..<n]) (tl ts))"

definition bucket_numbers :: "arith \<Rightarrow> fval list \<Rightarrow> nat list" where
  "bucket_numbers ar acc =
     (let S = single ar; mn = foldl std_min (hd acc) (tl acc); mx = foldl std_max (hd acc) (tl acc);
          inv = (if fless mn mx then fdiv S (S (real N_BUCKETS)) (fsub S mx mn) else Fin 0)
      in map (\<lambda>x. nat (min (trunc (fmul S (fsub S x mn) inv)) (int N_BUCKETS - 1))) acc)"

record hist_cell =
  hc_sum :: fval
  hc_cnt :: nat

definition empty_cell :: hist_cell where "empty_cell = \<lparr>hc_sum = Fin 0, hc_cnt = 0\<rparr>"

definition scatter_member ::
  "arith \<Rightarrow> hist_cell list \<times> 64 word list \<Rightarrow> nat \<times> fval \<Rightarrow> hist_cell list \<times> 64 word list" where
  "scatter_member ar = (\<lambda>(hist, hmask) (h, r).
     (hist[h := \<lparr>hc_sum = fadd (double ar) (hc_sum (hist ! h)) r, hc_cnt = hc_cnt (hist ! h) + 1\<rparr>],
      hmask[h div 64 := hmask ! (h div 64) OR push_bit (h mod 64) 1]))"

section \<open>The sweep\<close>

record sweep =
  sw_bin :: nat
  sw_need :: fval
  sw_accr :: fval
  sw_rets :: "fval list"

definition close_layer :: "arith \<Rightarrow> fval \<Rightarrow> sweep \<Rightarrow> sweep" where
  "close_layer ar per s =
     (if fle (sw_need s) (double ar (1 / 10 ^ 9))
      then s\<lparr>sw_rets := (sw_rets s)[sw_bin s := fdiv (double ar) (sw_accr s) per], sw_bin := sw_bin s + 1, sw_need := per, sw_accr := Fin 0\<rparr>
      else s)"

text \<open>A bucket that crosses the end of a layer: its mean return is shared out. The counter bounds the loop.\<close>

fun spread :: "nat \<Rightarrow> arith \<Rightarrow> nat \<Rightarrow> fval \<Rightarrow> fval \<Rightarrow> fval \<Rightarrow> sweep \<Rightarrow> (mine_error, sweep) outcome" where
  "spread 0 ar nb per mean rem s = Fail SpreadEndless"
| "spread (Suc k) ar nb per mean rem s =
     (let D = double ar in
      if \<not> fless (D (1 / 10 ^ 12)) rem then Ok s
      else if sw_bin s = nb - 1 then Ok (s\<lparr>sw_accr := fadd D (sw_accr s) (fmul D rem mean)\<rparr>)
      else
        let share = std_min rem (sw_need s)
        in spread k ar nb per mean (fsub D rem share)
             (close_layer ar per (s\<lparr>sw_accr := fadd D (sw_accr s) (fmul D share mean), sw_need := fsub D (sw_need s) share\<rparr>)))"

definition sweep_cell :: "arith \<Rightarrow> nat \<Rightarrow> fval \<Rightarrow> sweep \<Rightarrow> hist_cell \<Rightarrow> (mine_error, sweep) outcome" where
  "sweep_cell ar nb per s cell =
     (let D = double ar; cd = D (real (hc_cnt cell)) in
      if sw_bin s = nb - 1 then Ok (s\<lparr>sw_accr := fadd D (sw_accr s) (hc_sum cell)\<rparr>)
      else if fle cd (sw_need s)
        then Ok (close_layer ar per (s\<lparr>sw_accr := fadd D (sw_accr s) (hc_sum cell), sw_need := fsub D (sw_need s) cd\<rparr>))
      else spread (nb + 2) ar nb per (fdiv D (hc_sum cell) cd) cd s)"

text \<open>\<open>std::countr_zero\<close>, and the loop that takes the lowest bit off until none is left.\<close>

definition countr_zero :: "64 word \<Rightarrow> nat" where
  "countr_zero w = length (takeWhile (\<lambda>i. \<not> bit w i) [0..<64])"

lemma pop_decreases: "w \<noteq> 0 \<Longrightarrow> unat (w AND (w - 1)) < unat (w :: 64 word)"
proof -
  assume "w \<noteq> 0"
  then have "unat (w - 1) < unat w" by (simp add: unat_minus_one unat_gt_0)
  moreover have "unat (w AND (w - 1)) \<le> unat (w - 1)" by (metis word_and_le1 word_le_nat_alt)
  ultimately show ?thesis by simp
qed

function pop_bits :: "64 word \<Rightarrow> nat list" where
  "pop_bits w = (if w = 0 then [] else countr_zero w # pop_bits (w AND (w - 1)))"
  by auto
termination by (relation "measure unat") (auto intro: pop_decreases)

declare pop_bits.simps [simp del]

definition sweep_hist ::
  "arith \<Rightarrow> nat \<Rightarrow> fval \<Rightarrow> hist_cell list \<times> sweep \<Rightarrow> nat \<Rightarrow> (mine_error, hist_cell list \<times> sweep) outcome" where
  "sweep_hist ar nb per = (\<lambda>(hist, s) h. bind_ok (sweep_cell ar nb per s (hist ! h)) (\<lambda>s. Ok (hist[h := empty_cell], s)))"

definition sweep_word ::
  "arith \<Rightarrow> nat \<Rightarrow> fval \<Rightarrow> (hist_cell list \<times> 64 word list) \<times> sweep \<Rightarrow> nat \<Rightarrow> (mine_error, (hist_cell list \<times> 64 word list) \<times> sweep) outcome" where
  "sweep_word ar nb per = (\<lambda>((hist, hmask), s) wq.
     if hmask ! wq = 0 then Ok ((hist, hmask), s)
     else bind_ok (fold_ok (sweep_hist ar nb per) (hist, s) (map (\<lambda>i. wq * 64 + i) (pop_bits (hmask ! wq))))
            (\<lambda>(hist, s). Ok ((hist, hmask[wq := 0]), s)))"

section \<open>A batch\<close>

record layer_lane =
  ll_nav :: "fval list"
  ll_top :: "fval \<times> fval"
  ll_ring :: "fval list list"
  ll_top_ring :: "(fval \<times> fval) list"
  ll_stats :: "win_stat list"

record layer_scratch =
  ls_hist :: "hist_cell list"
  ls_hmask :: "64 word list"
  ls_rets :: "fval list"
  ls_lanes :: "layer_lane list"

definition no_stat :: win_stat where
  "no_stat = \<lparr>ws_s = Fin 0, ws_b = Fin 0, ws_r2 = Fin 0, ws_sharpe = Fin 0\<rparr>"

definition make_layer_scratch :: "layer_params \<Rightarrow> nat \<Rightarrow> layer_scratch" where
  "make_layer_scratch lp np_cap =
     \<lparr>ls_hist = replicate N_BUCKETS empty_cell, ls_hmask = replicate (N_BUCKETS div 64) 0, ls_rets = replicate (ly_n_bins lp) (Fin 0),
      ls_lanes = replicate np_cap \<lparr>ll_nav = replicate (ly_n_bins lp) (Fin 1), ll_top = (Fin 0, Fin 0),
        ll_ring = replicate LAYER_RING (replicate (ly_n_bins lp) (Fin 1)), ll_top_ring = replicate LAYER_RING (Fin 0, Fin 0),
        ll_stats = replicate (ly_n_win lp) no_stat\<rparr>\<rparr>"

text \<open>The returns of the layers on one day, through the histogram.\<close>

definition layer_rets ::
  "arith \<Rightarrow> nat \<Rightarrow> pr_store \<Rightarrow> nat \<Rightarrow> nat \<Rightarrow> plan \<Rightarrow> layer_scratch \<Rightarrow> (mine_error, layer_scratch) outcome" where
  "layer_rets ar nf st nb t pl sc =
     (let n = vcnt st t; per = fdiv (double ar) (double ar (real n)) (double ar (real nb));
          hb = bucket_numbers ar (layer_scores ar (vblock nf st t) n (pl_terms pl));
          hm = foldl (scatter_member ar) (ls_hist sc, ls_hmask sc) (zip hb (vfret_row st t))
      in bind_ok (fold_ok (sweep_word ar nb per) (hm, \<lparr>sw_bin = 0, sw_need = per, sw_accr = Fin 0, sw_rets = ls_rets sc\<rparr>) [0..<N_BUCKETS div 64])
           (\<lambda>((hist, hmask), s). if \<not> sw_bin s = nb - 1 then Fail BinMassLost
              else Ok (sc\<lparr>ls_hist := hist, ls_hmask := hmask, ls_rets := (sw_rets s)[sw_bin s := fdiv (double ar) (sw_accr s) per]\<rparr>)))"

definition compound_layers :: "arith \<Rightarrow> fval list \<Rightarrow> fval list \<Rightarrow> (mine_error, fval list) outcome" where
  "compound_layers ar rets nav = (let D = double ar in
     map_ok (\<lambda>(v, r). let v' = fmul D v (fadd D (Fin 1) r) in if \<not> fless (Fin 0) v' then Fail LayerNavNotPositive else Ok v') (zip nav rets))"

definition add_top :: "arith \<Rightarrow> fval \<Rightarrow> fval \<times> fval \<Rightarrow> fval \<times> fval" where
  "add_top ar r s = (fadd (double ar) (fst s) r, fadd (double ar) (snd s) (fmul (double ar) r r))"

definition move_lane :: "arith \<Rightarrow> nat \<Rightarrow> pr_store \<Rightarrow> nat \<Rightarrow> nat \<Rightarrow> layer_scratch \<Rightarrow> nat \<times> plan \<Rightarrow> (mine_error, layer_scratch) outcome" where
  "move_lane ar nf st nb t sc = (\<lambda>(b, pl).
     bind_ok (layer_rets ar nf st nb t pl sc) (\<lambda>sc. let l = ls_lanes sc ! b in
     bind_ok (compound_layers ar (ls_rets sc) (ll_nav l)) (\<lambda>nav.
       Ok (sc\<lparr>ls_lanes := (ls_lanes sc)[b := l\<lparr>ll_nav := nav, ll_top := add_top ar (ls_rets sc ! (nb - 1)) (ll_top l)\<rparr>]\<rparr>))))"

text \<open>The end of a month: the snapshot, and the window that ends here.\<close>

definition window_stat :: "arith \<Rightarrow> layer_params \<Rightarrow> fval list \<times> fval \<times> fval \<Rightarrow> fval list \<times> fval \<times> fval \<Rightarrow> win_stat" where
  "window_stat ar lp s0 s1 = (regress ar lp (fst s0) (fst s1))\<lparr>ws_sharpe := win_sharpe ar (snd s0) (snd s1)\<rparr>"

definition snapshot :: "arith \<Rightarrow> layer_params \<Rightarrow> nat \<Rightarrow> layer_lane \<Rightarrow> layer_lane" where
  "snapshot ar lp m l =
     (let ring = (ll_ring l)[m mod LAYER_RING := ll_nav l]; tops = (ll_top_ring l)[m mod LAYER_RING := ll_top l];
          w = int m - int (LAYER_WINDOW div LAYER_STEP); w0 = nat w mod LAYER_RING
      in l\<lparr>ll_ring := ring, ll_top_ring := tops,
           ll_stats := (if w \<ge> 0 \<and> w < int (ly_n_win lp)
             then (ll_stats l)[nat w := window_stat ar lp (ring ! w0, tops ! w0) (ll_nav l, ll_top l)] else ll_stats l)\<rparr>)"

definition layer_day ::
  "arith \<Rightarrow> nat \<Rightarrow> pr_store \<Rightarrow> layer_params \<Rightarrow> plan list \<Rightarrow> layer_scratch \<Rightarrow> nat \<Rightarrow> (mine_error, layer_scratch) outcome" where
  "layer_day ar nf st lp plans sc t =
     bind_ok (fold_ok (move_lane ar nf st (ly_n_bins lp) t) sc (enumerate 0 plans)) (\<lambda>sc.
       Ok (if (t + 1) mod LAYER_STEP = 0
           then sc\<lparr>ls_lanes := map (\<lambda>b. if b < length plans then snapshot ar lp ((t + 1) div LAYER_STEP) (ls_lanes sc ! b) else ls_lanes sc ! b)
                     [0..<length (ls_lanes sc)]\<rparr>
           else sc))"

definition begin_lanes :: "layer_params \<Rightarrow> nat \<Rightarrow> layer_lane list \<Rightarrow> layer_lane list" where
  "begin_lanes lp np lanes =
     map (\<lambda>b. let l = lanes ! b; l = (if b < np then l\<lparr>ll_nav := replicate (ly_n_bins lp) (Fin 1), ll_top := (Fin 0, Fin 0)\<rparr> else l)
        in l\<lparr>ll_ring := (ll_ring l)[0 := replicate (ly_n_bins lp) (Fin 1)], ll_top_ring := (ll_top_ring l)[0 := (Fin 0, Fin 0)]\<rparr>)
       [0..<length lanes]"

section \<open>The summaries\<close>

definition mean_of :: "arith \<Rightarrow> fval list \<Rightarrow> fval" where
  "mean_of ar vs = fdiv (double ar) (foldl (fadd (double ar)) (Fin 0) vs) (double ar (real (length vs)))"

text \<open>Mean, mean over deviation, the value of rank \<open>(n - 1) / 10\<close>, and the share of positive ones.\<close>

definition summarize :: "arith \<Rightarrow> fval list \<Rightarrow> fval list" where
  "summarize ar vs =
     (let D = double ar; mean = mean_of ar vs;
          var = fdiv D (foldl (\<lambda>s v. let d = fsub D v mean in fadd D s (fmul D d d)) (Fin 0) vs) (D (real (length vs)))
      in [narrow ar mean, narrow ar (if fless (Fin 0) var then fdiv D mean (fsqrt D var) else Fin 0), sort vs ! ((length vs - 1) div 10),
          fdiv (single ar) (single ar (real (length (filter (\<lambda>v. fless (Fin 0) v) vs)))) (single ar (real (length vs)))])"

definition point_summary :: "arith \<Rightarrow> win_stat list \<Rightarrow> fval list" where
  "point_summary ar ws =
     summarize ar (map ws_s ws) @ [narrow ar (mean_of ar (map ws_b ws)), narrow ar (mean_of ar (map ws_r2 ws))] @ summarize ar (map ws_sharpe ws)"

definition window_rows :: "win_stat list \<Rightarrow> fval list list" where
  "window_rows ws = map (\<lambda>s. [ws_s s, ws_b s, ws_r2 s, ws_sharpe s]) ws"

definition run_layer_batch ::
  "arith \<Rightarrow> nat \<Rightarrow> pr_store \<Rightarrow> layer_params \<Rightarrow> plan list \<Rightarrow> layer_scratch
     \<Rightarrow> (mine_error, layer_scratch \<times> fval list list \<times> fval list list list) outcome" where
  "run_layer_batch ar nf st lp plans sc =
     bind_ok (fold_ok (layer_day ar nf st lp plans) (sc\<lparr>ls_lanes := begin_lanes lp (length plans) (ls_lanes sc)\<rparr>) [0..<ly_n_ret lp]) (\<lambda>sc.
       let stats = map ll_stats (take (length plans) (ls_lanes sc))
       in Ok (sc, map (point_summary ar) stats, map window_rows stats))"

section \<open>The bits of a word\<close>

lemma countr_zero_bit:
  assumes "(w :: 64 word) \<noteq> 0"
  shows "countr_zero w < 64" "bit w (countr_zero w)" "\<And>i. i < countr_zero w \<Longrightarrow> \<not> bit w i"
proof -
  let ?P = "\<lambda>i. \<not> bit w i"
  obtain n where n: "bit w n" "n < 64" using assms by (auto simp: bit_eq_iff bit_simps)
  then have "\<not> (\<forall>i\<in>set [0..<64]. ?P i)" by auto
  then have ne: "takeWhile ?P [0..<64] \<noteq> [0..<64]" by (simp add: takeWhile_eq_all_conv)
  show l: "countr_zero w < 64"
    unfolding countr_zero_def using ne length_takeWhile_le [of ?P "[0..<64]"] by (metis diff_zero le_neq_implies_less length_upt takeWhile_eq_take take_all order_refl)
  show "bit w (countr_zero w)" using nth_length_takeWhile [of ?P "[0..<64]"] l unfolding countr_zero_def by simp
  show "\<not> bit w i" if "i < countr_zero w" for i
    using takeWhile_nth [of i ?P "[0..<64]"] nth_mem [of i "takeWhile ?P [0..<64]"] that l set_takeWhileD [of _ ?P "[0..<64]"]
    unfolding countr_zero_def by fastforce
qed

text \<open>\<open>w & (w - 1)\<close> is \<open>w\<close> without its lowest bit.\<close>

lemma pop_bit:
  fixes w :: "64 word"
  assumes "bit w k" "\<And>i. i < k \<Longrightarrow> \<not> bit w i"
  shows "bit (w AND (w - 1)) i \<longleftrightarrow> bit w i \<and> i \<noteq> k"
proof -
  have "unset_bit k w OR push_bit k 1 = w" using assms(1) by (intro bit_eqI) (auto simp: bit_simps)
  moreover have "unset_bit k w OR push_bit k 1 = unset_bit k w + push_bit k 1"
    by (rule disjunctive_add [symmetric]) (auto simp: bit_simps)
  ultimately have "w - 1 = unset_bit k w + mask k" by (simp add: mask_eq_exp_minus_1 push_bit_eq_mult algebra_simps)
  also have "\<dots> = unset_bit k w OR mask k" by (rule disjunctive_add) (use assms(2) in \<open>auto simp: bit_simps\<close>)
  finally show ?thesis using assms(2) by (auto simp: bit_simps)
qed

lemma pop_bits_filter: "pop_bits w = filter (bit w) [0..<64]"
proof (induction w rule: pop_bits.induct)
  case (1 w)
  show ?case
  proof (cases "w = 0")
    case True
    then show ?thesis by (simp add: pop_bits.simps)
  next
    case False
    let ?k = "countr_zero w"
    note k = countr_zero_bit [OF False]
    have split: "[0..<64] = [0..<?k] @ ?k # [Suc ?k..<64]" using k(1) upt_add_eq_append [of 0 ?k "64 - ?k"] by (simp add: upt_conv_Cons)
    have low: "filter P [0..<?k] = []" if "\<And>i. i < ?k \<Longrightarrow> \<not> P i" for P using that by (simp add: filter_empty_conv)
    have "filter (bit w) [0..<64] = ?k # filter (bit w) [Suc ?k..<64]" unfolding split using k(2,3) low by simp
    moreover have "filter (bit (w AND (w - 1))) [0..<64] = filter (bit w) [Suc ?k..<64]"
      unfolding split using low k(3) by (simp add: pop_bit [OF k(2,3)]) (rule filter_cong, auto simp: pop_bit [OF k(2,3)])
    ultimately show ?thesis using 1 [OF False] False by (simp add: pop_bits.simps [of w])
  qed
qed

section \<open>The histogram\<close>

definition add_to_cell :: "arith \<Rightarrow> hist_cell \<Rightarrow> fval \<Rightarrow> hist_cell" where
  "add_to_cell ar c r = \<lparr>hc_sum = fadd (double ar) (hc_sum c) r, hc_cnt = hc_cnt c + 1\<rparr>"

text \<open>A cell, from the members of its bucket alone.\<close>

definition cell_of :: "arith \<Rightarrow> (nat \<times> fval) list \<Rightarrow> nat \<Rightarrow> hist_cell" where
  "cell_of ar ms h = foldl (add_to_cell ar) empty_cell (map snd (filter (\<lambda>p. fst p = h) ms))"

lemma cell_of_snoc: "cell_of ar (ms @ [p]) h = (if fst p = h then add_to_cell ar (cell_of ar ms h) (snd p) else cell_of ar ms h)"
  by (simp add: cell_of_def)

lemma cell_count: "hc_cnt (cell_of ar ms h) = length (filter (\<lambda>p. fst p = h) ms)"
proof (induction ms rule: rev_induct)
  case (snoc p ms)
  then show ?case by (simp add: cell_of_snoc add_to_cell_def)
qed (simp add: cell_of_def empty_cell_def)

lemma cell_empty: "hc_cnt (cell_of ar ms h) = 0 \<Longrightarrow> cell_of ar ms h = empty_cell"
  using cell_count [of ar ms h] by (simp add: cell_of_def)

lemma scatter_at:
  assumes "\<forall>p\<in>set ms. fst p < N_BUCKETS"
  shows "\<exists>hist hmask. foldl (scatter_member ar) (replicate N_BUCKETS empty_cell, replicate (N_BUCKETS div 64) 0) ms = (hist, hmask) \<and>
    length hist = N_BUCKETS \<and> length hmask = N_BUCKETS div 64 \<and> (\<forall>h<N_BUCKETS. hist ! h = cell_of ar ms h) \<and>
    (\<forall>wq<N_BUCKETS div 64. \<forall>i<64. bit (hmask ! wq) i \<longleftrightarrow> 0 < hc_cnt (cell_of ar ms (wq * 64 + i)))"
  using assms
proof (induction ms rule: rev_induct)
  case Nil
  then show ?case by (simp add: cell_of_def) (simp add: empty_cell_def N_BUCKETS_def)
next
  case (snoc p ms)
  obtain h r where p: "p = (h, r)" by force
  from snoc obtain hist hmask where IH: "foldl (scatter_member ar) (replicate N_BUCKETS empty_cell, replicate (N_BUCKETS div 64) 0) ms = (hist, hmask)"
    "length hist = N_BUCKETS" "length hmask = N_BUCKETS div 64" "\<forall>h<N_BUCKETS. hist ! h = cell_of ar ms h"
    "\<forall>wq<N_BUCKETS div 64. \<forall>i<64. bit (hmask ! wq) i \<longleftrightarrow> 0 < hc_cnt (cell_of ar ms (wq * 64 + i))" by auto
  have h: "h < N_BUCKETS" using snoc.prems by (simp add: p)
  then have hw: "h div 64 < N_BUCKETS div 64" by (simp add: N_BUCKETS_def)
  let ?hist = "hist[h := add_to_cell ar (hist ! h) r]" and ?hmask = "hmask[h div 64 := hmask ! (h div 64) OR push_bit (h mod 64) 1]"
  have "bit (?hmask ! wq) i \<longleftrightarrow> 0 < hc_cnt (cell_of ar (ms @ [p]) (wq * 64 + i))" if "wq < N_BUCKETS div 64" "i < 64" for wq i
  proof -
    have "h = wq * 64 + i \<longleftrightarrow> wq = h div 64 \<and> i = h mod 64" using that(2) by auto
    moreover have "bit (push_bit (h mod 64) 1 :: 64 word) i \<longleftrightarrow> i = h mod 64" using that(2) by (auto simp: bit_simps)
    ultimately show ?thesis using IH(3,5) that hw by (auto simp: nth_list_update bit_simps cell_of_snoc p add_to_cell_def)
  qed
  moreover have "\<forall>k<N_BUCKETS. ?hist ! k = cell_of ar (ms @ [p]) k" using IH(2,4) h by (auto simp: nth_list_update cell_of_snoc p)
  ultimately show ?case using IH(1-3) by (simp add: scatter_member_def p add_to_cell_def)
qed

section \<open>Sweeping the histogram\<close>

lemma sweep_hist_fold:
  assumes "distinct hs"
  shows "fold_ok (sweep_hist ar nb per) (hist, s) hs =
    bind_ok (fold_ok (sweep_cell ar nb per) s (map (\<lambda>h. hist ! h) hs)) (\<lambda>s. Ok (foldl (\<lambda>H h. H[h := empty_cell]) hist hs, s))"
  using assms
proof (induction hs arbitrary: hist s)
  case (Cons h hs)
  then have m: "map (\<lambda>k. hist[h := empty_cell] ! k) hs = map (\<lambda>k. hist ! k) hs" by (auto intro!: nth_list_update_neq)
  have d: "distinct hs" using Cons.prems by simp
  show ?case
  proof (cases "sweep_cell ar nb per s (hist ! h)")
    case (Ok s1)
    then have "sweep_hist ar nb per (hist, s) h = Ok (hist[h := empty_cell], s1)" by (simp add: sweep_hist_def)
    then show ?thesis by (simp only: fold_ok.simps bind_ok.simps list.map foldl.simps Cons.IH [OF d] m Ok)
  qed (simp add: sweep_hist_def)
qed simp

lemma sweep_words_fold:
  assumes "distinct wqs" "\<forall>wq\<in>set wqs. wq < length hmask"
  shows "fold_ok (sweep_word ar nb per) ((hist, hmask), s) wqs =
    bind_ok (fold_ok (sweep_hist ar nb per) (hist, s) (concat (map (\<lambda>wq. map (\<lambda>i. wq * 64 + i) (pop_bits (hmask ! wq))) wqs)))
      (\<lambda>(hist, s). Ok ((hist, foldl (\<lambda>M wq. M[wq := 0]) hmask wqs), s))"
  using assms
proof (induction wqs arbitrary: hist hmask s)
  case (Cons wq wqs)
  have other: "map (\<lambda>w. map (\<lambda>i. w * 64 + i) (pop_bits (hmask[wq := 0] ! w))) wqs = map (\<lambda>w. map (\<lambda>i. w * 64 + i) (pop_bits (hmask ! w))) wqs"
    using Cons.prems(1) by (intro map_cong refl) (metis distinct.simps(2) nth_list_update_neq)
  show ?case
  proof (cases "hmask ! wq = 0")
    case True
    then have "hmask[wq := 0] = hmask" by (metis list_update_id)
    with True Cons show ?thesis by (simp add: sweep_word_def pop_bits.simps)
  next
    case False
    let ?first = "fold_ok (sweep_hist ar nb per) (hist, s) (map (\<lambda>i. wq * 64 + i) (pop_bits (hmask ! wq)))"
    show ?thesis using False Cons.IH [of "hmask[wq := 0]"] Cons.prems unfolding other
      by (cases ?first) (auto simp: sweep_word_def fold_ok_append split_def)
  qed
qed simp

lemma upt_blocks: "concat (map (\<lambda>w. map (\<lambda>i. w * m + i) [0..<m]) [0..<n]) = [0..<n * m]"
proof (induction n)
  case (Suc n)
  have "map (\<lambda>i. n * m + i) [0..<m] = [n * m..<n * m + m]" using map_add_upt [of "n * m" m] by (simp add: add.commute)
  moreover have "[0..<n * m] @ [n * m..<n * m + m] = [0..<n * m + m]" using upt_add_eq_append [of 0 "n * m" m] by simp
  ultimately show ?case using Suc by (simp add: add.commute)
qed simp

lemma foldl_clear: "foldl (\<lambda>H h. H[h := e]) xs hs = map (\<lambda>i. if i \<in> set hs then e else xs ! i) [0..<length xs]"
proof (induction hs arbitrary: xs)
  case Nil
  then show ?case by (simp add: map_nth)
next
  case (Cons h hs)
  then show ?case by (auto simp: nth_list_update intro: map_cong)
qed

text \<open>The buckets with members, in order.\<close>

definition cells_of :: "arith \<Rightarrow> (nat \<times> fval) list \<Rightarrow> hist_cell list" where
  "cells_of ar ms = map (cell_of ar ms) (filter (\<lambda>h. 0 < hc_cnt (cell_of ar ms h)) [0..<N_BUCKETS])"

lemma sweep_clean:
  assumes "\<forall>p\<in>set ms. fst p < N_BUCKETS"
  shows "fold_ok (sweep_word ar nb per)
      (foldl (scatter_member ar) (replicate N_BUCKETS empty_cell, replicate (N_BUCKETS div 64) 0) ms, s) [0..<N_BUCKETS div 64] =
    bind_ok (fold_ok (sweep_cell ar nb per) s (cells_of ar ms)) (\<lambda>s. Ok ((replicate N_BUCKETS empty_cell, replicate (N_BUCKETS div 64) 0), s))"
proof -
  from scatter_at [OF assms] obtain hist hmask where h: "foldl (scatter_member ar) (replicate N_BUCKETS empty_cell, replicate (N_BUCKETS div 64) 0) ms = (hist, hmask)"
    "length hist = N_BUCKETS" "length hmask = N_BUCKETS div 64" "\<forall>h<N_BUCKETS. hist ! h = cell_of ar ms h"
    "\<forall>wq<N_BUCKETS div 64. \<forall>i<64. bit (hmask ! wq) i \<longleftrightarrow> 0 < hc_cnt (cell_of ar ms (wq * 64 + i))" by blast
  let ?Q = "\<lambda>h. 0 < hc_cnt (cell_of ar ms h)" and ?W = "[0..<N_BUCKETS div 64]"
  have "concat (map (\<lambda>wq. map (\<lambda>i. wq * 64 + i) (pop_bits (hmask ! wq))) ?W) = concat (map (\<lambda>wq. filter ?Q (map (\<lambda>i. wq * 64 + i) [0..<64])) ?W)"
    using h(5) by (intro arg_cong [where f = concat] map_cong refl) (auto simp: pop_bits_filter filter_map comp_def intro: filter_cong arg_cong [where f = "map _"])
  also have "\<dots> = filter ?Q [0..<N_BUCKETS div 64 * 64]" by (simp only: upt_blocks [symmetric] filter_concat map_map comp_def)
  finally have bits: "concat (map (\<lambda>wq. map (\<lambda>i. wq * 64 + i) (pop_bits (hmask ! wq))) ?W) = filter ?Q [0..<N_BUCKETS]" by (simp add: N_BUCKETS_def)
  have cells: "map (\<lambda>h. hist ! h) (filter ?Q [0..<N_BUCKETS]) = cells_of ar ms" unfolding cells_of_def using h(4) by auto
  have "foldl (\<lambda>H h. H[h := empty_cell]) hist (filter ?Q [0..<N_BUCKETS]) = replicate N_BUCKETS empty_cell"
    unfolding foldl_clear h(2) using h(4) cell_empty by (intro nth_equalityI) (auto simp del: neq0_conv simp flip: neq0_conv)
  moreover have "foldl (\<lambda>M wq. M[wq := 0]) hmask ?W = replicate (N_BUCKETS div 64) 0"
    unfolding foldl_clear h(3) by (intro nth_equalityI) simp_all
  ultimately show ?thesis unfolding h(1)
    by (subst sweep_words_fold) (simp_all add: h(3) bits sweep_hist_fold cells, cases "fold_ok (sweep_cell ar nb per) s (cells_of ar ms)", simp_all)
qed

section \<open>The row of layer returns\<close>

lemma fold_ok_rel:
  assumes "\<And>s t x. R s t \<Longrightarrow> rel_outcome (=) R (f s x) (g t x)" "R s t"
  shows "rel_outcome (=) R (fold_ok f s xs) (fold_ok g t xs)"
  using assms(2)
proof (induction xs arbitrary: s t)
  case (Cons x xs)
  from assms(1) [OF Cons.prems, of x] show ?case
    by (cases "f s x"; cases "g t x") (use Cons.IH in auto)
qed simp

text \<open>What an earlier vector left in the row is never read.\<close>

definition same_sweep :: "nat \<Rightarrow> sweep \<Rightarrow> sweep \<Rightarrow> bool" where
  "same_sweep nb s t \<longleftrightarrow> sw_bin s = sw_bin t \<and> sw_need s = sw_need t \<and> sw_accr s = sw_accr t \<and> sw_bin s < nb \<and>
     length (sw_rets s) = nb \<and> length (sw_rets t) = nb \<and> take (sw_bin t) (sw_rets s) = take (sw_bin t) (sw_rets t)"

lemma same_sweep_accr: "same_sweep nb s t \<Longrightarrow> same_sweep nb (s\<lparr>sw_accr := x\<rparr>) (t\<lparr>sw_accr := x\<rparr>)"
  by (simp add: same_sweep_def)

lemma same_sweep_close:
  assumes "same_sweep nb s t" "sw_bin s \<noteq> nb - 1"
  shows "same_sweep nb (close_layer ar per (s\<lparr>sw_accr := x, sw_need := y\<rparr>)) (close_layer ar per (t\<lparr>sw_accr := x, sw_need := y\<rparr>))"
proof -
  have "sw_bin s < length (sw_rets s)" "sw_bin s < length (sw_rets t)" using assms by (simp_all add: same_sweep_def)
  then have "take (Suc (sw_bin s)) ((sw_rets s)[sw_bin s := v]) = take (Suc (sw_bin s)) ((sw_rets t)[sw_bin s := v])" for v
    using assms(1) by (simp add: take_Suc_conv_app_nth same_sweep_def)
  with assms show ?thesis by (auto simp: same_sweep_def close_layer_def)
qed

lemma same_sweep_spread: "same_sweep nb s t \<Longrightarrow> rel_outcome (=) (same_sweep nb) (spread k ar nb per mean rem s) (spread k ar nb per mean rem t)"
proof (induction k arbitrary: rem s t)
  case (Suc k)
  have b: "sw_bin s = sw_bin t" "sw_need s = sw_need t" "sw_accr s = sw_accr t" using Suc.prems by (simp_all add: same_sweep_def)
  show ?case
  proof (cases "\<not> fless (double ar (1 / 10 ^ 12)) rem \<or> sw_bin s = nb - 1")
    case True
    then show ?thesis using Suc.prems same_sweep_accr [OF Suc.prems] b by (auto simp: Let_def)
  next
    case False
    then show ?thesis using Suc.IH [OF same_sweep_close [OF Suc.prems]] b by (simp add: Let_def)
  qed
qed simp

lemma same_sweep_cell:
  assumes "same_sweep nb s t"
  shows "rel_outcome (=) (same_sweep nb) (sweep_cell ar nb per s c) (sweep_cell ar nb per t c)"
proof -
  have b: "sw_bin s = sw_bin t" "sw_need s = sw_need t" "sw_accr s = sw_accr t" using assms by (simp_all add: same_sweep_def)
  consider "sw_bin s = nb - 1" | "sw_bin s \<noteq> nb - 1" "fle (double ar (real (hc_cnt c))) (sw_need s)"
    | "sw_bin s \<noteq> nb - 1" "\<not> fle (double ar (real (hc_cnt c))) (sw_need s)" by blast
  then show ?thesis
  proof cases
    case 1
    then show ?thesis using same_sweep_accr [OF assms] b by (simp add: sweep_cell_def Let_def)
  next
    case 2
    then show ?thesis using same_sweep_close [OF assms] b by (simp add: sweep_cell_def Let_def)
  next
    case 3
    then show ?thesis using same_sweep_spread [OF assms] b by (simp add: sweep_cell_def Let_def del: spread.simps)
  qed
qed

section \<open>One vector alone\<close>

text \<open>The returns of the layers on a day, from the buckets with members and without any scratch.\<close>

definition members_of :: "arith \<Rightarrow> nat \<Rightarrow> pr_store \<Rightarrow> nat \<Rightarrow> plan \<Rightarrow> (nat \<times> fval) list" where
  "members_of ar nf st t pl = zip (bucket_numbers ar (layer_scores ar (vblock nf st t) (vcnt st t) (pl_terms pl))) (vfret_row st t)"

definition layer_size :: "arith \<Rightarrow> pr_store \<Rightarrow> nat \<Rightarrow> nat \<Rightarrow> fval" where
  "layer_size ar st t nb = fdiv (double ar) (double ar (real (vcnt st t))) (double ar (real nb))"

definition first_layer :: "fval \<Rightarrow> fval list \<Rightarrow> sweep" where
  "first_layer per rets = \<lparr>sw_bin = 0, sw_need = per, sw_accr = Fin 0, sw_rets = rets\<rparr>"

definition day_rets :: "arith \<Rightarrow> nat \<Rightarrow> pr_store \<Rightarrow> nat \<Rightarrow> nat \<Rightarrow> plan \<Rightarrow> (mine_error, fval list) outcome" where
  "day_rets ar nf st nb t pl =
     (let per = layer_size ar st t nb in
      bind_ok (fold_ok (sweep_cell ar nb per) (first_layer per (replicate nb (Fin 0))) (cells_of ar (members_of ar nf st t pl)))
        (\<lambda>s. if \<not> sw_bin s = nb - 1 then Fail BinMassLost else Ok ((sw_rets s)[sw_bin s := fdiv (double ar) (sw_accr s) per])))"

definition clean_scratch :: "nat \<Rightarrow> layer_scratch \<Rightarrow> bool" where
  "clean_scratch nb sc \<longleftrightarrow> ls_hist sc = replicate N_BUCKETS empty_cell \<and> ls_hmask sc = replicate (N_BUCKETS div 64) 0 \<and> length (ls_rets sc) = nb"

lemma bucket_less: "h \<in> set (bucket_numbers ar acc) \<Longrightarrow> h < N_BUCKETS"
  by (auto simp: bucket_numbers_def N_BUCKETS_def Let_def)

lemma layer_rets_clean:
  assumes "clean_scratch nb sc" "0 < nb"
  shows "layer_rets ar nf st nb t pl sc = bind_ok (day_rets ar nf st nb t pl) (\<lambda>r. Ok (sc\<lparr>ls_rets := r\<rparr>))"
    "day_rets ar nf st nb t pl = Ok r \<Longrightarrow> length r = nb"
proof -
  let ?per = "layer_size ar st t nb" and ?ms = "members_of ar nf st t pl"
  let ?s = "first_layer ?per (ls_rets sc)" and ?t = "first_layer ?per (replicate nb (Fin 0))"
  have "\<forall>p\<in>set ?ms. fst p < N_BUCKETS" using bucket_less by (fastforce simp: members_of_def dest: set_zip_leftD)
  note clean = sweep_clean [OF this, of ar nb ?per ?s]
  have rel: "rel_outcome (=) (same_sweep nb) (fold_ok (sweep_cell ar nb ?per) ?s (cells_of ar ?ms)) (fold_ok (sweep_cell ar nb ?per) ?t (cells_of ar ?ms))"
    using assms by (intro fold_ok_rel same_sweep_cell) (simp_all add: same_sweep_def first_layer_def clean_scratch_def)
  have same: "sc\<lparr>ls_hist := replicate N_BUCKETS empty_cell, ls_hmask := replicate (N_BUCKETS div 64) 0, ls_rets := r\<rparr> = sc\<lparr>ls_rets := r\<rparr>" for r
    using assms(1) by (cases sc) (simp add: clean_scratch_def)
  have code: "layer_rets ar nf st nb t pl sc = bind_ok (fold_ok (sweep_cell ar nb ?per) ?s (cells_of ar ?ms))
      (\<lambda>s. if \<not> sw_bin s = nb - 1 then Fail BinMassLost else Ok (sc\<lparr>ls_rets := (sw_rets s)[sw_bin s := fdiv (double ar) (sw_accr s) ?per]\<rparr>))"
    using assms(1) clean unfolding layer_rets_def Let_def members_of_def layer_size_def first_layer_def clean_scratch_def
    by (cases "fold_ok (sweep_cell ar nb ?per) ?s (cells_of ar ?ms)") (simp_all add: members_of_def layer_size_def first_layer_def same)
  have last: "r[nb - 1 := v] = q[nb - 1 := v]" if "same_sweep nb s u" "sw_bin s = nb - 1" "r = sw_rets s" "q = sw_rets u" for r q s u v
  proof -
    have "length r = nb" "length q = nb" "take (nb - 1) r = take (nb - 1) q" using that by (simp_all add: same_sweep_def)
    then show ?thesis using assms(2) by (simp add: upd_conv_take_nth_drop)
  qed
  have "layer_rets ar nf st nb t pl sc = bind_ok (day_rets ar nf st nb t pl) (\<lambda>r. Ok (sc\<lparr>ls_rets := r\<rparr>)) \<and>
      (\<forall>r. day_rets ar nf st nb t pl = Ok r \<longrightarrow> length r = nb)"
  proof (cases "fold_ok (sweep_cell ar nb ?per) ?s (cells_of ar ?ms)")
    case (Fail e)
    with rel have "fold_ok (sweep_cell ar nb ?per) ?t (cells_of ar ?ms) = Fail e"
      by (cases "fold_ok (sweep_cell ar nb ?per) ?t (cells_of ar ?ms)") simp_all
    with Fail show ?thesis by (simp add: code day_rets_def Let_def)
  next
    case (Ok s)
    with rel obtain u where u: "fold_ok (sweep_cell ar nb ?per) ?t (cells_of ar ?ms) = Ok u" "same_sweep nb s u"
      by (cases "fold_ok (sweep_cell ar nb ?per) ?t (cells_of ar ?ms)") simp_all
    then have "sw_bin u = sw_bin s" "sw_accr u = sw_accr s" "length (sw_rets u) = nb" by (simp_all add: same_sweep_def)
    with last [OF u(2) _ refl refl] Ok u(1) show ?thesis by (cases "sw_bin s = nb - 1") (simp_all add: code day_rets_def Let_def)
  qed
  then show "layer_rets ar nf st nb t pl sc = bind_ok (day_rets ar nf st nb t pl) (\<lambda>r. Ok (sc\<lparr>ls_rets := r\<rparr>))"
    "day_rets ar nf st nb t pl = Ok r \<Longrightarrow> length r = nb" by blast+
qed

section \<open>The lanes\<close>

text \<open>The values of the layers and the running rows of the top one, day by day, for one vector.\<close>

definition track_day ::
  "arith \<Rightarrow> nat \<Rightarrow> pr_store \<Rightarrow> nat \<Rightarrow> plan \<Rightarrow> fval list \<times> fval \<times> fval \<Rightarrow> nat \<Rightarrow> (mine_error, fval list \<times> fval \<times> fval) outcome" where
  "track_day ar nf st nb pl x t =
     bind_ok (day_rets ar nf st nb t pl) (\<lambda>r. bind_ok (compound_layers ar r (fst x)) (\<lambda>nav. Ok (nav, add_top ar (r ! (nb - 1)) (snd x))))"

definition track :: "arith \<Rightarrow> nat \<Rightarrow> pr_store \<Rightarrow> nat \<Rightarrow> plan \<Rightarrow> nat \<Rightarrow> (mine_error, fval list \<times> fval \<times> fval) outcome" where
  "track ar nf st nb pl t = fold_ok (track_day ar nf st nb pl) (replicate nb (Fin 1), (Fin 0, Fin 0)) [0..<t]"

text \<open>The statistics of its windows.\<close>

definition track_at :: "arith \<Rightarrow> nat \<Rightarrow> pr_store \<Rightarrow> nat \<Rightarrow> plan \<Rightarrow> nat \<Rightarrow> fval list \<times> fval \<times> fval" where
  "track_at ar nf st nb pl t = (case track ar nf st nb pl t of Ok x \<Rightarrow> x | Fail _ \<Rightarrow> ([], (Fin 0, Fin 0)))"

definition window_stats :: "arith \<Rightarrow> nat \<Rightarrow> pr_store \<Rightarrow> layer_params \<Rightarrow> plan \<Rightarrow> win_stat list" where
  "window_stats ar nf st lp pl = (let H = track_at ar nf st (ly_n_bins lp) pl in
     map (\<lambda>w. window_stat ar lp (H (w * LAYER_STEP)) (H (w * LAYER_STEP + LAYER_WINDOW))) [0..<ly_n_win lp])"

abbreviation lane_track :: "layer_lane \<Rightarrow> fval list \<times> fval \<times> fval" where
  "lane_track l \<equiv> (ll_nav l, ll_top l)"

lemma bind_ok_Ok [simp]: "bind_ok r Ok = r"
  by (cases r) simp_all

lemma track_Suc: "track ar nf st nb pl (Suc t) = bind_ok (track ar nf st nb pl t) (\<lambda>x. track_day ar nf st nb pl x t)"
  by (simp add: track_def fold_ok_append)

lemma track_prefix: "track ar nf st nb pl t = Ok x \<Longrightarrow> m \<le> t \<Longrightarrow> \<exists>y. track ar nf st nb pl m = Ok y"
proof (induction t arbitrary: x)
  case (Suc t)
  then show ?case by (cases "m = Suc t") (auto simp: track_Suc bind_ok_Ok_iff le_Suc_eq simp del: split_paired_Ex)
qed blast

lemma move_lane_clean:
  assumes "clean_scratch nb sc" "0 < nb"
  shows "move_lane ar nf st nb t sc (b, pl) = Ok sc' \<Longrightarrow>
      clean_scratch nb sc' \<and> (\<exists>x. track_day ar nf st nb pl (lane_track (ls_lanes sc ! b)) t = Ok x \<and>
        ls_lanes sc' = (ls_lanes sc)[b := (ls_lanes sc ! b)\<lparr>ll_nav := fst x, ll_top := snd x\<rparr>])"
    "track_day ar nf st nb pl (lane_track (ls_lanes sc ! b)) t = Ok x \<Longrightarrow> \<exists>sc'. move_lane ar nf st nb t sc (b, pl) = Ok sc'"
  using assms layer_rets_clean(2) [OF assms, of ar nf st t pl]
  by (auto simp: move_lane_def layer_rets_clean(1) [OF assms] track_day_def bind_ok_Ok_iff Let_def clean_scratch_def simp del: split_paired_Ex)

lemma move_lanes_clean:
  assumes "0 < nb" "distinct (map fst bps)"
  shows "clean_scratch nb sc \<Longrightarrow> \<forall>p\<in>set bps. fst p < length (ls_lanes sc) \<Longrightarrow> fold_ok (move_lane ar nf st nb t) sc bps = Ok sc' \<Longrightarrow>
      clean_scratch nb sc' \<and> length (ls_lanes sc') = length (ls_lanes sc) \<and> (\<forall>b. b \<notin> fst ` set bps \<longrightarrow> ls_lanes sc' ! b = ls_lanes sc ! b) \<and>
      (\<forall>(b, pl)\<in>set bps. \<exists>x. track_day ar nf st nb pl (lane_track (ls_lanes sc ! b)) t = Ok x \<and>
         ls_lanes sc' ! b = (ls_lanes sc ! b)\<lparr>ll_nav := fst x, ll_top := snd x\<rparr>)"
    "clean_scratch nb sc \<Longrightarrow> \<forall>(b, pl)\<in>set bps. \<exists>x. track_day ar nf st nb pl (lane_track (ls_lanes sc ! b)) t = Ok x \<Longrightarrow>
      \<exists>sc'. fold_ok (move_lane ar nf st nb t) sc bps = Ok sc'"
  using assms(2)
proof (induction bps arbitrary: sc)
  case (Cons p bps)
  obtain b pl where p: "p = (b, pl)" by force
  {
    case 1
    then obtain s1 where s1: "move_lane ar nf st nb t sc (b, pl) = Ok s1" "fold_ok (move_lane ar nf st nb t) s1 bps = Ok sc'"
      by (auto simp: p bind_ok_Ok_iff)
    from move_lane_clean(1) [OF "1"(1) assms(1) s1(1)] obtain x where x: "clean_scratch nb s1" "track_day ar nf st nb pl (lane_track (ls_lanes sc ! b)) t = Ok x"
      "ls_lanes s1 = (ls_lanes sc)[b := (ls_lanes sc ! b)\<lparr>ll_nav := fst x, ll_top := snd x\<rparr>]" by blast
    have d: "distinct (map fst bps)" "b \<notin> fst ` set bps" "b < length (ls_lanes sc)" using "1"(2,4) p by auto
    have "\<forall>p\<in>set bps. fst p < length (ls_lanes s1)" using "1"(2) x(3) by simp
    from Cons.IH(1) [OF x(1) this s1(2) d(1)]
    have r: "clean_scratch nb sc'" "length (ls_lanes sc') = length (ls_lanes s1)" "\<And>c. c \<notin> fst ` set bps \<Longrightarrow> ls_lanes sc' ! c = ls_lanes s1 ! c"
      "\<And>c q. (c, q) \<in> set bps \<Longrightarrow> \<exists>x. track_day ar nf st nb q (lane_track (ls_lanes s1 ! c)) t = Ok x \<and>
         ls_lanes sc' ! c = (ls_lanes s1 ! c)\<lparr>ll_nav := fst x, ll_top := snd x\<rparr>" by blast+
    have o: "ls_lanes s1 ! c = ls_lanes sc ! c" if "c \<noteq> b" for c using x(3) that by simp
    have "\<exists>x. track_day ar nf st nb q (lane_track (ls_lanes sc ! c)) t = Ok x \<and> ls_lanes sc' ! c = (ls_lanes sc ! c)\<lparr>ll_nav := fst x, ll_top := snd x\<rparr>"
      if "(c, q) \<in> set (p # bps)" for c q
    proof (cases "(c, q) = p")
      case True
      then show ?thesis using x r(3) [OF d(2)] d(3) by (auto simp: p)
    next
      case False
      with that have "(c, q) \<in> set bps" "c \<noteq> b" using d(2) by (auto simp: image_iff)
      with r(4) [of c q] o show ?thesis by simp
    qed
    with r o x(3) show ?case using p by (auto simp: image_iff)
  next
    case 2
    then obtain x where x: "track_day ar nf st nb pl (lane_track (ls_lanes sc ! b)) t = Ok x" by (auto simp: p)
    from move_lane_clean(2) [OF "2"(1) assms(1) x] obtain s1 where s1: "move_lane ar nf st nb t sc (b, pl) = Ok s1" by blast
    from move_lane_clean(1) [OF "2"(1) assms(1) s1] have c: "clean_scratch nb s1" "\<And>c. c \<noteq> b \<Longrightarrow> ls_lanes s1 ! c = ls_lanes sc ! c" by auto
    have d: "distinct (map fst bps)" "b \<notin> fst ` set bps" using "2"(3) p by auto
    have "\<forall>(c, q)\<in>set bps. \<exists>x. track_day ar nf st nb q (lane_track (ls_lanes s1 ! c)) t = Ok x"
    proof (rule ballI)
      fix r assume m: "r \<in> set bps"
      obtain c' q where r: "r = (c', q)" by force
      with d(2) m have "c' \<noteq> b" by (auto simp: image_iff)
      then have o: "ls_lanes s1 ! c' = ls_lanes sc ! c'" by (rule c(2))
      have "r \<in> set (p # bps)" using m by simp
      from bspec [OF "2"(2) this] show "case r of (c, q) \<Rightarrow> \<exists>x. track_day ar nf st nb q (lane_track (ls_lanes s1 ! c)) t = Ok x"
        unfolding r prod.case o .
    qed
    from Cons.IH(2) [OF c(1) this d(1)] s1 show ?case by (simp add: p)
  }
qed simp_all

section \<open>The rings\<close>

definition ring_shape :: "layer_params \<Rightarrow> layer_lane \<Rightarrow> bool" where
  "ring_shape lp l \<longleftrightarrow> length (ll_ring l) = LAYER_RING \<and> length (ll_top_ring l) = LAYER_RING \<and> length (ll_stats l) = ly_n_win lp"

text \<open>After \<open>t\<close> days the ring holds the last thirteen month ends, and the windows that have ended have their statistics.\<close>

definition lane_ok :: "arith \<Rightarrow> nat \<Rightarrow> pr_store \<Rightarrow> layer_params \<Rightarrow> plan \<Rightarrow> nat \<Rightarrow> layer_lane \<Rightarrow> bool" where
  "lane_ok ar nf st lp pl t l \<longleftrightarrow> (let H = track_at ar nf st (ly_n_bins lp) pl in
     track ar nf st (ly_n_bins lp) pl t = Ok (lane_track l) \<and>
     (\<forall>m. m \<le> t div LAYER_STEP \<and> t div LAYER_STEP < m + LAYER_RING \<longrightarrow>
        (ll_ring l ! (m mod LAYER_RING), ll_top_ring l ! (m mod LAYER_RING)) = H (m * LAYER_STEP)) \<and>
     (\<forall>w<ly_n_win lp. w + LAYER_WINDOW div LAYER_STEP \<le> t div LAYER_STEP \<longrightarrow>
        ll_stats l ! w = window_stat ar lp (H (w * LAYER_STEP)) (H (w * LAYER_STEP + LAYER_WINDOW))))"

lemmas layer_sizes = LAYER_RING_def LAYER_WINDOW_def LAYER_STEP_def

lemma next_month:
  "Suc t mod LAYER_STEP = 0 \<Longrightarrow> Suc t div LAYER_STEP = Suc (t div LAYER_STEP) \<and> Suc t div LAYER_STEP * LAYER_STEP = Suc t"
  "Suc t mod LAYER_STEP \<noteq> 0 \<Longrightarrow> Suc t div LAYER_STEP = t div LAYER_STEP"
proof -
  show "Suc t div LAYER_STEP = Suc (t div LAYER_STEP) \<and> Suc t div LAYER_STEP * LAYER_STEP = Suc t" if "Suc t mod LAYER_STEP = 0"
    using that by (metis (no_types) div_Suc add.right_neutral div_mult_mod_eq)
qed (simp add: div_Suc)

lemma lane_moves:
  assumes "lane_ok ar nf st lp pl t l" "track_day ar nf st (ly_n_bins lp) pl (lane_track l) t = Ok x" "ring_shape lp l"
  defines "l' \<equiv> l\<lparr>ll_nav := fst x, ll_top := snd x\<rparr>"
  shows "Suc t mod LAYER_STEP \<noteq> 0 \<Longrightarrow> lane_ok ar nf st lp pl (Suc t) l'"
    "Suc t mod LAYER_STEP = 0 \<Longrightarrow> lane_ok ar nf st lp pl (Suc t) (snapshot ar lp (Suc t div LAYER_STEP) l')"
proof -
  let ?H = "track_at ar nf st (ly_n_bins lp) pl"
  from assms(1) have A: "track ar nf st (ly_n_bins lp) pl t = Ok (lane_track l)"
    "\<And>m. m \<le> t div LAYER_STEP \<Longrightarrow> t div LAYER_STEP < m + LAYER_RING \<Longrightarrow> (ll_ring l ! (m mod LAYER_RING), ll_top_ring l ! (m mod LAYER_RING)) = ?H (m * LAYER_STEP)"
    "\<And>w. w < ly_n_win lp \<Longrightarrow> w + LAYER_WINDOW div LAYER_STEP \<le> t div LAYER_STEP \<Longrightarrow>
      ll_stats l ! w = window_stat ar lp (?H (w * LAYER_STEP)) (?H (w * LAYER_STEP + LAYER_WINDOW))"
    unfolding lane_ok_def Let_def by blast+
  have T: "track ar nf st (ly_n_bins lp) pl (Suc t) = Ok (lane_track l')" using A(1) assms(2) by (simp add: track_Suc l'_def)
  show "lane_ok ar nf st lp pl (Suc t) l'" if "Suc t mod LAYER_STEP \<noteq> 0"
    unfolding lane_ok_def Let_def next_month(2) [OF that] using A T by (simp add: l'_def)
  assume e: "Suc t mod LAYER_STEP = 0"
  define m where "m = Suc t div LAYER_STEP"
  have m: "m = Suc (t div LAYER_STEP)" "m * LAYER_STEP = Suc t" using next_month(1) [OF e] unfolding m_def by blast+
  have H: "?H (m * LAYER_STEP) = lane_track l'" unfolding m(2) by (simp add: track_at_def T)
  have R: "0 < LAYER_RING" "LAYER_WINDOW div LAYER_STEP < LAYER_RING" by (simp_all add: layer_sizes)
  have len: "length (ll_ring l) = LAYER_RING" "length (ll_top_ring l) = LAYER_RING" "length (ll_stats l) = ly_n_win lp"
    using assms(3) by (simp_all add: ring_shape_def)
  let ?ring = "(ll_ring l)[m mod LAYER_RING := ll_nav l']" and ?tops = "(ll_top_ring l)[m mod LAYER_RING := ll_top l']"
  have ring: "(?ring ! (k mod LAYER_RING), ?tops ! (k mod LAYER_RING)) = ?H (k * LAYER_STEP)" if k: "k \<le> m" "m < k + LAYER_RING" for k
  proof (cases "k = m")
    case True
    then show ?thesis using H len R(1) by simp
  next
    case False
    have "m mod LAYER_RING \<noteq> k mod LAYER_RING"
    proof
      assume "m mod LAYER_RING = k mod LAYER_RING"
      then have "LAYER_RING dvd m - k" using k(1) by (metis mod_eq_dvd_iff_nat)
      then show False using False k by (auto dest: dvd_imp_le)
    qed
    then show ?thesis using A(2) [of k] k False m(1) by simp
  qed
  define w where "w = int m - int (LAYER_WINDOW div LAYER_STEP)"
  let ?stats = "if w \<ge> 0 \<and> w < int (ly_n_win lp)
    then (ll_stats l)[nat w := window_stat ar lp (?ring ! (nat w mod LAYER_RING), ?tops ! (nat w mod LAYER_RING)) (lane_track l')] else ll_stats l"
  have snap: "snapshot ar lp m l' = l'\<lparr>ll_ring := ?ring, ll_top_ring := ?tops, ll_stats := ?stats\<rparr>"
    by (simp add: snapshot_def Let_def w_def l'_def)
  have stats: "?stats ! v = window_stat ar lp (?H (v * LAYER_STEP)) (?H (v * LAYER_STEP + LAYER_WINDOW))"
    if v: "v < ly_n_win lp" "v + LAYER_WINDOW div LAYER_STEP \<le> m" for v
  proof (cases "int v = w")
    case True
    then have vm: "v + LAYER_WINDOW div LAYER_STEP = m" by (simp add: w_def)
    then have "v * LAYER_STEP + LAYER_WINDOW = m * LAYER_STEP" by (auto simp: layer_sizes)
    moreover have "(?ring ! (v mod LAYER_RING), ?tops ! (v mod LAYER_RING)) = ?H (v * LAYER_STEP)" using ring [of v] vm R(2) by simp
    moreover have "nat w = v" "w \<ge> 0 \<and> w < int (ly_n_win lp)" using True v(1) by auto
    ultimately show ?thesis using H len(3) v(1) by simp
  next
    case False
    then have "v + LAYER_WINDOW div LAYER_STEP < m" using v(2) by (auto simp: w_def)
    then have "ll_stats l ! v = window_stat ar lp (?H (v * LAYER_STEP)) (?H (v * LAYER_STEP + LAYER_WINDOW))" using A(3) v(1) m(1) by simp
    moreover have "?stats ! v = ll_stats l ! v" using False by auto
    ultimately show ?thesis by simp
  qed
  show "lane_ok ar nf st lp pl (Suc t) (snapshot ar lp (Suc t div LAYER_STEP) l')"
    unfolding lane_ok_def Let_def m_def [symmetric] snap using ring stats T by (simp add: l'_def)
qed

lemma ring_shape_moves: "ring_shape lp l \<Longrightarrow> ring_shape lp (l\<lparr>ll_nav := x, ll_top := y\<rparr>)" "ring_shape lp l \<Longrightarrow> ring_shape lp (snapshot ar lp m l)"
  by (simp_all add: ring_shape_def snapshot_def Let_def)

section \<open>Batches\<close>

text \<open>What a worker has to find in its scratch: an empty histogram, and vectors of the right lengths.\<close>

definition scratch_ready :: "layer_params \<Rightarrow> layer_scratch \<Rightarrow> bool" where
  "scratch_ready lp sc \<longleftrightarrow> clean_scratch (ly_n_bins lp) sc \<and> (\<forall>l\<in>set (ls_lanes sc). ring_shape lp l)"

definition batch_ok :: "arith \<Rightarrow> nat \<Rightarrow> pr_store \<Rightarrow> layer_params \<Rightarrow> plan list \<Rightarrow> nat \<Rightarrow> layer_scratch \<Rightarrow> bool" where
  "batch_ok ar nf st lp plans t sc \<longleftrightarrow> scratch_ready lp sc \<and> length plans \<le> length (ls_lanes sc) \<and>
     (\<forall>b<length plans. lane_ok ar nf st lp (plans ! b) t (ls_lanes sc ! b))"

lemma layer_day_ok:
  assumes "batch_ok ar nf st lp plans t sc" "0 < ly_n_bins lp"
  shows "layer_day ar nf st lp plans sc t = Ok sc' \<Longrightarrow> batch_ok ar nf st lp plans (Suc t) sc' \<and> length (ls_lanes sc') = length (ls_lanes sc)"
    "\<forall>pl\<in>set plans. \<exists>x. track ar nf st (ly_n_bins lp) pl (Suc t) = Ok x \<Longrightarrow> \<exists>sc'. layer_day ar nf st lp plans sc t = Ok sc'"
proof -
  let ?nb = "ly_n_bins lp" and ?bps = "enumerate 0 plans"
  from assms(1) have B: "clean_scratch ?nb sc" "\<forall>l\<in>set (ls_lanes sc). ring_shape lp l" "length plans \<le> length (ls_lanes sc)"
    "\<And>b. b < length plans \<Longrightarrow> lane_ok ar nf st lp (plans ! b) t (ls_lanes sc ! b)" by (auto simp: batch_ok_def scratch_ready_def)
  have d: "distinct (map fst ?bps)" by (simp add: enumerate_eq_zip)
  have set: "(b, pl) \<in> set ?bps \<longleftrightarrow> b < length plans \<and> pl = plans ! b" for b pl by (auto simp: in_set_enumerate_eq)
  have now: "track ar nf st ?nb (plans ! b) t = Ok (lane_track (ls_lanes sc ! b))" if "b < length plans" for b
    using B(4) [OF that] by (simp add: lane_ok_def Let_def)
  {
    assume "layer_day ar nf st lp plans sc t = Ok sc'"
    then obtain s1 where s1: "fold_ok (move_lane ar nf st ?nb t) sc ?bps = Ok s1"
      and sc': "sc' = (if Suc t mod LAYER_STEP = 0 then s1\<lparr>ls_lanes := map (\<lambda>b. if b < length plans then snapshot ar lp (Suc t div LAYER_STEP) (ls_lanes s1 ! b)
          else ls_lanes s1 ! b) [0..<length (ls_lanes s1)]\<rparr> else s1)" by (auto simp: layer_day_def bind_ok_Ok_iff)
    have "\<forall>p\<in>set ?bps. fst p < length (ls_lanes sc)" using set B(3) by fastforce
    from move_lanes_clean(1) [OF assms(2) d B(1) this s1]
    have M0: "clean_scratch ?nb s1" "length (ls_lanes s1) = length (ls_lanes sc)" "\<And>b. b \<notin> fst ` set ?bps \<Longrightarrow> ls_lanes s1 ! b = ls_lanes sc ! b"
      "\<And>r. r \<in> set ?bps \<Longrightarrow> case r of (b, pl) \<Rightarrow> \<exists>x. track_day ar nf st ?nb pl (lane_track (ls_lanes sc ! b)) t = Ok x \<and>
         ls_lanes s1 ! b = (ls_lanes sc ! b)\<lparr>ll_nav := fst x, ll_top := snd x\<rparr>" by blast+
    have M: "clean_scratch ?nb s1" "length (ls_lanes s1) = length (ls_lanes sc)" "\<And>b. \<not> b < length plans \<Longrightarrow> ls_lanes s1 ! b = ls_lanes sc ! b"
      "\<And>b. b < length plans \<Longrightarrow> \<exists>x. track_day ar nf st ?nb (plans ! b) (lane_track (ls_lanes sc ! b)) t = Ok x \<and>
         ls_lanes s1 ! b = (ls_lanes sc ! b)\<lparr>ll_nav := fst x, ll_top := snd x\<rparr>"
    proof -
      show "ls_lanes s1 ! b = ls_lanes sc ! b" if "\<not> b < length plans" for b using M0(3) [of b] set that by fastforce
      show "\<exists>x. track_day ar nf st ?nb (plans ! b) (lane_track (ls_lanes sc ! b)) t = Ok x \<and>
         ls_lanes s1 ! b = (ls_lanes sc ! b)\<lparr>ll_nav := fst x, ll_top := snd x\<rparr>" if "b < length plans" for b
        using M0(4) [of "(b, plans ! b)"] set that unfolding prod.case by blast
    qed (fact M0)+
    have shape: "ring_shape lp (ls_lanes s1 ! b)" if "b < length (ls_lanes sc)" for b
      using M(3,4) [of b] B(2) that ring_shape_moves(1) nth_mem [OF that] by (cases "b < length plans") auto
    have lanes: "ring_shape lp (ls_lanes sc' ! b)" "length (ls_lanes sc') = length (ls_lanes sc)" if "b < length (ls_lanes sc)" for b
      using shape [OF that] that M(2) ring_shape_moves(2) by (auto simp: sc')
    then have l: "length (ls_lanes sc') = length (ls_lanes sc)" using M(2) by (simp add: sc')
    have "lane_ok ar nf st lp (plans ! b) (Suc t) (ls_lanes sc' ! b)" if b: "b < length plans" for b
    proof -
      from M(4) [OF b] obtain x where x: "track_day ar nf st ?nb (plans ! b) (lane_track (ls_lanes sc ! b)) t = Ok x"
        "ls_lanes s1 ! b = (ls_lanes sc ! b)\<lparr>ll_nav := fst x, ll_top := snd x\<rparr>" by blast
      have "ring_shape lp (ls_lanes sc ! b)" using B(2,3) b by simp
      from lane_moves [OF B(4) [OF b] x(1) this] x(2) show ?thesis using b B(3) M(2) by (auto simp: sc')
    qed
    moreover have "clean_scratch ?nb sc'" using M(1) by (simp add: sc' clean_scratch_def)
    moreover have "\<forall>l\<in>set (ls_lanes sc'). ring_shape lp l" using lanes(1) l by (auto simp: in_set_conv_nth)
    ultimately show "batch_ok ar nf st lp plans (Suc t) sc' \<and> length (ls_lanes sc') = length (ls_lanes sc)" using B(3) l by (simp add: batch_ok_def scratch_ready_def)
  }
  assume ok: "\<forall>pl\<in>set plans. \<exists>x. track ar nf st ?nb pl (Suc t) = Ok x"
  have "\<forall>(b, pl)\<in>set ?bps. \<exists>x. track_day ar nf st ?nb pl (lane_track (ls_lanes sc ! b)) t = Ok x"
  proof (rule ballI)
    fix r assume "r \<in> set ?bps"
    moreover obtain c pl where "r = (c, pl)" by force
    ultimately obtain b where b: "r = (b, plans ! b)" "b < length plans" using set by blast
    then obtain x where "track ar nf st ?nb (plans ! b) (Suc t) = Ok x" using ok nth_mem by blast
    then have "\<exists>x. track_day ar nf st ?nb (plans ! b) (lane_track (ls_lanes sc ! b)) t = Ok x" using now [OF b(2)] by (auto simp: track_Suc simp del: split_paired_Ex)
    then show "case r of (b, pl) \<Rightarrow> \<exists>x. track_day ar nf st ?nb pl (lane_track (ls_lanes sc ! b)) t = Ok x" unfolding b(1) prod.case .
  qed
  from move_lanes_clean(2) [OF assms(2) d B(1) this] show "\<exists>sc'. layer_day ar nf st lp plans sc t = Ok sc'" by (auto simp: layer_day_def)
qed

lemma begin_ok:
  assumes "scratch_ready lp sc" "length plans \<le> length (ls_lanes sc)"
  shows "batch_ok ar nf st lp plans 0 (sc\<lparr>ls_lanes := begin_lanes lp (length plans) (ls_lanes sc)\<rparr>)"
proof -
  have shape: "ring_shape lp (ls_lanes sc ! b)" if "b < length (ls_lanes sc)" for b using assms(1) nth_mem [OF that] by (simp add: scratch_ready_def)
  have R: "0 < LAYER_RING" "0 < LAYER_WINDOW div LAYER_STEP" by (simp_all add: layer_sizes)
  let ?ls = "begin_lanes lp (length plans) (ls_lanes sc)"
  have "ring_shape lp (?ls ! b)" if "b < length (ls_lanes sc)" for b using shape [OF that] that by (simp add: begin_lanes_def Let_def ring_shape_def)
  then have "\<forall>l\<in>set ?ls. ring_shape lp l" by (auto simp: in_set_conv_nth begin_lanes_def)
  moreover have "lane_ok ar nf st lp (plans ! b) 0 (?ls ! b)" if "b < length plans" for b
    using that assms(2) shape [of b] R by (auto simp: lane_ok_def Let_def begin_lanes_def track_def track_at_def ring_shape_def)
  ultimately show ?thesis using assms by (simp add: batch_ok_def scratch_ready_def clean_scratch_def begin_lanes_def)
qed

lemma layer_days_ok:
  assumes "batch_ok ar nf st lp plans 0 sc" "0 < ly_n_bins lp"
  shows "fold_ok (layer_day ar nf st lp plans) sc [0..<n] = Ok sc' \<Longrightarrow> batch_ok ar nf st lp plans n sc' \<and> length (ls_lanes sc') = length (ls_lanes sc)"
    "fold_ok (layer_day ar nf st lp plans) sc [0..<n] = Fail e \<Longrightarrow> \<exists>pl\<in>set plans. \<nexists>x. track ar nf st (ly_n_bins lp) pl n = Ok x"
proof -
  have run: "fold_ok (layer_day ar nf st lp plans) sc [0..<n] = Ok sc' \<Longrightarrow> batch_ok ar nf st lp plans n sc' \<and> length (ls_lanes sc') = length (ls_lanes sc)" for n sc'
  proof (induction n arbitrary: sc')
    case (Suc n)
    then obtain s where "fold_ok (layer_day ar nf st lp plans) sc [0..<n] = Ok s" "layer_day ar nf st lp plans s n = Ok sc'"
      by (auto simp: fold_ok_append bind_ok_Ok_iff)
    with Suc.IH layer_day_ok(1) [OF _ assms(2)] show ?case by metis
  qed (use assms(1) in simp)
  then show "fold_ok (layer_day ar nf st lp plans) sc [0..<n] = Ok sc' \<Longrightarrow> batch_ok ar nf st lp plans n sc' \<and> length (ls_lanes sc') = length (ls_lanes sc)" .
  show "\<exists>pl\<in>set plans. \<nexists>x. track ar nf st (ly_n_bins lp) pl n = Ok x" if "fold_ok (layer_day ar nf st lp plans) sc [0..<n] = Fail e"
    using that
  proof (induction n)
    case (Suc n)
    show ?case
    proof (cases "fold_ok (layer_day ar nf st lp plans) sc [0..<n]")
      case (Fail e')
      then have "fold_ok (layer_day ar nf st lp plans) sc [0..<n] = Fail e" using Suc.prems by (simp add: fold_ok_append)
      from Suc.IH [OF this] obtain pl where pl: "pl \<in> set plans" "\<nexists>x. track ar nf st (ly_n_bins lp) pl n = Ok x" by blast
      then show ?thesis using track_prefix [of ar nf st "ly_n_bins lp" pl "Suc n" _ n] by (intro bexI [OF _ pl(1)]) (auto simp del: split_paired_Ex)
    next
      case (Ok s)
      then have "layer_day ar nf st lp plans s n = Fail e" using Suc.prems by (simp add: fold_ok_append)
      with layer_day_ok(2) [OF conjunct1 [OF run [OF Ok]] assms(2)] show ?thesis by (auto simp del: split_paired_Ex)
    qed
  qed simp
qed

lemma run_layer_batch_cases:
  assumes "scratch_ready lp sc" "length plans \<le> length (ls_lanes sc)" "0 < ly_n_bins lp"
    "\<And>w. w < ly_n_win lp \<Longrightarrow> w * LAYER_STEP + LAYER_WINDOW \<le> ly_n_ret lp"
  shows "run_layer_batch ar nf st lp plans sc = Ok (sc', rows, wins) \<Longrightarrow>
      (\<forall>pl\<in>set plans. \<exists>x. track ar nf st (ly_n_bins lp) pl (ly_n_ret lp) = Ok x) \<and>
      scratch_ready lp sc' \<and> length (ls_lanes sc') = length (ls_lanes sc) \<and>
      rows = map (\<lambda>pl. point_summary ar (window_stats ar nf st lp pl)) plans \<and> wins = map (\<lambda>pl. window_rows (window_stats ar nf st lp pl)) plans"
    "run_layer_batch ar nf st lp plans sc = Fail e \<Longrightarrow> \<exists>pl\<in>set plans. \<nexists>x. track ar nf st (ly_n_bins lp) pl (ly_n_ret lp) = Ok x"
proof -
  let ?s0 = "sc\<lparr>ls_lanes := begin_lanes lp (length plans) (ls_lanes sc)\<rparr>" and ?T = "ly_n_ret lp"
  note days = layer_days_ok [OF begin_ok [OF assms(1,2)] assms(3), where n = ?T]
  have l0: "length (ls_lanes ?s0) = length (ls_lanes sc)" by (simp add: begin_lanes_def)
  {
    assume "run_layer_batch ar nf st lp plans sc = Ok (sc', rows, wins)"
    then have run: "fold_ok (layer_day ar nf st lp plans) ?s0 [0..<?T] = Ok sc'" and out: "rows = map (point_summary ar) (map ll_stats (take (length plans) (ls_lanes sc')))"
      "wins = map window_rows (map ll_stats (take (length plans) (ls_lanes sc')))" by (auto simp: run_layer_batch_def bind_ok_Ok_iff Let_def)
    from days(1) [OF run] l0 have B: "scratch_ready lp sc'" "length plans \<le> length (ls_lanes sc')" "length (ls_lanes sc') = length (ls_lanes sc)"
      "\<And>b. b < length plans \<Longrightarrow> lane_ok ar nf st lp (plans ! b) ?T (ls_lanes sc' ! b)" by (auto simp: batch_ok_def)
    have stats: "map ll_stats (take (length plans) (ls_lanes sc')) = map (window_stats ar nf st lp) plans"
    proof (rule nth_equalityI)
      fix b assume "b < length (map ll_stats (take (length plans) (ls_lanes sc')))"
      then have b: "b < length plans" by simp
      have "ring_shape lp (ls_lanes sc' ! b)" using B(1,2) b by (simp add: scratch_ready_def)
      then have len: "length (ll_stats (ls_lanes sc' ! b)) = ly_n_win lp" by (simp add: ring_shape_def)
      have "ll_stats (ls_lanes sc' ! b) ! w = window_stats ar nf st lp (plans ! b) ! w" if w: "w < ly_n_win lp" for w
      proof -
        have "(w * LAYER_STEP + LAYER_WINDOW) div LAYER_STEP \<le> ?T div LAYER_STEP" by (rule div_le_mono [OF assms(4) [OF w]])
        then have "w + LAYER_WINDOW div LAYER_STEP \<le> ?T div LAYER_STEP" by (simp add: layer_sizes)
        then show ?thesis using B(4) [OF b] w by (simp add: lane_ok_def window_stats_def Let_def)
      qed
      then have "ll_stats (ls_lanes sc' ! b) = window_stats ar nf st lp (plans ! b)"
        using len by (intro nth_equalityI) (simp_all add: window_stats_def Let_def)
      then show "map ll_stats (take (length plans) (ls_lanes sc')) ! b = map (window_stats ar nf st lp) plans ! b" using b B(2) by simp
    qed (use B(2) in simp)
    have "\<exists>x. track ar nf st (ly_n_bins lp) pl ?T = Ok x" if "pl \<in> set plans" for pl
      using that B(4) by (auto simp: in_set_conv_nth lane_ok_def Let_def)
    then show "(\<forall>pl\<in>set plans. \<exists>x. track ar nf st (ly_n_bins lp) pl ?T = Ok x) \<and>
      scratch_ready lp sc' \<and> length (ls_lanes sc') = length (ls_lanes sc) \<and>
      rows = map (\<lambda>pl. point_summary ar (window_stats ar nf st lp pl)) plans \<and> wins = map (\<lambda>pl. window_rows (window_stats ar nf st lp pl)) plans"
      using B(1,3) unfolding out stats by (simp add: comp_def)
  }
  assume "run_layer_batch ar nf st lp plans sc = Fail e"
  then have "fold_ok (layer_day ar nf st lp plans) ?s0 [0..<?T] = Fail e" by (auto simp: run_layer_batch_def bind_ok_Fail_iff Let_def)
  from days(2) [OF this] show "\<exists>pl\<in>set plans. \<nexists>x. track ar nf st (ly_n_bins lp) pl ?T = Ok x" .
qed

lemma fresh_scratch: "scratch_ready lp (make_layer_scratch lp np) \<and> length (ls_lanes (make_layer_scratch lp np)) = np"
  by (simp add: scratch_ready_def clean_scratch_def make_layer_scratch_def ring_shape_def)

lemma make_layer_windows:
  assumes "make_layer ar spec nd = Ok lp"
  shows "10 \<le> ly_n_bins lp" "ly_n_ret lp = nd - 1" "\<And>w. w < ly_n_win lp \<Longrightarrow> w * LAYER_STEP + LAYER_WINDOW \<le> ly_n_ret lp" "2 \<le> ly_n_win lp"
proof -
  from assms have lp: "10 \<le> ps_universe_size (st_pool spec) div st_hold_n spec" "ly_n_bins lp = nat (ps_universe_size (st_pool spec) div st_hold_n spec)"
    "int LAYER_WINDOW \<le> int nd - 1" "ly_n_ret lp = nat (int nd - 1)" "2 \<le> (int nd - 1) div int LAYER_STEP - int LAYER_WINDOW div int LAYER_STEP + 1"
    "ly_n_win lp = nat ((int nd - 1) div int LAYER_STEP - int LAYER_WINDOW div int LAYER_STEP + 1)"
    by (auto simp: make_layer_def Let_def split: if_splits)
  show "10 \<le> ly_n_bins lp" "ly_n_ret lp = nd - 1" "2 \<le> ly_n_win lp" using lp by auto
  fix w assume "w < ly_n_win lp"
  then have "int w < (int nd - 1) div 21 - 12 + 1" using lp(6) by (auto simp: layer_sizes)
  then have "int w * 21 + 252 \<le> int nd - 1" by linarith
  then show "w * LAYER_STEP + LAYER_WINDOW \<le> ly_n_ret lp" using lp(4) by (simp add: layer_sizes)
qed

section \<open>The sweep in exact arithmetic\<close>

text \<open>Mass is counted in shares of which a member has \<open>nb\<close> and a layer \<open>n\<close>. After \<open>m\<close> shares: the place in the current layer, the returns so
  far, and that every layer is a mean of returns between \<open>lo\<close> and \<open>hi\<close>.\<close>

definition dealt :: "nat \<Rightarrow> nat \<Rightarrow> real \<Rightarrow> real \<Rightarrow> nat \<Rightarrow> real \<Rightarrow> sweep \<Rightarrow> bool" where
  "dealt nb n lo hi m S s \<longleftrightarrow> (\<exists>k A r.
     sw_need s = Fin (real k / real nb) \<and> sw_accr s = Fin A \<and> sw_bin s < nb \<and> length (sw_rets s) = nb \<and>
     (\<forall>i < sw_bin s. sw_rets s ! i = Fin (r i) \<and> lo \<le> r i \<and> r i \<le> hi) \<and>
     (\<Sum>i < sw_bin s. r i) * (real n / real nb) + A = S \<and> sw_bin s * n \<le> m \<and>
     lo * (real (m - sw_bin s * n) / real nb) \<le> A \<and> A \<le> hi * (real (m - sw_bin s * n) / real nb) \<and>
     (sw_bin s < nb - 1 \<longrightarrow> 1 \<le> k \<and> m + k = (sw_bin s + 1) * n))"

lemma close_layer_exact:
  assumes "0 < n" "0 < nb" "nb < 10 ^ 9"
    "sw_accr s = Fin A" "sw_bin s < nb - 1" "length (sw_rets s) = nb"
    "\<forall>i < sw_bin s. sw_rets s ! i = Fin (r i) \<and> lo \<le> r i \<and> r i \<le> hi" "(\<Sum>i < sw_bin s. r i) * (real n / real nb) + A = S" "sw_bin s * n \<le> m"
    "lo * (real (m - sw_bin s * n) / real nb) \<le> A" "A \<le> hi * (real (m - sw_bin s * n) / real nb)"
    "sw_need s = Fin (real k / real nb)" "m + k = (sw_bin s + 1) * n"
  shows "dealt nb n lo hi m S (close_layer exact_arith (Fin (real n / real nb)) s)"
    "sw_bin (close_layer exact_arith (Fin (real n / real nb)) s) = (if k = 0 then sw_bin s + 1 else sw_bin s)"
proof -
  let ?s = "close_layer exact_arith (Fin (real n / real nb)) s"
  have nb: "real k / real nb \<le> 1 / 10 ^ 9 \<longleftrightarrow> k = 0"
  proof (cases "k = 0")
    case False
    then have "1 / real nb \<le> real k / real nb" by (simp add: divide_right_mono)
    moreover have "1 / 10 ^ 9 < 1 / real nb" using assms(2,3) by (simp add: field_simps)
    ultimately show ?thesis using False by linarith
  qed simp
  show b: "sw_bin ?s = (if k = 0 then sw_bin s + 1 else sw_bin s)" using nb assms(12) by (simp add: close_layer_def)
  show "dealt nb n lo hi m S ?s"
  proof (cases "k = 0")
    case False
    then have "?s = s" using nb assms(12) by (simp add: close_layer_def)
    moreover have "dealt nb n lo hi m S s" unfolding dealt_def using assms False by (intro exI [of _ k] exI [of _ A] exI [of _ r]) simp
    ultimately show ?thesis by simp
  next
    case True
    let ?b = "sw_bin s" and ?v = "A / (real n / real nb)"
    have s: "?s = s\<lparr>sw_rets := (sw_rets s)[?b := Fin ?v], sw_bin := ?b + 1, sw_need := Fin (real n / real nb), sw_accr := Fin 0\<rparr>"
      using nb True assms(1,2,4,12) by (simp add: close_layer_def)
    have m: "m = (?b + 1) * n" "m - ?b * n = n" using assms(13) True by simp_all
    have per: "0 < real n / real nb" using assms(1,2) by simp
    have v: "lo \<le> ?v" "?v \<le> hi" using assms(10,11) per unfolding m(2) by (simp_all only: pos_le_divide_eq pos_divide_le_eq)
    let ?r = "r(?b := ?v)"
    have "?v * (real n / real nb) = A" using per by (metis less_irrefl nonzero_divide_eq_eq)
    moreover have "(\<Sum>i<?b + 1. ?r i) = (\<Sum>i<?b. r i) + ?v" by simp
    ultimately have "(\<Sum>i<?b + 1. ?r i) * (real n / real nb) = (\<Sum>i<?b. r i) * (real n / real nb) + A" by (simp only: distrib_right)
    then have "(\<Sum>i<?b + 1. ?r i) * (real n / real nb) + 0 = S" using assms(8) by simp
    moreover have "\<forall>i<?b + 1. (sw_rets s)[?b := Fin ?v] ! i = Fin (?r i) \<and> lo \<le> ?r i \<and> ?r i \<le> hi" using assms(5-7) v by (auto simp: nth_list_update)
    ultimately show ?thesis unfolding s dealt_def using assms(1,5,6) m
      by (intro exI [of _ n] exI [of _ "0 :: real"] exI [of _ ?r]) (auto simp: algebra_simps)
  qed
qed

lemma spread_exact:
  assumes "0 < n" "0 < nb" "nb < 10 ^ 9" "lo \<le> v" "v \<le> hi"
  shows "dealt nb n lo hi m S s \<Longrightarrow> nb + 1 \<le> f + sw_bin s \<Longrightarrow>
    \<exists>s'. spread f exact_arith nb (Fin (real n / real nb)) (Fin v) (Fin (real j / real nb)) s = Ok s' \<and> dealt nb n lo hi (m + j) (S + real j / real nb * v) s'"
proof (induction f arbitrary: m S s j)
  case 0
  then show ?case by (simp add: dealt_def)
next
  case (Suc f)
  from Suc.prems(1) obtain k A r where d: "sw_need s = Fin (real k / real nb)" "sw_accr s = Fin A" "sw_bin s < nb" "length (sw_rets s) = nb"
    "\<forall>i < sw_bin s. sw_rets s ! i = Fin (r i) \<and> lo \<le> r i \<and> r i \<le> hi" "(\<Sum>i < sw_bin s. r i) * (real n / real nb) + A = S" "sw_bin s * n \<le> m"
    "lo * (real (m - sw_bin s * n) / real nb) \<le> A" "A \<le> hi * (real (m - sw_bin s * n) / real nb)"
    "sw_bin s < nb - 1 \<longrightarrow> 1 \<le> k \<and> m + k = (sw_bin s + 1) * n" unfolding dealt_def by blast
  have j: "1 / 10 ^ 12 < real j / real nb \<longleftrightarrow> 0 < j"
  proof (cases "j = 0")
    case False
    then have "1 / real nb \<le> real j / real nb" by (simp add: divide_right_mono)
    moreover have "1 / 10 ^ 12 < 1 / real nb" using assms(2,3) by (simp add: field_simps)
    ultimately show ?thesis using False by linarith
  qed simp
  have grow: "lo * (real (m + i - sw_bin s * n) / real nb) \<le> A + real i / real nb * v" "A + real i / real nb * v \<le> hi * (real (m + i - sw_bin s * n) / real nb)" for i
  proof -
    have e: "real (m + i - sw_bin s * n) / real nb = real (m - sw_bin s * n) / real nb + real i / real nb" using d(7) by (simp add: add_divide_distrib [symmetric])
    have "lo * (real i / real nb) \<le> v * (real i / real nb)" "v * (real i / real nb) \<le> hi * (real i / real nb)" using assms(4,5) by (intro mult_right_mono; simp)+
    then have "lo * (real i / real nb) \<le> real i / real nb * v" "real i / real nb * v \<le> hi * (real i / real nb)" by (simp_all only: mult.commute)
    with d(8,9) show "lo * (real (m + i - sw_bin s * n) / real nb) \<le> A + real i / real nb * v"
      "A + real i / real nb * v \<le> hi * (real (m + i - sw_bin s * n) / real nb)" unfolding e distrib_left by linarith+
  qed
  consider "j = 0" | "0 < j" "sw_bin s = nb - 1" | "0 < j" "sw_bin s < nb - 1" using d(3) by linarith
  then show ?case
  proof cases
    case 1
    then show ?thesis using Suc.prems j by simp
  next
    case 2
    let ?s = "s\<lparr>sw_accr := Fin (A + real j / real nb * v)\<rparr>"
    have "dealt nb n lo hi (m + j) (S + real j / real nb * v) ?s" unfolding dealt_def using 2 d grow [of j]
      by (intro exI [of _ k] exI [of _ "A + real j / real nb * v"] exI [of _ r]) auto
    then show ?thesis using 2 j d(2) by simp
  next
    case 3
    let ?i = "min j k"
    have k: "1 \<le> k" "m + k = (sw_bin s + 1) * n" using d(10) 3(2) by blast+
    have i: "std_min (Fin (real j / real nb)) (Fin (real k / real nb)) = Fin (real ?i / real nb)"
      using assms(2) by (auto simp: std_min_def min_def divide_less_cancel)
    let ?s = "s\<lparr>sw_accr := Fin (A + real ?i / real nb * v), sw_need := Fin (real (k - ?i) / real nb)\<rparr>"
    have sub: "real j / real nb - real ?i / real nb = real (j - ?i) / real nb" "real k / real nb - real ?i / real nb = real (k - ?i) / real nb"
      by (simp_all add: diff_divide_distrib [symmetric] of_nat_diff)
    have st: "spread (Suc f) exact_arith nb (Fin (real n / real nb)) (Fin v) (Fin (real j / real nb)) s =
        spread f exact_arith nb (Fin (real n / real nb)) (Fin v) (Fin (real (j - ?i) / real nb)) (close_layer exact_arith (Fin (real n / real nb)) ?s)"
      using 3 j d(1,2) i sub by (simp add: fsub_def)
    have b: "sw_bin ?s = sw_bin s" "sw_rets ?s = sw_rets s" "sw_accr ?s = Fin (A + real ?i / real nb * v)" "sw_need ?s = Fin (real (k - ?i) / real nb)" by simp_all
    have sum: "(\<Sum>i < sw_bin s. r i) * (real n / real nb) + (A + real ?i / real nb * v) = S + real ?i / real nb * v" using d(6) by linarith
    have le: "sw_bin s * n \<le> m + ?i" "m + ?i + (k - ?i) = (sw_bin s + 1) * n" using d(7) k(2) by simp_all
    note c = close_layer_exact [OF assms(1-3), of ?s "A + real ?i / real nb * v" r lo hi "S + real ?i / real nb * v" "m + ?i" "k - ?i", unfolded b,
      OF refl 3(2) d(4,5) sum le(1) grow refl le(2)]
    show ?thesis
    proof (cases "k \<le> j")
      case True
      then have "nb + 1 \<le> f + sw_bin (close_layer exact_arith (Fin (real n / real nb)) ?s)" using c(2) Suc.prems(2) by simp
      from Suc.IH [OF c(1) this, of "j - ?i"] obtain s' where
        "spread f exact_arith nb (Fin (real n / real nb)) (Fin v) (Fin (real (j - ?i) / real nb)) (close_layer exact_arith (Fin (real n / real nb)) ?s) = Ok s'"
        "dealt nb n lo hi (m + ?i + (j - ?i)) (S + real ?i / real nb * v + real (j - ?i) / real nb * v) s'" by blast
      moreover have "real ?i / real nb * v + real (j - ?i) / real nb * v = real j / real nb * v"
        by (simp add: distrib_right [symmetric] add_divide_distrib [symmetric] of_nat_diff)
      ultimately show ?thesis using st by (simp add: add.assoc)
    next
      case False
      then have ji: "?i = j" by simp
      obtain g where g: "f = Suc g" using Suc.prems(2) 3(2) by (cases f) auto
      have "spread f exact_arith nb (Fin (real n / real nb)) (Fin v) (Fin (real (j - ?i) / real nb)) (close_layer exact_arith (Fin (real n / real nb)) ?s)
          = Ok (close_layer exact_arith (Fin (real n / real nb)) ?s)" unfolding g ji by simp
      then show ?thesis using st c(1) unfolding ji by simp
    qed
  qed
qed

lemma sweep_cell_exact:
  assumes "0 < n" "0 < nb" "nb < 10 ^ 9" "dealt nb n lo hi m S s"
    "c = \<lparr>hc_sum = Fin x, hc_cnt = q\<rparr>" "0 < q" "lo * real q \<le> x" "x \<le> hi * real q"
  shows "\<exists>s'. sweep_cell exact_arith nb (Fin (real n / real nb)) s c = Ok s' \<and> dealt nb n lo hi (m + q * nb) (S + x) s'"
proof -
  from assms(4) obtain k A r where d: "sw_need s = Fin (real k / real nb)" "sw_accr s = Fin A" "sw_bin s < nb" "length (sw_rets s) = nb"
    "\<forall>i < sw_bin s. sw_rets s ! i = Fin (r i) \<and> lo \<le> r i \<and> r i \<le> hi" "(\<Sum>i < sw_bin s. r i) * (real n / real nb) + A = S" "sw_bin s * n \<le> m"
    "lo * (real (m - sw_bin s * n) / real nb) \<le> A" "A \<le> hi * (real (m - sw_bin s * n) / real nb)"
    "sw_bin s < nb - 1 \<longrightarrow> 1 \<le> k \<and> m + k = (sw_bin s + 1) * n" unfolding dealt_def by blast
  have e: "real (m + q * nb - sw_bin s * n) / real nb = real (m - sw_bin s * n) / real nb + real q"
    using d(7) assms(2) by (simp add: add_divide_distrib of_nat_diff diff_divide_distrib)
  have grow: "lo * (real (m + q * nb - sw_bin s * n) / real nb) \<le> A + x" "A + x \<le> hi * (real (m + q * nb - sw_bin s * n) / real nb)"
    using d(8,9) assms(7,8) unfolding e distrib_left by linarith+
  have le: "sw_bin s * n \<le> m + q * nb" using d(7) by simp
  have tot: "(\<Sum>i < sw_bin s. r i) * (real n / real nb) + (A + x) = S + x" using d(6) by linarith
  consider "sw_bin s = nb - 1" | "sw_bin s < nb - 1" "q * nb \<le> k" | "sw_bin s < nb - 1" "k < q * nb" using d(3) by linarith
  then show ?thesis
  proof cases
    case 1
    have "dealt nb n lo hi (m + q * nb) (S + x) (s\<lparr>sw_accr := Fin (A + x)\<rparr>)" unfolding dealt_def
      using 1 d grow le tot by (intro exI [of _ k] exI [of _ "A + x"] exI [of _ r]) simp
    then show ?thesis using 1 d(2) by (simp add: sweep_cell_def assms(5))
  next
    case 2
    let ?s = "s\<lparr>sw_accr := Fin (A + x), sw_need := Fin (real (k - q * nb) / real nb)\<rparr>"
    have b: "sw_bin ?s = sw_bin s" "sw_rets ?s = sw_rets s" "sw_accr ?s = Fin (A + x)" "sw_need ?s = Fin (real (k - q * nb) / real nb)" by simp_all
    have k: "m + q * nb + (k - q * nb) = (sw_bin s + 1) * n" using d(10) 2 by simp
    note c = close_layer_exact [OF assms(1-3), of ?s "A + x" r lo hi "S + x" "m + q * nb" "k - q * nb", unfolded b, OF refl 2(1) d(4,5) tot le grow refl k]
    have q: "real q = real (q * nb) / real nb" using assms(2) by simp
    have fit: "real q \<le> real k / real nb" "real k / real nb - real q = real (k - q * nb) / real nb"
      unfolding q using 2(2) by (simp_all add: divide_right_mono diff_divide_distrib [symmetric] of_nat_diff del: of_nat_mult)
    have "sweep_cell exact_arith nb (Fin (real n / real nb)) s c = Ok (close_layer exact_arith (Fin (real n / real nb)) ?s)"
      using 2(1) d(1,2) fit by (simp add: sweep_cell_def assms(5) fsub_def)
    then show ?thesis using c(1) by blast
  next
    case 3
    have q: "real q = real (q * nb) / real nb" using assms(2) by simp
    have "real k / real nb < real q" unfolding q using 3(2) assms(2) by (simp add: divide_less_cancel del: of_nat_mult)
    then have "sweep_cell exact_arith nb (Fin (real n / real nb)) s c =
        spread (nb + 2) exact_arith nb (Fin (real n / real nb)) (Fin (x / real q)) (Fin (real (q * nb) / real nb)) s"
      using 3(1) d(1) assms(2,6) by (simp add: sweep_cell_def assms(5) del: spread.simps)
    moreover have "lo \<le> x / real q" "x / real q \<le> hi" using assms(6-8) by (simp_all add: pos_le_divide_eq pos_divide_le_eq)
    from spread_exact [OF assms(1-3) this assms(4), of "nb + 2" "q * nb"] obtain s' where
      "spread (nb + 2) exact_arith nb (Fin (real n / real nb)) (Fin (x / real q)) (Fin (real (q * nb) / real nb)) s = Ok s'"
      "dealt nb n lo hi (m + q * nb) (S + real (q * nb) / real nb * (x / real q)) s'" by auto
    moreover have "real (q * nb) / real nb * (x / real q) = x" using assms(2,6) by simp
    ultimately show ?thesis by simp
  qed
qed

lemma sweep_cells_exact:
  assumes "0 < n" "0 < nb" "nb < 10 ^ 9"
    "\<forall>c\<in>set cs. \<exists>x. hc_sum c = Fin x \<and> 0 < hc_cnt c \<and> lo * real (hc_cnt c) \<le> x \<and> x \<le> hi * real (hc_cnt c)"
  shows "dealt nb n lo hi m S s \<Longrightarrow> \<exists>s'. fold_ok (sweep_cell exact_arith nb (Fin (real n / real nb))) s cs = Ok s' \<and>
    dealt nb n lo hi (m + (\<Sum>c\<leftarrow>cs. hc_cnt c) * nb) (S + (\<Sum>c\<leftarrow>cs. val (hc_sum c))) s'"
  using assms(4)
proof (induction cs arbitrary: m S s)
  case (Cons c cs)
  then obtain x where x: "hc_sum c = Fin x" "0 < hc_cnt c" "lo * real (hc_cnt c) \<le> x" "x \<le> hi * real (hc_cnt c)" by auto
  have "c = \<lparr>hc_sum = Fin x, hc_cnt = hc_cnt c\<rparr>" using x(1) by (cases c) simp
  from sweep_cell_exact [OF assms(1-3) Cons.prems(1) this x(2-4)] obtain s1 where
    s1: "sweep_cell exact_arith nb (Fin (real n / real nb)) s c = Ok s1" "dealt nb n lo hi (m + hc_cnt c * nb) (S + x) s1" by blast
  from Cons.IH [OF s1(2)] Cons.prems(2) s1(1) x(1) show ?case by (simp add: algebra_simps)
qed simp

section \<open>The buckets hold everything\<close>

lemma cell_of_exact:
  assumes "\<forall>p\<in>set ms. \<exists>r. snd p = Fin r \<and> lo \<le> r \<and> r \<le> hi"
  shows "\<exists>x. hc_sum (cell_of exact_arith ms h) = Fin x \<and> x = (\<Sum>p\<leftarrow>filter (\<lambda>p. fst p = h) ms. val (snd p)) \<and>
    lo * real (hc_cnt (cell_of exact_arith ms h)) \<le> x \<and> x \<le> hi * real (hc_cnt (cell_of exact_arith ms h))"
  using assms
proof (induction ms rule: rev_induct)
  case Nil
  then show ?case by (simp add: cell_of_def empty_cell_def)
next
  case (snoc p ms)
  then obtain r where r: "snd p = Fin r" "lo \<le> r" "r \<le> hi" by auto
  from snoc show ?case using r by (auto simp: cell_of_snoc add_to_cell_def distrib_left)
qed

lemma buckets_total:
  assumes "\<forall>p\<in>set ms. fst p < (N :: nat)"
  shows "(\<Sum>h<N. \<Sum>p\<leftarrow>filter (\<lambda>p. fst p = h) ms. f p) = (\<Sum>p\<leftarrow>ms. f p :: 'a :: comm_monoid_add)"
  using assms
proof (induction ms)
  case (Cons p ms)
  have "(\<Sum>h<N. \<Sum>q\<leftarrow>filter (\<lambda>q. fst q = h) (p # ms). f q) = (\<Sum>h<N. (if h = fst p then f p else 0) + (\<Sum>q\<leftarrow>filter (\<lambda>q. fst q = h) ms. f q))"
    by (intro sum.cong) auto
  also have "\<dots> = f p + (\<Sum>q\<leftarrow>ms. f q)" using Cons sum.delta [of "{..<N}" "fst p" "\<lambda>_. f p"] by (simp add: sum.distrib)
  finally show ?case by simp
qed simp

lemma sum_list_filter_zero: "(\<And>x. x \<in> set xs \<Longrightarrow> \<not> P x \<Longrightarrow> f x = 0) \<Longrightarrow> (\<Sum>x\<leftarrow>filter P xs. f x) = (\<Sum>x\<leftarrow>xs. f x :: 'a :: comm_monoid_add)"
  by (induction xs) auto

lemma cells_exact:
  assumes "\<forall>p\<in>set ms. fst p < N_BUCKETS \<and> (\<exists>r. snd p = Fin r \<and> lo \<le> r \<and> r \<le> hi)"
  shows "\<forall>c\<in>set (cells_of exact_arith ms). \<exists>x. hc_sum c = Fin x \<and> 0 < hc_cnt c \<and> lo * real (hc_cnt c) \<le> x \<and> x \<le> hi * real (hc_cnt c)"
    "(\<Sum>c\<leftarrow>cells_of exact_arith ms. hc_cnt c) = length ms"
    "(\<Sum>c\<leftarrow>cells_of exact_arith ms. val (hc_sum c)) = (\<Sum>p\<leftarrow>ms. val (snd p))"
proof -
  let ?c = "cell_of exact_arith ms" and ?l = "[0..<N_BUCKETS]"
  have f: "\<forall>p\<in>set ms. \<exists>r. snd p = Fin r \<and> lo \<le> r \<and> r \<le> hi" and b: "\<forall>p\<in>set ms. fst p < N_BUCKETS" using assms by blast+
  note x = cell_of_exact [OF f]
  show "\<forall>c\<in>set (cells_of exact_arith ms). \<exists>x. hc_sum c = Fin x \<and> 0 < hc_cnt c \<and> lo * real (hc_cnt c) \<le> x \<and> x \<le> hi * real (hc_cnt c)"
    unfolding cells_of_def using x by auto
  have "(\<Sum>c\<leftarrow>cells_of exact_arith ms. hc_cnt c) = (\<Sum>h\<leftarrow>?l. hc_cnt (?c h))"
    unfolding cells_of_def map_map comp_def by (rule sum_list_filter_zero) simp
  also have "\<dots> = (\<Sum>h<N_BUCKETS. \<Sum>p\<leftarrow>filter (\<lambda>p. fst p = h) ms. 1)"
    by (simp add: interv_sum_list_conv_sum_set_nat atLeast0LessThan cell_count sum_list_triv)
  also have "\<dots> = length ms" unfolding buckets_total [OF b] by (simp add: sum_list_triv)
  finally show "(\<Sum>c\<leftarrow>cells_of exact_arith ms. hc_cnt c) = length ms" .
  have z: "val (hc_sum (?c h)) = 0" if "\<not> 0 < hc_cnt (?c h)" for h using cell_empty [of exact_arith ms h] that by (simp add: empty_cell_def)
  have "(\<Sum>c\<leftarrow>cells_of exact_arith ms. val (hc_sum c)) = (\<Sum>h\<leftarrow>?l. val (hc_sum (?c h)))"
    unfolding cells_of_def map_map comp_def by (rule sum_list_filter_zero) (rule z)
  also have "\<dots> = (\<Sum>h<N_BUCKETS. \<Sum>p\<leftarrow>filter (\<lambda>p. fst p = h) ms. val (snd p))"
    unfolding interv_sum_list_conv_sum_set_nat set_upt atLeast0LessThan
  proof (rule sum.cong [OF refl])
    fix h show "val (hc_sum (?c h)) = (\<Sum>p\<leftarrow>filter (\<lambda>p. fst p = h) ms. val (snd p))" using x [of h] by auto
  qed
  also have "\<dots> = (\<Sum>p\<leftarrow>ms. val (snd p))" by (rule buckets_total [OF b])
  finally show "(\<Sum>c\<leftarrow>cells_of exact_arith ms. val (hc_sum c)) = (\<Sum>p\<leftarrow>ms. val (snd p))" .
qed

lemma bucket_numbers_length: "length (bucket_numbers ar acc) = length acc"
  by (simp add: bucket_numbers_def Let_def)

lemma layer_scores_length: "length (layer_scores ar blk n ts) = n"
proof -
  have "length (foldl (\<lambda>acc (c, w). map (\<lambda>j. fadd (single ar) (acc ! j) (fmul (single ar) w (column blk n c ! j))) [0..<n]) acc ts) = n"
    if "length acc = n" for acc ts
    using that by (induction ts arbitrary: acc) (auto simp: split_def)
  then show ?thesis by (simp add: layer_scores_def split_def Let_def)
qed

text \<open>Returns of a day that the layers can be dealt from.\<close>

definition day_dealable :: "pr_store \<Rightarrow> nat \<Rightarrow> real \<Rightarrow> real \<Rightarrow> nat \<Rightarrow> bool" where
  "day_dealable st nb lo hi t \<longleftrightarrow> nb \<le> vcnt st t \<and> length (vfret_row st t) = vcnt st t \<and> (\<forall>v\<in>set (vfret_row st t). \<exists>r. v = Fin r \<and> lo \<le> r \<and> r \<le> hi)"

lemma day_rets_exact:
  assumes "day_dealable st nb lo hi t" "1 < nb" "nb < 10 ^ 9"
  shows "\<exists>r. day_rets exact_arith nf st nb t pl = Ok (map (\<lambda>i. Fin (r i)) [0..<nb]) \<and> (\<forall>i<nb. lo \<le> r i \<and> r i \<le> hi) \<and>
    (\<Sum>i<nb. r i) * (real (vcnt st t) / real nb) = (\<Sum>v\<leftarrow>vfret_row st t. val v)"
proof -
  let ?n = "vcnt st t" and ?ms = "members_of exact_arith nf st t pl"
  have n: "nb \<le> ?n" "0 < ?n" "0 < nb" using assms(1,2) by (auto simp: day_dealable_def)
  have len: "length (bucket_numbers exact_arith (layer_scores exact_arith (vblock nf st t) ?n (pl_terms pl))) = length (vfret_row st t)"
    using assms(1) by (simp add: bucket_numbers_length layer_scores_length day_dealable_def)
  then have snds: "map snd ?ms = vfret_row st t" by (simp add: members_of_def)
  have ms: "\<forall>p\<in>set ?ms. fst p < N_BUCKETS \<and> (\<exists>r. snd p = Fin r \<and> lo \<le> r \<and> r \<le> hi)"
  proof (rule ballI)
    fix p assume p: "p \<in> set ?ms"
    then have "snd p \<in> set (vfret_row st t)" using snds by (metis in_set_conv_nth length_map nth_map nth_mem)
    moreover have "fst p < N_BUCKETS" using p bucket_less unfolding members_of_def by (metis prod.collapse set_zip_leftD)
    ultimately show "fst p < N_BUCKETS \<and> (\<exists>r. snd p = Fin r \<and> lo \<le> r \<and> r \<le> hi)" using assms(1) by (auto simp: day_dealable_def)
  qed
  note C = cells_exact [OF ms]
  have lenm: "length ?ms = ?n" using arg_cong [OF snds, of length] assms(1) by (simp add: day_dealable_def)
  have per: "layer_size exact_arith st t nb = Fin (real ?n / real nb)" using n by (simp add: layer_size_def)
  let ?s0 = "first_layer (Fin (real ?n / real nb)) (replicate nb (Fin 0))"
  have "dealt nb ?n lo hi 0 0 ?s0" unfolding dealt_def first_layer_def using n
    by (intro exI [of _ ?n] exI [of _ "0 :: real"] exI [of _ "\<lambda>_. 0"]) simp
  from sweep_cells_exact [OF n(2,3) assms(3) C(1) this] obtain s where
    s: "fold_ok (sweep_cell exact_arith nb (Fin (real ?n / real nb))) ?s0 (cells_of exact_arith ?ms) = Ok s"
    "dealt nb ?n lo hi (?n * nb) (\<Sum>p\<leftarrow>?ms. val (snd p)) s" by (auto simp: C(2,3) lenm)
  from s(2) obtain k A r where d: "sw_accr s = Fin A" "sw_bin s < nb" "length (sw_rets s) = nb"
    "\<forall>i < sw_bin s. sw_rets s ! i = Fin (r i) \<and> lo \<le> r i \<and> r i \<le> hi" "(\<Sum>i < sw_bin s. r i) * (real ?n / real nb) + A = (\<Sum>p\<leftarrow>?ms. val (snd p))"
    "lo * (real (?n * nb - sw_bin s * ?n) / real nb) \<le> A" "A \<le> hi * (real (?n * nb - sw_bin s * ?n) / real nb)"
    "sw_bin s < nb - 1 \<longrightarrow> 1 \<le> k \<and> ?n * nb + k = (sw_bin s + 1) * ?n" unfolding dealt_def by blast
  have bin: "sw_bin s = nb - 1"
  proof (rule ccontr)
    assume "sw_bin s \<noteq> nb - 1"
    then have b: "sw_bin s < nb - 1" using d(2) by simp
    then have "(sw_bin s + 1) * ?n \<le> (nb - 1) * ?n" by (intro mult_right_mono) simp_all
    also have "\<dots> \<le> nb * ?n" by simp
    finally have "(sw_bin s + 1) * ?n \<le> ?n * nb" by (simp only: mult.commute)
    moreover have "1 \<le> k" "?n * nb + k = (sw_bin s + 1) * ?n" using d(8) b by blast+
    ultimately show False by linarith
  qed
  have p: "0 < real ?n / real nb" using n by simp
  have "?n * nb - sw_bin s * ?n = ?n" unfolding bin using n(3) by (cases nb) (simp_all add: algebra_simps)
  with d(6,7) have "lo * (real ?n / real nb) \<le> A" "A \<le> hi * (real ?n / real nb)" by simp_all
  then have v: "lo \<le> A / (real ?n / real nb)" "A / (real ?n / real nb) \<le> hi" using p by (simp_all only: pos_le_divide_eq pos_divide_le_eq)
  let ?q = "r(nb - 1 := A / (real ?n / real nb))"
  have out: "(sw_rets s)[sw_bin s := fdiv (double exact_arith) (sw_accr s) (Fin (real ?n / real nb))] = map (\<lambda>i. Fin (?q i)) [0..<nb]"
    using d(1,3,4) n bin by (intro nth_equalityI) (auto simp: nth_list_update)
  have "day_rets exact_arith nf st nb t pl = Ok (map (\<lambda>i. Fin (?q i)) [0..<nb])"
    unfolding day_rets_def Let_def per using s(1) bin out by simp
  moreover have "\<forall>i<nb. lo \<le> ?q i \<and> ?q i \<le> hi" using d(4) v bin by auto
  moreover have "(\<Sum>i<nb. ?q i) * (real ?n / real nb) = (\<Sum>v\<leftarrow>vfret_row st t. val v)"
  proof -
    have "(\<Sum>i<nb. ?q i) = (\<Sum>i<nb - 1. r i) + A / (real ?n / real nb)" using n(3) by (cases nb) (auto intro: sum.cong)
    moreover have "A / (real ?n / real nb) * (real ?n / real nb) = A" using p by (metis less_irrefl nonzero_divide_eq_eq)
    ultimately have "(\<Sum>i<nb. ?q i) * (real ?n / real nb) = (\<Sum>i<nb - 1. r i) * (real ?n / real nb) + A" by (simp only: distrib_right)
    also have "\<dots> = (\<Sum>p\<leftarrow>?ms. val (snd p))" using d(5) bin by simp
    also have "\<dots> = (\<Sum>v\<leftarrow>map snd ?ms. val v)" by (simp add: comp_def)
    finally show ?thesis by (simp only: snds)
  qed
  ultimately show ?thesis by blast
qed

lemma compound_exact:
  assumes "length nav = length rets" "\<forall>v\<in>set nav. \<exists>x. v = Fin x \<and> 0 < x" "\<forall>v\<in>set rets. \<exists>x. v = Fin x \<and> -1 < x"
  shows "\<exists>nav'. compound_layers exact_arith rets nav = Ok nav' \<and> length nav' = length nav \<and> (\<forall>v\<in>set nav'. \<exists>x. v = Fin x \<and> 0 < x)"
  using assms
proof (induction nav rets rule: list_induct2)
  case (Cons v nav r rets)
  from Cons.prems obtain x y where xy: "v = Fin x" "0 < x" "r = Fin y" "-1 < y" by auto
  then have "0 < x * (1 + y)" by simp
  moreover obtain nav' where "compound_layers exact_arith rets nav = Ok nav'" "length nav' = length nav" "\<forall>v\<in>set nav'. \<exists>x. v = Fin x \<and> 0 < x"
    using Cons by auto
  ultimately show ?case using xy by (auto simp: compound_layers_def Let_def)
qed (simp add: compound_layers_def)

lemma track_exact:
  assumes "1 < nb" "nb < 10 ^ 9" "\<forall>t<T. \<exists>lo>-1. \<exists>hi. day_dealable st nb lo hi t"
  shows "t \<le> T \<Longrightarrow> \<exists>nav tp. track exact_arith nf st nb pl t = Ok (nav, tp) \<and> length nav = nb \<and> (\<forall>v\<in>set nav. \<exists>x. v = Fin x \<and> 0 < x)"
proof (induction t)
  case 0
  then show ?case by (simp add: track_def)
next
  case (Suc t)
  then obtain nav tp where n: "track exact_arith nf st nb pl t = Ok (nav, tp)" "length nav = nb" "\<forall>v\<in>set nav. \<exists>x. v = Fin x \<and> 0 < x" by auto
  from assms(3) Suc.prems obtain lo hi where lo: "-1 < lo" "day_dealable st nb lo hi t" by (meson Suc_le_lessD)
  from day_rets_exact [OF lo(2) assms(1,2), of nf pl] obtain r where r: "day_rets exact_arith nf st nb t pl = Ok (map (\<lambda>i. Fin (r i)) [0..<nb])"
    "\<forall>i<nb. lo \<le> r i \<and> r i \<le> hi" by blast
  have "\<forall>v\<in>set (map (\<lambda>i. Fin (r i)) [0..<nb]). \<exists>x. v = Fin x \<and> -1 < x" using r(2) lo(1) by fastforce
  from compound_exact [OF _ n(3) this] n(2) obtain nav' where "compound_layers exact_arith (map (\<lambda>i. Fin (r i)) [0..<nb]) nav = Ok nav'"
    "length nav' = nb" "\<forall>v\<in>set nav'. \<exists>x. v = Fin x \<and> 0 < x" by auto
  then show ?case using n(1) r(1) by (auto simp: track_Suc track_day_def)
qed

section \<open>The line of a window in exact arithmetic\<close>

definition line_points :: "nat \<Rightarrow> (nat \<Rightarrow> real) \<Rightarrow> (nat \<Rightarrow> real) \<Rightarrow> (real \<times> real) list" where
  "line_points nb p q = map (\<lambda>j. ((real j + 1 / 2) / real nb - 1 / 2, ln (q j / p j))) [0..<nb]"

lemma rank_sum: "0 < nb \<Longrightarrow> (\<Sum>j<nb. (real j + 1 / 2) / real nb - 1 / 2) = 0"
proof -
  assume nb: "0 < nb"
  have "(\<Sum>j<m. (real j + 1 / 2)) = real m * real m / 2" for m by (induction m) (simp_all add: field_simps)
  then have "(\<Sum>j<nb. (real j + 1 / 2) / real nb) = real nb / 2" using nb by (simp add: sum_divide_distrib [symmetric] field_simps)
  then show ?thesis by (simp add: sum_subtractf)
qed

lemma line_sums_exact:
  assumes "\<And>j. j < n \<Longrightarrow> ly_xc lp ! j = Fin (x j) \<and> ys ! j = Fin (y j)"
  shows "foldl (\<lambda>(sy, sxy, syy) j. (fadd Fin sy (ys ! j), fadd Fin sxy (fmul Fin (ly_xc lp ! j) (ys ! j)), fadd Fin syy (fmul Fin (ys ! j) (ys ! j))))
     (Fin 0, Fin 0, Fin 0) [0..<n] = (Fin (\<Sum>j<n. y j), Fin (\<Sum>j<n. x j * y j), Fin (\<Sum>j<n. y j * y j))"
  using assms by (induction n) simp_all

lemma make_layer_exact:
  assumes "make_layer exact_arith spec nd = Ok lp"
  shows "j < ly_n_bins lp \<Longrightarrow> ly_xc lp ! j = Fin ((real j + 1 / 2) / real (ly_n_bins lp) - 1 / 2)"
    "ly_sxx lp = Fin (\<Sum>j<ly_n_bins lp. ((real j + 1 / 2) / real (ly_n_bins lp) - 1 / 2) * ((real j + 1 / 2) / real (ly_n_bins lp) - 1 / 2))"
proof -
  let ?nb = "ly_n_bins lp" and ?x = "\<lambda>j. (real j + 1 / 2) / real (ly_n_bins lp) - 1 / 2"
  have nb: "0 < ?nb" using make_layer_windows(1) [OF assms] by simp
  have lp: "ly_xc lp = map (rank_of_layer exact_arith ?nb) [0..<?nb]" "ly_sxx lp = foldl (\<lambda>s x. fadd Fin s (fmul Fin x x)) (Fin 0) (ly_xc lp)"
    using assms by (auto simp: make_layer_def Let_def split: if_splits)
  have r: "rank_of_layer exact_arith ?nb j = Fin (?x j)" for j using nb by (simp add: rank_of_layer_def Let_def fsub_def)
  then show "j < ?nb \<Longrightarrow> ly_xc lp ! j = Fin (?x j)" by (simp add: lp(1))
  have "foldl (\<lambda>s x. fadd Fin s (fmul Fin x x)) (Fin 0) (map (\<lambda>j. Fin (?x j)) [0..<m]) = Fin (\<Sum>j<m. ?x j * ?x j)" for m by (induction m) simp_all
  then show "ly_sxx lp = Fin (\<Sum>j<?nb. ?x j * ?x j)" unfolding lp r by simp
qed

lemma regress_exact:
  assumes "make_layer exact_arith spec nd = Ok lp" "\<And>j. j < ly_n_bins lp \<Longrightarrow> nav0 ! j = Fin (p j) \<and> 0 < p j \<and> nav1 ! j = Fin (q j) \<and> 0 < q j"
  defines "ps \<equiv> line_points (ly_n_bins lp) p q" and "n \<equiv> real (ly_n_bins lp)"
  defines "ybar \<equiv> (\<Sum>(x, y)\<leftarrow>ps. y) / n" and "XX \<equiv> (\<Sum>(x, y)\<leftarrow>ps. x * x)" and "b \<equiv> (\<Sum>(x, y)\<leftarrow>ps. x * y) / (\<Sum>(x, y)\<leftarrow>ps. x * x)"
  shows "0 < XX" "sq_err ps ybar b \<le> sq_err ps c d"
    "regress exact_arith lp nav0 nav1 = (if sq_err ps ybar 0 \<le> 0 then no_stat
       else \<lparr>ws_s = Fin (b - 2 * sqrt (sq_err ps ybar b / real (ly_n_bins lp - 2) / XX)), ws_b = Fin b,
             ws_r2 = Fin (1 - sq_err ps ybar b / sq_err ps ybar 0), ws_sharpe = Fin 0\<rparr>)"
    "sq_err ps ybar b = sq_err ps ybar 0 - b * (\<Sum>(x, y)\<leftarrow>ps. x * y)"
proof -
  let ?nb = "ly_n_bins lp" and ?x = "\<lambda>j. (real j + 1 / 2) / real (ly_n_bins lp) - 1 / 2" and ?y = "\<lambda>j. ln (q j / p j)"
  have nb: "10 \<le> ?nb" using make_layer_windows(1) [OF assms(1)] .
  have sums: "(\<Sum>(x, y)\<leftarrow>ps. f x y) = (\<Sum>j<?nb. f (?x j) (?y j))" for f :: "real \<Rightarrow> real \<Rightarrow> real"
    by (simp add: ps_def line_points_def comp_def interv_sum_list_conv_sum_set_nat atLeast0LessThan)
  have X: "(\<Sum>(x, y)\<leftarrow>ps. x) = 0" unfolding sums using rank_sum [of ?nb] nb by simp
  have len: "real (length ps) = n" "0 < n" using nb by (simp_all add: ps_def line_points_def n_def)
  show XX: "0 < XX"
  proof -
    have "0 < ?x 0 * ?x 0" using nb by (simp add: zero_less_mult_iff divide_less_eq)
    also have "\<dots> \<le> (\<Sum>j<?nb. ?x j * ?x j)" using nb by (intro member_le_sum) auto
    finally show ?thesis unfolding XX_def sums .
  qed
  let ?XY = "\<Sum>(x, y)\<leftarrow>ps. x * y" and ?YY = "\<Sum>(x, y)\<leftarrow>ps. y * y"
  have bX: "b * XX = ?XY" using XX by (simp add: b_def XX_def)
  have L: "0 < real (length ps)" "0 < (\<Sum>(x, y)\<leftarrow>ps. x * x) / real (length ps) -
      (\<Sum>(x, y)\<leftarrow>ps. x) / real (length ps) * ((\<Sum>(x, y)\<leftarrow>ps. x) / real (length ps))"
    using len XX unfolding X XX_def by simp_all
  show "sq_err ps ybar b \<le> sq_err ps c d"
    using least_squares_line [OF L, of c d] len unfolding X by (simp add: ybar_def b_def)
  show E: "sq_err ps ybar b = sq_err ps ybar 0 - b * ?XY"
  proof -
    have "sq_err ps ybar b = sq_err ps ybar 0 - 2 * b * ?XY + b * (b * XX)"
      unfolding sq_err_expand XX_def using X by (simp add: power2_eq_square algebra_simps)
    then show ?thesis unfolding bX by simp
  qed
  have V: "sq_err ps ybar 0 = ?YY - n * ybar * ybar"
  proof -
    have y: "(\<Sum>(x, y)\<leftarrow>ps. y) = n * ybar" using len(2) by (simp add: ybar_def)
    show ?thesis unfolding sq_err_expand using X y len(1) by (simp add: power2_eq_square algebra_simps)
  qed
  have logs: "log_returns exact_arith ?nb nav0 nav1 ! j = Fin (?y j)" if "j < ?nb" for j
    using assms(2) [OF that] that by (auto simp: log_returns_def flog_def)
  have ls: "line_sums exact_arith lp (log_returns exact_arith ?nb nav0 nav1) = (Fin (\<Sum>(x, y)\<leftarrow>ps. y), Fin ?XY, Fin ?YY)"
    unfolding line_sums_def Let_def sums using line_sums_exact [of ?nb lp ?x "log_returns exact_arith ?nb nav0 nav1" ?y] logs make_layer_exact(1) [OF assms(1)] by simp
  have sxx: "ly_sxx lp = Fin XX" unfolding XX_def sums by (rule make_layer_exact(2) [OF assms(1)])
  have pos: "0 \<le> sq_err ps ybar b" unfolding sq_err_def by (intro sum_list_nonneg) auto
  have n2: "0 < real (?nb - 2)" using nb by simp
  show "regress exact_arith lp nav0 nav1 = (if sq_err ps ybar 0 \<le> 0 then no_stat
       else \<lparr>ws_s = Fin (b - 2 * sqrt (sq_err ps ybar b / real (?nb - 2) / XX)), ws_b = Fin b,
             ws_r2 = Fin (1 - sq_err ps ybar b / sq_err ps ybar 0), ws_sharpe = Fin 0\<rparr>)"
  proof -
    let ?V = "sq_err ps ybar 0" and ?E = "sq_err ps ybar b" and ?Y = "\<Sum>(x, y)\<leftarrow>ps. y"
    define V E where "V = ?V" and "E = ?E"
    have D: "double exact_arith = Fin" by simp
    have f1: "fsub Fin (Fin ?YY) (fmul Fin (fmul Fin (Fin (real ?nb)) (fdiv Fin (Fin ?Y) (Fin (real ?nb)))) (fdiv Fin (Fin ?Y) (Fin (real ?nb)))) = Fin V"
      using len(2) V by (simp add: fsub_def n_def [symmetric] ybar_def V_def)
    have f2: "fdiv Fin (Fin ?XY) (Fin XX) = Fin b" using XX by (simp add: b_def XX_def)
    have f3: "std_max (Fin 0) (fsub Fin (Fin V) (fmul Fin (Fin b) (Fin ?XY))) = Fin E"
      using pos E by (auto simp: std_max_def fsub_def V_def E_def)
    have f5: "fsqrt Fin (fdiv Fin (fdiv Fin (Fin E) (Fin (real (?nb - 2)))) (Fin XX)) = Fin (sqrt (E / real (?nb - 2) / XX))"
    proof -
      have "0 \<le> E / real (?nb - 2) / XX" using pos n2 XX by (simp add: E_def)
      then show ?thesis using n2 XX by (simp add: fsqrt_def)
    qed
    have f6: "narrow exact_arith (fsub Fin (Fin b) (fmul Fin LAYER_K_SE (Fin s))) = Fin (b - 2 * s)" "narrow exact_arith (Fin b) = Fin b" for b s
      by (simp_all add: fsub_def narrow_def LAYER_K_SE_def)
    show ?thesis
    proof (cases "V \<le> 0")
      case True
      have "regress exact_arith lp nav0 nav1 = \<lparr>ws_s = Fin 0, ws_b = Fin 0, ws_r2 = Fin 0, ws_sharpe = Fin 0\<rparr>"
        unfolding regress_def Let_def ls prod.case sxx D f1 fle_Fin by (simp only: True if_True)
      then show ?thesis using True by (simp add: no_stat_def V_def)
    next
      case False
      have f4: "std_min (Fin 1) (fdiv Fin (fmul Fin (Fin b) (Fin ?XY)) (Fin V)) = Fin (1 - E / V)"
      proof -
        have "b * ?XY / V = 1 - E / V" using False by (simp add: E_def E V_def [symmetric] field_simps)
        moreover have "0 \<le> E / V" using pos False by (simp add: E_def)
        then have "\<not> 1 - E / V < 1 \<Longrightarrow> 1 - E / V = 1" by linarith
        ultimately show ?thesis using False by (auto simp: std_min_def simp del: divide_eq_0_iff)
      qed
      have "regress exact_arith lp nav0 nav1 = \<lparr>ws_s = Fin (b - 2 * sqrt (E / real (?nb - 2) / XX)), ws_b = Fin b, ws_r2 = Fin (1 - E / V), ws_sharpe = Fin 0\<rparr>"
        unfolding regress_def Let_def ls prod.case sxx D f1 f2 f3 f4 f5 f6 fle_Fin by (simp only: False if_False)
      then show ?thesis using False by (simp add: V_def E_def)
    qed
  qed
qed

section \<open>A wide pool\<close>

text \<open>A strategy of forty positions, and a store of ten members with no returns to speak of on each of 274 days.\<close>

definition wide_strategy :: strategy_spec where "wide_strategy = mine_strategy\<lparr>st_hold_n := 40\<rparr>"

definition flat_store :: pr_store where
  "flat_store = \<lparr>sr_n_d = 274, sr_max_cnt = 10, sr_off = [], sr_memb = [], sr_pr = [], sr_fret = [],
     sr_voff = map (\<lambda>i. 10 * i) [0..<275], sr_vpr = replicate 2740 (Fin 1), sr_vfret = replicate 2740 (Fin 0)\<rparr>"

lemma flat_store_at: "t < 274 \<Longrightarrow> vcnt flat_store t = 10" "t < 274 \<Longrightarrow> vfret_row flat_store t = replicate 10 (Fin 0)"
  by (simp_all add: flat_store_def vcnt_def vfret_row_def substr_def)

lemma wide_layers: "\<exists>lp. make_layer exact_arith wide_strategy 274 = Ok lp \<and> ly_n_bins lp = 10 \<and> ly_n_ret lp = 273"
  by (simp add: make_layer_def Let_def wide_strategy_def mine_strategy_def strat_0_def layer_sizes)

section \<open>Layers that are always dealt\<close>

definition layers_ready :: "layer_params \<Rightarrow> pr_store \<Rightarrow> bool" where
  "layers_ready lp st \<longleftrightarrow> ly_n_bins lp < 10 ^ 9 \<and> (\<forall>t<ly_n_ret lp. ly_n_bins lp \<le> vcnt st t \<and> length (vfret_row st t) = vcnt st t \<and>
     (\<forall>v\<in>set (vfret_row st t). \<exists>r. v = Fin r \<and> -1 < r))"

lemma day_dealable_exists:
  assumes "layers_ready lp st" "t < ly_n_ret lp" "0 < ly_n_bins lp"
  defines "vs \<equiv> val ` set (vfret_row st t)"
  shows "day_dealable st (ly_n_bins lp) (Min vs) (Max vs) t" "-1 < Min vs"
proof -
  have d: "ly_n_bins lp \<le> vcnt st t" "length (vfret_row st t) = vcnt st t" "\<forall>v\<in>set (vfret_row st t). \<exists>r. v = Fin r \<and> -1 < r"
    using assms(1,2) by (auto simp: layers_ready_def)
  have f: "finite vs" "vs \<noteq> {}" using d(1,2) assms(3) by (auto simp: vs_def)
  have "\<exists>r. v = Fin r \<and> Min vs \<le> r \<and> r \<le> Max vs" if v: "v \<in> set (vfret_row st t)" for v
  proof -
    obtain r where r: "v = Fin r" using d(3) v by blast
    then have "r \<in> vs" using v unfolding vs_def by (force simp: image_iff)
    then show ?thesis using r f by simp
  qed
  with d show "day_dealable st (ly_n_bins lp) (Min vs) (Max vs) t" by (simp add: day_dealable_def)
  show "-1 < Min vs" using f d(3) by (auto simp: vs_def)
qed

lemma layers_total:
  assumes "make_layer exact_arith spec nd = Ok lp" "layers_ready lp st" "scratch_ready lp sc" "length plans \<le> length (ls_lanes sc)"
  shows "\<exists>out. run_layer_batch exact_arith nf st lp plans sc = Ok out"
proof (cases "run_layer_batch exact_arith nf st lp plans sc")
  case (Fail e)
  note w = make_layer_windows [OF assms(1)]
  have nb: "0 < ly_n_bins lp" "1 < ly_n_bins lp" "ly_n_bins lp < 10 ^ 9" using w(1) assms(2) by (simp_all add: layers_ready_def)
  have "\<forall>t<ly_n_ret lp. \<exists>lo>-1. \<exists>hi. day_dealable st (ly_n_bins lp) lo hi t" using day_dealable_exists [OF assms(2) _ nb(1)] by blast
  from track_exact [OF nb(2,3) this order_refl] have "\<exists>x. track exact_arith nf st (ly_n_bins lp) pl (ly_n_ret lp) = Ok x" for pl by blast
  with run_layer_batch_cases(2) [OF assms(3,4) nb(1) w(3) Fail] show ?thesis by blast
qed blast

section \<open>Properties\<close>

text \<open>C15. A batch of the scan does not mix its weight vectors. Given any scratch that an earlier batch has left behind, a batch that ends reports for
  every vector exactly the summary and the windows that the vector has on its own, computed day by day from the buckets with members and
  from the full history of its layers, without histogram, bitmap or ring; it leaves the scratch as it has to be for the next batch; and it fails
  only when the days of one of its vectors fail.\<close>

theorem layer_batch_alone:
  assumes "make_layer ar spec nd = Ok lp" "scratch_ready lp sc" "length plans \<le> length (ls_lanes sc)"
  shows "case run_layer_batch ar nf st lp plans sc of
      Fail e \<Rightarrow> \<exists>pl\<in>set plans. \<nexists>x. track ar nf st (ly_n_bins lp) pl (ly_n_ret lp) = Ok x
    | Ok (sc', rows, wins) \<Rightarrow> scratch_ready lp sc' \<and> length (ls_lanes sc') = length (ls_lanes sc) \<and>
        rows = map (\<lambda>pl. point_summary ar (window_stats ar nf st lp pl)) plans \<and> wins = map (\<lambda>pl. window_rows (window_stats ar nf st lp pl)) plans"
proof -
  note w = make_layer_windows [OF assms(1)]
  have nb: "0 < ly_n_bins lp" using w(1) by simp
  show ?thesis
  proof (cases "run_layer_batch ar nf st lp plans sc")
    case (Fail e)
    then show ?thesis using run_layer_batch_cases(2) [OF assms(2,3) nb w(3) Fail] by simp
  next
    case (Ok out)
    obtain sc' rows wins where "out = (sc', rows, wins)" by (cases out)
    with Ok run_layer_batch_cases(1) [OF assms(2,3) nb w(3), of ar nf st sc' rows wins] show ?thesis by simp
  qed
qed

lemma layer_batch_alone_witness:
  "\<exists>lp sc' rows wins. make_layer exact_arith wide_strategy 274 = Ok lp \<and>
     run_layer_batch exact_arith 1 flat_store lp [lone_plan, lone_plan] (make_layer_scratch lp 3) = Ok (sc', rows, wins) \<and>
     rows ! 0 = rows ! 1 \<and> length (ls_lanes sc') = 3"
proof -
  obtain lp where lp: "make_layer exact_arith wide_strategy 274 = Ok lp" "ly_n_bins lp = 10" "ly_n_ret lp = 273" using wide_layers by blast
  have r: "layers_ready lp flat_store" using flat_store_at by (auto simp: layers_ready_def lp)
  have s: "scratch_ready lp (make_layer_scratch lp 3)" "length [lone_plan, lone_plan] \<le> length (ls_lanes (make_layer_scratch lp 3))"
    using fresh_scratch [of lp 3] by simp_all
  obtain sc' rows wins where o: "run_layer_batch exact_arith 1 flat_store lp [lone_plan, lone_plan] (make_layer_scratch lp 3) = Ok (sc', rows, wins)"
    using layers_total [OF lp(1) r s, of 1] by (metis prod_cases3)
  from layer_batch_alone [OF lp(1) s, of 1 flat_store] fresh_scratch [of lp 3] lp(1) o show ?thesis by auto
qed

text \<open>C18. The dealing is fair, and the scan never trips over it. In exact arithmetic, with enough members on every day and no return of a total loss:
  the buckets are dealt out completely on every day, every layer gets the mean of the returns of its share - between the smallest and the
  largest of the day -, the layers together get the returns of all the members, and so no batch of the scan fails an assertion.\<close>

theorem layers_dealt_fairly:
  assumes "make_layer exact_arith spec nd = Ok lp" "layers_ready lp st" "scratch_ready lp sc" "length plans \<le> length (ls_lanes sc)"
  shows "(\<exists>out. run_layer_batch exact_arith nf st lp plans sc = Ok out) \<and>
    (\<forall>t<ly_n_ret lp. \<forall>pl. \<exists>r. day_rets exact_arith nf st (ly_n_bins lp) t pl = Ok (map (\<lambda>i. Fin (r i)) [0..<ly_n_bins lp]) \<and>
       (\<forall>i<ly_n_bins lp. Min (val ` set (vfret_row st t)) \<le> r i \<and> r i \<le> Max (val ` set (vfret_row st t))) \<and>
       (\<Sum>i<ly_n_bins lp. r i) * (real (vcnt st t) / real (ly_n_bins lp)) = (\<Sum>v\<leftarrow>vfret_row st t. val v))"
proof -
  have nb: "0 < ly_n_bins lp" "1 < ly_n_bins lp" "ly_n_bins lp < 10 ^ 9" using make_layer_windows(1) [OF assms(1)] assms(2) by (simp_all add: layers_ready_def)
  from layers_total [OF assms] show ?thesis using day_rets_exact [OF day_dealable_exists(1) [OF assms(2) _ nb(1)] nb(2,3)] by blast
qed

lemma layers_dealt_fairly_witness:
  "\<exists>lp r. make_layer exact_arith wide_strategy 274 = Ok lp \<and>
     day_rets exact_arith 1 flat_store 10 7 lone_plan = Ok (map (\<lambda>i. Fin (r i)) [0..<10]) \<and> (\<Sum>i<10. r i) = 0"
proof -
  obtain lp where lp: "make_layer exact_arith wide_strategy 274 = Ok lp" "ly_n_bins lp = 10" "ly_n_ret lp = 273" using wide_layers by blast
  have r: "layers_ready lp flat_store" using flat_store_at by (auto simp: layers_ready_def lp)
  have s: "scratch_ready lp (make_layer_scratch lp 3)" "length [lone_plan] \<le> length (ls_lanes (make_layer_scratch lp 3))"
    using fresh_scratch [of lp 3] by simp_all
  have "7 < ly_n_ret lp" by (simp add: lp)
  moreover note conjunct2 [OF layers_dealt_fairly [OF lp(1) r s, of 1]]
  ultimately obtain r where "day_rets exact_arith 1 flat_store 10 7 lone_plan = Ok (map (\<lambda>i. Fin (r i)) [0..<10])"
    "(\<Sum>i<10. r i) * (real (vcnt flat_store 7) / real 10) = (\<Sum>v\<leftarrow>vfret_row flat_store 7. val v)" unfolding lp(2) by blast
  then have "(\<Sum>i<10. r i) = 0" by (simp add: flat_store_at sum_list_replicate)
  with lp(1) \<open>day_rets exact_arith 1 flat_store 10 7 lone_plan = Ok (map (\<lambda>i. Fin (r i)) [0..<10])\<close> show ?thesis by blast
qed

text \<open>C19. The score of a window. In exact arithmetic the slope is that of the least squares line through the ranks of the layers and their log returns, the
  R square is the share of the variation that the line explains and lies in [0, 1], and the score is the slope less two standard errors, so never
  above it; a window in which all layers return the same scores zero.\<close>

theorem window_line_least_squares:
  assumes "make_layer exact_arith spec nd = Ok lp" "\<And>j. j < ly_n_bins lp \<Longrightarrow> nav0 ! j = Fin (p j) \<and> 0 < p j \<and> nav1 ! j = Fin (q j) \<and> 0 < q j"
  shows "let ps = line_points (ly_n_bins lp) p q; w = regress exact_arith lp nav0 nav1; ybar = (\<Sum>(x, y)\<leftarrow>ps. y) / real (ly_n_bins lp); V = sq_err ps ybar 0 in
    \<exists>b. (\<forall>c d. sq_err ps ybar b \<le> sq_err ps c d) \<and>
      (if V \<le> 0 then w = no_stat
       else \<exists>s r. w = \<lparr>ws_s = Fin s, ws_b = Fin b, ws_r2 = Fin r, ws_sharpe = Fin 0\<rparr> \<and> r = 1 - sq_err ps ybar b / V \<and> 0 \<le> r \<and> r \<le> 1 \<and> s \<le> b \<and>
         ((b - s) / 2)\<^sup>2 = sq_err ps ybar b / real (ly_n_bins lp - 2) / (\<Sum>(x, y)\<leftarrow>ps. x * x))"
proof -
  let ?ps = "line_points (ly_n_bins lp) p q"
  let ?ybar = "(\<Sum>(x, y)\<leftarrow>?ps. y) / real (ly_n_bins lp)" and ?b = "(\<Sum>(x, y)\<leftarrow>?ps. x * y) / (\<Sum>(x, y)\<leftarrow>?ps. x * x)"
  let ?V = "sq_err ?ps ?ybar 0" and ?E = "sq_err ?ps ?ybar ?b" and ?X = "\<Sum>(x, y)\<leftarrow>?ps. x * x"
  note R = regress_exact [OF assms]
  have E: "0 \<le> ?E" unfolding sq_err_def by (intro sum_list_nonneg) auto
  have le: "?E \<le> ?V" by (rule R(2))
  let ?se = "?E / real (ly_n_bins lp - 2) / ?X"
  have se: "0 \<le> ?se" using E R(1) by simp
  have line: "if ?V \<le> 0 then regress exact_arith lp nav0 nav1 = no_stat
       else \<exists>s r. regress exact_arith lp nav0 nav1 = \<lparr>ws_s = Fin s, ws_b = Fin ?b, ws_r2 = Fin r, ws_sharpe = Fin 0\<rparr> \<and> r = 1 - ?E / ?V \<and> 0 \<le> r \<and> r \<le> 1 \<and>
         s \<le> ?b \<and> ((?b - s) / 2)\<^sup>2 = ?se"
  proof (cases "?V \<le> 0")
    case True
    then show ?thesis using R(3) by simp
  next
    case False
    define z where "z = sqrt ?se"
    have z: "0 \<le> z" "z\<^sup>2 = ?se" using se by (simp_all add: z_def)
    have w: "regress exact_arith lp nav0 nav1 = \<lparr>ws_s = Fin (?b - 2 * z), ws_b = Fin ?b, ws_r2 = Fin (1 - ?E / ?V), ws_sharpe = Fin 0\<rparr>"
      using R(3) [unfolded if_not_P [OF False]] unfolding z_def .
    have "0 \<le> 1 - ?E / ?V" "1 - ?E / ?V \<le> 1" using E le False by (simp_all add: divide_le_eq)
    moreover have "((?b - (?b - 2 * z)) / 2)\<^sup>2 = ?se" using z(2) by simp
    ultimately show ?thesis using False w z(1) by (simp only: if_False) (intro exI [of _ "?b - 2 * z"] exI [of _ "1 - ?E / ?V"] conjI, simp_all)
  qed
  then show ?thesis unfolding Let_def using R(2) by (intro exI [of _ ?b] conjI allI)
qed

lemma window_line_least_squares_witness:
  "\<exists>lp. make_layer exact_arith wide_strategy 274 = Ok lp \<and> regress exact_arith lp (replicate 10 (Fin 1)) (replicate 10 (Fin 2)) = no_stat"
proof -
  obtain lp where lp: "make_layer exact_arith wide_strategy 274 = Ok lp" "ly_n_bins lp = 10" using wide_layers by blast
  have V: "sq_err (line_points 10 (\<lambda>j. 1) (\<lambda>j. 2)) ((\<Sum>(x, y)\<leftarrow>line_points 10 (\<lambda>j. 1) (\<lambda>j. 2). y) / 10) 0 = 0"
    by (simp add: line_points_def sq_err_def comp_def sum_list_triv)
  from window_line_least_squares [OF lp(1), of "replicate 10 (Fin 1)" "\<lambda>j. 1" "replicate 10 (Fin 2)" "\<lambda>j. 2"] V
  have "regress exact_arith lp (replicate 10 (Fin 1)) (replicate 10 (Fin 2)) = no_stat" by (auto simp: lp(2) Let_def)
  with lp(1) show ?thesis by blast
qed

end
