(* ===== verification/Stops.thy ===== *)
theory Stops
  imports Layers
begin

text \<open>
  What can stop the weight search (\<open>cpp/src/mine/mine.cpp\<close>). The assertions of the program fall into two groups. Those on the data - a factor that is not
  finite, a close that is not positive, equal scores around a cut, a portfolio or a layer that loses its value - fail with the data. Those on the work of the
  program itself - the mass of the buckets, the two scans of a pool, the number of names that are kept, the positions of the kernel - cannot fail. The sections
  below show the second for one operation after another, in rounded arithmetic and not only in the exact one of theory Layers: the error of the double is far
  below one member, so the sweep over the buckets always ends in the last layer, and its inner loop always ends.
\<close>

section \<open>The sweep in rounded arithmetic\<close>

text \<open>How far the sweep is when \<open>m\<close> members are dealt: unless it is in the last layer, the layers that are full and what the current one has make up for \<open>m\<close>,
  but for an error \<open>E\<close>.\<close>

definition on_track :: "nat \<Rightarrow> real \<Rightarrow> real \<Rightarrow> real \<Rightarrow> sweep \<Rightarrow> bool" where
  "on_track nb P m E s \<longleftrightarrow> sw_bin s \<le> nb - 1 \<and>
     (sw_bin s < nb - 1 \<longrightarrow> (\<exists>q. sw_need s = Fin q \<and> 0 \<le> q \<and> q \<le> 2 ^ 20 \<and> m \<le> real (sw_bin s) * P + (P - q) + E))"

definition ulps :: "real \<Rightarrow> real" where "ulps k = k / 2 ^ 32"

lemma close_on_track:
  assumes "sw_bin s < nb - 1" "sw_need s = Fin q" "0 \<le> q" "q \<le> 2 ^ 20" "m \<le> real (sw_bin s) * P + (P - q) + E" "0 \<le> P" "P \<le> 2 ^ 20"
  shows "on_track nb P m E (close_layer ar (Fin P) s)" "sw_bin s \<le> sw_bin (close_layer ar (Fin P) s)"
    "sw_bin (close_layer ar (Fin P) s) = (if fle (Fin q) (double ar (1 / 10 ^ 9)) then sw_bin s + 1 else sw_bin s)"
  using assms by (auto simp: on_track_def close_layer_def algebra_simps)

lemma spread_on_track:
  assumes "close_rounding (double ar)" "0 \<le> P" "P \<le> 2 ^ 20" "0 < nb"
  shows "on_track nb P (m - x) E s \<Longrightarrow> 0 \<le> x \<Longrightarrow> x \<le> 2 ^ 20 \<Longrightarrow> nb + 1 \<le> k + sw_bin s \<Longrightarrow>
     \<exists>t. spread k ar nb (Fin P) mean (Fin x) s = Ok t \<and> sw_bin s \<le> sw_bin t \<and>
       on_track nb P m (E + ulps (2 * real (sw_bin t) - 2 * real (sw_bin s) + 4)) t"
proof (induction k arbitrary: x E s)
  case 0
  then show ?case using assms(4) by (auto simp: on_track_def)
next
  case (Suc k)
  let ?D = "double ar"
  note D = assms(1) [unfolded close_rounding_def, THEN conjunct1] and near = close_rounding.rnd_range [OF assms(1)]
  obtain tiny where tiny: "?D (1 / 10 ^ 12) = Fin tiny" "0 \<le> tiny" "tiny \<le> 2 / 2 ^ 32" using near [of "1 / 10 ^ 12"] by auto
  have slack: "fle (Fin 0) (?D (1 / 10 ^ 9))" by (rule fle_rnd [OF D]) simp
  have sub0: "fsub ?D (Fin a) (Fin a) = Fin 0" for a using rounding.rnd_0 [OF D] by (simp add: fsub_def)
  note b = Suc.prems(1) [unfolded on_track_def, THEN conjunct1]
  show ?case
  proof (cases "tiny < x")
    case False
    then have x: "x \<le> ulps 4" using tiny(3) by (simp add: ulps_def)
    have "spread (Suc k) ar nb (Fin P) mean (Fin x) s = Ok s" using False by (simp add: tiny(1) [simplified] Let_def)
    moreover have "on_track nb P m (E + ulps 4) s" using Suc.prems(1) x by (auto simp: on_track_def)
    ultimately show ?thesis by simp
  next
    case more: True
    show ?thesis
    proof (cases "sw_bin s = nb - 1")
      case True
      then show ?thesis using more by (simp add: tiny(1) [simplified] Let_def on_track_def)
    next
      case False
      then have s: "sw_bin s < nb - 1" using b by simp
      then obtain q where q: "sw_need s = Fin q" "0 \<le> q" "q \<le> 2 ^ 20" "m - x \<le> real (sw_bin s) * P + (P - q) + E"
        using Suc.prems(1) by (auto simp: on_track_def)
      let ?sh = "std_min (Fin x) (Fin q)"
      let ?s1 = "s\<lparr>sw_accr := fadd ?D (sw_accr s) (fmul ?D ?sh mean), sw_need := fsub ?D (Fin q) ?sh\<rparr>"
      have run: "spread (Suc k) ar nb (Fin P) mean (Fin x) s = spread k ar nb (Fin P) mean (fsub ?D (Fin x) ?sh) (close_layer ar (Fin P) ?s1)"
        using more False q(1) by (simp add: tiny(1) [simplified] Let_def)
      show ?thesis
      proof (cases "q < x")
        case True
        then have sh: "?sh = Fin q" by (simp add: std_min_def)
        from near [of "x - q"] True q(2) Suc.prems(3) obtain x' where x': "?D (x - q) = Fin x'" "0 \<le> x'" "x' \<le> 2 ^ 20" "x' \<le> x - q + 1 / 2 ^ 32" "x - q \<le> x' + 1 / 2 ^ 32" by auto
        have s1: "sw_bin ?s1 < nb - 1" "sw_need ?s1 = Fin 0" "m - x' \<le> real (sw_bin ?s1) * P + (P - 0) + (E + ulps 1)"
          using s q(4) x'(4,5) by (simp_all add: sh sub0 ulps_def)
        note c = close_on_track [OF s1(1,2) order_refl _ s1(3) assms(2,3), of ar]
        have bin: "sw_bin (close_layer ar (Fin P) ?s1) = sw_bin s + 1" using c(3) slack by simp
        have "on_track nb P (m - x') (E + ulps 1) (close_layer ar (Fin P) ?s1)" using c(1) by simp
        from Suc.IH [OF this x'(2,3)] Suc.prems(4) obtain t where t: "spread k ar nb (Fin P) mean (Fin x') (close_layer ar (Fin P) ?s1) = Ok t"
          "sw_bin s + 1 \<le> sw_bin t" "on_track nb P m (E + ulps 1 + ulps (2 * real (sw_bin t) - 2 * real (sw_bin s + 1) + 4)) t"
          unfolding bin by auto
        have "E + ulps 1 + ulps (2 * real (sw_bin t) - 2 * real (sw_bin s + 1) + 4) \<le> E + ulps (2 * real (sw_bin t) - 2 * real (sw_bin s) + 4)"
          by (simp add: ulps_def)
        then have "on_track nb P m (E + ulps (2 * real (sw_bin t) - 2 * real (sw_bin s) + 4)) t" using t(3) by (auto simp: on_track_def)
        then show ?thesis using t(1,2) x'(1) unfolding run sh by (auto simp: fsub_def)
      next
        case False
        then have sh: "?sh = Fin x" by (simp add: std_min_def)
        from near [of "q - x"] False q(3) Suc.prems(2) obtain q' where q': "?D (q - x) = Fin q'" "0 \<le> q'" "q' \<le> 2 ^ 20" "q' \<le> q - x + 1 / 2 ^ 32" "q - x \<le> q' + 1 / 2 ^ 32" by auto
        have s1: "sw_bin ?s1 < nb - 1" "sw_need ?s1 = Fin q'" "m \<le> real (sw_bin ?s1) * P + (P - q') + (E + ulps 1)"
          using s q(4) q'(1,4,5) by (simp_all add: sh fsub_def ulps_def)
        let ?t = "close_layer ar (Fin P) ?s1"
        note c = close_on_track [OF s1(1,2) q'(2,3) s1(3) assms(2,3), of ar]
        obtain j where j: "k = Suc j" using Suc.prems(4) s by (cases k) auto
        have "spread k ar nb (Fin P) mean (Fin 0) ?t = Ok ?t" using tiny(2) unfolding j by (simp add: tiny(1) [simplified] Let_def)
        moreover have "sw_bin s \<le> sw_bin ?t" using c(2) by simp
        moreover from this have "E + ulps 1 \<le> E + ulps (2 * real (sw_bin ?t) - 2 * real (sw_bin s) + 4)" by (simp add: ulps_def)
        then have "on_track nb P m (E + ulps (2 * real (sw_bin ?t) - 2 * real (sw_bin s) + 4)) ?t" using c(1) by (auto simp: on_track_def)
        ultimately show ?thesis unfolding run sh sub0 by blast
      qed
    qed
  qed
qed

lemma cell_on_track:
  assumes "close_rounding (double ar)" "0 \<le> P" "P \<le> 2 ^ 20" "0 < nb" "on_track nb P m E s" "hc_cnt cell \<le> 2 ^ 20"
  shows "\<exists>t. sweep_cell ar nb (Fin P) s cell = Ok t \<and> sw_bin s \<le> sw_bin t \<and>
    on_track nb P (m + real (hc_cnt cell)) (E + ulps (2 * real (sw_bin t) - 2 * real (sw_bin s) + 4)) t"
proof -
  let ?D = "double ar" and ?c = "real (hc_cnt cell)"
  note D = assms(1) [unfolded close_rounding_def, THEN conjunct1] and near = close_rounding.rnd_range [OF assms(1)]
  have c: "?D ?c = Fin ?c" "0 \<le> ?c" "?c \<le> 2 ^ 20" using rounding.rnd_nat [OF D, of "hc_cnt cell"] assms(6) by simp_all
  note b = assms(5) [unfolded on_track_def, THEN conjunct1]
  show ?thesis
  proof (cases "sw_bin s = nb - 1")
    case True
    then show ?thesis by (simp add: sweep_cell_def Let_def on_track_def)
  next
    case False
    then have s: "sw_bin s < nb - 1" using b by simp
    then obtain q where q: "sw_need s = Fin q" "0 \<le> q" "q \<le> 2 ^ 20" "m \<le> real (sw_bin s) * P + (P - q) + E"
      using assms(5) by (auto simp: on_track_def)
    show ?thesis
    proof (cases "?c \<le> q")
      case True
      from near [of "q - ?c"] True q(3) c(2) obtain q' where q': "?D (q - ?c) = Fin q'" "0 \<le> q'" "q' \<le> 2 ^ 20" "q' \<le> q - ?c + 1 / 2 ^ 32" "q - ?c \<le> q' + 1 / 2 ^ 32" by auto
      let ?s1 = "s\<lparr>sw_accr := fadd ?D (sw_accr s) (hc_sum cell), sw_need := fsub ?D (Fin q) (Fin ?c)\<rparr>"
      have s1: "sw_bin ?s1 < nb - 1" "sw_need ?s1 = Fin q'" "m + ?c \<le> real (sw_bin ?s1) * P + (P - q') + (E + ulps 1)"
        using s q(4) q'(1,4,5) by (simp_all add: fsub_def ulps_def)
      let ?t = "close_layer ar (Fin P) ?s1"
      note cl = close_on_track [OF s1(1,2) q'(2,3) s1(3) assms(2,3), of ar]
      have "sweep_cell ar nb (Fin P) s cell = Ok ?t" using False True c(1) q(1) by (simp add: sweep_cell_def Let_def)
      moreover have "sw_bin s \<le> sw_bin ?t" using cl(2) by simp
      moreover from this have "E + ulps 1 \<le> E + ulps (2 * real (sw_bin ?t) - 2 * real (sw_bin s) + 4)" by (simp add: ulps_def)
      then have "on_track nb P (m + ?c) (E + ulps (2 * real (sw_bin ?t) - 2 * real (sw_bin s) + 4)) ?t" using cl(1) by (auto simp: on_track_def)
      ultimately show ?thesis by blast
    next
      case more: False
      have "on_track nb P (m + ?c - ?c) E s" using assms(5) by simp
      from spread_on_track [OF assms(1-4) this c(2,3), of "nb + 2" "fdiv ?D (hc_sum cell) (Fin ?c)"]
      show ?thesis using False more c(1) q(1) by (simp add: sweep_cell_def Let_def del: spread.simps)
    qed
  qed
qed

lemma cells_on_track:
  assumes "close_rounding (double ar)" "0 \<le> P" "P \<le> 2 ^ 20" "0 < nb" "on_track nb P m E s" "\<forall>c\<in>set cs. hc_cnt c \<le> 2 ^ 20"
  shows "\<exists>t. fold_ok (sweep_cell ar nb (Fin P)) s cs = Ok t \<and> sw_bin s \<le> sw_bin t \<and>
    on_track nb P (m + real (\<Sum>c\<leftarrow>cs. hc_cnt c)) (E + ulps (2 * real (sw_bin t) - 2 * real (sw_bin s) + 4 * real (length cs))) t"
  using assms(5,6)
proof (induction cs arbitrary: m E s)
  case Nil
  then show ?case by (simp add: ulps_def)
next
  case (Cons c cs)
  from cell_on_track [OF assms(1-4) Cons.prems(1)] Cons.prems(2) obtain u where u: "sweep_cell ar nb (Fin P) s c = Ok u" "sw_bin s \<le> sw_bin u"
    "on_track nb P (m + real (hc_cnt c)) (E + ulps (2 * real (sw_bin u) - 2 * real (sw_bin s) + 4)) u" by auto
  from Cons.IH [OF u(3)] Cons.prems(2) obtain t where t: "fold_ok (sweep_cell ar nb (Fin P)) u cs = Ok t" "sw_bin u \<le> sw_bin t"
    "on_track nb P (m + real (hc_cnt c) + real (\<Sum>c\<leftarrow>cs. hc_cnt c)) (E + ulps (2 * real (sw_bin u) - 2 * real (sw_bin s) + 4) +
       ulps (2 * real (sw_bin t) - 2 * real (sw_bin u) + 4 * real (length cs))) t" by auto
  have "E + ulps (2 * real (sw_bin u) - 2 * real (sw_bin s) + 4) + ulps (2 * real (sw_bin t) - 2 * real (sw_bin u) + 4 * real (length cs)) =
      E + ulps (2 * real (sw_bin t) - 2 * real (sw_bin s) + 4 * real (length (c # cs)))" by (simp add: ulps_def field_simps)
  with t u show ?case by (auto simp: add.assoc)
qed

text \<open>Every bucket is dealt out, and the sweep ends in the last layer.\<close>

lemma cells_total:
  assumes "\<forall>p\<in>set ms. fst p < N_BUCKETS"
  shows "(\<Sum>c\<leftarrow>cells_of ar ms. hc_cnt c) = length ms" "length (cells_of ar ms) \<le> N_BUCKETS"
proof -
  have "(\<Sum>c\<leftarrow>cells_of ar ms. hc_cnt c) = (\<Sum>h\<leftarrow>[0..<N_BUCKETS]. hc_cnt (cell_of ar ms h))"
    unfolding cells_of_def map_map comp_def by (rule sum_list_filter_zero) simp
  also have "\<dots> = (\<Sum>h<N_BUCKETS. \<Sum>p\<leftarrow>filter (\<lambda>p. fst p = h) ms. 1)"
    by (simp add: interv_sum_list_conv_sum_set_nat atLeast0LessThan cell_count sum_list_triv)
  also have "\<dots> = length ms" unfolding buckets_total [OF assms] by (simp add: sum_list_triv)
  finally show "(\<Sum>c\<leftarrow>cells_of ar ms. hc_cnt c) = length ms" .
  show "length (cells_of ar ms) \<le> N_BUCKETS" unfolding cells_of_def using length_filter_le [of _ "[0..<N_BUCKETS]"] by simp
qed

lemma few_ulps: "a \<le> 1024 \<Longrightarrow> c \<le> 2 ^ 20 \<Longrightarrow> b + 1 \<le> c - 1 \<Longrightarrow> c / 2 ^ 32 + ulps (2 * b + 4 * a) < 1"
  by (simp add: ulps_def add_divide_distrib [symmetric])

lemma day_rets_total:
  assumes "close_rounding (double ar)" "0 < nb" "nb \<le> vcnt st t" "vcnt st t \<le> 2 ^ 20" "length (vfret_row st t) = vcnt st t"
  shows "\<exists>r. day_rets ar nf st nb t pl = Ok r"
proof -
  let ?D = "double ar" and ?n = "vcnt st t" and ?ms = "members_of ar nf st t pl"
  note D = assms(1) [unfolded close_rounding_def, THEN conjunct1]
  have nb: "real nb \<le> real ?n" "0 < real nb" "real ?n \<le> 2 ^ 20" using assms(2-4) by simp_all
  then have q: "1 \<le> real ?n / real nb" "real ?n / real nb \<le> real ?n" by (simp_all add: field_simps)
  then obtain P where P: "?D (real ?n / real nb) = Fin P" "0 \<le> P" "P \<le> 2 ^ 20" "P \<le> real ?n / real nb + 1 / 2 ^ 32"
    using close_rounding.rnd_range [OF assms(1), of "real ?n / real nb"] nb(3) by auto
  have per: "layer_size ar st t nb = Fin P"
    using rounding.rnd_nat [OF D, of ?n] rounding.rnd_nat [OF D, of nb] assms(2-4) P(1) by (simp add: layer_size_def)
  have len: "length ?ms = ?n" by (simp add: members_of_def bucket_numbers_length layer_scores_length assms(5))
  have lt: "\<forall>p\<in>set ?ms. fst p < N_BUCKETS" using bucket_less by (fastforce simp: members_of_def dest: set_zip_leftD)
  note C = cells_total [OF lt, of ar, unfolded len]
  have small: "\<forall>c\<in>set (cells_of ar ?ms). hc_cnt c \<le> 2 ^ 20"
  proof
    fix c assume "c \<in> set (cells_of ar ?ms)"
    then have "hc_cnt c \<le> (\<Sum>c\<leftarrow>cells_of ar ?ms. hc_cnt c)" by (intro member_le_sum_list) simp_all
    then show "hc_cnt c \<le> 2 ^ 20" using C(1) assms(4) by simp
  qed
  have "on_track nb P 0 0 (first_layer (Fin P) (replicate nb (Fin 0)))" using P(2,3) by (simp add: on_track_def first_layer_def)
  from cells_on_track [OF assms(1) P(2,3) assms(2) this small] obtain s where s: "fold_ok (sweep_cell ar nb (Fin P)) (first_layer (Fin P) (replicate nb (Fin 0))) (cells_of ar ?ms) = Ok s"
    "on_track nb P (real ?n) (ulps (2 * real (sw_bin s) + 4 * real (length (cells_of ar ?ms)))) s" by (auto simp: C(1) first_layer_def)
  have "sw_bin s = nb - 1"
  proof (rule ccontr)
    assume "sw_bin s \<noteq> nb - 1"
    with s(2) obtain q where w: "sw_bin s < nb - 1" "0 \<le> q" "real ?n \<le> real (sw_bin s) * P + (P - q) + ulps (2 * real (sw_bin s) + 4 * real (length (cells_of ar ?ms)))"
      by (auto simp: on_track_def)
    have bin: "real (sw_bin s) + 1 \<le> real nb - 1" using w(1) by linarith
    then have "(real (sw_bin s) + 1) * P \<le> (real nb - 1) * P" using P(2) by (intro mult_right_mono) simp_all
    then have "real (sw_bin s) * P + (P - q) \<le> (real nb - 1) * P" using w(2) by (simp add: algebra_simps)
    also have "\<dots> \<le> (real nb - 1) * (real ?n / real nb + 1 / 2 ^ 32)" using P(4) bin by (intro mult_left_mono) simp_all
    also have "\<dots> \<le> real ?n - real ?n / real nb + real nb / 2 ^ 32" using nb(2) by (simp add: field_simps)
    finally have w4: "real ?n / real nb \<le> real nb / 2 ^ 32 + ulps (2 * real (sw_bin s) + 4 * real (length (cells_of ar ?ms)))" using w(3) by linarith
    have "real (length (cells_of ar ?ms)) \<le> 1024" using C(2) by (simp add: N_BUCKETS_def)
    moreover have "real nb \<le> 2 ^ 20" using nb by linarith
    ultimately have "real nb / 2 ^ 32 + ulps (2 * real (sw_bin s) + 4 * real (length (cells_of ar ?ms))) < 1" using bin by (rule few_ulps)
    with w4 have "real ?n / real nb < 1" by linarith
    then show False using q(1) by linarith
  qed
  then show ?thesis using s(1) by (simp add: day_rets_def per Let_def)
qed

section \<open>The layers\<close>

text \<open>With enough members on every day.\<close>

definition well_filled :: "pr_store \<Rightarrow> layer_params \<Rightarrow> bool" where
  "well_filled st lp \<longleftrightarrow> 0 < ly_n_bins lp \<and>
     (\<forall>t<ly_n_ret lp. ly_n_bins lp \<le> vcnt st t \<and> vcnt st t \<le> 2 ^ 20 \<and> length (vfret_row st t) = vcnt st t)"

lemma move_lane_stops:
  assumes "clean_scratch nb sc" "0 < nb" "day_rets ar nf st nb t pl = Ok r" "move_lane ar nf st nb t sc (b, pl) = Fail e"
  shows "e = LayerNavNotPositive"
  using assms(4) by (auto simp: move_lane_def layer_rets_clean(1) [OF assms(1,2)] assms(3) bind_ok_Fail_iff compound_layers_def Let_def
      dest!: map_ok_error split: if_splits)

lemma layer_day_stops:
  assumes "batch_ok ar nf st lp plans t sc" "0 < ly_n_bins lp" "\<And>pl. \<exists>r. day_rets ar nf st (ly_n_bins lp) t pl = Ok r"
    "layer_day ar nf st lp plans sc t = Fail e"
  shows "e = LayerNavNotPositive"
proof -
  let ?nb = "ly_n_bins lp" and ?bps = "enumerate 0 plans"
  have c: "clean_scratch ?nb sc" "length plans \<le> length (ls_lanes sc)" using assms(1) by (simp_all add: batch_ok_def scratch_ready_def)
  from assms(4) have "fold_ok (move_lane ar nf st ?nb t) sc ?bps = Fail e" by (auto simp: layer_day_def bind_ok_Fail_iff)
  from fold_ok_stops_at [OF this] obtain ys x zs u where *: "?bps = ys @ x # zs" "fold_ok (move_lane ar nf st ?nb t) sc ys = Ok u"
    "move_lane ar nf st ?nb t u x = Fail e" by blast
  have "distinct (map fst ?bps)" by (simp add: enumerate_eq_zip)
  then have d: "distinct (map fst ys)" by (simp add: *(1))
  have "\<forall>p\<in>set ?bps. fst p < length plans" by (auto simp: in_set_enumerate_eq)
  moreover have "set ys \<subseteq> set ?bps" unfolding *(1) by auto
  ultimately have "\<forall>p\<in>set ys. fst p < length (ls_lanes sc)" using c(2) by (meson less_le_trans subsetD)
  from move_lanes_clean(1) [OF assms(2) d c(1) this *(2)] have "clean_scratch ?nb u" by blast
  moreover obtain b pl where x: "x = (b, pl)" by (cases x)
  moreover obtain r where "day_rets ar nf st ?nb t pl = Ok r" using assms(3) by blast
  ultimately show ?thesis using move_lane_stops [OF _ assms(2)] *(3) by blast
qed

lemma run_layer_batch_stops:
  assumes "close_rounding (double ar)" "well_filled st lp" "scratch_ready lp sc" "length plans \<le> length (ls_lanes sc)"
    "run_layer_batch ar nf st lp plans sc = Fail e"
  shows "e = LayerNavNotPositive"
proof -
  have nb: "0 < ly_n_bins lp" using assms(2) by (simp add: well_filled_def)
  let ?s0 = "sc\<lparr>ls_lanes := begin_lanes lp (length plans) (ls_lanes sc)\<rparr>"
  from assms(5) have "fold_ok (layer_day ar nf st lp plans) ?s0 [0..<ly_n_ret lp] = Fail e"
    by (auto simp: run_layer_batch_def bind_ok_Fail_iff Let_def)
  from fold_ok_upt_stops [OF this] obtain t s where t: "t < ly_n_ret lp" "fold_ok (layer_day ar nf st lp plans) ?s0 [0..<t] = Ok s"
    "layer_day ar nf st lp plans s t = Fail e" by blast
  note b = conjunct1 [OF layer_days_ok(1) [OF begin_ok [OF assms(3,4)] nb t(2)]]
  have "\<exists>r. day_rets ar nf st (ly_n_bins lp) t pl = Ok r" for pl
    using day_rets_total [OF assms(1) nb] assms(2) t(1) by (simp add: well_filled_def)
  from layer_day_stops [OF b nb this t(3)] show ?thesis .
qed

section \<open>The portfolios\<close>

text \<open>What a day adds to the positions.\<close>

lemma step_positions:
  fixes e :: engine
  assumes "step ar sorter mk i cands e = Ok e'" "p \<in> set (en_holdings e')"
  shows "po_a p \<in> po_a ` set (en_holdings e) \<or> po_a p \<in> snd ` set cands \<and> is_finite (close_at mk i (po_a p))"
proof -
  from step_split [OF assms(1)] obtain e1 where e1: "liquidate ar mk i (e\<lparr>en_turn_amt := Fin 0, en_events := []\<rparr>) = Ok e1"
    "close_day ar mk i (trade ar sorter mk i cands (e1\<lparr>en_pv := fadd (double ar) (en_cash e1) (market_value ar mk i (en_holdings e1))\<rparr>)) = Ok e'" .
  let ?e2 = "e1\<lparr>en_pv := fadd (double ar) (en_cash e1) (market_value ar mk i (en_holdings e1))\<rparr>"
  let ?hs = "marked ar mk i cands ?e2"
  note L = liquidate_fields [OF e1(1)] and C = close_day_fields [OF e1(2)]
  obtain bs :: "pos list" where bs: "map po_a (en_holdings e') = map po_a (filter (kept mk i) ?hs @ bs)"
    "subseq (map po_a bs) (buy_list mk i cands (sell_intents ar mk i cands ?e2))" "list_all (\<lambda>p. \<not> no_price (close_at mk i (po_a p))) bs"
    using trade_effect(1) [of ar sorter mk i cands ?e2] C(1,3) by auto
  have hs: "map po_a ?hs = map po_a (filter (\<lambda>p. \<not> has_flag (flags_at mk i (po_a p)) DELISTED) (en_holdings e))"
    using L(1) by (simp add: map_marked)
  have "po_a ` set ?hs \<subseteq> po_a ` set (en_holdings e)" using arg_cong [OF hs, of set] by auto
  then have old: "po_a ` set (filter (kept mk i) ?hs) \<subseteq> po_a ` set (en_holdings e)" by auto
  have "po_a p \<in> set (map po_a (en_holdings e'))" using assms(2) by simp
  then have "po_a p \<in> po_a ` set (filter (kept mk i) ?hs) \<or> po_a p \<in> po_a ` set bs" unfolding bs(1) by (simp only: map_append set_append set_map Un_iff)
  then show ?thesis
  proof
    assume "po_a p \<in> po_a ` set bs"
    then obtain q where q: "q \<in> set bs" "po_a p = po_a q" by blast
    then have "po_a q \<in> set (buy_list mk i cands (sell_intents ar mk i cands ?e2))" using subseq_set [OF bs(2)] by auto
    then have "po_a q \<in> set (map snd cands)" using subseq_set [OF pick_buys_subseq] unfolding buy_list_def Let_def by blast
    with q bs(3) show ?thesis by (auto simp: list_all_iff no_price_def)
  qed (use old in blast)
qed

lemma lift_error_Fail_iff: "lift_error h r = Fail e \<longleftrightarrow> (\<exists>x. r = Fail x \<and> e = h x)"
  by (cases r) auto

text \<open>Every position is an instrument of the market with a close on the day before.\<close>

definition priced :: "market_window \<Rightarrow> nat \<Rightarrow> engine \<Rightarrow> bool" where
  "priced mk i e \<longleftrightarrow> (\<forall>p\<in>set (en_holdings e). po_a p < mk_n_a mk \<and> 0 < i \<and> is_finite (close_at mk (i - 1) (po_a p)))"

definition stocked :: "market_window \<Rightarrow> pr_store \<Rightarrow> bool" where
  "stocked mk st \<longleftrightarrow> mk_n_d mk = sr_n_d st \<and> closes_stay mk \<and>
     (\<forall>i < sr_n_d st. distinct (day_members st i) \<and> length (day_members st i) = cnt st i \<and> set (day_members st i) \<subseteq> {..<mk_n_a mk})"

lemma priced_now: "stocked mk st \<Longrightarrow> i < sr_n_d st \<Longrightarrow> priced mk i e \<Longrightarrow> p \<in> set (en_holdings e) \<Longrightarrow> is_finite (close_at mk i (po_a p))"
  by (cases i) (auto simp: stocked_def priced_def closes_stay_def)

lemma select_top_stops: "select_top ar blk mem n pl k = Fail e \<Longrightarrow> k \<le> n \<Longrightarrow> e = MarginTie"
  by (auto simp: select_top_def Let_def split: if_splits)

lemma lane_day_priced:
  assumes "stocked mk st" "i < sr_n_d st" "priced mk i (ln_engine l)"
  shows "lane_day ar sorter mk nf st k i (pl, l) = Ok l' \<Longrightarrow> priced mk (Suc i) (ln_engine l')"
    "lane_day ar sorter mk nf st k i (pl, l) = Fail e \<Longrightarrow> e \<in> {MarginTie, BatchEngine NoValue, BatchEngine TooManyHoldings}"
proof -
  let ?k = "min (cnt st i) k"
  have now: "\<forall>p\<in>set (en_holdings (ln_engine l)). is_finite (close_at mk i (po_a p))" using priced_now [OF assms] by blast
  have m: "distinct (day_members st i)" "length (day_members st i) = cnt st i" "set (day_members st i) \<subseteq> {..<mk_n_a mk}" "i < mk_n_d mk"
    using assms(1,2) by (simp_all add: stocked_def)
  {
    assume "lane_day ar sorter mk nf st k i (pl, l) = Ok l'"
    then obtain sel where sel: "select_top ar (block nf st i) (day_members st i) (cnt st i) pl ?k = Ok sel"
      "step ar sorter mk i (take ?k sel) (ln_engine l) = Ok (ln_engine l')"
      by (auto simp: lane_day_def Let_def bind_ok_Ok_iff lift_error_Ok_iff)
    have names: "snd ` set (take ?k sel) \<subseteq> {..<mk_n_a mk}"
      using select_top_names(3) [OF sel(1) m(1,2)] m(3) by (cases "0 < ?k") auto
    show "priced mk (Suc i) (ln_engine l')" unfolding priced_def
    proof
      fix p assume "p \<in> set (en_holdings (ln_engine l'))"
      from step_positions [OF sel(2) this] show "po_a p < mk_n_a mk \<and> 0 < Suc i \<and> is_finite (close_at mk (Suc i - 1) (po_a p))"
      proof
        assume "po_a p \<in> po_a ` set (en_holdings (ln_engine l))"
        then obtain q where "q \<in> set (en_holdings (ln_engine l))" "po_a p = po_a q" by blast
        with now assms(3) show ?thesis by (simp add: priced_def)
      qed (use names in auto)
    qed
  }
  assume "lane_day ar sorter mk nf st k i (pl, l) = Fail e"
  then consider "select_top ar (block nf st i) (day_members st i) (cnt st i) pl ?k = Fail e"
    | sel x where "step ar sorter mk i (take ?k sel) (ln_engine l) = Fail x" "e = BatchEngine x"
    by (cases "select_top ar (block nf st i) (day_members st i) (cnt st i) pl ?k") (auto simp: lane_day_def Let_def bind_ok_Fail_iff lift_error_Fail_iff)
  then show "e \<in> {MarginTie, BatchEngine NoValue, BatchEngine TooManyHoldings}"
  proof cases
    case 2
    from step_errors [OF 2(1) m(4) now] 2(2) show ?thesis by auto
  qed (simp add: select_top_stops)
qed

lemma drawdown_positive: "fless (Fin 0) p \<Longrightarrow> drawdown_loop ar p nav \<noteq> Fail e"
proof (induction nav arbitrary: p)
  case (Cons v nav)
  have "fless (Fin 0) (std_max p v)" using Cons.prems fless_trans [of "Fin 0" p v] by (auto simp: std_max_def)
  then show ?case using Cons.IH [of "std_max p v"] by (auto simp: Let_def bind_ok_Fail_iff)
qed simp

lemma nav_stats_stops:
  assumes "nav_stats_of ar nav = Fail e"
  shows "e \<in> {FirstNotPositive, NavNotPositive}"
proof (cases nav)
  case (Cons v vs)
  show ?thesis
  proof (cases "fless (Fin 0) v")
    case True
    then have "std_max NInf v = v" by (cases v) (simp_all add: std_max_def)
    then have "drawdown_curve ar nav \<noteq> Fail x" for x
      using drawdown_positive [OF True, of ar vs] True by (auto simp: drawdown_curve_def Cons Let_def bind_ok_Fail_iff)
    then show ?thesis using assms True by (auto simp: nav_stats_of_def Cons daily_returns_def Let_def bind_ok_Fail_iff split: if_splits)
  qed (use assms in \<open>simp add: nav_stats_of_def Cons\<close>)
qed (use assms in \<open>simp add: nav_stats_of_def\<close>)

text \<open>The errors that only the data of the market can cause: equal scores around the cut, a pool that is too small, a layer or a portfolio that loses its value, or
  positions that cannot be sold and pile up.\<close>

definition outside :: "mine_error \<Rightarrow> bool" where
  "outside e \<longleftrightarrow> e \<in> {MarginTie, PoolBelowHold, LayerNavNotPositive, BatchEngine NoValue, BatchEngine TooManyHoldings,
     StatsError FirstNotPositive, StatsError NavNotPositive}"

lemma run_batch_outside:
  assumes "stocked mk st" "run_batch ar sorter mk nf st k plans engs = Fail e"
  shows "outside e"
proof -
  let ?f = "\<lambda>lns i. map_ok (lane_day ar sorter mk nf st k i) (zip plans lns)" and ?ls = "map (start_lane ar) (take (length plans) engs)"
  have inv: "\<forall>l\<in>set lns. priced mk i (ln_engine l)" if "fold_ok ?f ?ls [0..<i] = Ok lns" "i \<le> sr_n_d st" for i lns
    using that
  proof (induction i arbitrary: lns)
    case 0
    then show ?case by (auto simp: priced_def start_lane_def reset_def)
  next
    case (Suc i)
    then obtain ls where ls: "fold_ok ?f ?ls [0..<i] = Ok ls" "map_ok (lane_day ar sorter mk nf st k i) (zip plans ls) = Ok lns"
      by (auto simp: fold_ok_append bind_ok_Ok_iff)
    have p: "\<forall>l\<in>set ls. priced mk i (ln_engine l)" using Suc.IH [OF ls(1)] Suc.prems(2) by simp
    show ?case
    proof
      fix l assume "l \<in> set lns"
      then obtain j where j: "j < length lns" "l = lns ! j" by (auto simp: in_set_conv_nth)
      then have "j < length (zip plans ls)" using map_ok_length [OF ls(2)] by simp
      then have "lane_day ar sorter mk nf st k i (plans ! j, ls ! j) = Ok l" "ls ! j \<in> set ls" using map_ok_nth [OF ls(2), of j] j(2) by simp_all
      then show "priced mk (Suc i) (ln_engine l)" using lane_day_priced(1) [OF assms(1)] p Suc.prems(2) by (metis Suc_le_lessD)
    qed
  qed
  from assms(2) consider "batch_days ar sorter mk nf st k plans engs = Fail e" | lns where "map_ok (lane_metrics ar (sr_n_d st)) lns = Fail e"
    by (auto simp: run_batch_def bind_ok_Fail_iff)
  then show ?thesis
  proof cases
    case 1
    from fold_ok_upt_stops [OF 1 [unfolded batch_days_def]] obtain i lns where i: "i < sr_n_d st" "fold_ok ?f ?ls [0..<i] = Ok lns"
      "map_ok (lane_day ar sorter mk nf st k i) (zip plans lns) = Fail e" by blast
    from map_ok_error [OF i(3)] obtain pl l where l: "(pl, l) \<in> set (zip plans lns)" "lane_day ar sorter mk nf st k i (pl, l) = Fail e" by auto
    have "l \<in> set lns" using l(1) by (rule set_zip_rightD)
    then have "priced mk i (ln_engine l)" using inv [OF i(2)] i(1) by simp
    from lane_day_priced(2) [OF assms(1) i(1) this l(2)] show ?thesis by (auto simp: outside_def)
  next
    case 2
    from map_ok_error [OF this] obtain l where "lane_metrics ar (sr_n_d st) l = Fail e" by blast
    then have "lift_error StatsError (nav_stats_of ar (ln_navs l)) = Fail e" by (auto simp: lane_metrics_def Let_def bind_ok_Fail_iff)
    then obtain x where "nav_stats_of ar (ln_navs l) = Fail x" "e = StatsError x" by (cases "nav_stats_of ar (ln_navs l)") auto
    with nav_stats_stops show ?thesis by (auto simp: outside_def)
  qed
qed

section \<open>Plans, holdings and the store\<close>

text \<open>Every point of the lattice has a plan.\<close>

lemma grows_positive:
  assumes "format_rounding rnd" "s = PInf \<or> (\<exists>a. s = Fin a \<and> 0 < a \<and> rnd a = Fin a)" "0 \<le> b"
  shows "fadd rnd s (Fin b) = PInf \<or> (\<exists>c. fadd rnd s (Fin b) = Fin c \<and> 0 < c \<and> rnd c = Fin c)"
proof (cases "s = PInf")
  case False
  then obtain a where a: "s = Fin a" "0 < a" "rnd a = Fin a" using assms(2) by blast
  have "fle (Fin a) (rnd (a + b))" using rounding.rnd_mono [of rnd a "a + b"] assms(1,3) a(3) by (simp add: format_rounding_def)
  then show ?thesis using a format_rounding.rnd_idem [OF assms(1)] by (cases "rnd (a + b)") (auto simp: fle_def)
qed simp

lemma weights_add_up:
  assumes "format_rounding rnd" "\<forall>t\<in>set ts. \<exists>b. fabs (snd t) = Fin b \<and> 0 < b \<and> rnd b = Fin b" "ts \<noteq> []"
  shows "fless (Fin 0) (foldl (\<lambda>s t. fadd rnd s (fabs (snd t))) (Fin 0) ts)"
proof -
  have *: "foldl (\<lambda>s t. fadd rnd s (fabs (snd t))) s us = PInf \<or> (\<exists>a. foldl (\<lambda>s t. fadd rnd s (fabs (snd t))) s us = Fin a \<and> 0 < a \<and> rnd a = Fin a)"
    if "\<forall>t\<in>set us. \<exists>b. fabs (snd t) = Fin b \<and> 0 < b \<and> rnd b = Fin b" "s = PInf \<or> (\<exists>a. s = Fin a \<and> 0 < a \<and> rnd a = Fin a)" for s us
    using that
  proof (induction us arbitrary: s)
    case (Cons u us)
    then obtain b where b: "fabs (snd u) = Fin b" "0 \<le> b" by fastforce
    from Cons.IH [OF _ grows_positive [OF assms(1) Cons.prems(2) b(2)]] Cons.prems(1) show ?case by (simp add: b(1))
  qed simp
  obtain t us where t: "ts = t # us" using assms(3) by (cases ts) auto
  then obtain b where b: "fabs (snd t) = Fin b" "0 < b" "rnd b = Fin b" using assms(2) by auto
  have "fadd rnd (Fin 0) (Fin b) = Fin b" using b(3) by simp
  with * [of us "Fin b"] assms(2) b show ?thesis unfolding t by auto
qed

lemma plan_of_point:
  assumes "format_rounding (single ar)" "fless (Fin 0) (single ar (1 / real M))" "0 < M" "M \<le> 2 ^ 24" "on_lattice n (int M) k"
  shows "\<exists>pl. plan_from_k ar M k = Ok pl"
proof -
  let ?S = "single ar"
  have R: "rounding ?S" using assms(1) by (simp add: format_rounding_def)
  let ?w = "\<lambda>f. fdiv ?S (?S (of_int (k ! f))) (?S (real M))"
  have each: "\<bar>k ! f\<bar> \<le> int M" if "f < length k" for f
  proof -
    have "\<bar>k ! f\<bar> \<le> (\<Sum>x\<leftarrow>k. \<bar>x\<bar>)" using that by (intro member_le_sum_list) (auto intro: nth_mem)
    then show ?thesis using assms(5) by (simp add: on_lattice_def)
  qed
  have w: "\<exists>b. fabs (?w f) = Fin b \<and> 0 < b \<and> ?S b = Fin b" if f: "f < length k" "k ! f \<noteq> 0" for f
  proof -
    let ?x = "real_of_int \<bar>k ! f\<bar> / real M"
    have m: "?S (real M) = Fin (real M)" "?S (of_int (k ! f)) = Fin (of_int (k ! f))"
      using rounding.rnd_nat [OF R assms(4)] rounding.rnd_int [OF R, of "k ! f"] each [OF f(1)] assms(4) by simp_all
    have x: "1 / real M \<le> ?x" "0 \<le> ?x" "?x \<le> 1" using f(2) each [OF f(1)] assms(3) by (simp_all add: divide_right_mono)
    obtain b where b: "?S ?x = Fin b" "0 \<le> b" "b \<le> 1" using rounding.rnd_unit [OF R x(2,3)] by blast
    have "fle (?S (1 / real M)) (Fin b)" using rounding.rnd_mono [OF R x(1)] b(1) by simp
    then have "0 < b" using assms(2) by (cases "?S (1 / real M)") (auto simp: fle_def)
    moreover have "?S b = Fin b" by (rule format_rounding.rnd_idem [OF assms(1) b(1)])
    moreover have "fabs (?w f) = Fin b"
    proof (cases "0 < k ! f")
      case True
      then show ?thesis using m assms(3) b(1,2) by simp
    next
      case False
      then have "real_of_int (k ! f) / real M = - ?x" using f(2) by simp
      then show ?thesis using m assms(3) b(1,2) format_rounding.rnd_minus [OF assms(1), of ?x] by simp
    qed
    ultimately show ?thesis by blast
  qed
  have build: "\<exists>p. fold_ok (\<lambda>p f. if k ! f = 0 then Ok p else push_term (length k) f (?w f) p) new_plan [0..<m] = Ok p \<and>
      pl_wsum p = Fin 0 \<and> length (pl_terms p) \<le> m \<and> (pl_terms p = [] \<longleftrightarrow> (\<forall>f<m. k ! f = 0)) \<and>
      (\<forall>t\<in>set (pl_terms p). \<exists>b. fabs (snd t) = Fin b \<and> 0 < b \<and> ?S b = Fin b)" if "m \<le> length k" for m
    using that
  proof (induction m)
    case 0
    then show ?case by (simp add: new_plan_def)
  next
    case (Suc m)
    then obtain p where p: "fold_ok (\<lambda>p f. if k ! f = 0 then Ok p else push_term (length k) f (?w f) p) new_plan [0..<m] = Ok p" "pl_wsum p = Fin 0"
      "length (pl_terms p) \<le> m" "pl_terms p = [] \<longleftrightarrow> (\<forall>f<m. k ! f = 0)" "\<forall>t\<in>set (pl_terms p). \<exists>b. fabs (snd t) = Fin b \<and> 0 < b \<and> ?S b = Fin b" by auto
    show ?case
    proof (cases "k ! m = 0")
      case True
      then show ?thesis using p by (auto simp: fold_ok_append less_Suc_eq)
    next
      case False
      moreover have "length (pl_terms p) < length k" using p(3) Suc.prems by simp
      ultimately show ?thesis using p w [of m] Suc.prems by (auto simp: fold_ok_append push_term_def)
    qed
  qed
  from build [OF order_refl] obtain p where p: "fold_ok (\<lambda>p f. if k ! f = 0 then Ok p else push_term (length k) f (?w f) p) new_plan [0..<length k] = Ok p"
    "pl_wsum p = Fin 0" "pl_terms p = [] \<longleftrightarrow> (\<forall>f<length k. k ! f = 0)" "\<forall>t\<in>set (pl_terms p). \<exists>b. fabs (snd t) = Fin b \<and> 0 < b \<and> ?S b = Fin b" by blast
  have "pl_terms p \<noteq> []"
  proof
    assume "pl_terms p = []"
    then have "\<forall>x\<in>set k. x = 0" using p(3) by (simp add: all_set_conv_all_nth)
    then have "(\<Sum>x\<leftarrow>k. \<bar>x\<bar>) = 0" by (induction k) auto
    then show False using assms(3,5) by (simp add: on_lattice_def)
  qed
  with weights_add_up [OF assms(1) p(4)] show ?thesis by (simp add: plan_from_k_def p(1,2) seal_def Let_def)
qed

text \<open>What can stop the plan of a strategy's own weights.\<close>

lemma factor_column_found: "f \<in> set fs \<Longrightarrow> \<exists>c. factor_column fs f = Ok c"
proof -
  have "foldl (\<lambda>c j. if fs ! j = f then Some j else c) None [0..<n] = None \<Longrightarrow> \<forall>j<n. fs ! j \<noteq> f" for n
    by (induction n) (auto simp: less_Suc_eq split: if_splits)
  from this [of "length fs"] show "f \<in> set fs \<Longrightarrow> ?thesis" by (auto simp: factor_column_def in_set_conv_nth split: option.splits)
qed

lemma plan_of_weights_stops:
  assumes "format_rounding (single ar)" "weights_ok ar spec" "plan_of_weights ar fs (st_weights spec) = Fail e"
  shows "e \<in> {PlanFull, FactorNotMined} \<and> \<not> (fst ` set (st_weights spec) \<subseteq> set fs \<and> length (st_weights spec) \<le> length fs)"
proof -
  let ?ws = "st_weights spec" and ?f = "\<lambda>p (f, w). bind_ok (factor_column fs f) (\<lambda>c. push_term (length fs) c w p)"
  have push: "pl_wsum q = pl_wsum p \<and> map snd (pl_terms q) = map snd (pl_terms p) @ map snd us" if "fold_ok ?f p us = Ok q" for p q us
    using that
  proof (induction us arbitrary: p rule: list.induct)
    case (Cons u us)
    obtain f w where u: "u = (f, w)" by (cases u)
    from Cons.prems obtain p1 where p1: "?f p u = Ok p1" "fold_ok ?f p1 us = Ok q" by (auto simp: u bind_ok_Ok_iff)
    then have "pl_wsum p1 = pl_wsum p" "map snd (pl_terms p1) = map snd (pl_terms p) @ [w]"
      by (auto simp: u bind_ok_Ok_iff push_term_def split: if_splits)
    with Cons.IH [OF p1(2)] show ?case by (simp add: u)
  qed simp
  have sealed: "\<exists>p. seal ar q = Ok p" if "fold_ok ?f new_plan ?ws = Ok q" for q
  proof -
    from push [OF that] have q: "pl_wsum q = Fin 0" "map snd (pl_terms q) = map snd ?ws" by (simp_all add: new_plan_def)
    have "?ws \<noteq> []" using assms(2) by (simp add: weights_ok_def)
    then have "pl_terms q \<noteq> []" using q(2) by auto
    moreover have "foldl (\<lambda>s t. fadd (single ar) s (fabs (snd t))) (Fin 0) (pl_terms q) = foldl (\<lambda>s w. fadd (single ar) s (fabs w)) (Fin 0) (map snd (pl_terms q))"
      by (simp only: foldl_map)
    then have "foldl (\<lambda>s t. fadd (single ar) s (fabs (snd t))) (Fin 0) (pl_terms q) = weight_sum ar ?ws"
      unfolding q(2) by (simp add: weight_sum_def foldl_map)
    moreover obtain W where "weight_sum ar ?ws = Fin W" "0 < W" using weight_sum_pos [OF assms(1,2)] by blast
    ultimately show ?thesis by (simp add: seal_def Let_def q(1))
  qed
  have total: "\<exists>q. fold_ok ?f p us = Ok q" if "fst ` set us \<subseteq> set fs" "length (pl_terms p) + length us \<le> length fs" for p us
    using that
  proof (induction us arbitrary: p rule: list.induct)
    case (Cons u us)
    obtain f w where u: "u = (f, w)" by (cases u)
    then have "f \<in> set fs" using Cons.prems(1) by simp
    from factor_column_found [OF this] obtain c where c: "factor_column fs f = Ok c" by blast
    then have p: "?f p u = Ok (p\<lparr>pl_terms := pl_terms p @ [(c, w)]\<rparr>)" using Cons.prems(2) by (simp add: u push_term_def)
    have "\<exists>q. fold_ok ?f (p\<lparr>pl_terms := pl_terms p @ [(c, w)]\<rparr>) us = Ok q" by (rule Cons.IH) (use Cons.prems in simp_all)
    with p show ?case by simp
  qed simp
  have stops: "x \<in> {PlanFull, FactorNotMined}" if run: "fold_ok ?f new_plan ?ws = Fail x" for x
    by (rule fold_ok_error [OF _ run]) (auto simp: bind_ok_Fail_iff push_term_def factor_column_def split: prod.splits if_splits option.splits)
  have "e \<in> {PlanFull, FactorNotMined}"
  proof (cases "fold_ok ?f new_plan ?ws")
    case (Fail x)
    with stops [OF Fail] assms(3) show ?thesis by (auto simp: plan_of_weights_def split: if_splits)
  next
    case (Ok q)
    with sealed [OF Ok] assms(3) show ?thesis by (auto simp: plan_of_weights_def split: if_splits)
  qed
  moreover have "\<not> (fst ` set ?ws \<subseteq> set fs \<and> length ?ws \<le> length fs)"
  proof
    assume c: "fst ` set ?ws \<subseteq> set fs \<and> length ?ws \<le> length fs"
    with total [of ?ws new_plan] obtain q where q: "fold_ok ?f new_plan ?ws = Ok q" by (auto simp: new_plan_def)
    with sealed [OF q] c assms(3) show False by (auto simp: plan_of_weights_def)
  qed
  ultimately show ?thesis by blast
qed

text \<open>The holdings of a point.\<close>

lemma build_holdings_outside: "build_holdings ar nf st hn pl = Fail e \<Longrightarrow> outside e"
  by (auto simp: build_holdings_def holdings_day_def bind_ok_Fail_iff outside_def dest!: map_ok_error dest: select_top_stops split: if_splits)

text \<open>What can stop the store.\<close>

lemma fill_day_stops:
  assumes "length (pool_row ax T s (d_lo + i)) = cnt st i" "fill_day ar ax T mk s fs d_lo st i = Fail e"
  shows "e \<in> {MineFactorNotFinite, CloseNotPositive}"
  using assms by (auto simp: fill_day_def Let_def map_ok_ranks member_returns_cases bind_ok_Fail_iff split: if_splits)

lemma build_pr_stops:
  assumes "set ord2 = {..<n}" "set ord3 = {..<n}" "build_pr ar ord2 ord3 ax T mk s fs d_lo n = Fail e"
  shows "e \<in> {EmptyPool, MineFactorNotFinite, CloseNotPositive} \<and> \<not> pools_clean ax T mk s fs d_lo n"
proof -
  have nc: "\<not> pools_clean ax T mk s fs d_lo n" 
  proof
    assume "pools_clean ax T mk s fs d_lo n"
    from build_pr_cases(1) [OF assms(1,2) this] assms(3) show False by (metis outcome.distinct(1))
  qed
  let ?cs = "pool_counts ax T s d_lo n" and ?g = "\<lambda>i. length (pool_row ax T s (d_lo + i))"
  have "e \<in> {EmptyPool, MineFactorNotFinite, CloseNotPositive}"
  proof (cases "\<exists>c\<in>set ?cs. c = 0")
    case True
    then show ?thesis using assms(3) unfolding build_pr_def pool_offsets_cases by simp
  next
    case False
    let ?off = "map (start ?g) [0..<Suc n]" and ?z = "\<lambda>k. replicate k (Fin 0)"
    have off: "map (\<lambda>i. \<Sum>k<i. ?cs ! k) [0..<Suc (length ?cs)] = ?off"
      by (intro map_cong) (auto simp: pool_counts_def intro!: sum.cong)
    define s0 where "s0 = \<lparr>sr_n_d = n, sr_max_cnt = foldl max 0 ?cs, sr_off = ?off, sr_memb = replicate (start ?g n) 0, sr_pr = ?z (start ?g n * length fs),
      sr_fret = ?z (start ?g n), sr_voff = [], sr_vpr = [], sr_vfret = []\<rparr>"
    have sh: "shaped ?g n (length fs) s0" by (simp add: shaped_def s0_def)
    have last: "last ?off = start ?g n" by simp
    have run: "build_pr ar ord2 ord3 ax T mk s fs d_lo n = bind_ok (fold_ok (fill_day ar ax T mk s fs d_lo) s0 ord2) (\<lambda>st.
        fold_ok (fill_valid (length fs)) (st\<lparr>sr_voff := valid_offsets st, sr_vpr := ?z (last (valid_offsets st) * length fs), sr_vfret := ?z (last (valid_offsets st))\<rparr>) ord3)"
      unfolding build_pr_def pool_offsets_cases if_not_P [OF False] bind_ok.simps prod.case Let_def off last s0_def ..
    show ?thesis
    proof (cases "fold_ok (fill_day ar ax T mk s fs d_lo) s0 ord2")
      case (Fail x)
      have x: "x = e" using assms(3) unfolding run Fail by simp
      from fold_ok_stops_at [OF Fail] obtain ys i zs u where u: "ord2 = ys @ i # zs" "fold_ok (fill_day ar ax T mk s fs d_lo) s0 ys = Ok u"
        "fill_day ar ax T mk s fs d_lo u i = Fail x" by blast
      have "sr_off u = sr_off s0"
        by (rule fold_ok_invariant [where P = "\<lambda>v. sr_off v = sr_off s0", OF _ refl u(2)])
          (auto simp: fill_day_def Let_def bind_ok_Ok_iff split: if_splits)
      moreover have "i < n" using u(1) assms(1) by auto
      ultimately have "cnt u i = ?g i" by (simp add: cnt_def s0_def del: upt_Suc)
      from fill_day_stops [OF this [symmetric] u(3)] x show ?thesis by blast
    next
      case (Ok u)
      from pass_2(1) [OF sh assms(1) Ok] have "\<forall>i<n. day_clean ax T mk fs d_lo n i (pool_row ax T s (d_lo + i))" by blast
      moreover have "\<forall>i<n. pool_row ax T s (d_lo + i) \<noteq> []" using False by (force simp: pool_counts_def)
      ultimately show ?thesis using nc by (simp add: pools_clean_def)
    qed
  qed
  with nc show ?thesis by blast
qed

text \<open>What can stop the parameters of the layers.\<close>

lemma make_layer_stops:
  assumes "make_layer ar spec n = Fail e"
  shows "e \<in> {TooFewBins, WindowTooShort, TooFewWindows} \<and> (ps_universe_size (st_pool spec) div st_hold_n spec < 10 \<or> n < 274)"
  using assms by (auto simp: make_layer_def Let_def layer_sizes split: if_splits)

end
