(* ===== verification/Quiet.thy ===== *)
theory Quiet
  imports Stops
begin

text \<open>
  A year of data in which nothing moves, for the examples of theory Mining. The first half is a tensor of 274 days and 40 instruments that stay
  at the limit all the time; its columns satisfy what the search asks of a built tensor. The second half is a predicate, \<open>quiet\<close>, on what the
  search reads of such data (the market and the store), with the outcome of every step of the search on it: nothing can be bought, so
  every portfolio keeps its cash, and every layer keeps its value. The backtest and the store of the tensor are quiet.
\<close>

section \<open>A tensor in which nothing moves\<close>

definition quiet_axes :: axes where
  "quiet_axes = \<lparr>ax_dates = map (\<lambda>i. fmt_yyyymmdd (19725 + int i)) [0..<274], ax_codes = map (pad_nat 6) [0..<40],
     ax_date_days = map (\<lambda>i. 19725 + int i) [0..<274], ax_date_idx = (\<lambda>_. None), ax_code_idx = (\<lambda>_. None)\<rparr>"

definition quiet_tensor :: tensor where
  "quiet_tensor = \<lparr>tn_mats = (\<lambda>f. replicate 10960 (if f = Delist_age then NaN else if f \<in> {Susp, Limit_dn} then Fin 0 else Fin 1)),
     tn_strat = [replicate 10960 (Fin 1), replicate 10960 (Fin 1), replicate 10960 (Fin (1 / 2)), map (\<lambda>j. Fin (real (Suc (j div 274)))) [0..<10960]]\<rparr>"

lemma quiet_sizes: "n_d quiet_axes = 274" "n_a quiet_axes = 40"
  by (simp_all add: n_d_def n_a_def quiet_axes_def)

lemma quiet_off:
  assumes "a < 40" "d < 274"
  shows "mat_off quiet_axes a d < 10960" "mat_off quiet_axes a d div 274 = a"
  using assms by (simp_all add: mat_off_def quiet_sizes)

lemma quiet_at:
  assumes "a < 40" "d < 274"
  shows "tensor_at quiet_axes quiet_tensor f a d = (if f = Delist_age then NaN else if f \<in> {Susp, Limit_dn} then Fin 0 else Fin 1)"
    "strat_at quiet_axes quiet_tensor (slot 0 SF_pool) a d = Fin 1" "strat_at quiet_axes quiet_tensor (slot 0 SF_score) a d = Fin (1 / 2)"
    "strat_at quiet_axes quiet_tensor (slot 0 SF_rank) a d = Fin (real (Suc a))"
    "gather_cs_row quiet_axes quiet_tensor f d ! a = tensor_at quiet_axes quiet_tensor f a d"
    "strat_gather_cs_row quiet_axes quiet_tensor (slot 0 SF_pool) d ! a = Fin 1"
  using quiet_off [OF assms] assms
  by (simp_all add: tensor_at_def strat_at_def quiet_tensor_def slot_def SF_COUNT_def gather_cs_row_def strat_gather_cs_row_def mat_gather_def quiet_sizes flip: mat_off_def)

lemma quiet_pool: "d < 274 \<Longrightarrow> pool_row quiet_axes quiet_tensor 0 d = [0..<40]"
  using quiet_at(6) by (simp add: pool_row_def quiet_sizes)

lemma equal_ranks:
  assumes "i < 40"
  shows "pct_rank exact_arith (replicate 40 (Fin 1)) ! i = Fin (1 / 2)"
proof -
  have f: "finite_positions (replicate 40 (Fin 1)) = [0..<40]" by (simp add: finite_positions_def)
  have "\<not> Fin 1 < Fin 1" "Fin 1 \<le> Fin 1" by simp_all
  then have "filter (\<lambda>l. replicate 40 (Fin 1) ! l < replicate 40 (Fin 1) ! i) [0..<40] = []"
    "filter (\<lambda>l. replicate 40 (Fin 1) ! l \<le> replicate 40 (Fin 1) ! i) [0..<40] = [0..<40]"
    using assms by (auto simp: filter_empty_conv intro: filter_True)
  then show ?thesis using assms by (subst pct_rank_value) (simp_all add: f tie_rank_def fsub_def)
qed

lemma quiet_columns:
  assumes "d < 274"
  shows "score_column_ok quiet_axes 0 d quiet_tensor" "score_column_exact exact_arith quiet_axes wide_strategy 0 d quiet_tensor"
    "rank_column_ok quiet_axes 0 d quiet_tensor"
proof -
  note at = quiet_at [OF _ assms]
  show "score_column_ok quiet_axes 0 d quiet_tensor"
    unfolding score_column_ok_def quiet_sizes using at(2,3) by (intro allI impI exI [of _ "1 / 2"]) simp
  have g: "gather_cs_row quiet_axes quiet_tensor Mcap d = replicate 40 (Fin 1)"
  proof (rule nth_equalityI)
    show "length (gather_cs_row quiet_axes quiet_tensor Mcap d) = length (replicate 40 (Fin 1))" by (simp add: gather_cs_row_def mat_gather_def quiet_sizes)
    then show "gather_cs_row quiet_axes quiet_tensor Mcap d ! a = replicate 40 (Fin 1) ! a" if "a < length (gather_cs_row quiet_axes quiet_tensor Mcap d)" for a
      using that at(1,5) [of a] by simp
  qed
  have s: "strat_gather_cs_row quiet_axes quiet_tensor (slot 0 SF_pool) d = replicate 40 (Fin 1)"
  proof (rule nth_equalityI)
    let ?r = "strat_gather_cs_row quiet_axes quiet_tensor (slot 0 SF_pool) d"
    show "length ?r = length (replicate 40 (Fin 1))" by (simp add: strat_gather_cs_row_def mat_gather_def quiet_sizes)
    then show "?r ! a = replicate 40 (Fin 1) ! a" if "a < length ?r" for a using that at(6) [of a] by simp
  qed
  have ws: "st_weights wide_strategy = [(Mcap, Fin 1)]" by (simp add: wide_strategy_def mine_strategy_def)
  have m: "map2 (\<lambda>m v. if flag m then v else NaN) (replicate 40 (Fin 1)) (replicate 40 (Fin 1)) = replicate 40 (Fin 1)"
    by (intro nth_equalityI) simp_all
  have "score_loop exact_arith quiet_axes d quiet_tensor (replicate 40 (Fin 1)) [(Mcap, Fin 1)] (replicate 40 (Fin 0)) =
      Ok (map (\<lambda>a. if flag (replicate 40 (Fin 1) ! a) then fadd Fin (replicate 40 (Fin 0) ! a) (fmul Fin (Fin 1) (pct_rank exact_arith (replicate 40 (Fin 1)) ! a))
        else replicate 40 (Fin 0) ! a) [0..<40])"
    unfolding score_loop.simps Let_def g m quiet_sizes by (simp add: list_ex_iff equal_ranks del: replicate_eq_replicate)
  also have "\<dots> = Ok (replicate 40 (Fin (1 / 2)))" by (auto simp: equal_ranks intro: nth_equalityI)
  finally show "score_column_exact exact_arith quiet_axes wide_strategy 0 d quiet_tensor"
    unfolding score_column_exact_def s ws quiet_sizes using at(2,3) by (intro exI [of _ "replicate 40 (Fin (1 / 2))"]) (simp add: weight_sum_def)
  have r: "rankable quiet_axes 0 d quiet_tensor = {..<40}" using at by (auto simp: rankable_def quiet_sizes)
  have "{b \<in> {..<40}. outranks quiet_axes 0 d quiet_tensor b a} = {..<a}" if "a < 40" for a
    using that at(3) by (auto simp: outranks_def)
  then show "rank_column_ok quiet_axes 0 d quiet_tensor" by (simp add: rank_column_ok_def r quiet_sizes at(4))
qed

lemma quiet_find: "find_d quiet_axes (st_bt_start_date wide_strategy) False = 0"
proof -
  have "fmt_yyyymmdd 19725 = ''20240103''" by code_simp
  moreover have "[0..<274] = 0 # [1..<274]" by (simp add: upt_conv_Cons)
  ultimately have "lower_bound (ax_dates quiet_axes) ''20240103'' = 0" by (simp add: lower_bound_def quiet_axes_def)
  then show ?thesis by (simp add: find_d_def wide_strategy_def mine_strategy_def quiet_axes_def)
qed

lemma quiet_load:
  "\<exists>mk. load_market quiet_axes quiet_tensor 0 274 = Ok mk \<and> mk_n_d mk = 274 \<and> mk_n_a mk = 40 \<and>
     (\<forall>i<274. \<forall>a<40. close_at mk i a = Fin 1 \<and> limited mk i a \<and> \<not> has_flag (flags_at mk i a) SUSP)"
proof -
  have "\<forall>a<n_a quiet_axes. \<forall>d<n_d quiet_axes. market_flags_ready quiet_axes quiet_tensor a d"
    by (simp add: market_flags_ready_def quiet_at quiet_sizes amount_ok_def)
  then obtain mk where mk: "load_market quiet_axes quiet_tensor 0 274 = Ok mk"
    using load_market_total [of 0 274 quiet_axes quiet_tensor] by (auto simp: quiet_sizes)
  note L = load_market_effect [OF mk]
  have c: "last_close quiet_axes quiet_tensor 0 a i = Fin 1" if "a < 40" "i < 274" for a i
    using that(2) by (cases i) (simp_all add: last_close_Suc quiet_at that(1))
  have m: "f AND (LIM_UP OR LIM_DN) = 0 \<Longrightarrow> f AND LIM_UP = 0" for f :: flags
    by (simp add: bit.conj_disj_distrib or_eq_0_iff)
  have "close_at mk i a = Fin 1 \<and> limited mk i a \<and> \<not> has_flag (flags_at mk i a) SUSP" if "i < 274" "a < 40" for i a
    using m [of "flags_at mk i a"] L(5) [of a i] that c [OF that(2,1)] by (auto simp add: market_entry_ok_def quiet_sizes quiet_at limited_def has_flag_def)
  with mk load_market_closes [OF mk] show ?thesis by (auto simp: quiet_sizes)
qed

section \<open>Nothing moves\<close>

text \<open>All that the search sees of these data: every instrument is at the limit on every day, all of them are in the pool, and no return is different from zero.\<close>

definition quiet :: "market_window \<Rightarrow> pr_store \<Rightarrow> bool" where
  "quiet mk st \<longleftrightarrow> mk_n_d mk = 274 \<and> (\<forall>i<274. \<forall>a<40. limited mk i a) \<and> sr_n_d st = 274 \<and>
     (\<forall>i<274. cnt st i = 40 \<and> day_members st i = [0..<40]) \<and> (\<forall>i<273. vcnt st i = 40 \<and> vfret_row st i = replicate 40 (Fin 0))"

lemma quiet_buys: "\<forall>a<40. limited mk i a \<Longrightarrow> \<forall>c\<in>set cands. snd c < 40 \<Longrightarrow> pick_buys mk i [] n slots k cands = []"
  by (induction cands arbitrary: k) (auto simp: find_pos_def)

lemma quiet_step:
  assumes "i < mk_n_d mk" "\<forall>a<40. limited mk i a" "\<forall>c\<in>set cands. snd c < 40" "en_holdings e = []" "en_cash e = Fin 1000000" "0 \<le> en_hold_n e"
  shows "\<exists>e'. step exact_arith sorter mk i cands e = Ok e' \<and> en_holdings e' = [] \<and> en_cash e' = Fin 1000000 \<and> en_pv_end e' = Fin 1000000 \<and>
    en_hold_n e' = en_hold_n e"
proof -
  let ?e = "e\<lparr>en_turn_amt := Fin 0, en_events := []\<rparr>"
  define e2 where "e2 = ?e\<lparr>en_pv := Fin 1000000\<rparr>"
  have "en_holdings ?e = []" "?e\<lparr>en_holdings := []\<rparr> = ?e" using assms(4) by simp_all
  then have l: "liquidate exact_arith mk i ?e = Ok ?e" by (simp add: liquidate_def)
  have m: "mark exact_arith mk i ?e = Ok e2" using assms(4,5) by (simp add: mark_def e2_def market_value_def Let_def)
  define e3 where "e3 = trade exact_arith sorter mk i cands e2"
  have e3: "en_holdings e3 = []" "en_cash e3 = Fin 1000000" "en_hold_n e3 = en_hold_n e"
    using assms quiet_buys [OF assms(2,3)]
    by (simp_all add: e3_def trade_def Let_def sell_intents_def buy_list_def sell_all_def rebalance_def e2_def)
  moreover have "close_day exact_arith mk i e3 = Ok (e3\<lparr>en_mv_end := Fin 0, en_pv_end := Fin 1000000\<rparr>)"
    using e3 assms(6) by (simp add: close_day_def market_value_def cap_def Let_def)
  ultimately show ?thesis using e3 assms(1) unfolding step_def l bind_ok.simps m by (simp add: e3_def [symmetric])
qed

lemma quiet_select:
  assumes "quiet mk st" "i < 274"
  shows "\<exists>sel. select_top ar (block nf st i) (day_members st i) (cnt st i) pl 40 = Ok sel \<and> (\<forall>c\<in>set (take 40 sel). snd c < 40)"
proof -
  have q: "cnt st i = 40" "day_members st i = [0..<40]" using assms by (simp_all add: quiet_def)
  obtain sel where sel: "select_top ar (block nf st i) (day_members st i) (cnt st i) pl 40 = Ok sel"
    unfolding q by (simp add: select_top_def TIE_MARGIN_def Let_def)
  from select_top_names(3) [OF sel] have "snd ` set (take 40 sel) \<subseteq> {..<40}" by (simp add: q lessThan_atLeast0)
  with sel show ?thesis by blast
qed

lemma quiet_need: "nat (prefix_need exact_arith wide_strategy) = 80"
  by (simp add: prefix_need_def wide_strategy_def mine_strategy_def trunc_def)

lemma quiet_days:
  assumes "quiet mk st" "n \<le> 274"
  shows "\<exists>l. fold_ok (\<lambda>l i. lane_day exact_arith sorter mk nf st 80 i (pl, l)) (start_lane exact_arith (new_engine exact_arith 40 (Fin 1))) [0..<n] = Ok l \<and>
    en_holdings (ln_engine l) = [] \<and> en_cash (ln_engine l) = Fin 1000000 \<and> en_hold_n (ln_engine l) = 40 \<and> ln_navs l = replicate n (Fin 1000000)"
  using assms(2)
proof (induction n)
  case 0
  show ?case by (simp add: start_lane_def new_engine_def reset_def CAPITAL_BASE_def)
next
  case (Suc n)
  then obtain l where l: "fold_ok (\<lambda>l i. lane_day exact_arith sorter mk nf st 80 i (pl, l)) (start_lane exact_arith (new_engine exact_arith 40 (Fin 1))) [0..<n] = Ok l"
    "en_holdings (ln_engine l) = []" "en_cash (ln_engine l) = Fin 1000000" "en_hold_n (ln_engine l) = 40" "ln_navs l = replicate n (Fin 1000000)" by auto
  have n: "n < 274" using Suc.prems by simp
  from quiet_select [OF assms(1) n, of exact_arith nf pl] obtain sel where sel: "select_top exact_arith (block nf st n) (day_members st n) (cnt st n) pl 40 = Ok sel"
    "\<forall>c\<in>set (take 40 sel). snd c < 40" by blast
  have q: "n < mk_n_d mk" "\<forall>a<40. limited mk n a" using assms(1) n by (simp_all add: quiet_def)
  from quiet_step [OF q sel(2) l(2,3)] l(4) obtain e' where e': "step exact_arith sorter mk n (take 40 sel) (ln_engine l) = Ok e'"
    "en_holdings e' = []" "en_cash e' = Fin 1000000" "en_pv_end e' = Fin 1000000" "en_hold_n e' = 40" by fastforce
  have "min (cnt st n) 80 = 40" using assms(1) n by (simp add: quiet_def)
  then show ?case using l(1,5) sel(1) e' by (simp add: fold_ok_append lane_day_def Let_def narrow_def replicate_append_same)
qed

lemma quiet_drawdown: "p \<in> {NInf, Fin 1000000} \<Longrightarrow> \<exists>out. drawdown_loop exact_arith p (replicate n (Fin 1000000)) = Ok out"
proof (induction n arbitrary: p)
  case (Suc n)
  have "std_max p (Fin 1000000) = Fin 1000000" using Suc.prems by (auto simp: std_max_def)
  moreover obtain out where "drawdown_loop exact_arith (Fin 1000000) (replicate n (Fin 1000000)) = Ok out" using Suc.IH [of "Fin 1000000"] by auto
  ultimately show ?case by (simp add: Let_def)
qed simp

lemma quiet_run: "quiet mk st \<Longrightarrow> \<exists>l m. run_batch exact_arith sorter mk nf st 80 [pl] [new_engine exact_arith 40 (Fin 1)] = Ok ([l], [m])"
proof -
  assume q: "quiet mk st"
  obtain l where l: "fold_ok (\<lambda>l i. lane_day exact_arith sorter mk nf st 80 i (pl, l)) (start_lane exact_arith (new_engine exact_arith 40 (Fin 1))) [0..<274] = Ok l"
    "ln_navs l = replicate 274 (Fin 1000000)" using quiet_days [OF q, of 274] by blast
  have "daily_returns exact_arith (replicate 274 (Fin 1000000)) \<noteq> Fail e" "drawdown_curve exact_arith (replicate 274 (Fin 1000000)) \<noteq> Fail e'" for e e'
    using quiet_drawdown [of NInf 274] by (auto simp: daily_returns_def drawdown_curve_def list_ex_iff)
  then have "\<exists>s. nav_stats_of exact_arith (replicate 274 (Fin 1000000)) = Ok s"
    by (cases "daily_returns exact_arith (replicate 274 (Fin 1000000))"; cases "drawdown_curve exact_arith (replicate 274 (Fin 1000000))")
      (auto simp: nav_stats_of_def Let_def)
  then obtain m where "lane_metrics exact_arith 274 l = Ok m" using l(2) by (auto simp: lane_metrics_def Let_def)
  moreover have "sr_n_d st = 274" using q by (simp add: quiet_def)
  ultimately show ?thesis using l(1) by (auto simp: run_batch_one)
qed

lemma quiet_holdings: "quiet mk st \<Longrightarrow> \<exists>h. build_holdings exact_arith nf st 40 pl = Ok h"
proof -
  assume q: "quiet mk st"
  have "\<exists>row. holdings_day exact_arith nf st 40 pl i = Ok row" if "i < 274" for i
    using quiet_select [OF q that, of exact_arith nf pl] q that by (auto simp: holdings_day_def quiet_def)
  then show ?thesis unfolding build_holdings_def by (intro map_ok_total) (use q in \<open>simp add: quiet_def\<close>)
qed

lemma quiet_track: "quiet mk st \<Longrightarrow> t \<le> 273 \<Longrightarrow> track exact_arith nf st 10 pl t = Ok (replicate 10 (Fin 1), (Fin 0, Fin 0))"
proof (induction t)
  case (Suc t)
  have d: "day_dealable st 10 0 0 t" using Suc.prems by (simp add: day_dealable_def quiet_def)
  obtain r where r: "day_rets exact_arith nf st 10 t pl = Ok (map (\<lambda>i. Fin (r i)) [0..<10])" "\<forall>i<10. 0 \<le> r i \<and> r i \<le> 0"
    using day_rets_exact [OF d] by fastforce
  have "map (\<lambda>i. Fin (r i)) [0..<10] = replicate 10 (Fin 0)" using r(2) by (intro nth_equalityI) (auto simp: order_antisym)
  moreover have "compound_layers exact_arith (replicate n (Fin 0)) (replicate n (Fin 1)) = Ok (replicate n (Fin 1))" for n
    unfolding compound_layers_def Let_def by (induction n) simp_all
  ultimately show ?case using Suc r(1) by (simp add: track_Suc track_day_def add_top_def)
qed (simp add: track_def)

section \<open>The backtest and the store of these data\<close>

lemma quiet_backtest:
  "\<exists>rv b mk. run_days exact_arith sort_deficits (sort_desc snd) quiet_axes bt_meta quiet_tensor [[], []] wide_strategy 0 = Ok (rv, b) \<and>
     rv_d_lo rv = 0 \<and> rv_market rv = mk \<and> load_market quiet_axes quiet_tensor 0 274 = Ok mk \<and> mk_n_d mk = 274 \<and>
     (\<forall>i<274. \<forall>a<40. close_at mk i a = Fin 1 \<and> limited mk i a \<and> \<not> has_flag (flags_at mk i a) SUSP) \<and> bk_strat_nav b = replicate 274 (Fin 1000000)"
proof -
  obtain mk where mk: "load_market quiet_axes quiet_tensor 0 274 = Ok mk" "mk_n_d mk = 274" "mk_n_a mk = 40"
    "\<forall>i<274. \<forall>a<40. close_at mk i a = Fin 1 \<and> limited mk i a \<and> \<not> has_flag (flags_at mk i a) SUSP" using quiet_load by blast
  let ?b0 = "new_book exact_arith wide_strategy" and ?e0 = "new_engine exact_arith 40 (Fin 1)"
  define rv where "rv = \<lparr>rv_ar = exact_arith, rv_deficits = sort_deficits, rv_weights = sort_desc snd, rv_axes = quiet_axes, rv_meta = bt_meta,
    rv_tensor = quiet_tensor, rv_timeline = [[], []], rv_strategy = 0, rv_d_lo = 0, rv_market = mk\<rparr>"
  have rv: "rv_ar rv = exact_arith" "rv_axes rv = quiet_axes" "rv_tensor rv = quiet_tensor" "rv_strategy rv = 0" "rv_d_lo rv = 0" "rv_market rv = mk"
    "rv_deficits rv = sort_deficits" by (simp_all add: rv_def)
  have h: "st_hold_n wide_strategy = 40" "st_exit_ratio wide_strategy = Fin 1" by (simp_all add: wide_strategy_def mine_strategy_def)
  have ready: "run_ready rv" using load_market_closes [OF mk(1)] quiet_columns(3) quiet_at(2) sort_desc_sorts
    by (simp add: run_ready_def rv_def quiet_sizes)
  have exit: "en_hold_n ?e0 \<le> exit_limit (rv_ar rv) ?e0" by (simp add: rv exit_limit_def new_engine_def reset_def trunc_def)
  have days: "\<exists>b. fold_ok (backtest_day rv 80) ?b0 [0..<m] = Ok b \<and> run_inv rv ?e0 m b \<and> en_holdings (bk_engine b) = [] \<and>
      en_cash (bk_engine b) = Fin 1000000 \<and> en_hold_n (bk_engine b) = 40 \<and> bk_strat_nav b = replicate m (Fin 1000000)" if "m \<le> 274" for m
    using that
  proof (induction m)
    case 0
    have "run_inv rv ?e0 0 ?b0" by (rule run_inv_new) (simp_all add: h)
    then show ?case by (simp add: new_book_def new_engine_def reset_def CAPITAL_BASE_def h)
  next
    case (Suc m)
    then obtain b where b: "fold_ok (backtest_day rv 80) ?b0 [0..<m] = Ok b" "run_inv rv ?e0 m b" "en_holdings (bk_engine b) = []"
      "en_cash (bk_engine b) = Fin 1000000" "en_hold_n (bk_engine b) = 40" "bk_strat_nav b = replicate m (Fin 1000000)" by auto
    have m: "m < 274" "m < mk_n_d mk" using Suc.prems mk(2) by simp_all
    let ?c = "ranking quiet_axes 0 m quiet_tensor"
    have "snd ` set ?c = rankable quiet_axes 0 m quiet_tensor" using ranking_spec(2) [of quiet_axes 0 m quiet_tensor] by simp
    then have c: "\<forall>c\<in>set ?c. snd c < 40" by (auto simp: rankable_def quiet_sizes)
    have l: "\<forall>a<40. limited mk m a" using mk(4) m(1) by simp
    obtain e' where e': "step exact_arith sort_deficits mk m ?c (bk_engine b) = Ok e'" "en_holdings e' = []" "en_cash e' = Fin 1000000"
      "en_pv_end e' = Fin 1000000" "en_hold_n e' = en_hold_n (bk_engine b)" using quiet_step [OF m(2) l c b(3,4)] b(5) by auto
    have "step (rv_ar rv) (rv_deficits rv) (rv_market rv) m (ranking (rv_axes rv) (rv_strategy rv) (rv_d_lo rv + m) (rv_tensor rv)) (bk_engine b) = Ok e'"
      using e'(1) by (simp add: rv)
    from day_kept [OF ready b(2) _ exit this, of 80] m(2) obtain b' where b': "backtest_day rv 80 b m = Ok b'" "run_inv rv ?e0 (Suc m) b'" by (auto simp: rv)
    have "rank_column_ok (rv_axes rv) (rv_strategy rv) (rv_d_lo rv + m) (rv_tensor rv)" using quiet_columns(3) [OF m(1)] by (simp add: rv)
    from backtest_day_nav [OF this b'(1)] e'(1) have n: "bk_engine b' = e'" "bk_strat_nav b' = bk_strat_nav b @ [narrow exact_arith (en_pv_end e')]" by (auto simp: rv)
    show ?case using b b' n e' by (simp add: fold_ok_append narrow_def replicate_append_same)
  qed
  from days [of 274] obtain b where b: "fold_ok (backtest_day rv 80) ?b0 [0..<274] = Ok b" "bk_strat_nav b = replicate 274 (Fin 1000000)" by auto
  have "run_days exact_arith sort_deficits (sort_desc snd) quiet_axes bt_meta quiet_tensor [[], []] wide_strategy 0 = Ok (rv, b)"
    unfolding run_days_def quiet_find Let_def quiet_sizes using b(1) mk(1) by (simp add: h rv_def)
  with rv mk b(2) show ?thesis by blast
qed

lemma quiet_clean:
  assumes "\<forall>i<274. \<forall>a<40. close_at mk i a = Fin 1 \<and> limited mk i a \<and> \<not> has_flag (flags_at mk i a) SUSP" "Delist_age \<notin> set fs"
  shows "pools_clean quiet_axes quiet_tensor mk 0 fs 0 274"
  using assms quiet_at(1,5) by (auto simp: pools_clean_def quiet_pool day_clean_def)

lemma quiet_built:
  assumes "build_pr exact_arith ord2 ord3 quiet_axes quiet_tensor mk 0 fs 0 274 = Ok st" "set ord2 = {..<274}" "set ord3 = {..<274}" "mk_n_d mk = 274"
    "\<forall>i<274. \<forall>a<40. close_at mk i a = Fin 1 \<and> limited mk i a \<and> \<not> has_flag (flags_at mk i a) SUSP"
  shows "quiet mk st"
proof -
  have S: "store_ok exact_arith quiet_axes quiet_tensor mk 0 fs 0 274 st" using build_pr_cases(2) [OF assms(2,3,1)] by blast
  have d: "cnt st i = 40" "day_members st i = [0..<40]" "fret_row st i = map (ret_of exact_arith mk 274 i) [0..<40]" "vcnt st i = length (valid_idx st i)"
    "vfret_row st i = valid_rets st i" if "i < 274" for i
    using S that by (simp_all add: store_ok_def Let_def quiet_pool)
  have v: "vcnt st i = 40 \<and> vfret_row st i = replicate 40 (Fin 0)" if i: "i < 273" for i
  proof -
    have r: "fret_row st i ! a = Fin 0" if "a < 40" for a
      using d(3) [of i] i that assms(5) by (simp add: ret_of_def fsub_def)
    then have "valid_idx st i = [0..<40]" unfolding valid_idx_def using d(1) [of i] i by auto
    then show ?thesis using d(4,5) [of i] i r by (auto simp: valid_rets_def intro: nth_equalityI)
  qed
  have "sr_n_d st = 274" using S by (simp add: store_ok_def)
  then show ?thesis using d v assms(4,5) by (auto simp: quiet_def)
qed

end
