(* ===== verification/Mining.thy ===== *)
theory Mining
  imports Quiet
begin

text \<open>
  The weight search as a whole (\<open>cpp/src/mine/mine.cpp\<close>, \<open>run\<close>): the checks at the start, the scan of all points of the lattice
  (phase 1), the scores and the styles (theory Styles), and the backtests of the styles (phase 4), in which everything is computed
  again and compared. In the phases with threads each worker keeps one scratch for all its batches and takes the next batch from a
  counter, so a run of a phase is a list of pairs, the worker and the first row of its batch, in the order in which the batches
  are done. The theorems: the result does not depend on that list, none of the comparisons of the program with itself can fail, and what can stop a run that
  follows a backtest is a closed list of errors with their causes.
\<close>

section \<open>Workers with a scratch of their own\<close>

definition BATCH :: nat where "BATCH = 1024"

text \<open>The rows of the batch that begins at \<open>lo\<close>.\<close>

definition batch_rows :: "nat \<Rightarrow> nat \<Rightarrow> nat list" where
  "batch_rows n lo = [lo..<lo + min BATCH (n - lo)]"

definition do_batches ::
  "(nat \<Rightarrow> 'w \<Rightarrow> 'o \<Rightarrow> ('e, 'w \<times> 'o) outcome) \<Rightarrow> 'w list \<times> 'o \<Rightarrow> (nat \<times> nat) list \<Rightarrow> ('e, 'w list \<times> 'o) outcome" where
  "do_batches work = fold_ok (\<lambda>(ws, out) (k, lo). bind_ok (work lo (ws ! k) out) (\<lambda>(w, out). Ok (ws[k := w], out)))"

section \<open>Phase 1\<close>

definition N_POINT_METRICS :: nat where "N_POINT_METRICS = 15"

text \<open>The ten columns of the scan are written, the five that phase 2 derives are left.\<close>

definition put_summaries :: "nat \<Rightarrow> fval list list \<Rightarrow> fval list list \<Rightarrow> fval list list" where
  "put_summaries lo rows pts = put_at lo (map2 (\<lambda>new old. new @ drop (length new) old) rows (substr pts lo (length rows))) pts"

definition scan_batch ::
  "arith \<Rightarrow> nat \<Rightarrow> pr_store \<Rightarrow> layer_params \<Rightarrow> nat \<Rightarrow> int list list \<Rightarrow> nat \<Rightarrow> layer_scratch \<Rightarrow> fval list list
     \<Rightarrow> (mine_error, layer_scratch \<times> fval list list) outcome" where
  "scan_batch ar nf st lp M ks lo sc pts =
     bind_ok (map_ok (\<lambda>r. plan_from_k ar M (ks ! r)) (batch_rows (length ks) lo)) (\<lambda>plans.
     bind_ok (run_layer_batch ar nf st lp plans sc) (\<lambda>(sc, rows, wins). Ok (sc, put_summaries lo rows pts)))"

definition scan_points ::
  "arith \<Rightarrow> nat \<Rightarrow> pr_store \<Rightarrow> layer_params \<Rightarrow> nat \<Rightarrow> int list list \<Rightarrow> nat \<Rightarrow> (nat \<times> nat) list \<Rightarrow> (mine_error, fval list list) outcome" where
  "scan_points ar nf st lp M ks n_thr sched =
     bind_ok (do_batches (scan_batch ar nf st lp M ks)
         (replicate n_thr (make_layer_scratch lp BATCH), replicate (length ks) (replicate N_POINT_METRICS (Fin 0))) sched)
       (\<lambda>(ws, pts). Ok pts)"

section \<open>Phase 4\<close>

definition make_engines :: "arith \<Rightarrow> strategy_spec \<Rightarrow> engine list" where
  "make_engines ar spec = replicate BATCH (new_engine ar (st_hold_n spec) (st_exit_ratio spec))"

text \<open>The first ten columns of a style, computed again, against the table of phase 1.\<close>

definition same_summary :: "fval list \<Rightarrow> fval list \<Rightarrow> bool" where
  "same_summary row old \<longleftrightarrow> list_all (\<lambda>c. feq (row ! c) (old ! c)) [0..<10]"

record style_results =
  sy_metrics :: "fval list list"
  sy_windows :: "fval list list list"

definition test_batch ::
  "arith \<Rightarrow> deficit_sorter \<Rightarrow> market_window \<Rightarrow> nat \<Rightarrow> pr_store \<Rightarrow> nat \<Rightarrow> layer_params \<Rightarrow> nat \<Rightarrow> int list list \<Rightarrow> fval list list \<Rightarrow> nat list
     \<Rightarrow> nat \<Rightarrow> engine list \<times> layer_scratch \<Rightarrow> style_results \<Rightarrow> (mine_error, (engine list \<times> layer_scratch) \<times> style_results) outcome" where
  "test_batch ar sorter mk nf st k_need lp M ks pts styles lo = (\<lambda>(engs, lsc) out.
     let rs = batch_rows (length styles) lo in
     bind_ok (map_ok (\<lambda>i. plan_from_k ar M (ks ! (styles ! i))) rs) (\<lambda>plans.
     bind_ok (run_batch ar sorter mk nf st k_need plans engs) (\<lambda>(lns, bt).
     bind_ok (run_layer_batch ar nf st lp plans lsc) (\<lambda>(lsc, rows, wins).
       if \<not> list_all (\<lambda>(row, i). same_summary row (pts ! (styles ! i))) (zip rows rs) then Fail RecheckDiffers
       else Ok ((map ln_engine lns @ drop (length lns) engs, lsc),
         out\<lparr>sy_metrics := put_at lo bt (sy_metrics out), sy_windows := put_at lo wins (sy_windows out)\<rparr>)))))"

definition test_styles ::
  "arith \<Rightarrow> deficit_sorter \<Rightarrow> market_window \<Rightarrow> nat \<Rightarrow> pr_store \<Rightarrow> strategy_spec \<Rightarrow> layer_params \<Rightarrow> nat \<Rightarrow> int list list \<Rightarrow> fval list list \<Rightarrow> nat list
     \<Rightarrow> nat \<Rightarrow> (nat \<times> nat) list \<Rightarrow> (mine_error, style_results) outcome" where
  "test_styles ar sorter mk nf st spec lp M ks pts styles n_thr sched =
     bind_ok (do_batches (test_batch ar sorter mk nf st (nat (prefix_need ar spec)) lp M ks pts styles)
         (replicate n_thr (make_engines ar spec, make_layer_scratch lp BATCH),
          \<lparr>sy_metrics = replicate (length styles) (replicate 7 (Fin 0)),
           sy_windows = replicate (length styles) (replicate (ly_n_win lp) (replicate 4 (Fin 0)))\<rparr>) sched)
       (\<lambda>(ws, out). Ok out)"

section \<open>The checks\<close>

definition target_index :: "strategy_spec list \<Rightarrow> string \<Rightarrow> (mine_error, nat) outcome" where
  "target_index specs name =
     (case foldl (\<lambda>f s. if st_name (specs ! s) = name then Some s else f) None [0..<length specs] of None \<Rightarrow> Fail NoTarget | Some s \<Rightarrow> Ok s)"

definition lower_d :: "axes \<Rightarrow> string \<Rightarrow> int" where
  "lower_d ax ymd = (let k = lower_bound (ax_dates ax) ymd in if k = length (ax_dates ax) then -1 else int k)"

text \<open>The values of the search against those of the backtest.\<close>

definition nav_gap :: "arith \<Rightarrow> fval list \<Rightarrow> fval list \<Rightarrow> fval \<Rightarrow> nat \<Rightarrow> (mine_error, fval) outcome" where
  "nav_gap ar navs ref worst i = (let D = double ar; a = navs ! i; b = ref ! i in
     if \<not> fless (Fin 0) b then Fail RefNotPositive else Ok (std_max worst (fdiv D (fabs (fsub D a b)) b)))"

definition self_check ::
  "arith \<Rightarrow> deficit_sorter \<Rightarrow> market_window \<Rightarrow> nat \<Rightarrow> pr_store \<Rightarrow> strategy_spec \<Rightarrow> plan \<Rightarrow> fval list \<Rightarrow> (mine_error, fval) outcome" where
  "self_check ar sorter mk nf st spec p0 ref =
     bind_ok (run_batch ar sorter mk nf st (nat (prefix_need ar spec)) [p0] (make_engines ar spec)) (\<lambda>(lns, bt).
     bind_ok (fold_ok (nav_gap ar (ln_navs (hd lns)) ref) (Fin 0) [0..<sr_n_d st]) (\<lambda>worst.
       if \<not> fless worst (double ar (1 / 10 ^ 9)) then Fail SelfCheck else Ok (narrow ar worst)))"

definition baseline :: "arith \<Rightarrow> nat \<Rightarrow> pr_store \<Rightarrow> layer_params \<Rightarrow> plan \<Rightarrow> (mine_error, fval list) outcome" where
  "baseline ar nf st lp p0 =
     bind_ok (run_layer_batch ar nf st lp [p0] (make_layer_scratch lp 1)) (\<lambda>(sc, rows, wins). Ok (hd (put_summaries 0 rows [replicate N_POINT_METRICS (Fin 0)])))"

text \<open>Every so many rows the number that is computed from a point against its row.\<close>

definition check_index :: "nat \<Rightarrow> nat \<Rightarrow> int list list \<Rightarrow> (mine_error, unit) outcome" where
  "check_index n M ks = (let step = max 1 (length ks div 10000) in
     if \<not> lattice_total n M = length ks then Fail LatticeIndexDiffers
     else fold_ok (\<lambda>u r. bind_ok (lift_error LatticeError (lattice_index n M (ks ! r))) (\<lambda>i. if \<not> i = r then Fail LatticeIndexDiffers else Ok ()))
            () (map (\<lambda>j. j * step) [0..<(length ks + step - 1) div step]))"

section \<open>The run\<close>

text \<open>What the machine decides: the arithmetic, what the sorts do with equal elements, and the scheduling of the threads in each phase.\<close>

record mine_env =
  mv_ar :: arith
  mv_sorter :: deficit_sorter
  mv_pick :: "nat \<Rightarrow> ranked list \<Rightarrow> ranked list"
  mv_threads :: nat
  mv_days2 :: "nat \<Rightarrow> nat list"
  mv_days3 :: "nat \<Rightarrow> nat list"
  mv_scan :: "nat \<Rightarrow> (nat \<times> nat) list"
  mv_sens :: "nat \<Rightarrow> nat list"
  mv_hold :: "nat \<Rightarrow> nat \<Rightarrow> nat list"
  mv_test :: "nat \<Rightarrow> (nat \<times> nat) list"

record mined =
  md_grid :: "int list list"
  md_points :: "fval list list"
  md_styles :: "nat list"
  md_results :: style_results
  md_base :: "fval list"
  md_base_pct :: "fval \<times> fval"
  md_selfcheck :: fval

text \<open>The phases, once the store, the layers and the plan of the strategy are there.\<close>

definition mine_phases ::
  "mine_env \<Rightarrow> market_window \<Rightarrow> nat \<Rightarrow> pr_store \<Rightarrow> strategy_spec \<Rightarrow> layer_params \<Rightarrow> nat \<Rightarrow> fval \<Rightarrow> fval list \<Rightarrow> (mine_error, mined) outcome" where
  "mine_phases env mk nf st spec lp M diff base =
     (let ar = mv_ar env; thr = mv_threads env in
      bind_ok (lift_error LatticeError (build_lattice nf M)) (\<lambda>ks.
      bind_ok (check_index nf M ks) (\<lambda>_.
      bind_ok (scan_points ar nf st lp M ks thr (mv_scan env (length ks))) (\<lambda>pts.
      bind_ok (score_points ar nf M (mv_sens env (length ks)) ks pts) (\<lambda>pts.
      bind_ok (find_styles ar (mv_pick env) (mv_hold env (min (length ks) MINE_DEDUP_CAND)) nf M st (nat (st_hold_n spec)) ks pts) (\<lambda>ch.
      bind_ok (test_styles ar (mv_sorter env) mk nf st spec lp M ks pts (ch_styles ch) thr (mv_test env (length (ch_styles ch)))) (\<lambda>res.
        Ok \<lparr>md_grid = ks, md_points = pts, md_styles = ch_styles ch, md_results = res, md_base = base,
            md_base_pct = (base_percentile ar base 0 pts, base_percentile ar base 6 pts), md_selfcheck = diff\<rparr>)))))))"

definition mine_run ::
  "mine_env \<Rightarrow> axes \<Rightarrow> tensor \<Rightarrow> strategy_spec list \<Rightarrow> string \<Rightarrow> node list \<Rightarrow> nat \<Rightarrow> (nat \<times> fval list) list \<Rightarrow> (mine_error, mined) outcome" where
  "mine_run env ax T specs name fs M results =
     bind_ok (target_index specs name) (\<lambda>s.
     let ar = mv_ar env; spec = specs ! s; lo = lower_d ax (st_bt_start_date spec); d_lo = nat lo; n = n_d ax - d_lo; nf = length fs in
     if \<not> (lo \<ge> 0 \<and> lo < int (n_d ax)) then Fail StartOutside
     else if \<not> (length results = length specs \<and> fst (results ! s) = d_lo \<and> length (snd (results ! s)) = n) then Fail WindowDiffers
     else
       bind_ok (lift_error MarketError (load_market ax T lo (int n))) (\<lambda>mk.
       bind_ok (build_pr ar (mv_days2 env n) (mv_days3 env n) ax T mk s fs d_lo n) (\<lambda>st.
       bind_ok (make_layer ar spec n) (\<lambda>lp.
       if \<not> list_all (\<lambda>t. vcnt st t \<ge> ly_n_bins lp) [0..<ly_n_ret lp] then Fail BelowBins
       else
         bind_ok (plan_of_weights ar fs (st_weights spec)) (\<lambda>p0.
         bind_ok (self_check ar (mv_sorter env) mk nf st spec p0 (snd (results ! s))) (\<lambda>diff.
         bind_ok (baseline ar nf st lp p0) (\<lambda>base.
           mine_phases env mk nf st spec lp M diff base)))))))"

section \<open>Errors\<close>

text \<open>The assertions that compare the program with itself and that no choice of the data can fail. (That \<open>BinMassLost\<close>, \<open>SpreadEndless\<close>, \<open>PlanEmpty\<close> and all
  but two errors of the kernel never occur needs what is known of the store when the phases begin; \<open>outside\<close> of theory Stops leaves them out.)\<close>

definition internal :: "mine_error \<Rightarrow> bool" where
  "internal e \<longleftrightarrow> (case e of PoolScansDiffer \<Rightarrow> True | ValidScansDiffer \<Rightarrow> True | KeepTooMany \<Rightarrow> True | StartOutside \<Rightarrow> True | WindowDiffers \<Rightarrow> True | MarketError _ \<Rightarrow> True | SelfCheck \<Rightarrow> True | LatticeError _ \<Rightarrow> True
     | LatticeIndexDiffers \<Rightarrow> True | NoNeighbour \<Rightarrow> True | NeighbourOutside \<Rightarrow> True | RecheckDiffers \<Rightarrow> True | _ \<Rightarrow> False)"

lemma fold_ok_stops: "fold_ok f s xs = Fail e \<Longrightarrow> \<exists>t. \<exists>x\<in>set xs. f t x = Fail e"
  by (rule fold_ok_error [where Q = "\<lambda>e. \<exists>t. \<exists>x\<in>set xs. f t x = Fail e" and f = f and s = s and xs = xs]) blast+

lemma spread_error: "spread k ar nb per mean rem s = Fail e \<Longrightarrow> e = SpreadEndless"
  by (induction k ar nb per mean rem s rule: spread.induct) (auto simp: Let_def split: if_splits)

lemma sweep_hist_error: "sweep_hist ar nb per x h = Fail e \<Longrightarrow> e = SpreadEndless"
  by (cases x) (auto simp: sweep_hist_def sweep_cell_def Let_def bind_ok_Fail_iff dest: spread_error split: if_splits simp del: spread.simps)

lemma sweep_word_error: "sweep_word ar nb per x w = Fail e \<Longrightarrow> e = SpreadEndless"
  by (cases x) (auto simp: sweep_word_def bind_ok_Fail_iff dest!: fold_ok_stops sweep_hist_error split: if_splits)

lemma layer_rets_error: "layer_rets ar nf st nb t pl sc = Fail e \<Longrightarrow> \<not> internal e"
  by (auto simp: layer_rets_def Let_def bind_ok_Fail_iff internal_def dest!: fold_ok_stops sweep_word_error split: if_splits)

lemma move_lane_error: "move_lane ar nf st nb t sc x = Fail e \<Longrightarrow> \<not> internal e"
  by (cases x) (auto simp: move_lane_def compound_layers_def Let_def bind_ok_Fail_iff internal_def split: if_splits
      dest!: map_ok_error dest: layer_rets_error [unfolded internal_def])

lemma run_layer_batch_error: "run_layer_batch ar nf st lp plans sc = Fail e \<Longrightarrow> \<not> internal e"
  by (auto simp: run_layer_batch_def layer_day_def Let_def bind_ok_Fail_iff dest!: fold_ok_stops move_lane_error)

lemma select_top_error: "select_top ar blk mem n pl k = Fail e \<Longrightarrow> k \<le> n \<Longrightarrow> \<not> internal e"
  by (auto simp: select_top_def Let_def internal_def split: if_splits)

lemma run_batch_error:
  assumes "run_batch ar sorter mk nf st k plans engs = Fail e"
  shows "\<not> internal e"
proof -
  have lift: "lift_error BatchEngine r = Fail e \<Longrightarrow> \<not> internal e" for r :: "(engine_error, engine) outcome"
    by (cases r) (auto simp: internal_def)
  have stats: "lift_error StatsError r = Fail e \<Longrightarrow> \<not> internal e" for r :: "(metric_error, nav_stats) outcome"
    by (cases r) (auto simp: internal_def)
  have day: "lane_day ar sorter mk nf st k i x = Fail e \<Longrightarrow> \<not> internal e" for i x
    by (cases x) (auto simp: lane_day_def Let_def bind_ok_Fail_iff dest: select_top_error lift)
  have met: "lane_metrics ar n l = Fail e \<Longrightarrow> \<not> internal e" for n l
    by (auto simp: lane_metrics_def Let_def bind_ok_Fail_iff dest: stats)
  from assms show ?thesis
    by (auto simp: run_batch_def batch_days_def bind_ok_Fail_iff dest!: fold_ok_stops map_ok_error dest: day met)
qed

lemma plan_from_k_error: "plan_from_k ar M k = Fail e \<Longrightarrow> \<not> internal e"
  by (auto simp: plan_from_k_def push_term_def seal_def Let_def bind_ok_Fail_iff internal_def dest!: fold_ok_stops split: if_splits)

text \<open>What is known of a search when its phases begin: the arithmetic, a store that fits the market, and enough members on every day.\<close>

definition well_begun :: "arith \<Rightarrow> market_window \<Rightarrow> pr_store \<Rightarrow> layer_params \<Rightarrow> nat \<Rightarrow> bool" where
  "well_begun ar mk st lp M \<longleftrightarrow> format_rounding (single ar) \<and> close_rounding (double ar) \<and> fless (Fin 0) (single ar (1 / real M)) \<and> M \<le> 2 ^ 24 \<and>
     stocked mk st \<and> well_filled st lp"

definition lattice_points :: "nat \<Rightarrow> nat \<Rightarrow> int list list \<Rightarrow> bool" where
  "lattice_points nf M ks \<longleftrightarrow> 0 < M \<and> (\<forall>k\<in>set ks. on_lattice nf (int M) k)"

lemma point_has_plan: "well_begun ar mk st lp M \<Longrightarrow> lattice_points nf M ks \<Longrightarrow> r < length ks \<Longrightarrow> plan_from_k ar M (ks ! r) \<noteq> Fail e"
  using plan_of_point [of ar M nf "ks ! r"] by (fastforce simp: well_begun_def lattice_points_def)

lemma layer_batch_outside:
  assumes "well_begun ar mk st lp M" "scratch_ready lp sc" "length plans \<le> length (ls_lanes sc)" "run_layer_batch ar nf st lp plans sc = Fail e"
  shows "outside e"
  using run_layer_batch_stops [OF _ _ assms(2-4)] assms(1) by (simp add: well_begun_def outside_def)

section \<open>The interface of a phase\<close>

text \<open>A worker that is ready takes a batch: it is ready again, the rows of the batch are done, and no row that was done is spoilt.\<close>

locale batch_crew =
  fixes work :: "nat \<Rightarrow> 'w \<Rightarrow> 'o \<Rightarrow> ('e, 'w \<times> 'o) outcome" and ready :: "'w \<Rightarrow> bool" and sized :: "'o \<Rightarrow> bool" and n :: nat
    and row_done :: "nat \<Rightarrow> 'o \<Rightarrow> bool" and broken :: "nat \<Rightarrow> 'e \<Rightarrow> bool"
  assumes work_ok: "ready w \<Longrightarrow> sized out \<Longrightarrow> work lo w out = Ok (w', out') \<Longrightarrow>
      ready w' \<and> sized out' \<and> (\<forall>r\<in>set (batch_rows n lo). row_done r out') \<and> (\<forall>r. row_done r out \<longrightarrow> row_done r out')"
    and work_fails: "ready w \<Longrightarrow> sized out \<Longrightarrow> work lo w out = Fail e \<Longrightarrow> \<exists>r\<in>set (batch_rows n lo). broken r e"
begin

definition crew_ok :: "nat \<Rightarrow> 'w list \<times> 'o \<Rightarrow> bool" where
  "crew_ok thr s \<longleftrightarrow> length (fst s) = thr \<and> (\<forall>w\<in>set (fst s). ready w) \<and> sized (snd s)"

lemma batches_ok:
  assumes "crew_ok thr s" "\<forall>p\<in>set sched. fst p < thr" "do_batches work s sched = Ok t"
  shows "crew_ok thr t \<and> (\<forall>p\<in>set sched. \<forall>r\<in>set (batch_rows n (snd p)). row_done r (snd t))"
  using assms(3) unfolding do_batches_def
proof (rule fold_ok_establishes [where P = "crew_ok thr" and Q = "\<lambda>p t. \<forall>r\<in>set (batch_rows n (snd p)). row_done r (snd t)", rotated -1])
  let ?f = "\<lambda>(ws, out) (k, lo). bind_ok (work lo (ws ! k) out) (\<lambda>(w, out). Ok (ws[k := w], out))"
  have step: "\<exists>w. work (snd p) (fst s ! fst p) (snd s) = Ok (w, snd t) \<and> fst t = (fst s)[fst p := w] \<and> ready (fst s ! fst p) \<and> sized (snd s) \<and> fst p < thr"
    if "p \<in> set sched" "crew_ok thr s" "?f s p = Ok t" for s p t
  proof -
    obtain ws out k lo where s: "s = (ws, out)" "p = (k, lo)" by (cases s; cases p)
    have "k < thr" "ready (ws ! k)" "sized out" using that(1,2) assms(2) by (auto simp: s crew_ok_def)
    then show ?thesis using that(3) by (auto simp: s bind_ok_Ok_iff)
  qed
  show "crew_ok thr t \<and> (\<forall>r\<in>set (batch_rows n (snd p)). row_done r (snd t))" if "p \<in> set sched" "crew_ok thr s" "?f s p = Ok t" for s p t
  proof -
    from step [OF that] obtain w where w: "work (snd p) (fst s ! fst p) (snd s) = Ok (w, snd t)" "fst t = (fst s)[fst p := w]"
      "ready (fst s ! fst p)" "sized (snd s)" by blast
    from work_ok [OF w(3,4,1)] that(2) w(2) show ?thesis by (auto simp: crew_ok_def dest!: set_update_subset_insert [THEN subsetD])
  qed
  show "\<forall>r\<in>set (batch_rows n (snd q)). row_done r (snd t)"
    if "p \<in> set sched" "crew_ok thr s" "\<forall>r\<in>set (batch_rows n (snd q)). row_done r (snd s)" "?f s p = Ok t" for s p t q
  proof -
    from step [OF that(1,2,4)] obtain w where w: "work (snd p) (fst s ! fst p) (snd s) = Ok (w, snd t)" "ready (fst s ! fst p)" "sized (snd s)" by blast
    from work_ok [OF w(2,3,1)] that(3) show ?thesis by blast
  qed
qed (rule assms(1))

lemma batches_fail:
  assumes "crew_ok thr s" "\<forall>p\<in>set sched. fst p < thr" "do_batches work s sched = Fail e"
  shows "\<exists>p\<in>set sched. \<exists>r\<in>set (batch_rows n (snd p)). broken r e"
  using assms
proof (induction sched arbitrary: s)
  case (Cons p sched)
  obtain ws out k lo where s: "s = (ws, out)" "p = (k, lo)" by (cases s; cases p)
  have k: "k < length ws" "ready (ws ! k)" "sized out" using Cons.prems(1,2) by (auto simp: s crew_ok_def)
  show ?case
  proof (cases "work lo (ws ! k) out")
    case (Fail e')
    then have "e' = e" using Cons.prems(3) by (simp add: do_batches_def s)
    with work_fails [OF k(2,3) Fail] show ?thesis by (simp add: s)
  next
    case (Ok x)
    obtain w out' where x: "x = (w, out')" by (cases x)
    from work_ok [OF k(2,3) Ok [unfolded x]] Cons.prems(1) have "crew_ok thr (ws[k := w], out')"
      by (auto simp: crew_ok_def s dest!: set_update_subset_insert [THEN subsetD])
    moreover have "do_batches work (ws[k := w], out') sched = Fail e" using Cons.prems(3) Ok by (simp add: do_batches_def s x)
    ultimately show ?thesis using Cons.IH Cons.prems(2) by auto
  qed
qed (simp add: do_batches_def)

end

section \<open>The rows of the batches\<close>

lemma batch_cover: "concat (map (batch_rows n) (bases BATCH n)) = [0..<n]"
proof -
  have "map (batch_rows n) (bases BATCH n) = map (\<lambda>b. [b..<b + min BATCH (n - b)]) (map (\<lambda>k. k * BATCH) [0..<(n + BATCH - 1) div BATCH])"
    by (simp add: bases_def batch_rows_def comp_def)
  then have "concat (map (batch_rows n) (bases BATCH n)) = [0..<min n ((n + BATCH - 1) div BATCH * BATCH)]"
    using chunk_bases [of BATCH n] by (simp only: BATCH_def zero_less_numeral)
  then show ?thesis using last_base [of BATCH n] by (simp add: min_def BATCH_def)
qed

text \<open>A run of a phase in which every batch is taken by some worker.\<close>

definition crew_schedule :: "nat \<Rightarrow> nat \<Rightarrow> (nat \<times> nat) list \<Rightarrow> bool" where
  "crew_schedule thr n sched \<longleftrightarrow> (\<forall>p\<in>set sched. fst p < thr) \<and> set (map snd sched) = set (bases BATCH n)"

lemma schedule_covers:
  assumes "crew_schedule thr n sched" "r < n"
  shows "\<exists>p\<in>set sched. r \<in> set (batch_rows n (snd p))"
proof -
  have "r \<in> set (concat (map (batch_rows n) (bases BATCH n)))" using assms(2) by (simp add: batch_cover)
  then obtain lo where "lo \<in> set (bases BATCH n)" "r \<in> set (batch_rows n lo)" by auto
  moreover from this(1) assms(1) have "lo \<in> snd ` set sched" by (simp add: crew_schedule_def)
  ultimately show ?thesis by blast
qed

lemma schedule_inside:
  assumes "r \<in> set (batch_rows n lo)"
  shows "r < n" "lo \<le> r" "r - lo < length (batch_rows n lo)" "batch_rows n lo ! (r - lo) = r" "lo + length (batch_rows n lo) \<le> n" "r < lo + length (batch_rows n lo)"
  using assms by (auto simp: batch_rows_def)

lemma batch_length: "length (batch_rows n lo) \<le> BATCH"
  by (simp add: batch_rows_def)

section \<open>Phase 1, point by point\<close>

definition windows_ok :: "layer_params \<Rightarrow> bool" where
  "windows_ok lp \<longleftrightarrow> 0 < ly_n_bins lp \<and> (\<forall>w<ly_n_win lp. w * LAYER_STEP + LAYER_WINDOW \<le> ly_n_ret lp)"

definition worker_ready :: "layer_params \<Rightarrow> layer_scratch \<Rightarrow> bool" where
  "worker_ready lp sc \<longleftrightarrow> windows_ok lp \<and> scratch_ready lp sc \<and> length (ls_lanes sc) = BATCH"

definition table_ok :: "nat \<Rightarrow> fval list list \<Rightarrow> bool" where
  "table_ok n pts \<longleftrightarrow> length pts = n \<and> (\<forall>row\<in>set pts. length row = N_POINT_METRICS \<and> drop 10 row = replicate 5 (Fin 0))"

definition scanned :: "arith \<Rightarrow> nat \<Rightarrow> pr_store \<Rightarrow> layer_params \<Rightarrow> nat \<Rightarrow> int list list \<Rightarrow> nat \<Rightarrow> fval list list \<Rightarrow> bool" where
  "scanned ar nf st lp M ks r pts \<longleftrightarrow> (\<exists>pl x. plan_from_k ar M (ks ! r) = Ok pl \<and> track ar nf st (ly_n_bins lp) pl (ly_n_ret lp) = Ok x \<and>
     pts ! r = point_summary ar (window_stats ar nf st lp pl) @ replicate 5 (Fin 0))"

definition unscannable :: "arith \<Rightarrow> nat \<Rightarrow> pr_store \<Rightarrow> layer_params \<Rightarrow> nat \<Rightarrow> int list list \<Rightarrow> nat \<Rightarrow> mine_error \<Rightarrow> bool" where
  "unscannable ar nf st lp M ks r e \<longleftrightarrow> \<not> internal e \<and> (\<forall>mk. well_begun ar mk st lp M \<and> lattice_points nf M ks \<longrightarrow> outside e) \<and>
     \<not> (\<exists>pl x. plan_from_k ar M (ks ! r) = Ok pl \<and> track ar nf st (ly_n_bins lp) pl (ly_n_ret lp) = Ok x)"

lemma length_point_summary [simp]: "length (point_summary ar ws) = 10"
  by (simp add: point_summary_def summarize_def Let_def)

lemma nth_put_any: "p + length ys \<le> length xs \<Longrightarrow> put_at p ys xs ! k = (if p \<le> k \<and> k < p + length ys then ys ! (k - p) else xs ! k)"
proof (cases "k < length xs")
  case False
  assume p: "p + length ys \<le> length xs"
  then have k: "\<not> k < p" "\<not> k - p < length ys" "p + length ys + (k - p - length ys) = k" using False by linarith+
  from k p show ?thesis by (simp add: put_at_def nth_append)
qed (rule nth_put_at)

lemma put_summaries_rows:
  assumes "table_ok n pts" "lo + length rows \<le> n" "\<forall>row\<in>set rows. length row = 10"
  shows "table_ok n (put_summaries lo rows pts)"
    "put_summaries lo rows pts ! r = (if lo \<le> r \<and> r < lo + length rows then rows ! (r - lo) @ replicate 5 (Fin 0) else pts ! r)"
proof -
  let ?new = "map2 (\<lambda>new old. new @ drop (length new) old) rows (substr pts lo (length rows))"
  have l: "length pts = n" "length ?new = length rows" using assms(1,2) by (simp_all add: table_ok_def length_substr)
  have new: "?new ! j = rows ! j @ replicate 5 (Fin 0)" if "j < length rows" for j
  proof -
    have "length (rows ! j) = 10" "drop 10 (pts ! (lo + j)) = replicate 5 (Fin 0)" using assms that by (simp_all add: table_ok_def)
    then show ?thesis using that l(1) assms(2) by (simp add: length_substr nth_substr)
  qed
  show at: "put_summaries lo rows pts ! r = (if lo \<le> r \<and> r < lo + length rows then rows ! (r - lo) @ replicate 5 (Fin 0) else pts ! r)" for r
    unfolding put_summaries_def using assms(2) l new [of "r - lo"] by (subst nth_put_any) auto
  have len: "length (put_summaries lo rows pts) = n" unfolding put_summaries_def using l assms(2) by (subst length_put_at) auto
  show "table_ok n (put_summaries lo rows pts)"
    unfolding table_ok_def
  proof (intro conjI ballI)
    fix row assume "row \<in> set (put_summaries lo rows pts)"
    then obtain r where r: "r < n" "row = put_summaries lo rows pts ! r" by (auto simp: in_set_conv_nth len)
    then show "length row = N_POINT_METRICS" "drop 10 row = replicate 5 (Fin 0)"
      using at [of r] assms by (auto simp: table_ok_def N_POINT_METRICS_def)
  qed (rule len)
qed

interpretation scan: batch_crew "scan_batch ar nf st lp M ks" "worker_ready lp" "table_ok (length ks)" "length ks" "scanned ar nf st lp M ks" "unscannable ar nf st lp M ks"
  for ar nf st lp M ks
proof
  fix w :: layer_scratch and out out' :: "fval list list" and lo w' e
  assume w: "worker_ready lp w" and o: "table_ok (length ks) out"
  let ?rs = "batch_rows (length ks) lo" and ?row = "\<lambda>pl. point_summary ar (window_stats ar nf st lp pl)"
  have W: "scratch_ready lp w" "0 < ly_n_bins lp" "\<And>i. i < ly_n_win lp \<Longrightarrow> i * LAYER_STEP + LAYER_WINDOW \<le> ly_n_ret lp" "length (ls_lanes w) = BATCH"
    using w by (auto simp: worker_ready_def windows_ok_def)
  {
    assume "scan_batch ar nf st lp M ks lo w out = Ok (w', out')"
    then obtain plans rows wins where P: "map_ok (\<lambda>r. plan_from_k ar M (ks ! r)) ?rs = Ok plans"
      "run_layer_batch ar nf st lp plans w = Ok (w', rows, wins)" "out' = put_summaries lo rows out"
      by (auto simp: scan_batch_def bind_ok_Ok_iff)
    have len: "length plans = length ?rs" by (rule map_ok_length [OF P(1)])
    then have "length plans \<le> length (ls_lanes w)" using batch_length W(4) by simp
    from run_layer_batch_cases(1) [OF W(1) this W(2,3) P(2)] have R: "\<forall>pl\<in>set plans. \<exists>x. track ar nf st (ly_n_bins lp) pl (ly_n_ret lp) = Ok x"
      "scratch_ready lp w'" "length (ls_lanes w') = length (ls_lanes w)" "rows = map ?row plans" by blast+
    have rows: "\<forall>row\<in>set rows. length row = 10" "length rows = length ?rs" by (auto simp: R(4) len)
    show "worker_ready lp w' \<and> table_ok (length ks) out' \<and> (\<forall>r\<in>set ?rs. scanned ar nf st lp M ks r out') \<and>
      (\<forall>r. scanned ar nf st lp M ks r out \<longrightarrow> scanned ar nf st lp M ks r out')"
    proof (cases "?rs = []")
      case True
      then show ?thesis using R(2,3) w o P(3) rows by (simp add: worker_ready_def put_summaries_def put_at_def substr_def)
    next
      case False
      then have in_range: "lo + length rows \<le> length ks" using schedule_inside(5) [of "hd ?rs" "length ks" lo] rows(2) by simp
      note put = put_summaries_rows [OF o in_range rows(1), folded P(3)]
      have new: "scanned ar nf st lp M ks r out'" if r: "r \<in> set ?rs" for r
      proof -
        note s = schedule_inside [OF r]
        have "plan_from_k ar M (ks ! r) = Ok (plans ! (r - lo))" using map_ok_nth [OF P(1) s(3)] s(4) by simp
        moreover have "plans ! (r - lo) \<in> set plans" using s(3) len by simp
        moreover have "out' ! r = ?row (plans ! (r - lo)) @ replicate 5 (Fin 0)" using put(2) [of r] s(2,3,6) len by (simp add: R(4))
        ultimately show ?thesis using R(1) unfolding scanned_def by blast
      qed
      have "scanned ar nf st lp M ks r out'" if "scanned ar nf st lp M ks r out" for r
      proof (cases "r \<in> set ?rs")
        case False
        then have "out' ! r = out ! r" using put(2) [of r] rows(2) by (auto simp: batch_rows_def)
        then show ?thesis using that by (simp add: scanned_def)
      qed (rule new)
      then show ?thesis using new put(1) R(2,3) w by (auto simp: worker_ready_def)
    qed
  }
  assume "scan_batch ar nf st lp M ks lo w out = Fail e"
  then consider "map_ok (\<lambda>r. plan_from_k ar M (ks ! r)) ?rs = Fail e"
    | plans where "map_ok (\<lambda>r. plan_from_k ar M (ks ! r)) ?rs = Ok plans" "run_layer_batch ar nf st lp plans w = Fail e"
    by (auto simp: scan_batch_def bind_ok_Fail_iff)
  then show "\<exists>r\<in>set ?rs. unscannable ar nf st lp M ks r e"
  proof cases
    case 1
    from map_ok_error [OF this] obtain r where r: "r \<in> set ?rs" "plan_from_k ar M (ks ! r) = Fail e" by blast
    then have "r < length ks" using schedule_inside(1) by blast
    then show ?thesis using r plan_from_k_error point_has_plan by (intro bexI [of _ r]) (auto simp: unscannable_def)
  next
    case 2
    have len: "length plans = length ?rs" by (rule map_ok_length [OF 2(1)])
    then have fit: "length plans \<le> length (ls_lanes w)" using batch_length W(4) by simp
    from run_layer_batch_cases(2) [OF W(1) fit W(2,3) 2(2)] obtain pl where pl: "pl \<in> set plans" "\<nexists>x. track ar nf st (ly_n_bins lp) pl (ly_n_ret lp) = Ok x" by blast
    then obtain j where j: "j < length ?rs" "plans ! j = pl" using len by (auto simp: in_set_conv_nth)
    then have "plan_from_k ar M (ks ! (?rs ! j)) = Ok pl" using map_ok_nth [OF 2(1) j(1)] by simp
    then show ?thesis using pl(2) j(1) run_layer_batch_error [OF 2(2)] layer_batch_outside [OF _ W(1) fit 2(2)]
      by (intro bexI [of _ "?rs ! j"]) (auto simp: unscannable_def)
  qed
qed

lemma scan_points_cases:
  assumes "windows_ok lp" "crew_schedule thr (length ks) sched"
  shows "scan_points ar nf st lp M ks thr sched = Ok pts \<Longrightarrow> table_ok (length ks) pts \<and> (\<forall>r<length ks. scanned ar nf st lp M ks r pts)"
    "scan_points ar nf st lp M ks thr sched = Fail e \<Longrightarrow> \<exists>r<length ks. unscannable ar nf st lp M ks r e"
proof -
  let ?s = "(replicate thr (make_layer_scratch lp BATCH), replicate (length ks) (replicate N_POINT_METRICS (Fin 0)))"
  have c: "scan.crew_ok lp ks thr ?s" unfolding scan.crew_ok_def
    using assms(1) fresh_scratch [of lp BATCH] by (auto simp: worker_ready_def table_ok_def N_POINT_METRICS_def drop_replicate)
  have k: "\<forall>p\<in>set sched. fst p < thr" using assms(2) by (simp add: crew_schedule_def)
  {
    assume "scan_points ar nf st lp M ks thr sched = Ok pts"
    then obtain ws where "do_batches (scan_batch ar nf st lp M ks) ?s sched = Ok (ws, pts)" by (auto simp: scan_points_def bind_ok_Ok_iff)
    from scan.batches_ok [OF c k this] schedule_covers [OF assms(2)]
    show "table_ok (length ks) pts \<and> (\<forall>r<length ks. scanned ar nf st lp M ks r pts)" by (fastforce simp: scan.crew_ok_def)
  }
  assume "scan_points ar nf st lp M ks thr sched = Fail e"
  then have "do_batches (scan_batch ar nf st lp M ks) ?s sched = Fail e" by (auto simp: scan_points_def bind_ok_Fail_iff)
  from scan.batches_fail [OF c k this] show "\<exists>r<length ks. unscannable ar nf st lp M ks r e" using schedule_inside(1) by blast
qed

section \<open>Phase 4, style by style\<close>

definition engine_of :: "strategy_spec \<Rightarrow> engine \<Rightarrow> bool" where
  "engine_of spec e \<longleftrightarrow> en_hold_n e = st_hold_n spec \<and> en_exit_ratio e = st_exit_ratio spec"

definition tester_ready :: "strategy_spec \<Rightarrow> pr_store \<Rightarrow> layer_params \<Rightarrow> engine list \<times> layer_scratch \<Rightarrow> bool" where
  "tester_ready spec st lp w \<longleftrightarrow> 0 < sr_n_d st \<and> length (fst w) = BATCH \<and> (\<forall>e\<in>set (fst w). engine_of spec e) \<and> worker_ready lp (snd w)"

definition results_sized :: "nat \<Rightarrow> style_results \<Rightarrow> bool" where
  "results_sized n out \<longleftrightarrow> length (sy_metrics out) = n \<and> length (sy_windows out) = n"

text \<open>The backtest that the weights of row \<open>r\<close> have alone.\<close>

definition own_run ::
  "arith \<Rightarrow> deficit_sorter \<Rightarrow> market_window \<Rightarrow> nat \<Rightarrow> pr_store \<Rightarrow> strategy_spec \<Rightarrow> plan \<Rightarrow> (mine_error, lane list \<times> fval list list) outcome" where
  "own_run ar sorter mk nf st spec pl =
     run_batch ar sorter mk nf st (nat (prefix_need ar spec)) [pl] [new_engine ar (st_hold_n spec) (st_exit_ratio spec)]"

definition tested ::
  "arith \<Rightarrow> deficit_sorter \<Rightarrow> market_window \<Rightarrow> nat \<Rightarrow> pr_store \<Rightarrow> strategy_spec \<Rightarrow> layer_params \<Rightarrow> nat \<Rightarrow> int list list \<Rightarrow> nat list \<Rightarrow> nat \<Rightarrow> style_results \<Rightarrow> bool" where
  "tested ar sorter mk nf st spec lp M ks styles i out \<longleftrightarrow> (\<exists>pl l. plan_from_k ar M (ks ! (styles ! i)) = Ok pl \<and>
     own_run ar sorter mk nf st spec pl = Ok ([l], [sy_metrics out ! i]) \<and> sy_windows out ! i = window_rows (window_stats ar nf st lp pl))"

definition untestable ::
  "arith \<Rightarrow> deficit_sorter \<Rightarrow> market_window \<Rightarrow> nat \<Rightarrow> pr_store \<Rightarrow> strategy_spec \<Rightarrow> layer_params \<Rightarrow> nat \<Rightarrow> int list list \<Rightarrow> fval list list \<Rightarrow> nat list \<Rightarrow> nat
     \<Rightarrow> mine_error \<Rightarrow> bool" where
  "untestable ar sorter mk nf st spec lp M ks pts styles i e \<longleftrightarrow>
     \<not> internal e \<and> (well_begun ar mk st lp M \<and> lattice_points nf M ks \<and> set styles \<subseteq> {..<length ks} \<longrightarrow> outside e) \<and> (\<forall>pl x. plan_from_k ar M (ks ! (styles ! i)) = Ok pl \<longrightarrow> track ar nf st (ly_n_bins lp) pl (ly_n_ret lp) = Ok x \<longrightarrow>
        (\<nexists>l m. own_run ar sorter mk nf st spec pl = Ok ([l], [m]))) \<or>
     e = RecheckDiffers \<and> (\<exists>pl. plan_from_k ar M (ks ! (styles ! i)) = Ok pl \<and>
        \<not> same_summary (point_summary ar (window_stats ar nf st lp pl)) (pts ! (styles ! i)))"

text \<open>The engines keep their settings.\<close>

lemma lane_days_settings:
  "fold_ok (\<lambda>l i. lane_day ar sorter mk nf st k i (p, l)) l is = Ok l' \<Longrightarrow> engine_of spec (ln_engine l) \<Longrightarrow> engine_of spec (ln_engine l')"
proof (induction "is" arbitrary: l)
  case (Cons i "is")
  then obtain m where m: "lane_day ar sorter mk nf st k i (p, l) = Ok m" "fold_ok (\<lambda>l i. lane_day ar sorter mk nf st k i (p, l)) m is = Ok l'"
    by (auto simp: bind_ok_Ok_iff)
  from m(1) obtain sel where "lift_error BatchEngine (step ar sorter mk i sel (ln_engine l)) = Ok (ln_engine m)"
    by (auto simp: lane_day_def Let_def bind_ok_Ok_iff)
  then have "engine_of spec (ln_engine m)" using step_settings Cons.prems(2) by (auto simp: lift_error_Ok_iff engine_of_def)
  with Cons.IH [OF m(2)] show ?case by simp
qed simp

lemma run_batch_settings:
  assumes "run_batch ar sorter mk nf st k plans engs = Ok (lns, out)" "length plans \<le> length engs" "\<forall>e\<in>set engs. engine_of spec e"
  shows "\<forall>l\<in>set lns. engine_of spec (ln_engine l)"
proof -
  let ?ls = "map (start_lane ar) (take (length plans) engs)"
  have run: "fold_ok (\<lambda>lns i. map_ok (lane_day ar sorter mk nf st k i) (zip plans lns)) ?ls [0..<sr_n_d st] = Ok lns"
    using assms(1) by (auto simp: run_batch_def batch_days_def bind_ok_Ok_iff)
  from lanes_apart [THEN iffD1, OF _ run] assms(2)
  have each: "length lns = length plans" "\<forall>b<length plans. fold_ok (\<lambda>l i. lane_day ar sorter mk nf st k i (plans ! b, l)) (?ls ! b) [0..<sr_n_d st] = Ok (lns ! b)"
    by simp_all
  have "engine_of spec (ln_engine (lns ! b))" if "b < length plans" for b
  proof (rule lane_days_settings)
    show "fold_ok (\<lambda>l i. lane_day ar sorter mk nf st k i (plans ! b, l)) (?ls ! b) [0..<sr_n_d st] = Ok (lns ! b)" using each(2) that by blast
    show "engine_of spec (ln_engine (?ls ! b))" using that assms(2,3) by (simp add: start_lane_def reset_def engine_of_def)
  qed
  then show ?thesis using each(1) by (auto simp: in_set_conv_nth)
qed

text \<open>A batch that stops has a vector that stops alone.\<close>

lemma run_batch_stops:
  assumes "run_batch ar sorter mk nf st (nat (prefix_need ar spec)) plans engs = Fail e" "length plans \<le> length engs" "\<forall>e\<in>set engs. engine_of spec e" "0 < sr_n_d st"
  shows "\<exists>b<length plans. \<nexists>l m. own_run ar sorter mk nf st spec (plans ! b) = Ok ([l], [m])"
proof (rule ccontr)
  assume "\<not> ?thesis"
  then obtain l m where lm: "\<forall>b<length plans. own_run ar sorter mk nf st spec (plans ! b) = Ok ([l b], [m b])" by metis
  have "\<forall>e\<in>set engs. en_hold_n e = st_hold_n spec \<and> en_exit_ratio e = st_exit_ratio spec" using assms(3) by (simp add: engine_of_def)
  from run_batch_alone [OF assms(2) this assms(4), THEN iffD2, of "map l [0..<length plans]" "map m [0..<length plans]" ar sorter mk nf "nat (prefix_need ar spec)"] lm
  have "run_batch ar sorter mk nf st (nat (prefix_need ar spec)) plans engs = Ok (map l [0..<length plans], map m [0..<length plans])"
    by (simp add: own_run_def)
  with assms(1) show False by simp
qed

interpretation test: batch_crew "test_batch ar sorter mk nf st (nat (prefix_need ar spec)) lp M ks pts styles" "tester_ready spec st lp" "results_sized (length styles)"
    "length styles" "tested ar sorter mk nf st spec lp M ks styles" "untestable ar sorter mk nf st spec lp M ks pts styles"
  for ar sorter mk nf st spec lp M ks pts styles
proof
  fix w w' :: "engine list \<times> layer_scratch" and out out' lo e
  assume w: "tester_ready spec st lp w" and o: "results_sized (length styles) out"
  obtain engs lsc where w_def: "w = (engs, lsc)" by (cases w)
  let ?rs = "batch_rows (length styles) lo" and ?ws = "window_stats ar nf st lp" and ?k = "nat (prefix_need ar spec)"
  let ?plan = "\<lambda>i. plan_from_k ar M (ks ! (styles ! i))"
  have W: "scratch_ready lp lsc" "0 < ly_n_bins lp" "\<And>i. i < ly_n_win lp \<Longrightarrow> i * LAYER_STEP + LAYER_WINDOW \<le> ly_n_ret lp" "length (ls_lanes lsc) = BATCH"
    and E: "length engs = BATCH" "\<forall>e\<in>set engs. engine_of spec e" "0 < sr_n_d st"
    using w by (auto simp: tester_ready_def worker_ready_def windows_ok_def w_def)
  have fit: "length plans \<le> length engs" "length plans \<le> length (ls_lanes lsc)" if "map_ok ?plan ?rs = Ok plans" for plans
    using map_ok_length [OF that] batch_length E(1) W(4) by simp_all
  have E': "\<forall>e\<in>set engs. en_hold_n e = st_hold_n spec \<and> en_exit_ratio e = st_exit_ratio spec" using E(2) by (simp add: engine_of_def)
  {
    assume "test_batch ar sorter mk nf st ?k lp M ks pts styles lo w out = Ok (w', out')"
    then obtain plans lns bt lsc' rows wins where P: "map_ok ?plan ?rs = Ok plans" "run_batch ar sorter mk nf st ?k plans engs = Ok (lns, bt)"
      "run_layer_batch ar nf st lp plans lsc = Ok (lsc', rows, wins)" "w' = (map ln_engine lns @ drop (length lns) engs, lsc')"
      "out' = out\<lparr>sy_metrics := put_at lo bt (sy_metrics out), sy_windows := put_at lo wins (sy_windows out)\<rparr>"
      by (auto simp: test_batch_def w_def Let_def bind_ok_Ok_iff split: if_splits)
    have len: "length plans = length ?rs" by (rule map_ok_length [OF P(1)])
    from P(2) [unfolded run_batch_alone [OF fit(1) [OF P(1)] E' E(3)]] have B: "length lns = length plans" "length bt = length plans"
      "\<forall>b<length plans. own_run ar sorter mk nf st spec (plans ! b) = Ok ([lns ! b], [bt ! b])" by (auto simp: own_run_def)
    from run_layer_batch_cases(1) [OF W(1) fit(2) [OF P(1)] W(2,3) P(3)]
    have R: "scratch_ready lp lsc'" "length (ls_lanes lsc') = length (ls_lanes lsc)" "wins = map (\<lambda>pl. window_rows (?ws pl)) plans" by blast+
    have "\<forall>e\<in>set (map ln_engine lns @ drop (length lns) engs). engine_of spec e"
      using run_batch_settings [OF P(2) fit(1) [OF P(1)] E(2)] E(2) by (auto dest: in_set_dropD)
    then have ready: "tester_ready spec st lp w'"
      using R(1,2) w B(1) len batch_length [of "length styles" lo] E(1) by (auto simp: tester_ready_def worker_ready_def P(4) w_def)
    have wl: "length wins = length ?rs" "length bt = length ?rs" by (simp_all add: R(3) len B(2))
    show "tester_ready spec st lp w' \<and> results_sized (length styles) out' \<and> (\<forall>r\<in>set ?rs. tested ar sorter mk nf st spec lp M ks styles r out') \<and>
      (\<forall>r. tested ar sorter mk nf st spec lp M ks styles r out \<longrightarrow> tested ar sorter mk nf st spec lp M ks styles r out')"
    proof (cases "?rs = []")
      case True
      then have "out' = out" using wl by (simp add: P(5) put_at_def)
      then show ?thesis using ready o True by simp
    next
      case False
      then have in_range: "lo + length ?rs \<le> length styles" using schedule_inside(5) [of "hd ?rs" "length styles" lo] by simp
      have at: "sy_metrics out' ! r = (if lo \<le> r \<and> r < lo + length ?rs then bt ! (r - lo) else sy_metrics out ! r)"
        "sy_windows out' ! r = (if lo \<le> r \<and> r < lo + length ?rs then wins ! (r - lo) else sy_windows out ! r)" for r
        using o in_range wl by (simp_all add: P(5) results_sized_def nth_put_any)
      have new: "tested ar sorter mk nf st spec lp M ks styles r out'" if r: "r \<in> set ?rs" for r
      proof -
        note s = schedule_inside [OF r]
        have b: "r - lo < length plans" using s(3) len by simp
        have "?plan r = Ok (plans ! (r - lo))" using map_ok_nth [OF P(1) s(3)] s(4) by simp
        moreover have "sy_metrics out' ! r = bt ! (r - lo)" "sy_windows out' ! r = window_rows (?ws (plans ! (r - lo)))"
          using at [of r] s(2,6) b by (simp_all add: R(3))
        ultimately show ?thesis using B(3) b unfolding tested_def by (metis (no_types, lifting))
      qed
      have "tested ar sorter mk nf st spec lp M ks styles r out'" if "tested ar sorter mk nf st spec lp M ks styles r out" for r
      proof (cases "r \<in> set ?rs")
        case False
        then have "sy_metrics out' ! r = sy_metrics out ! r" "sy_windows out' ! r = sy_windows out ! r" using at [of r] by (auto simp: batch_rows_def)
        then show ?thesis using that by (simp add: tested_def)
      qed (rule new)
      moreover have "results_sized (length styles) out'" using o in_range wl by (simp add: P(5) results_sized_def)
      ultimately show ?thesis using new ready by blast
    qed
  }
  assume "test_batch ar sorter mk nf st ?k lp M ks pts styles lo w out = Fail e"
  then consider "map_ok ?plan ?rs = Fail e" | plans where "map_ok ?plan ?rs = Ok plans" "run_batch ar sorter mk nf st ?k plans engs = Fail e"
    | plans where "map_ok ?plan ?rs = Ok plans" "run_layer_batch ar nf st lp plans lsc = Fail e"
    | plans lsc' rows wins where "map_ok ?plan ?rs = Ok plans" "run_layer_batch ar nf st lp plans lsc = Ok (lsc', rows, wins)"
      "\<not> list_all (\<lambda>(row, i). same_summary row (pts ! (styles ! i))) (zip rows ?rs)" "e = RecheckDiffers"
    by (auto simp: test_batch_def w_def Let_def bind_ok_Fail_iff split: if_splits)
  then show "\<exists>r\<in>set ?rs. untestable ar sorter mk nf st spec lp M ks pts styles r e"
  proof cases
    case 1
    from map_ok_error [OF this] obtain r where r: "r \<in> set ?rs" "?plan r = Fail e" by blast
    have "outside e" if "well_begun ar mk st lp M \<and> lattice_points nf M ks \<and> set styles \<subseteq> {..<length ks}"
    proof -
      have "styles ! r < length ks" using that nth_mem [OF schedule_inside(1) [OF r(1)]] by blast
      then show ?thesis using point_has_plan that r(2) by blast
    qed
    with r plan_from_k_error show ?thesis by (intro bexI [of _ r]) (auto simp: untestable_def)
  next
    case 2
    from run_batch_stops [OF 2(2) fit(1) [OF 2(1)] E(2,3)] obtain b where b: "b < length plans" "\<nexists>l m. own_run ar sorter mk nf st spec (plans ! b) = Ok ([l], [m])" by blast
    then have "b < length ?rs" using map_ok_length [OF 2(1)] by simp
    then show ?thesis using b(2) map_ok_nth [OF 2(1), of b] run_batch_error [OF 2(2)] run_batch_outside [OF _ 2(2)]
      by (intro bexI [of _ "?rs ! b"]) (auto simp: untestable_def well_begun_def)
  next
    case 3
    from run_layer_batch_cases(2) [OF W(1) fit(2) [OF 3(1)] W(2,3) 3(2)] obtain b where b: "b < length plans" "\<nexists>x. track ar nf st (ly_n_bins lp) (plans ! b) (ly_n_ret lp) = Ok x"
      by (metis in_set_conv_nth)
    then have "b < length ?rs" using map_ok_length [OF 3(1)] by simp
    then show ?thesis using b(2) map_ok_nth [OF 3(1), of b] run_layer_batch_error [OF 3(2)] layer_batch_outside [of ar mk st lp M, OF _ W(1) fit(2) [OF 3(1)] 3(2)]
      by (intro bexI [of _ "?rs ! b"]) (auto simp: untestable_def)
  next
    case 4
    have rows: "rows = map (\<lambda>pl. point_summary ar (?ws pl)) plans" using run_layer_batch_cases(1) [OF W(1) fit(2) [OF 4(1)] W(2,3) 4(2)] by blast
    from 4(3) obtain b where b: "b < length plans" "b < length ?rs" "\<not> same_summary (point_summary ar (?ws (plans ! b))) (pts ! (styles ! (?rs ! b)))"
      by (auto simp: list_all_iff set_zip rows)
    then show ?thesis using map_ok_nth [OF 4(1) b(2)] 4(4) by (intro bexI [of _ "?rs ! b"]) (auto simp: untestable_def)
  qed
qed

lemma test_styles_cases:
  assumes "windows_ok lp" "crew_schedule thr (length styles) sched" "0 < sr_n_d st"
  shows "test_styles ar sorter mk nf st spec lp M ks pts styles thr sched = Ok out \<Longrightarrow>
      results_sized (length styles) out \<and> (\<forall>i<length styles. tested ar sorter mk nf st spec lp M ks styles i out)"
    "test_styles ar sorter mk nf st spec lp M ks pts styles thr sched = Fail e \<Longrightarrow> \<exists>i<length styles. untestable ar sorter mk nf st spec lp M ks pts styles i e"
proof -
  let ?s = "(replicate thr (make_engines ar spec, make_layer_scratch lp BATCH),
    \<lparr>sy_metrics = replicate (length styles) (replicate 7 (Fin 0)), sy_windows = replicate (length styles) (replicate (ly_n_win lp) (replicate 4 (Fin 0)))\<rparr>)"
  let ?f = "test_batch ar sorter mk nf st (nat (prefix_need ar spec)) lp M ks pts styles"
  have c: "test.crew_ok spec st lp styles thr ?s" unfolding test.crew_ok_def
    using assms(1,3) fresh_scratch [of lp BATCH]
    by (auto simp: tester_ready_def worker_ready_def results_sized_def make_engines_def engine_of_def new_engine_def reset_def)
  have k: "\<forall>p\<in>set sched. fst p < thr" using assms(2) by (simp add: crew_schedule_def)
  {
    assume "test_styles ar sorter mk nf st spec lp M ks pts styles thr sched = Ok out"
    then obtain ws where "do_batches ?f ?s sched = Ok (ws, out)" by (auto simp: test_styles_def bind_ok_Ok_iff)
    from test.batches_ok [OF c k this] schedule_covers [OF assms(2)]
    show "results_sized (length styles) out \<and> (\<forall>i<length styles. tested ar sorter mk nf st spec lp M ks styles i out)" by (fastforce simp: test.crew_ok_def)
  }
  assume "test_styles ar sorter mk nf st spec lp M ks pts styles thr sched = Fail e"
  then have "do_batches ?f ?s sched = Fail e" by (auto simp: test_styles_def bind_ok_Fail_iff)
  from test.batches_fail [OF c k this] show "\<exists>i<length styles. untestable ar sorter mk nf st spec lp M ks pts styles i e" using schedule_inside(1) by blast
qed

section \<open>The phases between\<close>

lemma score_points_ok:
  assumes "2 \<le> n" "0 < M" "build_lattice n M = Ok ks" "table_ok (length ks) pts" "set ord = {..<length ks}"
  shows "\<exists>out. score_points ar n M ord ks pts = Ok out \<and> length out = length ks \<and> (\<forall>i<length ks. \<forall>c<10. out ! i ! c = pts ! i ! c)"
proof -
  have len: "length pts = length ks" "\<And>i. i < length ks \<Longrightarrow> length (pts ! i) = 15" using assms(4) by (simp_all add: table_ok_def N_POINT_METRICS_def)
  let ?u1 = "pct_rank ar (map (\<lambda>row. row ! 0) pts)" and ?u2 = "pct_rank ar (map (\<lambda>row. row ! 6) pts)"
  let ?g = "sensitivity ar n M ks ?u2"
  have "\<exists>v. ?g r = Ok v" if "r < length ks" for r
  proof -
    have "ks ! r \<in> set ks" using that by (rule nth_mem)
    from hop_rows [OF assms(1-3) this] obtain rows where rows: "neighbour_rows n M (ks ! r) = Ok rows" "rows \<noteq> []" "\<forall>r\<in>set rows. r < length ks"
      by blast
    then show ?thesis by (simp add: sensitivity_def Let_def list_all_iff)
  qed
  then have "\<forall>r\<in>set ord. \<exists>v. ?g r = Ok v" using assms(5) by simp
  then obtain sens where sens: "fill_cells ?g ord (replicate (length pts) (Fin 0)) = Ok sens" using fill_cells_total by blast
  define out where "out = map (\<lambda>i. score_row ar ?u1 ?u2 sens (pct_rank ar (map fneg sens)) i (pts ! i)) [0..<length pts]"
  have "score_points ar n M ord ks pts = Ok out" unfolding score_points_def Let_def sens bind_ok.simps out_def ..
  moreover have "length out = length ks" "\<forall>i<length ks. \<forall>c<10. out ! i ! c = pts ! i ! c" using len by (auto simp: out_def score_row_def)
  ultimately show ?thesis by blast
qed

lemma build_holdings_error: "build_holdings ar nf st hn pl = Fail e \<Longrightarrow> \<not> internal e"
  by (auto simp: build_holdings_def holdings_day_def bind_ok_Fail_iff internal_def dest!: map_ok_error dest: select_top_error [unfolded internal_def] split: if_splits)

lemma find_styles_error:
  assumes "find_styles ar pick ord nf M st hn ks pts = Fail e"
  shows "\<not> internal e"
proof -
  have hold: "point_holdings ar nf M st hn ks c = Fail e \<Longrightarrow> \<not> internal e" for c
    by (auto simp: point_holdings_def bind_ok_Fail_iff dest: plan_from_k_error build_holdings_error)
  have "dedup_chunk ar (point_holdings ar nf M st hn ks) nd hn cand ord CH x base = Fail e \<Longrightarrow> \<not> internal e" for nd cand CH x base
    by (cases x) (auto simp: dedup_chunk_def Let_def bind_ok_Fail_iff dest!: fill_cells_Fail dest: hold)
  with assms show ?thesis by (auto simp: find_styles_def dedup_def bind_ok_Fail_iff dest!: fold_ok_stops)
qed

lemma find_styles_stops:
  assumes "find_styles ar pick ord nf M st hn ks pts = Fail e" "nth_element_ok pick" "\<And>b. set (ord b) = {..<min 512 (min (length pts) MINE_DEDUP_CAND - b)}"
  shows "\<exists>c<length pts. point_holdings ar nf M st hn ks c = Fail e"
proof -
  let ?cand = "best_points pick MINE_DEDUP_CAND (map (\<lambda>row. row ! 14) pts)" and ?hold = "point_holdings ar nf M st hn ks"
  have cand: "set ?cand \<subseteq> {..<length pts}" "length ?cand = min (length pts) MINE_DEDUP_CAND"
    unfolding best_points_take [OF assms(2)] by (rule order.trans [OF set_take_subset]) (auto simp: in_order_def set_zip min.commute)
  obtain x base where "dedup_chunk ar ?hold (sr_n_d st) hn ?cand ord 512 x base = Fail e"
    using assms(1) by (auto simp: find_styles_def dedup_def bind_ok_Fail_iff dest!: fold_ok_stops)
  then obtain buf where "fill_cells (\<lambda>b. ?hold (?cand ! (base + b))) (ord base) buf = Fail e"
    by (cases x) (auto simp: dedup_chunk_def Let_def bind_ok_Fail_iff)
  from fill_cells_Fail [OF this] obtain b where b: "b < length ?cand - base" "?hold (?cand ! (base + b)) = Fail e"
    using assms(3) [of base] cand(2) by auto
  then have "?cand ! (base + b) \<in> set ?cand" by (intro nth_mem) simp
  with cand(1) b(2) show ?thesis by blast
qed

lemma accept_styles: "set (ch_styles (accept ar nd hn ch (c, h))) \<subseteq> insert c (set (ch_styles ch))"
  by (auto simp: accept_def)

lemma find_styles_points:
  assumes "find_styles ar pick ord nf M st hn ks pts = Ok ch" "nth_element_ok pick"
  shows "set (ch_styles ch) \<subseteq> {..<length pts}"
proof -
  let ?cand = "best_points pick MINE_DEDUP_CAND (map (\<lambda>row. row ! 14) pts)" and ?hold = "point_holdings ar nf M st hn ks"
  let ?P = "\<lambda>s. set (ch_styles (snd s)) \<subseteq> set ?cand"
  have "set ?cand \<subseteq> {..<length pts}"
    unfolding best_points_take [OF assms(2)] by (rule order.trans [OF set_take_subset]) (auto simp: in_order_def set_zip)
  moreover have "set (ch_styles ch) \<subseteq> set ?cand"
  proof -
    obtain buf where run: "fold_ok (dedup_chunk ar ?hold (sr_n_d st) hn ?cand ord 512) (replicate 512 [], \<lparr>ch_styles = [], ch_accepted = []\<rparr>) (bases 512 (length ?cand)) = Ok (buf, ch)"
      using assms(1) by (auto simp: find_styles_def dedup_def bind_ok_Ok_iff)
    have "?P (buf, ch)"
    proof (rule fold_ok_invariant [where P = ?P, OF _ _ run])
      fix s t base assume s: "?P s" "dedup_chunk ar ?hold (sr_n_d st) hn ?cand ord 512 s base = Ok t"
      obtain b0 c0 where s_def: "s = (b0, c0)" by (cases s)
      from s(2) obtain b1 where t: "t = (b1, foldl (\<lambda>ch b. accept ar (sr_n_d st) hn ch (?cand ! (base + b), b1 ! b)) c0 [0..<min 512 (length ?cand - base)])"
        by (auto simp: s_def dedup_chunk_def Let_def bind_ok_Ok_iff)
      have "set (ch_styles (foldl (\<lambda>ch b. accept ar (sr_n_d st) hn ch (?cand ! (base + b), b1 ! b)) c bs)) \<subseteq> set ?cand"
        if "set bs \<subseteq> {..<length ?cand - base}" "set (ch_styles c) \<subseteq> set ?cand" for bs c
        using that
      proof (induction bs arbitrary: c)
        case (Cons b bs)
        have "?cand ! (base + b) \<in> set ?cand" using Cons.prems(1) by (intro nth_mem) auto
        then have "set (ch_styles (accept ar (sr_n_d st) hn c (?cand ! (base + b), b1 ! b))) \<subseteq> set ?cand"
          using accept_styles [of ar "sr_n_d st" hn c "?cand ! (base + b)" "b1 ! b"] Cons.prems(2) by blast
        with Cons.IH Cons.prems(1) show ?case by simp
      qed simp
      then show "?P t" using s(1) by (simp add: t s_def lessThan_atLeast0)
    qed simp
    then show ?thesis by simp
  qed
  ultimately show ?thesis by blast
qed

lemma check_index_ok:
  assumes "0 < n" "0 < M" "build_lattice n M = Ok ks"
  shows "check_index n M ks = Ok ()"
proof -
  have total: "lattice_total n M = length ks" 
    using assms n_ways_nth [of 0 n M M] by (simp add: lattice_total_def build_lattice_suffixes)
  define step where "step = max 1 (length ks div 10000)"
  have "j * step < length ks" if "j < (length ks + step - 1) div step" for j
  proof -
    have "Suc j * step \<le> length ks + step - 1" using that by (metis Suc_leI div_times_less_eq_dividend mult_le_mono1 order_trans)
    then show ?thesis by (simp add: step_def)
  qed
  then have "fold_ok (\<lambda>u r. bind_ok (lift_error LatticeError (lattice_index n M (ks ! r))) (\<lambda>i. if \<not> i = r then Fail LatticeIndexDiffers else Ok ()))
      () rs = Ok ()" if "set rs \<subseteq> (\<lambda>j. j * step) ` {..<(length ks + step - 1) div step}" for rs
    using that
  proof (induction rs)
    case (Cons r rs)
    then have "r < length ks" by auto
    from lattice_rows(3) [OF assms this] Cons show ?case by simp
  qed simp
  then show ?thesis unfolding check_index_def Let_def total step_def [symmetric] by (simp add: lessThan_atLeast0)
qed

section \<open>The self-check\<close>

lemma gap_self:
  assumes "rounding rnd" "fless (Fin 0) x"
  shows "std_max (Fin 0) (fdiv rnd (fabs (fsub rnd x x)) x) = Fin 0"
  using assms(2) rounding.rnd_0 [OF assms(1)] by (cases x) (simp_all add: fsub_def std_max_def)

lemma nav_gaps_self:
  assumes "rounding (double ar)"
  shows "fold_ok (nav_gap ar navs navs) (Fin 0) is = (if \<forall>i\<in>set is. fless (Fin 0) (navs ! i) then Ok (Fin 0) else Fail RefNotPositive)"
  by (induction "is") (auto simp: nav_gap_def Let_def gap_self [OF assms])

text \<open>A plan of which the layers and the portfolio go through alone.\<close>

definition plan_runs :: "arith \<Rightarrow> deficit_sorter \<Rightarrow> market_window \<Rightarrow> nat \<Rightarrow> pr_store \<Rightarrow> strategy_spec \<Rightarrow> layer_params \<Rightarrow> plan \<Rightarrow> bool" where
  "plan_runs ar sorter mk nf st spec lp pl \<longleftrightarrow> (\<exists>x l m. track ar nf st (ly_n_bins lp) pl (ly_n_ret lp) = Ok x \<and> own_run ar sorter mk nf st spec pl = Ok ([l], [m]))"

lemma make_engines_ready: "length (make_engines ar spec) = BATCH" "\<forall>e\<in>set (make_engines ar spec). engine_of spec e"
  by (simp_all add: make_engines_def engine_of_def new_engine_def reset_def)

lemma self_check_passes:
  assumes "rounding (double ar)" "fless (Fin 0) (double ar (1 / 10 ^ 9))" "rounding (single ar)"
    "case batch_days ar sorter mk nf st (nat (prefix_need ar spec)) [p0] [new_engine ar (st_hold_n spec) (st_exit_ratio spec)] of
      Fail e \<Rightarrow> True | Ok lns \<Rightarrow> \<exists>l. lns = [l] \<and> ln_navs l = navs" "stocked mk st" "0 < sr_n_d st"
  shows "case self_check ar sorter mk nf st spec p0 navs of
      Fail e \<Rightarrow> outside e \<and> (\<nexists>l m. own_run ar sorter mk nf st spec p0 = Ok ([l], [m])) \<or> e = RefNotPositive \<and> (\<exists>i < sr_n_d st. \<not> fless (Fin 0) (navs ! i))
    | Ok d \<Rightarrow> d = Fin 0"
proof -
  let ?k = "nat (prefix_need ar spec)"
  have same: "batch_days ar sorter mk nf st ?k [p0] (make_engines ar spec) = batch_days ar sorter mk nf st ?k [p0] [new_engine ar (st_hold_n spec) (st_exit_ratio spec)]"
    by (simp add: batch_days_def make_engines_def BATCH_def)
  show ?thesis
  proof (cases "run_batch ar sorter mk nf st ?k [p0] (make_engines ar spec)")
    case (Fail e)
    have "\<nexists>l m. own_run ar sorter mk nf st spec p0 = Ok ([l], [m])"
      using run_batch_stops [OF Fail _ make_engines_ready(2) assms(6)] by (simp add: make_engines_ready(1) BATCH_def)
    then show ?thesis using run_batch_outside [OF assms(5) Fail] Fail by (simp add: self_check_def)
  next
    case (Ok x)
    then obtain lns bt where x: "x = (lns, bt)" "batch_days ar sorter mk nf st ?k [p0] (make_engines ar spec) = Ok lns"
      by (auto simp: run_batch_def bind_ok_Ok_iff)
    then have "ln_navs (hd lns) = navs" using assms(4) by (auto simp: same)
    then show ?thesis using assms(2) rounding.rnd_0 [OF assms(3)]
      by (auto simp: self_check_def Ok x(1) narrow_def nav_gaps_self [OF assms(1)])
  qed
qed

text \<open>The window of a backtest.\<close>

lemma run_days_window:
  assumes "run_days ar dsort wsort ax meta T nt spec s = Ok (rv, b)"
  shows "0 \<le> lower_d ax (st_bt_start_date spec)" "lower_d ax (st_bt_start_date spec) < int (n_d ax)" "rv_d_lo rv = nat (lower_d ax (st_bt_start_date spec))"
    "load_market ax T (lower_d ax (st_bt_start_date spec)) (int (n_d ax - rv_d_lo rv)) = Ok (rv_market rv)"
    "fold_ok (backtest_day rv (st_hold_n spec * 2)) (new_book ar spec) [0..<n_d ax - rv_d_lo rv] = Ok b"
    "rv_axes rv = ax" "rv_tensor rv = T" "rv_strategy rv = s"
proof -
  let ?lo = "find_d ax (st_bt_start_date spec) False"
  have lo: "lower_d ax (st_bt_start_date spec) = ?lo" by (simp add: lower_d_def find_d_def Let_def)
  from assms obtain mk where mk: "0 \<le> ?lo" "?lo \<le> int (n_d ax) - 1" "load_market ax T ?lo (int (n_d ax) - 1 + 1 - ?lo) = Ok mk"
    "rv = \<lparr>rv_ar = ar, rv_deficits = dsort, rv_weights = wsort, rv_axes = ax,
      rv_meta = meta, rv_tensor = T, rv_timeline = nt, rv_strategy = s, rv_d_lo = nat ?lo, rv_market = mk\<rparr>"
    and run: "fold_ok (backtest_day rv (st_hold_n spec * 2)) (new_book ar spec) [0..<nat (int (n_d ax) - 1 + 1 - ?lo)] = Ok b"
    unfolding run_days_def Let_def by (auto simp: bind_ok_Ok_iff lift_error_Ok_iff split: if_splits)
  have rv: "rv_d_lo rv = nat ?lo" "rv_market rv = mk" by (simp_all add: mk(4))
  have n: "int (n_d ax) - 1 + 1 - ?lo = int (n_d ax - rv_d_lo rv)" using mk(1,2) by (simp add: rv)
  show "0 \<le> lower_d ax (st_bt_start_date spec)" "lower_d ax (st_bt_start_date spec) < int (n_d ax)" "rv_d_lo rv = nat (lower_d ax (st_bt_start_date spec))"
    using mk(1,2) rv(1) by (simp_all add: lo)
  show "load_market ax T (lower_d ax (st_bt_start_date spec)) (int (n_d ax - rv_d_lo rv)) = Ok (rv_market rv)" using mk(3) unfolding n lo rv(2) .
  show "fold_ok (backtest_day rv (st_hold_n spec * 2)) (new_book ar spec) [0..<n_d ax - rv_d_lo rv] = Ok b" using run unfolding n by simp
  show "rv_axes rv = ax" "rv_tensor rv = T" "rv_strategy rv = s" by (simp_all add: mk(4))
qed

lemma backtest_days_length:
  "fold_ok (backtest_day rv w) b0 [0..<m] = Ok b \<Longrightarrow> \<forall>i<m. rank_column_ok (rv_axes rv) (rv_strategy rv) (rv_d_lo rv + i) (rv_tensor rv) \<Longrightarrow>
     length (bk_strat_nav b) = length (bk_strat_nav b0) + m"
proof (induction m arbitrary: b)
  case (Suc m)
  from Suc.prems(1) obtain b1 where b1: "fold_ok (backtest_day rv w) b0 [0..<m] = Ok b1" "backtest_day rv w b1 m = Ok b"
    by (auto simp: fold_ok_append bind_ok_Ok_iff)
  from backtest_day_nav [OF _ b1(2)] Suc.prems(2) have "length (bk_strat_nav b) = Suc (length (bk_strat_nav b1))" by fastforce
  with Suc.IH [OF b1(1)] Suc.prems(2) show ?case by simp
qed simp

section \<open>The whole run\<close>

definition env_ok :: "mine_env \<Rightarrow> bool" where
  "env_ok env \<longleftrightarrow> nth_element_ok (mv_pick env) \<and> (\<forall>n. set (mv_days2 env n) = {..<n} \<and> set (mv_days3 env n) = {..<n} \<and> set (mv_sens env n) = {..<n} \<and>
     crew_schedule (mv_threads env) n (mv_scan env n) \<and> crew_schedule (mv_threads env) n (mv_test env n) \<and> (\<forall>b. set (mv_hold env n b) = {..<min 512 (n - b)}))"

text \<open>What a run that ends has found: every point with the summary that it has alone, every style with the backtest and the windows that it has alone.\<close>

definition mined_ok :: "arith \<Rightarrow> deficit_sorter \<Rightarrow> market_window \<Rightarrow> nat \<Rightarrow> pr_store \<Rightarrow> strategy_spec \<Rightarrow> layer_params \<Rightarrow> nat \<Rightarrow> mined \<Rightarrow> bool" where
  "mined_ok ar sorter mk nf st spec lp M m \<longleftrightarrow> build_lattice nf M = Ok (md_grid m) \<and> length (md_points m) = length (md_grid m) \<and>
     (\<forall>r<length (md_grid m). \<exists>pl x. plan_from_k ar M (md_grid m ! r) = Ok pl \<and> track ar nf st (ly_n_bins lp) pl (ly_n_ret lp) = Ok x \<and>
        (\<forall>c<10. md_points m ! r ! c = point_summary ar (window_stats ar nf st lp pl) ! c)) \<and>
     (\<forall>i<length (md_styles m). md_styles m ! i < length (md_grid m) \<and> tested ar sorter mk nf st spec lp M (md_grid m) (md_styles m) i (md_results m))"

definition nan_summary :: "arith \<Rightarrow> nat \<Rightarrow> pr_store \<Rightarrow> layer_params \<Rightarrow> nat \<Rightarrow> bool" where
  "nan_summary ar nf st lp M \<longleftrightarrow> (\<exists>ks k pl c. build_lattice nf M = Ok ks \<and> k \<in> set ks \<and> plan_from_k ar M k = Ok pl \<and> c < 10 \<and>
     point_summary ar (window_stats ar nf st lp pl) ! c = NaN)"

text \<open>A point of which every step goes through alone.\<close>

definition point_runs ::
  "arith \<Rightarrow> deficit_sorter \<Rightarrow> market_window \<Rightarrow> nat \<Rightarrow> pr_store \<Rightarrow> strategy_spec \<Rightarrow> layer_params \<Rightarrow> nat \<Rightarrow> int list \<Rightarrow> bool" where
  "point_runs ar sorter mk nf st spec lp M k \<longleftrightarrow> (\<exists>pl x h l m. plan_from_k ar M k = Ok pl \<and> track ar nf st (ly_n_bins lp) pl (ly_n_ret lp) = Ok x \<and>
     build_holdings ar nf st (nat (st_hold_n spec)) pl = Ok h \<and> own_run ar sorter mk nf st spec pl = Ok ([l], [m]))"

definition stuck_point ::
  "arith \<Rightarrow> deficit_sorter \<Rightarrow> market_window \<Rightarrow> nat \<Rightarrow> pr_store \<Rightarrow> strategy_spec \<Rightarrow> layer_params \<Rightarrow> nat \<Rightarrow> bool" where
  "stuck_point ar sorter mk nf st spec lp M \<longleftrightarrow> (\<exists>ks. build_lattice nf M = Ok ks \<and> (\<exists>k\<in>set ks. \<not> point_runs ar sorter mk nf st spec lp M k))"

lemma mine_phases_cases:
  assumes "env_ok env" "mv_ar env = ar" "2 \<le> nf" "0 < M" "windows_ok lp" "0 < sr_n_d st"
  shows "case mine_phases env mk nf st spec lp M diff base of
      Fail e \<Rightarrow> \<not> internal e \<and> (well_begun ar mk st lp M \<longrightarrow> outside e) \<and> stuck_point ar (mv_sorter env) mk nf st spec lp M \<or>
        e = RecheckDiffers \<and> nan_summary ar nf st lp M
    | Ok m \<Rightarrow> md_selfcheck m = diff \<and> mined_ok ar (mv_sorter env) mk nf st spec lp M m"
proof -
  have nf: "0 < nf" using assms(3) by simp
  obtain ks where ks: "build_lattice nf M = Ok ks" using build_lattice_suffixes [OF nf assms(4)] by blast
  have idx: "check_index nf M ks = Ok ()" by (rule check_index_ok [OF nf assms(4) ks])
  have E: "nth_element_ok (mv_pick env)" "\<And>n. set (mv_sens env n) = {..<n}" "\<And>n. crew_schedule (mv_threads env) n (mv_scan env n)"
    "\<And>n. crew_schedule (mv_threads env) n (mv_test env n)" "\<And>n b. set (mv_hold env n b) = {..<min 512 (n - b)}"
    using assms(1) by (auto simp: env_ok_def)
  have stuck: "stuck_point ar (mv_sorter env) mk nf st spec lp M" if "r < length ks" "\<not> point_runs ar (mv_sorter env) mk nf st spec lp M (ks ! r)" for r
    using ks that nth_mem [OF that(1)] unfolding stuck_point_def by blast
  note scan = scan_points_cases [OF assms(5) E(3)]
  have lat: "lattice_points nf M ks" using lattice_rows(2) [OF nf assms(4) ks] assms(4) by (simp add: lattice_points_def)
  note def = mine_phases_def [of env mk nf st spec lp M diff base] 
  show ?thesis
  proof (cases "scan_points ar nf st lp M ks (mv_threads env) (mv_scan env (length ks))")
    case (Fail e)
    from scan(2) [OF Fail] obtain r where "r < length ks" "unscannable ar nf st lp M ks r e" by blast
    then have "\<not> internal e" "stuck_point ar (mv_sorter env) mk nf st spec lp M" "well_begun ar mk st lp M \<longrightarrow> outside e"
      using stuck lat unfolding unscannable_def point_runs_def by blast+
    then show ?thesis by (simp add: def Let_def ks idx assms(2) Fail)
  next
    case (Ok pts)
    note S = scan(1) [OF Ok]
    from score_points_ok [OF assms(3,4) ks conjunct1 [OF S] E(2), of ar] obtain pts2 where P: "score_points ar nf M (mv_sens env (length ks)) ks pts = Ok pts2"
      "length pts2 = length ks" "\<forall>i<length ks. \<forall>c<10. pts2 ! i ! c = pts ! i ! c" by blast
    have point: "\<exists>pl x. plan_from_k ar M (ks ! r) = Ok pl \<and> track ar nf st (ly_n_bins lp) pl (ly_n_ret lp) = Ok x \<and>
        (\<forall>c<10. pts2 ! r ! c = point_summary ar (window_stats ar nf st lp pl) ! c)" if "r < length ks" for r
      using conjunct2 [OF S] that P(3) by (fastforce simp: scanned_def nth_append)
    let ?F = "find_styles ar (mv_pick env) (mv_hold env (min (length ks) MINE_DEDUP_CAND)) nf M st (nat (st_hold_n spec)) ks pts2"
    show ?thesis
    proof (cases ?F)
      case F: (Fail e)
      from find_styles_stops [OF F E(1)] E(5) P(2) obtain c where c: "c < length ks" "point_holdings ar nf M st (nat (st_hold_n spec)) ks c = Fail e" by auto
      then have "\<not> point_runs ar (mv_sorter env) mk nf st spec lp M (ks ! c)" by (auto simp: point_runs_def point_holdings_def)
      have "outside e" if w: "well_begun ar mk st lp M"
      proof -
        obtain pl where "plan_from_k ar M (ks ! c) = Ok pl" using point_has_plan [OF w lat c(1)] by (cases "plan_from_k ar M (ks ! c)") auto
        then show ?thesis using c(2) build_holdings_outside by (simp add: point_holdings_def)
      qed
      with \<open>\<not> point_runs ar (mv_sorter env) mk nf st spec lp M (ks ! c)\<close> show ?thesis
        using F stuck [OF c(1)] find_styles_error [OF F] by (simp add: def Let_def ks idx assms(2) Ok P(1))
    next
      case F: (Ok ch)
      have sub: "set (ch_styles ch) \<subseteq> {..<length ks}" using find_styles_points [OF F E(1)] P(2) by simp
      let ?T = "test_styles ar (mv_sorter env) mk nf st spec lp M ks pts2 (ch_styles ch) (mv_threads env) (mv_test env (length (ch_styles ch)))"
      note test = test_styles_cases [OF assms(5) E(4) assms(6)]
      show ?thesis
      proof (cases ?T)
        case T: (Fail e)
        from test(2) [OF T] obtain i where i: "i < length (ch_styles ch)" "untestable ar (mv_sorter env) mk nf st spec lp M ks pts2 (ch_styles ch) i e" by blast
        have r: "ch_styles ch ! i < length ks" using sub i(1) nth_mem by blast
        have "\<not> internal e \<and> (well_begun ar mk st lp M \<longrightarrow> outside e) \<and> stuck_point ar (mv_sorter env) mk nf st spec lp M \<or>
            e = RecheckDiffers \<and> nan_summary ar nf st lp M"
        proof (cases "internal e")
          case True
          with i(2) obtain pl where e: "e = RecheckDiffers" "plan_from_k ar M (ks ! (ch_styles ch ! i)) = Ok pl"
            "\<not> same_summary (point_summary ar (window_stats ar nf st lp pl)) (pts2 ! (ch_styles ch ! i))" by (auto simp: untestable_def)
          with point [OF r] obtain c where "c < 10" "\<not> feq (point_summary ar (window_stats ar nf st lp pl) ! c) (point_summary ar (window_stats ar nf st lp pl) ! c)"
            by (auto simp: same_summary_def list_all_iff)
          then have "c < 10" "point_summary ar (window_stats ar nf st lp pl) ! c = NaN" by (cases "point_summary ar (window_stats ar nf st lp pl) ! c"; simp)+
          then show ?thesis using e(1,2) ks r nth_mem [OF r] unfolding nan_summary_def by blast
        next
          case False
          with i(2) have "\<not> point_runs ar (mv_sorter env) mk nf st spec lp M (ks ! (ch_styles ch ! i))"
            unfolding untestable_def point_runs_def by (auto simp: internal_def)
          moreover from False i(2) lat sub have "well_begun ar mk st lp M \<longrightarrow> outside e" unfolding untestable_def by (auto simp: internal_def)
          ultimately show ?thesis using False stuck [OF r] by blast
        qed
        then show ?thesis by (simp add: def Let_def ks idx assms(2) Ok P(1) F T)
      next
        case T: (Ok res)
        have "mined_ok ar (mv_sorter env) mk nf st spec lp M \<lparr>md_grid = ks, md_points = pts2, md_styles = ch_styles ch, md_results = res, md_base = base,
            md_base_pct = (base_percentile ar base 0 pts2, base_percentile ar base 6 pts2), md_selfcheck = diff\<rparr>"
          using test(1) [OF T] sub point nth_mem by (fastforce simp: mined_ok_def ks P(2))
        then show ?thesis by (simp add: def Let_def ks idx assms(2) Ok P(1) F T)
      qed
    qed
  qed
qed

section \<open>A quiet year\<close>

text \<open>Forty instruments that stay at the limit on all of 274 days: their prices do not move and nothing can be bought.\<close>

definition quiet_market :: market_window where
  "quiet_market = \<lparr>mk_d_lo = 0, mk_n_d = 274, mk_n_a = 40, mk_close = replicate 10960 (Fin 1), mk_flags = replicate 10960 LIM_UP\<rparr>"

definition quiet_store :: pr_store where
  "quiet_store = \<lparr>sr_n_d = 274, sr_max_cnt = 40, sr_off = map (\<lambda>i. 40 * i) [0..<275], sr_memb = map (\<lambda>j. j mod 40) [0..<10960],
     sr_pr = replicate 21920 (Fin 1), sr_fret = replicate 10960 (Fin 0), sr_voff = map (\<lambda>i. 40 * i) [0..<275],
     sr_vpr = replicate 21920 (Fin 1), sr_vfret = replicate 10960 (Fin 0)\<rparr>"

lemma quiet_store_at:
  assumes "i < 274"
  shows "cnt quiet_store i = 40" "day_members quiet_store i = [0..<40]" "vcnt quiet_store i = 40" "vfret_row quiet_store i = replicate 40 (Fin 0)"
proof -
  show c: "cnt quiet_store i = 40" "vcnt quiet_store i = 40" using assms by (simp_all add: quiet_store_def cnt_def vcnt_def)
  show "day_members quiet_store i = [0..<40]"
    using assms unfolding day_members_def c by (intro nth_equalityI) (simp_all add: quiet_store_def substr_def)
  show "vfret_row quiet_store i = replicate 40 (Fin 0)"
    using assms unfolding vfret_row_def c by (simp add: quiet_store_def substr_def)
qed

lemma quiet_store_quiet: "quiet quiet_market quiet_store"
proof -
  have "limited quiet_market i a" if "i < 274" "a < 40" for i a
    using that by (simp add: limited_def flags_at_def quiet_market_def has_flag_def LIM_UP_def LIM_DN_def)
  then show ?thesis by (auto simp: quiet_def quiet_store_at) (simp_all add: quiet_market_def quiet_store_def)
qed

lemma quiet_own_run: "quiet mk st \<Longrightarrow> \<exists>l m. own_run exact_arith sorter mk nf st wide_strategy pl = Ok ([l], [m])"
proof -
  assume q: "quiet mk st"
  have "st_hold_n wide_strategy = 40" "st_exit_ratio wide_strategy = Fin 1" by (simp_all add: wide_strategy_def mine_strategy_def)
  with quiet_run [OF q] show ?thesis unfolding own_run_def quiet_need by simp
qed

lemma zeros_summary: "0 < n \<Longrightarrow> summarize exact_arith (replicate n (Fin 0)) = replicate 4 (Fin 0)" "0 < n \<Longrightarrow> mean_of exact_arith (replicate n (Fin 0)) = Fin 0"
proof -
  have z: "foldl (fadd Fin) (Fin 0) (replicate n (Fin 0)) = Fin 0" for n by (induction n) simp_all
  then show m: "0 < n \<Longrightarrow> mean_of exact_arith (replicate n (Fin 0)) = Fin 0" by (simp add: mean_of_def)
  have v: "foldl (\<lambda>s v. let d = fsub Fin v (Fin 0) in fadd Fin s (fmul Fin d d)) (Fin 0) (replicate n (Fin 0)) = Fin 0" for n
    by (induction n) (simp_all add: fsub_def Let_def)
  show "summarize exact_arith (replicate n (Fin 0)) = replicate 4 (Fin 0)" if n: "0 < n"
  proof -
    have "sort (replicate n (Fin 0)) = replicate n (Fin 0)" by (simp add: sorted_sort_id)
    moreover have "(n - 1) div 10 < n" using n by (metis One_nat_def diff_less div_le_dividend le_less_trans zero_less_one)
    ultimately have s: "sort (replicate n (Fin 0)) ! ((n - 1) div 10) = Fin 0" by simp
    have f: "filter (\<lambda>v. fless (Fin 0) v) (replicate n (Fin 0)) = []" by simp
    have four: "replicate 4 (Fin 0) = [Fin 0, Fin 0, Fin 0, Fin 0]" by (simp add: numeral_eq_Suc)
    show ?thesis unfolding summarize_def m [OF n] Let_def [of "double exact_arith"] Let_def [of "Fin 0"] length_replicate four f s
      using n by (simp add: v [unfolded Let_def] narrow_def Let_def)
  qed
qed

lemma quiet_summary:
  assumes "quiet mk st" "make_layer exact_arith wide_strategy 274 = Ok lp"
  shows "point_summary exact_arith (window_stats exact_arith nf st lp pl) = replicate 10 (Fin 0)"
proof -
  have lp: "ly_n_bins lp = 10" "ly_n_ret lp = 273" using wide_layers assms(2) by auto
  note w = make_layer_windows [OF assms(2)]
  have V: "sq_err (line_points 10 (\<lambda>j. 1) (\<lambda>j. 1)) ((\<Sum>(x, y)\<leftarrow>line_points 10 (\<lambda>j. 1) (\<lambda>j. 1). y) / 10) 0 = 0"
    by (simp add: line_points_def sq_err_def comp_def sum_list_triv)
  have "regress exact_arith lp (replicate 10 (Fin 1)) (replicate 10 (Fin 1)) = no_stat"
    using regress_exact(3) [OF assms(2), of "replicate 10 (Fin 1)" "\<lambda>j. 1" "replicate 10 (Fin 1)" "\<lambda>j. 1"] V by (simp add: lp(1))
  then have s: "window_stat exact_arith lp (replicate 10 (Fin 1), (Fin 0, Fin 0)) (replicate 10 (Fin 1), (Fin 0, Fin 0)) = no_stat"
    by (simp add: window_stat_def no_stat_def win_sharpe_def fsub_def LAYER_WINDOW_def Let_def)
  have h: "track_at exact_arith nf st 10 pl t = (replicate 10 (Fin 1), (Fin 0, Fin 0))" if "t \<le> 273" for t
    using quiet_track [OF assms(1) that] by (simp add: track_at_def)
  have "window_stats exact_arith nf st lp pl = map (\<lambda>i. no_stat) [0..<ly_n_win lp]"
    unfolding window_stats_def Let_def lp(1)
  proof (rule map_cong [OF refl])
    fix i assume "i \<in> set [0..<ly_n_win lp]"
    then have "i * LAYER_STEP + LAYER_WINDOW \<le> 273" using w(3) [of i] lp(2) by simp
    then have "i * LAYER_STEP \<le> 273" "i * LAYER_STEP + LAYER_WINDOW \<le> 273" by linarith+
    then show "window_stat exact_arith lp (track_at exact_arith nf st 10 pl (i * LAYER_STEP)) (track_at exact_arith nf st 10 pl (i * LAYER_STEP + LAYER_WINDOW)) = no_stat"
      by (simp only: h s)
  qed
  then have "window_stats exact_arith nf st lp pl = replicate (ly_n_win lp) no_stat" by (simp add: map_replicate_const)
  moreover have "0 < ly_n_win lp" using w(4) by simp
  ultimately show ?thesis by (simp add: point_summary_def no_stat_def zeros_summary narrow_def numeral_eq_Suc)
qed

definition quiet_env :: mine_env where
  "quiet_env = \<lparr>mv_ar = exact_arith, mv_sorter = sort_deficits, mv_pick = (\<lambda>n. in_order), mv_threads = 2, mv_days2 = (\<lambda>n. [0..<n]), mv_days3 = rev \<circ> upt 0,
     mv_scan = (\<lambda>n. map (Pair 1) (bases BATCH n)), mv_sens = rev \<circ> upt 0, mv_hold = (\<lambda>n b. [0..<min 512 (n - b)]), mv_test = (\<lambda>n. map (Pair 0) (rev (bases BATCH n)))\<rparr>"

lemma in_order_picks: "nth_element_ok (\<lambda>n. in_order)"
  unfolding nth_element_ok_def
proof (intro allI impI conjI ballI)
  fix n :: nat and xs :: "ranked list" and p q assume d: "distinct (map snd xs)" and "p \<in> set (take n (in_order xs))" "q \<in> set (drop n (in_order xs))"
  with in_order_sorted [OF d] have "ahead p q" by (metis append_take_drop_id sorted_wrt_append)
  then show "\<not> ahead q p" by (rule ahead_asym)
qed (rule in_order_mset)

lemma quiet_env_ok: "env_ok quiet_env"
  by (auto simp: env_ok_def quiet_env_def in_order_picks crew_schedule_def comp_def)

lemma quiet_points:
  assumes "quiet mk st" "make_layer exact_arith wide_strategy 274 = Ok lp"
  shows "\<not> stuck_point exact_arith sorter mk 2 st wide_strategy lp 1" "\<not> nan_summary exact_arith 2 st lp 1"
proof -
  have lp: "ly_n_bins lp = 10" "ly_n_ret lp = 273" using wide_layers assms(2) by auto
  have hn: "nat (st_hold_n wide_strategy) = 40" by (simp add: wide_strategy_def)
  have ks: "build_lattice 2 1 = Ok [[- 1, 0], [0, 1], [0, - 1], [1, 0]]" by code_simp
  have plan: "\<exists>pl. plan_from_k exact_arith 1 k = Ok pl" if "k \<in> {[- 1, 0], [0, 1], [0, - 1], [1, 0]}" for k
    using that by (elim insertE emptyE) (simp_all add: plan_from_k_def push_term_def new_plan_def seal_def Let_def)
  have "point_runs exact_arith sorter mk 2 st wide_strategy lp 1 k" if k: "k \<in> {[- 1, 0], [0, 1], [0, - 1], [1, 0]}" for k
  proof -
    obtain pl where pl: "plan_from_k exact_arith 1 k = Ok pl" using plan [OF k] by blast
    obtain h where h: "build_holdings exact_arith 2 st 40 pl = Ok h" using quiet_holdings [OF assms(1)] by blast
    obtain l m where lm: "own_run exact_arith sorter mk 2 st wide_strategy pl = Ok ([l], [m])" using quiet_own_run [OF assms(1)] by blast
    have t: "track exact_arith 2 st 10 pl 273 = Ok (replicate 10 (Fin 1), (Fin 0, Fin 0))" by (rule quiet_track [OF assms(1)]) simp
    show ?thesis unfolding point_runs_def lp hn by (intro exI conjI) (rule pl, rule t, rule h, rule lm)
  qed
  then have "\<forall>k\<in>set [[- 1, 0], [0, 1], [0, - 1], [1, 0]]. point_runs exact_arith sorter mk 2 st wide_strategy lp 1 k" by simp
  then show "\<not> stuck_point exact_arith sorter mk 2 st wide_strategy lp 1" unfolding stuck_point_def ks by blast
  show "\<not> nan_summary exact_arith 2 st lp 1"
  proof
    assume "nan_summary exact_arith 2 st lp 1"
    then obtain pl c where "c < 10" "point_summary exact_arith (window_stats exact_arith 2 st lp pl) ! c = NaN" unfolding nan_summary_def by blast
    then show False unfolding quiet_summary [OF assms] by simp
  qed
qed

lemma layers_windows_ok: "make_layer ar spec nd = Ok lp \<Longrightarrow> windows_ok lp"
  using make_layer_windows [of ar spec nd lp] by (auto simp: windows_ok_def)

lemma baseline_stops:
  assumes "well_begun ar mk st lp M" "windows_ok lp" "baseline ar nf st lp p0 = Fail e"
  shows "outside e \<and> (\<nexists>x. track ar nf st (ly_n_bins lp) p0 (ly_n_ret lp) = Ok x)"
proof -
  from assms(3) have run: "run_layer_batch ar nf st lp [p0] (make_layer_scratch lp 1) = Fail e" by (auto simp: baseline_def bind_ok_Fail_iff)
  have s: "scratch_ready lp (make_layer_scratch lp 1)" "length [p0] \<le> length (ls_lanes (make_layer_scratch lp 1))" using fresh_scratch [of lp 1] by simp_all
  have w: "0 < ly_n_bins lp" "\<And>w. w < ly_n_win lp \<Longrightarrow> w * LAYER_STEP + LAYER_WINDOW \<le> ly_n_ret lp" using assms(2) by (simp_all add: windows_ok_def)
  from run_layer_batch_cases(2) [OF s w run] layer_batch_outside [OF assms(1) s run] show ?thesis by simp
qed

text \<open>The store of a run fits its market.\<close>

lemma store_stocked:
  assumes "store_ok ar ax T mk s fs d_lo n st" "load_market ax T lo (int n) = Ok mk"
  shows "stocked mk st"
  using load_market_closes [OF assms(2)] assms(1) by (auto simp: stocked_def store_ok_def Let_def pool_row_def)

lemma store_well_filled:
  assumes "store_ok ar ax T mk s fs d_lo n st" "make_layer ar spec n = Ok lp" "list_all (\<lambda>t. vcnt st t \<ge> ly_n_bins lp) [0..<ly_n_ret lp]" "n_a ax \<le> 2 ^ 20"
  shows "well_filled st lp"
  unfolding well_filled_def
proof (intro conjI allI impI)
  note w = make_layer_windows [OF assms(2)]
  show "0 < ly_n_bins lp" using w(1) by simp
  fix t assume t: "t < ly_n_ret lp"
  then show "ly_n_bins lp \<le> vcnt st t" using assms(3) by (simp add: list_all_iff)
  have "t < n" using t w(2) by simp
  then have st: "cnt st t = length (pool_row ax T s (d_lo + t))" "vcnt st t = length (valid_idx st t)" "vfret_row st t = valid_rets st t"
    using assms(1) by (simp_all add: store_ok_def Let_def)
  have "length (valid_idx st t) \<le> cnt st t" unfolding valid_idx_def using length_filter_le [of _ "[0..<cnt st t]"] by simp
  also have "\<dots> \<le> n_a ax" unfolding st(1) pool_row_def using length_filter_le [of _ "[0..<n_a ax]"] by simp
  finally show "vcnt st t \<le> 2 ^ 20" using assms(4) by (simp add: st(2))
  show "length (vfret_row st t) = vcnt st t" by (simp add: st valid_rets_def)
qed

lemma run_cases:
  assumes "env_ok env" "mv_ar env = ar" "format_rounding (single ar)" "close_rounding (double ar)" "fless (Fin 0) (double ar (1 / 10 ^ 9))"
    "2 \<le> length fs" "0 < M" "M \<le> 2 ^ 24" "fless (Fin 0) (single ar (1 / real M))" "n_a ax \<le> 2 ^ 20"
    "target_index specs name = Ok s" "weights_ok ar (specs ! s)" "0 < st_hold_n (specs ! s)"
    "\<forall>d<n_d ax. score_column_ok ax s d T \<and> score_column_exact ar ax (specs ! s) s d T \<and> rank_column_ok ax s d T"
    "run_days ar (mv_sorter env) wsort ax meta T nt (specs ! s) s = Ok (rv, b)" "length results = length specs" "results ! s = (rv_d_lo rv, bk_strat_nav b)"
  shows "let n = n_d ax - rv_d_lo rv; nf = length fs; mk = rv_market rv; spec = specs ! s; ws = st_weights spec;
      pr = build_pr ar (mv_days2 env n) (mv_days3 env n) ax T mk s fs (rv_d_lo rv) n in
    case mine_run env ax T specs name fs M results of
      Fail e \<Rightarrow>
        e \<in> {EmptyPool, MineFactorNotFinite, CloseNotPositive} \<and> \<not> pools_clean ax T mk s fs (rv_d_lo rv) n \<or>
        e \<in> {TooFewBins, WindowTooShort, TooFewWindows} \<and> (ps_universe_size (st_pool spec) div st_hold_n spec < 10 \<or> n < 274) \<or>
        e \<in> {PlanFull, FactorNotMined} \<and> \<not> (fst ` set ws \<subseteq> set fs \<and> length ws \<le> nf) \<or>
        e = RefNotPositive \<and> (\<exists>v\<in>set (bk_strat_nav b). \<not> fless (Fin 0) v) \<or>
        (\<exists>st lp. pr = Ok st \<and> make_layer ar spec n = Ok lp \<and>
          (e = BelowBins \<and> (\<exists>t. Suc t < n \<and> vcnt st t < ly_n_bins lp) \<or>
           outside e \<and> (stuck_point ar (mv_sorter env) mk nf st spec lp M \<or>
             (\<exists>p0. plan_of_weights ar fs ws = Ok p0 \<and> \<not> plan_runs ar (mv_sorter env) mk nf st spec lp p0)) \<or>
           e = RecheckDiffers \<and> nan_summary ar nf st lp M))
    | Ok m \<Rightarrow> md_selfcheck m = Fin 0 \<and> (\<exists>st lp. pr = Ok st \<and> make_layer ar spec n = Ok lp \<and> mined_ok ar (mv_sorter env) mk nf st spec lp M m)"
proof -
  let ?n = "n_d ax - rv_d_lo rv" and ?nf = "length fs" and ?spec = "specs ! s" and ?mk = "rv_market rv"
  let ?pr = "build_pr ar (mv_days2 env ?n) (mv_days3 env ?n) ax T ?mk s fs (rv_d_lo rv) ?n"
  note W = run_days_window [OF assms(15)] and D = assms(4) [unfolded close_rounding_def, THEN conjunct1]
  have d: "set (mv_days2 env ?n) = {..<?n}" "set (mv_days3 env ?n) = {..<?n}" using assms(1) by (simp_all add: env_ok_def)
  have len: "length (bk_strat_nav b) = ?n"
    using backtest_days_length [OF W(5)] assms(14) W(6-8) by (simp add: new_book_def)
  with assms(16,17) W(3) have res: "length results = length specs" "fst (results ! s) = nat (lower_d ax (st_bt_start_date ?spec))"
    "length (snd (results ! s)) = n_d ax - nat (lower_d ax (st_bt_start_date ?spec))" "snd (results ! s) = bk_strat_nav b" by simp_all
  have lo: "\<not> \<not> (0 \<le> lower_d ax (st_bt_start_date ?spec) \<and> lower_d ax (st_bt_start_date ?spec) < int (n_d ax))"
    "\<not> \<not> (length results = length specs \<and> fst (results ! s) = rv_d_lo rv \<and> length (bk_strat_nav b) = ?n)" using W(1-3) res by simp_all
  let ?rest = "\<lambda>st. bind_ok (make_layer ar ?spec ?n) (\<lambda>lp.
       if \<not> list_all (\<lambda>t. vcnt st t \<ge> ly_n_bins lp) [0..<ly_n_ret lp] then Fail BelowBins
       else bind_ok (plan_of_weights ar fs (st_weights ?spec)) (\<lambda>p0.
         bind_ok (self_check ar (mv_sorter env) ?mk ?nf st ?spec p0 (bk_strat_nav b)) (\<lambda>diff.
         bind_ok (baseline ar ?nf st lp p0) (\<lambda>base. mine_phases env ?mk ?nf st ?spec lp M diff base))))"
  have run: "mine_run env ax T specs name fs M results = bind_ok ?pr ?rest"
    unfolding mine_run_def assms(11) bind_ok.simps Let_def if_not_P [OF lo(1)] assms(2) W(3) [symmetric] W(4) lift_error.simps res(4) if_not_P [OF lo(2)] ..
  show ?thesis
  proof (cases ?pr)
    case (Fail e)
    from build_pr_stops [OF d Fail] show ?thesis unfolding run Fail Let_def by simp
  next
    case (Ok st)
    have store: "store_ok ar ax T ?mk s fs (rv_d_lo rv) ?n st" using build_pr_cases(2) [OF d Ok] by blast
    have nd: "sr_n_d st = ?n" using store by (simp add: store_ok_def)
    have stock: "stocked ?mk st" by (rule store_stocked [OF store W(4)])
    show ?thesis
    proof (cases "make_layer ar ?spec ?n")
      case L: (Fail e)
      from make_layer_stops [OF L] show ?thesis unfolding run Ok Let_def by (simp add: L)
    next
      case L: (Ok lp)
      note w = make_layer_windows [OF L]
      show ?thesis
      proof (cases "list_all (\<lambda>t. vcnt st t \<ge> ly_n_bins lp) [0..<ly_n_ret lp]")
        case False
        then obtain t where "t < ?n - 1" "vcnt st t < ly_n_bins lp" by (auto simp: list_all_iff w(2) not_le)
        then have "\<exists>t. Suc t < ?n \<and> vcnt st t < ly_n_bins lp" by (intro exI [of _ t]) simp
        then show ?thesis unfolding run Ok Let_def using False by (simp add: L)
      next
        case bins: True
        have start: "well_begun ar ?mk st lp M"
          using store_well_filled [OF store L bins assms(10)] stock assms(3,4,8,9) by (simp add: well_begun_def)
        have pos: "0 < sr_n_d st" using w(3) [of 0] w(2,4) by (simp add: nd LAYER_WINDOW_def)
        show ?thesis
        proof (cases "plan_of_weights ar fs (st_weights ?spec)")
          case P: (Fail e)
          from plan_of_weights_stops [OF assms(3,12) P] show ?thesis unfolding run Ok Let_def using bins by (simp add: L P)
        next
          case P: (Ok p0)
          have sc: "case self_check ar (mv_sorter env) ?mk ?nf st ?spec p0 (bk_strat_nav b) of
              Fail e \<Rightarrow> outside e \<and> (\<nexists>l m. own_run ar (mv_sorter env) ?mk ?nf st ?spec p0 = Ok ([l], [m])) \<or>
                e = RefNotPositive \<and> (\<exists>i < sr_n_d st. \<not> fless (Fin 0) (bk_strat_nav b ! i))
            | Ok x \<Rightarrow> x = Fin 0"
          proof (rule self_check_passes [OF D assms(5) _ _ stock pos])
            show "rounding (single ar)" using assms(3) by (simp add: format_rounding_def)
            show "case batch_days ar (mv_sorter env) ?mk ?nf st (nat (prefix_need ar ?spec)) [p0] [new_engine ar (st_hold_n ?spec) (st_exit_ratio ?spec)] of
                Fail e \<Rightarrow> True | Ok lns \<Rightarrow> \<exists>l. lns = [l] \<and> ln_navs l = bk_strat_nav b"
              using search_follows [OF assms(3,12-15) d Ok P] by (auto split: outcome.splits)
          qed
          show ?thesis
          proof (cases "self_check ar (mv_sorter env) ?mk ?nf st ?spec p0 (bk_strat_nav b)")
            case S: (Fail e)
            have r: "?rest st = Fail e" using L bins P S by simp
            from sc [unfolded S outcome.case] show ?thesis
            proof
              assume "outside e \<and> (\<nexists>l m. own_run ar (mv_sorter env) ?mk ?nf st ?spec p0 = Ok ([l], [m]))"
              then have "outside e" "\<not> plan_runs ar (mv_sorter env) ?mk ?nf st ?spec lp p0" by (simp_all add: plan_runs_def)
              then show ?thesis unfolding run Ok bind_ok.simps r Let_def using L P by auto
            next
              assume e: "e = RefNotPositive \<and> (\<exists>i < sr_n_d st. \<not> fless (Fin 0) (bk_strat_nav b ! i))"
              then have "\<exists>v\<in>set (bk_strat_nav b). \<not> fless (Fin 0) v" using len nd nth_mem by metis
              then show ?thesis unfolding run Ok bind_ok.simps r Let_def using e by simp
            qed
          next
            case S: (Ok diff)
            show ?thesis
            proof (cases "baseline ar ?nf st lp p0")
              case B: (Fail e)
              have r: "?rest st = Fail e" using L bins P S B by simp
              from baseline_stops [OF start layers_windows_ok [OF L] B] have "outside e" "\<not> plan_runs ar (mv_sorter env) ?mk ?nf st ?spec lp p0"
                by (auto simp: plan_runs_def)
              then show ?thesis unfolding run Ok bind_ok.simps r Let_def using L P by auto
            next
              case B: (Ok base)
              have rest: "?rest st = mine_phases env ?mk ?nf st ?spec lp M diff base" using L bins P S B by simp
              note ph = mine_phases_cases [OF assms(1,2,6,7) layers_windows_ok [OF L] pos, of ?mk ?spec diff base]
              show ?thesis
              proof (cases "mine_phases env ?mk ?nf st ?spec lp M diff base")
                case F: (Fail e)
                then show ?thesis using ph L start unfolding run Ok bind_ok.simps rest Let_def by auto
              next
                case F: (Ok m)
                then show ?thesis using ph L S sc unfolding run Ok bind_ok.simps rest Let_def by auto
              qed
            qed
          qed
        qed
      qed
    qed
  qed
qed

section \<open>Properties\<close>

text \<open>C16. The scan of the lattice. However many workers share the batches, whichever takes which and in which order they are done, and although a worker
  uses its scratch again for every batch: the table of phase 1 has for each point, in its row, the summary that its weights have alone, with the five
  columns of phase 2 still empty; the scan fails only if the layers of some point fail alone.\<close>

theorem scan_is_each_point:
  assumes "make_layer ar spec nd = Ok lp" "crew_schedule thr (length ks) sched"
  shows "case scan_points ar nf st lp M ks thr sched of
      Fail e \<Rightarrow> \<exists>k\<in>set ks. \<not> (\<exists>pl x. plan_from_k ar M k = Ok pl \<and> track ar nf st (ly_n_bins lp) pl (ly_n_ret lp) = Ok x)
    | Ok pts \<Rightarrow> map_ok (\<lambda>k. bind_ok (plan_from_k ar M k) (\<lambda>pl. Ok (point_summary ar (window_stats ar nf st lp pl) @ replicate 5 (Fin 0)))) ks = Ok pts"
proof (cases "scan_points ar nf st lp M ks thr sched")
  case (Fail e)
  from scan_points_cases(2) [OF layers_windows_ok [OF assms(1)] assms(2) Fail] obtain r where "r < length ks" "unscannable ar nf st lp M ks r e" by blast
  then have "\<not> (\<exists>pl x. plan_from_k ar M (ks ! r) = Ok pl \<and> track ar nf st (ly_n_bins lp) pl (ly_n_ret lp) = Ok x)" "ks ! r \<in> set ks"
    by (simp_all only: unscannable_def nth_mem simp_thms)
  then show ?thesis unfolding Fail outcome.case by blast
next
  case (Ok pts)
  from scan_points_cases(1) [OF layers_windows_ok [OF assms(1)] assms(2) Ok] have l: "length pts = length ks"
    and r: "\<forall>r<length ks. scanned ar nf st lp M ks r pts" by (simp_all add: table_ok_def)
  have "bind_ok (plan_from_k ar M (ks ! r)) (\<lambda>pl. Ok (point_summary ar (window_stats ar nf st lp pl) @ replicate 5 (Fin 0))) = Ok (pts ! r)" if "r < length ks" for r
    using r [rule_format, OF that] by (auto simp: scanned_def)
  with l show ?thesis using Ok by (simp add: map_ok_all2 list_all2_conv_all_nth)
qed

lemma scan_is_each_point_witness:
  "\<exists>lp. make_layer exact_arith wide_strategy 274 = Ok lp \<and>
     scan_points exact_arith 2 quiet_store lp 1 [[0, 1], [1, 0]] 3 [(2, 0)] = Ok [replicate 15 (Fin 0), replicate 15 (Fin 0)]"
proof -
  obtain lp where lp: "make_layer exact_arith wide_strategy 274 = Ok lp" "ly_n_bins lp = 10" "ly_n_ret lp = 273" using wide_layers by blast
  let ?ks = "[[0, 1], [1, 0]] :: int list list"
  have plan: "\<exists>pl. plan_from_k exact_arith 1 k = Ok pl" if "k \<in> set ?ks" for k
  proof -
    from that have "k \<in> {[0, 1], [1, 0]}" by simp
    then show ?thesis by (elim insertE emptyE) (simp_all add: plan_from_k_def push_term_def new_plan_def seal_def Let_def)
  qed
  have t: "track exact_arith 2 quiet_store 10 pl 273 = Ok (replicate 10 (Fin 1), (Fin 0, Fin 0))" for pl by (rule quiet_track [OF quiet_store_quiet]) simp
  have "bases BATCH 2 = [0]" by (simp add: bases_def BATCH_def)
  then have c: "crew_schedule 3 (length ?ks) [(2, 0)]" by (simp add: crew_schedule_def numeral_2_eq_2)
  have z: "replicate 10 (Fin 0) @ replicate 5 (Fin 0) = replicate 15 (Fin 0)" by (simp flip: replicate_add)
  note s = scan_is_each_point [OF lp(1) c, where nf = 2 and st = quiet_store and M = 1, unfolded lp(2,3)]
  have "\<forall>k\<in>set ?ks. \<exists>pl x. plan_from_k exact_arith 1 k = Ok pl \<and> track exact_arith 2 quiet_store 10 pl 273 = Ok x" using plan t by blast
  then have ex: "\<not> (\<exists>k\<in>set ?ks. \<not> (\<exists>pl x. plan_from_k exact_arith 1 k = Ok pl \<and> track exact_arith 2 quiet_store 10 pl 273 = Ok x))" by blast
  obtain pts where pts: "scan_points exact_arith 2 quiet_store lp 1 ?ks 3 [(2, 0)] = Ok pts"
    "map_ok (\<lambda>k. bind_ok (plan_from_k exact_arith 1 k) (\<lambda>pl. Ok (point_summary exact_arith (window_stats exact_arith 2 quiet_store lp pl) @ replicate 5 (Fin 0)))) ?ks = Ok pts"
  proof (cases "scan_points exact_arith 2 quiet_store lp 1 ?ks 3 [(2, 0)]")
    case (Fail e)
    show ?thesis using s [unfolded Fail outcome.case] ex by blast
  next
    case (Ok pts)
    show ?thesis using that [OF Ok s [unfolded Ok outcome.case]] .
  qed
  obtain p q where "plan_from_k exact_arith 1 [0, 1] = Ok p" "plan_from_k exact_arith 1 [1, 0] = Ok q" using plan by fastforce
  with pts(2) have "pts = [replicate 15 (Fin 0), replicate 15 (Fin 0)]" by (simp add: quiet_summary [OF quiet_store_quiet lp(1)] z)
  with lp(1) pts(1) show ?thesis by blast
qed

text \<open>C11. The search agrees with itself. With any scheduling of its threads, the phases end with a result in which every point has the summary it has alone,
  and every style is a point with the backtest it has alone on a fresh engine and the windows it has alone; or they fail because some point fails alone.
  The number check of the lattice, the range check of the neighbours and the comparison of phase 4 with phase 1 never fail - except that the comparison
  also stops at a summary that is not a number, which never equals itself.\<close>

theorem search_agrees_with_itself:
  assumes "env_ok env" "mv_ar env = ar" "2 \<le> nf" "0 < M" "make_layer ar spec (sr_n_d st) = Ok lp"
  shows "case mine_phases env mk nf st spec lp M diff base of
      Fail e \<Rightarrow> \<not> internal e \<and> stuck_point ar (mv_sorter env) mk nf st spec lp M \<or> e = RecheckDiffers \<and> nan_summary ar nf st lp M
    | Ok m \<Rightarrow> md_selfcheck m = diff \<and> mined_ok ar (mv_sorter env) mk nf st spec lp M m"
proof -
  have "0 < sr_n_d st" using assms(5) by (auto simp: make_layer_def Let_def LAYER_WINDOW_def split: if_splits)
  from mine_phases_cases [OF assms(1-4) layers_windows_ok [OF assms(5)] this, of mk spec diff base]
  show ?thesis by (cases "mine_phases env mk nf st spec lp M diff base") auto
qed

lemma search_agrees_with_itself_witness:
  "\<exists>lp m. make_layer exact_arith wide_strategy 274 = Ok lp \<and>
     mine_phases quiet_env quiet_market 2 quiet_store wide_strategy lp 1 (Fin 0) (replicate 15 (Fin 0)) = Ok m \<and> length (md_points m) = 4"
proof -
  obtain lp where lp: "make_layer exact_arith wide_strategy 274 = Ok lp" using wide_layers by blast
  have a: "mv_ar quiet_env = exact_arith" "(2 :: nat) \<le> 2" "(0 :: nat) < 1" by (simp_all add: quiet_env_def)
  have l: "make_layer exact_arith wide_strategy (sr_n_d quiet_store) = Ok lp" using lp by (simp add: quiet_store_def)
  have ks: "build_lattice 2 1 = Ok [[- 1, 0], [0, 1], [0, - 1], [1, 0]]" by code_simp
  from search_agrees_with_itself [OF quiet_env_ok a l, of quiet_market "Fin 0" "replicate 15 (Fin 0)"] quiet_points [OF quiet_store_quiet lp]
  obtain m where m: "mine_phases quiet_env quiet_market 2 quiet_store wide_strategy lp 1 (Fin 0) (replicate 15 (Fin 0)) = Ok m"
    "mined_ok exact_arith (mv_sorter quiet_env) quiet_market 2 quiet_store wide_strategy lp 1 m" by (auto split: outcome.splits)
  then have "build_lattice 2 1 = Ok (md_grid m)" "length (md_points m) = length (md_grid m)" unfolding mined_ok_def by blast+
  then have "length (md_points m) = length [[- 1, 0 :: int], [0, 1], [0, - 1], [1, 0]]" unfolding ks outcome.inject by (simp only:)
  then have "length (md_points m) = 4" by simp
  with lp m(1) show ?thesis by blast
qed

text \<open>C10. The whole run passes its own checks, in rounded arithmetic: in every one whose \<open>double\<close> is off by at most \<open>2 ^ -32\<close> on numbers up to
  \<open>2 ^ 20\<close>, as binary64 is. Started after a backtest of the strategy on the same data, with weights of the
  lattice that the arithmetic can tell from zero, the search ends with a result in which every point and every style has what it has alone, and with a
  difference of exactly zero between its portfolio and that of the backtest; or it fails, and then with one of the errors of this closed list, each
  with its cause in the data: an empty pool, a factor that is not finite there, or a price that is not positive; too few layers or days; a weight on a factor that is not
  mined; a value of the backtest that is not positive; a day with fewer members with returns than layers; a tie at the cut, a pool below the number of
  holdings, a layer or a portfolio without value, or too many positions, and this for a point or for the strategy's own weights, which then fail so alone;
  or a summary that is not a number, which never equals itself. So no other assertion fails: not the comparisons of the two scans of the pools
  (\<open>PoolScansDiffer\<close>, \<open>ValidScansDiffer\<close>), not the bounds of the selection (\<open>KeepTooMany\<close>), the mass of the layers (\<open>BinMassLost\<close>) or the sweep
  over them (\<open>SpreadEndless\<close>), not the numbering of the lattice and of the neighbours, and not the comparison with the backtest.\<close>

theorem search_passes_its_checks:
  assumes "env_ok env" "mv_ar env = ar" "format_rounding (single ar)" "close_rounding (double ar)" "fless (Fin 0) (double ar (1 / 10 ^ 9))"
    "2 \<le> length fs" "0 < M" "M \<le> 2 ^ 24" "fless (Fin 0) (single ar (1 / real M))" "n_a ax \<le> 2 ^ 20"
    "target_index specs name = Ok s" "weights_ok ar (specs ! s)" "0 < st_hold_n (specs ! s)"
    "\<forall>d<n_d ax. score_column_ok ax s d T \<and> score_column_exact ar ax (specs ! s) s d T \<and> rank_column_ok ax s d T"
    "run_days ar (mv_sorter env) wsort ax meta T nt (specs ! s) s = Ok (rv, b)" "length results = length specs" "results ! s = (rv_d_lo rv, bk_strat_nav b)"
  shows "let n = n_d ax - rv_d_lo rv; nf = length fs; mk = rv_market rv; spec = specs ! s; ws = st_weights spec;
      pr = build_pr ar (mv_days2 env n) (mv_days3 env n) ax T mk s fs (rv_d_lo rv) n in
    case mine_run env ax T specs name fs M results of
      Fail e \<Rightarrow>
        e \<in> {EmptyPool, MineFactorNotFinite, CloseNotPositive} \<and> \<not> pools_clean ax T mk s fs (rv_d_lo rv) n \<or>
        e \<in> {TooFewBins, WindowTooShort, TooFewWindows} \<and> (ps_universe_size (st_pool spec) div st_hold_n spec < 10 \<or> n < 274) \<or>
        e \<in> {PlanFull, FactorNotMined} \<and> \<not> (fst ` set ws \<subseteq> set fs \<and> length ws \<le> nf) \<or>
        e = RefNotPositive \<and> (\<exists>v\<in>set (bk_strat_nav b). \<not> fless (Fin 0) v) \<or>
        (\<exists>st lp. pr = Ok st \<and> make_layer ar spec n = Ok lp \<and>
          (e = BelowBins \<and> (\<exists>t. Suc t < n \<and> vcnt st t < ly_n_bins lp) \<or>
           e \<in> {MarginTie, PoolBelowHold, LayerNavNotPositive, BatchEngine NoValue, BatchEngine TooManyHoldings,
                StatsError FirstNotPositive, StatsError NavNotPositive} \<and>
             (stuck_point ar (mv_sorter env) mk nf st spec lp M \<or>
              (\<exists>p0. plan_of_weights ar fs ws = Ok p0 \<and> \<not> plan_runs ar (mv_sorter env) mk nf st spec lp p0)) \<or>
           e = RecheckDiffers \<and> nan_summary ar nf st lp M))
    | Ok m \<Rightarrow> md_selfcheck m = Fin 0 \<and> (\<exists>st lp. pr = Ok st \<and> make_layer ar spec n = Ok lp \<and> mined_ok ar (mv_sorter env) mk nf st spec lp M m)"
  by (rule run_cases [OF assms, unfolded outside_def])

lemma search_passes_its_checks_witness:
  "\<exists>rv b m. run_days exact_arith sort_deficits (sort_desc snd) quiet_axes bt_meta quiet_tensor [[], []] wide_strategy 0 = Ok (rv, b) \<and>
     mine_run quiet_env quiet_axes quiet_tensor [wide_strategy] (st_name wide_strategy) [Mcap, Fmcap] 1 [(rv_d_lo rv, bk_strat_nav b)] = Ok m \<and>
     md_selfcheck m = Fin 0 \<and> length (md_points m) = 4"
proof -
  obtain rv b mk where rv: "run_days exact_arith sort_deficits (sort_desc snd) quiet_axes bt_meta quiet_tensor [[], []] wide_strategy 0 = Ok (rv, b)"
    "rv_d_lo rv = 0" "rv_market rv = mk" "mk_n_d mk = 274" "bk_strat_nav b = replicate 274 (Fin 1000000)"
    and mk: "\<forall>i<274. \<forall>a<40. close_at mk i a = Fin 1 \<and> limited mk i a \<and> \<not> has_flag (flags_at mk i a) SUSP" using quiet_backtest by blast
  have env: "mv_ar quiet_env = exact_arith" "mv_sorter quiet_env = sort_deficits" by (simp_all add: quiet_env_def)
  have days: "set (mv_days2 quiet_env 274) = {..<274}" "set (mv_days3 quiet_env 274) = {..<274}" using quiet_env_ok by (simp_all add: env_ok_def)
  have h: "st_hold_n wide_strategy = 40" "st_weights wide_strategy = [(Mcap, Fin 1)]" "400 \<le> ps_universe_size (st_pool wide_strategy)"
    "st_exit_ratio wide_strategy = Fin 1" by (simp_all add: wide_strategy_def mine_strategy_def strat_0_def)
  have f: "format_rounding (single exact_arith)" "close_rounding (double exact_arith)" "fless (Fin 0) (double exact_arith (1 / 10 ^ 9))"
    "fless (Fin 0) (single exact_arith (1 / real 1))"
    using exact_format.format_rounding_axioms exact_close.close_rounding_axioms by simp_all
  have t: "target_index [wide_strategy] (st_name wide_strategy) = Ok 0" by (simp add: target_index_def)
  have w: "weights_ok exact_arith ([wide_strategy] ! 0)" "0 < st_hold_n ([wide_strategy] ! 0)"
    by (simp_all add: weights_ok_def weight_ok_def weight_sum_def h)
  have cols: "\<forall>d<n_d quiet_axes. score_column_ok quiet_axes 0 d quiet_tensor \<and> score_column_exact exact_arith quiet_axes ([wide_strategy] ! 0) 0 d quiet_tensor
      \<and> rank_column_ok quiet_axes 0 d quiet_tensor" using quiet_columns by (simp add: quiet_sizes)
  have fs: "2 \<le> length [Mcap, Fmcap]" "(0 :: nat) < 1" "(1 :: nat) \<le> 2 ^ 24" "n_a quiet_axes \<le> 2 ^ 20"
    "length [(rv_d_lo rv, bk_strat_nav b)] = length [wide_strategy]" "[(rv_d_lo rv, bk_strat_nav b)] ! 0 = (rv_d_lo rv, bk_strat_nav b)"
    by (simp_all add: quiet_sizes)
  have run: "run_days exact_arith (mv_sorter quiet_env) (sort_desc snd) quiet_axes bt_meta quiet_tensor [[], []] ([wide_strategy] ! 0) 0 = Ok (rv, b)"
    using rv(1) env(2) by simp
  have clean: "pools_clean quiet_axes quiet_tensor mk 0 [Mcap, Fmcap] 0 274" by (rule quiet_clean [OF mk]) simp
  obtain st where st: "build_pr exact_arith (mv_days2 quiet_env 274) (mv_days3 quiet_env 274) quiet_axes quiet_tensor mk 0 [Mcap, Fmcap] 0 274 = Ok st"
    using build_pr_cases(1) [OF days clean] by blast
  have q: "quiet mk st" by (rule quiet_built [OF st days rv(4) mk])
  obtain lp where lp: "make_layer exact_arith wide_strategy 274 = Ok lp" "ly_n_bins lp = 10" "ly_n_ret lp = 273" using wide_layers by blast
  note pts = quiet_points(1) [OF q lp(1), of sort_deficits] quiet_points(2) [OF q lp(1)]
  have p0: "plan_runs exact_arith sort_deficits mk 2 st wide_strategy lp pl" for pl
    using quiet_track [OF q, of 273 2 pl] quiet_own_run [OF q, of sort_deficits 2 pl] by (auto simp: plan_runs_def lp)
  have bins: "\<not> vcnt st t < ly_n_bins lp" if "Suc t < 274" for t using q that by (simp add: quiet_def lp(2))
  have sizes: "n_d quiet_axes - rv_d_lo rv = 274" "length [Mcap, Fmcap] = 2" by (simp_all add: quiet_sizes rv(2))
  have one: "[wide_strategy] ! 0 = wide_strategy" "fless (Fin 0) (Fin 1000000)" by simp_all
  have nd: "\<not> ps_universe_size (st_pool wide_strategy) div st_hold_n wide_strategy < 10" using h(1,3) by simp
  let ?run = "mine_run quiet_env quiet_axes quiet_tensor [wide_strategy] (st_name wide_strategy) [Mcap, Fmcap] 1 [(rv_d_lo rv, bk_strat_nav b)]"
  note C = search_passes_its_checks [OF quiet_env_ok env(1) f(1-3) fs(1-3) f(4) fs(4) t w cols run fs(5,6)]
  obtain m where m: "?run = Ok m" "md_selfcheck m = Fin 0" "mined_ok exact_arith sort_deficits mk 2 st wide_strategy lp 1 m"
  proof (cases ?run)
    case (Fail e)
    from C [unfolded Fail Let_def outcome.case sizes(1), unfolded rv(2,3) env(2) sizes(2) one(1)] have False
      using clean bins pts p0 nd by (simp add: st lp(1) h(2) rv(5) one(2) del: One_nat_def) blast
    then show ?thesis ..
  next
    case (Ok m)
    from C [unfolded Ok Let_def outcome.case sizes(1), unfolded rv(2,3) env(2) sizes(2) one(1)] show ?thesis using that [OF Ok] by (simp add: st lp(1))
  qed
  have ks: "build_lattice 2 1 = Ok [[- 1, 0], [0, 1], [0, - 1], [1, 0]]" by code_simp
  have "build_lattice 2 1 = Ok (md_grid m)" "length (md_points m) = length (md_grid m)" using m(3) unfolding mined_ok_def by blast+
  then have "length (md_points m) = length [[- 1, 0 :: int], [0, 1], [0, - 1], [1, 0]]" unfolding ks outcome.inject by (simp only:)
  then show ?thesis using rv(1) m(1,2) by auto
qed

end
