(* ===== verification/Spec2Isabelle.thy ===== *)
theory Spec2Isabelle
  imports Strutil Schedule Report Lattice Pools Shortlist Styles Layers Mining
begin

text \<open>
  A verification development for the stock selection and backtest program of this repository.

  \<^bold>\<open>The program.\<close> The C++ program under \<open>cpp/\<close> downloads tables of daily market and company records month by month
  (\<open>api/\<close>, \<open>misc/schedule.cpp\<close>), loads them into a pool that for every trading day only shows what was known by then
  (\<open>feature/axis.cpp\<close>, \<open>feature/pit.cpp\<close>), computes a network of features - first along time for each instrument, then
  across the instruments of each day, both on worker threads (\<open>feature/ts.cpp\<close>, \<open>feature/cs.cpp\<close>, \<open>feature/def\<close>) -, derives
  for each strategy a pool, a score and a rank per day (\<open>strategy/columns.cpp\<close>), checks the finished tensor against its
  contract (\<open>feature/build.cpp\<close>), and trades each strategy over the past (\<open>backtest/\<close>), with reports (\<open>report/\<close>). A separate tool
  under \<open>app/gzh\<close> converts articles; of it only the string utilities are modelled.

  \<^bold>\<open>The theories\<close>, in the order of the data flow. Definitions carry the names of the functions they model.
  \<^item> \<open>Prelude\<close>: outcomes with error values (\<open>Ok\<close>, \<open>Fail\<close>), folds over them, list and map lemmas.
  \<^item> \<open>Strutil\<close>: \<open>app/gzh/src/strutil.hpp\<close>. Escaping and unescaping, trimming, percent decoding, query parameters.
  \<^item> \<open>Dates\<close>: \<open>cpp/src/misc/date.cpp\<close>, with the calendar of \<open>std::chrono\<close> written out.
  \<^item> \<open>Tables\<close>, \<open>Schedule\<close>: rows and cells of Parquet tables (\<open>misc/parquet.cpp\<close>), the plan of the months to fetch
    (\<open>misc/schedule.cpp\<close>) and the update of the tables (\<open>api/tushare/pipeline.cpp\<close>), over a world of files and clock.
  \<^item> \<open>Floats\<close>: numbers with NaN and infinities, and the law of a rounding; \<open>single\<close> and \<open>double\<close> are a record \<open>arith\<close> of two
    roundings, with binary32, binary64 and exact arithmetic as instances.
  \<^item> \<open>Graph\<close>, \<open>Network\<close>: the depth-first order of the nodes (\<open>feature/graph.hpp\<close>) and the declarations of the 47 nodes
    (\<open>feature/def\<close>, \<open>feature/registry.hpp\<close>).
  \<^item> \<open>Axis\<close>, \<open>Pit\<close>, \<open>Replay\<close>: the axes (\<open>feature/axis.cpp\<close>), the event store and the grids (\<open>feature/pit.cpp\<close>, \<open>feature/pit.hpp\<close>), and
    what the pool is when only the records visible by a day are loaded.
  \<^item> \<open>Tensors\<close>, \<open>Features\<close>, \<open>Lookahead\<close>: the tensor (\<open>feature/tensor.cpp\<close>), every time-series node with its helpers
    (\<open>feature/def/detail.hpp\<close>), and their independence from the future.
  \<^item> \<open>Cross\<close>: the cross-section nodes and pipelines (\<open>feature/cs.cpp\<close>). \<open>Workers\<close>, \<open>Phases\<close>: the threads of both phases as a step
    relation over an atomic counter; one step takes one shard or computes one node of it.
  \<^item> \<open>Columns\<close>, \<open>Build\<close>, \<open>Causal\<close>, \<open>Selection\<close>: the strategy columns, \<open>build\<close> with all its assertions, and what is true of the
    tensor that it returns.
  \<^item> \<open>Engine\<close>, \<open>Accounting\<close>: the market window and the daily step of the kernel (\<open>backtest/engine.hpp\<close>, \<open>backtest/engine.cpp\<close>) and its
    bookkeeping in exact arithmetic.
  \<^item> \<open>Metrics\<close>: the indicators (\<open>report/metrics.cpp\<close>). \<open>Backtest\<close>: names over time, the day loop and what it records
    (\<open>backtest/backtest.cpp\<close>). \<open>Lattice\<close>, \<open>Pools\<close>, \<open>Shortlist\<close>, \<open>Styles\<close>, \<open>Layers\<close>, \<open>Stops\<close>, \<open>Mining\<close>: the
    weight search (\<open>mine/mine.cpp\<close>): its lattice, its store of the pool, the candidates and batches of backtests, the scores of the points
    and the choice of the styles, the layers and their windows, what can stop any of these and what cannot, and the run with its threads and its checks. \<open>Quiet\<close> holds
    a year of data in which nothing moves, for the examples of the search. \<open>Report\<close>: the tables of a strategy, and of all together (\<open>report/aggregate.cpp\<close>).

  \<^bold>\<open>What is shown.\<close> The main line joins the components. The network can be computed in its order from any roots; every node
  reads only what it declares; the threads give the result of the sequential loop under any interleaving and come to an end; \<open>build\<close>
  fails on nothing but its inputs, and its tensor up to any day is the same when built only from the records visible by that
  day (\<open>build_no_look_ahead\<close>). In that tensor exactly the best tradable instruments of a day are ranked, in the order of their
  scores (\<open>build_selects_the_best\<close>). A backtest over it passes every assertion but two, which depend on prices, and buys
  only what was tradable on the day (\<open>backtest_of_build\<close>); its ledger is consistent (\<open>backtest_ledger\<close>), the kernel keeps the limits
  of the market (\<open>step_respects_limits\<close>) and conserves value up to the fees (\<open>day_conserves_value\<close>). Beside it stand the laws of
  the parts: the weight search starts from the result of the backtest and reproduces it to the last bit; every assertion that can
  stop it is in a closed list of errors that the data cause, so that none of the checks on its own work can fail, in rounded arithmetic too
  (\<open>search_passes_its_checks\<close>). It gives every weight vector what it has alone whatever its threads do (\<open>search_agrees_with_itself\<close>) and
  picks its styles as the serial greedy choice does. Then least squares in the neutralisation (\<open>neutralize_is_ols\<close>, with the one divergence from
  the header of the code: instruments of the unknown industry 0 take part) and in beta and alpha, average ranks (\<open>pct_rank_spec\<close>), bounds on scores and
  drawdowns in rounded arithmetic, round trips of dates, texts and returns, the plan of months as a refinement of a set of
  months, the event store as a refinement of the latest visible record.

  \<^bold>\<open>Conventions.\<close> An assertion, an exception or a read the language leaves undefined is a branch \<open>Fail\<close> with a value of its
  own, so that a theorem that excludes it speaks of the program. Machine numbers are \<open>Fin\<close> of a real or NaN or an infinity, every
  operation rounded by \<open>single\<close> or \<open>double\<close> as in the source; zero has no sign, contraction to fused operations is left aside, and
  the functions of the mathematical library (\<open>exp\<close>, \<open>log\<close>, \<open>pow\<close>, \<open>sqrt\<close>) are exact and then rounded. Theorems about exact arithmetic
  say so: both roundings are the identity there. Flags are words of 8 bits. Counts and indices that stay far below the range of
  \<open>int\<close> are \<open>nat\<close> or \<open>int\<close>; ranks as floats need \<open>n_a \<le> 2^23\<close>, where they are exact.

  \<^bold>\<open>Parameters.\<close> \<open>std::nth_element\<close> and \<open>std::sort\<close> with equal keys are arguments with the law they promise
  (\<open>nth_element\<close>, \<open>desc_sort\<close>), each interpreted on a function that computes. The remote services are arguments of the updates.
  The texts of the documentation of the nodes, the roots of the framework and the registered strategies are arguments
  where a theorem holds for all of them. Loops are structural recursion or folds over index lists; the two loops that are not
  (the replacement in strings, the iteration over days) are functions with a termination proof, and the depth-first
  search runs on fuel, of which the number of nodes plus one is shown to be enough. The inner loop of the layers also runs on a counter, the
  number of layers plus two; that it never runs out is part of theory Stops.

  \<^bold>\<open>Not modelled.\<close> The format of Parquet, npy and JSON files and everything printed; HTTP, TLS and the desktop
  interfaces; memory mapping, logging, thread affinity and timing; the binary cache of the pool (\<open>feature/load.cpp\<close>); the
  article tool beyond its strings; vendored libraries; of the weight search the files it writes at the end. The factor analysis,
  \<open>analysis/analysis.cpp\<close>, is not modelled.
\<close>

end
